(* ===== verification/Prelude.thy ===== *)
theory Prelude
  imports Main "HOL-Library.Word"
begin

text \<open>
  Shared vocabulary of the development.

  \<^item> The C integer types of \<^verbatim>\<open>kernel/types.h\<close> as machine words.
  \<^item> The outcome type and the state monad in which the kernel's functions are written:
    a C function that runs on a kernel state either returns a value and the next state,
    panics, gives up the processor inside \<^verbatim>\<open>sched()\<close>, or follows a null
    or dangling pointer.
  \<^item> Generic facts on words, lists and loops that the component theories share.
\<close>

unbundle bit_operations_syntax

section \<open>C integer types\<close>

type_synonym uchar = "8 word"
type_synonym ushort = "16 word"
type_synonym uint = "32 word"

text \<open>C's \<^verbatim>\<open>/\<close> and \<^verbatim>\<open>%\<close> on signed integers truncate towards zero.\<close>

definition c_div :: "int \<Rightarrow> int \<Rightarrow> int" where
  "c_div a b = sgn a * sgn b * (\<bar>a\<bar> div \<bar>b\<bar>)"

definition c_mod :: "int \<Rightarrow> int \<Rightarrow> int" where
  "c_mod a b = a - c_div a b * b"

lemma c_mod_nonneg: "0 \<le> a \<Longrightarrow> 0 < b \<Longrightarrow> c_mod a b = a mod b"
  by (cases "a = 0") (simp_all add: c_mod_def c_div_def minus_div_mult_eq_mod)

lemma c_mod_neg: "a < 0 \<Longrightarrow> 0 < b \<Longrightarrow> c_mod a b = - ((- a) mod b)"
  by (simp add: c_mod_def c_div_def minus_div_mult_eq_mod [symmetric])

section \<open>Outcomes and the kernel monad\<close>

text \<open>
  \<^item> \<open>Ok r s\<close>: the function returned \<open>r\<close> and left the state \<open>s\<close>;
  \<^item> \<open>Panic msg\<close>: it called \<^verbatim>\<open>panic(msg)\<close>;
  \<^item> \<open>Switch s\<close>: it entered \<^verbatim>\<open>sched()\<close> in state \<open>s\<close>, so another
    process runs before it continues;
  \<^item> \<open>Undef\<close>: it dereferenced a pointer that is null or points to no object.
\<close>

datatype ('a, 's) outcome = Ok 'a 's | Panic string | Switch 's | Undef

type_synonym ('s, 'a) kfun = "'s \<Rightarrow> ('a, 's) outcome"

named_theorems kdefs "unfolding of the monad on a given state"
named_theorems kok "when a function of the monad returns normally"

definition retK :: "'a \<Rightarrow> ('s, 'a) kfun" where
  "retK a s = Ok a s"

definition panic :: "string \<Rightarrow> ('s, 'a) kfun" where
  "panic msg s = Panic msg"

definition undefK :: "('s, 'a) kfun" where
  "undefK s = Undef"

definition getK :: "('s \<Rightarrow> 'a) \<Rightarrow> ('s, 'a) kfun" where
  "getK f s = Ok (f s) s"

definition modK :: "('s \<Rightarrow> 's) \<Rightarrow> ('s, unit) kfun" where
  "modK f s = Ok () (f s)"

definition bindK :: "('s, 'a) kfun \<Rightarrow> ('a \<Rightarrow> ('s, 'b) kfun) \<Rightarrow> ('s, 'b) kfun" where
  "bindK m f s = (case m s of Ok a s' \<Rightarrow> f a s' | Panic e \<Rightarrow> Panic e
     | Switch s' \<Rightarrow> Switch s' | Undef \<Rightarrow> Undef)"

definition thenK :: "('s, 'a) kfun \<Rightarrow> ('s, 'b) kfun \<Rightarrow> ('s, 'b) kfun" where
  "thenK m n = bindK m (\<lambda>_. n)"

definition whenK :: "bool \<Rightarrow> ('s, unit) kfun \<Rightarrow> ('s, unit) kfun" where
  "whenK b m = (if b then m else retK ())"

lemmas kmonad_defs [kdefs] =
  retK_def panic_def undefK_def getK_def modK_def bindK_def thenK_def whenK_def

text \<open>The counted \<^verbatim>\<open>for\<close> loop over a list of indices, threading the state.\<close>

fun forK :: "'i list \<Rightarrow> ('i \<Rightarrow> ('s, unit) kfun) \<Rightarrow> ('s, unit) kfun" where
  "forK [] body = retK ()"
| "forK (i # is) body = thenK (body i) (forK is body)"

lemma retK_Ok [kok]: "retK a s = Ok r s' \<longleftrightarrow> r = a \<and> s' = s"
  by (auto simp: retK_def)

lemma panic_Ok [kok]: "panic e s \<noteq> Ok r s'"
  by (simp add: panic_def)

lemma undefK_Ok [kok]: "undefK s \<noteq> Ok r s'"
  by (simp add: undefK_def)

lemma getK_Ok [kok]: "getK f s = Ok r s' \<longleftrightarrow> r = f s \<and> s' = s"
  by (auto simp: getK_def)

lemma modK_Ok [kok]: "modK f s = Ok r s' \<longleftrightarrow> s' = f s"
  by (auto simp: modK_def)

lemma bindK_Ok [kok]:
  "bindK m f s = Ok r s'' \<longleftrightarrow> (\<exists>a s'. m s = Ok a s' \<and> f a s' = Ok r s'')"
  by (cases "m s") (auto simp: bindK_def)

lemma thenK_Ok [kok]:
  "thenK m n s = Ok r s'' \<longleftrightarrow> (\<exists>a s'. m s = Ok a s' \<and> n s' = Ok r s'')"
  by (simp add: thenK_def bindK_Ok)

lemma whenK_Ok [kok]:
  "whenK b m s = Ok r s' \<longleftrightarrow> (if b then m s = Ok r s' else s' = s)"
  by (auto simp: whenK_def retK_def)

lemma ifK_Ok [kok]:
  "(if b then m else n) s = Ok r s' \<longleftrightarrow> (if b then m s = Ok r s' else n s = Ok r s')"
  by simp

lemma bindK_run: "m s = Ok a s' \<Longrightarrow> bindK m f s = f a s'"
  by (simp add: bindK_def)

lemma thenK_run: "m s = Ok a s' \<Longrightarrow> thenK m n s = n s'"
  by (simp add: thenK_def bindK_def)

lemma bindK_retK [simp]: "bindK (retK a) f = f a"
  by (rule ext) (simp add: bindK_def retK_def)

lemma bindK_assoc: "bindK (bindK m f) g = bindK m (\<lambda>x. bindK (f x) g)"
  by (rule ext) (simp add: bindK_def split: outcome.split)

lemma forK_append: "forK (xs @ ys) body = thenK (forK xs body) (forK ys body)"
  by (induction xs) (simp_all add: thenK_def bindK_assoc)

text \<open>
  An invariant that every iteration keeps holds after a loop that returns.
\<close>

lemma forK_inv:
  assumes "forK is body s = Ok r s'" and "P s"
    and "\<And>i a s s'. i \<in> set is \<Longrightarrow> P s \<Longrightarrow> body i s = Ok a s' \<Longrightarrow> P s'"
  shows "P s'"
  using assms
proof (induction "is" arbitrary: s)
  case Nil
  then show ?case by (simp add: kok)
next
  case (Cons i "is")
  from Cons.prems(1) obtain a s1 where b: "body i s = Ok a s1"
    and l: "forK is body s1 = Ok r s'" by (auto simp: kok)
  have "P s1" using Cons.prems(2,3) b by (metis list.set_intros(1))
  with l show ?case using Cons.IH Cons.prems(3) by (metis list.set_intros(2))
qed

text \<open>
  A counted loop returns when every iteration does, from states that satisfy the invariant of
  that iteration.
\<close>

lemma forK_upto:
  assumes "P 0 s"
    and "\<And>k t. k < n \<Longrightarrow> P k t \<Longrightarrow> \<exists>t'. body k t = Ok () t' \<and> P (Suc k) t'"
  shows "\<exists>s'. forK [0..<n] body s = Ok () s' \<and> P n s'"
  using assms
proof (induction n)
  case 0
  then show ?case by (simp add: retK_def)
next
  case (Suc n)
  then obtain t where t: "forK [0..<n] body s = Ok () t" "P n t" by (metis less_SucI)
  from Suc.prems(2) [OF lessI t(2)] obtain t' where t': "body n t = Ok () t'" "P (Suc n) t'" by blast
  have "forK [0..<Suc n] body s = Ok () t'"
    using t(1) t'(1) by (simp add: forK_append thenK_def bindK_def retK_def)
  with t'(2) show ?case by blast
qed

section \<open>Lists\<close>

text \<open>The first index of a list whose element satisfies \<open>P\<close>: the table scans of the kernel.\<close>

fun find_index :: "('a \<Rightarrow> bool) \<Rightarrow> 'a list \<Rightarrow> nat option" where
  "find_index P [] = None"
| "find_index P (x # xs) = (if P x then Some 0 else map_option Suc (find_index P xs))"

lemma find_index_None: "find_index P xs = None \<longleftrightarrow> (\<forall>x \<in> set xs. \<not> P x)"
  by (induction xs) auto

lemma find_index_SomeD:
  "find_index P xs = Some i \<Longrightarrow> i < length xs \<and> P (xs ! i) \<and> (\<forall>j < i. \<not> P (xs ! j))"
proof (induction xs arbitrary: i)
  case Nil
  then show ?case by simp
next
  case (Cons x xs)
  show ?case
  proof (cases "P x")
    case True
    with Cons.prems show ?thesis by simp
  next
    case False
    with Cons.prems obtain k where k: "find_index P xs = Some k" "i = Suc k" by auto
    from Cons.IH [OF k(1)] k(2) False show ?thesis
      by (auto simp: nth_Cons split: nat.splits)
  qed
qed

lemma find_index_ex:
  assumes "i < length xs" and "P (xs ! i)"
  shows "\<exists>j \<le> i. find_index P xs = Some j"
proof -
  have "find_index P xs \<noteq> None"
    using assms by (auto simp: find_index_None)
  then obtain j where j: "find_index P xs = Some j" by blast
  from find_index_SomeD [OF j] assms have "\<not> i < j" by blast
  with j show ?thesis by auto
qed

section \<open>Words\<close>

lemma unat_lt_2p32: "unat (x :: uint) < 4294967296"
  using unsigned_less [of x, where ?'a = nat] by simp

lemma unat_add_noovf: "unat (a :: uint) + unat b < 4294967296 \<Longrightarrow> unat (a + b) = unat a + unat b"
  by (simp add: unat_word_ariths)

lemma unat_of_nat_small: "n < 4294967296 \<Longrightarrow> unat (of_nat n :: uint) = n"
  by (simp add: unat_of_nat take_bit_eq_mod)

lemma of_nat_uint_inj:
  "a < 4294967296 \<Longrightarrow> b < 4294967296 \<Longrightarrow> (of_nat a :: uint) = of_nat b \<longleftrightarrow> a = b"
  by (metis unat_of_nat_small)

section \<open>Related outcomes\<close>

text \<open>
  Two functions behave alike when both return in related states, both panic with the same message, both give up
  the processor or both follow a bad pointer.
\<close>

fun out_sim :: "('r \<Rightarrow> 't \<Rightarrow> 'c \<Rightarrow> 'd \<Rightarrow> bool) \<Rightarrow> ('r, 'c) outcome \<Rightarrow> ('t, 'd) outcome \<Rightarrow> bool" where
  "out_sim R (Ok r c) (Ok t a) = R r t c a"
| "out_sim R (Panic m) (Panic m') = (m = m')"
| "out_sim R (Switch c) (Switch a) = True"
| "out_sim R Undef Undef = True"
| "out_sim R _ _ = False"

section \<open>Searching and counting\<close>

lemma find_SomeD: "find P xs = Some x \<Longrightarrow> x \<in> set xs \<and> P x"
  by (induction xs) (auto split: if_splits)

lemma count_list_remove1: "count_list (remove1 k xs) k' = (if k = k' then count_list xs k' - 1 else count_list xs k')"
  by (induction xs) (auto simp: count_list_0_iff)

end
