(* ===== verification/Spinlock.thy ===== *)
theory Spinlock
  imports Prelude
begin

text \<open>
  Spin locks and interrupt nesting: \<^verbatim>\<open>kernel/spinlock.c\<close>.

  The operations are written for the processor \<open>c\<close> that executes them. The busy loop of
  \<^verbatim>\<open>acquire()\<close> is split at its atomic \<^verbatim>\<open>xchg\<close>, and the two
  stores of \<^verbatim>\<open>acquire()\<close> and \<^verbatim>\<open>release()\<close> to a lock are
  separate steps, so that \<open>smp_step\<close> interleaves the processors between any two memory
  accesses to a lock. Mutual exclusion, the agreement of \<^verbatim>\<open>ncli\<close> with the
  number of locks held and the absence of interrupts inside critical sections are invariants of
  every reachable state.
\<close>

section \<open>Locks, processors and the machine\<close>

text \<open>The spin locks of the kernel by the object they belong to, and the sleep locks likewise.\<close>

datatype sleepid = SL_buf uint uint | SL_slot nat | SL_inode nat

datatype lockid = L_ptable | L_kmem | L_bcache | L_icache | L_ftable | L_log | L_cons
  | L_ticks | L_ide | L_pipe nat | L_sleep sleepid

record spinlock =
  sl_locked :: bool
  sl_cpu :: "nat option"

definition initlock :: "spinlock \<Rightarrow> spinlock" where
  "initlock lk = lk\<lparr>sl_locked := False, sl_cpu := None\<rparr>"

text \<open>\<open>iflag\<close> is the interrupt-enable bit of the processor's \<^verbatim>\<open>eflags\<close>.\<close>

record cpu =
  ncli :: int
  intena :: bool
  iflag :: bool

text \<open>
  Where a processor is with respect to \<^verbatim>\<open>acquire\<close> and
  \<^verbatim>\<open>release\<close>: outside both, spinning on \<^verbatim>\<open>xchg\<close>, after
  a winning \<^verbatim>\<open>xchg\<close> but before \<^verbatim>\<open>lk->cpu\<close> is
  recorded, or after \<^verbatim>\<open>lk->cpu\<close> was cleared but before
  \<^verbatim>\<open>lk->locked\<close> is.
\<close>

datatype lockpc = Run | Spin lockid | Won lockid | Rel lockid

text \<open>\<open>crit\<close> lists the locks whose critical section a processor is in, innermost first.\<close>

record smp =
  cpus :: "nat \<Rightarrow> cpu"
  slocks :: "lockid \<Rightarrow> spinlock"
  pcs :: "nat \<Rightarrow> lockpc"
  crit :: "nat \<Rightarrow> lockid list"

definition upd_cpu :: "nat \<Rightarrow> (cpu \<Rightarrow> cpu) \<Rightarrow> smp \<Rightarrow> smp" where
  "upd_cpu c f s = s\<lparr>cpus := (cpus s)(c := f (cpus s c))\<rparr>"

definition upd_lock :: "lockid \<Rightarrow> (spinlock \<Rightarrow> spinlock) \<Rightarrow> smp \<Rightarrow> smp" where
  "upd_lock l f s = s\<lparr>slocks := (slocks s)(l := f (slocks s l))\<rparr>"

section \<open>pushcli, popcli, holding\<close>

definition pushcli :: "nat \<Rightarrow> (smp, unit) kfun" where
  "pushcli c = modK (upd_cpu c (\<lambda>p.
     (let eflags = iflag p; p = p\<lparr>iflag := False\<rparr>;
          p = (if ncli p = 0 then p\<lparr>intena := eflags\<rparr> else p)
      in p\<lparr>ncli := ncli p + 1\<rparr>)))"

definition popcli :: "nat \<Rightarrow> (smp, unit) kfun" where
  "popcli c =
     bindK (getK (\<lambda>s. iflag (cpus s c))) (\<lambda>i.
     if i then panic ''popcli - interruptible'' else
     thenK (modK (upd_cpu c (\<lambda>p. p\<lparr>ncli := ncli p - 1\<rparr>))) (
     bindK (getK (\<lambda>s. cpus s c)) (\<lambda>p.
     if ncli p < 0 then panic ''popcli'' else
     whenK (ncli p = 0 \<and> intena p) (modK (upd_cpu c (\<lambda>p. p\<lparr>iflag := True\<rparr>))))))"

definition holding :: "nat \<Rightarrow> lockid \<Rightarrow> (smp, bool) kfun" where
  "holding c l =
     thenK (pushcli c) (
     bindK (getK (\<lambda>s. sl_locked (slocks s l) \<and> sl_cpu (slocks s l) = Some c)) (\<lambda>r.
     thenK (popcli c) (
     retK r)))"

section \<open>acquire and release\<close>

text \<open>\<^verbatim>\<open>acquire()\<close> up to its busy loop.\<close>

definition acquire_begin :: "nat \<Rightarrow> lockid \<Rightarrow> (smp, unit) kfun" where
  "acquire_begin c l =
     thenK (pushcli c) (
     bindK (holding c l) (\<lambda>h.
     if h then panic ''acquire'' else
     modK (\<lambda>s. s\<lparr>pcs := (pcs s)(c := Spin l)\<rparr>)))"

text \<open>One atomic \<^verbatim>\<open>xchg(&lk->locked, 1)\<close>; the loop ends when the old value is 0.\<close>

definition acquire_xchg :: "nat \<Rightarrow> lockid \<Rightarrow> (smp, unit) kfun" where
  "acquire_xchg c l =
     bindK (getK (\<lambda>s. sl_locked (slocks s l))) (\<lambda>old.
     thenK (modK (upd_lock l (\<lambda>k. k\<lparr>sl_locked := True\<rparr>))) (
     whenK (\<not> old) (modK (\<lambda>s. s\<lparr>pcs := (pcs s)(c := Won l)\<rparr>))))"

text \<open>The rest of \<^verbatim>\<open>acquire()\<close>: \<^verbatim>\<open>lk->cpu = mycpu()\<close>.\<close>

definition acquire_end :: "nat \<Rightarrow> lockid \<Rightarrow> (smp, unit) kfun" where
  "acquire_end c l =
     thenK (modK (upd_lock l (\<lambda>k. k\<lparr>sl_cpu := Some c\<rparr>))) (
     modK (\<lambda>s. s\<lparr>pcs := (pcs s)(c := Run), crit := (crit s)(c := l # crit s c)\<rparr>))"

definition release_begin :: "nat \<Rightarrow> lockid \<Rightarrow> (smp, unit) kfun" where
  "release_begin c l =
     bindK (holding c l) (\<lambda>h.
     if \<not> h then panic ''release'' else
     thenK (modK (upd_lock l (\<lambda>k. k\<lparr>sl_cpu := None\<rparr>))) (
     modK (\<lambda>s. s\<lparr>pcs := (pcs s)(c := Rel l), crit := (crit s)(c := remove1 l (crit s c))\<rparr>)))"

text \<open>The store of 0 to \<^verbatim>\<open>lk->locked\<close> and the final \<^verbatim>\<open>popcli()\<close>.\<close>

definition release_end :: "nat \<Rightarrow> lockid \<Rightarrow> (smp, unit) kfun" where
  "release_end c l =
     thenK (modK (upd_lock l (\<lambda>k. k\<lparr>sl_locked := False\<rparr>))) (
     thenK (modK (\<lambda>s. s\<lparr>pcs := (pcs s)(c := Run)\<rparr>)) (
     popcli c))"

text \<open>
  \<^verbatim>\<open>getcallerpcs()\<close> follows the chain of saved frame pointers; \<open>mem\<close> reads a
  word of kernel memory.
\<close>

definition KERNBASE :: uint where "KERNBASE = 0x80000000"

fun getcallerpcs_loop :: "(uint \<Rightarrow> uint) \<Rightarrow> nat \<Rightarrow> uint \<Rightarrow> uint list" where
  "getcallerpcs_loop mem 0 ebp = []"
| "getcallerpcs_loop mem (Suc k) ebp =
     (if ebp = 0 \<or> ebp < KERNBASE \<or> ebp = 0xffffffff then replicate (Suc k) 0
      else mem (ebp + 4) # getcallerpcs_loop mem k (mem ebp))"

definition getcallerpcs :: "(uint \<Rightarrow> uint) \<Rightarrow> uint \<Rightarrow> uint list" where
  "getcallerpcs mem v = getcallerpcs_loop mem 10 (v - 8)"

lemma getcallerpcs_loop_length: "length (getcallerpcs_loop mem k ebp) = k"
  by (induction k arbitrary: ebp) auto

section \<open>Interleaving the processors\<close>

inductive smp_step :: "smp \<Rightarrow> smp \<Rightarrow> bool" where
  begin_acq: "pcs s c = Run \<Longrightarrow> acquire_begin c l s = Ok () s' \<Longrightarrow> smp_step s s'"
| xchg: "pcs s c = Spin l \<Longrightarrow> acquire_xchg c l s = Ok () s' \<Longrightarrow> smp_step s s'"
| end_acq: "pcs s c = Won l \<Longrightarrow> acquire_end c l s = Ok () s' \<Longrightarrow> smp_step s s'"
| begin_rel: "pcs s c = Run \<Longrightarrow> release_begin c l s = Ok () s' \<Longrightarrow> smp_step s s'"
| end_rel: "pcs s c = Rel l \<Longrightarrow> release_end c l s = Ok () s' \<Longrightarrow> smp_step s s'"

definition smp_init :: smp where
  "smp_init = \<lparr>cpus = (\<lambda>_. \<lparr>ncli = 0, intena = False, iflag = True\<rparr>),
     slocks = (\<lambda>_. initlock \<lparr>sl_locked = True, sl_cpu = None\<rparr>),
     pcs = (\<lambda>_. Run), crit = (\<lambda>_. [])\<rparr>"

inductive smp_reach :: "smp \<Rightarrow> bool" where
  init: "smp_reach smp_init"
| step: "smp_reach s \<Longrightarrow> smp_step s s' \<Longrightarrow> smp_reach s'"

text \<open>A processor owns a lock from its winning \<^verbatim>\<open>xchg\<close> to the store of 0.\<close>

definition owns :: "smp \<Rightarrow> nat \<Rightarrow> lockid \<Rightarrow> bool" where
  "owns s c l \<longleftrightarrow> l \<in> set (crit s c) \<or> pcs s c = Won l \<or> pcs s c = Rel l"

definition lock_inv :: "smp \<Rightarrow> bool" where
  "lock_inv s \<longleftrightarrow>
     (\<forall>l. sl_locked (slocks s l) \<longleftrightarrow> (\<exists>c. owns s c l)) \<and>
     (\<forall>c c' l. owns s c l \<longrightarrow> owns s c' l \<longrightarrow> c = c')"

definition cpu_inv :: "smp \<Rightarrow> bool" where
  "cpu_inv s \<longleftrightarrow>
     (\<forall>c l. sl_cpu (slocks s l) = Some c \<longleftrightarrow> l \<in> set (crit s c)) \<and>
     (\<forall>c. distinct (crit s c)) \<and>
     (\<forall>c l. pcs s c \<in> {Spin l, Won l, Rel l} \<longrightarrow> l \<notin> set (crit s c)) \<and>
     (\<forall>c. ncli (cpus s c) = int (length (crit s c)) + (if pcs s c = Run then 0 else 1)) \<and>
     (\<forall>c. 0 < ncli (cpus s c) \<longrightarrow> \<not> iflag (cpus s c))"

definition smp_inv :: "smp \<Rightarrow> bool" where
  "smp_inv s \<longleftrightarrow> lock_inv s \<and> cpu_inv s"

section \<open>Every step keeps the invariant\<close>

lemma holding_run:
  assumes "0 < ncli (cpus s c)" and "\<not> iflag (cpus s c)"
  shows "holding c l s = Ok (sl_locked (slocks s l) \<and> sl_cpu (slocks s l) = Some c) s"
proof -
  have "(cpus s)(c := (cpus s c)\<lparr>iflag := False\<rparr>) = cpus s"
    using assms by (intro ext) (simp)
  then show ?thesis using assms
    by (simp add: holding_def pushcli_def popcli_def kdefs upd_cpu_def Let_def)
qed

lemma lock_inv_same_owners:
  assumes "owns s' = owns s" and "\<And>l. sl_locked (slocks s' l) = sl_locked (slocks s l)"
  shows "lock_inv s' = lock_inv s"
  using assms by (simp add: lock_inv_def)

lemma holder_iff:
  assumes "smp_inv s"
  shows "sl_locked (slocks s l) \<and> sl_cpu (slocks s l) = Some c \<longleftrightarrow> l \<in> set (crit s c)"
  using assms by (auto simp: smp_inv_def lock_inv_def cpu_inv_def owns_def)

lemma acquire_begin_Ok:
  assumes "acquire_begin c l s = Ok () s'" and "smp_inv s" and "pcs s c = Run"
  shows "l \<notin> set (crit s c) \<and>
    s' = (upd_cpu c (\<lambda>p. p\<lparr>iflag := False,
            intena := (if ncli p = 0 then iflag p else intena p),
            ncli := ncli p + 1\<rparr>) s)\<lparr>pcs := (pcs s)(c := Spin l)\<rparr>"
proof -
  define t where "t = upd_cpu c (\<lambda>p. p\<lparr>iflag := False,
      intena := (if ncli p = 0 then iflag p else intena p), ncli := ncli p + 1\<rparr>) s"
  have "0 \<le> ncli (cpus s c)" using assms(2,3) by (simp add: smp_inv_def cpu_inv_def)
  then have h: "holding c l t = Ok (sl_locked (slocks s l) \<and> sl_cpu (slocks s l) = Some c) t"
    by (subst holding_run) (simp_all add: upd_cpu_def t_def)
  have p: "pushcli c s = Ok () t"
    by (auto simp: pushcli_def modK_def upd_cpu_def Let_def t_def)
  have "\<not> l \<in> set (crit s c) \<and> s' = t\<lparr>pcs := (pcs t)(c := Spin l)\<rparr>"
    using assms(1) holder_iff [OF assms(2), of l c]
    by (simp add: acquire_begin_def thenK_def bindK_def p h panic_def modK_def split: if_splits)
  then show ?thesis by (simp add: t_def upd_cpu_def)
qed

lemma begin_acq_inv:
  assumes "acquire_begin c l s = Ok () s'" and "smp_inv s" and "pcs s c = Run"
  shows "smp_inv s'"
proof -
  note e = acquire_begin_Ok [OF assms]
  have "owns s' = owns s" using e assms(3) by (intro ext) (auto simp: owns_def upd_cpu_def)
  then have "lock_inv s'" using assms(2) e
    by (subst lock_inv_same_owners) (auto simp: smp_inv_def upd_cpu_def)
  moreover have "cpu_inv s'" using e assms(2,3) by (auto simp: smp_inv_def cpu_inv_def upd_cpu_def)
  ultimately show ?thesis by (simp add: smp_inv_def)
qed

lemma xchg_inv:
  assumes "acquire_xchg c l s = Ok () s'" and "smp_inv s" and "pcs s c = Spin l"
  shows "smp_inv s'"
proof (cases "sl_locked (slocks s l)")
  case True
  then have "(slocks s)(l := (slocks s l)\<lparr>sl_locked := True\<rparr>) = slocks s" by auto
  with True assms(1) have "s' = s" by (auto simp: acquire_xchg_def kok upd_lock_def)
  with assms(2) show ?thesis by simp
next
  case False
  then have s': "s' = s\<lparr>slocks := (slocks s)(l := (slocks s l)\<lparr>sl_locked := True\<rparr>),
      pcs := (pcs s)(c := Won l)\<rparr>"
    using assms(1) by (auto simp: acquire_xchg_def kok upd_lock_def)
  have o: "owns s' c' l' \<longleftrightarrow> owns s c' l' \<or> (c' = c \<and> l' = l)" for c' l'
    using assms(3) by (auto simp: s' owns_def)
  have "\<not> owns s c' l" for c' using False assms(2) by (auto simp: smp_inv_def lock_inv_def)
  then have "lock_inv s'"
    using assms(2) unfolding smp_inv_def lock_inv_def o by (auto simp: s')
  moreover have "cpu_inv s'" using assms(2,3) by (auto simp: s' smp_inv_def cpu_inv_def)
  ultimately show ?thesis by (simp add: smp_inv_def)
qed

lemma end_acq_inv:
  assumes "acquire_end c l s = Ok () s'" and "smp_inv s" and "pcs s c = Won l"
  shows "smp_inv s'"
proof -
  have s': "s' = s\<lparr>slocks := (slocks s)(l := (slocks s l)\<lparr>sl_cpu := Some c\<rparr>),
      pcs := (pcs s)(c := Run), crit := (crit s)(c := l # crit s c)\<rparr>"
    using assms(1) by (auto simp: acquire_end_def kok upd_lock_def)
  have "owns s' = owns s" using assms(3) by (intro ext) (auto simp: owns_def s')
  then have "lock_inv s'" using assms(2)
    by (subst lock_inv_same_owners) (auto simp: smp_inv_def s')
  moreover have "\<forall>c'. l \<in> set (crit s c') \<longrightarrow> c' = c"
    using assms(2,3) by (auto simp: smp_inv_def lock_inv_def owns_def)
  then have "cpu_inv s'" using assms(2,3)
    by (auto simp: s' smp_inv_def cpu_inv_def)
  ultimately show ?thesis by (simp add: smp_inv_def)
qed

lemma begin_rel_inv:
  assumes "release_begin c l s = Ok () s'" and "smp_inv s" and "pcs s c = Run"
  shows "smp_inv s'"
proof (cases "0 < ncli (cpus s c)")
  case True
  then have nf: "\<not> iflag (cpus s c)" using assms(2) by (simp add: smp_inv_def cpu_inv_def)
  have l: "l \<in> set (crit s c)"
    using assms(1) holder_iff [OF assms(2), of l c]
    by (auto simp: release_begin_def bindK_def holding_run [OF True nf] kok split: if_splits)
  then have s': "s' = s\<lparr>slocks := (slocks s)(l := (slocks s l)\<lparr>sl_cpu := None\<rparr>),
      pcs := (pcs s)(c := Rel l), crit := (crit s)(c := remove1 l (crit s c))\<rparr>"
    using assms(1) holder_iff [OF assms(2), of l c]
    by (auto simp: release_begin_def bindK_def holding_run [OF True nf] kok upd_lock_def)
  have d: "distinct (crit s c)" using assms(2) by (simp add: smp_inv_def cpu_inv_def)
  have "owns s' = owns s" using assms(3) l d
    by (intro ext) (auto simp: owns_def s')
  then have "lock_inv s'" using assms(2)
    by (subst lock_inv_same_owners) (auto simp: smp_inv_def s')
  moreover have "cpu_inv s'"
  proof -
    have u: "l \<in> set (crit s c') \<Longrightarrow> c' = c" for c'
      using assms(2) l by (auto simp: smp_inv_def lock_inv_def owns_def)
    have k: "int (length (crit s c) - Suc 0) + 1 = int (length (crit s c))"
      using l by (cases "crit s c") auto
    have i: "cpu_inv s" using assms(2) by (simp add: smp_inv_def)
    have "\<forall>c' l'. sl_cpu (slocks s' l') = Some c' \<longleftrightarrow> l' \<in> set (crit s' c')"
      using i u d by (auto simp: s' cpu_inv_def)
    moreover have "\<forall>c'. distinct (crit s' c')"
      using i by (simp add: s' cpu_inv_def)
    moreover have "\<forall>c' l'. pcs s' c' \<in> {Spin l', Won l', Rel l'} \<longrightarrow> l' \<notin> set (crit s' c')"
      using i by (auto simp: s' cpu_inv_def)
    moreover have "\<forall>c'. ncli (cpus s' c') = int (length (crit s' c')) + (if pcs s' c' = Run then 0 else 1)"
      using i assms(3) l k by (simp add: s' cpu_inv_def length_remove1)
    moreover have "\<forall>c'. 0 < ncli (cpus s' c') \<longrightarrow> \<not> iflag (cpus s' c')"
      using i unfolding cpu_inv_def by (simp add: s')
    ultimately show ?thesis by (simp add: cpu_inv_def)
  qed
  ultimately show ?thesis by (simp add: smp_inv_def)
next
  case False
  with assms(2,3) have "crit s c = []" by (auto simp: smp_inv_def cpu_inv_def)
  then have "sl_cpu (slocks s l) \<noteq> Some c" using assms(2) by (auto simp: smp_inv_def cpu_inv_def)
  with assms(1) show ?thesis
    by (auto simp: release_begin_def holding_def pushcli_def kok upd_cpu_def split: if_splits)
qed

lemma end_rel_inv:
  assumes "release_end c l s = Ok () s'" and "smp_inv s" and "pcs s c = Rel l"
  shows "smp_inv s'"
proof -
  define t where "t = s\<lparr>slocks := (slocks s)(l := (slocks s l)\<lparr>sl_locked := False\<rparr>),
      pcs := (pcs s)(c := Run)\<rparr>"
  have n: "0 < ncli (cpus s c)" "ncli (cpus s c) = int (length (crit s c)) + 1"
    using assms(2,3) by (auto simp: smp_inv_def cpu_inv_def)
  from assms(1) have "popcli c t = Ok () s'"
    by (auto simp: release_end_def kok upd_lock_def t_def)
  moreover have nf: "\<not> iflag (cpus s c)" using assms(2) n(1) by (auto simp: smp_inv_def cpu_inv_def)
  moreover have r: "(cpus s c)\<lparr>ncli := k, iflag := False\<rparr> = (cpus s c)\<lparr>ncli := k\<rparr>" for k
    using nf by (cases "cpus s c") simp
  ultimately have "s' = t\<lparr>cpus := (cpus s)(c := (cpus s c)\<lparr>ncli := ncli (cpus s c) - 1,
      iflag := ncli (cpus s c) = 1 \<and> intena (cpus s c)\<rparr>)\<rparr>"
    using n by (auto simp: popcli_def kok upd_cpu_def t_def r split: if_splits)
  then obtain i where
      s': "s' = t\<lparr>cpus := (cpus s)(c := (cpus s c)\<lparr>ncli := ncli (cpus s c) - 1, iflag := i\<rparr>)\<rparr>"
      and i: "i \<longrightarrow> ncli (cpus s c) = 1" by blast
  have o: "owns s' c' l' \<longleftrightarrow> owns s c' l' \<and> \<not> (c' = c \<and> l' = l)" for c' l'
    using assms(2,3) by (auto simp: s' t_def owns_def smp_inv_def cpu_inv_def)
  have "owns s c l" using assms(3) by (simp add: owns_def)
  then have "lock_inv s'"
    using assms(2) unfolding smp_inv_def lock_inv_def o by (auto simp: s' t_def)
  moreover have "cpu_inv s'" using assms(2,3) n i by (auto simp: s' t_def smp_inv_def cpu_inv_def)
  ultimately show ?thesis by (simp add: smp_inv_def)
qed

lemma smp_step_inv:
  assumes "smp_step s s'" and "smp_inv s"
  shows "smp_inv s'"
  using assms
  by (cases rule: smp_step.cases)
    (blast intro: begin_acq_inv xchg_inv end_acq_inv begin_rel_inv end_rel_inv)+

lemma smp_init_inv: "smp_inv smp_init"
  by (simp add: smp_inv_def lock_inv_def cpu_inv_def smp_init_def owns_def initlock_def)

lemma smp_reach_inv: "smp_reach s \<Longrightarrow> smp_inv s"
  by (induction rule: smp_reach.induct) (auto intro: smp_init_inv smp_step_inv)

text \<open>
  (C10) Mutual exclusion under every interleaving of the processors: if a processor is in the
  critical section of a lock then no other processor is, the lock word is set, the processor
  has interrupts disabled, and its \<^verbatim>\<open>ncli\<close> counts at least the locks it holds.
\<close>

theorem spin_mutual_exclusion:
  assumes "smp_reach s" and "l \<in> set (crit s c)"
  shows "(\<forall>c'. l \<in> set (crit s c') \<longrightarrow> c' = c) \<and> sl_locked (slocks s l)
    \<and> \<not> iflag (cpus s c) \<and> int (length (crit s c)) \<le> ncli (cpus s c)"
proof -
  have i: "lock_inv s" "cpu_inv s" using smp_reach_inv [OF assms(1)] by (simp_all add: smp_inv_def)
  have n: "int (length (crit s c)) \<le> ncli (cpus s c)" using i(2) by (simp add: cpu_inv_def)
  with assms(2) have "0 < ncli (cpus s c)" by (cases "crit s c") auto
  then have "\<not> iflag (cpus s c)" using i(2) by (auto simp: cpu_inv_def)
  moreover have "owns s c l" using assms(2) by (simp add: owns_def)
  then have "(\<forall>c'. l \<in> set (crit s c') \<longrightarrow> c' = c) \<and> sl_locked (slocks s l)"
    using i(1) by (auto simp: lock_inv_def owns_def)
  ultimately show ?thesis using n by blast
qed

text \<open>A concrete state with processor 0 inside the allocator's lock.\<close>

definition smp_one :: smp where
  "smp_one = (case thenK (acquire_begin 0 L_kmem) (thenK (acquire_xchg 0 L_kmem) (acquire_end 0 L_kmem)) smp_init
     of Ok _ s \<Rightarrow> s | _ \<Rightarrow> smp_init)"

lemma smp_one_reach: "smp_reach smp_one" and smp_one_crit: "crit smp_one 0 = [L_kmem]"
  and smp_one_run: "pcs smp_one 0 = Run"
proof -
  obtain s1 where s1: "acquire_begin 0 L_kmem smp_init = Ok () s1" "pcs s1 0 = Spin L_kmem"
      "slocks s1 = slocks smp_init" "crit s1 = crit smp_init"
    by (simp add: acquire_begin_def holding_def pushcli_def popcli_def kdefs upd_cpu_def smp_init_def initlock_def)
  then obtain s2 where s2: "acquire_xchg 0 L_kmem s1 = Ok () s2" "pcs s2 0 = Won L_kmem" "crit s2 = crit s1"
    by (simp add: acquire_xchg_def kdefs upd_lock_def smp_init_def initlock_def)
  then obtain s3 where s3: "acquire_end 0 L_kmem s2 = Ok () s3" "crit s3 0 = L_kmem # crit s1 0" "pcs s3 0 = Run"
    by (simp add: acquire_end_def kdefs upd_lock_def)
  have e: "smp_one = s3" using s1 s2 s3 by (simp add: smp_one_def thenK_def bindK_def)
  have "pcs smp_init 0 = Run" by (simp add: smp_init_def)
  then have "smp_reach s1" using s1(1) by (blast intro: smp_reach.intros smp_step.begin_acq)
  then have "smp_reach s2" using s1 s2 by (auto intro: smp_reach.step smp_step.xchg)
  then have "smp_reach s3" using s2 s3 by (auto intro: smp_reach.step smp_step.end_acq)
  with e show "smp_reach smp_one" by simp
  show "crit smp_one 0 = [L_kmem]" using e s1 s3 by (simp add: smp_init_def)
  show "pcs smp_one 0 = Run" using e s3 by simp
qed

theorem spin_mutual_exclusion_witness:
  "smp_reach smp_one \<and> L_kmem \<in> set (crit smp_one 0) \<and> L_kmem \<notin> set (crit smp_one 1)
    \<and> \<not> iflag (cpus smp_one 0)"
  using spin_mutual_exclusion [OF smp_one_reach, of L_kmem 0] smp_one_reach smp_one_crit by auto

end
