(* ===== verification/Sched.thy ===== *)
theory Sched
  imports Spinlock
begin

text \<open>
  Process table, sleeping and waking, sleep locks: the part of \<^verbatim>\<open>kernel/proc.c\<close>
  on which every other component rests (\<^verbatim>\<open>sched\<close>, \<^verbatim>\<open>sleep\<close>,
  \<^verbatim>\<open>wakeup\<close>, \<^verbatim>\<open>kill\<close>, \<^verbatim>\<open>yield\<close>),
  \<^verbatim>\<open>kernel/sleeplock.c\<close>, and the structures of \<^verbatim>\<open>kernel/proc.h\<close>.

  From here on the kernel is seen from one processor running one process. The spin locks it
  holds are the list \<open>klocks\<close>, which is the list \<open>crit\<close> of \<^verbatim>\<open>Spinlock\<close>:
  \<open>spin_refines_klocks\<close> relates the two. A function that calls
  \<^verbatim>\<open>sleep()\<close> on a taken resource ends in \<open>Switch\<close>; what the process does when
  it is scheduled again is \<open>sleep_resume\<close> followed by the loop it slept in.
  State records of later components extend \<open>kbase\<close>, so that the operations here apply to them
  unchanged.
\<close>

section \<open>Constants and structures\<close>

definition NPROC :: nat where "NPROC = 64"
definition NOFILE :: nat where "NOFILE = 16"

datatype procstate = UNUSED | EMBRYO | SLEEPING | RUNNABLE | RUNNING | ZOMBIE

text \<open>Wait channels: the kernel sleeps on addresses, each of which belongs to one object.\<close>

datatype chan = Ch_sleep sleepid | Ch_log | Ch_piperead nat | Ch_pipewrite nat
  | Ch_input | Ch_ticks | Ch_proc nat | Ch_buf nat

record trapframe =
  tf_eax :: uint
  tf_ds :: ushort
  tf_es :: ushort
  tf_trapno :: uint
  tf_err :: uint
  tf_eip :: uint
  tf_cs :: ushort
  tf_eflags :: uint
  tf_esp :: uint
  tf_ss :: ushort

text \<open>
  \<^verbatim>\<open>struct proc\<close>. Pointers into tables are indices (\<open>None\<close> for null):
  \<open>p_parent\<close> into the process table, \<open>p_ofile\<close> into the file table, \<open>p_cwd\<close> into
  the inode cache. \<open>p_pgdir\<close>, \<open>p_kstack\<close> and \<open>p_context\<close> are addresses, 0 for null. The
  context is the one that \<^verbatim>\<open>allocproc\<close> sets; where \<^verbatim>\<open>swtch.S\<close> saves it later is part of the assembly.
\<close>

record proc =
  p_sz :: uint
  p_pgdir :: uint
  p_kstack :: uint
  p_state :: procstate
  p_pid :: int
  p_parent :: "nat option"
  p_tf :: trapframe
  p_context :: uint
  p_chan :: "chan option"
  p_killed :: bool
  p_ofile :: "nat option list"
  p_cwd :: "nat option"
  p_name :: "uchar list"

record sleeplock =
  slk_locked :: bool
  slk_pid :: int

record kbase =
  klocks :: "lockid list"
  ptable :: "proc list"
  cur :: "nat option"
  sleeplocks :: "sleepid \<Rightarrow> sleeplock"

section \<open>Spin locks seen from one processor\<close>

definition acquire :: "lockid \<Rightarrow> ('a kbase_scheme, unit) kfun" where
  "acquire l =
     bindK (getK klocks) (\<lambda>ks.
     if l \<in> set ks then panic ''acquire'' else
     modK (\<lambda>s. s\<lparr>klocks := l # klocks s\<rparr>))"

definition release :: "lockid \<Rightarrow> ('a kbase_scheme, unit) kfun" where
  "release l =
     bindK (getK klocks) (\<lambda>ks.
     if l \<notin> set ks then panic ''release'' else
     modK (\<lambda>s. s\<lparr>klocks := remove1 l (klocks s)\<rparr>))"

section \<open>The running process, sched, sleep and wakeup\<close>

text \<open>\<^verbatim>\<open>myproc()\<close> where the caller dereferences the result.\<close>

definition myproc :: "('a kbase_scheme, nat) kfun" where
  "myproc =
     bindK (getK (\<lambda>s. (cur s, length (ptable s)))) (\<lambda>(c, n).
     case c of None \<Rightarrow> undefK | Some i \<Rightarrow> if i < n then retK i else undefK)"

definition upd_proc :: "nat \<Rightarrow> (proc \<Rightarrow> proc) \<Rightarrow> ('a kbase_scheme, unit) kfun" where
  "upd_proc i f = modK (\<lambda>s. s\<lparr>ptable := (ptable s)[i := f (ptable s ! i)]\<rparr>)"

definition sched :: "('a kbase_scheme, 'b) kfun" where
  "sched =
     bindK myproc (\<lambda>i.
     bindK (getK (\<lambda>s. (klocks s, ptable s ! i))) (\<lambda>(ks, p).
     if L_ptable \<notin> set ks then panic ''sched ptable.lock'' else
     if length ks \<noteq> 1 then panic ''sched locks'' else
     if p_state p = RUNNING then panic ''sched running'' else
     (\<lambda>s. Switch s)))"

definition sleep :: "chan \<Rightarrow> lockid \<Rightarrow> ('a kbase_scheme, 'b) kfun" where
  "sleep chan lk =
     bindK (getK cur) (\<lambda>c.
     if c = None then panic ''sleep'' else
     bindK myproc (\<lambda>i.
     thenK (whenK (lk \<noteq> L_ptable) (
       thenK (acquire L_ptable) (
       release lk))) (
     thenK (upd_proc i (\<lambda>p. p\<lparr>p_chan := Some chan\<rparr>)) (
     thenK (upd_proc i (\<lambda>p. p\<lparr>p_state := SLEEPING\<rparr>)) (
     sched)))))"

text \<open>The rest of \<^verbatim>\<open>sleep()\<close>, after \<^verbatim>\<open>sched()\<close> returns.\<close>

definition sleep_resume :: "lockid \<Rightarrow> ('a kbase_scheme, unit) kfun" where
  "sleep_resume lk =
     bindK myproc (\<lambda>i.
     thenK (upd_proc i (\<lambda>p. p\<lparr>p_chan := None\<rparr>)) (
     whenK (lk \<noteq> L_ptable) (
       thenK (release L_ptable) (
       acquire lk))))"

definition wake :: "chan \<Rightarrow> proc \<Rightarrow> proc" where
  "wake chan p =
     (if p_state p = SLEEPING \<and> p_chan p = Some chan then p\<lparr>p_state := RUNNABLE\<rparr> else p)"

definition wakeup1 :: "chan \<Rightarrow> ('a kbase_scheme, unit) kfun" where
  "wakeup1 chan = modK (\<lambda>s. s\<lparr>ptable := map (wake chan) (ptable s)\<rparr>)"

definition wakeup :: "chan \<Rightarrow> ('a kbase_scheme, unit) kfun" where
  "wakeup chan =
     thenK (acquire L_ptable) (
     thenK (wakeup1 chan) (
     release L_ptable))"

definition yield :: "('a kbase_scheme, 'b) kfun" where
  "yield =
     thenK (acquire L_ptable) (
     bindK myproc (\<lambda>i.
     thenK (upd_proc i (\<lambda>p. p\<lparr>p_state := RUNNABLE\<rparr>)) (
     sched)))"

definition kill :: "int \<Rightarrow> ('a kbase_scheme, int) kfun" where
  "kill pid =
     thenK (acquire L_ptable) (
     bindK (getK ptable) (\<lambda>ps.
     case find_index (\<lambda>p. p_pid p = pid) ps of
       Some i \<Rightarrow>
         thenK (upd_proc i (\<lambda>p. p\<lparr>p_killed := True\<rparr>)) (
         thenK (upd_proc i (\<lambda>p. if p_state p = SLEEPING then p\<lparr>p_state := RUNNABLE\<rparr> else p)) (
         thenK (release L_ptable) (
         retK 0)))
     | None \<Rightarrow>
         thenK (release L_ptable) (
         retK (-1))))"

section \<open>Sleep locks\<close>

definition upd_slk :: "sleepid \<Rightarrow> sleeplock \<Rightarrow> ('a kbase_scheme, unit) kfun" where
  "upd_slk i k = modK (\<lambda>s. s\<lparr>sleeplocks := (sleeplocks s)(i := k)\<rparr>)"

definition initsleeplock :: "sleepid \<Rightarrow> ('a kbase_scheme, unit) kfun" where
  "initsleeplock i = upd_slk i \<lparr>slk_locked = False, slk_pid = 0\<rparr>"

definition acquiresleep :: "sleepid \<Rightarrow> ('a kbase_scheme, unit) kfun" where
  "acquiresleep i =
     thenK (acquire (L_sleep i)) (
     bindK (getK (\<lambda>s. slk_locked (sleeplocks s i))) (\<lambda>taken.
     if taken then sleep (Ch_sleep i) (L_sleep i) else
     bindK myproc (\<lambda>p.
     bindK (getK (\<lambda>s. p_pid (ptable s ! p))) (\<lambda>pid.
     thenK (upd_slk i \<lparr>slk_locked = True, slk_pid = pid\<rparr>) (
     release (L_sleep i))))))"

definition releasesleep :: "sleepid \<Rightarrow> ('a kbase_scheme, unit) kfun" where
  "releasesleep i =
     thenK (acquire (L_sleep i)) (
     thenK (upd_slk i \<lparr>slk_locked = False, slk_pid = 0\<rparr>) (
     thenK (wakeup (Ch_sleep i)) (
     release (L_sleep i))))"

definition holdingsleep :: "sleepid \<Rightarrow> ('a kbase_scheme, bool) kfun" where
  "holdingsleep i =
     thenK (acquire (L_sleep i)) (
     bindK (getK (\<lambda>s. sleeplocks s i)) (\<lambda>lk.
     bindK (if slk_locked lk then bindK myproc (\<lambda>p. getK (\<lambda>s. slk_pid lk = p_pid (ptable s ! p)))
            else retK False) (\<lambda>r.
     thenK (release (L_sleep i)) (
     retK r))))"

text \<open>The pid of the running process, and whether it holds a sleep lock.\<close>

definition mypid :: "'a kbase_scheme \<Rightarrow> int" where
  "mypid s = p_pid (ptable s ! the (cur s))"

definition running :: "'a kbase_scheme \<Rightarrow> bool" where
  "running s \<longleftrightarrow> (\<exists>i. cur s = Some i \<and> i < length (ptable s))"

definition slk_mine :: "sleepid \<Rightarrow> 'a kbase_scheme \<Rightarrow> bool" where
  "slk_mine i s \<longleftrightarrow> slk_locked (sleeplocks s i) \<and> slk_pid (sleeplocks s i) = mypid s"

section \<open>When the operations return\<close>

lemma acquire_Ok [kok]:
  "acquire l s = Ok r s' \<longleftrightarrow> l \<notin> set (klocks s) \<and> s' = s\<lparr>klocks := l # klocks s\<rparr>"
  by (auto simp: acquire_def kok)

lemma release_Ok [kok]:
  "release l s = Ok r s' \<longleftrightarrow> l \<in> set (klocks s) \<and> s' = s\<lparr>klocks := remove1 l (klocks s)\<rparr>"
  by (auto simp: release_def kok)

lemma myproc_Ok [kok]:
  "myproc s = Ok i s' \<longleftrightarrow> cur s = Some i \<and> i < length (ptable s) \<and> s' = s"
  by (auto simp: myproc_def kok split: option.splits)

lemma upd_proc_Ok [kok]:
  "upd_proc i f s = Ok r s' \<longleftrightarrow> s' = s\<lparr>ptable := (ptable s)[i := f (ptable s ! i)]\<rparr>"
  by (simp add: upd_proc_def kok)

lemma upd_slk_Ok [kok]:
  "upd_slk i k s = Ok r s' \<longleftrightarrow> s' = s\<lparr>sleeplocks := (sleeplocks s)(i := k)\<rparr>"
  by (simp add: upd_slk_def kok)

lemma sched_Ok [kok]: "sched s \<noteq> Ok r s'"
  by (auto simp: sched_def kok split: if_splits)

lemma sleep_Ok [kok]: "sleep c l s \<noteq> Ok r s'"
  by (auto simp: sleep_def kok split: if_splits)

lemma wakeup_Ok [kok]:
  "wakeup c s = Ok r s' \<longleftrightarrow>
     L_ptable \<notin> set (klocks s) \<and> s' = s\<lparr>ptable := map (wake c) (ptable s)\<rparr>"
  by (auto simp: wakeup_def wakeup1_def kok)

lemma p_pid_wake [simp]: "p_pid (wake c p) = p_pid p"
  by (simp add: wake_def)

lemma acquiresleep_Ok [kok]:
  "acquiresleep i s = Ok r s' \<longleftrightarrow>
     L_sleep i \<notin> set (klocks s) \<and> \<not> slk_locked (sleeplocks s i) \<and> running s \<and>
     s' = s\<lparr>sleeplocks := (sleeplocks s)(i := \<lparr>slk_locked = True, slk_pid = mypid s\<rparr>)\<rparr>"
  by (auto simp: acquiresleep_def kok mypid_def running_def)

lemma releasesleep_Ok [kok]:
  "releasesleep i s = Ok r s' \<longleftrightarrow>
     L_sleep i \<notin> set (klocks s) \<and> L_ptable \<notin> set (klocks s) \<and>
     s' = s\<lparr>sleeplocks := (sleeplocks s)(i := \<lparr>slk_locked = False, slk_pid = 0\<rparr>),
            ptable := map (wake (Ch_sleep i)) (ptable s)\<rparr>"
  by (auto simp: releasesleep_def kok)

lemma holdingsleep_Ok [kok]:
  "holdingsleep i s = Ok r s' \<longleftrightarrow>
     L_sleep i \<notin> set (klocks s) \<and> (slk_locked (sleeplocks s i) \<longrightarrow> running s) \<and>
     r = slk_mine i s \<and> s' = s"
  by (auto simp: holdingsleep_def kok mypid_def running_def slk_mine_def split: if_splits)

lemma cur_wake [simp]: "mypid (s\<lparr>ptable := map (wake c) (ptable s)\<rparr>) = mypid s" if "running s"
  using that by (auto simp: mypid_def running_def)

section \<open>Sleeping and waking\<close>

text \<open>The zeroed \<^verbatim>\<open>struct proc\<close> of static memory, and small process tables for examples.\<close>

definition zero_tf :: trapframe where
  "zero_tf = \<lparr>tf_eax = 0, tf_ds = 0, tf_es = 0, tf_trapno = 0, tf_err = 0, tf_eip = 0,
     tf_cs = 0, tf_eflags = 0, tf_esp = 0, tf_ss = 0\<rparr>"

definition zero_proc :: proc where
  "zero_proc = \<lparr>p_sz = 0, p_pgdir = 0, p_kstack = 0, p_state = UNUSED, p_pid = 0,
     p_parent = None, p_tf = zero_tf, p_context = 0, p_chan = None, p_killed = False,
     p_ofile = replicate NOFILE None, p_cwd = None, p_name = []\<rparr>"

definition two_procs :: kbase where
  "two_procs = \<lparr>klocks = [], ptable = [zero_proc\<lparr>p_pid := 1, p_state := RUNNING\<rparr>,
     zero_proc\<lparr>p_pid := 2, p_state := RUNNING\<rparr>], cur = Some 0,
     sleeplocks = (\<lambda>_. \<lparr>slk_locked = False, slk_pid = 0\<rparr>)\<rparr>"

lemma sleep_run:
  assumes "cur s = Some i" and "i < length (ptable s)" and "klocks s = [lk]" and "lk \<noteq> L_ptable"
  shows "sleep ch lk s = Switch (s\<lparr>klocks := [L_ptable],
           ptable := (ptable s)[i := (ptable s ! i)\<lparr>p_chan := Some ch, p_state := SLEEPING\<rparr>]\<rparr>)"
  using assms
  by (simp add: sleep_def sched_def acquire_def release_def myproc_def upd_proc_def kdefs)

lemma wakeup_run:
  "L_ptable \<notin> set (klocks s) \<Longrightarrow>
     wakeup ch s = Ok () (s\<lparr>ptable := map (wake ch) (ptable s)\<rparr>)"
  by (simp add: wakeup_def wakeup1_def acquire_def release_def kdefs)

lemma klocks_self: "klocks s = k \<Longrightarrow> s\<lparr>klocks := k\<rparr> = s"
  by (cases s) simp

lemma acquiresleep_locked:
  assumes "klocks s = []" and "running s" and "slk_locked (sleeplocks s i)"
  shows "\<exists>s'. acquiresleep i s = Switch s'"
proof -
  let ?t = "s\<lparr>klocks := [L_sleep i]\<rparr>"
  obtain j where "cur ?t = Some j" "j < length (ptable ?t)" using assms(2) by (auto simp: running_def)
  then have "\<exists>s'. sleep (Ch_sleep i) (L_sleep i) ?t = Switch s'"
    using sleep_run [of ?t j "L_sleep i" "Ch_sleep i"] by auto
  then show ?thesis using assms by (simp add: acquiresleep_def kdefs acquire_def)
qed

lemma holdingsleep_run:
  assumes "klocks s = []" and "running s"
  shows "holdingsleep i s = Ok (slk_mine i s) s"
  using assms by (simp add: holdingsleep_Ok slk_mine_def)

lemma acquiresleep_free:
  assumes "klocks s = []" and "running s" and "\<not> slk_locked (sleeplocks s i)"
  shows "acquiresleep i s = Ok () (s\<lparr>sleeplocks := (sleeplocks s)(i := \<lparr>slk_locked = True, slk_pid = mypid s\<rparr>)\<rparr>)"
  using assms by (simp add: acquiresleep_Ok)


lemma wake_pids: "p_pid \<circ> wake ch = p_pid"
  by (auto simp: wake_def)

text \<open>
  No wakeup is lost: a process that calls \<^verbatim>\<open>sleep(chan, lk)\<close> holding only
  \<^verbatim>\<open>lk\<close> gives up the processor as \<^verbatim>\<open>SLEEPING\<close> on
  \<^verbatim>\<open>chan\<close> with \<^verbatim>\<open>lk\<close> already released and
  \<^verbatim>\<open>ptable.lock\<close> still held, so the first \<^verbatim>\<open>wakeup(chan)\<close> any
  processor can run after that makes it \<^verbatim>\<open>RUNNABLE\<close>; a wakeup on another channel
  leaves it asleep.
\<close>

lemma sleep_then_wakeup:
  assumes "cur s = Some i" and "i < length (ptable s)" and "klocks s = [lk]" and "lk \<noteq> L_ptable"
  shows "\<exists>s'. sleep ch lk s = Switch s' \<and> klocks s' = [L_ptable] \<and>
     p_state (ptable s' ! i) = SLEEPING \<and>
     (\<exists>t. wakeup ch (s'\<lparr>klocks := []\<rparr>) = Ok () t \<and> p_state (ptable t ! i) = RUNNABLE) \<and>
     (\<forall>ch'. ch' \<noteq> ch \<longrightarrow>
        (\<exists>t. wakeup ch' (s'\<lparr>klocks := []\<rparr>) = Ok () t \<and> p_state (ptable t ! i) = SLEEPING))"
  using assms by (simp add: sleep_run wakeup_run) (simp add: wake_def)

text \<open>
  A process must hold no spin lock across a context switch: sleeping while a second spin
  lock is held panics in \<^verbatim>\<open>sched()\<close>.
\<close>

lemma sleep_with_two_locks_panics:
  assumes "running s" and "lk \<in> set (klocks s)" and "distinct (klocks s)"
    and "L_ptable \<notin> set (klocks s)" and "2 \<le> length (klocks s)"
  shows "sleep ch lk s = Panic ''sched locks''"
  using assms
  by (auto simp: running_def sleep_def sched_def acquire_def release_def myproc_def upd_proc_def
      kdefs length_remove1)

section \<open>Sleep locks\<close>

lemma acquiresleep_taken:
  assumes "cur s = Some i" and "i < length (ptable s)" and "klocks s = []"
    and "slk_locked (sleeplocks s k)"
  shows "acquiresleep k s = Switch (s\<lparr>klocks := [L_ptable],
           ptable := (ptable s)[i := (ptable s ! i)\<lparr>p_chan := Some (Ch_sleep k), p_state := SLEEPING\<rparr>]\<rparr>)"
proof -
  have "acquire (L_sleep k) s = Ok () (s\<lparr>klocks := [L_sleep k]\<rparr>)"
    using assms(3) by (simp add: acquire_Ok)
  then show ?thesis using assms
    by (simp add: acquiresleep_def thenK_def bindK_def getK_def sleep_run)
qed

text \<open>
  Sleep locks exclude and hand over: once a process has acquired a sleep lock, another
  process that tries goes to sleep on it, and the holder's
  \<^verbatim>\<open>releasesleep\<close> makes that process runnable and frees the lock.
\<close>

lemma sleeplock_excludes:
  assumes acq: "acquiresleep k s = Ok () s1" and "klocks s = []"
    and j: "j < length (ptable s)" "cur s \<noteq> Some j"
  shows "slk_mine k s1 \<and>
    (\<exists>s2. acquiresleep k (s1\<lparr>cur := Some j\<rparr>) = Switch s2 \<and> p_state (ptable s2 ! j) = SLEEPING \<and>
      (\<exists>s3. releasesleep k (s2\<lparr>cur := cur s, klocks := []\<rparr>) = Ok () s3 \<and>
         p_state (ptable s3 ! j) = RUNNABLE \<and> \<not> slk_locked (sleeplocks s3 k)))"
proof -
  from acq have s1: "s1 = s\<lparr>sleeplocks := (sleeplocks s)(k := \<lparr>slk_locked = True, slk_pid = mypid s\<rparr>)\<rparr>"
    and r: "running s" by (auto simp: kok)
  then have "slk_mine k s1" by (simp add: slk_mine_def mypid_def)
  moreover have "acquiresleep k (s1\<lparr>cur := Some j\<rparr>) = Switch (s1\<lparr>cur := Some j, klocks := [L_ptable],
      ptable := (ptable s)[j := (ptable s ! j)\<lparr>p_chan := Some (Ch_sleep k), p_state := SLEEPING\<rparr>]\<rparr>)"
    using assms by (subst acquiresleep_taken [of _ j]) (simp_all add: s1)
  ultimately show ?thesis
    using j by (simp add: releasesleep_Ok) (simp add: wake_def)
qed

text \<open>
  \<^verbatim>\<open>kill(pid)\<close> marks exactly the first process with that pid, wakes it if it
  sleeps, touches no other process, and returns -1 leaving the table alone when there is none.
\<close>

lemma kill_effect:
  assumes "L_ptable \<notin> set (klocks s)"
  shows "kill pd s =
    (case find_index (\<lambda>p. p_pid p = pd) (ptable s) of
       None \<Rightarrow> Ok (-1) s
     | Some i \<Rightarrow> Ok 0 (s\<lparr>ptable := (ptable s)[i := (ptable s ! i)\<lparr>p_killed := True,
         p_state := (if p_state (ptable s ! i) = SLEEPING then RUNNABLE else p_state (ptable s ! i))\<rparr>]\<rparr>))"
  using assms
  by (auto simp: kill_def acquire_def release_def upd_proc_def kdefs
      split: option.split dest: find_index_SomeD)

section \<open>The locks a processor holds\<close>

lemma acquire_begin_run:
  assumes "smp_inv m" and "pcs m c = Run"
  shows "acquire_begin c l m = (if l \<in> set (crit m c) then Panic ''acquire'' else
    Ok () ((upd_cpu c (\<lambda>p. p\<lparr>iflag := False,
            intena := (if ncli p = 0 then iflag p else intena p),
            ncli := ncli p + 1\<rparr>) m)\<lparr>pcs := (pcs m)(c := Spin l)\<rparr>))"
proof -
  define t where "t = upd_cpu c (\<lambda>p. p\<lparr>iflag := False,
      intena := (if ncli p = 0 then iflag p else intena p), ncli := ncli p + 1\<rparr>) m"
  have "0 \<le> ncli (cpus m c)" using assms by (simp add: smp_inv_def cpu_inv_def)
  then have h: "holding c l t = Ok (l \<in> set (crit m c)) t"
    using holder_iff [OF assms(1), of l c] by (subst holding_run) (simp_all add: upd_cpu_def t_def)
  have p: "pushcli c m = Ok () t"
    by (auto simp: pushcli_def modK_def upd_cpu_def Let_def t_def)
  have "acquire_begin c l m = (if l \<in> set (crit m c) then Panic ''acquire'' else
      Ok () (t\<lparr>pcs := (pcs t)(c := Spin l)\<rparr>))"
    by (simp add: acquire_begin_def thenK_def bindK_def p h panic_def modK_def)
  then show ?thesis by (simp add: t_def upd_cpu_def)
qed

lemma release_run:
  assumes "smp_inv m" and "pcs m c = Run" and "l \<in> set (crit m c)"
  shows "\<exists>m'. thenK (release_begin c l) (release_end c l) m = Ok () m' \<and>
    crit m' = (crit m)(c := remove1 l (crit m c)) \<and> pcs m' c = Run \<and> \<not> sl_locked (slocks m' l)"
proof -
  have n: "0 < ncli (cpus m c)" using assms by (cases "crit m c") (auto simp: smp_inv_def cpu_inv_def)
  then have nf: "\<not> iflag (cpus m c)" using assms by (simp add: smp_inv_def cpu_inv_def)
  have h: "holding c l m = Ok True m" using holder_iff [OF assms(1), of l c] assms(3)
    by (simp add: holding_run [OF n nf])
  show ?thesis using n nf
    by (simp add: release_begin_def release_end_def popcli_def kdefs upd_lock_def upd_cpu_def h)
qed

lemma release_not_held:
  assumes "smp_inv m" and "l \<notin> set (crit m c)"
  shows "release_begin c l m = Panic ''release''"
proof -
  have "0 \<le> ncli (cpus m c)" using assms(1) by (simp add: smp_inv_def cpu_inv_def)
  then obtain m' where "holding c l m = Ok False m'"
    using holder_iff [OF assms(1), of l c] assms(2)
    by (cases "ncli (cpus m c) = 0"; cases "iflag (cpus m c)") (auto simp: holding_def pushcli_def popcli_def kdefs upd_cpu_def Let_def)
  then show ?thesis by (simp add: release_begin_def kdefs)
qed

text \<open>
  (C11) The single-processor view is sound. On a reachable state of the machine whose processor \<open>c\<close> is outside the lock
  code, let \<open>klocks\<close> be the list of the critical sections that it is in. If it holds the lock, \<open>acquire\<close> panics in both
  views, and \<open>release\<close> succeeds in both: the lists agree again, the lock is free and no other processor is affected. If it
  does not hold the lock, \<open>release\<close> panics in both views, and \<open>acquire\<close> of the code gets to its loop; there, in whatever
  state the other processors have brought the machine to, it goes round without an effect while the lock is taken, and when
  the lock is free it returns with the list that \<open>acquire\<close> of the single-processor view leaves.
\<close>

theorem spin_refines_klocks:
  assumes "smp_reach m" and "pcs m c = Run" and "klocks s = crit m c"
  shows "(l \<in> set (crit m c) \<longrightarrow>
      acquire_begin c l m = Panic ''acquire'' \<and> acquire l s = Panic ''acquire'' \<and>
      (\<exists>m'. thenK (release_begin c l) (release_end c l) m = Ok () m' \<and> release l s = Ok () (s\<lparr>klocks := crit m' c\<rparr>) \<and>
         pcs m' c = Run \<and> \<not> sl_locked (slocks m' l) \<and> (\<forall>c'. c' \<noteq> c \<longrightarrow> crit m' c' = crit m c'))) \<and>
    (l \<notin> set (crit m c) \<longrightarrow>
      release_begin c l m = Panic ''release'' \<and> release l s = Panic ''release'' \<and>
      (\<exists>m1. acquire_begin c l m = Ok () m1 \<and> pcs m1 c = Spin l \<and> crit m1 = crit m \<and> slocks m1 = slocks m) \<and>
      (\<forall>m2. pcs m2 c = Spin l \<and> crit m2 c = crit m c \<longrightarrow>
         (sl_locked (slocks m2 l) \<longrightarrow> acquire_xchg c l m2 = Ok () m2) \<and>
         (\<not> sl_locked (slocks m2 l) \<longrightarrow> (\<exists>m3. thenK (acquire_xchg c l) (acquire_end c l) m2 = Ok () m3 \<and>
            acquire l s = Ok () (s\<lparr>klocks := crit m3 c\<rparr>) \<and> pcs m3 c = Run \<and> sl_cpu (slocks m3 l) = Some c))))"
proof (intro conjI impI allI)
  note i = smp_reach_inv [OF assms(1)]
  { assume l: "l \<in> set (crit m c)"
    show "acquire_begin c l m = Panic ''acquire''" using l by (simp add: acquire_begin_run [OF i assms(2)])
    show "acquire l s = Panic ''acquire''" using l assms(3) by (simp add: acquire_def kdefs)
    show "\<exists>m'. thenK (release_begin c l) (release_end c l) m = Ok () m' \<and> release l s = Ok () (s\<lparr>klocks := crit m' c\<rparr>) \<and>
         pcs m' c = Run \<and> \<not> sl_locked (slocks m' l) \<and> (\<forall>c'. c' \<noteq> c \<longrightarrow> crit m' c' = crit m c')"
      using release_run [OF i assms(2) l] l assms(3) by (auto simp: release_Ok) }
  assume l: "l \<notin> set (crit m c)"
  show "release_begin c l m = Panic ''release''" by (rule release_not_held [OF i l])
  show "release l s = Panic ''release''" using l assms(3) by (simp add: release_def kdefs)
  show "\<exists>m1. acquire_begin c l m = Ok () m1 \<and> pcs m1 c = Spin l \<and> crit m1 = crit m \<and> slocks m1 = slocks m"
    using l by (simp add: acquire_begin_run [OF i assms(2)] upd_cpu_def)
  fix m2 :: smp assume m2: "pcs m2 c = Spin l \<and> crit m2 c = crit m c"
  show "acquire_xchg c l m2 = Ok () m2" if f: "sl_locked (slocks m2 l)"
  proof -
    have "(slocks m2)(l := (slocks m2 l)\<lparr>sl_locked := True\<rparr>) = slocks m2" using f by auto
    then show ?thesis using f by (simp add: acquire_xchg_def kdefs upd_lock_def)
  qed
  show "\<exists>m3. thenK (acquire_xchg c l) (acquire_end c l) m2 = Ok () m3 \<and>
      acquire l s = Ok () (s\<lparr>klocks := crit m3 c\<rparr>) \<and> pcs m3 c = Run \<and> sl_cpu (slocks m3 l) = Some c" if "\<not> sl_locked (slocks m2 l)"
    using that l m2 assms(3) by (simp add: thenK_def bindK_def acquire_xchg_def acquire_end_def kdefs upd_lock_def acquire_Ok)
qed

theorem spin_refines_klocks_witness:
  "smp_reach smp_one \<and> acquire_begin 0 L_kmem smp_one = Panic ''acquire'' \<and>
   acquire L_kmem (two_procs\<lparr>klocks := [L_kmem]\<rparr>) = Panic ''acquire'' \<and>
   release_begin 0 L_ptable smp_one = Panic ''release'' \<and> release L_ptable (two_procs\<lparr>klocks := [L_kmem]\<rparr>) = Panic ''release''"
proof -
  have p: "pcs smp_one 0 = Run" using smp_one_run by simp
  show ?thesis
    using spin_refines_klocks [OF smp_one_reach p, of "two_procs\<lparr>klocks := [L_kmem]\<rparr>" L_kmem]
      spin_refines_klocks [OF smp_one_reach p, of "two_procs\<lparr>klocks := [L_kmem]\<rparr>" L_ptable]
      smp_one_reach smp_one_crit by simp
qed

end
