(* ===== verification/Buf.thy ===== *)
theory Buf
  imports Sched
begin

text \<open>
  The contract of the buffer cache, on which the log and the file system rest.

  The state of the contract is what its clients can observe: the contents of every disk block as
  seen through the cache (\<open>bmem\<close>), the contents on the disk itself (\<open>bdisk\<close>), the
  references handed out by \<^verbatim>\<open>bread\<close> and not yet given back (\<open>bheld\<close>, one
  entry per reference, so \<^verbatim>\<open>refcnt\<close> is the number of entries), the blocks whose
  buffer is pinned by \<^verbatim>\<open>B_DIRTY\<close> (\<open>bdirty\<close>), and the writes that reached
  the disk in order (\<open>wtrace\<close>). The cache of \<^verbatim>\<open>kernel/bio.c\<close> over the
  disk of \<^verbatim>\<open>kernel/memide.c\<close> is modelled in \<^verbatim>\<open>Bio\<close> and shown
  to implement these operations.

  A buffer is named by its device and block number: \<^verbatim>\<open>Bio\<close> proves that the cache
  never holds two buffers of one block. \<open>bdata\<close> reads and \<open>set_bdata\<close> writes
  \<^verbatim>\<open>b->data\<close>.
\<close>

section \<open>Constants of param.h and fs.h\<close>

definition NBUF :: nat where "NBUF = 30"
definition BSIZE :: nat where "BSIZE = 512"
definition ROOTDEV :: uint where "ROOTDEV = 1"

text \<open>The contents of a block: its bytes at offsets below \<^verbatim>\<open>BSIZE\<close>.\<close>

type_synonym block = "nat \<Rightarrow> uchar"
type_synonym bkey = "uint \<times> uint"

record bufst = kbase +
  bmem :: "bkey \<Rightarrow> block"
  bdisk :: "bkey \<Rightarrow> block"
  bheld :: "bkey list"
  bdirty :: "bkey list"
  bdisksize :: uint
  wtrace :: "(bkey \<times> block) list"

section \<open>Operations\<close>

text \<open>Buffers in use: referenced or pinned.\<close>

definition binuse :: "'a bufst_scheme \<Rightarrow> bkey list" where
  "binuse s = remdups (bheld s @ bdirty s)"

definition bread :: "uint \<Rightarrow> uint \<Rightarrow> ('a bufst_scheme, bkey) kfun" where
  "bread dev b =
     thenK (acquire L_bcache) (
     bindK (getK (\<lambda>s. (dev, b) \<in> set (binuse s) \<or> length (binuse s) < NBUF)) (\<lambda>room.
     if \<not> room then panic ''bget: no buffers'' else
     thenK (modK (\<lambda>s. s\<lparr>bheld := (dev, b) # bheld s\<rparr>)) (
     thenK (release L_bcache) (
     thenK (acquiresleep (SL_buf dev b)) (
     bindK (getK bdisksize) (\<lambda>n.
     if dev \<noteq> 1 then panic ''iderw: request not for disk 1'' else
     if b \<ge> n then panic ''iderw: block out of range'' else
     retK (dev, b)))))))"

definition bdata :: "bkey \<Rightarrow> ('a bufst_scheme, block) kfun" where
  "bdata k = getK (\<lambda>s. bmem s k)"

definition set_bdata :: "bkey \<Rightarrow> block \<Rightarrow> ('a bufst_scheme, unit) kfun" where
  "set_bdata k d = modK (\<lambda>s. s\<lparr>bmem := (bmem s)(k := d)\<rparr>)"

definition set_dirty :: "bkey \<Rightarrow> ('a bufst_scheme, unit) kfun" where
  "set_dirty k = modK (\<lambda>s. s\<lparr>bdirty := List.insert k (bdirty s)\<rparr>)"

definition bwrite :: "bkey \<Rightarrow> ('a bufst_scheme, unit) kfun" where
  "bwrite k =
     bindK (holdingsleep (SL_buf (fst k) (snd k))) (\<lambda>h.
     if \<not> h then panic ''bwrite'' else
     modK (\<lambda>s. s\<lparr>bdisk := (bdisk s)(k := bmem s k), bdirty := removeAll k (bdirty s),
                 wtrace := wtrace s @ [(k, bmem s k)]\<rparr>))"

definition brelse :: "bkey \<Rightarrow> ('a bufst_scheme, unit) kfun" where
  "brelse k =
     bindK (holdingsleep (SL_buf (fst k) (snd k))) (\<lambda>h.
     if \<not> h then panic ''brelse'' else
     thenK (releasesleep (SL_buf (fst k) (snd k))) (
     thenK (acquire L_bcache) (
     thenK (modK (\<lambda>s. s\<lparr>bheld := remove1 k (bheld s)\<rparr>)) (
     release L_bcache))))"

section \<open>When they return\<close>

lemma bread_Ok [kok]:
  "bread dev b s = Ok k s' \<longleftrightarrow>
     L_bcache \<notin> set (klocks s) \<and> L_sleep (SL_buf dev b) \<notin> set (klocks s) \<and>
     ((dev, b) \<in> set (binuse s) \<or> length (binuse s) < NBUF) \<and>
     \<not> slk_locked (sleeplocks s (SL_buf dev b)) \<and> running s \<and> dev = 1 \<and> b < bdisksize s \<and>
     k = (dev, b) \<and>
     s' = s\<lparr>bheld := (dev, b) # bheld s,
            sleeplocks := (sleeplocks s)(SL_buf dev b := \<lparr>slk_locked = True, slk_pid = mypid s\<rparr>)\<rparr>"
  by (auto simp: bread_def binuse_def kok running_def mypid_def)

lemma bdata_Ok [kok]: "bdata k s = Ok d s' \<longleftrightarrow> d = bmem s k \<and> s' = s"
  by (auto simp: bdata_def kok)

lemma set_bdata_Ok [kok]: "set_bdata k d s = Ok r s' \<longleftrightarrow> s' = s\<lparr>bmem := (bmem s)(k := d)\<rparr>"
  by (auto simp: set_bdata_def kok)

lemma set_dirty_Ok [kok]:
  "set_dirty k s = Ok r s' \<longleftrightarrow> s' = s\<lparr>bdirty := List.insert k (bdirty s)\<rparr>"
  by (auto simp: set_dirty_def kok)

lemma bwrite_Ok [kok]:
  "bwrite k s = Ok r s' \<longleftrightarrow>
     L_sleep (SL_buf (fst k) (snd k)) \<notin> set (klocks s) \<and> slk_mine (SL_buf (fst k) (snd k)) s \<and> running s \<and>
     s' = s\<lparr>bdisk := (bdisk s)(k := bmem s k), bdirty := removeAll k (bdirty s),
            wtrace := wtrace s @ [(k, bmem s k)]\<rparr>"
  by (auto simp: bwrite_def kok slk_mine_def)

lemma brelse_Ok [kok]:
  "brelse k s = Ok r s' \<longleftrightarrow>
     L_sleep (SL_buf (fst k) (snd k)) \<notin> set (klocks s) \<and> L_ptable \<notin> set (klocks s) \<and>
     L_bcache \<notin> set (klocks s) \<and> slk_mine (SL_buf (fst k) (snd k)) s \<and> running s \<and>
     s' = s\<lparr>sleeplocks := (sleeplocks s)(SL_buf (fst k) (snd k) := \<lparr>slk_locked = False, slk_pid = 0\<rparr>),
            ptable := map (wake (Ch_sleep (SL_buf (fst k) (snd k)))) (ptable s),
            bheld := remove1 k (bheld s)\<rparr>"
  by (auto simp: brelse_def kok slk_mine_def)

end
