(* ===== verification/Layout.thy ===== *)
theory Layout
  imports Buf
begin

text \<open>
  The on-disk structures of \<^verbatim>\<open>kernel/fs.h\<close>: how 16-bit and 32-bit fields lie in
  the bytes of a block (little endian), the superblock, \<^verbatim>\<open>struct dinode\<close>,
  \<^verbatim>\<open>struct dirent\<close>, the arrays of block numbers of indirect blocks, and the
  constants and macros of the layout. The lemmas are the laws of a store: a field read back after
  a write has the value written, and a write does not disturb any other field.
\<close>

section \<open>Fields of a block\<close>

definition get32 :: "block \<Rightarrow> nat \<Rightarrow> uint" where
  "get32 d p = ucast (d p) OR push_bit 8 (ucast (d (p + 1))) OR
     push_bit 16 (ucast (d (p + 2))) OR push_bit 24 (ucast (d (p + 3)))"

definition put32 :: "block \<Rightarrow> nat \<Rightarrow> uint \<Rightarrow> block" where
  "put32 d p v = d(p := ucast v, p + 1 := ucast (drop_bit 8 v),
     p + 2 := ucast (drop_bit 16 v), p + 3 := ucast (drop_bit 24 v))"

definition get16 :: "block \<Rightarrow> nat \<Rightarrow> ushort" where
  "get16 d p = ucast (d p) OR push_bit 8 (ucast (d (p + 1)))"

definition put16 :: "block \<Rightarrow> nat \<Rightarrow> ushort \<Rightarrow> block" where
  "put16 d p v = d(p := ucast v, p + 1 := ucast (drop_bit 8 v))"

text \<open>Arrays of 32-bit fields, and \<^verbatim>\<open>memset\<close> of a range.\<close>

definition gets32 :: "block \<Rightarrow> nat \<Rightarrow> nat \<Rightarrow> uint list" where
  "gets32 d p n = map (\<lambda>j. get32 d (p + 4 * j)) [0..<n]"

fun puts32 :: "block \<Rightarrow> nat \<Rightarrow> uint list \<Rightarrow> block" where
  "puts32 d p [] = d"
| "puts32 d p (v # vs) = puts32 (put32 d p v) (p + 4) vs"

definition zero_range :: "block \<Rightarrow> nat \<Rightarrow> nat \<Rightarrow> block" where
  "zero_range d p n = (\<lambda>x. if p \<le> x \<and> x < p + n then 0 else d x)"

section \<open>Constants and macros of fs.h and stat.h\<close>

definition NDIRECT :: nat where "NDIRECT = 11"
definition NINDIRECT :: nat where "NINDIRECT = BSIZE div 4"
definition NDINDIRECT :: nat where "NDINDIRECT = NINDIRECT * NINDIRECT"
definition MAXFILE :: nat where "MAXFILE = NDIRECT + NINDIRECT + NDINDIRECT"
definition IPB :: nat where "IPB = BSIZE div 64"
definition BPB :: nat where "BPB = BSIZE * 8"
definition FSSIZE :: nat where "FSSIZE = 20000"
definition DIRSIZ :: nat where "DIRSIZ = 14"
definition ROOTINO :: uint where "ROOTINO = 1"
definition T_DIR :: ushort where "T_DIR = 1"
definition T_FILE :: ushort where "T_FILE = 2"
definition T_DEV :: ushort where "T_DEV = 3"

lemmas fs_consts = BSIZE_def NDIRECT_def NINDIRECT_def NDINDIRECT_def MAXFILE_def IPB_def BPB_def

record superblock =
  sb_size :: uint
  sb_nblocks :: uint
  sb_ninodes :: uint
  sb_nlog :: uint
  sb_logstart :: uint
  sb_inodestart :: uint
  sb_bmapstart :: uint

definition IBLOCK :: "uint \<Rightarrow> superblock \<Rightarrow> uint" where
  "IBLOCK i sb = i div of_nat IPB + sb_inodestart sb"

definition BBLOCK :: "uint \<Rightarrow> superblock \<Rightarrow> uint" where
  "BBLOCK b sb = b div of_nat BPB + sb_bmapstart sb"

definition get_superblock :: "block \<Rightarrow> superblock" where
  "get_superblock d = \<lparr>sb_size = get32 d 0, sb_nblocks = get32 d 4, sb_ninodes = get32 d 8,
     sb_nlog = get32 d 12, sb_logstart = get32 d 16, sb_inodestart = get32 d 20,
     sb_bmapstart = get32 d 24\<rparr>"

section \<open>On-disk inodes\<close>

record dinode =
  d_type :: ushort
  d_major :: ushort
  d_minor :: ushort
  d_nlink :: ushort
  d_size :: uint
  d_addrs :: "uint list"

text \<open>The inode in slot \<open>i\<close> of an inode block, \<^verbatim>\<open>(struct dinode*)bp->data + i\<close>.\<close>

definition get_dinode :: "block \<Rightarrow> nat \<Rightarrow> dinode" where
  "get_dinode d i = \<lparr>d_type = get16 d (64 * i), d_major = get16 d (64 * i + 2),
     d_minor = get16 d (64 * i + 4), d_nlink = get16 d (64 * i + 6),
     d_size = get32 d (64 * i + 8), d_addrs = gets32 d (64 * i + 12) (NDIRECT + 2)\<rparr>"

definition put_dinode :: "block \<Rightarrow> nat \<Rightarrow> dinode \<Rightarrow> block" where
  "put_dinode d i n =
     puts32 (put32 (put16 (put16 (put16 (put16 d (64 * i) (d_type n))
       (64 * i + 2) (d_major n)) (64 * i + 4) (d_minor n)) (64 * i + 6) (d_nlink n))
       (64 * i + 8) (d_size n)) (64 * i + 12) (d_addrs n)"

section \<open>Directory entries\<close>

text \<open>A directory entry as the 16 bytes \<^verbatim>\<open>readi\<close> and \<^verbatim>\<open>writei\<close> move.\<close>

record dirent =
  de_inum :: ushort
  de_name :: "uchar list"

definition get_dirent :: "uchar list \<Rightarrow> dirent" where
  "get_dirent bs = \<lparr>de_inum = ucast (bs ! 0) OR push_bit 8 (ucast (bs ! 1)), de_name = drop 2 bs\<rparr>"

definition put_dirent :: "dirent \<Rightarrow> uchar list" where
  "put_dirent e = ucast (de_inum e) # ucast (drop_bit 8 (de_inum e)) # de_name e"

section \<open>Laws\<close>

lemma le32_split:
  "(ucast (ucast v :: 8 word) :: uint) OR push_bit 8 (ucast (ucast (drop_bit 8 v) :: 8 word)) OR
     push_bit 16 (ucast (ucast (drop_bit 16 v) :: 8 word)) OR
     push_bit 24 (ucast (ucast (drop_bit 24 v) :: 8 word)) = v"
proof (rule bit_word_eqI)
  fix n assume "n < LENGTH(32)"
  then consider "n < 8" | "8 \<le> n" "n < 16" | "16 \<le> n" "n < 24" | "24 \<le> n" "n < 32"
    by fastforce
  then show "bit ((ucast (ucast v :: 8 word) :: uint) OR push_bit 8 (ucast (ucast (drop_bit 8 v) :: 8 word)) OR
     push_bit 16 (ucast (ucast (drop_bit 16 v) :: 8 word)) OR
     push_bit 24 (ucast (ucast (drop_bit 24 v) :: 8 word))) n = bit v n"
    by cases (simp_all add: bit_simps, linarith+)
qed

lemma le16_split:
  "(ucast (ucast v :: 8 word) :: ushort) OR push_bit 8 (ucast (ucast (drop_bit 8 v) :: 8 word)) = v"
  by (rule bit_word_eqI) (auto simp: bit_simps)

lemma get32_put32_same [simp]: "get32 (put32 d p v) p = v"
  using le32_split [of v] by (simp add: get32_def put32_def)

lemma get16_put16_same [simp]: "get16 (put16 d p v) p = v"
  using le16_split [of v] by (simp add: get16_def put16_def)

lemma get32_put32_other: "q + 4 \<le> p \<or> p + 4 \<le> q \<Longrightarrow> get32 (put32 d p v) q = get32 d q"
  by (auto simp: get32_def put32_def)

lemma get32_put16_other: "q + 4 \<le> p \<or> p + 2 \<le> q \<Longrightarrow> get32 (put16 d p v) q = get32 d q"
  by (auto simp: get32_def put16_def)

lemma get16_put32_other: "q + 2 \<le> p \<or> p + 4 \<le> q \<Longrightarrow> get16 (put32 d p v) q = get16 d q"
  by (auto simp: get16_def put32_def)

lemma get16_put16_other: "q + 2 \<le> p \<or> p + 2 \<le> q \<Longrightarrow> get16 (put16 d p v) q = get16 d q"
  by (auto simp: get16_def put16_def)

lemma get32_put32_index: "i \<noteq> j \<Longrightarrow> get32 (put32 d (4 * i) v) (4 * j) = get32 d (4 * j)"
  by (rule get32_put32_other) arith

lemma get32_zero [simp]: "get32 (\<lambda>_. 0) p = 0"
  by (simp add: get32_def)

lemma puts32_outside:
  "x < p \<or> p + 4 * length vs \<le> x \<Longrightarrow> puts32 d p vs x = d x"
  by (induction vs arbitrary: d p) (auto simp: put32_def)

lemma get32_puts32_outside:
  "q + 4 \<le> p \<or> p + 4 * length vs \<le> q \<Longrightarrow> get32 (puts32 d p vs) q = get32 d q"
  by (auto simp: get32_def puts32_outside)

lemma get16_puts32_outside:
  "q + 2 \<le> p \<or> p + 4 * length vs \<le> q \<Longrightarrow> get16 (puts32 d p vs) q = get16 d q"
  by (auto simp: get16_def puts32_outside)

lemma get32_puts32: "j < length vs \<Longrightarrow> get32 (puts32 d p vs) (p + 4 * j) = vs ! j"
proof (induction vs arbitrary: d p j)
  case Nil
  then show ?case by simp
next
  case (Cons v vs)
  show ?case
  proof (cases j)
    case 0
    then show ?thesis by (simp add: get32_puts32_outside)
  next
    case (Suc k)
    with Cons.prems have "k < length vs" by simp
    from Cons.IH [OF this, of "put32 d p v" "p + 4"] Suc show ?thesis by (simp add: algebra_simps)
  qed
qed

lemma gets32_puts32 [simp]: "length vs = n \<Longrightarrow> gets32 (puts32 d p vs) p n = vs"
  by (auto simp: gets32_def get32_puts32 intro: nth_equalityI)

lemma length_gets32 [simp]: "length (gets32 d p n) = n"
  by (simp add: gets32_def)

lemma gets32_puts32_outside:
  "q + 4 * n \<le> p \<or> p + 4 * length vs \<le> q \<Longrightarrow> gets32 (puts32 d p vs) q n = gets32 d q n"
  by (auto simp: gets32_def get32_puts32_outside)

text \<open>Reading an inode back, and the other slots of its block.\<close>

lemma get_put_dinode [simp]:
  "length (d_addrs n) = NDIRECT + 2 \<Longrightarrow> get_dinode (put_dinode d i n) i = n"
  by (simp add: get_dinode_def put_dinode_def NDIRECT_def get16_puts32_outside get32_puts32_outside
      get16_put32_other get16_put16_other get32_put16_other)

lemma put_dinode_outside:
  assumes "length (d_addrs n) = NDIRECT + 2" and "x < 64 * i \<or> 64 * i + 64 \<le> x"
  shows "put_dinode d i n x = d x"
  using assms by (auto simp: put_dinode_def NDIRECT_def puts32_outside put32_def put16_def)

lemma get_dinode_cong:
  "(\<And>x. 64 * i \<le> x \<Longrightarrow> x < 64 * i + 64 \<Longrightarrow> d x = e x) \<Longrightarrow> get_dinode d i = get_dinode e i"
  by (simp add: get_dinode_def get16_def get32_def gets32_def NDIRECT_def)

lemma get_put_dinode_other [simp]:
  assumes "length (d_addrs n) = NDIRECT + 2" and "i \<noteq> j"
  shows "get_dinode (put_dinode d i n) j = get_dinode d j"
proof (rule get_dinode_cong)
  fix x assume "64 * j \<le> x" and "x < 64 * j + 64"
  with assms(2) have "x < 64 * i \<or> 64 * i + 64 \<le> x" by arith
  with assms(1) show "put_dinode d i n x = d x" by (rule put_dinode_outside)
qed

lemma get_put_dirent [simp]: "get_dirent (put_dirent e) = e"
  using le16_split [of "de_inum e"] by (simp add: get_dirent_def put_dirent_def)

end
