(* ===== verification/Log.thy ===== *)
theory Log
  imports Layout
begin

text \<open>
  The write-ahead log: \<^verbatim>\<open>kernel/log.c\<close>.

  \<open>logst\<close> adds \<^verbatim>\<open>struct log\<close> to the state of the buffer cache. The header
  \<^verbatim>\<open>log.lh\<close> is the list of its first \<^verbatim>\<open>n\<close> block numbers (the
  entries from \<^verbatim>\<open>n\<close> on are never read). Every operation of the file is
  modelled; a crash is a state in which the disk has received a prefix of the writes
  (\<open>wtrace\<close>) of an operation and nothing else survives.
\<close>

section \<open>State\<close>

definition MAXOPBLOCKS :: nat where "MAXOPBLOCKS = 10"
definition LOGSIZE :: nat where "LOGSIZE = MAXOPBLOCKS * 3"

record logst = bufst +
  log_start :: uint
  log_size :: int
  log_outstanding :: int
  log_committing :: bool
  log_dev :: uint
  lh :: "uint list"

definition set_lh :: "uint list \<Rightarrow> ('a logst_scheme, unit) kfun" where
  "set_lh bs = modK (\<lambda>s. s\<lparr>lh := bs\<rparr>)"

section \<open>Reading and writing the log\<close>

definition readsb :: "uint \<Rightarrow> ('a bufst_scheme, superblock) kfun" where
  "readsb dev =
     bindK (bread dev 1) (\<lambda>bp.
     bindK (bdata bp) (\<lambda>d.
     thenK (brelse bp) (
     retK (get_superblock d))))"

definition install_one :: "nat \<Rightarrow> ('a logst_scheme, unit) kfun" where
  "install_one tail =
     bindK (getK (\<lambda>s. (log_dev s, log_start s, lh s))) (\<lambda>(dev, start, bs).
     bindK (bread dev (start + of_nat tail + 1)) (\<lambda>lbuf.
     bindK (bread dev (bs ! tail)) (\<lambda>dbuf.
     bindK (bdata lbuf) (\<lambda>d.
     thenK (set_bdata dbuf d) (
     thenK (bwrite dbuf) (
     thenK (brelse lbuf) (
     brelse dbuf)))))))"

definition install_trans :: "('a logst_scheme, unit) kfun" where
  "install_trans = bindK (getK (\<lambda>s. length (lh s))) (\<lambda>n. forK [0..<n] install_one)"

text \<open>
  A header whose count exceeds \<^verbatim>\<open>LOGSIZE\<close> would be copied past the end of
  \<^verbatim>\<open>log.lh.block\<close>.
\<close>

definition read_head :: "('a logst_scheme, unit) kfun" where
  "read_head =
     bindK (getK (\<lambda>s. (log_dev s, log_start s))) (\<lambda>(dev, start).
     bindK (bread dev start) (\<lambda>buf.
     bindK (bdata buf) (\<lambda>d.
     let n = sint (get32 d 0) in
     if n > int LOGSIZE then undefK else
     thenK (set_lh (gets32 d 4 (nat n))) (
     brelse buf))))"

definition write_head :: "('a logst_scheme, unit) kfun" where
  "write_head =
     bindK (getK (\<lambda>s. (log_dev s, log_start s, lh s))) (\<lambda>(dev, start, bs).
     bindK (bread dev start) (\<lambda>buf.
     bindK (bdata buf) (\<lambda>d.
     thenK (set_bdata buf (puts32 (put32 d 0 (of_nat (length bs))) 4 bs)) (
     thenK (bwrite buf) (
     brelse buf)))))"

definition recover_from_log :: "('a logst_scheme, unit) kfun" where
  "recover_from_log =
     thenK read_head (
     thenK install_trans (
     thenK (set_lh []) (
     write_head)))"

definition initlog :: "uint \<Rightarrow> ('a logst_scheme, unit) kfun" where
  "initlog dev =
     (if 4 + 4 * LOGSIZE \<ge> BSIZE then panic ''initlog: too big logheader'' else
     bindK (readsb dev) (\<lambda>sb.
     thenK (modK (\<lambda>s. s\<lparr>log_start := sb_logstart sb\<rparr>)) (
     thenK (modK (\<lambda>s. s\<lparr>log_size := uint (sb_nlog sb)\<rparr>)) (
     thenK (modK (\<lambda>s. s\<lparr>log_dev := dev\<rparr>)) (
     recover_from_log)))))"

section \<open>Transactions\<close>

definition begin_op :: "('a logst_scheme, unit) kfun" where
  "begin_op =
     thenK (acquire L_log) (
     bindK (getK (\<lambda>s. (log_committing s, int (length (lh s)), log_outstanding s))) (\<lambda>(committing, n, outstanding).
     if committing then sleep Ch_log L_log else
     if n + (outstanding + 1) * int MAXOPBLOCKS > int LOGSIZE then sleep Ch_log L_log else
     thenK (modK (\<lambda>s. s\<lparr>log_outstanding := log_outstanding s + 1\<rparr>)) (
     release L_log)))"

definition write_log_one :: "nat \<Rightarrow> ('a logst_scheme, unit) kfun" where
  "write_log_one tail =
     bindK (getK (\<lambda>s. (log_dev s, log_start s, lh s))) (\<lambda>(dev, start, bs).
     bindK (bread dev (start + of_nat tail + 1)) (\<lambda>to.
     bindK (bread dev (bs ! tail)) (\<lambda>from.
     bindK (bdata from) (\<lambda>d.
     thenK (set_bdata to d) (
     thenK (bwrite to) (
     thenK (brelse from) (
     brelse to)))))))"

definition write_log :: "('a logst_scheme, unit) kfun" where
  "write_log = bindK (getK (\<lambda>s. length (lh s))) (\<lambda>n. forK [0..<n] write_log_one)"

definition commit :: "('a logst_scheme, unit) kfun" where
  "commit =
     bindK (getK (\<lambda>s. length (lh s))) (\<lambda>n.
     whenK (n > 0) (
       thenK write_log (
       thenK write_head (
       thenK install_trans (
       thenK (set_lh []) (
       write_head))))))"

definition end_op :: "('a logst_scheme, unit) kfun" where
  "end_op =
     thenK (acquire L_log) (
     thenK (modK (\<lambda>s. s\<lparr>log_outstanding := log_outstanding s - 1\<rparr>)) (
     bindK (getK (\<lambda>s. (log_committing s, log_outstanding s))) (\<lambda>(committing, outstanding).
     if committing then panic ''log.committing'' else
     let do_commit = (outstanding = 0) in
     thenK (if do_commit then modK (\<lambda>s. s\<lparr>log_committing := True\<rparr>) else wakeup Ch_log) (
     thenK (release L_log) (
     whenK do_commit (
       thenK commit (
       thenK (acquire L_log) (
       thenK (modK (\<lambda>s. s\<lparr>log_committing := False\<rparr>)) (
       thenK (wakeup Ch_log) (
       release L_log))))))))))"

definition log_write :: "bkey \<Rightarrow> ('a logst_scheme, unit) kfun" where
  "log_write b =
     bindK (getK (\<lambda>s. (int (length (lh s)), log_size s, log_outstanding s))) (\<lambda>(n, size, outstanding).
     if n \<ge> int LOGSIZE \<or> n \<ge> size - 1 then panic ''too big a transaction'' else
     if outstanding < 1 then panic ''log_write outside of trans'' else
     thenK (acquire L_log) (
     thenK (modK (\<lambda>s. s\<lparr>lh := (case find_index (\<lambda>x. x = snd b) (lh s) of
         Some i \<Rightarrow> (lh s)[i := snd b] | None \<Rightarrow> lh s @ [snd b])\<rparr>)) (
     thenK (set_dirty b) (
     release L_log))))"

definition quiet :: "'a bufst_scheme \<Rightarrow> bool" where
  "quiet s \<longleftrightarrow> klocks s = [] \<and> running s \<and> bheld s = [] \<and>
     (\<forall>d b. \<not> slk_locked (sleeplocks s (SL_buf d b)))"

definition log_same :: "'a logst_scheme \<Rightarrow> 'a logst_scheme \<Rightarrow> bool" where
  "log_same s s' \<longleftrightarrow> log_start s' = log_start s \<and> log_size s' = log_size s \<and>
     log_outstanding s' = log_outstanding s \<and> log_committing s' = log_committing s \<and>
     log_dev s' = log_dev s \<and> bdisksize s' = bdisksize s"

definition apply_writes :: "(bkey \<Rightarrow> block) \<Rightarrow> (bkey \<times> block) list \<Rightarrow> bkey \<Rightarrow> block" where
  "apply_writes m ws = foldl (\<lambda>m (k, d). m(k := d)) m ws"

lemma install_one_run:
  assumes "quiet s" and "tail < length (lh s)" and "log_dev s = 1"
    and "lb = log_start s + of_nat tail + 1" and "db = lh s ! tail"
    and "lb < bdisksize s" and "db < bdisksize s" and "lb \<noteq> db"
    and "length (bdirty s) < NBUF" and "(1, db) \<in> set (bdirty s) \<or> length (bdirty s) + 1 < NBUF"
  shows "\<exists>s'. install_one tail s = Ok () s' \<and> quiet s' \<and> log_same s s' \<and> lh s' = lh s \<and>
    bmem s' = (bmem s)((1, db) := bmem s (1, lb)) \<and>
    bdisk s' = (bdisk s)((1, db) := bmem s (1, lb)) \<and>
    bdirty s' = removeAll (1, db) (bdirty s) \<and> wtrace s' = wtrace s @ [((1, db), bmem s (1, lb))]"
proof -
  have "length (remdups (bdirty s)) < NBUF"
    using assms(9) length_remdups_leq [of "bdirty s"] by linarith
  moreover have "(1, db) \<in> set (bdirty s) \<or> Suc (length (remdups (bdirty s))) < NBUF"
    using assms(10) length_remdups_leq [of "bdirty s"] by (cases "(1, db) \<in> set (bdirty s)") linarith+
  moreover obtain i where "cur s = Some i" "i < length (ptable s)"
    using assms(1) by (auto simp: quiet_def running_def)
  ultimately show ?thesis
    using assms unfolding quiet_def
    by (auto simp: install_one_def kok binuse_def quiet_def log_same_def running_def mypid_def slk_mine_def)
qed

lemma write_log_one_run:
  assumes "quiet s" and "tail < length (lh s)" and "log_dev s = 1"
    and "lb = log_start s + of_nat tail + 1" and "db = lh s ! tail"
    and "lb < bdisksize s" and "db < bdisksize s" and "lb \<noteq> db"
    and "length (bdirty s) < NBUF" and "(1, db) \<in> set (bdirty s)" and "(1, lb) \<notin> set (bdirty s)"
  shows "\<exists>s'. write_log_one tail s = Ok () s' \<and> quiet s' \<and> log_same s s' \<and> lh s' = lh s \<and>
    bmem s' = (bmem s)((1, lb) := bmem s (1, db)) \<and>
    bdisk s' = (bdisk s)((1, lb) := bmem s (1, db)) \<and>
    bdirty s' = bdirty s \<and> wtrace s' = wtrace s @ [((1, lb), bmem s (1, db))]"
proof -
  have "length (remdups (bdirty s)) < NBUF"
    using assms(9) length_remdups_leq [of "bdirty s"] by linarith
  moreover obtain i where "cur s = Some i" "i < length (ptable s)"
    using assms(1) by (auto simp: quiet_def running_def)
  ultimately show ?thesis
    using assms unfolding quiet_def
    by (auto simp: write_log_one_def kok binuse_def quiet_def log_same_def running_def mypid_def slk_mine_def)
qed

definition head_block :: "block \<Rightarrow> uint list \<Rightarrow> block" where
  "head_block d bs = puts32 (put32 d 0 (of_nat (length bs))) 4 bs"

lemma write_head_run:
  assumes "quiet s" and "log_dev s = 1" and "log_start s < bdisksize s"
    and "length (bdirty s) < NBUF" and "(1, log_start s) \<notin> set (bdirty s)"
  shows "\<exists>s'. write_head s = Ok () s' \<and> quiet s' \<and> log_same s s' \<and> lh s' = lh s \<and>
    (let h = head_block (bmem s (1, log_start s)) (lh s) in
     bmem s' = (bmem s)((1, log_start s) := h) \<and> bdisk s' = (bdisk s)((1, log_start s) := h) \<and>
     bdirty s' = bdirty s \<and> wtrace s' = wtrace s @ [((1, log_start s), h)])"
proof -
  have "length (remdups (bdirty s)) < NBUF"
    using assms(4) length_remdups_leq [of "bdirty s"] by linarith
  moreover obtain i where "cur s = Some i" "i < length (ptable s)"
    using assms(1) by (auto simp: quiet_def running_def)
  ultimately show ?thesis
    using assms unfolding quiet_def head_block_def
    by (auto simp: write_head_def kok binuse_def quiet_def log_same_def running_def mypid_def slk_mine_def Let_def)
qed

lemma read_head_run:
  assumes "quiet s" and "log_dev s = 1" and "log_start s < bdisksize s"
    and "length (bdirty s) < NBUF" and "sint (get32 (bmem s (1, log_start s)) 0) \<le> int LOGSIZE"
  shows "\<exists>s'. read_head s = Ok () s' \<and> quiet s' \<and> log_same s s' \<and>
     lh s' = gets32 (bmem s (1, log_start s)) 4 (nat (sint (get32 (bmem s (1, log_start s)) 0))) \<and>
     bmem s' = bmem s \<and> bdisk s' = bdisk s \<and> bdirty s' = bdirty s \<and> wtrace s' = wtrace s"
proof -
  have "length (remdups (bdirty s)) < NBUF"
    using assms(4) length_remdups_leq [of "bdirty s"] by linarith
  moreover obtain i where "cur s = Some i" "i < length (ptable s)"
    using assms(1) by (auto simp: quiet_def running_def)
  ultimately show ?thesis
    using assms unfolding quiet_def
    by (auto simp: read_head_def set_lh_def kok binuse_def quiet_def log_same_def running_def mypid_def slk_mine_def Let_def not_less)
qed

lemma apply_writes_Nil [simp]: "apply_writes m [] = m"
  by (simp add: apply_writes_def)

lemma apply_writes_append: "apply_writes m (ws @ vs) = apply_writes (apply_writes m ws) vs"
  by (simp add: apply_writes_def)

lemma apply_writes_single [simp]: "apply_writes m [(k, d)] = m(k := d)"
  by (simp add: apply_writes_def)

lemma apply_writes_Cons: "apply_writes m ((k, d) # ws) = apply_writes (m(k := d)) ws"
  by (simp add: apply_writes_def)

lemma apply_writes_notin: "k \<notin> fst ` set ws \<Longrightarrow> apply_writes m ws k = m k"
  by (induction ws arbitrary: m) (auto simp: apply_writes_Cons)

lemma apply_writes_map:
  assumes "distinct (map f is)" and "i \<in> set is"
  shows "apply_writes m (map (\<lambda>i. (f i, g i)) is) (f i) = g i"
  using assms
proof (induction "is" arbitrary: m)
  case Nil
  then show ?case by simp
next
  case (Cons j "is")
  show ?case
  proof (cases "i = j")
    case True
    then have "f i \<notin> fst ` set (map (\<lambda>i. (f i, g i)) is)" using Cons.prems by (auto simp: image_image)
    then show ?thesis using True by (simp add: apply_writes_Cons apply_writes_notin)
  next
    case False
    with Cons show ?thesis by (simp add: apply_writes_Cons)
  qed
qed

definition log_key :: "uint \<Rightarrow> nat \<Rightarrow> bkey" where
  "log_key start i = (1, start + of_nat i + 1)"

text \<open>The blocks of the log: the header at \<open>log_start\<close> and the slots after it, \<open>log_size\<close> blocks in all.\<close>

definition log_area :: "'a logst_scheme \<Rightarrow> bkey set" where
  "log_area s = Pair 1 ` {b. log_start s \<le> b \<and> uint b < uint (log_start s) + log_size s}"

text \<open>The logged blocks are outside the log, and it has a slot for each of them after the header.\<close>

definition log_wf :: "'a logst_scheme \<Rightarrow> bool" where
  "log_wf s \<longleftrightarrow> log_dev s = 1 \<and> length (lh s) < LOGSIZE \<and> int (length (lh s)) < log_size s \<and> distinct (lh s) \<and>
     (\<forall>b \<in> set (lh s). b < bdisksize s \<and> (1, b) \<notin> log_area s) \<and>
     uint (log_start s) + log_size s \<le> uint (bdisksize s)"

lemma log_area_cong: "log_start s' = log_start s \<Longrightarrow> log_size s' = log_size s \<Longrightarrow> log_area s' = log_area s"
  by (simp add: log_area_def)

lemma log_slot:
  assumes "log_wf s" and "i < length (lh s)"
  shows "unat (log_start s + of_nat i + 1) = unat (log_start s) + i + 1" "log_start s + of_nat i + 1 < bdisksize s"
    "log_key (log_start s) i \<in> log_area s" "log_key (log_start s) i \<noteq> (1, log_start s)"
proof -
  have b: "int i + 1 < log_size s" "i < LOGSIZE" "int (unat (log_start s)) + log_size s \<le> int (unat (bdisksize s))"
    using assms by (auto simp: log_wf_def)
  then have b3: "unat (log_start s) + i + 1 < unat (bdisksize s)" by linarith
  have n: "unat (bdisksize s) < 4294967296" by (rule unat_lt_2p32)
  have i: "unat (of_nat i :: uint) = i" using b(2) by (intro unat_of_nat_small) (simp add: LOGSIZE_def MAXOPBLOCKS_def)
  have "unat (log_start s + of_nat i) = unat (log_start s) + i" using unat_add_noovf [of "log_start s" "of_nat i"] b3 n i by simp
  then show u: "unat (log_start s + of_nat i + 1) = unat (log_start s) + i + 1"
    using unat_add_noovf [of "log_start s + of_nat i" 1] b3 n by simp
  show "log_start s + of_nat i + 1 < bdisksize s" using u b3 by (simp add: word_less_nat_alt)
  have "log_start s \<le> log_start s + of_nat i + 1" unfolding word_le_nat_alt u by simp
  moreover have "uint (log_start s + of_nat i + 1) < uint (log_start s) + log_size s" unfolding uint_nat u using b(1) by simp
  ultimately show "log_key (log_start s) i \<in> log_area s" unfolding log_key_def log_area_def by blast
  show "log_key (log_start s) i \<noteq> (1, log_start s)"
  proof
    assume "log_key (log_start s) i = (1, log_start s)"
    then have "log_start s + of_nat i + 1 = log_start s" by (simp only: log_key_def prod.inject)
    then have "unat (log_start s + of_nat i + 1) = unat (log_start s)" by (rule arg_cong)
    then show False using u by linarith
  qed
qed

lemma log_head:
  assumes "log_wf s"
  shows "(1, log_start s) \<in> log_area s" "log_start s < bdisksize s"
  using assms by (auto simp: log_wf_def log_area_def word_less_def)

lemma log_key_inj:
  assumes "log_wf s" and "i < length (lh s)" and "j < length (lh s)" and "log_key (log_start s) i = log_key (log_start s) j"
  shows "i = j"
proof -
  have "log_start s + of_nat i + 1 = log_start s + of_nat j + 1" using assms(4) by (simp only: log_key_def prod.inject)
  then have "unat (log_start s + of_nat i + 1) = unat (log_start s + of_nat j + 1)" by (rule arg_cong)
  then show ?thesis using log_slot(1) [OF assms(1,2)] log_slot(1) [OF assms(1,3)] by linarith
qed

lemma log_wf_homes:
  assumes "log_wf s" and "x \<in> log_area s"
  shows "x \<notin> Pair 1 ` set (lh s)"
  using assms by (auto simp: log_wf_def)

definition log_copies :: "(bkey \<Rightarrow> block) \<Rightarrow> uint \<Rightarrow> uint list \<Rightarrow> nat \<Rightarrow> (bkey \<times> block) list" where
  "log_copies m start bs n = map (\<lambda>i. (log_key start i, m (1, bs ! i))) [0..<n]"

definition home_copies :: "(bkey \<Rightarrow> block) \<Rightarrow> uint list \<Rightarrow> nat \<Rightarrow> (bkey \<times> block) list" where
  "home_copies m bs n = map (\<lambda>i. ((1, bs ! i), m (1, bs ! i))) [0..<n]"

lemma log_copies_home:
  assumes "log_wf s" and "i < length (lh s)" and "n \<le> length (lh s)"
  shows "apply_writes m (log_copies m' (log_start s) (lh s) n) (1, lh s ! i) = m (1, lh s ! i)"
proof (rule apply_writes_notin)
  have "(1, lh s ! i) \<notin> log_area s" using assms by (auto simp: log_wf_def)
  moreover have "fst ` set (log_copies m' (log_start s) (lh s) n) \<subseteq> log_area s"
    using assms log_slot(3) [OF assms(1)] by (auto simp: log_copies_def)
  ultimately show "(1, lh s ! i) \<notin> fst ` set (log_copies m' (log_start s) (lh s) n)" by blast
qed

lemma write_log_run:
  assumes q: "quiet s" and w: "log_wf s" and "set (bdirty s) = Pair 1 ` set (lh s)"
    and "length (bdirty s) < NBUF"
  shows "\<exists>s'. write_log s = Ok () s' \<and> quiet s' \<and> log_same s s' \<and> lh s' = lh s \<and> bdirty s' = bdirty s \<and>
    (let ws = log_copies (bmem s) (log_start s) (lh s) (length (lh s)) in
     bmem s' = apply_writes (bmem s) ws \<and> bdisk s' = apply_writes (bdisk s) ws \<and> wtrace s' = wtrace s @ ws)"
proof -
  define P where "P k t \<longleftrightarrow> quiet t \<and> log_same s t \<and> lh t = lh s \<and> bdirty t = bdirty s \<and>
    (let ws = log_copies (bmem s) (log_start s) (lh s) k in
     bmem t = apply_writes (bmem s) ws \<and> bdisk t = apply_writes (bdisk s) ws \<and> wtrace t = wtrace s @ ws)" for k t
  have "\<exists>s'. forK [0..<length (lh s)] write_log_one s = Ok () s' \<and> P (length (lh s)) s'"
  proof (rule forK_upto)
    show "P 0 s" using q by (simp add: P_def log_same_def log_copies_def)
    fix k t assume k: "k < length (lh s)" and t: "P k t"
    have db: "(1, lh s ! k) \<in> set (bdirty t)" using t k assms(3) by (auto simp: P_def)
    have lb: "(1, log_start t + of_nat k + 1) \<notin> set (bdirty t)"
      using t log_wf_homes [OF w log_slot(3) [OF w k]] assms(3) by (simp add: P_def log_same_def log_key_def)
    have ne: "log_start t + of_nat k + 1 \<noteq> lh t ! k" using lb db t by (auto simp: P_def)
    obtain t' where t': "write_log_one k t = Ok () t'" "quiet t'" "log_same t t'" "lh t' = lh t"
      "bmem t' = (bmem t)((1, log_start t + of_nat k + 1) := bmem t (1, lh t ! k))"
      "bdisk t' = (bdisk t)((1, log_start t + of_nat k + 1) := bmem t (1, lh t ! k))"
      "bdirty t' = bdirty t" "wtrace t' = wtrace t @ [((1, log_start t + of_nat k + 1), bmem t (1, lh t ! k))]"
      using write_log_one_run [of t k "log_start t + of_nat k + 1" "lh t ! k"] t k w ne db lb
        log_slot(2) [OF w k] assms(4)
      by (auto simp: P_def log_same_def log_wf_def)
    have "bmem t (1, lh t ! k) = bmem s (1, lh s ! k)"
      using t k log_copies_home [OF w k, of k] by (simp add: P_def Let_def)
    then show "\<exists>t'. write_log_one k t = Ok () t' \<and> P (Suc k) t'"
      using t t' by (intro exI [of _ t']) (simp add: P_def Let_def log_same_def log_copies_def log_key_def apply_writes_append)
  qed
  then show ?thesis by (auto simp: write_log_def kdefs P_def)
qed

definition install_writes :: "(bkey \<Rightarrow> block) \<Rightarrow> uint \<Rightarrow> uint list \<Rightarrow> nat \<Rightarrow> (bkey \<times> block) list" where
  "install_writes m start bs n = map (\<lambda>i. ((1, bs ! i), m (log_key start i))) [0..<n]"

lemma install_writes_log:
  assumes "log_wf s" and "i < length (lh s)" and "n \<le> length (lh s)"
  shows "apply_writes m (install_writes m' (log_start s) (lh s) n) (log_key (log_start s) i) = m (log_key (log_start s) i)"
proof (rule apply_writes_notin)
  have "log_key (log_start s) i \<in> log_area s" using log_slot(3) assms by blast
  moreover have "\<forall>k \<in> fst ` set (install_writes m' (log_start s) (lh s) n). k \<notin> log_area s"
    using assms by (auto simp: install_writes_def log_wf_def)
  ultimately show "log_key (log_start s) i \<notin> fst ` set (install_writes m' (log_start s) (lh s) n)" by blast
qed

lemma install_trans_run:
  assumes q: "quiet s" and w: "log_wf s"
    and d: "set (bdirty s) = Pair 1 ` set (lh s) \<or> bdirty s = []" and "length (bdirty s) < NBUF"
  shows "\<exists>s'. install_trans s = Ok () s' \<and> quiet s' \<and> log_same s s' \<and> lh s' = lh s \<and> bdirty s' = [] \<and>
    (let ws = install_writes (bmem s) (log_start s) (lh s) (length (lh s)) in
     bmem s' = apply_writes (bmem s) ws \<and> bdisk s' = apply_writes (bdisk s) ws \<and> wtrace s' = wtrace s @ ws)"
proof -
  define P where "P k t \<longleftrightarrow> quiet t \<and> log_same s t \<and> lh t = lh s \<and>
    set (bdirty t) = set (bdirty s) - Pair 1 ` set (take k (lh s)) \<and> length (bdirty t) \<le> length (bdirty s) \<and>
    (let ws = install_writes (bmem s) (log_start s) (lh s) k in
     bmem t = apply_writes (bmem s) ws \<and> bdisk t = apply_writes (bdisk s) ws \<and> wtrace t = wtrace s @ ws)" for k t
  have "\<exists>s'. forK [0..<length (lh s)] install_one s = Ok () s' \<and> P (length (lh s)) s'"
  proof (rule forK_upto)
    show "P 0 s" using q by (simp add: P_def log_same_def install_writes_def)
    fix k t assume k: "k < length (lh s)" and t: "P k t"
    have "lh s ! k \<notin> set (take k (lh s))"
      using w k by (metis distinct_take id_take_nth_drop log_wf_def not_distinct_conv_prefix take_Suc_conv_app_nth distinct_append disjoint_iff list.set_intros(1))
    then have db: "(1, lh t ! k) \<in> set (bdirty t) \<or> bdirty t = []" using t k d by (auto simp: P_def)
    have ne: "log_start t + of_nat k + 1 \<noteq> lh t ! k"
      using t log_wf_homes [OF w log_slot(3) [OF w k]] k by (auto simp: P_def log_same_def log_key_def)
    obtain t' where t': "install_one k t = Ok () t'" "quiet t'" "log_same t t'" "lh t' = lh t"
      "bmem t' = (bmem t)((1, lh t ! k) := bmem t (1, log_start t + of_nat k + 1))"
      "bdisk t' = (bdisk t)((1, lh t ! k) := bmem t (1, log_start t + of_nat k + 1))"
      "bdirty t' = removeAll (1, lh t ! k) (bdirty t)"
      "wtrace t' = wtrace t @ [((1, lh t ! k), bmem t (1, log_start t + of_nat k + 1))]"
      using install_one_run [of t k "log_start t + of_nat k + 1" "lh t ! k"] t k w ne db
        log_slot(2) [OF w k] assms(4)
      by (auto simp: P_def log_same_def log_wf_def NBUF_def)
    have m: "bmem t (1, log_start t + of_nat k + 1) = bmem s (log_key (log_start s) k)"
      using t k install_writes_log [OF w k, of k] by (simp add: P_def Let_def log_key_def log_same_def)
    have "length (bdirty t) \<le> length (bdirty s)" using t by (simp add: P_def)
    then have "length (removeAll (1, lh s ! k) (bdirty t)) \<le> length (bdirty s)"
      using length_filter_le [of "\<lambda>x. (1, lh s ! k) \<noteq> x" "bdirty t"] unfolding removeAll_filter_not_eq by linarith
    with m show "\<exists>t'. install_one k t = Ok () t' \<and> P (Suc k) t'"
      using t t' k
      by (intro exI [of _ t'])
        (auto simp: P_def Let_def log_same_def install_writes_def apply_writes_append take_Suc_conv_app_nth)
  qed
  moreover have "P (length (lh s)) t \<Longrightarrow> bdirty t = []" for t
    using d by (auto simp: P_def)
  ultimately show ?thesis by (fastforce simp: install_trans_def kdefs P_def)
qed

definition commit_writes :: "'a logst_scheme \<Rightarrow> (bkey \<times> block) list" where
  "commit_writes s =
     (let n = length (lh s); h = (1, log_start s); d = head_block (bmem s h) (lh s) in
      log_copies (bmem s) (log_start s) (lh s) n @ [(h, d)] @ home_copies (bmem s) (lh s) n @
      [(h, head_block d [])])"

lemma commit_run:
  assumes q: "quiet s" and w: "log_wf s" and n: "lh s \<noteq> []"
    and d: "set (bdirty s) = Pair 1 ` set (lh s)" and r: "length (bdirty s) < NBUF"
  shows "\<exists>s'. commit s = Ok () s' \<and> quiet s' \<and> log_same s s' \<and> lh s' = [] \<and> bdirty s' = [] \<and>
    bmem s' = apply_writes (bmem s) (commit_writes s) \<and> bdisk s' = apply_writes (bdisk s) (commit_writes s) \<and>
    wtrace s' = wtrace s @ commit_writes s"
proof -
  let ?h = "(1, log_start s)"
  obtain s1 where s1: "write_log s = Ok () s1" "quiet s1" "log_same s s1" "lh s1 = lh s" "bdirty s1 = bdirty s"
     "bmem s1 = apply_writes (bmem s) (log_copies (bmem s) (log_start s) (lh s) (length (lh s)))"
     "bdisk s1 = apply_writes (bdisk s) (log_copies (bmem s) (log_start s) (lh s) (length (lh s)))"
     "wtrace s1 = wtrace s @ log_copies (bmem s) (log_start s) (lh s) (length (lh s))"
    using write_log_run [OF q w d r] by (auto simp: Let_def)
  have hd: "?h \<notin> set (bdirty s)" using d log_wf_homes [OF w log_head(1) [OF w]] by simp
  have hb: "log_start s < bdisksize s" by (rule log_head(2) [OF w])
  have hl: "bmem s1 ?h = bmem s ?h"
    unfolding s1(6)
  proof (rule apply_writes_notin)
    have "log_key (log_start s) i \<noteq> ?h" if "i < length (lh s)" for i using log_slot(4) [OF w that] .
    then show "?h \<notin> fst ` set (log_copies (bmem s) (log_start s) (lh s) (length (lh s)))" by (fastforce simp: log_copies_def)
  qed
  obtain s2 where s2: "write_head s1 = Ok () s2" "quiet s2" "log_same s1 s2" "lh s2 = lh s" "bdirty s2 = bdirty s"
     "bmem s2 = (bmem s1)(?h := head_block (bmem s ?h) (lh s))"
     "bdisk s2 = (bdisk s1)(?h := head_block (bmem s ?h) (lh s))"
     "wtrace s2 = wtrace s1 @ [(?h, head_block (bmem s ?h) (lh s))]"
    using write_head_run [of s1] s1 hd hb hl r w by (auto simp: Let_def log_same_def log_wf_def)
  have ls: "log_start s2 = log_start s" "log_dev s2 = 1" "bdisksize s2 = bdisksize s" "log_size s2 = log_size s"
    using s1 s2 w by (auto simp: log_same_def log_wf_def)
  have w2: "log_wf s2" using w ls s2(4) by (simp add: log_wf_def log_area_def)
  obtain s3 where s3: "install_trans s2 = Ok () s3" "quiet s3" "log_same s2 s3" "bdirty s3 = []"
     "bmem s3 = apply_writes (bmem s2) (install_writes (bmem s2) (log_start s) (lh s) (length (lh s)))"
     "bdisk s3 = apply_writes (bdisk s2) (install_writes (bmem s2) (log_start s) (lh s) (length (lh s)))"
     "wtrace s3 = wtrace s2 @ install_writes (bmem s2) (log_start s) (lh s) (length (lh s))"
    using install_trans_run [OF s2(2) w2] s2 d r ls by (auto simp: Let_def)
  have inst: "install_writes (bmem s2) (log_start s) (lh s) (length (lh s)) = home_copies (bmem s) (lh s) (length (lh s))"
  proof -
    have "bmem s2 (log_key (log_start s) i) = bmem s (1, lh s ! i)" if i: "i < length (lh s)" for i
    proof -
      have "bmem s2 (log_key (log_start s) i) = bmem s1 (log_key (log_start s) i)"
        using log_slot(4) [OF w i] s2(6) by simp
      also have "distinct (map (log_key (log_start s)) [0..<length (lh s)])"
        using log_key_inj [OF w] by (auto simp: distinct_map inj_on_def)
      then have "bmem s1 (log_key (log_start s) i) = bmem s (1, lh s ! i)"
        unfolding s1(6) log_copies_def using i by (intro apply_writes_map) auto
      finally show ?thesis .
    qed
    then show ?thesis by (simp add: install_writes_def home_copies_def)
  qed
  define s4 where "s4 = s3\<lparr>lh := []\<rparr>"
  have q4: "quiet s4" using s3(2) by (simp add: s4_def quiet_def running_def)
  have hm: "bmem s4 ?h = head_block (bmem s ?h) (lh s)"
  proof -
    have "?h \<notin> fst ` set (home_copies (bmem s) (lh s) (length (lh s)))"
      using log_wf_homes [OF w log_head(1) [OF w]] by (auto simp: home_copies_def)
    then show ?thesis using s3(5) inst s2(6) by (simp add: s4_def apply_writes_notin)
  qed
  have ls4: "log_start s4 = log_start s" "log_dev s4 = 1" "bdisksize s4 = bdisksize s"
    using s3(3) ls by (auto simp: log_same_def s4_def)
  obtain s5 where s5: "write_head s4 = Ok () s5" "quiet s5" "log_same s4 s5" "lh s5 = []" "bdirty s5 = []"
     "bmem s5 = (bmem s3)(?h := head_block (head_block (bmem s ?h) (lh s)) [])"
     "bdisk s5 = (bdisk s3)(?h := head_block (head_block (bmem s ?h) (lh s)) [])"
     "wtrace s5 = wtrace s3 @ [(?h, head_block (head_block (bmem s ?h) (lh s)) [])]"
    using write_head_run [OF q4] ls4 hb s3(4) hm by (auto simp: Let_def s4_def NBUF_def)
  have run: "commit s = Ok () s5"
    using n s1(1) s2(1) s3(1) s5(1) by (simp add: commit_def kdefs set_lh_def s4_def)
  have "log_same s s5" using s1(3) s2(3) s3(3) s5(3) by (simp add: log_same_def s4_def)
  then show ?thesis
    using run s5 s3 s2 s1 inst by (intro exI [of _ s5]) (simp add: commit_writes_def Let_def apply_writes_append apply_writes_Cons)
qed

definition header_blocks :: "block \<Rightarrow> uint list" where
  "header_blocks d = gets32 d 4 (nat (sint (get32 d 0)))"

lemma header_blocks_head_block:
  assumes "length bs \<le> LOGSIZE"
  shows "header_blocks (head_block d bs) = bs" and "sint (get32 (head_block d bs) 0) = int (length bs)"
proof -
  have "sint (of_nat (length bs) :: uint) = int (length bs)"
    using assms by (simp add: LOGSIZE_def MAXOPBLOCKS_def signed_of_nat signed_take_bit_int_eq_self)
  then show "header_blocks (head_block d bs) = bs" and "sint (get32 (head_block d bs) 0) = int (length bs)"
    by (simp_all add: header_blocks_def head_block_def get32_puts32_outside)
qed

lemma recover_run:
  assumes q: "quiet r" and dv: "log_dev r = 1" and d: "bdirty r = []" and m: "bmem r = bdisk r"
    and hdr: "hdr = bdisk r (1, log_start r)" and n: "sint (get32 hdr 0) \<le> int LOGSIZE"
    and w: "log_wf (r\<lparr>lh := header_blocks hdr\<rparr>)"
  shows "\<exists>r'. recover_from_log r = Ok () r' \<and> quiet r' \<and> log_same r r' \<and> lh r' = [] \<and> bmem r' = bdisk r' \<and> bdirty r' = [] \<and>
    bdisk r' = (apply_writes (bdisk r) (install_writes (bdisk r) (log_start r) (header_blocks hdr) (length (header_blocks hdr))))
      ((1, log_start r) := head_block hdr [])"
proof -
  let ?h = "(1, log_start r)"
  let ?bs = "header_blocks hdr"
  have hb: "log_start r < bdisksize r" using log_head(2) [OF w] by simp
  obtain s1 where s1: "read_head r = Ok () s1" "quiet s1" "log_same r s1" "lh s1 = ?bs" "bmem s1 = bdisk r"
      "bdisk s1 = bdisk r" "bdirty s1 = []"
    using read_head_run [OF q dv hb] d m hdr n by (auto simp: NBUF_def header_blocks_def)
  have w1: "log_wf s1" using w s1(3,4) dv by (simp add: log_wf_def log_area_def log_same_def)
  have ls1: "log_start s1 = log_start r" using s1(3) by (simp add: log_same_def)
  obtain s2 where s2: "install_trans s1 = Ok () s2" "quiet s2" "log_same s1 s2" "bdirty s2 = []"
     "bmem s2 = apply_writes (bdisk r) (install_writes (bdisk r) (log_start r) ?bs (length ?bs))"
     "bdisk s2 = apply_writes (bdisk r) (install_writes (bdisk r) (log_start r) ?bs (length ?bs))"
    using install_trans_run [OF s1(2) w1] s1 ls1 by (auto simp: Let_def NBUF_def)
  define s3 where "s3 = s2\<lparr>lh := []\<rparr>"
  have q3: "quiet s3" using s2(2) by (simp add: s3_def quiet_def running_def)
  have ls3: "log_start s3 = log_start r" "log_dev s3 = 1" "bdisksize s3 = bdisksize r"
    using s1(3) s2(3) dv by (auto simp: log_same_def s3_def)
  have "?h \<notin> fst ` set (install_writes (bdisk r) (log_start r) ?bs (length ?bs))"
    using log_wf_homes [OF w log_head(1) [OF w]] by (auto simp: install_writes_def)
  then have hm: "bmem s3 ?h = hdr" using s2(5) hdr by (simp add: s3_def apply_writes_notin)
  obtain s4 where s4: "write_head s3 = Ok () s4" "quiet s4" "log_same s3 s4" "lh s4 = []" "bdirty s4 = []"
     "bmem s4 = (bmem s2)(?h := head_block hdr [])" "bdisk s4 = (bdisk s2)(?h := head_block hdr [])"
    using write_head_run [OF q3] ls3 hb s2(4) hm by (auto simp: Let_def s3_def NBUF_def)
  have "recover_from_log r = Ok () s4"
    using s1(1) s2(1) s4(1) by (simp add: recover_from_log_def kdefs set_lh_def s3_def)
  moreover have "log_same r s4" using s1(3) s2(3) s4(3) by (simp add: log_same_def s3_def)
  ultimately show ?thesis using s4 s2 by (intro exI [of _ s4]) simp
qed

lemma initlog_run:
  assumes q: "quiet r" and d: "bdirty r = []" and m: "bmem r = bdisk r"
    and sb: "sb_logstart (get_superblock (bdisk r (1, 1))) = start" "uint (sb_nlog (get_superblock (bdisk r (1, 1)))) = n" and one: "1 < bdisksize r"
    and hdr: "hdr = bdisk r (1, start)" and h: "sint (get32 hdr 0) \<le> int LOGSIZE"
    and w: "log_wf (r\<lparr>log_start := start, log_size := n, log_dev := 1, lh := header_blocks hdr\<rparr>)"
  shows "\<exists>r'. initlog 1 r = Ok () r' \<and> quiet r' \<and> log_start r' = start \<and> lh r' = [] \<and> bmem r' = bdisk r' \<and> bdirty r' = [] \<and>
    bdisk r' = (apply_writes (bdisk r) (install_writes (bdisk r) start (header_blocks hdr) (length (header_blocks hdr))))
      ((1, start) := head_block hdr [])"
proof -
  obtain i where "cur r = Some i" "i < length (ptable r)" using q by (auto simp: quiet_def running_def)
  then obtain s1 where s1: "readsb 1 r = Ok (get_superblock (bdisk r (1, 1))) s1" "quiet s1" "bmem s1 = bdisk r" "bdisk s1 = bdisk r"
     "bdirty s1 = []" "bdisksize s1 = bdisksize r"
    using q d m one unfolding quiet_def
    by (auto simp: readsb_def kok binuse_def quiet_def running_def mypid_def slk_mine_def NBUF_def)
  define s2 where "s2 = s1\<lparr>log_start := start, log_size := n, log_dev := 1\<rparr>"
  have "quiet s2" using s1(2) by (simp add: s2_def quiet_def running_def)
  moreover have "log_wf (s2\<lparr>lh := header_blocks hdr\<rparr>)" using w s1(6) by (simp add: log_wf_def log_area_def s2_def)
  ultimately obtain s3 where "recover_from_log s2 = Ok () s3" "quiet s3" "log_same s2 s3" "lh s3 = []" "bmem s3 = bdisk s3" "bdirty s3 = []"
      "bdisk s3 = (apply_writes (bdisk r) (install_writes (bdisk r) start (header_blocks hdr) (length (header_blocks hdr))))
      ((1, start) := head_block hdr [])"
    using recover_run [of s2 hdr] s1 h hdr by (auto simp: s2_def)
  moreover from this have "initlog 1 r = Ok () s3"
    using s1(1) sb by (simp add: initlog_def kdefs s2_def LOGSIZE_def MAXOPBLOCKS_def BSIZE_def)
  ultimately show ?thesis by (intro exI [of _ s3]) (simp add: log_same_def s2_def)
qed

text \<open>What holds when a transaction is about to commit: nobody holds a lock, the dirty buffers are exactly the
  logged blocks, every other block agrees with the disk, the header on disk says that no transaction is pending,
  and the superblock names the log.\<close>

definition commit_ready :: "'a logst_scheme \<Rightarrow> bool" where
  "commit_ready s \<longleftrightarrow> quiet s \<and> log_wf s \<and> set (bdirty s) = Pair 1 ` set (lh s) \<and> distinct (bdirty s) \<and>
     (\<forall>x. x \<notin> set (bdirty s) \<longrightarrow> bmem s x = bdisk s x) \<and>
     get32 (bdisk s (1, log_start s)) 0 = 0 \<and>
     sb_logstart (get_superblock (bdisk s (1, 1))) = log_start s \<and> uint (sb_nlog (get_superblock (bdisk s (1, 1)))) = log_size s \<and>
     (1, 1) \<notin> log_area s \<and> 1 \<notin> set (lh s) \<and> 1 < bdisksize s"

lemma commit_ready_room:
  assumes "commit_ready s"
  shows "length (bdirty s) = length (lh s)" and "length (bdirty s) < NBUF"
proof -
  have "length (bdirty s) = card (Pair (1 :: uint) ` set (lh s))"
    using assms distinct_card [of "bdirty s"] by (simp add: commit_ready_def)
  also have "\<dots> = length (lh s)"
    using assms by (simp add: card_image inj_on_def distinct_card commit_ready_def log_wf_def)
  finally show "length (bdirty s) = length (lh s)" .
  then show "length (bdirty s) < NBUF"
    using assms by (simp add: commit_ready_def log_wf_def LOGSIZE_def MAXOPBLOCKS_def NBUF_def)
qed

text \<open>The machine lost power when the writes ws had reached the disk, and has started again: memory starts
  from the disk.\<close>

definition rebooted :: "'a logst_scheme \<Rightarrow> (bkey \<times> block) list \<Rightarrow> 'a logst_scheme \<Rightarrow> bool" where
  "rebooted s ws r \<longleftrightarrow> quiet r \<and> bdirty r = [] \<and> bdisksize r = bdisksize s \<and> bmem r = bdisk r \<and>
     bdisk r = apply_writes (bdisk s) ws"

lemma log_copies_area:
  assumes "log_wf s" and "x \<notin> log_key (log_start s) ` {0..<length (lh s)}"
  shows "apply_writes m (take k (log_copies m' (log_start s) (lh s) (length (lh s)))) x = m x"
proof (rule apply_writes_notin)
  have "fst ` set (take k (log_copies m' (log_start s) (lh s) (length (lh s)))) \<subseteq> fst ` set (log_copies m' (log_start s) (lh s) (length (lh s)))"
    by (intro image_mono set_take_subset)
  also have "\<dots> \<subseteq> log_key (log_start s) ` {0..<length (lh s)}" by (auto simp: log_copies_def)
  finally show "x \<notin> fst ` set (take k (log_copies m' (log_start s) (lh s) (length (lh s))))" using assms(2) by blast
qed

lemma home_copies_area:
  assumes "x \<notin> Pair 1 ` set bs"
  shows "apply_writes m (take k (home_copies m' bs (length bs))) x = m x"
proof (rule apply_writes_notin)
  have "fst ` set (take k (home_copies m' bs (length bs))) \<subseteq> fst ` set (home_copies m' bs (length bs))"
    by (intro image_mono set_take_subset)
  also have "\<dots> \<subseteq> Pair 1 ` set bs" by (auto simp: home_copies_def)
  finally show "x \<notin> fst ` set (take k (home_copies m' bs (length bs)))" using assms by blast
qed

lemma home_copies_hit:
  assumes "distinct bs" and "i < length bs"
  shows "apply_writes m (home_copies m' bs (length bs)) (1, bs ! i) = m' (1, bs ! i)"
  unfolding home_copies_def using assms
  by (intro apply_writes_map [where f = "\<lambda>i. (1, bs ! i)" and g = "\<lambda>i. m' (1, bs ! i)"]) (auto simp: distinct_map inj_on_def nth_eq_iff_index_eq)

lemma install_writes_hit:
  assumes "distinct bs" and "i < length bs"
  shows "apply_writes m (install_writes m' start bs (length bs)) (1, bs ! i) = m' (log_key start i)"
  unfolding install_writes_def using assms
  by (intro apply_writes_map [where f = "\<lambda>i. (1, bs ! i)" and g = "\<lambda>i. m' (log_key start i)"]) (auto simp: distinct_map inj_on_def nth_eq_iff_index_eq)

lemma install_writes_miss:
  assumes "x \<notin> Pair 1 ` set bs"
  shows "apply_writes m (install_writes m' start bs (length bs)) x = m x"
  using assms by (intro apply_writes_notin) (auto simp: install_writes_def)

lemma log_copies_hit:
  assumes "log_wf s" and "i < length (lh s)"
  shows "apply_writes m (log_copies m' (log_start s) (lh s) (length (lh s))) (log_key (log_start s) i) = m' (1, lh s ! i)"
  unfolding log_copies_def
proof (rule apply_writes_map)
  show "distinct (map (log_key (log_start s)) [0..<length (lh s)])"
    using log_key_inj [OF assms(1)] by (auto simp: distinct_map inj_on_def)
qed (use assms(2) in simp)

text \<open>The three stages of a crash: the header not yet written, written, and cleared again.\<close>

lemma take_commit_writes:
  defines "n s \<equiv> length (lh s)" and "h s \<equiv> (1, log_start s)" and "hb s \<equiv> head_block (bmem s (1, log_start s)) (lh s)"
  shows "k \<le> n s \<Longrightarrow> take k (commit_writes s) = take k (log_copies (bmem s) (log_start s) (lh s) (n s))"
    and "n s < k \<Longrightarrow> k \<le> 2 * n s + 1 \<Longrightarrow> take k (commit_writes s) =
       log_copies (bmem s) (log_start s) (lh s) (n s) @ (h s, hb s) # take (k - n s - 1) (home_copies (bmem s) (lh s) (n s))"
    and "2 * n s + 1 < k \<Longrightarrow> take k (commit_writes s) = log_copies (bmem s) (log_start s) (lh s) (n s) @
       (h s, hb s) # home_copies (bmem s) (lh s) (n s) @ [(h s, head_block (hb s) [])]"
  by (auto simp: commit_writes_def log_copies_def home_copies_def n_def h_def hb_def Let_def take_Cons' take_map)

lemma crash_disk_early:
  assumes w: "log_wf s" and k: "k \<le> length (lh s)" and x: "x \<notin> log_key (log_start s) ` {0..<length (lh s)}"
  shows "apply_writes (bdisk s) (take k (commit_writes s)) x = bdisk s x"
  using log_copies_area [OF w x] k by (simp add: take_commit_writes(1))

lemma head_not_key: "log_wf s \<Longrightarrow> (1, log_start s) \<notin> log_key (log_start s) ` {0..<length (lh s)}"
  using log_slot(4) by fastforce

lemma keys_in_area: "log_wf s \<Longrightarrow> x \<notin> log_area s \<Longrightarrow> x \<notin> log_key (log_start s) ` {0..<length (lh s)} \<and> x \<noteq> (1, log_start s)"
  using log_slot(3) log_head(1) by fastforce

lemma crash_disk_late:
  assumes w: "log_wf s" and k: "length (lh s) < k"
  defines "D \<equiv> apply_writes (bdisk s) (take k (commit_writes s))"
  shows "x \<notin> log_area s \<Longrightarrow> x \<notin> Pair 1 ` set (lh s) \<Longrightarrow> D x = bdisk s x"
    and "i < length (lh s) \<Longrightarrow> D (log_key (log_start s) i) = bmem s (1, lh s ! i)"
    and "k \<le> 2 * length (lh s) + 1 \<Longrightarrow> D (1, log_start s) = head_block (bmem s (1, log_start s)) (lh s)"
    and "2 * length (lh s) + 1 < k \<Longrightarrow> D (1, log_start s) = head_block (head_block (bmem s (1, log_start s)) (lh s)) []"
    and "2 * length (lh s) + 1 < k \<Longrightarrow> i < length (lh s) \<Longrightarrow> D (1, lh s ! i) = bmem s (1, lh s ! i)"
proof -
  define h where "h = (1 :: uint, log_start s)"
  define L where "L = log_copies (bmem s) (log_start s) (lh s) (length (lh s))"
  define H where "H = home_copies (bmem s) (lh s) (length (lh s))"
  define hb where "hb = head_block (bmem s h) (lh s)"
  define M where "M = (apply_writes (bdisk s) L)(h := hb)"
  have D1: "D = apply_writes M (take (k - length (lh s) - 1) H)" if "k \<le> 2 * length (lh s) + 1"
    unfolding D_def take_commit_writes(2) [OF k that] by (simp add: apply_writes_append apply_writes_Cons M_def h_def L_def hb_def H_def)
  have D2: "D = (apply_writes M (take (length H) H))(h := head_block hb [])" if "2 * length (lh s) + 1 < k"
    unfolding D_def take_commit_writes(3) [OF that] by (simp add: apply_writes_append apply_writes_Cons M_def h_def L_def hb_def H_def)
  have Hmiss: "apply_writes M (take j H) x = M x" if "x \<notin> Pair 1 ` set (lh s)" for j x
    unfolding H_def using that by (rule home_copies_area)
  have hh: "h \<notin> Pair 1 ` set (lh s)" using log_wf_homes [OF w log_head(1) [OF w]] by (simp add: h_def)
  have Dm: "D x = M x" if "x \<notin> Pair 1 ` set (lh s)" "x \<noteq> h" for x
    using D1 D2 Hmiss [OF that(1)] Hmiss [OF that(1), of "length H"] that(2) by (cases "k \<le> 2 * length (lh s) + 1") auto
  show "D x = bdisk s x" if "x \<notin> log_area s" "x \<notin> Pair 1 ` set (lh s)"
  proof -
    have "x \<noteq> h" using keys_in_area [OF w that(1)] by (simp add: h_def)
    then have "D x = apply_writes (bdisk s) L x" using Dm [OF that(2)] by (simp add: M_def)
    also have "\<dots> = bdisk s x"
      using log_copies_area [OF w, of x "bdisk s" "length L" "bmem s"] keys_in_area [OF w that(1)] by (simp add: L_def)
    finally show ?thesis .
  qed
  show "D (log_key (log_start s) i) = bmem s (1, lh s ! i)" if i: "i < length (lh s)"
  proof -
    have "log_key (log_start s) i \<noteq> h" using log_slot(4) [OF w i] by (simp add: h_def)
    moreover have "log_key (log_start s) i \<notin> Pair 1 ` set (lh s)" by (rule log_wf_homes [OF w log_slot(3) [OF w i]])
    ultimately have "D (log_key (log_start s) i) = apply_writes (bdisk s) L (log_key (log_start s) i)" using Dm by (simp add: M_def)
    then show ?thesis using log_copies_hit [OF w i] by (simp add: L_def)
  qed
  show "D (1, log_start s) = head_block (bmem s (1, log_start s)) (lh s)" if "k \<le> 2 * length (lh s) + 1"
    unfolding D1 [OF that] using Hmiss [OF hh] by (simp add: M_def h_def hb_def)
  show "D (1, log_start s) = head_block (head_block (bmem s (1, log_start s)) (lh s)) []" if "2 * length (lh s) + 1 < k"
    unfolding D2 [OF that] by (simp add: h_def hb_def)
  show "D (1, lh s ! i) = bmem s (1, lh s ! i)" if "2 * length (lh s) + 1 < k" "i < length (lh s)"
  proof -
    have "(1, lh s ! i) \<noteq> h" using hh that(2) by (metis imageI nth_mem)
    then show ?thesis unfolding D2 [OF that(1)] using home_copies_hit [of "lh s" i M "bmem s"] w that(2) by (simp add: H_def log_wf_def)
  qed
qed

lemma empty_header: "get32 d 0 = 0 \<Longrightarrow> header_blocks d = []"
  by (simp add: header_blocks_def gets32_def)

lemma log_wf_same_blocks:
  assumes "log_wf s" and "bdisksize r = bdisksize s" and "set bs \<subseteq> set (lh s)" and "length bs \<le> length (lh s)" and "distinct bs"
  shows "log_wf (r\<lparr>log_start := log_start s, log_size := log_size s, log_dev := 1, lh := bs\<rparr>)"
  using assms by (auto simp: log_wf_def log_area_def)

lemma recovery_after_crash:
  assumes s: "commit_ready s" and r: "rebooted s (take k (commit_writes s)) r"
  shows "\<exists>r'. initlog 1 r = Ok () r' \<and> lh r' = [] \<and> bmem r' = bdisk r' \<and> get32 (bdisk r' (1, log_start s)) 0 = 0 \<and>
     (\<forall>x. x \<notin> log_area s \<longrightarrow> bdisk r' x = (if k \<le> length (lh s) then bdisk s x else bmem s x))"
proof -
  let ?h = "(1, log_start s)"
  let ?n = "length (lh s)"
  have w: "log_wf s" and sb1: "(1, 1) \<notin> log_area s" "(1, 1) \<notin> Pair 1 ` set (lh s)"
    and z: "get32 (bdisk s ?h) 0 = 0" and bd: "set (bdirty s) = Pair 1 ` set (lh s)"
    using s by (auto simp: commit_ready_def)
  have coh: "bmem s x = bdisk s x" if "x \<notin> Pair 1 ` set (lh s)" for x
    using s that bd unfolding commit_ready_def by metis
  have Dr: "bdisk r = apply_writes (bdisk s) (take k (commit_writes s))" using r by (simp add: rebooted_def)
  have n: "?n \<le> LOGSIZE" "distinct (lh s)" using w by (auto simp: log_wf_def)
  have early: "bdisk r x = bdisk s x" if "k \<le> ?n" "x \<notin> log_key (log_start s) ` {0..<?n}" for x
    unfolding Dr by (rule crash_disk_early [OF w that])
  note late = crash_disk_late [OF w, of k, folded Dr]
  define bs where "bs = header_blocks (bdisk r ?h)"
  have mid: "bs = lh s" "sint (get32 (bdisk r ?h) 0) \<le> int LOGSIZE" if "?n < k" "k \<le> 2 * ?n + 1"
    using that late(3) header_blocks_head_block [OF n(1)] n(1) by (simp_all add: bs_def)
  have out: "bs = []" "sint (get32 (bdisk r ?h) 0) \<le> int LOGSIZE" if "k \<le> ?n \<or> 2 * ?n + 1 < k"
  proof -
    have "get32 (bdisk r ?h) 0 = 0"
      using that early [OF _ head_not_key [OF w]] z late(4)
      by (cases "k \<le> ?n") (auto simp: head_block_def get32_puts32_outside)
    then show "bs = []" "sint (get32 (bdisk r ?h) 0) \<le> int LOGSIZE" by (simp_all add: bs_def empty_header)
  qed
  have stage: "k \<le> ?n \<or> 2 * ?n + 1 < k \<or> (?n < k \<and> k \<le> 2 * ?n + 1)" by linarith
  have "bdisk r (1, 1) = bdisk s (1, 1)"
    using early [of "(1,1)"] late(1) [of "(1,1)"] sb1 keys_in_area [OF w sb1(1)] by (cases "k \<le> ?n") auto
  then have sb: "sb_logstart (get_superblock (bdisk r (1, 1))) = log_start s" "uint (sb_nlog (get_superblock (bdisk r (1, 1)))) = log_size s"
    using s by (simp_all add: commit_ready_def)
  have nb: "sint (get32 (bdisk r ?h) 0) \<le> int LOGSIZE" using stage out(2) mid(2) by blast
  have "bs = [] \<or> bs = lh s" using stage out(1) mid(1) by blast
  then have wr: "log_wf (r\<lparr>log_start := log_start s, log_size := log_size s, log_dev := 1, lh := header_blocks (bdisk r ?h)\<rparr>)"
    using r n(2) unfolding bs_def [symmetric] by (intro log_wf_same_blocks [OF w]) (auto simp: rebooted_def)
  obtain r' where r': "initlog 1 r = Ok () r'" "lh r' = []" "bmem r' = bdisk r'"
     "bdisk r' = (apply_writes (bdisk r) (install_writes (bdisk r) (log_start s) bs (length bs)))(?h := head_block (bdisk r ?h) [])"
    using initlog_run [OF _ _ _ sb _ refl nb wr] r s by (auto simp: rebooted_def commit_ready_def bs_def)
  have "bdisk r' x = (if k \<le> ?n then bdisk s x else bmem s x)" if x: "x \<notin> log_area s" for x
  proof -
    note xk = keys_in_area [OF w x]
    then have xh: "x \<noteq> ?h" by simp
    consider "k \<le> ?n" | "2 * ?n + 1 < k" | "?n < k" "k \<le> 2 * ?n + 1" using stage by blast
    then show ?thesis
    proof cases
      case 1
      then show ?thesis using xh xk r'(4) out(1) early [of x] by (simp add: install_writes_def)
    next
      case 2
      then have "bdisk r' x = bdisk r x" using xh r'(4) out(1) by (simp add: install_writes_def)
      moreover have "bdisk r x = bmem s x"
      proof (cases "x \<in> Pair 1 ` set (lh s)")
        case True
        then obtain i where "x = (1, lh s ! i)" "i < ?n" by (auto simp: in_set_conv_nth)
        then show ?thesis using late(5) 2 by simp
      qed (use late(1) x coh 2 in simp)
      ultimately show ?thesis using 2 by simp
    next
      case 3
      note b = mid(1) [OF 3]
      show ?thesis
      proof (cases "x \<in> Pair 1 ` set (lh s)")
        case True
        then obtain i where "x = (1, lh s ! i)" "i < ?n" by (auto simp: in_set_conv_nth)
        then show ?thesis using late(2) 3 xh r'(4) b n(2) by (simp add: install_writes_hit)
      next
        case False
        then show ?thesis using late(1) x coh 3 xh r'(4) b by (simp add: install_writes_miss)
      qed
    qed
  qed
  moreover have "get32 (bdisk r' ?h) 0 = 0" using r'(4) by (simp add: head_block_def)
  ultimately show ?thesis using r' by blast
qed

text \<open>Atomicity of a commit (C1).  Let a transaction be ready to commit: the logged blocks are blocks outside the log,
  which is the range of log_size blocks from log_start on that the superblock describes, and none of them is the
  superblock; logged_update_ready below shows that logging a block keeps this.  The machine may lose power after any number k of the disk writes that commit
  issues, in the order it issues them.  When it starts again, initlog reads the superblock, recovers from the log
  and returns; the log is then empty, and every block outside the log has its contents from before the
  transaction if the header had not yet reached the disk (k at most the number of logged blocks), and its
  contents from after the transaction otherwise.  No mixture of the two is possible.\<close>

theorem log_crash_atomic:
  assumes "commit_ready s" and "lh s \<noteq> []"
  shows "\<exists>s' ws. commit s = Ok () s' \<and> wtrace s' = wtrace s @ ws \<and>
    (\<forall>k r. rebooted s (take k ws) r \<longrightarrow> (\<exists>r'. initlog 1 r = Ok () r' \<and> lh r' = [] \<and> bmem r' = bdisk r' \<and>
       get32 (bdisk r' (1, log_start s)) 0 = 0 \<and>
       (\<forall>x. x \<notin> log_area s \<longrightarrow> bdisk r' x = (if k \<le> length (lh s) then bdisk s x else bmem s x))))"
proof -
  obtain s' where "commit s = Ok () s'" "wtrace s' = wtrace s @ commit_writes s"
    using commit_run [of s] commit_ready_room(2) [OF assms(1)] assms by (auto simp: commit_ready_def)
  then show ?thesis using recovery_after_crash [OF assms(1)] by blast
qed

section \<open>Durability\<close>

lemma commit_writes_upd [simp]:
  "commit_writes (s\<lparr>klocks := l\<rparr>) = commit_writes s" "commit_writes (s\<lparr>log_outstanding := k\<rparr>) = commit_writes s"
  "commit_writes (s\<lparr>log_committing := c\<rparr>) = commit_writes s"
  by (simp_all add: commit_writes_def)

lemma commit_ready_upd:
  assumes "commit_ready s"
  shows "commit_ready (s\<lparr>log_outstanding := k, log_committing := c, klocks := []\<rparr>)"
  using assms by (simp add: commit_ready_def quiet_def running_def log_wf_def log_area_def)

lemma commit_durable:
  assumes s: "commit_ready s"
  shows "\<exists>s'. commit s = Ok () s' \<and> quiet s' \<and> log_same s s' \<and> lh s' = [] \<and> bdirty s' = [] \<and>
     (\<forall>x. x \<notin> log_area s \<longrightarrow> bdisk s' x = bmem s x)"
proof (cases "lh s = []")
  case True
  then show ?thesis using s by (auto simp: commit_def kdefs commit_ready_def log_same_def)
next
  case False
  let ?k = "length (commit_writes s)"
  have w: "log_wf s" and k: "2 * length (lh s) + 1 < ?k"
    using s by (simp_all add: commit_ready_def commit_writes_def log_copies_def home_copies_def Let_def)
  obtain s' where s': "commit s = Ok () s'" "quiet s'" "log_same s s'" "lh s' = []" "bdirty s' = []"
      "bdisk s' = apply_writes (bdisk s) (commit_writes s)"
    using commit_run [of s] commit_ready_room(2) [OF s] False s by (auto simp: commit_ready_def)
  have lt: "length (lh s) < ?k" using k by simp
  have "bdisk s' x = bmem s x" if "x \<notin> log_area s" for x
  proof (cases "x \<in> Pair 1 ` set (lh s)")
    case True
    then obtain i where "x = (1, lh s ! i)" "i < length (lh s)" by (auto simp: in_set_conv_nth)
    then show ?thesis using crash_disk_late(5) [OF w lt k] s'(6) by simp
  next
    case False
    have "x \<notin> set (bdirty s)" using False s by (simp add: commit_ready_def)
    then have "bmem s x = bdisk s x" using s unfolding commit_ready_def by metis
    then show ?thesis using crash_disk_late(1) [OF w lt that False] s'(6) by simp
  qed
  then show ?thesis using s' by blast
qed

text \<open>Durability (C6).  The end of the last outstanding operation commits: end_op returns, the log is empty, no
  operation is outstanding, no spin lock is held, and every block outside the log, the log_size blocks from log_start on,
  is on the disk with the contents it had in the buffer cache.\<close>

theorem end_op_durable:
  assumes s: "commit_ready s" and out: "log_outstanding s = 1" and nc: "\<not> log_committing s"
  shows "\<exists>s'. end_op s = Ok () s' \<and> lh s' = [] \<and> log_outstanding s' = 0 \<and> \<not> log_committing s' \<and> klocks s' = [] \<and>
     bdirty s' = [] \<and> (\<forall>x. x \<notin> log_area s \<longrightarrow> bdisk s' x = bmem s x)"
proof -
  have kl: "klocks s = []" using s by (simp add: commit_ready_def quiet_def)
  define t where "t = s\<lparr>log_outstanding := 0, log_committing := True, klocks := []\<rparr>"
  obtain t' where t': "commit t = Ok () t'" "quiet t'" "log_same t t'" "lh t' = []" "bdirty t' = []"
      "\<forall>x. x \<notin> log_area s \<longrightarrow> bdisk t' x = bmem s x"
    using commit_durable [OF commit_ready_upd [OF s, where k = 0 and c = True]] log_area_cong [of t s] by (auto simp: t_def)
  define s' where "s' = t'\<lparr>log_committing := False, ptable := map (wake Ch_log) (ptable t'), klocks := []\<rparr>"
  have "end_op s = Ok () s'"
    using t'(1,2) kl out nc
    by (simp add: end_op_def thenK_def bindK_def kdefs acquire_Ok release_Ok t_def s'_def quiet_def
        acquire_def release_def wakeup_def wakeup1_def)
  moreover have "log_outstanding t' = 0" using t'(3) by (simp add: log_same_def t_def)
  ultimately show ?thesis using t' by (intro exI [of _ s']) (simp add: s'_def)
qed

section \<open>The reservation scheme\<close>

lemma begin_op_Ok [kok]:
  "begin_op s = Ok r s' \<longleftrightarrow> L_log \<notin> set (klocks s) \<and> \<not> log_committing s \<and>
     int (length (lh s)) + (log_outstanding s + 1) * int MAXOPBLOCKS \<le> int LOGSIZE \<and>
     s' = s\<lparr>log_outstanding := log_outstanding s + 1\<rparr>"
  by (auto simp: begin_op_def kok split: if_splits)

definition absorb :: "uint \<Rightarrow> uint list \<Rightarrow> uint list" where
  "absorb b bs = (if b \<in> set bs then bs else bs @ [b])"

lemma absorb_find_index:
  "(case find_index (\<lambda>x. x = b) bs of Some i \<Rightarrow> bs[i := b] | None \<Rightarrow> bs @ [b]) = absorb b bs"
  by (auto simp: absorb_def find_index_None dest!: find_index_SomeD split: option.splits)

lemma log_write_Ok [kok]:
  "log_write b s = Ok r s' \<longleftrightarrow> length (lh s) < LOGSIZE \<and> int (length (lh s)) < log_size s - 1 \<and>
     1 \<le> log_outstanding s \<and> L_log \<notin> set (klocks s) \<and>
     s' = s\<lparr>lh := absorb (snd b) (lh s), bdirty := List.insert b (bdirty s)\<rparr>"
  by (auto simp: log_write_def kok absorb_find_index split: if_splits)

lemma write_log_frame:
  assumes "write_log s = Ok r s'"
  shows "log_outstanding s' = log_outstanding s \<and> lh s' = lh s"
proof -
  have "forK [0..<length (lh s)] write_log_one s = Ok r s'" using assms by (simp add: write_log_def kok)
  then show ?thesis by (rule forK_inv) (auto simp: write_log_one_def kok)
qed

lemma install_trans_frame:
  assumes "install_trans s = Ok r s'"
  shows "log_outstanding s' = log_outstanding s \<and> lh s' = lh s"
proof -
  have "forK [0..<length (lh s)] install_one s = Ok r s'" using assms by (simp add: install_trans_def kok)
  then show ?thesis by (rule forK_inv) (auto simp: install_one_def kok)
qed

lemma write_head_frame:
  "write_head s = Ok r s' \<Longrightarrow> log_outstanding s' = log_outstanding s \<and> lh s' = lh s"
  by (auto simp: write_head_def kok)

lemma commit_frame:
  assumes "commit s = Ok r s'"
  shows "log_outstanding s' = log_outstanding s \<and> lh s' = []"
  using assms
  by (auto simp: commit_def kok set_lh_def whenK_def split: if_splits
      dest!: write_log_frame install_trans_frame write_head_frame)

lemma end_op_frame:
  assumes "end_op s = Ok r s'"
  shows "log_outstanding s' = log_outstanding s - 1 \<and> (lh s' = lh s \<or> lh s' = [])"
  using assms
  by (auto simp: end_op_def kok whenK_def Let_def split: if_splits dest!: commit_frame)

text \<open>A run of the file system as the log sees it: cs counts, for each outstanding operation, the calls of
  log_write it has made; an operation makes at most MAXOPBLOCKS of them.  Anything that leaves the log alone may
  happen in between.\<close>

inductive txn_step :: "'a logst_scheme \<times> nat list \<Rightarrow> 'a logst_scheme \<times> nat list \<Rightarrow> bool" where
  txn_begin: "begin_op s = Ok () s' \<Longrightarrow> txn_step (s, cs) (s', 0 # cs)"
| txn_write: "i < length cs \<Longrightarrow> cs ! i < MAXOPBLOCKS \<Longrightarrow> log_write b s = Ok () s' \<Longrightarrow>
     txn_step (s, cs) (s', cs[i := Suc (cs ! i)])"
| txn_end: "i < length cs \<Longrightarrow> end_op s = Ok () s' \<Longrightarrow> txn_step (s, cs) (s', take i cs @ drop (Suc i) cs)"
| txn_other: "log_same s s' \<Longrightarrow> lh s' = lh s \<Longrightarrow> txn_step (s, cs) (s', cs)"

definition txn_inv :: "'a logst_scheme \<times> nat list \<Rightarrow> bool" where
  "txn_inv = (\<lambda>(s, cs). log_outstanding s = int (length cs) \<and> (\<forall>c \<in> set cs. c \<le> MAXOPBLOCKS) \<and>
     length (lh s) + sum_list (map (\<lambda>c. MAXOPBLOCKS - c) cs) \<le> LOGSIZE)"

lemma sum_list_room: "sum_list (map (\<lambda>c. n - c) cs) \<le> length cs * (n :: nat)"
  by (induction cs) auto

lemma sum_list_drop_one:
  "i < length cs \<Longrightarrow> sum_list (map f cs) = f (cs ! i) + sum_list (map f (take i cs @ drop (Suc i) cs) :: nat list)"
  by (subst id_take_nth_drop [of i cs]) (simp_all only: map_append list.map sum_list.append sum_list.Cons)

lemma txn_step_inv:
  assumes "txn_step p q" and "txn_inv p"
  shows "txn_inv q"
  using assms
proof (induction rule: txn_step.induct)
  case (txn_begin s s' cs)
  moreover have "sum_list (map (\<lambda>c. MAXOPBLOCKS - c) cs) \<le> length cs * MAXOPBLOCKS" by (rule sum_list_room)
  ultimately show ?case by (auto simp: txn_inv_def begin_op_Ok LOGSIZE_def MAXOPBLOCKS_def)
next
  case (txn_write i cs b s s')
  have "sum_list (map (\<lambda>c. MAXOPBLOCKS - c) cs) =
      Suc (sum_list (map (\<lambda>c. MAXOPBLOCKS - c) (cs[i := Suc (cs ! i)])))"
    using sum_list_drop_one [OF txn_write(1), of "\<lambda>c. MAXOPBLOCKS - c"] txn_write(1,2)
      sum_list_drop_one [of i "cs[i := Suc (cs ! i)]" "\<lambda>c. MAXOPBLOCKS - c"] by simp
  moreover have "length (absorb (snd b) (lh s)) \<le> Suc (length (lh s))" by (simp add: absorb_def)
  ultimately show ?case using txn_write
    by (auto simp: txn_inv_def log_write_Ok dest!: set_update_subset_insert [THEN subsetD])
next
  case (txn_end i cs s s')
  then show ?case using end_op_frame [OF txn_end(2)] sum_list_drop_one [OF txn_end(1), of "\<lambda>c. MAXOPBLOCKS - c"]
    by (auto simp: txn_inv_def dest: in_set_takeD in_set_dropD)
next
  case (txn_other s s' cs)
  then show ?case by (simp add: txn_inv_def log_same_def)
qed

text \<open>The reservation is sound (C7).  Start with an empty log and no outstanding operation, and let operations
  begin, write and end in any interleaving.  Then an operation that has made fewer than MAXOPBLOCKS calls of
  log_write can make its next one: the log has room, provided the log has more than LOGSIZE blocks after its
  header.\<close>

theorem log_write_has_room:
  assumes "txn_step\<^sup>*\<^sup>* (s0, []) (s, cs)" and "lh s0 = []" and "log_outstanding s0 = 0"
    and "i < length cs" and "cs ! i < MAXOPBLOCKS" and "log_size s > int LOGSIZE" and "klocks s = []"
  shows "\<exists>s'. log_write b s = Ok () s' \<and> set (lh s') = insert (snd b) (set (lh s)) \<and> b \<in> set (bdirty s')"
proof -
  have "txn_inv (s0, [])" using assms(2,3) by (simp add: txn_inv_def)
  with assms(1) have "txn_inv (s, cs)" by (induction rule: rtranclp_induct) (auto intro: txn_step_inv)
  then have "length (lh s) < LOGSIZE \<and> 1 \<le> log_outstanding s"
    using sum_list_drop_one [OF assms(4), of "\<lambda>c. MAXOPBLOCKS - c"] assms(4,5) by (auto simp: txn_inv_def)
  then show ?thesis using assms(6,7) by (auto simp: log_write_Ok absorb_def)
qed

lemma log_writes_Ok:
  assumes "length (lh s) + length bs < LOGSIZE" and "distinct (lh s @ map snd bs)" and "log_size s = int LOGSIZE"
    and "klocks s = []" and "1 \<le> log_outstanding s"
  shows "\<exists>d. forK bs log_write s = Ok () (s\<lparr>lh := lh s @ map snd bs, bdirty := d\<rparr>)"
  using assms
proof (induction bs arbitrary: s)
  case Nil
  show ?case by (rule exI [of _ "bdirty s"]) (simp add: kdefs)
next
  case (Cons b bs)
  let ?t = "s\<lparr>lh := lh s @ [snd b], bdirty := List.insert b (bdirty s)\<rparr>"
  have "log_write b s = Ok () ?t" using Cons.prems by (auto simp: log_write_Ok absorb_def)
  moreover obtain d where "forK bs log_write ?t = Ok () (?t\<lparr>lh := lh ?t @ map snd bs, bdirty := d\<rparr>)"
    using Cons.IH [of ?t] Cons.prems by auto
  ultimately show ?case by (auto simp: kdefs)
qed

text \<open>The log made by mkfs is one block short (C8).  mkfs gives the log LOGSIZE blocks, header included, and
  log_write stops at log.size - 1, so three operations that begin_op admits together on an empty log panic when they
  write MAXOPBLOCKS distinct blocks each, as they are allowed to.\<close>

theorem log_reservation_one_short:
  assumes "klocks s = []" and "lh s = []" and "log_outstanding s = 0" and "\<not> log_committing s"
    and "log_size s = int LOGSIZE" and "length bs = 3 * MAXOPBLOCKS" and "distinct (map snd bs)"
  shows "thenK (forK [0, 1, 2 :: nat] (\<lambda>_. begin_op)) (forK bs log_write) s = Panic ''too big a transaction''"
proof -
  let ?t = "s\<lparr>log_outstanding := 3\<rparr>"
  obtain cs b where bs: "bs = cs @ [b]" "length cs = 29"
    using assms(6) by (cases bs rule: rev_cases) (auto simp: MAXOPBLOCKS_def)
  have beg: "forK [0, 1, 2 :: nat] (\<lambda>_. begin_op) s = Ok () ?t"
    using assms by (simp add: forK.simps thenK_def bindK_def begin_op_Ok kdefs LOGSIZE_def MAXOPBLOCKS_def
        begin_op_def acquire_def release_def)
  obtain d where w: "forK cs log_write ?t = Ok () (?t\<lparr>lh := map snd cs, bdirty := d\<rparr>)"
    using log_writes_Ok [of ?t cs] assms bs by (auto simp: LOGSIZE_def MAXOPBLOCKS_def)
  have "log_write b (?t\<lparr>lh := map snd cs, bdirty := d\<rparr>) = Panic ''too big a transaction''"
    using assms(5) bs(2) by (simp add: log_write_def kdefs LOGSIZE_def MAXOPBLOCKS_def)
  then show ?thesis using beg w bs(1) by (simp add: forK_append thenK_def bindK_def kdefs)
qed

text \<open>The typical use of the log, as the comment above log_write describes it: read a block, modify it, log it,
  release it.\<close>

definition logged_update :: "uint \<Rightarrow> block \<Rightarrow> ('a logst_scheme, unit) kfun" where
  "logged_update b d =
     bindK (bread 1 b) (\<lambda>bp.
     thenK (set_bdata bp d) (
     thenK (log_write bp) (
     brelse bp)))"

text \<open>Inside a transaction with room left, the typical use succeeds, changes the block in memory only, and
  the transaction is again ready to commit: logged_update is what makes the hypothesis of the commit theorems
  true.  A block logged twice takes one slot of the log.\<close>

lemma logged_update_ready:
  assumes s: "commit_ready s" and out: "1 \<le> log_outstanding s" and sz: "log_size s = int LOGSIZE"
    and n: "length (lh s) < LOGSIZE - 1"
    and b: "b < bdisksize s" "(1, b) \<notin> log_area s" "b \<noteq> 1"
  shows "\<exists>s'. logged_update b d s = Ok () s' \<and> commit_ready s' \<and> bmem s' = (bmem s)((1, b) := d) \<and>
     bdisk s' = bdisk s \<and> lh s' = (if b \<in> set (lh s) then lh s else lh s @ [b])"
proof -
  have bd: "bheld s = []" "length (remdups (bdirty s)) < NBUF"
    using s commit_ready_room [OF s] by (auto simp: commit_ready_def quiet_def distinct_remdups_id)
  obtain i where i: "cur s = Some i" "i < length (ptable s)"
    using s by (auto simp: commit_ready_def quiet_def running_def)
  have n': "length (lh s) < LOGSIZE" "int (length (lh s)) < int LOGSIZE - 1" using n by auto
  obtain s' where s': "logged_update b d s = Ok () s'" "quiet s'" "bmem s' = (bmem s)((1, b) := d)" "bdisk s' = bdisk s"
      "lh s' = absorb b (lh s)" "bdirty s' = List.insert (1, b) (bdirty s)" "log_same s s'"
    using s bd i out sz n' b(1) unfolding commit_ready_def quiet_def
    by (auto simp: logged_update_def kok binuse_def quiet_def log_same_def running_def mypid_def slk_mine_def)
  have m: "\<forall>x. x \<notin> set (bdirty s) \<longrightarrow> bmem s x = bdisk s x" using s by (simp add: commit_ready_def)
  have "commit_ready s'"
    using s s' n' sz b m log_area_cong [of s' s] by (simp add: commit_ready_def log_wf_def log_same_def absorb_def)
  then show ?thesis using s' by (auto simp: absorb_def)
qed

text \<open>A concrete log: the log of 30 blocks starts at block 2, and the block after it, number 32, is logged.\<close>

definition log_one :: logst where
  "log_one = \<lparr>klocks = [], ptable = [zero_proc\<lparr>p_pid := 1, p_state := RUNNING\<rparr>], cur = Some 0,
     sleeplocks = (\<lambda>_. \<lparr>slk_locked = False, slk_pid = 0\<rparr>),
     bmem = (\<lambda>_ _. 0)((1, 1) := (\<lambda>p. if p = 16 then 2 else if p = 12 then 30 else 0), (1, 32) := (\<lambda>_. 7)),
     bdisk = (\<lambda>_ _. 0)((1, 1) := (\<lambda>p. if p = 16 then 2 else if p = 12 then 30 else 0)),
     bheld = [], bdirty = [(1, 32)], bdisksize = 1000, wtrace = [],
     log_start = 2, log_size = 30, log_outstanding = 1, log_committing = False, log_dev = 1, lh = [32]\<rparr>"

lemma log_one_area: "(1, b) \<in> log_area log_one \<longleftrightarrow> 2 \<le> unat b \<and> unat b < 32"
proof -
  have f: "log_start log_one = 2" "log_size log_one = 30" by (simp_all add: log_one_def)
  have u: "uint b = int (unat b)" "uint (2 :: uint) = 2" by simp_all
  then have "uint b < uint (2 :: uint) + 30 \<longleftrightarrow> unat b < 32" by linarith
  moreover have "2 \<le> b \<longleftrightarrow> 2 \<le> unat b" by (simp add: word_le_nat_alt)
  ultimately show ?thesis unfolding log_area_def f by blast
qed

lemma log_one_ready: "commit_ready log_one"
  by (simp add: commit_ready_def quiet_def running_def log_wf_def log_one_area)
    (simp add: log_one_def LOGSIZE_def MAXOPBLOCKS_def get_superblock_def get32_def)

theorem log_crash_atomic_witness:
  "\<exists>s' ws. commit log_one = Ok () s' \<and> wtrace s' = ws \<and>
    (\<forall>k r. rebooted log_one (take k ws) r \<longrightarrow> (\<exists>r'. initlog 1 r = Ok () r' \<and>
       bdisk r' (1, 32) = (if k \<le> 1 then (\<lambda>_. 0) else (\<lambda>_. 7))))"
proof -
  obtain s' ws where "commit log_one = Ok () s'" "wtrace s' = ws"
    and *: "\<forall>k r. rebooted log_one (take k ws) r \<longrightarrow> (\<exists>r'. initlog 1 r = Ok () r' \<and>
       (\<forall>x. x \<notin> log_area log_one \<longrightarrow> bdisk r' x = (if k \<le> 1 then bdisk log_one x else bmem log_one x)))"
    using log_crash_atomic [OF log_one_ready] by (fastforce simp: log_one_def)
  moreover have "bdisk log_one (1, 32) = (\<lambda>_. 0)" "bmem log_one (1, 32) = (\<lambda>_. 7)" by (simp_all add: log_one_def)
  moreover have "(1, 32) \<notin> log_area log_one" by (simp add: log_one_area)
  ultimately show ?thesis by metis
qed

theorem end_op_durable_witness:
  "\<exists>s'. end_op log_one = Ok () s' \<and> lh s' = [] \<and> bdisk s' (1, 32) = (\<lambda>_. 7)"
proof -
  have "bmem log_one (1, 32) = (\<lambda>_. 7)" "(1, 32) \<notin> log_area log_one" by (simp_all add: log_one_area) (simp add: log_one_def)
  moreover have "log_outstanding log_one = 1" "\<not> log_committing log_one" by (simp_all add: log_one_def)
  ultimately show ?thesis using end_op_durable [OF log_one_ready] by metis
qed

theorem log_write_has_room_witness:
  "\<exists>s'. log_write (1, 100) (log_one\<lparr>lh := [], log_size := 31\<rparr>) = Ok () s' \<and> set (lh s') = {100}"
proof -
  let ?init = "log_one\<lparr>lh := [], log_size := 31, log_outstanding := 0\<rparr>"
  let ?s = "log_one\<lparr>lh := [], log_size := 31\<rparr>"
  have "begin_op ?init = Ok () ?s" 
    by (simp add: begin_op_Ok LOGSIZE_def MAXOPBLOCKS_def) (simp add: log_one_def)
  then have "txn_step\<^sup>*\<^sup>* (?init, []) (?s, [0])" by (intro r_into_rtranclp txn_begin)
  then show ?thesis using log_write_has_room [of ?init ?s "[0]" 0 "(1, 100)"]
    by (auto simp: log_one_def LOGSIZE_def MAXOPBLOCKS_def)
qed

theorem log_reservation_one_short_witness:
  "thenK (forK [0, 1, 2 :: nat] (\<lambda>_. begin_op)) (forK (map (\<lambda>i. (1, of_nat i)) [100..<130]) log_write)
     (log_one\<lparr>lh := [], log_outstanding := 0\<rparr>) = Panic ''too big a transaction''"
  by (rule log_reservation_one_short) (auto simp: log_one_def LOGSIZE_def MAXOPBLOCKS_def upt_rec)

end
