(* ===== verification/Bio.thy ===== *)
theory Bio
  imports Log
begin

text \<open>
  The buffer cache of \<^verbatim>\<open>kernel/bio.c\<close> over the memory disk of
  \<^verbatim>\<open>kernel/memide.c\<close>, with the buffers in an array and the list of buffers
  through \<^verbatim>\<open>prev\<close> and \<^verbatim>\<open>next\<close> as indices into it.

  The theory shows that the pointer manipulations keep a circular doubly linked list of all buffers,
  that no block is cached twice, and that the operations implement the contract of \<^verbatim>\<open>Buf\<close>.
\<close>

section \<open>State\<close>

definition B_VALID :: uint where "B_VALID = 0x2"
definition B_DIRTY :: uint where "B_DIRTY = 0x4"

text \<open>
  \<^verbatim>\<open>struct buf\<close>. Pointers to buffers are indices: \<open>i < NBUF\<close> is
  \<^verbatim>\<open>&bcache.buf[i]\<close> and \<open>NBUF\<close> is \<^verbatim>\<open>&bcache.head\<close>. The sleep lock of
  buffer \<open>i\<close> is \<open>SL_slot i\<close>; \<^verbatim>\<open>qnext\<close> belongs to the IDE driver.
\<close>

record buf =
  b_flags :: uint
  b_dev :: uint
  b_blockno :: uint
  b_refcnt :: uint
  b_prev :: nat
  b_next :: nat
  b_data :: block

text \<open>
  \<open>bufs\<close> is \<^verbatim>\<open>bcache.buf\<close> followed by \<^verbatim>\<open>bcache.head\<close>;
  \<open>memdisk\<close> is the disk image by block, and \<open>dtrace\<close> records the blocks written to it.
\<close>

record biost = kbase +
  bufs :: "buf list"
  memdisk :: "uint \<Rightarrow> block"
  disksize :: uint
  dtrace :: "(uint \<times> block) list"

abbreviation bhead :: nat where "bhead \<equiv> NBUF"

definition bfield :: "(buf \<Rightarrow> 'b) \<Rightarrow> nat \<Rightarrow> ('a biost_scheme, 'b) kfun" where
  "bfield f i = getK (\<lambda>s. f (bufs s ! i))"

definition upd_buf :: "nat \<Rightarrow> (buf \<Rightarrow> buf) \<Rightarrow> ('a biost_scheme, unit) kfun" where
  "upd_buf i f = modK (\<lambda>s. s\<lparr>bufs := (bufs s)[i := f (bufs s ! i)]\<rparr>)"

section \<open>The memory disk\<close>

definition iderw :: "nat \<Rightarrow> ('a biost_scheme, unit) kfun" where
  "iderw i =
     bindK (holdingsleep (SL_slot i)) (\<lambda>h.
     if \<not> h then panic ''iderw: buf not locked'' else
     bindK (getK (\<lambda>s. (bufs s ! i, disksize s))) (\<lambda>(b, n).
     if b_flags b AND (B_VALID OR B_DIRTY) = B_VALID then panic ''iderw: nothing to do'' else
     if b_dev b \<noteq> 1 then panic ''iderw: request not for disk 1'' else
     if b_blockno b \<ge> n then panic ''iderw: block out of range'' else
     thenK (if b_flags b AND B_DIRTY \<noteq> 0 then
              thenK (upd_buf i (\<lambda>b. b\<lparr>b_flags := b_flags b AND NOT B_DIRTY\<rparr>)) (
              modK (\<lambda>s. s\<lparr>memdisk := (memdisk s)(b_blockno b := b_data b),
                          dtrace := dtrace s @ [(b_blockno b, b_data b)]\<rparr>))
            else
              bindK (getK (\<lambda>s. memdisk s (b_blockno b))) (\<lambda>d.
              upd_buf i (\<lambda>b. b\<lparr>b_data := d\<rparr>))) (
     upd_buf i (\<lambda>b. b\<lparr>b_flags := b_flags b OR B_VALID\<rparr>))))"

section \<open>The cache\<close>

text \<open>One turn of the loop of \<^verbatim>\<open>binit\<close>, which puts buffer \<open>i\<close> at the front.\<close>

definition binit_one :: "nat \<Rightarrow> ('a biost_scheme, unit) kfun" where
  "binit_one i =
     bindK (bfield b_next bhead) (\<lambda>n.
     thenK (upd_buf i (\<lambda>b. b\<lparr>b_next := n\<rparr>)) (
     thenK (upd_buf i (\<lambda>b. b\<lparr>b_prev := bhead\<rparr>)) (
     thenK (initsleeplock (SL_slot i)) (
     bindK (bfield b_next bhead) (\<lambda>n.
     thenK (upd_buf n (\<lambda>b. b\<lparr>b_prev := i\<rparr>)) (
     upd_buf bhead (\<lambda>b. b\<lparr>b_next := i\<rparr>)))))))"

definition binit :: "('a biost_scheme, unit) kfun" where
  "binit =
     thenK (upd_buf bhead (\<lambda>b. b\<lparr>b_prev := bhead\<rparr>)) (
     thenK (upd_buf bhead (\<lambda>b. b\<lparr>b_next := bhead\<rparr>)) (
     forK [0..<NBUF] binit_one))"

text \<open>
  The search loops of \<^verbatim>\<open>bget\<close>: from \<open>p\<close>, follow \<open>step\<close> until the list
  head or a buffer that satisfies \<open>P\<close>. \<open>None\<close>: the loop does not end.
\<close>

partial_function (option) scan ::
  "(buf \<Rightarrow> nat) \<Rightarrow> (buf \<Rightarrow> bool) \<Rightarrow> buf list \<Rightarrow> nat \<Rightarrow> nat option option" where
  "scan step P bs p =
     (if p = bhead then Some None
      else if P (bs ! p) then Some (Some p)
      else scan step P bs (step (bs ! p)))"

definition bscan :: "(buf \<Rightarrow> nat) \<Rightarrow> (buf \<Rightarrow> bool) \<Rightarrow> ('a biost_scheme, nat option) kfun" where
  "bscan step P =
     bindK (getK (\<lambda>s. scan step P (bufs s) (step (bufs s ! bhead)))) (\<lambda>r.
     case r of Some x \<Rightarrow> retK x | None \<Rightarrow> undefK)"

definition bget :: "uint \<Rightarrow> uint \<Rightarrow> ('a biost_scheme, nat) kfun" where
  "bget dev blockno =
     thenK (acquire L_bcache) (
     bindK (bscan b_next (\<lambda>b. b_dev b = dev \<and> b_blockno b = blockno)) (\<lambda>r.
     case r of
       Some i \<Rightarrow>
         thenK (upd_buf i (\<lambda>b. b\<lparr>b_refcnt := b_refcnt b + 1\<rparr>)) (
         thenK (release L_bcache) (
         thenK (acquiresleep (SL_slot i)) (
         retK i)))
     | None \<Rightarrow>
         bindK (bscan b_prev (\<lambda>b. b_refcnt b = 0 \<and> b_flags b AND B_DIRTY = 0)) (\<lambda>r.
         case r of
           Some i \<Rightarrow>
             thenK (upd_buf i (\<lambda>b. b\<lparr>b_dev := dev, b_blockno := blockno, b_flags := 0, b_refcnt := 1\<rparr>)) (
             thenK (release L_bcache) (
             thenK (acquiresleep (SL_slot i)) (
             retK i)))
         | None \<Rightarrow> panic ''bget: no buffers'')))"

definition bio_bread :: "uint \<Rightarrow> uint \<Rightarrow> ('a biost_scheme, nat) kfun" where
  "bio_bread dev blockno =
     bindK (bget dev blockno) (\<lambda>i.
     bindK (bfield b_flags i) (\<lambda>flags.
     thenK (whenK (flags AND B_VALID = 0) (iderw i)) (
     retK i)))"

definition bio_bwrite :: "nat \<Rightarrow> ('a biost_scheme, unit) kfun" where
  "bio_bwrite i =
     bindK (holdingsleep (SL_slot i)) (\<lambda>h.
     if \<not> h then panic ''bwrite'' else
     thenK (upd_buf i (\<lambda>b. b\<lparr>b_flags := b_flags b OR B_DIRTY\<rparr>)) (
     iderw i))"

text \<open>Moving a buffer to the front of the list, statement by statement.\<close>

definition bmove_front :: "nat \<Rightarrow> ('a biost_scheme, unit) kfun" where
  "bmove_front i =
     bindK (getK (\<lambda>s. bufs s ! i)) (\<lambda>b.
     thenK (upd_buf (b_next b) (\<lambda>x. x\<lparr>b_prev := b_prev b\<rparr>)) (
     bindK (getK (\<lambda>s. bufs s ! i)) (\<lambda>b.
     thenK (upd_buf (b_prev b) (\<lambda>x. x\<lparr>b_next := b_next b\<rparr>)) (
     bindK (bfield b_next bhead) (\<lambda>n.
     thenK (upd_buf i (\<lambda>b. b\<lparr>b_next := n\<rparr>)) (
     thenK (upd_buf i (\<lambda>b. b\<lparr>b_prev := bhead\<rparr>)) (
     bindK (bfield b_next bhead) (\<lambda>n.
     thenK (upd_buf n (\<lambda>b. b\<lparr>b_prev := i\<rparr>)) (
     upd_buf bhead (\<lambda>b. b\<lparr>b_next := i\<rparr>))))))))))"

definition bio_brelse :: "nat \<Rightarrow> ('a biost_scheme, unit) kfun" where
  "bio_brelse i =
     bindK (holdingsleep (SL_slot i)) (\<lambda>h.
     if \<not> h then panic ''brelse'' else
     thenK (releasesleep (SL_slot i)) (
     thenK (acquire L_bcache) (
     thenK (upd_buf i (\<lambda>b. b\<lparr>b_refcnt := b_refcnt b - 1\<rparr>)) (
     bindK (bfield b_refcnt i) (\<lambda>n.
     thenK (whenK (n = 0) (bmove_front i)) (
     release L_bcache))))))"

text \<open>What the clients of the cache do to a buffer they hold: read and write its data, and pin it.\<close>

definition bio_set_data :: "nat \<Rightarrow> block \<Rightarrow> ('a biost_scheme, unit) kfun" where
  "bio_set_data i d = upd_buf i (\<lambda>b. b\<lparr>b_data := d\<rparr>)"

definition bio_set_dirty :: "nat \<Rightarrow> ('a biost_scheme, unit) kfun" where
  "bio_set_dirty i = upd_buf i (\<lambda>b. b\<lparr>b_flags := b_flags b OR B_DIRTY\<rparr>)"

section \<open>The circular list\<close>

text \<open>\<open>links bs p xs q\<close>: starting at \<open>p\<close>, \<^verbatim>\<open>next\<close> visits \<open>xs\<close> and then \<open>q\<close>, and \<^verbatim>\<open>prev\<close> goes back.\<close>

fun links :: "buf list \<Rightarrow> nat \<Rightarrow> nat list \<Rightarrow> nat \<Rightarrow> bool" where
  "links bs p [] q \<longleftrightarrow> b_next (bs ! p) = q \<and> b_prev (bs ! q) = p"
| "links bs p (x # xs) q \<longleftrightarrow> b_next (bs ! p) = x \<and> b_prev (bs ! x) = p \<and> links bs x xs q"

lemma links_append: "links bs p (xs @ y # ys) q \<longleftrightarrow> links bs p xs y \<and> links bs y ys q"
  by (induction xs arbitrary: p) auto

lemma links_cong:
  assumes "\<And>x. x \<in> insert p (set xs) \<Longrightarrow> b_next (bs' ! x) = b_next (bs ! x)"
    and "\<And>x. x \<in> insert q (set xs) \<Longrightarrow> b_prev (bs' ! x) = b_prev (bs ! x)"
  shows "links bs' p xs q = links bs p xs q"
  using assms by (induction xs arbitrary: p) auto

text \<open>The whole cache list: from the head back to the head, through every buffer once.\<close>

definition blist :: "buf list \<Rightarrow> nat list \<Rightarrow> bool" where
  "blist bs xs \<longleftrightarrow> length bs = NBUF + 1 \<and> distinct xs \<and> set xs = {0..<NBUF} \<and> links bs bhead xs bhead"

lemma links_snoc: "links bs p (xs @ [y]) q \<longleftrightarrow> links bs p xs y \<and> b_next (bs ! y) = q \<and> b_prev (bs ! q) = y"
  using links_append [of bs p xs y "[]" q] by simp

text \<open>Inserting \<open>i\<close> right after the head.\<close>

lemma links_insert_front:
  assumes "links bs bhead xs bhead" and "distinct (i # xs)" and "i < NBUF" and "set xs \<subseteq> {0..<NBUF}"
    and len: "length bs = NBUF + 1" and n: "n = b_next (bs ! bhead)"
    and bs': "bs' = ((bs[i := (bs ! i)\<lparr>b_next := n, b_prev := bhead\<rparr>])
       [n := (bs[i := (bs ! i)\<lparr>b_next := n, b_prev := bhead\<rparr>] ! n)\<lparr>b_prev := i\<rparr>])"
  shows "links (bs'[bhead := (bs' ! bhead)\<lparr>b_next := i\<rparr>]) bhead (i # xs) bhead"
proof (cases xs)
  case Nil
  then show ?thesis using assms by simp
next
  case (Cons y ys)
  have y: "n = y" "y \<noteq> i" "y < NBUF" using assms Cons by auto
  have "links (bs'[bhead := (bs' ! bhead)\<lparr>b_next := i\<rparr>]) y ys bhead = links bs y ys bhead"
    using assms y Cons by (intro links_cong) (auto simp: nth_list_update)
  then show ?thesis using assms y Cons by (auto simp: nth_list_update)
qed

lemma links_mid:
  assumes "links bs q (xs @ i # ys) q"
  shows "b_prev (bs ! i) = (if xs = [] then q else last xs)" and "b_next (bs ! i) = (if ys = [] then q else hd ys)"
proof -
  show "b_prev (bs ! i) = (if xs = [] then q else last xs)"
    using assms by (cases xs rule: rev_cases) (auto simp: links_append)
  show "b_next (bs ! i) = (if ys = [] then q else hd ys)"
    using assms by (cases ys) (auto simp: links_append)
qed

text \<open>Unlinking \<open>i\<close> from anywhere in the list.\<close>

lemma links_unlink:
  assumes l: "links bs bhead (xs @ i # ys) bhead" and d: "distinct (xs @ i # ys)" and s: "set (xs @ i # ys) \<subseteq> {0..<NBUF}"
    and len: "length bs = NBUF + 1" and n: "n = b_next (bs ! i)" and p: "p = b_prev (bs ! i)"
    and bs1: "bs1 = bs[n := (bs ! n)\<lparr>b_prev := p\<rparr>]"
    and bs2: "bs2 = bs1[p := (bs1 ! p)\<lparr>b_next := n\<rparr>]"
  shows "links bs2 bhead (xs @ ys) bhead"
proof -
  have i: "i < NBUF" "i \<notin> set xs" "i \<notin> set ys" using d s by auto
  note pi = links_mid(1) [OF l, folded p] and ni = links_mid(2) [OF l, folded n]
  have "last xs < NBUF" if "xs \<noteq> []" using subsetD [OF s, of "last xs"] that by simp
  moreover have "hd ys < NBUF" if "ys \<noteq> []" using subsetD [OF s, of "hd ys"] that by simp
  ultimately have lt: "p < length bs" "n < length bs" using pi ni len by auto
  have nx: "b_next (bs2 ! x) = (if x = p then n else b_next (bs ! x))" if "x < length bs" for x
    using that lt by (simp add: bs1 bs2 nth_list_update)
  have pv: "b_prev (bs2 ! x) = (if x = n then p else b_prev (bs ! x))" if "x < length bs" for x
    using that lt by (simp add: bs1 bs2 nth_list_update)
  have xl: "x < length bs" if "x \<in> insert bhead (set xs \<union> set ys)" for x using that s len by auto
  show ?thesis
  proof (cases xs rule: rev_cases)
    case Nil
    show ?thesis
    proof (cases ys)
      case Nil
      then show ?thesis using \<open>xs = []\<close> pi ni nx [of bhead] pv [of bhead] len by simp
    next
      case (Cons y zs)
      have "links bs2 y zs bhead = links bs y zs bhead"
        using d s Nil Cons pi ni xl by (intro links_cong) (auto simp: nx pv)
      then show ?thesis using l Nil Cons pi ni nx [of bhead] pv [of y] xl by (auto simp: links_append)
    qed
  next
    case (snoc ws w)
    have w: "p = w" using pi snoc by simp
    have "n \<notin> insert w (set ws)" using ni d s snoc hd_in_set [of ys] by (cases "ys = []") auto
    then have 1: "links bs2 bhead ws w = links bs bhead ws w"
      using d s snoc w xl by (intro links_cong) (auto simp: nx pv)
    show ?thesis
    proof (cases ys)
      case Nil
      then show ?thesis using l 1 snoc w ni nx [of w] pv [of bhead] xl by (auto simp: links_snoc links_append)
    next
      case (Cons y zs)
      have "links bs2 y zs bhead = links bs y zs bhead"
        using d s snoc Cons w ni xl by (intro links_cong) (auto simp: nx pv)
      then show ?thesis using l 1 snoc Cons w ni nx [of w] pv [of y] xl by (auto simp: links_append)
    qed
  qed
qed

lemma move_front_order:
  assumes "distinct xs" and "i \<in> set xs"
  obtains ys zs where "xs = ys @ i # zs" "remove1 i xs = ys @ zs" "i \<notin> set ys" "i \<notin> set zs"
proof -
  obtain ys zs where "xs = ys @ i # zs" using assms(2) by (auto dest: split_list)
  then show thesis using assms(1) that by (auto simp: remove1_append)
qed

text \<open>Everything in a buffer but its links.\<close>

definition bcontent :: "buf \<Rightarrow> uint \<times> uint \<times> uint \<times> uint \<times> block" where
  "bcontent b = (b_flags b, b_dev b, b_blockno b, b_refcnt b, b_data b)"

lemma bcontent_upd [simp]:
  "bcontent (bs[k := (bs ! k)\<lparr>b_prev := p\<rparr>] ! j) = bcontent (bs ! j)"
  "bcontent (bs[k := (bs ! k)\<lparr>b_next := n\<rparr>] ! j) = bcontent (bs ! j)"
  "bcontent (bs[k := (bs ! k)\<lparr>b_next := n, b_prev := p\<rparr>] ! j) = bcontent (bs ! j)"
  by (cases "k < length bs", simp_all add: bcontent_def nth_list_update list_update_beyond)+

lemma bmove_front_run:
  assumes b: "blist (bufs s) xs" and i: "i < NBUF"
  shows "\<exists>bs'. bmove_front i s = Ok () (s\<lparr>bufs := bs'\<rparr>) \<and> blist bs' (i # remove1 i xs) \<and>
    (\<forall>j. bcontent (bs' ! j) = bcontent (bufs s ! j))"
proof -
  have xs: "distinct xs" "set xs = {0..<NBUF}" "links (bufs s) bhead xs bhead" and len: "length (bufs s) = NBUF + 1"
    using b by (auto simp: blist_def)
  obtain ys zs where sp: "xs = ys @ i # zs" "remove1 i xs = ys @ zs" "i \<notin> set ys" "i \<notin> set zs"
    using move_front_order [OF xs(1), of i] xs(2) i by auto
  define n where "n = b_next (bufs s ! i)"
  define p where "p = b_prev (bufs s ! i)"
  define bs1 where "bs1 = (bufs s)[n := (bufs s ! n)\<lparr>b_prev := p\<rparr>]"
  define bs2 where "bs2 = bs1[p := (bs1 ! p)\<lparr>b_next := n\<rparr>]"
  define m where "m = b_next (bs2 ! bhead)"
  define bs3 where "bs3 = bs2[i := (bs2 ! i)\<lparr>b_next := m, b_prev := bhead\<rparr>]"
  define bs4 where "bs4 = bs3[m := (bs3 ! m)\<lparr>b_prev := i\<rparr>]"
  define bs' where "bs' = bs4[bhead := (bs4 ! bhead)\<lparr>b_next := i\<rparr>]"
  have l2: "links bs2 bhead (ys @ zs) bhead"
    by (rule links_unlink [of "bufs s" ys i zs n p bs1 bs2])
      (use xs sp len in \<open>simp_all add: n_def p_def bs1_def bs2_def\<close>)
  have len2: "length bs2 = NBUF + 1" using len by (simp add: bs1_def bs2_def)
  have l': "links bs' bhead (i # ys @ zs) bhead"
    unfolding bs'_def
  proof (rule links_insert_front [OF l2 _ i _ len2])
    show "bs4 = bs2[i := (bs2 ! i)\<lparr>b_next := m, b_prev := bhead\<rparr>, m := (bs2[i := (bs2 ! i)\<lparr>b_next := m, b_prev := bhead\<rparr>] ! m)\<lparr>b_prev := i\<rparr>]"
      by (simp add: bs4_def bs3_def)
  qed (use xs sp in \<open>auto simp: m_def\<close>)
  have "n = (if zs = [] then bhead else hd zs)" using links_mid(2) [of "bufs s" bhead ys i zs] xs sp by (simp add: n_def)
  then have ni: "n \<noteq> i" using sp(4) i hd_in_set [of zs] by auto
  have "bmove_front i s = Ok () (s\<lparr>bufs := bs'\<rparr>)"
  proof -
    have 1: "bs1 ! i = bufs s ! i" using ni by (simp add: bs1_def)
    have 2: "b_next (bs3 ! bhead) = m" using i by (simp add: bs3_def m_def)
    have 3: "bs2[i := (bs2[i := (bs2 ! i)\<lparr>b_next := m\<rparr>] ! i)\<lparr>b_prev := bhead\<rparr>] = bs3"
      using i len2 by (simp add: bs3_def)
    show ?thesis
      by (simp add: bmove_front_def kdefs upd_buf_def bfield_def n_def [symmetric] p_def [symmetric] bs1_def [symmetric]
          1 bs2_def [symmetric] m_def [symmetric] 3 2 bs4_def [symmetric] bs'_def [symmetric])
  qed
  moreover have "length bs' = NBUF + 1" using len2 by (simp add: bs'_def bs4_def bs3_def)
  then have "blist bs' (i # remove1 i xs)"
    using l' sp xs(1,2) unfolding blist_def by auto
  moreover have "bcontent (bs' ! j) = bcontent (bufs s ! j)" for j
  proof -
    have "bcontent (bs' ! j) = bcontent (bs4 ! j)" unfolding bs'_def by simp
    also have "\<dots> = bcontent (bs3 ! j)" unfolding bs4_def by simp
    also have "\<dots> = bcontent (bs2 ! j)" unfolding bs3_def by simp
    also have "\<dots> = bcontent (bs1 ! j)" unfolding bs2_def by simp
    also have "\<dots> = bcontent (bufs s ! j)" unfolding bs1_def by simp
    finally show ?thesis .
  qed
  ultimately show ?thesis by blast
qed

text \<open>The pointer code of \<^verbatim>\<open>brelse\<close> moves a buffer to the front of the list: the list stays a
  circular doubly linked list of all buffers, with the others in their old order, and nothing but
  \<^verbatim>\<open>prev\<close> and \<^verbatim>\<open>next\<close> changes.\<close>

lemma bmove_front_order:
  assumes b: "blist (bufs s) xs" and i: "i < NBUF"
  shows "\<exists>bs'. bmove_front i s = Ok () (s\<lparr>bufs := bs'\<rparr>) \<and> blist bs' (i # remove1 i xs) \<and>
    (\<forall>j. bcontent (bs' ! j) = bcontent (bufs s ! j))"
  using assms by (rule bmove_front_run)

section \<open>The search loops\<close>

lemma scan_next:
  assumes "links bs p xs bhead" and "set xs \<subseteq> {0..<NBUF}"
  shows "scan b_next P bs (b_next (bs ! p)) = Some (find (\<lambda>i. P (bs ! i)) xs)"
  using assms
proof (induction xs arbitrary: p)
  case Nil
  then show ?case by (subst scan.simps) simp
next
  case (Cons x xs)
  then show ?case by (subst scan.simps) auto
qed

lemma scan_prev:
  assumes "links bs bhead xs q" and "set xs \<subseteq> {0..<NBUF}"
  shows "scan b_prev P bs (b_prev (bs ! q)) = Some (find (\<lambda>i. P (bs ! i)) (rev xs))"
  using assms
proof (induction xs arbitrary: q rule: rev_induct)
  case Nil
  then show ?case by (subst scan.simps) simp
next
  case (snoc x xs)
  then show ?case by (subst scan.simps) (auto simp: links_snoc)
qed

lemma bscan_run:
  assumes "blist (bufs s) xs"
  shows "bscan b_next P s = Ok (find (\<lambda>i. P (bufs s ! i)) xs) s"
    and "bscan b_prev P s = Ok (find (\<lambda>i. P (bufs s ! i)) (rev xs)) s"
  using assms scan_next [of "bufs s" bhead xs P] scan_prev [of "bufs s" xs bhead P]
  by (auto simp: bscan_def kdefs blist_def)

section \<open>Initialisation\<close>

lemma binit_one_run:
  assumes l: "links (bufs s) bhead xs bhead" and len: "length (bufs s) = NBUF + 1" and i: "i < NBUF"
    and "distinct (i # xs)" and "set xs \<subseteq> {0..<NBUF}"
  shows "\<exists>bs'. binit_one i s = Ok () (s\<lparr>bufs := bs', sleeplocks := (sleeplocks s)(SL_slot i := \<lparr>slk_locked = False, slk_pid = 0\<rparr>)\<rparr>) \<and>
     links bs' bhead (i # xs) bhead \<and> length bs' = NBUF + 1 \<and> (\<forall>j. bcontent (bs' ! j) = bcontent (bufs s ! j))"
proof -
  define n where "n = b_next (bufs s ! bhead)"
  define bs3 where "bs3 = (bufs s)[i := (bufs s ! i)\<lparr>b_next := n, b_prev := bhead\<rparr>]"
  define bs4 where "bs4 = bs3[n := (bs3 ! n)\<lparr>b_prev := i\<rparr>]"
  define bs' where "bs' = bs4[bhead := (bs4 ! bhead)\<lparr>b_next := i\<rparr>]"
  have 2: "b_next (bs3 ! bhead) = n" using i by (simp add: bs3_def n_def)
  have 3: "(bufs s)[i := ((bufs s)[i := (bufs s ! i)\<lparr>b_next := n\<rparr>] ! i)\<lparr>b_prev := bhead\<rparr>] = bs3"
    using i len by (simp add: bs3_def)
  have "binit_one i s = Ok () (s\<lparr>bufs := bs', sleeplocks := (sleeplocks s)(SL_slot i := \<lparr>slk_locked = False, slk_pid = 0\<rparr>)\<rparr>)"
    by (simp add: binit_one_def kdefs upd_buf_def bfield_def initsleeplock_def upd_slk_def n_def [symmetric] 3 2
        bs4_def [symmetric] bs'_def [symmetric])
  moreover have "links bs' bhead (i # xs) bhead"
    unfolding bs'_def
  proof (rule links_insert_front [OF l assms(4) i assms(5) len n_def])
    show "bs4 = (bufs s)[i := (bufs s ! i)\<lparr>b_next := n, b_prev := bhead\<rparr>, n := ((bufs s)[i := (bufs s ! i)\<lparr>b_next := n, b_prev := bhead\<rparr>] ! n)\<lparr>b_prev := i\<rparr>]"
      by (simp add: bs4_def bs3_def)
  qed
  moreover have "length bs' = NBUF + 1" using len by (simp add: bs'_def bs4_def bs3_def)
  moreover have "bcontent (bs' ! j) = bcontent (bufs s ! j)" for j
  proof -
    have "bcontent (bs' ! j) = bcontent (bs4 ! j)" unfolding bs'_def by simp
    also have "\<dots> = bcontent (bs3 ! j)" unfolding bs4_def by simp
    also have "\<dots> = bcontent (bufs s ! j)" unfolding bs3_def by simp
    finally show ?thesis .
  qed
  ultimately show ?thesis by blast
qed

text \<open>\<^verbatim>\<open>binit\<close> links all buffers, the last one first, and leaves the rest of them as they were.\<close>

lemma binit_run:
  assumes len: "length (bufs (s :: 'a biost_scheme)) = NBUF + 1"
  shows "\<exists>s'. binit s = Ok () s' \<and> blist (bufs s') (rev [0..<NBUF]) \<and> (\<forall>j. bcontent (bufs s' ! j) = bcontent (bufs s ! j)) \<and>
     (\<forall>j < NBUF. \<not> slk_locked (sleeplocks s' (SL_slot j))) \<and> klocks s' = klocks s \<and> ptable s' = ptable s \<and> cur s' = cur s \<and>
     memdisk s' = memdisk s \<and> disksize s' = disksize s \<and> dtrace s' = dtrace s"
proof -
  define t where "t = s\<lparr>bufs := (bufs s)[bhead := (bufs s ! bhead)\<lparr>b_prev := bhead, b_next := bhead\<rparr>]\<rparr>"
  define P where "P k u \<longleftrightarrow> links (bufs u) bhead (rev [0..<k]) bhead \<and> length (bufs u) = NBUF + 1 \<and>
     (\<forall>j. bcontent (bufs u ! j) = bcontent (bufs s ! j)) \<and> (\<forall>j < k. \<not> slk_locked (sleeplocks u (SL_slot j))) \<and>
     klocks u = klocks s \<and> ptable u = ptable s \<and> cur u = cur s \<and> memdisk u = memdisk s \<and> disksize u = disksize s \<and> dtrace u = dtrace s" for k and u :: "'a biost_scheme"
  have "\<exists>s'. forK [0..<NBUF] binit_one t = Ok () s' \<and> P NBUF s'"
  proof (rule forK_upto)
    have "bcontent (bufs t ! j) = bcontent (bufs s ! j)" for j
      using len by (cases "j = bhead") (simp_all add: t_def bcontent_def)
    then show "P 0 t" using len by (simp add: P_def t_def)
    fix k u assume k: "k < NBUF" and u: "P k u"
    obtain bs' where "binit_one k u = Ok () (u\<lparr>bufs := bs', sleeplocks := (sleeplocks u)(SL_slot k := \<lparr>slk_locked = False, slk_pid = 0\<rparr>)\<rparr>)"
       "links bs' bhead (k # rev [0..<k]) bhead" "length bs' = NBUF + 1" "\<forall>j. bcontent (bs' ! j) = bcontent (bufs u ! j)"
      using binit_one_run [of u "rev [0..<k]" k] u k by (auto simp: P_def)
    then show "\<exists>u'. binit_one k u = Ok () u' \<and> P (Suc k) u'" using u by (auto simp: P_def less_Suc_eq)
  qed
  moreover have "binit s = forK [0..<NBUF] binit_one t"
    using len by (simp add: binit_def kdefs upd_buf_def t_def)
  ultimately show ?thesis by (auto simp: P_def blist_def)
qed

section \<open>Flags\<close>

definition valid :: "buf \<Rightarrow> bool" where "valid b \<longleftrightarrow> b_flags b AND B_VALID \<noteq> 0"
definition dirty :: "buf \<Rightarrow> bool" where "dirty b \<longleftrightarrow> b_flags b AND B_DIRTY \<noteq> 0"

lemma valid_bit: "(f AND B_VALID = 0) = (\<not> bit f 1)"
  using and_exp_eq_0_iff_not_bit [of f 1] by (simp add: B_VALID_def)

lemma dirty_bit: "(f AND B_DIRTY = 0) = (\<not> bit f 2)"
  using and_exp_eq_0_iff_not_bit [of f 2] by (simp add: B_DIRTY_def)

lemma bit_flag: "bit B_VALID n = (n = 1)" "bit B_DIRTY n = (n = 2)"
proof -
  have "bit (2 ^ 1 :: uint) n = (n = 1)" "bit (2 ^ 2 :: uint) n = (n = 2)" unfolding bit_exp_iff by auto
  then show "bit B_VALID n = (n = 1)" "bit B_DIRTY n = (n = 2)" by (simp_all add: B_VALID_def B_DIRTY_def)
qed

lemma clean_flags: "(f AND (B_VALID OR B_DIRTY) = B_VALID) = (bit f 1 \<and> \<not> bit f 2)"
proof -
  have b: "bit (f AND (B_VALID OR B_DIRTY)) n = (bit f n \<and> (n = 1 \<or> n = 2))" for n
    by (simp add: bit_and_iff bit_or_iff bit_flag)
  show ?thesis
  proof
    assume "f AND (B_VALID OR B_DIRTY) = B_VALID"
    then have "(bit f n \<and> (n = 1 \<or> n = 2)) = (n = 1)" for n unfolding b [symmetric] by (simp add: bit_flag)
    from this [of 1] this [of 2] show "bit f 1 \<and> \<not> bit f 2" by simp
  next
    assume "bit f 1 \<and> \<not> bit f 2"
    then show "f AND (B_VALID OR B_DIRTY) = B_VALID" by (intro bit_eqI) (auto simp: b bit_flag)
  qed
qed

lemma flags_after_write [simp]:
  "bit ((f AND NOT B_DIRTY) OR B_VALID) (Suc 0)" "\<not> bit ((f AND NOT B_DIRTY) OR B_VALID) 2"
  by (simp_all add: bit_or_iff bit_and_iff bit_flag bit_not_iff)

lemma flags_after_read [simp]: "bit (f OR B_VALID) (Suc 0)" "bit (f OR B_VALID) 2 = bit f 2"
  by (simp_all add: bit_or_iff bit_flag)

lemma flags_set_dirty [simp]: "bit (f OR B_DIRTY) (Suc 0) = bit f (Suc 0)" "bit (f OR B_DIRTY) 2"
  by (simp_all add: bit_or_iff bit_flag)

lemmas flag_bits = valid_bit dirty_bit clean_flags

section \<open>The abstraction relation\<close>

abbreviation buf_key :: "buf \<Rightarrow> bkey" where "buf_key b \<equiv> (b_dev b, b_blockno b)"

definition inuse :: "buf \<Rightarrow> bool" where "inuse b \<longleftrightarrow> b_refcnt b \<noteq> 0 \<or> dirty b"

text \<open>
  The invariant of the cache: the list is a circular list of all buffers; a buffer caches a block of the disk, or
  has never been used; an unreferenced buffer is unlocked; no two buffers cache the same block.
\<close>

definition buf_ok :: "'a biost_scheme \<Rightarrow> nat \<Rightarrow> bool" where
  "buf_ok c i \<longleftrightarrow> (let b = bufs c ! i in
     (b_dev b = 1 \<and> b_blockno b < disksize c \<or> b_dev b = 0 \<and> b_refcnt b = 0 \<and> \<not> valid b \<and> \<not> dirty b) \<and>
     (dirty b \<longrightarrow> valid b) \<and>
     (b_refcnt b = 0 \<longrightarrow> \<not> slk_locked (sleeplocks c (SL_slot i))))"

definition bio_inv :: "'a biost_scheme \<Rightarrow> bool" where
  "bio_inv c \<longleftrightarrow> (\<exists>xs. blist (bufs c) xs) \<and> (\<forall>i < NBUF. buf_ok c i) \<and>
     (\<forall>i < NBUF. \<forall>j < NBUF. b_dev (bufs c ! i) = 1 \<longrightarrow> buf_key (bufs c ! i) = buf_key (bufs c ! j) \<longrightarrow> i = j)"

text \<open>What the contract says of a block, in terms of the buffer that caches it.\<close>

definition buf_rel :: "buf \<Rightarrow> sleeplock \<Rightarrow> 'b bufst_scheme \<Rightarrow> bool" where
  "buf_rel b lk a \<longleftrightarrow> (let k = buf_key b in
     unat (b_refcnt b) = count_list (bheld a) k \<and> dirty b = (k \<in> set (bdirty a)) \<and>
     sleeplocks a (SL_buf (b_dev b) (b_blockno b)) = lk \<and>
     (valid b \<longrightarrow> b_data b = bmem a k) \<and> (\<not> valid b \<or> \<not> inuse b \<longrightarrow> bmem a k = bdisk a k))"

text \<open>A block that no buffer caches.\<close>

definition blk_idle :: "'b bufst_scheme \<Rightarrow> bkey \<Rightarrow> bool" where
  "blk_idle a k \<longleftrightarrow> k \<notin> set (bheld a) \<and> k \<notin> set (bdirty a) \<and> bmem a k = bdisk a k \<and>
     \<not> slk_locked (sleeplocks a (SL_buf (fst k) (snd k)))"

definition cached :: "'a biost_scheme \<Rightarrow> bkey \<Rightarrow> nat \<Rightarrow> bool" where
  "cached c k i \<longleftrightarrow> i < NBUF \<and> b_dev (bufs c ! i) = 1 \<and> buf_key (bufs c ! i) = k"

definition same_kernel :: "'a biost_scheme \<Rightarrow> 'b bufst_scheme \<Rightarrow> bool" where
  "same_kernel c a \<longleftrightarrow> klocks c = [] \<and> klocks a = [] \<and> cur a = cur c \<and>
     map p_pid (ptable a) = map p_pid (ptable c) \<and> running c"

definition same_disk :: "'a biost_scheme \<Rightarrow> 'b bufst_scheme \<Rightarrow> bool" where
  "same_disk c a \<longleftrightarrow> bdisksize a = disksize c \<and> (\<forall>b. bdisk a (1, b) = memdisk c b) \<and>
     wtrace a = map (\<lambda>(b, d). ((1, b), d)) (dtrace c)"

definition bio_rel :: "'a biost_scheme \<Rightarrow> 'b bufst_scheme \<Rightarrow> bool" where
  "bio_rel c a \<longleftrightarrow> bio_inv c \<and> same_kernel c a \<and> same_disk c a \<and>
     (\<forall>k i. cached c k i \<longrightarrow> buf_rel (bufs c ! i) (sleeplocks c (SL_slot i)) a) \<and>
     (\<forall>k. (\<forall>i. \<not> cached c k i) \<longrightarrow> blk_idle a k)"

lemma bio_relD:
  assumes "bio_rel c a"
  shows "bio_inv c" and "same_kernel c a" and "same_disk c a"
    and "cached c k i \<Longrightarrow> buf_rel (bufs c ! i) (sleeplocks c (SL_slot i)) a"
    and "\<forall>i. \<not> cached c k i \<Longrightarrow> blk_idle a k"
  using assms unfolding bio_rel_def by blast+

lemma same_kernel_pid:
  assumes "same_kernel c a"
  shows "mypid a = mypid c" and "running a"
proof -
  obtain i where i: "cur c = Some i" "i < length (ptable c)" using assms by (auto simp: same_kernel_def running_def)
  have m: "map p_pid (ptable a) = map p_pid (ptable c)" and cu: "cur a = cur c" using assms by (auto simp: same_kernel_def)
  have l: "length (ptable a) = length (ptable c)" using map_eq_imp_length_eq [OF m] .
  have "map p_pid (ptable a) ! i = map p_pid (ptable c) ! i" by (simp add: m)
  then have "p_pid (ptable a ! i) = p_pid (ptable c ! i)" using i l by simp
  then show "mypid a = mypid c" "running a" using i cu l by (simp_all add: mypid_def running_def)
qed

text \<open>The number of buffers in use is the number of blocks in use.\<close>

lemma binuse_card:
  assumes r: "bio_rel c a"
  shows "set (binuse a) = (\<lambda>i. buf_key (bufs c ! i)) ` {i. i < NBUF \<and> inuse (bufs c ! i)}"
    and "length (binuse a) = card {i. i < NBUF \<and> inuse (bufs c ! i)}"
proof -
  let ?I = "{i. i < NBUF \<and> inuse (bufs c ! i)}"
  have dev: "b_dev (bufs c ! i) = 1" if "i \<in> ?I" for i
    using that r by (auto simp: bio_rel_def bio_inv_def buf_ok_def inuse_def Let_def)
  have iff: "k \<in> set (bheld a) \<or> k \<in> set (bdirty a) \<longleftrightarrow> inuse (bufs c ! i)" if "cached c k i" for k i
  proof -
    have "buf_rel (bufs c ! i) (sleeplocks c (SL_slot i)) a" "buf_key (bufs c ! i) = k"
      using bio_relD(4) [OF r that] that by (auto simp: cached_def)
    then have "unat (b_refcnt (bufs c ! i)) = count_list (bheld a) k" "dirty (bufs c ! i) = (k \<in> set (bdirty a))"
      by (simp_all add: buf_rel_def Let_def)
    moreover from this(1) have "b_refcnt (bufs c ! i) = 0 \<longleftrightarrow> k \<notin> set (bheld a)"
      by (metis count_list_0_iff unat_eq_zero)
    ultimately show ?thesis by (simp add: inuse_def)
  qed
  have "k \<in> set (binuse a) \<longleftrightarrow> (\<exists>i \<in> ?I. k = buf_key (bufs c ! i))" for k
  proof
    assume k: "k \<in> set (binuse a)"
    then obtain i where "cached c k i" using bio_relD(5) [OF r, of k] by (auto simp: blk_idle_def binuse_def)
    then show "\<exists>i \<in> ?I. k = buf_key (bufs c ! i)" using k iff by (intro bexI [of _ i]) (auto simp: cached_def binuse_def)
  next
    assume "\<exists>i \<in> ?I. k = buf_key (bufs c ! i)"
    then obtain i where "i \<in> ?I" "cached c k i" using dev by (auto simp: cached_def)
    then show "k \<in> set (binuse a)" using iff by (auto simp: binuse_def)
  qed
  then show s: "set (binuse a) = (\<lambda>i. buf_key (bufs c ! i)) ` ?I" by blast
  have "inj_on (\<lambda>i. buf_key (bufs c ! i)) ?I"
    using r dev by (intro inj_onI) (auto simp: bio_rel_def bio_inv_def)
  then have "card (set (binuse a)) = card ?I" unfolding s by (rule card_image)
  then show "length (binuse a) = card ?I" by (simp add: binuse_def length_remdups_card_conv)
qed

lemma unused_card:
  assumes "i < NBUF" and "\<not> inuse (bufs c ! i)"
  shows "card {j. j < NBUF \<and> inuse (bufs c ! j)} < NBUF"
proof -
  have "{j. j < NBUF \<and> inuse (bufs c ! j)} \<subseteq> {0..<NBUF} - {i}" using assms(2) by auto
  then have "card {j. j < NBUF \<and> inuse (bufs c ! j)} \<le> card ({0..<NBUF} - {i})" by (rule card_mono [rotated]) simp
  then show ?thesis using assms(1) by simp
qed

section \<open>bget on its three ways out\<close>

lemma bget_cached:
  assumes b: "blist (bufs c) xs" and k: "klocks c = []" and i: "cached c (1, b) i" and inv: "bio_inv c"
  shows "bget 1 b c = bindK (acquiresleep (SL_slot i)) (\<lambda>_. retK i)
    (c\<lparr>bufs := (bufs c)[i := (bufs c ! i)\<lparr>b_refcnt := b_refcnt (bufs c ! i) + 1\<rparr>]\<rparr>)"
proof -
  let ?P = "\<lambda>x. b_dev x = 1 \<and> b_blockno x = b"
  let ?c = "c\<lparr>klocks := [L_bcache]\<rparr>"
  have xs: "set xs = {0..<NBUF}" using b by (simp add: blist_def)
  have "find (\<lambda>j. ?P (bufs c ! j)) xs \<noteq> None" using i xs by (auto simp: find_None_iff cached_def)
  then obtain j where j: "find (\<lambda>j. ?P (bufs c ! j)) xs = Some j" by auto
  then have "j < NBUF" "?P (bufs c ! j)" using xs by (auto simp: find_Some_iff dest: nth_mem)
  then have "j = i" using i inv by (auto simp: cached_def bio_inv_def)
  then have "bscan b_next ?P ?c = Ok (Some i) ?c" using bscan_run(1) [of ?c xs ?P] b j by simp
  then show ?thesis using k
    by (simp add: bget_def thenK_def bindK_def acquire_def release_def upd_buf_def kdefs klocks_self)
qed

lemma bget_recycle:
  assumes b: "blist (bufs c) xs" and k: "klocks c = []" and n: "\<forall>i. \<not> cached c (1, b) i"
    and f: "find (\<lambda>j. b_refcnt (bufs c ! j) = 0 \<and> b_flags (bufs c ! j) AND B_DIRTY = 0) (rev xs) = r"
  shows "bget 1 b c = (case r of None \<Rightarrow> Panic ''bget: no buffers''
    | Some i \<Rightarrow> bindK (acquiresleep (SL_slot i)) (\<lambda>_. retK i)
        (c\<lparr>bufs := (bufs c)[i := (bufs c ! i)\<lparr>b_dev := 1, b_blockno := b, b_flags := 0, b_refcnt := 1\<rparr>]\<rparr>))"
proof -
  let ?P = "\<lambda>x. b_dev x = 1 \<and> b_blockno x = b"
  let ?c = "c\<lparr>klocks := [L_bcache]\<rparr>"
  have "find (\<lambda>j. ?P (bufs c ! j)) xs = None" using n b by (auto simp: find_None_iff cached_def blist_def)
  then have 1: "bscan b_next ?P ?c = Ok None ?c" using bscan_run(1) [of ?c xs ?P] b by simp
  have 2: "bscan b_prev (\<lambda>x. b_refcnt x = 0 \<and> b_flags x AND B_DIRTY = 0) ?c = Ok r ?c"
    using bscan_run(2) [of ?c xs "\<lambda>x. b_refcnt x = 0 \<and> b_flags x AND B_DIRTY = 0"] b f by simp
  show ?thesis using k 1 2
    by (cases r) (simp_all add: bget_def thenK_def bindK_def acquire_def release_def upd_buf_def kdefs klocks_self)
qed

section \<open>A step on one buffer keeps the relation\<close>

definition agree_except :: "bkey \<Rightarrow> 'b bufst_scheme \<Rightarrow> 'b bufst_scheme \<Rightarrow> bool" where
  "agree_except k a a' \<longleftrightarrow> (\<forall>k'. k' \<noteq> k \<longrightarrow> count_list (bheld a') k' = count_list (bheld a) k' \<and>
     (k' \<in> set (bdirty a')) = (k' \<in> set (bdirty a)) \<and> bmem a' k' = bmem a k' \<and> bdisk a' k' = bdisk a k' \<and>
     sleeplocks a' (SL_buf (fst k') (snd k')) = sleeplocks a (SL_buf (fst k') (snd k')))"

lemma agree_buf_rel:
  assumes "agree_except k a a'" and "buf_key b \<noteq> k" and "buf_rel b lk a"
  shows "buf_rel b lk a'"
proof -
  have e: "count_list (bheld a') (buf_key b) = count_list (bheld a) (buf_key b)"
     "(buf_key b \<in> set (bdirty a')) = (buf_key b \<in> set (bdirty a))" "bmem a' (buf_key b) = bmem a (buf_key b)"
     "bdisk a' (buf_key b) = bdisk a (buf_key b)"
     "sleeplocks a' (SL_buf (b_dev b) (b_blockno b)) = sleeplocks a (SL_buf (b_dev b) (b_blockno b))"
    using assms(1,2) unfolding agree_except_def by (metis fst_conv snd_conv)+
  show ?thesis using assms(3) unfolding buf_rel_def Let_def e .
qed

lemma agree_idle:
  assumes "agree_except k a a'" and "k' \<noteq> k" and "blk_idle a k'"
  shows "blk_idle a' k'"
proof -
  have "k' \<notin> set (bheld a')" using assms by (metis agree_except_def blk_idle_def count_list_0_iff)
  then show ?thesis using assms unfolding agree_except_def blk_idle_def by metis
qed

lemma bcontentD:
  assumes "bcontent x = bcontent y"
  shows "b_dev x = b_dev y" "b_blockno x = b_blockno y" "b_refcnt x = b_refcnt y" "valid x = valid y" "dirty x = dirty y"
    "inuse x = inuse y" "buf_rel x lk a = buf_rel y lk a"
  using assms by (simp_all add: bcontent_def valid_def dirty_def inuse_def buf_rel_def)

lemma unused_idle:
  assumes r: "bio_rel c a" and i: "cached c k i" and u: "\<not> inuse (bufs c ! i)"
  shows "blk_idle a k"
proof -
  have br: "buf_rel (bufs c ! i) (sleeplocks c (SL_slot i)) a" by (rule bio_relD(4) [OF r i])
  have key: "buf_key (bufs c ! i) = k" "i < NBUF" using i by (auto simp: cached_def)
  have "buf_ok c i" using bio_relD(1) [OF r] key(2) by (simp add: bio_inv_def)
  then have "\<not> slk_locked (sleeplocks c (SL_slot i))" using u by (simp add: buf_ok_def inuse_def Let_def)
  moreover have "count_list (bheld a) k = 0" using br u key(1) by (simp add: buf_rel_def inuse_def Let_def)
  ultimately show ?thesis
    using br u key(1) by (auto simp: buf_rel_def blk_idle_def inuse_def Let_def count_list_0_iff)
qed

lemma bio_rel_slot:
  assumes r: "bio_rel c a" and i: "i < NBUF" and bl: "blist (bufs c') ys"
    and oth: "\<And>j. j < NBUF \<Longrightarrow> j \<noteq> i \<Longrightarrow> bcontent (bufs c' ! j) = bcontent (bufs c ! j) \<and>
        sleeplocks c' (SL_slot j) = sleeplocks c (SL_slot j)"
    and ds: "disksize c' = disksize c" and sk: "same_kernel c' a'" and sd: "same_disk c' a'"
    and b: "b = bufs c' ! i" "b_dev b = 1" "b_blockno b < disksize c" "dirty b \<longrightarrow> valid b"
       "b_refcnt b = 0 \<longrightarrow> \<not> slk_locked (sleeplocks c' (SL_slot i))"
    and ag: "agree_except (buf_key b) a a'" and br: "buf_rel b (sleeplocks c' (SL_slot i)) a'"
    and key: "cached c (buf_key b) i \<or> (\<forall>j. \<not> cached c (buf_key b) j) \<and> \<not> inuse (bufs c ! i)"
  shows "bio_rel c' a'"
proof -
  have inv: "bio_inv c" by (rule bio_relD(1) [OF r])
  have uniq: "cached c k j \<Longrightarrow> cached c k j' \<Longrightarrow> j = j'" for k j j'
    using inv unfolding bio_inv_def cached_def by metis
  note same = bcontentD [OF conjunct1 [OF oth]]
  have c1: "cached c' k j \<longleftrightarrow> cached c k j" if "j \<noteq> i" for k j
    using same(1,2) [OF _ that] by (cases "j < NBUF") (simp_all add: cached_def)
  have c2: "cached c' k i \<longleftrightarrow> k = buf_key b" for k using b i by (auto simp: cached_def)
  have nk: "\<not> cached c (buf_key b) j" if "j \<noteq> i" for j using key uniq that by blast
  have "buf_ok c' j" if "j < NBUF" for j
  proof (cases "j = i")
    case True
    then show ?thesis using b ds by (simp add: buf_ok_def Let_def)
  next
    case False
    then have "buf_ok c j" using inv that by (simp add: bio_inv_def)
    then show ?thesis
      using conjunct2 [OF oth [OF that False]] ds unfolding buf_ok_def Let_def same [OF that False] by simp
  qed
  moreover have "j = j'" if "j < NBUF" "j' < NBUF" "b_dev (bufs c' ! j) = 1" "buf_key (bufs c' ! j) = buf_key (bufs c' ! j')" for j j'
  proof -
    have "cached c' (buf_key (bufs c' ! j)) j" "cached c' (buf_key (bufs c' ! j)) j'" using that by (auto simp: cached_def)
    then show ?thesis using c1 [of j] c1 [of j'] c2 nk uniq by (cases "j = i"; cases "j' = i") auto
  qed
  ultimately have inv': "bio_inv c'" using bl unfolding bio_inv_def by blast
  have "buf_rel (bufs c' ! j) (sleeplocks c' (SL_slot j)) a'" if j: "cached c' k j" for k j
  proof (cases "j = i")
    case True
    then show ?thesis using br b(1) by simp
  next
    case False
    then have cj: "cached c k j" using j c1 by simp
    then have lt: "j < NBUF" by (simp add: cached_def)
    have "buf_key (bufs c ! j) \<noteq> buf_key b" using nk [OF False] cj by (auto simp: cached_def)
    then have "buf_rel (bufs c ! j) (sleeplocks c (SL_slot j)) a'"
      by (rule agree_buf_rel [OF ag _ bio_relD(4) [OF r cj]])
    then show ?thesis using conjunct2 [OF oth [OF lt False]] unfolding same(7) [OF lt False] by simp
  qed
  moreover have "blk_idle a' k" if k: "\<forall>j. \<not> cached c' k j" for k
  proof (rule agree_idle [OF ag])
    show kb: "k \<noteq> buf_key b" using k c2 by blast
    show "blk_idle a k"
    proof (cases "cached c k i")
      case True
      then have "\<not> inuse (bufs c ! i)" using key kb by (auto simp: cached_def)
      then show ?thesis by (rule unused_idle [OF r True])
    next
      case False
      then have "\<forall>j. \<not> cached c k j" using k c1 by metis
      then show ?thesis by (rule bio_relD(5) [OF r])
    qed
  qed
  ultimately show ?thesis using inv' sk sd unfolding bio_rel_def by blast
qed

lemma blist_content_upd:
  assumes "blist bs xs" and "i < NBUF" and "b_next b = b_next (bs ! i)" and "b_prev b = b_prev (bs ! i)"
  shows "blist (bs[i := b]) xs"
proof -
  have "links (bs[i := b]) bhead xs bhead = links bs bhead xs bhead"
    using assms by (intro links_cong) (auto simp: nth_list_update blist_def)
  then show ?thesis using assms by (simp add: blist_def)
qed

section \<open>Running the driver\<close>

lemma iderw_read:
  assumes "klocks c = []" and "running c" and "slk_mine (SL_slot i) c" and "i < length (bufs c)" and b: "b = bufs c ! i"
    and "\<not> valid b" and "\<not> dirty b" and "b_dev b = 1" and "b_blockno b < disksize c"
  shows "iderw i c = Ok () (c\<lparr>bufs := (bufs c)[i := b\<lparr>b_data := memdisk c (b_blockno b), b_flags := b_flags b OR B_VALID\<rparr>]\<rparr>)"
  using assms by (auto simp: iderw_def kok slk_mine_def upd_buf_def valid_def dirty_def flag_bits not_le)

lemma iderw_write:
  assumes "klocks c = []" and "running c" and "slk_mine (SL_slot i) c" and "i < length (bufs c)" and b: "b = bufs c ! i"
    and "dirty b" and "b_dev b = 1" and "b_blockno b < disksize c"
  shows "iderw i c = Ok () (c\<lparr>bufs := (bufs c)[i := b\<lparr>b_flags := (b_flags b AND NOT B_DIRTY) OR B_VALID\<rparr>],
      memdisk := (memdisk c)(b_blockno b := b_data b), dtrace := dtrace c @ [(b_blockno b, b_data b)]\<rparr>)"
  using assms by (auto simp: iderw_def kok slk_mine_def upd_buf_def valid_def dirty_def flag_bits not_le)

lemma iderw_range:
  assumes "klocks c = []" and "running c" and "slk_mine (SL_slot i) c" and b: "b = bufs c ! i"
    and "\<not> valid b" and "b_dev b = 1" and "disksize c \<le> b_blockno b"
  shows "iderw i c = Panic ''iderw: block out of range''"
  using assms holdingsleep_run [of c "SL_slot i"]
  by (simp add: iderw_def bindK_def kdefs valid_def flag_bits)

section \<open>The operations implement the contract\<close>

definition buf_sim :: "bkey \<Rightarrow> nat \<Rightarrow> bkey \<Rightarrow> 'a biost_scheme \<Rightarrow> 'b bufst_scheme \<Rightarrow> bool" where
  "buf_sim k i k' c a \<longleftrightarrow> k' = k \<and> cached c k i \<and> valid (bufs c ! i) \<and> slk_mine (SL_slot i) c \<and> bio_rel c a"

text \<open>After \<^verbatim>\<open>bget\<close> has taken the buffer and its lock, with the block valid or read in.\<close>

lemma bread_step:
  assumes r: "bio_rel c a" and i: "i < NBUF" and lt: "b < disksize c"
    and c1: "c1 = c\<lparr>bufs := (bufs c)[i := x], sleeplocks := (sleeplocks c)(SL_slot i := \<lparr>slk_locked = True, slk_pid = mypid c\<rparr>)\<rparr>"
    and x: "b_dev x = 1" "b_blockno x = b" "b_next x = b_next (bufs c ! i)" "b_prev x = b_prev (bufs c ! i)"
      "valid x" "unat (b_refcnt x) = Suc (count_list (bheld a) (1, b))" "dirty x = ((1, b) \<in> set (bdirty a))" "b_data x = bmem a (1, b)"
    and key: "cached c (1, b) i \<or> (\<forall>j. \<not> cached c (1, b) j) \<and> \<not> inuse (bufs c ! i)"
  shows "buf_sim (1, b) i (1, b) c1 (a\<lparr>bheld := (1, b) # bheld a,
     sleeplocks := (sleeplocks a)(SL_buf 1 b := \<lparr>slk_locked = True, slk_pid = mypid a\<rparr>)\<rparr>)"
proof -
  obtain xs where bl: "blist (bufs c) xs" using bio_relD(1) [OF r] by (auto simp: bio_inv_def)
  have len: "length (bufs c) = NBUF + 1" using bl by (simp add: blist_def)
  let ?a = "a\<lparr>bheld := (1, b) # bheld a, sleeplocks := (sleeplocks a)(SL_buf 1 b := \<lparr>slk_locked = True, slk_pid = mypid a\<rparr>)\<rparr>"
  have pid: "mypid a = mypid c" by (rule same_kernel_pid(1) [OF bio_relD(2) [OF r]])
  have nz: "b_refcnt x \<noteq> 0" using x(6) by auto
  have "bio_rel c1 ?a"
  proof (rule bio_rel_slot [OF r i])
    show "blist (bufs c1) xs" using blist_content_upd [OF bl i x(3,4)] by (simp add: c1)
    show "bcontent (bufs c1 ! j) = bcontent (bufs c ! j) \<and> sleeplocks c1 (SL_slot j) = sleeplocks c (SL_slot j)" if "j < NBUF" "j \<noteq> i" for j
      using that by (simp add: c1)
    show "x = bufs c1 ! i" using i len by (simp add: c1)
    show "same_kernel c1 ?a" using bio_relD(2) [OF r] by (simp add: same_kernel_def c1 running_def)
    show "same_disk c1 ?a" using bio_relD(3) [OF r] by (simp add: same_disk_def c1)
    show "agree_except (buf_key x) a ?a" using x(1,2) by (auto simp: agree_except_def)
    show "buf_rel x (sleeplocks c1 (SL_slot i)) ?a" using x nz pid by (simp add: buf_rel_def Let_def c1 inuse_def)
  qed (use x lt key nz in \<open>simp_all add: c1\<close>)
  then show ?thesis using i len x(1,2,5) by (simp add: buf_sim_def cached_def c1 slk_mine_def mypid_def)
qed

lemma bread_locked:
  assumes "klocks a = []" and "running a" and "(1, b) \<in> set (binuse a) \<or> length (binuse a) < NBUF"
    and "slk_locked (sleeplocks a (SL_buf 1 b))"
  shows "\<exists>a'. bread 1 b a = Switch a'"
proof -
  let ?t = "a\<lparr>bheld := (1, b) # bheld a\<rparr>"
  have "\<exists>a'. acquiresleep (SL_buf 1 b) ?t = Switch a'"
    using assms by (intro acquiresleep_locked) (simp_all add: running_def)
  then show ?thesis using assms(1,3)
    by (auto simp: bread_def thenK_def bindK_def acquire_def release_def kdefs klocks_self binuse_def)
qed

lemma bio_bread_cached:
  assumes r: "bio_rel c a" and hn: "length (bheld a) < 2 ^ 32 - 1" and i: "cached c (1, b) i"
  shows "out_sim (buf_sim (1, b)) (bio_bread 1 b c) (bread 1 b a)"
proof -
  obtain xs where bl: "blist (bufs c) xs" using bio_relD(1) [OF r] by (auto simp: bio_inv_def)
  have len: "length (bufs c) = NBUF + 1" using bl by (simp add: blist_def)
  have kl: "klocks c = []" "klocks a = []" "running c" "running a"
    using bio_relD(2) [OF r] same_kernel_pid(2) [OF bio_relD(2) [OF r]] by (auto simp: same_kernel_def)
  define x where "x = bufs c ! i"
  have ix: "i < NBUF" "b_dev x = 1" "b_blockno x = b" using i by (auto simp: cached_def x_def)
  have ok: "buf_ok c i" using bio_relD(1) [OF r] ix(1) by (simp add: bio_inv_def)
  have lt: "b < disksize c" "dirty x \<longrightarrow> valid x" using ok ix by (auto simp: buf_ok_def x_def Let_def)
  have br: "buf_rel x (sleeplocks c (SL_slot i)) a" using bio_relD(4) [OF r i] by (simp add: x_def)
  have lk: "sleeplocks a (SL_buf 1 b) = sleeplocks c (SL_slot i)" and cnt: "unat (b_refcnt x) = count_list (bheld a) (1, b)"
    and dt: "dirty x = ((1, b) \<in> set (bdirty a))" and dv: "valid x \<longrightarrow> b_data x = bmem a (1, b)" and dn: "\<not> valid x \<longrightarrow> bmem a (1, b) = bdisk a (1, b)"
    using br ix by (auto simp: buf_rel_def Let_def)
  define y where "y = x\<lparr>b_refcnt := b_refcnt x + 1\<rparr>"
  define c0 where "c0 = c\<lparr>bufs := (bufs c)[i := y]\<rparr>"
  have get: "bget 1 b c = bindK (acquiresleep (SL_slot i)) (\<lambda>_. retK i) c0"
    using bget_cached [OF bl kl(1) i bio_relD(1) [OF r]] by (simp add: c0_def y_def x_def)
  have room: "(1, b) \<in> set (binuse a) \<or> length (binuse a) < NBUF"
  proof (cases "inuse x")
    case True
    then have "(1, b) \<in> set (binuse a)" unfolding binuse_card(1) [OF r] using ix by (intro image_eqI [of _ _ i]) (auto simp: x_def)
    then show ?thesis ..
  next
    case False
    then show ?thesis using unused_card [OF ix(1), of c] unfolding binuse_card(2) [OF r] by (simp add: x_def)
  qed
  show ?thesis
  proof (cases "slk_locked (sleeplocks c (SL_slot i))")
    case True
    then have "\<exists>s. acquiresleep (SL_slot i) c0 = Switch s"
      using kl by (intro acquiresleep_locked) (simp_all add: c0_def running_def)
    then have "\<exists>s. bio_bread 1 b c = Switch s" by (auto simp: bio_bread_def get bindK_def)
    moreover have "\<exists>s. bread 1 b a = Switch s" using kl room True lk by (intro bread_locked) simp_all
    ultimately show ?thesis by auto
  next
    case False
    define c1 where "c1 = c0\<lparr>sleeplocks := (sleeplocks c)(SL_slot i := \<lparr>slk_locked = True, slk_pid = mypid c\<rparr>)\<rparr>"
    have "acquiresleep (SL_slot i) c0 = Ok () c1"
      using kl False by (subst acquiresleep_free) (simp_all add: c0_def c1_def running_def mypid_def)
    then have g: "bget 1 b c = Ok i c1" by (simp add: get bindK_def kdefs)
    have bi: "bufs c1 ! i = y" using ix len by (simp add: c1_def c0_def)
    define z where "z = (if valid x then y else y\<lparr>b_data := memdisk c b, b_flags := b_flags x OR B_VALID\<rparr>)"
    have "bio_bread 1 b c = Ok i (c1\<lparr>bufs := (bufs c)[i := z]\<rparr>)"
    proof (cases "valid x")
      case True
      then show ?thesis
        by (simp add: bio_bread_def bindK_def g kdefs bfield_def bi z_def y_def valid_def) (simp add: c1_def c0_def y_def)
    next
      case nv: False
      have "iderw i c1 = Ok () (c1\<lparr>bufs := (bufs c)[i := z]\<rparr>)"
        using iderw_read [of c1 i y] kl ix len lt nv bi
        by (simp add: z_def y_def valid_def dirty_def c1_def c0_def slk_mine_def running_def mypid_def)
      then show ?thesis using nv by (simp add: bio_bread_def bindK_def g kdefs bfield_def bi y_def valid_def)
    qed
    moreover have "c1\<lparr>bufs := (bufs c)[i := z]\<rparr> =
        c\<lparr>bufs := (bufs c)[i := z], sleeplocks := (sleeplocks c)(SL_slot i := \<lparr>slk_locked = True, slk_pid = mypid c\<rparr>)\<rparr>"
      by (simp add: c1_def c0_def)
    moreover have "bread 1 b a = Ok (1, b) (a\<lparr>bheld := (1, b) # bheld a,
        sleeplocks := (sleeplocks a)(SL_buf 1 b := \<lparr>slk_locked = True, slk_pid = mypid a\<rparr>)\<rparr>)"
      using kl room False lk lt(1) bio_relD(3) [OF r] by (simp add: bread_Ok same_disk_def)
    moreover have "buf_sim (1, b) i (1, b) (c\<lparr>bufs := (bufs c)[i := z], sleeplocks := (sleeplocks c)(SL_slot i := \<lparr>slk_locked = True, slk_pid = mypid c\<rparr>)\<rparr>)
       (a\<lparr>bheld := (1, b) # bheld a, sleeplocks := (sleeplocks a)(SL_buf 1 b := \<lparr>slk_locked = True, slk_pid = mypid a\<rparr>)\<rparr>)"
    proof (rule bread_step [OF r ix(1) lt(1) refl])
      have "unat (b_refcnt x + 1) = Suc (count_list (bheld a) (1, b))"
        using cnt hn count_le_length [of "bheld a" "(1, b)"] unat_add_noovf [of "b_refcnt x" 1] by simp
      then show "unat (b_refcnt z) = Suc (count_list (bheld a) (1, b))" by (simp add: z_def y_def)
      show "b_data z = bmem a (1, b)" using dv dn bio_relD(3) [OF r] by (simp add: z_def y_def same_disk_def)
      show "dirty z = ((1, b) \<in> set (bdirty a))" using dt by (simp add: z_def y_def dirty_def flag_bits)
      show "valid z" by (auto simp: z_def y_def valid_def flag_bits)
    qed (use ix i in \<open>simp_all add: z_def y_def x_def\<close>)
    ultimately show ?thesis by simp
  qed
qed

lemma bio_bread_recycle:
  assumes r: "bio_rel c a" and n: "\<forall>i. \<not> cached c (1, b) i"
  shows "out_sim (buf_sim (1, b)) (bio_bread 1 b c) (bread 1 b a)"
proof -
  obtain xs where bl: "blist (bufs c) xs" using bio_relD(1) [OF r] by (auto simp: bio_inv_def)
  have len: "length (bufs c) = NBUF + 1" and xs: "set xs = {0..<NBUF}" using bl by (auto simp: blist_def)
  have kl: "klocks c = []" "klocks a = []" "running c" "running a"
    using bio_relD(2) [OF r] same_kernel_pid(2) [OF bio_relD(2) [OF r]] by (auto simp: same_kernel_def)
  have idle: "blk_idle a (1, b)" by (rule bio_relD(5) [OF r n])
  let ?P = "\<lambda>j. b_refcnt (bufs c ! j) = 0 \<and> b_flags (bufs c ! j) AND B_DIRTY = 0"
  have P: "?P j \<longleftrightarrow> \<not> inuse (bufs c ! j)" for j by (auto simp: inuse_def dirty_def)
  show ?thesis
  proof (cases "find ?P (rev xs)")
    case None
    then have "\<forall>j < NBUF. inuse (bufs c ! j)" using xs P by (auto simp: find_None_iff)
    then have "{j. j < NBUF \<and> inuse (bufs c ! j)} = {0..<NBUF}" by auto
    then have "length (binuse a) = NBUF" unfolding binuse_card(2) [OF r] by simp
    moreover have "(1, b) \<notin> set (binuse a)" using idle by (simp add: blk_idle_def binuse_def)
    ultimately have "bread 1 b a = Panic ''bget: no buffers''"
      using kl by (simp add: bread_def kdefs acquire_def binuse_def)
    moreover have "bio_bread 1 b c = Panic ''bget: no buffers''"
      using bget_recycle [OF bl kl(1) n None] by (simp add: bio_bread_def bindK_def)
    ultimately show ?thesis by simp
  next
    case (Some i)
    then have i: "i < NBUF" "\<not> inuse (bufs c ! i)" using find_SomeD [OF Some] P xs by simp_all
    define y where "y = (bufs c ! i)\<lparr>b_dev := 1, b_blockno := b, b_flags := 0, b_refcnt := 1\<rparr>"
    define c0 where "c0 = c\<lparr>bufs := (bufs c)[i := y]\<rparr>"
    define c1 where "c1 = c0\<lparr>sleeplocks := (sleeplocks c)(SL_slot i := \<lparr>slk_locked = True, slk_pid = mypid c\<rparr>)\<rparr>"
    have "buf_ok c i" using bio_relD(1) [OF r] i(1) by (simp add: bio_inv_def)
    then have ul: "\<not> slk_locked (sleeplocks c (SL_slot i))" using i(2) by (simp add: buf_ok_def inuse_def Let_def)
    have "acquiresleep (SL_slot i) c0 = Ok () c1"
      using kl ul by (subst acquiresleep_free) (simp_all add: c0_def c1_def running_def mypid_def)
    then have g: "bget 1 b c = Ok i c1"
      using bget_recycle [OF bl kl(1) n Some] by (simp add: bindK_def kdefs c0_def y_def)
    have bi: "bufs c1 ! i = y" "\<not> valid y" "\<not> dirty y" using i(1) len by (simp_all add: c1_def c0_def y_def valid_def dirty_def)
    have mine: "klocks c1 = []" "running c1" "slk_mine (SL_slot i) c1" "i < length (bufs c1)" "disksize c1 = disksize c"
      using kl i len by (simp_all add: c1_def c0_def running_def slk_mine_def mypid_def)
    have bd: "bdisksize a = disksize c" using bio_relD(3) [OF r] by (simp add: same_disk_def)
    have room: "length (binuse a) < NBUF" unfolding binuse_card(2) [OF r] by (rule unused_card [OF i])
    have la: "\<not> slk_locked (sleeplocks a (SL_buf 1 b))" using idle by (simp add: blk_idle_def)
    show ?thesis
    proof (cases "b < disksize c")
      case True
      define z where "z = y\<lparr>b_data := memdisk c b, b_flags := B_VALID\<rparr>"
      have "iderw i c1 = Ok () (c\<lparr>bufs := (bufs c)[i := z], sleeplocks := (sleeplocks c)(SL_slot i := \<lparr>slk_locked = True, slk_pid = mypid c\<rparr>)\<rparr>)"
        using iderw_read [of c1 i y] mine bi True by (simp add: z_def) (simp add: y_def c1_def c0_def)
      then have "bio_bread 1 b c = Ok i (c\<lparr>bufs := (bufs c)[i := z], sleeplocks := (sleeplocks c)(SL_slot i := \<lparr>slk_locked = True, slk_pid = mypid c\<rparr>)\<rparr>)"
        using bi by (simp add: bio_bread_def bindK_def g kdefs bfield_def y_def)
      moreover have "bread 1 b a = Ok (1, b) (a\<lparr>bheld := (1, b) # bheld a,
          sleeplocks := (sleeplocks a)(SL_buf 1 b := \<lparr>slk_locked = True, slk_pid = mypid a\<rparr>)\<rparr>)"
        using kl room la True bd by (simp add: bread_Ok)
      moreover have "buf_sim (1, b) i (1, b) (c\<lparr>bufs := (bufs c)[i := z], sleeplocks := (sleeplocks c)(SL_slot i := \<lparr>slk_locked = True, slk_pid = mypid c\<rparr>)\<rparr>)
         (a\<lparr>bheld := (1, b) # bheld a, sleeplocks := (sleeplocks a)(SL_buf 1 b := \<lparr>slk_locked = True, slk_pid = mypid a\<rparr>)\<rparr>)"
      proof (rule bread_step [OF r i(1) True refl])
        show "unat (b_refcnt z) = Suc (count_list (bheld a) (1, b))" using idle by (simp add: z_def y_def blk_idle_def)
        show "b_data z = bmem a (1, b)" using idle bio_relD(3) [OF r] by (simp add: z_def y_def same_disk_def blk_idle_def)
        show "dirty z = ((1, b) \<in> set (bdirty a))"
          using idle flags_after_read(2) [of 0] by (simp add: z_def blk_idle_def dirty_def flag_bits)
        show "valid z" by (simp add: z_def valid_def B_VALID_def)
        show "cached c (1, b) i \<or> (\<forall>j. \<not> cached c (1, b) j) \<and> \<not> inuse (bufs c ! i)" using n i(2) by blast
      qed (simp_all add: z_def y_def)
      ultimately show ?thesis by simp
    next
      case False
      then have "iderw i c1 = Panic ''iderw: block out of range''"
        using iderw_range [of c1 i y] mine bi by (simp add: y_def)
      then have "bio_bread 1 b c = Panic ''iderw: block out of range''"
        using bi by (simp add: bio_bread_def bindK_def g kdefs bfield_def y_def)
      moreover have "bread 1 b a = Panic ''iderw: block out of range''"
      proof -
        have "acquiresleep (SL_buf 1 b) (a\<lparr>bheld := (1, b) # bheld a\<rparr>) = Ok () (a\<lparr>bheld := (1, b) # bheld a,
          sleeplocks := (sleeplocks a)(SL_buf 1 b := \<lparr>slk_locked = True, slk_pid = mypid a\<rparr>)\<rparr>)"
          using kl la by (subst acquiresleep_free) (simp_all add: running_def mypid_def)
        then show ?thesis using kl room False bd
          by (simp add: bread_def thenK_def bindK_def acquire_def release_def kdefs klocks_self binuse_def)
      qed
      ultimately show ?thesis by simp
    qed
  qed
qed

text \<open>(C13) \<^verbatim>\<open>bread\<close> of the cache implements \<open>bread\<close> of the contract: from related states both return the
  buffer of the block, locked and with its contents, in related states; or both sleep on its lock; or both panic
  with the same message (no free buffer, or a block beyond the disk).\<close>

theorem bio_bread_refines:
  assumes "bio_rel c a" and "length (bheld a) < 2 ^ 32 - 1"
  shows "out_sim (buf_sim (1, b)) (bio_bread 1 b c) (bread 1 b a)"
  using bio_bread_cached [OF assms] bio_bread_recycle [OF assms(1)] by blast

lemma flags_nz [simp]: "B_DIRTY \<noteq> 0" "B_VALID \<noteq> 0"
  by (simp_all add: B_DIRTY_def B_VALID_def)

lemma bwrite_kernel:
  assumes "bio_rel c a" and "cached c k i"
  shows "slk_mine (SL_slot i) c \<longleftrightarrow> slk_mine (SL_buf (fst k) (snd k)) a"
  using bio_relD(4) [OF assms] same_kernel_pid [OF bio_relD(2) [OF assms(1)]] assms(2)
  by (auto simp: slk_mine_def buf_rel_def cached_def Let_def)

text \<open>\<^verbatim>\<open>bwrite\<close> of the cache implements \<open>bwrite\<close> of the contract: it writes the contents of a
  held buffer to the disk, unpins it, and panics when the caller does not hold the buffer.\<close>

lemma bio_bwrite_refines:
  assumes r: "bio_rel c a" and i: "cached c k i" and v: "valid (bufs c ! i)"
  shows "out_sim (\<lambda>_ _. bio_rel) (bio_bwrite i c) (bwrite k a)"
proof -
  obtain xs where bl: "blist (bufs c) xs" using bio_relD(1) [OF r] by (auto simp: bio_inv_def)
  have len: "length (bufs c) = NBUF + 1" using bl by (simp add: blist_def)
  have kl: "klocks c = []" "klocks a = []" "running c" "running a"
    using bio_relD(2) [OF r] same_kernel_pid(2) [OF bio_relD(2) [OF r]] by (auto simp: same_kernel_def)
  define x where "x = bufs c ! i"
  have ix: "i < NBUF" "b_dev x = 1" "k = (1, b_blockno x)" using i by (auto simp: cached_def x_def)
  have "buf_ok c i" using bio_relD(1) [OF r] ix(1) by (simp add: bio_inv_def)
  then have lt: "b_blockno x < disksize c" using ix by (auto simp: buf_ok_def x_def Let_def)
  have br: "buf_rel x (sleeplocks c (SL_slot i)) a" using bio_relD(4) [OF r i] by (simp add: x_def)
  have dv: "b_data x = bmem a k" "unat (b_refcnt x) = count_list (bheld a) k" "sleeplocks a (SL_buf 1 (b_blockno x)) = sleeplocks c (SL_slot i)"
    using br v ix by (auto simp: buf_rel_def Let_def x_def)
  have mine: "slk_mine (SL_slot i) c \<longleftrightarrow> slk_mine (SL_buf (fst k) (snd k)) a" by (rule bwrite_kernel [OF r i])
  show ?thesis
  proof (cases "slk_mine (SL_slot i) c")
    case False
    then show ?thesis using mine kl by (simp add: bio_bwrite_def bwrite_def bindK_def holdingsleep_run kdefs)
  next
    case True
    define y where "y = x\<lparr>b_flags := b_flags x OR B_DIRTY\<rparr>"
    define z where "z = x\<lparr>b_flags := ((b_flags x OR B_DIRTY) AND NOT B_DIRTY) OR B_VALID\<rparr>"
    define c0 where "c0 = c\<lparr>bufs := (bufs c)[i := y]\<rparr>"
    define c' where "c' = c\<lparr>bufs := (bufs c)[i := z], memdisk := (memdisk c)(b_blockno x := b_data x), dtrace := dtrace c @ [(b_blockno x, b_data x)]\<rparr>"
    have "iderw i c0 = Ok () c'"
      using iderw_write [of c0 i y] kl ix len lt True
      by (simp add: c0_def c'_def y_def z_def running_def slk_mine_def mypid_def dirty_def flag_bits)
    then have run: "bio_bwrite i c = Ok () c'"
      using kl True by (simp add: bio_bwrite_def thenK_def bindK_def holdingsleep_run upd_buf_def kdefs c0_def y_def x_def)
    define a' where "a' = a\<lparr>bdisk := (bdisk a)(k := bmem a k), bdirty := removeAll k (bdirty a), wtrace := wtrace a @ [(k, bmem a k)]\<rparr>"
    have runa: "bwrite k a = Ok () a'" using kl True mine by (simp add: bwrite_Ok a'_def)
    have nd: "\<not> dirty z" "valid z" by (simp_all add: z_def dirty_def valid_def flag_bits bit_and_iff bit_not_iff bit_flag)
    have "bio_rel c' a'"
    proof (rule bio_rel_slot [OF r ix(1)])
      show "blist (bufs c') xs" using blist_content_upd [OF bl ix(1), of z] by (simp add: c'_def z_def x_def)
      show "bcontent (bufs c' ! j) = bcontent (bufs c ! j) \<and> sleeplocks c' (SL_slot j) = sleeplocks c (SL_slot j)" if "j < NBUF" "j \<noteq> i" for j
        using that by (simp add: c'_def)
      show "z = bufs c' ! i" using ix len by (simp add: c'_def)
      show "same_kernel c' a'" using bio_relD(2) [OF r] by (simp add: same_kernel_def c'_def a'_def running_def)
      show "same_disk c' a'" using bio_relD(3) [OF r] ix dv by (simp add: same_disk_def c'_def a'_def)
      show "agree_except (buf_key z) a a'" using ix by (auto simp: agree_except_def z_def a'_def)
      show "buf_rel z (sleeplocks c' (SL_slot i)) a'"
        using dv nd ix unfolding buf_rel_def Let_def by (simp add: z_def c'_def a'_def)
      have "slk_locked (sleeplocks c (SL_slot i))" using True by (simp add: slk_mine_def)
      then have "b_refcnt x \<noteq> 0" using \<open>buf_ok c i\<close> by (auto simp: buf_ok_def x_def Let_def)
      then show "b_refcnt z = 0 \<longrightarrow> \<not> slk_locked (sleeplocks c' (SL_slot i))" by (simp add: z_def)
    qed (use ix i lt nd in \<open>simp_all add: c'_def z_def x_def\<close>)
    then show ?thesis by (simp add: run runa)
  qed
qed

text \<open>\<^verbatim>\<open>brelse\<close> of the cache implements \<open>brelse\<close> of the contract for a buffer that the log has pinned
  or whose contents are those of the disk: it unlocks the buffer, wakes the waiters and drops one reference.
  Both panic when the caller does not hold the buffer.\<close>

lemma bio_brelse_refines:
  assumes r: "bio_rel c a" and i: "cached c k i" and clean: "k \<in> set (bdirty a) \<or> bmem a k = bdisk a k"
  shows "out_sim (\<lambda>_ _. bio_rel) (bio_brelse i c) (brelse k a)"
proof -
  obtain xs where bl: "blist (bufs c) xs" using bio_relD(1) [OF r] by (auto simp: bio_inv_def)
  have len: "length (bufs c) = NBUF + 1" using bl by (simp add: blist_def)
  have kl: "klocks c = []" "klocks a = []" "running c" "running a"
    using bio_relD(2) [OF r] same_kernel_pid(2) [OF bio_relD(2) [OF r]] by (auto simp: same_kernel_def)
  define x where "x = bufs c ! i"
  have ix: "i < NBUF" "b_dev x = 1" "k = (1, b_blockno x)" using i by (auto simp: cached_def x_def)
  have ok: "buf_ok c i" using bio_relD(1) [OF r] ix(1) by (simp add: bio_inv_def)
  have br: "buf_rel x (sleeplocks c (SL_slot i)) a" using bio_relD(4) [OF r i] by (simp add: x_def)
  have mine: "slk_mine (SL_slot i) c \<longleftrightarrow> slk_mine (SL_buf (fst k) (snd k)) a" by (rule bwrite_kernel [OF r i])
  show ?thesis
  proof (cases "slk_mine (SL_slot i) c")
    case False
    then show ?thesis using mine kl by (simp add: bio_brelse_def brelse_def bindK_def holdingsleep_run kdefs)
  next
    case True
    then have nz: "b_refcnt x \<noteq> 0" using ok by (auto simp: buf_ok_def x_def Let_def slk_mine_def)
    let ?un = "\<lparr>slk_locked = False, slk_pid = 0\<rparr>"
    define y where "y = x\<lparr>b_refcnt := b_refcnt x - 1\<rparr>"
    define t1 where "t1 = c\<lparr>sleeplocks := (sleeplocks c)(SL_slot i := ?un), ptable := map (wake (Ch_sleep (SL_slot i))) (ptable c)\<rparr>"
    define u where "u = t1\<lparr>klocks := [L_bcache], bufs := (bufs c)[i := y]\<rparr>"
    have blu: "blist (bufs u) xs" using blist_content_upd [OF bl ix(1), of y] by (simp add: u_def y_def x_def)
    obtain bs' ys where mv: "whenK (b_refcnt y = 0) (bmove_front i) u = Ok () (u\<lparr>bufs := bs'\<rparr>)"
      and bl': "blist bs' ys" and bc: "\<And>j. bcontent (bs' ! j) = bcontent (bufs u ! j)"
    proof (cases "b_refcnt y = 0")
      case True
      then show thesis using bmove_front_run [OF blu ix(1)] that by (auto simp: whenK_def)
    next
      case False
      then show thesis using blu that [of "bufs u"] by (simp add: whenK_def kdefs)
    qed
    define c' where "c' = t1\<lparr>bufs := bs', klocks := []\<rparr>"
    have rel: "releasesleep (SL_slot i) c = Ok () t1" using kl by (simp add: releasesleep_Ok t1_def)
    have "u = t1\<lparr>klocks := [L_bcache], bufs := (bufs t1)[i := (bufs t1 ! i)\<lparr>b_refcnt := b_refcnt (bufs t1 ! i) - 1\<rparr>]\<rparr>"
       "bufs u ! i = y" "klocks t1 = []" using ix len kl by (simp_all add: u_def t1_def y_def x_def)
    then have run: "bio_brelse i c = Ok () c'"
      using kl True mv
      by (simp add: bio_brelse_def thenK_def bindK_def holdingsleep_run rel acquire_def release_def
          upd_buf_def bfield_def kdefs c'_def)
    define a' where "a' = a\<lparr>sleeplocks := (sleeplocks a)(SL_buf (fst k) (snd k) := ?un),
            ptable := map (wake (Ch_sleep (SL_buf (fst k) (snd k)))) (ptable a), bheld := remove1 k (bheld a)\<rparr>"
    have runa: "brelse k a = Ok () a'" using kl True mine by (simp add: brelse_Ok a'_def)
    define z where "z = bs' ! i"
    have zc: "bcontent z = bcontent y" using bc [of i] ix len by (simp add: z_def u_def)
    note zy = bcontentD [OF zc]
    have "bio_rel c' a'"
    proof (rule bio_rel_slot [OF r ix(1)])
      show "blist (bufs c') ys" using bl' by (simp add: c'_def)
      show "bcontent (bufs c' ! j) = bcontent (bufs c ! j) \<and> sleeplocks c' (SL_slot j) = sleeplocks c (SL_slot j)" if "j < NBUF" "j \<noteq> i" for j
        using that bc [of j] by (simp add: c'_def t1_def u_def)
      show "z = bufs c' ! i" by (simp add: c'_def z_def)
      show "same_kernel c' a'" using bio_relD(2) [OF r] wake_pids by (simp add: same_kernel_def c'_def a'_def t1_def running_def)
      show "same_disk c' a'" using bio_relD(3) [OF r] by (simp add: same_disk_def c'_def a'_def t1_def)
      show "agree_except (buf_key z) a a'" using ix zy by (auto simp: agree_except_def y_def a'_def)
      show "buf_rel z (sleeplocks c' (SL_slot i)) a'"
      proof -
        have cnt: "unat (b_refcnt x) = count_list (bheld a) k" and "dirty x = (k \<in> set (bdirty a))"
          "valid x \<longrightarrow> b_data x = bmem a k" "\<not> valid x \<longrightarrow> bmem a k = bdisk a k"
          using br ix by (auto simp: buf_rel_def Let_def)
        moreover have "unat (b_refcnt x - 1) = count_list (remove1 k (bheld a)) k"
          using cnt nz by (simp add: unat_minus_one count_list_remove1)
        ultimately have "buf_rel y ?un a'"
          using ix clean unfolding buf_rel_def Let_def by (auto simp: y_def a'_def inuse_def dirty_def valid_def)
        then show ?thesis using bcontentD(7) [OF zc, of ?un a'] by (simp add: c'_def t1_def)
      qed
    qed (use ix i ok zy in \<open>auto simp add: c'_def t1_def y_def x_def buf_ok_def Let_def valid_def dirty_def\<close>)
    then show ?thesis by (simp add: run runa)
  qed
qed

text \<open>What the clients do to a buffer they hold.\<close>

lemma client_step:
  assumes r: "bio_rel c a" and i: "cached c k i" and h: "slk_mine (SL_slot i) c"
    and y: "y = (bufs c ! i)\<lparr>b_flags := f, b_data := d\<rparr>" "dirty y \<longrightarrow> valid y"
    and a': "a' = a\<lparr>bmem := m, bdirty := ds\<rparr>" "\<forall>k'. k' \<noteq> k \<longrightarrow> m k' = bmem a k' \<and> (k' \<in> set ds \<longleftrightarrow> k' \<in> set (bdirty a))"
    and br: "buf_rel y (sleeplocks c (SL_slot i)) a'"
  shows "bio_rel (c\<lparr>bufs := (bufs c)[i := y]\<rparr>) a'"
proof -
  obtain xs where bl: "blist (bufs c) xs" using bio_relD(1) [OF r] by (auto simp: bio_inv_def)
  have len: "length (bufs c) = NBUF + 1" using bl by (simp add: blist_def)
  have ix: "i < NBUF" "b_dev (bufs c ! i) = 1" "k = buf_key (bufs c ! i)" using i by (auto simp: cached_def)
  have ok: "buf_ok c i" using bio_relD(1) [OF r] ix(1) by (simp add: bio_inv_def)
  show ?thesis
  proof (rule bio_rel_slot [OF r ix(1)])
    show "blist (bufs (c\<lparr>bufs := (bufs c)[i := y]\<rparr>)) xs" using blist_content_upd [OF bl ix(1), of y] by (simp add: y)
    show "y = bufs (c\<lparr>bufs := (bufs c)[i := y]\<rparr>) ! i" using ix len by simp
    show "same_kernel (c\<lparr>bufs := (bufs c)[i := y]\<rparr>) a'" using bio_relD(2) [OF r] by (simp add: same_kernel_def a' running_def)
    show "same_disk (c\<lparr>bufs := (bufs c)[i := y]\<rparr>) a'" using bio_relD(3) [OF r] by (simp add: same_disk_def a')
    show "agree_except (buf_key y) a a'" using a'(2) ix y(1) by (simp add: agree_except_def a'(1))
    show "b_blockno y < disksize c" using ok ix y(1) by (auto simp: buf_ok_def Let_def)
    show "b_refcnt y = 0 \<longrightarrow> \<not> slk_locked (sleeplocks (c\<lparr>bufs := (bufs c)[i := y]\<rparr>) (SL_slot i))"
      using ok y(1) by (simp add: buf_ok_def Let_def)
    show "cached c (buf_key y) i \<or> (\<forall>j. \<not> cached c (buf_key y) j) \<and> \<not> inuse (bufs c ! i)" using i ix y(1) by simp
  qed (use y ix br in simp_all)
qed

text \<open>Writing the data of a held buffer and pinning it with \<^verbatim>\<open>B_DIRTY\<close>, as the clients of the cache do
  directly on \<^verbatim>\<open>struct buf\<close>, implement \<open>set_bdata\<close> and \<open>set_dirty\<close> of the contract.\<close>

lemma bio_client_refines:
  assumes r: "bio_rel c a" and i: "cached c k i" and h: "slk_mine (SL_slot i) c" and v: "valid (bufs c ! i)"
  shows "out_sim (\<lambda>_ _. bio_rel) (bio_set_data i d c) (set_bdata k d a) \<and>
         out_sim (\<lambda>_ _. bio_rel) (bio_set_dirty i c) (set_dirty k a)"
proof -
  let ?x = "bufs c ! i"
  have br: "buf_rel ?x (sleeplocks c (SL_slot i)) a" by (rule bio_relD(4) [OF r i])
  have k: "k = buf_key ?x" "i < NBUF" using i by (auto simp: cached_def)
  have "buf_ok c i" using bio_relD(1) [OF r] k(2) by (simp add: bio_inv_def)
  then have nz: "b_refcnt ?x \<noteq> 0" using h by (auto simp: buf_ok_def Let_def slk_mine_def)
  let ?y = "?x\<lparr>b_data := d\<rparr>" and ?z = "?x\<lparr>b_flags := b_flags ?x OR B_DIRTY\<rparr>"
  have vd: "valid ?y" "valid ?z" "dirty ?z" "dirty ?y = dirty ?x" using v by (simp_all add: valid_def dirty_def flag_bits)
  have "bio_rel (c\<lparr>bufs := (bufs c)[i := ?y]\<rparr>) (a\<lparr>bmem := (bmem a)(k := d)\<rparr>)"
  proof (rule client_step [OF r i h])
    show "?y = ?x\<lparr>b_flags := b_flags ?x, b_data := d\<rparr>" by simp
    show "a\<lparr>bmem := (bmem a)(k := d)\<rparr> = a\<lparr>bmem := (bmem a)(k := d), bdirty := bdirty a\<rparr>" by simp
    show "buf_rel ?y (sleeplocks c (SL_slot i)) (a\<lparr>bmem := (bmem a)(k := d)\<rparr>)"
      using br vd nz k(1) unfolding buf_rel_def Let_def inuse_def by simp
  qed (use vd in auto)
  moreover have "bio_rel (c\<lparr>bufs := (bufs c)[i := ?z]\<rparr>) (a\<lparr>bdirty := List.insert k (bdirty a)\<rparr>)"
  proof (rule client_step [OF r i h])
    show "?z = ?x\<lparr>b_flags := b_flags ?x OR B_DIRTY, b_data := b_data ?x\<rparr>" by simp
    show "a\<lparr>bdirty := List.insert k (bdirty a)\<rparr> = a\<lparr>bmem := bmem a, bdirty := List.insert k (bdirty a)\<rparr>" by simp
    show "buf_rel ?z (sleeplocks c (SL_slot i)) (a\<lparr>bdirty := List.insert k (bdirty a)\<rparr>)"
      using br vd nz v k(1) unfolding buf_rel_def Let_def inuse_def by simp
  qed (use vd in auto)
  ultimately show ?thesis
    by (simp add: bio_set_data_def bio_set_dirty_def set_bdata_def set_dirty_def upd_buf_def modK_def)
qed

section \<open>The cache at boot\<close>

lemma binit_rel:
  assumes len: "length (bufs s) = NBUF + 1" and z: "\<forall>i < NBUF. bcontent (bufs s ! i) = (0, 0, 0, 0, d0 i)"
    and k: "klocks s = []" "running s"
    and a: "klocks a = []" "cur a = cur s" "map p_pid (ptable a) = map p_pid (ptable s)" "bmem a = bdisk a" "bheld a = []" "bdirty a = []"
      "bdisksize a = disksize s" "\<forall>b. bdisk a (1, b) = memdisk s b" "wtrace a = map (\<lambda>(b, d). ((1, b), d)) (dtrace s)"
      "\<forall>d b. \<not> slk_locked (sleeplocks a (SL_buf d b))"
  shows "\<exists>s'. binit s = Ok () s' \<and> bio_rel s' a"
proof -
  obtain s' where s': "binit s = Ok () s'" "blist (bufs s') (rev [0..<NBUF])" "\<forall>j. bcontent (bufs s' ! j) = bcontent (bufs s ! j)"
     "\<forall>j < NBUF. \<not> slk_locked (sleeplocks s' (SL_slot j))" "klocks s' = klocks s" "ptable s' = ptable s" "cur s' = cur s"
     "memdisk s' = memdisk s" "disksize s' = disksize s" "dtrace s' = dtrace s"
    using binit_run [OF len] by blast
  have f: "b_dev (bufs s' ! i) = 0" "b_refcnt (bufs s' ! i) = 0" "b_flags (bufs s' ! i) = 0" if "i < NBUF" for i
    using s'(3) z that by (auto simp: bcontent_def)
  have nc: "\<not> cached s' k i" for k i using f by (auto simp: cached_def)
  have "bio_inv s'"
    unfolding bio_inv_def using s'(2,4) f by (auto simp: buf_ok_def Let_def valid_def dirty_def)
  moreover have "same_kernel s' a" using s' k a by (simp add: same_kernel_def running_def)
  moreover have "same_disk s' a" using s' a by (simp add: same_disk_def)
  moreover have "blk_idle a k" for k using a by (simp add: blk_idle_def)
  ultimately have "bio_rel s' a" using nc unfolding bio_rel_def by blast
  then show ?thesis using s'(1) by blast
qed
text \<open>\<^verbatim>\<open>binit\<close> on the zeroed \<^verbatim>\<open>bcache\<close> of the kernel image returns a cache that implements the
  contract with no buffer in use: every block has its contents on the disk.\<close>

lemma binit_establishes:
  assumes len: "length (bufs s) = NBUF + 1" and z: "\<forall>i < NBUF. bcontent (bufs s ! i) = (0, 0, 0, 0, d0 i)"
    and k: "klocks s = []" "running s"
    and a: "klocks a = []" "cur a = cur s" "map p_pid (ptable a) = map p_pid (ptable s)" "bmem a = bdisk a" "bheld a = []" "bdirty a = []"
      "bdisksize a = disksize s" "\<forall>b. bdisk a (1, b) = memdisk s b" "wtrace a = map (\<lambda>(b, d). ((1, b), d)) (dtrace s)"
      "\<forall>d b. \<not> slk_locked (sleeplocks a (SL_buf d b))"
  shows "\<exists>s'. binit s = Ok () s' \<and> bio_rel s' a"
  using assms by (rule binit_rel)

definition boot_bio :: biost where
  "boot_bio = \<lparr>klocks = [], ptable = [zero_proc\<lparr>p_pid := 1, p_state := RUNNING\<rparr>], cur = Some 0,
     sleeplocks = (\<lambda>_. \<lparr>slk_locked = False, slk_pid = 0\<rparr>),
     bufs = replicate (NBUF + 1) \<lparr>b_flags = 0, b_dev = 0, b_blockno = 0, b_refcnt = 0, b_prev = 0, b_next = 0, b_data = (\<lambda>_. 0)\<rparr>,
     memdisk = (\<lambda>_ _. 0), disksize = 1000, dtrace = []\<rparr>"

definition boot_buf :: bufst where
  "boot_buf = \<lparr>klocks = [], ptable = [zero_proc\<lparr>p_pid := 1, p_state := RUNNING\<rparr>], cur = Some 0,
     sleeplocks = (\<lambda>_. \<lparr>slk_locked = False, slk_pid = 0\<rparr>),
     bmem = (\<lambda>_ _. 0), bdisk = (\<lambda>_ _. 0), bheld = [], bdirty = [], bdisksize = 1000, wtrace = []\<rparr>"

lemma boot_rel: "\<exists>c. binit boot_bio = Ok () c \<and> bio_rel c boot_buf"
  by (rule binit_rel [where ?d0.0 = "\<lambda>_ _. 0"]) (simp_all add: boot_bio_def boot_buf_def running_def bcontent_def del: replicate.simps)

text \<open>A buffer that has been read, in both models.\<close>

lemma boot_read:
  "\<exists>c i c' a'. binit boot_bio = Ok () c \<and> bio_bread 1 5 c = Ok i c' \<and> bread 1 5 boot_buf = Ok (1, 5) a' \<and>
     cached c' (1, 5) i \<and> valid (bufs c' ! i) \<and> slk_mine (SL_slot i) c' \<and> bio_rel c' a' \<and> bmem a' = bdisk a'"
proof -
  obtain c where c: "binit boot_bio = Ok () c" "bio_rel c boot_buf" using boot_rel by blast
  have "out_sim (buf_sim (1, 5)) (bio_bread 1 5 c) (bread 1 5 boot_buf)"
    using bio_bread_cached [OF c(2), of 5] bio_bread_recycle [OF c(2), of 5] by (auto simp: boot_buf_def)
  moreover obtain a' where "bread 1 5 boot_buf = Ok (1, 5) a'" "bmem a' = bdisk a'"
    by (auto simp: boot_buf_def bread_Ok running_def binuse_def NBUF_def)
  ultimately show ?thesis using c(1) by (cases "bio_bread 1 5 c") (auto simp: buf_sim_def)
qed

theorem bio_bread_refines_witness:
  "\<exists>c. binit boot_bio = Ok () c \<and> out_sim (buf_sim (1, 7)) (bio_bread 1 7 c) (bread 1 7 boot_buf)"
proof -
  obtain c where "binit boot_bio = Ok () c" "bio_rel c boot_buf" using boot_rel by blast
  then show ?thesis using bio_bread_refines [of c boot_buf 7] by (auto simp: boot_buf_def)
qed

end
