(* ===== verification/Ide.thy ===== *)
theory Ide
  imports Bio "HOL-Library.Sublist"
begin

text \<open>
  The disk driver \<^verbatim>\<open>kernel/ide.c\<close>: requests wait in a queue linked through \<^verbatim>\<open>qnext\<close>; the first one is with the
  drive, and the interrupt handler finishes it and starts the next. The lemmas show that the queue is first in, first
  out, that the drive always works on the buffer at its front, and that every waiting process is woken with its buffer done.

  The drive is reached through ports. What the driver writes to them is recorded in \<open>ide_ports\<close>; the status register
  gives the values of \<open>ide_status\<close>, one after the other; what the drive delivers is a function of all that was written.
\<close>

section \<open>State and ports\<close>

datatype port_op = Outb nat uchar | Outsl nat block

record idest = biost +
  idequeue :: "nat option"
  qnext :: "nat \<Rightarrow> nat option"
  havedisk1 :: bool
  ide_ports :: "port_op list"
  ide_status :: "nat \<Rightarrow> uchar"
  ide_pos :: nat

definition IDE_BSY :: uchar where "IDE_BSY = 0x80"
definition IDE_DRDY :: uchar where "IDE_DRDY = 0x40"
definition IDE_DF :: uchar where "IDE_DF = 0x20"
definition IDE_ERR :: uchar where "IDE_ERR = 0x01"
definition IDE_CMD_READ :: uchar where "IDE_CMD_READ = 0x20"
definition IDE_CMD_WRITE :: uchar where "IDE_CMD_WRITE = 0x30"

definition outb :: "nat \<Rightarrow> uchar \<Rightarrow> ('a idest_scheme, unit) kfun" where
  "outb port v = modK (\<lambda>s. s\<lparr>ide_ports := ide_ports s @ [Outb port v]\<rparr>)"

definition outsl :: "nat \<Rightarrow> block \<Rightarrow> ('a idest_scheme, unit) kfun" where
  "outsl port d = modK (\<lambda>s. s\<lparr>ide_ports := ide_ports s @ [Outsl port d]\<rparr>)"

text \<open>\<^verbatim>\<open>inb(0x1f7)\<close>.\<close>

definition inb_status :: "('a idest_scheme, uchar) kfun" where
  "inb_status =
     bindK (getK (\<lambda>s. ide_status s (ide_pos s))) (\<lambda>r.
     thenK (modK (\<lambda>s. s\<lparr>ide_pos := ide_pos s + 1\<rparr>)) (
     retK r))"

section \<open>The driver\<close>

definition ide_ready :: "uchar \<Rightarrow> bool" where
  "ide_ready r \<longleftrightarrow> r AND (IDE_BSY OR IDE_DRDY) = IDE_DRDY"

text \<open>The position of the first status that ends the loop of \<^verbatim>\<open>idewait\<close>; the loop runs on while there is none.\<close>

partial_function (option) idewait_loop :: "(nat \<Rightarrow> uchar) \<Rightarrow> nat \<Rightarrow> nat option" where
  "idewait_loop st k = (if ide_ready (st k) then Some k else idewait_loop st (k + 1))"

definition idewait :: "bool \<Rightarrow> ('a idest_scheme, int) kfun" where
  "idewait checkerr =
     bindK (getK (\<lambda>s. (ide_status s, idewait_loop (ide_status s) (ide_pos s)))) (\<lambda>(st, j).
     case j of None \<Rightarrow> undefK | Some k \<Rightarrow>
     thenK (modK (\<lambda>s. s\<lparr>ide_pos := k + 1\<rparr>)) (
     retK (if checkerr \<and> st k AND (IDE_DF OR IDE_ERR) \<noteq> 0 then -1 else 0)))"

fun ideinit_probe :: "nat \<Rightarrow> ('a idest_scheme, unit) kfun" where
  "ideinit_probe 0 = retK ()"
| "ideinit_probe (Suc k) =
     bindK inb_status (\<lambda>r.
     if r \<noteq> 0 then modK (\<lambda>s. s\<lparr>havedisk1 := True\<rparr>) else ideinit_probe k)"

definition ideinit :: "('a idest_scheme, unit) kfun" where
  "ideinit =
     bindK (idewait False) (\<lambda>_.
     thenK (outb 0x1f6 (0xe0 OR push_bit 4 1)) (
     thenK (ideinit_probe 1000) (
     outb 0x1f6 (0xe0 OR push_bit 4 0))))"

text \<open>A block is one sector, so the driver uses the commands for single sectors.\<close>

definition idestart :: "nat option \<Rightarrow> ('a idest_scheme, unit) kfun" where
  "idestart p =
     (case p of None \<Rightarrow> panic ''idestart'' | Some i \<Rightarrow>
      bindK (getK (\<lambda>s. bufs s ! i)) (\<lambda>b.
      if b_blockno b \<ge> of_nat FSSIZE then panic ''incorrect blockno'' else
      let sector = b_blockno b in
      bindK (idewait False) (\<lambda>_.
      thenK (outb 0x3f6 0) (
      thenK (outb 0x1f2 1) (
      thenK (outb 0x1f3 (ucast (sector AND 0xff))) (
      thenK (outb 0x1f4 (ucast (drop_bit 8 sector AND 0xff))) (
      thenK (outb 0x1f5 (ucast (drop_bit 16 sector AND 0xff))) (
      thenK (outb 0x1f6 (ucast (0xe0 OR push_bit 4 (b_dev b AND 1) OR (drop_bit 24 sector AND 0x0f)))) (
      if b_flags b AND B_DIRTY \<noteq> 0 then
        thenK (outb 0x1f7 IDE_CMD_WRITE) (
        outsl 0x1f0 (b_data b))
      else outb 0x1f7 IDE_CMD_READ)))))))))"

text \<open>The end of a request: the data is read if needed. The parameter \<open>drive\<close> is what the drive delivers to \<^verbatim>\<open>insl\<close>.\<close>

definition ide_finish :: "(port_op list \<Rightarrow> block) \<Rightarrow> nat \<Rightarrow> ('a idest_scheme, unit) kfun" where
  "ide_finish drive i =
     bindK (bfield b_flags i) (\<lambda>f.
     bindK (if f AND B_DIRTY = 0 then idewait True else retK (-1)) (\<lambda>r.
     thenK (whenK (r \<ge> 0) (
       bindK (getK (\<lambda>s. drive (ide_ports s))) (\<lambda>d.
       upd_buf i (\<lambda>b. b\<lparr>b_data := d\<rparr>)))) (
     thenK (upd_buf i (\<lambda>b. b\<lparr>b_flags := b_flags b OR B_VALID\<rparr>)) (
     thenK (upd_buf i (\<lambda>b. b\<lparr>b_flags := b_flags b AND NOT B_DIRTY\<rparr>)) (
     wakeup (Ch_buf i))))))"

definition ideintr :: "(port_op list \<Rightarrow> block) \<Rightarrow> ('a idest_scheme, unit) kfun" where
  "ideintr drive =
     thenK (acquire L_ide) (
     bindK (getK idequeue) (\<lambda>q.
     case q of
       None \<Rightarrow> release L_ide
     | Some i \<Rightarrow>
         thenK (modK (\<lambda>s. s\<lparr>idequeue := qnext s i\<rparr>)) (
         thenK (ide_finish drive i) (
         bindK (getK idequeue) (\<lambda>q.
         thenK (whenK (q \<noteq> None) (idestart q)) (
         release L_ide))))))"

text \<open>The loop of \<^verbatim>\<open>iderw\<close> to the end of the queue: the buffer whose \<^verbatim>\<open>qnext\<close> is null.\<close>

partial_function (option) ide_last :: "(nat \<Rightarrow> nat option) \<Rightarrow> nat \<Rightarrow> nat option" where
  "ide_last qn i = (case qn i of None \<Rightarrow> Some i | Some j \<Rightarrow> ide_last qn j)"

definition ide_append :: "nat \<Rightarrow> ('a idest_scheme, unit) kfun" where
  "ide_append i =
     thenK (modK (\<lambda>s. s\<lparr>qnext := (qnext s)(i := None)\<rparr>)) (
     bindK (getK (\<lambda>s. (idequeue s, qnext s))) (\<lambda>(q, qn).
     case q of
       None \<Rightarrow> modK (\<lambda>s. s\<lparr>idequeue := Some i\<rparr>)
     | Some h \<Rightarrow>
         (case ide_last qn h of
            None \<Rightarrow> undefK
          | Some t \<Rightarrow> modK (\<lambda>s. s\<lparr>qnext := (qnext s)(t := Some i)\<rparr>))))"

text \<open>The loop that waits for the request; a process that is woken goes through it again.\<close>

definition iderw_wait :: "nat \<Rightarrow> ('a idest_scheme, unit) kfun" where
  "iderw_wait i =
     bindK (bfield b_flags i) (\<lambda>f.
     if f AND (B_VALID OR B_DIRTY) \<noteq> B_VALID then sleep (Ch_buf i) L_ide
     else release L_ide)"

definition ide_rw :: "nat \<Rightarrow> ('a idest_scheme, unit) kfun" where
  "ide_rw i =
     bindK (holdingsleep (SL_slot i)) (\<lambda>h.
     if \<not> h then panic ''iderw: buf not locked'' else
     bindK (getK (\<lambda>s. (bufs s ! i, havedisk1 s))) (\<lambda>(b, d1).
     if b_flags b AND (B_VALID OR B_DIRTY) = B_VALID then panic ''iderw: nothing to do'' else
     if b_dev b \<noteq> 0 \<and> \<not> d1 then panic ''iderw: ide disk 1 not present'' else
     thenK (acquire L_ide) (
     thenK (ide_append i) (
     bindK (getK idequeue) (\<lambda>q.
     thenK (whenK (q = Some i) (idestart q)) (
     iderw_wait i))))))"

section \<open>The queue\<close>

fun qchain :: "(nat \<Rightarrow> nat option) \<Rightarrow> nat option \<Rightarrow> nat list \<Rightarrow> bool" where
  "qchain qn p [] \<longleftrightarrow> p = None"
| "qchain qn p (i # is) \<longleftrightarrow> p = Some i \<and> qchain qn (qn i) is"

lemma qchain_cong: "(\<And>i. i \<in> set q \<Longrightarrow> qn' i = qn i) \<Longrightarrow> qchain qn' p q = qchain qn p q"
  by (induction q arbitrary: p) auto

lemma ide_last_chain: "qchain qn (Some h) q \<Longrightarrow> ide_last qn h = Some (last q)"
proof (induction q arbitrary: h)
  case (Cons i q)
  show ?case
  proof (cases q)
    case Nil
    then show ?thesis using Cons.prems by (subst ide_last.simps) simp
  next
    case (Cons j q')
    then show ?thesis using Cons.prems Cons.IH [of j] by (subst ide_last.simps) simp
  qed
qed simp

lemma qchain_snoc:
  assumes "qchain qn p q" and "q \<noteq> []" and "distinct (q @ [i])" and "qn i = None"
  shows "qchain (qn(last q := Some i)) p (q @ [i])"
  using assms
proof (induction q arbitrary: p)
  case (Cons j q)
  show ?case
  proof (cases "q = []")
    case True
    then show ?thesis using Cons.prems by auto
  next
    case False
    then have "j \<noteq> last q" using Cons.prems(3) by auto
    then show ?thesis using Cons False by auto
  qed
qed simp

text \<open>What the driver writes to the ports for a request.\<close>

definition request :: "buf \<Rightarrow> port_op list" where
  "request b =
     [Outb 0x3f6 0, Outb 0x1f2 1, Outb 0x1f3 (ucast (b_blockno b AND 0xff)), Outb 0x1f4 (ucast (drop_bit 8 (b_blockno b) AND 0xff)),
      Outb 0x1f5 (ucast (drop_bit 16 (b_blockno b) AND 0xff)),
      Outb 0x1f6 (ucast (0xe0 OR push_bit 4 (b_dev b AND 1) OR (drop_bit 24 (b_blockno b) AND 0x0f)))] @
     (if b_flags b AND B_DIRTY \<noteq> 0 then [Outb 0x1f7 IDE_CMD_WRITE, Outsl 0x1f0 (b_data b)] else [Outb 0x1f7 IDE_CMD_READ])"

definition requestable :: "buf \<Rightarrow> bool" where
  "requestable b \<longleftrightarrow> b_flags b AND (B_VALID OR B_DIRTY) \<noteq> B_VALID \<and> b_blockno b < of_nat FSSIZE"

definition done_buf :: "buf \<Rightarrow> bool" where
  "done_buf b \<longleftrightarrow> b_flags b AND (B_VALID OR B_DIRTY) = B_VALID"

text \<open>The queue \<open>q\<close>; its first buffer is the one whose request was last written to the drive.\<close>

definition ide_inv :: "'a idest_scheme \<Rightarrow> nat list \<Rightarrow> bool" where
  "ide_inv s q \<longleftrightarrow> qchain (qnext s) (idequeue s) q \<and> distinct q \<and>
     (\<forall>i \<in> set q. i < length (bufs s) \<and> requestable (bufs s ! i)) \<and>
     (q \<noteq> [] \<longrightarrow> suffix (request (bufs s ! hd q)) (ide_ports s))"

definition drive_live :: "'a idest_scheme \<Rightarrow> bool" where
  "drive_live s \<longleftrightarrow> (\<forall>k. \<exists>j \<ge> k. ide_ready (ide_status s j))"

lemma idewait_loop_ends: "k \<le> j \<Longrightarrow> ide_ready (st j) \<Longrightarrow> \<exists>i. idewait_loop st k = Some i"
proof (induction "j - k" arbitrary: k)
  case 0
  then show ?case by (subst idewait_loop.simps) simp
next
  case (Suc n)
  then show ?case by (subst idewait_loop.simps) auto
qed

lemma idewait_run:
  assumes "drive_live s"
  obtains k r where "idewait e s = Ok r (s\<lparr>ide_pos := k\<rparr>)"
proof -
  obtain k where "idewait_loop (ide_status s) (ide_pos s) = Some k"
    using assms idewait_loop_ends [of "ide_pos s" _ "ide_status s"] by (auto simp: drive_live_def)
  then have "idewait e s = Ok (if e \<and> ide_status s k AND (IDE_DF OR IDE_ERR) \<noteq> 0 then -1 else 0) (s\<lparr>ide_pos := k + 1\<rparr>)"
    by (simp add: idewait_def kdefs)
  then show thesis by (rule that)
qed

lemma idestart_run:
  assumes "drive_live s" and "b_blockno (bufs s ! i) < of_nat FSSIZE"
  obtains k where "idestart (Some i) s = Ok () (s\<lparr>ide_pos := k, ide_ports := ide_ports s @ request (bufs s ! i)\<rparr>)"
proof -
  obtain k r where "idewait False s = Ok r (s\<lparr>ide_pos := k\<rparr>)" using idewait_run [OF assms(1)] .
  then have "idestart (Some i) s = Ok () (s\<lparr>ide_pos := k, ide_ports := ide_ports s @ request (bufs s ! i)\<rparr>)"
    using assms(2) by (simp add: idestart_def outb_def outsl_def request_def kdefs Let_def not_le)
  then show thesis by (rule that)
qed

lemma ide_append_run:
  assumes "qchain (qnext s) (idequeue s) q" and "distinct (q @ [i])"
  obtains h qn where "ide_append i s = Ok () (s\<lparr>idequeue := h, qnext := qn\<rparr>)" and "qchain qn h (q @ [i])"
proof (cases q)
  case Nil
  then have "ide_append i s = Ok () (s\<lparr>idequeue := Some i, qnext := (qnext s)(i := None)\<rparr>)"
    using assms(1) by (simp add: ide_append_def kdefs)
  then show thesis using that Nil by simp
next
  case (Cons j q')
  let ?qn = "(qnext s)(i := None)"
  have "qchain ?qn (idequeue s) q = qchain (qnext s) (idequeue s) q" by (rule qchain_cong) (use assms(2) in auto)
  then have c: "qchain ?qn (idequeue s) q" using assms(1) by simp
  have h: "idequeue s = Some j" using assms(1) Cons by simp
  then have l: "ide_last ?qn j = Some (last q)" using ide_last_chain [of ?qn j q] c by simp
  have "qchain (?qn(last q := Some i)) (idequeue s) (q @ [i])" by (rule qchain_snoc [OF c _ assms(2)]) (simp_all add: Cons)
  moreover have "ide_append i s = Ok () (s\<lparr>idequeue := idequeue s, qnext := ?qn(last q := Some i)\<rparr>)"
    using h l by (simp add: ide_append_def kdefs)
  ultimately show thesis using that by blast
qed

text \<open>A request: the buffer joins the queue, its request is written when it is the only one, and the process sleeps.\<close>

lemma ide_rw_effect:
  assumes inv: "ide_inv s q" and live: "drive_live s" and i: "i \<notin> set q" "i < length (bufs s)" "requestable (bufs s ! i)"
    and d: "b_dev (bufs s ! i) = 0 \<or> havedisk1 s" and mine: "slk_mine (SL_slot i) s"
    and cur: "klocks s = []" "cur s = Some p" "p < length (ptable s)"
  obtains s' where "ide_rw i s = Switch s'" and "ide_inv s' (q @ [i])" and "drive_live s'" and "bufs s' = bufs s"
    and "ptable s' = (ptable s)[p := (ptable s ! p)\<lparr>p_chan := Some (Ch_buf i), p_state := SLEEPING\<rparr>]"
    and "klocks s' = [L_ptable]" and "ide_ports s' = ide_ports s @ (if q = [] then request (bufs s ! i) else [])"
proof -
  have "running s" using cur by (auto simp: running_def)
  then have hold: "holdingsleep (SL_slot i) s = Ok True s" using holdingsleep_run [OF cur(1)] mine by simp
  let ?s0 = "s\<lparr>klocks := [L_ide]\<rparr>"
  have q: "qchain (qnext ?s0) (idequeue ?s0) q" "distinct (q @ [i])" using inv i(1) by (simp_all add: ide_inv_def)
  obtain h qn where a: "ide_append i ?s0 = Ok () (?s0\<lparr>idequeue := h, qnext := qn\<rparr>)" "qchain qn h (q @ [i])"
    using ide_append_run [OF q] .
  let ?s1 = "?s0\<lparr>idequeue := h, qnext := qn\<rparr>"
  have l1: "drive_live ?s1" using live by (simp add: drive_live_def)
  have h: "h = Some i \<longleftrightarrow> q = []" using a(2) i(1) by (cases q) auto
  obtain k where st: "idestart (Some i) ?s1 = Ok () (?s1\<lparr>ide_pos := k, ide_ports := ide_ports s @ request (bufs s ! i)\<rparr>)"
    using idestart_run [OF l1, of i] i(3) by (auto simp: requestable_def)
  define s2 where "s2 = (if q = [] then ?s1\<lparr>ide_pos := k, ide_ports := ide_ports s @ request (bufs s ! i)\<rparr> else ?s1)"
  have start: "whenK (h = Some i) (idestart h) ?s1 = Ok () s2" using st h by (auto simp: s2_def whenK_def retK_def)
  have s2: "bufs s2 = bufs s" "klocks s2 = [L_ide]" "cur s2 = Some p" "ptable s2 = ptable s" "qnext s2 = qn" "idequeue s2 = h"
      "ide_status s2 = ide_status s" "ide_ports s2 = ide_ports s @ (if q = [] then request (bufs s ! i) else [])"
    using cur by (simp_all add: s2_def)
  let ?s' = "s2\<lparr>klocks := [L_ptable], ptable := (ptable s)[p := (ptable s ! p)\<lparr>p_chan := Some (Ch_buf i), p_state := SLEEPING\<rparr>]\<rparr>"
  have "iderw_wait i s2 = Switch ?s'"
    using i(3) s2 cur(3) sleep_run [of s2 p L_ide "Ch_buf i"] by (simp add: iderw_wait_def bfield_def requestable_def kdefs)
  then have rw: "ide_rw i s = Switch ?s'"
    using hold d i(3) cur(1) a(1) start
    by (auto simp: ide_rw_def requestable_def acquire_def kdefs)
  have "hd (q @ [i]) = (if q = [] then i else hd q)" by simp
  then have "ide_inv ?s' (q @ [i])"
    using inv a(2) i q(2) s2 by (auto simp: ide_inv_def suffix_def)
  then show thesis using that [OF rw] s2 live by (simp add: drive_live_def)
qed

text \<open>An interrupt: the request at the front is done, its process is woken, and the next one is written to the drive.\<close>

lemma flags_after_intr: "done_buf (b\<lparr>b_flags := (f OR B_VALID) AND NOT B_DIRTY\<rparr>)"
  by (simp add: done_buf_def clean_flags bit_and_iff bit_or_iff bit_not_iff bit_flag)

lemma ide_finish_run:
  assumes live: "drive_live s" and lk: "L_ptable \<notin> set (klocks s)" and i: "i < length (bufs s)"
  obtains s' b where "ide_finish drive i s = Ok () s'" and "bufs s' = (bufs s)[i := b]" and "done_buf b"
    and "ptable s' = map (wake (Ch_buf i)) (ptable s)" and "klocks s' = klocks s" and "idequeue s' = idequeue s" and "qnext s' = qnext s"
    and "ide_status s' = ide_status s" and "ide_ports s' = ide_ports s"
proof -
  let ?b = "bufs s ! i"
  let ?fin = "\<lambda>b. b\<lparr>b_flags := (b_flags ?b OR B_VALID) AND NOT B_DIRTY\<rparr>"
  obtain k r where w: "idewait True s = Ok r (s\<lparr>ide_pos := k\<rparr>)" using idewait_run [OF live] .
  show thesis
  proof (cases "b_flags ?b AND B_DIRTY = 0 \<and> r \<ge> 0")
    case True
    have "ide_finish drive i s = Ok () (s\<lparr>ide_pos := k, bufs := (bufs s)[i := ?fin (?b\<lparr>b_data := drive (ide_ports s)\<rparr>)],
        ptable := map (wake (Ch_buf i)) (ptable s)\<rparr>)"
      using True w i lk by (simp add: ide_finish_def bfield_def upd_buf_def wakeup_run kdefs)
    then show thesis using that [OF _ _ flags_after_intr] by simp
  next
    case False
    show thesis
    proof (cases "b_flags ?b AND B_DIRTY = 0")
      case clean: True
      then have "ide_finish drive i s = Ok () (s\<lparr>ide_pos := k, bufs := (bufs s)[i := ?fin ?b], ptable := map (wake (Ch_buf i)) (ptable s)\<rparr>)"
        using False w i lk by (simp add: ide_finish_def bfield_def upd_buf_def wakeup_run kdefs)
      then show thesis using that [OF _ _ flags_after_intr] by simp
    next
      case dirty: False
      then have "ide_finish drive i s = Ok () (s\<lparr>bufs := (bufs s)[i := ?fin ?b], ptable := map (wake (Ch_buf i)) (ptable s)\<rparr>)"
        using i lk by (simp add: ide_finish_def bfield_def upd_buf_def wakeup_run kdefs)
      then show thesis using that [OF _ _ flags_after_intr] by simp
    qed
  qed
qed

lemma ideintr_effect:
  assumes inv: "ide_inv s (i # q)" and live: "drive_live s" and lk: "L_ide \<notin> set (klocks s)" "L_ptable \<notin> set (klocks s)"
  obtains s' b where "ideintr drive s = Ok () s'" and "ide_inv s' q" and "drive_live s'" and "klocks s' = klocks s"
    and "bufs s' = (bufs s)[i := b]" and "done_buf b" and "ptable s' = map (wake (Ch_buf i)) (ptable s)"
    and "ide_ports s' = ide_ports s @ (case q of [] \<Rightarrow> [] | j # _ \<Rightarrow> request (bufs s ! j))"
proof -
  let ?s0 = "s\<lparr>klocks := L_ide # klocks s, idequeue := qnext s i\<rparr>"
  have iq: "idequeue s = Some i" "qchain (qnext s) (qnext s i) q" "i < length (bufs s)" "i \<notin> set q" "distinct q"
    using inv by (auto simp: ide_inv_def)
  obtain s1 b where f: "ide_finish drive i ?s0 = Ok () s1" "bufs s1 = (bufs s)[i := b]" "done_buf b"
      "ptable s1 = map (wake (Ch_buf i)) (ptable s)" "klocks s1 = L_ide # klocks s" "idequeue s1 = qnext s i" "qnext s1 = qnext s"
      "ide_status s1 = ide_status s" "ide_ports s1 = ide_ports s"
    using ide_finish_run [of ?s0 i drive] live lk(2) iq(3) by (auto simp: drive_live_def)
  have keep: "bufs s1 ! j = bufs s ! j" if "j \<in> set q" for j using iq(4) f(2) that by (metis nth_list_update_neq)
  then have rq: "\<forall>j \<in> set q. j < length (bufs s1) \<and> requestable (bufs s1 ! j) \<and> bufs s1 ! j = bufs s ! j"
    using inv f(2) by (simp add: ide_inv_def)
  have live1: "drive_live s1" using live f(8) by (simp add: drive_live_def)
  show thesis
  proof (cases q)
    case Nil
    then have "qnext s i = None" using iq(2) by simp
    then have "ideintr drive s = Ok () (s1\<lparr>klocks := klocks s\<rparr>)"
      using iq(1) f lk by (simp add: ideintr_def acquire_def release_def kdefs)
    then show thesis using that [of "s1\<lparr>klocks := klocks s\<rparr>" b] Nil f iq(2) live1 by (simp add: ide_inv_def drive_live_def)
  next
    case (Cons j q')
    then have j: "qnext s i = Some j" "bufs s1 ! j = bufs s ! j" using iq(2) rq by auto
    obtain k where st: "idestart (Some j) s1 = Ok () (s1\<lparr>ide_pos := k, ide_ports := ide_ports s @ request (bufs s ! j)\<rparr>)"
      using idestart_run [OF live1, of j] rq f(9) j(2) Cons by (auto simp: requestable_def)
    let ?s' = "s1\<lparr>ide_pos := k, ide_ports := ide_ports s @ request (bufs s ! j), klocks := klocks s\<rparr>"
    have "ideintr drive s = Ok () ?s'"
      using iq(1) f st j lk by (simp add: ideintr_def acquire_def release_def kdefs)
    moreover have "ide_inv ?s' q" using iq(2,5) f(6,7) rq j Cons by (auto simp: ide_inv_def suffix_def)
    ultimately show thesis using that [of ?s' b] Cons f live1 by (simp add: drive_live_def)
  qed
qed

fun ide_irqs :: "(port_op list \<Rightarrow> block) \<Rightarrow> nat \<Rightarrow> ('a idest_scheme, unit) kfun" where
  "ide_irqs drive 0 = retK ()"
| "ide_irqs drive (Suc n) = thenK (ideintr drive) (ide_irqs drive n)"

lemma ide_irqs_effect:
  assumes "ide_inv s q" and "drive_live s" and "klocks s = []"
  shows "\<exists>s'. ide_irqs drive (length q) s = Ok () s' \<and> ide_inv s' [] \<and> (\<forall>i \<in> set q. done_buf (bufs s' ! i)) \<and>
    ptable s' = fold (\<lambda>i. map (wake (Ch_buf i))) q (ptable s) \<and>
    ide_ports s' = ide_ports s @ concat (map (\<lambda>i. request (bufs s ! i)) (tl q)) \<and> (\<forall>i. i \<notin> set q \<longrightarrow> bufs s' ! i = bufs s ! i)"
  using assms
proof (induction q arbitrary: s)
  case Nil
  then show ?case by (simp add: retK_def)
next
  case (Cons i q)
  obtain s1 b where e: "ideintr drive s = Ok () s1" "ide_inv s1 q" "drive_live s1" "klocks s1 = klocks s" "bufs s1 = (bufs s)[i := b]"
      "done_buf b" "ptable s1 = map (wake (Ch_buf i)) (ptable s)" "ide_ports s1 = ide_ports s @ (case q of [] \<Rightarrow> [] | j # _ \<Rightarrow> request (bufs s ! j))"
    using ideintr_effect [OF Cons.prems(1,2), of drive] Cons.prems(3) by auto
  obtain s' where s': "ide_irqs drive (length q) s1 = Ok () s'" "ide_inv s' []" "\<forall>i \<in> set q. done_buf (bufs s' ! i)"
      "ptable s' = fold (\<lambda>i. map (wake (Ch_buf i))) q (ptable s1)"
      "ide_ports s' = ide_ports s1 @ concat (map (\<lambda>i. request (bufs s1 ! i)) (tl q))" "\<forall>i. i \<notin> set q \<longrightarrow> bufs s' ! i = bufs s1 ! i"
    using Cons.IH [OF e(2,3)] e(4) Cons.prems(3) by auto
  have i: "i < length (bufs s)" "i \<notin> set q" using Cons.prems(1) by (auto simp: ide_inv_def)
  have keep: "bufs s1 ! j = bufs s ! j" if "j \<noteq> i" for j using e(5) that by (metis nth_list_update_neq)
  have m: "map (\<lambda>i. request (bufs s1 ! i)) js = map (\<lambda>i. request (bufs s ! i)) js" if "i \<notin> set js" for js
  proof (rule map_cong [OF refl])
    fix j assume "j \<in> set js"
    then have "j \<noteq> i" using that by auto
    then show "request (bufs s1 ! j) = request (bufs s ! j)" using keep by metis
  qed
  have "ide_ports s' = ide_ports s @ concat (map (\<lambda>i. request (bufs s ! i)) q)"
  proof (cases q)
    case (Cons j js)
    then have "i \<notin> set js" using i(2) by simp
    then show ?thesis unfolding s'(5) e(8) Cons list.sel m [OF \<open>i \<notin> set js\<close>] by simp
  qed (simp add: s'(5) e(8))
  moreover have "bufs s' ! i = b" using s'(6) i e(5) by simp
  ultimately show ?case using e s' i keep by (auto simp: kdefs)
qed

lemma fold_wake_length: "length (fold (\<lambda>i. map (wake (Ch_buf i))) q ps) = length ps"
  by (induction q arbitrary: ps) simp_all

lemma fold_wake_runnable:
  assumes "p < length ps" and "p_state (ps ! p) = RUNNABLE \<or> (p_state (ps ! p) = SLEEPING \<and> (\<exists>i \<in> set q. p_chan (ps ! p) = Some (Ch_buf i)))"
  shows "p_state (fold (\<lambda>i. map (wake (Ch_buf i))) q ps ! p) = RUNNABLE"
  using assms by (induction q arbitrary: ps) (auto simp: wake_def)

section \<open>Properties\<close>

text \<open>
  (C12) Every request to the disk is served, in its turn: a process that calls iderw while other requests wait sleeps; as
  many interrupts later as there are requests up to its own, its buffer is up to date, the process can run again and the
  queue is empty. The requests are written to the drive one at a time and in the order in which they were made, each
  after the interrupt for the one before it. (The queue's first request is with the drive already.)
\<close>
theorem ide_request_served:
  assumes "ide_inv s q" and "drive_live s" and "i \<notin> set q" and "i < length (bufs s)" and "requestable (bufs s ! i)"
    and "b_dev (bufs s ! i) = 0 \<or> havedisk1 s" and "slk_mine (SL_slot i) s"
    and "klocks s = []" and "cur s = Some p" and "p < length (ptable s)"
  shows "\<exists>s1 s2. ide_rw i s = Switch s1 \<and> p_state (ptable s1 ! p) = SLEEPING \<and>
    ide_irqs drive (length q + 1) (s1\<lparr>klocks := []\<rparr>) = Ok () s2 \<and> ide_inv s2 [] \<and> done_buf (bufs s2 ! i) \<and>
    p_state (ptable s2 ! p) = RUNNABLE \<and>
    ide_ports s2 = ide_ports s @ concat (map (\<lambda>j. request (bufs s ! j)) (if q = [] then [i] else tl q @ [i]))"
proof -
  obtain s1 where rw: "ide_rw i s = Switch s1" "ide_inv s1 (q @ [i])" "drive_live s1" "bufs s1 = bufs s"
      "ptable s1 = (ptable s)[p := (ptable s ! p)\<lparr>p_chan := Some (Ch_buf i), p_state := SLEEPING\<rparr>]"
      "ide_ports s1 = ide_ports s @ (if q = [] then request (bufs s ! i) else [])"
    using ide_rw_effect [OF assms] by metis
  let ?s1 = "s1\<lparr>klocks := []\<rparr>"
  have "ide_inv ?s1 (q @ [i])" "drive_live ?s1" using rw(2,3) by (simp_all add: ide_inv_def drive_live_def)
  then obtain s2 where irq: "ide_irqs drive (length (q @ [i])) ?s1 = Ok () s2" "ide_inv s2 []" "\<forall>j \<in> set (q @ [i]). done_buf (bufs s2 ! j)"
      "ptable s2 = fold (\<lambda>i. map (wake (Ch_buf i))) (q @ [i]) (ptable ?s1)"
      "ide_ports s2 = ide_ports ?s1 @ concat (map (\<lambda>i. request (bufs ?s1 ! i)) (tl (q @ [i])))"
    using ide_irqs_effect [of ?s1 "q @ [i]" drive] by auto
  have sl: "p_state (ptable s1 ! p) = SLEEPING" "p_chan (ptable s1 ! p) = Some (Ch_buf i)" "p < length (ptable s1)"
    using rw(5) assms(10) by simp_all
  have "p_state (ptable s2 ! p) = RUNNABLE" unfolding irq(4) by (rule fold_wake_runnable) (use sl in auto)
  then show ?thesis using rw irq sl by (cases q) auto
qed

definition ide_one :: idest where
  "ide_one = \<lparr>klocks = [], ptable = [zero_proc\<lparr>p_pid := 1, p_state := RUNNING\<rparr>], cur = Some 0,
     sleeplocks = (\<lambda>_. \<lparr>slk_locked = True, slk_pid = 1\<rparr>),
     bufs = replicate 3 \<lparr>b_flags = 0, b_dev = 1, b_blockno = 7, b_refcnt = 1, b_prev = 0, b_next = 0, b_data = (\<lambda>_. 0)\<rparr>,
     memdisk = (\<lambda>_ _. 0), disksize = 1000, dtrace = [],
     idequeue = None, qnext = (\<lambda>_. None), havedisk1 = True, ide_ports = [], ide_status = (\<lambda>_. 0x40), ide_pos = 0\<rparr>"

theorem ide_request_served_witness:
  "\<exists>s1 s2. ide_rw 1 ide_one = Switch s1 \<and> p_state (ptable s1 ! 0) = SLEEPING \<and>
    ide_irqs (\<lambda>_ _. 5) 1 (s1\<lparr>klocks := []\<rparr>) = Ok () s2 \<and> ide_inv s2 [] \<and> done_buf (bufs s2 ! 1) \<and> p_state (ptable s2 ! 0) = RUNNABLE \<and>
    ide_ports s2 = request (bufs ide_one ! 1)"
proof -
  have l: "drive_live ide_one" by (auto simp: drive_live_def ide_one_def ide_ready_def IDE_BSY_def IDE_DRDY_def)
  show ?thesis
    using ide_request_served [OF _ l, of "[]" 1 0 "\<lambda>_ _. 5"]
    by (simp add: ide_inv_def ide_one_def requestable_def FSSIZE_def slk_mine_def mypid_def B_VALID_def B_DIRTY_def)
qed

end
