(* ===== verification/Balloc.thy ===== *)
theory Balloc
  imports Log
begin

text \<open>
  The block allocator of \<^verbatim>\<open>kernel/fs.c\<close>: \<^verbatim>\<open>bzero\<close>, \<^verbatim>\<open>balloc\<close> and
  \<^verbatim>\<open>bfree\<close>, which keep one bit per disk block in the bitmap blocks.

  The theory shows that \<^verbatim>\<open>balloc\<close> returns a block of the disk that was free, zeroed and marked in use,
  that \<^verbatim>\<open>bfree\<close> makes exactly its argument free, and that neither touches any other block.
\<close>

section \<open>State\<close>

definition NINODE :: nat where "NINODE = 50"
definition NDEV :: int where "NDEV = 10"

text \<open>\<^verbatim>\<open>struct inode\<close> of \<^verbatim>\<open>kernel/file.h\<close>; the sleep lock of entry \<open>i\<close> of the cache is \<open>SL_inode i\<close>.\<close>

record inode =
  i_dev :: uint
  i_inum :: uint
  i_ref :: int
  i_valid :: bool
  i_type :: ushort
  i_major :: ushort
  i_minor :: ushort
  i_nlink :: ushort
  i_size :: uint
  i_addrs :: "uint list"

text \<open>The global \<^verbatim>\<open>sb\<close> and \<^verbatim>\<open>icache.inode\<close>.\<close>

record fsst = logst +
  sb :: superblock
  icache :: "inode list"

section \<open>Operations\<close>

definition bzero :: "uint \<Rightarrow> uint \<Rightarrow> ('a logst_scheme, unit) kfun" where
  "bzero dev bno =
     bindK (bread dev bno) (\<lambda>bp.
     bindK (bdata bp) (\<lambda>d.
     thenK (set_bdata bp (zero_range d 0 BSIZE)) (
     thenK (log_write bp) (
     brelse bp))))"

text \<open>The bit of a bitmap block: \<^verbatim>\<open>bp->data[bi/8] & (1 << (bi % 8))\<close>, and setting and clearing it.\<close>

definition bit_used :: "block \<Rightarrow> nat \<Rightarrow> bool" where
  "bit_used d bi \<longleftrightarrow> d (bi div 8) AND push_bit (bi mod 8) 1 \<noteq> 0"

definition mark_used :: "block \<Rightarrow> nat \<Rightarrow> block" where
  "mark_used d bi = d(bi div 8 := d (bi div 8) OR push_bit (bi mod 8) 1)"

definition mark_free :: "block \<Rightarrow> nat \<Rightarrow> block" where
  "mark_free d bi = d(bi div 8 := d (bi div 8) AND NOT (push_bit (bi mod 8) 1))"

text \<open>
  The outer loop runs over the first blocks \<open>b\<close> of the bitmap blocks, \<^verbatim>\<open>for(b = 0; b < sb.size; b += BPB)\<close>;
  the inner one looks for a clear bit.
\<close>

definition bitmap_bases :: "nat \<Rightarrow> nat list" where
  "bitmap_bases n = map (\<lambda>i. i * BPB) [0..<(n + BPB - 1) div BPB]"

fun balloc_loop :: "uint \<Rightarrow> nat list \<Rightarrow> ('a fsst_scheme, uint) kfun" where
  "balloc_loop dev [] = panic ''balloc: out of blocks''"
| "balloc_loop dev (b # bs) =
     bindK (getK sb) (\<lambda>sb.
     bindK (bread dev (BBLOCK (of_nat b) sb)) (\<lambda>bp.
     bindK (bdata bp) (\<lambda>d.
     case find (\<lambda>bi. \<not> bit_used d bi) [0..<min BPB (unat (sb_size sb) - b)] of
       Some bi \<Rightarrow>
         thenK (set_bdata bp (mark_used d bi)) (
         thenK (log_write bp) (
         thenK (brelse bp) (
         thenK (bzero dev (of_nat (b + bi))) (
         retK (of_nat (b + bi))))))
     | None \<Rightarrow>
         thenK (brelse bp) (
         balloc_loop dev bs))))"

definition balloc :: "uint \<Rightarrow> ('a fsst_scheme, uint) kfun" where
  "balloc dev =
     bindK (getK (\<lambda>s. unat (sb_size (sb s)))) (\<lambda>n.
     balloc_loop dev (bitmap_bases n))"

definition bfree :: "uint \<Rightarrow> uint \<Rightarrow> ('a fsst_scheme, unit) kfun" where
  "bfree dev b =
     bindK (getK sb) (\<lambda>sb.
     bindK (bread dev (BBLOCK b sb)) (\<lambda>bp.
     bindK (bdata bp) (\<lambda>d.
     let bi = unat b mod BPB in
     if \<not> bit_used d bi then panic ''freeing free block'' else
     thenK (set_bdata bp (mark_free d bi)) (
     thenK (log_write bp) (
     brelse bp)))))"

section \<open>Bits\<close>

lemma bit_used_bit: "bit_used d bi \<longleftrightarrow> bit (d (bi div 8)) (bi mod 8)"
  using and_exp_eq_0_iff_not_bit [of "d (bi div 8)" "bi mod 8"] by (simp add: bit_used_def push_bit_eq_mult)

lemma same_bit: "bi div 8 = bj div 8 \<Longrightarrow> bi mod 8 = bj mod 8 \<Longrightarrow> bi = (bj :: nat)"
  by (metis div_mult_mod_eq)

lemma byte_bit: "bit (push_bit (bi mod 8) 1 :: uchar) (bj mod 8) \<longleftrightarrow> bj mod 8 = bi mod 8"
proof -
  have "bit (2 ^ (bi mod 8) :: uchar) (bj mod 8) \<longleftrightarrow> bj mod 8 = bi mod 8"
    unfolding bit_exp_iff by auto
  then show ?thesis by (simp add: push_bit_eq_mult)
qed

lemma bit_used_mark_used: "bit_used (mark_used d bi) bj \<longleftrightarrow> bi = bj \<or> bit_used d bj"
  using byte_bit [of bi bj] by (auto simp: bit_used_bit mark_used_def bit_or_iff dest: same_bit)

lemma bit_used_mark_free: "bit_used (mark_free d bi) bj \<longleftrightarrow> bi \<noteq> bj \<and> bit_used d bj"
  using byte_bit [of bi bj] by (auto simp: bit_used_bit mark_free_def bit_and_iff bit_not_iff dest: same_bit)

section \<open>What the operations leave alone\<close>

definition fs_frame :: "'a fsst_scheme \<Rightarrow> 'a fsst_scheme \<Rightarrow> bool" where
  "fs_frame s s' \<longleftrightarrow> icache s' = icache s \<and> sb s' = sb s \<and> klocks s' = klocks s \<and> cur s' = cur s \<and>
     bdisk s' = bdisk s \<and> wtrace s' = wtrace s \<and> bdisksize s' = bdisksize s"

lemma fs_frame_refl [simp]: "fs_frame s s"
  by (simp add: fs_frame_def)

lemma fs_frame_trans: "fs_frame s t \<Longrightarrow> fs_frame t u \<Longrightarrow> fs_frame s u"
  by (simp add: fs_frame_def)

lemma fs_frame_sb: "fs_frame s s' \<Longrightarrow> sb s' = sb s \<and> icache s' = icache s"
  by (simp add: fs_frame_def)

definition blk_used :: "'a fsst_scheme \<Rightarrow> uint \<Rightarrow> bool" where
  "blk_used s b \<longleftrightarrow> bit_used (bmem s (1, BBLOCK b (sb s))) (unat b mod BPB)"

lemma bzero_effect:
  assumes "bzero dev b s = Ok r s'"
  shows "dev = 1 \<and> bmem s' = (bmem s)((1, b) := zero_range (bmem s (1, b)) 0 BSIZE) \<and> fs_frame s s'"
  using assms by (auto simp: bzero_def kok fs_frame_def)

section \<open>balloc\<close>

lemma BBLOCK_of_nat:
  assumes "n < 2 ^ 32"
  shows "BBLOCK (of_nat n) sp = of_nat (n div BPB) + sb_bmapstart sp"
proof -
  have "(of_nat n :: uint) div of_nat BPB = of_nat (n div BPB)"
    using assms by (simp add: word_arith_nat_div unat_of_nat_small BPB_def BSIZE_def)
  then show ?thesis by (simp add: BBLOCK_def)
qed

lemma BBLOCK_same:
  assumes "b + bi < 2 ^ 32" and "bi < BPB" and "b mod BPB = 0"
  shows "BBLOCK (of_nat (b + bi)) sp = BBLOCK (of_nat b) sp" and "(b + bi) mod BPB = bi"
proof -
  have d: "(b + bi) div BPB = b div BPB" using assms(2,3) by (auto simp: div_add1_eq)
  show "BBLOCK (of_nat (b + bi)) sp = BBLOCK (of_nat b) sp"
    using assms(1) BBLOCK_of_nat [of "b + bi" sp] BBLOCK_of_nat [of b sp] d by simp
  show "(b + bi) mod BPB = bi" using assms(2,3) by (metis add.left_neutral mod_add_left_eq mod_less)
qed

text \<open>Marking block \<open>a\<close> in the bitmap and zeroing it.\<close>

definition alloc_mem :: "'a fsst_scheme \<Rightarrow> uint \<Rightarrow> bkey \<Rightarrow> block" where
  "alloc_mem s a = (let m = (bmem s)((1, BBLOCK a (sb s)) := mark_used (bmem s (1, BBLOCK a (sb s))) (unat a mod BPB))
     in m((1, a) := zero_range (m (1, a)) 0 BSIZE))"

lemma balloc_loop_effect:
  assumes "balloc_loop dev bs s = Ok a s'" and "\<forall>b \<in> set bs. b mod BPB = 0"
  shows "dev = 1 \<and> unat a < unat (sb_size (sb s)) \<and> \<not> blk_used s a \<and> bmem s' = alloc_mem s a \<and> fs_frame s s'"
  using assms
proof (induction bs arbitrary: s)
  case Nil
  then show ?case by (simp add: kdefs)
next
  case (Cons b bs)
  let ?d = "bmem s (1, BBLOCK (of_nat b) (sb s))"
  let ?n = "unat (sb_size (sb s))"
  have lt: "?n < 2 ^ 32" using unat_lt_2p32 [of "sb_size (sb s)"] by simp
  show ?case
  proof (cases "find (\<lambda>bi. \<not> bit_used ?d bi) [0..<min BPB (?n - b)]")
    case None
    then obtain t where t3: "balloc_loop dev bs t = Ok a s'" and t: "bmem t = bmem s" "fs_frame s t" "dev = 1"
      using Cons.prems(1) by (auto simp: kok fs_frame_def)
    have "alloc_mem t a = alloc_mem s a" "blk_used t a = blk_used s a"
      using t(1,2) by (simp_all add: alloc_mem_def blk_used_def fs_frame_sb)
    then show ?thesis
      using Cons.IH [OF t3] Cons.prems(2) t(2) fs_frame_sb [OF t(2)] fs_frame_trans [OF t(2)] by auto
  next
    case (Some bi)
    then have bi: "bi < BPB" "b + bi < ?n" "\<not> bit_used ?d bi" using find_SomeD [OF Some] by auto
    have w: "unat (of_nat (b + bi) :: uint) = b + bi" using bi(2) lt by (intro unat_of_nat_small) simp
    have bb: "BBLOCK (of_nat (b + bi)) (sb s) = BBLOCK (of_nat b) (sb s)" "(b + bi) mod BPB = bi"
      using BBLOCK_same(1) [of b bi "sb s"] BBLOCK_same(2) [of b bi] bi lt Cons.prems(2) by auto
    obtain t where t4: "bzero dev a t = Ok () s'" and
        t: "bmem t = (bmem s)((1, BBLOCK (of_nat b) (sb s)) := mark_used ?d bi)" "fs_frame s t" "a = of_nat (b + bi)" "dev = 1"
      using Cons.prems(1) Some by (auto simp: kok fs_frame_def)
    have "bmem s' = alloc_mem s a" "fs_frame s s'"
      using bzero_effect [OF t4] t w bb fs_frame_trans by (auto simp: alloc_mem_def Let_def)
    moreover have "\<not> blk_used s a" using t(3) w bb bi(3) by (simp add: blk_used_def)
    ultimately show ?thesis using t(3,4) w bi(2) by simp
  qed
qed

lemma balloc_effect:
  assumes "balloc dev s = Ok a s'"
  shows "dev = 1 \<and> unat a < unat (sb_size (sb s)) \<and> \<not> blk_used s a \<and> bmem s' = alloc_mem s a \<and> fs_frame s s'"
proof -
  have "balloc_loop dev (bitmap_bases (unat (sb_size (sb s)))) s = Ok a s'" using assms by (simp add: balloc_def kok)
  then show ?thesis by (rule balloc_loop_effect) (auto simp: bitmap_bases_def)
qed

lemma bfree_effect:
  assumes "bfree dev b s = Ok r s'"
  shows "dev = 1 \<and> blk_used s b \<and> fs_frame s s' \<and>
    bmem s' = (bmem s)((1, BBLOCK b (sb s)) := mark_free (bmem s (1, BBLOCK b (sb s))) (unat b mod BPB))"
  using assms by (auto simp: bfree_def kok Let_def fs_frame_def blk_used_def split: if_splits)

lemma BBLOCK_unat: "BBLOCK b sp = of_nat (unat b div BPB) + sb_bmapstart sp"
  using BBLOCK_of_nat [of "unat b" sp] unat_lt_2p32 [of b] by simp

lemma bitmap_inj:
  assumes "BBLOCK b sp = BBLOCK c sp" and "unat b mod BPB = unat c mod BPB"
  shows "b = c"
proof -
  have "(of_nat (unat b div BPB) :: uint) = of_nat (unat c div BPB)" using assms(1) by (simp add: BBLOCK_unat)
  moreover have "unat x div BPB < 2 ^ 32" for x :: uint
    using le_less_trans [OF div_le_dividend unat_lt_2p32 [of x]] by simp
  ultimately have "unat b div BPB = unat c div BPB"
    using of_nat_uint_inj [of "unat b div BPB" "unat c div BPB"] by simp
  then have "unat b = unat c" using assms(2) by (metis div_mult_mod_eq)
  then show ?thesis by (simp add: word_unat_eq_iff)
qed

text \<open>The bitmap blocks themselves are in use.\<close>

definition bitmap_ok :: "'a fsst_scheme \<Rightarrow> bool" where
  "bitmap_ok s \<longleftrightarrow> (\<forall>b. unat b < unat (sb_size (sb s)) \<longrightarrow> blk_used s (BBLOCK b (sb s)))"

lemma balloc_used:
  assumes e: "balloc dev s = Ok a s'" and ok: "bitmap_ok s"
  shows "unat b < unat (sb_size (sb s)) \<Longrightarrow> blk_used s' b \<longleftrightarrow> b = a \<or> blk_used s b"
    and "bmem s' (1, a) = zero_range (bmem s (1, a)) 0 BSIZE"
    and "k \<noteq> (1, a) \<Longrightarrow> k \<noteq> (1, BBLOCK a (sb s)) \<Longrightarrow> bmem s' k = bmem s k"
    and "unat b < unat (sb_size (sb s)) \<Longrightarrow> BBLOCK b (sb s) \<noteq> a"
proof -
  have a: "unat a < unat (sb_size (sb s))" "\<not> blk_used s a" and m: "bmem s' = alloc_mem s a" and f: "fs_frame s s'"
    using balloc_effect [OF e] by auto
  have nb: "BBLOCK b (sb s) \<noteq> a" if "unat b < unat (sb_size (sb s))" for b
    using ok that a(2) by (metis bitmap_ok_def)
  have d: "bmem s' (1, BBLOCK b (sb s)) = (if BBLOCK b (sb s) = BBLOCK a (sb s)
      then mark_used (bmem s (1, BBLOCK a (sb s))) (unat a mod BPB) else bmem s (1, BBLOCK b (sb s)))"
    if "unat b < unat (sb_size (sb s))" for b
    using m nb [OF that] by (simp add: alloc_mem_def Let_def)
  show "blk_used s' b \<longleftrightarrow> b = a \<or> blk_used s b" if "unat b < unat (sb_size (sb s))"
  proof (cases "BBLOCK b (sb s) = BBLOCK a (sb s)")
    case True
    then have "blk_used s' b \<longleftrightarrow> unat a mod BPB = unat b mod BPB \<or> blk_used s b"
      using d [OF that] fs_frame_sb [OF f] by (simp add: blk_used_def bit_used_mark_used)
    then show ?thesis using bitmap_inj [OF True] by metis
  next
    case False
    then show ?thesis using d [OF that] fs_frame_sb [OF f] by (auto simp: blk_used_def)
  qed
  show "bmem s' (1, a) = zero_range (bmem s (1, a)) 0 BSIZE" using m nb [OF a(1)] by (simp add: alloc_mem_def Let_def)
  show "bmem s' k = bmem s k" if "k \<noteq> (1, a)" "k \<noteq> (1, BBLOCK a (sb s))" using m that by (simp add: alloc_mem_def Let_def)
  show "BBLOCK b (sb s) \<noteq> a" if "unat b < unat (sb_size (sb s))" by (rule nb [OF that])
qed

lemma bitmap_ok_mono:
  assumes "bitmap_ok s" and "sb s' = sb s" and "\<And>b. unat b < unat (sb_size (sb s)) \<Longrightarrow> blk_used s (BBLOCK b (sb s)) \<Longrightarrow> blk_used s' (BBLOCK b (sb s))"
  shows "bitmap_ok s'"
  using assms by (auto simp: bitmap_ok_def)

text \<open>(C19) \<^verbatim>\<open>balloc\<close> returns a block of the disk that the bitmap shows free, marks it in use and leaves every
  other bit of the bitmap as it was, fills the block with zeros, and changes no block but this one and its bitmap
  block. The bitmap must show its own blocks as in use, and still does afterwards.\<close>

theorem balloc_correct:
  assumes "balloc dev s = Ok a s'" and "bitmap_ok s" and "\<forall>b. unat b < unat (sb_size (sb s)) \<longrightarrow> unat (BBLOCK b (sb s)) < unat (sb_size (sb s))"
  shows "unat a < unat (sb_size (sb s)) \<and> \<not> blk_used s a \<and>
     (\<forall>b. unat b < unat (sb_size (sb s)) \<longrightarrow> (blk_used s' b \<longleftrightarrow> b = a \<or> blk_used s b)) \<and>
     (\<forall>i < BSIZE. bmem s' (1, a) i = 0) \<and>
     (\<forall>k. k \<noteq> (1, a) \<longrightarrow> k \<noteq> (1, BBLOCK a (sb s)) \<longrightarrow> bmem s' k = bmem s k) \<and> bitmap_ok s'"
proof -
  note u = balloc_used [OF assms(1,2)]
  have e: "unat a < unat (sb_size (sb s))" "\<not> blk_used s a" "sb s' = sb s" using balloc_effect [OF assms(1)] by (auto simp: fs_frame_def)
  have "bitmap_ok s'" by (rule bitmap_ok_mono [OF assms(2) e(3)]) (use u(1) assms(3) in blast)
  moreover have "\<forall>i < BSIZE. bmem s' (1, a) i = 0" using u(2) by (simp add: zero_range_def)
  ultimately show ?thesis using e u(1,3) by blast
qed

text \<open>\<^verbatim>\<open>bfree\<close> clears the bit of a block in use and nothing else; on a block that is already free it
  panics instead of corrupting the bitmap.\<close>

lemma bfree_correct:
  assumes "bfree dev b s = r"
  shows "(\<forall>s'. r = Ok () s' \<longrightarrow> blk_used s b \<and> (\<forall>c. blk_used s' c \<longleftrightarrow> c \<noteq> b \<and> blk_used s c) \<and>
            (\<forall>k. k \<noteq> (1, BBLOCK b (sb s)) \<longrightarrow> bmem s' k = bmem s k) \<and> icache s' = icache s) \<and>
         (\<not> blk_used s b \<longrightarrow> (\<forall>bp t. bread dev (BBLOCK b (sb s)) s = Ok bp t \<longrightarrow> r = Panic ''freeing free block''))"
proof (intro conjI allI impI)
  fix s' assume "r = Ok () s'"
  then have e: "bfree dev b s = Ok () s'" using assms by simp
  note f = bfree_effect [OF e]
  show "blk_used s b" "icache s' = icache s" using f by (auto simp: fs_frame_def)
  show "blk_used s' c \<longleftrightarrow> c \<noteq> b \<and> blk_used s c" for c
    using f bitmap_inj [of c "sb s" b] by (auto simp: blk_used_def fs_frame_def bit_used_mark_free)
  show "bmem s' k = bmem s k" if "k \<noteq> (1, BBLOCK b (sb s))" for k using f that by simp
next
  fix bp t assume "\<not> blk_used s b" and "bread dev (BBLOCK b (sb s)) s = Ok bp t"
  moreover from this(2) have "bmem t = bmem s" "bp = (1, BBLOCK b (sb s))" by (auto simp: bread_Ok)
  ultimately show "r = Panic ''freeing free block''"
    using assms by (auto simp: bfree_def bindK_def kdefs bdata_def blk_used_def Let_def)
qed

section \<open>A small file system\<close>

text \<open>A disk of 20 blocks: bitmap in block 5, blocks 0 to 8 in use, inodes in block 4, inside a transaction.\<close>

definition fs_one :: fsst where
  "fs_one = \<lparr>klocks = [], ptable = [zero_proc\<lparr>p_pid := 1, p_state := RUNNING\<rparr>], cur = Some 0,
     sleeplocks = (\<lambda>_. \<lparr>slk_locked = False, slk_pid = 0\<rparr>),
     bmem = (\<lambda>_ _. 0)((1, 5) := (\<lambda>p. if p = 0 then 255 else if p = 1 then 1 else 0)),
     bdisk = (\<lambda>_ _. 0), bheld = [], bdirty = [], bdisksize = 20, wtrace = [],
     log_start = 2, log_size = 30, log_outstanding = 1, log_committing = False, log_dev = 1, lh = [],
     sb = \<lparr>sb_size = 20, sb_nblocks = 14, sb_ninodes = 8, sb_nlog = 1, sb_logstart = 2, sb_inodestart = 4, sb_bmapstart = 5\<rparr>,
     icache = []\<rparr>"

lemma fs_one_bits: "bit_used (bmem fs_one (1, 5)) i \<longleftrightarrow> i < 9"
proof (cases "i < 16")
  case True
  then have "i \<in> {0, 1, 2, 3, 4, 5, 6, 7, 8, 9, 10, 11, 12, 13, 14, 15}" by (simp, presburger)
  then show ?thesis by (auto simp: bit_used_def fs_one_def)
next
  case False
  then have "i div 8 \<noteq> 0" "i div 8 \<noteq> 1" by auto
  then show ?thesis using False by (simp add: bit_used_def fs_one_def)
qed

lemma fs_one_BBLOCK: "unat b < 20 \<Longrightarrow> BBLOCK b (sb fs_one) = 5"
  by (simp add: BBLOCK_unat fs_one_def BPB_def BSIZE_def)

lemma fs_one_ok: "bitmap_ok fs_one"
proof -
  have "blk_used fs_one 5"
    using fs_one_BBLOCK [of 5] fs_one_bits [of 5] by (simp add: blk_used_def BPB_def BSIZE_def)
  then show ?thesis using fs_one_BBLOCK by (auto simp: bitmap_ok_def fs_one_def)
qed

lemma fs_one_balloc: "\<exists>s'. balloc 1 fs_one = Ok 9 s'"
proof -
  have b: "bitmap_bases 20 = [0]" by (simp add: bitmap_bases_def BPB_def BSIZE_def)
  have f: "find (\<lambda>bi. \<not> bi < 9) [0..<20] = Some (9 :: nat)" by (simp add: upt_rec)
  show ?thesis
    using fs_one_BBLOCK [of 0] fs_one_bits f
    by (simp add: balloc_def b kok) (simp add: fs_one_def kok bzero_def running_def slk_mine_def mypid_def binuse_def NBUF_def BPB_def BSIZE_def LOGSIZE_def MAXOPBLOCKS_def b absorb_def)
qed

theorem balloc_correct_witness:
  "\<exists>s'. balloc 1 fs_one = Ok 9 s' \<and> blk_used s' 9 \<and> bitmap_ok s'"
proof -
  obtain s' where e: "balloc 1 fs_one = Ok 9 s'" using fs_one_balloc by blast
  have "\<forall>b. unat b < unat (sb_size (sb fs_one)) \<longrightarrow> unat (BBLOCK b (sb fs_one)) < unat (sb_size (sb fs_one))"
    using fs_one_BBLOCK by (simp add: fs_one_def)
  then show ?thesis using balloc_correct [OF e fs_one_ok] e by (force simp: fs_one_def)
qed

end
