(* ===== verification/Inode.thy ===== *)
theory Inode
  imports Balloc
begin

text \<open>
  The inode layer of \<^verbatim>\<open>kernel/fs.c\<close>: the inode cache (\<^verbatim>\<open>iinit\<close> to \<^verbatim>\<open>iunlockput\<close>),
  the block map with its direct, indirect and double indirect blocks (\<^verbatim>\<open>bmap\<close>, \<^verbatim>\<open>itrunc\<close>) and
  file contents (\<^verbatim>\<open>stati\<close>, \<^verbatim>\<open>readi\<close>, \<^verbatim>\<open>writei\<close>).

  A pointer to an inode is an index into \<^verbatim>\<open>icache.inode\<close>.
\<close>

section \<open>The inode cache\<close>

definition iat :: "nat \<Rightarrow> ('a fsst_scheme, inode) kfun" where
  "iat ip = getK (\<lambda>s. icache s ! ip)"

definition upd_inode :: "nat \<Rightarrow> (inode \<Rightarrow> inode) \<Rightarrow> ('a fsst_scheme, unit) kfun" where
  "upd_inode ip f = modK (\<lambda>s. s\<lparr>icache := (icache s)[ip := f (icache s ! ip)]\<rparr>)"

definition iinit :: "uint \<Rightarrow> ('a fsst_scheme, unit) kfun" where
  "iinit dev =
     thenK (forK [0..<NINODE] (\<lambda>i. initsleeplock (SL_inode i))) (
     bindK (readsb dev) (\<lambda>b.
     modK (\<lambda>s. s\<lparr>sb := b\<rparr>)))"

definition iget :: "uint \<Rightarrow> uint \<Rightarrow> ('a fsst_scheme, nat) kfun" where
  "iget dev inum =
     thenK (acquire L_icache) (
     bindK (getK icache) (\<lambda>ic.
     case find (\<lambda>i. i_ref (ic ! i) > 0 \<and> i_dev (ic ! i) = dev \<and> i_inum (ic ! i) = inum) [0..<NINODE] of
       Some ip \<Rightarrow>
         thenK (upd_inode ip (\<lambda>x. x\<lparr>i_ref := i_ref x + 1\<rparr>)) (
         thenK (release L_icache) (
         retK ip))
     | None \<Rightarrow>
        (case find (\<lambda>i. i_ref (ic ! i) = 0) [0..<NINODE] of
           None \<Rightarrow> panic ''iget: no inodes''
         | Some ip \<Rightarrow>
             thenK (upd_inode ip (\<lambda>x. x\<lparr>i_dev := dev, i_inum := inum, i_ref := 1, i_valid := False\<rparr>)) (
             thenK (release L_icache) (
             retK ip)))))"

text \<open>The on-disk copy of inode \<open>inum\<close>: slot \<^verbatim>\<open>inum % IPB\<close> of its block.\<close>

definition islot :: "uint \<Rightarrow> nat" where
  "islot inum = unat inum mod IPB"

fun ialloc_loop :: "uint \<Rightarrow> ushort \<Rightarrow> nat list \<Rightarrow> ('a fsst_scheme, nat) kfun" where
  "ialloc_loop dev type [] = panic ''ialloc: no inodes''"
| "ialloc_loop dev type (n # ns) =
     (let inum = of_nat n in
     bindK (getK sb) (\<lambda>sb.
     bindK (bread dev (IBLOCK inum sb)) (\<lambda>bp.
     bindK (bdata bp) (\<lambda>d.
     if d_type (get_dinode d (islot inum)) = 0 then
       thenK (set_bdata bp (put16 (zero_range d (64 * islot inum) 64) (64 * islot inum) type)) (
       thenK (log_write bp) (
       thenK (brelse bp) (
       iget dev inum)))
     else
       thenK (brelse bp) (
       ialloc_loop dev type ns)))))"

definition ialloc :: "uint \<Rightarrow> ushort \<Rightarrow> ('a fsst_scheme, nat) kfun" where
  "ialloc dev type =
     bindK (getK (\<lambda>s. unat (sb_ninodes (sb s)))) (\<lambda>n.
     ialloc_loop dev type [1..<n])"

definition dinode_of :: "inode \<Rightarrow> dinode" where
  "dinode_of x = \<lparr>d_type = i_type x, d_major = i_major x, d_minor = i_minor x, d_nlink = i_nlink x,
     d_size = i_size x, d_addrs = i_addrs x\<rparr>"

definition iupdate :: "nat \<Rightarrow> ('a fsst_scheme, unit) kfun" where
  "iupdate ip =
     bindK (iat ip) (\<lambda>x.
     bindK (getK sb) (\<lambda>sb.
     bindK (bread (i_dev x) (IBLOCK (i_inum x) sb)) (\<lambda>bp.
     bindK (bdata bp) (\<lambda>d.
     thenK (set_bdata bp (put_dinode d (islot (i_inum x)) (dinode_of x))) (
     thenK (log_write bp) (
     brelse bp))))))"

definition idup :: "nat \<Rightarrow> ('a fsst_scheme, nat) kfun" where
  "idup ip =
     thenK (acquire L_icache) (
     thenK (upd_inode ip (\<lambda>x. x\<lparr>i_ref := i_ref x + 1\<rparr>)) (
     thenK (release L_icache) (
     retK ip)))"

definition ilock :: "nat \<Rightarrow> ('a fsst_scheme, unit) kfun" where
  "ilock ip =
     bindK (iat ip) (\<lambda>x.
     if i_ref x < 1 then panic ''ilock'' else
     thenK (acquiresleep (SL_inode ip)) (
     bindK (iat ip) (\<lambda>x.
     whenK (\<not> i_valid x) (
       bindK (getK sb) (\<lambda>sb.
       bindK (bread (i_dev x) (IBLOCK (i_inum x) sb)) (\<lambda>bp.
       bindK (bdata bp) (\<lambda>d.
       let dip = get_dinode d (islot (i_inum x)) in
       thenK (upd_inode ip (\<lambda>x. x\<lparr>i_type := d_type dip, i_major := d_major dip, i_minor := d_minor dip,
                i_nlink := d_nlink dip, i_size := d_size dip, i_addrs := d_addrs dip\<rparr>)) (
       thenK (brelse bp) (
       thenK (upd_inode ip (\<lambda>x. x\<lparr>i_valid := True\<rparr>)) (
       if d_type dip = 0 then panic ''ilock: no type'' else retK ()))))))))))"

definition iunlock :: "nat \<Rightarrow> ('a fsst_scheme, unit) kfun" where
  "iunlock ip =
     bindK (holdingsleep (SL_inode ip)) (\<lambda>h.
     bindK (iat ip) (\<lambda>x.
     if \<not> h \<or> i_ref x < 1 then panic ''iunlock'' else
     releasesleep (SL_inode ip)))"

section \<open>The block map\<close>

definition set_addr :: "nat \<Rightarrow> nat \<Rightarrow> uint \<Rightarrow> ('a fsst_scheme, unit) kfun" where
  "set_addr ip i a = upd_inode ip (\<lambda>x. x\<lparr>i_addrs := (i_addrs x)[i := a]\<rparr>)"

text \<open>
  \<^verbatim>\<open>if((addr = ip->addrs[i]) == 0) ip->addrs[i] = addr = balloc(ip->dev);\<close> and the same for entry
  \<open>i\<close> of an indirect block that is held in \<open>bp\<close>, which is then logged.
\<close>

definition addr_or_alloc :: "nat \<Rightarrow> nat \<Rightarrow> ('a fsst_scheme, uint) kfun" where
  "addr_or_alloc ip i =
     bindK (iat ip) (\<lambda>x.
     if i_addrs x ! i = 0 then
       bindK (balloc (i_dev x)) (\<lambda>a.
       thenK (set_addr ip i a) (
       retK a))
     else retK (i_addrs x ! i))"

definition entry_or_alloc :: "uint \<Rightarrow> bkey \<Rightarrow> nat \<Rightarrow> ('a fsst_scheme, unit) kfun \<Rightarrow> ('a fsst_scheme, uint) kfun" where
  "entry_or_alloc dev bp i log =
     bindK (bdata bp) (\<lambda>d.
     if get32 d (4 * i) = 0 then
       bindK (balloc dev) (\<lambda>a.
       bindK (bdata bp) (\<lambda>d.
       thenK (set_bdata bp (put32 d (4 * i) a)) (
       thenK log (
       retK a))))
     else retK (get32 d (4 * i)))"

definition bmap :: "nat \<Rightarrow> uint \<Rightarrow> ('a fsst_scheme, uint) kfun" where
  "bmap ip n =
     bindK (iat ip) (\<lambda>x.
     let dev = i_dev x; bn = unat n in
     if bn < NDIRECT then addr_or_alloc ip bn
     else let bn = bn - NDIRECT in
     if bn < NINDIRECT then
       bindK (addr_or_alloc ip NDIRECT) (\<lambda>addr.
       bindK (bread dev addr) (\<lambda>bp.
       bindK (entry_or_alloc dev bp bn (log_write bp)) (\<lambda>addr.
       thenK (brelse bp) (
       retK addr))))
     else let bn = bn - NINDIRECT in
     if bn < NDINDIRECT then
       bindK (addr_or_alloc ip (NDIRECT + 1)) (\<lambda>addr.
       bindK (bread dev addr) (\<lambda>dbp.
       bindK (entry_or_alloc dev dbp (bn div NINDIRECT) (log_write dbp)) (\<lambda>addr.
       bindK (bread dev addr) (\<lambda>bp.
       bindK (entry_or_alloc dev bp (bn mod NINDIRECT) (thenK (log_write bp) (log_write dbp))) (\<lambda>addr.
       thenK (brelse bp) (
       thenK (brelse dbp) (
       retK addr)))))))
     else panic ''bmap: out of range'')"

section \<open>Freeing an inode\<close>

text \<open>\<^verbatim>\<open>for(j = 0; j < NINDIRECT; j++) if(a[j]) bfree(ip->dev, a[j]);\<close> on the block in \<open>bp\<close>.\<close>

definition bfree_entries :: "uint \<Rightarrow> bkey \<Rightarrow> ('a fsst_scheme, unit) kfun" where
  "bfree_entries dev bp =
     forK [0..<NINDIRECT] (\<lambda>j.
       bindK (bdata bp) (\<lambda>a.
       whenK (get32 a (4 * j) \<noteq> 0) (bfree dev (get32 a (4 * j)))))"

definition itrunc_direct :: "nat \<Rightarrow> uint \<Rightarrow> ('a fsst_scheme, unit) kfun" where
  "itrunc_direct ip dev =
     forK [0..<NDIRECT] (\<lambda>i.
       bindK (iat ip) (\<lambda>x.
       whenK (i_addrs x ! i \<noteq> 0) (
         thenK (bfree dev (i_addrs x ! i)) (
         set_addr ip i 0))))"

definition itrunc_indirect :: "nat \<Rightarrow> uint \<Rightarrow> ('a fsst_scheme, unit) kfun" where
  "itrunc_indirect ip dev =
     bindK (iat ip) (\<lambda>x.
     whenK (i_addrs x ! NDIRECT \<noteq> 0) (
       bindK (bread dev (i_addrs x ! NDIRECT)) (\<lambda>bp.
       thenK (bfree_entries dev bp) (
       thenK (brelse bp) (
       thenK (bfree dev (i_addrs x ! NDIRECT)) (
       set_addr ip NDIRECT 0))))))"

text \<open>One turn of the loop over the double indirect block in \<open>dbp\<close>, whose entry is cleared in memory.\<close>

definition itrunc_entry :: "uint \<Rightarrow> bkey \<Rightarrow> nat \<Rightarrow> ('a fsst_scheme, unit) kfun" where
  "itrunc_entry dev dbp k =
     bindK (bdata dbp) (\<lambda>d.
     whenK (get32 d (4 * k) \<noteq> 0) (
       bindK (bread dev (get32 d (4 * k))) (\<lambda>bp.
       thenK (bfree_entries dev bp) (
       thenK (brelse bp) (
       thenK (bfree dev (get32 d (4 * k))) (
       bindK (bdata dbp) (\<lambda>d.
       set_bdata dbp (put32 d (4 * k) 0))))))))"

definition itrunc_dindirect :: "nat \<Rightarrow> uint \<Rightarrow> ('a fsst_scheme, unit) kfun" where
  "itrunc_dindirect ip dev =
     bindK (iat ip) (\<lambda>x.
     whenK (i_addrs x ! (NDIRECT + 1) \<noteq> 0) (
       bindK (bread dev (i_addrs x ! (NDIRECT + 1))) (\<lambda>dbp.
       thenK (forK [0..<NINDIRECT] (itrunc_entry dev dbp)) (
       thenK (brelse dbp) (
       thenK (bfree dev (i_addrs x ! (NDIRECT + 1))) (
       set_addr ip (NDIRECT + 1) 0))))))"

definition itrunc :: "nat \<Rightarrow> ('a fsst_scheme, unit) kfun" where
  "itrunc ip =
     bindK (getK (\<lambda>s. i_dev (icache s ! ip))) (\<lambda>dev.
     thenK (itrunc_direct ip dev) (
     thenK (itrunc_indirect ip dev) (
     thenK (itrunc_dindirect ip dev) (
     thenK (upd_inode ip (\<lambda>x. x\<lparr>i_size := 0\<rparr>)) (
     iupdate ip)))))"

text \<open>The body of the \<^verbatim>\<open>if\<close> of \<^verbatim>\<open>iput\<close>: free an inode with no links and no other reference.\<close>

definition iput_free :: "nat \<Rightarrow> ('a fsst_scheme, unit) kfun" where
  "iput_free ip =
     thenK (acquire L_icache) (
     bindK (getK (\<lambda>s. i_ref (icache s ! ip))) (\<lambda>r.
     thenK (release L_icache) (
     whenK (r = 1) (
       thenK (itrunc ip) (
       thenK (upd_inode ip (\<lambda>x. x\<lparr>i_type := 0\<rparr>)) (
       thenK (iupdate ip) (
       upd_inode ip (\<lambda>x. x\<lparr>i_valid := False\<rparr>))))))))"

definition iput :: "nat \<Rightarrow> ('a fsst_scheme, unit) kfun" where
  "iput ip =
     thenK (acquiresleep (SL_inode ip)) (
     bindK (iat ip) (\<lambda>x.
     thenK (whenK (i_valid x \<and> i_nlink x = 0) (iput_free ip)) (
     thenK (releasesleep (SL_inode ip)) (
     thenK (acquire L_icache) (
     thenK (upd_inode ip (\<lambda>x. x\<lparr>i_ref := i_ref x - 1\<rparr>)) (
     release L_icache))))))"

definition iunlockput :: "nat \<Rightarrow> ('a fsst_scheme, unit) kfun" where
  "iunlockput ip = thenK (iunlock ip) (iput ip)"

section \<open>File contents\<close>

record stat =
  st_type :: ushort
  st_dev :: uint
  st_ino :: uint
  st_nlink :: ushort
  st_size :: uint

definition stati :: "nat \<Rightarrow> ('a fsst_scheme, stat) kfun" where
  "stati ip = getK (\<lambda>s. let x = icache s ! ip in
     \<lparr>st_type = i_type x, st_dev = i_dev x, st_ino = i_inum x, st_nlink = i_nlink x, st_size = i_size x\<rparr>)"

text \<open>
  The device switch: an entry has a read and a write function, which take the inode, the bytes to write, and
  the number of bytes; the read function also returns the bytes it read.
\<close>

record 's devsw =
  dev_read :: "(nat \<Rightarrow> int \<Rightarrow> ('s, int \<times> uchar list) kfun) option"
  dev_write :: "(nat \<Rightarrow> uchar list \<Rightarrow> int \<Rightarrow> ('s, int) kfun) option"

text \<open>
  The turns of the copy loops of \<^verbatim>\<open>readi\<close> and \<^verbatim>\<open>writei\<close>: the offset and the number of bytes
  \<^verbatim>\<open>m = min(n - tot, BSIZE - off%BSIZE)\<close> of each.
\<close>

function io_chunks :: "nat \<Rightarrow> nat \<Rightarrow> (nat \<times> nat) list" where
  "io_chunks off n =
     (if n = 0 then [] else
      let m = min n (BSIZE - off mod BSIZE) in (off, m) # io_chunks (off + m) (n - m))"
  by pat_completeness auto
termination
proof (relation "measure snd")
  show "((off + m, n - m), off, n) \<in> measure snd" if "n \<noteq> 0" "m = min n (BSIZE - off mod BSIZE)" for off n m
  proof -
    have "off mod BSIZE < BSIZE" by (simp add: BSIZE_def)
    then show ?thesis using that by simp
  qed
qed simp

declare io_chunks.simps [simp del]

definition block_bytes :: "block \<Rightarrow> nat \<Rightarrow> nat \<Rightarrow> uchar list" where
  "block_bytes d p m = map d [p..<p + m]"

definition put_bytes :: "block \<Rightarrow> nat \<Rightarrow> uchar list \<Rightarrow> block" where
  "put_bytes d p xs = (\<lambda>i. if p \<le> i \<and> i < p + length xs then xs ! (i - p) else d i)"

fun readi_loop :: "nat \<Rightarrow> (nat \<times> nat) list \<Rightarrow> ('a fsst_scheme, uchar list) kfun" where
  "readi_loop ip [] = retK []"
| "readi_loop ip ((off, m) # cs) =
     bindK (iat ip) (\<lambda>x.
     bindK (bmap ip (of_nat (off div BSIZE))) (\<lambda>a.
     bindK (bread (i_dev x) a) (\<lambda>bp.
     bindK (bdata bp) (\<lambda>d.
     thenK (brelse bp) (
     bindK (readi_loop ip cs) (\<lambda>rest.
     retK (block_bytes d (off mod BSIZE) m @ rest)))))))"

definition readi :: "(int \<Rightarrow> 'a fsst_scheme devsw) \<Rightarrow> nat \<Rightarrow> uint \<Rightarrow> uint \<Rightarrow> ('a fsst_scheme, int \<times> uchar list) kfun" where
  "readi devsw ip off n =
     bindK (iat ip) (\<lambda>x.
     if i_type x = T_DEV then
       let major = sint (i_major x) in
       if major < 0 \<or> major \<ge> NDEV then retK (-1, []) else
       case dev_read (devsw major) of
         None \<Rightarrow> retK (-1, [])
       | Some f \<Rightarrow> f ip (sint n)
     else
     if off > i_size x \<or> off + n < off then retK (-1, []) else
     let n = (if off + n > i_size x then i_size x - off else n) in
     bindK (readi_loop ip (io_chunks (unat off) (unat n))) (\<lambda>bs.
     retK (sint n, bs)))"

fun writei_loop :: "nat \<Rightarrow> (nat \<times> nat) list \<Rightarrow> uchar list \<Rightarrow> ('a fsst_scheme, unit) kfun" where
  "writei_loop ip [] src = retK ()"
| "writei_loop ip ((off, m) # cs) src =
     bindK (iat ip) (\<lambda>x.
     bindK (bmap ip (of_nat (off div BSIZE))) (\<lambda>a.
     bindK (bread (i_dev x) a) (\<lambda>bp.
     bindK (bdata bp) (\<lambda>d.
     thenK (set_bdata bp (put_bytes d (off mod BSIZE) (take m src))) (
     thenK (log_write bp) (
     thenK (brelse bp) (
     writei_loop ip cs (drop m src))))))))"

text \<open>\<open>src\<close> holds the bytes at the source pointer; the caller guarantees \<^verbatim>\<open>n\<close> of them.\<close>

definition writei :: "(int \<Rightarrow> 'a fsst_scheme devsw) \<Rightarrow> nat \<Rightarrow> uchar list \<Rightarrow> uint \<Rightarrow> uint \<Rightarrow> ('a fsst_scheme, int) kfun" where
  "writei devsw ip src off n =
     bindK (iat ip) (\<lambda>x.
     if i_type x = T_DEV then
       let major = sint (i_major x) in
       if major < 0 \<or> major \<ge> NDEV then retK (-1) else
       case dev_write (devsw major) of
         None \<Rightarrow> retK (-1)
       | Some f \<Rightarrow> f ip src (sint n)
     else
     if off > i_size x \<or> off + n < off then retK (-1) else
     if unat (off + n) > MAXFILE * BSIZE then retK (-1) else
     thenK (writei_loop ip (io_chunks (unat off) (unat n)) src) (
     thenK (whenK (n > 0 \<and> off + n > i_size x) (
       thenK (upd_inode ip (\<lambda>x. x\<lparr>i_size := off + n\<rparr>)) (
       iupdate ip))) (
     retK (sint n))))"

end
