(* ===== verification/FileData.thy ===== *)
theory FileData
  imports Inode
begin

text \<open>
  The contents of files: what \<^verbatim>\<open>bmap\<close>, \<^verbatim>\<open>readi\<close> and \<^verbatim>\<open>writei\<close> of
  \<^verbatim>\<open>kernel/fs.c\<close> do to the bytes of a file.

  The block numbers of a file form a tree of slots, in the inode and in its indirect blocks. A file is well formed
  when all its blocks are allocated and distinct; then allocation extends the tree without changing any byte of
  the file or any other block, a write changes exactly the bytes it names, and a read returns them.
\<close>

section \<open>The tree of block addresses of a file\<close>

text \<open>The places that hold a block number: in the inode, in the indirect block, in the double indirect block, and
  in the indirect blocks below it.\<close>

datatype slot = Dir nat | Ind | IndE nat | Dbl | DblE nat | DblEE nat nat

fun slot_ok :: "slot \<Rightarrow> bool" where
  "slot_ok (Dir i) \<longleftrightarrow> i < NDIRECT"
| "slot_ok (IndE j) \<longleftrightarrow> j < NINDIRECT"
| "slot_ok (DblE k) \<longleftrightarrow> k < NINDIRECT"
| "slot_ok (DblEE k j) \<longleftrightarrow> k < NINDIRECT \<and> j < NINDIRECT"
| "slot_ok _ \<longleftrightarrow> True"

fun par :: "slot \<Rightarrow> slot option" where
  "par (IndE j) = Some Ind"
| "par (DblE k) = Some Dbl"
| "par (DblEE k j) = Some (DblE k)"
| "par _ = None"

fun idx :: "slot \<Rightarrow> nat" where
  "idx (Dir i) = i"
| "idx Ind = NDIRECT"
| "idx Dbl = NDIRECT + 1"
| "idx (IndE j) = j"
| "idx (DblE k) = k"
| "idx (DblEE k j) = j"

definition entry :: "(uint \<Rightarrow> block) \<Rightarrow> uint \<Rightarrow> nat \<Rightarrow> uint" where
  "entry m a j = (if a = 0 then 0 else get32 (m a) (4 * j))"

fun slot_addr :: "(uint \<Rightarrow> block) \<Rightarrow> uint list \<Rightarrow> slot \<Rightarrow> uint" where
  "slot_addr m A (Dir i) = A ! i"
| "slot_addr m A Ind = A ! NDIRECT"
| "slot_addr m A Dbl = A ! (NDIRECT + 1)"
| "slot_addr m A (IndE j) = entry m (A ! NDIRECT) j"
| "slot_addr m A (DblE k) = entry m (A ! (NDIRECT + 1)) k"
| "slot_addr m A (DblEE k j) = entry m (entry m (A ! (NDIRECT + 1)) k) j"

lemma slot_addr_root: "par x = None \<Longrightarrow> slot_addr m A x = A ! idx x"
  by (cases x) auto

lemma slot_addr_child: "par x = Some p \<Longrightarrow> slot_addr m A x = entry m (slot_addr m A p) (idx x)"
  by (cases x) auto

lemma slot_par_induct [case_names root child]:
  assumes "\<And>x. par x = None \<Longrightarrow> P x" and "\<And>x p. par x = Some p \<Longrightarrow> P p \<Longrightarrow> P x"
  shows "P x"
proof -
  have 0: "P (Dir i)" "P Ind" "P Dbl" for i using assms(1) by auto
  have 1: "P (IndE j)" "P (DblE j)" for j using assms(2) [of "IndE j" Ind] assms(2) [of "DblE j" Dbl] 0 by auto
  have "P (DblEE k j)" for k j using assms(2) [of "DblEE k j" "DblE k"] 1 by auto
  then show ?thesis using 0 1 by (cases x) auto
qed

lemma root_inj: "par x = None \<Longrightarrow> par y = None \<Longrightarrow> slot_ok x \<Longrightarrow> slot_ok y \<Longrightarrow> idx x = idx y \<Longrightarrow> x = y"
  by (cases x; cases y) auto

lemma child_inj: "par x = Some p \<Longrightarrow> par y = Some p \<Longrightarrow> idx x = idx y \<Longrightarrow> x = y"
  by (cases x; cases y) auto

lemma par_ok: "slot_ok x \<Longrightarrow> par x = Some p \<Longrightarrow> slot_ok p"
  by (cases x) auto

lemma par_neq: "par x \<noteq> Some x"
  by (cases x) auto

lemma root_idx: "slot_ok x \<Longrightarrow> par x = None \<Longrightarrow> idx x < NDIRECT + 2"
  by (cases x) auto

lemma child_idx: "slot_ok x \<Longrightarrow> par x = Some p \<Longrightarrow> idx x < NINDIRECT"
  by (cases x) auto

text \<open>The place of the block number of block \<open>n\<close> of the file.\<close>

definition data_slot :: "nat \<Rightarrow> slot" where
  "data_slot n = (if n < NDIRECT then Dir n
     else if n - NDIRECT < NINDIRECT then IndE (n - NDIRECT)
     else DblEE ((n - NDIRECT - NINDIRECT) div NINDIRECT) ((n - NDIRECT - NINDIRECT) mod NINDIRECT))"

lemma data_slot_ok: "n < MAXFILE \<Longrightarrow> slot_ok (data_slot n)"
  by (auto simp: data_slot_def fs_consts)

lemma data_slot_inj:
  assumes "data_slot n = data_slot k"
  shows "n = k"
proof -
  have "(n' div NINDIRECT = k' div NINDIRECT \<and> n' mod NINDIRECT = k' mod NINDIRECT) = (n' = k')" for n' k'
    by (metis div_mult_mod_eq)
  then show ?thesis using assms by (auto simp: data_slot_def split: if_splits)
qed

lemma data_slot_leaf: "par x \<noteq> Some (data_slot n)"
  by (cases x) (auto simp: data_slot_def)

section \<open>Well-formed files\<close>

abbreviation mem1 :: "'a bufst_scheme \<Rightarrow> uint \<Rightarrow> block" where
  "mem1 s \<equiv> \<lambda>b. bmem s (1, b)"

text \<open>An allocated block that is not a bitmap block.\<close>

definition blk_alloc :: "'a fsst_scheme \<Rightarrow> uint \<Rightarrow> bool" where
  "blk_alloc s a \<longleftrightarrow> unat a < unat (sb_size (sb s)) \<and> blk_used s a \<and>
     (\<forall>b. unat b < unat (sb_size (sb s)) \<longrightarrow> BBLOCK b (sb s) \<noteq> a)"

text \<open>
  The bitmap covers itself and block 0; the addresses of the file are allocated and pairwise distinct; \<open>R\<close> is a set
  of allocated blocks that do not belong to the file, such as those of other files.
\<close>

definition bitmap_wf :: "'a fsst_scheme \<Rightarrow> bool" where
  "bitmap_wf s \<longleftrightarrow> bitmap_ok s \<and> blk_used s 0 \<and> 0 < unat (sb_size (sb s)) \<and>
     (\<forall>b. unat b < unat (sb_size (sb s)) \<longrightarrow> unat (BBLOCK b (sb s)) < unat (sb_size (sb s)))"

definition file_wf :: "'a fsst_scheme \<Rightarrow> uint list \<Rightarrow> uint set \<Rightarrow> bool" where
  "file_wf s A R \<longleftrightarrow> bitmap_wf s \<and> length A = NDIRECT + 2 \<and>
     (\<forall>x y. slot_ok x \<longrightarrow> slot_ok y \<longrightarrow> slot_addr (mem1 s) A x = slot_addr (mem1 s) A y \<longrightarrow> slot_addr (mem1 s) A x \<noteq> 0 \<longrightarrow> x = y) \<and>
     (\<forall>x. slot_ok x \<longrightarrow> slot_addr (mem1 s) A x \<noteq> 0 \<longrightarrow> blk_alloc s (slot_addr (mem1 s) A x) \<and> slot_addr (mem1 s) A x \<notin> R) \<and>
     (\<forall>b \<in> R. blk_alloc s b)"

text \<open>The bytes of a file; a hole reads as zeros.\<close>

definition fbyte :: "'a fsst_scheme \<Rightarrow> uint list \<Rightarrow> nat \<Rightarrow> uchar" where
  "fbyte s A p = (let a = slot_addr (mem1 s) A (data_slot (p div BSIZE)) in
     if a = 0 then 0 else bmem s (1, a) (p mod BSIZE))"

text \<open>A step that may extend the file by blocks but keeps its bytes and the blocks of \<open>R\<close>.\<close>

definition file_ext :: "uint set \<Rightarrow> 'a fsst_scheme \<Rightarrow> uint list \<Rightarrow> 'a fsst_scheme \<Rightarrow> uint list \<Rightarrow> bool" where
  "file_ext R s A s' A' \<longleftrightarrow> file_wf s' A' R \<and> (\<forall>p < MAXFILE * BSIZE. fbyte s' A' p = fbyte s A p) \<and>
     (\<forall>b \<in> R. bmem s' (1, b) = bmem s (1, b)) \<and>
     (\<forall>x. slot_ok x \<longrightarrow> slot_addr (mem1 s) A x \<noteq> 0 \<longrightarrow> slot_addr (mem1 s') A' x = slot_addr (mem1 s) A x)"

lemma file_ext_trans: "file_ext R s A t B \<Longrightarrow> file_ext R t B u C \<Longrightarrow> file_ext R s A u C"
  by (auto simp: file_ext_def)

lemma file_ext_refl: "file_wf s A R \<Longrightarrow> file_ext R s A s A"
  by (simp add: file_ext_def)

definition same_view :: "'a fsst_scheme \<Rightarrow> 'a fsst_scheme \<Rightarrow> bool" where
  "same_view s s' \<longleftrightarrow> bmem s' = bmem s \<and> icache s' = icache s \<and> sb s' = sb s"

lemma same_view_wf: "same_view s s' \<Longrightarrow> file_wf s' A R = file_wf s A R"
  by (simp add: file_wf_def bitmap_wf_def blk_alloc_def bitmap_ok_def blk_used_def same_view_def)

lemma same_view_fbyte: "same_view s s' \<Longrightarrow> fbyte s' A p = fbyte s A p"
  by (simp add: fbyte_def same_view_def Let_def)

lemma same_view_ext: "same_view t t' \<Longrightarrow> file_ext R s A t' B = file_ext R s A t B"
  by (simp add: file_ext_def same_view_wf same_view_fbyte) (simp add: same_view_def)

lemma same_view_ext_left: "same_view s s' \<Longrightarrow> file_ext R s' A t B = file_ext R s A t B"
  by (simp add: file_ext_def same_view_fbyte) (simp add: same_view_def)

section \<open>Filling an empty slot\<close>

text \<open>A freshly allocated block \<open>a\<close> is stored in the empty slot \<open>x\<close>, in the inode or in the parent block.\<close>

definition slot_filled :: "'a fsst_scheme \<Rightarrow> uint list \<Rightarrow> slot \<Rightarrow> uint \<Rightarrow> 'a fsst_scheme \<Rightarrow> uint list \<Rightarrow> bool" where
  "slot_filled s1 A x a s' A' \<longleftrightarrow> sb s' = sb s1 \<and>
     (case par x of
        None \<Rightarrow> A' = A[idx x := a] \<and> bmem s' = bmem s1
      | Some p \<Rightarrow> A' = A \<and> (let q = slot_addr (mem1 s1) A p in
          bmem s' = (bmem s1)((1, q) := put32 (bmem s1 (1, q)) (4 * idx x) a)))"

lemma alloc_step_addr:
  assumes wf: "file_wf s A R" and bal: "balloc dev s = Ok a s1" and x: "slot_ok x" and emp: "slot_addr (mem1 s) A x = 0"
    and pnz': "\<forall>p. par x = Some p \<longrightarrow> slot_addr (mem1 s) A p \<noteq> 0" and fil: "slot_filled s1 A x a s' A'"
  shows "slot_ok y \<Longrightarrow> slot_addr (mem1 s') A' y = (if y = x then a else slot_addr (mem1 s) A y)"
    and "b \<noteq> a \<Longrightarrow> blk_alloc s b \<Longrightarrow> (\<And>p. par x = Some p \<Longrightarrow> slot_addr (mem1 s) A p \<noteq> b) \<Longrightarrow> bmem s' (1, b) = bmem s (1, b)"
    and "a \<noteq> 0" and "bmem s' (1, a) = zero_range (bmem s (1, a)) 0 BSIZE"
    and "blk_alloc s b \<Longrightarrow> b \<noteq> a" and "unat b < unat (sb_size (sb s)) \<Longrightarrow> blk_used s' b \<longleftrightarrow> b = a \<or> blk_used s b"
    and "sb s' = sb s" and "blk_alloc s' a"
proof -
  let ?f = "slot_addr (mem1 s) A"
  have pnz: "?f p \<noteq> 0" if "par x = Some p" for p using pnz' that by blast
  have bok: "bitmap_ok s" "blk_used s 0" using wf by (auto simp: file_wf_def bitmap_wf_def)
  note ae = balloc_effect [OF bal] and au = balloc_used [OF bal bok(1)]
  have a: "unat a < unat (sb_size (sb s))" "\<not> blk_used s a" and sb1: "sb s1 = sb s" using ae by (auto simp: fs_frame_def)
  show a0: "a \<noteq> 0" using a(2) bok(2) by auto
  show na: "b \<noteq> a" if "blk_alloc s b" for b using that a(2) by (auto simp: blk_alloc_def)
  have m1: "bmem s1 (1, b) = bmem s (1, b)" if "blk_alloc s b" for b
    using au(3) [of "(1, b)"] na [OF that] a(1) that by (auto simp: blk_alloc_def)
  have ref: "blk_alloc s (?f y)" if "slot_ok y" "?f y \<noteq> 0" for y using wf that by (auto simp: file_wf_def)
  have inj: "y = z" if "slot_ok y" "slot_ok z" "?f y = ?f z" "?f y \<noteq> 0" for y z
    using wf that unfolding file_wf_def by metis
  have f1: "slot_addr (mem1 s1) A p = ?f p" if "slot_ok p" for p
    using that
  proof (induction p rule: slot_par_induct)
    case (root x)
    then show ?case by (simp add: slot_addr_root)
  next
    case (child x p)
    then show ?case using m1 [OF ref [of p]] par_ok [of x p] by (auto simp: slot_addr_child entry_def)
  qed
  have m': "bmem s' (1, b) = (if (\<exists>p. par x = Some p \<and> ?f p = b) then put32 (bmem s1 (1, b)) (4 * idx x) a else bmem s1 (1, b))" for b
    using fil f1 par_ok [OF x] by (cases "par x") (auto simp: slot_filled_def Let_def)
  show sbs: "sb s' = sb s" using fil sb1 by (simp add: slot_filled_def)
  show used: "blk_used s' b \<longleftrightarrow> b = a \<or> blk_used s b" if "unat b < unat (sb_size (sb s))" for b
  proof -
    have "?f p \<noteq> BBLOCK b (sb s)" if "par x = Some p" for p
      using ref [OF par_ok [OF x that] pnz [OF that]] \<open>unat b < _\<close> by (auto simp: blk_alloc_def)
    then have "bmem s' (1, BBLOCK b (sb s)) = bmem s1 (1, BBLOCK b (sb s))" using m' by auto
    then have "blk_used s' b = blk_used s1 b" using sbs sb1 by (simp add: blk_used_def)
    then show ?thesis using au(1) [OF that] by simp
  qed
  show "blk_alloc s' a" using used [OF a(1)] a(1) au(4) sbs by (simp add: blk_alloc_def)
  have za: "bmem s' (1, a) = bmem s1 (1, a)"
  proof -
    have "?f p \<noteq> a" if "par x = Some p" for p using na ref [OF par_ok [OF x that] pnz [OF that]] by auto
    then show ?thesis using m' [of a] by auto
  qed
  then show "bmem s' (1, a) = zero_range (bmem s (1, a)) 0 BSIZE" using au(2) by simp
  show "bmem s' (1, b) = bmem s (1, b)" if "b \<noteq> a" "blk_alloc s b" "\<And>p. par x = Some p \<Longrightarrow> ?f p \<noteq> b" for b
    using m' [of b] m1 [OF that(2)] that(3) by auto
  have zero: "get32 (bmem s' (1, a)) (4 * j) = 0" if "j < NINDIRECT" for j
    using that za au(2) by (simp add: get32_def zero_range_def NINDIRECT_def BSIZE_def)
  show "slot_addr (mem1 s') A' y = (if y = x then a else ?f y)" if "slot_ok y" for y
    using that
  proof (induction y rule: slot_par_induct)
    case (root y)
    then show ?case
      using fil x root_inj [of x y] root_idx [of x] root_idx [of y] wf
      by (cases "par x") (auto simp: slot_filled_def slot_addr_root file_wf_def nth_list_update)
  next
    case (child y q)
    have q: "slot_ok q" using child par_ok by blast
    then have IH: "slot_addr (mem1 s') A' q = (if q = x then a else ?f q)" by (rule child.IH)
    show ?case
    proof (cases "q = x")
      case True
      then have "y \<noteq> x" using child(1) par_neq by blast
      moreover have "?f y = 0" using emp True child(1) by (simp add: slot_addr_child entry_def)
      ultimately show ?thesis using IH True child zero [of "idx y"] child_idx [of y q] a0
        by (simp add: slot_addr_child entry_def)
    next
      case False
      show ?thesis
      proof (cases "?f q = 0")
        case True
        then have "y \<noteq> x" using pnz child(1) by blast
        then show ?thesis using IH False True child(1) by (simp add: slot_addr_child entry_def)
      next
        case nz: False
        have "par x = Some p \<Longrightarrow> ?f p = ?f q \<Longrightarrow> p = q" for p using inj [OF par_ok [OF x] q] nz by metis
        then have "bmem s' (1, ?f q) = (if par x = Some q then put32 (bmem s (1, ?f q)) (4 * idx x) a else bmem s (1, ?f q))"
          using m' [of "?f q"] m1 [OF ref [OF q nz]] by auto
        moreover have "par x = Some q \<Longrightarrow> idx x = idx y \<longleftrightarrow> x = y" using child_inj [of x q y] child(1) by blast
        ultimately show ?thesis using IH False nz child(1)
          by (auto simp: slot_addr_child entry_def get32_put32_index)
      qed
    qed
  qed
qed

lemma alloc_step_ext:
  assumes wf: "file_wf s A R" and bal: "balloc dev s = Ok a s1" and x: "slot_ok x" and emp: "slot_addr (mem1 s) A x = 0"
    and pnz': "\<forall>p. par x = Some p \<longrightarrow> slot_addr (mem1 s) A p \<noteq> 0" and fil: "slot_filled s1 A x a s' A'"
  shows "file_ext R s A s' A'" and "slot_addr (mem1 s') A' x = a" and "a \<noteq> 0"
proof -
  let ?f = "slot_addr (mem1 s) A"
  have pnz: "?f p \<noteq> 0" if "par x = Some p" for p using pnz' that by blast
  note st = alloc_step_addr [OF wf bal x emp pnz' fil]
  show ad: "slot_addr (mem1 s') A' x = a" using st(1) [OF x] by simp
  show a0: "a \<noteq> 0" by (rule st(3))
  have ref: "blk_alloc s (?f y)" "?f y \<notin> R" if "slot_ok y" "?f y \<noteq> 0" for y using wf that by (auto simp: file_wf_def)
  have inj: "y = z" if "slot_ok y" "slot_ok z" "?f y = ?f z" "?f y \<noteq> 0" for y z
    using wf that unfolding file_wf_def by metis
  have R: "blk_alloc s b" if "b \<in> R" for b using wf that by (simp add: file_wf_def)
  have keep: "blk_alloc s' b" if "blk_alloc s b" for b
    using that st(6) [of b] st(7) by (auto simp: blk_alloc_def)
  have bm: "bitmap_wf s'"
    using wf st(6) st(7) unfolding file_wf_def bitmap_wf_def bitmap_ok_def by auto
  have sa: "slot_addr (mem1 s') A' y = (if y = x then a else ?f y)" if "slot_ok y" for y by (rule st(1) [OF that])
  have fw: "file_wf s' A' R"
    unfolding file_wf_def
  proof (intro conjI allI impI ballI)
    show "bitmap_wf s'" by (rule bm)
    show "length A' = NDIRECT + 2" using wf fil by (cases "par x") (auto simp: file_wf_def slot_filled_def)
    show "y = z" if "slot_ok y" "slot_ok z" "slot_addr (mem1 s') A' y = slot_addr (mem1 s') A' z" "slot_addr (mem1 s') A' y \<noteq> 0" for y z
    proof -
      have "?f y \<noteq> a" if "slot_ok y" "?f y \<noteq> 0" for y using st(5) ref(1) [OF that] by blast
      then show ?thesis using that inj [of y z] sa by (cases "y = x"; cases "z = x") auto
    qed
    fix y assume y: "slot_ok y" "slot_addr (mem1 s') A' y \<noteq> 0"
    show "blk_alloc s' (slot_addr (mem1 s') A' y)" using y sa [of y] st(8) keep ref(1) [of y] by (cases "y = x") auto
    have "a \<notin> R" using R st(5) by blast
    then show "slot_addr (mem1 s') A' y \<notin> R" using y sa [of y] ref(2) [of y] by (cases "y = x") auto
  next
    fix b assume "b \<in> R"
    then show "blk_alloc s' b" using keep R by blast
  qed
  have fb: "fbyte s' A' p = fbyte s A p" if "p < MAXFILE * BSIZE" for p
  proof -
    define y where "y = data_slot (p div BSIZE)"
    have y: "slot_ok y" unfolding y_def using that by (intro data_slot_ok) (simp add: less_mult_imp_div_less)
    have pb: "p mod BSIZE < BSIZE" by (simp add: BSIZE_def)
    show ?thesis
    proof (cases "y = x")
      case True
      then have "fbyte s' A' p = bmem s' (1, a) (p mod BSIZE)" "fbyte s A p = 0"
        using sa [OF y] a0 emp by (simp_all add: fbyte_def Let_def y_def)
      then show ?thesis using st(4) pb by (simp add: zero_range_def)
    next
      case False
      have "bmem s' (1, ?f y) = bmem s (1, ?f y)" if nz: "?f y \<noteq> 0"
      proof (rule st(2))
        show "?f y \<noteq> a" using st(5) ref(1) [OF y nz] by blast
        show "blk_alloc s (?f y)" by (rule ref(1) [OF y nz])
        show "?f p \<noteq> ?f y" if "par x = Some p" for p
          using inj [OF par_ok [OF x that] y] pnz [OF that] that data_slot_leaf by (metis y_def)
      qed
      then show ?thesis using sa [OF y] False by (simp add: fbyte_def Let_def y_def [symmetric])
    qed
  qed
  have "bmem s' (1, b) = bmem s (1, b)" if "b \<in> R" for b
  proof (rule st(2))
    show "b \<noteq> a" "blk_alloc s b" using R [OF that] st(5) by auto
    show "?f p \<noteq> b" if "par x = Some p" for p using ref(2) [OF par_ok [OF x that] pnz [OF that]] \<open>b \<in> R\<close> by blast
  qed
  then show "file_ext R s A s' A'" unfolding file_ext_def using fw fb sa emp by auto
qed

section \<open>Steps that only take and release buffers\<close>

lemma bread_view:
  assumes "bread dev b s = Ok bp s'"
  shows "same_view s s' \<and> bp = (1, b) \<and> dev = 1"
  using assms by (auto simp: bread_Ok same_view_def)

lemma brelse_view: "brelse bp s = Ok r s' \<Longrightarrow> same_view s s'"
  by (auto simp: brelse_Ok same_view_def)

lemma log_write_view: "log_write bp s = Ok r s' \<Longrightarrow> same_view s s'"
  by (auto simp: log_write_Ok same_view_def)

lemma same_view_refl [simp]: "same_view s s"
  by (simp add: same_view_def)

lemma same_view_trans: "same_view s t \<Longrightarrow> same_view t u \<Longrightarrow> same_view s u"
  by (simp add: same_view_def)

lemma same_view_sym: "same_view s t \<Longrightarrow> same_view t s"
  by (simp add: same_view_def)

section \<open>bmap\<close>

text \<open>The inode of a file: everything but its addresses and its size stays as it is.\<close>

definition addrs_upd :: "nat \<Rightarrow> 'a fsst_scheme \<Rightarrow> 'a fsst_scheme \<Rightarrow> bool" where
  "addrs_upd ip s s' \<longleftrightarrow> (\<exists>A. icache s' = (icache s)[ip := (icache s ! ip)\<lparr>i_addrs := A\<rparr>])"

lemma addrs_upd_refl [simp]: "addrs_upd ip s s"
  unfolding addrs_upd_def by (rule exI [of _ "i_addrs (icache s ! ip)"]) simp

lemma addrs_upd_view: "addrs_upd ip s t \<Longrightarrow> same_view t u \<Longrightarrow> addrs_upd ip s u"
  by (simp add: addrs_upd_def same_view_def)

lemma addrs_upd_trans:
  assumes "addrs_upd ip s t" and "addrs_upd ip t u"
  shows "addrs_upd ip s u"
proof (cases "ip < length (icache s)")
  case True
  then show ?thesis using assms by (auto simp: addrs_upd_def)
next
  case False
  then show ?thesis using assms by (auto simp: addrs_upd_def list_update_beyond)
qed

abbreviation addrs :: "'a fsst_scheme \<Rightarrow> nat \<Rightarrow> uint list" where
  "addrs s ip \<equiv> i_addrs (icache s ! ip)"

definition bmap_step :: "uint set \<Rightarrow> nat \<Rightarrow> 'a fsst_scheme \<Rightarrow> 'a fsst_scheme \<Rightarrow> bool" where
  "bmap_step R ip s s' \<longleftrightarrow> file_ext R s (addrs s ip) s' (addrs s' ip) \<and> addrs_upd ip s s' \<and> sb s' = sb s"

lemma bmap_step_refl: "file_wf s (addrs s ip) R \<Longrightarrow> bmap_step R ip s s"
  by (simp add: bmap_step_def file_ext_refl)

lemma bmap_step_trans: "bmap_step R ip s t \<Longrightarrow> bmap_step R ip t u \<Longrightarrow> bmap_step R ip s u"
  unfolding bmap_step_def using file_ext_trans addrs_upd_trans by metis

lemma bmap_step_view: "same_view t u \<Longrightarrow> bmap_step R ip s t \<Longrightarrow> bmap_step R ip s u"
  unfolding bmap_step_def using same_view_ext [of t u R s] addrs_upd_view
  by (metis same_view_def)

lemma bmap_step_view_left: "same_view s t \<Longrightarrow> bmap_step R ip t u \<Longrightarrow> bmap_step R ip s u"
  unfolding bmap_step_def using same_view_ext_left [of s t R] by (simp add: same_view_def addrs_upd_def)

lemma bmap_step_wf: "bmap_step R ip s t \<Longrightarrow> file_wf t (addrs t ip) R"
  by (simp add: bmap_step_def file_ext_def)

lemma bmap_step_len: "bmap_step R ip s t \<Longrightarrow> length (icache t) = length (icache s)"
  by (auto simp: bmap_step_def addrs_upd_def)

lemma bmap_step_keep:
  assumes "bmap_step R ip s t" and "slot_ok x" and "slot_addr (mem1 s) (addrs s ip) x \<noteq> 0"
  shows "slot_addr (mem1 t) (addrs t ip) x = slot_addr (mem1 s) (addrs s ip) x"
  using assms by (simp add: bmap_step_def file_ext_def)

lemma addr_or_alloc_effect:
  assumes e: "addr_or_alloc ip (idx x) s = Ok a s'" and x: "slot_ok x" "par x = None"
    and wf: "file_wf s (addrs s ip) R" and ip: "ip < length (icache s)"
  shows "bmap_step R ip s s' \<and> slot_addr (mem1 s') (addrs s' ip) x = a \<and> a \<noteq> 0"
proof (cases "addrs s ip ! idx x = 0")
  case False
  then show ?thesis using e wf x by (simp add: addr_or_alloc_def iat_def kok bmap_step_refl slot_addr_root)
next
  case True
  then obtain s1 where b: "balloc (i_dev (icache s ! ip)) s = Ok a s1"
    and s': "s' = s1\<lparr>icache := (icache s1)[ip := (icache s1 ! ip)\<lparr>i_addrs := (i_addrs (icache s1 ! ip))[idx x := a]\<rparr>]\<rparr>"
    using e by (auto simp: addr_or_alloc_def iat_def kok set_addr_def upd_inode_def)
  have ic: "icache s1 = icache s" "sb s1 = sb s" using balloc_effect [OF b] by (auto simp: fs_frame_def)
  have fil: "slot_filled s1 (addrs s ip) x a s' (addrs s' ip)"
    using x(2) ic ip by (simp add: slot_filled_def s')
  have emp: "slot_addr (mem1 s) (addrs s ip) x = 0" using True x(2) by (simp add: slot_addr_root)
  have "\<forall>p. par x = Some p \<longrightarrow> slot_addr (mem1 s) (addrs s ip) p \<noteq> 0" using x(2) by simp
  note st = alloc_step_ext [OF wf b x(1) emp this fil]
  have "addrs_upd ip s s'" unfolding addrs_upd_def using ic by (simp add: s') blast
  then show ?thesis using st ic by (simp add: bmap_step_def s')
qed

text \<open>The same for an entry of an indirect block, where \<open>log\<close> stands for the calls of \<^verbatim>\<open>log_write\<close> after it.\<close>

lemma entry_or_alloc_effect:
  assumes e: "entry_or_alloc dev (1, q) (idx x) lg s = Ok a s'" and x: "slot_ok x" "par x = Some p"
    and q: "slot_addr (mem1 s) (addrs s ip) p = q" "q \<noteq> 0"
    and lg: "\<And>t r u. lg t = Ok r u \<Longrightarrow> same_view t u" and wf: "file_wf s (addrs s ip) R"
  shows "bmap_step R ip s s' \<and> slot_addr (mem1 s') (addrs s' ip) x = a \<and> a \<noteq> 0"
proof (cases "get32 (bmem s (1, q)) (4 * idx x) = 0")
  case False
  then show ?thesis
    using e wf x q by (simp add: entry_or_alloc_def kok bmap_step_refl slot_addr_child entry_def)
next
  case True
  then obtain s1 s2 where b: "balloc dev s = Ok a s1" and lw: "lg s2 = Ok () s'"
    and s2: "s2 = s1\<lparr>bmem := (bmem s1)((1, q) := put32 (bmem s1 (1, q)) (4 * idx x) a)\<rparr>"
    using e by (auto simp: entry_or_alloc_def kok)
  have ic: "icache s1 = icache s" "sb s1 = sb s" using balloc_effect [OF b] by (auto simp: fs_frame_def)
  have v: "same_view s2 s'" by (rule lg [OF lw])
  have emp: "slot_addr (mem1 s) (addrs s ip) x = 0" using True x(2) q by (simp add: slot_addr_child entry_def)
  have pnz: "\<forall>p'. par x = Some p' \<longrightarrow> slot_addr (mem1 s) (addrs s ip) p' \<noteq> 0" using x(2) q by simp
  have "slot_addr (mem1 s1) (addrs s ip) p = q"
  proof -
    let ?A = "addrs s ip"
    have pok: "slot_ok p" by (rule par_ok [OF x])
    have bok: "bitmap_ok s" using wf by (simp add: file_wf_def bitmap_wf_def)
    have m1: "bmem s1 (1, c) = bmem s (1, c)" if "blk_alloc s c" for c
      using balloc_used(3) [OF b bok, of "(1, c)"] balloc_effect [OF b] that by (auto simp: blk_alloc_def)
    have "slot_addr (mem1 s1) ?A y = slot_addr (mem1 s) ?A y" if "slot_ok y" for y
      using that
    proof (induction y rule: slot_par_induct)
      case (root y)
      then show ?case by (simp add: slot_addr_root)
    next
      case (child y z)
      have "slot_ok z" using par_ok child by blast
      then show ?case using child wf m1 by (auto simp: slot_addr_child entry_def file_wf_def)
    qed
    then show ?thesis using pok q(1) by simp
  qed
  then have fil: "slot_filled s1 (addrs s ip) x a s2 (addrs s ip)"
    using x(2) by (simp add: slot_filled_def s2)
  note st = alloc_step_ext [OF wf b x(1) emp pnz fil]
  have "addrs s2 ip = addrs s ip" using ic by (simp add: s2)
  then have "bmap_step R ip s s2" using st(1) ic unfolding bmap_step_def
    by (simp add: s2) (simp add: addrs_upd_def exI [of _ "addrs s ip"])
  then show ?thesis using bmap_step_view [OF v] st(2,3) v ic by (simp add: same_view_def s2)
qed

lemma same_view_slot:
  assumes "same_view s t"
  shows "slot_addr (mem1 t) (addrs t ip) x = slot_addr (mem1 s) (addrs s ip) x" and "file_wf t (addrs t ip) R = file_wf s (addrs s ip) R"
    and "icache t = icache s"
  using assms same_view_wf [OF assms] by (simp_all add: same_view_def)

lemma bmap_indirect:
  assumes e: "bmap ip n s = Ok a s'" and n: "\<not> unat n < NDIRECT" "unat n - NDIRECT < NINDIRECT"
    and wf: "file_wf s (addrs s ip) R" and ip: "ip < length (icache s)"
  shows "bmap_step R ip s s' \<and> slot_addr (mem1 s') (addrs s' ip) (data_slot (unat n)) = a \<and> a \<noteq> 0"
proof -
  let ?j = "unat n - NDIRECT" and ?dev = "i_dev (icache s ! ip)"
  obtain q s1 bp s2 s3 where 1: "addr_or_alloc ip (idx Ind) s = Ok q s1" and 2: "bread ?dev q s1 = Ok bp s2"
    and 3: "entry_or_alloc ?dev bp (idx (IndE ?j)) (log_write bp) s2 = Ok a s3" and 4: "brelse bp s3 = Ok () s'"
    using e n by (auto simp: bmap_def iat_def bindK_Ok thenK_Ok getK_Ok retK_Ok Let_def)
  have e1: "bmap_step R ip s s1" "slot_addr (mem1 s1) (addrs s1 ip) Ind = q" "q \<noteq> 0"
    using addr_or_alloc_effect [OF 1 _ _ wf ip] by simp_all
  have v: "same_view s1 s2" "bp = (1, q)" using bread_view [OF 2] by auto
  have v4: "same_view s3 s'" by (rule brelse_view [OF 4])
  have w2: "file_wf s2 (addrs s2 ip) R" using bmap_step_wf [OF e1(1)] same_view_slot(2) [OF v(1)] by simp
  have "bmap_step R ip s2 s3 \<and> slot_addr (mem1 s3) (addrs s3 ip) (IndE ?j) = a \<and> a \<noteq> 0"
  proof (rule entry_or_alloc_effect)
    show "entry_or_alloc ?dev (1, q) (idx (IndE ?j)) (log_write bp) s2 = Ok a s3" using 3 v(2) by simp
    show "slot_addr (mem1 s2) (addrs s2 ip) Ind = q" using same_view_slot(1) [OF v(1), of ip Ind] e1(2) by simp
  qed (use n e1(3) log_write_view w2 in simp_all)
  moreover have "bmap_step R ip s s2" by (rule bmap_step_view [OF v(1) e1(1)])
  ultimately have "bmap_step R ip s s'" using bmap_step_trans bmap_step_view [OF v4] by blast
  then show ?thesis using \<open>_ \<and> _ \<and> a \<noteq> 0\<close> same_view_slot(1) [OF v4, of ip "IndE ?j"] n by (simp add: data_slot_def)
qed

lemma bmap_dindirect:
  assumes e: "bmap ip n s = Ok a s'" and n: "\<not> unat n < NDIRECT" "\<not> unat n - NDIRECT < NINDIRECT" "unat n - NDIRECT - NINDIRECT < NDINDIRECT"
    and wf: "file_wf s (addrs s ip) R" and ip: "ip < length (icache s)"
  shows "bmap_step R ip s s' \<and> slot_addr (mem1 s') (addrs s' ip) (data_slot (unat n)) = a \<and> a \<noteq> 0"
proof -
  let ?n = "unat n - NDIRECT - NINDIRECT" and ?dev = "i_dev (icache s ! ip)"
  let ?k = "?n div NINDIRECT" and ?j = "?n mod NINDIRECT"
  have kj: "?k < NINDIRECT" "?j < NINDIRECT" using n(3) by (auto simp: fs_consts)
  obtain q s1 dbp s2 r s3 bp s4 s5 s6 where 1: "addr_or_alloc ip (idx Dbl) s = Ok q s1" and 2: "bread ?dev q s1 = Ok dbp s2"
    and 3: "entry_or_alloc ?dev dbp (idx (DblE ?k)) (log_write dbp) s2 = Ok r s3" and 4: "bread ?dev r s3 = Ok bp s4"
    and 5: "entry_or_alloc ?dev bp (idx (DblEE ?k ?j)) (thenK (log_write bp) (log_write dbp)) s4 = Ok a s5"
    and 6: "brelse bp s5 = Ok () s6" and 7: "brelse dbp s6 = Ok () s'"
    using e n by (auto simp: bmap_def iat_def bindK_Ok thenK_Ok getK_Ok retK_Ok Let_def)
  have e1: "bmap_step R ip s s1" "slot_addr (mem1 s1) (addrs s1 ip) Dbl = q" "q \<noteq> 0"
    using addr_or_alloc_effect [OF 1 _ _ wf ip] by simp_all
  have v2: "same_view s1 s2" "dbp = (1, q)" using bread_view [OF 2] by auto
  have e3: "bmap_step R ip s2 s3 \<and> slot_addr (mem1 s3) (addrs s3 ip) (DblE ?k) = r \<and> r \<noteq> 0"
  proof (rule entry_or_alloc_effect)
    show "entry_or_alloc ?dev (1, q) (idx (DblE ?k)) (log_write dbp) s2 = Ok r s3" using 3 v2(2) by simp
    show "slot_addr (mem1 s2) (addrs s2 ip) Dbl = q" using same_view_slot(1) [OF v2(1), of ip Dbl] e1(2) by simp
    show "file_wf s2 (addrs s2 ip) R" using bmap_step_wf [OF e1(1)] same_view_slot(2) [OF v2(1)] by simp
  qed (use kj e1(3) log_write_view in simp_all)
  have v4: "same_view s3 s4" "bp = (1, r)" using bread_view [OF 4] by auto
  have lg: "same_view t u" if tz: "thenK (log_write bp) (log_write dbp) t = Ok z u" for t z u
  proof -
    obtain y w where "log_write bp t = Ok y w" "log_write dbp w = Ok z u" using tz by (auto simp: thenK_Ok)
    then show ?thesis using log_write_view [of bp t y w] log_write_view [of dbp w z u] same_view_trans by blast
  qed
  have e5: "bmap_step R ip s4 s5 \<and> slot_addr (mem1 s5) (addrs s5 ip) (DblEE ?k ?j) = a \<and> a \<noteq> 0"
  proof (rule entry_or_alloc_effect)
    show "entry_or_alloc ?dev (1, r) (idx (DblEE ?k ?j)) (thenK (log_write bp) (log_write dbp)) s4 = Ok a s5" using 5 v4(2) by simp
    show "slot_addr (mem1 s4) (addrs s4 ip) (DblE ?k) = r" using same_view_slot(1) [OF v4(1), of ip "DblE ?k"] e3 by simp
    show "file_wf s4 (addrs s4 ip) R" using bmap_step_wf [OF conjunct1 [OF e3]] same_view_slot(2) [OF v4(1)] by simp
    show "r \<noteq> 0" using e3 by simp
  qed (use kj in simp_all, rule lg)
  have v7: "same_view s5 s'" using brelse_view [OF 6] brelse_view [OF 7] same_view_trans by blast
  have "bmap_step R ip s s3" using bmap_step_trans [OF bmap_step_view [OF v2(1) e1(1)]] e3 by blast
  then have "bmap_step R ip s s5" using bmap_step_trans [OF bmap_step_view [OF v4(1)]] e5 by blast
  then have "bmap_step R ip s s'" by (rule bmap_step_view [OF v7])
  then show ?thesis using e5 same_view_slot(1) [OF v7, of ip "DblEE ?k ?j"] n by (simp add: data_slot_def)
qed

lemma bmap_effect:
  assumes e: "bmap ip n s = Ok a s'" and wf: "file_wf s (addrs s ip) R" and ip: "ip < length (icache s)"
  shows "bmap_step R ip s s' \<and> slot_addr (mem1 s') (addrs s' ip) (data_slot (unat n)) = a \<and> a \<noteq> 0 \<and> unat n < MAXFILE"
proof -
  consider "unat n < NDIRECT" | "\<not> unat n < NDIRECT" "unat n - NDIRECT < NINDIRECT"
    | "\<not> unat n < NDIRECT" "\<not> unat n - NDIRECT < NINDIRECT" "unat n - NDIRECT - NINDIRECT < NDINDIRECT"
    using e by (fastforce simp: bmap_def iat_def kok kdefs Let_def split: if_splits)
  then show ?thesis
  proof cases
    case 1
    then have "addr_or_alloc ip (idx (Dir (unat n))) s = Ok a s'" using e by (simp add: bmap_def iat_def kok Let_def)
    then show ?thesis using addr_or_alloc_effect [of ip "Dir (unat n)" s a s' R] 1 wf ip by (simp add: data_slot_def MAXFILE_def)
  next
    case 2
    then show ?thesis using bmap_indirect [OF e _ _ wf ip] by (simp add: MAXFILE_def)
  next
    case 3
    then show ?thesis using bmap_dindirect [OF e _ _ _ wf ip] by (simp add: MAXFILE_def)
  qed
qed

section \<open>Chunks\<close>

lemma chunk_bounds:
  assumes "n \<noteq> 0" and "m = min n (BSIZE - off mod BSIZE)"
  shows "0 < m" and "m \<le> n" and "off mod BSIZE + m \<le> BSIZE"
proof -
  have "off mod BSIZE < BSIZE" by (simp add: BSIZE_def)
  then show "0 < m" "m \<le> n" "off mod BSIZE + m \<le> BSIZE" using assms by auto
qed

lemma same_block:
  assumes "off \<le> p" and "p < off + m" and "off mod BSIZE + m \<le> BSIZE"
  shows "p div BSIZE = off div BSIZE" and "p mod BSIZE = off mod BSIZE + (p - off)"
proof -
  define r where "r = off mod BSIZE + (p - off)"
  have p: "p = r + off div BSIZE * BSIZE" using assms(1) by (simp add: r_def)
  have lt: "r < BSIZE" using assms unfolding r_def by linarith
  show "p div BSIZE = off div BSIZE" unfolding p using lt by (simp add: BSIZE_def)
  have "p mod BSIZE = r" unfolding p using lt by simp
  then show "p mod BSIZE = off mod BSIZE + (p - off)" by (simp add: r_def)
qed

lemma io_chunks_0 [simp]: "io_chunks off 0 = []"
  by (simp add: io_chunks.simps)

lemma io_chunks_step:
  "n \<noteq> 0 \<Longrightarrow> m = min n (BSIZE - off mod BSIZE) \<Longrightarrow> io_chunks off n = (off, m) # io_chunks (off + m) (n - m)"
  by (subst io_chunks.simps) (simp add: Let_def)

section \<open>Writing to one block\<close>

lemma file_wfD:
  assumes "file_wf s A R"
  shows "slot_ok x \<Longrightarrow> slot_ok y \<Longrightarrow> slot_addr (mem1 s) A x = slot_addr (mem1 s) A y \<Longrightarrow> slot_addr (mem1 s) A x \<noteq> 0 \<Longrightarrow> x = y"
    and "slot_ok x \<Longrightarrow> slot_addr (mem1 s) A x \<noteq> 0 \<Longrightarrow> blk_alloc s (slot_addr (mem1 s) A x)"
    and "slot_ok x \<Longrightarrow> slot_addr (mem1 s) A x \<noteq> 0 \<Longrightarrow> slot_addr (mem1 s) A x \<notin> R"
    and "b \<in> R \<Longrightarrow> blk_alloc s b"
  using assms unfolding file_wf_def by metis+

text \<open>A block that is not an indirect block of the file and not a bitmap block can be overwritten.\<close>

lemma block_write:
  assumes wf: "file_wf s A R" and m: "bmem s' = (bmem s)((1, a) := d)" "sb s' = sb s" and a: "blk_alloc s a"
    and leaf: "\<forall>x p. slot_ok x \<longrightarrow> par x = Some p \<longrightarrow> slot_addr (mem1 s) A p \<noteq> 0 \<longrightarrow> slot_addr (mem1 s) A p \<noteq> a"
  shows "slot_ok x \<Longrightarrow> slot_addr (mem1 s') A x = slot_addr (mem1 s) A x" and "file_wf s' A R"
proof -
  show sa: "slot_addr (mem1 s') A x = slot_addr (mem1 s) A x" if "slot_ok x" for x
    using that
  proof (induction x rule: slot_par_induct)
    case (root x)
    then show ?case by (simp add: slot_addr_root)
  next
    case (child x p)
    then show ?case using leaf par_ok [of x p] m by (auto simp: slot_addr_child entry_def)
  qed
  have us: "blk_used s' b = blk_used s b" if "unat b < unat (sb_size (sb s))" for b
    using a m that by (auto simp: blk_used_def blk_alloc_def)
  have "blk_alloc s' b = blk_alloc s b" for b using us [of b] m(2) by (auto simp: blk_alloc_def)
  moreover have "bitmap_wf s' = bitmap_wf s"
    using us m(2) unfolding bitmap_wf_def bitmap_ok_def by (metis unat_0)
  ultimately show "file_wf s' A R" using wf sa unfolding file_wf_def by simp
qed

lemma data_write:
  assumes wf: "file_wf s A R" and n: "n < MAXFILE" and a: "slot_addr (mem1 s) A (data_slot n) = a" "a \<noteq> 0"
    and m: "bmem s' = (bmem s)((1, a) := d)" "sb s' = sb s"
  shows "file_wf s' A R" and "p < MAXFILE * BSIZE \<Longrightarrow> fbyte s' A p = (if p div BSIZE = n then d (p mod BSIZE) else fbyte s A p)"
    and "b \<in> R \<Longrightarrow> bmem s' (1, b) = bmem s (1, b)"
proof -
  have ok: "slot_ok (data_slot n)" by (rule data_slot_ok [OF n])
  have al: "blk_alloc s a" using file_wfD(2) [OF wf ok] a by simp
  have leaf: "\<forall>x p. slot_ok x \<longrightarrow> par x = Some p \<longrightarrow> slot_addr (mem1 s) A p \<noteq> 0 \<longrightarrow> slot_addr (mem1 s) A p \<noteq> a"
    using file_wfD(1) [OF wf par_ok ok] data_slot_leaf a(1) by metis
  note bw = block_write [OF wf m al leaf]
  show "file_wf s' A R" by (rule bw(2))
  show "fbyte s' A p = (if p div BSIZE = n then d (p mod BSIZE) else fbyte s A p)" if "p < MAXFILE * BSIZE"
  proof -
    have pn: "p div BSIZE < MAXFILE" using that by (simp add: less_mult_imp_div_less)
    note pok = data_slot_ok [OF pn]
    have ne: "slot_addr (mem1 s) A (data_slot (p div BSIZE)) \<noteq> a" if "p div BSIZE \<noteq> n"
      using file_wfD(1) [OF wf pok ok] a that data_slot_inj by metis
    show ?thesis unfolding fbyte_def Let_def bw(1) [OF pok] using a m(1) ne by auto
  qed
  show "bmem s' (1, b) = bmem s (1, b)" if "b \<in> R"
    using that file_wfD(3) [OF wf ok] a m(1) by auto
qed

lemma foreign_write:
  assumes wf: "file_wf s A R" and m: "bmem s' = (bmem s)((1, a) := d)" "sb s' = sb s" and a: "a \<in> R"
  shows "file_wf s' A R" and "p < MAXFILE * BSIZE \<Longrightarrow> fbyte s' A p = fbyte s A p"
proof -
  have al: "blk_alloc s a" by (rule file_wfD(4) [OF wf a])
  have na: "slot_addr (mem1 s) A x \<noteq> a" if "slot_ok x" "slot_addr (mem1 s) A x \<noteq> 0" for x
    using file_wfD(3) [OF wf that] a by auto
  have leaf: "\<forall>x p. slot_ok x \<longrightarrow> par x = Some p \<longrightarrow> slot_addr (mem1 s) A p \<noteq> 0 \<longrightarrow> slot_addr (mem1 s) A p \<noteq> a"
    using na par_ok by blast
  note bw = block_write [OF wf m al leaf]
  show "file_wf s' A R" by (rule bw(2))
  show "fbyte s' A p = fbyte s A p" if "p < MAXFILE * BSIZE"
  proof -
    have "p div BSIZE < MAXFILE" using that by (simp add: less_mult_imp_div_less)
    note pok = data_slot_ok [OF this]
    show ?thesis unfolding fbyte_def Let_def bw(1) [OF pok] using na [OF pok] m(1) by simp
  qed
qed

section \<open>Reading\<close>

lemma bmap_bytes:
  assumes "bmap_step R ip s s'" and "p < MAXFILE * BSIZE"
  shows "fbyte s' (addrs s' ip) p = fbyte s (addrs s ip) p"
  using assms by (simp add: bmap_step_def file_ext_def)

lemma readi_loop_effect:
  assumes "readi_loop ip (io_chunks off n) s = Ok bs s'" and "file_wf s (addrs s ip) R" and "ip < length (icache s)"
    and "off + n \<le> MAXFILE * BSIZE"
  shows "bmap_step R ip s s' \<and> bs = map (fbyte s (addrs s ip)) [off..<off + n]"
  using assms
proof (induction off n arbitrary: s bs rule: io_chunks.induct)
  case (1 off n)
  show ?case
  proof (cases "n = 0")
    case True
    then show ?thesis using 1 by (simp add: kok bmap_step_refl)
  next
    case False
    define m where "m = min n (BSIZE - off mod BSIZE)"
    note mb = chunk_bounds [OF False m_def]
    obtain a s1 bp s2 s3 rest where e1: "bmap ip (of_nat (off div BSIZE)) s = Ok a s1" and e2: "bread (i_dev (icache s ! ip)) a s1 = Ok bp s2"
      and e3: "brelse bp s2 = Ok () s3" and e4: "readi_loop ip (io_chunks (off + m) (n - m)) s3 = Ok rest s'"
      and bs: "bs = block_bytes (bmem s2 bp) (off mod BSIZE) m @ rest"
      using "1.prems"(1) by (auto simp: io_chunks_step [OF False m_def] iat_def bindK_Ok thenK_Ok getK_Ok retK_Ok bdata_Ok)
    have ol: "off < MAXFILE * BSIZE" using "1.prems"(4) False by simp
    have un: "unat (of_nat (off div BSIZE) :: uint) = off div BSIZE"
      using ol by (intro unat_of_nat_small) (simp add: fs_consts)
    note b = bmap_effect [OF e1 "1.prems"(2,3), unfolded un]
    have v: "same_view s1 s2" "bp = (1, a)" using bread_view [OF e2] by auto
    have v3: "same_view s1 s3" using v(1) brelse_view [OF e3] same_view_trans by blast
    have st: "bmap_step R ip s s3" using bmap_step_view [OF v3] b by blast
    have IH: "bmap_step R ip s3 s' \<and> rest = map (fbyte s3 (addrs s3 ip)) [off + m..<off + n]"
      using "1.IH" [OF False m_def e4 bmap_step_wf [OF st]] bmap_step_len [OF st] "1.prems"(3,4) mb by simp
    have "fbyte s3 (addrs s3 ip) p = fbyte s (addrs s ip) p" if "p < off + n" for p
      using bmap_bytes [OF st] that "1.prems"(4) by simp
    then have r: "rest = map (fbyte s (addrs s ip)) [off + m..<off + n]" using IH by simp
    have byte: "bmem s2 bp (off mod BSIZE + (p - off)) = fbyte s (addrs s ip) p" if "off \<le> p" "p < off + m" for p
    proof -
      have "p < MAXFILE * BSIZE" using that mb(2) "1.prems"(4) by linarith
      then have "fbyte s (addrs s ip) p = fbyte s1 (addrs s1 ip) p" using bmap_bytes b by metis
      then show ?thesis using b v same_block [OF that mb(3)] by (simp add: fbyte_def Let_def same_view_def)
    qed
    have "block_bytes (bmem s2 bp) (off mod BSIZE) m ! i = map (fbyte s (addrs s ip)) [off..<off + m] ! i" if "i < m" for i
      using byte [of "off + i"] that by (simp add: block_bytes_def)
    then have "block_bytes (bmem s2 bp) (off mod BSIZE) m = map (fbyte s (addrs s ip)) [off..<off + m]"
      by (intro nth_equalityI) (simp_all add: block_bytes_def)
    moreover have "[off..<off + n] = [off..<off + m] @ [off + m..<off + n]"
      using mb(2) upt_add_eq_append [of off "off + m" "n - m"] by simp
    ultimately show ?thesis using bs r bmap_step_trans [OF st] IH by simp
  qed
qed

section \<open>Writing\<close>

text \<open>A write of \<open>src\<close> at \<open>off\<close>, as a step on the bytes of the file.\<close>

definition write_step :: "uint set \<Rightarrow> nat \<Rightarrow> nat \<Rightarrow> uchar list \<Rightarrow> 'a fsst_scheme \<Rightarrow> 'a fsst_scheme \<Rightarrow> bool" where
  "write_step R ip off src s s' \<longleftrightarrow> file_wf s' (addrs s' ip) R \<and> addrs_upd ip s s' \<and> sb s' = sb s \<and>
     (\<forall>p < MAXFILE * BSIZE. fbyte s' (addrs s' ip) p =
        (if off \<le> p \<and> p < off + length src then src ! (p - off) else fbyte s (addrs s ip) p)) \<and>
     (\<forall>b \<in> R. bmem s' (1, b) = bmem s (1, b))"

lemma write_step_view:
  assumes v: "same_view t u" and w: "write_step R ip off src s t"
  shows "write_step R ip off src s u"
proof -
  have "addrs u ip = addrs t ip" "bmem u = bmem t" "sb u = sb t" using v by (simp_all add: same_view_def)
  moreover have "addrs_upd ip s u" using w addrs_upd_view [OF _ v] by (simp add: write_step_def)
  ultimately show ?thesis using w same_view_wf [OF v] same_view_fbyte [OF v] unfolding write_step_def by simp
qed

lemma bmap_write_step: "bmap_step R ip s t \<Longrightarrow> write_step R ip off [] s t"
  unfolding write_step_def bmap_step_def file_ext_def by auto

lemma write_step_append:
  assumes "write_step R ip off xs s t" and "write_step R ip (off + length xs) ys t u"
  shows "write_step R ip off (xs @ ys) s u"
  unfolding write_step_def
proof (intro conjI allI impI ballI)
  show "addrs_upd ip s u" using assms addrs_upd_trans by (metis write_step_def)
  fix p assume p: "p < MAXFILE * BSIZE"
  have 1: "fbyte t (addrs t ip) p = (if off \<le> p \<and> p < off + length xs then xs ! (p - off) else fbyte s (addrs s ip) p)"
    using assms(1) p by (simp add: write_step_def)
  have 2: "fbyte u (addrs u ip) p = (if off + length xs \<le> p \<and> p < off + length xs + length ys then ys ! (p - (off + length xs)) else fbyte t (addrs t ip) p)"
    using assms(2) p by (simp add: write_step_def)
  show "fbyte u (addrs u ip) p = (if off \<le> p \<and> p < off + length (xs @ ys) then (xs @ ys) ! (p - off) else fbyte s (addrs s ip) p)"
    using 1 2 by (auto simp: nth_append)
qed (use assms in \<open>auto simp: write_step_def\<close>)

lemma writei_chunk:
  assumes e1: "bmap ip (of_nat (off div BSIZE)) s = Ok a s1" and wf: "file_wf s (addrs s ip) R" and ip: "ip < length (icache s)"
    and src: "0 < length src" "off mod BSIZE + length src \<le> BSIZE" "off < MAXFILE * BSIZE"
    and s2: "bmem s2 = (bmem s1)((1, a) := put_bytes (bmem s1 (1, a)) (off mod BSIZE) src)" "icache s2 = icache s1" "sb s2 = sb s1"
  shows "write_step R ip off src s s2"
proof -
  have un: "unat (of_nat (off div BSIZE) :: uint) = off div BSIZE"
    using src(3) by (intro unat_of_nat_small) (simp add: fs_consts)
  have b: "bmap_step R ip s s1" "slot_addr (mem1 s1) (addrs s1 ip) (data_slot (off div BSIZE)) = a" "a \<noteq> 0" "off div BSIZE < MAXFILE"
    using bmap_effect [OF e1 wf ip, unfolded un] by auto
  note dw = data_write [OF bmap_step_wf [OF b(1)] b(4,2,3) s2(1,3)]
  have A: "addrs s2 ip = addrs s1 ip" using s2(2) by simp
  have "fbyte s2 (addrs s2 ip) p = (if off \<le> p \<and> p < off + length src then src ! (p - off) else fbyte s (addrs s ip) p)"
    if p: "p < MAXFILE * BSIZE" for p
  proof (cases "off \<le> p \<and> p < off + length src")
    case True
    define k where "k = p - off"
    have "p div BSIZE = off div BSIZE" "p mod BSIZE = off mod BSIZE + k" "k < length src"
      using True same_block [of off p "length src"] src(2) by (auto simp: k_def)
    then show ?thesis using dw(2) [OF p] True A by (simp add: put_bytes_def k_def [symmetric])
  next
    case False
    have "put_bytes (bmem s1 (1, a)) (off mod BSIZE) src (p mod BSIZE) = bmem s1 (1, a) (p mod BSIZE)" if d: "p div BSIZE = off div BSIZE"
    proof -
      define D where "D = off div BSIZE * BSIZE"
      have pd: "p = D + p mod BSIZE" "off = D + off mod BSIZE" using d unfolding D_def by (metis div_mult_mod_eq)+
      have "\<not> (off mod BSIZE \<le> p mod BSIZE \<and> p mod BSIZE < off mod BSIZE + length src)"
      proof
        assume "off mod BSIZE \<le> p mod BSIZE \<and> p mod BSIZE < off mod BSIZE + length src"
        then have "off \<le> p" "p < off + length src" using pd by linarith+
        then show False using False by simp
      qed
      then show ?thesis unfolding put_bytes_def by auto
    qed
    then have "fbyte s2 (addrs s2 ip) p = fbyte s1 (addrs s1 ip) p"
      using dw(2) [OF p] A b(2,3) by (auto simp: fbyte_def Let_def)
    then show ?thesis using False bmap_bytes [OF b(1) p] by auto
  qed
  moreover have "addrs_upd ip s s2" using b(1) s2(2) by (simp add: bmap_step_def addrs_upd_def)
  moreover have "\<forall>c \<in> R. bmem s1 (1, c) = bmem s (1, c)" "sb s1 = sb s" using b(1) by (auto simp: bmap_step_def file_ext_def)
  ultimately show ?thesis unfolding write_step_def using dw(1,3) A s2(3) by simp
qed

lemma writei_loop_effect:
  assumes "writei_loop ip (io_chunks off n) src s = Ok r s'" and "file_wf s (addrs s ip) R" and "ip < length (icache s)"
    and "off + n \<le> MAXFILE * BSIZE" and "n \<le> length src"
  shows "write_step R ip off (take n src) s s'"
  using assms
proof (induction off n arbitrary: s src rule: io_chunks.induct)
  case (1 off n)
  show ?case
  proof (cases "n = 0")
    case True
    then show ?thesis using 1 bmap_write_step [OF bmap_step_refl] by (simp add: kok)
  next
    case False
    define m where "m = min n (BSIZE - off mod BSIZE)"
    note mb = chunk_bounds [OF False m_def]
    obtain a s1 bp s2 s4 s5 where e1: "bmap ip (of_nat (off div BSIZE)) s = Ok a s1" and e2: "bread (i_dev (icache s ! ip)) a s1 = Ok bp s2"
      and e4: "log_write bp (s2\<lparr>bmem := (bmem s2)(bp := put_bytes (bmem s2 bp) (off mod BSIZE) (take m src))\<rparr>) = Ok () s4"
      and e5: "brelse bp s4 = Ok () s5" and e6: "writei_loop ip (io_chunks (off + m) (n - m)) (drop m src) s5 = Ok r s'"
      using "1.prems"(1) by (auto simp: io_chunks_step [OF False m_def] iat_def bindK_Ok thenK_Ok getK_Ok retK_Ok bdata_Ok set_bdata_Ok)
    have v: "same_view s1 s2" "bp = (1, a)" using bread_view [OF e2] by auto
    let ?s3 = "s2\<lparr>bmem := (bmem s2)(bp := put_bytes (bmem s2 bp) (off mod BSIZE) (take m src))\<rparr>"
    have tl: "length (take m src) = m" using mb(2) "1.prems"(5) by simp
    have "write_step R ip off (take m src) s ?s3"
      by (rule writei_chunk [OF e1 "1.prems"(2,3)])
        (use tl mb "1.prems"(4) False v in \<open>auto simp: same_view_def\<close>)
    moreover have "same_view ?s3 s5" using log_write_view [OF e4] brelse_view [OF e5] same_view_trans by blast
    ultimately have st: "write_step R ip off (take m src) s s5" by (rule write_step_view [rotated])
    have "write_step R ip (off + m) (take (n - m) (drop m src)) s5 s'"
    proof (rule "1.IH" [OF False m_def e6])
      show "file_wf s5 (addrs s5 ip) R" using st by (simp add: write_step_def)
      show "ip < length (icache s5)" using st "1.prems"(3) by (auto simp: write_step_def addrs_upd_def)
    qed (use "1.prems"(4,5) mb in auto)
    then have "write_step R ip off (take m src @ take (n - m) (drop m src)) s s'"
      using write_step_append [OF st] tl by simp
    moreover have "take m src @ take (n - m) (drop m src) = take n src" using mb(2) by (metis le_add_diff_inverse take_add)
    ultimately show ?thesis by simp
  qed
qed

section \<open>The file operations\<close>

lemma no_wrap:
  assumes "\<not> (off :: uint) + n < off"
  shows "unat (off + n) = unat off + unat n"
proof -
  have "unat off + unat n < 2 ^ 32"
  proof (rule ccontr)
    assume "\<not> unat off + unat n < 2 ^ 32"
    then have "unat (off + n) = unat off + unat n - 2 ^ 32"
      using unat_lt_2p32 [of off] unat_lt_2p32 [of n] by (simp add: unat_word_ariths(1) mod_if)
    then have "unat (off + n) < unat off" using unat_lt_2p32 [of n] \<open>\<not> unat off + unat n < 2 ^ 32\<close> by simp
    then show False using assms by (simp add: word_less_nat_alt)
  qed
  then show ?thesis using unat_add_noovf [of off n] by simp
qed

lemma sint_small: "unat (n :: uint) \<le> MAXFILE * BSIZE \<Longrightarrow> sint n = int (unat n)"
proof -
  assume "unat n \<le> MAXFILE * BSIZE"
  then have "unat n < 2147483648" by (simp add: fs_consts)
  then have "uint n < 2147483648" unfolding uint_nat by linarith
  moreover have "- 2147483648 \<le> uint n" using unsigned_greater_eq [of n, where ?'a = int] by linarith
  ultimately show "sint n = int (unat n)" using signed_take_bit_int_eq_self [of 31 "uint n"] by (simp add: sint_uint)
qed

lemma iupdate_effect:
  assumes "iupdate ip s = Ok r s'"
  shows "bmem s' = (bmem s)((1, IBLOCK (i_inum (icache s ! ip)) (sb s)) :=
      put_dinode (bmem s (1, IBLOCK (i_inum (icache s ! ip)) (sb s))) (islot (i_inum (icache s ! ip))) (dinode_of (icache s ! ip)))
    \<and> icache s' = icache s \<and> sb s' = sb s"
  using assms by (auto simp: iupdate_def iat_def kok)

lemma readi_effect:
  assumes e: "readi devsw ip off n s = Ok (k, bs) s'" and wf: "file_wf s (addrs s ip) R" and ip: "ip < length (icache s)"
    and nd: "i_type (icache s ! ip) \<noteq> T_DEV" and sz: "unat (i_size (icache s ! ip)) \<le> MAXFILE * BSIZE" and k: "k \<noteq> -1"
  shows "bmap_step R ip s s' \<and> k = int (min (unat n) (unat (i_size (icache s ! ip)) - unat off)) \<and>
    bs = map (fbyte s (addrs s ip)) [unat off..<min (unat off + unat n) (unat (i_size (icache s ! ip)))]"
proof -
  let ?size = "i_size (icache s ! ip)"
  have g: "\<not> off > ?size" "\<not> off + n < off"
    using e nd k by (auto simp: readi_def iat_def kok Let_def split: if_splits)
  have w: "unat (off + n) = unat off + unat n" by (rule no_wrap [OF g(2)])
  have le: "unat off \<le> unat ?size" using g(1) by (simp add: word_less_nat_alt)
  define n' where "n' = (if off + n > ?size then ?size - off else n)"
  have un: "unat n' = min (unat n) (unat ?size - unat off)"
    using le w by (auto simp: n'_def word_less_nat_alt unat_sub word_le_nat_alt)
  have nb: "unat n' \<le> MAXFILE * BSIZE" using un sz by linarith
  have "readi_loop ip (io_chunks (unat off) (unat n')) s = Ok bs s'" "k = sint n'"
    using e nd g by (auto simp: readi_def iat_def kok Let_def n'_def split: if_splits)
  moreover have "unat off + unat n' \<le> MAXFILE * BSIZE" using un sz le by linarith
  ultimately have "bmap_step R ip s s' \<and> bs = map (fbyte s (addrs s ip)) [unat off..<unat off + unat n']" "k = int (unat n')"
    using readi_loop_effect [OF _ wf ip] sint_small [OF nb] by auto
  moreover have "unat off + unat n' = min (unat off + unat n) (unat ?size)" using un le by linarith
  ultimately show ?thesis using un by simp
qed

text \<open>\<^verbatim>\<open>readi\<close> of a well-formed file returns the bytes of the file from the offset up to the requested number
  or the end of the file, whichever comes first, and how many they are. It changes neither the bytes of the file nor
  any block outside it (the only thing it may do is to fill a hole with a zeroed block).\<close>

lemma readi_correct:
  assumes "readi devsw ip off n s = Ok (k, bs) s'" and "file_wf s (addrs s ip) R" and "ip < length (icache s)"
    and "i_type (icache s ! ip) \<noteq> T_DEV" and "unat (i_size (icache s ! ip)) \<le> MAXFILE * BSIZE" and "k \<noteq> -1"
  shows "k = int (length bs) \<and>
    bs = map (fbyte s (addrs s ip)) [unat off..<min (unat off + unat n) (unat (i_size (icache s ! ip)))] \<and>
    file_wf s' (addrs s' ip) R \<and> (\<forall>p < MAXFILE * BSIZE. fbyte s' (addrs s' ip) p = fbyte s (addrs s ip) p) \<and>
    (\<forall>b \<in> R. bmem s' (1, b) = bmem s (1, b))"
  using readi_effect [OF assms] by (auto simp: bmap_step_def file_ext_def)

lemma writei_effect:
  assumes e: "writei devsw ip src off n s = Ok r s'" and wf: "file_wf s (addrs s ip) R" and ip: "ip < length (icache s)"
    and nd: "i_type (icache s ! ip) \<noteq> T_DEV" and r: "r \<noteq> -1" and src: "length src = unat n"
    and ib: "IBLOCK (i_inum (icache s ! ip)) (sb s) \<in> R"
  shows "r = int (unat n) \<and> unat off + unat n \<le> MAXFILE * BSIZE \<and> file_wf s' (addrs s' ip) R \<and>
    icache s' ! ip = (icache s ! ip)\<lparr>i_addrs := addrs s' ip, i_size := max (i_size (icache s ! ip)) (off + n)\<rparr> \<and>
    (\<forall>p < MAXFILE * BSIZE. fbyte s' (addrs s' ip) p =
       (if unat off \<le> p \<and> p < unat off + unat n then src ! (p - unat off) else fbyte s (addrs s ip) p)) \<and>
    (\<forall>b \<in> R. b \<noteq> IBLOCK (i_inum (icache s ! ip)) (sb s) \<longrightarrow> bmem s' (1, b) = bmem s (1, b)) \<and>
    length (icache s') = length (icache s) \<and> (\<forall>j. j \<noteq> ip \<longrightarrow> icache s' ! j = icache s ! j)"
proof -
  let ?x = "icache s ! ip"
  have g: "\<not> off > i_size ?x" "\<not> off + n < off" "\<not> unat (off + n) > MAXFILE * BSIZE"
    using e nd r by (auto simp: writei_def iat_def kok Let_def split: if_splits)
  have w: "unat (off + n) = unat off + unat n" by (rule no_wrap [OF g(2)])
  obtain s1 where e1: "writei_loop ip (io_chunks (unat off) (unat n)) src s = Ok () s1" and rn: "r = sint n"
    and e2: "whenK (n > 0 \<and> off + n > i_size ?x) (thenK (upd_inode ip (\<lambda>x. x\<lparr>i_size := off + n\<rparr>)) (iupdate ip)) s1 = Ok () s'"
    using e nd g by (auto simp: writei_def iat_def bindK_Ok thenK_Ok getK_Ok retK_Ok Let_def split: if_splits)
  have st: "write_step R ip (unat off) src s s1"
    using writei_loop_effect [OF e1 wf ip] g(3) w src by simp
  obtain A where ic1: "icache s1 = (icache s)[ip := ?x\<lparr>i_addrs := A\<rparr>]" using st by (auto simp: write_step_def addrs_upd_def)
  have x1: "icache s1 ! ip = ?x\<lparr>i_addrs := addrs s1 ip\<rparr>" "length (icache s1) = length (icache s)"
    "\<forall>j. j \<noteq> ip \<longrightarrow> icache s1 ! j = icache s ! j" and sb1: "sb s1 = sb s"
    using st ip by (simp_all add: ic1 write_step_def)
  have rr: "r = int (unat n)" using rn sint_small [of n] g(3) w by simp
  show ?thesis
  proof (cases "n > 0 \<and> off + n > i_size ?x")
    case False
    then have ss: "s' = s1" using e2 by (auto simp: whenK_def kok)
    have "max (i_size ?x) (off + n) = i_size ?x" using False g(1) by (cases "n = 0") (auto simp: max_def not_less word_gt_0)
    then have "icache s1 ! ip = ?x\<lparr>i_addrs := addrs s1 ip, i_size := max (i_size ?x) (off + n)\<rparr>" using ip by (simp add: ic1)
    then show ?thesis unfolding ss using st x1(2,3) rr g(3) w src unfolding write_step_def by simp
  next
    case True
    define s2 where "s2 = s1\<lparr>icache := (icache s1)[ip := (icache s1 ! ip)\<lparr>i_size := off + n\<rparr>]\<rparr>"
    have e3: "iupdate ip s2 = Ok () s'" using e2 True by (auto simp: whenK_def kok upd_inode_def s2_def)
    have ip1: "ip < length (icache s1)" using x1(2) ip by simp
    have in2: "i_inum (icache s2 ! ip) = i_inum ?x" "sb s2 = sb s" "addrs s2 ip = addrs s1 ip" "bmem s2 = bmem s1"
      using ip sb1 by (simp_all add: s2_def ic1)
    note up = iupdate_effect [OF e3, unfolded in2(1,2)]
    have ic: "icache s' = icache s2" "sb s' = sb s1" and bm: "bmem s' = (bmem s1)((1, IBLOCK (i_inum ?x) (sb s)) :=
      put_dinode (bmem s1 (1, IBLOCK (i_inum ?x) (sb s))) (islot (i_inum ?x)) (dinode_of (icache s2 ! ip)))"
      using up in2 sb1 by auto
    have w1: "file_wf s1 (addrs s1 ip) R" using st by (simp add: write_step_def)
    note fw = foreign_write [OF w1 bm ic(2) ib]
    have A: "addrs s' ip = addrs s1 ip" using ic(1) in2(3) by simp
    have "max (i_size ?x) (off + n) = off + n" using True by (simp add: max_def order_less_imp_le)
    moreover have "icache s' ! ip = ?x\<lparr>i_addrs := addrs s' ip, i_size := off + n\<rparr>"
      using ic(1) ip by (simp add: s2_def ic1)
    moreover have "bmem s' (1, b) = bmem s (1, b)" if "b \<in> R" "b \<noteq> IBLOCK (i_inum ?x) (sb s)" for b
      using bm that st by (simp add: write_step_def)
    moreover have "length (icache s') = length (icache s) \<and> (\<forall>j. j \<noteq> ip \<longrightarrow> icache s' ! j = icache s ! j)"
      using ic(1) by (simp add: s2_def ic1)
    ultimately show ?thesis using rr g(3) w src fw st unfolding A write_step_def by simp
  qed
qed

text \<open>(C18) \<^verbatim>\<open>writei\<close> of a well-formed file changes exactly the bytes it is asked to write, makes the file as long as
  the end of the write if it was shorter, and returns the number of bytes. The file stays well formed, whatever new
  direct, indirect and double indirect blocks the write needed; no block outside the file changes but the one that holds
  the inode; no other inode changes.\<close>

theorem writei_correct:
  assumes "writei devsw ip src off n s = Ok r s'" and "file_wf s (addrs s ip) R" and "ip < length (icache s)"
    and "i_type (icache s ! ip) \<noteq> T_DEV" and "r \<noteq> -1" and "length src = unat n" and "IBLOCK (i_inum (icache s ! ip)) (sb s) \<in> R"
  shows "r = int (unat n) \<and> file_wf s' (addrs s' ip) R \<and> i_size (icache s' ! ip) = max (i_size (icache s ! ip)) (off + n) \<and>
    (\<forall>p < MAXFILE * BSIZE. fbyte s' (addrs s' ip) p =
       (if unat off \<le> p \<and> p < unat off + unat n then src ! (p - unat off) else fbyte s (addrs s ip) p)) \<and>
    (\<forall>b \<in> R. b \<noteq> IBLOCK (i_inum (icache s ! ip)) (sb s) \<longrightarrow> bmem s' (1, b) = bmem s (1, b)) \<and>
    (\<forall>j. j \<noteq> ip \<longrightarrow> icache s' ! j = icache s ! j)"
proof -
  note e = writei_effect [OF assms]
  then have "icache s' ! ip = (icache s ! ip)\<lparr>i_addrs := addrs s' ip, i_size := max (i_size (icache s ! ip)) (off + n)\<rparr>" by blast
  from arg_cong [OF this, of i_size] have "i_size (icache s' ! ip) = max (i_size (icache s ! ip)) (off + n)" by simp
  then show ?thesis using e by blast
qed

text \<open>(C15) Read after write.  Reading back the range that was just written returns the bytes that were written.\<close>

theorem writei_readi:
  assumes w: "writei devsw ip src off n s = Ok r s'" and wf: "file_wf s (addrs s ip) R" and ip: "ip < length (icache s)"
    and nd: "i_type (icache s ! ip) \<noteq> T_DEV" and r: "r \<noteq> -1" and src: "length src = unat n"
    and ib: "IBLOCK (i_inum (icache s ! ip)) (sb s) \<in> R" and sz: "unat (i_size (icache s ! ip)) \<le> MAXFILE * BSIZE"
    and rd: "readi devsw ip off n s' = Ok (k, bs) s''" and k: "k \<noteq> -1"
  shows "k = int (unat n) \<and> bs = src"
proof -
  note e = writei_effect [OF w wf ip nd r src ib]
  let ?x = "icache s ! ip" and ?y = "icache s' ! ip"
  have ye: "?y = ?x\<lparr>i_addrs := addrs s' ip, i_size := max (i_size ?x) (off + n)\<rparr>" using e by blast
  have y: "i_type ?y = i_type ?x" "i_size ?y = max (i_size ?x) (off + n)"
    using arg_cong [OF ye, of i_type] arg_cong [OF ye, of i_size] by simp_all
  have nw: "unat (off + n) = unat off + unat n"
    using w nd r by (intro no_wrap) (auto simp: writei_def iat_def kok Let_def split: if_splits)
  have szy: "unat (i_size ?y) = max (unat (i_size ?x)) (unat off + unat n)" using y(2) nw by (simp add: max_def word_le_nat_alt)
  have "k = int (min (unat n) (unat (i_size ?y) - unat off))" and
      bs: "bs = map (fbyte s' (addrs s' ip)) [unat off..<min (unat off + unat n) (unat (i_size ?y))]"
    using readi_effect [OF rd, of R] e ip nd y(1) k szy sz by auto
  moreover have "min (unat off + unat n) (unat (i_size ?y)) = unat off + unat n" "min (unat n) (unat (i_size ?y) - unat off) = unat n"
    using szy by auto
  ultimately have "k = int (unat n)" "bs = map (fbyte s' (addrs s' ip)) [unat off..<unat off + unat n]" by auto
  moreover have "map (fbyte s' (addrs s' ip)) [unat off..<unat off + unat n] = src"
    using e src by (intro nth_equalityI) auto
  ultimately show ?thesis by simp
qed

section \<open>A concrete file\<close>

text \<open>A file of one byte in block 8 of the small file system; the inode is in block 4.\<close>

definition no_dev :: "int \<Rightarrow> 's devsw" where
  "no_dev _ = \<lparr>dev_read = None, dev_write = None\<rparr>"

definition one_file :: inode where
  "one_file = \<lparr>i_dev = 1, i_inum = 1, i_ref = 1, i_valid = True, i_type = T_FILE, i_major = 0, i_minor = 0, i_nlink = 1,
     i_size = 1, i_addrs = 8 # replicate (NDIRECT + 1) 0\<rparr>"

definition fs_file :: fsst where
  "fs_file = fs_one\<lparr>icache := [one_file]\<rparr>"

lemma fs_one_used: "unat b < 20 \<Longrightarrow> blk_used fs_one b \<longleftrightarrow> unat b < 9"
  using fs_one_BBLOCK [of b] fs_one_bits [of "unat b"] by (simp add: blk_used_def BPB_def BSIZE_def)

lemma fs_file_wf: "file_wf fs_file (addrs fs_file 0) {4}"
proof -
  let ?f = "slot_addr (mem1 fs_file) (addrs fs_file 0)"
  have sb: "sb fs_file = sb fs_one" "sb_size (sb fs_one) = 20" by (simp_all add: fs_file_def fs_one_def)
  have us: "blk_used fs_file b = blk_used fs_one b" for b by (simp add: blk_used_def fs_file_def)
  have z: "?f x = (if x = Dir 0 then 8 else 0)" if "slot_ok x" for x
    using that
  proof (induction x rule: slot_par_induct)
    case (root x)
    have a: "addrs fs_file 0 ! k = (if k = 0 then 8 else 0)" if "k < NDIRECT + 2" for k
      using that by (cases k) (simp_all add: fs_file_def one_file_def del: replicate.simps replicate_Suc)
    show ?case
    proof (cases "x = Dir 0")
      case True
      then show ?thesis using a [of 0] by simp
    next
      case False
      then have "idx x \<noteq> 0" using root_inj [of x "Dir 0"] root by (auto simp: NDIRECT_def)
      then show ?thesis using a root_idx [of x] root False by (simp add: slot_addr_root)
    qed
  next
    case (child x p)
    then have "p \<noteq> Dir 0 \<and> x \<noteq> Dir 0" by (cases x) auto
    then show ?case using child par_ok [of x p] by (simp add: slot_addr_child entry_def)
  qed
  have "bitmap_ok fs_file" using fs_one_ok by (simp add: bitmap_ok_def us sb)
  then have "bitmap_wf fs_file"
    using fs_one_used [of 0] fs_one_BBLOCK by (simp add: bitmap_wf_def us sb)
  moreover have "blk_alloc fs_file 4" "blk_alloc fs_file 8"
    using fs_one_used [of 4] fs_one_used [of 8] fs_one_BBLOCK by (simp_all add: blk_alloc_def us sb)
  moreover have "length (addrs fs_file 0) = NDIRECT + 2" by (simp add: fs_file_def one_file_def)
  moreover have "x = y" if "slot_ok x" "slot_ok y" "?f x = ?f y" "?f x \<noteq> 0" for x y
    using that z [OF that(1)] z [OF that(2)] by (cases "x = Dir 0"; cases "y = Dir 0") simp_all
  moreover have "blk_alloc fs_file (?f x) \<and> ?f x \<notin> {4}" if "slot_ok x" "?f x \<noteq> 0" for x
    using that z [OF that(1)] \<open>blk_alloc fs_file 8\<close> by (cases "x = Dir 0") simp_all
  ultimately show ?thesis unfolding file_wf_def by blast
qed

lemma io_chunks_one: "io_chunks 0 (Suc 0) = [(0, Suc 0)]"
  by (subst io_chunks.simps) (simp add: BSIZE_def)

lemma fs_file_write: "\<exists>s'. writei no_dev 0 [65] 0 1 fs_file = Ok 1 s' \<and> (\<exists>s''. readi no_dev 0 0 1 s' = Ok (1, [65]) s'')"
  by (simp add: writei_def readi_def io_chunks_one iat_def kok bmap_def addr_or_alloc_def fs_file_def one_file_def T_FILE_def
      T_DEV_def fs_consts Let_def)
   (simp add: fs_one_def kok running_def slk_mine_def mypid_def binuse_def NBUF_def LOGSIZE_def MAXOPBLOCKS_def
      block_bytes_def put_bytes_def absorb_def)

lemma fs_file_iblock: "IBLOCK (i_inum (icache fs_file ! 0)) (sb fs_file) \<in> {4}"
  by (simp add: IBLOCK_def fs_file_def one_file_def fs_one_def IPB_def BSIZE_def)

theorem writei_correct_witness:
  "\<exists>s'. writei no_dev 0 [65] 0 1 fs_file = Ok 1 s' \<and> fbyte s' (addrs s' 0) 0 = 65 \<and> file_wf s' (addrs s' 0) {4}"
proof -
  obtain s' where e: "writei no_dev 0 [65] 0 1 fs_file = Ok 1 s'" using fs_file_write by blast
  show ?thesis using writei_correct [OF e fs_file_wf _ _ _ _ fs_file_iblock] e
    by (simp add: fs_file_def one_file_def T_FILE_def T_DEV_def fs_consts)
qed

theorem writei_readi_witness:
  "\<exists>s' bs s''. writei no_dev 0 [65] 0 1 fs_file = Ok 1 s' \<and> readi no_dev 0 0 1 s' = Ok (1, bs) s'' \<and> bs = [65]"
proof -
  obtain s' s'' where e: "writei no_dev 0 [65] 0 1 fs_file = Ok 1 s'" and r: "readi no_dev 0 0 1 s' = Ok (1, [65]) s''"
    using fs_file_write by blast
  show ?thesis using writei_readi [OF e fs_file_wf _ _ _ _ fs_file_iblock _ r] e r
    by (simp add: fs_file_def one_file_def T_FILE_def T_DEV_def fs_consts)
qed

end
