(* ===== verification/ICache.thy ===== *)
theory ICache
  imports FileData
begin

text \<open>
  The inode cache of \<^verbatim>\<open>kernel/fs.c\<close>: the reference counts that \<^verbatim>\<open>iget\<close>, \<^verbatim>\<open>idup\<close> and
  \<^verbatim>\<open>iput\<close> keep, that an inode has at most one entry in use, and that the cache is write-through.
\<close>

section \<open>Reference counts\<close>

text \<open>What identifies the entries of the inode cache.\<close>

definition ikeys :: "'a fsst_scheme \<Rightarrow> (uint \<times> uint \<times> int) list" where
  "ikeys s = map (\<lambda>x. (i_dev x, i_inum x, i_ref x)) (icache s)"

lemma ikeys_upd:
  assumes "\<And>x. (i_dev (f x), i_inum (f x), i_ref (f x)) = (i_dev x, i_inum x, i_ref x)"
  shows "ikeys (s\<lparr>icache := (icache s)[ip := f (icache s ! ip)]\<rparr>) = ikeys s"
proof (cases "ip < length (icache s)")
  case True
  then show ?thesis using assms [of "icache s ! ip"] by (simp add: ikeys_def map_update list_update_same_conv)
next
  case False
  then show ?thesis by (simp add: ikeys_def list_update_beyond)
qed

lemma upd_inode_ikeys:
  assumes "upd_inode ip f s = Ok r s'" and "\<And>x. (i_dev (f x), i_inum (f x), i_ref (f x)) = (i_dev x, i_inum x, i_ref x)"
  shows "ikeys s' = ikeys s"
  using assms ikeys_upd [of f s ip] by (simp add: upd_inode_def kok)

lemma view_ikeys: "same_view s s' \<Longrightarrow> ikeys s' = ikeys s"
  by (simp add: same_view_def ikeys_def)

lemma frame_ikeys: "fs_frame s s' \<Longrightarrow> ikeys s' = ikeys s"
  by (simp add: fs_frame_def ikeys_def)

lemma set_bdata_ikeys: "set_bdata k d s = Ok r s' \<Longrightarrow> ikeys s' = ikeys s"
  by (auto simp: set_bdata_Ok ikeys_def)

lemma set_addr_ikeys: "set_addr ip i a s = Ok r s' \<Longrightarrow> ikeys s' = ikeys s"
  unfolding set_addr_def by (erule upd_inode_ikeys) simp

lemma iupdate_ikeys: "iupdate ip s = Ok r s' \<Longrightarrow> ikeys s' = ikeys s"
  using iupdate_effect [of ip s r s'] by (simp add: ikeys_def)

lemma bfree_ikeys: "bfree dev b s = Ok r s' \<Longrightarrow> ikeys s' = ikeys s"
  using bfree_effect [of dev b s r s'] frame_ikeys by blast

lemma bread_ikeys: "bread dev b s = Ok r s' \<Longrightarrow> ikeys s' = ikeys s"
  using bread_view view_ikeys by blast

lemma brelse_ikeys: "brelse b s = Ok r s' \<Longrightarrow> ikeys s' = ikeys s"
  using brelse_view view_ikeys by blast

lemmas ikeys_steps = set_bdata_ikeys set_addr_ikeys iupdate_ikeys bfree_ikeys bread_ikeys brelse_ikeys
lemmas monad_Ok = whenK_Ok bindK_Ok thenK_Ok getK_Ok retK_Ok bdata_Ok

lemma bfree_entries_ikeys:
  assumes "bfree_entries dev bp s = Ok r s'"
  shows "ikeys s' = ikeys s"
  using assms unfolding bfree_entries_def
  by (rule forK_inv [where P = "\<lambda>t. ikeys t = ikeys s"])
    (auto simp: monad_Ok dest!: ikeys_steps split: if_splits)

lemma itrunc_entry_ikeys:
  assumes "itrunc_entry dev dbp k s = Ok r s'"
  shows "ikeys s' = ikeys s"
  using assms
  by (auto simp: itrunc_entry_def monad_Ok dest!: ikeys_steps bfree_entries_ikeys split: if_splits)

lemma itrunc_ikeys:
  assumes "itrunc ip s = Ok r s'"
  shows "ikeys s' = ikeys s"
proof -
  have 1: "ikeys u = ikeys t" if "itrunc_direct ip dev t = Ok z u" for dev t z u
    using that unfolding itrunc_direct_def
    by (rule forK_inv [where P = "\<lambda>v. ikeys v = ikeys t"])
      (auto simp: monad_Ok iat_def dest!: ikeys_steps split: if_splits)
  have 2: "ikeys u = ikeys t" if "itrunc_indirect ip dev t = Ok z u" for dev t z u
    using that by (auto simp: itrunc_indirect_def iat_def monad_Ok dest!: ikeys_steps bfree_entries_ikeys split: if_splits)
  have 3: "ikeys u = ikeys t" if "forK [0..<NINDIRECT] (itrunc_entry dev dbp) t = Ok z u" for dev dbp t z u
    using that by (rule forK_inv [where P = "\<lambda>v. ikeys v = ikeys t"]) (auto dest: itrunc_entry_ikeys)
  have 4: "ikeys u = ikeys t" if "itrunc_dindirect ip dev t = Ok z u" for dev t z u
    using that by (auto simp: itrunc_dindirect_def iat_def monad_Ok dest!: ikeys_steps 3 split: if_splits)
  obtain t u v w where "itrunc_direct ip (i_dev (icache s ! ip)) s = Ok () t" "itrunc_indirect ip (i_dev (icache s ! ip)) t = Ok () u"
    "itrunc_dindirect ip (i_dev (icache s ! ip)) u = Ok () v" "upd_inode ip (\<lambda>x. x\<lparr>i_size := 0\<rparr>) v = Ok () w" "iupdate ip w = Ok r s'"
    using assms by (auto simp: itrunc_def monad_Ok)
  moreover from this(4) have "ikeys w = ikeys v" by (rule upd_inode_ikeys) simp
  ultimately show ?thesis using 1 2 4 iupdate_ikeys by metis
qed

lemma iput_free_ikeys:
  assumes "iput_free ip s = Ok r s'"
  shows "ikeys s' = ikeys s"
proof -
  have k: "ikeys (t\<lparr>klocks := l\<rparr>) = ikeys t" for t :: "'a fsst_scheme" and l by (simp add: ikeys_def)
  have u: "ikeys w = ikeys t" if "upd_inode ip f t = Ok z w" "f = (\<lambda>x. x\<lparr>i_type := 0\<rparr>) \<or> f = (\<lambda>x. x\<lparr>i_valid := False\<rparr>)" for f t z w
    using that(1) by (rule upd_inode_ikeys) (use that(2) in auto)
  show ?thesis using assms
    by (auto simp: iput_free_def monad_Ok acquire_Ok release_Ok k split: if_splits dest!: itrunc_ikeys iupdate_ikeys u)
qed

text \<open>\<^verbatim>\<open>iput\<close> drops exactly one reference, whether or not it frees the inode.\<close>

lemma iput_ikeys:
  assumes "iput ip s = Ok r s'" and "ip < length (icache s)"
  shows "ikeys s' = (ikeys s)[ip := (i_dev (icache s ! ip), i_inum (icache s ! ip), i_ref (icache s ! ip) - 1)]"
proof -
  obtain t1 t2 t3 t4 t5 where 1: "acquiresleep (SL_inode ip) s = Ok () t1"
    and 2: "whenK (i_valid (icache t1 ! ip) \<and> i_nlink (icache t1 ! ip) = 0) (iput_free ip) t1 = Ok () t2"
    and 3: "releasesleep (SL_inode ip) t2 = Ok () t3"
    and 4: "acquire L_icache t3 = Ok () t4" "upd_inode ip (\<lambda>x. x\<lparr>i_ref := i_ref x - 1\<rparr>) t4 = Ok () t5" "release L_icache t5 = Ok () s'"
    using assms(1) unfolding iput_def iat_def thenK_Ok bindK_Ok getK_Ok by auto
  have "ikeys t1 = ikeys s" using 1 by (simp add: acquiresleep_Ok ikeys_def)
  moreover have "ikeys t3 = ikeys t2" using 3 by (simp add: releasesleep_Ok ikeys_def)
  moreover have "ikeys t2 = ikeys t1" using 2 iput_free_ikeys by (auto simp: whenK_Ok split: if_splits)
  ultimately have k: "ikeys t3 = ikeys s" by simp
  then have len: "length (icache t3) = length (icache s)" by (drule_tac arg_cong [where f = length]) (simp add: ikeys_def)
  have "ikeys s' = (ikeys t3)[ip := (i_dev (icache t3 ! ip), i_inum (icache t3 ! ip), i_ref (icache t3 ! ip) - 1)]"
    using 4 by (auto simp: acquire_Ok release_Ok upd_inode_def modK_Ok ikeys_def map_update)
  moreover have "ikeys t3 ! ip = ikeys s ! ip" using k by simp
  then have "i_dev (icache t3 ! ip) = i_dev (icache s ! ip)" "i_inum (icache t3 ! ip) = i_inum (icache s ! ip)" "i_ref (icache t3 ! ip) = i_ref (icache s ! ip)"
    using assms(2) len by (auto simp: ikeys_def)
  ultimately show ?thesis using k by simp
qed

definition icached :: "uint \<Rightarrow> uint \<Rightarrow> 'a fsst_scheme \<Rightarrow> nat \<Rightarrow> bool" where
  "icached dev inum s i \<longleftrightarrow> i < NINODE \<and> 0 < i_ref (icache s ! i) \<and> i_dev (icache s ! i) = dev \<and> i_inum (icache s ! i) = inum"

text \<open>The invariant of the inode cache: no inode has two entries in use.\<close>

definition icache_ok :: "'a fsst_scheme \<Rightarrow> bool" where
  "icache_ok s \<longleftrightarrow> length (icache s) = NINODE \<and> (\<forall>i < NINODE. 0 \<le> i_ref (icache s ! i)) \<and>
     (\<forall>dev inum i j. icached dev inum s i \<longrightarrow> icached dev inum s j \<longrightarrow> i = j)"

lemma iget_cached:
  assumes ok: "icache_ok s" and l: "klocks s = []" and c: "icached dev inum s i"
  shows "iget dev inum s = Ok i (s\<lparr>icache := (icache s)[i := (icache s ! i)\<lparr>i_ref := i_ref (icache s ! i) + 1\<rparr>]\<rparr>)"
proof -
  let ?P = "\<lambda>i. i_ref (icache s ! i) > 0 \<and> i_dev (icache s ! i) = dev \<and> i_inum (icache s ! i) = inum"
  have "find ?P [0..<NINODE] \<noteq> None" using c by (auto simp: find_None_iff icached_def)
  then obtain j where j: "find ?P [0..<NINODE] = Some j" by auto
  then have "icached dev inum s j" using find_SomeD [OF j] by (auto simp: icached_def)
  then have "j = i" using ok c by (auto simp: icache_ok_def)
  then show ?thesis using j l
    by (simp add: iget_def thenK_def bindK_def acquire_def release_def upd_inode_def kdefs klocks_self)
qed

lemma iget_uncached:
  assumes l: "klocks s = []" and c: "\<forall>i. \<not> icached dev inum s i"
  shows "iget dev inum s = (case find (\<lambda>i. i_ref (icache s ! i) = 0) [0..<NINODE] of None \<Rightarrow> Panic ''iget: no inodes''
     | Some i \<Rightarrow> Ok i (s\<lparr>icache := (icache s)[i := (icache s ! i)\<lparr>i_dev := dev, i_inum := inum, i_ref := 1, i_valid := False\<rparr>]\<rparr>))"
proof -
  let ?P = "\<lambda>i. i_ref (icache s ! i) > 0 \<and> i_dev (icache s ! i) = dev \<and> i_inum (icache s ! i) = inum"
  have "find ?P [0..<NINODE] = None" using c by (auto simp: find_None_iff icached_def)
  then show ?thesis using l
    by (cases "find (\<lambda>i. i_ref (icache s ! i) = 0) [0..<NINODE]")
      (simp_all add: iget_def thenK_def bindK_def acquire_def release_def upd_inode_def kdefs klocks_self)
qed

text \<open>(C20) \<^verbatim>\<open>iget\<close> keeps the invariant that an inode has at most one entry in use: it returns the entry of the inode
  with one more reference when there is one, and otherwise takes over an unused entry with one reference, marked as
  not yet read from disk; it panics only when all entries are in use by other inodes.\<close>

theorem iget_correct:
  assumes ok: "icache_ok s" and l: "klocks s = []"
  shows "(\<exists>ip s'. iget dev inum s = Ok ip s' \<and> icache_ok s' \<and> icached dev inum s' ip \<and>
            (if \<exists>i. icached dev inum s i then icached dev inum s ip \<and> i_ref (icache s' ! ip) = i_ref (icache s ! ip) + 1
             else i_ref (icache s ! ip) = 0 \<and> i_ref (icache s' ! ip) = 1 \<and> \<not> i_valid (icache s' ! ip)) \<and>
            (\<forall>j. j \<noteq> ip \<longrightarrow> icache s' ! j = icache s ! j))
         \<or> iget dev inum s = Panic ''iget: no inodes'' \<and> (\<forall>i < NINODE. 0 < i_ref (icache s ! i) \<and> \<not> icached dev inum s i)"
proof (cases "\<exists>i. icached dev inum s i")
  case True
  then obtain i where i: "icached dev inum s i" by blast
  let ?s = "s\<lparr>icache := (icache s)[i := (icache s ! i)\<lparr>i_ref := i_ref (icache s ! i) + 1\<rparr>]\<rparr>"
  have len: "length (icache s) = NINODE" "i < NINODE" "0 < i_ref (icache s ! i)" using ok i by (auto simp: icache_ok_def icached_def)
  have c: "icached d n ?s j = icached d n s j" for d n j
    using len by (cases "j = i") (auto simp: icached_def)
  have "icache_ok ?s" using ok len c unfolding icache_ok_def by (auto simp: nth_list_update)
  then show ?thesis using iget_cached [OF ok l i] i c len by auto
next
  case False
  then have n: "\<forall>i. \<not> icached dev inum s i" by blast
  show ?thesis
  proof (cases "find (\<lambda>i. i_ref (icache s ! i) = 0) [0..<NINODE]")
    case None
    then have "\<forall>i < NINODE. 0 < i_ref (icache s ! i)" using ok by (fastforce simp: find_None_iff icache_ok_def)
    then show ?thesis using iget_uncached [OF l n] None n by simp
  next
    case (Some i)
    then have i: "i < NINODE" "i_ref (icache s ! i) = 0" using find_SomeD [OF Some] by auto
    let ?s = "s\<lparr>icache := (icache s)[i := (icache s ! i)\<lparr>i_dev := dev, i_inum := inum, i_ref := 1, i_valid := False\<rparr>]\<rparr>"
    have len: "length (icache s) = NINODE" using ok by (simp add: icache_ok_def)
    have c: "icached d m ?s j \<longleftrightarrow> (if j = i then d = dev \<and> m = inum else icached d m s j)" for d m j
      using len i by (auto simp: icached_def)
    have "icache_ok ?s" unfolding icache_ok_def
    proof (intro conjI allI impI)
      show "length (icache ?s) = NINODE" using len by simp
      show "0 \<le> i_ref (icache ?s ! j)" if "j < NINODE" for j using that ok len by (cases "j = i") (auto simp: icache_ok_def)
      show "j = k" if "icached d m ?s j" "icached d m ?s k" for d m j k
        using that n ok unfolding c icache_ok_def by (cases "j = i"; cases "k = i") auto
    qed
    then show ?thesis using iget_uncached [OF l n] Some False c i len by auto
  qed
qed

text \<open>Balanced reference counts.  A reference taken with \<^verbatim>\<open>iget\<close> and given back with \<^verbatim>\<open>iput\<close> leaves the
  reference count of every entry of the inode cache as it was, also when \<^verbatim>\<open>iput\<close> truncates and frees the inode.\<close>

lemma iget_iput_balanced:
  assumes ok: "icache_ok s" and g: "iget dev inum s = Ok ip s1" and l: "klocks s = []" and p: "iput ip s1 = Ok () s2"
  shows "\<forall>i < NINODE. i_ref (icache s2 ! i) = i_ref (icache s ! i)"
proof -
  have len: "length (icache s) = NINODE" using ok by (simp add: icache_ok_def)
  have s1: "ip < NINODE" "length (icache s1) = NINODE" "i_ref (icache s1 ! ip) = i_ref (icache s ! ip) + 1" "\<forall>j. j \<noteq> ip \<longrightarrow> icache s1 ! j = icache s ! j"
  proof -
    have "ip < NINODE \<and> length (icache s1) = NINODE \<and> i_ref (icache s1 ! ip) = i_ref (icache s ! ip) + 1 \<and> (\<forall>j. j \<noteq> ip \<longrightarrow> icache s1 ! j = icache s ! j)"
    proof (cases "\<exists>i. icached dev inum s i")
      case True
      then obtain i where i: "icached dev inum s i" by blast
      then show ?thesis using iget_cached [OF ok l i] g len by (auto simp: icached_def)
    next
      case False
      then have "\<forall>i. \<not> icached dev inum s i" by blast
      then show ?thesis using iget_uncached [OF l] g len by (auto split: option.splits dest!: find_SomeD)
    qed
    then show "ip < NINODE" "length (icache s1) = NINODE" "i_ref (icache s1 ! ip) = i_ref (icache s ! ip) + 1" "\<forall>j. j \<noteq> ip \<longrightarrow> icache s1 ! j = icache s ! j"
      by auto
  qed
  have k: "ikeys s2 = (ikeys s1)[ip := (i_dev (icache s1 ! ip), i_inum (icache s1 ! ip), i_ref (icache s1 ! ip) - 1)]"
    using iput_ikeys [OF p] s1 by simp
  have len2: "length (icache s2) = NINODE" using arg_cong [OF k, of length] s1(2) by (simp add: ikeys_def)
  have "i_ref (icache s2 ! i) = i_ref (icache s ! i)" if "i < NINODE" for i
  proof -
    have "ikeys s2 ! i = (if i = ip then (i_dev (icache s1 ! ip), i_inum (icache s1 ! ip), i_ref (icache s1 ! ip) - 1) else ikeys s1 ! i)"
      using k s1(1,2) that by (simp add: nth_list_update ikeys_def)
    then show ?thesis using that len2 s1 by (auto simp: ikeys_def split: if_splits)
  qed
  then show ?thesis by blast
qed

text \<open>The inode cache is write-through: after \<^verbatim>\<open>iupdate\<close>, dropping the cached copy and reading the inode with
  \<^verbatim>\<open>ilock\<close> gives back the same inode.\<close>

lemma iupdate_ilock:
  assumes u: "iupdate ip s = Ok () s'" and len: "ip < length (icache s)" "length (addrs s ip) = NDIRECT + 2"
    and l: "ilock ip (s'\<lparr>icache := (icache s')[ip := (icache s' ! ip)\<lparr>i_valid := False, i_type := t, i_size := n, i_addrs := A\<rparr>]\<rparr>) = Ok () s''"
  shows "icache s'' ! ip = (icache s ! ip)\<lparr>i_valid := True\<rparr>"
proof -
  let ?x = "icache s ! ip"
  note e = iupdate_effect [OF u]
  have d: "get_dinode (bmem s' (1, IBLOCK (i_inum ?x) (sb s))) (islot (i_inum ?x)) = dinode_of ?x"
    using e len(2) by (simp add: dinode_of_def)
  let ?b = "IBLOCK (i_inum ?x) (sb s)"
  have dev: "i_dev ?x = 1" using u by (auto simp: iupdate_def iat_def monad_Ok bread_Ok)
  have x': "icache s' ! ip = ?x" "length (icache s') = length (icache s)" "sb s' = sb s" using e by simp_all
  show ?thesis using l len(1) x' d dev
    by (auto simp: ilock_def iat_def monad_Ok acquiresleep_Ok bread_Ok brelse_Ok upd_inode_def modK_Ok Let_def dinode_of_def panic_def split: if_splits)
qed

section \<open>Examples\<close>

text \<open>A file system whose inode cache is empty.\<close>

definition fs_cache :: fsst where
  "fs_cache = fs_one\<lparr>icache := replicate NINODE (one_file\<lparr>i_ref := 0, i_valid := False\<rparr>)\<rparr>"

lemma fs_cache_ok: "icache_ok fs_cache" "klocks fs_cache = []"
  by (auto simp: icache_ok_def icached_def fs_cache_def fs_one_def one_file_def)

lemma fs_cache_iget:
  "iget 1 3 fs_cache = Ok 0 (fs_cache\<lparr>icache := (icache fs_cache)[0 := (one_file\<lparr>i_dev := 1, i_inum := 3, i_ref := 1, i_valid := False\<rparr>)]\<rparr>)"
proof -
  have n: "\<forall>i. \<not> icached 1 3 fs_cache i" by (auto simp: icached_def fs_cache_def one_file_def)
  have "find (\<lambda>i. i_ref (icache fs_cache ! i) = 0) [0..<NINODE] = Some 0"
    by (simp add: fs_cache_def NINODE_def upt_rec [of 0])
  then show ?thesis using iget_uncached [OF fs_cache_ok(2) n] by (simp add: fs_cache_def NINODE_def del: replicate.simps)
qed

theorem iget_correct_witness:
  "icache_ok fs_cache \<and> klocks fs_cache = [] \<and> (\<exists>s'. iget 1 3 fs_cache = Ok 0 s' \<and> icache_ok s' \<and> icached 1 3 s' 0)"
  using iget_correct [OF fs_cache_ok, of 1 3] fs_cache_ok fs_cache_iget by auto

end
