(* ===== verification/Cstring.thy ===== *)
theory Cstring
  imports Prelude
begin

text \<open>
  The string routines of \<^verbatim>\<open>kernel/string.c\<close> and \<^verbatim>\<open>user/ulib.c\<close>.

  \<^verbatim>\<open>memset\<close>, \<^verbatim>\<open>memcmp\<close> and \<^verbatim>\<open>memmove\<close> work on a memory, a function from
  32-bit addresses to bytes, since what \<^verbatim>\<open>memmove\<close> does depends on how its operands overlap. The
  routines on strings read a string as the function from offsets to bytes and return the bytes that they store.
\<close>

section \<open>Memory\<close>

type_synonym memory = "uint \<Rightarrow> uchar"

text \<open>The instructions \<^verbatim>\<open>rep stosb\<close> and \<^verbatim>\<open>rep stosl\<close>.\<close>

fun stosb :: "memory \<Rightarrow> uint \<Rightarrow> uchar \<Rightarrow> nat \<Rightarrow> memory" where
  "stosb m a v 0 = m"
| "stosb m a v (Suc n) = stosb (m(a := v)) (a + 1) v n"

definition store32 :: "memory \<Rightarrow> uint \<Rightarrow> uint \<Rightarrow> memory" where
  "store32 m a v = m(a := ucast v, a + 1 := ucast (drop_bit 8 v), a + 2 := ucast (drop_bit 16 v), a + 3 := ucast (drop_bit 24 v))"

fun stosl :: "memory \<Rightarrow> uint \<Rightarrow> uint \<Rightarrow> nat \<Rightarrow> memory" where
  "stosl m a v 0 = m"
| "stosl m a v (Suc n) = stosl (store32 m a v) (a + 4) v n"

definition memset :: "memory \<Rightarrow> uint \<Rightarrow> uint \<Rightarrow> uint \<Rightarrow> memory" where
  "memset m dst c n =
     (if c_mod (sint dst) 4 = 0 \<and> n mod 4 = 0 then
        let c = c AND 0xFF in
        stosl m dst (push_bit 24 c OR push_bit 16 c OR push_bit 8 c OR c) (unat (n div 4))
      else stosb m dst (ucast c) (unat n))"

fun memcmp :: "memory \<Rightarrow> uint \<Rightarrow> uint \<Rightarrow> nat \<Rightarrow> int" where
  "memcmp m s1 s2 0 = 0"
| "memcmp m s1 s2 (Suc n) =
     (if m s1 \<noteq> m s2 then uint (m s1) - uint (m s2) else memcmp m (s1 + 1) (s2 + 1) n)"

fun copy_down :: "memory \<Rightarrow> uint \<Rightarrow> uint \<Rightarrow> nat \<Rightarrow> memory" where
  "copy_down m d s 0 = m"
| "copy_down m d s (Suc n) = copy_down (m(d - 1 := m (s - 1))) (d - 1) (s - 1) n"

fun copy_up :: "memory \<Rightarrow> uint \<Rightarrow> uint \<Rightarrow> nat \<Rightarrow> memory" where
  "copy_up m d s 0 = m"
| "copy_up m d s (Suc n) = copy_up (m(d := m s)) (d + 1) (s + 1) n"

definition memmove :: "memory \<Rightarrow> uint \<Rightarrow> uint \<Rightarrow> uint \<Rightarrow> memory" where
  "memmove m dst src n =
     (if src < dst \<and> src + n > dst then copy_down m (dst + n) (src + n) (unat n)
      else copy_up m dst src (unat n))"

definition memcpy :: "memory \<Rightarrow> uint \<Rightarrow> uint \<Rightarrow> uint \<Rightarrow> memory" where
  "memcpy m dst src n = memmove m dst src n"

text \<open>The versions of the user library.\<close>

definition u_memset :: "memory \<Rightarrow> uint \<Rightarrow> uint \<Rightarrow> uint \<Rightarrow> memory" where
  "u_memset m dst c n = stosb m dst (ucast c) (unat n)"

definition u_memmove :: "memory \<Rightarrow> uint \<Rightarrow> uint \<Rightarrow> int \<Rightarrow> memory" where
  "u_memmove m dst src n = copy_up m dst src (nat n)"

section \<open>Strings\<close>

type_synonym cptr = "nat \<Rightarrow> uchar"

text \<open>The characters of a string literal.\<close>

definition ascii :: "string \<Rightarrow> uchar list" where
  "ascii cs = map of_char cs"

text \<open>The string at a pointer into an object with the bytes \<open>xs\<close>, terminated after them.\<close>

definition cstr :: "uchar list \<Rightarrow> cptr" where
  "cstr xs = (\<lambda>i. if i < length xs then xs ! i else 0)"

definition adv :: "cptr \<Rightarrow> cptr" where
  "adv p = (\<lambda>i. p (Suc i))"

fun strncmp :: "cptr \<Rightarrow> cptr \<Rightarrow> nat \<Rightarrow> int" where
  "strncmp p q 0 = 0"
| "strncmp p q (Suc n) =
     (if p 0 \<noteq> 0 \<and> p 0 = q 0 then strncmp (adv p) (adv q) n else uint (p 0) - uint (q 0))"

fun strncpy_loop :: "cptr \<Rightarrow> nat \<Rightarrow> uchar list" where
  "strncpy_loop t 0 = []"
| "strncpy_loop t (Suc n) = t 0 # (if t 0 \<noteq> 0 then strncpy_loop (adv t) n else replicate n 0)"

definition strncpy :: "cptr \<Rightarrow> int \<Rightarrow> uchar list" where
  "strncpy t n = strncpy_loop t (nat n)"

text \<open>The loop runs while \<^verbatim>\<open>--n > 0\<close>; the argument is the value that \<^verbatim>\<open>--n\<close> has next.\<close>

fun safestrcpy_loop :: "cptr \<Rightarrow> nat \<Rightarrow> uchar list" where
  "safestrcpy_loop t 0 = [0]"
| "safestrcpy_loop t (Suc n) = t 0 # (if t 0 \<noteq> 0 then safestrcpy_loop (adv t) n else [0])"

definition safestrcpy :: "cptr \<Rightarrow> int \<Rightarrow> uchar list" where
  "safestrcpy t n = (if n \<le> 0 then [] else safestrcpy_loop t (nat n - 1))"

text \<open>Loops that end at the terminating zero: with no zero they run on.\<close>

partial_function (option) strlen_loop :: "cptr \<Rightarrow> nat \<Rightarrow> nat option" where
  "strlen_loop s n = (if s n = 0 then Some n else strlen_loop s (n + 1))"

definition strlen :: "cptr \<Rightarrow> nat option" where
  "strlen s = strlen_loop s 0"

partial_function (option) strcpy_loop :: "cptr \<Rightarrow> uchar list \<Rightarrow> uchar list option" where
  "strcpy_loop t acc = (if t 0 = 0 then Some (acc @ [0]) else strcpy_loop (adv t) (acc @ [t 0]))"

definition strcpy :: "cptr \<Rightarrow> uchar list option" where
  "strcpy t = strcpy_loop t []"

partial_function (option) strcmp :: "cptr \<Rightarrow> cptr \<Rightarrow> int option" where
  "strcmp p q = (if p 0 \<noteq> 0 \<and> p 0 = q 0 then strcmp (adv p) (adv q) else Some (uint (p 0) - uint (q 0)))"

text \<open>\<^verbatim>\<open>strchr\<close> returns the offset of the character, \<open>Some None\<close> for the null pointer.\<close>

partial_function (option) strchr_loop :: "cptr \<Rightarrow> uchar \<Rightarrow> nat \<Rightarrow> nat option option" where
  "strchr_loop s c i =
     (if s i = 0 then Some None else if s i = c then Some (Some i) else strchr_loop s c (i + 1))"

definition strchr :: "cptr \<Rightarrow> uchar \<Rightarrow> nat option option" where
  "strchr s c = strchr_loop s c 0"

text \<open>\<^verbatim>\<open>atoi\<close> with the wrap-around of the 32-bit accumulator.\<close>

partial_function (option) atoi_loop :: "cptr \<Rightarrow> uint \<Rightarrow> uint option" where
  "atoi_loop s n = (if 48 \<le> s 0 \<and> s 0 \<le> 57 then atoi_loop (adv s) (n * 10 + ucast (s 0) - 48) else Some n)"

definition atoi :: "cptr \<Rightarrow> int option" where
  "atoi s = map_option sint (atoi_loop s 0)"

section \<open>Memory operations\<close>

lemma unat_4: "unat (4 :: uint) = 4"
  by simp

lemma unat_max: "unat (- 1 :: uint) = 4294967295"
  by (simp add: unsigned_minus_1_eq_mask mask_eq_exp_minus_1)

lemma unat_Suc_diff: "x - a \<noteq> (0 :: uint) \<Longrightarrow> unat (x - a) = Suc (unat (x - (a + 1)))"
  using unat_minus_one [of "x - a"] by (simp add: diff_diff_eq unat_gt_0)

lemma stosb_fill: "n \<le> 2 ^ 32 \<Longrightarrow> stosb m a v n = (\<lambda>x. if unat (x - a) < n then v else m x)"
proof (induction n arbitrary: m a)
  case 0
  then show ?case by simp
next
  case (Suc n)
  have k: "(unat (x - (a + 1)) < n \<or> x = a) \<longleftrightarrow> unat (x - a) < Suc n" for x
  proof (cases "x = a")
    case False
    then have "x - a \<noteq> 0" by simp
    then have "unat (x - a) = Suc (unat (x - (a + 1)))" by (rule unat_Suc_diff)
    then show ?thesis using False by simp
  qed simp
  show ?case using Suc k by (auto simp: fun_eq_iff)
qed

lemma byte_rep:
  fixes c :: uint
  defines "w \<equiv> push_bit 24 (c AND 0xFF) OR push_bit 16 (c AND 0xFF) OR push_bit 8 (c AND 0xFF) OR (c AND 0xFF)"
  shows "(ucast w :: uchar) = ucast c" "(ucast (drop_bit 8 w) :: uchar) = ucast c"
    "(ucast (drop_bit 16 w) :: uchar) = ucast c" "(ucast (drop_bit 24 w) :: uchar) = ucast c"
proof -
  have m: "(0xFF :: uint) = mask 8" by (simp add: mask_eq_exp_minus_1)
  show "(ucast w :: uchar) = ucast c" "(ucast (drop_bit 8 w) :: uchar) = ucast c"
    "(ucast (drop_bit 16 w) :: uchar) = ucast c" "(ucast (drop_bit 24 w) :: uchar) = ucast c"
    by (auto intro!: bit_word_eqI simp: w_def m bit_simps)
qed

lemma store32_rep:
  assumes "ucast w = v" "ucast (drop_bit 8 w) = v" "ucast (drop_bit 16 w) = v" "ucast (drop_bit 24 w) = v"
  shows "store32 m a w = stosb m a v 4"
  using assms by (simp add: store32_def numeral_eq_Suc add.assoc)

lemma stosb_add: "stosb m a v (k + n) = stosb (stosb m a v k) (a + of_nat k) v n"
  by (induction k arbitrary: m a) (simp_all add: add.assoc)

lemma stosl_stosb:
  assumes "ucast w = v" "ucast (drop_bit 8 w) = v" "ucast (drop_bit 16 w) = v" "ucast (drop_bit 24 w) = v"
  shows "stosl m a w n = stosb m a v (4 * n)"
proof (induction n arbitrary: m a)
  case (Suc n)
  have "stosb m a v (4 * Suc n) = stosb m a v (4 + 4 * n)" by simp
  then show ?case using Suc store32_rep [OF assms] by (simp only: stosb_add stosl.simps) simp
qed simp

text \<open>\<^verbatim>\<open>memset\<close> sets exactly the \<^verbatim>\<open>n\<close> bytes from \<^verbatim>\<open>dst\<close> on to the byte
  \<^verbatim>\<open>c\<close>, whether it stores words or bytes.\<close>

lemma memset_fills: "memset m dst c n = (\<lambda>a. if unat (a - dst) < unat n then ucast c else m a)"
proof (cases "c_mod (sint dst) 4 = 0 \<and> n mod 4 = 0")
  case True
  then have "unat n mod 4 = 0" by (metis unat_0 unat_mod unat_4)
  then have "4 * unat (n div 4) = unat n" by (simp add: unat_div mod_0_imp_dvd)
  then show ?thesis using True stosb_fill [of "unat n"] unat_lt_2p32 [of n]
    by (simp only: memset_def Let_def stosl_stosb [OF byte_rep] simp_thms if_True) simp
next
  case False
  then have "memset m dst c n = stosb m dst (ucast c) (unat n)" by (simp only: memset_def if_False)
  then show ?thesis using stosb_fill [of "unat n"] unat_lt_2p32 [of n] by simp
qed

lemma copy_up_correct:
  assumes "\<forall>i j. i < j \<and> j < n \<longrightarrow> d + of_nat i \<noteq> s + of_nat j" and "n \<le> 2 ^ 32"
  shows "copy_up m d s n = (\<lambda>a. if unat (a - d) < n then m (s + (a - d)) else m a)"
  using assms
proof (induction n arbitrary: m d s)
  case (Suc n)
  have c: "\<forall>i j. i < j \<and> j < n \<longrightarrow> (d + 1) + of_nat i \<noteq> (s + 1) + of_nat j"
  proof (intro allI impI)
    fix i j assume "i < j \<and> j < n"
    then have "d + of_nat (Suc i) \<noteq> s + of_nat (Suc j)" using Suc.prems(1) by blast
    then show "(d + 1) + of_nat i \<noteq> (s + 1) + of_nat j" by (simp add: add.assoc)
  qed
  have e: "copy_up m d s (Suc n) a = (if unat (a - d) < Suc n then m (s + (a - d)) else m a)" for a
  proof (cases "a = d")
    case True
    have "unat (d - (d + 1)) = 2 ^ 32 - 1" using unat_max by (simp add: diff_add_eq_diff_diff_swap)
    then have "\<not> unat (d - (d + 1)) < n" using Suc.prems(2) by simp
    then show ?thesis using True Suc.IH [OF c] Suc.prems(2) by simp
  next
    case False
    then have u: "unat (a - d) = Suc (unat (a - (d + 1)))" by (intro unat_Suc_diff) simp
    have w: "s + 1 + (a - (d + 1)) = s + (a - d)" by (simp add: algebra_simps)
    have "s + (a - d) \<noteq> d" if "unat (a - d) < Suc n"
      using Suc.prems(1) [rule_format, of 0 "unat (a - d)"] that u by auto
    then show ?thesis using False Suc.IH [OF c] Suc.prems(2) u w by (auto simp: fun_upd_apply)
  qed
  then show ?case by (rule ext)
qed simp

lemma copy_down_correct:
  assumes "\<forall>i j. i < j \<and> j < n \<longrightarrow> d - 1 - of_nat i \<noteq> s - 1 - of_nat j" and "n \<le> 2 ^ 32"
  shows "copy_down m d s n = (\<lambda>a. if unat (d - 1 - a) < n then m (s + (a - d)) else m a)"
  using assms
proof (induction n arbitrary: m d s)
  case (Suc n)
  have c: "\<forall>i j. i < j \<and> j < n \<longrightarrow> (d - 1) - 1 - of_nat i \<noteq> (s - 1) - 1 - of_nat j"
  proof (intro allI impI)
    fix i j assume "i < j \<and> j < n"
    then have "d - 1 - of_nat (Suc i) \<noteq> s - 1 - of_nat (Suc j)" using Suc.prems(1) by blast
    then show "(d - 1) - 1 - of_nat i \<noteq> (s - 1) - 1 - of_nat j" by (simp add: algebra_simps)
  qed
  have e: "copy_down m d s (Suc n) a = (if unat (d - 1 - a) < Suc n then m (s + (a - d)) else m a)" for a
  proof (cases "a = d - 1")
    case True
    have "unat (d - 1 - 1 - (d - 1)) = 2 ^ 32 - 1" using unat_max by simp
    then have "\<not> unat (d - 1 - 1 - (d - 1)) < n" using Suc.prems(2) by simp
    then show ?thesis using True Suc.IH [OF c] Suc.prems(2) by simp
  next
    case False
    then have u: "unat (d - 1 - a) = Suc (unat (d - 1 - 1 - a))"
      using unat_minus_one [of "d - 1 - a"] by (simp add: unat_gt_0 algebra_simps)
    have w: "s - 1 + (a - (d - 1)) = s + (a - d)" by (simp add: algebra_simps)
    have "s + (a - d) \<noteq> d - 1" if "unat (d - 1 - a) < Suc n"
      using Suc.prems(1) [rule_format, of 0 "unat (d - 1 - a)"] that u by (auto simp: algebra_simps)
    moreover have "copy_down m d s (Suc n) a =
        (if unat (d - 1 - 1 - a) < n then (m(d - 1 := m (s - 1))) (s + (a - d)) else (m(d - 1 := m (s - 1))) a)"
      unfolding copy_down.simps using Suc.IH [OF c] Suc.prems(2) w by (simp del: diff_diff_add fun_upd_apply)
    ultimately show ?thesis using False u by (simp only: fun_upd_apply) auto
  qed
  then show ?case by (rule ext)
qed simp

text \<open>\<^verbatim>\<open>memmove\<close> copies correctly whether or not, and however, the two ranges overlap: afterwards the
  destination holds the bytes that the source held before, and no other byte has changed.\<close>

lemma memmove_correct:
  assumes src: "unat src + unat n < 2 ^ 32" and dst: "unat dst + unat n \<le> 2 ^ 32"
  shows "memmove m dst src n = (\<lambda>a. if unat (a - dst) < unat n then m (src + (a - dst)) else m a)"
proof -
  have n: "unat n \<le> 2 ^ 32" using unat_lt_2p32 [of n] by simp
  have sn: "unat (src + n) = unat src + unat n" using src by (simp add: unat_add_noovf)
  have u: "unat (dst + of_nat i) = unat dst + i" "unat (src + of_nat i) = unat src + i" if "i < unat n" for i
    using that src dst n by (simp_all add: unat_add_noovf unat_of_nat_small)
  show ?thesis
  proof (cases "src < dst \<and> src + n > dst")
    case True
    have lt: "unat src < unat dst" using True by (simp add: word_less_nat_alt)
    have c: "\<forall>i j. i < j \<and> j < unat n \<longrightarrow> dst + n - 1 - of_nat i \<noteq> src + n - 1 - of_nat j"
    proof (intro allI impI notI)
      fix i j assume ij: "i < j \<and> j < unat n" and "dst + n - 1 - of_nat i = src + n - 1 - of_nat j"
      then have "dst + of_nat j = src + of_nat i" by (simp add: algebra_simps)
      then have "unat dst + j = unat src + i" using u [of i] u [of j] ij by fastforce
      then show False using ij lt by simp
    qed
    have r: "unat (dst + n - 1 - a) < unat n \<longleftrightarrow> unat (a - dst) < unat n" for a
    proof (cases "n = 0")
      case False
      then have un: "unat (n - 1) = unat n - 1" "0 < unat n" by (simp_all add: unat_minus_one unat_gt_0)
      define t where "t = a - dst"
      have e: "dst + n - 1 - a = (n - 1) - t" by (simp add: t_def algebra_simps)
      have "unat (n - 1 - t) < unat n \<longleftrightarrow> unat t < unat n"
        using un unat_lt_2p32 [of t] unat_sub_if_size [of "n - 1" t] by (auto simp: word_size)
      then show ?thesis unfolding e t_def .
    qed simp
    have w: "src + n + (a - (dst + n)) = src + (a - dst)" for a by (simp add: algebra_simps)
    have "memmove m dst src n = copy_down m (dst + n) (src + n) (unat n)" using True by (simp add: memmove_def)
    then show ?thesis unfolding copy_down_correct [OF c n] r w .
  next
    case False
    have c: "\<forall>i j. i < j \<and> j < unat n \<longrightarrow> dst + of_nat i \<noteq> src + of_nat j"
    proof (intro allI impI notI)
      fix i j assume ij: "i < j \<and> j < unat n" and "dst + of_nat i = src + of_nat j"
      then have "unat dst + i = unat src + j" using u [of i] u [of j] by fastforce
      then show False using ij False sn by (auto simp: word_less_nat_alt)
    qed
    show ?thesis using False copy_up_correct [OF c n] by (auto simp: memmove_def)
  qed
qed

section \<open>String operations\<close>

text \<open>The string at a pointer, cut off after \<open>n\<close> bytes.\<close>

definition bstr :: "nat \<Rightarrow> cptr \<Rightarrow> uchar list" where
  "bstr n p = takeWhile (\<lambda>c. c \<noteq> 0) (map p [0..<n])"

lemma bstr_simps [simp]:
  "bstr 0 p = []"
  "bstr (Suc n) p = (if p 0 = 0 then [] else p 0 # bstr n (adv p))"
proof -
  have "map p [0..<Suc n] = p 0 # map (adv p) [0..<n]"
    by (simp add: adv_def map_upt_Suc del: upt_Suc)
  then show "bstr (Suc n) p = (if p 0 = 0 then [] else p 0 # bstr n (adv p))" by (simp add: bstr_def)
qed (simp add: bstr_def)

lemma cstr_simps [simp]: "cstr (c # cs) 0 = c" "adv (cstr (c # cs)) = cstr cs" "cstr [] i = 0" "adv (cstr []) = cstr []"
  by (auto simp: cstr_def adv_def)

lemma bstr_cstr: "bstr n (cstr xs) = takeWhile (\<lambda>c. c \<noteq> 0) (take n xs)"
proof (induction n arbitrary: xs)
  case (Suc n)
  then show ?case by (cases xs) simp_all
qed simp

lemma bstr_length: "length (bstr n p) \<le> n"
  using length_takeWhile_le [of "\<lambda>c. c \<noteq> 0" "map p [0..<n]"] by (simp add: bstr_def)

lemma uint_eq: "uint (a :: uchar) = uint b \<longleftrightarrow> a = b" "uint (a :: uchar) = 0 \<longleftrightarrow> a = 0"
  by (auto simp: word_uint_eq_iff)

lemma strncmp_0: "strncmp p q n = 0 \<longleftrightarrow> bstr n p = bstr n q"
  by (induction n arbitrary: p q) (auto simp: uint_eq)

lemma strncpy_loop_length [simp]: "length (strncpy_loop t n) = n"
  by (induction n arbitrary: t) auto

lemma bstr_zeros: "bstr n (cstr (replicate k 0)) = []"
  by (cases k; cases n) simp_all

lemma bstr_strncpy [simp]: "bstr n (cstr (strncpy_loop t n)) = bstr n t"
  by (induction n arbitrary: t) auto

text \<open>\<^verbatim>\<open>strncpy\<close> fills exactly \<^verbatim>\<open>n\<close> bytes, and \<^verbatim>\<open>strncmp\<close> with the same bound finds
  two strings equal to each other exactly when it finds one equal to the copy of the other; in particular a string
  equals its copy.\<close>

lemma strncpy_strncmp:
  "length (strncpy t (int n)) = n \<and> (strncmp s (cstr (strncpy t (int n))) n = 0 \<longleftrightarrow> strncmp s t n = 0) \<and>
   strncmp t (cstr (strncpy t (int n))) n = 0"
  by (simp add: strncpy_def strncmp_0)

lemma safestrcpy_loop_props:
  "length (safestrcpy_loop t n) \<le> Suc n \<and> 0 \<in> set (safestrcpy_loop t n) \<and>
   takeWhile (\<lambda>c. c \<noteq> 0) (safestrcpy_loop t n) = bstr n t"
  by (induction n arbitrary: t) auto

text \<open>\<^verbatim>\<open>safestrcpy\<close> never stores more than \<^verbatim>\<open>n\<close> bytes and always terminates the string, which is
  the source cut off after \<^verbatim>\<open>n - 1\<close> bytes.\<close>

lemma safestrcpy_bounded:
  assumes "0 < n"
  shows "length (safestrcpy t n) \<le> nat n \<and> 0 \<in> set (safestrcpy t n) \<and>
    takeWhile (\<lambda>c. c \<noteq> 0) (safestrcpy t n) = bstr (nat n - 1) t"
  using assms safestrcpy_loop_props [of t "nat n - 1"] by (auto simp: safestrcpy_def)

text \<open>The routines that look for the terminating zero return on every string that has one.\<close>

lemma strlen_loop_run:
  assumes "n \<le> k" "s k = 0" "\<forall>i. n \<le> i \<and> i < k \<longrightarrow> s i \<noteq> 0"
  shows "strlen_loop s n = Some k"
  using assms
proof (induction "k - n" arbitrary: n)
  case 0
  then show ?case by (subst strlen_loop.simps) simp
next
  case (Suc d)
  then have "s n \<noteq> 0" by simp
  then show ?case using Suc by (subst strlen_loop.simps) simp
qed

lemma strlen_cstr: "0 \<notin> set xs \<Longrightarrow> strlen (cstr xs) = Some (length xs)"
  unfolding strlen_def by (rule strlen_loop_run) (auto simp: cstr_def in_set_conv_nth)

lemma strcpy_loop_cstr: "0 \<notin> set xs \<Longrightarrow> strcpy_loop (cstr xs) acc = Some (acc @ xs @ [0])"
  by (induction xs arbitrary: acc) (subst strcpy_loop.simps, simp)+

lemma strcpy_cstr: "0 \<notin> set xs \<Longrightarrow> strcpy (cstr xs) = Some (xs @ [0])"
  by (simp add: strcpy_def strcpy_loop_cstr)

lemma strcmp_cstr:
  assumes "0 \<notin> set xs" "0 \<notin> set ys"
  shows "\<exists>r. strcmp (cstr xs) (cstr ys) = Some r \<and> (r = 0 \<longleftrightarrow> xs = ys)"
  using assms
proof (induction xs arbitrary: ys)
  case Nil
  then show ?case by (cases ys) (subst strcmp.simps, simp add: uint_eq)+
next
  case (Cons x xs)
  then show ?case by (cases ys) (subst strcmp.simps, auto simp: uint_eq)+
qed

lemma strchr_loop_run:
  assumes "0 \<notin> set xs" "i \<le> length xs"
  shows "strchr_loop (cstr xs) c i = Some (map_option (\<lambda>k. i + k) (find_index (\<lambda>x. x = c) (drop i xs)))"
  using assms
proof (induction "length xs - i" arbitrary: i)
  case 0
  then show ?case by (subst strchr_loop.simps) (simp add: cstr_def)
next
  case (Suc d)
  then have i: "i < length xs" by simp
  then have nz: "xs ! i \<noteq> 0" using Suc.prems(1) by (metis nth_mem)
  have "find_index (\<lambda>x. x = c) (drop i xs) = (if xs ! i = c then Some 0 else map_option Suc (find_index (\<lambda>x. x = c) (drop (Suc i) xs)))"
    using i by (subst Cons_nth_drop_Suc [symmetric]) auto
  then show ?case using Suc i nz by (subst strchr_loop.simps) (auto simp: cstr_def option.map_comp comp_def intro!: option.map_cong)
qed

lemma strchr_cstr: "0 \<notin> set xs \<Longrightarrow> strchr (cstr xs) c = Some (find_index (\<lambda>x. x = c) xs)"
  using strchr_loop_run [of xs 0 c] by (simp add: strchr_def option.map_ident)

section \<open>Numbers in text\<close>

text \<open>The digits of a number, last digit first. The base is 10 or 16; \<open>k\<close> bounds the number of digits after the first.\<close>

fun digits_rev :: "nat \<Rightarrow> nat \<Rightarrow> nat \<Rightarrow> nat list" where
  "digits_rev 0 base x = [x mod base]"
| "digits_rev (Suc k) base x = x mod base # (if x div base = 0 then [] else digits_rev k base (x div base))"

text \<open>The number that digits denote, last digit first.\<close>

fun digits_value :: "nat \<Rightarrow> nat list \<Rightarrow> nat" where
  "digits_value base [] = 0"
| "digits_value base (d # ds) = d + base * digits_value base ds"

lemma digits_rev_value: "0 < base \<Longrightarrow> x < base ^ Suc k \<Longrightarrow> digits_value base (digits_rev k base x) = x"
proof (induction k arbitrary: x)
  case (Suc k)
  then have "x div base < base ^ Suc k" by (simp add: less_mult_imp_div_less mult.commute)
  moreover have "x mod base = x" if "x div base = 0" using that Suc.prems(1) by (simp add: div_eq_0_iff)
  ultimately show ?case using Suc by auto
qed simp

lemma digits_rev_less: "0 < base \<Longrightarrow> d \<in> set (digits_rev k base x) \<Longrightarrow> d < base"
  by (induction k arbitrary: x) (auto split: if_splits)

lemma digits_rev_length: "x < base ^ Suc m \<Longrightarrow> 0 < base \<Longrightarrow> length (digits_rev k base x) \<le> Suc m"
proof (induction k arbitrary: x m)
  case (Suc k)
  show ?case
  proof (cases m)
    case 0
    then show ?thesis using Suc.prems by simp
  next
    case (Suc j)
    then have "x div base < base ^ Suc j" using Suc.prems by (simp add: less_mult_imp_div_less mult.commute)
    then show ?thesis using Suc.IH [of "x div base" j] Suc.prems(2) Suc by simp
  qed
qed simp

lemma atoi_loop_digits:
  assumes "\<forall>d \<in> set es. d < 10"
  shows "atoi_loop (cstr (map (\<lambda>d. 48 + of_nat d) es)) n = Some (fold (\<lambda>d n. n * 10 + of_nat d) es n)"
  using assms
proof (induction es arbitrary: n)
  case Nil
  then show ?case by (subst atoi_loop.simps) simp
next
  case (Cons d es)
  have d: "d < 10" using Cons.prems by simp
  then have u: "unat (of_nat d :: uchar) = d" by (simp add: unat_of_nat)
  then have c: "unat (48 + of_nat d :: uchar) = 48 + d" using d by (simp add: unat_word_ariths)
  then have "48 \<le> (48 + of_nat d :: uchar)" "(48 + of_nat d :: uchar) \<le> 57" using d by (simp_all add: word_le_nat_alt)
  moreover have "ucast (48 + of_nat d :: uchar) = (of_nat (unat (48 + of_nat d :: uchar)) :: uint)" by (rule of_nat_unat [symmetric])
  then have "ucast (48 + of_nat d :: uchar) = (48 + of_nat d :: uint)" unfolding c by simp
  ultimately show ?case using Cons.IH [of "n * 10 + of_nat d"] Cons.prems by (subst atoi_loop.simps) (simp add: algebra_simps)
qed

lemma fold_digits: "fold (\<lambda>d n. n * 10 + of_nat d) (rev ds) (0 :: uint) = of_nat (digits_value 10 ds)"
  by (induction ds) (simp_all add: algebra_simps)

end
