(* ===== verification/Dir.thy ===== *)
theory Dir
  imports ICache Cstring
begin

text \<open>
  Directories and path names of \<^verbatim>\<open>kernel/fs.c\<close>: \<^verbatim>\<open>dirlookup\<close>, \<^verbatim>\<open>dirlink\<close>,
  \<^verbatim>\<open>skipelem\<close>, \<^verbatim>\<open>namex\<close>, \<^verbatim>\<open>namei\<close> and \<^verbatim>\<open>nameiparent\<close>.

  A directory is a file of 16-byte entries. The lemmas show that a lookup finds the first entry in use that has the
  name, that linking a name adds one entry and keeps the others, and that \<^verbatim>\<open>skipelem\<close> takes a path
  apart into its elements.
\<close>

section \<open>Directories\<close>

definition namecmp :: "uchar list \<Rightarrow> uchar list \<Rightarrow> int" where
  "namecmp s t = strncmp (cstr s) (cstr t) DIRSIZ"

text \<open>The offsets \<^verbatim>\<open>0, 16, ...\<close> below the size, and the first one that is not below it.\<close>

definition de_off :: "nat \<Rightarrow> uint" where
  "de_off k = of_nat (16 * k)"

definition de_offsets :: "uint \<Rightarrow> uint list" where
  "de_offsets n = map de_off [0..<(unat n + 15) div 16]"

definition de_end :: "uint \<Rightarrow> uint" where
  "de_end n = de_off ((unat n + 15) div 16)"

fun dirlookup_loop :: "(int \<Rightarrow> 'a fsst_scheme devsw) \<Rightarrow> nat \<Rightarrow> uchar list \<Rightarrow> uint list \<Rightarrow> ('a fsst_scheme, (nat \<times> uint) option) kfun" where
  "dirlookup_loop devsw dp name [] = retK None"
| "dirlookup_loop devsw dp name (off # offs) =
     bindK (readi devsw dp off 16) (\<lambda>(n, bs).
     if n \<noteq> 16 then panic ''dirlookup read'' else
     let de = get_dirent bs in
     if de_inum de = 0 then dirlookup_loop devsw dp name offs else
     if namecmp name (de_name de) = 0 then
       bindK (iat dp) (\<lambda>x.
       bindK (iget (i_dev x) (ucast (de_inum de))) (\<lambda>ip.
       retK (Some (ip, off))))
     else dirlookup_loop devsw dp name offs)"

definition dirlookup :: "(int \<Rightarrow> 'a fsst_scheme devsw) \<Rightarrow> nat \<Rightarrow> uchar list \<Rightarrow> ('a fsst_scheme, (nat \<times> uint) option) kfun" where
  "dirlookup devsw dp name =
     bindK (iat dp) (\<lambda>x.
     if i_type x \<noteq> T_DIR then panic ''dirlookup not DIR'' else
     dirlookup_loop devsw dp name (de_offsets (i_size x)))"

text \<open>The offset at which the search for an empty entry stops.\<close>

fun dirlink_loop :: "(int \<Rightarrow> 'a fsst_scheme devsw) \<Rightarrow> nat \<Rightarrow> uint list \<Rightarrow> uint \<Rightarrow> ('a fsst_scheme, uint) kfun" where
  "dirlink_loop devsw dp [] end_off = retK end_off"
| "dirlink_loop devsw dp (off # offs) end_off =
     bindK (readi devsw dp off 16) (\<lambda>(n, bs).
     if n \<noteq> 16 then panic ''dirlink read'' else
     if de_inum (get_dirent bs) = 0 then retK off else
     dirlink_loop devsw dp offs end_off)"

definition dirlink :: "(int \<Rightarrow> 'a fsst_scheme devsw) \<Rightarrow> nat \<Rightarrow> uchar list \<Rightarrow> uint \<Rightarrow> ('a fsst_scheme, int) kfun" where
  "dirlink devsw dp name inum =
     bindK (dirlookup devsw dp name) (\<lambda>r.
     case r of
       Some (ip, _) \<Rightarrow> thenK (iput ip) (retK (-1))
     | None \<Rightarrow>
         bindK (iat dp) (\<lambda>x.
         bindK (dirlink_loop devsw dp (de_offsets (i_size x)) (de_end (i_size x))) (\<lambda>off.
         let de = \<lparr>de_inum = ucast inum, de_name = strncpy (cstr name) (int DIRSIZ)\<rparr> in
         bindK (writei devsw dp (put_dirent de) off 16) (\<lambda>n.
         if n \<noteq> 16 then panic ''dirlink'' else retK 0))))"

section \<open>Paths\<close>

text \<open>A path is the list of the bytes before its terminating zero.\<close>

definition skipelem :: "uchar list \<Rightarrow> uchar list \<Rightarrow> (uchar list \<times> uchar list) option" where
  "skipelem path name =
     (let path = dropWhile (\<lambda>c. c = 47) path in
      if path = [] then None else
      let s = takeWhile (\<lambda>c. c \<noteq> 47) path;
          path = dropWhile (\<lambda>c. c \<noteq> 47) path;
          name = (if length s \<ge> DIRSIZ then take DIRSIZ s else s @ [0] @ drop (length s + 1) name)
      in Some (dropWhile (\<lambda>c. c = 47) path, name))"

lemma skipelem_shorter [termination_simp]: "skipelem path name = Some (path', name') \<Longrightarrow> length path' < length path"
proof -
  assume a: "skipelem path name = Some (path', name')"
  let ?p = "dropWhile (\<lambda>c. c = 47) path"
  have ne: "?p \<noteq> []" and p': "path' = dropWhile (\<lambda>c. c = 47) (dropWhile (\<lambda>c. c \<noteq> 47) ?p)"
    using a by (auto simp: skipelem_def Let_def split: if_splits)
  obtain c cs where p: "?p = c # cs" using ne by (cases ?p) auto
  then have "c \<noteq> 47" using hd_dropWhile [of "\<lambda>c. c = 47" path] by simp
  then have "path' = dropWhile (\<lambda>c. c = 47) (dropWhile (\<lambda>c. c \<noteq> 47) cs)" unfolding p' p by simp
  then have "length path' \<le> length cs" by (simp add: order_trans [OF length_dropWhile_le length_dropWhile_le])
  moreover have "Suc (length cs) \<le> length path" using p length_dropWhile_le [of "\<lambda>c. c = 47" path] by simp
  ultimately show ?thesis by simp
qed

function namex_loop :: "(int \<Rightarrow> 'a fsst_scheme devsw) \<Rightarrow> bool \<Rightarrow> nat \<Rightarrow> uchar list \<Rightarrow> uchar list \<Rightarrow> ('a fsst_scheme, nat option \<times> uchar list) kfun" where
  "namex_loop devsw nameiparent ip path name =
     (case skipelem path name of
        None \<Rightarrow> if nameiparent then thenK (iput ip) (retK (None, name)) else retK (Some ip, name)
      | Some (path', name') \<Rightarrow>
          thenK (ilock ip) (
          bindK (iat ip) (\<lambda>x.
          if i_type x \<noteq> T_DIR then thenK (iunlockput ip) (retK (None, name')) else
          if nameiparent \<and> path' = [] then thenK (iunlock ip) (retK (Some ip, name')) else
          bindK (dirlookup devsw ip name') (\<lambda>r.
          case r of
            None \<Rightarrow> thenK (iunlockput ip) (retK (None, name'))
          | Some (nxt, _) \<Rightarrow> thenK (iunlockput ip) (namex_loop devsw nameiparent nxt path' name')))))"
  by pat_completeness auto
termination
  by (relation "measure (\<lambda>(d, np, ip, path, name). length path)") (auto dest: skipelem_shorter)

definition namex :: "(int \<Rightarrow> 'a fsst_scheme devsw) \<Rightarrow> uchar list \<Rightarrow> bool \<Rightarrow> uchar list \<Rightarrow> ('a fsst_scheme, nat option \<times> uchar list) kfun" where
  "namex devsw path nameiparent name =
     bindK (if take 1 path = [47] then iget ROOTDEV ROOTINO
            else bindK myproc (\<lambda>p.
                 bindK (getK (\<lambda>s. p_cwd (ptable s ! p))) (\<lambda>cwd.
                 case cwd of None \<Rightarrow> undefK | Some ip \<Rightarrow> idup ip))) (\<lambda>ip.
     namex_loop devsw nameiparent ip path name)"

definition namei :: "(int \<Rightarrow> 'a fsst_scheme devsw) \<Rightarrow> uchar list \<Rightarrow> ('a fsst_scheme, nat option) kfun" where
  "namei devsw path =
     bindK (namex devsw path False (replicate DIRSIZ 0)) (\<lambda>(r, _).
     retK r)"

definition nameiparent :: "(int \<Rightarrow> 'a fsst_scheme devsw) \<Rightarrow> uchar list \<Rightarrow> ('a fsst_scheme, nat option \<times> uchar list) kfun" where
  "nameiparent devsw path = namex devsw path True (replicate DIRSIZ 0)"

section \<open>Path elements\<close>

text \<open>The elements of a path: what lies between slashes, without the empty ones.\<close>

fun split_slash :: "uchar list \<Rightarrow> uchar list list" where
  "split_slash [] = [[]]"
| "split_slash (c # cs) =
     (if c = 47 then [] # split_slash cs else (c # hd (split_slash cs)) # tl (split_slash cs))"

definition path_elems :: "uchar list \<Rightarrow> uchar list list" where
  "path_elems path = filter (\<lambda>e. e \<noteq> []) (split_slash path)"

lemma split_slash_ne [simp]: "split_slash p \<noteq> []"
  by (cases p) auto

lemma split_slash_elem: "47 \<notin> set e \<Longrightarrow> split_slash (e @ 47 # rest) = e # split_slash rest"
  by (induction e) auto

lemma split_slash_last: "47 \<notin> set e \<Longrightarrow> split_slash e = [e]"
  by (induction e) auto

lemma path_elems_slashes: "path_elems (dropWhile (\<lambda>c. c = 47) p) = path_elems p"
  by (induction p) (auto simp: path_elems_def)

lemma path_elems_first:
  assumes "p \<noteq> []" "hd p \<noteq> 47"
  shows "path_elems p = takeWhile (\<lambda>c. c \<noteq> 47) p # path_elems (dropWhile (\<lambda>c. c \<noteq> 47) p)"
proof -
  let ?e = "takeWhile (\<lambda>c. c \<noteq> 47) p" and ?r = "dropWhile (\<lambda>c. c \<noteq> 47) p"
  have ne: "?e \<noteq> []" using assms by (cases p) auto
  have e: "47 \<notin> set ?e" using set_takeWhileD by fastforce
  show ?thesis
  proof (cases ?r)
    case Nil
    then have p: "p = ?e" using takeWhile_dropWhile_id [of "\<lambda>c. c \<noteq> 47" p] by (simp only: append_Nil2)
    then have "split_slash p = [?e]" using split_slash_last [OF e] by metis
    then show ?thesis unfolding Nil using ne by (simp add: path_elems_def)
  next
    case (Cons c cs)
    then have "c = 47" using hd_dropWhile [of "\<lambda>c. c \<noteq> 47" p] by simp
    then have "p = ?e @ 47 # cs" using takeWhile_dropWhile_id [of "\<lambda>c. c \<noteq> 47" p] Cons by simp
    then have "split_slash p = ?e # split_slash cs" using split_slash_elem [OF e] by metis
    then show ?thesis using Cons \<open>c = 47\<close> ne by (simp add: path_elems_def)
  qed
qed

text \<open>\<^verbatim>\<open>skipelem\<close> takes the first element off a path: it returns null exactly when the path has no element, and
  otherwise puts the element, cut off at \<^verbatim>\<open>DIRSIZ\<close> bytes, into the name buffer and returns a path with the
  remaining elements that does not start with a slash.\<close>

lemma skipelem_correct:
  assumes "0 \<notin> set path" and "length name = DIRSIZ"
  shows "case skipelem path name of
      None \<Rightarrow> path_elems path = []
    | Some (path', name') \<Rightarrow> \<exists>e. path_elems path = e # path_elems path' \<and> bstr DIRSIZ (cstr name') = take DIRSIZ e \<and>
        length name' = DIRSIZ \<and> take 1 path' \<noteq> [47] \<and> 0 \<notin> set path'"
proof -
  let ?p = "dropWhile (\<lambda>c. c = 47) path"
  let ?e = "takeWhile (\<lambda>c. c \<noteq> 47) ?p" and ?r = "dropWhile (\<lambda>c. c \<noteq> 47) ?p"
  show ?thesis
  proof (cases "?p = []")
    case True
    then have "path_elems path = []" using path_elems_slashes [of path] by (simp only:) (simp add: path_elems_def)
    then show ?thesis using True by (simp add: skipelem_def)
  next
    case False
    then have h: "hd ?p \<noteq> 47" using hd_dropWhile [of "\<lambda>c. c = 47" path] by simp
    have z: "0 \<notin> set ?p" using assms(1) set_dropWhileD by metis
    have ze: "0 \<notin> set ?e" using z set_takeWhileD by metis
    have el: "path_elems path = ?e # path_elems (dropWhile (\<lambda>c. c = 47) ?r)"
      using path_elems_first [OF False h] path_elems_slashes [of path] path_elems_slashes [of ?r] by simp
    have tw: "takeWhile (\<lambda>c. c \<noteq> 0) xs = xs" if "0 \<notin> set xs" for xs :: "uchar list" using that by (induction xs) auto
    have nt: "0 \<notin> set (take DIRSIZ ?e)" using ze in_set_takeD by metis
    have b: "bstr DIRSIZ (cstr (if length ?e \<ge> DIRSIZ then take DIRSIZ ?e else ?e @ [0] @ drop (length ?e + 1) name)) = take DIRSIZ ?e"
      using tw [OF nt] tw [OF ze] ze by (auto simp: bstr_cstr takeWhile_append take_Cons')
    have l: "length (if length ?e \<ge> DIRSIZ then take DIRSIZ ?e else ?e @ [0] @ drop (length ?e + 1) name) = DIRSIZ"
      using assms(2) by auto
    have n: "take 1 (dropWhile (\<lambda>c. c = 47) r) \<noteq> [47]" for r :: "uchar list" by (induction r) auto
    have zr: "0 \<notin> set (dropWhile (\<lambda>c. c = 47) ?r)" using z by (auto dest!: set_dropWhileD)
    show ?thesis using False el b l n zr by (simp add: skipelem_def Let_def)
  qed
qed

section \<open>Directory entries\<close>

definition dent :: "'a fsst_scheme \<Rightarrow> nat \<Rightarrow> nat \<Rightarrow> dirent" where
  "dent s dp k = get_dirent (map (fbyte s (addrs s dp)) [16 * k..<16 * k + 16])"

definition ndents :: "'a fsst_scheme \<Rightarrow> nat \<Rightarrow> nat" where
  "ndents s dp = unat (i_size (icache s ! dp)) div 16"

definition dir_wf :: "'a fsst_scheme \<Rightarrow> nat \<Rightarrow> uint set \<Rightarrow> bool" where
  "dir_wf s dp R \<longleftrightarrow> file_wf s (addrs s dp) R \<and> dp < length (icache s) \<and> i_type (icache s ! dp) = T_DIR \<and>
     unat (i_size (icache s ! dp)) \<le> MAXFILE * BSIZE \<and> 16 dvd unat (i_size (icache s ! dp))"

text \<open>Whether entry \<open>k\<close> is in use with the name.\<close>

definition dent_named :: "'a fsst_scheme \<Rightarrow> nat \<Rightarrow> uchar list \<Rightarrow> nat \<Rightarrow> bool" where
  "dent_named s dp name k \<longleftrightarrow> de_inum (dent s dp k) \<noteq> 0 \<and> bstr DIRSIZ (cstr name) = bstr DIRSIZ (cstr (de_name (dent s dp k)))"

lemma bmap_step_fields:
  assumes "bmap_step R ip s s'"
  shows "i_type (icache s' ! ip) = i_type (icache s ! ip)" "i_size (icache s' ! ip) = i_size (icache s ! ip)"
    "i_dev (icache s' ! ip) = i_dev (icache s ! ip)" "i_inum (icache s' ! ip) = i_inum (icache s ! ip)"
    "length (icache s') = length (icache s)"
proof -
  obtain A where A: "icache s' = (icache s)[ip := (icache s ! ip)\<lparr>i_addrs := A\<rparr>]" using assms by (auto simp: bmap_step_def addrs_upd_def)
  then show "length (icache s') = length (icache s)" by simp
  have "icache s' ! ip = (icache s ! ip)\<lparr>i_addrs := A\<rparr> \<or> icache s' ! ip = icache s ! ip"
    unfolding A by (cases "ip < length (icache s)") (simp_all add: list_update_beyond)
  then show "i_type (icache s' ! ip) = i_type (icache s ! ip)" "i_size (icache s' ! ip) = i_size (icache s ! ip)"
    "i_dev (icache s' ! ip) = i_dev (icache s ! ip)" "i_inum (icache s' ! ip) = i_inum (icache s ! ip)" by auto
qed

lemma bmap_step_dir:
  assumes st: "bmap_step R dp s s'" and d: "dir_wf s dp R"
  shows "dir_wf s' dp R" "ndents s' dp = ndents s dp" "k < ndents s dp \<Longrightarrow> dent s' dp k = dent s dp k"
proof -
  show "dir_wf s' dp R" "ndents s' dp = ndents s dp"
    using d bmap_step_wf [OF st] bmap_step_fields [OF st] by (simp_all add: dir_wf_def ndents_def)
  assume k: "k < ndents s dp"
  have "unat (i_size (icache s ! dp)) = 16 * ndents s dp" using d by (simp add: dir_wf_def ndents_def)
  then have "fbyte s' (addrs s' dp) p = fbyte s (addrs s dp) p" if "p < 16 * k + 16" for p
    using st d that k by (auto simp: bmap_step_def file_ext_def dir_wf_def)
  then have "map (fbyte s' (addrs s' dp)) [16 * k..<16 * k + 16] = map (fbyte s (addrs s dp)) [16 * k..<16 * k + 16]" by simp
  then show "dent s' dp k = dent s dp k" unfolding dent_def by (rule arg_cong)
qed

lemma T_DIR_DEV: "T_DIR \<noteq> T_DEV" "T_DIR \<noteq> 0"
  by (simp_all add: T_DIR_def T_DEV_def)

lemma MAXFILE_bytes: "MAXFILE * BSIZE < 2 ^ 31"
  by (simp add: fs_consts)

lemma dir_size:
  assumes "dir_wf s dp R"
  shows "unat (i_size (icache s ! dp)) = 16 * ndents s dp" "16 * ndents s dp \<le> MAXFILE * BSIZE"
    "de_offsets (i_size (icache s ! dp)) = map de_off [0..<ndents s dp]"
    "de_end (i_size (icache s ! dp)) = de_off (ndents s dp)"
  using assms by (auto simp: dir_wf_def ndents_def de_offsets_def de_end_def elim!: dvdE)

lemma unat_de_off: "16 * k \<le> MAXFILE * BSIZE \<Longrightarrow> unat (de_off k) = 16 * k"
  unfolding de_off_def using MAXFILE_bytes by (intro unat_of_nat_small) simp

lemma read_dent:
  assumes e: "readi devsw dp (de_off k) 16 s = Ok (16, bs) s'" and d: "dir_wf s dp R" and k: "k < ndents s dp"
  shows "bmap_step R dp s s' \<and> get_dirent bs = dent s dp k"
proof -
  have w: "file_wf s (addrs s dp) R" "dp < length (icache s)" "i_type (icache s ! dp) \<noteq> T_DEV"
     "unat (i_size (icache s ! dp)) \<le> MAXFILE * BSIZE" using d T_DIR_DEV by (auto simp: dir_wf_def)
  have u: "unat (de_off k) = 16 * k" using dir_size(2) [OF d] k by (intro unat_de_off) simp
  have u16: "unat (16 :: uint) = 16" by simp
  note r = readi_effect [OF e w, unfolded u u16]
  have "min (16 * k + 16) (unat (i_size (icache s ! dp))) = 16 * k + 16" using k dir_size(1) [OF d] by simp
  then show ?thesis using r by (simp add: dent_def)
qed

lemma dirlookup_loop_effect:
  assumes "dirlookup_loop devsw dp name (map de_off [j..<ndents s dp]) s = Ok r s'" and "dir_wf s dp R" and "j \<le> ndents s dp"
  shows "\<exists>t. bmap_step R dp s t \<and> (case r of
      None \<Rightarrow> s' = t \<and> (\<forall>k. j \<le> k \<and> k < ndents s dp \<longrightarrow> \<not> dent_named s dp name k)
    | Some (ip, off) \<Rightarrow> \<exists>k. j \<le> k \<and> k < ndents s dp \<and> off = de_off k \<and> dent_named s dp name k \<and>
        (\<forall>i. j \<le> i \<and> i < k \<longrightarrow> \<not> dent_named s dp name i) \<and>
        iget (i_dev (icache s ! dp)) (ucast (de_inum (dent s dp k))) t = Ok ip s')"
  using assms
proof (induction "ndents s dp - j" arbitrary: j s)
  case 0
  then show ?case using bmap_step_refl [of s dp R] by (auto simp: kok dir_wf_def)
next
  case (Suc d)
  then have j: "j < ndents s dp" by simp
  then have up: "[j..<ndents s dp] = j # [Suc j..<ndents s dp]" by (rule upt_conv_Cons)
  obtain bs s1 where e1: "readi devsw dp (de_off j) 16 s = Ok (16, bs) s1"
    and e2: "(let de = get_dirent bs in
       if de_inum de = 0 then dirlookup_loop devsw dp name (map de_off [Suc j..<ndents s dp]) else
       if namecmp name (de_name de) = 0 then
         bindK (iat dp) (\<lambda>x. bindK (iget (i_dev x) (ucast (de_inum de))) (\<lambda>ip. retK (Some (ip, de_off j))))
       else dirlookup_loop devsw dp name (map de_off [Suc j..<ndents s dp])) s1 = Ok r s'"
    using Suc.prems(1) unfolding up by (auto simp: bindK_Ok panic_Ok split: if_splits)
  note rd = read_dent [OF e1 Suc.prems(2) j]
  have st: "bmap_step R dp s s1" and de: "get_dirent bs = dent s dp j" using rd by auto
  note same = bmap_step_dir [OF st Suc.prems(2)]
  have nm: "dent_named s1 dp name k = dent_named s dp name k" if "k < ndents s dp" for k using same(3) [OF that] by (simp add: dent_named_def)
  show ?case
  proof (cases "dent_named s dp name j")
    case True
    then obtain ip where "iget (i_dev (icache s1 ! dp)) (ucast (de_inum (dent s dp j))) s1 = Ok ip s'" "r = Some (ip, de_off j)"
      using e2 unfolding de by (auto simp: Let_def dent_named_def namecmp_def strncmp_0 iat_def bindK_Ok getK_Ok retK_Ok)
    then show ?thesis using st True j bmap_step_fields(3) [OF st]
      by (intro exI [of _ s1]) (auto intro!: exI [of _ j])
  next
    case False
    then have "dirlookup_loop devsw dp name (map de_off [Suc j..<ndents s1 dp]) s1 = Ok r s'"
      using e2 unfolding de same(2) by (auto simp: Let_def dent_named_def namecmp_def strncmp_0 split: if_splits)
    moreover have "d = ndents s1 dp - Suc j" "Suc j \<le> ndents s1 dp" using Suc.hyps(2) j same(2) by simp_all
    ultimately obtain t where t: "bmap_step R dp s1 t" and
      c: "case r of None \<Rightarrow> s' = t \<and> (\<forall>k. Suc j \<le> k \<and> k < ndents s1 dp \<longrightarrow> \<not> dent_named s1 dp name k)
      | Some (ip, off) \<Rightarrow> \<exists>k. Suc j \<le> k \<and> k < ndents s1 dp \<and> off = de_off k \<and> dent_named s1 dp name k \<and>
        (\<forall>i. Suc j \<le> i \<and> i < k \<longrightarrow> \<not> dent_named s1 dp name i) \<and>
        iget (i_dev (icache s1 ! dp)) (ucast (de_inum (dent s1 dp k))) t = Ok ip s'" using Suc.hyps(1) [OF _ _ same(1)] by blast
    have skip: "j \<le> i \<Longrightarrow> dent_named s dp name i \<Longrightarrow> Suc j \<le> i" for i using False by (cases "i = j") auto
    show ?thesis
    proof (intro exI [of _ t] conjI)
      show "bmap_step R dp s t" using st t by (rule bmap_step_trans)
      show "case r of None \<Rightarrow> s' = t \<and> (\<forall>k. j \<le> k \<and> k < ndents s dp \<longrightarrow> \<not> dent_named s dp name k)
        | Some (ip, off) \<Rightarrow> \<exists>k. j \<le> k \<and> k < ndents s dp \<and> off = de_off k \<and> dent_named s dp name k \<and>
          (\<forall>i. j \<le> i \<and> i < k \<longrightarrow> \<not> dent_named s dp name i) \<and>
          iget (i_dev (icache s ! dp)) (ucast (de_inum (dent s dp k))) t = Ok ip s'"
      proof (cases r)
        case None
        then show ?thesis using c skip nm same(2) by auto
      next
        case (Some q)
        obtain ip off where q: "q = (ip, off)" by (cases q)
        with c Some obtain k where k: "Suc j \<le> k" "k < ndents s1 dp" "off = de_off k" "dent_named s1 dp name k"
          "\<forall>i. Suc j \<le> i \<and> i < k \<longrightarrow> \<not> dent_named s1 dp name i"
          "iget (i_dev (icache s1 ! dp)) (ucast (de_inum (dent s1 dp k))) t = Ok ip s'" by auto
        have "\<not> dent_named s dp name i" if "j \<le> i" "i < k" for i using that skip k(2,5) nm same(2) by auto
        then show ?thesis using Some q k nm same bmap_step_fields(3) [OF st] by (auto intro!: exI [of _ k])
      qed
    qed
  qed
qed

lemma dirlookup_effect:
  assumes "dirlookup devsw dp name s = Ok r s'" and "dir_wf s dp R"
  shows "\<exists>t. bmap_step R dp s t \<and> (case r of
      None \<Rightarrow> s' = t \<and> (\<forall>k < ndents s dp. \<not> dent_named s dp name k)
    | Some (ip, off) \<Rightarrow> \<exists>k < ndents s dp. off = de_off k \<and> dent_named s dp name k \<and>
        (\<forall>i < k. \<not> dent_named s dp name i) \<and>
        iget (i_dev (icache s ! dp)) (ucast (de_inum (dent s dp k))) t = Ok ip s')"
proof -
  have "dirlookup_loop devsw dp name (map de_off [0..<ndents s dp]) s = Ok r s'"
    using assms(1) dir_size(3) [OF assms(2)] by (auto simp: dirlookup_def iat_def bindK_Ok getK_Ok panic_Ok split: if_splits)
  from dirlookup_loop_effect [OF this assms(2)] have *: "\<exists>t. bmap_step R dp s t \<and> (case r of
      None \<Rightarrow> s' = t \<and> (\<forall>k. 0 \<le> k \<and> k < ndents s dp \<longrightarrow> \<not> dent_named s dp name k)
    | Some (ip, off) \<Rightarrow> \<exists>k. 0 \<le> k \<and> k < ndents s dp \<and> off = de_off k \<and> dent_named s dp name k \<and>
        (\<forall>i. 0 \<le> i \<and> i < k \<longrightarrow> \<not> dent_named s dp name i) \<and>
        iget (i_dev (icache s ! dp)) (ucast (de_inum (dent s dp k))) t = Ok ip s')" by blast
  show ?thesis
  proof (cases r)
    case (Some q)
    then show ?thesis using * by (cases q) simp
  qed (use * in simp)
qed

lemma dirlink_loop_effect:
  assumes "dirlink_loop devsw dp (map de_off [j..<ndents s dp]) (de_off (ndents s dp)) s = Ok off s'" and "dir_wf s dp R" and "j \<le> ndents s dp"
  shows "bmap_step R dp s s' \<and> (\<exists>k \<le> ndents s dp. off = de_off k \<and> (k < ndents s dp \<longrightarrow> de_inum (dent s dp k) = 0))"
  using assms
proof (induction "ndents s dp - j" arbitrary: j s)
  case 0
  then show ?case using bmap_step_refl [of s dp R] by (auto simp: retK_Ok dir_wf_def)
next
  case (Suc d)
  then have j: "j < ndents s dp" by simp
  then have up: "[j..<ndents s dp] = j # [Suc j..<ndents s dp]" by (rule upt_conv_Cons)
  obtain bs s1 where e1: "readi devsw dp (de_off j) 16 s = Ok (16, bs) s1"
    and e2: "(if de_inum (get_dirent bs) = 0 then retK (de_off j) else
      dirlink_loop devsw dp (map de_off [Suc j..<ndents s dp]) (de_off (ndents s dp))) s1 = Ok off s'"
    using Suc.prems(1) unfolding up by (auto simp: bindK_Ok panic_Ok split: if_splits)
  note rd = read_dent [OF e1 Suc.prems(2) j]
  have st: "bmap_step R dp s s1" and de: "get_dirent bs = dent s dp j" using rd by auto
  note same = bmap_step_dir [OF st Suc.prems(2)]
  show ?case
  proof (cases "de_inum (dent s dp j) = 0")
    case True
    then show ?thesis using e2 st j unfolding de by (auto simp: retK_Ok intro!: exI [of _ j])
  next
    case False
    then have "dirlink_loop devsw dp (map de_off [Suc j..<ndents s1 dp]) (de_off (ndents s1 dp)) s1 = Ok off s'"
      using e2 unfolding de same(2) by simp
    moreover have "d = ndents s1 dp - Suc j" "Suc j \<le> ndents s1 dp" using Suc.hyps(2) j same(2) by simp_all
    ultimately have r: "bmap_step R dp s1 s'" "\<exists>k \<le> ndents s1 dp. off = de_off k \<and> (k < ndents s1 dp \<longrightarrow> de_inum (dent s1 dp k) = 0)"
      using Suc.hyps(1) [OF _ _ same(1)] by blast+
    from r(2) have "\<exists>k \<le> ndents s dp. off = de_off k \<and> (k < ndents s dp \<longrightarrow> de_inum (dent s dp k) = 0)"
      unfolding same(2) using same(3) by metis
    with bmap_step_trans [OF st r(1)] show ?thesis by blast
  qed
qed

lemma dent_length: "length (put_dirent \<lparr>de_inum = i, de_name = strncpy t (int DIRSIZ)\<rparr>) = 16"
  by (simp add: put_dirent_def strncpy_def DIRSIZ_def)

text \<open>An entry written over entry \<open>k\<close>, or after the last entry.\<close>

lemma write_dent:
  assumes w: "writei devsw dp (put_dirent de) (de_off k) 16 s = Ok 16 s'" and d: "dir_wf s dp R" and k: "k \<le> ndents s dp"
    and len: "length (put_dirent de) = 16" and ib: "IBLOCK (i_inum (icache s ! dp)) (sb s) \<in> R"
  shows "dir_wf s' dp R \<and> ndents s' dp = max (ndents s dp) (k + 1) \<and> dent s' dp k = de \<and>
    (\<forall>j < ndents s dp. j \<noteq> k \<longrightarrow> dent s' dp j = dent s dp j) \<and> i_dev (icache s' ! dp) = i_dev (icache s ! dp) \<and>
    i_inum (icache s' ! dp) = i_inum (icache s ! dp)"
proof -
  note sz = dir_size(1,2) [OF d]
  have dd: "file_wf s (addrs s dp) R" "dp < length (icache s)" "i_type (icache s ! dp) \<noteq> T_DEV"
    using d T_DIR_DEV by (auto simp: dir_wf_def)
  have u16: "unat (16 :: uint) = 16" by simp
  have k16: "16 * k \<le> MAXFILE * BSIZE" using k sz(2) by simp
  have l: "length (put_dirent de) = unat (16 :: uint)" using len by simp
  have r: "(16 :: int) \<noteq> -1" by simp
  note e = writei_effect [OF w dd r l ib, unfolded unat_de_off [OF k16] u16]
  have off: "unat (de_off k + 16) = 16 * (k + 1)"
    using unat_de_off [OF k16] e MAXFILE_bytes by (subst unat_add_noovf) simp_all
  have i: "icache s' ! dp = (icache s ! dp)\<lparr>i_addrs := addrs s' dp, i_size := max (i_size (icache s ! dp)) (de_off k + 16)\<rparr>" using e by blast
  have size: "unat (i_size (icache s' ! dp)) = 16 * max (ndents s dp) (k + 1)"
    using arg_cong [OF i, of "\<lambda>x. unat (i_size x)"] off sz(1) by (simp add: max_def word_le_nat_alt)
  have f: "i_type (icache s' ! dp) = T_DIR" "i_dev (icache s' ! dp) = i_dev (icache s ! dp)" "i_inum (icache s' ! dp) = i_inum (icache s ! dp)"
    using arg_cong [OF i, of i_type] arg_cong [OF i, of i_dev] arg_cong [OF i, of i_inum] d by (simp_all add: dir_wf_def)
  have le: "16 * max (ndents s dp) (k + 1) \<le> MAXFILE * BSIZE" using sz(2) e by (simp add: max_def)
  have wf: "dir_wf s' dp R" using e f(1) size le dd(2) by (simp add: dir_wf_def)
  have b: "fbyte s' (addrs s' dp) p = (if 16 * k \<le> p \<and> p < 16 * k + 16 then put_dirent de ! (p - 16 * k) else fbyte s (addrs s dp) p)"
    if "p < MAXFILE * BSIZE" for p using e that by blast
  have "map (fbyte s' (addrs s' dp)) [16 * k..<16 * k + 16] = put_dirent de"
    using b max.cobounded2 [THEN mult_le_mono2, THEN order_trans, OF le] len by (intro nth_equalityI) auto
  then have dk: "dent s' dp k = de" by (simp add: dent_def get_put_dirent)
  have "dent s' dp j = dent s dp j" if "j < ndents s dp" "j \<noteq> k" for j
  proof -
    have "map (fbyte s' (addrs s' dp)) [16 * j..<16 * j + 16] = map (fbyte s (addrs s dp)) [16 * j..<16 * j + 16]"
      using b sz(2) that by (intro map_cong) auto
    then show ?thesis by (simp only: dent_def)
  qed
  then show ?thesis using wf dk size f by (simp add: ndents_def)
qed

text \<open>The entry that \<^verbatim>\<open>iget\<close> returns is the one of the inode.\<close>

lemma iget_entry:
  assumes "iget dev inum s = Ok ip s'" and "length (icache s) = NINODE"
  shows "ip < NINODE \<and> i_dev (icache s' ! ip) = dev \<and> i_inum (icache s' ! ip) = inum \<and> (\<forall>j. j \<noteq> ip \<longrightarrow> icache s' ! j = icache s ! j) \<and> sb s' = sb s"
  using assms by (auto simp: iget_def upd_inode_def kok panic_Ok split: option.splits dest!: find_SomeD)

text \<open>A lookup in a well-formed directory finds the first entry in use with the name, compared on the first
  \<^verbatim>\<open>DIRSIZ\<close> bytes, and returns the cache entry of its inode and its offset; it returns null exactly when no entry
  in use has the name.\<close>

lemma dirlookup_correct:
  assumes e: "dirlookup devsw dp name s = Ok r s'" and d: "dir_wf s dp R" and ic: "length (icache s) = NINODE"
  shows "case r of
      None \<Rightarrow> \<forall>k < ndents s dp. \<not> dent_named s dp name k
    | Some (ip, off) \<Rightarrow> \<exists>k < ndents s dp. unat off = 16 * k \<and> dent_named s dp name k \<and> (\<forall>i < k. \<not> dent_named s dp name i) \<and>
        i_dev (icache s' ! ip) = i_dev (icache s ! dp) \<and> i_inum (icache s' ! ip) = ucast (de_inum (dent s dp k))"
proof (cases r)
  case None
  then show ?thesis using dirlookup_effect [OF e d] by auto
next
  case (Some q)
  obtain ip off where q: "q = (ip, off)" by (cases q)
  obtain t k where t: "bmap_step R dp s t" and k: "k < ndents s dp" "off = de_off k" "dent_named s dp name k" "\<forall>i < k. \<not> dent_named s dp name i"
    and g: "iget (i_dev (icache s ! dp)) (ucast (de_inum (dent s dp k))) t = Ok ip s'"
    using dirlookup_effect [OF e d] Some q by auto
  have "length (icache t) = NINODE" using bmap_step_fields(5) [OF t] ic by simp
  from iget_entry [OF g this] have "i_dev (icache s' ! ip) = i_dev (icache s ! dp)" "i_inum (icache s' ! ip) = ucast (de_inum (dent s dp k))" by auto
  moreover have "unat off = 16 * k" using k dir_size(2) [OF d] by (simp add: unat_de_off)
  ultimately show ?thesis using Some q k by auto
qed

text \<open>(C21) \<^verbatim>\<open>dirlink\<close> that returns 0 adds the name: the directory had no entry with it, one entry that was free or past the
  end is now the new one, no other entry has changed, and a lookup of the name afterwards returns the inode.\<close>

theorem dirlink_dirlookup:
  assumes l: "dirlink devsw dp name inum s = Ok 0 s'" and d: "dir_wf s dp R" and ic: "length (icache s) = NINODE"
    and ib: "IBLOCK (i_inum (icache s ! dp)) (sb s) \<in> R" and nz: "(ucast inum :: ushort) \<noteq> 0"
    and ic': "length (icache s') = NINODE" and lk: "dirlookup devsw dp name s' = Ok r s''"
  shows "(\<forall>k < ndents s dp. \<not> dent_named s dp name k) \<and> dir_wf s' dp R \<and>
    (\<exists>k \<le> ndents s dp. (k < ndents s dp \<longrightarrow> de_inum (dent s dp k) = 0) \<and> dent_named s' dp name k \<and>
       (\<forall>j < ndents s dp. j \<noteq> k \<longrightarrow> dent s' dp j = dent s dp j)) \<and>
    (\<exists>ip off. r = Some (ip, off) \<and> i_inum (icache s'' ! ip) = ucast (ucast inum :: ushort))"
proof -
  define de where "de = \<lparr>de_inum = ucast inum, de_name = strncpy (cstr name) (int DIRSIZ)\<rparr>"
  have none: "(\<forall>x y. v \<noteq> Some (x, y)) \<longleftrightarrow> v = None" for v :: "(nat \<times> uint) option" by (cases v) auto
  obtain s1 off s2 where 1: "dirlookup devsw dp name s = Ok None s1"
    and 2: "dirlink_loop devsw dp (de_offsets (i_size (icache s1 ! dp))) (de_end (i_size (icache s1 ! dp))) s1 = Ok off s2"
    and 3: "writei devsw dp (put_dirent de) off 16 s2 = Ok 16 s'"
    using l unfolding dirlink_def by (auto simp: bindK_Ok thenK_Ok retK_Ok iat_def getK_Ok de_def Let_def panic_Ok none split: option.splits if_splits)
  have st1: "bmap_step R dp s s1" and no: "\<forall>k < ndents s dp. \<not> dent_named s dp name k" using dirlookup_effect [OF 1 d] by auto
  note d1 = bmap_step_dir [OF st1 d]
  from dirlink_loop_effect [OF 2 [unfolded dir_size(3,4) [OF d1(1)]] d1(1)] obtain k where st2: "bmap_step R dp s1 s2"
    and k: "k \<le> ndents s1 dp" "off = de_off k" "k < ndents s1 dp \<longrightarrow> de_inum (dent s1 dp k) = 0" by auto
  note d2 = bmap_step_dir [OF st2 d1(1)]
  have nd: "ndents s2 dp = ndents s dp" using d2(2) d1(2) by simp
  have ib2: "IBLOCK (i_inum (icache s2 ! dp)) (sb s2) \<in> R"
    using ib bmap_step_fields(4) [OF st1] bmap_step_fields(4) [OF st2] st1 st2 by (simp add: bmap_step_def)
  have "k \<le> ndents s2 dp" using k(1) nd d1(2) by simp
  note w = write_dent [OF 3 [unfolded k(2)] d2(1) this dent_length [of "ucast inum" "cstr name", folded de_def] ib2]
  have named: "dent_named s' dp name k" using w nz by (simp add: dent_named_def de_def strncpy_def)
  have same: "dent s' dp j = dent s dp j" if "j < ndents s dp" "j \<noteq> k" for j
    using w that nd d1(2,3) d2(3) by simp
  have only: "j = k" if "dent_named s' dp name j" "j < ndents s' dp" for j
  proof (rule ccontr)
    assume "j \<noteq> k"
    moreover have "j < ndents s dp" using that(2) w nd \<open>j \<noteq> k\<close> k(1) d1(2) by (auto simp: max_def split: if_splits)
    ultimately have "dent_named s dp name j" "j < ndents s dp" using same that(1) by (simp_all add: dent_named_def)
    then show False using no by blast
  qed
  have "k < ndents s' dp" using w by (auto simp: max_def)
  have "\<exists>ip off. r = Some (ip, off) \<and> i_inum (icache s'' ! ip) = ucast (ucast inum :: ushort)"
  proof -
    from w have w': "dir_wf s' dp R" by blast
    from dirlookup_effect [OF lk w'] obtain t where t: "bmap_step R dp s' t" and c: "case r of
      None \<Rightarrow> s'' = t \<and> (\<forall>k < ndents s' dp. \<not> dent_named s' dp name k)
    | Some (ip, off) \<Rightarrow> \<exists>k < ndents s' dp. off = de_off k \<and> dent_named s' dp name k \<and>
        (\<forall>i < k. \<not> dent_named s' dp name i) \<and>
        iget (i_dev (icache s' ! dp)) (ucast (de_inum (dent s' dp k))) t = Ok ip s''" by blast
    have lt: "length (icache t) = NINODE" using bmap_step_fields(5) [OF t] ic' by simp
    obtain ip o2 where r: "r = Some (ip, o2)" using c named \<open>k < ndents s' dp\<close> by (cases r) auto
    then obtain j where j: "j < ndents s' dp" "dent_named s' dp name j"
      "iget (i_dev (icache s' ! dp)) (ucast (de_inum (dent s' dp j))) t = Ok ip s''" using c by auto
    have "j = k" by (rule only [OF j(2,1)])
    then have "i_inum (icache s'' ! ip) = ucast (ucast inum :: ushort)" using iget_entry [OF j(3) lt] w by (simp add: de_def)
    then show ?thesis using r by blast
  qed
  then show ?thesis using no w named same k d1(2,3) by auto
qed

section \<open>Examples\<close>

text \<open>A file system with a directory of one entry, which is not in use.\<close>

definition fs_dir :: fsst where
  "fs_dir = fs_one\<lparr>icache := one_file\<lparr>i_type := T_DIR, i_size := 16\<rparr> # replicate (NINODE - 1) (one_file\<lparr>i_ref := 0\<rparr>)\<rparr>"

lemma fs_dir_inode: "icache fs_dir ! 0 = one_file\<lparr>i_type := T_DIR, i_size := 16\<rparr>" "length (icache fs_dir) = NINODE"
  by (simp_all add: fs_dir_def NINODE_def)

lemma fs_dir_wf: "dir_wf fs_dir 0 {4}"
proof -
  have "file_wf fs_dir (addrs fs_dir 0) {4} = file_wf fs_file (addrs fs_file 0) {4}"
    by (simp add: file_wf_def bitmap_wf_def blk_alloc_def blk_used_def bitmap_ok_def fs_dir_def fs_file_def)
  then show ?thesis using fs_file_wf fs_dir_inode by (simp add: dir_wf_def fs_consts NINODE_def)
qed

text \<open>What stays true of the example's state while its directory is read and written.\<close>

definition dir_quiet :: "fsst \<Rightarrow> bool" where
  "dir_quiet s \<longleftrightarrow> icache s = icache fs_dir \<and> klocks s = [] \<and> cur s = Some 0 \<and> length (ptable s) = 1 \<and>
     (\<forall>i. \<not> slk_locked (sleeplocks s i)) \<and> bheld s = [] \<and> bdirty s \<in> {[], [(1, 8)]} \<and> bdisksize s = 20 \<and>
     lh s \<in> {[], [8]} \<and> log_size s = 30 \<and> log_outstanding s = 1"

lemma dir_quiet_fs_dir: "dir_quiet fs_dir"
  by (simp add: dir_quiet_def) (simp add: fs_dir_def fs_one_def)

lemma io_chunks_16: "io_chunks 0 16 = [(0, 16)]"
  by (simp add: io_chunks.simps BSIZE_def)

lemmas quiet_run = readi_def writei_def iat_def kok bmap_def addr_or_alloc_def T_DIR_DEV running_def slk_mine_def mypid_def
  binuse_def NBUF_def LOGSIZE_def MAXOPBLOCKS_def absorb_def io_chunks_16 Let_def fs_consts

lemma dir_quiet_read:
  assumes "dir_quiet s"
  shows "\<exists>s'. readi no_dev 0 0 16 s = Ok (16, block_bytes (bmem s (1, 8)) 0 16) s' \<and> dir_quiet s' \<and> bmem s' = bmem s"
  using assms fs_dir_inode by (auto simp: dir_quiet_def quiet_run one_file_def)

lemma dir_quiet_write:
  assumes "dir_quiet s"
  shows "\<exists>s'. writei no_dev 0 src 0 16 s = Ok 16 s' \<and> dir_quiet s' \<and> bmem s' = (bmem s)((1, 8) := put_bytes (bmem s (1, 8)) 0 (take 16 src))"
  using assms fs_dir_inode by (auto simp: dir_quiet_def quiet_run one_file_def)

lemma dir_quiet_offsets:
  assumes "dir_quiet s"
  shows "de_offsets (i_size (icache s ! 0)) = [0]" "i_type (icache s ! 0) = T_DIR" "i_dev (icache s ! 0) = 1" "length (icache s) = NINODE"
  using assms fs_dir_inode by (simp_all add: dir_quiet_def de_offsets_def de_off_def one_file_def)

lemma dir_quiet_iget:
  assumes "dir_quiet s"
  shows "\<exists>ip s'. iget 1 3 s = Ok ip s'"
proof -
  have ic: "icache s ! i = (if i = 0 then one_file\<lparr>i_type := T_DIR, i_size := 16\<rparr> else one_file\<lparr>i_ref := 0\<rparr>)" if "i < NINODE" for i
    using assms that by (cases i) (simp_all add: dir_quiet_def fs_dir_def)
  then have "\<forall>i. \<not> icached 1 3 s i" by (auto simp: icached_def one_file_def split: if_splits)
  moreover have "find (\<lambda>i. i_ref (icache s ! i) = 0) [0..<NINODE] \<noteq> None"
    using ic [of 1] by (auto simp: find_None_iff NINODE_def intro!: exI [of _ 1])
  ultimately show ?thesis using assms iget_uncached [of s 1 3] by (auto simp: dir_quiet_def)
qed

lemma dir_quiet_lookup_free:
  assumes q: "dir_quiet s" and f: "de_inum (get_dirent (block_bytes (bmem s (1, 8)) 0 16)) = 0"
  shows "\<exists>s'. dirlookup no_dev 0 name s = Ok None s' \<and> dir_quiet s' \<and> bmem s' = bmem s"
  using dir_quiet_read [OF q] f dir_quiet_offsets [OF q] by (auto simp: dirlookup_def iat_def kok)

lemma dir_quiet_lookup:
  assumes q: "dir_quiet s" and f: "get_dirent (block_bytes (bmem s (1, 8)) 0 16) = \<lparr>de_inum = 3, de_name = strncpy (cstr name) (int DIRSIZ)\<rparr>"
  shows "\<exists>r s'. dirlookup no_dev 0 name s = Ok r s'"
proof -
  obtain t where t: "readi no_dev 0 0 16 s = Ok (16, block_bytes (bmem s (1, 8)) 0 16) t" "dir_quiet t" using dir_quiet_read [OF q] by blast
  have "namecmp name (strncpy (cstr name) (int DIRSIZ)) = 0" by (simp add: namecmp_def strncmp_0 strncpy_def)
  then show ?thesis using t f dir_quiet_offsets [OF q] dir_quiet_offsets [OF t(2)] dir_quiet_iget [OF t(2)]
    by (auto simp: dirlookup_def iat_def kok Let_def)
qed

lemma fs_dir_dirlink:
  "\<exists>s' r s''. dirlink no_dev 0 [97] 3 fs_dir = Ok 0 s' \<and> length (icache s') = NINODE \<and> dirlookup no_dev 0 [97] s' = Ok r s''"
proof -
  define de where "de = \<lparr>de_inum = ucast (3 :: uint), de_name = strncpy (cstr [97]) (int DIRSIZ)\<rparr>"
  have z: "bmem fs_dir (1, 8) = (\<lambda>_. 0)" by (simp add: fs_dir_def fs_one_def)
  have zf: "de_inum (get_dirent (block_bytes (\<lambda>_. 0) 0 16)) = 0" by (simp add: get_dirent_def block_bytes_def)
  obtain s1 where 1: "dirlookup no_dev 0 [97] fs_dir = Ok None s1" "dir_quiet s1" "bmem s1 = bmem fs_dir"
    using dir_quiet_lookup_free [OF dir_quiet_fs_dir] z zf by metis
  obtain s2 where 2: "readi no_dev 0 0 16 s1 = Ok (16, block_bytes (bmem s1 (1, 8)) 0 16) s2" "dir_quiet s2" "bmem s2 = bmem s1"
    using dir_quiet_read [OF 1(2)] by blast
  obtain s3 where 3: "writei no_dev 0 (put_dirent de) 0 16 s2 = Ok 16 s3" "dir_quiet s3"
    "bmem s3 = (bmem s2)((1, 8) := put_bytes (bmem s2 (1, 8)) 0 (take 16 (put_dirent de)))"
    using dir_quiet_write [OF 2(2)] by blast
  have l: "dirlink no_dev 0 [97] 3 fs_dir = Ok 0 s3"
    using 1 2 3 z zf dir_quiet_offsets [OF 1(2)] unfolding dirlink_def by (simp add: bindK_def iat_def getK_def retK_def Let_def de_def)
  have "block_bytes (bmem s3 (1, 8)) 0 16 = put_dirent de"
    using 3(3) dent_length [of "ucast (3 :: uint)" "cstr [97]"] by (intro nth_equalityI) (simp_all add: de_def block_bytes_def put_bytes_def)
  then have "get_dirent (block_bytes (bmem s3 (1, 8)) 0 16) = \<lparr>de_inum = 3, de_name = strncpy (cstr [97]) (int DIRSIZ)\<rparr>"
    by (simp add: de_def)
  from dir_quiet_lookup [OF 3(2) this] l dir_quiet_offsets(4) [OF 3(2)] show ?thesis by blast
qed

theorem dirlink_dirlookup_witness:
  "\<exists>s' r s''. dirlink no_dev 0 [97] 3 fs_dir = Ok 0 s' \<and> dirlookup no_dev 0 [97] s' = Ok r s'' \<and>
     (\<exists>ip off. r = Some (ip, off) \<and> i_inum (icache s'' ! ip) = 3)"
proof -
  obtain s' r s'' where l: "dirlink no_dev 0 [97] 3 fs_dir = Ok 0 s'" and n: "length (icache s') = NINODE"
    and k: "dirlookup no_dev 0 [97] s' = Ok r s''" using fs_dir_dirlink by blast
  have ib: "IBLOCK (i_inum (icache fs_dir ! 0)) (sb fs_dir) \<in> {4}"
    using fs_file_iblock by (simp add: fs_dir_def fs_file_def)
  show ?thesis using dirlink_dirlookup [OF l fs_dir_wf fs_dir_inode(2) ib _ n k] l k by auto
qed

end
