(* ===== verification/Kalloc.thy ===== *)
theory Kalloc
  imports Dir
begin

text \<open>
  The page allocator of \<^verbatim>\<open>kernel/kalloc.c\<close>. Free pages form a list linked through their first words, in the
  memory the kernel sees above \<^verbatim>\<open>KERNBASE\<close>. The lemmas show that the linked list represents a set of
  distinct pages which \<^verbatim>\<open>kfree\<close> extends and \<^verbatim>\<open>kalloc\<close> shrinks by one page, so a page is never handed
  out twice; the locale \<open>page_pool\<close> is that contract, on which the page tables and the processes rest.
\<close>

section \<open>Memory layout\<close>

definition PGSIZE :: uint where "PGSIZE = 4096"
definition PHYSTOP :: uint where "PHYSTOP = 0xE000000"

definition V2P :: "uint \<Rightarrow> uint" where
  "V2P a = a - KERNBASE"

definition P2V :: "uint \<Rightarrow> uint" where
  "P2V a = a + KERNBASE"

definition PGROUNDUP :: "uint \<Rightarrow> uint" where
  "PGROUNDUP sz = (sz + PGSIZE - 1) AND NOT (PGSIZE - 1)"

definition PGROUNDDOWN :: "uint \<Rightarrow> uint" where
  "PGROUNDDOWN a = a AND NOT (PGSIZE - 1)"

definition load32 :: "memory \<Rightarrow> uint \<Rightarrow> uint" where
  "load32 m a = ucast (m a) OR push_bit 8 (ucast (m (a + 1))) OR push_bit 16 (ucast (m (a + 2))) OR push_bit 24 (ucast (m (a + 3)))"

text \<open>
  The state: the memory at kernel addresses, \<^verbatim>\<open>kmem\<close>, and the address \<^verbatim>\<open>end\<close> that the linker
  provides.
\<close>

record kmst = fsst +
  kmemory :: memory
  use_lock :: bool
  freelist :: uint
  kernel_end :: uint

section \<open>Operations\<close>

definition kfree :: "uint \<Rightarrow> ('a kmst_scheme, unit) kfun" where
  "kfree v =
     bindK (getK kernel_end) (\<lambda>kend.
     if v mod PGSIZE \<noteq> 0 \<or> v < kend \<or> V2P v \<ge> PHYSTOP then panic ''kfree'' else
     thenK (modK (\<lambda>s. s\<lparr>kmemory := memset (kmemory s) v 1 PGSIZE\<rparr>)) (
     bindK (getK use_lock) (\<lambda>ul.
     thenK (whenK ul (acquire L_kmem)) (
     thenK (modK (\<lambda>s. s\<lparr>kmemory := store32 (kmemory s) v (freelist s)\<rparr>)) (
     thenK (modK (\<lambda>s. s\<lparr>freelist := v\<rparr>)) (
     whenK ul (release L_kmem)))))))"

definition kalloc :: "('a kmst_scheme, uint) kfun" where
  "kalloc =
     bindK (getK use_lock) (\<lambda>ul.
     thenK (whenK ul (acquire L_kmem)) (
     bindK (getK freelist) (\<lambda>r.
     thenK (whenK (r \<noteq> 0) (modK (\<lambda>s. s\<lparr>freelist := load32 (kmemory s) r\<rparr>))) (
     thenK (whenK ul (release L_kmem)) (
     retK r)))))"

text \<open>The pages that the loop of \<^verbatim>\<open>freerange\<close> frees: \<^verbatim>\<open>p + PGSIZE <= vend\<close> compares addresses.\<close>

function range_pages :: "uint \<Rightarrow> uint \<Rightarrow> uint list" where
  "range_pages p vend = (if p + PGSIZE \<le> vend \<and> p \<le> p + PGSIZE then p # range_pages (p + PGSIZE) vend else [])"
  by pat_completeness auto
termination
proof (relation "measure (\<lambda>(p, vend). 2 ^ 32 - unat p)")
  fix p vend :: uint assume "p + PGSIZE \<le> vend \<and> p \<le> p + PGSIZE"
  moreover have "p + PGSIZE \<noteq> p" by (simp add: PGSIZE_def)
  ultimately have "unat (p + PGSIZE) \<noteq> unat p \<and> unat p \<le> unat (p + PGSIZE)" by (simp add: word_unat_eq_iff word_le_nat_alt)
  then show "((p + PGSIZE, vend), p, vend) \<in> measure (\<lambda>(p, vend). 2 ^ 32 - unat p)" using unat_lt_2p32 [of "p + PGSIZE"] by auto
qed simp

declare range_pages.simps [simp del]

definition freerange :: "uint \<Rightarrow> uint \<Rightarrow> ('a kmst_scheme, unit) kfun" where
  "freerange vstart vend = forK (range_pages (PGROUNDUP vstart) vend) kfree"

definition kinit1 :: "uint \<Rightarrow> uint \<Rightarrow> ('a kmst_scheme, unit) kfun" where
  "kinit1 vstart vend =
     thenK (modK (\<lambda>s. s\<lparr>use_lock := False\<rparr>)) (
     freerange vstart vend)"

definition kinit2 :: "uint \<Rightarrow> uint \<Rightarrow> ('a kmst_scheme, unit) kfun" where
  "kinit2 vstart vend =
     thenK (freerange vstart vend) (
     modK (\<lambda>s. s\<lparr>use_lock := True\<rparr>))"

section \<open>Pages\<close>

definition page_aligned :: "uint \<Rightarrow> bool" where
  "page_aligned v \<longleftrightarrow> v mod PGSIZE = 0"

lemma page_aligned_unat: "page_aligned v \<longleftrightarrow> unat v mod 4096 = 0"
  by (simp add: page_aligned_def word_unat_eq_iff unat_mod PGSIZE_def)

definition page_ok :: "uint \<Rightarrow> uint \<Rightarrow> bool" where
  "page_ok kend v \<longleftrightarrow> page_aligned v \<and> kend \<le> v \<and> V2P v < PHYSTOP"

definition in_page :: "uint \<Rightarrow> uint \<Rightarrow> bool" where
  "in_page a v \<longleftrightarrow> unat (a - v) < 4096"

lemma page_ok_nonzero: "page_ok kend v \<Longrightarrow> v \<noteq> 0"
  by (auto simp: page_ok_def V2P_def KERNBASE_def PHYSTOP_def)

lemma page_unat:
  assumes "page_aligned v"
  shows "unat v mod 4096 = 0" "unat v + 4096 \<le> 2 ^ 32"
proof -
  show m: "unat v mod 4096 = 0" using assms by (simp add: page_aligned_unat)
  then obtain k where "unat v = 4096 * k" by (auto elim: dvdE)
  then show "unat v + 4096 \<le> 2 ^ 32" using unat_lt_2p32 [of v] by simp
qed

lemma in_page_unat:
  assumes "page_aligned v" and "in_page a v"
  shows "unat a = unat v + unat (a - v)"
proof -
  have "unat (v + (a - v)) = unat v + unat (a - v)"
    using page_unat(2) [OF assms(1)] assms(2) by (intro unat_add_noovf) (simp add: in_page_def)
  then show ?thesis by simp
qed

lemma page_disjoint:
  assumes "page_aligned v" "page_aligned w" "in_page a v" "in_page a w"
  shows "v = w"
proof -
  have "unat v = 4096 * (unat a div 4096)" "unat w = 4096 * (unat a div 4096)"
    using in_page_unat [OF assms(1,3)] in_page_unat [OF assms(2,4)] page_unat(1) [OF assms(1)] page_unat(1) [OF assms(2)] assms(3,4)
    by (auto simp: in_page_def mod_eq_0_iff_dvd elim!: dvdE)
  then show ?thesis by (simp add: word_unat_eq_iff)
qed

lemma load_store32 [simp]: "load32 (store32 m a v) a = v"
  using le32_split [of v] by (simp add: load32_def store32_def)

lemma load32_cong: "m a = m' a \<Longrightarrow> m (a + 1) = m' (a + 1) \<Longrightarrow> m (a + 2) = m' (a + 2) \<Longrightarrow> m (a + 3) = m' (a + 3) \<Longrightarrow> load32 m a = load32 m' a"
  by (simp add: load32_def)

lemma store32_other: "\<not> in_page x v \<Longrightarrow> store32 m v w x = m x"
  by (auto simp: store32_def in_page_def)

lemma load32_page:
  assumes "\<forall>x. in_page x w \<longrightarrow> m' x = m x"
  shows "load32 m' w = load32 m w"
  using assms by (intro load32_cong) (simp_all add: in_page_def)

section \<open>The free list\<close>

fun free_chain :: "uint \<Rightarrow> memory \<Rightarrow> uint \<Rightarrow> uint list \<Rightarrow> bool" where
  "free_chain kend m p [] \<longleftrightarrow> p = 0"
| "free_chain kend m p (v # vs) \<longleftrightarrow> p = v \<and> page_ok kend v \<and> free_chain kend m (load32 m v) vs"

definition kmem_ok :: "'a kmst_scheme \<Rightarrow> uint list \<Rightarrow> bool" where
  "kmem_ok s vs \<longleftrightarrow> free_chain (kernel_end s) (kmemory s) (freelist s) vs \<and> distinct vs"

lemma free_chain_cong:
  "(\<And>x v. v \<in> set vs \<Longrightarrow> in_page x v \<Longrightarrow> m' x = m x) \<Longrightarrow> free_chain kend m' p vs = free_chain kend m p vs"
proof (induction vs arbitrary: p)
  case (Cons v vs)
  have "load32 m' v = load32 m v" using Cons.prems [of v] by (intro load32_page) auto
  then show ?case using Cons by auto
qed simp

lemma free_chain_pages: "free_chain kend m p vs \<Longrightarrow> \<forall>v \<in> set vs. page_ok kend v"
  by (induction vs arbitrary: p) auto

text \<open>Freeing a page puts it at the head of the free list.\<close>

lemma kfree_run:
  assumes ok: "kmem_ok s vs" and v: "page_ok (kernel_end s) v" and new: "v \<notin> set vs" and l: "L_kmem \<notin> set (klocks s)"
  obtains m where "kfree v s = Ok () (s\<lparr>kmemory := m, freelist := v\<rparr>)" "kmem_ok (s\<lparr>kmemory := m, freelist := v\<rparr>) (v # vs)"
    "\<And>x. \<not> in_page x v \<Longrightarrow> m x = kmemory s x"
proof -
  define m where "m = store32 (memset (kmemory s) v 1 PGSIZE) v (freelist s)"
  define s' where "s' = s\<lparr>kmemory := m, freelist := v\<rparr>"
  have r: "kfree v s = Ok () s'"
    using v l by (auto simp: kfree_def kok page_ok_def page_aligned_def s'_def m_def thenK_def bindK_def klocks_self not_less not_le acquire_def release_def kdefs)
  have other: "m x = kmemory s x" if "\<not> in_page x v" for x
    using that by (simp add: m_def store32_other memset_fills in_page_def PGSIZE_def)
  have "free_chain (kernel_end s) m (freelist s) vs = free_chain (kernel_end s) (kmemory s) (freelist s) vs"
  proof (rule free_chain_cong)
    fix x w assume w: "w \<in> set vs" "in_page x w"
    have "page_ok (kernel_end s) w" using ok w(1) free_chain_pages by (auto simp: kmem_ok_def)
    then have "\<not> in_page x v" using page_disjoint [of v w x] v w new by (auto simp: page_ok_def)
    then show "m x = kmemory s x" by (rule other)
  qed
  then have "kmem_ok s' (v # vs)" using ok v new by (simp add: kmem_ok_def s'_def) (simp add: m_def)
  then show thesis using that r other by (auto simp: s'_def)
qed

lemma kfree_effect:
  assumes "kmem_ok s vs" and "page_ok (kernel_end s) v" and "v \<notin> set vs" and "L_kmem \<notin> set (klocks s)"
  shows "\<exists>s'. kfree v s = Ok () s' \<and> kmem_ok s' (v # vs) \<and> klocks s' = klocks s \<and> kernel_end s' = kernel_end s \<and>
    (\<forall>x. \<not> in_page x v \<longrightarrow> kmemory s' x = kmemory s x)"
  by (rule kfree_run [OF assms]) auto

text \<open>Allocation takes the first page off the free list, and returns null exactly when the list is empty.\<close>

lemma kalloc_effect:
  assumes ok: "kmem_ok s vs" and l: "L_kmem \<notin> set (klocks s)"
  shows "\<exists>s'. kalloc s = Ok (case vs of [] \<Rightarrow> 0 | v # _ \<Rightarrow> v) s' \<and> kmem_ok s' (tl vs) \<and>
     klocks s' = klocks s \<and> kmemory s' = kmemory s \<and> kernel_end s' = kernel_end s"
proof (cases vs)
  case Nil
  then have "kalloc s = Ok 0 s" using ok l
    by (auto simp: kalloc_def kdefs acquire_def release_def kmem_ok_def klocks_self)
  then show ?thesis using ok Nil by auto
next
  case (Cons v vs')
  define s' where "s' = s\<lparr>freelist := load32 (kmemory s) v\<rparr>"
  have "freelist s = v" "v \<noteq> 0" using ok Cons page_ok_nonzero by (auto simp: kmem_ok_def)
  then have "kalloc s = Ok v s'" using l by (auto simp: kalloc_def kdefs acquire_def release_def s'_def klocks_self)
  then show ?thesis using ok Cons by (auto simp: kmem_ok_def s'_def)
qed

lemma kalloc_run:
  assumes "kmem_ok s vs" and "L_kmem \<notin> set (klocks s)"
  shows "vs = [] \<Longrightarrow> kalloc s = Ok 0 s" "vs = v # vs' \<Longrightarrow> kalloc s = Ok v (s\<lparr>freelist := load32 (kmemory s) v\<rparr>)"
    "vs = v # vs' \<Longrightarrow> kmem_ok (s\<lparr>freelist := load32 (kmemory s) v\<rparr>) vs'"
  using assms page_ok_nonzero by (auto simp: kalloc_def kdefs acquire_def release_def kmem_ok_def klocks_self)

section \<open>The contract\<close>

text \<open>
  A pool of pages, as the clients of the allocator see it: \<open>pool s vs\<close> says that the free pages are \<open>vs\<close>, in the
  order in which they will be handed out.
\<close>

locale page_pool =
  fixes alloc :: "'s \<Rightarrow> (uint, 's) outcome" and free :: "uint \<Rightarrow> 's \<Rightarrow> (unit, 's) outcome"
    and pool :: "'s \<Rightarrow> uint list \<Rightarrow> bool" and page :: "'s \<Rightarrow> uint \<Rightarrow> bool" and ready :: "'s \<Rightarrow> bool"
  assumes alloc_some: "pool s (v # vs) \<Longrightarrow> ready s \<Longrightarrow> \<exists>s'. alloc s = Ok v s' \<and> pool s' vs \<and> ready s' \<and> (\<forall>w. page s' w = page s w)"
    and alloc_none: "pool s [] \<Longrightarrow> ready s \<Longrightarrow> \<exists>s'. alloc s = Ok 0 s' \<and> pool s' [] \<and> ready s'"
    and free_page: "pool s vs \<Longrightarrow> ready s \<Longrightarrow> page s v \<Longrightarrow> v \<notin> set vs \<Longrightarrow>
      \<exists>s'. free v s = Ok () s' \<and> pool s' (v # vs) \<and> ready s' \<and> (\<forall>w. page s' w = page s w)"
    and pool_pages: "pool s vs \<Longrightarrow> distinct vs \<and> (\<forall>v \<in> set vs. page s v \<and> v \<noteq> 0)"
begin

text \<open>Allocating \<open>n\<close> pages.\<close>

fun allocs :: "nat \<Rightarrow> 's \<Rightarrow> (uint list, 's) outcome" where
  "allocs 0 = retK []"
| "allocs (Suc n) = bindK alloc (\<lambda>v. bindK (allocs n) (\<lambda>vs. retK (v # vs)))"

lemma allocs_distinct:
  "pool s (us @ vs) \<Longrightarrow> ready s \<Longrightarrow> \<exists>s'. allocs (length us) s = Ok us s' \<and> pool s' vs \<and> ready s' \<and> (\<forall>w. page s' w = page s w)"
proof (induction us arbitrary: s)
  case (Cons u us)
  then obtain t where t: "alloc s = Ok u t" "pool t (us @ vs)" "ready t" "\<forall>w. page t w = page s w" using alloc_some [of s u "us @ vs"] by auto
  from Cons.IH [OF t(2,3)] obtain s' where "allocs (length us) t = Ok us s'" "pool s' vs" "ready s'" "\<forall>w. page s' w = page t w" by blast
  then show ?case using t by (intro exI [of _ s']) (simp add: bindK_def retK_def)
qed (simp add: retK_def)

lemma frees:
  "pool s vs \<Longrightarrow> ready s \<Longrightarrow> distinct us \<Longrightarrow> set us \<inter> set vs = {} \<Longrightarrow> \<forall>u \<in> set us. page s u \<Longrightarrow>
   \<exists>s'. forK us free s = Ok () s' \<and> pool s' (rev us @ vs) \<and> ready s' \<and> (\<forall>w. page s' w = page s w)"
proof (induction us arbitrary: s vs)
  case (Cons u us)
  then obtain t where t: "free u s = Ok () t" "pool t (u # vs)" "ready t" "\<forall>w. page t w = page s w" using free_page [of s vs u] by auto
  from Cons.IH [OF t(2,3)] obtain s' where "forK us free t = Ok () s'" "pool s' (rev us @ u # vs)" "ready s'" "\<forall>w. page s' w = page t w"
    using Cons.prems t(4) by auto
  then show ?case using t by (intro exI [of _ s']) (simp add: thenK_def bindK_def)
qed (simp add: retK_def)

text \<open>Pages handed out and given back restore the pool, up to their order.\<close>

lemma allocs_frees:
  assumes "pool s (us @ vs)" and "ready s"
  shows "\<exists>s' s''. allocs (length us) s = Ok us s' \<and> forK us free s' = Ok () s'' \<and> pool s'' (rev us @ vs)"
proof -
  obtain s' where a: "allocs (length us) s = Ok us s'" "pool s' vs" "ready s'" "\<forall>w. page s' w = page s w" using allocs_distinct [OF assms] by blast
  have "distinct us" "set us \<inter> set vs = {}" "\<forall>u \<in> set us. page s' u" using pool_pages [OF assms(1)] a(4) by auto
  from frees [OF a(2,3) this] a(1) show ?thesis by blast
qed

end

interpretation kpages: page_pool kalloc kfree kmem_ok "\<lambda>s. page_ok (kernel_end s)" "\<lambda>s. L_kmem \<notin> set (klocks s)"
proof
  fix s :: "'a kmst_scheme" and v vs
  show "\<exists>s'. kalloc s = Ok v s' \<and> kmem_ok s' vs \<and> L_kmem \<notin> set (klocks s') \<and> (\<forall>w. page_ok (kernel_end s') w = page_ok (kernel_end s) w)"
    if "kmem_ok s (v # vs)" "L_kmem \<notin> set (klocks s)" using kalloc_effect [OF that] that(2) by auto
  show "\<exists>s'. kalloc s = Ok 0 s' \<and> kmem_ok s' [] \<and> L_kmem \<notin> set (klocks s')"
    if "kmem_ok s []" "L_kmem \<notin> set (klocks s)" using kalloc_effect [OF that] that(2) by auto
  show "\<exists>s'. kfree v s = Ok () s' \<and> kmem_ok s' (v # vs) \<and> L_kmem \<notin> set (klocks s') \<and> (\<forall>w. page_ok (kernel_end s') w = page_ok (kernel_end s) w)"
    if "kmem_ok s vs" "L_kmem \<notin> set (klocks s)" "page_ok (kernel_end s) v" "v \<notin> set vs" using kfree_effect [OF that(1,3,4,2)] that(2) by auto
  show "distinct vs \<and> (\<forall>v \<in> set vs. page_ok (kernel_end s) v \<and> v \<noteq> 0)" if "kmem_ok s vs"
    using that free_chain_pages [of "kernel_end s" "kmemory s" "freelist s" vs] page_ok_nonzero unfolding kmem_ok_def by blast
qed

text \<open>(C30) The allocator never hands out a page twice: as many calls of \<^verbatim>\<open>kalloc\<close> as there are pages in a prefix of the
  free list return the distinct pages of that prefix, and freeing them all makes exactly the same pages free again.\<close>

theorem kalloc_kfree_pool:
  assumes "kmem_ok s (us @ vs)" and "L_kmem \<notin> set (klocks s)"
  shows "\<exists>s' s''. page_pool.allocs kalloc (length us) s = Ok us s' \<and> distinct (us @ vs) \<and> forK us kfree s' = Ok () s'' \<and>
    kmem_ok s'' (rev us @ vs)"
  using kpages.allocs_frees [OF assms] kpages.pool_pages [OF assms(1)] by blast

section \<open>Boot\<close>

lemma and_not_4095: "a AND NOT (4095 :: uint) = a - a mod 4096"
proof -
  have m: "(4095 :: uint) = mask 12" by (simp add: mask_eq_exp_minus_1)
  have "a AND NOT (4095 :: uint) = push_bit 12 (drop_bit 12 a)"
    unfolding m by (rule bit_word_eqI) (auto simp: bit_simps)
  moreover have "a mod 4096 = take_bit 12 a" by (simp add: take_bit_eq_mod)
  ultimately show ?thesis using bits_ident [of 12 a] by (metis add_diff_cancel_right')
qed

lemma unat_round: "unat (a AND NOT (4095 :: uint)) = 4096 * (unat a div 4096)"
proof -
  have "a mod 4096 \<le> a" by (simp add: word_le_nat_alt unat_mod)
  then have "unat (a - a mod 4096) = unat a - unat a mod 4096" by (simp add: unat_sub unat_mod)
  then show ?thesis unfolding and_not_4095 by (simp add: minus_mod_eq_mult_div)
qed

lemma PGROUNDUP_and: "PGROUNDUP a = (a + 4095) AND NOT 4095"
  by (simp add: PGROUNDUP_def PGSIZE_def add.commute)

lemma PGROUNDUP_page: "page_aligned (PGROUNDUP a)"
  by (simp only: page_aligned_unat PGROUNDUP_and unat_round) simp

lemma PGROUNDUP_unat: "unat a + 4095 < 2 ^ 32 \<Longrightarrow> unat (PGROUNDUP a) = 4096 * ((unat a + 4095) div 4096)"
  using unat_add_noovf [of a 4095] by (simp only: PGROUNDUP_and unat_round) simp

lemma page_step: "page_aligned p \<Longrightarrow> p + PGSIZE \<le> vend \<Longrightarrow> p \<le> p + PGSIZE \<Longrightarrow> unat (p + PGSIZE) = unat p + 4096 \<and> page_aligned (p + PGSIZE)"
proof -
  assume a: "page_aligned p" and b: "p \<le> p + PGSIZE"
  have "unat p + 4096 \<noteq> 2 ^ 32"
  proof
    assume "unat p + 4096 = 2 ^ 32"
    then have "unat (p + PGSIZE) = 0" by (simp add: PGSIZE_def unat_word_ariths)
    then show False using b page_unat [OF a] \<open>unat p + 4096 = 2 ^ 32\<close> by (simp add: word_le_nat_alt)
  qed
  then have u: "unat (p + PGSIZE) = unat p + 4096" using page_unat(2) [OF a] by (subst unat_add_noovf) (simp_all add: PGSIZE_def)
  then show ?thesis using page_unat(1) [OF a] by (simp add: page_aligned_unat)
qed

lemma range_pages_set:
  "page_aligned p \<Longrightarrow> distinct (range_pages p vend) \<and>
   set (range_pages p vend) = {v. page_aligned v \<and> unat p \<le> unat v \<and> unat v + 4096 \<le> unat vend}"
proof (induction p vend rule: range_pages.induct)
  case (1 p vend)
  show ?case
  proof (cases "p + PGSIZE \<le> vend \<and> p \<le> p + PGSIZE")
    case True
    note st = page_step [OF "1.prems"] 
    have u: "unat (p + PGSIZE) = unat p + 4096" "page_aligned (p + PGSIZE)" using st True by auto
    have ih: "distinct (range_pages (p + PGSIZE) vend)"
      "set (range_pages (p + PGSIZE) vend) = {v. page_aligned v \<and> unat p + 4096 \<le> unat v \<and> unat v + 4096 \<le> unat vend}"
      using "1.IH" [OF True u(2)] u(1) by auto
    have le: "unat p + 4096 \<le> unat vend" using True u(1) by (simp add: word_le_nat_alt)
    have next_page: "unat p + 4096 \<le> unat v" if v: "page_aligned v" "unat p \<le> unat v" "v \<noteq> p" for v
    proof -
      obtain j k where "unat p = 4096 * j" "unat v = 4096 * k" using page_unat(1) [OF v(1)] page_unat(1) [OF "1.prems"] by (auto elim!: dvdE)
      moreover have "unat p \<noteq> unat v" using v(3) by (simp add: word_unat_eq_iff)
      ultimately show ?thesis using v(2) by simp
    qed
    have "range_pages p vend = p # range_pages (p + PGSIZE) vend" using True by (subst range_pages.simps) simp
    then show ?thesis using ih next_page le "1.prems" by auto
  next
    case False
    have "\<not> (unat p \<le> unat v \<and> unat v + 4096 \<le> unat vend)" for v
    proof
      assume v: "unat p \<le> unat v \<and> unat v + 4096 \<le> unat vend"
      then have "unat (p + PGSIZE) = unat p + 4096" using unat_lt_2p32 [of vend] by (subst unat_add_noovf) (simp_all add: PGSIZE_def)
      then show False using False v by (simp add: word_le_nat_alt)
    qed
    moreover have "range_pages p vend = []" using False by (subst range_pages.simps) simp
    ultimately show ?thesis by auto
  qed
qed

text \<open>At boot \<^verbatim>\<open>kinit1\<close> makes free exactly the whole pages between its two addresses, each once, provided they
  lie above the kernel and below the top of physical memory.\<close>

lemma kinit1_pages:
  assumes fl: "freelist s = 0" and lo: "KERNBASE \<le> vstart" "kernel_end s \<le> vstart" and hi: "vend \<le> P2V PHYSTOP"
    and l: "L_kmem \<notin> set (klocks s)" and ov: "vstart \<le> P2V PHYSTOP"
  shows "\<exists>s' vs. kinit1 vstart vend s = Ok () s' \<and> kmem_ok s' vs \<and>
    set vs = {v. page_aligned v \<and> vstart \<le> v \<and> unat v + 4096 \<le> unat vend}"
proof -
  let ?p = "PGROUNDUP vstart"
  let ?vs = "range_pages ?p vend"
  have top: "unat (P2V PHYSTOP) = 0x8E000000" by (simp add: P2V_def PHYSTOP_def KERNBASE_def)
  have vs: "unat vstart \<le> 0x8E000000" "unat vend \<le> 0x8E000000" "0x80000000 \<le> unat vstart"
    using hi ov lo(1) top by (auto simp: word_le_nat_alt KERNBASE_def)
  have up: "unat ?p = 4096 * ((unat vstart + 4095) div 4096)" using vs by (intro PGROUNDUP_unat) simp
  note rp = range_pages_set [OF PGROUNDUP_page, of vstart vend]
  have ge: "unat ?p \<le> unat v \<longleftrightarrow> vstart \<le> v" if v: "page_aligned v" for v
  proof -
    obtain k where "unat v = 4096 * k" using page_unat(1) [OF v] by (auto elim!: dvdE)
    then show ?thesis using up by (simp add: word_le_nat_alt) linarith
  qed
  define t where "t = s\<lparr>use_lock := False\<rparr>"
  have t: "kmem_ok t []" "L_kmem \<notin> set (klocks t)" using fl l by (simp_all add: kmem_ok_def t_def)
  have "page_ok (kernel_end t) v" if "v \<in> set ?vs" for v
  proof -
    have v: "page_aligned v" "vstart \<le> v" "unat v + 4096 \<le> unat vend" using that rp ge by auto
    have "KERNBASE \<le> v" using lo(1) v(2) by simp
    then have "unat (V2P v) = unat v - 0x80000000" by (simp add: V2P_def unat_sub) (simp add: KERNBASE_def)
    then have "V2P v < PHYSTOP" using v(3) vs by (simp add: word_less_nat_alt PHYSTOP_def)
    then show ?thesis using v lo(2) by (simp add: page_ok_def t_def)
  qed
  then obtain s' where s': "forK ?vs kfree t = Ok () s'" "kmem_ok s' (rev ?vs @ [])"
    using kpages.frees [OF t, of ?vs] rp by auto
  have "kinit1 vstart vend s = Ok () s'" using s'(1) by (simp add: kinit1_def freerange_def thenK_def bindK_def modK_def t_def)
  moreover have "set (rev ?vs @ []) = {v. page_aligned v \<and> vstart \<le> v \<and> unat v + 4096 \<le> unat vend}" using rp ge by auto
  ultimately show ?thesis using s'(2) by blast
qed

section \<open>Examples\<close>

definition km_boot :: kmst where
  "km_boot = fsst.extend fs_one (kmst.fields (\<lambda>_. 0) False 0 0x80100000)"

lemma km_boot_simps [simp]: "kmemory km_boot = (\<lambda>_. 0)" "use_lock km_boot = False" "freelist km_boot = 0" "kernel_end km_boot = 0x80100000" "klocks km_boot = []"
  by (simp_all add: km_boot_def fsst.extend_def kmst.fields_def fs_one_def)

theorem kalloc_kfree_pool_witness:
  "\<exists>s s' s''. kmem_ok s [0x80100000] \<and> page_pool.allocs kalloc 1 s = Ok [0x80100000] s' \<and> forK [0x80100000] kfree s' = Ok () s'' \<and>
     kmem_ok (s'' :: kmst) [0x80100000]"
proof -
  let ?s = "km_boot\<lparr>freelist := 0x80100000\<rparr>"
  have "kmem_ok ?s ([0x80100000] @ [])" "L_kmem \<notin> set (klocks ?s)"
    by (simp_all add: kmem_ok_def page_ok_def page_aligned_def PGSIZE_def V2P_def KERNBASE_def PHYSTOP_def load32_def)
  from kalloc_kfree_pool [OF this] this show ?thesis by (simp only: append_Nil2 rev.simps append_Nil list.size One_nat_def add_0) auto
qed

end
