(* ===== verification/File.thy ===== *)
theory File
  imports Kalloc
begin

text \<open>
  Pipes and open files: \<^verbatim>\<open>kernel/pipe.c\<close> and \<^verbatim>\<open>kernel/file.c\<close>.

  A pipe is a ring buffer whose counters \<^verbatim>\<open>nread\<close> and \<^verbatim>\<open>nwrite\<close> run freely modulo \<open>2\<^sup>3\<^sup>2\<close>. The
  locale \<open>ring\<close> shows that such counters implement a queue when the size of the buffer divides \<open>2\<^sup>3\<^sup>2\<close>; it is
  interpreted here for pipes and in the console for the input buffer. Readers and writers run in critical sections
  between sleeps; the bytes that readers get are the bytes that writers put, in order, under any interleaving of the
  sections.
\<close>

section \<open>Ring buffers\<close>

locale ring =
  fixes N :: nat
  assumes pos: "0 < N" and dvd: "N dvd 2 ^ 32" and less: "N < 2 ^ 32"
begin

definition slot :: "uint \<Rightarrow> nat" where
  "slot i = unat i mod N"

definition contents :: "'c list \<Rightarrow> uint \<Rightarrow> uint \<Rightarrow> 'c list" where
  "contents d r w = map (\<lambda>k. d ! slot (r + of_nat k)) [0..<unat (w - r)]"

lemma slot_less: "slot i < N"
  using pos by (simp add: slot_def)

lemma slot_add: "slot (r + of_nat k) = (slot r + k) mod N"
proof -
  have "unat (r + of_nat k) mod N = (unat r + k) mod 2 ^ 32 mod N"
    by (simp add: unat_word_ariths unat_of_nat take_bit_eq_mod mod_simps)
  also have "\<dots> = (unat r + k) mod N" using dvd by (rule mod_mod_cancel)
  finally show ?thesis by (simp add: slot_def mod_simps)
qed

lemma slot_inj: "slot (r + of_nat i) = slot (r + of_nat j) \<Longrightarrow> i < N \<Longrightarrow> j < N \<Longrightarrow> i = j"
proof (induction i j rule: linorder_wlog)
  case (le i j)
  then have "(slot r + j) mod N = (slot r + i) mod N" by (simp add: slot_add)
  then have "N dvd j - i" using le.hyps by (simp add: mod_eq_dvd_iff_nat)
  then show ?case using le by (metis diff_is_0_eq dvd_imp_le le_antisym le_trans less_imp_diff_less linorder_not_less nat_less_le not_gr_zero)
qed simp

lemma put_contents:
  assumes d: "length d = N" and room: "unat (w - r) < N"
  shows "contents (d[slot w := c]) r (w + 1) = contents d r w @ [c]" "unat (w + 1 - r) = Suc (unat (w - r))"
proof -
  let ?n = "unat (w - r)"
  have w: "w = r + of_nat ?n" by simp
  have "unat (w - r + 1) = ?n + 1" using room less by (subst unat_add_noovf) simp_all
  then show n: "unat (w + 1 - r) = Suc ?n" by (simp add: algebra_simps)
  have "d[slot w := c] ! slot (r + of_nat k) = d ! slot (r + of_nat k)" if "k < ?n" for k
    using slot_inj [of r k ?n] that room w by (metis nat_neq_iff less_trans nth_list_update_neq)
  moreover have "d[slot w := c] ! slot (r + of_nat ?n) = c" using d slot_less [of w] w by simp
  ultimately show "contents (d[slot w := c]) r (w + 1) = contents d r w @ [c]" by (simp add: contents_def n)
qed

lemma get_contents:
  assumes "r \<noteq> w"
  shows "contents d r w = d ! slot r # contents d (r + 1) w" "unat (w - r) = Suc (unat (w - (r + 1)))"
proof -
  show n: "unat (w - r) = Suc (unat (w - (r + 1)))" using assms by (intro unat_Suc_diff) simp
  have "map (\<lambda>k. d ! slot (r + of_nat k)) [0..<Suc m] = d ! slot r # map (\<lambda>k. d ! slot (r + 1 + of_nat k)) [0..<m]" for m
    by (simp add: map_upt_Suc add.assoc del: upt_Suc)
  then show "contents d r w = d ! slot r # contents d (r + 1) w" by (simp only: contents_def n)
qed

lemma contents_empty [simp]: "contents d r r = []"
  by (simp add: contents_def)

lemma contents_length [simp]: "length (contents d r w) = unat (w - r)"
  by (simp add: contents_def)

lemma full_iff: "(w :: uint) = r + of_nat N \<longleftrightarrow> unat (w - r) = N"
proof -
  have "w = r + of_nat N \<longleftrightarrow> w - r = of_nat N" by (auto simp: algebra_simps)
  also have "\<dots> \<longleftrightarrow> unat (w - r) = N" using less by (simp add: word_unat_eq_iff unat_of_nat_small [of N])
  finally show ?thesis .
qed

end

section \<open>Constants and structures\<close>

definition PIPESIZE :: nat where "PIPESIZE = 512"
definition NFILE :: nat where "NFILE = 100"

record pipe =
  pp_data :: "uchar list"
  pp_nread :: uint
  pp_nwrite :: uint
  pp_readopen :: bool
  pp_writeopen :: bool

datatype fdtype = FD_NONE | FD_PIPE | FD_INODE

text \<open>\<^verbatim>\<open>struct file\<close>: the pipe is named by the address of its page, the inode by its index in the cache.\<close>

record filerec =
  f_type :: fdtype
  f_ref :: int
  f_readable :: bool
  f_writable :: bool
  f_pipe :: nat
  f_ip :: "nat option"
  f_off :: uint

record filest = kmst +
  ftable :: "filerec list"
  pipes :: "nat \<Rightarrow> pipe"

definition upd_file :: "nat \<Rightarrow> (filerec \<Rightarrow> filerec) \<Rightarrow> ('a filest_scheme, unit) kfun" where
  "upd_file f g = modK (\<lambda>s. s\<lparr>ftable := (ftable s)[f := g (ftable s ! f)]\<rparr>)"

definition upd_pipe :: "nat \<Rightarrow> (pipe \<Rightarrow> pipe) \<Rightarrow> ('a filest_scheme, unit) kfun" where
  "upd_pipe p g = modK (\<lambda>s. s\<lparr>pipes := (pipes s)(p := g (pipes s p))\<rparr>)"

text \<open>\<^verbatim>\<open>myproc()->killed\<close>.\<close>

definition my_killed :: "('a filest_scheme, bool) kfun" where
  "my_killed = bindK myproc (\<lambda>i. getK (\<lambda>s. p_killed (ptable s ! i)))"

section \<open>Pipes\<close>

definition pipeclose :: "nat \<Rightarrow> bool \<Rightarrow> ('a filest_scheme, unit) kfun" where
  "pipeclose p writable =
     thenK (acquire (L_pipe p)) (
     thenK (if writable then
              thenK (upd_pipe p (\<lambda>x. x\<lparr>pp_writeopen := False\<rparr>)) (wakeup (Ch_piperead p))
            else
              thenK (upd_pipe p (\<lambda>x. x\<lparr>pp_readopen := False\<rparr>)) (wakeup (Ch_pipewrite p))) (
     bindK (getK (\<lambda>s. pipes s p)) (\<lambda>x.
     if \<not> pp_readopen x \<and> \<not> pp_writeopen x then
       thenK (release (L_pipe p)) (kfree (of_nat p))
     else release (L_pipe p))))"

text \<open>
  The loop of \<^verbatim>\<open>pipewrite\<close> over the bytes still to write: it ends with \<open>False\<close> when the reader is gone or the
  process was killed, and in \<open>Switch\<close> when the pipe is full.
\<close>

fun pipewrite_loop :: "nat \<Rightarrow> uchar list \<Rightarrow> ('a filest_scheme, bool) kfun" where
  "pipewrite_loop p [] = retK True"
| "pipewrite_loop p (c # cs) =
     bindK (getK (\<lambda>s. pipes s p)) (\<lambda>x.
     if pp_nwrite x = pp_nread x + of_nat PIPESIZE then
       bindK (if \<not> pp_readopen x then retK True else my_killed) (\<lambda>stop.
       if stop then retK False else
       thenK (wakeup (Ch_piperead p)) (
       sleep (Ch_pipewrite p) (L_pipe p)))
     else
       thenK (upd_pipe p (\<lambda>x. x\<lparr>pp_data := (pp_data x)[unat (pp_nwrite x) mod PIPESIZE := c], pp_nwrite := pp_nwrite x + 1\<rparr>)) (
       pipewrite_loop p cs))"

text \<open>What runs with the lock held, also after a sleep with the remaining bytes.\<close>

definition pipewrite_locked :: "nat \<Rightarrow> uchar list \<Rightarrow> int \<Rightarrow> ('a filest_scheme, int) kfun" where
  "pipewrite_locked p bs n =
     bindK (pipewrite_loop p bs) (\<lambda>done.
     if \<not> done then
       thenK (release (L_pipe p)) (retK (-1))
     else
       thenK (wakeup (Ch_piperead p)) (
       thenK (release (L_pipe p)) (
       retK n)))"

definition pipewrite :: "nat \<Rightarrow> uchar list \<Rightarrow> int \<Rightarrow> ('a filest_scheme, int) kfun" where
  "pipewrite p addr n =
     thenK (acquire (L_pipe p)) (
     pipewrite_locked p (take (nat n) addr) n)"

fun piperead_copy :: "nat \<Rightarrow> nat \<Rightarrow> ('a filest_scheme, uchar list) kfun" where
  "piperead_copy p 0 = retK []"
| "piperead_copy p (Suc n) =
     bindK (getK (\<lambda>s. pipes s p)) (\<lambda>x.
     if pp_nread x = pp_nwrite x then retK [] else
     thenK (upd_pipe p (\<lambda>x. x\<lparr>pp_nread := pp_nread x + 1\<rparr>)) (
     bindK (piperead_copy p n) (\<lambda>bs.
     retK (pp_data x ! (unat (pp_nread x) mod PIPESIZE) # bs))))"

definition piperead_locked :: "nat \<Rightarrow> int \<Rightarrow> ('a filest_scheme, int \<times> uchar list) kfun" where
  "piperead_locked p n =
     bindK (getK (\<lambda>s. pipes s p)) (\<lambda>x.
     if pp_nread x = pp_nwrite x \<and> pp_writeopen x then
       bindK my_killed (\<lambda>k.
       if k then
         thenK (release (L_pipe p)) (retK (-1, []))
       else sleep (Ch_piperead p) (L_pipe p))
     else
       bindK (piperead_copy p (nat n)) (\<lambda>bs.
       thenK (wakeup (Ch_pipewrite p)) (
       thenK (release (L_pipe p)) (
       retK (int (length bs), bs)))))"

definition piperead :: "nat \<Rightarrow> int \<Rightarrow> ('a filest_scheme, int \<times> uchar list) kfun" where
  "piperead p n =
     thenK (acquire (L_pipe p)) (
     piperead_locked p n)"

section \<open>The file table\<close>

definition filealloc :: "('a filest_scheme, nat option) kfun" where
  "filealloc =
     thenK (acquire L_ftable) (
     bindK (getK ftable) (\<lambda>fs.
     case find_index (\<lambda>f. f_ref f = 0) fs of
       Some f \<Rightarrow>
         thenK (upd_file f (\<lambda>x. x\<lparr>f_ref := 1\<rparr>)) (
         thenK (release L_ftable) (
         retK (Some f)))
     | None \<Rightarrow>
         thenK (release L_ftable) (
         retK None)))"

definition filedup :: "nat \<Rightarrow> ('a filest_scheme, nat) kfun" where
  "filedup f =
     thenK (acquire L_ftable) (
     bindK (getK (\<lambda>s. f_ref (ftable s ! f))) (\<lambda>r.
     if r < 1 then panic ''filedup'' else
     thenK (upd_file f (\<lambda>x. x\<lparr>f_ref := f_ref x + 1\<rparr>)) (
     thenK (release L_ftable) (
     retK f))))"

definition fileclose :: "nat \<Rightarrow> ('a filest_scheme, unit) kfun" where
  "fileclose f =
     thenK (acquire L_ftable) (
     bindK (getK (\<lambda>s. f_ref (ftable s ! f))) (\<lambda>r.
     if r < 1 then panic ''fileclose'' else
     thenK (upd_file f (\<lambda>x. x\<lparr>f_ref := f_ref x - 1\<rparr>)) (
     bindK (getK (\<lambda>s. ftable s ! f)) (\<lambda>ff.
     if f_ref ff > 0 then release L_ftable else
     thenK (upd_file f (\<lambda>x. x\<lparr>f_ref := 0, f_type := FD_NONE\<rparr>)) (
     thenK (release L_ftable) (
     case f_type ff of
       FD_PIPE \<Rightarrow> pipeclose (f_pipe ff) (f_writable ff)
     | FD_INODE \<Rightarrow>
        (case f_ip ff of None \<Rightarrow> undefK | Some ip \<Rightarrow>
         thenK begin_op (
         thenK (iput ip) (
         end_op)))
     | FD_NONE \<Rightarrow> retK ()))))))"

definition filestat :: "nat \<Rightarrow> ('a filest_scheme, stat option) kfun" where
  "filestat f =
     bindK (getK (\<lambda>s. ftable s ! f)) (\<lambda>x.
     if f_type x = FD_INODE then
       case f_ip x of None \<Rightarrow> undefK | Some ip \<Rightarrow>
       thenK (ilock ip) (
       bindK (stati ip) (\<lambda>st.
       thenK (iunlock ip) (
       retK (Some st))))
     else retK None)"

text \<open>\<^verbatim>\<open>fileread\<close> returns the bytes that it stores at \<^verbatim>\<open>addr\<close> with its result.\<close>

definition fileread :: "(int \<Rightarrow> 'a filest_scheme devsw) \<Rightarrow> nat \<Rightarrow> int \<Rightarrow> ('a filest_scheme, int \<times> uchar list) kfun" where
  "fileread devsw f n =
     bindK (getK (\<lambda>s. ftable s ! f)) (\<lambda>x.
     if \<not> f_readable x then retK (-1, []) else
     case f_type x of
       FD_PIPE \<Rightarrow> piperead (f_pipe x) n
     | FD_INODE \<Rightarrow>
        (case f_ip x of None \<Rightarrow> undefK | Some ip \<Rightarrow>
         thenK (ilock ip) (
         bindK (readi devsw ip (f_off x) (word_of_int n)) (\<lambda>(r, bs).
         thenK (whenK (r > 0) (upd_file f (\<lambda>x. x\<lparr>f_off := f_off x + word_of_int r\<rparr>))) (
         thenK (iunlock ip) (
         retK (r, bs))))))
     | FD_NONE \<Rightarrow> panic ''fileread'')"

text \<open>\<^verbatim>\<open>((MAXOPBLOCKS-1-1-2) / 2) * 512\<close> bytes go into one transaction.\<close>

definition filewrite_max :: int where
  "filewrite_max = ((int MAXOPBLOCKS - 1 - 1 - 2) div 2) * 512"

function filewrite_loop :: "(int \<Rightarrow> 'a filest_scheme devsw) \<Rightarrow> nat \<Rightarrow> nat \<Rightarrow> uchar list \<Rightarrow> int \<Rightarrow> ('a filest_scheme, bool) kfun" where
  "filewrite_loop devsw f ip addr n =
     (if n \<le> 0 then retK True else
      let n1 = min n filewrite_max in
      thenK begin_op (
      thenK (ilock ip) (
      bindK (getK (\<lambda>s. f_off (ftable s ! f))) (\<lambda>off.
      bindK (writei devsw ip (take (nat n1) addr) off (word_of_int n1)) (\<lambda>r.
      thenK (whenK (r > 0) (upd_file f (\<lambda>x. x\<lparr>f_off := f_off x + word_of_int r\<rparr>))) (
      thenK (iunlock ip) (
      thenK end_op (
      if r < 0 then retK False else
      if r \<noteq> n1 then panic ''short filewrite'' else
      filewrite_loop devsw f ip (drop (nat n1) addr) (n - n1)))))))))"
  by pat_completeness auto
termination
  by (relation "measure (\<lambda>(d, f, ip, addr, n). nat n)") (auto simp: filewrite_max_def MAXOPBLOCKS_def min_def)

declare filewrite_loop.simps [simp del]

definition filewrite :: "(int \<Rightarrow> 'a filest_scheme devsw) \<Rightarrow> nat \<Rightarrow> uchar list \<Rightarrow> int \<Rightarrow> ('a filest_scheme, int) kfun" where
  "filewrite devsw f addr n =
     bindK (getK (\<lambda>s. ftable s ! f)) (\<lambda>x.
     if \<not> f_writable x then retK (-1) else
     case f_type x of
       FD_PIPE \<Rightarrow> pipewrite (f_pipe x) addr n
     | FD_INODE \<Rightarrow>
        (case f_ip x of None \<Rightarrow> undefK | Some ip \<Rightarrow>
         bindK (filewrite_loop devsw f ip addr n) (\<lambda>done.
         retK (if done then n else -1)))
     | FD_NONE \<Rightarrow> panic ''filewrite'')"

text \<open>\<^verbatim>\<open>pipealloc\<close> returns the two files; the code at the label \<^verbatim>\<open>bad\<close> is \<open>pipealloc_bad\<close>.\<close>

definition pipealloc_bad :: "uint \<Rightarrow> nat option \<Rightarrow> nat option \<Rightarrow> ('a filest_scheme, (nat \<times> nat) option) kfun" where
  "pipealloc_bad p f0 f1 =
     thenK (whenK (p \<noteq> 0) (kfree p)) (
     thenK (case f0 of None \<Rightarrow> retK () | Some f \<Rightarrow> fileclose f) (
     thenK (case f1 of None \<Rightarrow> retK () | Some f \<Rightarrow> fileclose f) (
     retK None)))"

definition pipealloc :: "('a filest_scheme, (nat \<times> nat) option) kfun" where
  "pipealloc =
     bindK filealloc (\<lambda>f0.
     case f0 of None \<Rightarrow> pipealloc_bad 0 None None | Some a \<Rightarrow>
     bindK filealloc (\<lambda>f1.
     case f1 of None \<Rightarrow> pipealloc_bad 0 (Some a) None | Some b \<Rightarrow>
     bindK kalloc (\<lambda>p.
     if p = 0 then pipealloc_bad 0 (Some a) (Some b) else
     thenK (upd_pipe (unat p) (\<lambda>x. x\<lparr>pp_readopen := True, pp_writeopen := True, pp_nwrite := 0, pp_nread := 0\<rparr>)) (
     thenK (upd_file a (\<lambda>x. x\<lparr>f_type := FD_PIPE, f_readable := True, f_writable := False, f_pipe := unat p\<rparr>)) (
     thenK (upd_file b (\<lambda>x. x\<lparr>f_type := FD_PIPE, f_readable := False, f_writable := True, f_pipe := unat p\<rparr>)) (
     retK (Some (a, b))))))))"

section \<open>Pipes are queues\<close>

interpretation pring: ring PIPESIZE
  by unfold_locales (simp_all add: PIPESIZE_def)

definition pipe_ok :: "pipe \<Rightarrow> bool" where
  "pipe_ok x \<longleftrightarrow> length (pp_data x) = PIPESIZE \<and> unat (pp_nwrite x - pp_nread x) \<le> PIPESIZE"

definition pipe_bytes :: "pipe \<Rightarrow> uchar list" where
  "pipe_bytes x = pring.contents (pp_data x) (pp_nread x) (pp_nwrite x)"

definition pipe_put :: "uchar \<Rightarrow> pipe \<Rightarrow> pipe" where
  "pipe_put c x = x\<lparr>pp_data := (pp_data x)[unat (pp_nwrite x) mod PIPESIZE := c], pp_nwrite := pp_nwrite x + 1\<rparr>"

lemma pipe_put_queue:
  assumes "pipe_ok x" and "pp_nwrite x \<noteq> pp_nread x + of_nat PIPESIZE"
  shows "pipe_ok (pipe_put c x)" "pipe_bytes (pipe_put c x) = pipe_bytes x @ [c]"
proof -
  have room: "unat (pp_nwrite x - pp_nread x) < PIPESIZE" using assms pring.full_iff by (simp add: pipe_ok_def)
  have len: "length (pp_data x) = PIPESIZE" using assms(1) by (simp add: pipe_ok_def)
  note p = pring.put_contents(1) [OF len room, where c = c] pring.put_contents(2) [OF len room]
  show "pipe_ok (pipe_put c x)" using p(2) room len by (simp add: pipe_ok_def pipe_put_def)
  show "pipe_bytes (pipe_put c x) = pipe_bytes x @ [c]" using p(1) by (simp add: pipe_bytes_def pipe_put_def pring.slot_def)
qed

lemma pipe_get_queue:
  assumes "pipe_ok x" and "pp_nread x \<noteq> pp_nwrite x"
  shows "pipe_ok (x\<lparr>pp_nread := pp_nread x + 1\<rparr>)"
    "pipe_bytes x = pp_data x ! (unat (pp_nread x) mod PIPESIZE) # pipe_bytes (x\<lparr>pp_nread := pp_nread x + 1\<rparr>)"
  using pring.get_contents(1) [OF assms(2), where d = "pp_data x"] pring.get_contents(2) [OF assms(2)] assms(1) by (auto simp: pipe_ok_def pipe_bytes_def pring.slot_def)

text \<open>The state in which a function leaves the processor or returns.\<close>

fun out_state :: "('a, 's) outcome \<Rightarrow> 's option" where
  "out_state (Ok r s) = Some s"
| "out_state (Switch s) = Some s"
| "out_state _ = None"

lemma sleep_pipes: "out_state (sleep c l s) = Some s' \<Longrightarrow> pipes s' = pipes s"
  by (auto simp: sleep_def sched_def acquire_def release_def myproc_def upd_proc_def kdefs split: if_splits option.splits)

lemma out_bind:
  "out_state (bindK m f s) = Some s' \<Longrightarrow> (\<exists>a t. m s = Ok a t \<and> out_state (f a t) = Some s') \<or> m s = Switch s'"
  by (cases "m s") (auto simp: bindK_def)

text \<open>Functions that leave the pipes alone.\<close>

lemma pipes_frame:
  "wakeup c s = Ok r s' \<Longrightarrow> pipes s' = pipes s"
  "acquire l s = Ok r s' \<Longrightarrow> pipes s' = pipes s"
  "release l s = Ok r s' \<Longrightarrow> pipes s' = pipes s"
  by (auto simp: wakeup_Ok acquire_Ok release_Ok)

lemma no_switch [simp]: "wakeup c s \<noteq> Switch t" "acquire l s \<noteq> Switch t" "release l s \<noteq> Switch t"
  by (simp_all add: wakeup_def wakeup1_def acquire_def release_def kdefs)

lemma out_then:
  assumes "out_state (thenK m n s) = Some s'" and "\<And>t. m s \<noteq> Switch t"
  obtains a t where "m s = Ok a t" and "out_state (n t) = Some s'"
  using assms by (cases "m s") (auto simp: thenK_def bindK_def)

lemma pipewrite_loop_effect:
  assumes "pipe_ok (pipes s p)" and "out_state (pipewrite_loop p bs s) = Some s'"
  shows "\<exists>k \<le> length bs. pipe_ok (pipes s' p) \<and> pipe_bytes (pipes s' p) = pipe_bytes (pipes s p) @ take k bs \<and>
    pp_nwrite (pipes s' p) = pp_nwrite (pipes s p) + of_nat k \<and> (pipewrite_loop p bs s = Ok True s' \<longrightarrow> k = length bs)"
  using assms
proof (induction bs arbitrary: s)
  case Nil
  then show ?case by (simp add: retK_def)
next
  case (Cons c cs)
  let ?x = "pipes s p"
  show ?case
  proof (cases "pp_nwrite ?x = pp_nread ?x + of_nat PIPESIZE")
    case True
    have e: "pipewrite_loop p (c # cs) s = bindK (if \<not> pp_readopen ?x then retK True else my_killed) (\<lambda>stop.
       if stop then retK False else thenK (wakeup (Ch_piperead p)) (sleep (Ch_pipewrite p) (L_pipe p))) s"
      using True by (simp add: bindK_def getK_def)
    have kl: "t = s" if "(if \<not> pp_readopen ?x then retK True else my_killed) s = Ok b t" for b t
      using that by (auto simp: my_killed_def kok split: if_splits)
    have ns: "(if \<not> pp_readopen ?x then retK True else my_killed) s \<noteq> Switch t" for t
      by (simp add: my_killed_def myproc_def kdefs split: option.splits)
    obtain b where b: "out_state ((if b then retK False else thenK (wakeup (Ch_piperead p)) (sleep (Ch_pipewrite p) (L_pipe p))) s) = Some s'"
      using Cons.prems(2) kl ns unfolding e by (blast dest: out_bind)
    have "pipes s' = pipes s"
    proof (cases b)
      case False
      obtain a t where "wakeup (Ch_piperead p) s = Ok a t" "out_state (sleep (Ch_pipewrite p) (L_pipe p) t :: (bool, _) outcome) = Some s'"
        using b [unfolded if_not_P [OF False]] by (rule out_then) simp
      then show ?thesis using sleep_pipes pipes_frame(1) by metis
    qed (use b in \<open>simp add: retK_def\<close>)
    moreover have "pipewrite_loop p (c # cs) s \<noteq> Ok True s'" unfolding e by (auto simp: kok split: if_splits)
    ultimately show ?thesis using Cons.prems(1) by (intro exI [of _ 0]) simp
  next
    case False
    define t where "t = s\<lparr>pipes := (pipes s)(p := pipe_put c ?x)\<rparr>"
    have e: "pipewrite_loop p (c # cs) s = pipewrite_loop p cs t"
      using False by (simp add: bindK_def getK_def thenK_def upd_pipe_def modK_def t_def pipe_put_def)
    note q = pipe_put_queue [OF Cons.prems(1) False, where c = c]
    have "pipe_ok (pipes t p)" "out_state (pipewrite_loop p cs t) = Some s'" using q Cons.prems(2) e by (simp_all add: t_def)
    from Cons.IH [OF this] obtain k where k: "k \<le> length cs" "pipe_ok (pipes s' p)" "pipe_bytes (pipes s' p) = pipe_bytes (pipes t p) @ take k cs"
      "pp_nwrite (pipes s' p) = pp_nwrite (pipes t p) + of_nat k" "pipewrite_loop p cs t = Ok True s' \<longrightarrow> k = length cs" by blast
    show ?thesis
      using k q(2) unfolding e by (intro exI [of _ "Suc k"]) (auto simp: t_def pipe_put_def)
  qed
qed

lemma piperead_copy_effect:
  assumes "pipe_ok (pipes s p)"
  shows "\<exists>bs s'. piperead_copy p n s = Ok bs s' \<and> pipe_ok (pipes s' p) \<and> pipe_bytes (pipes s p) = bs @ pipe_bytes (pipes s' p) \<and>
    length bs = min n (length (pipe_bytes (pipes s p))) \<and> klocks s' = klocks s \<and> ptable s' = ptable s"
  using assms
proof (induction n arbitrary: s)
  case 0
  then show ?case by (simp add: retK_def)
next
  case (Suc n)
  let ?x = "pipes s p"
  show ?case
  proof (cases "pp_nread ?x = pp_nwrite ?x")
    case True
    then show ?thesis using Suc.prems by (simp add: bindK_def getK_def retK_def pipe_bytes_def)
  next
    case False
    define t where "t = s\<lparr>pipes := (pipes s)(p := ?x\<lparr>pp_nread := pp_nread ?x + 1\<rparr>)\<rparr>"
    note q = pipe_get_queue [OF Suc.prems False]
    have "pipe_ok (pipes t p)" using q(1) by (simp add: t_def)
    from Suc.IH [OF this] obtain bs s' where r: "piperead_copy p n t = Ok bs s'" "pipe_ok (pipes s' p)" "pipe_bytes (pipes t p) = bs @ pipe_bytes (pipes s' p)"
      "length bs = min n (length (pipe_bytes (pipes t p)))" "klocks s' = klocks t" "ptable s' = ptable t" by blast
    have "piperead_copy p (Suc n) s = Ok (pp_data ?x ! (unat (pp_nread ?x) mod PIPESIZE) # bs) s'"
      using False r(1) by (simp add: bindK_def getK_def thenK_def upd_pipe_def modK_def retK_def t_def)
    then show ?thesis using r q(2) by (simp add: t_def)
  qed
qed

lemma pipewrite_locked_effect:
  assumes ok: "pipe_ok (pipes s p)" and o: "out_state (pipewrite_locked p bs n s) = Some s'"
  shows "\<exists>k \<le> length bs. pipe_ok (pipes s' p) \<and> pipe_bytes (pipes s' p) = pipe_bytes (pipes s p) @ take k bs \<and>
    pp_nwrite (pipes s' p) = pp_nwrite (pipes s p) + of_nat k \<and> (\<forall>r. pipewrite_locked p bs n s = Ok r s' \<longrightarrow> r \<noteq> -1 \<longrightarrow> k = length bs)"
proof (cases "pipewrite_loop p bs s")
  case (Ok b t)
  have "pipes s' = pipes t"
    using o Ok by (cases b) (auto simp: pipewrite_locked_def bindK_def thenK_def retK_def no_switch split: outcome.splits dest!: pipes_frame)
  then show ?thesis using pipewrite_loop_effect [OF ok, of bs t] Ok o
    by (cases b) (auto simp: pipewrite_locked_def bindK_def thenK_def retK_def split: outcome.splits)
next
  case (Switch t)
  then show ?thesis using pipewrite_loop_effect [OF ok, of bs t] o by (auto simp: pipewrite_locked_def bindK_def)
qed (use o in \<open>simp_all add: pipewrite_locked_def bindK_def\<close>)

lemma piperead_locked_effect:
  assumes ok: "pipe_ok (pipes s p)" and o: "out_state (piperead_locked p n s) = Some s'"
  shows "case piperead_locked p n s of
      Ok (r, bs) t \<Rightarrow> pipe_ok (pipes s' p) \<and> pipe_bytes (pipes s p) = bs @ pipe_bytes (pipes s' p)
    | _ \<Rightarrow> pipes s' = pipes s"
proof -
  let ?x = "pipes s p"
  obtain bs t where c: "piperead_copy p (nat n) s = Ok bs t" "pipe_ok (pipes t p)" "pipe_bytes ?x = bs @ pipe_bytes (pipes t p)"
    using piperead_copy_effect [OF ok] by blast
  show ?thesis
  proof (cases "pp_nread ?x = pp_nwrite ?x \<and> pp_writeopen ?x")
    case True
    then have e: "piperead_locked p n s = bindK my_killed (\<lambda>k. if k then thenK (release (L_pipe p)) (retK (-1, [])) else sleep (Ch_piperead p) (L_pipe p)) s"
      by (simp add: piperead_locked_def bindK_def getK_def)
    have k: "my_killed s \<noteq> Switch u" "my_killed s = Ok b u \<Longrightarrow> u = s" for u b
      by (auto simp: my_killed_def myproc_def kdefs split: option.splits if_splits)
    have "\<exists>b. out_state ((if b then thenK (release (L_pipe p)) (retK (-1, [])) else sleep (Ch_piperead p) (L_pipe p)) s :: (int \<times> uchar list, _) outcome) = Some s'"
    proof (cases "my_killed s")
      case (Ok b u)
      then have "u = s" by (rule k(2))
      then show ?thesis using o Ok unfolding e bindK_def by (intro exI [of _ b]) simp
    qed (use o k(1) in \<open>simp_all add: e bindK_def\<close>)
    then obtain b where b: "out_state ((if b then thenK (release (L_pipe p)) (retK (-1, [])) else sleep (Ch_piperead p) (L_pipe p)) s :: (int \<times> uchar list, _) outcome) = Some s'" ..
    have "pipes s' = pipes s"
    proof (cases b)
      case True
      obtain a t where "release (L_pipe p) s = Ok a t" "out_state (retK (-1 :: int, [] :: uchar list) t) = Some s'"
        using b [unfolded if_P [OF True]] by (rule out_then) simp
      then show ?thesis using pipes_frame(3) by (auto simp: retK_def)
    qed (use b sleep_pipes in auto)
    moreover have "bs' = []" if "piperead_locked p n s = Ok (r, bs') u" for r bs' u
      using that unfolding e by (auto simp: kok split: if_splits)
    ultimately show ?thesis using ok by (auto split: outcome.splits)
  next
    case False
    then have e: "piperead_locked p n s = thenK (wakeup (Ch_pipewrite p)) (thenK (release (L_pipe p)) (retK (int (length bs), bs))) t"
      unfolding piperead_locked_def using c(1) by (auto simp: bindK_def getK_def)
    obtain a u where u: "wakeup (Ch_pipewrite p) t = Ok a u" "out_state (thenK (release (L_pipe p)) (retK (int (length bs), bs)) u) = Some s'"
      using o unfolding e by (rule out_then) simp
    obtain b v where v: "release (L_pipe p) u = Ok b v" "out_state (retK (int (length bs), bs) v) = Some s'"
      using u(2) by (rule out_then) simp
    have "pipes s' = pipes t" using pipes_frame(1) [OF u(1)] pipes_frame(3) [OF v(1)] v(2) by (simp add: retK_def)
    moreover have "piperead_locked p n s = Ok (int (length bs), bs) s'" using u v unfolding e by (simp add: thenK_def bindK_def retK_def)
    ultimately show ?thesis using c by simp
  qed
qed

text \<open>
  Runs of the readers and writers of a pipe. \<open>W\<close> collects the bytes stored by the critical sections of the writers,
  \<open>R\<close> those returned by the critical sections of the readers; a section starts with the lock held, at the call or after a
  sleep. Between two sections anything else may change, but not the pipe, which is protected by its lock.
\<close>

inductive pipe_run :: "nat \<Rightarrow> 'a filest_scheme \<Rightarrow> 'a filest_scheme \<Rightarrow> uchar list \<Rightarrow> uchar list \<Rightarrow> bool" for p s0 where
  start: "pipe_run p s0 s0 [] []"
| other: "pipe_run p s0 s W R \<Longrightarrow> pipes t p = pipes s p \<Longrightarrow> pipe_run p s0 t W R"
| writer: "pipe_run p s0 s W R \<Longrightarrow> out_state (pipewrite_locked p bs n s) = Some t \<Longrightarrow> length bs < 2 ^ 32 \<Longrightarrow>
    pipe_run p s0 t (W @ take (unat (pp_nwrite (pipes t p) - pp_nwrite (pipes s p))) bs) R"
| reader: "pipe_run p s0 s W R \<Longrightarrow> piperead_locked p n s = Ok (r, bs) t \<Longrightarrow> pipe_run p s0 t W (R @ bs)"
| reader_sleeps: "pipe_run p s0 s W R \<Longrightarrow> piperead_locked p n s = Switch t \<Longrightarrow> pipe_run p s0 t W R"

lemma pipe_run_inv:
  assumes "pipe_run p s0 s W R" and "pipe_ok (pipes s0 p)" and "pipe_bytes (pipes s0 p) = []"
  shows "pipe_ok (pipes s p) \<and> W = R @ pipe_bytes (pipes s p)"
  using assms(1)
proof induction
  case start
  then show ?case using assms by simp
next
  case (other s W R t)
  then show ?case by simp
next
  case (writer s W R bs n t)
  from pipewrite_locked_effect [OF _ writer.hyps(2)] writer.IH obtain k where k: "k \<le> length bs" "pipe_ok (pipes t p)"
    "pipe_bytes (pipes t p) = pipe_bytes (pipes s p) @ take k bs" "pp_nwrite (pipes t p) = pp_nwrite (pipes s p) + of_nat k" by blast
  have "unat (pp_nwrite (pipes t p) - pp_nwrite (pipes s p)) = k" using k(1,4) writer.hyps(3) by (simp add: unat_of_nat_small)
  then show ?case using k writer.IH by simp
next
  case (reader s W R n r bs t)
  then show ?case using piperead_locked_effect [of s p n t] by auto
next
  case (reader_sleeps s W R n t)
  then show ?case using piperead_locked_effect [of s p n t] by auto
qed

text \<open>(C26) A pipe delivers its bytes in order and loses none: under any interleaving of readers and writers, the bytes stored
  so far are the bytes returned so far followed by what the buffer holds, which is at most \<^verbatim>\<open>PIPESIZE\<close> bytes, also
  after the counters wrap around.\<close>

theorem pipe_fifo:
  assumes "pipe_run p s0 s W R" and "pipe_ok (pipes s0 p)" and "pipe_bytes (pipes s0 p) = []"
  shows "W = R @ pipe_bytes (pipes s p) \<and> length (pipe_bytes (pipes s p)) \<le> PIPESIZE"
  using pipe_run_inv [OF assms] by (auto simp: pipe_ok_def pipe_bytes_def)

text \<open>No wakeup is lost: a read that returns bytes wakes every process that sleeps because the pipe
  was full, and a write that stores its bytes wakes every process that sleeps because the pipe was empty.\<close>

lemma pipe_wakes_sleepers:
  assumes "if writing then pipewrite_locked p bs n s = Ok r s' \<and> r \<noteq> -1 else piperead_locked p n s = Ok (r, bs) s' \<and> r \<noteq> -1"
    and "p_state (ptable s ! j) = SLEEPING" and "p_chan (ptable s ! j) = Some (if writing then Ch_piperead p else Ch_pipewrite p)"
    and "j < length (ptable s)" and "pipe_ok (pipes s p)"
  shows "p_state (ptable s' ! j) = RUNNABLE"
proof (cases writing)
  case True
  have pt: "ptable t = ptable s" if "pipewrite_loop p bs s = Ok True t" for t
    using that
  proof (induction bs arbitrary: s)
    case (Cons c cs)
    then show ?case by (auto simp: kok upd_pipe_def split: if_splits)
  qed (simp add: kok)
  obtain t where "pipewrite_loop p bs s = Ok True t" "ptable s' = map (wake (Ch_piperead p)) (ptable t)"
    using True assms(1) by (auto simp: pipewrite_locked_def kok split: if_splits)
  then show ?thesis using pt assms True by (simp add: wake_def)
next
  case False
  obtain cs t where c: "piperead_copy p (nat n) s = Ok cs t" "ptable t = ptable s" using piperead_copy_effect [OF assms(5)] by blast
  have "ptable s' = map (wake (Ch_pipewrite p)) (ptable s)"
    using False assms(1) c by (auto simp: piperead_locked_def kok my_killed_def split: if_splits)
  then show ?thesis using assms False by (simp add: wake_def)
qed

section \<open>Examples\<close>

text \<open>A pipe whose counters are about to wrap around.\<close>

definition pipe_one :: pipe where
  "pipe_one = \<lparr>pp_data = replicate PIPESIZE 0, pp_nread = - 1, pp_nwrite = - 1, pp_readopen = True, pp_writeopen = True\<rparr>"

definition file_one :: filest where
  "file_one = kmst.extend (km_boot\<lparr>klocks := [L_pipe 0]\<rparr>) (filest.fields [] (\<lambda>_. pipe_one))"

lemma file_one_simps [simp]: "pipes file_one p = pipe_one" "klocks file_one = [L_pipe 0]" "cur file_one = Some 0"
   "ptable file_one = [zero_proc\<lparr>p_pid := 1, p_state := RUNNING\<rparr>]"
  by (simp_all add: file_one_def kmst.extend_def filest.fields_def km_boot_def fsst.extend_def kmst.fields_def fs_one_def)

lemma pipe_one_ok: "pipe_ok pipe_one" "pipe_bytes pipe_one = []"
  by (simp_all add: pipe_ok_def pipe_bytes_def pipe_one_def)

lemma file_one_write: "\<exists>t. pipewrite_locked 0 [65, 66] 2 file_one = Ok 2 t \<and> pp_nwrite (pipes t 0) = 1"
  by (simp add: pipewrite_locked_def kok upd_pipe_def pipe_one_def PIPESIZE_def ex_bool_eq)

theorem pipe_fifo_witness:
  "\<exists>s. pipe_run 0 file_one s [65, 66] [] \<and> [65, 66] = [] @ pipe_bytes (pipes s 0)"
proof -
  obtain t where t: "pipewrite_locked 0 [65, 66] 2 file_one = Ok 2 t" "pp_nwrite (pipes t 0) = 1" using file_one_write by blast
  have "pipe_run 0 file_one t ([] @ take (unat (pp_nwrite (pipes t 0) - pp_nwrite (pipes file_one 0))) [65, 66]) []"
    using t(1) by (intro pipe_run.writer [OF pipe_run.start, of 0 "[65, 66]" 2]) simp_all
  then have r: "pipe_run 0 file_one t [65, 66] []" using t(2) by (simp add: pipe_one_def)
  from pipe_fifo [OF this] r pipe_one_ok show ?thesis by auto
qed

end
