(* ===== verification/Vm.thy ===== *)
theory Vm
  imports Kalloc
begin

text \<open>
  Virtual memory: \<^verbatim>\<open>kernel/vm.c\<close> and the page-table macros of \<^verbatim>\<open>kernel/mmu.h\<close>. Page directories and page
  tables are pages of the kernel's memory, as in the code.

  A page table maps a page number to its entry. The lemmas show that \<^verbatim>\<open>walkpgdir\<close> and \<^verbatim>\<open>mappages\<close>
  change the mapping exactly at the pages they are asked for, whichever page-table pages they have to allocate. What the
  operations on whole address spaces do to memory is in \<^verbatim>\<open>Uvm\<close> and \<^verbatim>\<open>Freevm\<close>.

  Messages that the kernel prints with \<^verbatim>\<open>cprintf\<close> are not part of the model; the segment descriptors are in \<^verbatim>\<open>Machine\<close>.
  The address \<open>kdata\<close> of \<^verbatim>\<open>data\<close>, from the linker script, is a parameter.
\<close>

section \<open>Page-table entries\<close>

definition PTE_P :: uint where "PTE_P = 0x001"
definition PTE_W :: uint where "PTE_W = 0x002"
definition PTE_U :: uint where "PTE_U = 0x004"
definition EXTMEM :: uint where "EXTMEM = 0x100000"
definition DEVSPACE :: uint where "DEVSPACE = 0xFE000000"
definition KERNLINK :: uint where "KERNLINK = KERNBASE + EXTMEM"
definition NPDENTRIES :: nat where "NPDENTRIES = 1024"

definition PTE_ADDR :: "uint \<Rightarrow> uint" where
  "PTE_ADDR pte = pte AND NOT 0xFFF"

definition PTE_FLAGS :: "uint \<Rightarrow> uint" where
  "PTE_FLAGS pte = pte AND 0xFFF"

definition PDX :: "uint \<Rightarrow> uint" where
  "PDX va = drop_bit 22 va AND 0x3FF"

definition PTX :: "uint \<Rightarrow> uint" where
  "PTX va = drop_bit 12 va AND 0x3FF"

definition PGADDR :: "uint \<Rightarrow> uint \<Rightarrow> uint \<Rightarrow> uint" where
  "PGADDR d t o' = push_bit 22 d OR push_bit 12 t OR o'"

definition rd32 :: "uint \<Rightarrow> ('a kmst_scheme, uint) kfun" where
  "rd32 a = getK (\<lambda>s. load32 (kmemory s) a)"

definition wr32 :: "uint \<Rightarrow> uint \<Rightarrow> ('a kmst_scheme, unit) kfun" where
  "wr32 a v = modK (\<lambda>s. s\<lparr>kmemory := store32 (kmemory s) a v\<rparr>)"

definition memsetK :: "uint \<Rightarrow> uint \<Rightarrow> uint \<Rightarrow> ('a kmst_scheme, unit) kfun" where
  "memsetK a c n = modK (\<lambda>s. s\<lparr>kmemory := memset (kmemory s) a c n\<rparr>)"

section \<open>Walking and mapping\<close>

text \<open>The address of the entry, \<open>None\<close> for null.\<close>

definition walkpgdir :: "uint \<Rightarrow> uint \<Rightarrow> bool \<Rightarrow> ('a kmst_scheme, uint option) kfun" where
  "walkpgdir pgdir va alloc =
     (let pde = pgdir + 4 * PDX va in
      bindK (rd32 pde) (\<lambda>e.
      if e AND PTE_P \<noteq> 0 then
        retK (Some (P2V (PTE_ADDR e) + 4 * PTX va))
      else if \<not> alloc then retK None else
        bindK kalloc (\<lambda>pgtab.
        if pgtab = 0 then retK None else
        thenK (memsetK pgtab 0 PGSIZE) (
        thenK (wr32 pde (V2P pgtab OR PTE_P OR PTE_W OR PTE_U)) (
        retK (Some (pgtab + 4 * PTX va)))))))"

text \<open>The addresses from \<^verbatim>\<open>a\<close> to \<^verbatim>\<open>last\<close> in steps of a page; both are page aligned.\<close>

definition map_addrs :: "uint \<Rightarrow> uint \<Rightarrow> uint list" where
  "map_addrs a z = map (\<lambda>k. a + of_nat k * PGSIZE) [0..<unat (z - a) div 4096 + 1]"

fun mappages_loop :: "uint \<Rightarrow> uint list \<Rightarrow> uint \<Rightarrow> uint \<Rightarrow> ('a kmst_scheme, int) kfun" where
  "mappages_loop pgdir [] pa perm = retK 0"
| "mappages_loop pgdir (a # as) pa perm =
     bindK (walkpgdir pgdir a True) (\<lambda>r.
     case r of None \<Rightarrow> retK (-1) | Some pte \<Rightarrow>
     bindK (rd32 pte) (\<lambda>e.
     if e AND PTE_P \<noteq> 0 then panic ''remap'' else
     thenK (wr32 pte (pa OR perm OR PTE_P)) (
     mappages_loop pgdir as (pa + PGSIZE) perm)))"

definition mappages :: "uint \<Rightarrow> uint \<Rightarrow> uint \<Rightarrow> uint \<Rightarrow> uint \<Rightarrow> ('a kmst_scheme, int) kfun" where
  "mappages pgdir va len pa perm =
     mappages_loop pgdir (map_addrs (PGROUNDDOWN va) (PGROUNDDOWN (va + len - 1))) pa perm"

section \<open>Freeing\<close>

text \<open>
  The loop of \<^verbatim>\<open>deallocuvm\<close> at address \<open>a\<close>. A missing page table makes it go on at the next directory entry. The
  addresses grow as long as they do not wrap around, which they cannot for the sizes below \<^verbatim>\<open>KERNBASE\<close> that the
  kernel uses; otherwise the C loop would not end, and the model is undefined.
\<close>

function dealloc_loop :: "uint \<Rightarrow> uint \<Rightarrow> uint \<Rightarrow> ('a kmst_scheme, unit) kfun" where
  "dealloc_loop pgdir a oldsz =
     (if \<not> a < oldsz then retK () else
      bindK (walkpgdir pgdir a False) (\<lambda>r.
      case r of
        None \<Rightarrow>
          let a' = PGADDR (PDX a + 1) 0 0 - PGSIZE + PGSIZE in
          if a < a' then dealloc_loop pgdir a' oldsz else undefK
      | Some pte \<Rightarrow>
          bindK (rd32 pte) (\<lambda>e.
          thenK (whenK (e AND PTE_P \<noteq> 0) (
            if PTE_ADDR e = 0 then panic ''kfree'' else
            thenK (kfree (P2V (PTE_ADDR e))) (
            wr32 pte 0))) (
          if a < a + PGSIZE then dealloc_loop pgdir (a + PGSIZE) oldsz else undefK))))"
  by pat_completeness auto
termination
proof (relation "measure (\<lambda>(pgdir, a, oldsz). 2 ^ 32 - unat a)")
  fix a b c d :: uint assume "a < b"
  then have "unat a < unat b" by (simp add: word_less_nat_alt)
  then show "((c, b, d), (c, a, d)) \<in> measure (\<lambda>(pgdir, a, oldsz). 2 ^ 32 - unat a)" using unat_lt_2p32 [of b] by simp
qed (auto simp: word_less_nat_alt intro: diff_less_mono2 less_trans [OF _ unat_lt_2p32])

declare dealloc_loop.simps [simp del]

definition deallocuvm :: "uint \<Rightarrow> uint \<Rightarrow> uint \<Rightarrow> ('a kmst_scheme, uint) kfun" where
  "deallocuvm pgdir oldsz newsz =
     (if newsz \<ge> oldsz then retK oldsz else
      thenK (dealloc_loop pgdir (PGROUNDUP newsz) oldsz) (
      retK newsz))"

definition freevm_entry :: "uint \<Rightarrow> nat \<Rightarrow> ('a kmst_scheme, unit) kfun" where
  "freevm_entry pgdir i =
     bindK (rd32 (pgdir + 4 * of_nat i)) (\<lambda>e.
     whenK (e AND PTE_P \<noteq> 0) (kfree (P2V (PTE_ADDR e))))"

definition freevm :: "uint \<Rightarrow> ('a kmst_scheme, unit) kfun" where
  "freevm pgdir =
     (if pgdir = 0 then panic ''freevm: no pgdir'' else
      thenK (deallocuvm pgdir KERNBASE 0) (
      thenK (forK [0..<NPDENTRIES] (freevm_entry pgdir)) (
      kfree pgdir)))"

section \<open>Kernel mappings\<close>

text \<open>\<^verbatim>\<open>kmap\<close>: virtual address, first and last physical address, permissions.\<close>

definition kmap :: "uint \<Rightarrow> (uint \<times> uint \<times> uint \<times> uint) list" where
  "kmap kdata =
     [(KERNBASE, 0, EXTMEM, PTE_W),
      (KERNLINK, V2P KERNLINK, V2P kdata, 0),
      (kdata, V2P kdata, PHYSTOP, PTE_W),
      (DEVSPACE, DEVSPACE, 0, PTE_W)]"

fun setupkvm_loop :: "uint \<Rightarrow> (uint \<times> uint \<times> uint \<times> uint) list \<Rightarrow> ('a kmst_scheme, uint) kfun" where
  "setupkvm_loop pgdir [] = retK pgdir"
| "setupkvm_loop pgdir ((virt, phys_start, phys_end, perm) # ks) =
     bindK (mappages pgdir virt (phys_end - phys_start) phys_start perm) (\<lambda>r.
     if r < 0 then thenK (freevm pgdir) (retK 0) else
     setupkvm_loop pgdir ks)"

definition setupkvm :: "uint \<Rightarrow> ('a kmst_scheme, uint) kfun" where
  "setupkvm kdata =
     bindK kalloc (\<lambda>pgdir.
     if pgdir = 0 then retK 0 else
     thenK (memsetK pgdir 0 PGSIZE) (
     if P2V PHYSTOP > DEVSPACE then panic ''PHYSTOP too high'' else
     setupkvm_loop pgdir (kmap kdata)))"

section \<open>User memory\<close>

definition memmoveK :: "uint \<Rightarrow> uint \<Rightarrow> uint \<Rightarrow> ('a kmst_scheme, unit) kfun" where
  "memmoveK dst src n = modK (\<lambda>s. s\<lparr>kmemory := memmove (kmemory s) dst src n\<rparr>)"

text \<open>Bytes that come from outside the kernel's memory, stored at an address.\<close>

definition put_kbytes :: "uint \<Rightarrow> uchar list \<Rightarrow> ('a kmst_scheme, unit) kfun" where
  "put_kbytes a bs = modK (\<lambda>s. s\<lparr>kmemory := (\<lambda>x. if unat (x - a) < length bs then bs ! unat (x - a) else kmemory s x)\<rparr>)"

definition inituvm :: "uint \<Rightarrow> uchar list \<Rightarrow> ('a kmst_scheme, unit) kfun" where
  "inituvm pgdir init =
     (if length init \<ge> 4096 then panic ''inituvm: more than a page'' else
      bindK kalloc (\<lambda>mem.
      thenK (memsetK mem 0 PGSIZE) (
      bindK (mappages pgdir 0 PGSIZE (V2P mem) (PTE_W OR PTE_U)) (\<lambda>_.
      put_kbytes mem init))))"

text \<open>The page offsets \<^verbatim>\<open>0, PGSIZE, ...\<close> below \<^verbatim>\<open>sz\<close>, from \<^verbatim>\<open>a\<close> on.\<close>

definition page_addrs :: "uint \<Rightarrow> uint \<Rightarrow> uint list" where
  "page_addrs a sz = map (\<lambda>k. a + of_nat k * PGSIZE) [0..<(unat sz - unat a + 4095) div 4096]"

fun loaduvm_loop :: "(int \<Rightarrow> 'a kmst_scheme devsw) \<Rightarrow> uint \<Rightarrow> uint \<Rightarrow> nat \<Rightarrow> uint \<Rightarrow> uint \<Rightarrow> uint list \<Rightarrow> ('a kmst_scheme, int) kfun" where
  "loaduvm_loop devsw pgdir addr ip offset sz [] = retK 0"
| "loaduvm_loop devsw pgdir addr ip offset sz (i # is) =
     bindK (walkpgdir pgdir (addr + i) False) (\<lambda>r.
     case r of None \<Rightarrow> panic ''loaduvm: address should exist'' | Some pte \<Rightarrow>
     bindK (rd32 pte) (\<lambda>e.
     let pa = PTE_ADDR e;
         n = (if sz - i < PGSIZE then sz - i else PGSIZE) in
     bindK (readi devsw ip (offset + i) n) (\<lambda>(r, bs).
     thenK (put_kbytes (P2V pa) bs) (
     if word_of_int r \<noteq> n then retK (-1) else
     loaduvm_loop devsw pgdir addr ip offset sz is))))"

definition loaduvm :: "(int \<Rightarrow> 'a kmst_scheme devsw) \<Rightarrow> uint \<Rightarrow> uint \<Rightarrow> nat \<Rightarrow> uint \<Rightarrow> uint \<Rightarrow> ('a kmst_scheme, int) kfun" where
  "loaduvm devsw pgdir addr ip offset sz =
     (if addr mod PGSIZE \<noteq> 0 then panic ''loaduvm: addr must be page aligned'' else
      loaduvm_loop devsw pgdir addr ip offset sz (page_addrs 0 sz))"

fun allocuvm_loop :: "uint \<Rightarrow> uint \<Rightarrow> uint \<Rightarrow> uint list \<Rightarrow> ('a kmst_scheme, uint) kfun" where
  "allocuvm_loop pgdir oldsz newsz [] = retK newsz"
| "allocuvm_loop pgdir oldsz newsz (a # as) =
     bindK kalloc (\<lambda>mem.
     if mem = 0 then
       thenK (deallocuvm pgdir newsz oldsz) (retK 0)
     else
     thenK (memsetK mem 0 PGSIZE) (
     bindK (mappages pgdir a PGSIZE (V2P mem) (PTE_W OR PTE_U)) (\<lambda>r.
     if r < 0 then
       thenK (deallocuvm pgdir newsz oldsz) (
       thenK (kfree mem) (retK 0))
     else allocuvm_loop pgdir oldsz newsz as)))"

definition allocuvm :: "uint \<Rightarrow> uint \<Rightarrow> uint \<Rightarrow> ('a kmst_scheme, uint) kfun" where
  "allocuvm pgdir oldsz newsz =
     (if newsz \<ge> KERNBASE then retK 0 else
      if newsz < oldsz then retK oldsz else
      allocuvm_loop pgdir oldsz newsz (page_addrs (PGROUNDUP oldsz) newsz))"

definition clearpteu :: "uint \<Rightarrow> uint \<Rightarrow> ('a kmst_scheme, unit) kfun" where
  "clearpteu pgdir uva =
     bindK (walkpgdir pgdir uva False) (\<lambda>r.
     case r of None \<Rightarrow> panic ''clearpteu'' | Some pte \<Rightarrow>
     bindK (rd32 pte) (\<lambda>e.
     wr32 pte (e AND NOT PTE_U)))"

fun copyuvm_loop :: "uint \<Rightarrow> uint \<Rightarrow> uint list \<Rightarrow> ('a kmst_scheme, uint) kfun" where
  "copyuvm_loop pgdir d [] = retK d"
| "copyuvm_loop pgdir d (i # is) =
     bindK (walkpgdir pgdir i False) (\<lambda>r.
     case r of None \<Rightarrow> panic ''copyuvm: pte should exist'' | Some pte \<Rightarrow>
     bindK (rd32 pte) (\<lambda>e.
     if e AND PTE_P = 0 then panic ''copyuvm: page not present'' else
     bindK kalloc (\<lambda>mem.
     if mem = 0 then thenK (freevm d) (retK 0) else
     thenK (memmoveK mem (P2V (PTE_ADDR e)) PGSIZE) (
     bindK (mappages d i PGSIZE (V2P mem) (PTE_FLAGS e)) (\<lambda>r.
     if r < 0 then
       thenK (kfree mem) (
       thenK (freevm d) (retK 0))
     else copyuvm_loop pgdir d is)))))"

definition copyuvm :: "uint \<Rightarrow> uint \<Rightarrow> uint \<Rightarrow> ('a kmst_scheme, uint) kfun" where
  "copyuvm kdata pgdir sz =
     bindK (setupkvm kdata) (\<lambda>d.
     if d = 0 then retK 0 else
     copyuvm_loop pgdir d (page_addrs 0 sz))"

text \<open>\<^verbatim>\<open>uva2ka\<close> reads the entry without testing the pointer for null.\<close>

definition uva2ka :: "uint \<Rightarrow> uint \<Rightarrow> ('a kmst_scheme, uint) kfun" where
  "uva2ka pgdir uva =
     bindK (walkpgdir pgdir uva False) (\<lambda>r.
     case r of None \<Rightarrow> undefK | Some pte \<Rightarrow>
     bindK (rd32 pte) (\<lambda>e.
     if e AND PTE_P = 0 then retK 0 else
     if e AND PTE_U = 0 then retK 0 else
     retK (P2V (PTE_ADDR e))))"

lemma page_rest: "0 < unat (PGSIZE - (va - PGROUNDDOWN va))"
proof -
  have "va - PGROUNDDOWN va = va mod 4096" using and_not_4095 [of va] by (simp add: PGROUNDDOWN_def PGSIZE_def)
  moreover have "unat (va mod 4096) < 4096" by (simp add: unat_mod)
  ultimately have "PGSIZE - (va - PGROUNDDOWN va) \<noteq> 0" by (auto simp: PGSIZE_def)
  then show ?thesis by (simp add: unat_gt_0)
qed

function copyout :: "uint \<Rightarrow> uint \<Rightarrow> uchar list \<Rightarrow> ('a kmst_scheme, int) kfun" where
  "copyout pgdir va buf =
     (if buf = [] then retK 0 else
      let va0 = PGROUNDDOWN va in
      bindK (uva2ka pgdir va0) (\<lambda>pa0.
      if pa0 = 0 then retK (-1) else
      let n = min (length buf) (unat (PGSIZE - (va - va0))) in
      thenK (put_kbytes (pa0 + (va - va0)) (take n buf)) (
      copyout pgdir (va0 + PGSIZE) (drop n buf))))"
  by pat_completeness auto
termination
  by (relation "measure (\<lambda>(pgdir, va, buf). length buf)") (use page_rest in auto)

declare copyout.simps [simp del]

section \<open>Words of a page\<close>

definition slot :: "uint \<Rightarrow> nat \<Rightarrow> uint" where
  "slot p i = p + 4 * of_nat i"

lemma slot_unat:
  assumes "page_aligned p" "i < 1024" "k < 4"
  shows "unat (slot p i + of_nat k) = unat p + (4 * i + k)"
proof -
  have "slot p i + of_nat k = p + of_nat (4 * i + k)" by (simp add: slot_def)
  moreover have "unat (of_nat (4 * i + k) :: uint) = 4 * i + k" using assms(2,3) by (intro unat_of_nat_small) simp
  ultimately show ?thesis using page_unat(2) [OF assms(1)] assms(2,3) by (simp add: unat_add_noovf del: of_nat_add of_nat_mult)
qed

lemma slot_bytes_neq:
  assumes "page_aligned p" "page_aligned q" "i < 1024" "j < 1024" "k < 4" "l < 4" "\<not> (p = q \<and> i = j)"
  shows "slot p i + of_nat k \<noteq> slot q j + of_nat l"
proof
  assume "slot p i + of_nat k = slot q j + of_nat l"
  then have e: "unat p + (4 * i + k) = unat q + (4 * j + l)" using slot_unat assms by metis
  obtain a b where ab: "unat p = 4096 * a" "unat q = 4096 * b" using page_unat(1) assms(1,2) by (metis mod_0_imp_dvd dvdE)
  have r: "4 * i + k < 4096" "4 * j + l < 4096" using assms(3-6) by simp_all
  have "a = (4096 * a + (4 * i + k)) div 4096" "b = (4096 * b + (4 * j + l)) div 4096" using r by simp_all
  then have "a = b" using e ab by metis
  moreover from this have "(4 * i + k) div 4 = (4 * j + l) div 4" using e ab by simp
  then have "i = j" using assms(5,6) by simp
  ultimately have "a = b \<and> i = j" by simp
  then show False using assms(7) ab by (auto simp: word_unat_eq_iff)
qed

lemma store32_far:
  assumes "\<forall>k < 4. x \<noteq> a + of_nat k"
  shows "store32 m a v x = m x"
  using assms [rule_format, of 0] assms [rule_format, of 1] assms [rule_format, of 2] assms [rule_format, of 3]
  by (simp add: store32_def)

lemma slot_store:
  assumes "page_aligned p" "page_aligned q" "i < 1024" "j < 1024"
  shows "load32 (store32 m (slot p i) v) (slot q j) = (if p = q \<and> i = j then v else load32 m (slot q j))"
proof (cases "p = q \<and> i = j")
  case False
  have "slot q j + of_nat l \<noteq> slot p i + of_nat k" if "k < 4" "l < 4" for k l
    using slot_bytes_neq [OF assms(2,1,4,3) that(2,1)] False by blast
  then have "store32 m (slot p i) v (slot q j + of_nat l) = m (slot q j + of_nat l)" if "l < 4" for l
    using that by (intro store32_far) blast
  from this [of 0] this [of 1] this [of 2] this [of 3]
  have "store32 m (slot p i) v (slot q j) = m (slot q j)" "store32 m (slot p i) v (slot q j + 1) = m (slot q j + 1)"
    "store32 m (slot p i) v (slot q j + 2) = m (slot q j + 2)" "store32 m (slot p i) v (slot q j + 3) = m (slot q j + 3)" by simp_all
  then show ?thesis using False by (auto simp: load32_def)
qed simp

lemma slot_in_page:
  assumes "page_aligned q" "j < 1024" "k < 4"
  shows "in_page (slot q j + of_nat k) q"
proof -
  have "slot q j + of_nat k - q = of_nat (4 * j + k)" by (simp add: slot_def)
  moreover have "unat (of_nat (4 * j + k) :: uint) = 4 * j + k" using assms(2,3) by (intro unat_of_nat_small) simp
  ultimately show ?thesis using assms(2,3) by (simp add: in_page_def del: of_nat_add of_nat_mult)
qed

lemma slot_memset:
  assumes "page_aligned p" "page_aligned q" "j < 1024"
  shows "load32 (memset m p 0 PGSIZE) (slot q j) = (if p = q then 0 else load32 m (slot q j))"
proof -
  have b: "memset m p 0 PGSIZE x = (if in_page x p then 0 else m x)" for x by (simp add: memset_fills in_page_def PGSIZE_def)
  have i: "in_page (slot q j + of_nat k) p \<longleftrightarrow> p = q" if "k < 4" for k
    using slot_in_page [OF assms(2,3) that] page_disjoint [OF assms(1,2)] by blast
  show ?thesis using i [of 0] i [of 1] i [of 2] i [of 3] by (simp add: load32_def b)
qed

section \<open>The parts of an address\<close>

definition pdx :: "uint \<Rightarrow> nat" where "pdx va = unat va div 2 ^ 22"
definition ptx :: "uint \<Rightarrow> nat" where "ptx va = unat va div 4096 mod 1024"

lemma pdx_ptx_bounds: "pdx va < 1024" "ptx va < 1024"
  using unat_lt_2p32 [of va] by (simp_all add: pdx_def ptx_def less_mult_imp_div_less)

lemma PDX_pdx: "PDX va = of_nat (pdx va)"
proof -
  have "(0x3FF :: uint) = mask 10" by (simp add: mask_eq_exp_minus_1)
  then have "PDX va = (va div 2 ^ 22) mod 2 ^ 10" by (simp only: PDX_def flip: take_bit_eq_mask take_bit_eq_mod drop_bit_eq_div)
  then have "unat (PDX va) = unat va div 2 ^ 22 mod 1024" by (simp add: unat_mod unat_div)
  then have "unat (PDX va) = pdx va" using pdx_ptx_bounds(1) [of va] by (simp add: pdx_def)
  moreover have "of_nat (unat (PDX va)) = PDX va" by simp
  ultimately show ?thesis by simp
qed

lemma PDX_slot: "p + 4 * PDX va = slot p (pdx va)"
  by (simp add: PDX_pdx slot_def)

lemma PTX_slot: "p + 4 * PTX va = slot p (ptx va)"
proof -
  have "(0x3FF :: uint) = mask 10" by (simp add: mask_eq_exp_minus_1)
  then have "PTX va = (va div 2 ^ 12) mod 2 ^ 10" by (simp only: PTX_def flip: take_bit_eq_mask take_bit_eq_mod drop_bit_eq_div)
  then have "unat (PTX va) = ptx va" by (simp add: unat_mod unat_div ptx_def)
  moreover have "of_nat (unat (PTX va)) = PTX va" by simp
  ultimately have "PTX va = of_nat (ptx va)" by simp
  then show ?thesis by (simp add: slot_def)
qed

lemma same_page: "pdx a = pdx b \<and> ptx a = ptx b \<longleftrightarrow> unat a div 4096 = unat b div 4096"
proof -
  have p: "pdx x = unat x div 4096 div 1024" for x by (simp add: pdx_def flip: div_mult2_eq)
  show ?thesis unfolding p ptx_def by (metis div_mult_mod_eq)
qed
section \<open>The mapping of a page table\<close>

definition present :: "uint \<Rightarrow> bool" where
  "present e \<longleftrightarrow> e AND PTE_P \<noteq> 0"

definition pgtab :: "uint \<Rightarrow> uint" where
  "pgtab e = P2V (PTE_ADDR e)"

text \<open>The entry of a virtual address, if it is mapped.\<close>

definition mapping :: "memory \<Rightarrow> uint \<Rightarrow> uint \<Rightarrow> uint option" where
  "mapping m pgdir va =
     (let e = load32 m (slot pgdir (pdx va)) in
      if present e then
        let f = load32 m (slot (pgtab e) (ptx va)) in if present f then Some f else None
      else None)"

text \<open>
  A well-formed page directory, with \<open>vs\<close> the free pages: its page tables are pages, all different from each other, from
  the directory and from the free pages.
\<close>

definition pt_wf :: "'a kmst_scheme \<Rightarrow> uint \<Rightarrow> uint list \<Rightarrow> bool" where
  "pt_wf s pgdir vs \<longleftrightarrow> kmem_ok s vs \<and> L_kmem \<notin> set (klocks s) \<and> page_ok (kernel_end s) pgdir \<and> pgdir \<notin> set vs \<and>
     (\<forall>i < 1024. present (load32 (kmemory s) (slot pgdir i)) \<longrightarrow>
        page_ok (kernel_end s) (pgtab (load32 (kmemory s) (slot pgdir i))) \<and> pgtab (load32 (kmemory s) (slot pgdir i)) \<noteq> pgdir \<and>
        pgtab (load32 (kmemory s) (slot pgdir i)) \<notin> set vs) \<and>
     (\<forall>i < 1024. \<forall>j < 1024. present (load32 (kmemory s) (slot pgdir i)) \<longrightarrow> present (load32 (kmemory s) (slot pgdir j)) \<longrightarrow>
        pgtab (load32 (kmemory s) (slot pgdir i)) = pgtab (load32 (kmemory s) (slot pgdir j)) \<longrightarrow> i = j)"

lemma pte_decode:
  assumes "page_aligned pa" and "perm AND 0xFFF = perm"
  shows "PTE_ADDR (pa OR perm) = pa" "PTE_FLAGS (pa OR perm) = perm"
proof -
  define M :: uint where "M = 0xFFF"
  have "M = mask 12" by (simp add: M_def mask_eq_exp_minus_1)
  then have "pa AND M = pa mod 2 ^ 12" by (simp only: flip: take_bit_eq_mask take_bit_eq_mod)
  then have z: "pa AND M = 0" using assms(1) by (simp add: page_aligned_def PGSIZE_def)
  have p: "perm AND M = perm" using assms(2) by (simp add: M_def)
  show "PTE_FLAGS (pa OR perm) = perm" unfolding PTE_FLAGS_def M_def [symmetric] using z p by (simp add: bit.conj_disj_distrib2)
  have b: "bit perm n \<Longrightarrow> bit M n" "bit pa n \<Longrightarrow> bit M n \<Longrightarrow> False" for n
    using arg_cong [OF p, of "\<lambda>w. bit w n"] arg_cong [OF z, of "\<lambda>w. bit w n"] by (auto simp: bit_and_iff)
  show "PTE_ADDR (pa OR perm) = pa" unfolding PTE_ADDR_def M_def [symmetric]
    by (rule bit_word_eqI) (auto simp: bit_and_iff bit_or_iff bit_not_iff dest: b)
qed

lemma P2V_V2P [simp]: "P2V (V2P v) = v" "V2P (P2V v) = v"
  by (simp_all add: P2V_def V2P_def)

lemma V2P_aligned:
  assumes "page_aligned v"
  shows "page_aligned (V2P v)"
proof -
  have "unat v mod 4096 = 0" using assms by (simp add: page_aligned_unat)
  then obtain k where k: "unat v = 4096 * k" by (auto elim: dvdE)
  have "unat v - 2147483648 = 4096 * (k - 524288)" "unat v + 2147483648 = 4096 * (k + 524288)" using k by simp_all
  moreover have "unat (v - KERNBASE) = unat v - 2147483648 \<or> unat (v - KERNBASE) = unat v + 2147483648"
    using unat_sub_if_size [of v KERNBASE] by (simp add: KERNBASE_def word_size)
  ultimately show ?thesis unfolding page_aligned_unat V2P_def by (metis mod_mult_self1_is_0)
qed

lemma new_pde:
  assumes "page_aligned v"
  shows "present (V2P v OR PTE_P OR PTE_W OR PTE_U)" "pgtab (V2P v OR PTE_P OR PTE_W OR PTE_U) = v"
proof -
  have p: "PTE_P OR PTE_W OR PTE_U = (7 :: uint)" by (simp add: PTE_P_def PTE_W_def PTE_U_def)
  have e: "V2P v OR PTE_P OR PTE_W OR PTE_U = V2P v OR 7" by (simp add: p or.assoc)
  show "present (V2P v OR PTE_P OR PTE_W OR PTE_U)"
    by (simp add: present_def PTE_P_def bit.conj_disj_distrib2 or_eq_0_iff)
  show "pgtab (V2P v OR PTE_P OR PTE_W OR PTE_U) = v"
    unfolding e pgtab_def using pte_decode(1) [OF V2P_aligned [OF assms], of 7] by simp
qed

lemma new_pte:
  assumes "page_aligned pa" "perm AND 0xFFF = perm"
  shows "present (pa OR perm OR PTE_P)" "PTE_ADDR (pa OR perm OR PTE_P) = pa" "PTE_FLAGS (pa OR perm OR PTE_P) = (perm OR PTE_P)"
proof -
  show "present (pa OR perm OR PTE_P)"
    by (simp add: present_def PTE_P_def bit.conj_disj_distrib2 or_eq_0_iff)
  have q: "(perm OR PTE_P) AND 0xFFF = perm OR PTE_P" using assms(2) by (simp add: bit.conj_disj_distrib2 PTE_P_def)
  show "PTE_ADDR (pa OR perm OR PTE_P) = pa" "PTE_FLAGS (pa OR perm OR PTE_P) = (perm OR PTE_P)"
    using pte_decode [OF assms(1) q] by (simp_all add: or.assoc)
qed

lemma not_present_0: "\<not> present 0"
  by (simp add: present_def)

lemma pt_wfD:
  assumes "pt_wf s pgdir vs"
  shows "kmem_ok s vs" "L_kmem \<notin> set (klocks s)" "page_aligned pgdir" "pgdir \<notin> set vs" "\<forall>v \<in> set vs. page_ok (kernel_end s) v" "distinct vs"
    "i < 1024 \<Longrightarrow> present (load32 (kmemory s) (slot pgdir i)) \<Longrightarrow> page_aligned (pgtab (load32 (kmemory s) (slot pgdir i))) \<and>
       pgtab (load32 (kmemory s) (slot pgdir i)) \<noteq> pgdir \<and> pgtab (load32 (kmemory s) (slot pgdir i)) \<notin> set vs"
  using assms kpages.pool_pages [of s vs] by (auto simp: pt_wf_def page_ok_def)

lemma store32_in_page: "page_aligned p \<Longrightarrow> i < 1024 \<Longrightarrow> \<not> in_page x p \<Longrightarrow> store32 m (slot p i) v x = m x"
  using slot_in_page by (intro store32_far) blast

lemma kmem_ok_upd:
  assumes "kmem_ok s vs" and "\<And>x v. v \<in> set vs \<Longrightarrow> in_page x v \<Longrightarrow> m x = kmemory s x"
  shows "kmem_ok (s\<lparr>kmemory := m\<rparr>) vs"
  using assms free_chain_cong [of vs m "kmemory s" "kernel_end s" "freelist s"] by (simp add: kmem_ok_def)

lemma kalloc_write:
  assumes "kmem_ok s (v # vs)" and "\<And>x. \<not> in_page x v \<Longrightarrow> m x = kmemory s x"
  shows "kmem_ok (s\<lparr>freelist := load32 (kmemory s) v, kmemory := m\<rparr>) vs"
proof -
  have ok: "kmem_ok (s\<lparr>freelist := load32 (kmemory s) v\<rparr>) vs" using assms(1) by (simp add: kmem_ok_def)
  have al: "\<forall>w \<in> set (v # vs). page_aligned w" "v \<notin> set vs"
    using kpages.pool_pages [OF assms(1)] by (auto simp: page_ok_def)
  have "kmem_ok (s\<lparr>freelist := load32 (kmemory s) v\<rparr>\<lparr>kmemory := m\<rparr>) vs"
  proof (rule kmem_ok_upd [OF ok])
    fix x w assume "w \<in> set vs" "in_page x w"
    then have "\<not> in_page x v" using al page_disjoint by (metis list.set_intros)
    then show "m x = kmemory (s\<lparr>freelist := load32 (kmemory s) v\<rparr>) x" using assms(2) by simp
  qed
  then show ?thesis by simp
qed

text \<open>Storing an entry into a page table of the directory.\<close>

lemma store_pte:
  assumes wf: "pt_wf s pgdir vs" and pr: "present (load32 (kmemory s) (slot pgdir (pdx va)))"
    and t: "t = pgtab (load32 (kmemory s) (slot pgdir (pdx va)))"
    and s': "s' = s\<lparr>kmemory := store32 (kmemory s) (slot t (ptx va)) e\<rparr>"
  shows "pt_wf s' pgdir vs" "mapping (kmemory s') pgdir w =
    (if unat w div 4096 = unat va div 4096 then (if present e then Some e else None) else mapping (kmemory s) pgdir w)"
proof -
  note d = pt_wfD [OF wf]
  have tt: "page_aligned t" "t \<noteq> pgdir" "t \<notin> set vs" using d(7) [OF pdx_ptx_bounds(1) pr] t by auto
  have dir: "load32 (kmemory s') (slot pgdir i) = load32 (kmemory s) (slot pgdir i)" if "i < 1024" for i
    using slot_store [OF tt(1) d(3) pdx_ptx_bounds(2) that] tt(2) by (simp add: s')
  have "kmem_ok s' vs" unfolding s'
  proof (rule kmem_ok_upd [OF d(1)])
    fix x v assume v: "v \<in> set vs" "in_page x v"
    then have "page_aligned v" "v \<noteq> t" using d(5) tt(3) by (auto simp: page_ok_def)
    then have "\<not> in_page x t" using page_disjoint tt(1) v(2) by blast
    then show "store32 (kmemory s) (slot t (ptx va)) e x = kmemory s x" using tt(1) pdx_ptx_bounds(2) by (intro store32_in_page)
  qed
  then show "pt_wf s' pgdir vs" using wf dir unfolding pt_wf_def by (simp add: s')
  show "mapping (kmemory s') pgdir w =
    (if unat w div 4096 = unat va div 4096 then (if present e then Some e else None) else mapping (kmemory s) pgdir w)"
  proof (cases "present (load32 (kmemory s) (slot pgdir (pdx w)))")
    case True
    let ?u = "pgtab (load32 (kmemory s) (slot pgdir (pdx w)))"
    have u: "page_aligned ?u" using d(7) [OF pdx_ptx_bounds(1) True] by blast
    have "t = ?u \<longleftrightarrow> pdx w = pdx va" using wf True pr pdx_ptx_bounds(1) t unfolding pt_wf_def by metis
    then have "load32 (kmemory s') (slot ?u (ptx w)) = (if unat w div 4096 = unat va div 4096 then e else load32 (kmemory s) (slot ?u (ptx w)))"
      using slot_store [OF tt(1) u pdx_ptx_bounds(2) pdx_ptx_bounds(2), where v = e] same_page [of w va] by (auto simp: s')
    then show ?thesis using True dir pdx_ptx_bounds(1) by (simp add: mapping_def Let_def)
  next
    case False
    then have "unat w div 4096 \<noteq> unat va div 4096" using pr same_page [of w va] by auto
    then show ?thesis using False dir pdx_ptx_bounds(1) by (simp add: mapping_def Let_def)
  qed
qed

text \<open>Walking to the entry of an address, with page tables allocated on the way.\<close>

lemma walkpgdir_alloc:
  assumes wf: "pt_wf s pgdir vs"
  obtains (full) s' where "walkpgdir pgdir va True s = Ok None s'" "pt_wf s' pgdir []" "kmemory s' = kmemory s" "vs = []"
  | (entry) s' vs' t where "walkpgdir pgdir va True s = Ok (Some (slot t (ptx va))) s'" "pt_wf s' pgdir vs'" "length vs \<le> Suc (length vs')"
      "present (load32 (kmemory s') (slot pgdir (pdx va)))" "t = pgtab (load32 (kmemory s') (slot pgdir (pdx va)))"
      "\<And>w. mapping (kmemory s') pgdir w = mapping (kmemory s) pgdir w"
      "present (load32 (kmemory s) (slot pgdir (pdx va))) \<Longrightarrow> vs' = vs \<and> s' = s"
      "\<not> present (load32 (kmemory s) (slot pgdir (pdx va))) \<Longrightarrow> vs = t # vs' \<and> s' = s\<lparr>freelist := load32 (kmemory s) t, kmemory :=
         store32 (memset (kmemory s) t 0 PGSIZE) (slot pgdir (pdx va)) (V2P t OR PTE_P OR PTE_W OR PTE_U)\<rparr>"
proof -
  note d = pt_wfD [OF wf]
  let ?e = "load32 (kmemory s) (slot pgdir (pdx va))"
  show thesis
  proof (cases "present ?e")
    case True
    then have "walkpgdir pgdir va True s = Ok (Some (slot (pgtab ?e) (ptx va))) s"
      by (simp add: walkpgdir_def Let_def PDX_slot PTX_slot rd32_def kdefs present_def pgtab_def)
    then show thesis by (rule entry) (use wf True in simp_all)
  next
    case False
    show thesis
    proof (cases vs)
      case Nil
      then obtain s' where s': "kalloc s = Ok 0 s'" "kmem_ok s' []" "klocks s' = klocks s" "kmemory s' = kmemory s" "kernel_end s' = kernel_end s"
        using kalloc_effect [OF d(1,2)] by auto
      then have "walkpgdir pgdir va True s = Ok None s'"
        using False by (simp add: walkpgdir_def Let_def PDX_slot rd32_def kdefs present_def)
      moreover have "pt_wf s' pgdir []" using wf s' Nil unfolding pt_wf_def by simp
      ultimately show thesis using full s'(4) Nil by blast
    next
      case (Cons v vs')
      have v: "page_ok (kernel_end s) v" "page_aligned v" "v \<noteq> 0" "v \<noteq> pgdir" "v \<notin> set vs'"
        using d(4,5,6) Cons page_ok_nonzero by (auto simp: page_ok_def)
      define s1 where "s1 = s\<lparr>freelist := load32 (kmemory s) v\<rparr>"
      have s1: "kalloc s = Ok v s1" "kmem_ok s1 vs'" "klocks s1 = klocks s" "kmemory s1 = kmemory s" "kernel_end s1 = kernel_end s"
        using kalloc_run(2,3) [OF d(1,2) Cons] by (simp_all add: s1_def)
      define p where "p = (V2P v OR PTE_P OR PTE_W OR PTE_U)"
      define m where "m = store32 (memset (kmemory s) v 0 PGSIZE) (slot pgdir (pdx va)) p"
      define s' where "s' = s1\<lparr>kmemory := m\<rparr>"
      have run: "walkpgdir pgdir va True s = Ok (Some (slot v (ptx va))) s'"
        using False s1(1,4) v(3) by (simp add: walkpgdir_def Let_def PDX_slot PTX_slot rd32_def wr32_def memsetK_def kdefs present_def s'_def m_def p_def)
      have dir: "load32 m (slot pgdir i) = (if i = pdx va then p else load32 (kmemory s) (slot pgdir i))" if "i < 1024" for i
        using slot_store [OF d(3) d(3) pdx_ptx_bounds(1) that] slot_memset [OF v(2) d(3) that] v(4) by (simp add: m_def)
      have pp: "present p" "pgtab p = v" using new_pde [OF v(2)] by (simp_all add: p_def)
      have tab: "load32 m (slot q j) = (if q = v then 0 else load32 (kmemory s) (slot q j))" if "page_aligned q" "q \<noteq> pgdir" "j < 1024" for q j
        using slot_store [OF d(3) that(1) pdx_ptx_bounds(1) that(3)] slot_memset [OF v(2) that(1,3)] that(2) by (auto simp: m_def)
      have kv: "kmem_ok s' vs'" unfolding s'_def
      proof (rule kmem_ok_upd [OF s1(2)])
        fix x w assume w: "w \<in> set vs'" "in_page x w"
        then have "page_aligned w" "w \<noteq> v" "w \<noteq> pgdir" using d(4,5) Cons v(5) by (auto simp: page_ok_def)
        then have "\<not> in_page x v" "\<not> in_page x pgdir" using page_disjoint w(2) v(2) d(3) by blast+
        then show "m x = kmemory s1 x"
          using store32_in_page [OF d(3) pdx_ptx_bounds(1)] s1(4) by (simp add: m_def memset_fills in_page_def PGSIZE_def)
      qed
      have old: "page_ok (kernel_end s) (pgtab (load32 (kmemory s) (slot pgdir i))) \<and> pgtab (load32 (kmemory s) (slot pgdir i)) \<noteq> pgdir \<and>
          pgtab (load32 (kmemory s) (slot pgdir i)) \<notin> set vs" if "i < 1024" "present (load32 (kmemory s) (slot pgdir i))" for i
        using wf that unfolding pt_wf_def by blast
      have "pt_wf s' pgdir vs'" unfolding pt_wf_def
      proof (intro conjI allI impI)
        show "kmem_ok s' vs'" by (rule kv)
        show "L_kmem \<notin> set (klocks s')" "page_ok (kernel_end s') pgdir" "pgdir \<notin> set vs'"
          using wf s1 Cons by (auto simp: pt_wf_def s'_def)
        fix i assume i: "i < 1024" and pi: "present (load32 (kmemory s') (slot pgdir i))"
        let ?t = "\<lambda>i. pgtab (load32 (kmemory s') (slot pgdir i))"
        have ti: "?t i = (if i = pdx va then v else pgtab (load32 (kmemory s) (slot pgdir i)))"
          using dir [OF i] pp(2) by (simp add: s'_def)
        show "page_ok (kernel_end s') (?t i)" "?t i \<noteq> pgdir" "?t i \<notin> set vs'"
          using ti old [OF i] pi dir [OF i] v s1(5) Cons by (auto simp: s'_def split: if_splits)
        fix j assume j: "j < 1024" and pj: "present (load32 (kmemory s') (slot pgdir j))" and eq: "?t i = ?t j"
        have tj: "?t j = (if j = pdx va then v else pgtab (load32 (kmemory s) (slot pgdir j)))"
          using dir [OF j] pp(2) by (simp add: s'_def)
        have "v \<in> set vs" and s'm: "kmemory s' = m" using Cons by (simp_all add: s'_def)
        then show "i = j" using eq ti tj old [OF i] old [OF j] pi pj dir [OF i] dir [OF j] wf i j
          unfolding pt_wf_def by (metis s'm)
      qed
      moreover have "mapping (kmemory s') pgdir w = mapping (kmemory s) pgdir w" for w
      proof (cases "pdx w = pdx va")
        case True
        then show ?thesis using dir [OF pdx_ptx_bounds(1)] pp False tab [OF v(2,4) pdx_ptx_bounds(2)] not_present_0
          by (simp add: mapping_def s'_def Let_def)
      next
        case ne: False
        let ?f = "load32 (kmemory s) (slot pgdir (pdx w))"
        have "load32 m (slot (pgtab ?f) (ptx w)) = load32 (kmemory s) (slot (pgtab ?f) (ptx w))" if "present ?f"
          using old [OF pdx_ptx_bounds(1) that] tab [OF _ _ pdx_ptx_bounds(2)] Cons by (auto simp: page_ok_def)
        then show ?thesis using dir [OF pdx_ptx_bounds(1)] ne by (simp add: mapping_def s'_def Let_def)
      qed
      moreover have "length vs \<le> Suc (length vs')" using Cons by simp
      moreover have "load32 (kmemory s') (slot pgdir (pdx va)) = p" using dir [OF pdx_ptx_bounds(1)] by (simp add: s'_def)
      moreover have "s' = s\<lparr>freelist := load32 (kmemory s) v, kmemory :=
          store32 (memset (kmemory s) v 0 PGSIZE) (slot pgdir (pdx va)) (V2P v OR PTE_P OR PTE_W OR PTE_U)\<rparr>"
        by (simp add: s'_def s1_def m_def p_def)
      ultimately show thesis using entry [OF run] pp False Cons by metis
    qed
  qed
qed

definition vpn :: "uint \<Rightarrow> nat" where
  "vpn w = unat w div 4096"

text \<open>The entry that mapping the addresses \<open>as\<close> to \<open>pa\<close> on gives the page of \<open>w\<close>.\<close>

fun new_entry :: "uint list \<Rightarrow> uint \<Rightarrow> uint \<Rightarrow> uint \<Rightarrow> uint option" where
  "new_entry [] pa perm w = None"
| "new_entry (a # as) pa perm w = (if vpn w = vpn a then Some (pa OR perm OR PTE_P) else new_entry as (pa + PGSIZE) perm w)"

lemma or_present: "present (pa OR perm OR PTE_P)"
  by (auto simp: present_def PTE_P_def bit_eq_iff bit_simps intro!: exI [of _ 0])

lemma mappages_loop_effect:
  assumes "pt_wf s pgdir vs" and "distinct (map vpn as)" and "\<forall>a \<in> set as. mapping (kmemory s) pgdir a = None"
  shows "\<exists>r s' vs'. mappages_loop pgdir as pa perm s = Ok r s' \<and> pt_wf s' pgdir vs' \<and> (r = 0 \<or> r = -1 \<and> vs' = [] \<and> length vs < length as) \<and>
    (\<forall>w. vpn w \<notin> vpn ` set as \<longrightarrow> mapping (kmemory s') pgdir w = mapping (kmemory s) pgdir w) \<and>
    (\<forall>w. r = 0 \<longrightarrow> vpn w \<in> vpn ` set as \<longrightarrow> mapping (kmemory s') pgdir w = new_entry as pa perm w)"
  using assms
proof (induction as arbitrary: s vs pa)
  case Nil
  then show ?case by (auto simp: retK_def)
next
  case (Cons a as)
  from Cons.prems(1) show ?case
  proof (cases rule: walkpgdir_alloc [where va = a])
    case (full s')
    then show ?thesis by (intro exI [of _ "-1"] exI [of _ s'] exI [of _ "[]"]) (simp add: kdefs)
  next
    case (entry s1 vs1 t)
    have "mapping (kmemory s1) pgdir a = None" using Cons.prems(3) entry(6) by simp
    then have np: "\<not> present (load32 (kmemory s1) (slot t (ptx a)))" using entry(4,5) by (simp add: mapping_def Let_def split: if_splits)
    define s2 where "s2 = s1\<lparr>kmemory := store32 (kmemory s1) (slot t (ptx a)) (pa OR perm OR PTE_P)\<rparr>"
    note st = store_pte [OF entry(2,4,5) s2_def, folded vpn_def]
    have run: "mappages_loop pgdir (a # as) pa perm s = mappages_loop pgdir as (pa + PGSIZE) perm s2"
      using entry(1) np by (simp add: rd32_def wr32_def kdefs present_def s2_def)
    have m2: "mapping (kmemory s2) pgdir w = (if vpn w = vpn a then Some (pa OR perm OR PTE_P) else mapping (kmemory s) pgdir w)" for w
      using st(2) [of w] or_present entry(6) by simp
    have none: "\<forall>b \<in> set as. mapping (kmemory s2) pgdir b = None"
      using Cons.prems(2,3) by (auto simp: m2 image_iff)
    from Cons.IH [OF st(1) _ none, of "pa + PGSIZE"] Cons.prems(2) obtain r s' vs' where ih:
      "mappages_loop pgdir as (pa + PGSIZE) perm s2 = Ok r s'" "pt_wf s' pgdir vs'" "r = 0 \<or> r = -1 \<and> vs' = [] \<and> length vs1 < length as"
      "\<And>w. vpn w \<notin> vpn ` set as \<Longrightarrow> mapping (kmemory s') pgdir w = mapping (kmemory s2) pgdir w"
      "\<And>w. r = 0 \<Longrightarrow> vpn w \<in> vpn ` set as \<Longrightarrow> mapping (kmemory s') pgdir w = new_entry as (pa + PGSIZE) perm w" by auto
    have na: "vpn a \<notin> vpn ` set as" using Cons.prems(2) by simp
    have "mapping (kmemory s') pgdir w = mapping (kmemory s) pgdir w" if "vpn w \<notin> vpn ` set (a # as)" for w
      using that ih(4) [of w] m2 [of w] by simp
    moreover have "mapping (kmemory s') pgdir w = new_entry (a # as) pa perm w" if "r = 0" "vpn w \<in> vpn ` set (a # as)" for w
      using that(2) na ih(4) [of w] ih(5) [OF that(1), of w] m2 [of w] by (cases "vpn w = vpn a") auto
    moreover have "r = 0 \<or> r = -1 \<and> vs' = [] \<and> length vs < length (a # as)" using ih(3) entry(3) by auto
    ultimately show ?thesis using run ih(1,2) by (intro exI [of _ r] exI [of _ s'] exI [of _ vs']) simp
  qed
qed

lemma vpn_map_addrs:
  assumes "vpn a \<le> vpn z"
  shows "map_addrs (PGROUNDDOWN a) (PGROUNDDOWN z) = map (\<lambda>k. of_nat (k * 4096)) [vpn a..<vpn z + 1]"
proof -
  have r: "unat (PGROUNDDOWN x) = 4096 * vpn x" for x using unat_round [of x] by (simp add: PGROUNDDOWN_def PGSIZE_def vpn_def)
  have le: "PGROUNDDOWN a \<le> PGROUNDDOWN z" using assms by (simp add: word_le_nat_alt r)
  have n: "unat (PGROUNDDOWN z - PGROUNDDOWN a) div 4096 = vpn z - vpn a"
    using unat_sub [OF le] by (simp add: r flip: diff_mult_distrib2)
  have e: "PGROUNDDOWN a = of_nat (4096 * vpn a)" using r [of a] by (metis of_nat_unat ucast_id)
  show ?thesis
  proof (rule nth_equalityI)
    show "length (map_addrs (PGROUNDDOWN a) (PGROUNDDOWN z)) = length (map (\<lambda>k. of_nat (k * 4096) :: uint) [vpn a..<vpn z + 1])"
      using assms by (simp add: map_addrs_def n)
    fix i assume "i < length (map_addrs (PGROUNDDOWN a) (PGROUNDDOWN z))"
    then have "i < vpn z + 1 - vpn a" using assms by (simp add: map_addrs_def n)
    then show "map_addrs (PGROUNDDOWN a) (PGROUNDDOWN z) ! i = map (\<lambda>k. of_nat (k * 4096)) [vpn a..<vpn z + 1] ! i"
      unfolding map_addrs_def n by (simp add: e PGSIZE_def algebra_simps del: upt_Suc)
  qed
qed

lemma vpn_page: "k < 2 ^ 20 \<Longrightarrow> vpn (of_nat (k * 4096)) = k"
  using unat_of_nat [of "k * 4096", where 'a = 32] by (simp add: vpn_def del: of_nat_mult)

lemma vpn_bound: "vpn w < 2 ^ 20"
  using unsigned_less [of w, where 'a = nat] by (simp add: vpn_def less_mult_imp_div_less)

lemma new_entry_upt:
  assumes "i \<le> vpn w" and "vpn w < j" and "j \<le> 2 ^ 20"
  shows "new_entry (map (\<lambda>k. of_nat (k * 4096)) [i..<j]) pa perm w = Some ((pa + of_nat (vpn w - i) * PGSIZE) OR perm OR PTE_P)"
  using assms
proof (induction "vpn w - i" arbitrary: i pa)
  case 0
  then show ?case using vpn_page [of i] by (simp add: upt_conv_Cons)
next
  case (Suc n)
  then have n: "n = vpn w - Suc i" "Suc i \<le> vpn w" "i < j" "i < 2 ^ 20" by auto
  have "pa + PGSIZE + of_nat (vpn w - Suc i) * PGSIZE = pa + of_nat (vpn w - i) * PGSIZE"
    using Suc.hyps(2) n(1) by (metis (no_types, lifting) add.assoc add.commute mult_Suc of_nat_Suc distrib_right mult_1)
  moreover have "new_entry (map (\<lambda>k. of_nat (k * 4096)) [i..<j]) pa perm w = new_entry (map (\<lambda>k. of_nat (k * 4096)) [Suc i..<j]) (pa + PGSIZE) perm w"
    using vpn_page [OF n(4)] n(2,3) by (simp add: upt_conv_Cons)
  ultimately show ?case using Suc.hyps(1) [OF n(1,2) Suc.prems(2,3), of "pa + PGSIZE"] by (simp only:)
qed

text \<open>
  Mapping a range of pages that are not mapped yet. If there are at least as many free pages as pages to map,
  \<^verbatim>\<open>mappages\<close> succeeds, and then every page of the range has the entry of its physical page with the permissions asked
  for. Failure with -1 means that the allocator is empty. In either case every other page keeps its entry, whichever page
  tables had to be allocated, and the page tables and the free list stay disjoint.
\<close>

lemma mappages_correct:
  assumes "pt_wf s pgdir vs" and "vpn va \<le> vpn (va + len - 1)"
    and "\<And>w. vpn va \<le> vpn w \<Longrightarrow> vpn w \<le> vpn (va + len - 1) \<Longrightarrow> mapping (kmemory s) pgdir w = None"
  shows "\<exists>r s' vs'. mappages pgdir va len pa perm s = Ok r s' \<and> pt_wf s' pgdir vs' \<and>
    (r = 0 \<or> r = -1 \<and> vs' = [] \<and> length vs \<le> vpn (va + len - 1) - vpn va) \<and>
    (\<forall>w. \<not> (vpn va \<le> vpn w \<and> vpn w \<le> vpn (va + len - 1)) \<longrightarrow> mapping (kmemory s') pgdir w = mapping (kmemory s) pgdir w) \<and>
    (\<forall>w. r = 0 \<and> vpn va \<le> vpn w \<and> vpn w \<le> vpn (va + len - 1) \<longrightarrow>
      mapping (kmemory s') pgdir w = Some ((pa + of_nat (vpn w - vpn va) * PGSIZE) OR perm OR PTE_P))"
proof -
  let ?as = "map (\<lambda>k. of_nat (k * 4096) :: uint) [vpn va..<vpn (va + len - 1) + 1]"
  have vp: "vpn (of_nat (k * 4096)) = k" if "k \<in> set [vpn va..<vpn (va + len - 1) + 1]" for k
    using that vpn_bound [of "va + len - 1"] by (intro vpn_page) auto
  then have m: "map vpn ?as = [vpn va..<vpn (va + len - 1) + 1]" unfolding map_map by (intro map_idI) (simp only: comp_def)
  have rng: "x \<in> vpn ` set ?as \<longleftrightarrow> vpn va \<le> x \<and> x \<le> vpn (va + len - 1)" for x
    unfolding set_map [symmetric] m by auto
  have "\<forall>a \<in> set ?as. mapping (kmemory s) pgdir a = None" using assms(3) rng by blast
  from mappages_loop_effect [OF assms(1) _ this, of pa perm] m obtain r s' vs' where r:
    "mappages_loop pgdir ?as pa perm s = Ok r s'" "pt_wf s' pgdir vs'" "r = 0 \<or> r = -1 \<and> vs' = [] \<and> length vs < length ?as"
    "\<forall>w. vpn w \<notin> vpn ` set ?as \<longrightarrow> mapping (kmemory s') pgdir w = mapping (kmemory s) pgdir w"
    "\<forall>w. r = 0 \<longrightarrow> vpn w \<in> vpn ` set ?as \<longrightarrow> mapping (kmemory s') pgdir w = new_entry ?as pa perm w"
    by (metis distinct_upt)
  have "new_entry ?as pa perm w = Some ((pa + of_nat (vpn w - vpn va) * PGSIZE) OR perm OR PTE_P)"
    if "vpn va \<le> vpn w" "vpn w \<le> vpn (va + len - 1)" for w
    using that vpn_bound [of "va + len - 1"] by (intro new_entry_upt) auto
  moreover have "length ?as = Suc (vpn (va + len - 1) - vpn va)" using assms(2) by simp
  moreover from calculation(1) r(5) have "mapping (kmemory s') pgdir w = Some ((pa + of_nat (vpn w - vpn va) * PGSIZE) OR perm OR PTE_P)"
    if "r = 0 \<and> vpn va \<le> vpn w \<and> vpn w \<le> vpn (va + len - 1)" for w using that unfolding rng by metis
  ultimately show ?thesis using r(1-4) unfolding mappages_def vpn_map_addrs [OF assms(2)] rng
    by (intro exI [of _ r] exI [of _ s'] exI [of _ vs'] conjI) (simp_all only: less_Suc_eq_le refl simp_thms, blast)
qed

end
