(* ===== verification/Sysarg.thy ===== *)
theory Sysarg
  imports File Vm
begin

text \<open>
  The arguments of system calls: \<^verbatim>\<open>fetchint\<close>, \<^verbatim>\<open>fetchstr\<close>, \<^verbatim>\<open>argint\<close>, \<^verbatim>\<open>argptr\<close>
  and \<^verbatim>\<open>argstr\<close> of \<^verbatim>\<open>kernel/syscall.c\<close>. The lemmas show that what they let the kernel touch lies in the
  address space of the calling process, and that on a process whose memory is mapped they always return.

  The kernel reaches user memory through the page table of the running process: an access to an address that is not
  mapped is undefined. The state adds the kernel's global variables that system calls use.
\<close>

record sysst = filest +
  ticks :: uint
  cons_echo :: int
  encr_key :: int

definition curproc :: "('a sysst_scheme, proc) kfun" where
  "curproc = bindK myproc (\<lambda>i. getK (\<lambda>s. ptable s ! i))"

section \<open>User memory\<close>

text \<open>The kernel's address of the byte that a page directory maps at an address.\<close>

definition user_addr :: "memory \<Rightarrow> uint \<Rightarrow> uint \<Rightarrow> uint option" where
  "user_addr m pgdir a = (case mapping m pgdir a of None \<Rightarrow> None | Some e \<Rightarrow> Some (P2V (PTE_ADDR e) + a mod PGSIZE))"

lemma user_addr_Some: "mapping m pgdir a = Some e \<Longrightarrow> user_addr m pgdir a = Some (pgtab e + a mod PGSIZE)"
  by (simp add: user_addr_def pgtab_def)

definition uload :: "uint \<Rightarrow> ('a sysst_scheme, uchar) kfun" where
  "uload a =
     bindK curproc (\<lambda>p.
     bindK (getK kmemory) (\<lambda>m.
     case user_addr m (p_pgdir p) a of None \<Rightarrow> undefK | Some k \<Rightarrow> retK (m k)))"

definition ustore :: "uint \<Rightarrow> uchar \<Rightarrow> ('a sysst_scheme, unit) kfun" where
  "ustore a c =
     bindK curproc (\<lambda>p.
     bindK (getK kmemory) (\<lambda>m.
     case user_addr m (p_pgdir p) a of None \<Rightarrow> undefK | Some k \<Rightarrow> modK (\<lambda>s. s\<lparr>kmemory := m(k := c)\<rparr>)))"

fun ubytes :: "uint \<Rightarrow> nat \<Rightarrow> ('a sysst_scheme, uchar list) kfun" where
  "ubytes a 0 = retK []"
| "ubytes a (Suc n) =
     bindK (uload a) (\<lambda>c.
     bindK (ubytes (a + 1) n) (\<lambda>cs.
     retK (c # cs)))"

fun set_ubytes :: "uint \<Rightarrow> uchar list \<Rightarrow> ('a sysst_scheme, unit) kfun" where
  "set_ubytes a [] = retK ()"
| "set_ubytes a (c # cs) =
     thenK (ustore a c) (
     set_ubytes (a + 1) cs)"

text \<open>Words of 2 and 4 bytes, little endian.\<close>

definition le16 :: "ushort \<Rightarrow> uchar list" where
  "le16 v = [ucast v, ucast (drop_bit 8 v)]"

definition le32 :: "uint \<Rightarrow> uchar list" where
  "le32 v = [ucast v, ucast (drop_bit 8 v), ucast (drop_bit 16 v), ucast (drop_bit 24 v)]"

definition of_le32 :: "uchar list \<Rightarrow> uint" where
  "of_le32 bs = load32 (\<lambda>k. bs ! unat k) 0"

section \<open>Fetching arguments\<close>

definition fetchint :: "uint \<Rightarrow> ('a sysst_scheme, uint option) kfun" where
  "fetchint addr =
     bindK curproc (\<lambda>p.
     if addr \<ge> p_sz p \<or> addr + 4 > p_sz p then retK None else
     bindK (ubytes addr 4) (\<lambda>bs.
     retK (Some (of_le32 bs))))"

text \<open>The string, when it ends within \<open>n\<close> bytes.\<close>

fun fetchstr_loop :: "uint \<Rightarrow> nat \<Rightarrow> ('a sysst_scheme, uchar list option) kfun" where
  "fetchstr_loop a 0 = retK None"
| "fetchstr_loop a (Suc n) =
     bindK (uload a) (\<lambda>c.
     if c = 0 then retK (Some []) else
     bindK (fetchstr_loop (a + 1) n) (\<lambda>r.
     retK (map_option (\<lambda>cs. c # cs) r)))"

text \<open>The address and the bytes of the string; its length is what the C function returns.\<close>

definition fetchstr :: "uint \<Rightarrow> ('a sysst_scheme, (uint \<times> uchar list) option) kfun" where
  "fetchstr addr =
     bindK curproc (\<lambda>p.
     if addr \<ge> p_sz p then retK None else
     bindK (fetchstr_loop addr (unat (p_sz p - addr))) (\<lambda>r.
     retK (map_option (\<lambda>cs. (addr, cs)) r)))"

definition argint :: "nat \<Rightarrow> ('a sysst_scheme, uint option) kfun" where
  "argint n =
     bindK curproc (\<lambda>p.
     fetchint (tf_esp (p_tf p) + 4 + 4 * of_nat n))"

definition argptr :: "nat \<Rightarrow> int \<Rightarrow> ('a sysst_scheme, uint option) kfun" where
  "argptr n len =
     bindK (argint n) (\<lambda>r.
     case r of None \<Rightarrow> retK None | Some i \<Rightarrow>
     bindK curproc (\<lambda>p.
     if len < 0 \<or> i \<ge> p_sz p \<or> i + word_of_int len > p_sz p then retK None else
     retK (Some i)))"

definition argstr :: "nat \<Rightarrow> ('a sysst_scheme, (uint \<times> uchar list) option) kfun" where
  "argstr n =
     bindK (argint n) (\<lambda>r.
     case r of None \<Rightarrow> retK None | Some addr \<Rightarrow> fetchstr addr)"

section \<open>When they return\<close>

text \<open>The memory of the running process.\<close>

definition umem :: "'a sysst_scheme \<Rightarrow> uint \<Rightarrow> uchar option" where
  "umem s a = map_option (kmemory s) (user_addr (kmemory s) (p_pgdir (ptable s ! the (cur s))) a)"

text \<open>The size of the running process's memory, and whether a range of addresses lies in it.\<close>

definition my_sz :: "'a sysst_scheme \<Rightarrow> uint" where
  "my_sz s = p_sz (ptable s ! the (cur s))"

definition in_user :: "'a sysst_scheme \<Rightarrow> uint \<Rightarrow> nat \<Rightarrow> bool" where
  "in_user s a n \<longleftrightarrow> unat a + n \<le> unat (my_sz s)"

text \<open>A process whose memory lies below the kernel and is mapped.\<close>

definition user_mapped :: "'a sysst_scheme \<Rightarrow> bool" where
  "user_mapped s \<longleftrightarrow> running s \<and> my_sz s \<le> KERNBASE \<and> (\<forall>a < my_sz s. umem s a \<noteq> None)"

lemma curproc_Ok [kok]: "curproc s = Ok p s' \<longleftrightarrow> s' = s \<and> running s \<and> p = ptable s ! the (cur s)"
  by (auto simp: curproc_def kok running_def)

lemma uload_Ok [kok]: "uload a s = Ok c s' \<longleftrightarrow> s' = s \<and> running s \<and> umem s a = Some c"
  by (auto simp: uload_def kok umem_def split: option.splits)

lemma map_addr_Suc: "map (\<lambda>k. f (a + of_nat k)) [0..<Suc n] = f (a :: uint) # map (\<lambda>k. f (a + 1 + of_nat k)) [0..<n]"
  unfolding upt_conv_Cons [OF zero_less_Suc] map_Suc_upt [symmetric] by (simp add: algebra_simps)

lemma ubytes_Ok [kok]:
  "ubytes a n s = Ok bs s' \<longleftrightarrow> s' = s \<and> (0 < n \<longrightarrow> running s) \<and> map Some bs = map (\<lambda>k. umem s (a + of_nat k)) [0..<n]"
proof (induction n arbitrary: a bs)
  case (Suc n)
  have "ubytes a (Suc n) s = Ok bs s' \<longleftrightarrow> (\<exists>c cs. bs = c # cs \<and> running s \<and> umem s a = Some c \<and> ubytes (a + 1) n s = Ok cs s')"
    by (auto simp: kok)
  then show ?case unfolding Suc.IH map_addr_Suc by (cases bs) auto
qed (auto simp: kok)

lemma fetchstr_loop_Ok:
  assumes "fetchstr_loop a n s = Ok r s'"
  shows "s' = s \<and> (case r of None \<Rightarrow> \<forall>k < n. umem s (a + of_nat k) \<noteq> Some 0
    | Some str \<Rightarrow> length str < n \<and> 0 \<notin> set str \<and> map Some str @ [Some 0] = map (\<lambda>k. umem s (a + of_nat k)) [0..<Suc (length str)])"
  using assms
proof (induction n arbitrary: a r)
  case (Suc n)
  from Suc.prems obtain c where c: "umem s a = Some c"
    and r: "c = 0 \<and> s' = s \<and> r = Some [] \<or> c \<noteq> 0 \<and> (\<exists>q. fetchstr_loop (a + 1) n s = Ok q s' \<and> r = map_option (\<lambda>cs. c # cs) q)"
    by (auto simp: kok split: if_splits)
  show ?case
  proof (cases "c = 0")
    case True
    then show ?thesis using r c by simp
  next
    case False
    then obtain q where q: "fetchstr_loop (a + 1) n s = Ok q s'" "r = map_option (\<lambda>cs. c # cs) q" using r by blast
    note ih = Suc.IH [OF q(1)]
    show ?thesis
    proof (cases q)
      case None
      have "umem s (a + of_nat k) \<noteq> Some 0" if "k < Suc n" for k
        using that ih None c False by (cases k) (auto simp: algebra_simps)
      then show ?thesis using ih None q(2) by simp
    next
      case (Some str)
      show ?thesis using ih Some q(2) c False map_addr_Suc [of "umem s" a "Suc (length str)"] by (simp del: upt_Suc)
    qed
  qed
qed (simp add: kok)

lemma in_user_word:
  assumes "my_sz s \<le> KERNBASE" and "a < my_sz s" and "a + word_of_int len \<le> my_sz s" and "0 \<le> len" and "len < 2 ^ 31"
  shows "in_user s a (nat len)"
proof -
  have "unat (word_of_int len :: uint) = nat len"
    using assms(4,5) by (simp add: unsigned_of_int take_bit_int_eq_self)
  moreover have "unat a < 2 ^ 31" "unat (my_sz s) \<le> 2 ^ 31" using assms(1,2) by (simp_all add: word_le_nat_alt word_less_nat_alt KERNBASE_def)
  ultimately have "unat (a + word_of_int len) = unat a + nat len" using assms(4,5) by (subst unat_add_noovf) (simp_all add: nat_less_iff)
  then show ?thesis using assms(3) by (simp add: in_user_def word_le_nat_alt)
qed

text \<open>(C27) A pointer argument that \<^verbatim>\<open>argptr\<close> accepts points to a block that lies entirely in the memory of the
  calling process: neither the addition nor the comparison of addresses can be made to wrap around.\<close>

theorem argptr_in_bounds:
  assumes "argptr n len s = Ok (Some a) s'" and "my_sz s \<le> KERNBASE" and "len < 2 ^ 31"
  shows "s' = s \<and> in_user s a (nat len) \<and> in_user s (tf_esp (p_tf (ptable s ! the (cur s))) + 4 + 4 * of_nat n) 4"
proof -
  let ?b = "tf_esp (p_tf (ptable s ! the (cur s))) + 4 + 4 * of_nat n"
  have "\<not> ?b \<ge> my_sz s" "\<not> ?b + 4 > my_sz s" and a: "s' = s" "0 \<le> len" "a < my_sz s" "a + word_of_int len \<le> my_sz s"
    using assms(1) by (auto simp: argptr_def argint_def fetchint_def kok my_sz_def not_le not_less split: option.splits if_splits)
  then have "in_user s ?b (nat 4)" using assms(2) by (intro in_user_word) (simp_all add: not_le not_less)
  then show ?thesis using in_user_word [OF assms(2) a(3,4,2) assms(3)] a(1) by simp
qed

lemma uload_total: "user_mapped s \<Longrightarrow> a < my_sz s \<Longrightarrow> \<exists>c. uload a s = Ok c s"
  by (auto simp: user_mapped_def kok)

lemma in_user_Suc:
  assumes "in_user s a (Suc n)"
  shows "a < my_sz s" "in_user s (a + 1) n"
proof -
  show "a < my_sz s" using assms by (simp add: in_user_def word_less_nat_alt)
  then have "unat (a + 1) = unat a + 1" using unat_lt_2p32 [of "my_sz s"] unat_add_noovf [of a 1] by (simp add: word_less_nat_alt)
  then show "in_user s (a + 1) n" using assms by (simp add: in_user_def)
qed

lemma ubytes_total: "user_mapped s \<Longrightarrow> in_user s a n \<Longrightarrow> \<exists>bs. ubytes a n s = Ok bs s"
proof (induction n arbitrary: a)
  case (Suc n)
  note in_user_Suc [OF Suc.prems(2)]
  then obtain c cs where "uload a s = Ok c s" "ubytes (a + 1) n s = Ok cs s" using Suc uload_total by blast
  then show ?case by (simp add: kdefs)
qed (simp add: kdefs)

lemma fetchstr_loop_total: "user_mapped s \<Longrightarrow> in_user s a n \<Longrightarrow> \<exists>r. fetchstr_loop a n s = Ok r s"
proof (induction n arbitrary: a)
  case (Suc n)
  note in_user_Suc [OF Suc.prems(2)]
  then obtain c cs where "uload a s = Ok c s" "fetchstr_loop (a + 1) n s = Ok cs s" using Suc uload_total by blast
  then show ?case by (simp add: kdefs)
qed (simp add: kdefs)

lemma fetchint_total:
  assumes "user_mapped s"
  shows "\<exists>r. fetchint a s = Ok r s"
proof (cases "a \<ge> my_sz s \<or> a + 4 > my_sz s")
  case True
  then show ?thesis using assms by (auto simp: fetchint_def kok user_mapped_def my_sz_def)
next
  case False
  then have "in_user s a (nat 4)" using assms by (intro in_user_word) (simp_all add: user_mapped_def not_le not_less)
  then obtain bs where "ubytes a 4 s = Ok bs s" using ubytes_total assms by fastforce
  then show ?thesis using assms False unfolding fetchint_def
    by (intro exI [of _ "Some (of_le32 bs)"]) (auto simp: bindK_Ok curproc_Ok retK_Ok user_mapped_def my_sz_def)
qed

text \<open>On a process whose memory is mapped \<^verbatim>\<open>fetchstr\<close> returns. The string it returns ends, with its
  terminating zero, inside the memory of the process, and it fails exactly when there is no such zero.\<close>

lemma fetchstr_terminated:
  assumes "user_mapped s"
  shows "\<exists>r. fetchstr addr s = Ok r s \<and> (case r of
      None \<Rightarrow> \<forall>k. unat addr + k < unat (my_sz s) \<longrightarrow> umem s (addr + of_nat k) \<noteq> Some 0
    | Some (a, str) \<Rightarrow> a = addr \<and> in_user s addr (length str + 1) \<and> 0 \<notin> set str \<and>
        map Some (str @ [0]) = map (\<lambda>k. umem s (addr + of_nat k)) [0..<length str + 1])"
proof (cases "addr \<ge> my_sz s")
  case True
  then show ?thesis using assms by (intro exI [of _ None]) (auto simp: fetchstr_def kok user_mapped_def my_sz_def word_le_nat_alt)
next
  case False
  let ?n = "unat (my_sz s - addr)"
  have n: "unat addr + ?n = unat (my_sz s)" using False by (simp add: unat_sub word_le_nat_alt)
  then have "in_user s addr ?n" by (simp add: in_user_def)
  then obtain r where r: "fetchstr_loop addr ?n s = Ok r s" using fetchstr_loop_total assms by blast
  have "fetchstr addr s = Ok (map_option (\<lambda>cs. (addr, cs)) r) s"
    using r False assms unfolding fetchstr_def by (auto simp: kok user_mapped_def my_sz_def)
  then show ?thesis using fetchstr_loop_Ok [OF r] n
    by (intro exI [of _ "map_option (\<lambda>cs. (addr, cs)) r"]) (auto simp: in_user_def simp del: upt_Suc split: option.splits)
qed

section \<open>Examples\<close>

text \<open>
  A process with 64 bytes of memory: its stack pointer is 16, its first argument is 32, and a string is at 32. The page
  directory, the page table and the page are at three consecutive pages.
\<close>

definition one_page :: "memory \<Rightarrow> memory" where
  "one_page m = store32 (store32 (\<lambda>a. if in_page a 0x80103000 then m (a - 0x80103000) else 0) 0x80102000 0x103007) 0x80101000 0x102007"

definition sys_one :: sysst where
  "sys_one = filest.extend (file_one\<lparr>klocks := [], kmemory := one_page ((\<lambda>_. 0)(20 := 32, 32 := 104, 33 := 105)),
       ptable := [zero_proc\<lparr>p_pid := 1, p_state := RUNNING, p_sz := 64, p_pgdir := 0x80101000, p_tf := zero_tf\<lparr>tf_esp := 16\<rparr>\<rparr>]\<rparr>)
     (sysst.fields 0 1 (-1))"

lemma sys_one_simps [simp]: "klocks sys_one = []" "cur sys_one = Some 0" "running sys_one" "my_sz sys_one = 64"
   "ptable sys_one = [zero_proc\<lparr>p_pid := 1, p_state := RUNNING, p_sz := 64, p_pgdir := 0x80101000, p_tf := zero_tf\<lparr>tf_esp := 16\<rparr>\<rparr>]"
   "kmemory sys_one = one_page ((\<lambda>_. 0)(20 := 32, 32 := 104, 33 := 105))"
  by (simp_all add: sys_one_def filest.extend_def sysst.fields_def file_one_def kmst.extend_def filest.fields_def km_boot_def
      fsst.extend_def kmst.fields_def fs_one_def running_def my_sz_def)

lemma one_page_mapping:
  assumes "a < 4096"
  shows "mapping (one_page m) 0x80101000 a = Some 0x103007"
proof -
  have "unat a < 4096" using assms by (simp add: word_less_nat_alt)
  then have "pdx a = 0" "ptx a = 0" by (simp_all add: pdx_def ptx_def)
  moreover have "load32 (one_page m) 0x80101000 = 0x102007" by (simp add: one_page_def)
  moreover have "load32 (one_page m) 0x80102000 = 0x103007"
    using slot_store [of "0x80101000" "0x80102000" 0 0] by (simp add: one_page_def slot_def page_aligned_def PGSIZE_def)
  ultimately show ?thesis
    by (simp add: mapping_def slot_def present_def pgtab_def PTE_P_def PTE_ADDR_def P2V_def KERNBASE_def Let_def)
qed

lemma one_page_umem:
  assumes "kmemory s = one_page m" "p_pgdir (ptable s ! the (cur s)) = 0x80101000" "a < 4096"
  shows "umem s a = Some (m a)"
proof -
  have "a mod 4096 = a" using assms(3) by (simp add: word_unat_eq_iff unat_mod word_less_nat_alt)
  then have "user_addr (one_page m) 0x80101000 a = Some (0x80103000 + a)"
    using one_page_mapping [OF assms(3)] by (simp add: user_addr_def PTE_ADDR_def P2V_def KERNBASE_def PGSIZE_def)
  moreover have p: "in_page (0x80103000 + a) 0x80103000" using assms(3) by (simp add: in_page_def word_less_nat_alt)
  moreover have "\<not> in_page (0x80103000 + a) 0x80101000" "\<not> in_page (0x80103000 + a) 0x80102000"
    using page_disjoint [OF _ _ p, of "0x80101000"] page_disjoint [OF _ _ p, of "0x80102000"] by (auto simp: page_aligned_def PGSIZE_def)
  then have "one_page m (0x80103000 + a) = m a" using p by (simp add: one_page_def store32_other)
  ultimately show ?thesis using assms(1,2) by (simp add: umem_def)
qed

lemma user_mapped_one: "user_mapped sys_one"
proof -
  have "umem sys_one a \<noteq> None" if "a < 64" for a :: uint using that order_less_trans [of a 64 4096] by (simp add: one_page_umem [of sys_one])
  then show ?thesis by (simp add: user_mapped_def KERNBASE_def)
qed

theorem argptr_in_bounds_witness:
  "argptr 0 8 sys_one = Ok (Some 32) sys_one \<and> in_user sys_one 32 8"
proof -
  have "ubytes 20 4 sys_one = Ok [32, 0, 0, 0] sys_one" unfolding ubytes_Ok by (simp add: one_page_umem [of sys_one] upt_rec)
  then have "argptr 0 8 sys_one = Ok (Some 32) sys_one" by (simp add: argptr_def argint_def fetchint_def curproc_def myproc_def kdefs of_le32_def load32_def)
  then show ?thesis using argptr_in_bounds [of 0 8 sys_one 32 sys_one] by (simp add: KERNBASE_def)
qed

end
