(* ===== verification/Sysfile.thy ===== *)
theory Sysfile
  imports Sysarg
begin

text \<open>
  The file system calls of \<^verbatim>\<open>kernel/sysfile.c\<close>, with the encryption of files that this kernel adds to xv6:
  \<^verbatim>\<open>sys_read\<close> and \<^verbatim>\<open>sys_write\<close> transform the caller's buffer, \<^verbatim>\<open>sys_encr\<close> and
  \<^verbatim>\<open>sys_decr\<close> transform a file in place. (\<^verbatim>\<open>sys_exec\<close> is with \<^verbatim>\<open>exec\<close>.)
\<close>

section \<open>Descriptors\<close>

definition argfd :: "nat \<Rightarrow> ('a sysst_scheme, (nat \<times> nat) option) kfun" where
  "argfd n =
     bindK (argint n) (\<lambda>r.
     case r of None \<Rightarrow> retK None | Some v \<Rightarrow>
     let fd = sint v in
     if fd < 0 \<or> fd \<ge> int NOFILE then retK None else
     bindK curproc (\<lambda>p.
     case p_ofile p ! nat fd of
       None \<Rightarrow> retK None
     | Some f \<Rightarrow> retK (Some (nat fd, f))))"

definition set_ofile :: "nat \<Rightarrow> nat option \<Rightarrow> ('a sysst_scheme, unit) kfun" where
  "set_ofile fd f = bindK myproc (\<lambda>i. upd_proc i (\<lambda>p. p\<lparr>p_ofile := (p_ofile p)[fd := f]\<rparr>))"

definition fdalloc :: "nat \<Rightarrow> ('a sysst_scheme, nat option) kfun" where
  "fdalloc f =
     bindK curproc (\<lambda>p.
     case find_index (\<lambda>x. x = None) (p_ofile p) of
       None \<Rightarrow> retK None
     | Some fd \<Rightarrow> thenK (set_ofile fd (Some f)) (retK (Some fd)))"

definition sys_dup :: "('a sysst_scheme, int) kfun" where
  "sys_dup =
     bindK (argfd 0) (\<lambda>r.
     case r of None \<Rightarrow> retK (-1) | Some (_, f) \<Rightarrow>
     bindK (fdalloc f) (\<lambda>r.
     case r of None \<Rightarrow> retK (-1) | Some fd \<Rightarrow>
     thenK (filedup f) (
     retK (int fd))))"

section \<open>The cipher\<close>

text \<open>
  One byte of the encryption and of the decryption. The operands are \<^verbatim>\<open>int\<close>s, the byte is a signed
  \<^verbatim>\<open>char\<close>, and the result is cut off to a \<^verbatim>\<open>char\<close> again.
\<close>

definition encr_byte :: "int \<Rightarrow> uchar \<Rightarrow> uchar" where
  "encr_byte key c = word_of_int (c_mod (sint c + key) 128)"

definition decr_byte :: "int \<Rightarrow> uchar \<Rightarrow> uchar" where
  "decr_byte key c = word_of_int (c_mod (sint c - key + 128) 128)"

section \<open>Reading and writing\<close>

text \<open>The arguments that \<^verbatim>\<open>sys_read\<close> and \<^verbatim>\<open>sys_write\<close> check, in the order of the checks.\<close>

definition rw_args :: "('a sysst_scheme, (nat \<times> int \<times> uint \<times> stat) option) kfun" where
  "rw_args =
     bindK (argfd 0) (\<lambda>r. case r of None \<Rightarrow> retK None | Some (_, f) \<Rightarrow>
     bindK (argint 2) (\<lambda>r. case r of None \<Rightarrow> retK None | Some v \<Rightarrow>
     let n = sint v in
     bindK (argptr 1 n) (\<lambda>r. case r of None \<Rightarrow> retK None | Some p \<Rightarrow>
     bindK (filestat f) (\<lambda>r. case r of None \<Rightarrow> retK None | Some st \<Rightarrow>
     retK (Some (f, n, p, st))))))"

text \<open>\<^verbatim>\<open>(f->ip)->major\<close>.\<close>

definition file_major :: "nat \<Rightarrow> ('a sysst_scheme, int) kfun" where
  "file_major f =
     bindK (getK (\<lambda>s. f_ip (ftable s ! f))) (\<lambda>r.
     case r of None \<Rightarrow> undefK | Some ip \<Rightarrow> getK (\<lambda>s. sint (i_major (icache s ! ip))))"

definition map_ubytes :: "(uchar \<Rightarrow> uchar) \<Rightarrow> uint \<Rightarrow> int \<Rightarrow> ('a sysst_scheme, unit) kfun" where
  "map_ubytes g p n =
     bindK (ubytes p (nat n)) (\<lambda>bs.
     set_ubytes p (map g bs))"

definition sys_read :: "(int \<Rightarrow> 'a sysst_scheme devsw) \<Rightarrow> ('a sysst_scheme, int) kfun" where
  "sys_read devsw =
     bindK rw_args (\<lambda>r. case r of None \<Rightarrow> retK (-1) | Some (f, n, p, st) \<Rightarrow>
     bindK (fileread devsw f n) (\<lambda>(n, bs).
     thenK (set_ubytes p bs) (
     bindK (file_major f) (\<lambda>major.
     bindK (getK encr_key) (\<lambda>key.
     thenK (whenK (major = 1 \<and> st_type st = T_FILE \<and> key \<ge> 0) (map_ubytes (decr_byte key) p n)) (
     retK n))))))"

definition sys_write :: "(int \<Rightarrow> 'a sysst_scheme devsw) \<Rightarrow> ('a sysst_scheme, int) kfun" where
  "sys_write devsw =
     bindK rw_args (\<lambda>r. case r of None \<Rightarrow> retK (-1) | Some (f, n, p, st) \<Rightarrow>
     bindK (ubytes p (nat n)) (\<lambda>bs.
     bindK (filewrite devsw f bs n) (\<lambda>n.
     bindK (file_major f) (\<lambda>major.
     bindK (getK encr_key) (\<lambda>key.
     thenK (whenK (major = 0 \<and> st_type st = T_FILE \<and> key \<ge> 0) (map_ubytes (encr_byte key) p n)) (
     retK n))))))"

definition sys_close :: "('a sysst_scheme, int) kfun" where
  "sys_close =
     bindK (argfd 0) (\<lambda>r. case r of None \<Rightarrow> retK (-1) | Some (fd, f) \<Rightarrow>
     thenK (set_ofile fd None) (
     thenK (fileclose f) (
     retK 0)))"

text \<open>The fields of \<^verbatim>\<open>struct stat\<close> in memory, with the padding that aligns them.\<close>

definition stat_bytes :: "stat \<Rightarrow> (nat \<times> uchar list) list" where
  "stat_bytes st =
     [(0, le16 (st_type st)), (4, le32 (st_dev st)), (8, le32 (st_ino st)), (12, le16 (st_nlink st)), (16, le32 (st_size st))]"

definition sys_fstat :: "('a sysst_scheme, int) kfun" where
  "sys_fstat =
     bindK (argfd 0) (\<lambda>r. case r of None \<Rightarrow> retK (-1) | Some (_, f) \<Rightarrow>
     bindK (argptr 1 20) (\<lambda>r. case r of None \<Rightarrow> retK (-1) | Some a \<Rightarrow>
     bindK (filestat f) (\<lambda>r. case r of None \<Rightarrow> retK (-1) | Some st \<Rightarrow>
     thenK (forK (stat_bytes st) (\<lambda>(off, bs). set_ubytes (a + of_nat off) bs)) (
     retK 0))))"

section \<open>Links\<close>

definition end_with :: "int \<Rightarrow> ('a sysst_scheme, int) kfun" where
  "end_with r = thenK end_op (retK r)"

text \<open>The label \<^verbatim>\<open>bad\<close> of \<^verbatim>\<open>sys_link\<close>.\<close>

definition sys_link_bad :: "nat \<Rightarrow> ('a sysst_scheme, int) kfun" where
  "sys_link_bad ip =
     thenK (ilock ip) (
     thenK (upd_inode ip (\<lambda>x. x\<lparr>i_nlink := i_nlink x - 1\<rparr>)) (
     thenK (iupdate ip) (
     thenK (iunlockput ip) (
     end_with (-1)))))"

definition sys_link :: "(int \<Rightarrow> 'a sysst_scheme devsw) \<Rightarrow> ('a sysst_scheme, int) kfun" where
  "sys_link devsw =
     bindK (argstr 0) (\<lambda>r. case r of None \<Rightarrow> retK (-1) | Some (_, old) \<Rightarrow>
     bindK (argstr 1) (\<lambda>r. case r of None \<Rightarrow> retK (-1) | Some (_, new) \<Rightarrow>
     thenK begin_op (
     bindK (namei devsw old) (\<lambda>r. case r of None \<Rightarrow> end_with (-1) | Some ip \<Rightarrow>
     thenK (ilock ip) (
     bindK (iat ip) (\<lambda>x.
     if i_type x = T_DIR then
       thenK (iunlockput ip) (end_with (-1))
     else
     thenK (upd_inode ip (\<lambda>x. x\<lparr>i_nlink := i_nlink x + 1\<rparr>)) (
     thenK (iupdate ip) (
     thenK (iunlock ip) (
     bindK (nameiparent devsw new) (\<lambda>(r, name). case r of None \<Rightarrow> sys_link_bad ip | Some dp \<Rightarrow>
     thenK (ilock dp) (
     bindK (iat dp) (\<lambda>d.
     bindK (iat ip) (\<lambda>x.
     bindK (if i_dev d \<noteq> i_dev x then retK (-1) else dirlink devsw dp name (i_inum x)) (\<lambda>r.
     if r < 0 then
       thenK (iunlockput dp) (sys_link_bad ip)
     else
       thenK (iunlockput dp) (
       thenK (iput ip) (
       end_with 0))))))))))))))))"

text \<open>The offsets of the entries after \<^verbatim>\<open>.\<close> and \<^verbatim>\<open>..\<close>.\<close>

fun isdirempty_loop :: "(int \<Rightarrow> 'a sysst_scheme devsw) \<Rightarrow> nat \<Rightarrow> uint list \<Rightarrow> ('a sysst_scheme, bool) kfun" where
  "isdirempty_loop devsw dp [] = retK True"
| "isdirempty_loop devsw dp (off # offs) =
     bindK (readi devsw dp off 16) (\<lambda>(n, bs).
     if n \<noteq> 16 then panic ''isdirempty: readi'' else
     if de_inum (get_dirent bs) \<noteq> 0 then retK False else
     isdirempty_loop devsw dp offs)"

definition isdirempty :: "(int \<Rightarrow> 'a sysst_scheme devsw) \<Rightarrow> nat \<Rightarrow> ('a sysst_scheme, bool) kfun" where
  "isdirempty devsw dp =
     bindK (iat dp) (\<lambda>x.
     isdirempty_loop devsw dp (drop 2 (de_offsets (i_size x))))"

definition sys_unlink_bad :: "nat \<Rightarrow> ('a sysst_scheme, int) kfun" where
  "sys_unlink_bad dp = thenK (iunlockput dp) (end_with (-1))"

definition sys_unlink :: "(int \<Rightarrow> 'a sysst_scheme devsw) \<Rightarrow> ('a sysst_scheme, int) kfun" where
  "sys_unlink devsw =
     bindK (argstr 0) (\<lambda>r. case r of None \<Rightarrow> retK (-1) | Some (_, path) \<Rightarrow>
     thenK begin_op (
     bindK (nameiparent devsw path) (\<lambda>(r, name). case r of None \<Rightarrow> end_with (-1) | Some dp \<Rightarrow>
     thenK (ilock dp) (
     if namecmp name [46] = 0 \<or> namecmp name [46, 46] = 0 then sys_unlink_bad dp else
     bindK (dirlookup devsw dp name) (\<lambda>r. case r of None \<Rightarrow> sys_unlink_bad dp | Some (ip, off) \<Rightarrow>
     thenK (ilock ip) (
     bindK (iat ip) (\<lambda>x.
     if sint (i_nlink x) < 1 then panic ''unlink: nlink < 1'' else
     bindK (if i_type x = T_DIR then isdirempty devsw ip else retK True) (\<lambda>empty.
     if \<not> empty then
       thenK (iunlockput ip) (sys_unlink_bad dp)
     else
     bindK (writei devsw dp (replicate 16 0) off 16) (\<lambda>n.
     if n \<noteq> 16 then panic ''unlink: writei'' else
     thenK (whenK (i_type x = T_DIR) (
       thenK (upd_inode dp (\<lambda>x. x\<lparr>i_nlink := i_nlink x - 1\<rparr>)) (
       iupdate dp))) (
     thenK (iunlockput dp) (
     thenK (upd_inode ip (\<lambda>x. x\<lparr>i_nlink := i_nlink x - 1\<rparr>)) (
     thenK (iupdate ip) (
     thenK (iunlockput ip) (
     end_with 0))))))))))))))"

section \<open>Creating and opening\<close>

text \<open>\<^verbatim>\<open>create\<close> returns the inode locked.\<close>

definition create :: "(int \<Rightarrow> 'a sysst_scheme devsw) \<Rightarrow> uchar list \<Rightarrow> ushort \<Rightarrow> ushort \<Rightarrow> ushort \<Rightarrow> ('a sysst_scheme, nat option) kfun" where
  "create devsw path type major minor =
     bindK (nameiparent devsw path) (\<lambda>(r, name). case r of None \<Rightarrow> retK None | Some dp \<Rightarrow>
     thenK (ilock dp) (
     bindK (dirlookup devsw dp name) (\<lambda>r. case r of
       Some (ip, _) \<Rightarrow>
         thenK (iunlockput dp) (
         thenK (ilock ip) (
         bindK (iat ip) (\<lambda>x.
         if (type = T_FILE \<and> i_type x = T_FILE) \<or> i_type x = T_DEV then retK (Some ip) else
         thenK (iunlockput ip) (
         retK None))))
     | None \<Rightarrow>
         bindK (iat dp) (\<lambda>d.
         bindK (ialloc (i_dev d) type) (\<lambda>ip.
         thenK (ilock ip) (
         thenK (upd_inode ip (\<lambda>x. x\<lparr>i_major := major, i_minor := minor, i_nlink := 1\<rparr>)) (
         thenK (iupdate ip) (
         bindK (iat ip) (\<lambda>x.
         thenK (whenK (type = T_DIR) (
           thenK (upd_inode dp (\<lambda>x. x\<lparr>i_nlink := i_nlink x + 1\<rparr>)) (
           thenK (iupdate dp) (
           bindK (dirlink devsw ip [46] (i_inum x)) (\<lambda>r.
           if r < 0 then panic ''create dots'' else
           bindK (dirlink devsw ip [46, 46] (i_inum d)) (\<lambda>r.
           if r < 0 then panic ''create dots'' else retK ())))))) (
         bindK (dirlink devsw dp name (i_inum x)) (\<lambda>r.
         if r < 0 then panic ''create: dirlink'' else
         thenK (iunlockput dp) (
         retK (Some ip)))))))))))))"

definition O_RDONLY :: uint where "O_RDONLY = 0x000"
definition O_WRONLY :: uint where "O_WRONLY = 0x001"
definition O_RDWR :: uint where "O_RDWR = 0x002"
definition O_CREATE :: uint where "O_CREATE = 0x200"

text \<open>The part of \<^verbatim>\<open>sys_open\<close> after the inode is found and locked.\<close>

definition sys_open_file :: "nat \<Rightarrow> uint \<Rightarrow> ('a sysst_scheme, int) kfun" where
  "sys_open_file ip omode =
     bindK filealloc (\<lambda>fr.
     bindK (case fr of None \<Rightarrow> retK None | Some f \<Rightarrow> fdalloc f) (\<lambda>dr.
     case (fr, dr) of
       (Some f, Some fd) \<Rightarrow>
         thenK (iunlock ip) (
         thenK end_op (
         thenK (upd_file f (\<lambda>x. x\<lparr>f_type := FD_INODE, f_ip := Some ip, f_off := 0,
                  f_readable := (omode AND O_WRONLY = 0),
                  f_writable := (omode AND O_WRONLY \<noteq> 0 \<or> omode AND O_RDWR \<noteq> 0)\<rparr>)) (
         retK (int fd))))
     | _ \<Rightarrow>
         thenK (case fr of None \<Rightarrow> retK () | Some f \<Rightarrow> fileclose f) (
         thenK (iunlockput ip) (
         end_with (-1)))))"

definition sys_open :: "(int \<Rightarrow> 'a sysst_scheme devsw) \<Rightarrow> ('a sysst_scheme, int) kfun" where
  "sys_open devsw =
     bindK (argstr 0) (\<lambda>r. case r of None \<Rightarrow> retK (-1) | Some (_, path) \<Rightarrow>
     bindK (argint 1) (\<lambda>r. case r of None \<Rightarrow> retK (-1) | Some omode \<Rightarrow>
     thenK begin_op (
     if omode AND O_CREATE \<noteq> 0 then
       bindK (create devsw path T_FILE 0 0) (\<lambda>r. case r of
         None \<Rightarrow> end_with (-1)
       | Some ip \<Rightarrow> sys_open_file ip omode)
     else
       bindK (namei devsw path) (\<lambda>r. case r of
         None \<Rightarrow> end_with (-1)
       | Some ip \<Rightarrow>
           thenK (ilock ip) (
           bindK (iat ip) (\<lambda>x.
           if i_type x = T_DIR \<and> omode \<noteq> O_RDONLY then
             thenK (iunlockput ip) (end_with (-1))
           else sys_open_file ip omode))))))"

definition sys_mkdir :: "(int \<Rightarrow> 'a sysst_scheme devsw) \<Rightarrow> ('a sysst_scheme, int) kfun" where
  "sys_mkdir devsw =
     thenK begin_op (
     bindK (argstr 0) (\<lambda>r. case r of None \<Rightarrow> end_with (-1) | Some (_, path) \<Rightarrow>
     bindK (create devsw path T_DIR 0 0) (\<lambda>r. case r of None \<Rightarrow> end_with (-1) | Some ip \<Rightarrow>
     thenK (iunlockput ip) (
     end_with 0))))"

definition sys_mknod :: "(int \<Rightarrow> 'a sysst_scheme devsw) \<Rightarrow> ('a sysst_scheme, int) kfun" where
  "sys_mknod devsw =
     thenK begin_op (
     bindK (argstr 0) (\<lambda>r. case r of None \<Rightarrow> end_with (-1) | Some (_, path) \<Rightarrow>
     bindK (argint 1) (\<lambda>r. case r of None \<Rightarrow> end_with (-1) | Some major \<Rightarrow>
     bindK (argint 2) (\<lambda>r. case r of None \<Rightarrow> end_with (-1) | Some minor \<Rightarrow>
     bindK (create devsw path T_DEV (ucast major) (ucast minor)) (\<lambda>r. case r of None \<Rightarrow> end_with (-1) | Some ip \<Rightarrow>
     thenK (iunlockput ip) (
     end_with 0))))))"

definition sys_chdir :: "(int \<Rightarrow> 'a sysst_scheme devsw) \<Rightarrow> ('a sysst_scheme, int) kfun" where
  "sys_chdir devsw =
     bindK myproc (\<lambda>i.
     thenK begin_op (
     bindK (argstr 0) (\<lambda>r. case r of None \<Rightarrow> end_with (-1) | Some (_, path) \<Rightarrow>
     bindK (namei devsw path) (\<lambda>r. case r of None \<Rightarrow> end_with (-1) | Some ip \<Rightarrow>
     thenK (ilock ip) (
     bindK (iat ip) (\<lambda>x.
     if i_type x \<noteq> T_DIR then
       thenK (iunlockput ip) (end_with (-1))
     else
     thenK (iunlock ip) (
     bindK (getK (\<lambda>s. p_cwd (ptable s ! i))) (\<lambda>cwd. case cwd of None \<Rightarrow> undefK | Some old \<Rightarrow>
     thenK (iput old) (
     thenK end_op (
     thenK (upd_proc i (\<lambda>p. p\<lparr>p_cwd := Some ip\<rparr>)) (
     retK 0)))))))))))"

definition sys_pipe :: "('a sysst_scheme, int) kfun" where
  "sys_pipe =
     bindK (argptr 0 8) (\<lambda>r. case r of None \<Rightarrow> retK (-1) | Some a \<Rightarrow>
     bindK pipealloc (\<lambda>r. case r of None \<Rightarrow> retK (-1) | Some (rf, wr) \<Rightarrow>
     bindK (fdalloc rf) (\<lambda>d0.
     bindK (case d0 of None \<Rightarrow> retK None | Some _ \<Rightarrow> fdalloc wr) (\<lambda>d1.
     case (d0, d1) of
       (Some fd0, Some fd1) \<Rightarrow>
         thenK (set_ubytes a (le32 (of_nat fd0))) (
         thenK (set_ubytes (a + 4) (le32 (of_nat fd1))) (
         retK 0))
     | _ \<Rightarrow>
         thenK (case d0 of None \<Rightarrow> retK () | Some fd0 \<Rightarrow> set_ofile fd0 None) (
         thenK (fileclose rf) (
         thenK (fileclose wr) (
         retK (-1))))))))"

section \<open>Encrypting files\<close>

text \<open>
  The common loop of \<^verbatim>\<open>sys_encr\<close> and \<^verbatim>\<open>sys_decr\<close>, with the byte function \<open>g\<close>. It ends when
  \<^verbatim>\<open>readi\<close> returns no byte; on a file each turn but the last moves the offset by 512, so
  \<open>crypt_fuel\<close> turns are enough. \<open>False\<close> is a loop that has not ended within its fuel, as on a device that never runs dry.
\<close>

definition blocks_per_transaction :: nat where "blocks_per_transaction = 10"

fun crypt_loop :: "(uchar \<Rightarrow> uchar) \<Rightarrow> (int \<Rightarrow> 'a sysst_scheme devsw) \<Rightarrow> nat \<Rightarrow> nat \<Rightarrow> nat \<Rightarrow> nat \<Rightarrow> ('a sysst_scheme, bool) kfun" where
  "crypt_loop g devsw f ip block_count 0 = retK False"
| "crypt_loop g devsw f ip block_count (Suc fuel) =
     bindK (getK (\<lambda>s. f_off (ftable s ! f))) (\<lambda>off.
     bindK (readi devsw ip off 512) (\<lambda>(n, buf).
     if n \<le> 0 then retK True else
     bindK (writei devsw ip (map g buf) off (word_of_int n)) (\<lambda>_.
     thenK (upd_file f (\<lambda>x. x\<lparr>f_off := f_off x + word_of_int n\<rparr>)) (
     if block_count + 1 \<ge> blocks_per_transaction then
       thenK (iunlock ip) (
       thenK end_op (
       thenK begin_op (
       thenK (ilock ip) (
       crypt_loop g devsw f ip 0 fuel))))
     else crypt_loop g devsw f ip (block_count + 1) fuel))))"

definition crypt_fuel :: nat where
  "crypt_fuel = MAXFILE + 2"

definition crypt_file :: "(uchar \<Rightarrow> uchar) \<Rightarrow> ushort \<Rightarrow> (int \<Rightarrow> 'a sysst_scheme devsw) \<Rightarrow> nat \<Rightarrow> nat \<Rightarrow> ('a sysst_scheme, int option) kfun" where
  "crypt_file g major devsw f ip =
     thenK begin_op (
     thenK (ilock ip) (
     bindK (crypt_loop g devsw f ip 0 crypt_fuel) (\<lambda>done.
     if \<not> done then retK None else
     thenK (upd_inode ip (\<lambda>x. x\<lparr>i_major := major\<rparr>)) (
     thenK (iupdate ip) (
     thenK (iunlockput ip) (
     thenK end_op (
     retK (Some 0))))))))"

text \<open>
  \<^verbatim>\<open>f->type == T_DEV\<close> compares an enumeration of three values with 3 and never holds. A pipe has no inode: its
  \<^verbatim>\<open>f->ip\<close> is whatever the table entry held before, here \<open>f_ip\<close>.
\<close>

definition sys_decr :: "(int \<Rightarrow> 'a sysst_scheme devsw) \<Rightarrow> ('a sysst_scheme, int option) kfun" where
  "sys_decr devsw =
     bindK (argfd 0) (\<lambda>r. case r of None \<Rightarrow> retK (Some (-1)) | Some (_, f) \<Rightarrow>
     bindK (getK encr_key) (\<lambda>key.
     if key = -1 then retK (Some (-1)) else
     bindK (file_major f) (\<lambda>major.
     if major = 0 then retK (Some (-3)) else
     bindK (getK (\<lambda>s. f_ip (ftable s ! f))) (\<lambda>ipr. case ipr of None \<Rightarrow> undefK | Some ip \<Rightarrow>
     crypt_file (decr_byte key) 0 devsw f ip))))"

definition sys_encr :: "(int \<Rightarrow> 'a sysst_scheme devsw) \<Rightarrow> ('a sysst_scheme, int option) kfun" where
  "sys_encr devsw =
     bindK (argfd 0) (\<lambda>r. case r of None \<Rightarrow> retK (Some (-1)) | Some (_, f) \<Rightarrow>
     bindK (getK encr_key) (\<lambda>key.
     if key = -1 then retK (Some (-1)) else
     bindK (file_major f) (\<lambda>major.
     if major = 1 then retK (Some (-3)) else
     bindK (getK (\<lambda>s. f_ip (ftable s ! f))) (\<lambda>ipr. case ipr of None \<Rightarrow> undefK | Some ip \<Rightarrow>
     crypt_file (encr_byte key) 1 devsw f ip))))"

section \<open>The cipher is invertible on ASCII\<close>

text \<open>A cipher on bytes, for the keys and the bytes on which decryption undoes encryption.\<close>

locale byte_cipher =
  fixes enc dec :: "int \<Rightarrow> uchar \<Rightarrow> uchar" and good_key :: "int \<Rightarrow> bool" and plain :: "uchar \<Rightarrow> bool"
  assumes dec_enc: "good_key k \<Longrightarrow> plain c \<Longrightarrow> dec k (enc k c) = c"
    and enc_plain: "good_key k \<Longrightarrow> plain c \<Longrightarrow> plain (enc k c)"
begin

lemma enc_inj: "good_key k \<Longrightarrow> plain c \<Longrightarrow> plain d \<Longrightarrow> enc k c = enc k d \<Longrightarrow> c = d"
  using dec_enc by metis

lemma dec_enc_text: "good_key k \<Longrightarrow> \<forall>c \<in> set cs. plain c \<Longrightarrow> map (dec k) (map (enc k) cs) = cs"
  by (induction cs) (simp_all add: dec_enc)

end

lemma sint_byte:
  assumes "(c :: uchar) < 128"
  shows "sint c = uint c" "0 \<le> uint c" "uint c < 128"
proof -
  show u: "0 \<le> uint c" "uint c < 128" using assms by (simp_all add: word_less_alt)
  have "- (2 ^ 7) \<le> (0 :: int)" by simp
  then have "- (2 ^ 7) \<le> uint c" using u(1) by (rule order_trans)
  then have "signed_take_bit 7 (uint c) = uint c" by (rule signed_take_bit_int_eq_self) (use u in simp)
  then show "sint c = uint c" by (simp add: sint_uint)
qed

lemma byte_of_int:
  assumes "0 \<le> k" "k < 128"
  shows "(word_of_int k :: uchar) < 128" "uint (word_of_int k :: uchar) = k"
proof -
  show u: "uint (word_of_int k :: uchar) = k" using assms by (simp add: unsigned_of_int take_bit_int_eq_self)
  then show "(word_of_int k :: uchar) < 128" using assms by (simp add: word_less_alt)
qed

interpretation caesar: byte_cipher encr_byte decr_byte "\<lambda>k. 0 \<le> k \<and> k \<le> 128" "\<lambda>c. c < 128"
proof
  fix k :: int and c :: uchar assume k: "0 \<le> k \<and> k \<le> 128" and c: "c < 128"
  note u = sint_byte [OF c]
  have e: "c_mod (uint c + k) 128 = (uint c + k) mod 128" using k u by (intro c_mod_nonneg) simp_all
  have r: "0 \<le> (uint c + k) mod 128" "(uint c + k) mod 128 < 128" by simp_all
  note b = byte_of_int [OF r]
  show le: "encr_byte k c < 128" using b(1) u(1) e by (simp add: encr_byte_def)
  have "uint (encr_byte k c) = (uint c + k) mod 128" using b(2) u(1) e by (simp add: encr_byte_def)
  then have "decr_byte k (encr_byte k c) = word_of_int (c_mod ((uint c + k) mod 128 - k + 128) 128)"
    using sint_byte(1) [OF le] by (simp add: decr_byte_def)
  also have "c_mod ((uint c + k) mod 128 - k + 128) 128 = ((uint c + k) mod 128 - k + 128) mod 128"
    using k r(1) by (intro c_mod_nonneg) linarith+
  also have "\<dots> = uint c" using u by (simp add: mod_simps)
  finally show "decr_byte k (encr_byte k c) = c" by simp
qed

text \<open>(C28) For the keys 0 to 128 decryption undoes encryption on every text of ASCII characters.\<close>

theorem decr_encr_text:
  assumes "0 \<le> key" and "key \<le> 128" and "\<forall>c \<in> set cs. c < 128"
  shows "map (decr_byte key) (map (encr_byte key) cs) = cs"
  using caesar.dec_enc_text assms by blast

theorem decr_encr_text_witness:
  "map (encr_byte 3) [120, 121, 126] = [123, 124, 1] \<and> map (decr_byte 3) (map (encr_byte 3) [120, 121, 126]) = [120, 121, 126]"
  using decr_encr_text [of 3 "[120, 121, 126]"] by (simp add: encr_byte_def c_mod_def c_div_def sint_uint signed_take_bit_int_eq_self)

text \<open>Bytes above 127 and keys above 128 do not survive: an encrypted \<^verbatim>\<open>0xC8\<close> comes back as \<^verbatim>\<open>0x48\<close>, and
  with the key 200, which \<^verbatim>\<open>sys_setkey\<close> accepts, \<^verbatim>\<open>d\<close> comes back as \<^verbatim>\<open>0xE4\<close>.\<close>

lemma decr_encr_not_bytes:
  "decr_byte 1 (encr_byte 1 0xC8) = 0x48 \<and> decr_byte 200 (encr_byte 200 100) = 0xE4"
  by code_simp

section \<open>Pipes cannot be read or written\<close>

lemma args_keep_state:
  "argint n s = Ok r s' \<Longrightarrow> s' = s"
  "argptr n k s = Ok q s' \<Longrightarrow> s' = s"
  "argfd n s = Ok a s' \<Longrightarrow> s' = s"
  by (auto simp: argint_def argptr_def argfd_def fetchint_def kok Let_def split: option.splits if_splits)

lemma args_total:
  assumes "user_mapped s"
  shows "\<exists>r. argint n s = Ok r s" "\<exists>q. argptr n k s = Ok q s"
proof -
  have r: "curproc s = Ok (ptable s ! the (cur s)) s" using assms by (simp add: kok user_mapped_def)
  then show i: "\<exists>r. argint n s = Ok r s" using fetchint_total [OF assms] by (simp add: argint_def bindK_def)
  then show "\<exists>q. argptr n k s = Ok q s" using r by (auto simp: argptr_def bindK_def retK_def split: option.split)
qed

text \<open>(C29) \<^verbatim>\<open>sys_read\<close> and \<^verbatim>\<open>sys_write\<close> fail on every pipe and leave it as it is, because they ask for the status
  of the file first and \<^verbatim>\<open>filestat\<close> has none for a pipe.\<close>

theorem pipe_read_write_fail:
  assumes f: "argfd 0 s = Ok (Some (fd, f)) s'" and p: "f_type (ftable s ! f) = FD_PIPE" and r: "user_mapped s"
  shows "sys_read devsw s = Ok (-1) s \<and> sys_write devsw s = Ok (-1) s"
proof -
  have s': "s' = s" using args_keep_state(3) [OF f] .
  obtain n where n: "argint 2 s = Ok n s" using args_total(1) [OF r] by blast
  have st: "filestat f s = Ok None s" using p by (simp add: filestat_def bindK_def getK_def retK_def)
  have "rw_args s = Ok None s"
  proof (cases n)
    case None
    then show ?thesis using f n s' by (simp add: rw_args_def bindK_def retK_def)
  next
    case (Some v)
    obtain q where q: "argptr 1 (sint v) s = Ok q s" using args_total(2) [OF r] by blast
    then show ?thesis using f n s' Some st by (cases q) (simp_all add: rw_args_def bindK_def retK_def Let_def)
  qed
  then show ?thesis by (simp add: sys_read_def sys_write_def bindK_def retK_def)
qed

text \<open>A process whose descriptor 0 is the read end of a pipe.\<close>

definition sys_piped :: sysst where
  "sys_piped = sys_one\<lparr>kmemory := one_page (\<lambda>_. 0), ftable := [\<lparr>f_type = FD_PIPE, f_ref = 1, f_readable = True, f_writable = False, f_pipe = 0, f_ip = None, f_off = 0\<rparr>],
     ptable := [zero_proc\<lparr>p_pid := 1, p_state := RUNNING, p_sz := 64, p_pgdir := 0x80101000, p_tf := zero_tf\<lparr>tf_esp := 16\<rparr>, p_ofile := Some 0 # replicate 15 None\<rparr>]\<rparr>"

theorem pipe_read_write_fail_witness:
  "f_type (ftable sys_piped ! 0) = FD_PIPE \<and> sys_read no_dev sys_piped = Ok (-1) sys_piped \<and> sys_write no_dev sys_piped = Ok (-1) sys_piped"
proof -
  have st: "cur sys_piped = Some 0" "running sys_piped" "f_type (ftable sys_piped ! 0) = FD_PIPE" "my_sz sys_piped = 64"
    "ptable sys_piped ! 0 = zero_proc\<lparr>p_pid := 1, p_state := RUNNING, p_sz := 64, p_pgdir := 0x80101000, p_tf := zero_tf\<lparr>tf_esp := 16\<rparr>, p_ofile := Some 0 # replicate 15 None\<rparr>"
    "kmemory sys_piped = one_page (\<lambda>_. 0)"
    by (simp_all add: sys_piped_def running_def my_sz_def)
  have u: "umem sys_piped a = Some 0" if "a < 4096" for a using st that one_page_umem [of sys_piped] by simp
  then have m: "user_mapped sys_piped" using st order_less_trans [of _ "64 :: uint" 4096] by (auto simp: user_mapped_def KERNBASE_def)
  have "ubytes 20 4 sys_piped = Ok [0, 0, 0, 0] sys_piped" unfolding ubytes_Ok using st by (simp add: u upt_rec)
  moreover have "curproc sys_piped = Ok (ptable sys_piped ! 0) sys_piped" using st(1,2) by (simp add: curproc_Ok)
  ultimately have "argfd 0 sys_piped = Ok (Some (0, 0)) sys_piped"
    using st(5) by (simp add: argfd_def argint_def fetchint_def bindK_def retK_def of_le32_def load32_def Let_def NOFILE_def)
  from pipe_read_write_fail [OF this st(3) m] show ?thesis using st(3) by blast
qed

end
