(* ===== verification/Proc.thy ===== *)
theory Proc
  imports Sysfile
begin

text \<open>
  Processes: the rest of \<^verbatim>\<open>kernel/proc.c\<close> (\<^verbatim>\<open>allocproc\<close>, \<^verbatim>\<open>userinit\<close>, \<^verbatim>\<open>growproc\<close>, \<^verbatim>\<open>fork\<close>,
  \<^verbatim>\<open>exit\<close>, \<^verbatim>\<open>wait\<close>, the scheduler and \<^verbatim>\<open>forkret\<close>) with \<^verbatim>\<open>switchuvm\<close> and \<^verbatim>\<open>switchkvm\<close> of
  \<^verbatim>\<open>kernel/vm.c\<close>. The lemmas show that process identifiers are fresh, that a parent that waits is woken by the
  exit of its child, and that the scheduler lets no runnable process starve.

  The addresses of \<^verbatim>\<open>trapret\<close>, \<^verbatim>\<open>forkret\<close> and \<^verbatim>\<open>data\<close>, and the bytes of \<^verbatim>\<open>initcode.S\<close>, come from the
  linker and the assembler: they are parameters. Of the hardware state only the page-table register is modelled; the
  descriptor of the task segment that \<^verbatim>\<open>switchuvm\<close> sets up is in \<^verbatim>\<open>Machine\<close>.
\<close>

record procst = sysst +
  nextpid :: int
  initproc :: "nat option"
  forkret_first :: bool
  cr3 :: uint
  kpgdir :: uint
  cpu_idle :: bool

definition KSTACKSIZE :: uint where "KSTACKSIZE = 4096"
definition FL_IF :: uint where "FL_IF = 0x200"
definition SEG_UCODE :: ushort where "SEG_UCODE = 3"
definition SEG_UDATA :: ushort where "SEG_UDATA = 4"
definition DPL_USER :: ushort where "DPL_USER = 3"

section \<open>Address spaces\<close>

definition switchkvm :: "('a procst_scheme, unit) kfun" where
  "switchkvm = modK (\<lambda>s. s\<lparr>cr3 := V2P (kpgdir s)\<rparr>)"

definition kvmalloc :: "uint \<Rightarrow> ('a procst_scheme, unit) kfun" where
  "kvmalloc kdata =
     bindK (setupkvm kdata) (\<lambda>d.
     thenK (modK (\<lambda>s. s\<lparr>kpgdir := d\<rparr>)) (
     switchkvm))"

definition switchuvm :: "nat \<Rightarrow> ('a procst_scheme, unit) kfun" where
  "switchuvm i =
     bindK (getK (\<lambda>s. ptable s ! i)) (\<lambda>p.
     if p_kstack p = 0 then panic ''switchuvm: no kstack'' else
     if p_pgdir p = 0 then panic ''switchuvm: no pgdir'' else
     modK (\<lambda>s. s\<lparr>cr3 := V2P (p_pgdir p)\<rparr>))"

section \<open>Creating processes\<close>

text \<open>The sizes of \<^verbatim>\<open>struct trapframe\<close> and \<^verbatim>\<open>struct context\<close>.\<close>

definition sizeof_trapframe :: uint where "sizeof_trapframe = 76"
definition sizeof_context :: uint where "sizeof_context = 20"

text \<open>
  The trap frame of the new process lies in its kernel stack and is not initialised here; both callers store all of it.
  \<open>p_tf\<close> is the content of the frame. The kernel context below it is memory of the stack page.
\<close>

definition allocproc :: "uint \<Rightarrow> uint \<Rightarrow> ('a procst_scheme, nat option) kfun" where
  "allocproc trapret forkret =
     thenK (acquire L_ptable) (
     bindK (getK ptable) (\<lambda>ps.
     case find_index (\<lambda>p. p_state p = UNUSED) ps of
       None \<Rightarrow>
         thenK (release L_ptable) (
         retK None)
     | Some i \<Rightarrow>
         thenK (upd_proc i (\<lambda>p. p\<lparr>p_state := EMBRYO\<rparr>)) (
         bindK (getK nextpid) (\<lambda>n.
         thenK (upd_proc i (\<lambda>p. p\<lparr>p_pid := n\<rparr>)) (
         if n \<ge> 2 ^ 31 - 1 then undefK else
         thenK (modK (\<lambda>s. s\<lparr>nextpid := n + 1\<rparr>)) (
         thenK (release L_ptable) (
         bindK kalloc (\<lambda>kstack.
         thenK (upd_proc i (\<lambda>p. p\<lparr>p_kstack := kstack\<rparr>)) (
         if kstack = 0 then
           thenK (upd_proc i (\<lambda>p. p\<lparr>p_state := UNUSED\<rparr>)) (
           retK None)
         else
           let sp = kstack + KSTACKSIZE - sizeof_trapframe - 4 in
           thenK (wr32 sp trapret) (
           let context = sp - sizeof_context in
           thenK (upd_proc i (\<lambda>p. p\<lparr>p_context := context\<rparr>)) (
           thenK (memsetK context 0 sizeof_context) (
           thenK (wr32 (context + 16) forkret) (
           retK (Some i))))))))))))))"

definition user_tf :: trapframe where
  "user_tf = zero_tf\<lparr>tf_cs := push_bit 3 SEG_UCODE OR DPL_USER, tf_ds := push_bit 3 SEG_UDATA OR DPL_USER,
     tf_es := push_bit 3 SEG_UDATA OR DPL_USER, tf_ss := push_bit 3 SEG_UDATA OR DPL_USER,
     tf_eflags := FL_IF, tf_esp := PGSIZE, tf_eip := 0\<rparr>"

definition userinit :: "(int \<Rightarrow> 'a procst_scheme devsw) \<Rightarrow> uint \<Rightarrow> uint \<Rightarrow> uint \<Rightarrow> uchar list \<Rightarrow> ('a procst_scheme, unit) kfun" where
  "userinit devsw kdata trapret forkret initcode =
     bindK (allocproc trapret forkret) (\<lambda>r.
     case r of None \<Rightarrow> undefK | Some i \<Rightarrow>
     thenK (modK (\<lambda>s. s\<lparr>initproc := Some i\<rparr>)) (
     bindK (setupkvm kdata) (\<lambda>d.
     thenK (upd_proc i (\<lambda>p. p\<lparr>p_pgdir := d\<rparr>)) (
     if d = 0 then panic ''userinit: out of memory?'' else
     thenK (inituvm d initcode) (
     thenK (upd_proc i (\<lambda>p. p\<lparr>p_sz := PGSIZE\<rparr>)) (
     thenK (upd_proc i (\<lambda>p. p\<lparr>p_tf := user_tf\<rparr>)) (
     thenK (upd_proc i (\<lambda>p. p\<lparr>p_name := safestrcpy (cstr [105, 110, 105, 116, 99, 111, 100, 101]) 16\<rparr>)) (
     bindK (namei devsw [47]) (\<lambda>cwd.
     thenK (upd_proc i (\<lambda>p. p\<lparr>p_cwd := cwd\<rparr>)) (
     thenK (acquire L_ptable) (
     thenK (upd_proc i (\<lambda>p. p\<lparr>p_state := RUNNABLE\<rparr>)) (
     release L_ptable))))))))))))"

definition growproc :: "int \<Rightarrow> ('a procst_scheme, int) kfun" where
  "growproc n =
     bindK myproc (\<lambda>i.
     bindK (getK (\<lambda>s. ptable s ! i)) (\<lambda>p.
     let sz = p_sz p in
     bindK (if n > 0 then allocuvm (p_pgdir p) sz (sz + word_of_int n)
            else if n < 0 then deallocuvm (p_pgdir p) sz (sz + word_of_int n)
            else retK sz) (\<lambda>r.
     if n \<noteq> 0 \<and> r = 0 then retK (-1) else
     thenK (upd_proc i (\<lambda>p. p\<lparr>p_sz := r\<rparr>)) (
     thenK (switchuvm i) (
     retK 0)))))"

definition fork :: "uint \<Rightarrow> uint \<Rightarrow> uint \<Rightarrow> ('a procst_scheme, int) kfun" where
  "fork kdata trapret forkret =
     bindK myproc (\<lambda>i.
     bindK (allocproc trapret forkret) (\<lambda>r.
     case r of None \<Rightarrow> retK (-1) | Some np \<Rightarrow>
     bindK (getK (\<lambda>s. ptable s ! i)) (\<lambda>p.
     bindK (copyuvm kdata (p_pgdir p) (p_sz p)) (\<lambda>d.
     thenK (upd_proc np (\<lambda>q. q\<lparr>p_pgdir := d\<rparr>)) (
     if d = 0 then
       bindK (getK (\<lambda>s. p_kstack (ptable s ! np))) (\<lambda>k.
       thenK (kfree k) (
       thenK (upd_proc np (\<lambda>q. q\<lparr>p_kstack := 0\<rparr>)) (
       thenK (upd_proc np (\<lambda>q. q\<lparr>p_state := UNUSED\<rparr>)) (
       retK (-1)))))
     else
       thenK (upd_proc np (\<lambda>q. q\<lparr>p_sz := p_sz p\<rparr>)) (
       thenK (upd_proc np (\<lambda>q. q\<lparr>p_parent := Some i\<rparr>)) (
       thenK (upd_proc np (\<lambda>q. q\<lparr>p_tf := (p_tf p)\<lparr>tf_eax := 0\<rparr>\<rparr>)) (
       thenK (forK [0..<NOFILE] (\<lambda>fd. case p_ofile p ! fd of None \<Rightarrow> retK () | Some f \<Rightarrow>
         bindK (filedup f) (\<lambda>g.
         upd_proc np (\<lambda>q. q\<lparr>p_ofile := (p_ofile q)[fd := Some g]\<rparr>)))) (
       case p_cwd p of None \<Rightarrow> undefK | Some cwd \<Rightarrow>
       bindK (idup cwd) (\<lambda>c.
       thenK (upd_proc np (\<lambda>q. q\<lparr>p_cwd := Some c\<rparr>)) (
       thenK (upd_proc np (\<lambda>q. q\<lparr>p_name := safestrcpy (cstr (p_name p)) 16\<rparr>)) (
       bindK (getK (\<lambda>s. p_pid (ptable s ! np))) (\<lambda>pid.
       thenK (acquire L_ptable) (
       thenK (upd_proc np (\<lambda>q. q\<lparr>p_state := RUNNABLE\<rparr>)) (
       thenK (release L_ptable) (
       retK pid))))))))))))))))"

section \<open>Exit and wait\<close>

text \<open>The children of an exiting process go to \<^verbatim>\<open>initproc\<close>, which is woken for each that is a zombie already.\<close>

definition give_child :: "nat \<Rightarrow> nat \<Rightarrow> nat \<Rightarrow> ('a procst_scheme, unit) kfun" where
  "give_child me init j =
     bindK (getK (\<lambda>s. ptable s ! j)) (\<lambda>p.
     whenK (p_parent p = Some me) (
       thenK (upd_proc j (\<lambda>p. p\<lparr>p_parent := Some init\<rparr>)) (
       whenK (p_state p = ZOMBIE) (wakeup1 (Ch_proc init)))))"

text \<open>No process sleeps on the null channel.\<close>

definition wake_parent :: "nat option \<Rightarrow> ('a procst_scheme, unit) kfun" where
  "wake_parent q = (case q of None \<Rightarrow> retK () | Some j \<Rightarrow> wakeup1 (Ch_proc j))"

text \<open>\<^verbatim>\<open>exit\<close> from the point where it has closed the files and the directory of the process.\<close>

definition exit_zombie :: "nat \<Rightarrow> ('a procst_scheme, unit) kfun" where
  "exit_zombie i =
     thenK (acquire L_ptable) (
     bindK (getK (\<lambda>s. (p_parent (ptable s ! i), initproc s, length (ptable s)))) (\<lambda>(parent, init, n).
     thenK (wake_parent parent) (
     case init of None \<Rightarrow> undefK | Some k \<Rightarrow>
     thenK (forK [0..<n] (give_child i k)) (
     thenK (upd_proc i (\<lambda>p. p\<lparr>p_state := ZOMBIE\<rparr>)) (
     thenK (sched :: ('a procst_scheme, unit) kfun) (
     panic ''zombie exit''))))))"

definition exit :: "('a procst_scheme, unit) kfun" where
  "exit =
     bindK myproc (\<lambda>i.
     bindK (getK initproc) (\<lambda>init.
     if init = Some i then panic ''init exiting'' else
     thenK (forK [0..<NOFILE] (\<lambda>fd.
       bindK (getK (\<lambda>s. p_ofile (ptable s ! i) ! fd)) (\<lambda>f.
       case f of None \<Rightarrow> retK () | Some f \<Rightarrow>
       thenK (fileclose f) (
       upd_proc i (\<lambda>p. p\<lparr>p_ofile := (p_ofile p)[fd := None]\<rparr>))))) (
     thenK begin_op (
     bindK (getK (\<lambda>s. p_cwd (ptable s ! i))) (\<lambda>cwd.
     case cwd of None \<Rightarrow> undefK | Some ip \<Rightarrow>
     thenK (iput ip) (
     thenK end_op (
     thenK (upd_proc i (\<lambda>p. p\<lparr>p_cwd := None\<rparr>)) (
     exit_zombie i))))))))"

text \<open>What \<^verbatim>\<open>wait\<close> does with a zombie child.\<close>

definition reap :: "nat \<Rightarrow> ('a procst_scheme, int) kfun" where
  "reap j =
     bindK (getK (\<lambda>s. ptable s ! j)) (\<lambda>p.
     thenK (kfree (p_kstack p)) (
     thenK (upd_proc j (\<lambda>p. p\<lparr>p_kstack := 0\<rparr>)) (
     thenK (freevm (p_pgdir p)) (
     thenK (upd_proc j (\<lambda>p. p\<lparr>p_pid := 0, p_parent := None, p_name := (p_name p)[0 := 0], p_killed := False, p_state := UNUSED\<rparr>)) (
     thenK (release L_ptable) (
     retK (p_pid p)))))))"

text \<open>One round of the loop of \<^verbatim>\<open>wait\<close>; the process that sleeps starts another one when it is woken.\<close>

definition wait_round :: "('a procst_scheme, int) kfun" where
  "wait_round =
     bindK myproc (\<lambda>i.
     bindK (getK ptable) (\<lambda>ps.
     case find_index (\<lambda>p. p_parent p = Some i \<and> p_state p = ZOMBIE) ps of
       Some j \<Rightarrow> reap j
     | None \<Rightarrow>
         let havekids = (\<exists>p \<in> set ps. p_parent p = Some i) in
         if \<not> havekids \<or> p_killed (ps ! i) then
           thenK (release L_ptable) (
           retK (-1))
         else sleep (Ch_proc i) L_ptable))"

definition wait :: "('a procst_scheme, int) kfun" where
  "wait =
     thenK (acquire L_ptable) (
     wait_round)"

definition wait_resume :: "('a procst_scheme, int) kfun" where
  "wait_resume =
     thenK (sleep_resume L_ptable) (
     wait_round)"

section \<open>The scheduler\<close>

definition runnable_from :: "nat \<Rightarrow> proc list \<Rightarrow> nat option" where
  "runnable_from i ps = map_option (\<lambda>k. i + k) (find_index (\<lambda>p. p_state p = RUNNABLE) (drop i ps))"

text \<open>
  The loop of the scheduler over the table, from entry \<open>i\<close> on: it ends the pass, or switches to the next runnable process.
  When that process switches back, the scheduler goes on with \<open>scheduler_back\<close>. A pass starts with \<open>scheduler_pass\<close>.
\<close>

definition scheduler_scan :: "nat \<Rightarrow> ('a procst_scheme, unit) kfun" where
  "scheduler_scan i =
     bindK (getK ptable) (\<lambda>ps.
     case runnable_from i ps of
       None \<Rightarrow> release L_ptable
     | Some j \<Rightarrow>
         thenK (modK (\<lambda>s. s\<lparr>cpu_idle := False\<rparr>)) (
         thenK (modK (\<lambda>s. s\<lparr>cur := Some j\<rparr>)) (
         thenK (switchuvm j) (
         thenK (upd_proc j (\<lambda>p. p\<lparr>p_state := RUNNING\<rparr>)) (
         (\<lambda>s. Switch s))))))"

definition scheduler_leave :: "('a procst_scheme, unit) kfun" where
  "scheduler_leave =
     thenK switchkvm (
     modK (\<lambda>s. s\<lparr>cur := None\<rparr>))"

definition scheduler_back :: "nat \<Rightarrow> ('a procst_scheme, unit) kfun" where
  "scheduler_back j =
     thenK scheduler_leave (
     scheduler_scan (j + 1))"

definition scheduler_enter :: "('a procst_scheme, unit) kfun" where
  "scheduler_enter =
     thenK (modK (\<lambda>s. s\<lparr>cpu_idle := True\<rparr>)) (
     acquire L_ptable)"

definition scheduler_pass :: "('a procst_scheme, unit) kfun" where
  "scheduler_pass =
     thenK scheduler_enter (
     scheduler_scan 0)"

definition forkret_fn :: "('a procst_scheme, unit) kfun" where
  "forkret_fn =
     thenK (release L_ptable) (
     bindK (getK forkret_first) (\<lambda>first.
     whenK first (
       thenK (modK (\<lambda>s. s\<lparr>forkret_first := False\<rparr>)) (
       thenK (iinit ROOTDEV) (
       initlog ROOTDEV)))))"

section \<open>Process identifiers\<close>

definition live :: "proc \<Rightarrow> bool" where
  "live p \<longleftrightarrow> p_state p \<noteq> UNUSED"

text \<open>No two processes in the table have the same pid, and all have been handed out already.\<close>

definition pids_ok :: "proc list \<Rightarrow> int \<Rightarrow> bool" where
  "pids_ok ps n \<longleftrightarrow> (\<forall>i < length ps. live (ps ! i) \<longrightarrow> 0 < p_pid (ps ! i) \<and> p_pid (ps ! i) < n) \<and>
     (\<forall>i < length ps. \<forall>j < length ps. live (ps ! i) \<and> live (ps ! j) \<and> p_pid (ps ! i) = p_pid (ps ! j) \<longrightarrow> i = j)"

lemma pids_ok_new:
  assumes "pids_ok ps n" and "0 < n" and "p_pid p = n"
  shows "pids_ok (ps[i := p]) (n + 1)"
proof -
  have n: "ps[i := p] ! j = (if j = i then p else ps ! j)" if "j < length ps" for j using that by auto
  have A: "0 < p_pid (ps ! j)" "p_pid (ps ! j) < n" if "live (ps ! j)" "j < length ps" for j
    using that assms(1) by (simp_all add: pids_ok_def)
  have B: "j = k" if "p_pid (ps ! j) = p_pid (ps ! k)" "live (ps ! j)" "live (ps ! k)" "j < length ps" "k < length ps" for j k
    using that assms(1) by (simp add: pids_ok_def)
  have ne: "p_pid (ps ! j) \<noteq> n" if "live (ps ! j)" "j < length ps" for j using A(2) [OF that] by simp
  show ?thesis unfolding pids_ok_def using assms(2,3)
    by (auto simp: n ne order_less_imp_le dest: A B split: if_splits)
qed

lemma pids_ok_dead:
  assumes "pids_ok ps n" and "\<not> live p" and "n \<le> m"
  shows "pids_ok (ps[i := p]) m"
proof -
  have n: "ps[i := p] ! j = (if j = i then p else ps ! j)" if "j < length ps" for j using that by auto
  then show ?thesis using assms unfolding pids_ok_def by (auto simp: n split: if_splits)
qed

lemma stack_writes:
  assumes "\<not> in_page x v"
  shows "unat c \<le> 4092 \<Longrightarrow> store32 m (v + c) w x = m x" "unat c + unat n \<le> 4096 \<Longrightarrow> memset m (v + c) 0 n x = m x"
proof -
  have x: "4096 \<le> unat (x - v)" using assms by (simp add: in_page_def not_less)
  have "x \<noteq> v + c + of_nat k" if "k < 4" "unat c \<le> 4092" for k
  proof
    assume "x = v + c + of_nat k"
    then have "x - v = c + of_nat k" by simp
    moreover have "unat (of_nat k :: uint) = k" using that by (intro unat_of_nat_small) simp
    ultimately show False using x that unat_add_noovf [of c "of_nat k"] by simp
  qed
  then show "store32 m (v + c) w x = m x" if "unat c \<le> 4092" using that by (intro store32_far) simp
  show "memset m (v + c) 0 n x = m x" if n: "unat c + unat n \<le> 4096"
  proof -
    have "c \<le> x - v" using x n by (simp add: word_le_nat_alt)
    then have "unat (x - (v + c)) = unat (x - v) - unat c" using unat_sub [of c "x - v"] by (simp add: diff_diff_eq)
    then have "\<not> unat (x - (v + c)) < unat n" using x n by linarith
    then show ?thesis by (simp add: memset_fills)
  qed
qed

text \<open>The state after the allocation of entry \<open>i\<close> with the stack page \<open>v\<close>; \<open>m\<close> is the memory.\<close>

definition new_proc :: "'a procst_scheme \<Rightarrow> nat \<Rightarrow> uint \<Rightarrow> memory \<Rightarrow> 'a procst_scheme" where
  "new_proc s i v m = s\<lparr>ptable := (ptable s)[i := (ptable s ! i)\<lparr>p_state := EMBRYO, p_pid := nextpid s, p_kstack := v,
       p_context := v + KSTACKSIZE - sizeof_trapframe - 4 - sizeof_context\<rparr>],
     nextpid := nextpid s + 1, klocks := [], freelist := load32 (kmemory s) v, kmemory := m\<rparr>"

lemma allocproc_run:
  assumes i: "find_index (\<lambda>p. p_state p = UNUSED) (ptable s) = Some i" and n: "nextpid s < 2 ^ 31 - 1"
    and k: "kmem_ok s (v # vs)" "klocks s = []"
  obtains m where "allocproc tr fr s = Ok (Some i) (new_proc s i v m)" "kmem_ok (new_proc s i v m) vs" "\<And>x. \<not> in_page x v \<Longrightarrow> m x = kmemory s x"
proof -
  let ?sp = "v + KSTACKSIZE - sizeof_trapframe - 4" and ?cx = "v + KSTACKSIZE - sizeof_trapframe - 4 - sizeof_context"
  define m where "m = store32 (memset (store32 (kmemory s) ?sp tr) ?cx 0 sizeof_context) (?cx + 16) fr"
  define s1 where "s1 = s\<lparr>ptable := (ptable s)[i := (ptable s ! i)\<lparr>p_state := EMBRYO, p_pid := nextpid s\<rparr>], nextpid := nextpid s + 1, klocks := []\<rparr>"
  have k1: "kmem_ok s1 (v # vs)" "L_kmem \<notin> set (klocks s1)" using k by (simp_all add: s1_def kmem_ok_def)
  have "v \<noteq> 0" using k(1) page_ok_nonzero by (auto simp: kmem_ok_def)
  then have run: "allocproc tr fr s = Ok (Some i) (new_proc s i v m)"
    using i find_index_SomeD [OF i] n k(2) kalloc_run(2) [OF k1 refl]
    by (simp add: allocproc_def kdefs acquire_def release_def upd_proc_def wr32_def memsetK_def Let_def s1_def new_proc_def m_def)
  have c: "?sp = v + 4016" "v + 4016 - sizeof_context = v + 3996" "v + 3996 + 16 = v + 4012" by (simp_all add: KSTACKSIZE_def sizeof_trapframe_def sizeof_context_def)
  have o: "m x = kmemory s x" if "\<not> in_page x v" for x unfolding m_def c
    by (simp add: stack_writes(1) [OF that] stack_writes(2) [OF that] sizeof_context_def)
  have "kmem_ok (new_proc s i v m) vs" using kalloc_write [OF k(1), of m] o by (simp add: kmem_ok_def new_proc_def)
  then show thesis using that run o by blast
qed

lemma allocproc_fail:
  assumes i: "find_index (\<lambda>p. p_state p = UNUSED) (ptable s) = Some i" and n: "nextpid s < 2 ^ 31 - 1" and k: "kmem_ok s []" "klocks s = []"
  shows "allocproc tr fr s = Ok None (s\<lparr>ptable := (ptable s)[i := (ptable s ! i)\<lparr>p_pid := nextpid s, p_kstack := 0, p_state := UNUSED\<rparr>],
    nextpid := nextpid s + 1, klocks := []\<rparr>)"
proof -
  define s1 where "s1 = s\<lparr>ptable := (ptable s)[i := (ptable s ! i)\<lparr>p_state := EMBRYO, p_pid := nextpid s\<rparr>], nextpid := nextpid s + 1, klocks := []\<rparr>"
  have k1: "kmem_ok s1 []" "L_kmem \<notin> set (klocks s1)" using k by (simp_all add: s1_def kmem_ok_def)
  show ?thesis using i find_index_SomeD [OF i] n k(2) kalloc_run(1) [OF k1 refl]
    by (simp add: allocproc_def kdefs acquire_def release_def upd_proc_def s1_def)
qed

text \<open>
  A new process gets a pid that no process in the table has, the first unused entry of the table and a page of its own
  as its kernel stack; nothing else in the table changes. It fails only with the table full, and then changes nothing,
  or without free pages, and then all entries in use are unchanged.
\<close>

lemma allocproc_fresh:
  assumes p: "pids_ok (ptable s) (nextpid s)" "0 < nextpid s" "nextpid s < 2 ^ 31 - 1"
    and k: "kmem_ok s vs" "klocks s = []"
  shows "case (find_index (\<lambda>p. p_state p = UNUSED) (ptable s), vs) of
      (None, _) \<Rightarrow> allocproc tr fr s = Ok None s
    | (Some i, []) \<Rightarrow> \<exists>s'. allocproc tr fr s = Ok None s' \<and> pids_ok (ptable s') (nextpid s') \<and>
        (\<forall>j < length (ptable s). live (ptable s ! j) \<longrightarrow> ptable s' ! j = ptable s ! j)
    | (Some i, v # vs') \<Rightarrow> \<exists>s'. allocproc tr fr s = Ok (Some i) s' \<and> pids_ok (ptable s') (nextpid s') \<and> kmem_ok s' vs' \<and>
        ptable s' = (ptable s)[i := (ptable s ! i)\<lparr>p_state := EMBRYO, p_pid := nextpid s, p_kstack := v, p_context := v + KSTACKSIZE - sizeof_trapframe - 4 - sizeof_context\<rparr>] \<and>
        (\<forall>q \<in> set (ptable s). live q \<longrightarrow> p_pid q \<noteq> nextpid s)"
proof (cases "find_index (\<lambda>p. p_state p = UNUSED) (ptable s)")
  case None
  then show ?thesis using k(2) by (simp add: allocproc_def kdefs acquire_def release_def klocks_self [of s, simplified k(2)])
next
  case (Some i)
  note i = find_index_SomeD [OF Some]
  show ?thesis
  proof (cases vs)
    case Nil
    show ?thesis using allocproc_fail [OF Some p(3) k(1) [unfolded Nil] k(2)] Some Nil i p pids_ok_dead [OF p(1), of _ "nextpid s + 1" i]
      by (auto simp: live_def nth_list_update)
  next
    case (Cons v vs')
    obtain m where a: "allocproc tr fr s = Ok (Some i) (new_proc s i v m)" "kmem_ok (new_proc s i v m) vs'"
      using allocproc_run [OF Some p(3) k(1) [unfolded Cons] k(2)] by blast
    have "\<forall>q \<in> set (ptable s). live q \<longrightarrow> p_pid q \<noteq> nextpid s" using p(1) by (fastforce simp: pids_ok_def in_set_conv_nth)
    then show ?thesis using Some Cons a pids_ok_new [OF p(1,2), of _ i] by (simp add: new_proc_def)
  qed
qed

section \<open>Exit wakes the parent\<close>

text \<open>The table when \<open>m\<close> entries have been looked at for children.\<close>

definition has_zombie :: "nat \<Rightarrow> nat \<Rightarrow> proc list \<Rightarrow> bool" where
  "has_zombie me m ps \<longleftrightarrow> (\<exists>c < m. c < length ps \<and> p_parent (ps ! c) = Some me \<and> p_state (ps ! c) = ZOMBIE)"

definition given :: "nat \<Rightarrow> nat \<Rightarrow> nat \<Rightarrow> proc list \<Rightarrow> nat \<Rightarrow> proc" where
  "given me init m ps j =
     (let p = if j < m \<and> p_parent (ps ! j) = Some me then (ps ! j)\<lparr>p_parent := Some init\<rparr> else ps ! j in
      if has_zombie me m ps then wake (Ch_proc init) p else p)"

lemma wake_simps [simp]: "p_parent (wake c p) = p_parent p" "p_chan (wake c p) = p_chan p" "p_state (wake c p) = ZOMBIE \<longleftrightarrow> p_state p = ZOMBIE"
  "wake c (wake c p) = wake c p" "wake c (p\<lparr>p_parent := q\<rparr>) = (wake c p)\<lparr>p_parent := q\<rparr>"
  by (auto simp: wake_def)

lemma give_children:
  assumes "m \<le> length (ptable s)"
  shows "forK [0..<m] (give_child me init) s = Ok () (s\<lparr>ptable := map (given me init m (ptable s)) [0..<length (ptable s)]\<rparr>)"
  using assms
proof (induction m)
  case 0
  have "map (given me init 0 (ptable s)) [0..<length (ptable s)] = ptable s"
    by (intro nth_equalityI) (simp_all add: given_def has_zombie_def)
  then show ?case by (simp add: kdefs)
next
  case (Suc m)
  let ?T = "\<lambda>m. map (given me init m (ptable s)) [0..<length (ptable s)]"
  have "give_child me init m (s\<lparr>ptable := ?T m\<rparr>) = Ok () (s\<lparr>ptable := ?T (Suc m)\<rparr>)"
  proof -
    have m: "m < length (ptable s)" using Suc.prems by simp
    let ?q = "given me init m (ptable s) m"
    have q: "p_parent ?q = p_parent (ptable s ! m)" "p_state ?q = ZOMBIE \<longleftrightarrow> p_state (ptable s ! m) = ZOMBIE"
      by (simp_all add: given_def Let_def)
    have z: "has_zombie me (Suc m) (ptable s) \<longleftrightarrow> has_zombie me m (ptable s) \<or> p_parent (ptable s ! m) = Some me \<and> p_state (ptable s ! m) = ZOMBIE"
      using m by (auto simp: has_zombie_def less_Suc_eq)
    consider "p_parent (ptable s ! m) \<noteq> Some me" | "p_parent (ptable s ! m) = Some me" "p_state (ptable s ! m) \<noteq> ZOMBIE"
      | "p_parent (ptable s ! m) = Some me" "p_state (ptable s ! m) = ZOMBIE" by blast
    then show ?thesis
    proof cases
      case 1
      then have "?T (Suc m) = ?T m" by (intro map_cong) (auto simp: given_def Let_def z less_Suc_eq)
      then show ?thesis using 1 q m by (simp add: give_child_def kdefs)
    next
      case 2
      then have "?T (Suc m) = (?T m)[m := ?q\<lparr>p_parent := Some init\<rparr>]"
        using m by (intro nth_equalityI) (auto simp: given_def Let_def z less_Suc_eq nth_list_update)
      then show ?thesis using 2 q m by (simp add: give_child_def upd_proc_def kdefs)
    next
      case 3
      then have "?T (Suc m) = map (wake (Ch_proc init)) ((?T m)[m := ?q\<lparr>p_parent := Some init\<rparr>])"
        using m by (intro nth_equalityI) (auto simp: given_def Let_def z less_Suc_eq nth_list_update)
      then show ?thesis using 3 q m by (simp add: give_child_def upd_proc_def wakeup1_def kdefs)
    qed
  qed
  then show ?case using Suc.IH Suc.prems by (simp add: forK_append kdefs)
qed

lemma has_zombie_wake [simp]: "has_zombie me m (map (wake c) ps) \<longleftrightarrow> has_zombie me m ps"
  by (auto simp: has_zombie_def)

definition woken :: "nat \<Rightarrow> nat \<Rightarrow> proc list \<Rightarrow> proc \<Rightarrow> bool" where
  "woken me init ps p \<longleftrightarrow> p_state p = SLEEPING \<and> (\<exists>r. p_chan p = Some (Ch_proc r) \<and>
     (p_parent (ps ! me) = Some r \<or> r = init \<and> has_zombie me (length ps) ps))"

lemma exit_zombie_effect:
  assumes "cur s = Some i" and i: "i < length (ptable s)" and "klocks s = []" and "initproc s = Some k"
  obtains s' where "exit_zombie i s = Switch s'" "klocks s' = [L_ptable]" "cur s' = Some i" "length (ptable s') = length (ptable s)"
    "\<And>j. j < length (ptable s) \<Longrightarrow> p_parent (ptable s' ! j) = (if p_parent (ptable s ! j) = Some i then Some k else p_parent (ptable s ! j))"
    "\<And>j. j < length (ptable s) \<Longrightarrow> p_state (ptable s' ! j) =
       (if j = i then ZOMBIE else if woken i k (ptable s) (ptable s ! j) then RUNNABLE else p_state (ptable s ! j))"
proof -
  let ?ps = "ptable s"
  define W where "W = (case p_parent (?ps ! i) of None \<Rightarrow> ?ps | Some r \<Rightarrow> map (wake (Ch_proc r)) ?ps)"
  define G where "G = map (given i k (length ?ps) W) [0..<length ?ps]"
  define s' where "s' = s\<lparr>klocks := [L_ptable], ptable := G[i := (G ! i)\<lparr>p_state := ZOMBIE\<rparr>]\<rparr>"
  have len: "length W = length ?ps" by (simp add: W_def split: option.split)
  have w: "wake_parent (p_parent (?ps ! i)) (s\<lparr>klocks := [L_ptable]\<rparr>) = Ok () (s\<lparr>klocks := [L_ptable], ptable := W\<rparr>)"
    by (simp add: wake_parent_def wakeup1_def kdefs W_def split: option.split)
  have g: "forK [0..<length ?ps] (give_child i k) (s\<lparr>klocks := [L_ptable], ptable := W\<rparr>) = Ok () (s\<lparr>klocks := [L_ptable], ptable := G\<rparr>)"
    using give_children [of "length ?ps" "s\<lparr>klocks := [L_ptable], ptable := W\<rparr>" i k] len by (simp add: G_def)
  have run: "exit_zombie i s = Switch s'"
    using assms w g i by (simp add: exit_zombie_def kdefs acquire_def upd_proc_def sched_def myproc_def s'_def G_def)
  have z: "has_zombie i (length ?ps) W = has_zombie i (length ?ps) ?ps" by (simp add: W_def split: option.split)
  have wp: "p_parent (W ! j) = p_parent (?ps ! j)" "p_chan (W ! j) = p_chan (?ps ! j)" if "j < length ?ps" for j
    using that by (simp_all add: W_def split: option.split)
  show thesis
  proof
    show "exit_zombie i s = Switch s'" by (rule run)
    show "klocks s' = [L_ptable]" "cur s' = Some i" "length (ptable s') = length (ptable s)" using assms(1) by (simp_all add: s'_def G_def)
    fix j assume j: "j < length ?ps"
    then show "p_parent (ptable s' ! j) = (if p_parent (?ps ! j) = Some i then Some k else p_parent (?ps ! j))"
      using wp i by (simp add: s'_def G_def given_def Let_def nth_list_update)
    show "p_state (ptable s' ! j) = (if j = i then ZOMBIE else if woken i k ?ps (?ps ! j) then RUNNABLE else p_state (?ps ! j))"
      using j wp [OF j] by (auto simp: s'_def G_def given_def Let_def nth_list_update z woken_def wake_def W_def split: option.splits)
  qed
qed

lemma wait_sleeps:
  assumes c: "cur s = Some q" "q < length (ptable s)" "klocks s = []" and k: "\<not> p_killed (ptable s ! q)"
    and kid: "\<exists>p \<in> set (ptable s). p_parent p = Some q" and nz: "\<forall>p \<in> set (ptable s). p_parent p = Some q \<longrightarrow> p_state p \<noteq> ZOMBIE"
  shows "wait s = Switch (s\<lparr>klocks := [L_ptable], ptable := (ptable s)[q := (ptable s ! q)\<lparr>p_chan := Some (Ch_proc q), p_state := SLEEPING\<rparr>]\<rparr>)"
proof -
  have "find_index (\<lambda>p. p_parent p = Some q \<and> p_state p = ZOMBIE) (ptable s) = None" using nz by (auto simp: find_index_None)
  then show ?thesis using c k kid
    by (simp add: wait_def wait_round_def kdefs acquire_def myproc_def sleep_def upd_proc_def sched_def Let_def)
qed

text \<open>
  (C32) No wakeup is lost between \<^verbatim>\<open>wait\<close> and \<^verbatim>\<open>exit\<close>. A process that has children, none of them a zombie, goes to sleep
  in \<^verbatim>\<open>wait\<close>, and the process table stays locked until it has been switched away. When a child of a process that
  sleeps there exits, the parent becomes runnable, the child is a zombie of that parent for it to find, and the children of
  the child belong to the init process.
\<close>

theorem wait_exit_wakeup:
  assumes w: "cur s = Some q" "q < length (ptable s)" "klocks s = []" "\<not> p_killed (ptable s ! q)"
    "\<exists>p \<in> set (ptable s). p_parent p = Some q" "\<forall>p \<in> set (ptable s). p_parent p = Some q \<longrightarrow> p_state p \<noteq> ZOMBIE"
    and e: "cur t = Some c" "c < length (ptable t)" "q < length (ptable t)" "klocks t = []" "initproc t = Some k" "c \<noteq> q"
    "p_parent (ptable t ! c) = Some q" "p_state (ptable t ! q) = SLEEPING" "p_chan (ptable t ! q) = Some (Ch_proc q)"
  shows "(\<exists>s'. wait s = Switch s' \<and> klocks s' = [L_ptable] \<and> p_state (ptable s' ! q) = SLEEPING \<and> p_chan (ptable s' ! q) = Some (Ch_proc q)) \<and>
    (\<exists>t'. exit_zombie c t = Switch t' \<and> p_state (ptable t' ! q) = RUNNABLE \<and> p_state (ptable t' ! c) = ZOMBIE \<and>
       p_parent (ptable t' ! c) = Some q \<and>
       (\<forall>j < length (ptable t). p_parent (ptable t' ! j) = (if p_parent (ptable t ! j) = Some c then Some k else p_parent (ptable t ! j))))"
proof -
  obtain t' where "exit_zombie c t = Switch t'"
    "\<And>j. j < length (ptable t) \<Longrightarrow> p_parent (ptable t' ! j) = (if p_parent (ptable t ! j) = Some c then Some k else p_parent (ptable t ! j))"
    "\<And>j. j < length (ptable t) \<Longrightarrow> p_state (ptable t' ! j) =
       (if j = c then ZOMBIE else if woken c k (ptable t) (ptable t ! j) then RUNNABLE else p_state (ptable t ! j))"
    using exit_zombie_effect [OF e(1,2,4,5)] by metis
  then show ?thesis using wait_sleeps [OF w(1-5) w(6)] w(2) e by (auto simp: woken_def)
qed

section \<open>The scheduler lets no process starve\<close>

text \<open>
  What the scheduler of one processor does, as steps between the points where it looks at the table: in \<open>(i, s)\<close> it looks
  for a runnable process from entry \<open>i\<close> on. A step runs the process it finds, labelled with that process, or
  ends the pass. Between the steps processes run, here and on other processors, so the table may change in any way.
\<close>

inductive cpu_step :: "nat \<times> 'a procst_scheme \<Rightarrow> nat option \<Rightarrow> nat \<times> 'a procst_scheme \<Rightarrow> bool" where
  dispatch: "scheduler_scan i s = Switch t \<Longrightarrow> cur t = Some j \<Longrightarrow> scheduler_leave u = Ok () u' \<Longrightarrow> cpu_step (i, s) (Some j) (j + 1, u')"
| pass: "scheduler_scan i s = Ok () t \<Longrightarrow> scheduler_enter u = Ok () u' \<Longrightarrow> cpu_step (i, s) None (0, u')"

inductive_cases cpu_stepE: "cpu_step (i, s) l c"

text \<open>Runs in which process \<open>j\<close> is runnable whenever the scheduler looks at the table.\<close>

definition waiting :: "nat \<Rightarrow> 'a procst_scheme \<Rightarrow> bool" where
  "waiting j s \<longleftrightarrow> length (ptable s) = NPROC \<and> j < NPROC \<and> p_state (ptable s ! j) = RUNNABLE"

inductive cpu_run :: "nat \<Rightarrow> nat \<times> 'a procst_scheme \<Rightarrow> nat option list \<Rightarrow> bool" for j where
  cpu_run_Nil: "cpu_run j c []"
| cpu_run_Cons: "waiting j (snd c) \<Longrightarrow> cpu_step c l c' \<Longrightarrow> cpu_run j c' ls \<Longrightarrow> cpu_run j c (l # ls)"

inductive_cases cpu_run_ConsE: "cpu_run j c (l # ls)"

lemma runnable_from_Some:
  assumes "runnable_from i ps = Some k"
  shows "i \<le> k" "k < length ps" "p_state (ps ! k) = RUNNABLE" "\<And>j. i \<le> j \<Longrightarrow> j < k \<Longrightarrow> p_state (ps ! j) \<noteq> RUNNABLE"
proof -
  obtain n where n: "find_index (\<lambda>p. p_state p = RUNNABLE) (drop i ps) = Some n" "k = i + n" using assms by (auto simp: runnable_from_def)
  note f = find_index_SomeD [OF n(1)]
  show "i \<le> k" "k < length ps" "p_state (ps ! k) = RUNNABLE" using f n(2) by auto
  fix j assume "i \<le> j" "j < k"
  then obtain c where "j = i + c" "c < n" using n(2) by (auto simp: le_iff_add)
  moreover from this have "drop i ps ! c = ps ! (i + c)" using f by (intro nth_drop) (auto simp: less_diff_conv)
  ultimately show "p_state (ps ! j) \<noteq> RUNNABLE" using f by metis
qed

lemma runnable_from_None:
  assumes "runnable_from i ps = None" and "i \<le> j" and "j < length ps"
  shows "p_state (ps ! j) \<noteq> RUNNABLE"
proof -
  have "drop i ps ! (j - i) = ps ! j" using assms(2,3) by simp
  then have "ps ! j \<in> set (drop i ps)" using assms(2,3) nth_mem [of "j - i" "drop i ps"] by simp
  then show ?thesis using assms(1) by (auto simp: runnable_from_def find_index_None)
qed

lemma scheduler_scan_outcomes:
  "scheduler_scan i s = Ok r t \<Longrightarrow> runnable_from i (ptable s) = None"
  "scheduler_scan i s = Switch t \<Longrightarrow> cur t = runnable_from i (ptable s) \<and> runnable_from i (ptable s) \<noteq> None"
  by (auto simp: scheduler_scan_def kdefs release_def switchuvm_def upd_proc_def split: option.splits if_splits)

text \<open>Where the scheduler stands after a step that did not run \<open>j\<close>.\<close>

lemma cpu_step_next:
  assumes "cpu_step (i, s) l (i', s')" and "waiting j s" and "l \<noteq> Some j"
  shows "if i \<le> j then i < i' \<and> i' \<le> j else i' = 0 \<or> i < i' \<and> i' \<le> NPROC"
proof -
  consider k where "l = Some k" "i' = k + 1" "runnable_from i (ptable s) = Some k" | "i' = 0" "runnable_from i (ptable s) = None"
    using assms(1) by (rule cpu_stepE) (use scheduler_scan_outcomes in fastforce)+
  then show ?thesis
  proof cases
    case (1 k)
    note r = runnable_from_Some [OF 1(3)]
    have "\<not> (i \<le> j \<and> j < k)" using r(4) [of j] assms(2) by (auto simp: waiting_def)
    then show ?thesis using r(1,2) assms 1 by (auto simp: waiting_def)
  next
    case 2
    then show ?thesis using assms(2) runnable_from_None [of i "ptable s" j] by (auto simp: waiting_def)
  qed
qed

lemma cpu_run_bound:
  assumes "cpu_run j c ls" and "fst c \<le> NPROC" and "Some j \<notin> set ls"
  shows "length ls \<le> (if fst c \<le> j then j - fst c else NPROC - fst c + 1 + j)"
  using assms
proof (induction rule: cpu_run.induct)
  case (cpu_run_Cons c l c' ls)
  have n: "if fst c \<le> j then fst c < fst c' \<and> fst c' \<le> j else fst c' = 0 \<or> fst c < fst c' \<and> fst c' \<le> NPROC"
    using cpu_step_next [of "fst c" "snd c" l "fst c'" "snd c'" j] cpu_run_Cons by auto
  have "j < NPROC" using cpu_run_Cons.hyps(1) by (simp add: waiting_def)
  then show ?case using n cpu_run_Cons.IH cpu_run_Cons.prems by (auto split: if_splits)
qed simp

text \<open>
  (C31) The scheduler lets no process starve: a process that is runnable whenever the scheduler looks at the table is run
  within \<open>NPROC + 1\<close> steps, whatever the other processes do. And the scheduler always has a next step as long as
  the processes that can run have a kernel stack and a page directory.
\<close>

theorem scheduler_no_starvation:
  "(cpu_run j (i, s) ls \<and> i \<le> NPROC \<and> NPROC < length ls \<longrightarrow> Some j \<in> set ls) \<and>
   (L_ptable \<in> set (klocks s) \<and> (\<forall>p \<in> set (ptable s). p_state p = RUNNABLE \<longrightarrow> p_kstack p \<noteq> 0 \<and> p_pgdir p \<noteq> 0) \<longrightarrow>
     (\<exists>l c. cpu_step (i, s) l c))"
proof (intro conjI impI; elim conjE)
  assume r: "cpu_run j (i, s) ls" "i \<le> NPROC" "NPROC < length ls"
  then obtain l ls' where "ls = l # ls'" by (cases ls) auto
  then have "j < NPROC" using r(1) by (auto simp: waiting_def elim: cpu_run_ConsE)
  moreover have "length ls \<le> (if i \<le> j then j - i else NPROC - i + 1 + j)" if "Some j \<notin> set ls" using cpu_run_bound [OF r(1) _ that] r(2) by (simp only: fst_conv)
  ultimately show "Some j \<in> set ls" using r(2,3) by (cases "Some j \<in> set ls") (auto split: if_splits)
next
  assume l: "L_ptable \<in> set (klocks s)" and p: "\<forall>p \<in> set (ptable s). p_state p = RUNNABLE \<longrightarrow> p_kstack p \<noteq> 0 \<and> p_pgdir p \<noteq> 0"
  show "\<exists>l c. cpu_step (i, s) l c"
  proof (cases "runnable_from i (ptable s)")
    case None
    then have "scheduler_scan i s = Ok () (s\<lparr>klocks := remove1 L_ptable (klocks s)\<rparr>)" using l by (simp add: scheduler_scan_def kdefs release_def)
    moreover have "scheduler_enter (s\<lparr>klocks := []\<rparr>) = Ok () (s\<lparr>klocks := [L_ptable], cpu_idle := True\<rparr>)" by (simp add: scheduler_enter_def kdefs acquire_def)
    ultimately show ?thesis using cpu_step.pass by blast
  next
    case (Some j)
    then obtain t where t: "scheduler_scan i s = Switch t" "cur t = Some j"
      using p [rule_format, of "ptable s ! j"] runnable_from_Some [OF Some] by (simp add: scheduler_scan_def kdefs switchuvm_def upd_proc_def)
    moreover have "scheduler_leave s = Ok () (s\<lparr>cr3 := V2P (kpgdir s), cur := None\<rparr>)" by (simp add: scheduler_leave_def switchkvm_def kdefs)
    ultimately show ?thesis using cpu_step.dispatch by blast
  qed
qed

section \<open>Examples\<close>

text \<open>A kernel with a given process table and no lock held.\<close>

definition proc_one :: "proc list \<Rightarrow> procst" where
  "proc_one ps = sysst.extend (sys_one\<lparr>ptable := ps\<rparr>) (procst.fields 3 (Some 0) False 0 0x80104000 True)"

lemma proc_one_simps [simp]: "klocks (proc_one ps) = []" "ptable (proc_one ps) = ps" "cur (proc_one ps) = Some 0" "nextpid (proc_one ps) = 3"
  "initproc (proc_one ps) = Some 0" "kpgdir (proc_one ps) = 0x80104000" "kernel_end (proc_one ps) = 0x80100000" "freelist (proc_one ps) = 0"
  by (simp_all add: proc_one_def sysst.extend_def procst.fields_def sys_one_def filest.extend_def sysst.fields_def file_one_def kmst.extend_def
      filest.fields_def km_boot_def fsst.extend_def kmst.fields_def fs_one_def)

definition parent_proc :: proc where
  "parent_proc = zero_proc\<lparr>p_pid := 1, p_state := RUNNING, p_kstack := 0x80105000, p_pgdir := 0x80106000\<rparr>"

definition child_proc :: proc where
  "child_proc = zero_proc\<lparr>p_pid := 2, p_state := RUNNABLE, p_kstack := 0x80107000, p_pgdir := 0x80108000, p_parent := Some 0\<rparr>"

theorem wait_exit_wakeup_witness:
  "\<exists>s' t'. wait (proc_one [parent_proc, child_proc]) = Switch s' \<and>
     exit_zombie 1 (proc_one [parent_proc\<lparr>p_state := SLEEPING, p_chan := Some (Ch_proc 0)\<rparr>, child_proc\<lparr>p_state := RUNNING\<rparr>]\<lparr>cur := Some 1\<rparr>) = Switch t' \<and>
     p_state (ptable t' ! 0) = RUNNABLE \<and> p_state (ptable t' ! 1) = ZOMBIE"
proof -
  let ?s = "proc_one [parent_proc, child_proc]"
  let ?t = "proc_one [parent_proc\<lparr>p_state := SLEEPING, p_chan := Some (Ch_proc 0)\<rparr>, child_proc\<lparr>p_state := RUNNING\<rparr>]\<lparr>cur := Some 1\<rparr>"
  show ?thesis using wait_exit_wakeup [of ?s 0 ?t 1 0] by (auto simp: parent_proc_def child_proc_def zero_proc_def)
qed

lemma long_run:
  assumes "i \<le> 1" and "s = proc_one (child_proc # replicate 63 zero_proc)\<lparr>klocks := [L_ptable], cur := c, cpu_idle := d, cr3 := e\<rparr>"
  shows "\<exists>ls. length ls = n \<and> cpu_run 0 (i, s) ls"
  using assms
proof (induction n arbitrary: i s c d e)
  case 0
  then show ?case using cpu_run_Nil by simp
next
  case (Suc n)
  let ?ps = "child_proc # replicate 63 zero_proc"
  have w: "waiting 0 s" using Suc.prems(2) by (simp add: waiting_def NPROC_def child_proc_def)
  have "\<exists>l j c d e. j \<le> 1 \<and> cpu_step (i, s) l (j, proc_one ?ps\<lparr>klocks := [L_ptable], cur := c, cpu_idle := d, cr3 := e\<rparr>)"
  proof (cases "i = 0")
    case True
    then have "runnable_from i ?ps = Some 0" by (simp add: runnable_from_def child_proc_def)
    then obtain t where t: "scheduler_scan i s = Switch t" "cur t = Some 0"
      using Suc.prems(2) by (simp add: scheduler_scan_def kdefs switchuvm_def upd_proc_def child_proc_def)
    have "scheduler_leave s = Ok () (proc_one ?ps\<lparr>klocks := [L_ptable], cur := None, cpu_idle := d, cr3 := V2P 0x80104000\<rparr>)"
      using Suc.prems(2) by (simp add: scheduler_leave_def switchkvm_def kdefs)
    from cpu_step.dispatch [OF t this] show ?thesis by (intro exI conjI) (rule eq_imp_le, rule add_0, assumption)
  next
    case False
    then have "i = 1" using Suc.prems(1) by simp
    then have "runnable_from i ?ps = None" by (simp add: runnable_from_def find_index_None zero_proc_def)
    then obtain t where t: "scheduler_scan i s = Ok () t"
      using Suc.prems(2) by (simp add: scheduler_scan_def kdefs release_def)
    have "scheduler_enter (s\<lparr>klocks := []\<rparr>) = Ok () (proc_one ?ps\<lparr>klocks := [L_ptable], cur := c, cpu_idle := True, cr3 := e\<rparr>)"
      using Suc.prems(2) by (simp add: scheduler_enter_def acquire_def kdefs)
    from cpu_step.pass [OF t this] show ?thesis by (intro exI conjI) (rule le0, assumption)
  qed
  then obtain l j c' d' e' where st: "j \<le> 1" "cpu_step (i, s) l (j, proc_one ?ps\<lparr>klocks := [L_ptable], cur := c', cpu_idle := d', cr3 := e'\<rparr>)" by blast
  from Suc.IH [OF st(1) refl] obtain ls where "length ls = n" "cpu_run 0 (j, proc_one ?ps\<lparr>klocks := [L_ptable], cur := c', cpu_idle := d', cr3 := e'\<rparr>) ls" by blast
  then show ?case using cpu_run_Cons [of 0 "(i, s)"] w st(2) by (intro exI [of _ "l # ls"]) auto
qed

theorem scheduler_no_starvation_witness:
  "\<exists>s ls. cpu_run 0 (1, s :: procst) ls \<and> length ls = 65 \<and> Some 0 \<in> set ls \<and> (\<exists>l c. cpu_step (1, s) l c)"
proof -
  let ?s = "proc_one (child_proc # replicate 63 zero_proc)\<lparr>klocks := [L_ptable], cur := None, cpu_idle := True, cr3 := 0\<rparr>"
  obtain ls where ls: "length ls = 65" "cpu_run 0 (1, ?s) ls" using long_run [OF le_refl refl] by blast
  have "L_ptable \<in> set (klocks ?s)" "\<forall>p \<in> set (ptable ?s). p_state p = RUNNABLE \<longrightarrow> p_kstack p \<noteq> 0 \<and> p_pgdir p \<noteq> 0"
    by (auto simp: child_proc_def zero_proc_def)
  then have "\<exists>l c. cpu_step (1, ?s) l c" using scheduler_no_starvation [of 0 1 ?s ls] by blast
  moreover have "Some 0 \<in> set ls" using scheduler_no_starvation [of 0 1 ?s ls] ls by (simp add: NPROC_def)
  ultimately show ?thesis using ls by blast
qed

end
