(* ===== verification/Console.thy ===== *)
theory Console
  imports Proc
begin

text \<open>
  The console: \<^verbatim>\<open>kernel/console.c\<close> with the keyboard (\<^verbatim>\<open>kernel/kbd.c\<close>, \<^verbatim>\<open>kernel/kbd.h\<close>) and the serial
  port (\<^verbatim>\<open>kernel/uart.c\<close>). Output goes to the screen memory, which is part of the kernel's memory, and to the serial
  port. Input is edited in a ring buffer; the lemmas show that the buffer implements a line editor and that
  the cursor never leaves the screen.

  The devices are the registers that the code reads and writes: the position of the cursor, the bytes that wait at the
  keyboard and at the serial port, and the bytes sent to the serial port. The return addresses that
  \<^verbatim>\<open>procdump\<close> finds on the stack of a sleeping process are a parameter.
\<close>

record consst = procst +
  cons_locking :: bool
  crt_pos :: int
  color :: int
  selected_row :: int
  is_showing_table :: bool
  crt_copy :: uint
  input_buf :: "uchar list"
  input_r :: uint
  input_w :: uint
  input_e :: uint
  kbd_shift :: uint
  kbd_in :: "uchar list"
  uart :: bool
  uart_in :: "uchar list"
  uart_out :: "uchar list"

definition BACKSPACE :: int where "BACKSPACE = 0x100"
definition INPUT_BUF :: nat where "INPUT_BUF = 128"
definition CONSOLE :: int where "CONSOLE = 1"
definition crt :: uint where "crt = P2V 0xb8000"

text \<open>\<^verbatim>\<open>C(x)\<close> and \<^verbatim>\<open>A(x)\<close>, which are the same.\<close>

definition Ctl :: "char \<Rightarrow> int" where
  "Ctl c = of_char c - of_char CHR ''@''"

definition Alt :: "char \<Rightarrow> int" where
  "Alt c = of_char c - of_char CHR ''@''"

section \<open>Output\<close>

definition uartputc :: "int \<Rightarrow> ('a consst_scheme, unit) kfun" where
  "uartputc c =
     bindK (getK uart) (\<lambda>u.
     whenK u (modK (\<lambda>s. s\<lparr>uart_out := uart_out s @ [word_of_int c]\<rparr>)))"

definition wr16 :: "uint \<Rightarrow> ushort \<Rightarrow> ('a kmst_scheme, unit) kfun" where
  "wr16 a v = modK (\<lambda>s. s\<lparr>kmemory := (kmemory s)(a := ucast v, a + 1 := ucast (drop_bit 8 v))\<rparr>)"

text \<open>\<^verbatim>\<open>crt[i] = v\<close>, for any index.\<close>

definition crt_set :: "int \<Rightarrow> int \<Rightarrow> ('a consst_scheme, unit) kfun" where
  "crt_set i v = wr16 (crt + 2 * word_of_int i) (word_of_int v)"

definition cga_char :: "int \<Rightarrow> int \<Rightarrow> int \<Rightarrow> ('a consst_scheme, int) kfun" where
  "cga_char c pos col =
     (if c = 10 then retK (pos + 80 - c_mod pos 80)
      else if c = BACKSPACE then retK (if pos > 0 then pos - 1 else pos)
      else thenK (crt_set pos (c mod 256 OR col)) (retK (pos + 1)))"

definition cga_scroll :: "int \<Rightarrow> ('a consst_scheme, int) kfun" where
  "cga_scroll pos =
     (if pos div 80 \<ge> 24 then
        thenK (memmoveK crt (crt + 160) (2 * 23 * 80)) (
        let pos = pos - 80 in
        thenK (memsetK (crt + 2 * word_of_int pos) 0 (2 * word_of_int (24 * 80 - pos))) (
        retK pos))
      else retK pos)"

definition cgaputc :: "int \<Rightarrow> ('a consst_scheme, unit) kfun" where
  "cgaputc c =
     bindK (getK (\<lambda>s. (crt_pos s, color s))) (\<lambda>(pos, col).
     bindK (cga_char c pos col) (\<lambda>pos.
     if pos < 0 \<or> pos > 25 * 80 then panic ''pos under/overflow'' else
     bindK (cga_scroll pos) (\<lambda>pos.
     thenK (modK (\<lambda>s. s\<lparr>crt_pos := pos mod 65536\<rparr>)) (
     crt_set pos (0x20 OR 0x0700)))))"

definition consputc :: "int \<Rightarrow> ('a consst_scheme, unit) kfun" where
  "consputc c =
     thenK (if c = BACKSPACE then thenK (uartputc 8) (thenK (uartputc 0x20) (uartputc 8)) else uartputc c) (
     cgaputc c)"

section \<open>Formatted output\<close>

definition digit_char :: "nat \<Rightarrow> uchar" where
  "digit_char d = (if d < 10 then 48 + of_nat d else 97 + of_nat (d - 10))"

text \<open>The buffer of \<^verbatim>\<open>printint\<close>, in the order it is printed. 32 digits are more than any number has.\<close>

definition printint :: "uint \<Rightarrow> nat \<Rightarrow> bool \<Rightarrow> uchar list" where
  "printint xx base sign =
     (let neg = sign \<and> sint xx < 0;
          x = if neg then - xx else xx in
      (if neg then [45] else []) @ rev (map digit_char (digits_rev 32 base (unat x))))"

text \<open>The arguments of \<^verbatim>\<open>cprintf\<close>: words, and strings (\<open>None\<close> for null).\<close>

datatype cprintf_arg = Arg_word uint | Arg_str "uchar list option"

fun cprintf_text :: "uchar list \<Rightarrow> cprintf_arg list \<Rightarrow> uchar list option" where
  "cprintf_text [] as = Some []"
| "cprintf_text [c] as = (if c = 37 then Some [] else Some [c])"
| "cprintf_text (c # d # fmt) as =
     (if c \<noteq> 37 then map_option (\<lambda>t. c # t) (cprintf_text (d # fmt) as)
      else if d = 100 then
        (case as of Arg_word x # as \<Rightarrow> map_option (\<lambda>t. printint x 10 True @ t) (cprintf_text fmt as) | _ \<Rightarrow> None)
      else if d = 120 \<or> d = 112 then
        (case as of Arg_word x # as \<Rightarrow> map_option (\<lambda>t. printint x 16 False @ t) (cprintf_text fmt as) | _ \<Rightarrow> None)
      else if d = 115 then
        (case as of Arg_str x # as \<Rightarrow>
           map_option (\<lambda>t. (case x of None \<Rightarrow> map of_char ''(null)'' | Some str \<Rightarrow> takeWhile (\<lambda>c. c \<noteq> 0) str) @ t) (cprintf_text fmt as)
         | _ \<Rightarrow> None)
      else if d = 37 then map_option (\<lambda>t. 37 # t) (cprintf_text fmt as)
      else map_option (\<lambda>t. 37 # d # t) (cprintf_text fmt as))"

definition put_text :: "uchar list \<Rightarrow> ('a consst_scheme, unit) kfun" where
  "put_text cs = forK cs (\<lambda>c. consputc (uint c))"

definition cprintf :: "string \<Rightarrow> cprintf_arg list \<Rightarrow> ('a consst_scheme, unit) kfun" where
  "cprintf fmt as =
     bindK (getK cons_locking) (\<lambda>locking.
     thenK (whenK locking (acquire L_cons)) (
     thenK (case cprintf_text (map of_char fmt) as of None \<Rightarrow> undefK | Some t \<Rightarrow> put_text t) (
     whenK locking (release L_cons))))"

text \<open>The lines of \<^verbatim>\<open>procdump\<close>: pid, state and name, and for a sleeping process its return addresses up to the first 0.\<close>

fun state_name :: "procstate \<Rightarrow> string" where
  "state_name UNUSED = ''unused''"
| "state_name EMBRYO = ''embryo''"
| "state_name SLEEPING = ''sleep ''"
| "state_name RUNNABLE = ''runble''"
| "state_name RUNNING = ''run   ''"
| "state_name ZOMBIE = ''zombie''"

definition procdump :: "(nat \<Rightarrow> uint list) \<Rightarrow> ('a consst_scheme, unit) kfun" where
  "procdump callerpcs =
     bindK (getK (\<lambda>s. length (ptable s))) (\<lambda>n.
     forK [0..<n] (\<lambda>i.
     bindK (getK (\<lambda>s. ptable s ! i)) (\<lambda>p.
     whenK (p_state p \<noteq> UNUSED) (
       thenK (cprintf ''%d %s %s'' [Arg_word (word_of_int (p_pid p)), Arg_str (Some (map of_char (state_name (p_state p)))), Arg_str (Some (p_name p))]) (
       thenK (whenK (p_state p = SLEEPING) (
         forK (takeWhile (\<lambda>pc. pc \<noteq> 0) (take 10 (callerpcs i))) (\<lambda>pc. cprintf '' %p'' [Arg_word pc]))) (
       cprintf [CHR 0x0A] []))))))"

section \<open>The color table\<close>

definition selectable_color_names :: "string list" where
  "selectable_color_names = [''WHT BLK'', ''PUR WHT'', ''RED AQU'', ''WHT YEL'']"

definition selectable_colors :: "int list" where
  "selectable_colors = [0x0f00, 0xfd00, 0x3c00, 0x6f00]"

definition base_color :: int where "base_color = 0x7000"
definition selected_color :: int where "selected_color = 0x2000"

text \<open>The character and the color of the table at row \<open>i\<close> and column \<open>j\<close>.\<close>

definition table_cell :: "int \<Rightarrow> nat \<Rightarrow> nat \<Rightarrow> int" where
  "table_cell selected i j =
     (if (i = 0 \<or> i = 8) \<and> (j = 0 \<or> j = 8) then of_char CHR ''+'' OR base_color
      else if j = 0 \<or> j = 8 then of_char CHR ''|'' OR base_color
      else if i = 0 \<or> i = 8 \<or> i mod 2 = 0 then of_char CHR ''-'' OR base_color
      else of_char (selectable_color_names ! (i div 2) ! (j - 1)) OR
        (if int i = selected then base_color else if int (i div 2) = selected then selected_color else base_color))"

text \<open>The position of the table: nine rows above the cursor.\<close>

definition table_pos :: "int \<Rightarrow> int" where
  "table_pos pos = (let pos = pos - 9 * 80 in if c_mod pos 80 + 9 > 80 then pos - 9 else pos)"

definition show_table :: "('a consst_scheme, unit) kfun" where
  "show_table =
     bindK (getK (\<lambda>s. (crt_pos s, selected_row s))) (\<lambda>(pos, selected).
     forK [0..<9] (\<lambda>i. forK [0..<9] (\<lambda>j.
       crt_set (table_pos pos + 80 * int i + int j) (table_cell selected i j))))"

definition copy_crt :: "('a consst_scheme, unit) kfun" where
  "copy_crt =
     bindK kalloc (\<lambda>copy.
     thenK (modK (\<lambda>s. s\<lparr>crt_copy := copy\<rparr>)) (
     if copy = 0 then cprintf (''Error: Failed to allocate memory for CRT copy'' @ [CHR 0x0A]) [] else
     memmoveK copy crt (2 * 80 * 25)))"

definition restore_crt :: "('a consst_scheme, unit) kfun" where
  "restore_crt =
     bindK (getK crt_copy) (\<lambda>copy.
     if copy = 0 then undefK else
     thenK (memmoveK crt copy (2 * 80 * 25)) (
     thenK (kfree copy) (
     modK (\<lambda>s. s\<lparr>crt_copy := 0\<rparr>))))"

section \<open>Input\<close>

definition backspace :: "('a consst_scheme, unit) kfun" where
  "backspace =
     thenK (modK (\<lambda>s. s\<lparr>input_e := input_e s - 1\<rparr>)) (
     consputc BACKSPACE)"

fun kill_line :: "nat \<Rightarrow> ('a consst_scheme, unit) kfun" where
  "kill_line 0 = retK ()"
| "kill_line (Suc n) =
     bindK (getK (\<lambda>s. input_e s \<noteq> input_w s \<and> input_buf s ! (unat (input_e s - 1) mod INPUT_BUF) \<noteq> 10)) (\<lambda>go.
     if go then thenK backspace (kill_line n) else retK ())"

definition put_key :: "int \<Rightarrow> ('a consst_scheme, unit) kfun" where
  "put_key c0 =
     (let c = if c0 = 13 then 10 else c0 in
      thenK (modK (\<lambda>s. s\<lparr>input_buf := (input_buf s)[unat (input_e s) mod INPUT_BUF := word_of_int c]\<rparr>)) (
      thenK (modK (\<lambda>s. s\<lparr>input_e := input_e s + 1\<rparr>)) (
      bindK (getK cons_echo) (\<lambda>echo.
      thenK (if echo = 0 \<and> c \<noteq> 10 then consputc (of_char CHR ''*'') else consputc c) (
      bindK (getK (\<lambda>s. c = 10 \<or> c = Ctl CHR ''D'' \<or> input_e s = input_r s + of_nat INPUT_BUF)) (\<lambda>line.
      whenK line (
        thenK (modK (\<lambda>s. s\<lparr>input_w := input_e s\<rparr>)) (
        wakeup Ch_input))))))))"

definition move_selection :: "int \<Rightarrow> int \<Rightarrow> int" where
  "move_selection c row =
     (if c = of_char CHR ''w'' then (if row - 1 < 0 then 0 else row - 1)
      else if c = of_char CHR ''s'' then (if row + 1 \<ge> 4 then row else row + 1)
      else row)"

text \<open>One turn of the loop of \<^verbatim>\<open>consoleintr\<close>; the result is whether to call \<^verbatim>\<open>procdump\<close>.\<close>

definition cons_key :: "int \<Rightarrow> ('a consst_scheme, bool) kfun" where
  "cons_key c =
     (if c = Ctl CHR ''P'' then retK True
      else if c = Ctl CHR ''U'' then
        bindK (getK (\<lambda>s. unat (input_e s - input_w s))) (\<lambda>n.
        thenK (kill_line n) (
        retK False))
      else if c = Ctl CHR ''H'' \<or> c = 0x7f then
        bindK (getK (\<lambda>s. input_e s \<noteq> input_w s)) (\<lambda>some.
        thenK (whenK some backspace) (
        retK False))
      else if c = Alt CHR ''C'' then
        thenK (modK (\<lambda>s. s\<lparr>is_showing_table := \<not> is_showing_table s\<rparr>)) (
        bindK (getK is_showing_table) (\<lambda>showing.
        thenK (if showing then thenK copy_crt show_table
               else thenK restore_crt (modK (\<lambda>s. s\<lparr>color := selectable_colors ! nat (selected_row s)\<rparr>))) (
        retK False)))
      else
        bindK (getK (\<lambda>s. (is_showing_table s, input_e s - input_r s < of_nat INPUT_BUF))) (\<lambda>(showing, room).
        thenK (if showing then thenK (modK (\<lambda>s. s\<lparr>selected_row := move_selection c (selected_row s)\<rparr>)) show_table
               else whenK (c \<noteq> 0 \<and> room) (put_key c)) (
        retK False)))"

text \<open>
  The loop over the keys that \<^verbatim>\<open>getc\<close> returns; \<open>False\<close> in the second result is a loop that has run out of fuel. Every
  byte a device holds gives one key, so one turn more than there are bytes is enough.
\<close>

fun consoleintr_loop :: "('a consst_scheme, int) kfun \<Rightarrow> nat \<Rightarrow> bool \<Rightarrow> ('a consst_scheme, bool \<times> bool) kfun" where
  "consoleintr_loop getc 0 doprocdump = retK (doprocdump, False)"
| "consoleintr_loop getc (Suc fuel) doprocdump =
     bindK getc (\<lambda>c.
     if c < 0 then retK (doprocdump, True) else
     bindK (cons_key c) (\<lambda>d.
     consoleintr_loop getc fuel (doprocdump \<or> d)))"

definition consoleintr :: "(nat \<Rightarrow> uint list) \<Rightarrow> ('a consst_scheme, int) kfun \<Rightarrow> nat \<Rightarrow> ('a consst_scheme, bool) kfun" where
  "consoleintr callerpcs getc fuel =
     thenK (acquire L_cons) (
     bindK (consoleintr_loop getc fuel False) (\<lambda>(doprocdump, ended).
     if \<not> ended then retK False else
     thenK (release L_cons) (
     thenK (whenK doprocdump (procdump callerpcs)) (
     retK True))))"

text \<open>\<^verbatim>\<open>consoleread\<close>: \<open>acc\<close> holds the bytes stored so far. When it sleeps it goes on later with the same \<open>n\<close> and \<open>acc\<close>.\<close>

fun consoleread_loop :: "nat \<Rightarrow> nat \<Rightarrow> uchar list \<Rightarrow> ('a consst_scheme, uchar list option) kfun" where
  "consoleread_loop target 0 acc = retK (Some acc)"
| "consoleread_loop target (Suc n) acc =
     bindK (getK (\<lambda>s. input_r s = input_w s)) (\<lambda>none.
     if none then
       bindK my_killed (\<lambda>killed.
       if killed then retK None else sleep Ch_input L_cons)
     else
       bindK (getK (\<lambda>s. input_buf s ! (unat (input_r s) mod INPUT_BUF))) (\<lambda>c.
       thenK (modK (\<lambda>s. s\<lparr>input_r := input_r s + 1\<rparr>)) (
       if sint c = Ctl CHR ''D'' then
         thenK (whenK (Suc n < target) (modK (\<lambda>s. s\<lparr>input_r := input_r s - 1\<rparr>))) (
         retK (Some acc))
       else if c = 10 then retK (Some (acc @ [c]))
       else consoleread_loop target n (acc @ [c]))))"

definition consoleread_locked :: "nat \<Rightarrow> nat \<Rightarrow> nat \<Rightarrow> uchar list \<Rightarrow> ('a consst_scheme, int \<times> uchar list) kfun" where
  "consoleread_locked ip target n acc =
     bindK (consoleread_loop target n acc) (\<lambda>r.
     thenK (release L_cons) (
     thenK (ilock ip) (
     case r of None \<Rightarrow> retK (-1, []) | Some bs \<Rightarrow> retK (int (length bs), bs))))"

definition consoleread :: "nat \<Rightarrow> int \<Rightarrow> ('a consst_scheme, int \<times> uchar list) kfun" where
  "consoleread ip n =
     thenK (iunlock ip) (
     thenK (acquire L_cons) (
     consoleread_locked ip (nat n) (nat n) []))"

definition consolewrite :: "nat \<Rightarrow> uchar list \<Rightarrow> int \<Rightarrow> ('a consst_scheme, int) kfun" where
  "consolewrite ip buf n =
     thenK (iunlock ip) (
     thenK (acquire L_cons) (
     thenK (put_text (take (nat n) buf)) (
     thenK (release L_cons) (
     thenK (ilock ip) (
     retK n)))))"

definition console_devsw :: "int \<Rightarrow> 'a consst_scheme devsw" where
  "console_devsw major =
     (if major = CONSOLE then \<lparr>dev_read = Some consoleread, dev_write = Some consolewrite\<rparr>
      else \<lparr>dev_read = None, dev_write = None\<rparr>)"

definition consoleinit :: "('a consst_scheme, unit) kfun" where
  "consoleinit = modK (\<lambda>s. s\<lparr>cons_locking := True\<rparr>)"

section \<open>The keyboard\<close>

definition SHIFT :: uint where "SHIFT = 1"
definition CTL :: uint where "CTL = 2"
definition ALT :: uint where "ALT = 4"
definition CAPSLOCK :: uint where "CAPSLOCK = 8"
definition NUMLOCK :: uint where "NUMLOCK = 16"
definition SCROLLLOCK :: uint where "SCROLLLOCK = 32"
definition E0ESC :: uint where "E0ESC = 64"

text \<open>A table of 256 entries given by its first entries and by some others; the rest is 0.\<close>

definition keymap :: "uchar list \<Rightarrow> (nat \<times> uchar) list \<Rightarrow> nat \<Rightarrow> uchar" where
  "keymap xs ys i = (case map_of ys i of Some c \<Rightarrow> c | None \<Rightarrow> if i < length xs then xs ! i else 0)"

definition shiftcode :: "nat \<Rightarrow> uint" where
  "shiftcode i = (if i = 0x1D \<or> i = 0x9D then CTL else if i = 0x2A \<or> i = 0x36 then SHIFT else if i = 0x38 \<or> i = 0xB8 then ALT else 0)"

definition togglecode :: "nat \<Rightarrow> uint" where
  "togglecode i = (if i = 0x3A then CAPSLOCK else if i = 0x45 then NUMLOCK else if i = 0x46 then SCROLLLOCK else 0)"

definition normalmap :: "nat \<Rightarrow> uchar" where
  "normalmap = keymap
     [0, 27, 49, 50, 51, 52, 53, 54, 55, 56, 57, 48, 45, 61, 8, 9,
      113, 119, 101, 114, 116, 121, 117, 105, 111, 112, 91, 93, 10, 0, 97, 115,
      100, 102, 103, 104, 106, 107, 108, 59, 39, 96, 0, 92, 122, 120, 99, 118,
      98, 110, 109, 44, 46, 47, 0, 42, 0, 32, 0, 0, 0, 0, 0, 0,
      0, 0, 0, 0, 0, 0, 0, 55, 56, 57, 45, 52, 53, 54, 43, 49,
      50, 51, 48, 46, 0, 0, 0, 0]
     [(0x9C, 10), (0xB5, 47), (0xC8, 226), (0xD0, 227), (0xC9, 230), (0xD1, 231), (0xCB, 228), (0xCD, 229), (0x97, 224), (0xCF, 225), (0xD2, 232), (0xD3, 233)]"

definition shiftmap :: "nat \<Rightarrow> uchar" where
  "shiftmap = keymap
     [0, 27, 33, 64, 35, 36, 37, 94, 38, 42, 40, 41, 95, 43, 8, 9,
      81, 87, 69, 82, 84, 89, 85, 73, 79, 80, 123, 125, 10, 0, 65, 83,
      68, 70, 71, 72, 74, 75, 76, 58, 34, 126, 0, 124, 90, 88, 67, 86,
      66, 78, 77, 60, 62, 63, 0, 42, 0, 32, 0, 0, 0, 0, 0, 0,
      0, 0, 0, 0, 0, 0, 0, 55, 56, 57, 45, 52, 53, 54, 43, 49,
      50, 51, 48, 46, 0, 0, 0, 0]
     [(0x9C, 10), (0xB5, 47), (0xC8, 226), (0xD0, 227), (0xC9, 230), (0xD1, 231), (0xCB, 228), (0xCD, 229), (0x97, 224), (0xCF, 225), (0xD2, 232), (0xD3, 233)]"

definition ctlmap :: "nat \<Rightarrow> uchar" where
  "ctlmap = keymap
     [0, 0, 0, 0, 0, 0, 0, 0, 0, 0, 0, 0, 0, 0, 0, 0,
      17, 23, 5, 18, 20, 25, 21, 9, 15, 16, 0, 0, 13, 0, 1, 19,
      4, 6, 7, 8, 10, 11, 12, 0, 0, 0, 0, 28, 26, 24, 3, 22,
      2, 14, 13, 0, 0, 239, 0, 0]
     [(0x9C, 13), (0xB5, 239), (0xC8, 226), (0xD0, 227), (0xC9, 230), (0xD1, 231), (0xCB, 228), (0xCD, 229), (0x97, 224), (0xCF, 225), (0xD2, 232), (0xD3, 233)]"

definition altmap :: "nat \<Rightarrow> uchar" where
  "altmap = keymap
     [0, 0, 0, 0, 0, 0, 0, 0, 0, 0, 0, 0, 0, 0, 0, 0,
      0, 0, 0, 0, 0, 0, 0, 0, 0, 0, 0, 0, 0, 0, 0, 0,
      0, 0, 0, 0, 0, 0, 0, 0, 0, 0, 0, 0, 0, 0, 3, 0,
      0, 0, 0, 0, 0, 0, 0, 0]
     [(0x9C, 13), (0xB5, 239), (0xC8, 226), (0xD0, 227), (0xC9, 230), (0xD1, 231), (0xCB, 228), (0xCD, 229), (0x97, 224), (0xCF, 225), (0xD2, 232), (0xD3, 233)]"

definition charcode :: "nat \<Rightarrow> nat \<Rightarrow> uchar" where
  "charcode k = [normalmap, shiftmap, ctlmap, ctlmap, altmap, altmap, altmap, altmap] ! k"

definition swap_case :: "uchar \<Rightarrow> uchar" where
  "swap_case c = (if 97 \<le> c \<and> c \<le> 122 then c - 32 else if 65 \<le> c \<and> c \<le> 90 then c + 32 else c)"

text \<open>What a byte from the keyboard does to the shift state, and the character it gives.\<close>

definition kbd_byte :: "uint \<Rightarrow> uchar \<Rightarrow> uint \<times> int" where
  "kbd_byte shift b =
     (if b = 0xE0 then (shift OR E0ESC, 0)
      else if b AND 0x80 \<noteq> 0 then
        let data = (if shift AND E0ESC \<noteq> 0 then b else b AND 0x7F) in
        (shift AND NOT (shiftcode (unat data) OR E0ESC), 0)
      else
        let esc = (shift AND E0ESC \<noteq> 0);
            data = unat (if esc then b OR 0x80 else b);
            shift = (if esc then shift AND NOT E0ESC else shift);
            shift = (shift OR shiftcode data) XOR togglecode data;
            c = charcode (unat (shift AND (CTL OR ALT OR SHIFT))) data in
        (shift, uint (if shift AND CAPSLOCK \<noteq> 0 then swap_case c else c)))"

definition kbdgetc :: "('a consst_scheme, int) kfun" where
  "kbdgetc =
     bindK (getK (\<lambda>s. (kbd_in s, kbd_shift s))) (\<lambda>(bs, shift).
     case bs of [] \<Rightarrow> retK (-1) | b # bs \<Rightarrow>
     let (shift, c) = kbd_byte shift b in
     thenK (modK (\<lambda>s. s\<lparr>kbd_in := bs, kbd_shift := shift\<rparr>)) (
     retK c))"

definition kbdintr :: "(nat \<Rightarrow> uint list) \<Rightarrow> ('a consst_scheme, bool) kfun" where
  "kbdintr callerpcs =
     bindK (getK (\<lambda>s. length (kbd_in s))) (\<lambda>n.
     consoleintr callerpcs kbdgetc (n + 1))"

section \<open>The serial port\<close>

definition uartgetc :: "('a consst_scheme, int) kfun" where
  "uartgetc =
     bindK (getK (\<lambda>s. (uart s, uart_in s))) (\<lambda>(u, bs).
     if \<not> u then retK (-1) else
     case bs of [] \<Rightarrow> retK (-1) | b # bs \<Rightarrow>
     thenK (modK (\<lambda>s. s\<lparr>uart_in := bs\<rparr>)) (
     retK (uint b)))"

definition uartintr :: "(nat \<Rightarrow> uint list) \<Rightarrow> ('a consst_scheme, bool) kfun" where
  "uartintr callerpcs =
     bindK (getK (\<lambda>s. length (uart_in s))) (\<lambda>n.
     consoleintr callerpcs uartgetc (n + 1))"

section \<open>Numbers fit their buffer\<close>

lemma printint_length: "10 \<le> base \<Longrightarrow> length (printint xx base sign) \<le> 11"
proof -
  assume b: "10 \<le> base"
  let ?x = "unat (if sign \<and> sint xx < 0 then - xx else xx)"
  have "?x < 2 ^ 32" using unat_lt_2p32 [of "if sign \<and> sint xx < 0 then - xx else xx"] by simp
  also have "2 ^ 32 \<le> (10 :: nat) ^ Suc 9" by simp
  also have "(10 :: nat) ^ Suc 9 \<le> base ^ Suc 9" using b by (rule power_mono) simp
  finally have "length (digits_rev 32 base ?x) \<le> Suc 9" using b by (intro digits_rev_length) simp_all
  then show ?thesis by (auto simp: printint_def Let_def)
qed

section \<open>Output stays on the screen\<close>

text \<open>The screen has 25 lines of 80 characters of two bytes; the cursor stays on the first 24 lines.\<close>

definition on_screen :: "uint \<Rightarrow> bool" where
  "on_screen a \<longleftrightarrow> unat (a - crt) < 4000"

definition cursor_ok :: "int \<Rightarrow> bool" where
  "cursor_ok p \<longleftrightarrow> 0 \<le> p \<and> p < 24 * 80"

text \<open>States that differ in the output devices only.\<close>

definition output_only :: "'a consst_scheme \<Rightarrow> 'a consst_scheme \<Rightarrow> bool" where
  "output_only s s' \<longleftrightarrow> (\<exists>p m u. s' = s\<lparr>kmemory := m, crt_pos := p, uart_out := u\<rparr> \<and> (\<forall>a. \<not> on_screen a \<longrightarrow> m a = kmemory s a))"

lemma output_only_refl: "output_only s s"
  unfolding output_only_def by (intro exI [of _ "crt_pos s"] exI [of _ "kmemory s"] exI [of _ "uart_out s"]) simp

lemma output_only_trans: "output_only s t \<Longrightarrow> output_only t u \<Longrightarrow> output_only s u"
  unfolding output_only_def by force

lemma crt_cell:
  assumes "0 \<le> i" and "i < 2000"
  shows "unat (crt + 2 * word_of_int i - crt) = 2 * nat i" "unat (crt + 2 * word_of_int i + 1 - crt) = 2 * nat i + 1"
proof -
  have i: "unat (word_of_int i :: uint) = nat i" using assms by (simp add: unsigned_of_int take_bit_int_eq_self)
  have "unat (2 * word_of_int i :: uint) = 2 * nat i" using i assms by (subst unat_mult_lem [THEN iffD1]) simp_all
  then show "unat (crt + 2 * word_of_int i - crt) = 2 * nat i" "unat (crt + 2 * word_of_int i + 1 - crt) = 2 * nat i + 1"
    using assms unat_add_noovf [of "2 * word_of_int i" 1] by simp_all
qed

lemma crt_set_run:
  assumes "0 \<le> i" and "i < 2000"
  shows "\<exists>m. crt_set i v s = Ok () (s\<lparr>kmemory := m\<rparr>) \<and> (\<forall>a. \<not> on_screen a \<longrightarrow> m a = kmemory s a)"
proof -
  have "on_screen (crt + 2 * word_of_int i)" "on_screen (crt + 2 * word_of_int i + 1)"
    using crt_cell [OF assms] assms by (simp_all add: on_screen_def)
  then show ?thesis by (auto simp: crt_set_def wr16_def kdefs)
qed

lemma copy_up_outside: "n \<le> unat (a - d) \<Longrightarrow> copy_up m d src n a = m a"
proof (induction n arbitrary: m d src)
  case (Suc n)
  then have "a - d \<noteq> 0" by auto
  then have "n \<le> unat (a - (d + 1))" using Suc.prems unat_Suc_diff [of a d] by simp
  then show ?case using Suc \<open>a - d \<noteq> 0\<close> by auto
qed simp

lemma memmove_crt: "\<not> on_screen a \<Longrightarrow> memmove m crt (crt + 160) 3680 a = m a"
  by (simp add: memmove_def copy_up_outside on_screen_def crt_def P2V_def KERNBASE_def)

lemma memset_crt:
  assumes "0 \<le> p" and "p < 1920" and "\<not> on_screen a"
  shows "memset m (crt + 2 * word_of_int p) 0 (2 * word_of_int (1920 - p)) a = m a"
proof -
  have n: "unat (2 * word_of_int (1920 - p) :: uint) = 2 * nat (1920 - p)" using crt_cell(1) [of "1920 - p"] assms by simp
  have "2 * word_of_int p \<le> a - crt" using assms crt_cell(1) [of p] by (simp add: on_screen_def word_le_nat_alt)
  then have "unat (a - (crt + 2 * word_of_int p)) = unat (a - crt) - 2 * nat p"
    using unat_sub [of "2 * word_of_int p" "a - crt"] crt_cell(1) [of p] assms by (simp add: diff_diff_eq)
  moreover have "\<not> unat (a - crt) - 2 * nat p < 2 * nat (1920 - p)" using assms by (simp add: on_screen_def)
  ultimately show ?thesis by (simp only: memset_fills n if_False)
qed

definition off_screen_same :: "memory \<Rightarrow> memory \<Rightarrow> bool" where
  "off_screen_same m m' \<longleftrightarrow> (\<forall>a. \<not> on_screen a \<longrightarrow> m' a = m a)"

lemma cga_char_run:
  assumes "0 \<le> pos" and "pos < 1920"
  shows "\<exists>q m. cga_char c pos col s = Ok q (s\<lparr>kmemory := m\<rparr>) \<and> 0 \<le> q \<and> q \<le> 1920 \<and> off_screen_same (kmemory s) m"
proof -
  consider "c = 10" | "c \<noteq> 10" "c = BACKSPACE" | "c \<noteq> 10" "c \<noteq> BACKSPACE" by blast
  then show ?thesis
  proof cases
    case 1
    have "pos mod 80 < 80" by simp
    moreover have "pos + 80 - pos mod 80 \<le> 1920" using assms by presburger
    ultimately show ?thesis using 1 assms
      by (intro exI [of _ "pos + 80 - pos mod 80"] exI [of _ "kmemory s"]) (simp add: cga_char_def c_mod_nonneg kdefs off_screen_same_def)
  next
    case 2
    then show ?thesis using assms
      by (intro exI [of _ "if pos > 0 then pos - 1 else pos"] exI [of _ "kmemory s"]) (simp add: cga_char_def kdefs off_screen_same_def)
  next
    case 3
    obtain m where "crt_set pos (c mod 256 OR col) s = Ok () (s\<lparr>kmemory := m\<rparr>)" "\<forall>a. \<not> on_screen a \<longrightarrow> m a = kmemory s a"
      using crt_set_run [of pos "c mod 256 OR col" s] assms by auto
    then show ?thesis using 3 assms
      by (intro exI [of _ "pos + 1"] exI [of _ m]) (simp add: cga_char_def kdefs off_screen_same_def)
  qed
qed

lemma cga_scroll_run:
  assumes "0 \<le> q" and "q \<le> 1920"
  shows "\<exists>r m. cga_scroll q s = Ok r (s\<lparr>kmemory := m\<rparr>) \<and> 0 \<le> r \<and> r < 1920 \<and> off_screen_same (kmemory s) m"
proof (cases "q div 80 \<ge> 24")
  case True
  then have q: "q = 1920" using assms by linarith
  let ?m = "memset (memmove (kmemory s) crt (crt + 160) 3680) (crt + 2 * word_of_int (q - 80)) 0 (2 * word_of_int (1920 - (q - 80)))"
  have "off_screen_same (kmemory s) ?m" using q memset_crt [of "q - 80"] memmove_crt by (simp add: off_screen_same_def)
  moreover have "cga_scroll q s = Ok (q - 80) (s\<lparr>kmemory := ?m\<rparr>)" using True by (simp add: cga_scroll_def kdefs memmoveK_def memsetK_def Let_def)
  ultimately show ?thesis using q by (intro exI [of _ "q - 80"] exI [of _ ?m]) simp
next
  case False
  then have "q < 1920" by simp
  then show ?thesis using False assms
    by (intro exI [of _ q] exI [of _ "kmemory s"]) (simp add: cga_scroll_def kdefs off_screen_same_def)
qed

lemma cgaputc_run:
  assumes c: "cursor_ok (crt_pos s)"
  shows "\<exists>s'. cgaputc c s = Ok () s' \<and> output_only s s' \<and> cursor_ok (crt_pos s')"
proof -
  obtain q m where f: "cga_char c (crt_pos s) (color s) s = Ok q (s\<lparr>kmemory := m\<rparr>)" "0 \<le> q" "q \<le> 1920" "off_screen_same (kmemory s) m"
    using cga_char_run [of "crt_pos s" c "color s" s] c by (auto simp: cursor_ok_def)
  obtain r m' where g: "cga_scroll q (s\<lparr>kmemory := m\<rparr>) = Ok r (s\<lparr>kmemory := m'\<rparr>)" "0 \<le> r" "r < 1920" "off_screen_same m m'"
    using cga_scroll_run [OF f(2,3), of "s\<lparr>kmemory := m\<rparr>"] by auto
  obtain m2 where m2: "crt_set r (0x20 OR 0x0700) (s\<lparr>kmemory := m', crt_pos := r\<rparr>) = Ok () (s\<lparr>crt_pos := r, kmemory := m2\<rparr>)"
      "off_screen_same m' m2"
    using crt_set_run [of r "0x20 OR 0x0700" "s\<lparr>kmemory := m', crt_pos := r\<rparr>"] g by (auto simp: off_screen_same_def)
  have "cgaputc c s = Ok () (s\<lparr>crt_pos := r, kmemory := m2\<rparr>)"
    using f(1-3) g(1-3) m2(1) by (simp add: cgaputc_def kdefs)
  moreover have "output_only s (s\<lparr>crt_pos := r, kmemory := m2\<rparr>)"
    unfolding output_only_def using f(4) g(4) m2(2) by (intro exI [of _ r] exI [of _ m2] exI [of _ "uart_out s"]) (simp add: off_screen_same_def)
  ultimately show ?thesis using g by (auto simp: cursor_ok_def)
qed

lemma consputc_run:
  assumes "cursor_ok (crt_pos s)"
  shows "\<exists>s'. consputc c s = Ok () s' \<and> output_only s s' \<and> cursor_ok (crt_pos s')"
proof -
  have "\<exists>u. (if c = BACKSPACE then thenK (uartputc 8) (thenK (uartputc 0x20) (uartputc 8)) else uartputc c) s = Ok () (s\<lparr>uart_out := u\<rparr>)"
    by (cases "uart s") (auto simp: uartputc_def kdefs intro: exI [of _ "uart_out s"])
  then obtain u where "(if c = BACKSPACE then thenK (uartputc 8) (thenK (uartputc 0x20) (uartputc 8)) else uartputc c) s = Ok () (s\<lparr>uart_out := u\<rparr>)" by blast
  moreover obtain s' where "cgaputc c (s\<lparr>uart_out := u\<rparr>) = Ok () s'" "output_only (s\<lparr>uart_out := u\<rparr>) s'" "cursor_ok (crt_pos s')"
    using cgaputc_run [of "s\<lparr>uart_out := u\<rparr>"] assms by auto
  moreover have "output_only s (s\<lparr>uart_out := u\<rparr>)" unfolding output_only_def
    by (intro exI [of _ "crt_pos s"] exI [of _ "kmemory s"] exI [of _ u]) simp
  ultimately show ?thesis using output_only_trans unfolding consputc_def thenK_def bindK_def by fastforce
qed

lemma put_text_run:
  assumes "cursor_ok (crt_pos s)"
  shows "\<exists>s'. put_text cs s = Ok () s' \<and> output_only s s' \<and> cursor_ok (crt_pos s')"
  using assms
proof (induction cs arbitrary: s)
  case Nil
  then show ?case using output_only_refl by (auto simp: put_text_def kdefs)
next
  case (Cons c cs)
  then obtain t where t: "consputc (uint c) s = Ok () t" "output_only s t" "cursor_ok (crt_pos t)" using consputc_run by blast
  from Cons.IH [OF t(3)] obtain s' where "put_text cs t = Ok () s'" "output_only t s'" "cursor_ok (crt_pos s')" by blast
  then show ?case using t output_only_trans by (fastforce simp: put_text_def kdefs)
qed

text \<open>
  (C35) Whatever text is written to the console, the cursor stays on the first 24 lines of the screen and only screen memory
  and the serial port are written; the check for an overflow of the cursor never fails.
\<close>

theorem put_text_on_screen:
  assumes "cursor_ok (crt_pos s)"
  shows "\<exists>s'. put_text cs s = Ok () s' \<and> output_only s s' \<and> cursor_ok (crt_pos s')"
  using assms by (rule put_text_run)

section \<open>The input buffer is a line editor\<close>

text \<open>Two adjoining parts of a ring buffer, and taking back the last element.\<close>

context ring
begin

lemma contents_append:
  assumes "unat (w - r) + unat (e - w) \<le> N"
  shows "unat (e - r) = unat (w - r) + unat (e - w)" "contents d r e = contents d r w @ contents d w e"
proof -
  have "e - r = (w - r) + (e - w)" by simp
  then show n: "unat (e - r) = unat (w - r) + unat (e - w)" using assms less unat_add_noovf [of "w - r" "e - w"] by simp
  show "contents d r e = contents d r w @ contents d w e"
  proof (rule nth_equalityI)
    fix i assume i: "i < length (contents d r e)"
    show "contents d r e ! i = (contents d r w @ contents d w e) ! i"
    proof (cases "i < unat (w - r)")
      case True
      then show ?thesis using i by (simp add: contents_def nth_append)
    next
      case False
      then obtain k where k: "i = unat (w - r) + k" by (metis le_iff_add not_less)
      then have "r + of_nat i = w + of_nat k" by simp
      then show ?thesis using i k n by (simp add: contents_def nth_append)
    qed
  qed (simp add: n)
qed

lemma contents_butlast:
  assumes "e \<noteq> w"
  shows "contents d w (e - 1) = butlast (contents d w e)" "last (contents d w e) = d ! slot (e - 1)"
    "unat (e - w) = Suc (unat (e - 1 - w))"
proof -
  have "unat (e - w) = Suc (unat (e - (w + 1)))" using assms by (intro unat_Suc_diff) simp
  then show n: "unat (e - w) = Suc (unat (e - 1 - w))" by (simp add: algebra_simps)
  show "contents d w (e - 1) = butlast (contents d w e)" unfolding contents_def n by simp
  have "w + of_nat (unat (e - 1 - w)) = e - 1" by simp
  then show "last (contents d w e) = d ! slot (e - 1)" unfolding contents_def n by (simp del: of_nat_unat)
qed

lemma put_second:
  assumes "length d = N" and "unat (w - r) + unat (e - w) < N"
  shows "contents (d[slot e := c]) r w = contents d r w" "contents (d[slot e := c]) w (e + 1) = contents d w e @ [c]"
    "unat (e + 1 - w) = Suc (unat (e - w))"
proof -
  note n = contents_append [of w r e]
  have room: "unat (e - r) < N" "unat (e - w) < N" using assms n(1) by simp_all
  show second: "contents (d[slot e := c]) w (e + 1) = contents d w e @ [c]" and u: "unat (e + 1 - w) = Suc (unat (e - w))"
    using put_contents [OF assms(1) room(2)] by simp_all
  have "contents (d[slot e := c]) r (e + 1) = contents d r e @ [c]" using put_contents(1) [OF assms(1) room(1)] .
  moreover have "contents (d[slot e := c]) r (e + 1) = contents (d[slot e := c]) r w @ contents (d[slot e := c]) w (e + 1)"
    using assms(2) u by (intro contents_append(2)) simp
  ultimately show "contents (d[slot e := c]) r w = contents d r w" using n(2) [of d] assms(2) by (simp add: second)
qed

end

interpretation cring: ring INPUT_BUF
  by unfold_locales (simp_all add: INPUT_BUF_def)

text \<open>What the buffer holds: the bytes that are ready to be read, and the line that is still edited.\<close>

definition input_ready :: "'a consst_scheme \<Rightarrow> uchar list" where
  "input_ready s = cring.contents (input_buf s) (input_r s) (input_w s)"

definition input_line :: "'a consst_scheme \<Rightarrow> uchar list" where
  "input_line s = cring.contents (input_buf s) (input_w s) (input_e s)"

definition input_ok :: "'a consst_scheme \<Rightarrow> bool" where
  "input_ok s \<longleftrightarrow> length (input_buf s) = INPUT_BUF \<and> unat (input_w s - input_r s) + unat (input_e s - input_w s) \<le> INPUT_BUF"

text \<open>The line editor that the buffer implements.\<close>

lemma key_codes [simp]: "Ctl CHR ''P'' = 16" "Ctl CHR ''U'' = 21" "Ctl CHR ''H'' = 8" "Ctl CHR ''D'' = 4" "Alt CHR ''C'' = 3"
  by (simp_all add: Ctl_def Alt_def)

definition edit_key :: "int \<Rightarrow> uchar list \<times> uchar list \<Rightarrow> uchar list \<times> uchar list" where
  "edit_key c = (\<lambda>(ready, line).
     if c = Ctl CHR ''U'' then (ready, rev (dropWhile (\<lambda>x. x \<noteq> 10) (rev line)))
     else if c = Ctl CHR ''H'' \<or> c = 0x7f then (ready, butlast line)
     else if c \<noteq> 0 \<and> c \<noteq> Ctl CHR ''P'' \<and> length ready + length line < INPUT_BUF then
       let c' = (if c = 13 then 10 else c); line' = line @ [word_of_int c'] in
       if c' = 10 \<or> c' = Ctl CHR ''D'' \<or> length ready + length line' = INPUT_BUF then (ready @ line', []) else (ready, line')
     else (ready, line))"

lemma input_lengths:
  "length (input_ready s) = unat (input_w s - input_r s)" "length (input_line s) = unat (input_e s - input_w s)"
  by (simp_all add: input_ready_def input_line_def)

text \<open>Output does not touch the input.\<close>

lemma output_only_input:
  assumes "output_only s s'"
  shows "input_buf s' = input_buf s" "input_r s' = input_r s" "input_w s' = input_w s" "input_e s' = input_e s"
    "input_ready s' = input_ready s" "input_line s' = input_line s" "input_ok s' = input_ok s"
    "klocks s' = klocks s" "ptable s' = ptable s" "cons_echo s' = cons_echo s" "is_showing_table s' = is_showing_table s"
    "kbd_in s' = kbd_in s" "uart_in s' = uart_in s" "cur s' = cur s"
  using assms by (auto simp: output_only_def input_ready_def input_line_def input_ok_def)

definition same_env :: "'a consst_scheme \<Rightarrow> 'a consst_scheme \<Rightarrow> bool" where
  "same_env s s' \<longleftrightarrow> klocks s' = klocks s \<and> is_showing_table s' = is_showing_table s \<and> kbd_in s' = kbd_in s \<and> kbd_shift s' = kbd_shift s \<and>
     selected_row s' = selected_row s \<and> color s' = color s \<and> crt_copy s' = crt_copy s \<and> freelist s' = freelist s \<and> kernel_end s' = kernel_end s \<and>
     (\<forall>a. \<not> on_screen a \<longrightarrow> kmemory s' a = kmemory s a)"

lemma same_env_trans: "same_env s t \<Longrightarrow> same_env t u \<Longrightarrow> same_env s u"
  by (simp add: same_env_def)

lemma output_only_env: "output_only s s' \<Longrightarrow> same_env s s'"
  by (auto simp: output_only_def same_env_def)

lemma backspace_run:
  assumes "cursor_ok (crt_pos s)" and "input_ok s" and "input_line s \<noteq> []"
  shows "\<exists>s'. backspace s = Ok () s' \<and> output_only (s\<lparr>input_e := input_e s - 1\<rparr>) s' \<and> cursor_ok (crt_pos s') \<and>
    input_ok s' \<and> input_ready s' = input_ready s \<and> input_line s' = butlast (input_line s)"
proof -
  let ?t = "s\<lparr>input_e := input_e s - 1\<rparr>"
  obtain s' where s': "consputc BACKSPACE ?t = Ok () s'" "output_only ?t s'" "cursor_ok (crt_pos s')" using consputc_run [of ?t] assms(1) by auto
  have "input_e s \<noteq> input_w s" using assms(3) by (auto simp: input_line_def)
  note b = cring.contents_butlast [OF this]
  have "input_ok ?t" "input_ready ?t = input_ready s" "input_line ?t = butlast (input_line s)"
    using assms(2) b by (simp_all add: input_ok_def input_ready_def input_line_def)
  then show ?thesis using s' output_only_input [OF s'(2)] by (intro exI [of _ s']) (simp add: backspace_def kdefs)
qed

lemma kill_line_run:
  assumes "cursor_ok (crt_pos s)" and "input_ok s" and "n = length (input_line s)"
  shows "\<exists>s'. kill_line n s = Ok () s' \<and> cursor_ok (crt_pos s') \<and> input_ok s' \<and> input_ready s' = input_ready s \<and>
    input_line s' = rev (dropWhile (\<lambda>x. x \<noteq> 10) (rev (input_line s))) \<and> same_env s s' \<and> ptable s' = ptable s"
  using assms
proof (induction n arbitrary: s)
  case 0
  then show ?case by (simp add: kdefs same_env_def)
next
  case (Suc n)
  let ?l = "input_line s"
  have ne: "?l \<noteq> []" "input_e s \<noteq> input_w s" using Suc.prems(3) by (force, auto simp: input_line_def)
  note b = cring.contents_butlast [OF ne(2)]
  have last: "last ?l = input_buf s ! (unat (input_e s - 1) mod INPUT_BUF)" using b(2) by (simp add: input_line_def cring.slot_def)
  have l: "?l = butlast ?l @ [last ?l]" using ne(1) by simp
  show ?case
  proof (cases "last ?l = 10")
    case True
    have l': "?l = butlast ?l @ [10]" using l True by metis
    have "rev (dropWhile (\<lambda>x. x \<noteq> 10) (rev (butlast ?l @ [10]))) = butlast ?l @ [10]" by simp
    then have "rev (dropWhile (\<lambda>x. x \<noteq> 10) (rev ?l)) = ?l" using l' by metis
    moreover have "kill_line (Suc n) s = Ok () s" using True last by (simp add: kdefs)
    moreover have "same_env s s" by (simp add: same_env_def)
    ultimately show ?thesis using Suc.prems(1,2) by metis
  next
    case False
    obtain t where t: "backspace s = Ok () t" "output_only (s\<lparr>input_e := input_e s - 1\<rparr>) t" "cursor_ok (crt_pos t)" "input_ok t"
      "input_ready t = input_ready s" "input_line t = butlast ?l"
      using backspace_run [OF Suc.prems(1,2) ne(1)] by blast
    have "n = length (input_line t)" using t(6) Suc.prems(3) by simp
    from Suc.IH [OF t(3,4) this] obtain s' where s': "kill_line n t = Ok () s'" "cursor_ok (crt_pos s')" "input_ok s'" "input_ready s' = input_ready t"
      "input_line s' = rev (dropWhile (\<lambda>x. x \<noteq> 10) (rev (input_line t)))" "same_env t s'" "ptable s' = ptable t" by blast
    have "dropWhile (\<lambda>x. x \<noteq> 10) (rev ?l) = dropWhile (\<lambda>x. x \<noteq> 10) (rev (butlast ?l))" by (subst l) (simp add: False)
    moreover have "kill_line (Suc n) s = kill_line n t" using False last ne(2) t(1) by (simp add: kdefs)
    moreover have "same_env s t" "ptable t = ptable s" using output_only_input [OF t(2)] output_only_env [OF t(2)] by (simp_all add: same_env_def)
    ultimately show ?thesis using s' t same_env_trans [of s t s'] by auto
  qed
qed

lemma put_key_run:
  fixes c :: int
  assumes cur: "cursor_ok (crt_pos s)" and ok: "input_ok s" and l: "L_ptable \<notin> set (klocks s)"
    and room: "length (input_ready s) + length (input_line s) < INPUT_BUF"
  defines "c' \<equiv> if c = 13 then 10 else c"
  defines "line \<equiv> input_line s @ [word_of_int c']"
  defines "full \<equiv> c' = 10 \<or> c' = Ctl CHR ''D'' \<or> length (input_ready s) + length line = INPUT_BUF"
  shows "\<exists>s'. put_key c s = Ok () s' \<and> cursor_ok (crt_pos s') \<and> input_ok s' \<and> same_env s s' \<and>
    (input_ready s', input_line s') = (if full then (input_ready s @ line, []) else (input_ready s, line)) \<and>
    ptable s' = (if full then map (wake Ch_input) (ptable s) else ptable s)"
proof -
  define t where "t = s\<lparr>input_buf := (input_buf s)[unat (input_e s) mod INPUT_BUF := word_of_int c'], input_e := input_e s + 1\<rparr>"
  have len: "length (input_buf s) = INPUT_BUF" and n: "unat (input_w s - input_r s) + unat (input_e s - input_w s) < INPUT_BUF"
    using ok room by (simp_all add: input_ok_def input_lengths)
  note p = cring.put_second [OF len n]
  have t: "input_ready t = input_ready s" "input_line t = line" "input_ok t" "crt_pos t = crt_pos s"
    using p len n by (simp_all add: t_def input_ready_def input_line_def input_ok_def line_def cring.slot_def)
  obtain u where u: "consputc (if cons_echo s = 0 \<and> c' \<noteq> 10 then of_char CHR ''*'' else c') t = Ok () u" "output_only t u" "cursor_ok (crt_pos u)"
    using consputc_run [of t] cur t(4) by auto
  note o = output_only_input [OF u(2)]
  have "unat (input_e t - input_r t) = length (input_ready s) + length line"
    using cring.contents_append(1) [of "input_w t" "input_r t" "input_e t"] t by (simp add: input_ok_def input_lengths [symmetric])
  then have full: "full \<longleftrightarrow> c' = 10 \<or> c' = Ctl CHR ''D'' \<or> input_e u = input_r u + of_nat INPUT_BUF"
    unfolding full_def cring.full_iff using o by simp
  let ?s' = "if full then u\<lparr>input_w := input_e u, ptable := map (wake Ch_input) (ptable u)\<rparr> else u"
  have run: "put_key c s = Ok () ?s'"
  proof -
    have "wakeup Ch_input (u\<lparr>input_w := input_e u\<rparr>) = Ok () (u\<lparr>input_w := input_e u, ptable := map (wake Ch_input) (ptable u)\<rparr>)"
      using l o by (simp add: kok t_def)
    then show ?thesis using u(1) full unfolding put_key_def c'_def [symmetric] by (auto simp: Let_def kdefs t_def)
  qed
  have "input_ready ?s' = input_ready u @ input_line u \<and> input_line ?s' = [] \<and> input_ok ?s'" if full
    using that t(3) o cring.contents_append [of "input_w u" "input_r u" "input_e u"] by (simp add: input_ready_def input_line_def input_ok_def)
  moreover have "same_env s ?s'" using output_only_env [OF u(2)] by (simp add: same_env_def t_def)
  ultimately show ?thesis using run t o u(3) by (intro exI [of _ ?s']) (auto simp: t_def)
qed

lemma cons_key_edit:
  assumes "cursor_ok (crt_pos s)" and "input_ok s" and "L_ptable \<notin> set (klocks s)" and "is_showing_table s \<longrightarrow> c \<in> {16, 21, 8, 0x7f}" and "c \<noteq> Alt CHR ''C''"
  shows "\<exists>d s'. cons_key c s = Ok d s' \<and> (input_ready s', input_line s') = edit_key c (input_ready s, input_line s) \<and>
    cursor_ok (crt_pos s') \<and> input_ok s' \<and> same_env s s' \<and>
    ptable s' = (if input_ready s' = input_ready s then ptable s else map (wake Ch_input) (ptable s))"
proof -
  let ?res = "\<lambda>s'. (input_ready s', input_line s') = edit_key c (input_ready s, input_line s) \<and> cursor_ok (crt_pos s') \<and> input_ok s' \<and>
    same_env s s' \<and> ptable s' = (if input_ready s' = input_ready s then ptable s else map (wake Ch_input) (ptable s))"
  have room: "input_e s - input_r s < of_nat INPUT_BUF \<longleftrightarrow> length (input_ready s) + length (input_line s) < INPUT_BUF"
    using cring.contents_append(1) [of "input_w s" "input_r s" "input_e s"] assms(2)
    by (simp add: word_less_nat_alt input_ok_def input_lengths INPUT_BUF_def)
  consider (u) "c = 21" | (h) "c = 8 \<or> c = 0x7f" | (key) "c \<notin> {21, 8, 0x7f, 0, 16}" "length (input_ready s) + length (input_line s) < INPUT_BUF"
    | (skip) "c = 0 \<or> c = 16 \<or> c \<notin> {21, 8, 0x7f} \<and> \<not> length (input_ready s) + length (input_line s) < INPUT_BUF" by auto
  then have "\<exists>d s'. cons_key c s = Ok d s' \<and> ?res s'"
  proof cases
    case u
    obtain s' where "kill_line (length (input_line s)) s = Ok () s'" "cursor_ok (crt_pos s')" "input_ok s'" "input_ready s' = input_ready s"
      "input_line s' = rev (dropWhile (\<lambda>x. x \<noteq> 10) (rev (input_line s)))" "same_env s s'" "ptable s' = ptable s"
      using kill_line_run [OF assms(1,2) refl] by blast
    then show ?thesis using u by (intro exI [of _ False] exI [of _ s']) (simp add: cons_key_def kdefs edit_key_def input_lengths)
  next
    case h
    show ?thesis
    proof (cases "input_line s = []")
      case True
      then have "input_e s = input_w s" using input_lengths(2) [of s] by (simp add: unat_eq_zero)
      then show ?thesis using h True assms by (intro exI [of _ False] exI [of _ s]) (auto simp: cons_key_def kdefs edit_key_def same_env_def)
    next
      case False
      then have "input_e s \<noteq> input_w s" by (auto simp: input_line_def)
      moreover obtain s' where s': "backspace s = Ok () s'" "output_only (s\<lparr>input_e := input_e s - 1\<rparr>) s'" "cursor_ok (crt_pos s')"
        "input_ok s'" "input_ready s' = input_ready s" "input_line s' = butlast (input_line s)"
        using backspace_run [OF assms(1,2) False] by blast
      moreover have "same_env s s'" "ptable s' = ptable s" using output_only_input [OF s'(2)] output_only_env [OF s'(2)] by (simp_all add: same_env_def)
      ultimately show ?thesis using h by (intro exI [of _ False] exI [of _ s']) (auto simp: cons_key_def kdefs edit_key_def)
    qed
  next
    case key
    from put_key_run [OF assms(1-3) key(2), of c] obtain s' where "put_key c s = Ok () s'" "cursor_ok (crt_pos s')" "input_ok s'" "same_env s s'"
      "(input_ready s', input_line s') = edit_key c (input_ready s, input_line s)"
      "ptable s' = (if input_ready s' = input_ready s then ptable s else map (wake Ch_input) (ptable s))"
      using key by (auto simp: edit_key_def Let_def split: if_splits)
    then show ?thesis using key room assms(4,5) by (intro exI [of _ False] exI [of _ s']) (simp add: cons_key_def kdefs)
  next
    case skip
    then have "cons_key c s = Ok (c = 16) s" using room assms(4,5) by (auto simp: cons_key_def kdefs)
    moreover have "edit_key c (input_ready s, input_line s) = (input_ready s, input_line s)" using skip by (auto simp: edit_key_def)
    ultimately show ?thesis using assms by (intro exI [of _ "c = 16"] exI [of _ s]) (simp add: same_env_def)
  qed
  then show ?thesis by blast
qed

text \<open>The characters that bytes from the keyboard give.\<close>

fun kbd_chars :: "uint \<Rightarrow> uchar list \<Rightarrow> int list" where
  "kbd_chars shift [] = []"
| "kbd_chars shift (b # bs) = (let (shift', c) = kbd_byte shift b in c # kbd_chars shift' bs)"

lemma kbd_byte_nonneg: "0 \<le> snd (kbd_byte shift b)"
  by (simp add: kbd_byte_def Let_def)

lemma kbd_loop_edits:
  assumes "cursor_ok (crt_pos s)" and "input_ok s" and "L_ptable \<notin> set (klocks s)" and "\<not> is_showing_table s"
    and "3 \<notin> set (kbd_chars (kbd_shift s) (kbd_in s))"
  shows "\<exists>d' s'. consoleintr_loop kbdgetc (length (kbd_in s) + 1) d s = Ok (d', True) s' \<and> kbd_in s' = [] \<and> klocks s' = klocks s \<and>
    (input_ready s', input_line s') = fold edit_key (kbd_chars (kbd_shift s) (kbd_in s)) (input_ready s, input_line s) \<and>
    cursor_ok (crt_pos s') \<and> input_ok s' \<and> (d' \<longrightarrow> d \<or> 16 \<in> set (kbd_chars (kbd_shift s) (kbd_in s)))"
  using assms
proof (induction "kbd_in s" arbitrary: s d)
  case Nil
  then show ?case by (simp add: kbdgetc_def kdefs flip: Nil.hyps(1))
next
  case (Cons b bs)
  obtain shift c where k: "kbd_byte (kbd_shift s) b = (shift, c)" by (cases "kbd_byte (kbd_shift s) b")
  have c: "0 \<le> c" using kbd_byte_nonneg [of "kbd_shift s" b] k by simp
  define t where "t = s\<lparr>kbd_in := bs, kbd_shift := shift\<rparr>"
  have get: "kbdgetc s = Ok c t" using Cons.hyps(2) k by (simp add: kbdgetc_def kdefs t_def flip: Cons.hyps(2))
  have t: "cursor_ok (crt_pos t)" "input_ok t" "L_ptable \<notin> set (klocks t)" "\<not> is_showing_table t"
    using Cons.prems by (simp_all add: t_def input_ok_def)
  have chars: "kbd_chars (kbd_shift s) (kbd_in s) = c # kbd_chars shift bs" using k by (simp flip: Cons.hyps(2))
  then have "c \<noteq> Alt CHR ''C''" using Cons.prems(5) by auto
  from cons_key_edit [OF t(1-3) _ this] t(4) obtain e u where u: "cons_key c t = Ok e u"
    "(input_ready u, input_line u) = edit_key c (input_ready s, input_line s)" "cursor_ok (crt_pos u)" "input_ok u" "same_env t u"
    by (auto simp: t_def input_ready_def input_line_def)
  have e: "e \<longrightarrow> c = 16" using u(1) by (auto simp: cons_key_def kok split: if_splits prod.splits)
  have v: "kbd_in u = bs" "kbd_shift u = shift" "klocks u = klocks s" "\<not> is_showing_table u"
    using u(5) t(4) by (simp_all add: same_env_def t_def)
  from Cons.hyps(1) [OF v(1) [symmetric] u(3,4) _ v(4), of "d \<or> e"] obtain d' s' where s':
    "consoleintr_loop kbdgetc (length bs + 1) (d \<or> e) u = Ok (d', True) s'" "kbd_in s' = []" "klocks s' = klocks u"
    "(input_ready s', input_line s') = fold edit_key (kbd_chars shift bs) (input_ready u, input_line u)"
    "cursor_ok (crt_pos s')" "input_ok s'" "d' \<longrightarrow> (d \<or> e) \<or> 16 \<in> set (kbd_chars shift bs)"
    using v chars Cons.prems(3,5) by auto
  have "consoleintr_loop kbdgetc (length (kbd_in s) + 1) d s = Ok (d', True) s'"
    using get c u(1) s'(1) by (simp add: kdefs flip: Cons.hyps(2))
  then show ?case using s' u(2) v(3) e unfolding chars by (intro exI [of _ d'] exI [of _ s']) auto
qed

section \<open>The console with its color table\<close>

text \<open>Memory from the first megabyte on is not the screen's, and neither output nor the table is written there.\<close>

definition high_same :: "memory \<Rightarrow> memory \<Rightarrow> bool" where
  "high_same m m' \<longleftrightarrow> (\<forall>a. 0x80100000 \<le> unat a \<longrightarrow> m' a = m a)"

lemma high_same_trans: "high_same m m1 \<Longrightarrow> high_same m1 m2 \<Longrightarrow> high_same m m2"
  by (simp add: high_same_def)

lemma crt_near:
  assumes "-2000 \<le> k" and "k < 4000"
  shows "unat (crt + word_of_int k) < 0x80100000"
proof -
  have "crt + word_of_int k = (word_of_int (0x800B8000 + k) :: uint)" by (simp add: crt_def P2V_def KERNBASE_def wi_hom_add [symmetric] del: wi_hom_syms)
  moreover have "unat (word_of_int (0x800B8000 + k) :: uint) = nat (0x800B8000 + k)"
    unfolding unsigned_of_int using assms by (simp add: take_bit_int_eq_self)
  ultimately show ?thesis using assms by (simp del: wi_hom_syms)
qed

lemma screen_low: "on_screen a \<Longrightarrow> unat a < 0x80100000"
proof -
  assume "on_screen a"
  then have "unat (crt + word_of_int (int (unat (a - crt)))) < 0x80100000" unfolding on_screen_def by (intro crt_near; linarith)
  then show ?thesis by simp
qed

lemma page_high:
  assumes "page_ok kend v" and "0x80100000 \<le> unat kend" and "in_page x v"
  shows "0x80100000 \<le> unat x"
proof -
  have v: "unat kend \<le> unat v" "page_aligned v" using assms(1) by (auto simp: page_ok_def word_le_nat_alt not_less)
  have "unat (v + (x - v)) = unat v + unat (x - v)"
    using page_unat(2) [OF v(2)] assms(3) by (intro unat_add_noovf) (simp add: in_page_def)
  then show ?thesis using v(1) assms(2) by simp
qed

lemma kmem_ok_high:
  assumes "kmem_ok s vs" and "0x80100000 \<le> unat (kernel_end s)" and "high_same (kmemory s) (kmemory s')" and "freelist s' = freelist s" "kernel_end s' = kernel_end s"
  shows "kmem_ok s' vs"
proof -
  have "kmem_ok (s\<lparr>kmemory := kmemory s'\<rparr>) vs"
    by (rule kmem_ok_upd [OF assms(1)]) (use kpages.pool_pages [OF assms(1)] page_high [OF _ assms(2)] assms(3) in \<open>auto simp: high_same_def\<close>)
  then show ?thesis using assms(4,5) by (simp add: kmem_ok_def)
qed

lemma crt_set_near:
  assumes "-1000 \<le> k" and "k < 1999"
  shows "\<exists>m. crt_set k v t = Ok () (t\<lparr>kmemory := m\<rparr>) \<and> high_same (kmemory t) m"
proof -
  have "crt + 2 * word_of_int k = crt + word_of_int (2 * k)" "crt + (2 * word_of_int k + 1) = crt + word_of_int (2 * k + 1)" by simp_all
  moreover have "unat (crt + word_of_int (2 * k)) < 0x80100000" "unat (crt + word_of_int (2 * k + 1)) < 0x80100000"
    by (rule crt_near; use assms in linarith)+
  ultimately have n: "unat (crt + 2 * word_of_int k) < 0x80100000" "unat (crt + 2 * word_of_int k + 1) < 0x80100000"
    unfolding add.assoc by (simp_all only:)
  let ?m = "(kmemory t)(crt + 2 * word_of_int k := ucast (word_of_int v :: ushort), crt + 2 * word_of_int k + 1 := ucast (drop_bit 8 (word_of_int v :: ushort)))"
  have "high_same (kmemory t) ?m" using n by (auto simp: high_same_def)
  then show ?thesis by (intro exI [of _ ?m]) (simp add: crt_set_def wr16_def kdefs)
qed

lemma table_pos_near: "cursor_ok p \<Longrightarrow> -729 \<le> table_pos p \<and> table_pos p < 1200"
  by (auto simp: cursor_ok_def table_pos_def Let_def)

lemma show_table_run:
  assumes "cursor_ok (crt_pos s)"
  shows "\<exists>m. show_table s = Ok () (s\<lparr>kmemory := m\<rparr>) \<and> high_same (kmemory s) m"
proof -
  let ?set = "\<lambda>i j. crt_set (table_pos (crt_pos s) + 80 * int i + int j) (table_cell (selected_row s) i j)"
  let ?P = "\<lambda>t. \<exists>m. t = s\<lparr>kmemory := m\<rparr> \<and> high_same (kmemory s) m"
  have cell: "\<exists>t'. ?set i j t = Ok () t' \<and> ?P t'" if "?P t" "i < 9" "j < 9" for i j t
  proof -
    have ij: "i < 9" "j < 9" using that(2,3) .
    from that(1) obtain m where m: "t = s\<lparr>kmemory := m\<rparr>" "high_same (kmemory s) m" by blast
    obtain m' where "?set i j t = Ok () (t\<lparr>kmemory := m'\<rparr>)" "high_same (kmemory t) m'"
      using crt_set_near [of "table_pos (crt_pos s) + 80 * int i + int j"] table_pos_near [OF assms] ij by force
    then show ?thesis using m high_same_trans by auto
  qed
  have row: "\<exists>t'. forK [0..<9] (?set i) t = Ok () t' \<and> ?P t'" if "?P t" "i < 9" for i t
    using forK_upto [where n = 9 and P = "\<lambda>j t. ?P t" and body = "?set i" and s = t] cell that by blast
  have "?P s" by (intro exI [of _ "kmemory s"]) (simp add: high_same_def)
  then have "\<exists>s'. forK [0..<9] (\<lambda>i. forK [0..<9] (?set i)) s = Ok () s' \<and> ?P s'"
    using forK_upto [where n = 9 and P = "\<lambda>i t. ?P t" and body = "\<lambda>i. forK [0..<9] (?set i)" and s = s] row by blast
  then show ?thesis by (auto simp: show_table_def kdefs)
qed

text \<open>The free pages are \<open>vs\<close>. There is one for the copy of the screen when the table is not shown, and the copy is a page otherwise.\<close>

definition table_ok :: "'a consst_scheme \<Rightarrow> uint list \<Rightarrow> bool" where
  "table_ok s vs \<longleftrightarrow> kmem_ok s vs \<and> L_kmem \<notin> set (klocks s) \<and> 0x80100000 \<le> unat (kernel_end s) \<and> 0 \<le> selected_row s \<and> selected_row s < 4 \<and>
     (if is_showing_table s then page_ok (kernel_end s) (crt_copy s) \<and> crt_copy s \<notin> set vs else vs \<noteq> [])"

lemma table_ok_env: "table_ok s vs \<Longrightarrow> same_env s s' \<Longrightarrow> table_ok s' vs"
  using kmem_ok_high [of s vs s'] screen_low by (fastforce simp: table_ok_def same_env_def high_same_def)

text \<open>The console as its user sees it: the bytes ready and the line, whether the table is shown, its row and the color of text.\<close>

definition console_state :: "'a consst_scheme \<Rightarrow> (uchar list \<times> uchar list) \<times> bool \<times> int \<times> int" where
  "console_state s = ((input_ready s, input_line s), is_showing_table s, selected_row s, color s)"

definition console_key :: "int \<Rightarrow> (uchar list \<times> uchar list) \<times> bool \<times> int \<times> int \<Rightarrow> (uchar list \<times> uchar list) \<times> bool \<times> int \<times> int" where
  "console_key c = (\<lambda>(input, showing, row, col).
     if c \<in> {Ctl CHR ''P'', Ctl CHR ''U'', Ctl CHR ''H'', 0x7f} then (edit_key c input, showing, row, col)
     else if c = Alt CHR ''C'' then (input, \<not> showing, row, if showing then selectable_colors ! nat row else col)
     else if showing then (input, True, move_selection c row, col)
     else (edit_key c input, False, row, col))"

lemma move_selection_range: "0 \<le> row \<Longrightarrow> row < 4 \<Longrightarrow> 0 \<le> move_selection c row \<and> move_selection c row < 4"
  by (auto simp: move_selection_def)

text \<open>Opening and closing the table.\<close>

lemma copy_crt_run:
  assumes ok: "kmem_ok s vs" "L_kmem \<notin> set (klocks s)" and "vs \<noteq> []"
  obtains v vs' m where "copy_crt s = Ok () (s\<lparr>freelist := load32 (kmemory s) v, crt_copy := v, kmemory := m\<rparr>)"
    "kmem_ok (s\<lparr>freelist := load32 (kmemory s) v, crt_copy := v, kmemory := m\<rparr>) vs'" "page_ok (kernel_end s) v" "v \<notin> set vs'"
proof -
  obtain v vs' where vs: "vs = v # vs'" using assms(3) by (cases vs) simp_all
  have v: "page_ok (kernel_end s) v" "v \<noteq> 0" "v \<notin> set vs'" using kpages.pool_pages [OF ok(1)] vs page_ok_nonzero by auto
  define m where "m = memmove (kmemory s) v crt 4000"
  have "unat v + 4096 \<le> 2 ^ 32" using page_unat(2) [of v] v(1) by (simp add: page_ok_def)
  then have "m x = kmemory s x" if "\<not> in_page x v" for x
    using that memmove_correct [of crt 4000 v "kmemory s"] by (simp add: m_def in_page_def crt_def P2V_def KERNBASE_def)
  then have k: "kmem_ok (s\<lparr>freelist := load32 (kmemory s) v, kmemory := m\<rparr>) vs'" using kalloc_write [OF ok(1) [unfolded vs]] by blast
  have "copy_crt s = Ok () (s\<lparr>freelist := load32 (kmemory s) v, crt_copy := v, kmemory := m\<rparr>)"
    using kalloc_run(2) [OF ok vs] v(2) by (simp add: copy_crt_def kdefs memmoveK_def m_def)
  then show thesis using that v k by (simp add: kmem_ok_def)
qed

lemma restore_crt_run:
  assumes ok: "kmem_ok s vs" "L_kmem \<notin> set (klocks s)" "0x80100000 \<le> unat (kernel_end s)" "page_ok (kernel_end s) (crt_copy s)" "crt_copy s \<notin> set vs"
  obtains m where "restore_crt s = Ok () (s\<lparr>kmemory := m, freelist := crt_copy s, crt_copy := 0\<rparr>)"
    "kmem_ok (s\<lparr>kmemory := m, freelist := crt_copy s, crt_copy := 0\<rparr>) (crt_copy s # vs)"
proof -
  define t where "t = s\<lparr>kmemory := memmove (kmemory s) crt (crt_copy s) 4000\<rparr>"
  have "unat (crt_copy s) + 4096 \<le> 2 ^ 32" using page_unat(2) [of "crt_copy s"] ok(4) by (simp add: page_ok_def)
  then have "kmemory t a = kmemory s a" if "\<not> on_screen a" for a
    using that memmove_correct [of "crt_copy s" 4000 crt "kmemory s"] by (simp add: t_def on_screen_def crt_def P2V_def KERNBASE_def)
  then have "high_same (kmemory s) (kmemory t)" using screen_low by (force simp: high_same_def)
  then have "kmem_ok t vs" by (rule kmem_ok_high [OF ok(1,3)]) (simp_all add: t_def)
  then obtain m where "kfree (crt_copy s) t = Ok () (t\<lparr>kmemory := m, freelist := crt_copy s\<rparr>)" "kmem_ok (t\<lparr>kmemory := m, freelist := crt_copy s\<rparr>) (crt_copy s # vs)"
    using kfree_run [of t vs "crt_copy s"] ok(2,4,5) by (auto simp: t_def)
  then show thesis using that [of m] page_ok_nonzero [OF ok(4)] by (simp add: restore_crt_def kdefs memmoveK_def t_def kmem_ok_def)
qed

lemma open_table_run:
  assumes "cursor_ok (crt_pos s)" and ok: "table_ok s vs" and "\<not> is_showing_table s"
  shows "\<exists>v m f vs'. cons_key 3 s = Ok False (s\<lparr>is_showing_table := True, freelist := f, crt_copy := v, kmemory := m\<rparr>) \<and>
    table_ok (s\<lparr>is_showing_table := True, freelist := f, crt_copy := v, kmemory := m\<rparr>) vs'"
proof -
  let ?s = "s\<lparr>is_showing_table := True\<rparr>"
  have k: "kmem_ok ?s vs" "L_kmem \<notin> set (klocks ?s)" "vs \<noteq> []" using ok assms(3) by (simp_all add: table_ok_def kmem_ok_def)
  obtain v vs' m where m: "copy_crt ?s = Ok () (?s\<lparr>freelist := load32 (kmemory s) v, crt_copy := v, kmemory := m\<rparr>)"
      "kmem_ok (?s\<lparr>freelist := load32 (kmemory s) v, crt_copy := v, kmemory := m\<rparr>) vs'" "page_ok (kernel_end s) v" "v \<notin> set vs'"
    using copy_crt_run [OF k] by simp metis
  define u where "u = ?s\<lparr>freelist := load32 (kmemory s) v, crt_copy := v, kmemory := m\<rparr>"
  obtain m' where m': "show_table u = Ok () (u\<lparr>kmemory := m'\<rparr>)" "high_same (kmemory u) m'" using show_table_run [of u] assms(1) by (auto simp: u_def)
  have "kmem_ok u vs'" "0x80100000 \<le> unat (kernel_end u)" using m(2) ok by (simp_all add: u_def table_ok_def)
  then have "kmem_ok (u\<lparr>kmemory := m'\<rparr>) vs'" by (rule kmem_ok_high) (simp_all add: m'(2))
  then have "table_ok (u\<lparr>kmemory := m'\<rparr>) vs'" using ok m(3,4) by (simp add: table_ok_def u_def)
  moreover have "cons_key 3 s = Ok False (u\<lparr>kmemory := m'\<rparr>)" using m(1) m'(1) assms(3) by (simp add: cons_key_def kdefs u_def)
  ultimately show ?thesis by (simp add: u_def) blast
qed

lemma close_table_run:
  assumes ok: "table_ok s vs" and "is_showing_table s"
  shows "\<exists>m. cons_key 3 s = Ok False (s\<lparr>is_showing_table := False, kmemory := m, freelist := crt_copy s, crt_copy := 0, color := selectable_colors ! nat (selected_row s)\<rparr>) \<and>
    table_ok (s\<lparr>is_showing_table := False, kmemory := m, freelist := crt_copy s, crt_copy := 0, color := selectable_colors ! nat (selected_row s)\<rparr>) (crt_copy s # vs)"
proof -
  let ?s = "s\<lparr>is_showing_table := False\<rparr>"
  have k: "kmem_ok ?s vs" "L_kmem \<notin> set (klocks ?s)" "0x80100000 \<le> unat (kernel_end ?s)" "page_ok (kernel_end ?s) (crt_copy ?s)" "crt_copy ?s \<notin> set vs"
    using assms by (simp_all add: table_ok_def kmem_ok_def)
  obtain m where "restore_crt ?s = Ok () (?s\<lparr>kmemory := m, freelist := crt_copy s, crt_copy := 0\<rparr>)"
      "kmem_ok (?s\<lparr>kmemory := m, freelist := crt_copy s, crt_copy := 0\<rparr>) (crt_copy s # vs)" using restore_crt_run [OF k] by auto
  then show ?thesis using assms by (intro exI [of _ m]) (simp add: cons_key_def kdefs table_ok_def kmem_ok_def)
qed

lemma move_table_run:
  assumes "cursor_ok (crt_pos s)" and ok: "table_ok s vs" and "is_showing_table s" and "c \<notin> {16, 21, 8, 0x7f, 3}"
  shows "\<exists>m. cons_key c s = Ok False (s\<lparr>selected_row := move_selection c (selected_row s), kmemory := m\<rparr>) \<and>
    table_ok (s\<lparr>selected_row := move_selection c (selected_row s), kmemory := m\<rparr>) vs"
proof -
  let ?s = "s\<lparr>selected_row := move_selection c (selected_row s)\<rparr>"
  obtain m where m: "show_table ?s = Ok () (?s\<lparr>kmemory := m\<rparr>)" "high_same (kmemory s) m" using show_table_run [of ?s] assms(1) by auto
  have "kmem_ok s vs" "0x80100000 \<le> unat (kernel_end s)" using ok by (simp_all add: table_ok_def)
  then have "kmem_ok (?s\<lparr>kmemory := m\<rparr>) vs" by (rule kmem_ok_high) (simp_all add: m(2))
  moreover have "cons_key c s = Ok False (?s\<lparr>kmemory := m\<rparr>)" using m(1) assms(3,4) by (simp add: cons_key_def kdefs)
  ultimately show ?thesis using ok assms(3) move_selection_range [of "selected_row s" c] by (intro exI [of _ m]) (simp add: table_ok_def)
qed

lemma cons_key_run:
  assumes "cursor_ok (crt_pos s)" and "input_ok s" and "L_ptable \<notin> set (klocks s)" and ok: "table_ok s vs"
  shows "\<exists>d s' vs'. cons_key c s = Ok d s' \<and> console_state s' = console_key c (console_state s) \<and> cursor_ok (crt_pos s') \<and> input_ok s' \<and>
    table_ok s' vs' \<and> klocks s' = klocks s \<and> kbd_in s' = kbd_in s \<and> kbd_shift s' = kbd_shift s"
proof -
  note defs = console_state_def console_key_def input_ready_def input_line_def input_ok_def
  consider (edit) "is_showing_table s \<longrightarrow> c \<in> {16, 21, 8, 0x7f}" "c \<noteq> 3"
    | (opens) "c = 3" "\<not> is_showing_table s" | (close) "c = 3" "is_showing_table s"
    | (move) "is_showing_table s" "c \<notin> {16, 21, 8, 0x7f, 3}" by auto
  then show ?thesis
  proof cases
    case edit
    have "c \<noteq> Alt CHR ''C''" using edit(2) by simp
    then obtain d s' where s': "cons_key c s = Ok d s'" "(input_ready s', input_line s') = edit_key c (input_ready s, input_line s)"
        "cursor_ok (crt_pos s')" "input_ok s'" "same_env s s'" using cons_key_edit [OF assms(1-3) edit(1)] by blast
    then have "console_state s' = console_key c (console_state s)"
      using edit by (simp add: console_state_def console_key_def same_env_def) blast
    then show ?thesis using s' table_ok_env [OF ok s'(5)] by (intro exI [of _ d] exI [of _ s'] exI [of _ vs]) (simp add: same_env_def)
  next
    case opens
    then show ?thesis using open_table_run [OF assms(1) ok opens(2)] assms(1,2) by (auto simp: defs)
  next
    case close
    then show ?thesis using close_table_run [OF ok close(2)] assms(1,2) by (auto simp: defs)
  next
    case move
    then show ?thesis using move_table_run [OF assms(1) ok move] assms(1,2) by (auto simp: defs)
  qed
qed

lemma kbd_loop_keys:
  assumes "cursor_ok (crt_pos s)" and "input_ok s" and "L_ptable \<notin> set (klocks s)" and "table_ok s vs"
  shows "\<exists>d' s' vs'. consoleintr_loop kbdgetc (length (kbd_in s) + 1) d s = Ok (d', True) s' \<and> kbd_in s' = [] \<and> klocks s' = klocks s \<and>
    console_state s' = fold console_key (kbd_chars (kbd_shift s) (kbd_in s)) (console_state s) \<and>
    cursor_ok (crt_pos s') \<and> input_ok s' \<and> table_ok s' vs'"
  using assms
proof (induction "kbd_in s" arbitrary: s d vs)
  case Nil
  then show ?case by (auto simp: kbdgetc_def kdefs simp flip: Nil.hyps(1))
next
  case (Cons b bs)
  obtain shift c where k: "kbd_byte (kbd_shift s) b = (shift, c)" by (cases "kbd_byte (kbd_shift s) b")
  have c: "0 \<le> c" using kbd_byte_nonneg [of "kbd_shift s" b] k by simp
  define t where "t = s\<lparr>kbd_in := bs, kbd_shift := shift\<rparr>"
  have get: "kbdgetc s = Ok c t" using Cons.hyps(2) k by (simp add: kbdgetc_def kdefs t_def flip: Cons.hyps(2))
  have t: "cursor_ok (crt_pos t)" "input_ok t" "L_ptable \<notin> set (klocks t)" "table_ok t vs"
    using Cons.prems by (simp_all add: t_def input_ok_def table_ok_def kmem_ok_def)
  have same: "console_state t = console_state s" by (simp add: t_def console_state_def input_ready_def input_line_def)
  have chars: "kbd_chars (kbd_shift s) (kbd_in s) = c # kbd_chars shift bs" using k by (simp flip: Cons.hyps(2))
  obtain e u vs1 where u: "cons_key c t = Ok e u" "console_state u = console_key c (console_state t)" "cursor_ok (crt_pos u)" "input_ok u" "table_ok u vs1"
    "klocks u = klocks t" "kbd_in u = kbd_in t" "kbd_shift u = kbd_shift t" using cons_key_run [OF t, of c] by blast
  have v: "kbd_in u = bs" "kbd_shift u = shift" "klocks u = klocks s" using u(6-8) by (simp_all add: t_def)
  from Cons.hyps(1) [OF v(1) [symmetric] u(3,4) _ u(5), of "d \<or> e"] obtain d' s' vs' where s':
    "consoleintr_loop kbdgetc (length bs + 1) (d \<or> e) u = Ok (d', True) s'" "kbd_in s' = []" "klocks s' = klocks u"
    "console_state s' = fold console_key (kbd_chars shift bs) (console_state u)" "cursor_ok (crt_pos s')" "input_ok s'" "table_ok s' vs'"
    using v Cons.prems(3) by auto
  have "consoleintr_loop kbdgetc (length (kbd_in s) + 1) d s = Ok (d', True) s'"
    using get c u(1) s'(1) by (simp add: kdefs flip: Cons.hyps(2))
  then show ?case using s' u(2) v(3) same unfolding chars by (intro exI [of _ d'] exI [of _ s'] exI [of _ vs']) simp
qed

text \<open>The list of processes only goes to the screen and the serial port.\<close>

definition prints :: "('a consst_scheme, unit) kfun \<Rightarrow> bool" where
  "prints f \<longleftrightarrow> (\<forall>s. cursor_ok (crt_pos s) \<longrightarrow> klocks s = [] \<longrightarrow> (\<exists>s'. f s = Ok () s' \<and> output_only s s' \<and> cursor_ok (crt_pos s')))"

lemma prints_then: "prints f \<Longrightarrow> prints g \<Longrightarrow> prints (thenK f g)"
  unfolding prints_def
proof (intro allI impI)
  fix s :: "'a consst_scheme"
  assume f: "\<forall>s. cursor_ok (crt_pos s) \<longrightarrow> klocks s = [] \<longrightarrow> (\<exists>s'. f s = Ok () s' \<and> output_only s s' \<and> cursor_ok (crt_pos s'))"
    and g: "\<forall>s. cursor_ok (crt_pos s) \<longrightarrow> klocks s = [] \<longrightarrow> (\<exists>s'. g s = Ok () s' \<and> output_only s s' \<and> cursor_ok (crt_pos s'))"
    and s: "cursor_ok (crt_pos s)" "klocks s = []"
  then obtain t where t: "f s = Ok () t" "output_only s t" "cursor_ok (crt_pos t)" by blast
  then have "klocks t = []" using output_only_input(8) [OF t(2)] s(2) by simp
  then obtain u where "g t = Ok () u" "output_only t u" "cursor_ok (crt_pos u)" using g t(3) by blast
  then show "\<exists>s'. thenK f g s = Ok () s' \<and> output_only s s' \<and> cursor_ok (crt_pos s')" using t output_only_trans by (auto simp: kdefs)
qed

lemma prints_when: "prints f \<Longrightarrow> prints (whenK b f)"
  using output_only_refl by (auto simp: prints_def kdefs)

lemma prints_for: "(\<And>x. x \<in> set xs \<Longrightarrow> prints (f x)) \<Longrightarrow> prints (forK xs f)"
proof (induction xs)
  case Nil
  then show ?case using output_only_refl by (auto simp: prints_def kdefs)
next
  case (Cons x xs)
  then show ?case using prints_then [of "f x" "forK xs f"] by simp
qed

lemma prints_get: "(\<And>x. prints (f x)) \<Longrightarrow> prints (bindK (getK g) f)"
  by (auto simp: prints_def kdefs)

lemma cprintf_prints:
  assumes "cprintf_text (map of_char fmt) as = Some t"
  shows "prints (cprintf fmt as)"
  unfolding prints_def
proof (intro allI impI)
  fix s :: "'a consst_scheme"
  assume s: "cursor_ok (crt_pos s)" "klocks s = []"
  let ?t = "s\<lparr>klocks := [L_cons]\<rparr>"
  obtain u where u: "put_text t ?t = Ok () u" "output_only ?t u" "cursor_ok (crt_pos u)" using put_text_run [of ?t t] s(1) by auto
  obtain p m d where "u = ?t\<lparr>kmemory := m, crt_pos := p, uart_out := d\<rparr>" "\<forall>a. \<not> on_screen a \<longrightarrow> m a = kmemory s a"
    using u(2) by (auto simp: output_only_def)
  moreover from this(1) have "u\<lparr>klocks := []\<rparr> = s\<lparr>kmemory := m, crt_pos := p, uart_out := d\<rparr>"
    by (intro consst.equality) (simp_all add: s(2))
  ultimately have "output_only s (u\<lparr>klocks := []\<rparr>)" unfolding output_only_def by blast
  moreover obtain v where "put_text t s = Ok () v" "output_only s v" "cursor_ok (crt_pos v)" using put_text_run [of s t] s(1) by auto
  ultimately show "\<exists>s'. cprintf fmt as s = Ok () s' \<and> output_only s s' \<and> cursor_ok (crt_pos s')"
    using u s(2) assms output_only_input(8) [OF u(2)] by (cases "cons_locking s") (auto simp: cprintf_def kdefs acquire_def release_def)
qed

lemma procdump_prints: "prints (procdump callerpcs)"
  unfolding procdump_def
  by (intro prints_get prints_for prints_when prints_then cprintf_prints) simp_all

lemma procdump_run:
  assumes "cursor_ok (crt_pos s)" and "klocks s = []"
  shows "\<exists>s'. procdump callerpcs s = Ok () s' \<and> output_only s s' \<and> cursor_ok (crt_pos s')"
  using procdump_prints [of callerpcs] assms unfolding prints_def by blast

text \<open>
  (C33) The keyboard interrupt takes every byte that waits in the keyboard and ends, whatever the keys are. The input is a
  line editor: Ctrl-U erases the line, Backspace its last character, other keys are appended, and the line becomes ready to be
  read at a newline, at Ctrl-D and when the buffer is full. Ctrl-C shows and hides the table of colors; while it is shown the
  other keys move the selection between the four rows and do not reach the line, and hiding it makes the selected color that
  of the text. Ctrl-P prints the list of processes and changes none of this. The interrupt comes while no lock is held, the
  cursor is on the screen and the kernel ends above the first megabyte. It is assumed that a page of memory is free
  whenever the table is not shown (without one the handler panics), and that the copy of the screen is a page of its own while
  it is shown; all of this is kept.
\<close>

theorem kbdintr_refines_editor:
  assumes "cursor_ok (crt_pos s)" and "input_ok s" and "klocks s = []" and "table_ok s vs"
  shows "\<exists>s' vs'. kbdintr callerpcs s = Ok True s' \<and> kbd_in s' = [] \<and> klocks s' = [] \<and>
    console_state s' = fold console_key (kbd_chars (kbd_shift s) (kbd_in s)) (console_state s) \<and>
    cursor_ok (crt_pos s') \<and> input_ok s' \<and> table_ok s' vs'"
proof -
  note defs = input_ok_def console_state_def input_ready_def input_line_def table_ok_def kmem_ok_def
  let ?t = "s\<lparr>klocks := [L_cons]\<rparr>"
  have start: "cursor_ok (crt_pos ?t)" "input_ok ?t" "table_ok ?t vs" "console_state ?t = console_state s" using assms by (simp_all add: defs)
  obtain d' s' vs' where s': "consoleintr_loop kbdgetc (length (kbd_in s) + 1) False ?t = Ok (d', True) s'" "kbd_in s' = []" "klocks s' = [L_cons]"
    "console_state s' = fold console_key (kbd_chars (kbd_shift s) (kbd_in s)) (console_state s)"
    "cursor_ok (crt_pos s')" "input_ok s'" "table_ok s' vs'"
    using kbd_loop_keys [of ?t vs False] start by (simp del: consoleintr_loop.simps) blast
  let ?u = "s'\<lparr>klocks := []\<rparr>"
  have u: "console_state ?u = console_state s'" "cursor_ok (crt_pos ?u)" "input_ok ?u" "table_ok ?u vs'" using s'(5-7) by (simp_all add: defs)
  obtain w where w: "(if d' then procdump callerpcs ?u else Ok () ?u) = Ok () w" "output_only ?u w" "cursor_ok (crt_pos w)"
    using procdump_run [of ?u callerpcs] u(2) output_only_refl [of ?u] by (cases d') auto
  have "kbdintr callerpcs s = Ok True w"
    using s'(1,3) assms(3) w(1) by (cases d') (simp_all add: kbdintr_def consoleintr_def kdefs acquire_def release_def)
  moreover have "console_state w = console_state s'" "table_ok w vs'"
    using output_only_env [OF w(2)] output_only_input [OF w(2)] table_ok_env [OF u(4)] u(1) by (simp_all add: console_state_def same_env_def)
  ultimately show ?thesis using s'(2,4,6) w(3) output_only_input [OF w(2)] u(3) by (intro exI [of _ w] exI [of _ vs']) simp
qed

section \<open>Reading lines\<close>

text \<open>The bytes that a reader that asks for \<open>n\<close> more bytes takes from those that are ready, and what it leaves; \<open>None\<close> if it has to wait.\<close>

fun take_line :: "nat \<Rightarrow> nat \<Rightarrow> uchar list \<Rightarrow> (uchar list \<times> uchar list) option" where
  "take_line target 0 q = Some ([], q)"
| "take_line target (Suc n) [] = None"
| "take_line target (Suc n) (c # q) =
     (if c = 4 then Some ([], if Suc n < target then c # q else q)
      else if c = 10 then Some ([c], q)
      else map_option (\<lambda>(bs, r). (c # bs, r)) (take_line target n q))"

lemma sint_eq_4: "sint (c :: uchar) = 4 \<longleftrightarrow> c = 4"
proof
  assume "sint c = 4"
  then have "word_of_int (sint c) = (word_of_int 4 :: uchar)" by simp
  then show "c = 4" by simp
qed simp

lemma take_input:
  assumes "input_ok s" and "input_ready s = c # q"
  shows "input_r s \<noteq> input_w s" "input_buf s ! (unat (input_r s) mod INPUT_BUF) = c"
    "input_ok (s\<lparr>input_r := input_r s + 1\<rparr>)" "input_ready (s\<lparr>input_r := input_r s + 1\<rparr>) = q"
proof -
  show ne: "input_r s \<noteq> input_w s" using assms(2) by (auto simp: input_ready_def)
  note g = cring.get_contents [OF ne]
  show "input_buf s ! (unat (input_r s) mod INPUT_BUF) = c" "input_ready (s\<lparr>input_r := input_r s + 1\<rparr>) = q"
    using assms(2) g(1) [of "input_buf s"] by (simp_all add: input_ready_def cring.slot_def)
  show "input_ok (s\<lparr>input_r := input_r s + 1\<rparr>)" using assms(1) g(2) by (simp add: input_ok_def)
qed

lemma consoleread_takes:
  assumes "input_ok s" and "take_line target n (input_ready s) = Some (bs, q)"
  shows "\<exists>s'. consoleread_loop target n acc s = Ok (Some (acc @ bs)) s' \<and> input_ok s' \<and> input_ready s' = q \<and> input_line s' = input_line s"
  using assms
proof (induction n arbitrary: s acc bs)
  case 0
  then show ?case by (simp add: kdefs)
next
  case (Suc n)
  then obtain c q' where c: "input_ready s = c # q'" by (cases "input_ready s") simp_all
  note t = take_input [OF Suc.prems(1) c]
  let ?t = "s\<lparr>input_r := input_r s + 1\<rparr>"
  have l: "input_line ?t = input_line s" by (simp add: input_line_def)
  consider "c = 4" | "c \<noteq> 4" "c = 10" | "c \<noteq> 4" "c \<noteq> 10" by blast
  then show ?case
  proof cases
    case 1
    then show ?thesis using Suc.prems c t l by (auto simp: kdefs sint_eq_4)
  next
    case 2
    then show ?thesis using Suc.prems c t l by (auto simp: kdefs sint_eq_4)
  next
    case 3
    then obtain bs' where bs: "take_line target n (input_ready ?t) = Some (bs', q)" "bs = c # bs'" using Suc.prems(2) c t(4) by auto
    show ?thesis using Suc.IH [OF t(3) bs(1), of "acc @ [c]"] 3 t l bs(2) by (auto simp: kdefs sint_eq_4)
  qed
qed

lemma edit_key_0 [simp]: "edit_key 0 x = x"
  by (simp add: edit_key_def split: prod.split)

lemma fold_edit_filter: "fold edit_key cs x = fold edit_key (filter (\<lambda>c. c \<noteq> 0) cs) x"
  by (induction cs arbitrary: x) auto

definition ordinary :: "uchar \<Rightarrow> bool" where
  "ordinary c \<longleftrightarrow> 32 \<le> c \<and> c < 127"

lemma ordinary_codes:
  assumes "ordinary c"
  shows "uint c \<notin> {0, 3, 4, 8, 10, 13, 16, 21, 127}" "c \<noteq> 4" "c \<noteq> 10"
proof -
  have "32 \<le> uint c" "uint c < 127" using assms by (simp_all add: ordinary_def word_le_def word_less_def)
  then show "uint c \<notin> {0, 3, 4, 8, 10, 13, 16, 21, 127}" by auto
  then show "c \<noteq> 4" "c \<noteq> 10" by auto
qed

lemma fold_edit_ordinary:
  assumes "\<forall>c \<in> set cs. ordinary c" and "length r + length l + length cs < INPUT_BUF"
  shows "fold edit_key (map uint cs) (r, l) = (r, l @ cs)"
  using assms
proof (induction cs arbitrary: l)
  case (Cons c cs)
  then have "uint c \<notin> {0, 3, 4, 8, 10, 13, 16, 21, 127}" "length r + length l < INPUT_BUF" "length r + Suc (length l) \<noteq> INPUT_BUF"
    using ordinary_codes(1) [of c] by simp_all
  then have "edit_key (uint c) (r, l) = (r, l @ [c])" by (simp add: edit_key_def Let_def)
  then show ?case using Cons by simp
qed simp

lemma take_line_ordinary: "\<forall>c \<in> set cs. ordinary c \<Longrightarrow> length cs < n \<Longrightarrow> take_line target n (cs @ [10]) = Some (cs @ [10], [])"
proof (induction cs arbitrary: n)
  case Nil
  then show ?case by (cases n) simp_all
next
  case (Cons c cs)
  then show ?case using ordinary_codes(2,3) [of c] by (cases n) simp_all
qed

text \<open>
  (C34) A line that is typed is the line that is read: when the keys pressed since the buffer was empty, with the table of colors
  not shown, decode to fewer than 127 ordinary characters and a newline, the keyboard interrupt makes the line ready, and a reader that asks for enough bytes gets exactly
  these characters and the newline.
\<close>

theorem typed_line_is_read:
  assumes "cursor_ok (crt_pos s)" and "input_ok s" and "klocks s = []" and "\<not> is_showing_table s"
    and "input_ready s = []" and "input_line s = []"
    and "filter (\<lambda>c. c \<noteq> 0) (kbd_chars (kbd_shift s) (kbd_in s)) = map uint cs @ [10]"
    and "\<forall>c \<in> set cs. ordinary c" and "length cs < n" and "length cs < INPUT_BUF - 1"
  shows "\<exists>s' s''. kbdintr callerpcs s = Ok True s' \<and> consoleread_loop n n [] s' = Ok (Some (cs @ [10])) s'' \<and>
    input_ready s'' = [] \<and> input_line s'' = []"
proof -
  let ?keys = "kbd_chars (kbd_shift s) (kbd_in s)"
  have "x \<in> set ?keys \<Longrightarrow> x \<noteq> 3 \<and> x \<noteq> 16" for x
  proof -
    assume "x \<in> set ?keys"
    then have "x = 0 \<or> x \<in> set (filter (\<lambda>c. c \<noteq> 0) ?keys)" by auto
    then have "x = 0 \<or> x = 10 \<or> (\<exists>c \<in> set cs. x = uint c)" unfolding assms(7) by auto
    then show "x \<noteq> 3 \<and> x \<noteq> 16" using assms(8) ordinary_codes(1) by auto
  qed
  then have k: "3 \<notin> set ?keys" "16 \<notin> set ?keys" by auto
  have "fold edit_key ?keys ([], []) = edit_key 10 ([], cs)"
    unfolding fold_edit_filter [of ?keys] assms(7) using fold_edit_ordinary [of cs "[]" "[]"] assms(8,10) by simp
  also have "\<dots> = (cs @ [10], [])" using assms(10) by (simp add: edit_key_def Let_def)
  finally have e: "fold edit_key ?keys ([], []) = (cs @ [10], [])" .
  let ?t = "s\<lparr>klocks := [L_cons]\<rparr>"
  obtain d' s' where s': "consoleintr_loop kbdgetc (length (kbd_in s) + 1) False ?t = Ok (d', True) s'" "klocks s' = [L_cons]"
    "(input_ready s', input_line s') = (cs @ [10], [])" "input_ok s'" "\<not> d'"
    using kbd_loop_edits [of ?t False] assms(1-6) k e by (auto simp: input_ok_def input_ready_def input_line_def)
  let ?u = "s'\<lparr>klocks := []\<rparr>"
  have run: "kbdintr callerpcs s = Ok True ?u" using s' assms(3) by (simp add: kbdintr_def consoleintr_def kdefs acquire_def release_def)
  have "input_ok ?u" "input_ready ?u = cs @ [10]" "input_line ?u = []" using s' by (simp_all add: input_ok_def input_ready_def input_line_def)
  then show ?thesis using consoleread_takes [of ?u n n "cs @ [10]" "[]" "[]"] take_line_ordinary [OF assms(8,9)] run by fastforce
qed

section \<open>The table can leave the screen\<close>

lemma crt_set_other:
  assumes "-720 < k" and "k < 2000"
  shows "\<exists>t'. crt_set k v t = Ok () t' \<and> kmemory t' (crt - 1440) = kmemory t (crt - 1440)"
proof -
  have ne: "(word_of_int n :: uint) \<noteq> 0" if "0 < n" "n < 2 ^ 32" for n :: int
    using that by (simp add: word_uint_eq_iff uint_word_of_int)
  have "(word_of_int (2 * k + 1440) :: uint) \<noteq> 0" "(word_of_int (2 * k + 1441) :: uint) \<noteq> 0"
    by (rule ne; use assms in simp)+
  then have "crt - 1440 \<noteq> crt + 2 * word_of_int k" "crt - 1440 \<noteq> crt + 2 * word_of_int k + 1" by (auto simp: algebra_simps)
  then show ?thesis by (simp add: crt_set_def wr16_def kdefs)
qed

lemma show_table_writes:
  assumes "crt_pos s = 0"
  shows "\<exists>s'. show_table s = Ok () s' \<and> kmemory s' (crt - 1440) = 43"
proof -
  have tp: "table_pos 0 = -720" by (simp add: table_pos_def c_mod_def c_div_def)
  let ?set = "\<lambda>i j. crt_set (table_pos 0 + 80 * int i + int j) (table_cell (selected_row s) i j)"
  let ?ok = "\<lambda>t. kmemory t (crt - 1440) = 43"
  have cell: "\<exists>t'. ?set i j t = Ok () t' \<and> ?ok t'" if "i = 0 \<and> j = 0 \<or> ?ok t" "i < 9" "j < 9" for i j and t :: "'a consst_scheme"
  proof (cases "i = 0 \<and> j = 0")
    case True
    moreover have "table_cell (selected_row s) 0 0 = 0x702B" by (simp add: table_cell_def base_color_def)
    ultimately show ?thesis by (simp add: tp crt_set_def wr16_def kdefs)
  next
    case False
    then show ?thesis using that crt_set_other [of "table_pos 0 + 80 * int i + int j" "table_cell (selected_row s) i j" t] by (auto simp: tp)
  qed
  have row: "\<exists>t'. forK [0..<9] (?set i) t = Ok () t' \<and> ?ok t'" if "i = 0 \<or> ?ok t" "i < 9" for i and t :: "'a consst_scheme"
    using forK_upto [where n = 9 and P = "\<lambda>j t. i = 0 \<and> j = 0 \<or> ?ok t" and body = "?set i" and s = t] cell that by auto
  have "\<exists>s'. forK [0..<9] (\<lambda>i. forK [0..<9] (?set i)) s = Ok () s' \<and> ?ok s'"
    using forK_upto [where n = 9 and P = "\<lambda>i t. i = 0 \<or> ?ok t" and body = "\<lambda>i. forK [0..<9] (?set i)" and s = s] row by auto
  then show ?thesis using assms by (simp add: show_table_def kdefs)
qed

text \<open>
  (C36) The table of colors is drawn nine lines above the cursor, wherever the cursor is: with the cursor at the start of the
  screen the first character of the table is written to the memory 1440 bytes before the screen.
\<close>

theorem show_table_off_screen:
  assumes "crt_pos s = 0"
  shows "\<exists>s'. show_table s = Ok () s' \<and> kmemory s' (crt - 1440) = 43 \<and> \<not> on_screen (crt - 1440)"
  using show_table_writes [OF assms] by (simp add: on_screen_def crt_def P2V_def KERNBASE_def)

section \<open>Examples\<close>

text \<open>A console with an empty buffer, the cursor on line 10, and the keys for "hi" and Enter pressed.\<close>

definition cons_one :: consst where
  "cons_one = procst.extend (proc_one [parent_proc]) (consst.fields True 800 0x0f00 0 False 0 (replicate 128 0) 0xFFFFFFFE 0xFFFFFFFE 0xFFFFFFFE
     0 [0x23, 0x17, 0x1C] True [] [])"

lemma cons_one_simps [simp]: "crt_pos cons_one = 800" "klocks cons_one = []" "is_showing_table cons_one = False" "kbd_in cons_one = [0x23, 0x17, 0x1C]"
  "kbd_shift cons_one = 0" "input_buf cons_one = replicate 128 0" "input_r cons_one = 0xFFFFFFFE" "input_w cons_one = 0xFFFFFFFE" "input_e cons_one = 0xFFFFFFFE"
  "selected_row cons_one = 0" "color cons_one = 0x0f00" "kernel_end cons_one = 0x80100000"
  by (simp_all add: cons_one_def procst.extend_def consst.fields_def proc_one_def sysst.extend_def procst.fields_def sys_one_def filest.extend_def
      sysst.fields_def file_one_def kmst.extend_def filest.fields_def km_boot_def fsst.extend_def kmst.fields_def fs_one_def)

lemma cons_one_ok: "cursor_ok (crt_pos cons_one)" "input_ok cons_one" "input_ready cons_one = []" "input_line cons_one = []"
  by (simp_all add: cursor_ok_def input_ok_def input_ready_def input_line_def) (simp add: INPUT_BUF_def)

lemma cons_one_keys: "kbd_chars 0 [0x23, 0x17, 0x1C] = [104, 105, 10]"
  by code_simp

theorem put_text_on_screen_witness:
  "\<exists>s'. put_text [104, 105, 10] cons_one = Ok () s' \<and> cursor_ok (crt_pos s')"
  using put_text_on_screen [OF cons_one_ok(1)] by blast

text \<open>Ctrl-C, s, Ctrl-C and h: the second color is selected, and the line is "h".\<close>

definition cons_table :: consst where
  "cons_table = cons_one\<lparr>kmemory := \<lambda>_. 0, freelist := 0x80100000, kbd_in := [0x1D, 0x2E, 0x9D, 0x1F, 0x1D, 0x2E, 0x9D, 0x23]\<rparr>"

lemma cons_table_ok: "cursor_ok (crt_pos cons_table)" "input_ok cons_table" "klocks cons_table = []" "table_ok cons_table [0x80100000]"
  using cons_one_ok
  by (simp_all add: cons_table_def input_ok_def table_ok_def kmem_ok_def page_ok_def page_aligned_def load32_def V2P_def KERNBASE_def PHYSTOP_def PGSIZE_def)

lemma cons_table_keys: "kbd_chars 0 [0x1D, 0x2E, 0x9D, 0x1F, 0x1D, 0x2E, 0x9D, 0x23] = [0, 3, 0, 115, 0, 3, 0, 104]"
  by code_simp

lemma cons_table_state: "console_state cons_table = (([], []), False, 0, 0x0f00)"
  using cons_one_ok(3,4) by (simp add: console_state_def cons_table_def input_ready_def input_line_def)

theorem kbdintr_refines_editor_witness:
  "\<exists>s'. kbdintr (\<lambda>_. []) cons_table = Ok True s' \<and> console_state s' = (([], [104]), False, 1, 0xfd00)"
proof -
  have "fold console_key [0, 3, 0, 115, 0, 3, 0, 104] (([], []), False, 0, 0x0f00) = (([], [104]), False, 1, 0xfd00)"
    by (simp add: console_key_def edit_key_def INPUT_BUF_def move_selection_def selectable_colors_def)
  moreover have "kbd_chars (kbd_shift cons_table) (kbd_in cons_table) = [0, 3, 0, 115, 0, 3, 0, 104]"
    using cons_table_keys by (simp add: cons_table_def del: kbd_chars.simps)
  ultimately show ?thesis using kbdintr_refines_editor [OF cons_table_ok, of "\<lambda>_. []"] cons_table_state by auto
qed

theorem typed_line_is_read_witness:
  "\<exists>s' s''. kbdintr (\<lambda>_. []) cons_one = Ok True s' \<and> consoleread_loop 100 100 [] s' = Ok (Some [104, 105, 10]) s''"
  using typed_line_is_read [OF cons_one_ok(1,2) _ _ cons_one_ok(3,4), of "[104, 105]" 100 "\<lambda>_. []"] cons_one_keys
  by (auto simp: ordinary_def INPUT_BUF_def)

theorem show_table_off_screen_witness:
  "\<exists>s'. show_table (cons_one\<lparr>crt_pos := 0\<rparr>) = Ok () s' \<and> kmemory s' (crt - 1440) = 43"
  using show_table_off_screen [of "cons_one\<lparr>crt_pos := 0\<rparr>"] by auto

end
