(* ===== verification/Exec.thy ===== *)
theory Exec
  imports Console
begin

text \<open>
  Program execution: \<^verbatim>\<open>kernel/exec.c\<close> with the file format of \<^verbatim>\<open>kernel/elf.h\<close>, and \<^verbatim>\<open>sys_exec\<close> of
  \<^verbatim>\<open>kernel/sysfile.c\<close>. \<^verbatim>\<open>exec\<close> is one definition per step of
  the code: the header, the segments, the stack and the switch to the new memory.

  Structures of the file are parsed from the bytes that \<^verbatim>\<open>readi\<close> returns.
\<close>

section \<open>The file format\<close>

definition ELF_MAGIC :: uint where "ELF_MAGIC = 0x464C457F"
definition ELF_PROG_LOAD :: uint where "ELF_PROG_LOAD = 1"
definition MAXARG :: nat where "MAXARG = 32"

text \<open>The fields that the kernel uses.\<close>

record elfhdr =
  e_magic :: uint
  e_entry :: uint
  e_phoff :: uint
  e_phnum :: ushort

record proghdr =
  ph_type :: uint
  ph_off :: uint
  ph_vaddr :: uint
  ph_filesz :: uint
  ph_memsz :: uint

definition sizeof_elfhdr :: nat where "sizeof_elfhdr = 52"
definition sizeof_proghdr :: nat where "sizeof_proghdr = 32"

definition word_at :: "uchar list \<Rightarrow> nat \<Rightarrow> uint" where
  "word_at bs off = of_le32 (take 4 (drop off bs))"

definition elf_of :: "uchar list \<Rightarrow> elfhdr" where
  "elf_of bs = \<lparr>e_magic = word_at bs 0, e_entry = word_at bs 24, e_phoff = word_at bs 28, e_phnum = ucast (word_at bs 44)\<rparr>"

definition ph_of :: "uchar list \<Rightarrow> proghdr" where
  "ph_of bs = \<lparr>ph_type = word_at bs 0, ph_off = word_at bs 4, ph_vaddr = word_at bs 8, ph_filesz = word_at bs 16, ph_memsz = word_at bs 20\<rparr>"

section \<open>exec\<close>

text \<open>The loop over the program headers; \<open>None\<close> is the jump to \<^verbatim>\<open>bad\<close>.\<close>

fun exec_load :: "uint \<Rightarrow> nat \<Rightarrow> uint \<Rightarrow> nat \<Rightarrow> uint \<Rightarrow> ('a consst_scheme, uint option) kfun" where
  "exec_load pgdir ip off 0 sz = retK (Some sz)"
| "exec_load pgdir ip off (Suc n) sz =
     bindK (readi console_devsw ip off (of_nat sizeof_proghdr)) (\<lambda>(r, bs).
     if r \<noteq> int sizeof_proghdr then retK None else
     let ph = ph_of bs; next = exec_load pgdir ip (off + of_nat sizeof_proghdr) n in
     if ph_type ph \<noteq> ELF_PROG_LOAD then next sz else
     if ph_memsz ph < ph_filesz ph then retK None else
     if ph_vaddr ph + ph_memsz ph < ph_vaddr ph then retK None else
     bindK (allocuvm pgdir sz (ph_vaddr ph + ph_memsz ph)) (\<lambda>sz.
     if sz = 0 then retK None else
     if ph_vaddr ph mod PGSIZE \<noteq> 0 then retK None else
     bindK (loaduvm console_devsw pgdir (ph_vaddr ph) ip (ph_off ph) (ph_filesz ph)) (\<lambda>r.
     if r < 0 then retK None else next sz)))"

text \<open>
  Pushing the arguments: the new stack pointer and the addresses of the strings. Each string starts at a multiple of 4.
\<close>

definition push_addr :: "uint \<Rightarrow> uchar list \<Rightarrow> uint" where
  "push_addr sp arg = (sp - (of_nat (length arg) + 1)) AND NOT 3"

fun push_args :: "uint \<Rightarrow> uint \<Rightarrow> uchar list list \<Rightarrow> nat \<Rightarrow> uint list \<Rightarrow> ('a consst_scheme, (uint \<times> uint list) option) kfun" where
  "push_args pgdir sp [] argc ptrs = retK (Some (sp, ptrs))"
| "push_args pgdir sp (arg # args) argc ptrs =
     (if argc \<ge> MAXARG then retK None else
      let sp = push_addr sp arg in
      bindK (copyout pgdir sp (arg @ [0])) (\<lambda>r.
      if r < 0 then retK None else
      push_args pgdir sp args (argc + 1) (ptrs @ [sp])))"

definition ustack :: "uint \<Rightarrow> uint list \<Rightarrow> uint list" where
  "ustack sp ptrs = [0xffffffff, of_nat (length ptrs), sp - (of_nat (length ptrs) + 1) * 4] @ ptrs @ [0]"

text \<open>The part of the path after the last slash.\<close>

fun last_elem :: "uchar list \<Rightarrow> uchar list \<Rightarrow> uchar list" where
  "last_elem rest [] = rest"
| "last_elem rest (c # cs) = last_elem (if c = 47 then cs else rest) cs"

definition exec_bad :: "uint \<Rightarrow> nat option \<Rightarrow> ('a consst_scheme, int) kfun" where
  "exec_bad pgdir ip =
     thenK (whenK (pgdir \<noteq> 0) (freevm pgdir)) (
     thenK (case ip of None \<Rightarrow> retK () | Some i \<Rightarrow> thenK (iunlockput i) end_op) (
     retK (-1)))"

text \<open>From the point where the program is loaded: the stack, and the commitment to the new image.\<close>

definition exec_stack :: "uint \<Rightarrow> uint \<Rightarrow> uint \<Rightarrow> uchar list \<Rightarrow> uchar list list \<Rightarrow> ('a consst_scheme, int) kfun" where
  "exec_stack pgdir sz start path argv =
     bindK myproc (\<lambda>i.
     let sz = PGROUNDUP sz in
     bindK (allocuvm pgdir sz (sz + 2 * PGSIZE)) (\<lambda>sz.
     if sz = 0 then exec_bad pgdir None else
     thenK (clearpteu pgdir (sz - 2 * PGSIZE)) (
     bindK (push_args pgdir sz argv 0 []) (\<lambda>r.
     case r of None \<Rightarrow> exec_bad pgdir None | Some (sp, ptrs) \<Rightarrow>
     let us = ustack sp ptrs; sp = sp - of_nat (length us) * 4 in
     bindK (copyout pgdir sp (concat (map le32 us))) (\<lambda>r.
     if r < 0 then exec_bad pgdir None else
     thenK (upd_proc i (\<lambda>p. p\<lparr>p_name := safestrcpy (cstr (last_elem path path)) 16\<rparr>)) (
     bindK (getK (\<lambda>s. p_pgdir (ptable s ! i))) (\<lambda>oldpgdir.
     thenK (upd_proc i (\<lambda>p. p\<lparr>p_pgdir := pgdir, p_sz := sz, p_tf := (p_tf p)\<lparr>tf_eip := start, tf_esp := sp\<rparr>\<rparr>)) (
     thenK (switchuvm i) (
     thenK (freevm oldpgdir) (
     retK 0))))))))))"

definition exec :: "uint \<Rightarrow> uchar list \<Rightarrow> uchar list list \<Rightarrow> ('a consst_scheme, int) kfun" where
  "exec kdata path argv =
     thenK begin_op (
     bindK (namei console_devsw path) (\<lambda>r.
     case r of
       None \<Rightarrow>
         thenK end_op (
         thenK (cprintf (''exec: fail'' @ [CHR 0x0A]) []) (
         retK (-1)))
     | Some ip \<Rightarrow>
         thenK (ilock ip) (
         bindK (readi console_devsw ip 0 (of_nat sizeof_elfhdr)) (\<lambda>(n, bs).
         let elf = elf_of bs in
         if n \<noteq> int sizeof_elfhdr \<or> e_magic elf \<noteq> ELF_MAGIC then exec_bad 0 (Some ip) else
         bindK (setupkvm kdata) (\<lambda>pgdir.
         if pgdir = 0 then exec_bad 0 (Some ip) else
         bindK (exec_load pgdir ip (e_phoff elf) (unat (e_phnum elf)) 0) (\<lambda>r.
         case r of None \<Rightarrow> exec_bad pgdir (Some ip) | Some sz \<Rightarrow>
         thenK (iunlockput ip) (
         thenK end_op (
         exec_stack pgdir sz (e_entry elf) path argv))))))))"

text \<open>The arguments of \<^verbatim>\<open>sys_exec\<close>: \<open>n\<close> is the room left in the array.\<close>

fun fetch_argv :: "uint \<Rightarrow> nat \<Rightarrow> ('a consst_scheme, uchar list list option) kfun" where
  "fetch_argv a 0 = retK None"
| "fetch_argv a (Suc n) =
     bindK (fetchint a) (\<lambda>r.
     case r of None \<Rightarrow> retK None | Some uarg \<Rightarrow>
     if uarg = 0 then retK (Some []) else
     bindK (fetchstr uarg) (\<lambda>r.
     case r of None \<Rightarrow> retK None | Some (_, str) \<Rightarrow>
     bindK (fetch_argv (a + 4) n) (\<lambda>r.
     retK (map_option (\<lambda>strs. str # strs) r))))"

definition sys_exec :: "uint \<Rightarrow> ('a consst_scheme, int) kfun" where
  "sys_exec kdata =
     bindK (argstr 0) (\<lambda>r. case r of None \<Rightarrow> retK (-1) | Some (_, path) \<Rightarrow>
     bindK (argint 1) (\<lambda>r. case r of None \<Rightarrow> retK (-1) | Some uargv \<Rightarrow>
     bindK (fetch_argv uargv MAXARG) (\<lambda>r. case r of None \<Rightarrow> retK (-1) | Some argv \<Rightarrow>
     exec kdata path argv)))"

end
