(* ===== verification/Boot.thy ===== *)
theory Boot
  imports Ide Exec
begin

text \<open>
  The boot loader \<^verbatim>\<open>bootloader/bootmain.c\<close>: it reads the kernel, an ELF file that starts at sector 1 of the disk, into
  physical memory and gives the address to jump to.

  As in the disk driver, the drive is reached through ports: what is written to them is recorded, the status register gives
  the values of a sequence, and the data that \<^verbatim>\<open>insl\<close> delivers is a function of all that was written. A
  pointer that runs over the end of the address space is \<open>Undef\<close>. The lemmas show that the segments of the kernel
  are in memory as the file has them when the loader jumps to it.
\<close>

section \<open>State and sectors\<close>

definition SECTSIZE :: nat where "SECTSIZE = 512"

record bootst =
  bt_mem :: memory
  bt_ports :: "port_op list"
  bt_status :: "nat \<Rightarrow> uchar"
  bt_pos :: nat

definition boot_outb :: "nat \<Rightarrow> uchar \<Rightarrow> (bootst, unit) kfun" where
  "boot_outb port v = modK (\<lambda>s. s\<lparr>bt_ports := bt_ports s @ [Outb port v]\<rparr>)"

partial_function (option) waitdisk_loop :: "(nat \<Rightarrow> uchar) \<Rightarrow> nat \<Rightarrow> nat option" where
  "waitdisk_loop st k = (if st k AND 0xC0 \<noteq> 0x40 then waitdisk_loop st (k + 1) else Some k)"

definition waitdisk :: "(bootst, unit) kfun" where
  "waitdisk =
     bindK (getK (\<lambda>s. waitdisk_loop (bt_status s) (bt_pos s))) (\<lambda>j.
     case j of None \<Rightarrow> undefK | Some k \<Rightarrow> modK (\<lambda>s. s\<lparr>bt_pos := k + 1\<rparr>))"

text \<open>\<^verbatim>\<open>insl\<close> of a sector to the address \<open>a\<close>.\<close>

definition put_sect :: "memory \<Rightarrow> uint \<Rightarrow> block \<Rightarrow> memory" where
  "put_sect m a d = (\<lambda>x. if unat (x - a) < SECTSIZE then d (unat (x - a)) else m x)"

definition readsect :: "(port_op list \<Rightarrow> block) \<Rightarrow> uint \<Rightarrow> uint \<Rightarrow> (bootst, unit) kfun" where
  "readsect drive dst offset =
     thenK waitdisk (
     thenK (boot_outb 0x1F2 1) (
     thenK (boot_outb 0x1F3 (ucast offset)) (
     thenK (boot_outb 0x1F4 (ucast (drop_bit 8 offset))) (
     thenK (boot_outb 0x1F5 (ucast (drop_bit 16 offset))) (
     thenK (boot_outb 0x1F6 (ucast (drop_bit 24 offset OR 0xE0))) (
     thenK (boot_outb 0x1F7 0x20) (
     thenK waitdisk (
     bindK (getK (\<lambda>s. drive (bt_ports s))) (\<lambda>d.
     modK (\<lambda>s. s\<lparr>bt_mem := put_sect (bt_mem s) dst d\<rparr>))))))))))"

function readseg_loop :: "(port_op list \<Rightarrow> block) \<Rightarrow> uint \<Rightarrow> uint \<Rightarrow> uint \<Rightarrow> (bootst, unit) kfun" where
  "readseg_loop drive pa epa offset =
     (if pa < epa then
        thenK (readsect drive pa offset) (
        if unat pa + SECTSIZE < 2 ^ 32 then readseg_loop drive (pa + of_nat SECTSIZE) epa (offset + 1) else undefK)
      else retK ())"
  by pat_completeness auto
termination
  by (relation "measure (\<lambda>(drive, pa, epa, offset). 2 ^ 32 - unat pa)") (auto simp: SECTSIZE_def unat_word_ariths)

definition readseg :: "(port_op list \<Rightarrow> block) \<Rightarrow> uint \<Rightarrow> uint \<Rightarrow> uint \<Rightarrow> (bootst, unit) kfun" where
  "readseg drive pa count offset =
     (if 2 ^ 32 \<le> unat pa + unat count \<or> unat pa < unat offset mod SECTSIZE then undefK else
      readseg_loop drive (pa - offset mod of_nat SECTSIZE) (pa + count) (offset div of_nat SECTSIZE + 1))"

section \<open>The loader\<close>

record bootph =
  bp_off :: uint
  bp_paddr :: uint
  bp_filesz :: uint
  bp_memsz :: uint

definition bootph_at :: "memory \<Rightarrow> uint \<Rightarrow> bootph" where
  "bootph_at m ph = \<lparr>bp_off = load32 m (ph + 4), bp_paddr = load32 m (ph + 12), bp_filesz = load32 m (ph + 16),
     bp_memsz = load32 m (ph + 20)\<rparr>"

definition boot_segment :: "(port_op list \<Rightarrow> block) \<Rightarrow> bootph \<Rightarrow> (bootst, unit) kfun" where
  "boot_segment drive ph =
     thenK (readseg drive (bp_paddr ph) (bp_filesz ph) (bp_off ph)) (
     whenK (bp_memsz ph > bp_filesz ph) (
       modK (\<lambda>s. s\<lparr>bt_mem := stosb (bt_mem s) (bp_paddr ph + bp_filesz ph) 0 (unat (bp_memsz ph - bp_filesz ph))\<rparr>)))"

fun boot_segments :: "(port_op list \<Rightarrow> block) \<Rightarrow> nat \<Rightarrow> uint \<Rightarrow> (bootst, unit) kfun" where
  "boot_segments drive 0 ph = retK ()"
| "boot_segments drive (Suc n) ph =
     bindK (getK (\<lambda>s. bootph_at (bt_mem s) ph)) (\<lambda>p.
     thenK (boot_segment drive p) (
     boot_segments drive n (ph + 32)))"

text \<open>The result is the address that \<^verbatim>\<open>bootmain\<close> jumps to; \<open>None\<close> is the return to
  \<^verbatim>\<open>bootasm.S\<close>.\<close>

definition bootmain :: "(port_op list \<Rightarrow> block) \<Rightarrow> (bootst, uint option) kfun" where
  "bootmain drive =
     thenK (readseg drive 0x10000 4096 0) (
     bindK (getK bt_mem) (\<lambda>m.
     if load32 m 0x10000 \<noteq> ELF_MAGIC then retK None else
     let phoff = load32 m (0x10000 + 28); phnum = unat (ucast (load32 m (0x10000 + 44)) :: ushort) in
     if 2 ^ 32 \<le> 0x10000 + unat phoff + 32 * phnum then undefK else
     thenK (boot_segments drive phnum (0x10000 + phoff)) (
     bindK (getK bt_mem) (\<lambda>m.
     retK (Some (V2P (load32 m (0x10000 + 24))))))))"


section \<open>Reading from the disk\<close>

text \<open>
  The kernel file is a function from positions to bytes. The drive answers the command to read a sector with the bytes of
  that sector, and does not stay busy for ever.
\<close>

definition read_cmds :: "uint \<Rightarrow> port_op list" where
  "read_cmds sec = [Outb 0x1F2 1, Outb 0x1F3 (ucast sec), Outb 0x1F4 (ucast (drop_bit 8 sec)), Outb 0x1F5 (ucast (drop_bit 16 sec)),
     Outb 0x1F6 (ucast (drop_bit 24 sec OR 0xE0)), Outb 0x1F7 0x20]"

definition disk_holds :: "(port_op list \<Rightarrow> block) \<Rightarrow> (nat \<Rightarrow> uchar) \<Rightarrow> bool" where
  "disk_holds drive kern \<longleftrightarrow> (\<forall>tr sec i. 0 < unat sec \<longrightarrow> unat sec < 2 ^ 28 \<longrightarrow> i < SECTSIZE \<longrightarrow>
     drive (tr @ read_cmds sec) i = kern ((unat sec - 1) * SECTSIZE + i))"

definition drive_ready :: "(nat \<Rightarrow> uchar) \<Rightarrow> bool" where
  "drive_ready st \<longleftrightarrow> (\<forall>k. \<exists>j \<ge> k. st j AND 0xC0 = 0x40)"

lemma waitdisk_loop_ends:
  assumes "drive_ready st"
  shows "\<exists>j. waitdisk_loop st k = Some j"
proof -
  obtain j where "k \<le> j" "st j AND 0xC0 = 0x40" using assms by (auto simp: drive_ready_def)
  then show ?thesis
  proof (induction "j - k" arbitrary: k)
    case 0
    then show ?case by (subst waitdisk_loop.simps) auto
  next
    case (Suc n)
    then show ?case by (subst waitdisk_loop.simps) (auto dest: Suc.hyps(1) [of "k + 1"])
  qed
qed

lemma waitdisk_run: "drive_ready (bt_status s) \<Longrightarrow> \<exists>j. waitdisk s = Ok () (s\<lparr>bt_pos := j\<rparr>)"
  using waitdisk_loop_ends [of "bt_status s" "bt_pos s"] by (auto simp: waitdisk_def kdefs)

lemma put_sect_nat:
  assumes "unat a + SECTSIZE < 2 ^ 32"
  shows "put_sect m a d x = (if unat a \<le> unat x \<and> unat x < unat a + SECTSIZE then d (unat x - unat a) else m x)"
proof (cases "unat a \<le> unat x")
  case True
  then have "unat (x - a) = unat x - unat a" by (simp add: unat_sub word_le_nat_alt)
  then show ?thesis using True by (auto simp: put_sect_def)
next
  case False
  have "unat (x - a) = 2 ^ 32 + unat x - unat a" using False by (simp add: unat_sub_if_size word_size word_le_nat_alt)
  then show ?thesis using False assms by (auto simp: put_sect_def)
qed

definition filled_mem :: "memory \<Rightarrow> nat \<Rightarrow> nat \<Rightarrow> (nat \<Rightarrow> uchar) \<Rightarrow> memory" where
  "filled_mem m a n d = (\<lambda>x. if a \<le> unat x \<and> unat x < a + n then d (unat x - a) else m x)"

lemma readsect_run:
  assumes "disk_holds drive kern" and "drive_ready (bt_status s)" and "0 < unat sec" and "unat sec < 2 ^ 28"
    and "unat a + SECTSIZE < 2 ^ 32"
  shows "\<exists>s'. readsect drive a sec s = Ok () s' \<and> bt_status s' = bt_status s \<and>
     bt_mem s' = filled_mem (bt_mem s) (unat a) SECTSIZE (\<lambda>i. kern ((unat sec - 1) * SECTSIZE + i))"
proof -
  obtain j where j: "waitdisk s = Ok () (s\<lparr>bt_pos := j\<rparr>)" using waitdisk_run [OF assms(2)] by blast
  let ?s1 = "s\<lparr>bt_pos := j, bt_ports := bt_ports s @ read_cmds sec\<rparr>"
  obtain l where l: "waitdisk ?s1 = Ok () (?s1\<lparr>bt_pos := l\<rparr>)" using waitdisk_run [of ?s1] assms(2) by auto
  have "readsect drive a sec s = Ok () (?s1\<lparr>bt_pos := l, bt_mem := put_sect (bt_mem s) a (drive (bt_ports s @ read_cmds sec))\<rparr>)"
    using l by (simp add: readsect_def boot_outb_def kdefs j read_cmds_def)
  moreover have "put_sect (bt_mem s) a (drive (bt_ports s @ read_cmds sec)) =
      filled_mem (bt_mem s) (unat a) SECTSIZE (\<lambda>i. kern ((unat sec - 1) * SECTSIZE + i))"
    using assms(1,3,4) by (auto simp: fun_eq_iff put_sect_nat [OF assms(5)] filled_mem_def disk_holds_def)
  ultimately show ?thesis by auto
qed

lemma readseg_loop_run:
  assumes "disk_holds drive kern" and "drive_ready (bt_status s)" and "0 < unat sec" and "unat sec + n < 2 ^ 28"
    and "n = (unat epa - unat pa + (SECTSIZE - 1)) div SECTSIZE" and "unat pa + SECTSIZE * n < 2 ^ 32"
  shows "\<exists>s'. readseg_loop drive pa epa sec s = Ok () s' \<and> bt_status s' = bt_status s \<and>
     bt_mem s' = filled_mem (bt_mem s) (unat pa) (SECTSIZE * n) (\<lambda>i. kern ((unat sec - 1) * SECTSIZE + i))"
  using assms
proof (induction n arbitrary: pa sec s)
  case 0
  then have "\<not> pa < epa" by (auto simp: SECTSIZE_def word_less_nat_alt)
  then show ?case by (subst readseg_loop.simps) (auto simp: retK_def filled_mem_def fun_eq_iff)
next
  case (Suc n)
  have lt: "pa < epa" using Suc.prems(5) by (simp add: SECTSIZE_def word_less_nat_alt)
  have pa: "unat pa + SECTSIZE < 2 ^ 32" using Suc.prems(6) by (simp add: SECTSIZE_def)
  from readsect_run [OF Suc.prems(1,2,3) _ pa] Suc.prems(4) obtain s1 where r: "readsect drive pa sec s = Ok () s1"
    and s1: "bt_status s1 = bt_status s" "bt_mem s1 = filled_mem (bt_mem s) (unat pa) SECTSIZE (\<lambda>i. kern ((unat sec - 1) * SECTSIZE + i))"
    by auto
  have u: "unat (pa + of_nat SECTSIZE) = unat pa + SECTSIZE" using pa by (simp add: SECTSIZE_def unat_word_ariths)
  have us: "unat (sec + 1) = unat sec + 1" using Suc.prems(4) by (simp add: unat_word_ariths)
  have n: "n = (unat epa - unat (pa + of_nat SECTSIZE) + (SECTSIZE - 1)) div SECTSIZE"
    using Suc.prems(5) u lt by (simp add: SECTSIZE_def word_less_nat_alt)
  have "drive_ready (bt_status s1)" "0 < unat (sec + 1)" "unat (sec + 1) + n < 2 ^ 28" "unat (pa + of_nat SECTSIZE) + SECTSIZE * n < 2 ^ 32"
    using Suc.prems(2,3,4,6) s1(1) u us by auto
  note ih = Suc.IH [OF Suc.prems(1) this(1,2,3) n this(4)]
  then obtain s2 where "readseg_loop drive (pa + of_nat SECTSIZE) epa (sec + 1) s1 = Ok () s2 \<and> bt_status s2 = bt_status s1 \<and>
     bt_mem s2 = filled_mem (bt_mem s1) (unat (pa + of_nat SECTSIZE)) (SECTSIZE * n) (\<lambda>i. kern ((unat (sec + 1) - 1) * SECTSIZE + i))" by blast
  then have l: "readseg_loop drive (pa + of_nat SECTSIZE) epa (sec + 1) s1 = Ok () s2" "bt_status s2 = bt_status s"
    "bt_mem s2 = filled_mem (bt_mem s1) (unat pa + SECTSIZE) (SECTSIZE * n) (\<lambda>i. kern (unat sec * SECTSIZE + i))"
    by (simp_all add: u us s1(1))
  have "readseg_loop drive pa epa sec s = Ok () s2" using r l(1) lt pa by (subst readseg_loop.simps) (simp add: kdefs)
  moreover have "filled_mem (bt_mem s1) (unat pa + SECTSIZE) (SECTSIZE * n) (\<lambda>i. kern (unat sec * SECTSIZE + i)) =
      filled_mem (bt_mem s) (unat pa) (SECTSIZE * Suc n) (\<lambda>i. kern ((unat sec - 1) * SECTSIZE + i))"
    using Suc.prems(3) by (cases "unat sec") (auto simp: s1 filled_mem_def fun_eq_iff algebra_simps intro!: arg_cong [of _ _ kern])
  ultimately show ?case using l by auto
qed


section \<open>Segments\<close>

text \<open>The sectors that \<^verbatim>\<open>readseg\<close> reads, where it writes them, and all that loading a segment writes.\<close>

definition seg_skip :: "bootph \<Rightarrow> nat" where
  "seg_skip ph = unat (bp_off ph) mod SECTSIZE"

definition sect_count :: "nat \<Rightarrow> nat" where
  "sect_count n = (n + (SECTSIZE - 1)) div SECTSIZE"

definition seg_len :: "bootph \<Rightarrow> nat" where
  "seg_len ph = max (unat (bp_filesz ph)) (unat (bp_memsz ph))"

definition seg_range :: "bootph \<Rightarrow> nat set" where
  "seg_range ph = {unat (bp_paddr ph)..<unat (bp_paddr ph) + seg_len ph}"

definition seg_foot :: "bootph \<Rightarrow> nat set" where
  "seg_foot ph = (let a = unat (bp_paddr ph) - seg_skip ph in
     {a..<a + SECTSIZE * sect_count (seg_skip ph + unat (bp_filesz ph))} \<union> seg_range ph)"

definition seg_fits :: "bootph \<Rightarrow> bool" where
  "seg_fits ph \<longleftrightarrow> seg_skip ph \<le> unat (bp_paddr ph) \<and> unat (bp_paddr ph) + seg_len ph + SECTSIZE < 2 ^ 32"

text \<open>The segment is in memory: the bytes of the file, then zeros.\<close>

definition seg_loaded :: "(nat \<Rightarrow> uchar) \<Rightarrow> memory \<Rightarrow> bootph \<Rightarrow> bool" where
  "seg_loaded kern m ph \<longleftrightarrow> (\<forall>i < seg_len ph. m (bp_paddr ph + of_nat i) =
     (if i < unat (bp_filesz ph) then kern (unat (bp_off ph) + i) else 0))"

lemma readseg_run:
  assumes d: "disk_holds drive kern" "drive_ready (bt_status s)" and skip: "unat off mod SECTSIZE \<le> unat pa"
    and fit: "unat pa + unat count + SECTSIZE < 2 ^ 32"
  defines "r \<equiv> unat off mod SECTSIZE"
  shows "\<exists>s'. readseg drive pa count off s = Ok () s' \<and> bt_status s' = bt_status s \<and>
     bt_mem s' = filled_mem (bt_mem s) (unat pa - r) (SECTSIZE * sect_count (r + unat count)) (\<lambda>i. kern (unat off - r + i))"
proof -
  let ?pa = "pa - off mod of_nat SECTSIZE" and ?sec = "off div of_nat SECTSIZE + 1" and ?n = "sect_count (r + unat count)"
  have ur: "unat (off mod of_nat SECTSIZE) = r" by (simp add: r_def unat_mod SECTSIZE_def)
  then have "off mod of_nat SECTSIZE \<le> pa" using skip by (simp add: r_def word_le_nat_alt)
  then have upa: "unat ?pa = unat pa - r" by (simp only: unat_sub ur)
  have uepa: "unat (pa + count) = unat pa + unat count" using fit by (simp add: unat_word_ariths)
  have ud: "unat (off div of_nat SECTSIZE) = unat off div SECTSIZE" by (simp add: unat_div SECTSIZE_def)
  have dl: "unat off div SECTSIZE < 2 ^ 23" using unat_lt_2p32 [of off] by (simp add: SECTSIZE_def less_mult_imp_div_less)
  have us: "unat ?sec = unat off div SECTSIZE + 1" using dl ud by (simp add: unat_word_ariths)
  have rr: "r < SECTSIZE" "r \<le> unat off" by (simp_all add: r_def SECTSIZE_def)
  have n: "?n = (unat (pa + count) - unat ?pa + (SECTSIZE - 1)) div SECTSIZE"
  proof -
    have "unat (pa + count) - unat ?pa = r + unat count" unfolding uepa upa using skip by (simp add: r_def)
    then show ?thesis by (simp only: sect_count_def)
  qed
  have nl: "SECTSIZE * ?n \<le> r + unat count + (SECTSIZE - 1)" by (simp add: sect_count_def)
  have n28: "?n < 2 ^ 24" using nl fit rr by (simp add: SECTSIZE_def)
  have "0 < unat ?sec" "unat ?sec + ?n < 2 ^ 28" using us dl n28 by simp_all
  moreover have "unat ?pa + SECTSIZE * ?n < 2 ^ 32" using nl fit upa skip rr by (simp add: r_def)
  ultimately have "\<exists>s'. readseg_loop drive ?pa (pa + count) ?sec s = Ok () s' \<and> bt_status s' = bt_status s \<and>
     bt_mem s' = filled_mem (bt_mem s) (unat ?pa) (SECTSIZE * ?n) (\<lambda>i. kern ((unat ?sec - 1) * SECTSIZE + i))"
    by (intro readseg_loop_run [OF d _ _ n])
  moreover have "readseg drive pa count off s = readseg_loop drive ?pa (pa + count) ?sec s"
    using fit skip by (simp add: readseg_def)
  moreover have "(unat ?sec - 1) * SECTSIZE = unat off - r" by (simp add: us r_def minus_mod_eq_div_mult)
  ultimately show ?thesis by (simp add: upa)
qed

lemma unat_add_of_nat: "unat (a :: uint) + i < 2 ^ 32 \<Longrightarrow> unat (a + of_nat i) = unat a + i"
  by (simp add: unat_word_ariths unat_of_nat)

lemma boot_segment_run:
  assumes d: "disk_holds drive kern" "drive_ready (bt_status s)" and ok: "seg_fits ph"
  shows "\<exists>s'. boot_segment drive ph s = Ok () s' \<and> bt_status s' = bt_status s \<and> seg_loaded kern (bt_mem s') ph \<and>
     (\<forall>x. unat x \<notin> seg_foot ph \<longrightarrow> bt_mem s' x = bt_mem s x)"
proof -
  let ?pa = "bp_paddr ph" and ?f = "bp_filesz ph" and ?o = "bp_off ph" and ?r = "seg_skip ph"
  let ?n = "SECTSIZE * sect_count (?r + unat ?f)"
  have l: "unat ?pa + unat ?f + SECTSIZE < 2 ^ 32" "?r \<le> unat ?pa" using ok by (auto simp: seg_fits_def seg_len_def)
  from readseg_run [OF d l(2) [unfolded seg_skip_def] l(1)] obtain s1 where r: "readseg drive ?pa ?f ?o s = Ok () s1" and s1: "bt_status s1 = bt_status s"
      "bt_mem s1 = filled_mem (bt_mem s) (unat ?pa - ?r) ?n (\<lambda>i. kern (unat ?o - ?r + i))" unfolding seg_skip_def by blast
  define m2 where "m2 = (if ?f < bp_memsz ph then stosb (bt_mem s1) (?pa + ?f) 0 (unat (bp_memsz ph - ?f)) else bt_mem s1)"
  have run: "boot_segment drive ph s = Ok () (s1\<lparr>bt_mem := m2\<rparr>)" using r by (simp add: boot_segment_def kdefs m2_def)
  have uf: "unat (?pa + ?f) = unat ?pa + unat ?f" using l by (simp add: unat_word_ariths)
  have zero: "m2 x = (if unat ?pa + unat ?f \<le> unat x \<and> unat x < unat ?pa + seg_len ph then 0 else bt_mem s1 x)" for x
  proof (cases "?f < bp_memsz ph")
    case True
    have um: "unat (bp_memsz ph - ?f) = unat (bp_memsz ph) - unat ?f" using True by (simp add: unat_sub)
    have le: "unat ?f < unat (bp_memsz ph)" using True by (simp add: word_less_nat_alt)
    have sl: "unat ?pa + unat (bp_memsz ph) < 2 ^ 32" using ok by (auto simp: seg_fits_def seg_len_def)
    have "unat (x - (?pa + ?f)) < unat (bp_memsz ph) - unat ?f \<longleftrightarrow> unat ?pa + unat ?f \<le> unat x \<and> unat x < unat ?pa + unat (bp_memsz ph)"
      using le sl uf unat_lt_2p32 [of x] by (auto simp: unat_sub_if_size word_size word_le_nat_alt)
    then show ?thesis using True le unat_lt_2p32 [of "bp_memsz ph"] by (simp add: m2_def stosb_fill um seg_len_def max_def)
  next
    case False
    then show ?thesis by (auto simp: m2_def seg_len_def max_def word_less_nat_alt)
  qed
  have nn: "?r + unat ?f \<le> ?n"
    using dividend_less_div_times [of SECTSIZE "?r + unat ?f + (SECTSIZE - 1)"] by (simp add: sect_count_def SECTSIZE_def)
  have "m2 (?pa + of_nat i) = (if i < unat ?f then kern (unat ?o + i) else 0)" if i: "i < seg_len ph" for i
  proof -
    have u: "unat (?pa + of_nat i) = unat ?pa + i" using i ok by (intro unat_add_of_nat) (simp add: seg_fits_def)
    have "?r \<le> unat ?o" by (simp add: seg_skip_def)
    then show ?thesis using i u nn l(2) by (auto simp: zero s1(2) filled_mem_def intro!: arg_cong [of _ _ kern])
  qed
  moreover have "m2 x = bt_mem s x" if "unat x \<notin> seg_foot ph" for x
    using that by (auto simp: zero s1(2) filled_mem_def seg_foot_def seg_range_def Let_def)
  ultimately show ?thesis using run s1(1) by (auto simp: seg_loaded_def)
qed


section \<open>The whole loader\<close>

text \<open>The first page of the file in the scratch space, and the program headers there.\<close>

definition scratch :: "(nat \<Rightarrow> uchar) \<Rightarrow> memory" where
  "scratch kern = (\<lambda>x. kern (unat x - 0x10000))"

definition scratch_kept :: "(nat \<Rightarrow> uchar) \<Rightarrow> memory \<Rightarrow> bool" where
  "scratch_kept kern m \<longleftrightarrow> (\<forall>x. 0x10000 \<le> unat x \<longrightarrow> unat x < 0x11000 \<longrightarrow> m x = scratch kern x)"

definition segment :: "(nat \<Rightarrow> uchar) \<Rightarrow> uint \<Rightarrow> nat \<Rightarrow> bootph" where
  "segment kern ph j = bootph_at (scratch kern) (ph + 32 * of_nat j)"

text \<open>
  Loading keeps what it still needs: no segment is loaded over the scratch space, and none over one that was loaded before it,
  where the sectors read for a segment count in full.
\<close>

definition segments_ok :: "(nat \<Rightarrow> uchar) \<Rightarrow> uint \<Rightarrow> nat \<Rightarrow> bool" where
  "segments_ok kern ph n \<longleftrightarrow> (\<forall>j < n. seg_fits (segment kern ph j) \<and> seg_foot (segment kern ph j) \<inter> {0x10000..<0x11000} = {} \<and>
     (\<forall>i < j. seg_foot (segment kern ph j) \<inter> seg_range (segment kern ph i) = {}))"

lemma scratch_load32:
  assumes k: "scratch_kept kern m" and a: "0x10000 \<le> unat a" "unat a + 3 < 0x11000"
  shows "load32 m a = load32 (scratch kern) a"
proof -
  have "unat (a + of_nat i) = unat a + i" if "i \<le> 3" for i using a that by (intro unat_add_of_nat) simp
  from this [of 1] this [of 2] this [of 3] show ?thesis
    using k a by (intro load32_cong) (auto simp: scratch_kept_def)
qed

lemma scratch_bootph:
  assumes k: "scratch_kept kern m" and a: "0x10000 \<le> unat ph" "unat ph + 32 \<le> 0x11000"
  shows "bootph_at m ph = bootph_at (scratch kern) ph"
proof -
  have "load32 m (ph + of_nat i) = load32 (scratch kern) (ph + of_nat i)" if "i \<le> 28" for i
    using scratch_load32 [OF k, of "ph + of_nat i"] unat_add_of_nat [of ph i] a that by simp
  from this [of 4] this [of 12] this [of 16] this [of 20] show ?thesis by (simp add: bootph_at_def)
qed

lemma seg_loaded_keep:
  assumes "seg_loaded kern m ph" and "seg_fits ph" and "\<And>x. unat x \<in> seg_range ph \<Longrightarrow> m' x = m x"
  shows "seg_loaded kern m' ph"
proof -
  have "unat (bp_paddr ph + of_nat i) = unat (bp_paddr ph) + i" if "i < seg_len ph" for i
    using that assms(2) by (intro unat_add_of_nat) (simp add: seg_fits_def)
  then have "unat (bp_paddr ph + of_nat i) \<in> seg_range ph" if "i < seg_len ph" for i using that by (simp add: seg_range_def)
  then show ?thesis using assms(1,3) by (simp add: seg_loaded_def)
qed

lemma boot_segments_run:
  assumes "disk_holds drive kern" and "drive_ready (bt_status s)" and "scratch_kept kern (bt_mem s)"
    and "0x10000 \<le> unat ph" and "unat ph + 32 * n \<le> 0x11000" and "segments_ok kern ph n"
  shows "\<exists>s'. boot_segments drive n ph s = Ok () s' \<and> scratch_kept kern (bt_mem s') \<and>
     (\<forall>j < n. seg_loaded kern (bt_mem s') (segment kern ph j)) \<and>
     (\<forall>x. (\<forall>j < n. unat x \<notin> seg_foot (segment kern ph j)) \<longrightarrow> bt_mem s' x = bt_mem s x)"
  using assms
proof (induction n arbitrary: ph s)
  case 0
  then show ?case by (simp add: retK_def)
next
  case (Suc n)
  let ?p = "segment kern ph 0"
  have p: "bootph_at (bt_mem s) ph = ?p" using scratch_bootph [OF Suc.prems(3,4)] Suc.prems(5) by (simp add: segment_def)
  have ok: "seg_fits ?p" "seg_foot ?p \<inter> {0x10000..<0x11000} = {}" using Suc.prems(6) by (auto simp: segments_ok_def)
  from boot_segment_run [OF Suc.prems(1,2) ok(1)] obtain s1 where r: "boot_segment drive ?p s = Ok () s1"
    and s1: "bt_status s1 = bt_status s" "seg_loaded kern (bt_mem s1) ?p" "\<And>x. unat x \<notin> seg_foot ?p \<Longrightarrow> bt_mem s1 x = bt_mem s x" by blast
  have "unat x \<notin> seg_foot ?p" if "0x10000 \<le> unat x" "unat x < 0x11000" for x :: uint using ok(2) that by (auto simp: disjoint_iff)
  then have k1: "scratch_kept kern (bt_mem s1)" using Suc.prems(3) s1(3) by (simp add: scratch_kept_def)
  have u: "unat (ph + 32) = unat ph + 32" using unat_add_of_nat [of ph 32] Suc.prems(5) by simp
  have sh: "segment kern (ph + 32) j = segment kern ph (Suc j)" for j by (simp add: segment_def algebra_simps)
  have "segments_ok kern (ph + 32) n" using Suc.prems(6) unfolding segments_ok_def sh by auto
  with Suc.IH [of s1 "ph + 32"] Suc.prems(1,2,4,5) s1(1) k1 u obtain s2 where r2: "boot_segments drive n (ph + 32) s1 = Ok () s2"
    and s2: "scratch_kept kern (bt_mem s2)" "\<And>j. j < n \<Longrightarrow> seg_loaded kern (bt_mem s2) (segment kern ph (Suc j))"
      "\<And>x. (\<forall>j < n. unat x \<notin> seg_foot (segment kern ph (Suc j))) \<Longrightarrow> bt_mem s2 x = bt_mem s1 x" unfolding sh by auto
  have "bt_mem s2 x = bt_mem s1 x" if "unat x \<in> seg_range ?p" for x
    using Suc.prems(6) that by (intro s2(3)) (auto simp: segments_ok_def disjoint_iff)
  then have "seg_loaded kern (bt_mem s2) ?p" by (rule seg_loaded_keep [OF s1(2) ok(1)])
  then have "seg_loaded kern (bt_mem s2) (segment kern ph j)" if "j < Suc n" for j using s2(2) that by (cases j) auto
  moreover have "bt_mem s2 x = bt_mem s x" if "\<forall>j < Suc n. unat x \<notin> seg_foot (segment kern ph j)" for x
    using that s1(3) s2(3) by (metis Suc_less_eq zero_less_Suc)
  moreover have "boot_segments drive (Suc n) ph s = Ok () s2" using r r2 p by (simp add: kdefs)
  ultimately show ?case using s2(1) by blast
qed

lemma boot_header:
  assumes "disk_holds drive kern" and "drive_ready (bt_status s)"
  shows "\<exists>s'. readseg drive 0x10000 4096 0 s = Ok () s' \<and> bt_status s' = bt_status s \<and> bt_mem s' = filled_mem (bt_mem s) 0x10000 4096 kern \<and>
    scratch_kept kern (bt_mem s')"
proof -
  have n: "SECTSIZE * sect_count (0 + unat (4096 :: uint)) = 4096" by (simp add: sect_count_def SECTSIZE_def)
  have "unat (0 :: uint) mod SECTSIZE \<le> unat (0x10000 :: uint)" "unat (0x10000 :: uint) + unat (4096 :: uint) + SECTSIZE < 2 ^ 32"
    by (simp_all add: SECTSIZE_def)
  from readseg_run [OF assms this] n show ?thesis by (auto simp: scratch_kept_def scratch_def filled_mem_def)
qed

text \<open>
  (C37) The boot loader loads the kernel. Suppose the drive delivers the sectors of the disk, on which the kernel file
  starts at sector 1, and does not stay busy for ever. If the file does not start with the ELF magic number, whatever else it
  holds, the loader returns, and it has read the first page of the file to \<^verbatim>\<open>0x10000\<close> and changed no other
  memory. If it does, and the program headers lie in the first page of the file and no segment is loaded over the headers or
  over a segment before it, then the loader jumps to the physical address of the entry point, every segment is in memory, first
  the bytes of the file, then zeros up to its size in memory, and memory outside of the first page and of the sectors of the
  segments is as before.
\<close>

theorem bootmain_correct:
  fixes kern :: "nat \<Rightarrow> uchar"
  defines "hdr \<equiv> scratch kern"
  defines "phoff \<equiv> load32 hdr 0x1001C" and "phnum \<equiv> unat (ucast (load32 hdr 0x1002C) :: ushort)"
  assumes "disk_holds drive kern" and "drive_ready (bt_status s)"
    and elf: "load32 hdr 0x10000 = ELF_MAGIC \<longrightarrow> unat phoff + 32 * phnum \<le> 4096 \<and> segments_ok kern (0x10000 + phoff) phnum"
  shows "\<exists>r s'. bootmain drive s = Ok r s' \<and>
     (if load32 hdr 0x10000 = ELF_MAGIC
      then r = Some (V2P (load32 hdr 0x10018)) \<and> (\<forall>j < phnum. seg_loaded kern (bt_mem s') (segment kern (0x10000 + phoff) j)) \<and>
        (\<forall>x. unat x \<notin> {0x10000..<0x11000} \<union> (\<Union>j<phnum. seg_foot (segment kern (0x10000 + phoff) j)) \<longrightarrow> bt_mem s' x = bt_mem s x)
      else r = None \<and> bt_mem s' = filled_mem (bt_mem s) 0x10000 4096 kern)"
proof -
  obtain s1 where r: "readseg drive 0x10000 4096 0 s = Ok () s1" and s1: "bt_status s1 = bt_status s" "scratch_kept kern (bt_mem s1)"
      "bt_mem s1 = filled_mem (bt_mem s) 0x10000 4096 kern"
    using boot_header [OF assms(4,5)] by blast
  note ld = scratch_load32 [OF s1(2)]
  have e: "load32 (bt_mem s1) 0x10000 = load32 hdr 0x10000" "load32 (bt_mem s1) 0x1001C = phoff"
    "unat (ucast (load32 (bt_mem s1) 0x1002C) :: ushort) = phnum"
    using ld [of "0x10000"] ld [of "0x1001C"] ld [of "0x1002C"] by (simp_all add: phoff_def phnum_def hdr_def)
  show ?thesis
  proof (cases "load32 hdr 0x10000 = ELF_MAGIC")
    case False
    then show ?thesis using r e(1) s1(3) by (simp add: bootmain_def kdefs)
  next
    case True
    have ok: "unat phoff + 32 * phnum \<le> 4096" "segments_ok kern (0x10000 + phoff) phnum" using elf True by simp_all
    have u: "unat (0x10000 + phoff) = 0x10000 + unat phoff" using ok(1) by (simp add: unat_word_ariths)
    from boot_segments_run [OF assms(4) _ s1(2) _ _ ok(2)] assms(5) ok(1) s1(1) u obtain s2
      where s2: "boot_segments drive phnum (0x10000 + phoff) s1 = Ok () s2" "scratch_kept kern (bt_mem s2)"
        "\<And>j. j < phnum \<Longrightarrow> seg_loaded kern (bt_mem s2) (segment kern (0x10000 + phoff) j)"
        "\<And>x. (\<forall>j < phnum. unat x \<notin> seg_foot (segment kern (0x10000 + phoff) j)) \<Longrightarrow> bt_mem s2 x = bt_mem s1 x" by auto
    have "load32 (bt_mem s2) 0x10018 = load32 hdr 0x10018" using scratch_load32 [OF s2(2), of "0x10018"] by (simp add: hdr_def)
    then have "bootmain drive s = Ok (Some (V2P (load32 hdr 0x10018))) s2"
      using r e s2(1) True ok(1) by (simp add: bootmain_def kdefs Let_def)
    moreover have "bt_mem s2 x = bt_mem s x" if "unat x \<notin> {0x10000..<0x11000} \<union> (\<Union>j<phnum. seg_foot (segment kern (0x10000 + phoff) j))" for x
      using s2(4) [of x] that by (auto simp: s1(3) filled_mem_def)
    ultimately show ?thesis using True s2(3) by simp
  qed
qed


text \<open>A kernel of one segment: 3 bytes of the file at 600 and 2 zeros, at physical address \<^verbatim>\<open>0x100000\<close>.\<close>

definition tiny_kernel :: "nat \<Rightarrow> uchar" where
  "tiny_kernel p =
     (if p = 0 then 0x7F else if p = 1 then 0x45 else if p = 2 then 0x4C else if p = 3 then 0x46
      else if p = 26 then 0x10 else if p = 27 then 0x80 else if p = 28 then 52 else if p = 44 then 1
      else if p = 52 then 1 else if p = 56 then 88 else if p = 57 then 2 else if p = 66 then 0x10
      else if p = 68 then 3 else if p = 72 then 5 else if 600 \<le> p \<and> p < 603 then of_nat (p - 599) else 0)"

text \<open>A drive that keeps to the protocol: it decodes the sector from the last command.\<close>

definition lba_of :: "port_op list \<Rightarrow> nat" where
  "lba_of ops = (case rev ops of
     Outb _ _ # Outb _ d # Outb _ c # Outb _ b # Outb _ a # _ \<Rightarrow>
       unat ((ucast a :: uint) OR push_bit 8 (ucast b) OR push_bit 16 (ucast c) OR push_bit 24 (ucast (d AND 0xF)))
   | _ \<Rightarrow> 0)"

definition tiny_drive :: "port_op list \<Rightarrow> block" where
  "tiny_drive ops = (\<lambda>i. tiny_kernel ((lba_of ops - 1) * SECTSIZE + i))"

definition boot_start :: bootst where
  "boot_start = \<lparr>bt_mem = (\<lambda>_. 0), bt_ports = [], bt_status = (\<lambda>_. 0x40), bt_pos = 0\<rparr>"

lemma lba_read_cmds:
  assumes "unat sec < 2 ^ 28"
  shows "lba_of (tr @ read_cmds sec) = unat sec"
proof -
  let ?y = "ucast (drop_bit 24 sec) :: uchar"
  have "unat (drop_bit 24 sec) < 16" using assms by (simp add: unat_drop_bit_eq drop_bit_eq_div less_mult_imp_div_less unat_div)
  then have y: "unat ?y < 16" by (simp add: unsigned_ucast_eq take_bit_nat_eq_self)
  have "ucast (drop_bit 24 sec OR 0xE0) = ?y OR 0xE0" by (simp add: unsigned_or_eq)
  then have "ucast (drop_bit 24 sec OR 0xE0) AND 0xF = (?y AND 0xF) OR (0xE0 AND 0xF)"
    by (simp only: word_bw_comms bit.conj_disj_distrib)
  also have "\<dots> = ?y AND mask 4" by (simp add: mask_eq_exp_minus_1)
  also have "\<dots> = ?y" using y by (simp add: take_bit_eq_mask [symmetric] word_unat_eq_iff unsigned_take_bit_eq take_bit_nat_eq_self)
  finally show ?thesis using le32_split [of sec] by (simp add: lba_of_def read_cmds_def)
qed

lemma tiny_holds: "disk_holds tiny_drive tiny_kernel"
  by (simp add: disk_holds_def tiny_drive_def lba_read_cmds)

lemma tiny_ready: "drive_ready (bt_status boot_start)"
  by (auto simp: drive_ready_def boot_start_def)

lemma tiny_header: "load32 (scratch tiny_kernel) 0x10000 = ELF_MAGIC" "load32 (scratch tiny_kernel) 0x10018 = 0x80100000"
  "load32 (scratch tiny_kernel) 0x1001C = 52" "load32 (scratch tiny_kernel) 0x1002C = 1"
  "segment tiny_kernel 0x10034 0 = \<lparr>bp_off = 600, bp_paddr = 0x100000, bp_filesz = 3, bp_memsz = 5\<rparr>"
  by (simp_all add: load32_def scratch_def tiny_kernel_def segment_def bootph_at_def ELF_MAGIC_def)

lemma tiny_segments: "segments_ok tiny_kernel 0x10034 1"
  by (simp add: segments_ok_def tiny_header seg_fits_def seg_foot_def seg_range_def seg_skip_def seg_len_def sect_count_def SECTSIZE_def
      Let_def disjoint_iff)

theorem bootmain_correct_witness:
  "\<exists>s'. bootmain tiny_drive boot_start = Ok (Some 0x100000) s' \<and>
     bt_mem s' 0x100000 = 1 \<and> bt_mem s' 0x100002 = 3 \<and> bt_mem s' 0x100004 = 0"
proof -
  from bootmain_correct [OF tiny_holds tiny_ready] tiny_segments
  obtain s' where r: "bootmain tiny_drive boot_start = Ok (Some (V2P 0x80100000)) s'"
    and l: "seg_loaded tiny_kernel (bt_mem s') (segment tiny_kernel 0x10034 0)" by (auto simp: tiny_header)
  have "bt_mem s' (0x100000 + of_nat i) = (if i < 3 then tiny_kernel (600 + i) else 0)" if "i < 5" for i
    using l that by (simp add: seg_loaded_def tiny_header seg_len_def)
  from this [of 0] this [of 2] this [of 4] show ?thesis using r by (simp add: tiny_kernel_def V2P_def KERNBASE_def)
qed

end
