(* ===== verification/Mp.thy ===== *)
theory Mp
  imports Kalloc Ide
begin

text \<open>
  The search for other processors, \<^verbatim>\<open>kernel/mp.c\<close>: the floating pointer structure in the BIOS areas, the
  configuration table it points to, and the loop over the entries of the table that collects the processors and the I/O APIC.

  The memory is the kernel's, above \<^verbatim>\<open>KERNBASE\<close>. The loop is a partial function, since it does not end on an
  entry of unknown type. The lemmas show that the search gives the first structure with the right signature and checksum, and
  that the loop reads a table of known entries back exactly.
\<close>

section \<open>Tables in memory\<close>

definition NCPU :: nat where "NCPU = 8"
definition MPPROC :: uchar where "MPPROC = 0x00"
definition MPBUS :: uchar where "MPBUS = 0x01"
definition MPIOAPIC :: uchar where "MPIOAPIC = 0x02"
definition MPIOINTR :: uchar where "MPIOINTR = 0x03"
definition MPLINTR :: uchar where "MPLINTR = 0x04"

lemmas mp_types = MPPROC_def MPBUS_def MPIOAPIC_def MPIOINTR_def MPLINTR_def

definition load16 :: "memory \<Rightarrow> uint \<Rightarrow> ushort" where
  "load16 m a = ucast (m a) OR push_bit 8 (ucast (m (a + 1)))"

definition mem_bytes :: "memory \<Rightarrow> uint \<Rightarrow> nat \<Rightarrow> uchar list" where
  "mem_bytes m a n = map (\<lambda>i. m (a + of_nat i)) [0..<n]"

text \<open>The fields of \<^verbatim>\<open>struct mp\<close> and \<^verbatim>\<open>struct mpconf\<close> that the code reads.\<close>

definition sizeof_mp :: nat where "sizeof_mp = 16"
definition sizeof_mpconf :: nat where "sizeof_mpconf = 44"
definition sizeof_mpproc :: nat where "sizeof_mpproc = 20"
definition sizeof_mpioapic :: nat where "sizeof_mpioapic = 8"

definition mp_physaddr :: "memory \<Rightarrow> uint \<Rightarrow> uint" where "mp_physaddr m p = load32 m (p + 4)"
definition mp_imcrp :: "memory \<Rightarrow> uint \<Rightarrow> uchar" where "mp_imcrp m p = m (p + 12)"
definition conf_length :: "memory \<Rightarrow> uint \<Rightarrow> ushort" where "conf_length m p = load16 m (p + 4)"
definition conf_version :: "memory \<Rightarrow> uint \<Rightarrow> uchar" where "conf_version m p = m (p + 6)"
definition conf_lapicaddr :: "memory \<Rightarrow> uint \<Rightarrow> uint" where "conf_lapicaddr m p = load32 m (p + 36)"

section \<open>Search\<close>

text \<open>\<^verbatim>\<open>sum\<close> adds in an \<^verbatim>\<open>int\<close> and returns its low byte.\<close>

definition mp_sum :: "memory \<Rightarrow> uint \<Rightarrow> nat \<Rightarrow> uchar" where
  "mp_sum m addr len = word_of_int (foldl (\<lambda>sum i. sum + uint (m (addr + of_nat i))) 0 [0..<len])"

fun mpsearch1_loop :: "memory \<Rightarrow> nat \<Rightarrow> uint \<Rightarrow> uint option" where
  "mpsearch1_loop m 0 p = None"
| "mpsearch1_loop m (Suc n) p =
     (if mem_bytes m p 4 = ascii ''_MP_'' \<and> mp_sum m p sizeof_mp = 0 then Some p
      else mpsearch1_loop m n (p + of_nat sizeof_mp))"

definition mpsearch1 :: "memory \<Rightarrow> uint \<Rightarrow> nat \<Rightarrow> uint option" where
  "mpsearch1 m a len = mpsearch1_loop m ((len + (sizeof_mp - 1)) div sizeof_mp) (P2V a)"

definition mpsearch :: "memory \<Rightarrow> uint option" where
  "mpsearch m =
     (let bda = P2V 0x400; p = push_bit 4 (push_bit 8 (ucast (m (bda + 0x0F))) OR ucast (m (bda + 0x0E))) in
      case (if p \<noteq> 0 then mpsearch1 m p 1024
            else let p = (push_bit 8 (ucast (m (bda + 0x14))) OR ucast (m (bda + 0x13))) * 1024 in mpsearch1 m (p - 1024) 1024) of
        Some mp \<Rightarrow> Some mp
      | None \<Rightarrow> mpsearch1 m 0xF0000 0x10000)"

definition mpconfig :: "memory \<Rightarrow> (uint \<times> uint) option" where
  "mpconfig m =
     (case mpsearch m of None \<Rightarrow> None | Some mp \<Rightarrow>
      if mp_physaddr m mp = 0 then None else
      let conf = P2V (mp_physaddr m mp) in
      if mem_bytes m conf 4 \<noteq> ascii ''PCMP'' then None else
      if conf_version m conf \<noteq> 1 \<and> conf_version m conf \<noteq> 4 then None else
      if mp_sum m conf (unat (conf_length m conf)) \<noteq> 0 then None else
      Some (mp, conf))"

section \<open>The processors\<close>

text \<open>The globals: \<^verbatim>\<open>cpus[0..ncpu).apicid\<close>, \<^verbatim>\<open>ioapicid\<close>, \<^verbatim>\<open>lapic\<close> and the
  ports.\<close>

record mpst =
  cpu_apicids :: "uchar list"
  ioapicid :: uchar
  lapic_addr :: uint
  imcr_ports :: "port_op list"

definition add_cpu :: "uchar list \<Rightarrow> uchar \<Rightarrow> uchar list" where
  "add_cpu ids apicid = (if length ids < NCPU then ids @ [apicid] else ids)"

partial_function (option) mpinit_loop :: "memory \<Rightarrow> uint \<Rightarrow> uint \<Rightarrow> bool \<Rightarrow> uchar list \<Rightarrow> uchar \<Rightarrow> (bool \<times> uchar list \<times> uchar) option" where
  "mpinit_loop m e p ismp ids ioid =
     (if p < e then
        if m p = MPPROC then mpinit_loop m e (p + of_nat sizeof_mpproc) ismp (add_cpu ids (m (p + 1))) ioid
        else if m p = MPIOAPIC then mpinit_loop m e (p + of_nat sizeof_mpioapic) ismp ids (m (p + 1))
        else if m p = MPBUS \<or> m p = MPIOINTR \<or> m p = MPLINTR then mpinit_loop m e (p + 8) ismp ids ioid
        else mpinit_loop m e p False ids ioid
      else Some (ismp, ids, ioid))"

text \<open>\<open>None\<close>: \<^verbatim>\<open>mpinit\<close> does not return. The parameter \<open>imcr\<close> is what \<^verbatim>\<open>inb(0x23)\<close>
  gives.\<close>

definition mpinit :: "uchar \<Rightarrow> memory \<Rightarrow> mpst \<Rightarrow> (unit, mpst) outcome option" where
  "mpinit imcr m s =
     (case mpconfig m of
        None \<Rightarrow> Some (Panic ''Expect to run on an SMP'')
      | Some (mp, conf) \<Rightarrow>
          (let e = conf + ucast (conf_length m conf) in
           case mpinit_loop m e (conf + of_nat sizeof_mpconf) True (cpu_apicids s) (ioapicid s) of
             None \<Rightarrow> None
           | Some (ismp, ids, ioid) \<Rightarrow>
               (let s = s\<lparr>lapic_addr := conf_lapicaddr m conf, cpu_apicids := ids, ioapicid := ioid\<rparr> in
                Some (if \<not> ismp then Panic ''Didn't find a suitable machine''
                  else if mp_imcrp m mp \<noteq> 0 then Ok () (s\<lparr>imcr_ports := imcr_ports s @ [Outb 0x22 0x70, Outb 0x23 (imcr OR 1)]\<rparr>)
                  else Ok () s))))"

section \<open>The search\<close>

text \<open>The search gives the first structure in the area with the signature and a checksum of zero.\<close>

definition mp_valid :: "memory \<Rightarrow> uint \<Rightarrow> bool" where
  "mp_valid m p \<longleftrightarrow> mem_bytes m p 4 = ascii ''_MP_'' \<and> mp_sum m p sizeof_mp = 0"

lemma mpsearch1_loop_first:
  "mpsearch1_loop m n p = find (mp_valid m) (map (\<lambda>k. p + 16 * of_nat k) [0..<n])"
proof (induction n arbitrary: p)
  case (Suc n)
  have "map (\<lambda>k. p + 16 * of_nat k) [0..<Suc n] = p # map (\<lambda>k. p + 16 + 16 * of_nat k) [0..<n]"
    by (simp add: upt_conv_Cons algebra_simps del: upt_Suc flip: map_Suc_upt)
  then show ?case using Suc.IH [of "p + 16"] by (simp add: mp_valid_def sizeof_mp_def)
qed simp

section \<open>The table of entries\<close>

text \<open>The entries that the specification knows, and their bytes in the table.\<close>

datatype mpentry = Proc_entry uchar "uchar list" | Ioapic_entry uchar "uchar list" | Other_entry uchar "uchar list"

fun entry_ok :: "mpentry \<Rightarrow> bool" where
  "entry_ok (Proc_entry apicid r) \<longleftrightarrow> length r = 18"
| "entry_ok (Ioapic_entry apicno r) \<longleftrightarrow> length r = 6"
| "entry_ok (Other_entry t r) \<longleftrightarrow> t \<in> {MPBUS, MPIOINTR, MPLINTR} \<and> length r = 7"

fun entry_bytes :: "mpentry \<Rightarrow> uchar list" where
  "entry_bytes (Proc_entry apicid r) = MPPROC # apicid # r"
| "entry_bytes (Ioapic_entry apicno r) = MPIOAPIC # apicno # r"
| "entry_bytes (Other_entry t r) = t # r"

definition table_bytes :: "mpentry list \<Rightarrow> uchar list" where
  "table_bytes es = concat (map entry_bytes es)"

text \<open>What \<^verbatim>\<open>mpinit\<close> is meant to find in the table: the first processors, and the last I/O APIC.\<close>

fun add_entry :: "uchar list \<times> uchar \<Rightarrow> mpentry \<Rightarrow> uchar list \<times> uchar" where
  "add_entry (ids, ioid) (Proc_entry apicid r) = (add_cpu ids apicid, ioid)"
| "add_entry (ids, ioid) (Ioapic_entry apicno r) = (ids, apicno)"
| "add_entry (ids, ioid) (Other_entry t r) = (ids, ioid)"

definition procs :: "mpentry list \<Rightarrow> uchar list" where
  "procs es = concat (map (\<lambda>x. case x of Proc_entry apicid r \<Rightarrow> [apicid] | _ \<Rightarrow> []) es)"

lemma add_entries_procs: "length ids \<le> NCPU \<Longrightarrow> fst (foldl add_entry (ids, ioid) es) = take NCPU (ids @ procs es)"
proof (induction es arbitrary: ids ioid)
  case (Cons x es)
  show ?case
  proof (cases x)
    case (Proc_entry a r)
    then show ?thesis using Cons.IH [of "add_cpu ids a"] Cons.prems
      by (auto simp: add_cpu_def procs_def take_Cons')
  qed (use Cons in \<open>auto simp: procs_def\<close>)
qed (simp add: procs_def)

lemma nth_mem_bytes: "i < n \<Longrightarrow> mem_bytes m a n ! i = m (a + of_nat i)"
  by (simp add: mem_bytes_def)

lemma length_mem_bytes [simp]: "length (mem_bytes m a n) = n"
  by (simp add: mem_bytes_def)

lemma mem_bytes_append: "mem_bytes m a (n + k) = mem_bytes m a n @ mem_bytes m (a + of_nat n) k"
  by (rule nth_equalityI) (auto simp: nth_append nth_mem_bytes of_nat_diff)

lemma mpinit_loop_table:
  assumes "mem_bytes m p (length (table_bytes es)) = table_bytes es" and "list_all entry_ok es"
    and "unat p + length (table_bytes es) < 2 ^ 32" and "unat p + length (table_bytes es) \<le> unat e"
  shows "mpinit_loop m e p ismp ids ioid =
    (let (ids', ioid') = foldl add_entry (ids, ioid) es in mpinit_loop m e (p + of_nat (length (table_bytes es))) ismp ids' ioid')"
  using assms
proof (induction es arbitrary: p ids ioid)
  case Nil
  then show ?case by (simp add: table_bytes_def)
next
  case (Cons x es)
  let ?n = "length (entry_bytes x)" and ?t = "length (table_bytes es)"
  have tb: "table_bytes (x # es) = entry_bytes x @ table_bytes es" by (simp add: table_bytes_def)
  have b: "mem_bytes m p ?n = entry_bytes x" "mem_bytes m (p + of_nat ?n) ?t = table_bytes es"
    using Cons.prems(1) unfolding tb length_append mem_bytes_append by simp_all
  have u: "unat (p + of_nat ?n) = unat p + ?n" using Cons.prems(3) unfolding tb by (simp add: unat_word_ariths unat_of_nat)
  have n2: "2 \<le> ?n" using Cons.prems(2) by (cases x) auto
  have "unat p < unat e" using Cons.prems(4) n2 unfolding tb length_append by linarith
  then have lt: "p < e" by (simp add: word_less_nat_alt)
  have pos: "0 < ?n" "1 < ?n" using n2 by linarith+
  have mp: "m p = entry_bytes x ! 0" "m (p + 1) = entry_bytes x ! 1"
    using nth_mem_bytes [OF pos(1), of m p] nth_mem_bytes [OF pos(2), of m p] by (simp_all add: b(1))
  have "mpinit_loop m e p ismp ids ioid =
      (let (ids', ioid') = add_entry (ids, ioid) x in mpinit_loop m e (p + of_nat ?n) ismp ids' ioid')"
    using lt mp Cons.prems(2)
    by (subst mpinit_loop.simps, cases x) (auto simp: mp_types sizeof_mpproc_def sizeof_mpioapic_def)
  then show ?case using Cons.IH [OF b(2)] Cons.prems(2-4) unfolding tb
    by (cases "add_entry (ids, ioid) x") (simp add: u add.assoc)
qed

text \<open>On an entry of any other type the loop does not advance.\<close>

definition unknown_type :: "uchar \<Rightarrow> bool" where
  "unknown_type t \<longleftrightarrow> t \<notin> {MPPROC, MPIOAPIC, MPBUS, MPIOINTR, MPLINTR}"

lemma mpinit_loop_stuck:
  assumes "p < e" and "unknown_type (m p)"
  shows "mpinit_loop m e p ismp ids ioid = None"
proof (rule ccontr)
  assume "mpinit_loop m e p ismp ids ioid \<noteq> None"
  then obtain r where "mpinit_loop m e p ismp ids ioid = Some r" by blast
  then have "\<not> (p < e \<and> unknown_type (m p))"
    by (rule mpinit_loop.raw_induct [where P = "\<lambda>m e p ismp ids ioid r. \<not> (p < e \<and> unknown_type (m p))", rotated])
      (fastforce simp: unknown_type_def split: if_splits)
  then show False using assms by simp
qed

definition ioapics :: "mpentry list \<Rightarrow> uchar list" where
  "ioapics es = concat (map (\<lambda>x. case x of Ioapic_entry apicno r \<Rightarrow> [apicno] | _ \<Rightarrow> []) es)"

lemma add_entries_ioapics: "snd (foldl add_entry (ids, ioid) es) = last (ioid # ioapics es)"
proof (induction es arbitrary: ids ioid)
  case (Cons x es)
  then show ?case by (cases x) (auto simp: ioapics_def)
qed (simp add: ioapics_def)

lemma unat_ucast16: "unat (ucast (x :: ushort) :: uint) = unat x"
proof -
  have "unat x < 2 ^ LENGTH(16)" by (rule unsigned_less)
  then show ?thesis by (simp add: unsigned_ucast_eq take_bit_nat_eq_self)
qed

text \<open>
  (C38) \<^verbatim>\<open>mpinit\<close> reads the configuration table. Take any table that \<^verbatim>\<open>mpconfig\<close> accepts, as entries
  of known types up to its end or up to an entry of unknown type. In the first case \<^verbatim>\<open>mpinit\<close> returns with the
  local APIC ids of the first \<^verbatim>\<open>NCPU\<close> processors of the table, in its order, with the id of its last I/O APIC, and
  with the address of the local APIC. In the second case it does not return: the entry of unknown type should lead to the panic
  \<^verbatim>\<open>Didn't find a suitable machine\<close>, but the loop stays at that entry for ever.
\<close>

theorem mpinit_correct:
  assumes "mpconfig m = Some (mp, conf)" and "unat conf + unat (conf_length m conf) < 2 ^ 32" and "cpu_apicids s = []"
    and "sizeof_mpconf \<le> unat (conf_length m conf)"
    and "mem_bytes m (conf + of_nat sizeof_mpconf) (unat (conf_length m conf) - sizeof_mpconf) = table_bytes es @ rest"
    and "list_all entry_ok es" and "rest = [] \<or> unknown_type (hd rest)"
  shows "if rest = [] then
      \<exists>s'. mpinit imcr m s = Some (Ok () s') \<and> cpu_apicids s' = take NCPU (procs es) \<and>
        ioapicid s' = last (ioapicid s # ioapics es) \<and> lapic_addr s' = conf_lapicaddr m conf
    else mpinit imcr m s = None"
proof -
  define p e n where d: "p = conf + of_nat sizeof_mpconf" "e = conf + ucast (conf_length m conf)" "n = length (table_bytes es)"
  have up: "unat p = unat conf + sizeof_mpconf"
    using assms(2,4) by (simp add: d sizeof_mpconf_def unat_word_ariths)
  have ue: "unat e = unat conf + unat (conf_length m conf)" using assms(2) by (simp add: d unat_word_ariths unat_ucast16)
  have "length (mem_bytes m p (unat (conf_length m conf) - sizeof_mpconf)) = n + length rest"
    using assms(5) by (simp add: d)
  then have l: "unat (conf_length m conf) - sizeof_mpconf = n + length rest" by simp
  then have er: "unat e = unat p + n + length rest" using up ue assms(4) by simp
  have b: "mem_bytes m p n = table_bytes es" "mem_bytes m (p + of_nat n) (length rest) = rest"
    using assms(5) unfolding l d(1) [symmetric] mem_bytes_append by (simp_all add: d)
  have e32: "unat p + n + length rest < 2 ^ 32" using er ue assms(2) by simp
  have loop: "mpinit_loop m e p True [] io = (let (ids', io') = foldl add_entry ([], io) es in mpinit_loop m e (p + of_nat n) True ids' io')" for io
    using mpinit_loop_table [of m p es e True "[]" io] b(1) assms(6) er e32 by (simp add: d)
  have u: "unat (p + of_nat n) = unat p + n" using e32 by (simp add: unat_word_ariths unat_of_nat)
  show ?thesis
  proof (cases "rest = []")
    case True
    then have "\<not> p + of_nat n < e" using u er by (simp add: word_less_nat_alt)
    then have "mpinit_loop m e (p + of_nat n) True ids io = Some (True, ids, io)" for ids io by (subst mpinit_loop.simps) simp
    then show ?thesis
      using True assms(1,3) loop add_entries_procs [of "[]" _ es] add_entries_ioapics [of "[]" _ es]
      by (auto simp: mpinit_def Let_def simp flip: d(1,2) split: prod.splits) (metis fst_conv snd_conv)+
  next
    case False
    then have "p + of_nat n < e" using u er by (simp add: word_less_nat_alt)
    moreover have "unknown_type (m (p + of_nat n))"
      using assms(7) False b(2) nth_mem_bytes [of 0 "length rest" m "p + of_nat n"] by (simp add: hd_conv_nth)
    ultimately show ?thesis using False assms(1,3) loop
      by (auto simp: mpinit_def Let_def mpinit_loop_stuck simp flip: d(1,2) split: prod.splits)
  qed
qed


text \<open>A machine with two processors: the floating pointer structure and the table in the extended BIOS data area.\<close>

definition mp_image :: "uchar list" where
  "mp_image = ascii ''_MP_'' @ [0x10, 0xF0, 0x09, 0x00, 1, 4, 0x97, 0, 0, 0, 0, 0] @
     ascii ''PCMP'' @ [92, 0, 4, 0x8A] @ replicate 28 0 @ [0x00, 0x00, 0xE0, 0xFE, 0, 0, 0, 0] @
     table_bytes [Proc_entry 0 (replicate 18 0), Proc_entry 1 (replicate 18 0), Ioapic_entry 5 (replicate 6 0)]"

definition mp_memory :: memory where
  "mp_memory a = (if unat (a - 0x8009F000) < 108 then mp_image ! unat (a - 0x8009F000) else if a = 0x8000040F then 0x9F else 0)"

lemma mp_sum_bytes: "mp_sum m a n = word_of_int (sum_list (map uint (mem_bytes m a n)))"
proof -
  have "foldl (\<lambda>s i. s + f i) z xs = z + sum_list (map f xs)" for f :: "nat \<Rightarrow> int" and z xs
    by (induction xs arbitrary: z) (simp_all add: add.assoc)
  then show ?thesis by (simp add: mp_sum_def mem_bytes_def comp_def)
qed

lemma mp_image_length: "length mp_image = 108"
  by (simp add: mp_image_def ascii_def table_bytes_def)

lemma mp_memory_bytes:
  assumes "k + n \<le> 108" and "a = 0x8009F000 + of_nat k"
  shows "mem_bytes mp_memory a n = take n (drop k mp_image)"
proof (rule nth_equalityI)
  show "length (mem_bytes mp_memory a n) = length (take n (drop k mp_image))" using assms(1) by (simp add: mp_image_length)
  fix i assume "i < length (mem_bytes mp_memory a n)"
  then have i: "k + i < 108" "i < n" using assms(1) by auto
  have "a + of_nat i - 0x8009F000 = of_nat (k + i)" using assms(2) by simp
  then have "unat (a + of_nat i - 0x8009F000) = k + i" using i(1) by (simp only: unat_of_nat_small)
  then have "mp_memory (a + of_nat i) = mp_image ! (k + i)" using i(1) by (simp only: mp_memory_def if_True)
  then show "mem_bytes mp_memory a n ! i = take n (drop k mp_image) ! i" using i by (simp add: nth_mem_bytes mp_image_length)
qed

lemma mp_memory_at: "mp_memory (0x8009F000 + of_nat k) = mp_image ! k" if "k < 108"
  using mp_memory_bytes [of k 1 "0x8009F000 + of_nat k"] that by (simp add: mem_bytes_def take_Suc hd_drop_conv_nth mp_image_length)


lemma mp_memory_sums: "mp_sum mp_memory 0x8009F000 16 = 0" "mp_sum mp_memory 0x8009F010 92 = 0"
  using mp_memory_bytes [of 0 16 "0x8009F000"] mp_memory_bytes [of 16 92 "0x8009F010"]
  by (simp_all add: mp_sum_bytes mp_image_def ascii_def table_bytes_def mp_types sum_list_replicate)

lemma mp_memory_search: "mpsearch mp_memory = Some 0x8009F000"
proof -
  have "mp_valid mp_memory 0x8009F000"
    using mp_memory_sums(1) mp_memory_bytes [of 0 4 "0x8009F000"] by (simp add: mp_valid_def sizeof_mp_def mp_image_def ascii_def)
  then have "mpsearch1 mp_memory 0x9F000 1024 = Some 0x8009F000"
    by (simp add: mpsearch1_def mpsearch1_loop_first P2V_def KERNBASE_def sizeof_mp_def upt_conv_Cons)
  moreover have "push_bit 4 (push_bit 8 (ucast (mp_memory 0x8000040F)) OR ucast (mp_memory 0x8000040E)) = (0x9F000 :: uint)"
    by (simp add: mp_memory_def)
  ultimately show ?thesis by (simp add: mpsearch_def Let_def P2V_def KERNBASE_def)
qed

lemma mp_memory_config: "mpconfig mp_memory = Some (0x8009F000, 0x8009F010)" "conf_length mp_memory 0x8009F010 = 92"
proof -
  have at: "mp_memory (0x8009F000 + of_nat k) = mp_image ! k" if "k < 108" for k by (rule mp_memory_at [OF that])
  show l: "conf_length mp_memory 0x8009F010 = 92"
    using at [of 20] at [of 21] by (simp add: conf_length_def load16_def mp_image_def ascii_def)
  have "mp_physaddr mp_memory 0x8009F000 = 0x9F010"
    using at [of 4] at [of 5] at [of 6] at [of 7] by (simp add: mp_physaddr_def load32_def mp_image_def ascii_def)
  moreover have "conf_version mp_memory 0x8009F010 = 4" using at [of 22] by (simp add: conf_version_def mp_image_def ascii_def)
  moreover have "mem_bytes mp_memory 0x8009F010 4 = ascii ''PCMP''"
    using mp_memory_bytes [of 16 4 "0x8009F010"] by (simp add: mp_image_def ascii_def)
  ultimately show "mpconfig mp_memory = Some (0x8009F000, 0x8009F010)"
    using mp_memory_search mp_memory_sums(2) l by (simp add: mpconfig_def Let_def P2V_def KERNBASE_def)
qed

theorem mpinit_correct_witness:
  "\<exists>s'. mpinit 0 mp_memory \<lparr>cpu_apicids = [], ioapicid = 0, lapic_addr = 0, imcr_ports = []\<rparr> = Some (Ok () s') \<and>
     cpu_apicids s' = [0, 1] \<and> ioapicid s' = 5"
proof -
  let ?es = "[Proc_entry 0 (replicate 18 0), Proc_entry 1 (replicate 18 0), Ioapic_entry 5 (replicate 6 0)]"
  have "mem_bytes mp_memory (0x8009F010 + of_nat sizeof_mpconf) (unat (92 :: ushort) - sizeof_mpconf) = table_bytes ?es @ []"
    using mp_memory_bytes [of 60 48 "0x8009F03C"] by (simp add: sizeof_mpconf_def mp_image_def ascii_def table_bytes_def)
  then show ?thesis
    using mpinit_correct [OF mp_memory_config(1), of "\<lparr>cpu_apicids = [], ioapicid = 0, lapic_addr = 0, imcr_ports = []\<rparr>" ?es "[]" 0]
    by (auto simp: mp_memory_config(2) sizeof_mpconf_def procs_def ioapics_def NCPU_def)
qed

end
