(* ===== verification/Syscall.thy ===== *)
theory Syscall
  imports Exec
begin

text \<open>
  System calls and traps: \<^verbatim>\<open>kernel/sysproc.c\<close>, the dispatch of \<^verbatim>\<open>kernel/syscall.c\<close> and
  \<^verbatim>\<open>kernel/trap.c\<close>. Here the components of the kernel meet: a trap from user space runs the handler that the
  system call number selects, on the console's devices. The lemmas show how results and errors reach the process, and
  that a killed process does not return to user space.

  The disk is the memory disk, whose interrupt handler does nothing. The end-of-interrupt message to the interrupt
  controller has no effect on the state. The number of the processor and the faulting address are parameters.
\<close>

section \<open>Processes\<close>

text \<open>Addresses that the linker chooses.\<close>

record linkage =
  l_data :: uint
  l_trapret :: uint
  l_forkret :: uint

definition sys_fork :: "linkage \<Rightarrow> ('a consst_scheme, int) kfun" where
  "sys_fork lk = fork (l_data lk) (l_trapret lk) (l_forkret lk)"

definition sys_exit :: "('a consst_scheme, int) kfun" where
  "sys_exit = thenK exit (retK 0)"

definition sys_wait :: "('a consst_scheme, int) kfun" where
  "sys_wait = wait"

definition sys_kill :: "('a consst_scheme, int) kfun" where
  "sys_kill =
     bindK (argint 0) (\<lambda>r. case r of None \<Rightarrow> retK (-1) | Some pid \<Rightarrow>
     kill (sint pid))"

definition sys_getpid :: "('a consst_scheme, int) kfun" where
  "sys_getpid = bindK curproc (\<lambda>p. retK (p_pid p))"

definition sys_sbrk :: "('a consst_scheme, int) kfun" where
  "sys_sbrk =
     bindK (argint 0) (\<lambda>r. case r of None \<Rightarrow> retK (-1) | Some n \<Rightarrow>
     bindK curproc (\<lambda>p.
     let addr = p_sz p in
     bindK (growproc (sint n)) (\<lambda>r.
     if r < 0 then retK (-1) else
     retK (sint addr))))"

text \<open>
  The loop of \<^verbatim>\<open>sys_sleep\<close>: the comparison is one of unsigned numbers. A process that is woken goes on with
  \<open>sys_sleep_resume\<close>.
\<close>

definition sleep_ticks :: "uint \<Rightarrow> uint \<Rightarrow> ('a consst_scheme, int) kfun" where
  "sleep_ticks ticks0 n =
     bindK (getK (\<lambda>s. ticks s - ticks0 < n)) (\<lambda>early.
     if early then
       bindK my_killed (\<lambda>killed.
       if killed then
         thenK (release L_ticks) (
         retK (-1))
       else sleep Ch_ticks L_ticks)
     else
       thenK (release L_ticks) (
       retK 0))"

definition sys_sleep :: "('a consst_scheme, int) kfun" where
  "sys_sleep =
     bindK (argint 0) (\<lambda>r. case r of None \<Rightarrow> retK (-1) | Some n \<Rightarrow>
     thenK (acquire L_ticks) (
     bindK (getK ticks) (\<lambda>ticks0.
     sleep_ticks ticks0 n)))"

definition sys_sleep_resume :: "uint \<Rightarrow> uint \<Rightarrow> ('a consst_scheme, int) kfun" where
  "sys_sleep_resume ticks0 n =
     thenK (sleep_resume L_ticks) (
     sleep_ticks ticks0 n)"

definition sys_uptime :: "('a consst_scheme, int) kfun" where
  "sys_uptime =
     thenK (acquire L_ticks) (
     bindK (getK ticks) (\<lambda>xticks.
     thenK (release L_ticks) (
     retK (sint xticks))))"

text \<open>\<^verbatim>\<open>sys_setecho\<close> tests the result of \<^verbatim>\<open>argint\<close>, not the value of the argument.\<close>

definition sys_setecho :: "('a consst_scheme, int) kfun" where
  "sys_setecho =
     bindK (argint 0) (\<lambda>r. case r of None \<Rightarrow> retK (-1) | Some do_echo \<Rightarrow>
     thenK (modK (\<lambda>s. s\<lparr>cons_echo := sint do_echo\<rparr>)) (
     retK 0))"

definition sys_setkey :: "('a consst_scheme, int) kfun" where
  "sys_setkey =
     bindK (argint 0) (\<lambda>r. case r of None \<Rightarrow> retK (-1) | Some new_key \<Rightarrow>
     thenK (modK (\<lambda>s. s\<lparr>encr_key := sint new_key\<rparr>)) (
     retK 0))"

section \<open>Dispatch\<close>

text \<open>A loop over a file that does not end does not return.\<close>

definition ended :: "('a consst_scheme, int option) kfun \<Rightarrow> ('a consst_scheme, int) kfun" where
  "ended f = bindK f (\<lambda>r. case r of None \<Rightarrow> undefK | Some n \<Rightarrow> retK n)"

definition syscalls :: "linkage \<Rightarrow> ('a consst_scheme, int) kfun list" where
  "syscalls lk =
     [sys_fork lk, sys_exit, sys_wait, sys_pipe, sys_read console_devsw,
      sys_kill, sys_exec (l_data lk), sys_fstat, sys_chdir console_devsw, sys_dup,
      sys_getpid, sys_sbrk, sys_sleep, sys_uptime, sys_open console_devsw,
      sys_write console_devsw, sys_mknod console_devsw, sys_unlink console_devsw, sys_link console_devsw, sys_mkdir console_devsw,
      sys_close, sys_setecho, sys_setkey, ended (sys_decr console_devsw), ended (sys_encr console_devsw)]"

text \<open>The handlers have the numbers 1 to 25; there is none for 0.\<close>

definition handler :: "linkage \<Rightarrow> int \<Rightarrow> ('a consst_scheme, int) kfun option" where
  "handler lk num = (if 0 < num \<and> num < 26 then Some (syscalls lk ! nat (num - 1)) else None)"

definition set_eax :: "int \<Rightarrow> ('a consst_scheme, unit) kfun" where
  "set_eax r = bindK myproc (\<lambda>i. upd_proc i (\<lambda>p. p\<lparr>p_tf := (p_tf p)\<lparr>tf_eax := word_of_int r\<rparr>\<rparr>))"

definition syscall :: "linkage \<Rightarrow> ('a consst_scheme, unit) kfun" where
  "syscall lk =
     bindK curproc (\<lambda>p.
     let num = sint (tf_eax (p_tf p)) in
     case handler lk num of
       Some f \<Rightarrow> bindK f set_eax
     | None \<Rightarrow>
         thenK (cprintf (''%d %s: unknown sys call %d'' @ [CHR 0x0A])
           [Arg_word (word_of_int (p_pid p)), Arg_str (Some (p_name p)), Arg_word (word_of_int num)]) (
         set_eax (-1)))"

section \<open>Traps\<close>

definition T_SYSCALL :: uint where "T_SYSCALL = 64"
definition T_IRQ0 :: uint where "T_IRQ0 = 32"
definition IRQ_TIMER :: uint where "IRQ_TIMER = 0"
definition IRQ_KBD :: uint where "IRQ_KBD = 1"
definition IRQ_COM1 :: uint where "IRQ_COM1 = 4"
definition IRQ_IDE :: uint where "IRQ_IDE = 14"
definition IRQ_SPURIOUS :: uint where "IRQ_SPURIOUS = 31"

definition exit_if_killed :: "('a consst_scheme, unit) kfun" where
  "exit_if_killed =
     bindK my_killed (\<lambda>killed.
     whenK killed exit)"

definition trap_syscall :: "linkage \<Rightarrow> trapframe \<Rightarrow> ('a consst_scheme, unit) kfun" where
  "trap_syscall lk tf =
     thenK exit_if_killed (
     bindK myproc (\<lambda>i.
     thenK (upd_proc i (\<lambda>p. p\<lparr>p_tf := tf\<rparr>)) (
     thenK (syscall lk) (
     exit_if_killed))))"

definition timer_tick :: "('a consst_scheme, unit) kfun" where
  "timer_tick =
     thenK (acquire L_ticks) (
     thenK (modK (\<lambda>s. s\<lparr>ticks := ticks s + 1\<rparr>)) (
     thenK (wakeup Ch_ticks) (
     release L_ticks)))"

definition from_user :: "trapframe \<Rightarrow> bool" where
  "from_user tf \<longleftrightarrow> tf_cs tf AND 3 = DPL_USER"

text \<open>A trap that is neither a system call nor an interrupt: a mistake of the kernel, or of the process, which is killed.\<close>

definition trap_fault :: "nat \<Rightarrow> uint \<Rightarrow> trapframe \<Rightarrow> ('a consst_scheme, unit) kfun" where
  "trap_fault cpu cr2 tf =
     bindK (getK cur) (\<lambda>c.
     if c = None \<or> tf_cs tf AND 3 = 0 then
       thenK (cprintf (''unexpected trap %d from cpu %d eip %x (cr2=0x%x)'' @ [CHR 0x0A])
         [Arg_word (tf_trapno tf), Arg_word (of_nat cpu), Arg_word (tf_eip tf), Arg_word cr2]) (
       panic ''trap'')
     else
       bindK curproc (\<lambda>p.
       thenK (cprintf (''pid %d %s: trap %d err %d on cpu %d eip 0x%x addr 0x%x--kill proc'' @ [CHR 0x0A])
         [Arg_word (word_of_int (p_pid p)), Arg_str (Some (p_name p)), Arg_word (tf_trapno tf), Arg_word (tf_err tf), Arg_word (of_nat cpu),
          Arg_word (tf_eip tf), Arg_word cr2]) (
       bindK myproc (\<lambda>i.
       upd_proc i (\<lambda>p. p\<lparr>p_killed := True\<rparr>)))))"

definition trap_device :: "(nat \<Rightarrow> uint list) \<Rightarrow> nat \<Rightarrow> uint \<Rightarrow> trapframe \<Rightarrow> ('a consst_scheme, unit) kfun" where
  "trap_device callerpcs cpu cr2 tf =
     (let n = tf_trapno tf in
      if n = T_IRQ0 + IRQ_TIMER then whenK (cpu = 0) timer_tick
      else if n = T_IRQ0 + IRQ_IDE then retK ()
      else if n = T_IRQ0 + IRQ_IDE + 1 then retK ()
      else if n = T_IRQ0 + IRQ_KBD then thenK (kbdintr callerpcs) (retK ())
      else if n = T_IRQ0 + IRQ_COM1 then thenK (uartintr callerpcs) (retK ())
      else if n = T_IRQ0 + 7 \<or> n = T_IRQ0 + IRQ_SPURIOUS then
        cprintf (''cpu%d: spurious interrupt at %x:%x'' @ [CHR 0x0A]) [Arg_word (of_nat cpu), Arg_word (ucast (tf_cs tf)), Arg_word (tf_eip tf)]
      else trap_fault cpu cr2 tf)"

text \<open>\<^verbatim>\<open>if(myproc() && myproc()->killed && (tf->cs&3) == DPL_USER) exit();\<close>\<close>

definition exit_killed_user :: "trapframe \<Rightarrow> ('a consst_scheme, unit) kfun" where
  "exit_killed_user tf =
     bindK (getK cur) (\<lambda>c.
     whenK (c \<noteq> None) (
       bindK my_killed (\<lambda>killed.
       whenK (killed \<and> from_user tf) exit)))"

definition yield_on_tick :: "trapframe \<Rightarrow> ('a consst_scheme, unit) kfun" where
  "yield_on_tick tf =
     bindK (getK cur) (\<lambda>c.
     whenK (c \<noteq> None) (
       bindK curproc (\<lambda>p.
       whenK (p_state p = RUNNING \<and> tf_trapno tf = T_IRQ0 + IRQ_TIMER) yield)))"

text \<open>The end of \<^verbatim>\<open>trap\<close>, after the process has got the processor back.\<close>

definition trap_tail :: "trapframe \<Rightarrow> ('a consst_scheme, unit) kfun" where
  "trap_tail tf = exit_killed_user tf"

definition trap :: "linkage \<Rightarrow> (nat \<Rightarrow> uint list) \<Rightarrow> nat \<Rightarrow> uint \<Rightarrow> trapframe \<Rightarrow> ('a consst_scheme, unit) kfun" where
  "trap lk callerpcs cpu cr2 tf =
     (if tf_trapno tf = T_SYSCALL then trap_syscall lk tf
      else
        thenK (trap_device callerpcs cpu cr2 tf) (
        thenK (exit_killed_user tf) (
        thenK (yield_on_tick tf) (
        trap_tail tf))))"

text \<open>The rest of \<^verbatim>\<open>trap\<close>, from the point where \<^verbatim>\<open>sched\<close> returns in \<^verbatim>\<open>yield\<close>.\<close>

definition trap_resume :: "trapframe \<Rightarrow> ('a consst_scheme, unit) kfun" where
  "trap_resume tf =
     thenK (release L_ptable) (
     trap_tail tf)"

text \<open>
  The rest of a system call that has slept: \<open>rest\<close> is what is left of its handler, from the point where
  \<^verbatim>\<open>sched\<close> returns in \<^verbatim>\<open>sleep\<close>.
\<close>

definition trap_syscall_resume :: "('a consst_scheme, int) kfun \<Rightarrow> ('a consst_scheme, unit) kfun" where
  "trap_syscall_resume rest =
     thenK (bindK rest set_eax) (
     exit_if_killed)"

text \<open>
  A trap from its beginning in \<open>s\<close> to its return in \<open>s'\<close>. A process that gives up the processor on a clock tick, or that sleeps
  in a system call, goes on when it is the current process again, in any state \<open>s2\<close> that the other processes have left; if it
  sleeps more than once, \<open>s2\<close> is the state after the last time. A process that has exited does not go on.
\<close>

inductive trap_ends :: "linkage \<Rightarrow> (nat \<Rightarrow> uint list) \<Rightarrow> nat \<Rightarrow> uint \<Rightarrow> trapframe \<Rightarrow> 'a consst_scheme \<Rightarrow> 'a consst_scheme \<Rightarrow> bool"
  for lk callerpcs cpu cr2 tf s where
  Returns: "trap lk callerpcs cpu cr2 tf s = Ok () s' \<Longrightarrow> trap_ends lk callerpcs cpu cr2 tf s s'"
| Yields: "trap lk callerpcs cpu cr2 tf s = Switch s1 \<Longrightarrow> tf_trapno tf \<noteq> T_SYSCALL \<Longrightarrow> cur s = Some p \<Longrightarrow> p_state (ptable s1 ! p) = RUNNABLE \<Longrightarrow>
     cur s2 = Some p \<Longrightarrow> trap_resume tf s2 = Ok () s' \<Longrightarrow> trap_ends lk callerpcs cpu cr2 tf s s'"
| Sleeps: "trap lk callerpcs cpu cr2 tf s = Switch s1 \<Longrightarrow> tf_trapno tf = T_SYSCALL \<Longrightarrow> cur s = Some p \<Longrightarrow> p_state (ptable s1 ! p) = SLEEPING \<Longrightarrow>
     cur s2 = Some p \<Longrightarrow> trap_syscall_resume rest s2 = Ok () s' \<Longrightarrow> trap_ends lk callerpcs cpu cr2 tf s s'"

section \<open>A killed process does not return to user space\<close>

lemma exit_Ok [kok]: "exit s \<noteq> Ok r s'"
  by (auto simp: exit_def exit_zombie_def kok split: option.splits prod.splits if_splits)

lemma my_killed_Ok [kok]: "my_killed s = Ok k s' \<longleftrightarrow> s' = s \<and> running s \<and> k = p_killed (ptable s ! the (cur s))"
  by (auto simp: my_killed_def kok running_def)

lemma exit_killed_user_Ok: "exit_killed_user tf t = Ok () s' \<Longrightarrow> from_user tf \<Longrightarrow> cur s' \<noteq> None \<Longrightarrow> \<not> p_killed (ptable s' ! the (cur s'))"
  by (auto simp: exit_killed_user_def kok split: if_splits)

lemma exit_if_killed_alive: "exit_if_killed t = Ok () s' \<Longrightarrow> \<not> p_killed (ptable s' ! the (cur s'))"
  by (auto simp: exit_if_killed_def kok split: if_splits)

text \<open>
  (C40) When a trap from user space returns there, the process that runs has not been killed. This includes a process that was
  killed before the trap or by its own fault, and one that was killed by another process while it had given up the
  processor on a clock tick, or while it slept in a system call: it exits instead.
\<close>

theorem trap_returns_unkilled:
  assumes "trap_ends lk callerpcs cpu cr2 tf s s'" and "from_user tf" and "cur s' \<noteq> None"
  shows "\<not> p_killed (ptable s' ! the (cur s'))"
  using assms(1)
proof cases
  case Returns
  then show ?thesis using exit_killed_user_Ok [OF _ assms(2,3)] exit_if_killed_alive
    by (auto simp: trap_def trap_tail_def trap_syscall_def thenK_Ok bindK_Ok split: if_splits)
next
  case Yields
  then show ?thesis using exit_killed_user_Ok [OF _ assms(2,3)] by (auto simp: trap_resume_def trap_tail_def thenK_Ok)
next
  case Sleeps
  then show ?thesis using exit_if_killed_alive by (auto simp: trap_syscall_resume_def thenK_Ok)
qed

section \<open>Results of system calls\<close>

text \<open>A system call that returns runs its handler with the frame of the trap, and puts the result of the handler into it.\<close>

lemma exit_if_killed_Ok: "exit_if_killed s = Ok () s' \<Longrightarrow> s' = s"
  by (auto simp: exit_if_killed_def kok split: if_splits)

lemma trap_syscall_result:
  assumes "trap lk callerpcs cpu cr2 tf k = Ok () k'" and "tf_trapno tf = T_SYSCALL" and "handler lk (sint (tf_eax tf)) = Some f"
  shows "\<exists>p r k2. cur k = Some p \<and> p < length (ptable k) \<and> f (k\<lparr>ptable := (ptable k)[p := (ptable k ! p)\<lparr>p_tf := tf\<rparr>]\<rparr>) = Ok r k2 \<and>
    cur k' = cur k2 \<and> p_tf (ptable k' ! the (cur k')) = (p_tf (ptable k2 ! the (cur k2)))\<lparr>tf_eax := word_of_int r\<rparr>"
proof -
  obtain p where p: "cur k = Some p" "p < length (ptable k)"
    and t: "syscall lk (k\<lparr>ptable := (ptable k)[p := (ptable k ! p)\<lparr>p_tf := tf\<rparr>]\<rparr>) = Ok () k'"
    using assms(1,2) by (auto simp: trap_def trap_syscall_def thenK_Ok bindK_Ok myproc_Ok upd_proc_Ok running_def dest!: exit_if_killed_Ok)
  let ?k = "k\<lparr>ptable := (ptable k)[p := (ptable k ! p)\<lparr>p_tf := tf\<rparr>]\<rparr>"
  have "curproc ?k = Ok ((ptable k ! p)\<lparr>p_tf := tf\<rparr>) ?k" using p by (simp add: curproc_def kdefs myproc_def)
  then obtain r k2 where r: "f ?k = Ok r k2" "set_eax r k2 = Ok () k'"
    using t assms(3) by (auto simp: syscall_def bindK_Ok)
  then have "cur k' = cur k2 \<and> p_tf (ptable k' ! the (cur k')) = (p_tf (ptable k2 ! the (cur k2)))\<lparr>tf_eax := word_of_int r\<rparr>"
    by (auto simp: set_eax_def kok upd_proc_def)
  then show ?thesis using p r(1) by blast
qed

section \<open>Unknown system calls\<close>

lemma cprintf_run:
  assumes "cursor_ok (crt_pos s)" and "L_cons \<notin> set (klocks s)" and "cprintf_text (map of_char fmt) as = Some t"
  shows "\<exists>s'. cprintf fmt as s = Ok () s' \<and> output_only s s' \<and> cursor_ok (crt_pos s')"
proof (cases "cons_locking s")
  case True
  let ?k = "s\<lparr>klocks := L_cons # klocks s\<rparr>"
  obtain t' where t: "put_text t ?k = Ok () t'" "output_only ?k t'" "cursor_ok (crt_pos t')" using put_text_run [of ?k t] assms(1) by auto
  from t(2) obtain p m u where t': "t' = ?k\<lparr>kmemory := m, crt_pos := p, uart_out := u\<rparr>" "\<forall>a. \<not> on_screen a \<longrightarrow> m a = kmemory s a"
    by (auto simp: output_only_def)
  let ?s' = "s\<lparr>kmemory := m, crt_pos := p, uart_out := u\<rparr>"
  have "cprintf fmt as s = Ok () ?s'" using t(1) t'(1) assms(2,3) True by (simp add: cprintf_def kdefs acquire_def release_def)
  moreover have "output_only s ?s'" unfolding output_only_def using t'(2) by blast
  ultimately show ?thesis using t(3) t'(1) by (intro exI [of _ ?s']) simp
next
  case False
  obtain s' where "put_text t s = Ok () s'" "output_only s s'" "cursor_ok (crt_pos s')" using put_text_run [OF assms(1)] by blast
  then show ?thesis using False assms(3) by (intro exI [of _ s']) (simp add: cprintf_def kdefs)
qed

text \<open>
  A system call with a number that has no handler returns -1 to the process, after a message on the console, and
  changes nothing else: the memory outside of the screen, the files and the other processes are as before.
\<close>

lemma unknown_syscall:
  assumes "cursor_ok (crt_pos s)" and "klocks s = []" and "running s"
    and "\<not> (0 < sint (tf_eax (p_tf (ptable s ! the (cur s)))) \<and> sint (tf_eax (p_tf (ptable s ! the (cur s)))) < 26)"
  shows "\<exists>t. output_only s t \<and> syscall lk s = Ok () (t\<lparr>ptable := (ptable s)[the (cur s) := (ptable s ! the (cur s))
     \<lparr>p_tf := (p_tf (ptable s ! the (cur s)))\<lparr>tf_eax := -1\<rparr>\<rparr>]\<rparr>)"
proof -
  let ?i = "the (cur s)" and ?fmt = "''%d %s: unknown sys call %d'' @ [CHR 0x0A]"
  let ?as = "[Arg_word (word_of_int (p_pid (ptable s ! ?i))), Arg_str (Some (p_name (ptable s ! ?i))), Arg_word (word_of_int (sint (tf_eax (p_tf (ptable s ! ?i)))))]"
  obtain str where "cprintf_text (map of_char ?fmt) ?as = Some str" by simp
  from cprintf_run [OF assms(1) _ this] obtain t where t: "cprintf ?fmt ?as s = Ok () t" "output_only s t" using assms(2) by auto
  have "curproc s = Ok (ptable s ! ?i) s" using assms(3) by (simp add: kok)
  moreover have "ptable t = ptable s" "cur t = cur s" using output_only_input [OF t(2)] by simp_all
  then have "set_eax (-1) t = Ok () (t\<lparr>ptable := (ptable s)[?i := (ptable s ! ?i)\<lparr>p_tf := (p_tf (ptable s ! ?i))\<lparr>tf_eax := -1\<rparr>\<rparr>]\<rparr>)"
    using assms(3) by (auto simp: set_eax_def kdefs myproc_def upd_proc_def running_def)
  ultimately have "syscall lk s = Ok () (t\<lparr>ptable := (ptable s)[?i := (ptable s ! ?i)\<lparr>p_tf := (p_tf (ptable s ! ?i))\<lparr>tf_eax := -1\<rparr>\<rparr>]\<rparr>)"
    using t(1) assms(4) unfolding syscall_def handler_def Let_def by (simp only: bindK_def thenK_def if_False outcome.case option.case)
  then show ?thesis using t(2) by blast
qed

section \<open>Examples\<close>

text \<open>A clock tick: the process gives up the processor and gets it back.\<close>

theorem trap_returns_unkilled_witness:
  "\<exists>(s' :: consst) tf. from_user tf \<and> cur s' = Some 0 \<and> trap_ends \<lparr>l_data = 0, l_trapret = 0, l_forkret = 0\<rparr> (\<lambda>_. []) 1 0 tf cons_one s' \<and>
     \<not> p_killed (ptable s' ! 0)"
proof -
  let ?tf = "zero_tf\<lparr>tf_trapno := 32, tf_cs := 3\<rparr>" and ?lk = "\<lparr>l_data = 0, l_trapret = 0, l_forkret = 0\<rparr>"
  have c: "cur cons_one = Some 0" "ptable cons_one = [parent_proc]" "klocks cons_one = []"
    by (simp_all add: cons_one_def procst.extend_def consst.fields_def proc_one_def sysst.extend_def procst.fields_def sys_one_def filest.extend_def
      sysst.fields_def file_one_def kmst.extend_def filest.fields_def km_boot_def fsst.extend_def kmst.fields_def fs_one_def)
  have u: "from_user ?tf" by (simp add: from_user_def DPL_USER_def)
  have p: "parent_proc = zero_proc\<lparr>p_pid := 1, p_state := RUNNING, p_kstack := 0x80105000, p_pgdir := 0x80106000\<rparr>" by (rule parent_proc_def)
  obtain s1 where s1: "trap ?lk (\<lambda>_. []) 1 0 ?tf cons_one = Switch s1" "p_state (ptable s1 ! 0) = RUNNABLE"
    using c u by (simp add: trap_def trap_tail_def trap_device_def T_SYSCALL_def T_IRQ0_def IRQ_TIMER_def kdefs exit_killed_user_def yield_on_tick_def
      my_killed_def myproc_def curproc_def p zero_proc_def Let_def yield_def acquire_def upd_proc_def sched_def)
  have "trap_resume ?tf (cons_one\<lparr>klocks := [L_ptable]\<rparr>) = Ok () cons_one"
    using c by (simp add: trap_resume_def trap_tail_def exit_killed_user_def kdefs release_def my_killed_def myproc_def curproc_def p zero_proc_def)
  then have e: "trap_ends ?lk (\<lambda>_. []) 1 0 ?tf cons_one cons_one" using s1 c(1)
    by (intro trap_ends.Yields [of _ _ _ _ _ _ s1 0 "cons_one\<lparr>klocks := [L_ptable]\<rparr>"]) (simp_all add: T_SYSCALL_def)
  show ?thesis using trap_returns_unkilled [OF e u] e u c(1) by (intro exI [of _ cons_one] exI [of _ ?tf]) simp
qed

end
