(* ===== verification/Machine.thy ===== *)
theory Machine
  imports Mp Syscall
begin

text \<open>
  The set-up of the processor and of the interrupt controllers: segment descriptors and interrupt gates
  (\<^verbatim>\<open>kernel/mmu.h\<close>, \<^verbatim>\<open>seginit\<close> of \<^verbatim>\<open>kernel/vm.c\<close>, \<^verbatim>\<open>tvinit\<close> of
  \<^verbatim>\<open>kernel/trap.c\<close>), the I/O APIC (\<^verbatim>\<open>kernel/ioapic.c\<close>), the local APIC and the clock
  (\<^verbatim>\<open>kernel/lapic.c\<close>), the old interrupt controllers (\<^verbatim>\<open>kernel/picirq.c\<close>) and the look-up of the running processor (\<^verbatim>\<open>kernel/proc.c\<close>).

  Descriptors are 64-bit words. The lemmas decode them as the processor does: the segments are flat, the user's ones have
  privilege 3, and the only gate a user program can call is that of system calls. Devices are seen through their registers:
  the registers of the I/O APIC are reached through a select and a data register; writes to the local APIC and to ports are recorded
  in order, and what a read of a port gives is a function of these records.
\<close>

section \<open>Descriptors\<close>

type_synonym uint64 = "64 word"

definition SEG_KCODE :: nat where "SEG_KCODE = 1"
definition SEG_KDATA :: nat where "SEG_KDATA = 2"
definition SEG_TSS :: nat where "SEG_TSS = 5"
definition NSEGS :: nat where "NSEGS = 6"
definition STA_X :: uint64 where "STA_X = 0x8"
definition STA_W :: uint64 where "STA_W = 0x2"
definition STA_R :: uint64 where "STA_R = 0x2"
definition STS_T32A :: uint64 where "STS_T32A = 0x9"
definition STS_IG32 :: uint64 where "STS_IG32 = 0xE"
definition STS_TG32 :: uint64 where "STS_TG32 = 0xF"

lemmas seg_consts = SEG_KCODE_def SEG_KDATA_def SEG_UCODE_def SEG_UDATA_def SEG_TSS_def NSEGS_def DPL_USER_def
  STA_X_def STA_W_def STA_R_def STS_T32A_def STS_IG32_def STS_TG32_def

definition SEG :: "uint64 \<Rightarrow> uint \<Rightarrow> uint \<Rightarrow> uint64 \<Rightarrow> uint64" where
  "SEG ty base lim dpl =
     (drop_bit 12 (ucast lim) AND 0xffff)
     OR push_bit 16 (ucast base AND 0xffff)
     OR push_bit 32 (drop_bit 16 (ucast base) AND 0xff)
     OR push_bit 40 ty
     OR push_bit 44 1
     OR push_bit 45 dpl
     OR push_bit 47 1
     OR push_bit 48 (drop_bit 28 (ucast lim))
     OR push_bit 54 1
     OR push_bit 55 1
     OR push_bit 56 (drop_bit 24 (ucast base))"

definition SEG16 :: "uint64 \<Rightarrow> uint \<Rightarrow> uint \<Rightarrow> uint64 \<Rightarrow> uint64" where
  "SEG16 ty base lim dpl =
     (ucast lim AND 0xffff)
     OR push_bit 16 (ucast base AND 0xffff)
     OR push_bit 32 (drop_bit 16 (ucast base) AND 0xff)
     OR push_bit 40 ty
     OR push_bit 44 1
     OR push_bit 45 dpl
     OR push_bit 47 1
     OR push_bit 48 (drop_bit 16 (ucast lim))
     OR push_bit 54 1
     OR push_bit 56 (drop_bit 24 (ucast base))"

definition SEG_CLS :: "uint64 \<Rightarrow> uint64" where
  "SEG_CLS seg = seg AND NOT (push_bit 44 1)"

definition SETGATE :: "bool \<Rightarrow> uint64 \<Rightarrow> uint \<Rightarrow> uint64 \<Rightarrow> uint64" where
  "SETGATE istrap sel off d =
     (let gate = ucast (off AND 0xffff) in
      let gate = gate OR push_bit 16 (sel AND 0xffff) in
      let gate = gate OR push_bit 40 (if istrap then STS_TG32 else STS_IG32) in
      let gate = gate OR push_bit 45 d in
      let gate = gate OR push_bit 47 1 in
      gate OR push_bit 48 (drop_bit 16 (ucast off)))"

text \<open>The descriptors of a processor, before and after \<^verbatim>\<open>seginit\<close>.\<close>

definition seginit :: "(nat \<Rightarrow> uint64) \<Rightarrow> nat \<Rightarrow> uint64" where
  "seginit gdt = gdt(
     SEG_KCODE := SEG (STA_X OR STA_R) 0 0xffffffff 0,
     SEG_KDATA := SEG STA_W 0 0xffffffff 0,
     unat SEG_UCODE := SEG (STA_X OR STA_R) 0 0xffffffff (ucast DPL_USER),
     unat SEG_UDATA := SEG STA_W 0 0xffffffff (ucast DPL_USER))"

text \<open>The descriptor of the task state segment at \<open>ts\<close>, of 104 bytes, in \<^verbatim>\<open>switchuvm\<close>.\<close>

definition tss_desc :: "uint \<Rightarrow> uint64" where
  "tss_desc ts = SEG_CLS (SEG16 STS_T32A ts (104 - 1) 0)"

definition tvinit :: "(nat \<Rightarrow> uint) \<Rightarrow> nat \<Rightarrow> uint64" where
  "tvinit vectors =
     (let idt = foldl (\<lambda>idt i. idt(i := SETGATE False (push_bit 3 (of_nat SEG_KCODE)) (vectors i) 0)) (\<lambda>_. 0) [0..<256] in
      idt(unat T_SYSCALL := SETGATE True (push_bit 3 (of_nat SEG_KCODE)) (vectors (unat T_SYSCALL)) (ucast DPL_USER)))"

text \<open>The operand of \<^verbatim>\<open>lgdt\<close> and \<^verbatim>\<open>lidt\<close>: the table at \<open>p\<close> of \<open>sz\<close> bytes; and
  the one that \<^verbatim>\<open>idtinit\<close> loads, for the 256 gates at \<open>idt\<close>.\<close>

definition table_operand :: "uint \<Rightarrow> nat \<Rightarrow> ushort list" where
  "table_operand p sz = [of_nat (sz - 1), ucast p, ucast (drop_bit 16 p)]"

definition idtinit :: "uint \<Rightarrow> ushort list" where
  "idtinit idt = table_operand idt (256 * 8)"

section \<open>The running processor\<close>

text \<open>\<^verbatim>\<open>mycpu\<close>: the index in \<^verbatim>\<open>cpus\<close> of the processor with the given APIC id.\<close>

fun mycpu_loop :: "uchar list \<Rightarrow> nat \<Rightarrow> uchar \<Rightarrow> nat option" where
  "mycpu_loop [] i apicid = None"
| "mycpu_loop (a # ids) i apicid = (if a = apicid then Some i else mycpu_loop ids (i + 1) apicid)"

definition mycpu :: "bool \<Rightarrow> uchar \<Rightarrow> ('a mpst_scheme, nat) kfun" where
  "mycpu interrupts apicid =
     (if interrupts then panic ''mycpu called with interrupts enabled'' else
      bindK (getK cpu_apicids) (\<lambda>ids.
      case mycpu_loop ids 0 apicid of Some i \<Rightarrow> retK i | None \<Rightarrow> panic ''unknown apicid''))"

section \<open>Devices\<close>

text \<open>The registers of the I/O APIC and the one selected; those of the local APIC, with the writes to them in order and the values that
  reading its command register gives; the ports written, and what reading a port gives.\<close>

record devst = consst +
  io_sel :: uint
  io_regs :: "uint \<Rightarrow> uint"
  la_regs :: "nat \<Rightarrow> uint"
  la_writes :: "(nat \<times> uint) list"
  la_icr :: "nat \<Rightarrow> uint"
  la_pos :: nat
  dev_ports :: "port_op list"
  dev_in :: "port_op list \<Rightarrow> nat \<Rightarrow> uchar"

definition dev_outb :: "nat \<Rightarrow> uchar \<Rightarrow> ('a devst_scheme, unit) kfun" where
  "dev_outb port v = modK (\<lambda>s. s\<lparr>dev_ports := dev_ports s @ [Outb port v]\<rparr>)"

definition dev_inb :: "nat \<Rightarrow> ('a devst_scheme, uchar) kfun" where
  "dev_inb port = getK (\<lambda>s. dev_in s (dev_ports s) port)"

subsection \<open>The I/O APIC\<close>

definition REG_ID :: uint where "REG_ID = 0x00"
definition REG_VER :: uint where "REG_VER = 0x01"
definition REG_TABLE :: uint where "REG_TABLE = 0x10"
definition INT_DISABLED :: uint where "INT_DISABLED = 0x00010000"

definition ioapicread :: "uint \<Rightarrow> ('a devst_scheme, uint) kfun" where
  "ioapicread reg =
     thenK (modK (\<lambda>s. s\<lparr>io_sel := reg\<rparr>)) (
     getK (\<lambda>s. io_regs s (io_sel s)))"

definition ioapicwrite :: "uint \<Rightarrow> uint \<Rightarrow> ('a devst_scheme, unit) kfun" where
  "ioapicwrite reg v =
     thenK (modK (\<lambda>s. s\<lparr>io_sel := reg\<rparr>)) (
     modK (\<lambda>s. s\<lparr>io_regs := (io_regs s)(io_sel s := v)\<rparr>))"

definition ioapic_mask :: "nat \<Rightarrow> ('a devst_scheme, unit) kfun" where
  "ioapic_mask i =
     thenK (ioapicwrite (REG_TABLE + 2 * of_nat i) (INT_DISABLED OR (T_IRQ0 + of_nat i))) (
     ioapicwrite (REG_TABLE + 2 * of_nat i + 1) 0)"

text \<open>The result says whether the message about the id is printed.\<close>

definition ioapicinit :: "uchar \<Rightarrow> ('a devst_scheme, bool) kfun" where
  "ioapicinit ioid =
     bindK (ioapicread REG_VER) (\<lambda>v.
     let maxintr = unat (drop_bit 16 v AND 0xFF) in
     bindK (ioapicread REG_ID) (\<lambda>r.
     let id = drop_bit 24 r in
     thenK (forK [0..<maxintr + 1] ioapic_mask) (
     retK (id \<noteq> ucast ioid))))"

definition ioapicenable :: "nat \<Rightarrow> uint \<Rightarrow> ('a devst_scheme, unit) kfun" where
  "ioapicenable irq cpunum =
     thenK (ioapicwrite (REG_TABLE + 2 * of_nat irq) (T_IRQ0 + of_nat irq)) (
     ioapicwrite (REG_TABLE + 2 * of_nat irq + 1) (push_bit 24 cpunum))"


subsection \<open>The local APIC\<close>

definition ID :: nat where "ID = 0x0020 div 4"
definition VER :: nat where "VER = 0x0030 div 4"
definition TPR :: nat where "TPR = 0x0080 div 4"
definition EOI :: nat where "EOI = 0x00B0 div 4"
definition SVR :: nat where "SVR = 0x00F0 div 4"
definition ENABLE :: uint where "ENABLE = 0x00000100"
definition ESR :: nat where "ESR = 0x0280 div 4"
definition ICRLO :: nat where "ICRLO = 0x0300 div 4"
definition INIT :: uint where "INIT = 0x00000500"
definition STARTUP :: uint where "STARTUP = 0x00000600"
definition DELIVS :: uint where "DELIVS = 0x00001000"
definition ASSERT :: uint where "ASSERT = 0x00004000"
definition LEVEL :: uint where "LEVEL = 0x00008000"
definition BCAST :: uint where "BCAST = 0x00080000"
definition ICRHI :: nat where "ICRHI = 0x0310 div 4"
definition TIMER :: nat where "TIMER = 0x0320 div 4"
definition X1 :: uint where "X1 = 0x0000000B"
definition PERIODIC :: uint where "PERIODIC = 0x00020000"
definition PCINT :: nat where "PCINT = 0x0340 div 4"
definition LINT0 :: nat where "LINT0 = 0x0350 div 4"
definition LINT1 :: nat where "LINT1 = 0x0360 div 4"
definition LA_ERROR :: nat where "LA_ERROR = 0x0370 div 4"
definition MASKED :: uint where "MASKED = 0x00010000"
definition TICR :: nat where "TICR = 0x0380 div 4"
definition TDCR :: nat where "TDCR = 0x03E0 div 4"
definition IRQ_ERROR :: uint where "IRQ_ERROR = 19"

lemmas lapic_consts = ID_def VER_def TPR_def EOI_def SVR_def ENABLE_def ESR_def ICRLO_def INIT_def STARTUP_def DELIVS_def ASSERT_def
  LEVEL_def BCAST_def ICRHI_def TIMER_def X1_def PERIODIC_def PCINT_def LINT0_def LINT1_def LA_ERROR_def MASKED_def TICR_def TDCR_def
  IRQ_ERROR_def T_IRQ0_def IRQ_TIMER_def IRQ_SPURIOUS_def

definition lapicw :: "nat \<Rightarrow> uint \<Rightarrow> ('a devst_scheme, unit) kfun" where
  "lapicw index v = modK (\<lambda>s. s\<lparr>la_regs := (la_regs s)(index := v), la_writes := la_writes s @ [(index, v)]\<rparr>)"

partial_function (option) delivs_loop :: "(nat \<Rightarrow> uint) \<Rightarrow> nat \<Rightarrow> nat option" where
  "delivs_loop icr k = (if icr k AND DELIVS \<noteq> 0 then delivs_loop icr (k + 1) else Some k)"

text \<open>The wait for the delivery of the interrupt; it is \<open>Undef\<close> if it is never delivered.\<close>

definition wait_delivs :: "('a devst_scheme, unit) kfun" where
  "wait_delivs =
     bindK (getK (\<lambda>s. delivs_loop (la_icr s) (la_pos s))) (\<lambda>j.
     case j of None \<Rightarrow> undefK | Some k \<Rightarrow> modK (\<lambda>s. s\<lparr>la_pos := k + 1\<rparr>))"

definition lapicinit :: "uint \<Rightarrow> ('a devst_scheme, unit) kfun" where
  "lapicinit lapic =
     (if lapic = 0 then retK () else
      thenK (lapicw SVR (ENABLE OR (T_IRQ0 + IRQ_SPURIOUS))) (
      thenK (lapicw TDCR X1) (
      thenK (lapicw TIMER (PERIODIC OR (T_IRQ0 + IRQ_TIMER))) (
      thenK (lapicw TICR 10000000) (
      thenK (lapicw LINT0 MASKED) (
      thenK (lapicw LINT1 MASKED) (
      bindK (getK (\<lambda>s. la_regs s VER)) (\<lambda>v.
      thenK (whenK (drop_bit 16 v AND 0xFF \<ge> 4) (lapicw PCINT MASKED)) (
      thenK (lapicw LA_ERROR (T_IRQ0 + IRQ_ERROR)) (
      thenK (lapicw ESR 0) (
      thenK (lapicw ESR 0) (
      thenK (lapicw EOI 0) (
      thenK (lapicw ICRHI 0) (
      thenK (lapicw ICRLO (BCAST OR INIT OR LEVEL)) (
      thenK wait_delivs (
      lapicw TPR 0))))))))))))))))"

definition lapicid :: "uint \<Rightarrow> ('a devst_scheme, uint) kfun" where
  "lapicid lapic = (if lapic = 0 then retK 0 else getK (\<lambda>s. drop_bit 24 (la_regs s ID)))"

definition lapiceoi :: "uint \<Rightarrow> ('a devst_scheme, unit) kfun" where
  "lapiceoi lapic = whenK (lapic \<noteq> 0) (lapicw EOI 0)"

definition CMOS_PORT :: nat where "CMOS_PORT = 0x70"

definition lapicstartap :: "uchar \<Rightarrow> uint \<Rightarrow> ('a devst_scheme, unit) kfun" where
  "lapicstartap apicid addr =
     (let wrv = P2V (push_bit 4 0x40 OR 0x67); w = ucast (drop_bit 4 addr) :: ushort in
      thenK (dev_outb CMOS_PORT 0xF) (
      thenK (dev_outb (CMOS_PORT + 1) 0x0A) (
      thenK (modK (\<lambda>s. s\<lparr>kmemory := (kmemory s)(wrv := 0, wrv + 1 := 0, wrv + 2 := ucast w, wrv + 3 := ucast (drop_bit 8 w))\<rparr>)) (
      thenK (lapicw ICRHI (push_bit 24 (ucast apicid))) (
      thenK (lapicw ICRLO (INIT OR LEVEL OR ASSERT)) (
      thenK (lapicw ICRLO (INIT OR LEVEL)) (
      forK [0..<(2 :: nat)] (\<lambda>i.
        thenK (lapicw ICRHI (push_bit 24 (ucast apicid))) (
        lapicw ICRLO (STARTUP OR drop_bit 12 addr))))))))))"

subsection \<open>The clock\<close>

text \<open>The state is the record of the ports; the parameter \<open>rtc\<close> is what \<^verbatim>\<open>inb(CMOS_RETURN)\<close> gives after it.\<close>

record rtcdate =
  rt_second :: uint
  rt_minute :: uint
  rt_hour :: uint
  rt_day :: uint
  rt_month :: uint
  rt_year :: uint

definition CMOS_STATA :: uchar where "CMOS_STATA = 0x0a"
definition CMOS_STATB :: uchar where "CMOS_STATB = 0x0b"
definition CMOS_UIP :: uint where "CMOS_UIP = push_bit 7 1"

definition cmos_read :: "(port_op list \<Rightarrow> uchar) \<Rightarrow> uchar \<Rightarrow> port_op list \<Rightarrow> uint \<times> port_op list" where
  "cmos_read rtc reg ps = (let ps = ps @ [Outb CMOS_PORT reg] in (ucast (rtc ps), ps))"

definition fill_rtcdate :: "(port_op list \<Rightarrow> uchar) \<Rightarrow> port_op list \<Rightarrow> rtcdate \<times> port_op list" where
  "fill_rtcdate rtc ps =
     (let (se, ps) = cmos_read rtc 0x00 ps;
          (mi, ps) = cmos_read rtc 0x02 ps;
          (ho, ps) = cmos_read rtc 0x04 ps;
          (da, ps) = cmos_read rtc 0x07 ps;
          (mo, ps) = cmos_read rtc 0x08 ps;
          (ye, ps) = cmos_read rtc 0x09 ps in
      (\<lparr>rt_second = se, rt_minute = mi, rt_hour = ho, rt_day = da, rt_month = mo, rt_year = ye\<rparr>, ps))"

partial_function (option) cmostime_loop :: "(port_op list \<Rightarrow> uchar) \<Rightarrow> port_op list \<Rightarrow> (rtcdate \<times> port_op list) option" where
  "cmostime_loop rtc ps =
     (let f1 = fill_rtcdate rtc ps; a = cmos_read rtc CMOS_STATA (snd f1) in
      if fst a AND CMOS_UIP \<noteq> 0 then cmostime_loop rtc (snd a) else
      let f2 = fill_rtcdate rtc (snd a) in
      if fst f1 = fst f2 then Some (fst f1, snd f2) else cmostime_loop rtc (snd f2))"

definition conv_bcd :: "uint \<Rightarrow> uint" where
  "conv_bcd x = drop_bit 4 x * 10 + (x AND 0xf)"

definition cmostime :: "(port_op list \<Rightarrow> uchar) \<Rightarrow> port_op list \<Rightarrow> (rtcdate \<times> port_op list) option" where
  "cmostime rtc ps =
     (let (stb, ps) = cmos_read rtc CMOS_STATB ps; bcd = (stb AND push_bit 2 1 = 0) in
      case cmostime_loop rtc ps of None \<Rightarrow> None | Some (t, ps) \<Rightarrow>
      let t = (if bcd then \<lparr>rt_second = conv_bcd (rt_second t), rt_minute = conv_bcd (rt_minute t), rt_hour = conv_bcd (rt_hour t),
                 rt_day = conv_bcd (rt_day t), rt_month = conv_bcd (rt_month t), rt_year = conv_bcd (rt_year t)\<rparr> else t) in
      Some (t\<lparr>rt_year := rt_year t + 2000\<rparr>, ps))"

subsection \<open>The old interrupt controllers\<close>

definition picinit :: "('a devst_scheme, unit) kfun" where
  "picinit = thenK (dev_outb (0x20 + 1) 0xFF) (dev_outb (0xA0 + 1) 0xFF)"


subsection \<open>The serial port\<close>

definition COM1 :: nat where "COM1 = 0x3f8"

definition uartinit :: "('a devst_scheme, unit) kfun" where
  "uartinit =
     thenK (dev_outb (COM1 + 2) 0) (
     thenK (dev_outb (COM1 + 3) 0x80) (
     thenK (dev_outb (COM1 + 0) (of_nat (115200 div 9600))) (
     thenK (dev_outb (COM1 + 1) 0) (
     thenK (dev_outb (COM1 + 3) 0x03) (
     thenK (dev_outb (COM1 + 4) 0) (
     thenK (dev_outb (COM1 + 1) 0x01) (
     bindK (dev_inb (COM1 + 5)) (\<lambda>st.
     if st = 0xFF then retK () else
     thenK (modK (\<lambda>s. s\<lparr>uart := True\<rparr>)) (
     bindK (dev_inb (COM1 + 2)) (\<lambda>_.
     bindK (dev_inb (COM1 + 0)) (\<lambda>_.
     thenK (ioapicenable (unat IRQ_COM1) 0) (
     forK (ascii (''xv6...'' @ [CHR 0x0A])) (\<lambda>c. uartputc (sint c))))))))))))))"

section \<open>How the processor reads descriptors\<close>

definition seg_base :: "uint64 \<Rightarrow> uint" where
  "seg_base g = ucast (take_bit 16 (drop_bit 16 g) OR push_bit 16 (take_bit 8 (drop_bit 32 g)) OR push_bit 24 (take_bit 8 (drop_bit 56 g)))"

text \<open>The limit has 20 bits, in pages if the granularity bit 55 is set.\<close>

definition seg_limit :: "uint64 \<Rightarrow> uint" where
  "seg_limit g = (let l = ucast (take_bit 16 g OR push_bit 16 (take_bit 4 (drop_bit 48 g))) in
     if bit g 55 then push_bit 12 l OR 0xFFF else l)"

definition seg_type :: "uint64 \<Rightarrow> uint64" where
  "seg_type g = take_bit 4 (drop_bit 40 g)"

definition desc_dpl :: "uint64 \<Rightarrow> uint64" where
  "desc_dpl g = take_bit 2 (drop_bit 45 g)"

definition desc_present :: "uint64 \<Rightarrow> bool" where
  "desc_present g = bit g 47"

definition gate_off :: "uint64 \<Rightarrow> uint" where
  "gate_off g = ucast (take_bit 16 g OR push_bit 16 (take_bit 16 (drop_bit 48 g)))"

definition gate_sel :: "uint64 \<Rightarrow> uint64" where
  "gate_sel g = take_bit 16 (drop_bit 16 g)"

lemma bit_small:
  fixes w :: uint64
  assumes "unat w < 2 ^ k" and "bit w n"
  shows "n < k"
proof (rule ccontr)
  assume "\<not> n < k"
  have "take_bit k w = w" using assms(1) by (simp add: word_unat_eq_iff unsigned_take_bit_eq take_bit_nat_eq_self)
  then have "\<not> bit w n" using \<open>\<not> n < k\<close> by (metis bit_take_bit_iff)
  then show False using assms(2) by simp
qed

lemma small_bits:
  "bit (0xE :: uint64) n \<Longrightarrow> n < 4" "bit (0xF :: uint64) n \<Longrightarrow> n < 4" "bit (3 :: uint64) n \<Longrightarrow> n < 2"
  by (erule bit_small [rotated], simp)+

lemma masks: "(0xffff :: uint64) = mask 16" "(0xff :: uint64) = mask 8" "(0xffff :: uint) = mask 16" "(0xff :: uint) = mask 8"
  by (simp_all add: mask_eq_exp_minus_1)

lemma masks12: "(0xFFF :: uint) = mask 12"
  by (simp add: mask_eq_exp_minus_1)

lemma bit_ucast32: "bit (ucast (x :: uint) :: uint64) n \<longleftrightarrow> bit x n"
  by (auto simp: bit_ucast_iff dest: bit_imp_le_length)

lemma bit_one: "bit (1 :: uint64) n \<longleftrightarrow> n = 0"
  by (simp add: bit_1_iff)

lemmas desc_bits = bit_or_iff bit_and_iff bit_mask_iff bit_drop_bit_eq comp_def bit_ucast32 masks bit_one possible_bit_word

lemma bit_SETGATE:
  assumes "unat d < 4"
  shows "n < 16 \<Longrightarrow> bit (SETGATE b sel off d) n = bit off n"
    and "n < 16 \<Longrightarrow> bit (SETGATE b sel off d) (16 + n) = bit sel n"
    and "n < 4 \<Longrightarrow> bit (SETGATE b sel off d) (40 + n) = bit (if b then STS_TG32 else STS_IG32) n"
    and "n < 2 \<Longrightarrow> bit (SETGATE b sel off d) (45 + n) = bit d n"
    and "bit (SETGATE b sel off d) 47"
    and "n < 16 \<Longrightarrow> bit (SETGATE b sel off d) (48 + n) = bit off (16 + n)"
  unfolding SETGATE_def Let_def desc_bits bit_push_bit_iff
  subgoal by simp
  subgoal by simp
  subgoal by simp
  subgoal using small_bits(1,2) [of "5 + n"] by (auto simp: seg_consts)
  subgoal by simp
  subgoal using small_bits(1,2) [of "8 + n"] bit_small [of d 2 "3 + n"] assms by (auto simp: seg_consts)
  done

lemma SETGATE_fields:
  assumes "unat d < 4"
  shows "gate_off (SETGATE b sel off d) = off" and "gate_sel (SETGATE b sel off d) = take_bit 16 sel"
    and "seg_type (SETGATE b sel off d) = (if b then STS_TG32 else STS_IG32)"
    and "desc_dpl (SETGATE b sel off d) = d" and "desc_present (SETGATE b sel off d)"
proof -
  note bg = bit_SETGATE [OF assms]
  show "gate_off (SETGATE b sel off d) = off"
  proof (rule bit_word_eqI)
    fix n assume "n < LENGTH(32)"
    then show "bit (gate_off (SETGATE b sel off d)) n = bit off n"
      using bg(6) [of "n - 16"] by (cases "n < 16") (auto simp: gate_off_def bit_simps bg(1))
  qed
  show "gate_sel (SETGATE b sel off d) = take_bit 16 sel"
    by (rule bit_word_eqI) (auto simp: gate_sel_def bit_simps bg(2))
  show "seg_type (SETGATE b sel off d) = (if b then STS_TG32 else STS_IG32)"
  proof (rule bit_word_eqI)
    fix n
    show "bit (seg_type (SETGATE b sel off d)) n = bit (if b then STS_TG32 else STS_IG32) n"
      using small_bits(1,2) [of n] bg(3) [of n] by (auto simp: seg_type_def bit_take_bit_iff bit_drop_bit_eq seg_consts)
  qed
  show "desc_dpl (SETGATE b sel off d) = d"
  proof (rule bit_word_eqI)
    fix n
    show "bit (desc_dpl (SETGATE b sel off d)) n = bit d n"
      using bit_small [of d 2 n] assms bg(4) [of n] by (auto simp: desc_dpl_def bit_take_bit_iff bit_drop_bit_eq)
  qed
  show "desc_present (SETGATE b sel off d)" by (simp add: desc_present_def bg(5))
qed

lemma foldl_upd: "foldl (\<lambda>g i. g(i := f i)) g xs i = (if i \<in> set xs then f i else g i)"
  by (induction xs arbitrary: g) auto

lemma tvinit_gate:
  assumes "i < 256"
  shows "tvinit vectors i = SETGATE (i = 64) (push_bit 3 (of_nat SEG_KCODE)) (vectors i) (if i = 64 then ucast DPL_USER else 0)"
  using assms by (simp add: tvinit_def Let_def foldl_upd T_SYSCALL_def)

lemma gate_dpl: "unat (if b then ucast DPL_USER else 0 :: uint64) < 4"
  by (simp add: DPL_USER_def)

text \<open>
  The gates that \<^verbatim>\<open>tvinit\<close> sets up, as the processor reads them: every one of the 256 gates is present, leads to its
  own vector in the kernel's code segment, and can be called by a user program only if it is the gate of system calls, which is
  also the only one that leaves interrupts enabled.
\<close>

lemma tvinit_gates:
  assumes "i < 256"
  shows "gate_off (tvinit vectors i) = vectors i \<and> gate_sel (tvinit vectors i) = 8 \<and> desc_present (tvinit vectors i) \<and>
    desc_dpl (tvinit vectors i) = (if i = 64 then ucast DPL_USER else 0) \<and>
    seg_type (tvinit vectors i) = (if i = 64 then STS_TG32 else STS_IG32)"
  unfolding tvinit_gate [OF assms] by (simp only: SETGATE_fields [OF gate_dpl]) (simp add: SEG_KCODE_def)

text \<open>Segment descriptors: base, limit, type and privilege are those given to the macro; the limit counts in pages.\<close>

lemma bit_SEG:
  assumes "unat ty < 16" and "unat dpl < 4"
  shows "n < 16 \<Longrightarrow> bit (SEG ty base lim dpl) n = bit lim (12 + n)"
    and "n < 16 \<Longrightarrow> bit (SEG ty base lim dpl) (16 + n) = bit base n"
    and "n < 8 \<Longrightarrow> bit (SEG ty base lim dpl) (32 + n) = bit base (16 + n)"
    and "n < 4 \<Longrightarrow> bit (SEG ty base lim dpl) (40 + n) = bit ty n"
    and "n < 2 \<Longrightarrow> bit (SEG ty base lim dpl) (45 + n) = bit dpl n"
    and "bit (SEG ty base lim dpl) 47"
    and "n < 4 \<Longrightarrow> bit (SEG ty base lim dpl) (48 + n) = bit lim (28 + n)"
    and "bit (SEG ty base lim dpl) 55"
    and "n < 8 \<Longrightarrow> bit (SEG ty base lim dpl) (56 + n) = bit base (24 + n)"
  unfolding SEG_def desc_bits bit_push_bit_iff
  subgoal by simp
  subgoal by simp
  subgoal by simp
  subgoal by simp
  subgoal using bit_small [of ty 4 "5 + n"] assms by auto
  subgoal by simp
  subgoal using bit_small [of ty 4 "8 + n"] bit_small [of dpl 2 "3 + n"] assms by auto
  subgoal by simp
  subgoal using bit_small [of ty 4 "16 + n"] bit_small [of dpl 2 "11 + n"] bit_imp_le_length [of lim "36 + n"] assms by auto
  done

lemma SEG_fields:
  assumes "unat ty < 16" and "unat dpl < 4"
  shows "seg_base (SEG ty base lim dpl) = base" and "seg_limit (SEG ty base lim dpl) = lim OR mask 12"
    and "seg_type (SEG ty base lim dpl) = ty" and "desc_dpl (SEG ty base lim dpl) = dpl" and "desc_present (SEG ty base lim dpl)"
proof -
  note bg = bit_SEG [OF assms]
  show "seg_base (SEG ty base lim dpl) = base"
  proof (rule bit_word_eqI)
    fix n assume "n < LENGTH(32)"
    then consider "n < 16" | k where "n = 16 + k" "k < 8" | k where "n = 24 + k" "k < 8"
      by (cases "n < 16"; cases "n < 24") (auto simp: le_iff_add not_less)
    then show "bit (seg_base (SEG ty base lim dpl)) n = bit base n"
      by cases (simp_all add: seg_base_def bit_simps bg(2,3,9))
  qed
  show "seg_limit (SEG ty base lim dpl) = lim OR mask 12"
  proof (rule bit_word_eqI)
    fix n assume "n < LENGTH(32)"
    then consider "n < 12" | k where "n = 12 + k" "k < 16" | k where "n = 28 + k" "k < 4"
      by (cases "n < 12"; cases "n < 28") (auto simp: le_iff_add not_less)
    then show "bit (seg_limit (SEG ty base lim dpl)) n = bit (lim OR mask 12) n"
      by cases (simp_all add: seg_limit_def Let_def bg(1,7,8) masks12 bit_simps)
  qed
  show "seg_type (SEG ty base lim dpl) = ty"
  proof (rule bit_word_eqI)
    fix n
    show "bit (seg_type (SEG ty base lim dpl)) n = bit ty n"
      using bit_small [of ty 4 n] assms bg(4) [of n] by (auto simp: seg_type_def bit_take_bit_iff bit_drop_bit_eq)
  qed
  show "desc_dpl (SEG ty base lim dpl) = dpl"
  proof (rule bit_word_eqI)
    fix n
    show "bit (desc_dpl (SEG ty base lim dpl)) n = bit dpl n"
      using bit_small [of dpl 2 n] assms bg(5) [of n] by (auto simp: desc_dpl_def bit_take_bit_iff bit_drop_bit_eq)
  qed
  show "desc_present (SEG ty base lim dpl)" by (simp add: desc_present_def bg(6))
qed

text \<open>The four segments are flat: they start at 0 and reach to the end of the address space; the user's have privilege 3.\<close>

lemma seginit_flat:
  assumes "k \<in> {SEG_KCODE, SEG_KDATA, unat SEG_UCODE, unat SEG_UDATA}"
  shows "seg_base (seginit gdt k) = 0 \<and> seg_limit (seginit gdt k) = 0xFFFFFFFF \<and> desc_present (seginit gdt k) \<and>
    desc_dpl (seginit gdt k) = (if k \<in> {unat SEG_UCODE, unat SEG_UDATA} then ucast DPL_USER else 0)"
  using assms by (auto simp: seginit_def SEG_fields seg_consts mask_eq_exp_minus_1)

section \<open>Devices after their initialisation\<close>

text \<open>After \<^verbatim>\<open>ioapicinit\<close> every interrupt of the I/O APIC is disabled and routed to no processor, and
  \<^verbatim>\<open>ioapicenable\<close> changes only the entry of its interrupt.\<close>

definition io_low :: "'a devst_scheme \<Rightarrow> nat \<Rightarrow> uint" where
  "io_low s i = io_regs s (REG_TABLE + 2 * of_nat i)"

definition io_high :: "'a devst_scheme \<Rightarrow> nat \<Rightarrow> uint" where
  "io_high s i = io_regs s (REG_TABLE + 2 * of_nat i + 1)"

lemma io_index:
  assumes "i < 2 ^ 16" and "j < 2 ^ 16"
  shows "(2 * of_nat i :: uint) = 2 * of_nat j \<longleftrightarrow> i = j"
    and "REG_TABLE + 2 * of_nat i \<noteq> REG_TABLE + 2 * of_nat j + 1"
proof -
  have u: "unat (2 * of_nat k :: uint) = 2 * k" "unat (2 * of_nat k + 1 :: uint) = 2 * k + 1" if "k < 2 ^ 16" for k
    using that by (simp_all add: unat_word_ariths unat_of_nat)
  have "unat (2 * of_nat i :: uint) = unat (2 * of_nat j :: uint) \<longleftrightarrow> i = j" using u assms by simp
  then show "(2 * of_nat i :: uint) = 2 * of_nat j \<longleftrightarrow> i = j" by metis
  have "unat (2 * of_nat i :: uint) \<noteq> unat (2 * of_nat j + 1 :: uint)" using u assms by presburger
  then have "(2 * of_nat i :: uint) \<noteq> 2 * of_nat j + 1" by metis
  then show "REG_TABLE + 2 * of_nat i \<noteq> REG_TABLE + 2 * of_nat j + 1" by (simp add: add.assoc)
qed

lemma ioapicenable_effect:
  assumes "irq < 2 ^ 16"
  shows "\<exists>s'. ioapicenable irq cpu s = Ok () s' \<and>
    (\<forall>i < 2 ^ 16. io_low s' i = (if i = irq then T_IRQ0 + of_nat irq else io_low s i) \<and>
       io_high s' i = (if i = irq then push_bit 24 cpu else io_high s i))"
  using assms by (auto simp: ioapicenable_def ioapicwrite_def kdefs io_low_def io_high_def io_index io_index(2) [symmetric])

lemma ioapic_mask_effect:
  assumes "k < 2 ^ 16"
  shows "\<exists>s'. ioapic_mask k s = Ok () s' \<and>
    (\<forall>i < 2 ^ 16. io_low s' i = (if i = k then INT_DISABLED OR (T_IRQ0 + of_nat k) else io_low s i) \<and>
       io_high s' i = (if i = k then 0 else io_high s i))"
  using assms by (auto simp: ioapic_mask_def ioapicwrite_def kdefs io_low_def io_high_def io_index io_index(2) [symmetric])

lemma ioapic_routes:
  assumes ver: "unat (drop_bit 16 (io_regs s REG_VER) AND 0xFF) = mx" and irq: "irq \<le> mx"
  shows "\<exists>b s1 s2. ioapicinit ioid s = Ok b s1 \<and> ioapicenable irq cpu s1 = Ok () s2 \<and>
    (\<forall>i \<le> mx. io_low s2 i = (if i = irq then T_IRQ0 + of_nat irq else INT_DISABLED OR (T_IRQ0 + of_nat i)) \<and>
       io_high s2 i = (if i = irq then push_bit 24 cpu else 0))"
proof -
  have mx: "mx < 256" unfolding ver [symmetric]
    by (simp add: masks take_bit_eq_mask [symmetric] unsigned_take_bit_eq take_bit_nat_less_exp [where n = 8, simplified])
  let ?off = "\<lambda>n (t :: 'a devst_scheme). \<forall>i < n. io_low t i = INT_DISABLED OR (T_IRQ0 + of_nat i) \<and> io_high t i = 0"
  have step: "\<exists>t'. ioapic_mask k t = Ok () t' \<and> ?off (Suc k) t'" if "k < mx + 1" "?off k t" for k and t :: "'a devst_scheme"
    using ioapic_mask_effect [of k t] that mx by (auto simp: less_Suc_eq)
  let ?s0 = "s\<lparr>io_sel := REG_ID\<rparr>"
  obtain s1 where f: "forK [0..<mx + 1] ioapic_mask ?s0 = Ok () s1" and o: "?off (mx + 1) s1"
    using forK_upto [of ?off ?s0 "mx + 1" ioapic_mask] step by auto
  have "ioapicinit ioid s = Ok (drop_bit 24 (io_regs s REG_ID) \<noteq> ucast ioid) s1"
    using f ver by (simp add: ioapicinit_def ioapicread_def kdefs Let_def)
  moreover obtain s2 where "ioapicenable irq cpu s1 = Ok () s2" and "\<forall>i < 2 ^ 16. io_low s2 i = (if i = irq then T_IRQ0 + of_nat irq else io_low s1 i) \<and>
       io_high s2 i = (if i = irq then push_bit 24 cpu else io_high s1 i)" using ioapicenable_effect [of irq cpu s1] irq mx by auto
  ultimately show ?thesis using o mx by (intro exI conjI) (auto simp: less_Suc_eq_le)
qed

lemma mycpu_loop_index: "i < length ids \<Longrightarrow> distinct ids \<Longrightarrow> mycpu_loop ids k (ids ! i) = Some (k + i)"
proof (induction ids arbitrary: i k)
  case (Cons a ids)
  then show ?case by (cases i) (auto simp: nth_mem)
qed simp

text \<open>\<^verbatim>\<open>lapicinit\<close> leaves the timer periodic on its vector, both interrupt lines masked and all priorities accepted.\<close>

lemma delivs_loop_ends: "k \<le> j \<Longrightarrow> icr j AND DELIVS = 0 \<Longrightarrow> \<exists>i. delivs_loop icr k = Some i"
proof (induction "j - k" arbitrary: k)
  case 0
  then show ?case by (subst delivs_loop.simps) simp
next
  case (Suc n)
  then show ?case by (subst delivs_loop.simps) auto
qed

lemma lapicinit_regs:
  assumes "lapic \<noteq> 0" and "\<exists>j \<ge> la_pos s. la_icr s j AND DELIVS = 0"
  shows "\<exists>s'. lapicinit lapic s = Ok () s' \<and> la_regs s' SVR = 0x13F \<and> la_regs s' TIMER = 0x20020 \<and> la_regs s' LINT0 = MASKED \<and>
    la_regs s' LINT1 = MASKED \<and> la_regs s' TPR = 0"
proof -
  obtain j where "delivs_loop (la_icr s) (la_pos s) = Some j" using delivs_loop_ends assms(2) by blast
  then show ?thesis using assms(1) by (simp add: lapicinit_def lapicw_def wait_delivs_def kdefs lapic_consts)
qed

section \<open>The clock\<close>

text \<open>A clock in binary coded decimal that stands still while it is read is read correctly.\<close>

definition to_bcd :: "nat \<Rightarrow> uchar" where
  "to_bcd n = of_nat (16 * (n div 10) + n mod 10)"

lemma conv_to_bcd:
  assumes "n < 100"
  shows "conv_bcd (ucast (to_bcd n)) = of_nat n"
proof -
  define q r where d: "q = n div 10" "r = n mod 10"
  have qr: "q < 10" "r < 10" "n = 10 * q + r" using assms by (simp_all add: d less_mult_imp_div_less)
  have "unat (to_bcd n) = 16 * q + r" using qr by (simp add: to_bcd_def d [symmetric] unat_of_nat del: of_nat_add of_nat_mult)
  then have x: "unat (ucast (to_bcd n) :: uint) = 16 * q + r" using qr by (simp add: unsigned_ucast_eq take_bit_nat_eq_self)
  have "drop_bit 4 (ucast (to_bcd n) :: uint) = of_nat q"
    using x qr(1,2) by (simp add: word_unat_eq_iff unat_drop_bit_eq drop_bit_eq_div unat_of_nat unat_div)
  moreover have "ucast (to_bcd n) AND (0xf :: uint) = of_nat r"
  proof -
    have "unat (take_bit 4 (ucast (to_bcd n) :: uint)) = r" using x qr(1,2) by (simp add: unsigned_take_bit_eq take_bit_eq_mod unat_mod)
    moreover have "ucast (to_bcd n) AND (0xf :: uint) = take_bit 4 (ucast (to_bcd n))"
      by (simp add: take_bit_eq_mask mask_eq_exp_minus_1)
    ultimately show ?thesis by (metis of_nat_unat ucast_id)
  qed
  ultimately show ?thesis by (simp add: conv_bcd_def qr(3) mult.commute)
qed

lemma cmostime_correct:
  assumes bcd: "\<And>ps. rtc (ps @ [Outb CMOS_PORT CMOS_STATB]) = 2" and uip: "\<And>ps. rtc (ps @ [Outb CMOS_PORT CMOS_STATA]) = 0"
    and regs: "\<And>ps. rtc (ps @ [Outb CMOS_PORT 0x00]) = to_bcd se" "\<And>ps. rtc (ps @ [Outb CMOS_PORT 0x02]) = to_bcd mi"
      "\<And>ps. rtc (ps @ [Outb CMOS_PORT 0x04]) = to_bcd ho" "\<And>ps. rtc (ps @ [Outb CMOS_PORT 0x07]) = to_bcd da"
      "\<And>ps. rtc (ps @ [Outb CMOS_PORT 0x08]) = to_bcd mo" "\<And>ps. rtc (ps @ [Outb CMOS_PORT 0x09]) = to_bcd ye"
    and lt: "se < 100" "mi < 100" "ho < 100" "da < 100" "mo < 100" "ye < 100"
  shows "map_option fst (cmostime rtc ps) = Some \<lparr>rt_second = of_nat se, rt_minute = of_nat mi, rt_hour = of_nat ho,
     rt_day = of_nat da, rt_month = of_nat mo, rt_year = of_nat (ye + 2000)\<rparr>"
proof -
  define t where "t = \<lparr>rt_second = ucast (to_bcd se), rt_minute = ucast (to_bcd mi), rt_hour = ucast (to_bcd ho),
     rt_day = ucast (to_bcd da), rt_month = ucast (to_bcd mo), rt_year = ucast (to_bcd ye)\<rparr>"
  have fill: "fst (fill_rtcdate rtc ps) = t" for ps
    by (simp add: fill_rtcdate_def cmos_read_def Let_def regs [simplified] t_def)
  have "fst (cmos_read rtc CMOS_STATA ps) = 0" for ps by (simp add: cmos_read_def Let_def uip)
  then have "\<exists>ps'. cmostime_loop rtc ps = Some (t, ps')" for ps
    by (subst cmostime_loop.simps) (simp add: Let_def fill)
  then obtain ps' where "cmostime_loop rtc (ps @ [Outb CMOS_PORT CMOS_STATB]) = Some (t, ps')" by blast
  then show ?thesis using lt by (simp add: cmostime_def cmos_read_def Let_def bcd t_def conv_to_bcd)
qed

end
