(* ===== verification/Asm.thy ===== *)
theory Asm
  imports Machine
begin

text \<open>
  The assembly of the kernel, on a processor with the instructions it uses: the context switch
  (\<^verbatim>\<open>kernel/swtch.S\<close>), the entry to and the return from the kernel (\<^verbatim>\<open>kernel/trapasm.S\<close>, the vectors that
  \<^verbatim>\<open>tools/vectors.pl\<close> generates), the system call stubs (\<^verbatim>\<open>user/usys.S\<close>), the first user program
  (\<^verbatim>\<open>user/initcode.S\<close>) and the code that starts processors (\<^verbatim>\<open>bootloader/bootasm.S\<close>,
  \<^verbatim>\<open>kernel/entry.S\<close>, \<^verbatim>\<open>kernel/entryother.S\<close>).

  Where the assembler puts the instructions is a parameter: \<open>placed code a is b\<close> says that the instructions \<open>is\<close> lie at
  \<open>a\<close> up to \<open>b\<close>. A label is the address of an instruction. Compiled C functions that assembly calls are code of which only
  the calling convention is known.
\<close>

section \<open>The processor\<close>

datatype reg = EAX | ECX | EDX | EBX | ESP | EBP | ESI | EDI

datatype sreg = CS | DS | ES | FS | GS | SS

datatype creg = CR0 | CR3 | CR4

datatype operand = Imm uint | R reg | S sreg | C creg | M "reg option" uint

text \<open>Sources come before destinations, as in the sources.\<close>

datatype (plugins only: code size) instr =
    Movl operand operand | Movw operand operand | Movb uchar reg
  | Pushl operand | Popl operand | Pushal | Popal
  | Addl uint reg | Subl uint reg | Orl uint reg | Xorw reg reg | Testb uchar reg
  | Inb nat | Outb nat | Outw
  | Cli | Lgdt operand
  | Jmp uint | Jmp_ind operand | Jnz uint | Ljmp ushort uint
  | Call uint | Call_ind operand | Ret | Int_n nat | Iret

text \<open>
  Memory is seen at the addresses that the code uses. \<open>idt\<close>, \<open>ts_esp0\<close> and \<open>ts_ss0\<close> are the gates and the
  kernel stack that the processor finds in its tables. What is read from ports are the values of \<open>x_in\<close> in turn.
\<close>

record x86 =
  gr :: "reg \<Rightarrow> uint"
  sr :: "sreg \<Rightarrow> ushort"
  cr :: "creg \<Rightarrow> uint"
  eip :: uint
  eflags :: uint
  xmem :: memory
  gdtr :: "ushort \<times> uint"
  idt :: "nat \<Rightarrow> uint64"
  ts_esp0 :: uint
  ts_ss0 :: ushort
  x_in :: "nat \<Rightarrow> uchar"
  x_out :: "(nat \<times> uint) list"

definition set_reg :: "reg \<Rightarrow> uint \<Rightarrow> x86 \<Rightarrow> x86" where
  "set_reg r v s = s\<lparr>gr := (gr s)(r := v)\<rparr>"

definition set_sreg :: "sreg \<Rightarrow> ushort \<Rightarrow> x86 \<Rightarrow> x86" where
  "set_sreg r v s = s\<lparr>sr := (sr s)(r := v)\<rparr>"

fun ea :: "x86 \<Rightarrow> reg option \<Rightarrow> uint \<Rightarrow> uint" where
  "ea s None d = d"
| "ea s (Some r) d = gr s r + d"

fun fetch_val :: "x86 \<Rightarrow> operand \<Rightarrow> uint" where
  "fetch_val s (Imm v) = v"
| "fetch_val s (R r) = gr s r"
| "fetch_val s (S r) = ucast (sr s r)"
| "fetch_val s (C r) = cr s r"
| "fetch_val s (M b d) = load32 (xmem s) (ea s b d)"

fun put_val :: "operand \<Rightarrow> uint \<Rightarrow> x86 \<Rightarrow> x86" where
  "put_val (Imm _) v s = s"
| "put_val (R r) v s = set_reg r v s"
| "put_val (S r) v s = set_sreg r (ucast v) s"
| "put_val (C r) v s = s\<lparr>cr := (cr s)(r := v)\<rparr>"
| "put_val (M b d) v s = s\<lparr>xmem := store32 (xmem s) (ea s b d) v\<rparr>"

definition low16 :: "uint \<Rightarrow> ushort \<Rightarrow> uint" where
  "low16 old v = (old AND 0xFFFF0000) OR ucast v"

definition store16 :: "memory \<Rightarrow> uint \<Rightarrow> ushort \<Rightarrow> memory" where
  "store16 m a v = m(a := ucast v, a + 1 := ucast (drop_bit 8 v))"

fun put_val16 :: "operand \<Rightarrow> ushort \<Rightarrow> x86 \<Rightarrow> x86" where
  "put_val16 (R r) v s = set_reg r (low16 (gr s r) v) s"
| "put_val16 (S r) v s = set_sreg r v s"
| "put_val16 (M b d) v s = s\<lparr>xmem := store16 (xmem s) (ea s b d) v\<rparr>"
| "put_val16 _ v s = s"

fun lgdt_val :: "operand \<Rightarrow> x86 \<Rightarrow> x86" where
  "lgdt_val (M b d) s = s\<lparr>gdtr := (ucast (load32 (xmem s) (ea s b d)), load32 (xmem s) (ea s b d + 2))\<rparr>"
| "lgdt_val _ s = s"

definition push :: "uint \<Rightarrow> x86 \<Rightarrow> x86" where
  "push v s = s\<lparr>gr := (gr s)(ESP := gr s ESP - 4), xmem := store32 (xmem s) (gr s ESP - 4) v\<rparr>"

definition tos :: "x86 \<Rightarrow> uint" where
  "tos s = load32 (xmem s) (gr s ESP)"

definition drop_top :: "x86 \<Rightarrow> x86" where
  "drop_top s = s\<lparr>gr := (gr s)(ESP := gr s ESP + 4)\<rparr>"

text \<open>Of the flags that arithmetic sets only that for zero is kept, since no other is tested.\<close>

definition set_zf :: "uint \<Rightarrow> x86 \<Rightarrow> x86" where
  "set_zf v s = s\<lparr>eflags := if v = 0 then eflags s OR 0x40 else eflags s AND NOT 0x40\<rparr>"

text \<open>
  The processor takes an interrupt through its gate: on a change of privilege it switches to the kernel stack first. An
  interrupt gate (but not a trap gate) disables interrupts. \<open>err\<close> is the error code, which some exceptions have.
\<close>

definition interrupt :: "nat \<Rightarrow> uint option \<Rightarrow> x86 \<Rightarrow> x86" where
  "interrupt i err s =
     (let g = idt s i;
          s1 = (if sr s CS AND 3 \<noteq> 0
                then push (gr s ESP) (push (ucast (sr s SS)) (set_reg ESP (ts_esp0 s) (set_sreg SS (ts_ss0 s) s)))
                else s);
          s2 = push (eip s) (push (ucast (sr s CS)) (push (eflags s) s1));
          s3 = (case err of None \<Rightarrow> s2 | Some e \<Rightarrow> push e s2)
      in s3\<lparr>sr := (sr s3)(CS := ucast (gate_sel g)), eip := gate_off g,
           eflags := eflags s AND NOT (if seg_type g = STS_IG32 then 0x34300 else 0x34100)\<rparr>)"

text \<open>\<^verbatim>\<open>iret\<close> leaves the kernel stack again when it lowers the privilege.\<close>

definition iret :: "x86 \<Rightarrow> x86" where
  "iret s =
     (let new_eip = tos s; s1 = drop_top s;
          new_cs = ucast (tos s1) :: ushort; s2 = drop_top s1;
          fl = tos s2; s3 = drop_top s2;
          s4 = (if new_cs AND 3 \<noteq> sr s CS AND 3
                then let sp = tos s3; s' = drop_top s3 in set_reg ESP sp (set_sreg SS (ucast (tos s')) s')
                else s3)
      in s4\<lparr>eip := new_eip, sr := (sr s4)(CS := new_cs), eflags := fl\<rparr>)"

text \<open>The instruction at \<open>pc\<close>, in a state whose \<open>eip\<close> is already that of the next instruction.\<close>

primrec exec_instr :: "uint \<Rightarrow> instr \<Rightarrow> x86 \<Rightarrow> x86" where
  "exec_instr pc (Movl src dst) s = put_val dst (fetch_val s src) s"
| "exec_instr pc (Movw src dst) s = put_val16 dst (ucast (fetch_val s src)) s"
| "exec_instr pc (Movb v r) s = set_reg r ((gr s r AND 0xFFFFFF00) OR ucast v) s"
| "exec_instr pc (Pushl src) s = push (fetch_val s src) s"
| "exec_instr pc (Popl dst) s = put_val dst (tos s) (drop_top s)"
| "exec_instr pc Pushal s =
     foldl (\<lambda>t r. push (gr s r) t) s [EAX, ECX, EDX, EBX, ESP, EBP, ESI, EDI]"
| "exec_instr pc Popal s =
     foldl (\<lambda>t r. if r = ESP then drop_top t else set_reg r (tos t) (drop_top t)) s [EDI, ESI, EBP, ESP, EBX, EDX, ECX, EAX]"
| "exec_instr pc (Addl v r) s = set_zf (gr s r + v) (set_reg r (gr s r + v) s)"
| "exec_instr pc (Subl v r) s = set_zf (gr s r - v) (set_reg r (gr s r - v) s)"
| "exec_instr pc (Orl v r) s = set_zf (gr s r OR v) (set_reg r (gr s r OR v) s)"
| "exec_instr pc (Xorw a b) s = (let v = (gr s a XOR gr s b) AND 0xFFFF in set_zf v (set_reg b (low16 (gr s b) (ucast v)) s))"
| "exec_instr pc (Testb v r) s = set_zf (gr s r AND ucast v) s"
| "exec_instr pc (Inb port) s = (set_reg EAX ((gr s EAX AND 0xFFFFFF00) OR ucast (x_in s 0)) s)\<lparr>x_in := \<lambda>k. x_in s (Suc k)\<rparr>"
| "exec_instr pc (Outb port) s = s\<lparr>x_out := x_out s @ [(port, gr s EAX AND 0xFF)]\<rparr>"
| "exec_instr pc Outw s = s\<lparr>x_out := x_out s @ [(unat (gr s EDX AND 0xFFFF), gr s EAX AND 0xFFFF)]\<rparr>"
| "exec_instr pc Cli s = s\<lparr>eflags := eflags s AND NOT FL_IF\<rparr>"
| "exec_instr pc (Lgdt x) s = lgdt_val x s"
| "exec_instr pc (Jmp a) s = s\<lparr>eip := a\<rparr>"
| "exec_instr pc (Jmp_ind x) s = s\<lparr>eip := fetch_val s x\<rparr>"
| "exec_instr pc (Jnz a) s = (if eflags s AND 0x40 = 0 then s\<lparr>eip := a\<rparr> else s)"
| "exec_instr pc (Ljmp sel a) s = (set_sreg CS sel s)\<lparr>eip := a\<rparr>"
| "exec_instr pc (Call a) s = (push (eip s) s)\<lparr>eip := a\<rparr>"
| "exec_instr pc (Call_ind x) s = (push (eip s) s)\<lparr>eip := fetch_val s x\<rparr>"
| "exec_instr pc Ret s = (drop_top s)\<lparr>eip := tos s\<rparr>"
| "exec_instr pc (Int_n i) s =
     (if desc_dpl (idt s i) < ucast (sr s CS AND 3) then interrupt 13 (Some (of_nat (8 * i + 2))) (s\<lparr>eip := pc\<rparr>)
      else interrupt i None s)"
| "exec_instr pc Iret s = iret s"

text \<open>Code gives for an address the instruction there and the address of the next one.\<close>

type_synonym code = "uint \<Rightarrow> (instr \<times> uint) option"

definition xstep :: "code \<Rightarrow> x86 \<Rightarrow> x86 option" where
  "xstep code s = (case code (eip s) of None \<Rightarrow> None | Some (i, n) \<Rightarrow> Some (exec_instr (eip s) i (s\<lparr>eip := n\<rparr>)))"

primrec xrun :: "code \<Rightarrow> nat \<Rightarrow> x86 \<Rightarrow> x86 option" where
  "xrun code 0 s = Some s"
| "xrun code (Suc k) s = (case xstep code s of None \<Rightarrow> None | Some t \<Rightarrow> xrun code k t)"

definition reaches :: "code \<Rightarrow> x86 \<Rightarrow> x86 \<Rightarrow> bool" where
  "reaches code s t \<longleftrightarrow> (\<exists>k. xrun code k s = Some t)"

fun placed :: "code \<Rightarrow> uint \<Rightarrow> instr list \<Rightarrow> uint \<Rightarrow> bool" where
  "placed code a [] b \<longleftrightarrow> a = b"
| "placed code a (i # is) b \<longleftrightarrow> (case code a of None \<Rightarrow> False | Some (j, n) \<Rightarrow> j = i \<and> placed code n is b)"

section \<open>The programs\<close>

definition swtch_code :: "instr list" where
  "swtch_code =
     [Movl (M (Some ESP) 4) (R EAX),
      Movl (M (Some ESP) 8) (R EDX),
      Pushl (R EBP),
      Pushl (R EBX),
      Pushl (R ESI),
      Pushl (R EDI),
      Movl (R ESP) (M (Some EAX) 0),
      Movl (R EDX) (R ESP),
      Popl (R EDI),
      Popl (R ESI),
      Popl (R EBX),
      Popl (R EBP),
      Ret]"

text \<open>A vector pushes a zero where the processor has pushed no error code; the processor pushes one for the exceptions \<open>cpu_errcodes\<close>.\<close>

definition cpu_errcodes :: "nat list" where
  "cpu_errcodes = [8, 10, 11, 12, 13, 14, 17]"

definition has_errcode :: "nat \<Rightarrow> bool" where
  "has_errcode i \<longleftrightarrow> i = 8 \<or> (10 \<le> i \<and> i \<le> 14) \<or> i = 17"

definition vector_code :: "uint \<Rightarrow> nat \<Rightarrow> instr list" where
  "vector_code alltraps i =
     (if has_errcode i then [] else [Pushl (Imm 0)]) @
     [Pushl (Imm (of_nat i)),
      Jmp alltraps]"

definition trapret_code :: "instr list" where
  "trapret_code =
     [Popal,
      Popl (S GS),
      Popl (S FS),
      Popl (S ES),
      Popl (S DS),
      Addl 8 ESP,
      Iret]"

definition alltraps_enter :: "uint \<Rightarrow> instr list" where
  "alltraps_enter ltrap =
     [Pushl (S DS),
      Pushl (S ES),
      Pushl (S FS),
      Pushl (S GS),
      Pushal,
      Movw (Imm (push_bit 3 (of_nat SEG_KDATA))) (R EAX),
      Movw (R EAX) (S DS),
      Movw (R EAX) (S ES),
      Pushl (R ESP),
      Call ltrap]"

definition alltraps_code :: "uint \<Rightarrow> instr list" where
  "alltraps_code ltrap =
     alltraps_enter ltrap @
     [Addl 4 ESP] @
     trapret_code"

definition stub_code :: "nat \<Rightarrow> instr list" where
  "stub_code num =
     [Movl (Imm (of_nat num)) (R EAX),
      Int_n (unat T_SYSCALL),
      Ret]"

text \<open>The stubs of \<^verbatim>\<open>usys.S\<close> with their numbers from \<^verbatim>\<open>kernel/syscall.h\<close>.\<close>

definition usys_stubs :: "(string \<times> nat) list" where
  "usys_stubs =
     [(''fork'', 1), (''exit'', 2), (''wait'', 3), (''pipe'', 4), (''read'', 5), (''write'', 16), (''close'', 21), (''kill'', 6), (''exec'', 7),
      (''open'', 15), (''mknod'', 17), (''unlink'', 18), (''fstat'', 8), (''link'', 19), (''mkdir'', 20), (''chdir'', 9), (''dup'', 10),
      (''getpid'', 11), (''sbrk'', 12), (''sleep'', 13), (''uptime'', 14), (''setecho'', 22), (''setkey'', 23), (''decr'', 24), (''encr'', 25)]"

section \<open>Straight code\<close>

lemma reaches_refl [simp]: "reaches code s s"
  unfolding reaches_def by (rule exI [of _ 0]) simp

lemma xrun_add: "xrun code (j + k) s = (case xrun code j s of None \<Rightarrow> None | Some t \<Rightarrow> xrun code k t)"
  by (induction j arbitrary: s) (auto split: option.split)

lemma reaches_trans: "reaches code s t \<Longrightarrow> reaches code t u \<Longrightarrow> reaches code s u"
proof -
  assume "reaches code s t" and "reaches code t u"
  then obtain j k where "xrun code j s = Some t" "xrun code k t = Some u" by (auto simp: reaches_def)
  then have "xrun code (j + k) s = Some u" by (simp add: xrun_add)
  then show ?thesis by (auto simp: reaches_def)
qed

lemma reaches_step: "code (eip s) = Some (i, n) \<Longrightarrow> reaches code s (exec_instr (eip s) i (s\<lparr>eip := n\<rparr>))"
  unfolding reaches_def by (rule exI [of _ 1]) (simp add: xstep_def)

lemma placed_Cons: "placed code a (i # is) b \<longleftrightarrow> (\<exists>n. code a = Some (i, n) \<and> placed code n is b)"
  by (cases "code a") auto

lemma placed_append: "placed code a (xs @ ys) b \<longleftrightarrow> (\<exists>c. placed code a xs c \<and> placed code c ys b)"
  by (induction xs arbitrary: a) (auto split: option.split)

lemma placed_last:
  assumes "placed code a is b" and "is = xs @ [i]"
  obtains c where "placed code a xs c" and "code c = Some (i, b)"
  using assms by (auto simp: placed_append split: option.splits)

definition straight :: "instr \<Rightarrow> bool" where
  "straight i = (case i of Jmp _ \<Rightarrow> False | Jmp_ind _ \<Rightarrow> False | Jnz _ \<Rightarrow> False | Ljmp _ _ \<Rightarrow> False | Call _ \<Rightarrow> False
     | Call_ind _ \<Rightarrow> False | Ret \<Rightarrow> False | Int_n _ \<Rightarrow> False | Iret \<Rightarrow> False | _ \<Rightarrow> True)"

lemmas x86_ops = set_reg_def set_sreg_def push_def tos_def drop_top_def set_zf_def Let_def

lemma ea_eip [simp]: "ea (s\<lparr>eip := n\<rparr>) b d = ea s b d"
  by (cases b) simp_all

lemma fetch_val_eip [simp]: "fetch_val (s\<lparr>eip := n\<rparr>) x = fetch_val s x"
  by (cases x) simp_all

lemma put_val_eip: "put_val x v (s\<lparr>eip := n\<rparr>) = (put_val x v s)\<lparr>eip := n\<rparr>"
  by (cases x) (simp_all add: x86_ops)

lemma put_val16_eip: "put_val16 x v (s\<lparr>eip := n\<rparr>) = (put_val16 x v s)\<lparr>eip := n\<rparr>"
  by (cases x) (simp_all add: x86_ops)

lemma exec_straight: "straight i \<Longrightarrow> exec_instr pc i (s\<lparr>eip := n\<rparr>) = (exec_instr 0 i s)\<lparr>eip := n\<rparr>"
proof (cases i)
  case (Lgdt x)
  then show ?thesis by (cases x) simp_all
next
  case (Popl x)
  have "drop_top (s\<lparr>eip := n\<rparr>) = (drop_top s)\<lparr>eip := n\<rparr>" "tos (s\<lparr>eip := n\<rparr>) = tos s" by (simp_all add: x86_ops)
  then show ?thesis using Popl by (simp add: put_val_eip)
qed (simp_all add: straight_def put_val_eip put_val16_eip x86_ops)

definition exec_list :: "instr list \<Rightarrow> x86 \<Rightarrow> x86" where
  "exec_list is s = foldl (\<lambda>s i. exec_instr 0 i s) s is"

lemma reaches_straight:
  "placed code (eip s) is b \<Longrightarrow> list_all straight is \<Longrightarrow> reaches code s ((exec_list is s)\<lparr>eip := b\<rparr>)"
proof (induction "is" arbitrary: s)
  case Nil
  then show ?case by (cases s) (simp add: exec_list_def)
next
  case (Cons i xs)
  then obtain n where n: "code (eip s) = Some (i, n)" "placed code n xs b" by (auto split: option.splits)
  let ?t = "(exec_instr 0 i s)\<lparr>eip := n\<rparr>"
  have "reaches code s ?t" using reaches_step [of code s, OF n(1)] exec_straight Cons.prems(2) by simp
  moreover have "reaches code ?t ((exec_list xs ?t)\<lparr>eip := b\<rparr>)" using Cons.IH [of ?t] n(2) Cons.prems(2) by simp
  moreover have "(exec_list xs (t\<lparr>eip := n\<rparr>))\<lparr>eip := b\<rparr> = (exec_list xs t)\<lparr>eip := b\<rparr>" if "list_all straight xs" for xs t
    using that by (induction xs arbitrary: t) (simp_all add: exec_list_def exec_straight)
  ultimately have "reaches code s ((exec_list xs (exec_instr 0 i s))\<lparr>eip := b\<rparr>)" using Cons.prems(2) by (auto intro: reaches_trans)
  then show ?case by (simp add: exec_list_def)
qed

section \<open>Memory\<close>

text \<open>The ranges of \<open>n\<close> bytes at \<open>a\<close> and of \<open>k\<close> bytes at \<open>b\<close> do not overlap, also when addresses wrap around.\<close>

definition sep :: "uint \<Rightarrow> nat \<Rightarrow> uint \<Rightarrow> nat \<Rightarrow> bool" where
  "sep a n b k \<longleftrightarrow> n \<le> unat (b - a) \<and> k \<le> unat (a - b)"

lemma sep_sym: "sep a n b k \<longleftrightarrow> sep b k a n"
  by (auto simp: sep_def)

lemma unat_uminus: "x \<noteq> 0 \<Longrightarrow> unat (- x) = 4294967296 - unat x" for x :: uint
  using unat_sub_if' [of 0 x] by (auto simp: unat_eq_0)

lemma sep_sub:
  assumes "sep a n b k" and "i + n' \<le> n" and "j + k' \<le> k" and "0 < n'" and "0 < k'"
  shows "sep (a + of_nat i) n' (b + of_nat j) k'"
proof -
  define d r where dr: "d = unat (b - a)" "r = unat (a - b)"
  have l: "n \<le> d" "k \<le> r" using assms(1) by (auto simp: sep_def dr)
  then have "b - a \<noteq> 0" using assms(2,4) by (auto simp: dr)
  then have sum: "d + r = 4294967296"
    using unat_lt_2p32 [of a] unat_lt_2p32 [of b] by (auto simp: dr unat_sub_if' word_le_nat_alt word_unat_eq_iff)
  have "b + of_nat j - (a + of_nat i) = (b - a) + of_nat j - of_nat i" "a + of_nat i - (b + of_nat j) = (a - b) + of_nat i - of_nat j"
    by (simp_all add: algebra_simps)
  moreover have "b - a = of_nat d" "a - b = of_nat r" by (simp_all add: dr)
  ultimately have "b + of_nat j - (a + of_nat i) = of_nat (d + j - i)" "a + of_nat i - (b + of_nat j) = of_nat (r + i - j)"
    using l assms(2-5) by (simp_all add: of_nat_diff)
  moreover have "unat (of_nat (d + j - i) :: uint) = d + j - i" "unat (of_nat (r + i - j) :: uint) = r + i - j"
    by (rule unat_of_nat_small, use l assms(2-5) sum in linarith)+
  ultimately show ?thesis using l assms(2,3) by (simp only: sep_def) linarith
qed

lemma sep_byte: "sep a n b k \<Longrightarrow> i < n \<Longrightarrow> j < k \<Longrightarrow> a + of_nat i \<noteq> b + of_nat j"
  using sep_sub [of a n b k i 1 j 1] by (auto simp: sep_def)

lemma load32_store32_sep:
  assumes "sep a 4 b 4"
  shows "load32 (store32 m a v) b = load32 m b"
proof (rule load32_cong)
  have *: "a + of_nat i \<noteq> b + of_nat j" if "i < 4" "j < 4" for i j by (rule sep_byte [OF assms that])
  have "store32 m a v (b + of_nat j) = m (b + of_nat j)" if "j < 4" for j
    by (rule store32_far) (use *[OF _ that] in metis)
  from this [of 0] this [of 1] this [of 2] this [of 3]
  show "store32 m a v b = m b" "store32 m a v (b + 1) = m (b + 1)" "store32 m a v (b + 2) = m (b + 2)" "store32 m a v (b + 3) = m (b + 3)"
    by simp_all
qed

lemma ucast_ushort [simp]: "ucast (ucast (x :: ushort) :: uint) = x"
  by (rule bit_word_eqI) (simp add: bit_simps)

lemma ucast_low16 [simp]: "ucast (low16 old v) = v"
proof (rule bit_word_eqI)
  fix n assume "n < LENGTH(16)"
  moreover have "(0xFFFF0000 :: uint) = push_bit 16 0xFFFF" by simp
  then have "\<not> bit (0xFFFF0000 :: uint) n" if "n < 16" using that by (simp only: bit_push_bit_iff) simp
  ultimately show "bit (ucast (low16 old v) :: ushort) n = bit v n" by (simp add: low16_def bit_simps)
qed

section \<open>The context switch\<close>

record kcontext =
  cx_edi :: uint
  cx_esi :: uint
  cx_ebx :: uint
  cx_ebp :: uint
  cx_eip :: uint

definition context_at :: "memory \<Rightarrow> uint \<Rightarrow> kcontext" where
  "context_at m c = \<lparr>cx_edi = load32 m c, cx_esi = load32 m (c + 4), cx_ebx = load32 m (c + 8), cx_ebp = load32 m (c + 12),
     cx_eip = load32 m (c + 16)\<rparr>"

text \<open>What a function must find unchanged when it goes on after a call that it is about to make, or that was made.\<close>

definition callee_saved :: "x86 \<Rightarrow> uint \<times> uint \<times> uint \<times> uint" where
  "callee_saved s = (gr s EDI, gr s ESI, gr s EBX, gr s EBP)"

definition swtch_mem :: "x86 \<Rightarrow> memory" where
  "swtch_mem s =
     (let sp = gr s ESP; m = store32 (xmem s) (sp - 4) (gr s EBP); m = store32 m (sp - 8) (gr s EBX); m = store32 m (sp - 12) (gr s ESI);
          m = store32 m (sp - 16) (gr s EDI) in store32 m (load32 (xmem s) (sp + 4)) (sp - 16))"

lemma swtch_exec:
  assumes "placed code (eip s) swtch_code b"
  defines "new \<equiv> load32 (xmem s) (gr s ESP + 8)"
  shows "\<exists>t. reaches code s t \<and> xmem t = swtch_mem s \<and> gr t ESP = new + 20 \<and> eip t = cx_eip (context_at (swtch_mem s) new) \<and>
    callee_saved t = (load32 (swtch_mem s) new, load32 (swtch_mem s) (new + 4), load32 (swtch_mem s) (new + 8), load32 (swtch_mem s) (new + 12))"
proof -
  obtain c where c: "placed code (eip s) (butlast swtch_code) c" "code c = Some (Ret, b)"
    by (rule placed_last [OF assms(1), of "butlast swtch_code" Ret]) (simp_all add: swtch_code_def)
  let ?t = "(exec_list (butlast swtch_code) s)\<lparr>eip := c\<rparr>"
  have r: "reaches code s ?t" by (rule reaches_straight [OF c(1)]) (simp add: swtch_code_def straight_def)
  have "reaches code ?t (exec_instr c Ret (?t\<lparr>eip := b\<rparr>))" using reaches_step [of code ?t Ret b] c(2) by simp
  with r have "reaches code s (exec_instr c Ret (?t\<lparr>eip := b\<rparr>))" by (rule reaches_trans)
  moreover have "xmem ?t = swtch_mem s" "gr ?t ESP = new + 16" "callee_saved ?t = (load32 (swtch_mem s) new, load32 (swtch_mem s) (new + 4), load32 (swtch_mem s) (new + 8), load32 (swtch_mem s) (new + 12))"
    by (simp_all add: exec_list_def swtch_code_def x86_ops swtch_mem_def new_def callee_saved_def diff_diff_eq add.assoc)
  ultimately show ?thesis
    by (intro exI [of _ "exec_instr c Ret (?t\<lparr>eip := b\<rparr>)"]) (simp add: drop_top_def tos_def context_at_def callee_saved_def add.assoc)
qed

text \<open>The arguments of a C function, on its entry.\<close>

definition carg :: "nat \<Rightarrow> x86 \<Rightarrow> uint" where
  "carg n s = load32 (xmem s) (gr s ESP + 4 + 4 * of_nat n)"

lemma carg_offsets: "carg 0 s = load32 (xmem s) (gr s ESP + 4)" "carg 1 s = load32 (xmem s) (gr s ESP + 8)"
  by (simp_all add: carg_def algebra_simps)

text \<open>The context that \<^verbatim>\<open>swtch\<close> saves, the pointer it sets and the context it loads do not overlap.\<close>

definition swtch_apart :: "x86 \<Rightarrow> bool" where
  "swtch_apart s \<longleftrightarrow> sep (gr s ESP - 16) 20 (carg 0 s) 4 \<and> sep (gr s ESP - 16) 16 (carg 1 s) 20 \<and> sep (carg 0 s) 4 (carg 1 s) 20"

lemma swtch_mem_other:
  assumes "sep (gr s ESP - 16) 16 x 4" and "sep (carg 0 s) 4 x 4"
  shows "load32 (swtch_mem s) x = load32 (xmem s) x"
proof -
  have "sep (gr s ESP - 16 + of_nat i) 4 x 4" if "i + 4 \<le> 16" for i using sep_sub [OF assms(1), of i 4 0 4] that by simp
  from this [of 12] this [of 8] this [of 4] this [of 0]
  have "sep (gr s ESP - 4) 4 x 4" "sep (gr s ESP - 8) 4 x 4" "sep (gr s ESP - 12) 4 x 4" "sep (gr s ESP - 16) 4 x 4" by (simp_all add: algebra_simps)
  then show ?thesis using assms(2) by (simp add: swtch_mem_def Let_def load32_store32_sep carg_def)
qed

lemma swtch_mem_saved:
  assumes "sep (gr s ESP - 16) 20 (carg 0 s) 4"
  shows "context_at (swtch_mem s) (gr s ESP - 16) =
    \<lparr>cx_edi = gr s EDI, cx_esi = gr s ESI, cx_ebx = gr s EBX, cx_ebp = gr s EBP, cx_eip = tos s\<rparr>"
    and "load32 (swtch_mem s) (carg 0 s) = gr s ESP - 16"
proof -
  have "sep (carg 0 s) 4 (gr s ESP - 16 + of_nat i) 4" if "i + 4 \<le> 20" for i using sep_sub [OF assms(1), of i 4 0 4] that by (simp add: sep_sym)
  from this [of 12] this [of 8] this [of 4] this [of 0] this [of 16]
  have o: "sep (carg 0 s) 4 (gr s ESP - 4) 4" "sep (carg 0 s) 4 (gr s ESP - 8) 4" "sep (carg 0 s) 4 (gr s ESP - 12) 4" "sep (carg 0 s) 4 (gr s ESP - 16) 4"
    "sep (carg 0 s) 4 (gr s ESP) 4"
    by (simp_all add: algebra_simps)
  have "sep (x - c) 4 (x - d) 4" if "4 \<le> unat (c - d)" "4 \<le> unat (d - c)" for x c d :: uint using that by (simp add: sep_def)
  note d = this [of 4 8 "gr s ESP"] this [of 4 12 "gr s ESP"] this [of 4 16 "gr s ESP"] this [of 8 12 "gr s ESP"] this [of 8 16 "gr s ESP"] this [of 12 16 "gr s ESP"]
    this [of 4 0 "gr s ESP"] this [of 8 0 "gr s ESP"] this [of 12 0 "gr s ESP"] this [of 16 0 "gr s ESP"]
  have a: "gr s ESP - 16 + 4 = gr s ESP - 12" "gr s ESP - 16 + 8 = gr s ESP - 8" "gr s ESP - 16 + 12 = gr s ESP - 4" "gr s ESP - 16 + 16 = gr s ESP" by simp_all
  show "context_at (swtch_mem s) (gr s ESP - 16) =
      \<lparr>cx_edi = gr s EDI, cx_esi = gr s ESI, cx_ebx = gr s EBX, cx_ebp = gr s EBP, cx_eip = tos s\<rparr>"
    using o d unfolding context_at_def a by (simp add: swtch_mem_def Let_def load32_store32_sep carg_def tos_def sep_sym)
  show "load32 (swtch_mem s) (carg 0 s) = gr s ESP - 16" by (simp add: swtch_mem_def Let_def carg_def)
qed

lemma context_at_cong:
  assumes "\<And>k. k < 20 \<Longrightarrow> m' (c + of_nat k) = m (c + of_nat k)"
  shows "context_at m' c = context_at m c"
proof -
  have "load32 m' (c + of_nat i) = load32 m (c + of_nat i)" if "i + 4 \<le> 20" for i
    using assms [of i] assms [of "i + 1"] assms [of "i + 2"] assms [of "i + 3"] that by (intro load32_cong) (simp_all add: ac_simps)
  from this [of 0] this [of 4] this [of 8] this [of 12] this [of 16] show ?thesis by (simp add: context_at_def)
qed

lemma swtch_run:
  assumes "placed code (eip s) swtch_code b" and "swtch_apart s"
  shows "\<exists>t. reaches code s t \<and> xmem t = swtch_mem s \<and> gr t ESP = carg 1 s + 20 \<and> eip t = cx_eip (context_at (xmem s) (carg 1 s)) \<and>
    callee_saved t = (let c = context_at (xmem s) (carg 1 s) in (cx_edi c, cx_esi c, cx_ebx c, cx_ebp c)) \<and>
    load32 (xmem t) (carg 0 s) = gr s ESP - 16 \<and>
    context_at (xmem t) (gr s ESP - 16) = \<lparr>cx_edi = gr s EDI, cx_esi = gr s ESI, cx_ebx = gr s EBX, cx_ebp = gr s EBP, cx_eip = tos s\<rparr>"
proof -
  have sp: "gr s ESP + 8 = gr s ESP + 4 + 4 * of_nat 1" by simp
  have "sep (gr s ESP - 16) 16 (carg 1 s + of_nat i) 4" "sep (carg 0 s) 4 (carg 1 s + of_nat i) 4" if "i + 4 \<le> 20" for i
    using sep_sub [of "gr s ESP - 16" 16 "carg 1 s" 20 0 16 i 4] sep_sub [of "carg 0 s" 4 "carg 1 s" 20 0 4 i 4] that assms(2)
    by (simp_all add: swtch_apart_def)
  then have "load32 (swtch_mem s) (carg 1 s + of_nat i) = load32 (xmem s) (carg 1 s + of_nat i)" if "i + 4 \<le> 20" for i
    using that by (intro swtch_mem_other)
  from this [of 0] this [of 4] this [of 8] this [of 12] this [of 16]
  have n: "load32 (swtch_mem s) (carg 1 s) = load32 (xmem s) (carg 1 s)" "load32 (swtch_mem s) (carg 1 s + 4) = load32 (xmem s) (carg 1 s + 4)"
    "load32 (swtch_mem s) (carg 1 s + 8) = load32 (xmem s) (carg 1 s + 8)" "load32 (swtch_mem s) (carg 1 s + 12) = load32 (xmem s) (carg 1 s + 12)"
    "load32 (swtch_mem s) (carg 1 s + 16) = load32 (xmem s) (carg 1 s + 16)"
    by simp_all
  have sv: "sep (gr s ESP - 16) 20 (carg 0 s) 4" using assms(2) by (simp add: swtch_apart_def)
  from swtch_exec [OF assms(1)] obtain t where t: "reaches code s t" "xmem t = swtch_mem s" "gr t ESP = carg 1 s + 20"
    "eip t = cx_eip (context_at (swtch_mem s) (carg 1 s))"
    "callee_saved t = (load32 (swtch_mem s) (carg 1 s), load32 (swtch_mem s) (carg 1 s + 4), load32 (swtch_mem s) (carg 1 s + 8), load32 (swtch_mem s) (carg 1 s + 12))"
    unfolding carg_def sp by auto
  show ?thesis
    using t(1,3-5) swtch_mem_saved [OF sv] unfolding n by (intro exI [of _ t]) (simp add: t(2) context_at_def n del: One_nat_def)
qed

text \<open>
  (C14) The context switch. \<^verbatim>\<open>swtch(&old, new)\<close> goes on where its second argument was saved, on its stack and with its
  registers, and a process that called \<^verbatim>\<open>swtch\<close> resumes after its call, with its registers and its stack pointer as they
  were, when the context that was saved for it is switched to later, by any call on any stack that has left the saved context alone.
\<close>

theorem swtch_round_trip:
  assumes "placed code (eip s) swtch_code b" and "swtch_apart s"
  shows "\<exists>t. reaches code s t \<and> load32 (xmem t) (carg 0 s) = gr s ESP - 16 \<and> gr t ESP = carg 1 s + 20 \<and>
    eip t = cx_eip (context_at (xmem s) (carg 1 s)) \<and>
    callee_saved t = (let c = context_at (xmem s) (carg 1 s) in (cx_edi c, cx_esi c, cx_ebx c, cx_ebp c)) \<and>
    (\<forall>u. eip u = eip s \<and> carg 1 u = load32 (xmem t) (carg 0 s) \<and> swtch_apart u \<and>
       (\<forall>k < 20. xmem u (gr s ESP - 16 + of_nat k) = xmem t (gr s ESP - 16 + of_nat k)) \<longrightarrow>
       (\<exists>v. reaches code u v \<and> callee_saved v = callee_saved s \<and> gr v ESP = gr s ESP + 4 \<and> eip v = tos s))"
proof -
  obtain t where t: "reaches code s t" "gr t ESP = carg 1 s + 20" "eip t = cx_eip (context_at (xmem s) (carg 1 s))"
    "callee_saved t = (let c = context_at (xmem s) (carg 1 s) in (cx_edi c, cx_esi c, cx_ebx c, cx_ebp c))"
    "load32 (xmem t) (carg 0 s) = gr s ESP - 16"
    "context_at (xmem t) (gr s ESP - 16) = \<lparr>cx_edi = gr s EDI, cx_esi = gr s ESI, cx_ebx = gr s EBX, cx_ebp = gr s EBP, cx_eip = tos s\<rparr>"
    using swtch_run [OF assms] by blast
  have "\<exists>v. reaches code u v \<and> callee_saved v = callee_saved s \<and> gr v ESP = gr s ESP + 4 \<and> eip v = tos s"
    if u: "eip u = eip s" "carg 1 u = load32 (xmem t) (carg 0 s)" "swtch_apart u"
      "\<forall>k < 20. xmem u (gr s ESP - 16 + of_nat k) = xmem t (gr s ESP - 16 + of_nat k)" for u
  proof -
    have "placed code (eip u) swtch_code b" using assms(1) u(1) by simp
    moreover have "context_at (xmem u) (carg 1 u) = context_at (xmem t) (gr s ESP - 16)"
      using context_at_cong [of "xmem u" "gr s ESP - 16" "xmem t"] u(2,4) t(5) by simp
    ultimately obtain v where "reaches code u v" "gr v ESP = gr s ESP - 16 + 20" "eip v = tos s" "callee_saved v = callee_saved s"
      using swtch_run [of code u b] u(2,3) t(5,6) by (auto simp: callee_saved_def)
    then show ?thesis by (intro exI [of _ v]) simp
  qed
  then show ?thesis using t(1-5) by blast
qed

section \<open>Into the kernel and back\<close>

definition pushes :: "x86 \<Rightarrow> uint list \<Rightarrow> x86" where
  "pushes s vs = foldl (\<lambda>t v. push v t) s vs"

lemma pushes_esp: "gr (pushes s vs) = (gr s)(ESP := gr s ESP - 4 * of_nat (length vs))"
  by (induction vs rule: rev_induct) (auto simp: pushes_def push_def algebra_simps fun_eq_iff)

lemma pushes_mem:
  assumes "4 * length vs + 4 \<le> 2 ^ 32"
  shows "k < length vs \<Longrightarrow> load32 (xmem (pushes s vs)) (gr s ESP - 4 * of_nat (Suc k)) = vs ! k"
    and "sep (gr s ESP - 4 * of_nat (length vs)) (4 * length vs) x 4 \<Longrightarrow> load32 (xmem (pushes s vs)) x = load32 (xmem s) x"
  using assms
proof (induction vs arbitrary: k x rule: rev_induct)
  case (snoc v vs)
  let ?a = "gr s ESP - 4 * of_nat (Suc (length vs))"
  have m: "xmem (pushes s (vs @ [v])) = store32 (xmem (pushes s vs)) ?a v"
    using pushes_esp [of s vs] by (simp add: pushes_def push_def algebra_simps)
  {
    case 1
    show ?case
    proof (cases "k = length vs")
      case False
      then have k: "k < length vs" using 1(1) by simp
      define w :: uint where "w = of_nat (4 * (length vs - k))"
      have w: "unat w = 4 * (length vs - k)" unfolding w_def using k 1(2) by (intro unat_of_nat_small) simp
      then have "w \<noteq> 0" using k by auto
      then have "unat (- w) = 4294967296 - 4 * (length vs - k)" by (simp add: unat_uminus w)
      moreover have "gr s ESP - 4 * of_nat (Suc k) - ?a = w" "?a - (gr s ESP - 4 * of_nat (Suc k)) = - w"
        using k by (simp_all add: w_def of_nat_diff algebra_simps)
      moreover have "4 \<le> 4 * (length vs - k)" "4 * (length vs - k) + 4 \<le> 4294967296" using k 1(2) by simp_all
      ultimately have "sep ?a 4 (gr s ESP - 4 * of_nat (Suc k)) 4" using w by (simp only: sep_def) auto
      then show ?thesis using snoc.IH(1) [OF k] 1(2) k unfolding m by (simp add: load32_store32_sep nth_append)
    qed (simp add: m)
  next
    case 2
    have "sep ?a 4 x 4" using sep_sub [OF 2(1), of 0 4 0 4] by simp
    moreover have "sep (?a + of_nat 4) (4 * length vs) x 4" if "vs \<noteq> []" using sep_sub [OF 2(1), of 4 "4 * length vs" 0 4] that by simp
    then have "sep (gr s ESP - 4 * of_nat (length vs)) (4 * length vs) x 4" if "vs \<noteq> []" using that by (simp add: algebra_simps)
    then have "load32 (xmem (pushes s vs)) x = load32 (xmem s) x" using snoc.IH(2) [of x] 2(2) by (cases vs) (auto simp: pushes_def)
    ultimately show ?case unfolding m by (simp add: load32_store32_sep)
  }
qed (simp_all add: pushes_def)

text \<open>The trap frame at \<open>a\<close>, as registers; \<open>user_context\<close> is what a process can see of the processor.\<close>

definition frame_regs :: "memory \<Rightarrow> uint \<Rightarrow> reg \<Rightarrow> uint" where
  "frame_regs m a r = load32 m (a + (case r of EDI \<Rightarrow> 0 | ESI \<Rightarrow> 4 | EBP \<Rightarrow> 8 | EBX \<Rightarrow> 16 | EDX \<Rightarrow> 20 | ECX \<Rightarrow> 24 | EAX \<Rightarrow> 28 | ESP \<Rightarrow> 68))"

definition frame_sregs :: "memory \<Rightarrow> uint \<Rightarrow> sreg \<Rightarrow> ushort" where
  "frame_sregs m a r = ucast (load32 m (a + (case r of GS \<Rightarrow> 32 | FS \<Rightarrow> 36 | ES \<Rightarrow> 40 | DS \<Rightarrow> 44 | CS \<Rightarrow> 60 | SS \<Rightarrow> 72)))"

definition frame_at :: "memory \<Rightarrow> uint \<Rightarrow> (reg \<Rightarrow> uint) \<times> (sreg \<Rightarrow> ushort) \<times> uint \<times> uint" where
  "frame_at m a = (frame_regs m a, frame_sregs m a, load32 m (a + 56), load32 m (a + 64))"

definition frame_trapno :: "memory \<Rightarrow> uint \<Rightarrow> uint" where
  "frame_trapno m a = load32 m (a + 48)"

definition user_context :: "x86 \<Rightarrow> (reg \<Rightarrow> uint) \<times> (sreg \<Rightarrow> ushort) \<times> uint \<times> uint" where
  "user_context s = (gr s, sr s, eip s, eflags s)"

text \<open>The same frame as \<^verbatim>\<open>trap\<close> in C sees it.\<close>

definition tf_at :: "memory \<Rightarrow> uint \<Rightarrow> trapframe" where
  "tf_at m a = \<lparr>tf_eax = load32 m (a + 28), tf_ds = ucast (load32 m (a + 44)), tf_es = ucast (load32 m (a + 40)), tf_trapno = load32 m (a + 48),
     tf_err = load32 m (a + 52), tf_eip = load32 m (a + 56), tf_cs = ucast (load32 m (a + 60)), tf_eflags = load32 m (a + 64),
     tf_esp = load32 m (a + 68), tf_ss = ucast (load32 m (a + 72))\<rparr>"

text \<open>The registers in the frame that \<^verbatim>\<open>trap\<close> in C never names.\<close>

definition frame_rest :: "memory \<Rightarrow> uint \<Rightarrow> uint list" where
  "frame_rest m a = map (\<lambda>d. load32 m (a + d)) [0, 4, 8, 16, 20, 24, 32, 36]"

lemma frame_at_tf:
  assumes "tf_at m' a = (tf_at m a)\<lparr>tf_eax := r\<rparr>" and "frame_rest m' a = frame_rest m a"
  shows "frame_at m' a = (let (g, s, i, f) = frame_at m a in (g(EAX := r), s, i, f))"
proof -
  have "frame_regs m' a x = ((frame_regs m a)(EAX := r)) x" for x using assms by (cases x) (simp_all add: tf_at_def frame_rest_def frame_regs_def)
  moreover have "frame_sregs m' a x = frame_sregs m a x" for x using assms by (cases x) (simp_all add: tf_at_def frame_rest_def frame_sregs_def)
  ultimately show ?thesis using assms by (simp add: frame_at_def fun_eq_iff tf_at_def)
qed

text \<open>The words on the kernel stack at the entry of \<^verbatim>\<open>trap\<close>.\<close>

definition trap_words :: "nat \<Rightarrow> uint option \<Rightarrow> uint \<Rightarrow> x86 \<Rightarrow> uint list" where
  "trap_words i err ret s =
     [ucast (sr s SS), gr s ESP, eflags s, ucast (sr s CS), eip s, case err of None \<Rightarrow> 0 | Some e \<Rightarrow> e, of_nat i,
      ucast (sr s DS), ucast (sr s ES), ucast (sr s FS), ucast (sr s GS),
      gr s EAX, gr s ECX, gr s EDX, gr s EBX, ts_esp0 s - 44, gr s EBP, gr s ESI, gr s EDI, ts_esp0 s - 76, ret]"

lemma trap_words_frame:
  assumes "t = pushes (set_reg ESP (ts_esp0 s) s) (trap_words i err ret s)"
  shows "frame_at (xmem t) (ts_esp0 s - 76) = user_context s" and "frame_trapno (xmem t) (ts_esp0 s - 76) = of_nat i"
    and "gr t ESP = ts_esp0 s - 84" and "load32 (xmem t) (ts_esp0 s - 80) = ts_esp0 s - 76" and "load32 (xmem t) (ts_esp0 s - 84) = ret"
proof -
  have l: "load32 (xmem t) (ts_esp0 s - 4 * of_nat (Suc k)) = trap_words i err ret s ! k" if "k < 21" for k
    using pushes_mem(1) [of "trap_words i err ret s" k "set_reg ESP (ts_esp0 s) s"] that by (simp add: assms trap_words_def set_reg_def)
  note w = l [of 0] l [of 1] l [of 2] l [of 3] l [of 4] l [of 5] l [of 6] l [of 7] l [of 8] l [of 9] l [of 10]
    l [of 11] l [of 12] l [of 13] l [of 14] l [of 15] l [of 16] l [of 17] l [of 18] l [of 19] l [of 20]
  have "frame_regs (xmem t) (ts_esp0 s - 76) r = gr s r" for r using w by (cases r) (simp_all add: frame_regs_def trap_words_def)
  moreover have "frame_sregs (xmem t) (ts_esp0 s - 76) r = sr s r" for r using w by (cases r) (simp_all add: frame_sregs_def trap_words_def)
  ultimately show "frame_at (xmem t) (ts_esp0 s - 76) = user_context s"
    using w by (simp add: frame_at_def user_context_def fun_eq_iff trap_words_def)
  show "frame_trapno (xmem t) (ts_esp0 s - 76) = of_nat i" "load32 (xmem t) (ts_esp0 s - 80) = ts_esp0 s - 76" "load32 (xmem t) (ts_esp0 s - 84) = ret"
    using w by (simp_all add: frame_trapno_def trap_words_def)
  show "gr t ESP = ts_esp0 s - 84" by (simp add: assms pushes_esp trap_words_def set_reg_def)
qed

text \<open>From the interrupt to the entry of \<^verbatim>\<open>trap\<close>.\<close>

lemma interrupt_user:
  assumes "sr s CS AND 3 = 3" and "i < 256" and "idt s = tvinit vectors"
  shows "interrupt i err s =
    (pushes (set_reg ESP (ts_esp0 s) s) (take 5 (trap_words i err ret s) @ (case err of None \<Rightarrow> [] | Some e \<Rightarrow> [e])))
      \<lparr>sr := (sr s)(SS := ts_ss0 s, CS := 8), eip := vectors i,
       eflags := eflags s AND NOT (if i = 64 then 0x34100 else 0x34300)\<rparr>"
proof -
  have g: "gate_sel (idt s i) = 8" "gate_off (idt s i) = vectors i" "seg_type (idt s i) = STS_IG32 \<longleftrightarrow> i \<noteq> 64"
    unfolding assms(3) tvinit_gate [OF assms(2)] SETGATE_fields [OF gate_dpl] by (simp_all add: SEG_KCODE_def STS_TG32_def STS_IG32_def)
  show ?thesis unfolding interrupt_def Let_def g using assms(1)
    by (cases err) (simp_all add: pushes_def trap_words_def x86_ops)
qed

lemma errcodes: "has_errcode i \<longleftrightarrow> i \<in> set cpu_errcodes"
  by (auto simp: has_errcode_def cpu_errcodes_def)

lemma trap_enter:
  assumes "sr s CS AND 3 = 3" and "i < 256" and "idt s = tvinit vectors" and "err = None \<longleftrightarrow> i \<notin> set cpu_errcodes"
    and "placed code (vectors i) (vector_code alltraps i) b" and "placed code alltraps (alltraps_enter ltrap) ret"
  shows "\<exists>t. reaches code (interrupt i err s) t \<and> eip t = ltrap \<and> xmem t = xmem (pushes (set_reg ESP (ts_esp0 s) s) (trap_words i err ret s)) \<and>
    gr t ESP = ts_esp0 s - 84 \<and> sr t = (sr s)(SS := ts_ss0 s, CS := 8, DS := 16, ES := 16)"
proof -
  let ?s = "interrupt i err s"
  let ?v = "butlast (vector_code alltraps i)" and ?a = "butlast (alltraps_enter ltrap)"
  obtain c where c: "placed code (vectors i) ?v c" "code c = Some (Jmp alltraps, b)"
    by (rule placed_last [OF assms(5), of ?v "Jmp alltraps"]) (simp_all add: vector_code_def)
  obtain d where d: "placed code alltraps ?a d" "code d = Some (Call ltrap, ret)"
    by (rule placed_last [OF assms(6), of ?a "Call ltrap"]) (simp_all add: alltraps_enter_def)
  define t1 where "t1 = (exec_list ?v ?s)\<lparr>eip := alltraps\<rparr>"
  have si: "?s = (pushes (set_reg ESP (ts_esp0 s) s) (take 5 (trap_words i err ret s) @ (case err of None \<Rightarrow> [] | Some e \<Rightarrow> [e])))
      \<lparr>sr := (sr s)(SS := ts_ss0 s, CS := 8), eip := vectors i, eflags := eflags s AND NOT (if i = 64 then 0x34100 else 0x34300)\<rparr>"
    by (rule interrupt_user [OF assms(1-3)])
  have "reaches code ?s ((exec_list ?v ?s)\<lparr>eip := c\<rparr>)"
    by (rule reaches_straight) (use c(1) si in \<open>simp_all add: vector_code_def straight_def\<close>)
  moreover have "reaches code ((exec_list ?v ?s)\<lparr>eip := c\<rparr>) t1"
    using reaches_step [of code "(exec_list ?v ?s)\<lparr>eip := c\<rparr>" "Jmp alltraps" b] c(2) by (simp add: t1_def)
  ultimately have 1: "reaches code ?s t1" by (rule reaches_trans)
  have t1: "xmem t1 = xmem (pushes (set_reg ESP (ts_esp0 s) s) (take 7 (trap_words i err ret s)))" "gr t1 = (gr s)(ESP := ts_esp0 s - 28)"
    "sr t1 = (sr s)(SS := ts_ss0 s, CS := 8)" "eip t1 = alltraps"
    unfolding t1_def si using assms(4) unfolding errcodes [symmetric]
    by (cases err; simp add: vector_code_def exec_list_def trap_words_def x86_ops pushes_def diff_diff_eq)+
  define t2 where "t2 = (exec_list ?a t1)\<lparr>eip := d\<rparr>"
  have "reaches code t1 t2" unfolding t2_def
    by (rule reaches_straight) (use d(1) t1(4) in \<open>simp_all add: alltraps_enter_def straight_def\<close>)
  moreover have "reaches code t2 (exec_instr d (Call ltrap) (t2\<lparr>eip := ret\<rparr>))"
    using reaches_step [of code t2 "Call ltrap" ret] d(2) by (simp add: t2_def)
  ultimately have 2: "reaches code t1 (exec_instr d (Call ltrap) (t2\<lparr>eip := ret\<rparr>))" by (rule reaches_trans)
  have "xmem t2 = xmem (pushes (set_reg ESP (ts_esp0 s) s) (take 20 (trap_words i err ret s)))" "gr t2 ESP = ts_esp0 s - 80"
    "sr t2 = (sr s)(SS := ts_ss0 s, CS := 8, DS := 16, ES := 16)"
    unfolding t2_def by (simp_all add: t1 alltraps_enter_def exec_list_def trap_words_def x86_ops pushes_def diff_diff_eq SEG_KDATA_def)
  then show ?thesis using reaches_trans [OF 1 2]
    by (intro exI [of _ "exec_instr d (Call ltrap) (t2\<lparr>eip := ret\<rparr>)"]) (simp add: push_def pushes_def trap_words_def x86_ops diff_diff_eq)
qed

text \<open>And from where \<^verbatim>\<open>trap\<close> returns back to the process.\<close>

lemma trapret_run:
  assumes "placed code (eip t) trapret_code b" and "gr t ESP = a" and "frame_sregs (xmem t) a CS AND 3 = 3" and "sr t CS AND 3 = 0"
  shows "\<exists>u. reaches code t u \<and> user_context u = frame_at (xmem t) a \<and> xmem u = xmem t"
proof -
  let ?is = "butlast trapret_code"
  obtain c where c: "placed code (eip t) ?is c" "code c = Some (Iret, b)"
    by (rule placed_last [OF assms(1), of ?is Iret]) (simp_all add: trapret_code_def)
  define t1 where "t1 = (exec_list ?is t)\<lparr>eip := c\<rparr>"
  have "reaches code t t1" unfolding t1_def by (rule reaches_straight [OF c(1)]) (simp add: trapret_code_def straight_def)
  moreover have "reaches code t1 (iret (t1\<lparr>eip := b\<rparr>))" using reaches_step [of code t1 Iret b] c(2) by (simp add: t1_def)
  ultimately have r: "reaches code t (iret (t1\<lparr>eip := b\<rparr>))" by (rule reaches_trans)
  have t1: "xmem t1 = xmem t" "gr t1 = (\<lambda>r. if r = ESP then a + 56 else frame_regs (xmem t) a r)"
    "sr t1 = (\<lambda>r. if r = CS then sr t CS else if r = SS then sr t SS else frame_sregs (xmem t) a r)"
    unfolding t1_def by (auto simp: exec_list_def trapret_code_def x86_ops assms(2) add.assoc frame_regs_def frame_sregs_def fun_eq_iff split: reg.split sreg.split)
  have cs: "ucast (load32 (xmem t) (a + 60)) AND 3 = (3 :: ushort)" using assms(3) by (simp add: frame_sregs_def)
  have "user_context (iret (t1\<lparr>eip := b\<rparr>)) = frame_at (xmem t) a"
    using cs assms(4) by (auto simp: user_context_def frame_at_def iret_def x86_ops t1 add.assoc frame_regs_def frame_sregs_def fun_eq_iff)
  moreover have "xmem (iret (t1\<lparr>eip := b\<rparr>)) = xmem t" by (simp add: iret_def x86_ops t1)
  ultimately show ?thesis using r by blast
qed

lemma trap_leave:
  assumes "placed code (eip t) ([Addl 4 ESP] @ trapret_code) b" and "gr t ESP = a - 4"
    and "frame_sregs (xmem t) a CS AND 3 = 3" and "sr t CS AND 3 = 0"
  shows "\<exists>u. reaches code t u \<and> user_context u = frame_at (xmem t) a \<and> xmem u = xmem t"
proof -
  obtain n where n: "code (eip t) = Some (Addl 4 ESP, n)" "placed code n trapret_code b" using assms(1) by (auto simp: placed_Cons simp del: placed.simps(2))
  let ?t = "exec_instr (eip t) (Addl 4 ESP) (t\<lparr>eip := n\<rparr>)"
  have "xmem ?t = xmem t" by (simp add: x86_ops)
  moreover have "\<exists>u. reaches code ?t u \<and> user_context u = frame_at (xmem ?t) a \<and> xmem u = xmem ?t"
    by (rule trapret_run) (use n(2) assms(2-4) in \<open>simp_all add: x86_ops\<close>)
  ultimately show ?thesis using reaches_trans [OF reaches_step [of code t, OF n(1)]] by auto
qed

text \<open>
  (C2) Into the kernel and back, for every interrupt, exception or system call \<open>i\<close> of a process in user space. The gates of
  \<^verbatim>\<open>tvinit\<close>, the vectors of \<^verbatim>\<open>vectors.pl\<close> and \<^verbatim>\<open>alltraps\<close> call \<^verbatim>\<open>trap\<close> with a
  pointer to a trap frame that holds every register of the process and the number \<open>i\<close>, with or without an error code of the
  processor, and with the kernel's data segments. Whatever \<^verbatim>\<open>trap\<close> does, once it returns the process goes on with exactly the
  registers that the frame has then.
\<close>

theorem trap_round_trip:
  assumes "sr s CS AND 3 = 3" and "i < 256" and "idt s = tvinit vectors" and "err = None \<longleftrightarrow> i \<notin> set cpu_errcodes"
    and "placed code (vectors i) (vector_code alltraps i) b" and "placed code alltraps (alltraps_code ltrap) b'"
  shows "\<exists>t. reaches code (interrupt i err s) t \<and> eip t = ltrap \<and> carg 0 t = ts_esp0 s - 76 \<and>
    frame_at (xmem t) (ts_esp0 s - 76) = user_context s \<and> frame_trapno (xmem t) (ts_esp0 s - 76) = of_nat i \<and>
    sr t DS = push_bit 3 (of_nat SEG_KDATA) \<and> sr t ES = push_bit 3 (of_nat SEG_KDATA) \<and>
    (\<forall>t'. eip t' = tos t \<and> gr t' ESP = gr t ESP + 4 \<and> sr t' CS = sr t CS \<and> frame_sregs (xmem t') (ts_esp0 s - 76) CS AND 3 = 3 \<longrightarrow>
       (\<exists>u. reaches code t' u \<and> user_context u = frame_at (xmem t') (ts_esp0 s - 76)))"
proof -
  obtain ret where ret: "placed code alltraps (alltraps_enter ltrap) ret" "placed code ret ([Addl 4 ESP] @ trapret_code) b'"
    using assms(6) by (auto simp: alltraps_code_def placed_append)
  obtain t where t: "reaches code (interrupt i err s) t" "eip t = ltrap" "xmem t = xmem (pushes (set_reg ESP (ts_esp0 s) s) (trap_words i err ret s))"
    "gr t ESP = ts_esp0 s - 84" "sr t = (sr s)(SS := ts_ss0 s, CS := 8, DS := 16, ES := 16)"
    using trap_enter [OF assms(1-5) ret(1)] by blast
  note w = trap_words_frame [OF refl, where i = i and err = err and ret = ret and s = s, folded t(3)]
  have "\<exists>u. reaches code t' u \<and> user_context u = frame_at (xmem t') (ts_esp0 s - 76)"
    if "eip t' = tos t" "gr t' ESP = gr t ESP + 4" "sr t' CS = sr t CS" "frame_sregs (xmem t') (ts_esp0 s - 76) CS AND 3 = 3" for t'
    using trap_leave [of code t' b' "ts_esp0 s - 76"] ret(2) that w(5) t(4,5) by (auto simp: tos_def)
  then show ?thesis using t(1,2) w(1,2,4) by (intro exI [of _ t]) (auto simp: t(4,5) carg_offsets SEG_KDATA_def)
qed

section \<open>System calls\<close>

text \<open>The stub up to the entry of \<^verbatim>\<open>trap\<close>: the state of the process at its \<^verbatim>\<open>int\<close> is \<open>stub_state\<close>.\<close>

definition stub_state :: "nat \<Rightarrow> uint \<Rightarrow> x86 \<Rightarrow> x86" where
  "stub_state num next s = set_reg EAX (of_nat num) (s\<lparr>eip := next\<rparr>)"

lemma stub_state_simps [simp]:
  "(stub_state num n s)\<lparr>eip := c\<rparr> = stub_state num c s" "eip (stub_state num n s) = n" "sr (stub_state num n s) = sr s"
  "idt (stub_state num n s) = idt s" "ts_esp0 (stub_state num n s) = ts_esp0 s" "xmem (stub_state num n s) = xmem s"
  by (cases s; simp add: stub_state_def set_reg_def)+

lemma stub_enter:
  assumes "sr s CS AND 3 = 3" and "idt s = tvinit vectors" and "placed code (eip s) (stub_code num) b"
  obtains c where "code c = Some (Ret, b)" and "reaches code s (interrupt 64 None (stub_state num c s))"
proof -
  obtain n c where n: "code (eip s) = Some (Movl (Imm (of_nat num)) (R EAX), n)" "code n = Some (Int_n 64, c)" and c: "code c = Some (Ret, b)"
    using assms(3) unfolding stub_code_def placed_Cons by (auto simp: T_SYSCALL_def)
  let ?s = "stub_state num n s"
  have 1: "reaches code s ?s" using reaches_step [of code s, OF n(1)] by (simp add: stub_state_def set_reg_def)
  have "desc_dpl (idt s 64) = 3" unfolding assms(2) tvinit_gate [of 64, simplified] by (simp add: SETGATE_fields DPL_USER_def)
  then have "exec_instr n (Int_n 64) (?s\<lparr>eip := c\<rparr>) = interrupt 64 None (stub_state num c s)"
    using assms(1) by simp
  then have "reaches code ?s (interrupt 64 None (stub_state num c s))"
    using reaches_step [of code ?s "Int_n 64" c] n(2) by (simp del: exec_instr.simps)
  with 1 have "reaches code s (interrupt 64 None (stub_state num c s))" by (rule reaches_trans)
  with c show ?thesis by (rule that)
qed

lemma stub_run:
  assumes "sr s CS AND 3 = 3" and "idt s = tvinit vectors" and "placed code (eip s) (stub_code num) b0"
    and "placed code (vectors 64) (vector_code alltraps 64) b" and "placed code alltraps (alltraps_code ltrap) b'"
  defines "tf \<equiv> ts_esp0 s - 76"
  shows "\<exists>t c. reaches code s t \<and> eip t = ltrap \<and> carg 0 t = tf \<and> frame_trapno (xmem t) tf = T_SYSCALL \<and>
    frame_at (xmem t) tf = user_context (stub_state num c s) \<and>
    (\<forall>x. sep (ts_esp0 s - 84) 84 x 4 \<longrightarrow> load32 (xmem t) x = load32 (xmem s) x) \<and>
    (\<forall>t' r. eip t' = tos t \<and> gr t' ESP = gr t ESP + 4 \<and> sr t' CS = sr t CS \<and> load32 (xmem t') (gr s ESP) = tos s \<and>
       frame_at (xmem t') tf = user_context ((stub_state num c s)\<lparr>gr := (gr s)(EAX := r)\<rparr>) \<longrightarrow>
       (\<exists>u. reaches code t' u \<and> eip u = tos s \<and> gr u = (gr s)(EAX := r, ESP := gr s ESP + 4) \<and> sr u = sr s \<and> xmem u = xmem t'))"
proof -
  obtain c where c: "code c = Some (Ret, b0)" "reaches code s (interrupt 64 None (stub_state num c s))"
    using stub_enter [OF assms(1-3)] by blast
  let ?s = "stub_state num c s"
  obtain ret where ret: "placed code alltraps (alltraps_enter ltrap) ret" "placed code ret ([Addl 4 ESP] @ trapret_code) b'"
    using assms(5) by (auto simp: alltraps_code_def placed_append)
  obtain t where t: "reaches code (interrupt 64 None ?s) t" "eip t = ltrap" "xmem t = xmem (pushes (set_reg ESP (ts_esp0 ?s) ?s) (trap_words 64 None ret ?s))"
    "gr t ESP = ts_esp0 s - 84" "sr t = (sr s)(SS := ts_ss0 ?s, CS := 8, DS := 16, ES := 16)"
    using trap_enter [of ?s 64 vectors None code alltraps b ltrap ret] assms(1,2,4) ret(1) by (auto simp: cpu_errcodes_def)
  note w = trap_words_frame [OF refl, where i = 64 and err = None and ret = ret and s = ?s, folded t(3), unfolded stub_state_simps tf_def [symmetric]]
  have other: "load32 (xmem t) x = load32 (xmem s) x" if "sep (ts_esp0 s - 84) 84 x 4" for x
    using pushes_mem(2) [of "trap_words 64 None ret ?s" "set_reg ESP (ts_esp0 ?s) ?s" x] that by (simp add: t(3) trap_words_def set_reg_def)
  have "\<exists>u. reaches code t' u \<and> eip u = tos s \<and> gr u = (gr s)(EAX := r, ESP := gr s ESP + 4) \<and> sr u = sr s \<and> xmem u = xmem t'"
    if t': "eip t' = tos t" "gr t' ESP = gr t ESP + 4" "sr t' CS = sr t CS" "load32 (xmem t') (gr s ESP) = tos s"
      "frame_at (xmem t') tf = user_context (?s\<lparr>gr := (gr s)(EAX := r)\<rparr>)" for t' r
  proof -
    have f: "frame_sregs (xmem t') tf = sr s" using t'(5) by (simp add: frame_at_def user_context_def)
    obtain u where u: "reaches code t' u" "user_context u = frame_at (xmem t') tf" "xmem u = xmem t'"
      using trap_leave [of code t' b' tf] ret(2) t' w(5) t(4,5) f assms(1) by (auto simp: tos_def tf_def)
    then have e: "eip u = c" "gr u = (gr s)(EAX := r)" "sr u = sr s" using t'(5) by (simp_all add: user_context_def)
    have "reaches code t' (exec_instr c Ret (u\<lparr>eip := b0\<rparr>))"
      using reaches_trans [OF u(1) reaches_step [of code u Ret b0]] c(1) e(1) by simp
    then show ?thesis using e u(3) t'(4) by (intro exI [of _ "exec_instr c Ret (u\<lparr>eip := b0\<rparr>)"]) (simp add: drop_top_def tos_def)
  qed
  moreover have "reaches code s t" using c(2) t(1) by (rule reaches_trans)
  moreover have "carg 0 t = tf" using w(4) by (simp add: carg_offsets t(4))
  moreover have "frame_trapno (xmem t) tf = T_SYSCALL" using w(2) by (simp add: T_SYSCALL_def)
  ultimately show ?thesis using t(2) w(1) other by (intro exI [of _ t] exI [of _ c]) auto
qed

text \<open>Every stub has a handler in the kernel, no two have the same, and every handler has a stub.\<close>

lemma stubs_handled: "distinct (map snd usys_stubs)" "(\<exists>name. (name, num) \<in> set usys_stubs) \<longleftrightarrow> handler lk (int num) \<noteq> None"
proof -
  show "distinct (map snd usys_stubs)" by (simp add: usys_stubs_def)
  have "(\<exists>name. (name, num) \<in> set usys_stubs) \<longleftrightarrow> num \<in> set (map snd usys_stubs)" by force
  also have "set (map snd usys_stubs) = set [1..<26]" by code_simp
  also have "num \<in> set [1..<26] \<longleftrightarrow> num \<in> {1..<26}" by simp
  also have "\<dots> \<longleftrightarrow> handler lk (int num) \<noteq> None" by (auto simp: handler_def)
  finally show "(\<exists>name. (name, num) \<in> set usys_stubs) \<longleftrightarrow> handler lk (int num) \<noteq> None" .
qed

section \<open>Examples\<close>

text \<open>Code at an address, one address per instruction.\<close>

definition code_at :: "uint \<Rightarrow> instr list \<Rightarrow> code" where
  "code_at a is = (\<lambda>x. if unat (x - a) < length is then Some (is ! unat (x - a), x + 1) else None)"

definition blank :: x86 where
  "blank = \<lparr>gr = \<lambda>_. 0, sr = \<lambda>_. 0, cr = \<lambda>_. 0, eip = 0, eflags = 0, xmem = \<lambda>_. 0, gdtr = (0, 0), idt = \<lambda>_. 0,
     ts_esp0 = 0, ts_ss0 = 0, x_in = \<lambda>_. 0, x_out = []\<rparr>"

text \<open>
  A process on the stack at \<open>0x1FF0\<close> switches to the context at \<open>0x3000\<close>; later, on the stack at \<open>0x4FF0\<close>, its own context is
  switched to.
\<close>

definition swtch_call :: "x86 \<Rightarrow> uint \<Rightarrow> uint \<Rightarrow> uint \<Rightarrow> x86" where
  "swtch_call s sp old new = s\<lparr>eip := 0x100, gr := (gr s)(ESP := sp),
     xmem := store32 (store32 (store32 (xmem s) sp 0x80101234) (sp + 4) old) (sp + 8) new\<rparr>"

lemma sep_off: "4 \<le> unat (c - d) \<Longrightarrow> 4 \<le> unat (d - c) \<Longrightarrow> sep (x + c) 4 (x + d) 4"
  by (simp add: sep_def)

lemma swtch_call_args:
  "tos (swtch_call s sp old new) = 0x80101234" "carg 0 (swtch_call s sp old new) = old" "carg 1 (swtch_call s sp old new) = new"
  "gr (swtch_call s sp old new) ESP = sp" "eip (swtch_call s sp old new) = 0x100"
  using sep_off [of 4 0 sp] sep_off [of 8 0 sp] sep_off [of 8 4 sp]
  by (simp_all add: swtch_call_def tos_def carg_offsets load32_store32_sep del: One_nat_def)

lemma swtch_call_other:
  assumes "12 \<le> unat (x - sp)"
  shows "xmem (swtch_call s sp old new) x = xmem s x"
proof -
  have n: "x \<noteq> sp + c" if "unat c < 12" for c using assms that by auto
  have "store32 m (sp + c) v x = m x" if "unat c \<le> 8" for m v c
  proof (rule store32_far, intro allI impI)
    fix k :: nat assume "k < 4"
    then have "unat (c + of_nat k) < 12" using that by (simp add: unat_add_noovf unat_of_nat_small)
    from n [OF this] show "x \<noteq> sp + c + of_nat k" by (simp add: add.assoc)
  qed
  from this [of 0] this [of 4] this [of 8] show ?thesis by (simp add: swtch_call_def)
qed

theorem swtch_round_trip_witness:
  "\<exists>t v. reaches (code_at 0x100 swtch_code) (swtch_call blank 0x1FF0 0x5000 0x3000) t \<and> gr t ESP = 0x3014 \<and>
     reaches (code_at 0x100 swtch_code) (swtch_call t 0x4FF0 0x5004 0x1FE0) v \<and> gr v ESP = 0x1FF4 \<and> eip v = 0x80101234"
proof -
  let ?c = "code_at 0x100 swtch_code" and ?s = "swtch_call blank 0x1FF0 0x5000 0x3000"
  have "placed ?c (eip ?s) swtch_code 0x10D" by (simp add: swtch_call_args(5) code_at_def swtch_code_def)
  moreover have "swtch_apart ?s" unfolding swtch_apart_def swtch_call_args by (simp add: sep_def)
  ultimately obtain t where t: "reaches ?c ?s t" "gr t ESP = 0x3014" "load32 (xmem t) 0x5000 = 0x1FE0"
    "\<forall>u. eip u = 0x100 \<and> carg 1 u = load32 (xmem t) 0x5000 \<and> swtch_apart u \<and>
       (\<forall>k < 20. xmem u (0x1FE0 + of_nat k) = xmem t (0x1FE0 + of_nat k)) \<longrightarrow>
       (\<exists>v. reaches ?c u v \<and> callee_saved v = callee_saved ?s \<and> gr v ESP = 0x1FF0 + 4 \<and> eip v = 0x80101234)"
    using swtch_round_trip [of ?c ?s "0x10D"] unfolding swtch_call_args by auto
  let ?u = "swtch_call t 0x4FF0 0x5004 0x1FE0"
  have "swtch_apart ?u" unfolding swtch_apart_def swtch_call_args by (simp add: sep_def)
  moreover have "xmem ?u (0x1FE0 + of_nat k) = xmem t (0x1FE0 + of_nat k)" if "k < 20" for k
    using that by (intro swtch_call_other) (simp add: unat_sub_if' unat_add_noovf unat_of_nat_small word_le_nat_alt)
  ultimately obtain v where "reaches ?c ?u v" "gr v ESP = 0x1FF0 + 4" "eip v = 0x80101234"
    using t(4) [rule_format, of ?u] t(3) swtch_call_args by auto
  then show ?thesis using t(1,2) by auto
qed

text \<open>
  A page fault of a process with its stack at \<open>0x3FF0\<close>, from which \<^verbatim>\<open>trap\<close> returns without touching the frame: the process
  goes on as if nothing had happened.
\<close>

definition fault_code :: code where
  "fault_code = code_at 0x1000 (vector_code 0x2000 14) ++ code_at 0x2000 (alltraps_code 0x3000)"

definition fault_state :: x86 where
  "fault_state = blank\<lparr>sr := (\<lambda>_. 0)(CS := 0x1B, SS := 0x23, DS := 0x23, ES := 0x23), gr := (\<lambda>_. 7)(ESP := 0x3FF0), eip := 0x123,
     eflags := FL_IF, idt := tvinit (\<lambda>_. 0x1000), ts_esp0 := 0x8DFFF000, ts_ss0 := 16\<rparr>"

theorem trap_round_trip_witness:
  "\<exists>t u. reaches fault_code (interrupt 14 (Some 5) fault_state) t \<and> eip t = 0x3000 \<and> carg 0 t = 0x8DFFEFB4 \<and>
     frame_trapno (xmem t) 0x8DFFEFB4 = 14 \<and> reaches fault_code ((drop_top t)\<lparr>eip := tos t\<rparr>) u \<and> user_context u = user_context fault_state"
proof -
  have "placed fault_code 0x1000 (vector_code 0x2000 14) 0x1002" "placed fault_code 0x2000 (alltraps_code 0x3000) 0x2012"
    by (simp_all add: fault_code_def code_at_def vector_code_def has_errcode_def alltraps_code_def alltraps_enter_def trapret_code_def map_add_def)
  note r = trap_round_trip [of fault_state 14 "\<lambda>_. 0x1000" "Some 5", OF _ _ _ _ this]
  obtain t where t: "reaches fault_code (interrupt 14 (Some 5) fault_state) t" "eip t = 0x3000" "carg 0 t = 0x8DFFEFB4"
    "frame_at (xmem t) 0x8DFFEFB4 = user_context fault_state" "frame_trapno (xmem t) 0x8DFFEFB4 = 14"
    "\<forall>t'. eip t' = tos t \<and> gr t' ESP = gr t ESP + 4 \<and> sr t' CS = sr t CS \<and> frame_sregs (xmem t') 0x8DFFEFB4 CS AND 3 = 3 \<longrightarrow>
       (\<exists>u. reaches fault_code t' u \<and> user_context u = frame_at (xmem t') 0x8DFFEFB4)"
    using r by (auto simp: fault_state_def blank_def cpu_errcodes_def)
  have "frame_sregs (xmem t) 0x8DFFEFB4 CS = 0x1B" using t(4) by (simp add: frame_at_def user_context_def fault_state_def)
  then obtain u where "reaches fault_code ((drop_top t)\<lparr>eip := tos t\<rparr>) u" "user_context u = frame_at (xmem t) 0x8DFFEFB4"
    using t(6) [rule_format, of "(drop_top t)\<lparr>eip := tos t\<rparr>"] by (auto simp: drop_top_def)
  then show ?thesis using t(1-5) by auto
qed

end
