(* ===== verification/Start.thy ===== *)
theory Start
  imports Asm Boot
begin

text \<open>
  Starting the first processor and the first process. The processor comes from the BIOS through
  \<^verbatim>\<open>bootloader/bootasm.S\<close> to \<^verbatim>\<open>bootmain\<close>, and from the kernel's entry point through
  \<^verbatim>\<open>kernel/entry.S\<close> to \<^verbatim>\<open>main\<close>; the first process runs \<^verbatim>\<open>user/initcode.S\<close>. The code
  of \<^verbatim>\<open>kernel/entryother.S\<close>, which shares its parts, is here too; what it does is shown with
  \<^verbatim>\<open>startothers\<close>.

  Labels and the addresses of C functions are parameters. The lemmas show in which state each piece of code hands over to C,
  with memory seen at the addresses that the code uses, and that the first page table maps the addresses at which code goes on
  when paging is switched on.
\<close>

section \<open>The first page table and descriptors\<close>

definition CR0_PE :: uint where "CR0_PE = 0x00000001"
definition CR0_WP :: uint where "CR0_WP = 0x00010000"
definition CR0_PG :: uint where "CR0_PG = 0x80000000"
definition CR4_PSE :: uint where "CR4_PSE = 0x00000010"
definition PTE_PS :: uint where "PTE_PS = 0x080"

lemmas boot_consts = CR0_PE_def CR0_WP_def CR0_PG_def CR4_PSE_def PTE_PS_def

definition entrypgdir :: "uint \<Rightarrow> uint" where
  "entrypgdir = (\<lambda>_. 0)(
     0 := 0 OR PTE_P OR PTE_W OR PTE_PS,
     drop_bit 22 KERNBASE := 0 OR PTE_P OR PTE_W OR PTE_PS)"

definition bootgdt :: "nat \<Rightarrow> uint64" where
  "bootgdt = (\<lambda>_. 0)(
     1 := SEG (STA_X OR STA_R) 0 0xffffffff 0,
     2 := SEG STA_W 0 0xffffffff 0,
     3 := SEG (STA_X OR STA_R) 0 0xffffffff (ucast DPL_USER),
     4 := SEG STA_W 0 0xffffffff (ucast DPL_USER))"

text \<open>The bytes of \<^verbatim>\<open>SEG_NULLASM\<close> and \<^verbatim>\<open>SEG_ASM\<close> of \<^verbatim>\<open>kernel/asm.h\<close>.\<close>

definition bytes16 :: "uint \<Rightarrow> uchar list" where
  "bytes16 v = [ucast v, ucast (drop_bit 8 v)]"

definition SEG_NULLASM :: "uchar list" where
  "SEG_NULLASM = bytes16 0 @ bytes16 0 @ [0, 0, 0, 0]"

definition SEG_ASM :: "uint \<Rightarrow> uint \<Rightarrow> uint \<Rightarrow> uchar list" where
  "SEG_ASM ty base lim =
     bytes16 (drop_bit 12 lim AND 0xffff) @ bytes16 (base AND 0xffff) @
     [ucast (drop_bit 16 base AND 0xff), ucast (0x90 OR ty),
      ucast (0xC0 OR (drop_bit 28 lim AND 0xf)), ucast (drop_bit 24 base AND 0xff)]"

definition asm_gdt :: "uchar list" where
  "asm_gdt = SEG_NULLASM @ SEG_ASM (0x8 OR 0x2) 0 0xffffffff @ SEG_ASM 0x2 0 0xffffffff"

definition asm_gdtdesc :: "uint \<Rightarrow> ushort \<times> uint" where
  "asm_gdtdesc gdt = (of_nat (length asm_gdt - 1), gdt)"

section \<open>The code\<close>

definition seta20_code :: "uint \<Rightarrow> uchar \<Rightarrow> nat \<Rightarrow> instr list" where
  "seta20_code label v port =
     [Inb 0x64,
      Testb 0x2 EAX,
      Jnz label,
      Movb v EAX,
      Outb port]"

text \<open>The part that \<^verbatim>\<open>bootasm.S\<close> and \<^verbatim>\<open>entryother.S\<close> have in common: real mode and the switch to
  protected mode.\<close>

definition real_mode_code :: "instr list" where
  "real_mode_code =
     [Cli,
      Xorw EAX EAX,
      Movw (R EAX) (S DS),
      Movw (R EAX) (S ES),
      Movw (R EAX) (S SS)]"

definition protect_code :: "uint \<Rightarrow> uint \<Rightarrow> instr list" where
  "protect_code gdtdesc start32 =
     [Lgdt (M None gdtdesc),
      Movl (C CR0) (R EAX),
      Orl CR0_PE EAX,
      Movl (R EAX) (C CR0),
      Ljmp (push_bit 3 (of_nat SEG_KCODE)) start32]"

definition segments_code :: "instr list" where
  "segments_code =
     [Movw (Imm (push_bit 3 (of_nat SEG_KDATA))) (R EAX),
      Movw (R EAX) (S DS),
      Movw (R EAX) (S ES),
      Movw (R EAX) (S SS),
      Movw (Imm 0) (R EAX),
      Movw (R EAX) (S FS),
      Movw (R EAX) (S GS)]"

definition bochs_code :: "uint \<Rightarrow> instr list" where
  "bochs_code spin =
     [Movw (Imm 0x8a00) (R EAX),
      Movw (R EAX) (R EDX),
      Outw,
      Movw (Imm 0x8ae0) (R EAX),
      Outw,
      Jmp spin]"

definition bootasm16 :: "uint \<Rightarrow> uint \<Rightarrow> uint \<Rightarrow> uint \<Rightarrow> instr list" where
  "bootasm16 seta20_1 seta20_2 gdtdesc start32 =
     real_mode_code @
     seta20_code seta20_1 0xd1 0x64 @
     seta20_code seta20_2 0xdf 0x60 @
     protect_code gdtdesc start32"

definition bootasm32 :: "uint \<Rightarrow> uint \<Rightarrow> uint \<Rightarrow> instr list" where
  "bootasm32 start lbootmain spin =
     segments_code @
     [Movl (Imm start) (R ESP),
      Call lbootmain] @
     bochs_code spin"

definition entryother16 :: "uint \<Rightarrow> uint \<Rightarrow> instr list" where
  "entryother16 gdtdesc start32 = real_mode_code @ protect_code gdtdesc start32"

definition entryother32 :: "uint \<Rightarrow> uint \<Rightarrow> instr list" where
  "entryother32 start spin =
     segments_code @
     [Movl (C CR4) (R EAX),
      Orl CR4_PSE EAX,
      Movl (R EAX) (C CR4),
      Movl (M None (start - 12)) (R EAX),
      Movl (R EAX) (C CR3),
      Movl (C CR0) (R EAX),
      Orl (CR0_PE OR CR0_PG OR CR0_WP) EAX,
      Movl (R EAX) (C CR0),
      Movl (M None (start - 4)) (R ESP),
      Call_ind (M None (start - 8))] @
     bochs_code spin"

definition entry_code :: "uint \<Rightarrow> uint \<Rightarrow> uint \<Rightarrow> uint \<Rightarrow> instr list" where
  "entry_code pgdir stack reloadgdt label1 =
     [Movl (C CR4) (R EAX),
      Orl CR4_PSE EAX,
      Movl (R EAX) (C CR4),
      Movl (Imm (V2P pgdir)) (R EAX),
      Movl (R EAX) (C CR3),
      Movl (C CR0) (R EAX),
      Orl (CR0_PG OR CR0_WP) EAX,
      Movl (R EAX) (C CR0),
      Movl (Imm (stack + KSTACKSIZE)) (R ESP),
      Call reloadgdt,
      Ljmp (push_bit 3 (of_nat SEG_KCODE)) (V2P label1)]"

definition entry_high_code :: "uint \<Rightarrow> uint \<Rightarrow> instr list" where
  "entry_high_code main self =
     [Movl (Imm main) (R EAX),
      Jmp_ind (R EAX),
      Jmp self]"

definition reloadgdt_code :: "uint \<Rightarrow> instr list" where
  "reloadgdt_code gdt =
     [Subl 8 ESP,
      Movl (Imm (V2P gdt)) (M (Some ESP) 4),
      Movw (Imm (8 * of_nat NSEGS - 1)) (M (Some ESP) 2),
      Lgdt (M (Some ESP) 2),
      Addl 8 ESP,
      Movl (Imm (push_bit 3 (of_nat SEG_KDATA))) (R EAX),
      Movw (R EAX) (S DS),
      Movw (R EAX) (S ES),
      Movw (R EAX) (S SS),
      Movl (Imm 0) (R EAX),
      Movw (R EAX) (S FS),
      Movw (R EAX) (S GS),
      Ret]"

definition SYS_exit :: nat where "SYS_exit = 2"
definition SYS_exec :: nat where "SYS_exec = 7"

definition initcode_exit :: "uint \<Rightarrow> instr list" where
  "initcode_exit exit_label =
     [Movl (Imm (of_nat SYS_exit)) (R EAX),
      Int_n (unat T_SYSCALL),
      Jmp exit_label]"

definition initcode_start :: "uint \<Rightarrow> uint \<Rightarrow> instr list" where
  "initcode_start init argv =
     [Pushl (Imm argv),
      Pushl (Imm init),
      Pushl (Imm 0),
      Movl (Imm (of_nat SYS_exec)) (R EAX),
      Int_n (unat T_SYSCALL)]"

text \<open>The data behind the code: the string at \<^verbatim>\<open>init\<close> and, on a multiple of 4, the array at \<^verbatim>\<open>argv\<close>.\<close>

definition initcode_string :: "uchar list" where
  "initcode_string = ascii ''/bin/init'' @ [0, 0]"

definition initcode_argv :: "uint \<Rightarrow> uint list" where
  "initcode_argv init = [init, 0]"

text \<open>\<^verbatim>\<open>tools/sign.pl\<close> makes the boot sector out of the assembled boot loader; \<open>None\<close> if it does not fit.\<close>

definition sign_pl :: "uchar list \<Rightarrow> uchar list option" where
  "sign_pl file =
     (let buf = take 1000 file; n = length buf in
      if n > 510 then None else
      Some (buf @ replicate (510 - n) 0 @ [0x55, 0xAA]))"

lemma sign_pl_sector:
  "sign_pl file = Some b \<longleftrightarrow> length file \<le> 510 \<and> length b = SECTSIZE \<and> take (length file) b = file \<and> drop 510 b = [0x55, 0xAA] \<and>
     (\<forall>i. length file \<le> i \<and> i < 510 \<longrightarrow> b ! i = 0)"
proof (cases "length file \<le> 510")
  case True
  define r where "r = file @ replicate (510 - length file) 0 @ [0x55, 0xAA]"
  have r: "length r = 512" "take (length file) r = file" "drop 510 r = [0x55, 0xAA]" "\<And>i. length file \<le> i \<Longrightarrow> i < 510 \<Longrightarrow> r ! i = 0"
    using True by (simp_all add: r_def nth_append)
  have "b = r" if h: "length b = 512" "take (length file) b = file" "drop 510 b = [0x55, 0xAA]" "\<forall>i. length file \<le> i \<and> i < 510 \<longrightarrow> b ! i = 0"
  proof (rule nth_equalityI)
    fix i assume "i < length b"
    then consider "i < length file" | "length file \<le> i" "i < 510" | "510 \<le> i" "i < 512" using h(1) by linarith
    then show "b ! i = r ! i"
    proof cases
      case 1
      then show ?thesis using arg_cong [OF trans [OF h(2) r(2) [symmetric]], of "\<lambda>l. l ! i"] by simp
    next
      case 2
      then show ?thesis using h(4) r(4) by simp
    next
      case 3
      then show ?thesis using arg_cong [OF trans [OF h(3) r(3) [symmetric]], of "\<lambda>l. l ! (i - 510)"] h(1) r(1) by simp
    qed
  qed (simp add: h(1) r(1))
  then show ?thesis using True r by (auto simp: sign_pl_def SECTSIZE_def r_def [symmetric])
qed (auto simp: sign_pl_def)

section \<open>Paging\<close>

text \<open>How the processor translates an address with pages of 4 megabytes.\<close>

definition pse_translate :: "(uint \<Rightarrow> uint) \<Rightarrow> uint \<Rightarrow> uint option" where
  "pse_translate pgdir va =
     (let e = pgdir (drop_bit 22 va) in
      if e AND PTE_P = 0 \<or> e AND PTE_PS = 0 then None else Some ((e AND 0xFFC00000) OR (va AND 0x003FFFFF)))"

text \<open>
  The code that switches paging on runs at low addresses, which \<^verbatim>\<open>entrypgdir\<close> maps to themselves, and \<^verbatim>\<open>main\<close>
  runs at high addresses, which it maps to the same physical memory; all else is unmapped.
\<close>

lemma page_parts: "unat (drop_bit 22 (x :: uint)) = unat x div 0x400000" "unat (x AND 0x003FFFFF) = unat x mod 0x400000"
proof -
  show "unat (drop_bit 22 x) = unat x div 0x400000" by (simp add: unat_drop_bit_eq drop_bit_eq_div unat_div)
  have "x AND 0x003FFFFF = take_bit 22 x" by (simp add: take_bit_eq_mask mask_eq_exp_minus_1)
  then show "unat (x AND 0x003FFFFF) = unat x mod 0x400000" by (simp add: take_bit_eq_mod unat_mod)
qed

lemma entrypgdir_maps:
  assumes "unat va < 0x400000"
  shows "pse_translate entrypgdir va = Some va" and "pse_translate entrypgdir (P2V va) = Some va"
proof -
  have "unat (drop_bit 22 va) = unat (0 :: uint)" "unat (va AND 0x003FFFFF) = unat va" using assms by (simp_all only: page_parts) simp_all
  then have "drop_bit 22 va = 0" "va AND 0x003FFFFF = va" unfolding word_unat_eq_iff by blast+
  then show "pse_translate entrypgdir va = Some va"
    by (simp add: pse_translate_def entrypgdir_def PTE_P_def PTE_W_def PTE_PS_def KERNBASE_def)
  have "unat (P2V va) = unat va + 0x80000000" using assms by (simp add: P2V_def KERNBASE_def unat_add_noovf)
  moreover have "(unat va + 512 * 0x400000) mod 0x400000 = unat va" using assms by (simp only: mod_mult_self3 mod_mult_self1) simp
  ultimately have "unat (drop_bit 22 (P2V va)) = unat (512 :: uint)" "unat (P2V va AND 0x003FFFFF) = unat va"
    using assms by (simp_all only: page_parts) simp_all
  then have "drop_bit 22 (P2V va) = 512" "P2V va AND 0x003FFFFF = va" unfolding word_unat_eq_iff by blast+
  then show "pse_translate entrypgdir (P2V va) = Some va"
    by (simp add: pse_translate_def entrypgdir_def PTE_P_def PTE_W_def PTE_PS_def KERNBASE_def)
qed

text \<open>The descriptors that the assembler lays out are those of \<^verbatim>\<open>bootgdt\<close>, and these are the kernel's own.\<close>

definition le64 :: "uchar list \<Rightarrow> uint64" where
  "le64 bs = foldr (\<lambda>b v. ucast b OR push_bit 8 v) bs 0"

lemma asm_gdt_bootgdt: "k < 3 \<Longrightarrow> le64 (take 8 (drop (8 * k) asm_gdt)) = bootgdt k"
proof -
  have "le64 (take 8 (drop (8 * k) asm_gdt)) = bootgdt k" if "k \<in> set [0, 1, 2]"
    using that by (auto simp: asm_gdt_def SEG_NULLASM_def SEG_ASM_def bytes16_def le64_def bootgdt_def SEG_def STA_X_def STA_R_def STA_W_def)
  moreover have "k < 3 \<Longrightarrow> k \<in> set [0, 1, 2]" by auto
  ultimately show "k < 3 \<Longrightarrow> le64 (take 8 (drop (8 * k) asm_gdt)) = bootgdt k" by blast
qed

lemma bootgdt_seginit: "1 \<le> k \<Longrightarrow> k < 5 \<Longrightarrow> bootgdt k = seginit gdt k"
  by (auto simp: bootgdt_def seginit_def seg_consts)

section \<open>From the BIOS to the boot loader\<close>

text \<open>What the loop that waits for the keyboard controller does not touch.\<close>

definition same_system :: "x86 \<Rightarrow> x86 \<Rightarrow> bool" where
  "same_system s t \<longleftrightarrow> sr t = sr s \<and> cr t = cr s \<and> gdtr t = gdtr s \<and> xmem t = xmem s \<and> eflags t AND FL_IF = eflags s AND FL_IF"

lemma same_system_trans: "same_system s t \<Longrightarrow> same_system t u \<Longrightarrow> same_system s u"
  by (simp add: same_system_def)

lemma set_zf_simps [simp]: "gr (set_zf v s) = gr s" "sr (set_zf v s) = sr s" "cr (set_zf v s) = cr s" "xmem (set_zf v s) = xmem s"
  by (simp_all add: set_zf_def)

lemma set_zf_if [simp]: "eflags (set_zf v s) AND FL_IF = eflags s AND FL_IF"
proof -
  have "(0x40 :: uint) AND FL_IF = 0" "NOT 0x40 AND FL_IF = (FL_IF :: uint)" by (simp_all add: FL_IF_def)
  then show ?thesis by (simp add: set_zf_def and.assoc word_ao_dist)
qed

lemma al_bit1: "((e AND 0xFFFFFF00) OR ucast (b :: uchar)) AND (2 :: uint) = 0 \<longleftrightarrow> b AND 2 = 0"
proof -
  have "((e AND 0xFFFFFF00) OR ucast b) AND (2 :: uint) = ucast b AND 2" by (simp add: word_ao_dist and.assoc)
  also have "\<dots> = ucast (b AND 2)" by (rule bit_word_eqI) (auto simp: bit_simps)
  also have "\<dots> = 0 \<longleftrightarrow> b AND 2 = 0" by (auto simp: bit_eq_iff bit_simps)
  finally show ?thesis .
qed

lemma low8: "ucast (v :: uchar) AND (0xFF :: uint) = ucast v"
proof (rule bit_word_eqI)
  fix n
  have "(0xFF :: uint) = mask 8" by (simp add: mask_eq_exp_minus_1)
  then show "bit (ucast v AND (0xFF :: uint)) n = bit (ucast v :: uint) n"
    using bit_imp_le_length [of v n] by (auto simp only: bit_and_iff bit_unsigned_iff bit_mask_iff) auto
qed

lemma zf_set_zf: "eflags (set_zf v s) AND 0x40 = 0 \<longleftrightarrow> v \<noteq> 0"
  by (simp add: set_zf_def and.assoc word_ao_dist)

lemma seta20_turn:
  assumes "placed code label (seta20_code label v port) b" and "eip s = label"
  shows "\<exists>t. reaches code s t \<and> same_system s t \<and> x_in t = (\<lambda>n. x_in s (Suc n)) \<and>
    (if x_in s 0 AND 2 = 0 then eip t = b \<and> x_out t = x_out s @ [(port, ucast v)] else eip t = label \<and> x_out t = x_out s)"
proof -
  obtain n1 n2 n3 n4 where n: "code label = Some (Inb 0x64, n1)" "code n1 = Some (Testb 0x2 EAX, n2)" "code n2 = Some (Jnz label, n3)"
    "code n3 = Some (Movb v EAX, n4)" "code n4 = Some (Outb port, b)"
    using assms(1) unfolding seta20_code_def placed_Cons by auto
  define s1 where "s1 = exec_instr label (Inb 0x64) (s\<lparr>eip := n1\<rparr>)"
  define s2 where "s2 = exec_instr n1 (Testb 0x2 EAX) (s1\<lparr>eip := n2\<rparr>)"
  define s3 where "s3 = exec_instr n2 (Jnz label) (s2\<lparr>eip := n3\<rparr>)"
  have e1: "eip s1 = n1" "same_system s s1" "x_in s1 = (\<lambda>n. x_in s (Suc n))" "x_out s1 = x_out s" "gr s1 EAX = (gr s EAX AND 0xFFFFFF00) OR ucast (x_in s 0)"
    by (simp_all add: s1_def set_reg_def same_system_def)
  have e2: "eip s2 = n2" "x_in s2 = x_in s1" "x_out s2 = x_out s1" "same_system s1 s2" "eflags s2 AND 0x40 = 0 \<longleftrightarrow> x_in s 0 AND 2 \<noteq> 0"
    using al_bit1 [of "gr s EAX" "x_in s 0"] e1(5) set_zf_if [of "gr s1 EAX AND ucast (2 :: uchar)" "s1\<lparr>eip := n2\<rparr>"]
      zf_set_zf [of "gr s1 EAX AND ucast (2 :: uchar)" "s1\<lparr>eip := n2\<rparr>"]
    by (simp_all add: s2_def same_system_def) (simp_all add: set_zf_def)
  have e3: "eip s3 = (if x_in s 0 AND 2 \<noteq> 0 then label else n3)" "x_in s3 = x_in s2" "x_out s3 = x_out s2" "same_system s2 s3"
    using e2(5) by (auto simp: s3_def same_system_def)
  have 1: "reaches code s s1" using reaches_step [of code s] n(1) assms(2) unfolding s1_def by simp
  have 2: "reaches code s1 s2" using reaches_step [of code s1] n(2) e1(1) unfolding s2_def by simp
  have 3: "reaches code s2 s3" using reaches_step [of code s2] n(3) e2(1) unfolding s3_def by simp
  have r: "reaches code s s3" using 1 2 3 reaches_trans by blast
  have ss: "same_system s s3" using e1(2) e2(4) e3(4) same_system_trans by blast
  show ?thesis
  proof (cases "x_in s 0 AND 2 = 0")
    case False
    then show ?thesis using r ss e1 e2 e3 by (intro exI [of _ s3]) simp
  next
    case True
    define s4 where "s4 = exec_instr n3 (Movb v EAX) (s3\<lparr>eip := n4\<rparr>)"
    define s5 where "s5 = exec_instr n4 (Outb port) (s4\<lparr>eip := b\<rparr>)"
    have "reaches code s3 s4" using reaches_step [of code s3] n(4) e3(1) True unfolding s4_def by simp
    moreover have "reaches code s4 s5" using reaches_step [of code s4 "Outb port" b] n(5) unfolding s5_def s4_def by (simp add: set_reg_def)
    ultimately have "reaches code s s5" using r reaches_trans by blast
    moreover have "((e AND 0xFFFFFF00) OR ucast v) AND (0xFF :: uint) = ucast v" for e
      by (simp add: word_ao_dist and.assoc low8)
    then have "eip s5 = b" "x_out s5 = x_out s @ [(port, ucast v)]" "x_in s5 = x_in s3" "same_system s3 s5"
      using e1 e2 e3 by (simp_all add: s5_def s4_def set_reg_def same_system_def)
    ultimately show ?thesis using same_system_trans [OF ss, of s5] True e1(3) e2(2) e3(2) by (intro exI [of _ s5]) simp
  qed
qed

lemma seta20_run:
  assumes "placed code label (seta20_code label v port) b" and "x_in s k AND 2 = 0" and "eip s = label"
  shows "\<exists>t j. reaches code s t \<and> eip t = b \<and> same_system s t \<and> x_in t = (\<lambda>n. x_in s (j + n)) \<and> x_out t = x_out s @ [(port, ucast v)]"
  using assms(2,3)
proof (induction k arbitrary: s)
  case 0
  then obtain t where "reaches code s t" "same_system s t" "x_in t = (\<lambda>n. x_in s (1 + n))" "eip t = b" "x_out t = x_out s @ [(port, ucast v)]"
    using seta20_turn [OF assms(1) 0(2)] by auto
  then show ?case by blast
next
  case (Suc k)
  obtain t where t: "reaches code s t" "same_system s t" "x_in t = (\<lambda>n. x_in s (Suc n))"
    "if x_in s 0 AND 2 = 0 then eip t = b \<and> x_out t = x_out s @ [(port, ucast v)] else eip t = label \<and> x_out t = x_out s"
    using seta20_turn [OF assms(1) Suc.prems(2)] by blast
  show ?case
  proof (cases "x_in s 0 AND 2 = 0")
    case True
    then show ?thesis using t by (intro exI [of _ t] exI [of _ 1]) simp
  next
    case False
    then have e: "eip t = label" "x_out t = x_out s" using t(4) by simp_all
    from Suc.IH [OF _ e(1)] obtain u j where u: "reaches code t u" "eip u = b" "same_system t u" "x_in u = (\<lambda>n. x_in t (j + n))"
      "x_out u = x_out t @ [(port, ucast v)]"
      using Suc.prems(1) t(3) by auto
    show ?thesis using reaches_trans [OF t(1) u(1)] same_system_trans [OF t(2) u(3)] u(2,4,5) e(2) t(3)
      by (intro exI [of _ u] exI [of _ "Suc j"]) simp
  qed
qed

text \<open>The flat segments that the code before C sets up.\<close>

definition flat_segments :: "x86 \<Rightarrow> bool" where
  "flat_segments s \<longleftrightarrow> sr s CS = push_bit 3 (of_nat SEG_KCODE) \<and> sr s DS = push_bit 3 (of_nat SEG_KDATA) \<and>
     sr s ES = push_bit 3 (of_nat SEG_KDATA) \<and> sr s SS = push_bit 3 (of_nat SEG_KDATA) \<and> sr s FS = 0 \<and> sr s GS = 0"

lemma real_mode_run:
  assumes "placed code (eip s) real_mode_code b"
  shows "\<exists>t. reaches code s t \<and> eip t = b \<and> cr t = cr s \<and> xmem t = xmem s \<and> eflags t AND FL_IF = 0 \<and> x_in t = x_in s \<and> x_out t = x_out s"
proof -
  have "reaches code s ((exec_list real_mode_code s)\<lparr>eip := b\<rparr>)"
    by (rule reaches_straight [OF assms]) (simp add: real_mode_code_def straight_def)
  moreover have "eflags (exec_list real_mode_code s) AND FL_IF = 0"
    by (simp add: real_mode_code_def exec_list_def Let_def set_reg_def set_sreg_def and.assoc)
  ultimately show ?thesis
    by (intro exI [of _ "(exec_list real_mode_code s)\<lparr>eip := b\<rparr>"]) (simp add: real_mode_code_def exec_list_def x86_ops)
qed

lemma protect_run:
  assumes "placed code (eip s) (protect_code gdtdesc start32) b" and "placed code start32 segments_code c"
  shows "\<exists>t. reaches code s t \<and> eip t = c \<and> flat_segments t \<and> cr t = (cr s)(CR0 := cr s CR0 OR CR0_PE) \<and> xmem t = xmem s \<and>
    gdtr t = (ucast (load32 (xmem s) gdtdesc), load32 (xmem s) (gdtdesc + 2)) \<and> eflags t AND FL_IF = eflags s AND FL_IF \<and>
    x_in t = x_in s \<and> x_out t = x_out s"
proof -
  let ?j = "Ljmp (push_bit 3 (of_nat SEG_KCODE)) start32" and ?p = "butlast (protect_code gdtdesc start32)"
  obtain d where d: "placed code (eip s) ?p d" "code d = Some (?j, b)"
    by (rule placed_last [OF assms(1), of ?p ?j]) (simp_all add: protect_code_def)
  define t where "t = (exec_list ?p s)\<lparr>eip := d\<rparr>"
  have t: "eip t = d" "cr t = (cr s)(CR0 := cr s CR0 OR CR0_PE)" "xmem t = xmem s" "gdtr t = (ucast (load32 (xmem s) gdtdesc), load32 (xmem s) (gdtdesc + 2))"
    "x_in t = x_in s" "x_out t = x_out s"
    by (simp_all add: t_def protect_code_def exec_list_def x86_ops)
  have f: "eflags t AND FL_IF = eflags s AND FL_IF"
    by (simp add: t_def protect_code_def exec_list_def set_reg_def)
  have "reaches code s t" unfolding t_def by (rule reaches_straight [OF d(1)]) (simp add: protect_code_def straight_def)
  moreover define u where "u = exec_instr d ?j (t\<lparr>eip := b\<rparr>)"
  have "reaches code t u" unfolding u_def using reaches_step [of code t ?j b] d(2) t(1) by simp
  moreover have ue: "eip u = start32" by (simp add: u_def)
  have "reaches code u ((exec_list segments_code u)\<lparr>eip := c\<rparr>)"
    by (rule reaches_straight) (use ue assms(2) in \<open>simp_all add: segments_code_def straight_def\<close>)
  ultimately have "reaches code s ((exec_list segments_code u)\<lparr>eip := c\<rparr>)" using reaches_trans by blast
  moreover have "flat_segments ((exec_list segments_code u)\<lparr>eip := c\<rparr>)"
    by (simp add: segments_code_def exec_list_def flat_segments_def set_reg_def set_sreg_def u_def SEG_KDATA_def)
  ultimately show ?thesis using t f
    by (intro exI [of _ "(exec_list segments_code u)\<lparr>eip := c\<rparr>"]) (simp add: segments_code_def exec_list_def set_reg_def set_sreg_def u_def)
qed

lemma placed_unique: "placed code a is b \<Longrightarrow> placed code a is c \<Longrightarrow> b = c"
  by (induction "is" arbitrary: a) (auto split: option.splits)

text \<open>
  From the BIOS to the boot loader. Once the keyboard controller is ready often enough, \<^verbatim>\<open>bootasm.S\<close> calls
  \<^verbatim>\<open>bootmain\<close> in protected mode with flat segments and its own descriptors, interrupts off, the address line A20 enabled by the
  two bytes sent to the controller, and the stack below the boot sector.
\<close>

lemma bootasm_starts:
  assumes "placed code (eip s) (bootasm16 l1 l2 gdtdesc start32) b" and "placed code (eip s) real_mode_code l1" and "placed code l1 (seta20_code l1 0xd1 0x64) l2"
    and "placed code start32 (bootasm32 start lbootmain spin) e"
    and "(ucast (load32 (xmem s) gdtdesc), load32 (xmem s) (gdtdesc + 2)) = asm_gdtdesc gdt"
    and "\<forall>n. \<exists>k \<ge> n. x_in s k AND 2 = 0"
  shows "\<exists>t. reaches code s t \<and> eip t = lbootmain \<and> gr t ESP = start - 4 \<and> flat_segments t \<and> cr t CR0 AND CR0_PE \<noteq> 0 \<and>
    gdtr t = asm_gdtdesc gdt \<and> eflags t AND FL_IF = 0 \<and> x_out t = x_out s @ [(0x64, 0xd1), (0x60, 0xdf)]"
proof -
  from assms(1) obtain c where c: "placed code l2 (seta20_code l2 0xdf 0x60) c" "placed code c (protect_code gdtdesc start32) b"
    unfolding bootasm16_def placed_append by (metis assms(2,3) placed_unique)
  obtain f where f: "placed code start32 segments_code f" "placed code f ([Movl (Imm start) (R ESP), Call lbootmain] @ bochs_code spin) e"
    using assms(4) by (auto simp: bootasm32_def placed_append)
  then obtain g h where g: "code f = Some (Movl (Imm start) (R ESP), g)" "code g = Some (Call lbootmain, h)"
    by (auto simp: placed_Cons simp del: placed.simps(2))
  obtain t1 where t1: "reaches code s t1" "eip t1 = l1" "cr t1 = cr s" "xmem t1 = xmem s" "eflags t1 AND FL_IF = 0" "x_in t1 = x_in s" "x_out t1 = x_out s"
    using real_mode_run [OF assms(2)] by blast
  obtain k where "x_in t1 k AND 2 = 0" using assms(6) t1(6) by auto
  from seta20_run [OF assms(3) this t1(2)] obtain t2 j where t2: "reaches code t1 t2" "eip t2 = l2" "same_system t1 t2"
    "x_in t2 = (\<lambda>n. x_in t1 (j + n))" "x_out t2 = x_out t1 @ [(0x64, 0xd1)]"
    by auto
  obtain k where "j \<le> k" "x_in s k AND 2 = 0" using assms(6) by blast
  then have "x_in t2 (k - j) AND 2 = 0" by (simp add: t2(4) t1(6))
  from seta20_run [OF c(1) this t2(2)] obtain t3 where t3: "reaches code t2 t3" "eip t3 = c" "same_system t2 t3" "x_out t3 = x_out t2 @ [(0x60, 0xdf)]"
    by auto
  have sys: "cr t3 = cr s" "xmem t3 = xmem s" "eflags t3 AND FL_IF = 0" using t1(3-5) t2(3) t3(3) by (simp_all add: same_system_def)
  obtain t4 where t4: "reaches code t3 t4" "eip t4 = f" "flat_segments t4" "cr t4 = (cr s)(CR0 := cr s CR0 OR CR0_PE)" "xmem t4 = xmem s"
    "gdtr t4 = asm_gdtdesc gdt" "eflags t4 AND FL_IF = 0" "x_out t4 = x_out t3"
    using protect_run [of code t3 gdtdesc start32 b f] c(2) t3(2) f(1) sys assms(5) by auto
  define t5 where "t5 = set_reg ESP start (t4\<lparr>eip := g\<rparr>)"
  define t6 where "t6 = exec_instr g (Call lbootmain) (t5\<lparr>eip := h\<rparr>)"
  have "reaches code t4 t5" using reaches_step [of code t4 _ g] g(1) t4(2) by (simp add: t5_def)
  moreover have "reaches code t5 t6" unfolding t6_def using reaches_step [of code t5 "Call lbootmain" h] g(2) by (simp add: t5_def set_reg_def)
  ultimately have "reaches code s t6" using t1(1) t2(1) t3(1) t4(1) reaches_trans by meson
  moreover have "x_out t6 = x_out s @ [(0x64, 0xd1), (0x60, 0xdf)]"
    by (simp add: t6_def t5_def set_reg_def push_def t4(8) t3(4) t2(5) t1(7))
  moreover have "(v OR CR0_PE) AND CR0_PE \<noteq> 0" for v :: uint by (simp add: word_ao_dist CR0_PE_def word_ao_absorbs)
  ultimately show ?thesis using t4
    by (intro exI [of _ t6]) (simp add: t6_def t5_def set_reg_def push_def flat_segments_def)
qed

section \<open>From the entry point to main\<close>

lemma load32_store16:
  "ucast (load32 (store16 m a v) a) = v"
  "sep a 2 b 4 \<Longrightarrow> load32 (store16 m a v) b = load32 m b"
proof -
  have "bit (ucast (load32 (store16 m a v) a) :: ushort) n = bit v n" if "n < 16" for n
  proof (cases "n < 8")
    case True
    then show ?thesis by (simp add: load32_def store16_def bit_simps)
  next
    case False
    then have "n - 8 < 8" using that by simp
    then show ?thesis using False that by (auto simp: load32_def store16_def bit_simps)
  qed
  then show "ucast (load32 (store16 m a v) a) = v" by (intro bit_word_eqI) simp
  assume s: "sep a 2 b 4"
  have "store16 m a v (b + of_nat j) = m (b + of_nat j)" if "j < 4" for j
    using sep_byte [OF s, of 0 j] sep_byte [OF s, of 1 j] that by (auto simp: store16_def)
  from this [of 0] this [of 1] this [of 2] this [of 3] show "load32 (store16 m a v) b = load32 m b" by (intro load32_cong) simp_all
qed

lemma reloadgdt_run:
  assumes "placed code (eip s) (reloadgdt_code gdt) b"
  shows "\<exists>t. reaches code s t \<and> eip t = tos s \<and> gr t ESP = gr s ESP + 4 \<and> gdtr t = (of_nat (8 * NSEGS - 1), V2P gdt) \<and> cr t = cr s \<and>
    sr t = (\<lambda>r. if r = CS then sr s CS else if r \<in> {DS, ES, SS} then push_bit 3 (of_nat SEG_KDATA) else 0)"
proof -
  let ?is = "butlast (reloadgdt_code gdt)"
  obtain c where c: "placed code (eip s) ?is c" "code c = Some (Ret, b)"
    by (rule placed_last [OF assms, of ?is Ret]) (simp_all add: reloadgdt_code_def)
  define t where "t = (exec_list ?is s)\<lparr>eip := c\<rparr>"
  have "reaches code s t" unfolding t_def by (rule reaches_straight [OF c(1)]) (simp add: reloadgdt_code_def straight_def)
  moreover have "reaches code t (exec_instr c Ret (t\<lparr>eip := b\<rparr>))" using reaches_step [of code t Ret b] c(2) by (simp add: t_def)
  ultimately have r: "reaches code s (exec_instr c Ret (t\<lparr>eip := b\<rparr>))" by (rule reaches_trans)
  let ?sp = "gr s ESP"
  let ?m = "store16 (store32 (xmem s) (?sp - 4) (V2P gdt)) (?sp - 6) 47"
  have "sep (?sp - 6) 2 (?sp - 4) 4" "sep (?sp - 6) 2 ?sp 4" "sep (?sp - 4) 4 ?sp 4" by (simp_all add: sep_def)
  then have m: "ucast (load32 ?m (?sp - 6)) = (47 :: ushort)" "load32 ?m (?sp - 4) = V2P gdt" "load32 ?m ?sp = load32 (xmem s) ?sp"
    by (simp_all add: load32_store16 load32_store32_sep)
  have t: "gr t ESP = ?sp" "xmem t = ?m" "cr t = cr s" "gdtr t = (47, V2P gdt)"
    using m(1,2) by (simp_all add: t_def reloadgdt_code_def exec_list_def set_reg_def set_sreg_def NSEGS_def set_zf_def)
  have "sr t = (\<lambda>r. if r = CS then sr s CS else if r \<in> {DS, ES, SS} then push_bit 3 (of_nat SEG_KDATA) else 0)"
  proof
    fix r show "sr t r = (if r = CS then sr s CS else if r \<in> {DS, ES, SS} then push_bit 3 (of_nat SEG_KDATA) else 0)"
      by (cases r) (simp_all add: t_def reloadgdt_code_def exec_list_def set_reg_def set_sreg_def SEG_KDATA_def)
  qed
  then show ?thesis using r t m(3) by (intro exI [of _ "exec_instr c Ret (t\<lparr>eip := b\<rparr>)"]) (simp add: drop_top_def tos_def NSEGS_def)
qed

lemma entry_run:
  assumes "placed code (eip s) (entry_code pgdir stack reloadgdt label1) b" and "placed code reloadgdt (reloadgdt_code gdt) c"
    and "placed code (V2P label1) (entry_high_code main self) d"
  shows "\<exists>t. reaches code s t \<and> eip t = main \<and> gr t ESP = stack + KSTACKSIZE \<and> flat_segments t \<and> gdtr t = (of_nat (8 * NSEGS - 1), V2P gdt) \<and>
    cr t CR0 = cr s CR0 OR CR0_PG OR CR0_WP \<and> cr t CR3 = V2P pgdir \<and> cr t CR4 = cr s CR4 OR CR4_PSE"
proof -
  define body where "body = [Movl (C CR4) (R EAX), Orl CR4_PSE EAX, Movl (R EAX) (C CR4), Movl (Imm (V2P pgdir)) (R EAX), Movl (R EAX) (C CR3),
      Movl (C CR0) (R EAX), Orl (CR0_PG OR CR0_WP) EAX, Movl (R EAX) (C CR0), Movl (Imm (stack + KSTACKSIZE)) (R ESP)]"
  have "entry_code pgdir stack reloadgdt label1 = body @ [Call reloadgdt, Ljmp (push_bit 3 (of_nat SEG_KCODE)) (V2P label1)]"
    by (simp add: entry_code_def body_def)
  with assms(1) obtain f g where f: "placed code (eip s) body f" "code f = Some (Call reloadgdt, g)"
    "code g = Some (Ljmp (push_bit 3 (of_nat SEG_KCODE)) (V2P label1), b)"
    by (auto simp: placed_append placed_Cons simp del: placed.simps(2))
  obtain h where h: "code (V2P label1) = Some (Movl (Imm main) (R EAX), h)" "\<exists>n. code h = Some (Jmp_ind (R EAX), n)"
    using assms(3) unfolding entry_high_code_def placed_Cons by auto
  then obtain n where n: "code h = Some (Jmp_ind (R EAX), n)" by blast
  define t1 where "t1 = (exec_list body s)\<lparr>eip := f\<rparr>"
  have 1: "reaches code s t1" unfolding t1_def by (rule reaches_straight [OF f(1)]) (simp add: body_def straight_def)
  have t1: "gr t1 ESP = stack + KSTACKSIZE" "cr t1 CR0 = cr s CR0 OR CR0_PG OR CR0_WP" "cr t1 CR3 = V2P pgdir" "cr t1 CR4 = cr s CR4 OR CR4_PSE"
    by (simp_all add: t1_def body_def exec_list_def set_reg_def)
  define t2 where "t2 = exec_instr f (Call reloadgdt) (t1\<lparr>eip := g\<rparr>)"
  have 2: "reaches code t1 t2" unfolding t2_def using reaches_step [of code t1 _ g] f(2) by (simp add: t1_def)
  have t2: "eip t2 = reloadgdt" "gr t2 ESP = stack + KSTACKSIZE - 4" "cr t2 = cr t1" "tos t2 = g"
    by (simp_all add: t2_def push_def t1(1) tos_def)
  obtain t3 where t3: "reaches code t2 t3" "eip t3 = g" "gr t3 ESP = stack + KSTACKSIZE" "gdtr t3 = (of_nat (8 * NSEGS - 1), V2P gdt)" "cr t3 = cr t1"
    "sr t3 = (\<lambda>r. if r = CS then sr t2 CS else if r \<in> {DS, ES, SS} then push_bit 3 (of_nat SEG_KDATA) else 0)"
    using reloadgdt_run [of code t2 gdt c] assms(2) t2 by auto
  define t4 where "t4 = exec_instr g (Ljmp (push_bit 3 (of_nat SEG_KCODE)) (V2P label1)) (t3\<lparr>eip := b\<rparr>)"
  have 4: "reaches code t3 t4" unfolding t4_def using reaches_step [of code t3 _ b] f(3) t3(2) by simp
  define t5 where "t5 = exec_instr (V2P label1) (Movl (Imm main) (R EAX)) (t4\<lparr>eip := h\<rparr>)"
  have 5: "reaches code t4 t5" unfolding t5_def using reaches_step [of code t4 _ h] h(1) by (simp add: t4_def)
  define t6 where "t6 = exec_instr h (Jmp_ind (R EAX)) (t5\<lparr>eip := n\<rparr>)"
  have 6: "reaches code t5 t6" unfolding t6_def using reaches_step [of code t5 _ n] n by (simp add: t5_def set_reg_def)
  have "reaches code s t6" using 1 2 t3(1) 4 5 6 reaches_trans by meson
  then show ?thesis using t1 t3(3-6)
    by (intro exI [of _ t6]) (simp add: t6_def t5_def t4_def set_reg_def set_sreg_def flat_segments_def)
qed

section \<open>The first process\<close>

text \<open>The string and the array that \<^verbatim>\<open>exec\<close> finds, and the arguments of the call at the system call of \<^verbatim>\<open>initcode.S\<close>.\<close>

lemma initcode_run:
  assumes "placed code (eip s) (initcode_start init argv) b" and "sr s CS AND 3 = 3" and "idt s = tvinit vectors"
  shows "\<exists>t. reaches code s (interrupt 64 None t) \<and> gr t EAX = of_nat SYS_exec \<and> carg 0 t = init \<and> carg 1 t = argv \<and> gr t ESP = gr s ESP - 12 \<and>
    sr t = sr s \<and> eip t = b"
proof -
  let ?is = "butlast (initcode_start init argv)"
  obtain c where c: "placed code (eip s) ?is c" "code c = Some (Int_n 64, b)"
    by (rule placed_last [OF assms(1), of ?is "Int_n (unat T_SYSCALL)"]) (simp_all add: initcode_start_def T_SYSCALL_def)
  define t where "t = (exec_list ?is s)\<lparr>eip := c\<rparr>"
  have r: "reaches code s t" unfolding t_def by (rule reaches_straight [OF c(1)]) (simp add: initcode_start_def straight_def)
  have "sep (gr s ESP - 12) 4 (gr s ESP - 8) 4" "sep (gr s ESP - 12) 4 (gr s ESP - 4) 4" "sep (gr s ESP - 8) 4 (gr s ESP - 4) 4" by (simp_all add: sep_def)
  then have t: "gr t EAX = of_nat SYS_exec" "load32 (xmem t) (gr s ESP - 8) = init" "load32 (xmem t) (gr s ESP - 4) = argv" "gr t ESP = gr s ESP - 12"
    "sr t = sr s" "idt t = idt s"
    by (simp_all add: t_def initcode_start_def exec_list_def x86_ops diff_diff_eq load32_store32_sep)
  have "desc_dpl (idt t 64) = 3" unfolding t(6) assms(3) tvinit_gate [of 64, simplified] by (simp add: SETGATE_fields DPL_USER_def)
  then have "exec_instr c (Int_n 64) (t\<lparr>eip := b\<rparr>) = interrupt 64 None (t\<lparr>eip := b\<rparr>)" using assms(2) t(5) by simp
  then have "reaches code s (interrupt 64 None (t\<lparr>eip := b\<rparr>))"
    using reaches_trans [OF r reaches_step [of code t "Int_n 64" b]] c(2) by (simp add: t_def del: exec_instr.simps)
  then show ?thesis using t by (intro exI [of _ "t\<lparr>eip := b\<rparr>"]) (simp add: carg_offsets del: One_nat_def)
qed

section \<open>Examples\<close>

text \<open>The boot sector at \<open>0x7C00\<close>, with its table of descriptors at \<open>0x7C60\<close>; the keyboard controller is ready.\<close>

definition boot_sector :: code where
  "boot_sector = code_at 0x7C00 (bootasm16 0x7C05 0x7C0A 0x7C80 0x7C14) ++ code_at 0x7C14 (bootasm32 0x7C00 0x7D00 0x7C22)"

definition bios_state :: x86 where
  "bios_state = blank\<lparr>eip := 0x7C00, eflags := FL_IF, xmem := (\<lambda>_. 0)(0x7C80 := 23, 0x7C82 := 0x60, 0x7C83 := 0x7C)\<rparr>"

lemma unat_minus_1: "unat (- 1 :: uint) = 4294967295"
  using unat_uminus [of 1] by simp

lemmas boot_codes = unat_minus_1 bootasm16_def bootasm32_def real_mode_code_def seta20_code_def protect_code_def segments_code_def bochs_code_def
  entryother16_def entryother32_def

lemma bootasm_starts_example:
  "\<exists>t. reaches boot_sector bios_state t \<and> eip t = 0x7D00 \<and> gr t ESP = 0x7BFC \<and> flat_segments t \<and> gdtr t = (23, 0x7C60)"
proof -
  have "placed boot_sector (eip bios_state) (bootasm16 0x7C05 0x7C0A 0x7C80 0x7C14) 0x7C14"
    "placed boot_sector (eip bios_state) real_mode_code 0x7C05" "placed boot_sector 0x7C05 (seta20_code 0x7C05 0xd1 0x64) 0x7C0A"
    "placed boot_sector 0x7C14 (bootasm32 0x7C00 0x7D00 0x7C22) 0x7C23"
    by (simp_all add: boot_sector_def bios_state_def code_at_def map_add_def boot_codes)
  moreover have "(ucast (load32 (xmem bios_state) 0x7C80), load32 (xmem bios_state) (0x7C80 + 2)) = asm_gdtdesc 0x7C60"
    by (simp add: bios_state_def load32_def asm_gdtdesc_def asm_gdt_def SEG_ASM_def SEG_NULLASM_def bytes16_def)
  moreover have "\<forall>n. \<exists>k \<ge> n. x_in bios_state k AND 2 = 0" by (auto simp: bios_state_def blank_def)
  moreover have "asm_gdtdesc 0x7C60 = (23, 0x7C60)" by (simp add: asm_gdtdesc_def asm_gdt_def SEG_ASM_def SEG_NULLASM_def bytes16_def)
  ultimately show ?thesis using bootasm_starts [of boot_sector bios_state "0x7C05" "0x7C0A" "0x7C80" "0x7C14" "0x7C14" "0x7C00" "0x7D00" "0x7C22" "0x7C23" "0x7C60"] by auto
qed

end
