(* ===== verification/Smp.thy ===== *)
theory Smp
  imports Start
begin

text \<open>
  The start of the other processors: \<^verbatim>\<open>startothers\<close> of \<^verbatim>\<open>kernel/main.c\<close> on one processor, and
  \<^verbatim>\<open>kernel/entryother.S\<close> on the one that it starts.

  The processor of the assembly theory is extended with what this code depends on: addresses are translated through the page
  tables in physical memory when paging is on, instructions are decoded from physical memory, and a selector can be loaded only
  when the descriptor it selects is that of a flat segment of the right kind. How bytes decode to instructions is a parameter,
  since the assembler is not part of the sources.
\<close>

section \<open>A processor with paging\<close>

text \<open>Here \<open>xmem\<close> is physical memory. \<open>wr\<close> tells a write, which needs \<^verbatim>\<open>PTE_W\<close> when write protection is on.\<close>

definition translate :: "bool \<Rightarrow> x86 \<Rightarrow> uint \<Rightarrow> uint option" where
  "translate wr s va =
     (if cr s CR0 AND CR0_PG = 0 then Some va else
      let denied = (\<lambda>e. e AND PTE_P = 0 \<or> (wr \<and> cr s CR0 AND CR0_WP \<noteq> 0 \<and> e AND PTE_W = 0));
          pde = load32 (xmem s) ((cr s CR3 AND 0xFFFFF000) + 4 * drop_bit 22 va) in
      if denied pde then None
      else if cr s CR4 AND CR4_PSE \<noteq> 0 \<and> pde AND PTE_PS \<noteq> 0 then Some ((pde AND 0xFFC00000) OR (va AND 0x003FFFFF))
      else let pte = load32 (xmem s) ((pde AND 0xFFFFF000) + 4 * (drop_bit 12 va AND 0x3FF)) in
      if denied pte then None else Some ((pte AND 0xFFFFF000) OR (va AND 0xFFF)))"

text \<open>Memory as the processor sees it.\<close>

definition view :: "x86 \<Rightarrow> memory" where
  "view s = (\<lambda>a. case translate False s a of None \<Rightarrow> 0 | Some p \<Rightarrow> xmem s p)"

text \<open>Instructions in memory: the decoder gives the instruction at a physical address, and its length.\<close>

type_synonym decoder = "memory \<Rightarrow> uint \<Rightarrow> (instr \<times> uint) option"

definition fetch_at :: "decoder \<Rightarrow> x86 \<Rightarrow> code" where
  "fetch_at dec s = (\<lambda>a. case translate False s a of None \<Rightarrow> None
     | Some p \<Rightarrow> map_option (\<lambda>(i, n). (i, a + n)) (dec (xmem s) p))"

text \<open>The bytes of memory that an instruction reads and writes.\<close>

definition span :: "uint \<Rightarrow> nat \<Rightarrow> uint list" where
  "span a n = map (\<lambda>i. a + of_nat i) [0..<n]"

fun operand_span :: "x86 \<Rightarrow> nat \<Rightarrow> operand \<Rightarrow> uint list" where
  "operand_span s n (M b d) = span (ea s b d) n"
| "operand_span s n _ = []"

definition reads :: "instr \<Rightarrow> x86 \<Rightarrow> uint list" where
  "reads i s = (case i of
       Movl x _ \<Rightarrow> operand_span s 4 x | Movw x _ \<Rightarrow> operand_span s 2 x | Pushl x \<Rightarrow> operand_span s 4 x
     | Popl _ \<Rightarrow> span (gr s ESP) 4 | Popal \<Rightarrow> span (gr s ESP) 32 | Lgdt x \<Rightarrow> operand_span s 6 x
     | Jmp_ind x \<Rightarrow> operand_span s 4 x | Call_ind x \<Rightarrow> operand_span s 4 x | Ret \<Rightarrow> span (gr s ESP) 4 | _ \<Rightarrow> [])"

definition writes :: "instr \<Rightarrow> x86 \<Rightarrow> uint list" where
  "writes i s = (case i of
       Movl _ x \<Rightarrow> operand_span s 4 x | Movw _ x \<Rightarrow> operand_span s 2 x | Pushl _ \<Rightarrow> span (gr s ESP - 4) 4
     | Popl x \<Rightarrow> operand_span (drop_top s) 4 x | Pushal \<Rightarrow> span (gr s ESP - 32) 32
     | Call _ \<Rightarrow> span (gr s ESP - 4) 4 | Call_ind _ \<Rightarrow> span (gr s ESP - 4) 4 | _ \<Rightarrow> [])"

text \<open>
  A selector. In real mode a segment starts at 16 times the selector; in protected mode its descriptor is read from the table.
  Only flat segments are covered: that at 0 in real mode, and those of 4 gigabytes from 0 of the kernel in protected mode,
  executable for \<open>CS\<close> and writable otherwise. \<open>CS\<close> and \<open>SS\<close> cannot hold a null selector.
\<close>

definition descriptor :: "x86 \<Rightarrow> ushort \<Rightarrow> uint64" where
  "descriptor s sel = le64 (map (view s) (span (snd (gdtr s) + ucast (sel AND 0xFFF8)) 8))"

definition sel_ok :: "x86 \<Rightarrow> sreg \<Rightarrow> ushort \<Rightarrow> bool" where
  "sel_ok s r sel =
     (if cr s CR0 AND CR0_PE = 0 then sel = 0
      else if sel AND 0xFFFC = 0 then r \<noteq> CS \<and> r \<noteq> SS
      else let d = descriptor s sel in
        unat (sel AND 0xFFF8) + 7 \<le> unat (fst (gdtr s)) \<and> sel AND 7 = 0 \<and> desc_present d \<and> desc_dpl d = 0 \<and> bit d 44 \<and>
        seg_base d = 0 \<and> seg_limit d = 0xFFFFFFFF \<and>
        (if r = CS then seg_type d AND STA_X \<noteq> 0 else seg_type d AND STA_X = 0 \<and> seg_type d AND STA_W \<noteq> 0))"

definition sreg_load :: "instr \<Rightarrow> x86 \<Rightarrow> (sreg \<times> ushort) option" where
  "sreg_load i s = (case i of
       Movl x (S r) \<Rightarrow> Some (r, ucast (fetch_val s x)) | Movw x (S r) \<Rightarrow> Some (r, ucast (fetch_val s x))
     | Popl (S r) \<Rightarrow> Some (r, ucast (tos s)) | Ljmp sel _ \<Rightarrow> Some (CS, sel) | _ \<Rightarrow> None)"

text \<open>
  A step; \<open>None\<close> is a fault, or an interrupt or a return from one, which this processor does not cover. The bytes that the
  instruction writes go to the physical memory they are mapped to.
\<close>

definition store_back :: "x86 \<Rightarrow> memory \<Rightarrow> uint list \<Rightarrow> memory" where
  "store_back s m as = fold (\<lambda>a p. case translate True s a of None \<Rightarrow> p | Some q \<Rightarrow> p(q := m a)) as (xmem s)"

definition pstep :: "decoder \<Rightarrow> x86 \<Rightarrow> x86 option" where
  "pstep dec s = (case fetch_at dec s (eip s) of None \<Rightarrow> None
     | Some (i, n) \<Rightarrow>
       let v = s\<lparr>eip := n, xmem := view s\<rparr> in
       if (case i of Int_n _ \<Rightarrow> False | Iret \<Rightarrow> False | _ \<Rightarrow> True) \<and>
          (\<forall>a \<in> set (reads i v). translate False s a \<noteq> None) \<and> (\<forall>a \<in> set (writes i v). translate True s a \<noteq> None) \<and>
          (case sreg_load i v of None \<Rightarrow> True | Some (r, sel) \<Rightarrow> sel_ok s r sel)
       then let t = exec_instr (eip s) i v in Some (t\<lparr>xmem := store_back s (xmem t) (writes i v)\<rparr>)
       else None)"

primrec prun :: "decoder \<Rightarrow> nat \<Rightarrow> x86 \<Rightarrow> x86 option" where
  "prun dec 0 s = Some s"
| "prun dec (Suc k) s = (case pstep dec s of None \<Rightarrow> None | Some t \<Rightarrow> prun dec k t)"

definition preaches :: "decoder \<Rightarrow> x86 \<Rightarrow> x86 \<Rightarrow> bool" where
  "preaches dec s t \<longleftrightarrow> (\<exists>k. prun dec k s = Some t)"

section \<open>Starting the others\<close>

text \<open>
  \<open>img\<close> and \<open>len\<close> are where the linker has put the code of \<^verbatim>\<open>entryother.S\<close>, \<open>mpenter\<close> and
  \<open>lentrypgdir\<close> are the addresses of the function and of the page directory \<^verbatim>\<open>entrypgdir\<close>; \<open>ids\<close> are the APIC ids of the
  processors and \<open>me\<close> is the one that runs. The loop that waits for a processor ends when that processor comes up, as \<open>up\<close>
  says; otherwise it runs for ever, which is \<open>Undef\<close>.
\<close>

definition others_code :: uint where
  "others_code = P2V 0x7000"

definition start_other :: "uint \<Rightarrow> uint \<Rightarrow> uchar \<Rightarrow> ('a devst_scheme, unit) kfun" where
  "start_other mpenter lentrypgdir apicid =
     bindK kalloc (\<lambda>stack.
     thenK (wr32 (others_code - 4) (stack + KSTACKSIZE)) (
     thenK (wr32 (others_code - 8) mpenter) (
     thenK (wr32 (others_code - 12) (V2P lentrypgdir)) (
     lapicstartap apicid (V2P others_code)))))"

definition startothers :: "uint \<Rightarrow> uint \<Rightarrow> uint \<Rightarrow> uint \<Rightarrow> (nat \<Rightarrow> bool) \<Rightarrow> uchar list \<Rightarrow> nat \<Rightarrow> ('a devst_scheme, unit) kfun" where
  "startothers mpenter lentrypgdir img len up ids me =
     thenK (memmoveK others_code img len) (
     forK [0..<length ids] (\<lambda>c.
       if c = me then retK () else
       thenK (start_other mpenter lentrypgdir (ids ! c)) (
       if up c then retK () else undefK)))"

section \<open>Running low code\<close>

lemma preaches_refl [simp]: "preaches dec s s"
  unfolding preaches_def by (rule exI [of _ 0]) simp

lemma prun_add: "prun dec (j + k) s = (case prun dec j s of None \<Rightarrow> None | Some t \<Rightarrow> prun dec k t)"
  by (induction j arbitrary: s) (auto split: option.split)

lemma preaches_trans: "preaches dec s t \<Longrightarrow> preaches dec t u \<Longrightarrow> preaches dec s u"
proof -
  assume "preaches dec s t" and "preaches dec t u"
  then obtain j k where "prun dec j s = Some t" "prun dec k t = Some u" by (auto simp: preaches_def)
  then have "prun dec (j + k) s = Some u" by (simp add: prun_add)
  then show ?thesis by (auto simp: preaches_def)
qed

lemma preaches_step: "pstep dec s = Some t \<Longrightarrow> preaches dec s t"
  unfolding preaches_def by (rule exI [of _ 1]) simp

text \<open>Code in the first 4 megabytes, which are mapped to themselves.\<close>

definition low_id :: "x86 \<Rightarrow> bool" where
  "low_id s \<longleftrightarrow> (\<forall>a. unat a < 0x400000 \<longrightarrow> translate False s a = Some a)"

lemma low_id_off: "cr s CR0 AND CR0_PG = 0 \<Longrightarrow> low_id s"
  by (simp add: low_id_def translate_def)

lemma span_low: "unat d + n \<le> 0x400000 \<Longrightarrow> a \<in> set (span d n) \<Longrightarrow> unat a < 0x400000"
  using unat_add_of_nat by (force simp: span_def)

lemma view_low:
  assumes "low_id s" and "unat d + n \<le> 0x400000"
  shows "a \<in> set (span d n) \<Longrightarrow> view s a = xmem s a"
  using span_low [OF assms(2), of a] assms(1) by (simp add: low_id_def view_def)

lemma load32_view:
  assumes "low_id s" and "unat d + 4 \<le> 0x400000"
  shows "load32 (view s) d = load32 (xmem s) d"
  using view_low [OF assms] by (intro load32_cong) (simp_all add: span_def upt_conv_Cons)

definition image_code :: "decoder \<Rightarrow> memory \<Rightarrow> nat \<Rightarrow> code" where
  "image_code dec m n = (\<lambda>a. if unat (a - 0x7000) < n then map_option (\<lambda>(i, k). (i, a + k)) (dec m a) else None)"

lemma image_fetch:
  assumes "low_id s" and "image_code dec (xmem s) n a = Some (i, b)" and "n \<le> 0x1000"
  shows "fetch_at dec s a = Some (i, b)"
proof -
  have "unat (a - 0x7000) < n" using assms(2) by (simp add: image_code_def split: if_splits)
  moreover from this have "unat (0x7000 + (a - 0x7000)) = unat (0x7000 :: uint) + unat (a - 0x7000)" using assms(3) by (intro unat_add_noovf) simp
  ultimately have "unat a < 0x400000" using assms(3) by simp
  then show ?thesis using assms(1,2) by (simp add: fetch_at_def low_id_def image_code_def split: if_splits)
qed

fun low_operand :: "operand \<Rightarrow> bool" where
  "low_operand (M None d) \<longleftrightarrow> unat d + 6 \<le> 0x400000"
| "low_operand (M (Some r) d) \<longleftrightarrow> False"
| "low_operand x \<longleftrightarrow> True"

fun reg_operand :: "operand \<Rightarrow> bool" where
  "reg_operand (M b d) \<longleftrightarrow> False"
| "reg_operand x \<longleftrightarrow> True"

definition plain :: "instr \<Rightarrow> bool" where
  "plain i = (case i of Movl x y \<Rightarrow> low_operand x \<and> reg_operand y | Movw x y \<Rightarrow> reg_operand x \<and> reg_operand y
     | Orl v r \<Rightarrow> True | Xorw a b \<Rightarrow> True | Cli \<Rightarrow> True | Lgdt x \<Rightarrow> low_operand x | _ \<Rightarrow> False)"

definition sreg_ok :: "instr \<Rightarrow> x86 \<Rightarrow> bool" where
  "sreg_ok i s \<longleftrightarrow> (case sreg_load i s of None \<Rightarrow> True | Some (r, sel) \<Rightarrow> sel_ok s r sel)"

lemma low_fetch_val:
  assumes "low_id s" and "low_operand x"
  shows "fetch_val (s\<lparr>eip := n, xmem := view s\<rparr>) x = fetch_val s x"
  using assms load32_view [OF assms(1)] by (cases x rule: low_operand.cases) simp_all

lemma pstep_plain:
  assumes low: "low_id s" and "plain i" and f: "fetch_at dec s (eip s) = Some (i, n)" and sr: "sreg_ok i s"
  shows "pstep dec s = Some ((exec_instr 0 i s)\<lparr>eip := n\<rparr>)"
proof -
  let ?v = "s\<lparr>eip := n, xmem := view s\<rparr>"
  have rd: "\<forall>a \<in> set (operand_span ?v k x). \<exists>p. translate False s a = Some p" if "low_operand x" "k \<le> 6" for x k
  proof (cases x rule: low_operand.cases)
    case (1 d)
    then have "\<forall>a \<in> set (span d k). unat a < 0x400000" using that span_low [of d k] by simp
    then show ?thesis using 1 low by (auto simp: low_id_def)
  qed (use that in simp_all)
  have reg: "fetch_val ?v x = fetch_val s x" "operand_span ?v k x = []" if "reg_operand x" for x k using that by (cases x; simp)+
  have put: "(put_val y w ?v)\<lparr>xmem := xmem s\<rparr> = (put_val y w s)\<lparr>eip := n\<rparr>" "(put_val16 y u ?v)\<lparr>xmem := xmem s\<rparr> = (put_val16 y u s)\<lparr>eip := n\<rparr>"
    if "reg_operand y" for y w u using that by (cases y; simp add: x86_ops)+
  note val = low_fetch_val [OF low]
  show ?thesis
  proof (cases i)
    case (Movl x y)
    then have "low_operand x" "reg_operand y" using \<open>plain i\<close> by (simp_all add: plain_def)
    then show ?thesis using f sr Movl rd [of x 4] reg val put
      by (cases y) (simp_all add: pstep_def reads_def writes_def sreg_load_def sreg_ok_def store_back_def x86_ops)
  next
    case (Movw x y)
    then have "reg_operand x" "reg_operand y" using \<open>plain i\<close> by (simp_all add: plain_def)
    then show ?thesis using f sr Movw reg put
      by (cases y) (simp_all add: pstep_def reads_def writes_def sreg_load_def sreg_ok_def store_back_def x86_ops)
  next
    case (Lgdt x)
    then have "low_operand x" using \<open>plain i\<close> by (simp add: plain_def)
    then show ?thesis using f Lgdt rd [of x 6] load32_view [OF low]
      by (cases x rule: low_operand.cases) (simp_all add: pstep_def reads_def writes_def sreg_load_def store_back_def unat_add_of_nat [of _ 2, simplified])
  qed (use \<open>plain i\<close> f in \<open>simp_all add: plain_def pstep_def reads_def writes_def sreg_load_def store_back_def x86_ops\<close>)
qed

primrec low_path :: "instr list \<Rightarrow> x86 \<Rightarrow> bool" where
  "low_path [] s \<longleftrightarrow> True"
| "low_path (i # is) s \<longleftrightarrow> low_id s \<and> plain i \<and> sreg_ok i s \<and> low_path is (exec_instr 0 i s)"

lemma plain_straight: "plain i \<Longrightarrow> straight i"
  by (cases i) (simp_all add: plain_def straight_def)

lemma plain_mem: "plain i \<Longrightarrow> xmem (exec_instr pc i s) = xmem s"
proof (cases i)
  case (Movl x y)
  assume "plain i"
  then show ?thesis using Movl by (cases y) (simp_all add: plain_def x86_ops)
next
  case (Movw x y)
  assume "plain i"
  then show ?thesis using Movw by (cases y) (simp_all add: plain_def x86_ops)
next
  case (Lgdt x)
  then show ?thesis by (cases x) simp_all
qed (simp_all add: plain_def x86_ops)

lemma translate_eip [simp]: "translate wr (s\<lparr>eip := n\<rparr>) = translate wr s"
  by (simp add: translate_def fun_eq_iff Let_def)

lemma sreg_load_eip [simp]: "sreg_load i (s\<lparr>eip := n\<rparr>) = sreg_load i s"
  by (auto simp: sreg_load_def tos_def split: instr.split operand.split)

lemma view_eip [simp]: "view (s\<lparr>eip := n\<rparr>) = view s"
  by (simp add: view_def fun_eq_iff split: option.split)

lemma sel_ok_eip [simp]: "sel_ok (s\<lparr>eip := n\<rparr>) r sel = sel_ok s r sel"
  unfolding sel_ok_def descriptor_def view_eip by simp

lemma low_path_eip [simp]: "low_path is (s\<lparr>eip := n\<rparr>) = low_path is s"
proof (induction "is" arbitrary: s)
  case (Cons i "is")
  have "low_id (s\<lparr>eip := n\<rparr>) = low_id s" "sreg_ok i (s\<lparr>eip := n\<rparr>) = sreg_ok i s"
    by (simp_all add: low_id_def sreg_ok_def split: option.split)
  then show ?case using Cons exec_straight [OF plain_straight, of i 0] by auto
qed simp

lemma exec_list_simps [simp]: "exec_list [] s = s" "exec_list (i # is) s = exec_list is (exec_instr 0 i s)"
  by (simp_all add: exec_list_def)

lemma low_path_append: "low_path (xs @ ys) s \<longleftrightarrow> low_path xs s \<and> low_path ys (exec_list xs s)"
  by (induction xs arbitrary: s) auto

lemma low_path_mem: "low_path is s \<Longrightarrow> xmem (exec_list is s) = xmem s"
  using plain_mem by (induction "is" arbitrary: s) auto

lemma exec_list_eip: "list_all straight is \<Longrightarrow> (exec_list is (s\<lparr>eip := n\<rparr>))\<lparr>eip := b\<rparr> = (exec_list is s)\<lparr>eip := b\<rparr>"
proof (induction "is" arbitrary: s)
  case (Cons i "is")
  then show ?case using exec_straight [of i 0] by simp
qed simp

lemma preaches_plain:
  assumes "placed (image_code dec (xmem s) k) (eip s) is b" and "low_path is s" and "k \<le> 0x1000"
  shows "preaches dec s ((exec_list is s)\<lparr>eip := b\<rparr>)"
  using assms
proof (induction "is" arbitrary: s)
  case (Cons i "is")
  then obtain n where n: "image_code dec (xmem s) k (eip s) = Some (i, n)" "placed (image_code dec (xmem s) k) n is b" by (auto split: option.splits)
  let ?t = "(exec_instr 0 i s)\<lparr>eip := n\<rparr>"
  have q: "low_id s" "plain i" "sreg_ok i s" "low_path is (exec_instr 0 i s)" using Cons.prems(2) by simp_all
  have "list_all straight is" using q(4) plain_straight
  proof (induction "is" arbitrary: s i)
    case (Cons j js)
    show ?case using Cons.IH [of j "exec_instr 0 i s"] Cons.prems by simp
  qed simp
  then have e: "(exec_list is ?t)\<lparr>eip := b\<rparr> = (exec_list is (exec_instr 0 i s))\<lparr>eip := b\<rparr>" by (rule exec_list_eip)
  have "preaches dec s ?t" using pstep_plain [OF q(1,2) image_fetch [OF q(1) n(1) Cons.prems(3)] q(3)] by (rule preaches_step)
  moreover have "preaches dec ?t ((exec_list is ?t)\<lparr>eip := b\<rparr>)" using Cons.IH [of ?t] n(2) q(4) plain_mem [OF q(2)] Cons.prems(3) by simp
  ultimately show ?case using e preaches_trans by (metis exec_list_simps(2))
next
  case Nil
  then have "s\<lparr>eip := b\<rparr> = s" by simp
  then show ?case by simp
qed

section \<open>The descriptors and the page directory\<close>

definition gdt_in :: "memory \<Rightarrow> uint \<Rightarrow> bool" where
  "gdt_in m gdt \<longleftrightarrow> unat gdt + 24 \<le> 0x400000 \<and> (\<forall>i < 24. m (gdt + of_nat i) = asm_gdt ! i)"

lemma asm_gdt_length: "length asm_gdt = 24"
  by (simp add: asm_gdt_def SEG_ASM_def SEG_NULLASM_def bytes16_def)

lemma gdt_descriptor:
  assumes "low_id s" and "gdt_in (xmem s) gdt" and "snd (gdtr s) = gdt" and "k < 3"
  shows "descriptor s (of_nat (8 * k)) = bootgdt k"
proof -
  have sel: "ucast (of_nat (8 * k) AND 0xFFF8 :: ushort) = (of_nat (8 * k) :: uint)" using assms(4) by (auto simp: less_Suc_eq numeral_3_eq_3)
  have "map (view s) (span (gdt + of_nat (8 * k)) 8) = take 8 (drop (8 * k) asm_gdt)"
  proof (rule nth_equalityI)
    show "length (map (view s) (span (gdt + of_nat (8 * k)) 8)) = length (take 8 (drop (8 * k) asm_gdt))"
      using assms(4) by (simp add: span_def asm_gdt_length)
    fix i assume "i < length (map (view s) (span (gdt + of_nat (8 * k)) 8))"
    then have i: "i < 8" by (simp add: span_def)
    have a: "gdt + of_nat (8 * k) + of_nat i = gdt + of_nat (8 * k + i)" by simp
    have "unat (gdt + of_nat (8 * k + i)) < 0x400000"
      using unat_add_of_nat [of gdt "8 * k + i"] assms(2,4) i by (simp add: gdt_in_def)
    moreover have "8 * k + i < 24" using assms(4) i by simp
    ultimately have "view s (gdt + of_nat (8 * k) + of_nat i) = asm_gdt ! (8 * k + i)"
      unfolding a using assms(1,2) by (simp add: view_def low_id_def gdt_in_def del: of_nat_add of_nat_mult)
    then show "map (view s) (span (gdt + of_nat (8 * k)) 8) ! i = take 8 (drop (8 * k) asm_gdt) ! i"
      using i assms(4) by (simp add: span_def asm_gdt_length)
  qed
  then show ?thesis using asm_gdt_bootgdt [OF assms(4)] sel assms(3) by (simp add: descriptor_def)
qed

lemma sel_kernel:
  assumes "low_id s" and "gdt_in (xmem s) gdt" and "gdtr s = asm_gdtdesc gdt"
  shows "cr s CR0 AND CR0_PE \<noteq> 0 \<Longrightarrow> sel_ok s CS 8" and "cr s CR0 AND CR0_PE \<noteq> 0 \<Longrightarrow> r \<noteq> CS \<Longrightarrow> sel_ok s r 16"
proof -
  have g: "snd (gdtr s) = gdt" "fst (gdtr s) = 23" using assms(3) by (simp_all add: asm_gdtdesc_def asm_gdt_length)
  have d: "descriptor s 8 = bootgdt 1" "descriptor s 16 = bootgdt 2"
    using gdt_descriptor [OF assms(1,2) g(1), of 1] gdt_descriptor [OF assms(1,2) g(1), of 2] by simp_all
  have b: "bootgdt (Suc 0) = SEG (STA_X OR STA_R) 0 0xffffffff 0" "bootgdt 2 = SEG STA_W 0 0xffffffff 0" by (simp_all add: bootgdt_def)
  have s44: "bit (bootgdt (Suc 0)) 44" "bit (bootgdt 2) 44" by (simp_all add: b SEG_def seg_consts)
  show "cr s CR0 AND CR0_PE \<noteq> 0 \<Longrightarrow> sel_ok s CS 8" "cr s CR0 AND CR0_PE \<noteq> 0 \<Longrightarrow> r \<noteq> CS \<Longrightarrow> sel_ok s r 16"
    using s44 by (simp_all add: sel_ok_def Let_def g d b SEG_fields seg_consts mask_eq_exp_minus_1)
qed

lemma sel_null: "r \<noteq> CS \<Longrightarrow> r \<noteq> SS \<Longrightarrow> sel_ok s r 0" and sel_real: "cr s CR0 AND CR0_PE = 0 \<Longrightarrow> sel_ok s r 0"
  by (simp_all add: sel_ok_def)

text \<open>\<^verbatim>\<open>entrypgdir\<close> in physical memory: 4 megabytes at 0 and at \<^verbatim>\<open>KERNBASE\<close> are mapped, for writing too.\<close>

definition pgdir_in :: "memory \<Rightarrow> uint \<Rightarrow> bool" where
  "pgdir_in m pd \<longleftrightarrow> pd AND 0xFFF = 0 \<and> (\<forall>i < 1024. load32 m (pd + 4 * of_nat i) = entrypgdir (of_nat i))"

lemma entry_translate:
  assumes "pgdir_in (xmem s) (cr s CR3)" and "cr s CR4 AND CR4_PSE \<noteq> 0" and "pse_translate entrypgdir va = Some p"
  shows "cr s CR0 AND CR0_PG \<noteq> 0 \<Longrightarrow> translate wr s va = Some p"
proof -
  let ?e = "entrypgdir (drop_bit 22 va)"
  have "cr s CR3 AND 0xFFFFF000 = cr s CR3"
  proof -
    have "cr s CR3 AND (0xFFFFF000 OR 0xFFF) = cr s CR3 AND 0xFFFFF000" unfolding bit.conj_disj_distrib using assms(1) by (simp add: pgdir_in_def)
    moreover have "0xFFFFF000 OR 0xFFF = (- 1 :: uint)" by (simp add: word_unat_eq_iff unat_minus_1)
    ultimately show ?thesis by (metis word_and_max)
  qed
  moreover have "drop_bit 22 va = of_nat (unat va div 0x400000)" unfolding page_parts(1) [symmetric] by simp
  moreover have "unat va div 0x400000 < 1024" using unat_lt_2p32 [of va] by (simp add: less_mult_imp_div_less)
  ultimately have e: "load32 (xmem s) ((cr s CR3 AND 0xFFFFF000) + 4 * drop_bit 22 va) = ?e" using assms(1) by (simp add: pgdir_in_def)
  have "?e AND PTE_P \<noteq> 0 \<and> ?e AND PTE_PS \<noteq> 0" "p = (?e AND 0xFFC00000) OR (va AND 0x003FFFFF)"
    using assms(3) by (auto simp: pse_translate_def Let_def split: if_splits)
  moreover from this(1) have "?e AND PTE_W \<noteq> 0" by (auto simp: entrypgdir_def PTE_P_def PTE_W_def PTE_PS_def split: if_splits)
  ultimately show "cr s CR0 AND CR0_PG \<noteq> 0 \<Longrightarrow> translate wr s va = Some p" using assms(2) by (simp add: translate_def Let_def e)
qed

lemma low_id_entry:
  assumes "pgdir_in (xmem s) (cr s CR3)" and "cr s CR4 AND CR4_PSE \<noteq> 0"
  shows "low_id s"
  using entry_translate [OF assms entrypgdir_maps(1)] low_id_off by (cases "cr s CR0 AND CR0_PG = 0") (auto simp: low_id_def)

section \<open>The code of entryother.S on the other processor\<close>

text \<open>
  What the assembler makes of \<^verbatim>\<open>entryother.S\<close>: bytes that, at \<^verbatim>\<open>0x7000\<close>, decode to its instructions, with
  the table of descriptors and its description.
\<close>

definition assembled :: "decoder \<Rightarrow> uchar list \<Rightarrow> uint \<Rightarrow> uint \<Rightarrow> uint \<Rightarrow> uint \<Rightarrow> bool" where
  "assembled dec bs gdt gdtdesc start32 spin \<longleftrightarrow> length bs \<le> 0x1000 \<and> unat gdtdesc + 6 \<le> 0x400000 \<and>
     (\<forall>m. (\<forall>i < length bs. m (0x7000 + of_nat i) = bs ! i) \<longrightarrow>
       (\<exists>b. placed (image_code dec m (length bs)) 0x7000 (entryother16 gdtdesc start32) b) \<and>
       (\<exists>e. placed (image_code dec m (length bs)) start32 (entryother32 0x7000 spin) e) \<and>
       gdt_in m gdt \<and> (ucast (load32 m gdtdesc), load32 m (gdtdesc + 2)) = asm_gdtdesc gdt)"

text \<open>The parts of the code: up to the far jump, up to the call, and the call.\<close>

definition others_real :: "uint \<Rightarrow> instr list" where
  "others_real gdtdesc = real_mode_code @ butlast (protect_code gdtdesc 0)"

definition others_body :: "instr list" where
  "others_body = segments_code @
     [Movl (C CR4) (R EAX), Orl CR4_PSE EAX, Movl (R EAX) (C CR4), Movl (M None 0x6FF4) (R EAX), Movl (R EAX) (C CR3),
      Movl (C CR0) (R EAX), Orl (CR0_PE OR CR0_PG OR CR0_WP) EAX, Movl (R EAX) (C CR0), Movl (M None 0x6FFC) (R ESP)]"

lemma others_parts:
  "entryother16 gdtdesc start32 = others_real gdtdesc @ [Ljmp 8 start32]"
  "entryother32 0x7000 spin = others_body @ [Call_ind (M None 0x6FF8)] @ bochs_code spin"
  by (simp_all add: entryother16_def entryother32_def others_real_def others_body_def protect_code_def SEG_KCODE_def)

lemma others_real_run:
  assumes "cr s CR0 AND CR0_PE = 0" and "cr s CR0 AND CR0_PG = 0" and "unat gdtdesc + 6 \<le> 0x400000"
  shows "low_path (others_real gdtdesc) s"
    and "cr (exec_list (others_real gdtdesc) s) = (cr s)(CR0 := cr s CR0 OR CR0_PE)"
    and "gdtr (exec_list (others_real gdtdesc) s) = (ucast (load32 (xmem s) gdtdesc), load32 (xmem s) (gdtdesc + 2))"
    and "eflags (exec_list (others_real gdtdesc) s) AND FL_IF = 0"
proof -
  show "low_path (others_real gdtdesc) s" using assms
    by (simp add: others_real_def real_mode_code_def protect_code_def low_id_off plain_def sreg_ok_def sreg_load_def sel_real x86_ops)
  show "cr (exec_list (others_real gdtdesc) s) = (cr s)(CR0 := cr s CR0 OR CR0_PE)"
    "gdtr (exec_list (others_real gdtdesc) s) = (ucast (load32 (xmem s) gdtdesc), load32 (xmem s) (gdtdesc + 2))"
    by (simp_all add: others_real_def real_mode_code_def protect_code_def x86_ops)
  show "eflags (exec_list (others_real gdtdesc) s) AND FL_IF = 0"
    by (simp add: others_real_def real_mode_code_def protect_code_def set_reg_def set_sreg_def Let_def and.assoc)
qed

lemma others_body_run:
  assumes pe: "cr s CR0 AND CR0_PE \<noteq> 0" and pg: "cr s CR0 AND CR0_PG = 0" and gdt: "gdt_in (xmem s) gdt" "gdtr s = asm_gdtdesc gdt"
    and pd: "pgdir_in (xmem s) (load32 (xmem s) 0x6FF4)" and cs: "sr s CS = 8"
  defines "t \<equiv> exec_list others_body s"
  shows "low_path others_body s" and "flat_segments t" and "gdtr t = gdtr s" and "eflags t AND FL_IF = eflags s AND FL_IF"
    and "gr t ESP = load32 (xmem s) 0x6FFC" and "cr t CR3 = load32 (xmem s) 0x6FF4" and "cr t CR4 = cr s CR4 OR CR4_PSE"
    and "cr t CR0 = cr s CR0 OR CR0_PE OR CR0_PG OR CR0_WP"
proof -
  have sel: "sel_ok u r 16" if "cr u CR0 = cr s CR0" "gdtr u = gdtr s" "xmem u = xmem s" "r \<noteq> CS" for u r
    using sel_kernel(2) [of u gdt r] low_id_off [of u] that pe pg gdt by simp
  show "low_path others_body s" using pg pd
    by (simp add: others_body_def segments_code_def low_id_off low_id_entry plain_def sreg_ok_def sreg_load_def sel sel_null x86_ops SEG_KDATA_def boot_consts)
  show "gdtr t = gdtr s" "gr t ESP = load32 (xmem s) 0x6FFC" "cr t CR3 = load32 (xmem s) 0x6FF4" "cr t CR4 = cr s CR4 OR CR4_PSE"
    "cr t CR0 = cr s CR0 OR CR0_PE OR CR0_PG OR CR0_WP"
    by (simp_all add: t_def others_body_def segments_code_def x86_ops)
  show "flat_segments t" using cs by (simp add: t_def others_body_def segments_code_def x86_ops flat_segments_def SEG_KDATA_def SEG_KCODE_def)
  show "eflags t AND FL_IF = eflags s AND FL_IF" by (simp add: t_def others_body_def segments_code_def set_reg_def set_sreg_def)
qed

lemma store_back_other:
  assumes "\<forall>a \<in> set as. translate True s a \<noteq> Some p"
  shows "store_back s m as p = xmem s p"
proof -
  have "fold (\<lambda>a p. case translate True s a of None \<Rightarrow> p | Some q \<Rightarrow> p(q := m a)) as pm p = pm p" for pm
    using assms by (induction as arbitrary: pm) (auto split: option.split)
  then show ?thesis by (simp add: store_back_def)
qed

lemma ljmp_step:
  assumes "fetch_at dec s (eip s) = Some (Ljmp sel a, n)" and "sel_ok s CS sel"
  shows "pstep dec s = Some ((set_sreg CS sel s)\<lparr>eip := a\<rparr>)"
  using assms by (simp add: pstep_def reads_def writes_def sreg_load_def store_back_def x86_ops)

lemma call_step:
  assumes f: "fetch_at dec s (eip s) = Some (Call_ind (M None d), n)" and "low_id s" and "unat d + 4 \<le> 0x400000"
    and q: "gr s ESP - 4 = P2V q" "unat q + 4 \<le> 0x400000" and tr: "\<And>a. unat a < 0x400000 \<Longrightarrow> translate True s (P2V a) = Some a"
  shows "\<exists>t. pstep dec s = Some t \<and> eip t = load32 (xmem s) d \<and> gr t ESP = gr s ESP - 4 \<and> sr t = sr s \<and> cr t = cr s \<and> gdtr t = gdtr s \<and>
    eflags t = eflags s \<and> (\<forall>p. 4 \<le> unat (p - q) \<longrightarrow> xmem t p = xmem s p)"
proof -
  let ?v = "s\<lparr>eip := n, xmem := view s\<rparr>" and ?w = "span (gr s ESP - 4) 4"
  let ?t = "exec_instr (eip s) (Call_ind (M None d)) ?v"
  have w: "translate True s (P2V q + of_nat i) = Some (q + of_nat i)" if "i < 4" for i
  proof -
    have "P2V q + of_nat i = P2V (q + of_nat i)" by (simp add: P2V_def)
    moreover have "unat (q + of_nat i) < 0x400000" using unat_add_of_nat [of q i] that q(2) by simp
    ultimately show ?thesis using tr by simp
  qed
  then have "\<forall>a \<in> set ?w. translate True s a \<noteq> None" by (auto simp: span_def q(1))
  moreover have "\<forall>a \<in> set (span d 4). translate False s a \<noteq> None" using span_low [OF assms(3)] assms(2) by (auto simp: low_id_def)
  ultimately have run: "pstep dec s = Some (?t\<lparr>xmem := store_back s (xmem ?t) ?w\<rparr>)"
    using f by (simp add: pstep_def reads_def writes_def sreg_load_def Let_def)
  have "store_back s m ?w p = xmem s p" if "4 \<le> unat (p - q)" for m p
  proof (rule store_back_other, rule ballI)
    fix a assume "a \<in> set ?w"
    then obtain i where i: "i < 4" "a = P2V q + of_nat i" by (auto simp: span_def q(1))
    have "unat (q + of_nat i - q) = i" using i(1) by (simp add: unat_of_nat)
    then have "p \<noteq> q + of_nat i" using that i(1) by auto
    then show "translate True s a \<noteq> Some p" using w [OF i(1)] i(2) by auto
  qed
  then show ?thesis using load32_view [OF assms(2,3)] run by (intro exI [of _ "?t\<lparr>xmem := store_back s (xmem ?t) ?w\<rparr>"]) (simp add: push_def)
qed

lemma entryother_run:
  assumes asm: "assembled dec bs gdt gdtdesc start32 spin" and image: "\<forall>i < length bs. xmem s (0x7000 + of_nat i) = bs ! i"
    and s: "eip s = 0x7000" "cr s CR0 AND CR0_PE = 0" "cr s CR0 AND CR0_PG = 0"
    and pd: "pgdir_in (xmem s) (load32 (xmem s) 0x6FF4)" and q: "load32 (xmem s) 0x6FFC - 4 = P2V q" "unat q + 4 \<le> 0x400000"
  shows "\<exists>t. preaches dec s t \<and> eip t = load32 (xmem s) 0x6FF8 \<and> gr t ESP = load32 (xmem s) 0x6FFC - 4 \<and> flat_segments t \<and>
    gdtr t = asm_gdtdesc gdt \<and> cr t CR0 = cr s CR0 OR CR0_PE OR CR0_PG OR CR0_WP \<and> cr t CR3 = load32 (xmem s) 0x6FF4 \<and>
    cr t CR4 = cr s CR4 OR CR4_PSE \<and> eflags t AND FL_IF = 0 \<and> (\<forall>p. 4 \<le> unat (p - q) \<longrightarrow> xmem t p = xmem s p)"
proof -
  let ?code = "image_code dec (xmem s) (length bs)"
  note a = asm [unfolded assembled_def] and m = asm [unfolded assembled_def, THEN conjunct2, THEN conjunct2, rule_format, of "xmem s"]
  have len: "length bs \<le> 0x1000" "unat gdtdesc + 6 \<le> 0x400000" using a by simp_all
  obtain b c where b: "placed ?code 0x7000 (others_real gdtdesc) b" "?code b = Some (Ljmp 8 start32, c)"
    using m image unfolding others_parts placed_append by (auto split: option.splits)
  obtain d e where d: "placed ?code start32 others_body d" "?code d = Some (Call_ind (M None 0x6FF8), e)"
    using m image unfolding others_parts placed_append by (auto split: option.splits)
  have g: "gdt_in (xmem s) gdt" "(ucast (load32 (xmem s) gdtdesc), load32 (xmem s) (gdtdesc + 2)) = asm_gdtdesc gdt" using m image by auto
  note r = others_real_run [OF s(2,3) len(2)]
  define t1 where "t1 = (exec_list (others_real gdtdesc) s)\<lparr>eip := b\<rparr>"
  have 1: "preaches dec s t1" unfolding t1_def by (rule preaches_plain) (use b(1) s(1) r(1) len(1) in simp_all)
  have t1: "xmem t1 = xmem s" "gdtr t1 = asm_gdtdesc gdt" "cr t1 = (cr s)(CR0 := cr s CR0 OR CR0_PE)" "eflags t1 AND FL_IF = 0" "eip t1 = b"
    using low_path_mem [OF r(1)] r(2-4) g(2) by (simp_all add: t1_def)
  have pe: "(cr s CR0 OR CR0_PE) AND CR0_PE \<noteq> 0" "(cr s CR0 OR CR0_PE) AND CR0_PG = 0" using s(2,3) by (simp_all add: bit.conj_disj_distrib2 boot_consts)
  have low1: "low_id t1" using pe(2) t1(3) by (intro low_id_off) simp
  define t2 where "t2 = (set_sreg CS 8 t1)\<lparr>eip := start32\<rparr>"
  have 2: "preaches dec t1 t2" unfolding t2_def
    by (intro preaches_step ljmp_step [of dec t1 8 start32 c] image_fetch [OF low1] sel_kernel(1) [OF low1, of gdt]) (use b(2) t1 g(1) len(1) pe(1) in simp_all)
  have t2: "xmem t2 = xmem s" "gdtr t2 = asm_gdtdesc gdt" "cr t2 = cr t1" "eflags t2 = eflags t1" "sr t2 CS = 8" "eip t2 = start32" by (simp_all add: t2_def set_sreg_def t1)
  have h: "cr t2 CR0 AND CR0_PE \<noteq> 0" "cr t2 CR0 AND CR0_PG = 0" "gdt_in (xmem t2) gdt" "pgdir_in (xmem t2) (load32 (xmem t2) 0x6FF4)" using t2 t1 pe g(1) pd by simp_all
  note y = others_body_run [OF h(1,2,3) t2(2) h(4) t2(5)]
  define t3 where "t3 = (exec_list others_body t2)\<lparr>eip := d\<rparr>"
  have 3: "preaches dec t2 t3" unfolding t3_def by (rule preaches_plain) (use d(1) t2 y(1) len(1) in simp_all)
  have t3: "xmem t3 = xmem s" "cr t3 CR3 = load32 (xmem s) 0x6FF4" "cr t3 CR4 = cr s CR4 OR CR4_PSE" "cr t3 CR0 = cr s CR0 OR CR0_PE OR CR0_PG OR CR0_WP"
    "gr t3 ESP = load32 (xmem s) 0x6FFC" "eip t3 = d" using low_path_mem [OF y(1)] y(5-8) t2 t1(3) by (simp_all add: t3_def or.assoc)
  have p3: "pgdir_in (xmem t3) (cr t3 CR3)" "cr t3 CR4 AND CR4_PSE \<noteq> 0" "cr t3 CR0 AND CR0_PG \<noteq> 0"
    using t3 pd by (simp_all add: bit.conj_disj_distrib2 boot_consts)
  have low3: "low_id t3" by (rule low_id_entry [OF p3(1,2)])
  have "fetch_at dec t3 (eip t3) = Some (Call_ind (M None 0x6FF8), e)" by (rule image_fetch [OF low3, of _ "length bs"]) (use d(2) t3 len in simp_all)
  from call_step [OF this low3 _ _ q(2) entry_translate [OF p3(1,2) entrypgdir_maps(2) p3(3)]] q(1) t3(5) obtain t
    where t: "pstep dec t3 = Some t" "eip t = load32 (xmem s) 0x6FF8" "gr t ESP = gr t3 ESP - 4" "sr t = sr t3" "cr t = cr t3" "gdtr t = gdtr t3"
      "eflags t = eflags t3" "\<forall>p. 4 \<le> unat (p - q) \<longrightarrow> xmem t p = xmem s p" using t3(1) by auto
  have "preaches dec s t" using 1 2 3 preaches_step [OF t(1)] preaches_trans by meson
  moreover have "flat_segments t" "gdtr t = asm_gdtdesc gdt" "eflags t AND FL_IF = 0"
    using t(4,6,7) y(2-4) t2 t1(4) by (simp_all add: flat_segments_def t3_def)
  ultimately show ?thesis using t t3 by (intro exI [of _ t]) simp
qed

section \<open>Both processors\<close>

text \<open>
  The kernel as it is linked and loaded: below 4 megabytes, with the bytes of \<^verbatim>\<open>entryother.S\<close> at \<open>img\<close> and
  \<^verbatim>\<open>entrypgdir\<close> at \<open>pg\<close>, a page of its own.
\<close>

definition linked :: "'a kmst_scheme \<Rightarrow> uchar list \<Rightarrow> uint \<Rightarrow> uint \<Rightarrow> bool" where
  "linked s bs img pg \<longleftrightarrow> unat (kernel_end s) \<le> 0x80400000 \<and>
     0x80100000 \<le> unat img \<and> unat img + length bs \<le> unat (kernel_end s) \<and> (\<forall>i < length bs. kmemory s (img + of_nat i) = bs ! i) \<and>
     0x80100000 \<le> unat pg \<and> unat pg + 4096 \<le> unat (kernel_end s) \<and> page_aligned pg \<and>
     (\<forall>i < 1024. load32 (kmemory s) (pg + 4 * of_nat i) = entrypgdir (of_nat i))"

lemma load32_P2V: "load32 (\<lambda>a. m (P2V a)) b = load32 m (P2V b)"
  by (simp add: load32_def P2V_def ac_simps)

lemma load32_upd: "x \<noteq> a \<Longrightarrow> x \<noteq> a + 1 \<Longrightarrow> x \<noteq> a + 2 \<Longrightarrow> x \<noteq> a + 3 \<Longrightarrow> load32 (m(x := v)) a = load32 m a"
  by (simp add: load32_def)

lemma store32_above: "unat a < 0x80006FFD \<Longrightarrow> 0x80007000 \<le> unat x \<Longrightarrow> store32 m a v x = m x"
proof -
  assume a: "unat a < 0x80006FFD" and x: "0x80007000 \<le> unat x"
  have "x \<noteq> a + of_nat i" if "i < 4" for i using unat_add_of_nat [of a i] a x that by auto
  from this [of 0] this [of 1] this [of 2] this [of 3] show ?thesis by (simp add: store32_def)
qed

lemma start_other_run:
  assumes ok: "kmem_ok t (v # vs)" "L_kmem \<notin> set (klocks t)" "0x80100000 \<le> unat (kernel_end t)"
  shows "\<exists>s'. start_other mpenter pg apicid t = Ok () s' \<and> kmem_ok s' vs \<and> klocks s' = klocks t \<and> kernel_end s' = kernel_end t \<and>
    load32 (kmemory s') (P2V 0x6FFC) = v + KSTACKSIZE \<and> load32 (kmemory s') (P2V 0x6FF8) = mpenter \<and> load32 (kmemory s') (P2V 0x6FF4) = V2P pg \<and>
    (\<forall>a. 0x80007000 \<le> unat a \<longrightarrow> kmemory s' a = kmemory t a) \<and>
    (\<exists>ws. la_writes s' = ws @ [(ICRHI, push_bit 24 (ucast apicid)), (ICRLO, STARTUP OR 7)])"
proof -
  let ?t = "t\<lparr>freelist := load32 (kmemory t) v\<rparr>"
  have k: "kalloc t = Ok v ?t" "kmem_ok ?t vs" using kalloc_run(2,3) [OF ok(1,2) refl] ok(1) by (auto simp: kmem_ok_def)
  define m where "m = store32 (store32 (store32 (kmemory t) (others_code - 4) (v + KSTACKSIZE)) (others_code - 8) mpenter) (others_code - 12) (V2P pg)"
  obtain s' where run: "start_other mpenter pg apicid t = Ok () s'"
      and s': "kmemory s' = m(0x80000467 := 0, 0x80000468 := 0, 0x80000469 := 1792, 0x8000046A := 7)" "freelist s' = freelist ?t" "klocks s' = klocks t"
        "kernel_end s' = kernel_end t" "\<exists>ws. la_writes s' = ws @ [(ICRHI, push_bit 24 (ucast apicid)), (ICRLO, STARTUP OR 7)]"
    by (simp add: start_other_def lapicstartap_def kdefs k(1) wr32_def lapicw_def dev_outb_def Let_def m_def others_code_def P2V_def V2P_def KERNBASE_def upt_conv_Cons)
  have "load32 (kmemory s') (P2V 0x6FFC) = v + KSTACKSIZE" "load32 (kmemory s') (P2V 0x6FF8) = mpenter" "load32 (kmemory s') (P2V 0x6FF4) = V2P pg"
    unfolding s'(1) by (simp_all add: load32_upd P2V_def KERNBASE_def m_def others_code_def load32_store32_sep sep_def)
  moreover have high: "kmemory s' a = kmemory t a" if "0x80007000 \<le> unat a" for a
    using that unfolding s'(1) m_def others_code_def by (auto simp: store32_above P2V_def KERNBASE_def)
  moreover have "kmem_ok s' vs" by (rule kmem_ok_high [OF k(2)]) (use ok(3) high s'(2,4) in \<open>simp_all add: high_same_def\<close>)
  ultimately show ?thesis using run s' by blast
qed

text \<open>The state of the kernel's memory in the loop of \<^verbatim>\<open>startothers\<close>: \<open>k\<close> processors have been looked at, the code is in place.\<close>

definition others_inv :: "'a devst_scheme \<Rightarrow> uint list \<Rightarrow> uchar list \<Rightarrow> nat \<Rightarrow> 'a devst_scheme \<Rightarrow> bool" where
  "others_inv s vs bs k t \<longleftrightarrow> (\<exists>vs'. kmem_ok t vs' \<and> set vs' \<subseteq> set vs \<and> length vs \<le> length vs' + k) \<and>
     klocks t = klocks s \<and> kernel_end t = kernel_end s \<and> high_same (kmemory s) (kmemory t) \<and>
     (\<forall>i < length bs. kmemory t (P2V (0x7000 + of_nat i)) = bs ! i)"

lemma image_high:
  assumes "i < length bs" and "length bs \<le> 0x1000"
  shows "0x80007000 \<le> unat (P2V (0x7000 + of_nat i))"
proof -
  have "P2V (0x7000 + of_nat i) = 0x80007000 + of_nat i" by (simp add: P2V_def KERNBASE_def)
  then show ?thesis using unat_add_of_nat [of "0x80007000" i] assms by simp
qed

lemma others_copy:
  assumes "linked s bs img pg" and "length bs \<le> 0x1000" and "kmem_ok s vs"
  shows "\<exists>t. memmoveK others_code img (of_nat (length bs)) s = Ok () t \<and> others_inv s vs bs 0 t"
proof -
  let ?m = "memmove (kmemory s) others_code img (of_nat (length bs))"
  have n: "unat (of_nat (length bs) :: uint) = length bs" using assms(2) by (simp add: unat_of_nat)
  have k: "unat img + length bs \<le> 0x80400000" "0x80100000 \<le> unat (kernel_end s)" using assms(1) by (simp_all add: linked_def)
  have mm: "?m a = (if unat (a - 0x80007000) < length bs then kmemory s (img + (a - 0x80007000)) else kmemory s a)" for a
    using k assms(2) by (subst memmove_correct) (simp_all add: n others_code_def P2V_def KERNBASE_def)
  have "?m a = kmemory s a" if "0x80100000 \<le> unat a" for a
  proof -
    have "unat (a - 0x80007000) = unat a - 0x80007000" using that by (simp add: unat_sub word_le_nat_alt)
    then have "\<not> unat (a - 0x80007000) < length bs" using that assms(2) by linarith
    then show ?thesis by (simp add: mm)
  qed
  then have h: "high_same (kmemory s) ?m" by (simp add: high_same_def)
  have "?m (P2V (0x7000 + of_nat i)) = bs ! i" if "i < length bs" for i
    using that assms(1,2) by (simp add: mm P2V_def KERNBASE_def linked_def unat_of_nat)
  moreover have "kmem_ok (s\<lparr>kmemory := ?m\<rparr>) vs" by (rule kmem_ok_high [OF assms(3) k(2)]) (use h in simp_all)
  ultimately have "others_inv s vs bs 0 (s\<lparr>kmemory := ?m\<rparr>)" using h unfolding others_inv_def by auto
  then show ?thesis by (simp add: memmoveK_def kdefs)
qed

lemma others_step:
  assumes "others_inv s vs bs k t" and "k < length vs" and "L_kmem \<notin> set (klocks s)" and "0x80100000 \<le> unat (kernel_end s)" and "length bs \<le> 0x1000"
  shows "\<exists>s' v. start_other mpenter pg apicid t = Ok () s' \<and> others_inv s vs bs (Suc k) s' \<and> v \<in> set vs \<and> page_ok (kernel_end s) v \<and>
    load32 (kmemory s') (P2V 0x6FFC) = v + KSTACKSIZE \<and> load32 (kmemory s') (P2V 0x6FF8) = mpenter \<and> load32 (kmemory s') (P2V 0x6FF4) = V2P pg \<and>
    (\<exists>ws. la_writes s' = ws @ [(ICRHI, push_bit 24 (ucast apicid)), (ICRLO, STARTUP OR 7)])"
proof -
  obtain vs' where vs': "kmem_ok t vs'" "set vs' \<subseteq> set vs" "length vs \<le> length vs' + k" using assms(1) by (auto simp: others_inv_def)
  then obtain v ws where v: "vs' = v # ws" using assms(2) by (cases vs') auto
  have t: "klocks t = klocks s" "kernel_end t = kernel_end s" using assms(1) by (simp_all add: others_inv_def)
  from start_other_run [of t v ws mpenter pg apicid] vs'(1) v t assms(3,4) obtain s' where s': "start_other mpenter pg apicid t = Ok () s'" "kmem_ok s' ws"
    "klocks s' = klocks t" "kernel_end s' = kernel_end t" "load32 (kmemory s') (P2V 0x6FFC) = v + KSTACKSIZE" "load32 (kmemory s') (P2V 0x6FF8) = mpenter"
    "load32 (kmemory s') (P2V 0x6FF4) = V2P pg" "\<forall>a. 0x80007000 \<le> unat a \<longrightarrow> kmemory s' a = kmemory t a"
    "\<exists>ws. la_writes s' = ws @ [(ICRHI, push_bit 24 (ucast apicid)), (ICRLO, STARTUP OR 7)]" by auto
  have "others_inv s vs bs (Suc k) s'" unfolding others_inv_def
  proof (intro conjI)
    show "\<exists>vs'. kmem_ok s' vs' \<and> set vs' \<subseteq> set vs \<and> length vs \<le> length vs' + Suc k" using s'(2) vs' v by (intro exI [of _ ws]) auto
    show "high_same (kmemory s) (kmemory s')" using assms(1) s'(8) by (simp add: others_inv_def high_same_def)
    show "\<forall>i < length bs. kmemory s' (P2V (0x7000 + of_nat i)) = bs ! i"
      using assms(1) s'(8) image_high [of _ bs] assms(5) by (simp add: others_inv_def)
  qed (use s' t in simp_all)
  moreover have "v \<in> set vs" "page_ok (kernel_end s) v" using vs' v t(2) kpages.pool_pages [OF vs'(1)] by auto
  ultimately show ?thesis using s' by blast
qed

lemma startothers_run:
  assumes l: "linked s bs img pg" and ok: "kmem_ok s vs" "L_kmem \<notin> set (klocks s)" and len: "length bs \<le> 0x1000" "length ids \<le> length vs"
    and ids: "ids \<noteq> []" "me \<noteq> length ids - 1" and up: "\<forall>c. up c"
  shows "\<exists>s' v. startothers mpenter pg img (of_nat (length bs)) up ids me s = Ok () s' \<and> others_inv s vs bs (length ids) s' \<and> v \<in> set vs \<and>
    page_ok (kernel_end s) v \<and>
    load32 (kmemory s') (P2V 0x6FFC) = v + KSTACKSIZE \<and> load32 (kmemory s') (P2V 0x6FF8) = mpenter \<and> load32 (kmemory s') (P2V 0x6FF4) = V2P pg \<and>
    (\<exists>ws. la_writes s' = ws @ [(ICRHI, push_bit 24 (ucast (last ids))), (ICRLO, STARTUP OR 7)])"
proof -
  let ?body = "\<lambda>c. if c = me then retK () else thenK (start_other mpenter pg (ids ! c)) (if up c then retK () else undefK)"
  obtain n where n: "length ids = Suc n" "n < length vs" using ids(1) len(2) by (cases ids) auto
  have ke: "0x80100000 \<le> unat (kernel_end s)" using l by (simp add: linked_def)
  note step = others_step [OF _ _ ok(2) ke len(1), of vs]
  obtain t where t: "memmoveK others_code img (of_nat (length bs)) s = Ok () t" "others_inv s vs bs 0 t" using others_copy [OF l len(1) ok(1)] by blast
  have "\<exists>t'. ?body k u = Ok () t' \<and> others_inv s vs bs (Suc k) t'" if "k < n" "others_inv s vs bs k u" for k u
  proof (cases "k = me")
    case True
    have "others_inv s vs bs (Suc k) u" using that(2) by (auto simp: others_inv_def)
    then show ?thesis using True by (simp add: kdefs)
  next
    case False
    then show ?thesis using step [OF that(2), of mpenter pg "ids ! k"] that(1) n(2) up by (auto simp: kdefs)
  qed
  with forK_upto [of "\<lambda>k. others_inv s vs bs k" t n ?body] t(2)
  obtain u where u: "forK [0..<n] ?body t = Ok () u" "others_inv s vs bs n u" by blast
  obtain s' v where s': "start_other mpenter pg (ids ! n) u = Ok () s'" "others_inv s vs bs (Suc n) s'" "v \<in> set vs" "page_ok (kernel_end s) v"
    "load32 (kmemory s') (P2V 0x6FFC) = v + KSTACKSIZE" "load32 (kmemory s') (P2V 0x6FF8) = mpenter" "load32 (kmemory s') (P2V 0x6FF4) = V2P pg"
    "\<exists>ws. la_writes s' = ws @ [(ICRHI, push_bit 24 (ucast (ids ! n))), (ICRLO, STARTUP OR 7)]" using step [OF u(2) n(2)] by blast
  have "ids ! n = last ids" using n(1) ids(1) by (simp add: last_conv_nth)
  moreover have "startothers mpenter pg img (of_nat (length bs)) up ids me s = Ok () s'"
    using t(1) u(1) s'(1) up ids(2) n(1) by (simp add: startothers_def kdefs forK_append del: forK.simps) (simp add: kdefs)
  ultimately show ?thesis using s' n(1) by (intro exI [of _ s'] exI [of _ v]) simp
qed

lemma stack_top:
  assumes "page_ok kend v" and "0x80100000 \<le> unat kend" and "unat v < 0x80400000"
  shows "v + KSTACKSIZE - 4 = P2V (V2P v + 4092)" "unat (V2P v + 4092) + 4 \<le> 0x400000" "unat (V2P v + 4092) = unat v - 0x80000000 + 4092"
proof -
  have v: "0x80100000 \<le> unat v" "unat v mod 4096 = 0" using assms(1,2) by (auto simp: page_ok_def word_le_nat_alt page_aligned_unat)
  show "v + KSTACKSIZE - 4 = P2V (V2P v + 4092)" by (simp add: P2V_def V2P_def KSTACKSIZE_def)
  have "unat (V2P v) = unat v - 0x80000000" using v(1) by (simp add: V2P_def KERNBASE_def unat_sub word_le_nat_alt)
  then show u: "unat (V2P v + 4092) = unat v - 0x80000000 + 4092" using unat_add_of_nat [of "V2P v" 4092] v(1) assms(3) by simp
  obtain k where "unat v = 4096 * k" using v(2) by (auto elim: dvdE)
  moreover from this have "k \<le> 525311" using assms(3) by simp
  ultimately show "unat (V2P v + 4092) + 4 \<le> 0x400000" using u v(1) by linarith
qed

lemma load32_pgdir:
  assumes "\<And>j. j < 4096 \<Longrightarrow> m (b + of_nat j) = m' (b + of_nat j)" and "i < 1024"
  shows "load32 m (b + 4 * of_nat i) = load32 m' (b + 4 * of_nat i)"
proof -
  have "m (b + 4 * of_nat i + of_nat j) = m' (b + 4 * of_nat i + of_nat j)" if "j < 4" for j
    using assms(1) [of "4 * i + j"] assms(2) that by (simp add: add.assoc)
  from this [of 0] this [of 1] this [of 2] this [of 3] show ?thesis by (intro load32_cong) simp_all
qed

lemma linked_pgdir:
  assumes "linked s bs img pg" and "high_same (kmemory s) m"
  shows "pgdir_in (\<lambda>a. m (P2V a)) (V2P pg)"
proof -
  have pg: "0x80100000 \<le> unat pg" "unat pg + 4096 < 2 ^ 32" "unat pg mod 4096 = 0" using assms(1) by (simp_all add: linked_def page_aligned_unat)
  have "m (pg + of_nat j) = kmemory s (pg + of_nat j)" if "j < 4096" for j
    using unat_add_of_nat [of pg j] pg that assms(2) by (simp add: high_same_def)
  note load32_pgdir [of m pg "kmemory s", OF this]
  moreover have "V2P pg AND 0xFFF = 0"
  proof -
    have "V2P pg AND 0xFFF = V2P pg mod 4096" using take_bit_eq_mask [of 12 "V2P pg"] by (simp add: mask_eq_exp_minus_1 take_bit_eq_mod)
    moreover have "unat (V2P pg) = unat pg - 0x80000000" using pg(1) by (simp add: V2P_def KERNBASE_def unat_sub word_le_nat_alt)
    moreover obtain k where "unat pg = 4096 * k" using pg(3) by (auto elim: dvdE)
    moreover from this have "unat pg - 0x80000000 = 4096 * (k - 0x80000)" by simp
    ultimately show ?thesis by (simp add: word_unat_eq_iff unat_mod)
  qed
  ultimately show ?thesis using assms(1) unfolding pgdir_in_def load32_P2V by (simp add: linked_def P2V_def V2P_def)
qed

lemma pgdir_kept:
  assumes "pgdir_in m (V2P pg)" and l: "linked s bs img pg" and v: "page_ok (kernel_end s) v"
    and same: "\<And>p. 4 \<le> unat (p - (V2P v + 4092)) \<Longrightarrow> m' p = m p"
  shows "pgdir_in m' (V2P pg)"
proof -
  have pg: "0x80100000 \<le> unat pg" "unat pg + 4096 \<le> unat v" using l v by (auto simp: linked_def page_ok_def word_le_nat_alt)
  have "m' (V2P pg + of_nat j) = m (V2P pg + of_nat j)" if "j < 4096" for j
  proof (rule same)
    have e: "V2P pg + of_nat j - (V2P v + 4092) = (pg + of_nat j) - (v + 4092)" by (simp add: V2P_def)
    have "unat (pg + of_nat j) = unat pg + j" using unat_add_of_nat [of pg j] that pg unat_lt_2p32 [of v] by simp
    moreover have "unat (v + 4092) = unat v + 4092" using page_unat(2) [of v] v unat_add_of_nat [of v 4092] by (simp add: page_ok_def)
    ultimately show "4 \<le> unat (V2P pg + of_nat j - (V2P v + 4092))" unfolding e
      using that pg unat_lt_2p32 [of "v + 4092"] by (simp add: unat_sub_if_size word_size word_le_nat_alt)
  qed
  note load32_pgdir [of m' "V2P pg" m, OF this]
  then show ?thesis using assms(1) by (simp add: pgdir_in_def)
qed

text \<open>
  (C39) Starting another processor. When the kernel is linked below 4 megabytes, a free page below 4 megabytes remains for every
  processor (as \<^verbatim>\<open>startothers\<close> runs before \<^verbatim>\<open>kinit2\<close>) and the processors come up, \<^verbatim>\<open>startothers\<close>
  ends, and the last of the processors on its list gets a start-up message. A processor that starts in real mode at the page that
  the message names, on the physical memory that \<^verbatim>\<open>startothers\<close> leaves, reaches \<^verbatim>\<open>mpenter\<close> without a fault, on top of
  the page allocated for its stack, in protected mode with flat segments from the table of \<^verbatim>\<open>entryother.S\<close>, interrupts off
  and paging on through \<^verbatim>\<open>entrypgdir\<close>, which maps the kernel's first 4 megabytes where they are linked, for writing too. The
  code is the one that was copied to \<^verbatim>\<open>0x7000\<close> and goes on at that address when paging is switched on. As the list
  may be any list, this holds for every processor in its turn.
\<close>

theorem other_processor_starts:
  assumes "linked s bs img lentrypgdir" and "assembled dec bs gdt gdtdesc start32 spin"
    and "kmem_ok s vs" and "\<forall>v \<in> set vs. unat v < 0x80400000" and "length ids \<le> length vs" and "L_kmem \<notin> set (klocks s)"
    and "ids \<noteq> []" and "me \<noteq> length ids - 1" and "\<forall>c. up c"
  shows "\<exists>s' stack ws. startothers mpenter lentrypgdir img (of_nat (length bs)) up ids me s = Ok () s' \<and> stack \<in> set vs \<and>
    la_writes s' = ws @ [(ICRHI, push_bit 24 (ucast (last ids))), (ICRLO, STARTUP OR 7)] \<and>
    (\<forall>x. eip x = push_bit 12 (snd (last (la_writes s')) AND 0xFF) \<and> cr x CR0 AND CR0_PE = 0 \<and> cr x CR0 AND CR0_PG = 0 \<and>
         xmem x = (\<lambda>a. kmemory s' (P2V a)) \<longrightarrow>
       (\<exists>t. preaches dec x t \<and> eip t = mpenter \<and> gr t ESP = stack + KSTACKSIZE - 4 \<and> flat_segments t \<and> gdtr t = asm_gdtdesc gdt \<and>
          cr t CR0 = cr x CR0 OR CR0_PE OR CR0_PG OR CR0_WP \<and> cr t CR3 = V2P lentrypgdir \<and> cr t CR4 = cr x CR4 OR CR4_PSE \<and>
          eflags t AND FL_IF = 0 \<and> (\<forall>wr a. unat a < 0x400000 \<longrightarrow> translate wr t (P2V a) = Some a)))"
proof -
  have len: "length bs \<le> 0x1000" using assms(2) by (simp add: assembled_def)
  from startothers_run [OF assms(1,3,6) len assms(5,7,8,9), of mpenter] obtain s' v ws where run: "startothers mpenter lentrypgdir img (of_nat (length bs)) up ids me s = Ok () s'"
    and inv: "others_inv s vs bs (length ids) s'" and v: "v \<in> set vs" "page_ok (kernel_end s) v"
    and ld: "load32 (kmemory s') (P2V 0x6FFC) = v + KSTACKSIZE" "load32 (kmemory s') (P2V 0x6FF8) = mpenter" "load32 (kmemory s') (P2V 0x6FF4) = V2P lentrypgdir"
    and ws: "la_writes s' = ws @ [(ICRHI, push_bit 24 (ucast (last ids))), (ICRLO, STARTUP OR 7)]" by blast
  have "\<exists>t. preaches dec x t \<and> eip t = mpenter \<and> gr t ESP = v + KSTACKSIZE - 4 \<and> flat_segments t \<and> gdtr t = asm_gdtdesc gdt \<and>
      cr t CR0 = cr x CR0 OR CR0_PE OR CR0_PG OR CR0_WP \<and> cr t CR3 = V2P lentrypgdir \<and> cr t CR4 = cr x CR4 OR CR4_PSE \<and>
      eflags t AND FL_IF = 0 \<and> (\<forall>wr a. unat a < 0x400000 \<longrightarrow> translate wr t (P2V a) = Some a)"
    if x: "eip x = 0x7000" "cr x CR0 AND CR0_PE = 0" "cr x CR0 AND CR0_PG = 0" "xmem x = (\<lambda>a. kmemory s' (P2V a))" for x
  proof -
    have xl: "load32 (xmem x) 0x6FFC = v + KSTACKSIZE" "load32 (xmem x) 0x6FF8 = mpenter" "load32 (xmem x) 0x6FF4 = V2P lentrypgdir"
      unfolding x(4) load32_P2V by (rule ld)+
    have pg: "pgdir_in (xmem x) (V2P lentrypgdir)" unfolding x(4) using linked_pgdir [OF assms(1)] inv by (simp add: others_inv_def)
    let ?q = "V2P v + 4092"
    have q: "v + KSTACKSIZE - 4 = P2V ?q" "unat ?q + 4 \<le> 0x400000" using stack_top [OF v(2)] assms(1,4) v(1) by (simp_all add: linked_def)
    have image: "\<forall>i < length bs. xmem x (0x7000 + of_nat i) = bs ! i" using inv by (simp add: others_inv_def x(4))
    from entryother_run [OF assms(2) image x(1-3), of ?q] pg q xl obtain t where t: "preaches dec x t" "eip t = mpenter" "gr t ESP = v + KSTACKSIZE - 4"
      "flat_segments t" "gdtr t = asm_gdtdesc gdt" "cr t CR0 = cr x CR0 OR CR0_PE OR CR0_PG OR CR0_WP" "cr t CR3 = V2P lentrypgdir"
      "cr t CR4 = cr x CR4 OR CR4_PSE" "eflags t AND FL_IF = 0" "\<And>p. 4 \<le> unat (p - ?q) \<Longrightarrow> xmem t p = xmem x p" by auto
    have "pgdir_in (xmem t) (cr t CR3)" unfolding t(7) by (rule pgdir_kept [OF pg assms(1) v(2) t(10)])
    moreover have "cr t CR4 AND CR4_PSE \<noteq> 0" "cr t CR0 AND CR0_PG \<noteq> 0" unfolding t(6,8) by (simp_all add: bit.conj_disj_distrib2 boot_consts)
    ultimately have "translate wr t (P2V a) = Some a" if "unat a < 0x400000" for wr a
      using entry_translate [OF _ _ entrypgdir_maps(2) [OF that]] by blast
    then show ?thesis using t by blast
  qed
  then show ?thesis using run v(1) ws by (intro exI [of _ s'] exI [of _ v] exI [of _ ws]) (simp add: STARTUP_def)
qed

section \<open>Examples\<close>

text \<open>
  An image with one byte for every instruction, their number, then the descriptors and their description; the kernel of two pages
  holds the image and \<^verbatim>\<open>entrypgdir\<close>, and two pages are free.
\<close>

definition others_instrs :: "instr list" where
  "others_instrs = entryother16 0x7039 0x700A @ entryother32 0x7000 0x7020"

definition table_dec :: decoder where
  "table_dec m a = (let k = unat (m a) in if 1 \<le> k \<and> k \<le> 33 then Some (others_instrs ! (k - 1), 1) else None)"

definition others_bytes :: "uchar list" where
  "others_bytes = map (\<lambda>k. of_nat (Suc k)) [0..<33] @ asm_gdt @ [23, 0, 0x21, 0x70, 0, 0]"

definition smp_mem :: memory where
  "smp_mem a = (let k = unat (a - 0x80100000) in
     if k < 63 then others_bytes ! k else if k = 0x1000 \<or> k = 0x1800 then 0x83
     else if k = 0x2001 then 0x30 else if k = 0x2002 then 0x10 else if k = 0x2003 then 0x80 else 0)"

definition smp_one :: devst where
  "smp_one = consst.extend cons_one (devst.fields 0 (\<lambda>_. 0) (\<lambda>_. 0) [] (\<lambda>_. 0) 0 [] (\<lambda>_ _. 0))
     \<lparr>kmemory := smp_mem, freelist := 0x80102000, kernel_end := 0x80102000\<rparr>"

lemma smp_one_simps [simp]: "kmemory smp_one = smp_mem" "freelist smp_one = 0x80102000" "kernel_end smp_one = 0x80102000" "klocks smp_one = []"
  by (simp_all add: smp_one_def consst.extend_def devst.fields_def cons_one_def procst.extend_def consst.fields_def proc_one_def sysst.extend_def procst.fields_def
      sys_one_def filest.extend_def sysst.fields_def file_one_def kmst.extend_def filest.fields_def km_boot_def fsst.extend_def kmst.fields_def fs_one_def)

lemma others_bytes_length: "length others_bytes = 63"
  by (simp add: others_bytes_def asm_gdt_length)

lemma placed_consecutive:
  "(\<And>k. k < length is \<Longrightarrow> code (a + of_nat k) = Some (is ! k, a + of_nat (Suc k))) \<Longrightarrow> placed code a is (a + of_nat (length is))"
proof (induction "is" arbitrary: a)
  case (Cons i "is")
  have "placed code (a + 1) is (a + 1 + of_nat (length is))"
    by (rule Cons.IH) (use Cons.prems [of "Suc _"] in \<open>simp add: ac_simps\<close>)
  then show ?case using Cons.prems [of 0] by (simp add: ac_simps)
qed simp

lemma others_assembled: "assembled table_dec others_bytes 0x7021 0x7039 0x700A 0x7020"
  unfolding assembled_def
proof (intro conjI allI impI)
  fix m :: memory assume m: "\<forall>i < length others_bytes. m (0x7000 + of_nat i) = others_bytes ! i"
  have lens: "length others_instrs = 33" "length (entryother16 0x7039 0x700A) = 10" "length (entryother32 0x7000 0x7020) = 23"
    by (simp_all add: others_instrs_def boot_codes)
  have f: "image_code table_dec m 63 (0x7000 + of_nat k) = Some (others_instrs ! k, 0x7000 + of_nat (Suc k))" if "k < 33" for k
  proof -
    have "m (0x7000 + of_nat k) = of_nat (Suc k)" using m [rule_format, of k] that by (simp add: others_bytes_length) (simp add: others_bytes_def nth_append)
    moreover have "unat (of_nat (Suc k) :: uchar) = Suc k" using that by (simp add: unat_of_nat del: of_nat_Suc)
    ultimately show ?thesis using that by (simp add: image_code_def table_dec_def Let_def unat_of_nat del: of_nat_Suc) simp
  qed
  have "placed (image_code table_dec m 63) 0x7000 (entryother16 0x7039 0x700A) (0x7000 + of_nat 10)"
    using placed_consecutive [of "entryother16 0x7039 0x700A" "image_code table_dec m 63" "0x7000"] f lens by (simp add: others_instrs_def nth_append)
  then show "\<exists>b. placed (image_code table_dec m (length others_bytes)) 0x7000 (entryother16 0x7039 0x700A) b" unfolding others_bytes_length by blast
  have "image_code table_dec m 63 (0x700A + of_nat k) = Some (entryother32 0x7000 0x7020 ! k, 0x700A + of_nat (Suc k))" if "k < 23" for k
    using f [of "10 + k"] that lens by (simp add: others_instrs_def nth_append)
  then show "\<exists>e. placed (image_code table_dec m (length others_bytes)) 0x700A (entryother32 0x7000 0x7020) e"
    using placed_consecutive [of "entryother32 0x7000 0x7020" "image_code table_dec m 63" "0x700A"] lens unfolding others_bytes_length by auto
  have "m (0x7021 + of_nat i) = asm_gdt ! i" if "i < 24" for i
    using m [rule_format, of "33 + i"] that by (simp add: others_bytes_length) (simp add: others_bytes_def nth_append asm_gdt_length)
  then show "gdt_in m 0x7021" by (simp add: gdt_in_def)
  have "m (0x7039 + of_nat i) = [23, 0, 0x21, 0x70, 0, 0] ! i" if "i < 6" for i
    using m [rule_format, of "57 + i"] that by (simp add: others_bytes_length) (simp add: others_bytes_def nth_append asm_gdt_length)
  from this [of 0] this [of 1] this [of 2] this [of 3] this [of 4] this [of 5]
  show "(ucast (load32 m 0x7039), load32 m (0x7039 + 2)) = asm_gdtdesc 0x7021"
    by (simp add: load32_def asm_gdtdesc_def asm_gdt_length)
qed (simp_all add: others_bytes_length)

lemma smp_linked: "linked smp_one others_bytes 0x80100000 0x80101000"
proof -
  have "load32 smp_mem (0x80101000 + 4 * of_nat i) = entrypgdir (of_nat i)" if "i < 1024" for i
  proof -
    have "unat (0x80101000 + 4 * of_nat i + of_nat j - 0x80100000 :: uint) = 0x1000 + 4 * i + j" if "j < 4" for j
    proof -
      have "0x80101000 + 4 * of_nat i + of_nat j - 0x80100000 = (of_nat (0x1000 + 4 * i + j) :: uint)" by simp
      then show ?thesis using that \<open>i < 1024\<close> by (simp only: unat_of_nat) simp
    qed
    from this [of 0] this [of 1] this [of 2] this [of 3] have "load32 smp_mem (0x80101000 + 4 * of_nat i) = (if i = 0 \<or> i = 512 then 0x83 else 0)"
      using that by (auto simp: load32_def smp_mem_def Let_def)
    moreover have "of_nat i = (0 :: uint) \<longleftrightarrow> i = 0" "of_nat i = (512 :: uint) \<longleftrightarrow> i = 512" using that by (simp_all add: word_unat_eq_iff unat_of_nat)
    ultimately show ?thesis by (simp add: entrypgdir_def KERNBASE_def PTE_P_def PTE_W_def PTE_PS_def)
  qed
  moreover have "smp_mem (0x80100000 + of_nat i) = others_bytes ! i" if "i < 63" for i using that by (simp add: smp_mem_def unat_of_nat Let_def)
  ultimately show ?thesis by (simp add: linked_def others_bytes_length page_aligned_def PGSIZE_def)
qed

lemma smp_pages: "kmem_ok smp_one [0x80102000, 0x80103000]"
  by (simp add: kmem_ok_def page_ok_def page_aligned_def PGSIZE_def V2P_def KERNBASE_def PHYSTOP_def load32_def smp_mem_def Let_def)

theorem other_processor_starts_witness:
  "\<exists>s' t. startothers 0x80100800 0x80101000 0x80100000 63 (\<lambda>_. True) [0, 1] 0 smp_one = Ok () s' \<and>
     preaches table_dec (blank\<lparr>eip := 0x7000, xmem := \<lambda>a. kmemory s' (P2V a)\<rparr>) t \<and> eip t = 0x80100800 \<and> gr t ESP \<in> {0x80102FFC, 0x80103FFC} \<and>
     translate True t 0x80100800 = Some 0x100800"
proof -
  have "\<forall>v \<in> set [0x80102000, 0x80103000 :: uint]. unat v < 0x80400000" "length [0, 1 :: uchar] \<le> length [0x80102000, 0x80103000 :: uint]"
    "L_kmem \<notin> set (klocks smp_one)" "[0, 1 :: uchar] \<noteq> []" "0 \<noteq> length [0, 1 :: uchar] - 1" "\<forall>c :: nat. (\<lambda>_. True) c" by simp_all
  from other_processor_starts [OF smp_linked others_assembled smp_pages this, of "0x80100800"]
  obtain s' stack ws where s': "startothers 0x80100800 0x80101000 0x80100000 (of_nat (length others_bytes)) (\<lambda>_. True) [0, 1] 0 smp_one = Ok () s'"
      "stack \<in> set [0x80102000, 0x80103000]" "la_writes s' = ws @ [(ICRHI, push_bit 24 (ucast (last [0, 1 :: uchar]))), (ICRLO, STARTUP OR 7)]"
    and run: "\<forall>x. eip x = push_bit 12 (snd (last (la_writes s')) AND 0xFF) \<and> cr x CR0 AND CR0_PE = 0 \<and> cr x CR0 AND CR0_PG = 0 \<and>
         xmem x = (\<lambda>a. kmemory s' (P2V a)) \<longrightarrow>
       (\<exists>t. preaches table_dec x t \<and> eip t = 0x80100800 \<and> gr t ESP = stack + KSTACKSIZE - 4 \<and> flat_segments t \<and> gdtr t = asm_gdtdesc 0x7021 \<and>
          cr t CR0 = cr x CR0 OR CR0_PE OR CR0_PG OR CR0_WP \<and> cr t CR3 = V2P 0x80101000 \<and> cr t CR4 = cr x CR4 OR CR4_PSE \<and>
          eflags t AND FL_IF = 0 \<and> (\<forall>wr a. unat a < 0x400000 \<longrightarrow> translate wr t (P2V a) = Some a))" by blast
  let ?x = "blank\<lparr>eip := 0x7000, xmem := \<lambda>a. kmemory s' (P2V a)\<rparr>"
  have "eip ?x = push_bit 12 (snd (last (la_writes s')) AND 0xFF)" by (simp add: s'(3) STARTUP_def)
  with run [rule_format, of ?x] obtain t where t: "preaches table_dec ?x t" "eip t = 0x80100800" "gr t ESP = stack + KSTACKSIZE - 4"
    "\<forall>wr a. unat a < 0x400000 \<longrightarrow> translate wr t (P2V a) = Some a" by (auto simp: blank_def)
  have "translate True t 0x80100800 = Some 0x100800" using t(4) [rule_format, of "0x100800" True] by (simp add: P2V_def KERNBASE_def)
  then show ?thesis using s'(1,2) t by (intro exI [of _ s'] exI [of _ t]) (auto simp: KSTACKSIZE_def others_bytes_length)
qed

end
