(* ===== verification/Uvm.thy ===== *)
theory Uvm
  imports Vm
begin

text \<open>
  Address spaces as a whole: what \<^verbatim>\<open>setupkvm\<close>, \<^verbatim>\<open>allocuvm\<close> and \<^verbatim>\<open>copyuvm\<close> of \<^verbatim>\<open>kernel/vm.c\<close> leave in memory. The
  operations are those of \<^verbatim>\<open>Vm\<close>; here are the page tables that they allocate, counted exactly, the memory that they
  leave alone, and the contents of the pages.
\<close>

section \<open>The pages of a page directory\<close>

definition dirs :: "memory \<Rightarrow> uint \<Rightarrow> nat set" where
  "dirs m pgdir = {i. i < 1024 \<and> present (load32 m (slot pgdir i))}"

definition tables :: "memory \<Rightarrow> uint \<Rightarrow> uint set" where
  "tables m pgdir = (\<lambda>i. pgtab (load32 m (slot pgdir i))) ` dirs m pgdir"

text \<open>
  From \<open>s\<close> to \<open>s'\<close> only the page directory, its page tables and the pages \<open>us\<close>, which have become page tables, may have
  changed.
\<close>

definition pt_step :: "uint \<Rightarrow> 'a kmst_scheme \<Rightarrow> uint list \<Rightarrow> 'a kmst_scheme \<Rightarrow> bool" where
  "pt_step pgdir s us s' \<longleftrightarrow> tables (kmemory s') pgdir = tables (kmemory s) pgdir \<union> set us \<and>
     (\<forall>x. (\<forall>p \<in> insert pgdir (tables (kmemory s) pgdir \<union> set us). \<not> in_page x p) \<longrightarrow> kmemory s' x = kmemory s x) \<and>
     s' = s\<lparr>kmemory := kmemory s', freelist := freelist s'\<rparr>"

lemma pt_step_refl: "pt_step pgdir s [] s"
  by (simp add: pt_step_def)

lemma mem_only_trans:
  "t = s\<lparr>kmemory := m, freelist := f\<rparr> \<Longrightarrow> s' = t\<lparr>kmemory := m', freelist := f'\<rparr> \<Longrightarrow> s' = s\<lparr>kmemory := m', freelist := f'\<rparr>"
  by simp

lemma mem_only_kend: "s' = s\<lparr>kmemory := m, freelist := f\<rparr> \<Longrightarrow> kernel_end s' = kernel_end s"
  by simp

lemma mem_only_klocks: "s' = s\<lparr>kmemory := m, freelist := f\<rparr> \<Longrightarrow> klocks s' = klocks s"
  by simp

lemma pt_step_trans:
  assumes "pt_step pgdir s us t" and "pt_step pgdir t us' s'"
  shows "pt_step pgdir s (us @ us') s'"
proof -
  have "s' = s\<lparr>kmemory := kmemory s', freelist := freelist s'\<rparr>"
    using assms mem_only_trans unfolding pt_step_def by blast
  moreover have "kmemory s' x = kmemory s x" if "\<forall>p \<in> insert pgdir (tables (kmemory s) pgdir \<union> set (us @ us')). \<not> in_page x p" for x
  proof -
    have "kmemory s' x = kmemory t x" using assms that unfolding pt_step_def by auto
    also have "\<dots> = kmemory s x" using assms(1) that unfolding pt_step_def by auto
    finally show ?thesis .
  qed
  moreover have "tables (kmemory s') pgdir = tables (kmemory s) pgdir \<union> set (us @ us')"
    using assms unfolding pt_step_def by auto
  ultimately show ?thesis unfolding pt_step_def by blast
qed

lemma dirs_finite [simp]: "finite (dirs m p)"
  by (simp add: dirs_def)

lemma dirs_store:
  assumes "page_aligned p" "page_aligned q" "i < 1024"
  shows "p \<noteq> q \<Longrightarrow> dirs (store32 m (slot p i) v) q = dirs m q"
    "p \<noteq> q \<Longrightarrow> tables (store32 m (slot p i) v) q = tables m q"
    "present v \<Longrightarrow> \<not> present (load32 m (slot p i)) \<Longrightarrow> dirs (store32 m (slot p i) v) p = insert i (dirs m p)"
    "present v \<Longrightarrow> \<not> present (load32 m (slot p i)) \<Longrightarrow> tables (store32 m (slot p i) v) p = insert (pgtab v) (tables m p)"
proof -
  note ss = slot_store [OF assms(1,2,3)] slot_store [OF assms(1,1,3)]
  show q: "p \<noteq> q \<Longrightarrow> dirs (store32 m (slot p i) v) q = dirs m q" using ss by (auto simp: dirs_def)
  show "p \<noteq> q \<Longrightarrow> tables (store32 m (slot p i) v) q = tables m q" unfolding tables_def using q ss by (intro image_cong) (auto simp: dirs_def)
  assume pv: "present v" and np: "\<not> present (load32 m (slot p i))"
  show p: "dirs (store32 m (slot p i) v) p = insert i (dirs m p)" using ss pv np assms(3) by (auto simp: dirs_def)
  have "(\<lambda>j. pgtab (load32 (store32 m (slot p i) v) (slot p j))) ` dirs m p = (\<lambda>j. pgtab (load32 m (slot p j))) ` dirs m p"
    using ss np by (intro image_cong) (auto simp: dirs_def)
  then show "tables (store32 m (slot p i) v) p = insert (pgtab v) (tables m p)" unfolding tables_def p by simp
qed

lemma dirs_memset:
  assumes "page_aligned p" "page_aligned q" "p \<noteq> q"
  shows "dirs (memset m p 0 PGSIZE) q = dirs m q" "tables (memset m p 0 PGSIZE) q = tables m q"
  using assms by (auto simp: dirs_def tables_def slot_memset)

lemma table_page:
  assumes "pt_wf s pgdir vs" and "i \<in> dirs (kmemory s) pgdir"
  shows "pgtab (load32 (kmemory s) (slot pgdir i)) \<in> tables (kmemory s) pgdir" "page_aligned (pgtab (load32 (kmemory s) (slot pgdir i)))"
    "pgtab (load32 (kmemory s) (slot pgdir i)) \<noteq> pgdir" "pgtab (load32 (kmemory s) (slot pgdir i)) \<notin> set vs"
  using assms pt_wfD(7) [OF assms(1)] by (auto simp: dirs_def tables_def)

lemma memset_page: "memset m p 0 PGSIZE x = (if in_page x p then 0 else m x)"
  by (simp add: memset_fills in_page_def PGSIZE_def)

text \<open>Mapping one page: a page table is allocated exactly if the directory has none for the address.\<close>

lemma map_one:
  assumes wf: "pt_wf s pgdir vs" and none: "mapping (kmemory s) pgdir a = None"
    and enough: "card ({pdx a} - dirs (kmemory s) pgdir) \<le> length vs"
  obtains s' us vs' where "mappages_loop pgdir (a # as) pa perm s = mappages_loop pgdir as (pa + PGSIZE) perm s'"
    "pt_wf s' pgdir vs'" "vs = us @ vs'" "length us = card ({pdx a} - dirs (kmemory s) pgdir)"
    "dirs (kmemory s') pgdir = insert (pdx a) (dirs (kmemory s) pgdir)" "pt_step pgdir s us s'"
    "\<And>w. mapping (kmemory s') pgdir w = (if vpn w = vpn a then Some (pa OR perm OR PTE_P) else mapping (kmemory s) pgdir w)"
proof -
  note d = pt_wfD [OF wf]
  let ?pr = "present (load32 (kmemory s) (slot pgdir (pdx a)))"
  have dir: "pdx a \<in> dirs (kmemory s) pgdir \<longleftrightarrow> ?pr" using pdx_ptx_bounds(1) [of a] by (simp add: dirs_def)
  from wf show thesis
  proof (cases rule: walkpgdir_alloc [where va = a])
    case (full s')
    then show thesis using enough dir by (auto simp: walkpgdir_def Let_def PDX_slot rd32_def kdefs present_def split: if_splits)
  next
    case (entry s1 vs1 t)
    define us where "us = (if ?pr then [] else [t])"
    have vs: "vs = us @ vs1" using entry(7,8) by (cases ?pr) (simp_all add: us_def)
    have t: "page_aligned t" "t \<noteq> pgdir" using pt_wfD(7) [OF entry(2) pdx_ptx_bounds(1) entry(4)] entry(5) by auto
    have "mapping (kmemory s1) pgdir a = None" using none entry(6) by simp
    then have np: "\<not> present (load32 (kmemory s1) (slot t (ptx a)))" using entry(4,5) by (simp add: mapping_def Let_def split: if_splits)
    define s2 where "s2 = s1\<lparr>kmemory := store32 (kmemory s1) (slot t (ptx a)) (pa OR perm OR PTE_P)\<rparr>"
    note st = store_pte [OF entry(2,4,5) s2_def, folded vpn_def]
    have run: "mappages_loop pgdir (a # as) pa perm s = mappages_loop pgdir as (pa + PGSIZE) perm s2"
      using entry(1) np by (simp add: rd32_def wr32_def kdefs present_def s2_def)
    have d1: "dirs (kmemory s1) pgdir = insert (pdx a) (dirs (kmemory s) pgdir) \<and> tables (kmemory s1) pgdir = tables (kmemory s) pgdir \<union> set us"
    proof (cases ?pr)
      case True
      then show ?thesis using entry(7) dir by (auto simp: us_def)
    next
      case False
      have n: "\<not> present (load32 (memset (kmemory s) t 0 PGSIZE) (slot pgdir (pdx a)))"
        using False slot_memset [OF t(1) d(3) pdx_ptx_bounds(1)] t(2) by simp
      show ?thesis using entry(8) [OF False] False dirs_store(3,4) [OF d(3) d(3) pdx_ptx_bounds(1) new_pde(1) [OF t(1)] n] dirs_memset [OF t(1) d(3) t(2)] new_pde(2) [OF t(1)]
        by (auto simp: us_def)
    qed
    have d2: "dirs (kmemory s2) pgdir = dirs (kmemory s1) pgdir" "tables (kmemory s2) pgdir = tables (kmemory s1) pgdir"
      using dirs_store(1,2) [OF t(1) d(3) pdx_ptx_bounds(2) t(2)] by (simp_all add: s2_def)
    have tt: "t \<in> tables (kmemory s1) pgdir" using entry(4,5) pdx_ptx_bounds(1) by (auto simp: tables_def dirs_def)
    have fr: "kmemory s2 x = kmemory s x" if x: "\<forall>p \<in> insert pgdir (tables (kmemory s) pgdir \<union> set us). \<not> in_page x p" for x
    proof -
      have "kmemory s2 x = kmemory s1 x" using x tt d1 store32_in_page [OF t(1) pdx_ptx_bounds(2)] by (simp add: s2_def)
      also have "\<dots> = kmemory s x" using x store32_in_page [OF d(3) pdx_ptx_bounds(1)] entry(7,8)
        by (cases ?pr) (simp_all add: us_def memset_page)
      finally show ?thesis .
    qed
    have "pt_step pgdir s us s2" using d1 d2 fr entry(7,8) by (cases ?pr) (simp_all add: pt_step_def s2_def)
    moreover have "length us = card ({pdx a} - dirs (kmemory s) pgdir)" using dir by (cases ?pr) (simp_all add: us_def insert_Diff_if)
    ultimately show thesis using that [OF run st(1) vs] d1 d2 st(2) or_present entry(6) by simp
  qed
qed

text \<open>Mapping a list of addresses takes as many free pages as there are directory entries to fill.\<close>

lemma card_next: "finite B \<Longrightarrow> card (insert x B - D) = card ({x} - D) + card (B - insert x D)"
proof -
  assume "finite B"
  then have "card (({x} - D) \<union> (B - insert x D)) = card ({x} - D) + card (B - insert x D)" by (intro card_Un_disjoint) auto
  moreover have "insert x B - D = ({x} - D) \<union> (B - insert x D)" by auto
  ultimately show ?thesis by simp
qed

lemma new_entry_none: "vpn w \<notin> vpn ` set as \<Longrightarrow> new_entry as pa perm w = None"
  by (induction as arbitrary: pa) auto

lemma map_many:
  assumes "pt_wf s pgdir vs" and "distinct (map vpn as)" and "\<forall>a \<in> set as. mapping (kmemory s) pgdir a = None"
    and "card (pdx ` set as - dirs (kmemory s) pgdir) \<le> length vs"
  shows "\<exists>s' us vs'. mappages_loop pgdir as pa perm s = Ok 0 s' \<and> pt_wf s' pgdir vs' \<and> vs = us @ vs' \<and>
    length us = card (pdx ` set as - dirs (kmemory s) pgdir) \<and> dirs (kmemory s') pgdir = dirs (kmemory s) pgdir \<union> pdx ` set as \<and>
    pt_step pgdir s us s' \<and>
    (\<forall>w. mapping (kmemory s') pgdir w = (case new_entry as pa perm w of None \<Rightarrow> mapping (kmemory s) pgdir w | Some e \<Rightarrow> Some e))"
  using assms
proof (induction as arbitrary: s vs pa)
  case Nil
  then show ?case by (auto simp: retK_def pt_step_refl)
next
  case (Cons a as)
  have c: "card (pdx ` set (a # as) - dirs (kmemory s) pgdir) =
      card ({pdx a} - dirs (kmemory s) pgdir) + card (pdx ` set as - insert (pdx a) (dirs (kmemory s) pgdir))"
    unfolding list.set image_insert by (rule card_next) simp
  have ha: "mapping (kmemory s) pgdir a = None" "card ({pdx a} - dirs (kmemory s) pgdir) \<le> length vs"
    using Cons.prems(3,4) unfolding c by simp_all
  obtain t us vs1 where t:
    "mappages_loop pgdir (a # as) pa perm s = mappages_loop pgdir as (pa + PGSIZE) perm t"
    "pt_wf t pgdir vs1" "vs = us @ vs1" "length us = card ({pdx a} - dirs (kmemory s) pgdir)"
    "dirs (kmemory t) pgdir = insert (pdx a) (dirs (kmemory s) pgdir)" "pt_step pgdir s us t"
    "\<And>w. mapping (kmemory t) pgdir w = (if vpn w = vpn a then Some (pa OR perm OR PTE_P) else mapping (kmemory s) pgdir w)"
    by (rule map_one [OF Cons.prems(1) ha, of as pa perm]) blast
  have "\<forall>b \<in> set as. mapping (kmemory t) pgdir b = None" using Cons.prems(2,3) by (auto simp: t(7) image_iff)
  from Cons.IH [OF t(2) _ this, of "pa + PGSIZE"] Cons.prems(2,4) t(3,4,5) c obtain s' us' vs' where ih:
    "mappages_loop pgdir as (pa + PGSIZE) perm t = Ok 0 s'" "pt_wf s' pgdir vs'" "vs1 = us' @ vs'"
    "length us' = card (pdx ` set as - dirs (kmemory t) pgdir)" "dirs (kmemory s') pgdir = dirs (kmemory t) pgdir \<union> pdx ` set as"
    "pt_step pgdir t us' s'"
    "\<And>w. mapping (kmemory s') pgdir w = (case new_entry as (pa + PGSIZE) perm w of None \<Rightarrow> mapping (kmemory t) pgdir w | Some e \<Rightarrow> Some e)"
    by auto
  have na: "vpn a \<notin> vpn ` set as" using Cons.prems(2) by simp
  have "mapping (kmemory s') pgdir w = (case new_entry (a # as) pa perm w of None \<Rightarrow> mapping (kmemory s) pgdir w | Some e \<Rightarrow> Some e)" for w
    using ih(7) [of w] t(7) [of w] new_entry_none [of w as] na by (cases "vpn w = vpn a") (auto split: option.splits)
  moreover have "pt_step pgdir s (us @ us') s'" using pt_step_trans [OF t(6) ih(6)] .
  ultimately show ?case using t(1,3,4,5) ih(1-5) c
    by (intro exI [of _ s'] exI [of _ "us @ us'"] exI [of _ vs']) (auto simp: c)
qed

lemma pdx_vpn: "pdx w = vpn w div 1024"
  by (simp add: pdx_def vpn_def flip: div_mult2_eq)

lemma div_image: "(a :: nat) \<le> b \<Longrightarrow> (\<lambda>k. k div 1024) ` {a..b} = {a div 1024..b div 1024}"
proof
  assume ab: "a \<le> b"
  show "{a div 1024..b div 1024} \<subseteq> (\<lambda>k. k div 1024) ` {a..b}"
  proof
    fix x assume x: "x \<in> {a div 1024..b div 1024}"
    have "max a (1024 * x) \<in> {a..b}" "max a (1024 * x) div 1024 = x"
      using x ab by (auto simp: max_def less_eq_div_iff_mult_less_eq mult.commute)
    then show "x \<in> (\<lambda>k. k div 1024) ` {a..b}" by (metis image_eqI)
  qed
qed (auto intro: div_le_mono)

text \<open>The addresses of a range of pages.\<close>

definition range_addrs :: "nat \<Rightarrow> nat \<Rightarrow> uint list" where
  "range_addrs i j = map (\<lambda>k. of_nat (k * 4096)) [i..<j + 1]"

lemma range_addrs:
  assumes "i \<le> j" and "j < 2 ^ 20"
  shows "map vpn (range_addrs i j) = [i..<j + 1]" "x \<in> vpn ` set (range_addrs i j) \<longleftrightarrow> i \<le> x \<and> x \<le> j"
    "new_entry (range_addrs i j) pa perm w = (if i \<le> vpn w \<and> vpn w \<le> j then Some ((pa + of_nat (vpn w - i) * PGSIZE) OR perm OR PTE_P) else None)"
proof -
  have vp: "vpn (of_nat (k * 4096)) = k" if "k \<in> set [i..<j + 1]" for k using that assms(2) by (intro vpn_page) auto
  then show m: "map vpn (range_addrs i j) = [i..<j + 1]" unfolding range_addrs_def map_map by (intro map_idI) (simp only: comp_def)
  show rng: "x \<in> vpn ` set (range_addrs i j) \<longleftrightarrow> i \<le> x \<and> x \<le> j" for x unfolding set_map [symmetric] m by auto
  show "new_entry (range_addrs i j) pa perm w = (if i \<le> vpn w \<and> vpn w \<le> j then Some ((pa + of_nat (vpn w - i) * PGSIZE) OR perm OR PTE_P) else None)"
  proof (cases "i \<le> vpn w \<and> vpn w \<le> j")
    case True
    then have "new_entry (range_addrs i j) pa perm w = Some ((pa + of_nat (vpn w - i) * PGSIZE) OR perm OR PTE_P)"
      unfolding range_addrs_def using assms(2) by (intro new_entry_upt) auto
    then show ?thesis using True by simp
  next
    case False
    then show ?thesis using new_entry_none [of w "range_addrs i j"] unfolding rng by simp
  qed
qed

lemma mappages_range:
  "vpn va \<le> vpn z \<Longrightarrow> z = va + len - 1 \<Longrightarrow> mappages pgdir va len pa perm = mappages_loop pgdir (range_addrs (vpn va) (vpn z)) pa perm"
  by (simp add: mappages_def vpn_map_addrs range_addrs_def)

lemma mappages_step:
  assumes wf: "pt_wf s pgdir vs" and le: "vpn va \<le> vpn z" and z: "z = va + len - 1"
    and none: "\<And>w. vpn va \<le> vpn w \<Longrightarrow> vpn w \<le> vpn z \<Longrightarrow> mapping (kmemory s) pgdir w = None"
    and enough: "card ({pdx va..pdx z} - dirs (kmemory s) pgdir) \<le> length vs"
  obtains s' us vs' where "mappages pgdir va len pa perm s = Ok 0 s'" "pt_wf s' pgdir vs'" "vs = us @ vs'"
    "length us = card ({pdx va..pdx z} - dirs (kmemory s) pgdir)" "dirs (kmemory s') pgdir = dirs (kmemory s) pgdir \<union> {pdx va..pdx z}"
    "pt_step pgdir s us s'"
    "\<And>w. mapping (kmemory s') pgdir w = (if vpn va \<le> vpn w \<and> vpn w \<le> vpn z
       then Some ((pa + of_nat (vpn w - vpn va) * PGSIZE) OR perm OR PTE_P) else mapping (kmemory s) pgdir w)"
proof -
  let ?as = "range_addrs (vpn va) (vpn z)"
  note ra = range_addrs [OF le vpn_bound]
  have "pdx ` set ?as = (\<lambda>k. k div 1024) ` vpn ` set ?as" by (auto simp: pdx_vpn image_image)
  also have "vpn ` set ?as = {vpn va..vpn z}" unfolding set_map [symmetric] ra(1) by auto
  finally have px: "pdx ` set ?as = {pdx va..pdx z}" using div_image [OF le] by (simp add: pdx_vpn)
  have "\<forall>a \<in> set ?as. mapping (kmemory s) pgdir a = None" using none ra(2) by blast
  from map_many [OF wf _ this, of pa perm] ra(1) px enough obtain s' us vs' where s':
    "mappages_loop pgdir ?as pa perm s = Ok 0 s'" "pt_wf s' pgdir vs'" "vs = us @ vs'"
    "length us = card ({pdx va..pdx z} - dirs (kmemory s) pgdir)" "dirs (kmemory s') pgdir = dirs (kmemory s) pgdir \<union> {pdx va..pdx z}"
    "pt_step pgdir s us s'"
    "\<forall>w. mapping (kmemory s') pgdir w = (case new_entry ?as pa perm w of None \<Rightarrow> mapping (kmemory s) pgdir w | Some e \<Rightarrow> Some e)"
    by (metis distinct_upt)
  then show thesis using that [OF _ s'(2-6)] unfolding mappages_range [OF le z] ra(3) by simp
qed

section \<open>The kernel part of an address space\<close>

text \<open>There are enough free pages for the page tables of the directory entries \<open>K\<close> and \<open>n\<close> pages more.\<close>

definition within :: "nat set \<Rightarrow> nat \<Rightarrow> memory \<Rightarrow> uint \<Rightarrow> uint list \<Rightarrow> bool" where
  "within K n m pgdir vs \<longleftrightarrow> finite K \<and> dirs m pgdir \<subseteq> K \<and> card K + n \<le> card (dirs m pgdir) + length vs"

lemma within_enough:
  assumes "within K n m pgdir vs" and "X \<subseteq> K"
  shows "card (X - dirs m pgdir) \<le> length vs"
proof -
  have "card (X - dirs m pgdir) \<le> card (K - dirs m pgdir)" using assms by (intro card_mono) (auto simp: within_def)
  also have "\<dots> = card K - card (dirs m pgdir)" using assms by (intro card_Diff_subset) (auto simp: within_def)
  finally show ?thesis using assms unfolding within_def by linarith
qed

lemma within_step:
  assumes "within K n m pgdir vs" and "X \<subseteq> K" and "vs = us @ vs'" and "length us = card (X - dirs m pgdir)"
    and "dirs m' pgdir = dirs m pgdir \<union> X"
  shows "within K n m' pgdir vs'"
proof -
  have "finite X" using assms(1,2) finite_subset by (auto simp: within_def)
  then have "card (dirs m pgdir \<union> (X - dirs m pgdir)) = card (dirs m pgdir) + card (X - dirs m pgdir)"
    by (intro card_Un_disjoint) auto
  then show ?thesis using assms by (auto simp: within_def)
qed

text \<open>The entry of an address in a list of mappings like \<^verbatim>\<open>kmap\<close>; the mappings are not empty and do not overlap.\<close>

fun kmap_mapping :: "(uint \<times> uint \<times> uint \<times> uint) list \<Rightarrow> uint \<Rightarrow> uint option" where
  "kmap_mapping [] w = None"
| "kmap_mapping ((virt, ps, pe, perm) # ks) w =
     (if vpn virt \<le> vpn w \<and> vpn w \<le> vpn (virt + (pe - ps) - 1)
      then Some ((ps + of_nat (vpn w - vpn virt) * PGSIZE) OR perm OR PTE_P) else kmap_mapping ks w)"

fun kmap_ok :: "nat set \<Rightarrow> (uint \<times> uint \<times> uint \<times> uint) list \<Rightarrow> bool" where
  "kmap_ok K [] \<longleftrightarrow> True"
| "kmap_ok K ((virt, ps, pe, perm) # ks) \<longleftrightarrow> vpn virt \<le> vpn (virt + (pe - ps) - 1) \<and> {pdx virt..pdx (virt + (pe - ps) - 1)} \<subseteq> K \<and>
     (\<forall>w. vpn virt \<le> vpn w \<and> vpn w \<le> vpn (virt + (pe - ps) - 1) \<longrightarrow> kmap_mapping ks w = None) \<and> kmap_ok K ks"

lemma setupkvm_loop_effect:
  assumes "pt_wf s d vs" and "within K n (kmemory s) d vs" and "kmap_ok K ks" and "\<And>w. kmap_mapping ks w \<noteq> None \<Longrightarrow> mapping (kmemory s) d w = None"
  shows "\<exists>s' us vs'. setupkvm_loop d ks s = Ok d s' \<and> pt_wf s' d vs' \<and> vs = us @ vs' \<and> within K n (kmemory s') d vs' \<and> pt_step d s us s' \<and>
    (\<forall>w. mapping (kmemory s') d w = (case kmap_mapping ks w of None \<Rightarrow> mapping (kmemory s) d w | Some e \<Rightarrow> Some e))"
  using assms
proof (induction ks arbitrary: s vs)
  case Nil
  then show ?case by (intro exI [of _ s] exI [of _ "[]"] exI [of _ vs]) (simp add: retK_def pt_step_refl)
next
  case (Cons k ks)
  obtain virt ps pe perm where k: "k = (virt, ps, pe, perm)" by (cases k)
  define z where "z = virt + (pe - ps) - 1"
  have ok: "vpn virt \<le> vpn z" "{pdx virt..pdx z} \<subseteq> K" "kmap_ok K ks"
    and dis: "\<And>w. vpn virt \<le> vpn w \<Longrightarrow> vpn w \<le> vpn z \<Longrightarrow> kmap_mapping ks w = None"
    using Cons.prems(3) by (simp_all add: k z_def)
  have none: "mapping (kmemory s) d w = None" if "vpn virt \<le> vpn w" "vpn w \<le> vpn z" for w
    using that Cons.prems(4) by (simp add: k z_def)
  obtain t us vs1 where t: "mappages d virt (pe - ps) ps perm s = Ok 0 t" "pt_wf t d vs1" "vs = us @ vs1"
    "length us = card ({pdx virt..pdx z} - dirs (kmemory s) d)" "dirs (kmemory t) d = dirs (kmemory s) d \<union> {pdx virt..pdx z}" "pt_step d s us t"
    "\<And>w. mapping (kmemory t) d w = (if vpn virt \<le> vpn w \<and> vpn w \<le> vpn z
       then Some ((ps + of_nat (vpn w - vpn virt) * PGSIZE) OR perm OR PTE_P) else mapping (kmemory s) d w)"
    by (rule mappages_step [OF Cons.prems(1) ok(1) z_def none within_enough [OF Cons.prems(2) ok(2)], of ps perm]) blast+
  have run: "setupkvm_loop d (k # ks) s = setupkvm_loop d ks t" using t(1) by (simp add: k kdefs)
  have "mapping (kmemory t) d w = None" if "kmap_mapping ks w \<noteq> None" for w
    using that t(7) [of w] dis [of w] Cons.prems(4) [of w] by (auto simp: k z_def)
  from Cons.IH [OF t(2) within_step [OF Cons.prems(2) ok(2) t(3,4,5)] ok(3) this] obtain s' us' vs' where ih:
    "setupkvm_loop d ks t = Ok d s'" "pt_wf s' d vs'" "vs1 = us' @ vs'" "within K n (kmemory s') d vs'" "pt_step d t us' s'"
    "\<And>w. mapping (kmemory s') d w = (case kmap_mapping ks w of None \<Rightarrow> mapping (kmemory t) d w | Some e \<Rightarrow> Some e)" by blast
  have "mapping (kmemory s') d w = (case kmap_mapping (k # ks) w of None \<Rightarrow> mapping (kmemory s) d w | Some e \<Rightarrow> Some e)" for w
    using ih(6) [of w] t(7) [of w] dis [of w] by (auto simp: k z_def split: option.splits)
  then show ?case using run ih(1,2,4) pt_step_trans [OF t(6) ih(5)] t(3) ih(3)
    by (intro exI [of _ s'] exI [of _ "us @ us'"] exI [of _ vs']) simp
qed

text \<open>The entries of the kernel's addresses.\<close>

definition kmapping :: "uint \<Rightarrow> uint \<Rightarrow> uint option" where
  "kmapping kdata w =
     (let pg = PGROUNDDOWN w in
      if w < KERNBASE then None
      else if w < KERNLINK then Some (V2P pg OR PTE_W OR PTE_P)
      else if w < kdata then Some (V2P pg OR 0 OR PTE_P)
      else if w < P2V PHYSTOP then Some (V2P pg OR PTE_W OR PTE_P)
      else if w < DEVSPACE then None
      else Some (pg OR PTE_W OR PTE_P))"

lemma unat_PGROUNDDOWN: "unat (PGROUNDDOWN x) = 4096 * vpn x"
  using unat_round [of x] by (simp add: PGROUNDDOWN_def PGSIZE_def vpn_def)

lemma page_offset:
  assumes "page_aligned va" and "vpn va \<le> vpn w"
  shows "va + of_nat (vpn w - vpn va) * PGSIZE = PGROUNDDOWN w"
proof -
  obtain k where k: "vpn w = vpn va + k" using assms(2) le_Suc_ex by blast
  have "4096 * vpn va = unat va" using assms(1) by (auto simp: page_aligned_unat vpn_def)
  then have "va = of_nat (4096 * vpn va)" by (metis of_nat_unat ucast_id)
  then have "va + of_nat k * 4096 = of_nat (4096 * vpn w)" by (simp add: k algebra_simps)
  also have "\<dots> = PGROUNDDOWN w" using unat_PGROUNDDOWN [of w] by (metis of_nat_unat ucast_id)
  finally show ?thesis by (simp add: k PGSIZE_def)
qed

lemma V2P_add: "V2P v + x = V2P (v + x)"
  by (simp add: V2P_def)

lemma vpn_less:
  assumes "page_aligned b"
  shows "w < b \<longleftrightarrow> vpn w < vpn b"
proof -
  have "4096 * vpn b = unat b" using assms by (auto simp: page_aligned_unat vpn_def)
  then show ?thesis by (auto simp: word_less_nat_alt vpn_def less_mult_imp_div_less mult.commute)
qed

lemma vpn_pred:
  assumes "page_aligned b" and "b \<noteq> 0"
  shows "vpn (b - 1) = vpn b - 1"
proof -
  have u: "unat b = 4096 * vpn b" using assms(1) by (auto simp: page_aligned_unat vpn_def)
  have "unat (b - 1) = unat b - 1" using assms(2) by (simp add: unat_minus_one)
  moreover have "0 < vpn b" using u assms(2) by (metis gr0I mult_0_right unat_eq_zero)
  ultimately show ?thesis using u unfolding vpn_def [of "b - 1"] by (cases "vpn b") simp_all
qed

text \<open>A page taken from the allocator and filled with zeros is an empty page directory.\<close>

lemma new_dir:
  assumes ok: "kmem_ok s (d # vs)" and l: "L_kmem \<notin> set (klocks s)"
    and s': "s' = s\<lparr>freelist := load32 (kmemory s) d, kmemory := memset (kmemory s) d 0 PGSIZE\<rparr>"
  shows "pt_wf s' d vs" "dirs (kmemory s') d = {}" "tables (kmemory s') d = {}" "mapping (kmemory s') d w = None"
proof -
  have d: "page_ok (kernel_end s) d" "page_aligned d" "d \<notin> set vs" using kpages.pool_pages [OF ok] by (auto simp: page_ok_def)
  have z: "load32 (kmemory s') (slot d i) = 0" if "i < 1024" for i using slot_memset [OF d(2,2) that] by (simp add: s')
  have "kmem_ok s' vs" unfolding s' by (rule kalloc_write [OF ok]) (simp add: memset_page)
  then show "pt_wf s' d vs" using d z not_present_0 l by (simp add: pt_wf_def s')
  show di: "dirs (kmemory s') d = {}" using z not_present_0 by (auto simp: dirs_def)
  then show "tables (kmemory s') d = {}" by (simp add: tables_def)
  show "mapping (kmemory s') d w = None" using z [OF pdx_ptx_bounds(1)] not_present_0 by (simp add: mapping_def)
qed

text \<open>The directory entries that the kernel's addresses need.\<close>

definition kdirs :: "nat set" where
  "kdirs = {512..567} \<union> {1016..1023}"

lemma card_kdirs: "finite kdirs" "card kdirs = 64"
  by (simp_all add: kdirs_def card_Un_disjoint)

lemma kmap_consts:
  "vpn KERNBASE = 0x80000" "vpn KERNLINK = 0x80100" "vpn (P2V PHYSTOP) = 0x8E000" "vpn DEVSPACE = 0xFE000"
  "page_aligned KERNBASE" "page_aligned KERNLINK" "page_aligned (P2V PHYSTOP)" "page_aligned DEVSPACE"
  by (simp_all add: vpn_def page_aligned_def PGSIZE_def KERNBASE_def KERNLINK_def EXTMEM_def P2V_def PHYSTOP_def DEVSPACE_def)

lemma kmap_kernel:
  assumes kd: "page_aligned kdata" "KERNLINK < kdata" "kdata < P2V PHYSTOP" and K: "kdirs \<subseteq> K"
  shows "kmap_ok K (kmap kdata)" "kmap_mapping (kmap kdata) w = kmapping kdata w"
proof -
  note c = kmap_consts
  have k: "0x80100 < vpn kdata" "vpn kdata < 0x8E000" using kd vpn_less [OF kd(1)] vpn_less [OF c(7)] c(2,3) by auto
  have k0: "kdata \<noteq> 0" using k by (auto simp: vpn_def)
  have z: "KERNBASE + (EXTMEM - 0) - 1 = KERNLINK - 1" "KERNLINK + (V2P kdata - V2P KERNLINK) - 1 = kdata - 1"
    "kdata + (PHYSTOP - V2P kdata) - 1 = P2V PHYSTOP - 1" "DEVSPACE + (0 - DEVSPACE) - 1 = -1"
    by (simp_all add: KERNLINK_def V2P_def P2V_def)
  have v: "vpn (KERNLINK - 1) = 0x800FF" "vpn (kdata - 1) = vpn kdata - 1" "vpn (P2V PHYSTOP - 1) = 0x8DFFF" "vpn (-1) = 0xFFFFF"
    using vpn_pred [OF kd(1) k0] by (simp_all add: vpn_def KERNBASE_def KERNLINK_def EXTMEM_def P2V_def PHYSTOP_def unsigned_minus_1_eq_mask mask_eq_exp_minus_1)
  have dv: "512 \<le> vpn kdata div 1024" "(vpn kdata - 1) div 1024 \<le> 567" using k by auto
  note s = pdx_vpn c v
  show "kmap_ok K (kmap kdata)" using K k dv unfolding kmap_def kmap_ok.simps kmap_mapping.simps z
    by (auto simp: s kdirs_def)
  have o0: "of_nat (vpn w - vpn KERNBASE) * PGSIZE = V2P (PGROUNDDOWN w)" if "vpn KERNBASE \<le> vpn w"
    unfolding V2P_def using page_offset [OF c(5) that] by (metis add_diff_cancel_left')
  note o = o0 page_offset [OF c(6)] page_offset [OF c(8)] page_offset [OF kd(1)]
  have w: "vpn w \<le> 0xFFFFF" using vpn_bound [of w] by simp
  show "kmap_mapping (kmap kdata) w = kmapping kdata w"
    using k w o unfolding kmap_def kmap_mapping.simps kmapping_def z vpn_less [OF c(5)] vpn_less [OF c(6)] vpn_less [OF c(7)] vpn_less [OF c(8)] vpn_less [OF kd(1)] Let_def V2P_add
    by (auto simp: s)
qed

lemma setupkvm_correct:
  assumes ok: "kmem_ok s vs" and l: "L_kmem \<notin> set (klocks s)" and kd: "page_aligned kdata" "KERNLINK < kdata" "kdata < P2V PHYSTOP"
    and K: "finite K" "kdirs \<subseteq> K" "card K + n < length vs"
  obtains d us vs' s' where "setupkvm kdata s = Ok d s'" "vs = d # us @ vs'" "pt_wf s' d vs'" "within K n (kmemory s') d vs'"
    "tables (kmemory s') d = set us" "\<And>x. \<forall>p \<in> set (d # us). \<not> in_page x p \<Longrightarrow> kmemory s' x = kmemory s x"
    "s' = s\<lparr>kmemory := kmemory s', freelist := freelist s'\<rparr>" "\<And>w. mapping (kmemory s') d w = kmapping kdata w"
proof -
  obtain d vs1 where vs: "vs = d # vs1" using K(3) by (cases vs) auto
  define t where "t = s\<lparr>freelist := load32 (kmemory s) d, kmemory := memset (kmemory s) d 0 PGSIZE\<rparr>"
  note nd = new_dir [OF ok [unfolded vs] l t_def]
  have d0: "d \<noteq> 0" using kpages.pool_pages [OF ok] vs by auto
  have "\<not> DEVSPACE < P2V PHYSTOP" by (simp add: P2V_def PHYSTOP_def DEVSPACE_def KERNBASE_def)
  then have run: "setupkvm kdata s = setupkvm_loop d (kmap kdata) t"
    using kalloc_run(2) [OF ok l vs] d0 by (simp add: setupkvm_def kdefs memsetK_def t_def)
  have wi: "within K n (kmemory t) d vs1" using nd(2) K vs by (simp add: within_def)
  from setupkvm_loop_effect [OF nd(1) wi kmap_kernel(1) [OF kd K(2)]] nd(4) obtain s' us vs' where s':
    "setupkvm_loop d (kmap kdata) t = Ok d s'" "pt_wf s' d vs'" "vs1 = us @ vs'" "within K n (kmemory s') d vs'" "pt_step d t us s'"
    "\<forall>w. mapping (kmemory s') d w = (case kmap_mapping (kmap kdata) w of None \<Rightarrow> mapping (kmemory t) d w | Some e \<Rightarrow> Some e)" by auto
  have "mapping (kmemory s') d w = kmapping kdata w" for w using s'(6) nd(4) kmap_kernel(2) [OF kd K(2)] by (simp split: option.splits)
  moreover have "kmemory s' x = kmemory s x" if "\<forall>p \<in> set (d # us). \<not> in_page x p" for x
    using s'(5) nd(3) that by (simp add: pt_step_def t_def memset_page)
  moreover have "s' = s\<lparr>kmemory := kmemory s', freelist := freelist s'\<rparr>"
    by (rule mem_only_trans [where t = t and m = "kmemory t" and f = "freelist t"]) (use s'(5) in \<open>simp_all add: pt_step_def t_def\<close>)
  ultimately show thesis using that [of d s' us vs'] run s'(1-5) vs nd(3) by (simp add: pt_step_def)
qed

section \<open>Copying a process's memory\<close>

text \<open>The pages that operations on the directory may write: its own and the free ones.\<close>

definition owned :: "memory \<Rightarrow> uint \<Rightarrow> uint list \<Rightarrow> uint set" where
  "owned m pgdir vs = insert pgdir (tables m pgdir) \<union> set vs"

lemma owned_aligned: "pt_wf s pgdir vs \<Longrightarrow> p \<in> owned (kmemory s) pgdir vs \<Longrightarrow> page_aligned p"
  using pt_wfD(3,5,7) [of s pgdir vs] by (auto simp: owned_def tables_def dirs_def page_ok_def)

lemma slot_frame:
  assumes "page_aligned p" "i < 1024" "\<forall>x. in_page x p \<longrightarrow> m' x = m x"
  shows "load32 m' (slot p i) = load32 m (slot p i)"
proof -
  have "m' (slot p i + of_nat k) = m (slot p i + of_nat k)" if "k < 4" for k
    using slot_in_page [OF assms(1,2) that] assms(3) by blast
  from this [of 0] this [of 1] this [of 2] this [of 3] show ?thesis by (simp add: load32_def)
qed

lemma mapping_frame:
  assumes al: "\<forall>p \<in> insert pgdir (tables m pgdir). page_aligned p"
    and eq: "\<forall>p \<in> insert pgdir (tables m pgdir). \<forall>x. in_page x p \<longrightarrow> m' x = m x"
  shows "dirs m' pgdir = dirs m pgdir" "tables m' pgdir = tables m pgdir" "mapping m' pgdir w = mapping m pgdir w"
proof -
  have ld: "load32 m' (slot p i) = load32 m (slot p i)" if "p \<in> insert pgdir (tables m pgdir)" "i < 1024" for p i
    using slot_frame [OF _ that(2)] al eq that(1) by blast
  show d: "dirs m' pgdir = dirs m pgdir" using ld by (auto simp: dirs_def)
  show "tables m' pgdir = tables m pgdir" unfolding tables_def d using ld by (intro image_cong) (auto simp: dirs_def)
  show "mapping m' pgdir w = mapping m pgdir w"
  proof (cases "present (load32 m (slot pgdir (pdx w)))")
    case True
    then have "pgtab (load32 m (slot pgdir (pdx w))) \<in> tables m pgdir" using pdx_ptx_bounds(1) by (auto simp: tables_def dirs_def)
    then have "load32 m' (slot pgdir (pdx w)) = load32 m (slot pgdir (pdx w))"
      "load32 m' (slot (pgtab (load32 m (slot pgdir (pdx w)))) (ptx w)) = load32 m (slot (pgtab (load32 m (slot pgdir (pdx w)))) (ptx w))"
      using ld pdx_ptx_bounds by blast+
    then show ?thesis unfolding mapping_def Let_def by simp
  next
    case False
    then show ?thesis using ld pdx_ptx_bounds by (simp add: mapping_def)
  qed
qed

lemma walk_mapped:
  assumes "mapping (kmemory s) pgdir a = Some e"
  obtains p where "walkpgdir pgdir a False s = Ok (Some p) s" "load32 (kmemory s) p = e" "present e"
  using assms by (auto simp: mapping_def Let_def walkpgdir_def PDX_slot PTX_slot rd32_def kdefs present_def pgtab_def split: if_splits)

lemma other_page:
  assumes wf: "pt_wf s pgdir vs" and v: "page_aligned v" "v \<notin> insert pgdir (tables (kmemory s) pgdir)" and m: "\<And>x. \<not> in_page x v \<Longrightarrow> m x = kmemory s x"
  shows "\<forall>p \<in> insert pgdir (tables (kmemory s) pgdir). page_aligned p"
    "\<forall>p \<in> insert pgdir (tables (kmemory s) pgdir). \<forall>x. in_page x p \<longrightarrow> m x = kmemory s x"
proof -
  show al: "\<forall>p \<in> insert pgdir (tables (kmemory s) pgdir). page_aligned p" using owned_aligned [OF wf] by (auto simp: owned_def)
  show "\<forall>p \<in> insert pgdir (tables (kmemory s) pgdir). \<forall>x. in_page x p \<longrightarrow> m x = kmemory s x"
    using m al v page_disjoint by (metis insertE)
qed

text \<open>A page taken from the allocator and written does not disturb the directory.\<close>

lemma pt_wf_alloc:
  assumes wf: "pt_wf s pgdir (v # vs)" and m: "\<And>x. \<not> in_page x v \<Longrightarrow> m x = kmemory s x"
    and s': "s' = s\<lparr>freelist := load32 (kmemory s) v, kmemory := m\<rparr>"
  shows "pt_wf s' pgdir vs" "dirs m pgdir = dirs (kmemory s) pgdir" "tables m pgdir = tables (kmemory s) pgdir"
    "mapping m pgdir w = mapping (kmemory s) pgdir w"
proof -
  note d = pt_wfD [OF wf]
  have v: "page_aligned v" "v \<notin> insert pgdir (tables (kmemory s) pgdir)" using d(4,5,7) by (auto simp: page_ok_def tables_def dirs_def)
  note eq = other_page(2) [OF wf v m]
  note fr = mapping_frame [OF other_page(1) [OF wf v m] eq]
  show "dirs m pgdir = dirs (kmemory s) pgdir" "tables m pgdir = tables (kmemory s) pgdir" "mapping m pgdir w = mapping (kmemory s) pgdir w"
    using fr by blast+
  have "load32 m (slot pgdir i) = load32 (kmemory s) (slot pgdir i)" if "i < 1024" for i
    using slot_frame [OF d(3) that] eq by blast
  then show "pt_wf s' pgdir vs" using wf kalloc_write [OF d(1) m] unfolding pt_wf_def s' by simp
qed

lemma vpn_last: "page_aligned a \<Longrightarrow> vpn (a + PGSIZE - 1) = vpn a"
proof -
  assume a: "page_aligned a"
  have "unat (a + 4095) = unat a + 4095" using page_unat(2) [OF a] by (subst unat_add_noovf) simp_all
  moreover obtain k where "unat a = 4096 * k" using a by (auto simp: page_aligned_unat elim: dvdE)
  moreover have z: "a + PGSIZE - 1 = a + 4095" by (simp add: PGSIZE_def)
  ultimately show ?thesis unfolding vpn_def z by simp
qed

text \<open>A new page \<open>mem\<close>, filled with the bytes of \<open>m\<close>, is mapped at \<open>a\<close>.\<close>

lemma add_page:
  assumes wf: "pt_wf s d (mem # vs)" and K: "within K (Suc n) (kmemory s) d (mem # vs)" and m: "\<forall>x. \<not> in_page x mem \<longrightarrow> m x = kmemory s x"
    and a: "page_aligned a" "pdx a \<in> K" "mapping (kmemory s) d a = None"
    and t: "t = s\<lparr>freelist := load32 (kmemory s) mem, kmemory := m\<rparr>"
  obtains s' us vs' where "mappages d a PGSIZE (V2P mem) perm t = Ok 0 s'" "vs = us @ vs'" "pt_wf s' d vs'" "within K n (kmemory s') d vs'"
    "tables (kmemory s') d = tables (kmemory s) d \<union> set us"
    "\<And>w. mapping (kmemory s') d w = (if vpn w = vpn a then Some (V2P mem OR perm OR PTE_P) else mapping (kmemory s) d w)"
    "\<And>x. in_page x mem \<Longrightarrow> kmemory s' x = m x"
    "\<And>x. \<forall>p \<in> insert mem (insert d (tables (kmemory s) d \<union> set us)). \<not> in_page x p \<Longrightarrow> kmemory s' x = kmemory s x"
    "s' = s\<lparr>kmemory := kmemory s', freelist := freelist s'\<rparr>"
proof -
  note d = pt_wfD [OF wf]
  note al = pt_wf_alloc [OF wf m [rule_format] t]
  note z = vpn_last [OF a(1)]
  have tm: "kmemory t = m" by (simp add: t)
  have K1: "within K n (kmemory t) d vs" using K al(2) by (simp add: within_def t)
  have sub: "{pdx a..pdx (a + PGSIZE - 1)} \<subseteq> K" using a(2) z by (simp add: pdx_vpn)
  have none: "mapping (kmemory t) d w = None" if "vpn a \<le> vpn w" "vpn w \<le> vpn (a + PGSIZE - 1)" for w
  proof -
    have "mapping (kmemory t) d w = mapping (kmemory t) d a"
      using that z same_page [of w a] by (simp add: vpn_def mapping_def Let_def)
    then show ?thesis using al(4) [of a] a(3) by (simp add: tm)
  qed
  obtain s' us vs' where s': "mappages d a PGSIZE (V2P mem) perm t = Ok 0 s'" "pt_wf s' d vs'" "vs = us @ vs'"
    "length us = card ({pdx a..pdx (a + PGSIZE - 1)} - dirs (kmemory t) d)" "dirs (kmemory s') d = dirs (kmemory t) d \<union> {pdx a..pdx (a + PGSIZE - 1)}"
    "pt_step d t us s'"
    "\<And>w. mapping (kmemory s') d w = (if vpn a \<le> vpn w \<and> vpn w \<le> vpn (a + PGSIZE - 1)
       then Some ((V2P mem + of_nat (vpn w - vpn a) * PGSIZE) OR perm OR PTE_P) else mapping (kmemory t) d w)"
    by (rule mappages_step [OF al(1) _ refl none within_enough [OF K1 sub], of "V2P mem" perm]) (simp_all add: z)
  have mp: "mapping (kmemory s') d w = (if vpn w = vpn a then Some (V2P mem OR perm OR PTE_P) else mapping (kmemory s) d w)" for w
    using s'(7) [of w] al(4) [of w] z by (auto simp: tm)
  have "mem \<notin> insert d (tables (kmemory s) d \<union> set us)" "page_aligned mem" "\<forall>p \<in> insert d (tables (kmemory s) d \<union> set us). page_aligned p"
    using d(3-7) s'(3) owned_aligned [OF wf] by (auto simp: owned_def tables_def dirs_def page_ok_def)
  then have "\<forall>p \<in> insert d (tables (kmemory s) d \<union> set us). \<not> in_page x p" if "in_page x mem" for x
    using that page_disjoint by blast
  then have c: "kmemory s' x = m x" if "in_page x mem" for x using s'(6) al(3) that unfolding pt_step_def tm by blast
  have f: "kmemory s' x = kmemory s x" if "\<forall>p \<in> insert mem (insert d (tables (kmemory s) d \<union> set us)). \<not> in_page x p" for x
    using s'(6) al(3) that m unfolding pt_step_def tm by simp
  have "s' = s\<lparr>kmemory := kmemory s', freelist := freelist s'\<rparr>"
    by (rule mem_only_trans [where t = t and m = "kmemory t" and f = "freelist t"]) (use s'(6) in \<open>simp_all add: pt_step_def t\<close>)
  moreover have "tables (kmemory s') d = tables (kmemory s) d \<union> set us" using s'(6) al(3) by (simp add: pt_step_def tm)
  ultimately show thesis using that [OF s'(1,3,2) within_step [OF K1 sub s'(3,4,5)] _ mp c f] by blast
qed

text \<open>Copying a page.\<close>

lemma page_ok_top: "page_ok kend v \<Longrightarrow> unat v + 4096 < 2 ^ 32"
proof -
  assume "page_ok kend v"
  then have "unat (v - KERNBASE) < 234881024" by (simp add: page_ok_def V2P_def PHYSTOP_def word_less_nat_alt)
  then show ?thesis by (simp add: KERNBASE_def unat_sub_if_size word_size split: if_splits)
qed

lemma memmove_page:
  assumes "page_ok kend p" and "page_ok kend' q"
  shows "memmove m p q PGSIZE x = (if in_page x p then m (q + (x - p)) else m x)"
  using memmove_correct [of q PGSIZE p m] page_ok_top [OF assms(1)] page_ok_top [OF assms(2)]
  by (simp add: in_page_def PGSIZE_def)

lemma copy_step:
  assumes wf: "pt_wf s d vs" and K: "within K (Suc n) (kmemory s) d vs" and i: "page_aligned i" "pdx i \<in> K" "mapping (kmemory s) d i = None"
    and e: "mapping (kmemory s) pgdir i = Some e" "page_ok (kernel_end s) (pgtab e)"
  obtains mem s' us vs' where "copyuvm_loop pgdir d (i # is) s = copyuvm_loop pgdir d is s'" "vs = mem # us @ vs'" "pt_wf s' d vs'"
    "within K n (kmemory s') d vs'" "tables (kmemory s') d = tables (kmemory s) d \<union> set us"
    "\<And>w. mapping (kmemory s') d w = (if vpn w = vpn i then Some (V2P mem OR PTE_FLAGS e OR PTE_P) else mapping (kmemory s) d w)"
    "\<And>x. in_page x mem \<Longrightarrow> kmemory s' x = kmemory s (pgtab e + (x - mem))"
    "\<And>x. \<forall>p \<in> insert mem (insert d (tables (kmemory s) d \<union> set us)). \<not> in_page x p \<Longrightarrow> kmemory s' x = kmemory s x"
    "s' = s\<lparr>kmemory := kmemory s', freelist := freelist s'\<rparr>"
proof -
  have "card (dirs (kmemory s) d) \<le> card K" using K by (intro card_mono) (auto simp: within_def)
  then obtain mem vs1 where vs: "vs = mem # vs1" using K by (cases vs) (auto simp: within_def)
  note d = pt_wfD [OF wf]
  have mem: "page_ok (kernel_end s) mem" "mem \<noteq> 0" using d(5) vs page_ok_nonzero by auto
  define m where "m = memmove (kmemory s) mem (pgtab e) PGSIZE"
  have m: "m x = (if in_page x mem then kmemory s (pgtab e + (x - mem)) else kmemory s x)" for x
    unfolding m_def by (rule memmove_page [OF mem(1) e(2)])
  then have mm: "\<forall>x. \<not> in_page x mem \<longrightarrow> m x = kmemory s x" by simp
  define t where "t = s\<lparr>freelist := load32 (kmemory s) mem, kmemory := m\<rparr>"
  obtain p where p: "walkpgdir pgdir i False s = Ok (Some p) s" "load32 (kmemory s) p = e" "present e" using walk_mapped [OF e(1)] by blast
  obtain s' us vs' where s': "mappages d i PGSIZE (V2P mem) (PTE_FLAGS e) t = Ok 0 s'" "vs1 = us @ vs'" "pt_wf s' d vs'" "within K n (kmemory s') d vs'"
    "tables (kmemory s') d = tables (kmemory s) d \<union> set us"
    "\<And>w. mapping (kmemory s') d w = (if vpn w = vpn i then Some (V2P mem OR PTE_FLAGS e OR PTE_P) else mapping (kmemory s) d w)"
    "\<And>x. in_page x mem \<Longrightarrow> kmemory s' x = m x"
    "\<And>x. \<forall>p \<in> insert mem (insert d (tables (kmemory s) d \<union> set us)). \<not> in_page x p \<Longrightarrow> kmemory s' x = kmemory s x"
    "s' = s\<lparr>kmemory := kmemory s', freelist := freelist s'\<rparr>"
    by (rule add_page [OF wf [unfolded vs] K [unfolded vs] mm i t_def, of "PTE_FLAGS e"]) blast
  have run: "copyuvm_loop pgdir d (i # is) s = copyuvm_loop pgdir d is s'"
    using p kalloc_run(2) [OF d(1,2) vs] mem(2) s'(1) by (simp add: kdefs rd32_def present_def memmoveK_def t_def m_def pgtab_def)
  have "kmemory s' x = kmemory s (pgtab e + (x - mem))" if "in_page x mem" for x using s'(7) [OF that] m that by simp
  moreover have "vs = mem # us @ vs'" using vs s'(2) by simp
  ultimately show thesis using that [OF run _ s'(3-6) _ s'(8,9)] by blast
qed

text \<open>
  The page \<open>f\<close>, mapped at \<open>i\<close> in \<open>d\<close>, is a copy of the page that \<open>pgdir\<close> mapped there in the memory \<open>m\<close>.
\<close>

definition page_copy :: "memory \<Rightarrow> uint \<Rightarrow> memory \<Rightarrow> uint \<Rightarrow> uint \<Rightarrow> uint \<Rightarrow> bool" where
  "page_copy m pgdir m' d i f \<longleftrightarrow> (\<exists>e. mapping m pgdir i = Some e \<and> present e \<and>
     (\<forall>w. vpn w = vpn i \<longrightarrow> mapping m' d w = Some (V2P f OR PTE_FLAGS e OR PTE_P)) \<and>
     (\<forall>x. in_page x f \<longrightarrow> m' x = m (pgtab e + (x - f))))"

lemma mapping_vpn: "vpn a = vpn b \<Longrightarrow> mapping m pgdir a = mapping m pgdir b"
  using same_page [of a b] by (simp add: vpn_def mapping_def Let_def)

lemma mapping_present: "mapping m pgdir a = Some e \<Longrightarrow> present e"
  by (auto simp: mapping_def Let_def split: if_splits)

lemma pages_apart:
  assumes "page_aligned p" "p \<notin> A" "\<forall>q \<in> A. page_aligned q" "in_page x p"
  shows "\<forall>q \<in> A. \<not> in_page x q"
  using assms page_disjoint by blast

text \<open>The pages of the parent: its page directory, its page tables and the pages mapped at \<open>is\<close>.\<close>

definition parent_pages :: "memory \<Rightarrow> uint \<Rightarrow> uint list \<Rightarrow> uint set" where
  "parent_pages m pgdir is = insert pgdir (tables m pgdir) \<union> {pgtab e | i e. i \<in> set is \<and> mapping m pgdir i = Some e}"

lemma in_page_offset: "in_page (p + (x - f)) p \<longleftrightarrow> in_page x f"
  unfolding in_page_def add_diff_cancel_left' ..

lemma page_copy_old:
  assumes "page_copy m1 pgdir m' d i f" and "mapping m1 pgdir i = mapping m pgdir i"
    and "\<And>e x. mapping m pgdir i = Some e \<Longrightarrow> in_page x (pgtab e) \<Longrightarrow> m1 x = m x"
  shows "page_copy m pgdir m' d i f"
proof -
  have "m1 (pgtab e + (x - f)) = m (pgtab e + (x - f))" if "mapping m pgdir i = Some e" "in_page x f" for e x
    using that assms(3) in_page_offset by blast
  then show ?thesis using assms(1,2) unfolding page_copy_def by auto
qed

lemma free_apart: "pt_wf s pgdir vs \<Longrightarrow> v \<in> set vs \<Longrightarrow> v \<noteq> pgdir \<and> v \<notin> tables (kmemory s) pgdir"
  using pt_wfD(4,7) [of s pgdir vs] by (auto simp: tables_def dirs_def)

lemma copyuvm_loop_effect:
  assumes "pt_wf s d vs" and "within K (length is) (kmemory s) d vs"
    and "\<forall>i \<in> set is. page_aligned i \<and> pdx i \<in> K \<and> mapping (kmemory s) d i = None" and "distinct (map vpn is)"
    and "\<forall>i \<in> set is. \<exists>e. mapping (kmemory s) pgdir i = Some e \<and> page_ok (kernel_end s) (pgtab e)"
    and "\<forall>p \<in> parent_pages (kmemory s) pgdir is. page_aligned p \<and> p \<notin> owned (kmemory s) d vs"
  shows "\<exists>s' used vs' fs. copyuvm_loop pgdir d is s = Ok d s' \<and> vs = used @ vs' \<and> pt_wf s' d vs' \<and>
    s' = s\<lparr>kmemory := kmemory s', freelist := freelist s'\<rparr> \<and>
    (\<forall>x. (\<forall>p \<in> insert d (tables (kmemory s) d) \<union> set used. \<not> in_page x p) \<longrightarrow> kmemory s' x = kmemory s x) \<and>
    (\<forall>w. vpn w \<notin> vpn ` set is \<longrightarrow> mapping (kmemory s') d w = mapping (kmemory s) d w) \<and>
    distinct fs \<and> set fs \<subseteq> set used \<and> list_all2 (page_copy (kmemory s) pgdir (kmemory s') d) is fs"
  using assms
proof (induction "is" arbitrary: s vs)
  case Nil
  then show ?case by (intro exI [of _ s] exI [of _ "[]"] exI [of _ vs]) (simp add: retK_def)
next
  case (Cons i "is")
  note wf = Cons.prems(1)
  let ?P = "parent_pages (kmemory s) pgdir (i # is)"
  have i: "page_aligned i" "pdx i \<in> K" "mapping (kmemory s) d i = None" using Cons.prems(3) by auto
  obtain e where e: "mapping (kmemory s) pgdir i = Some e" "page_ok (kernel_end s) (pgtab e)" using Cons.prems(5) by auto
  obtain mem t us vs1 where t: "copyuvm_loop pgdir d (i # is) s = copyuvm_loop pgdir d is t" "vs = mem # us @ vs1" "pt_wf t d vs1"
    "within K (length is) (kmemory t) d vs1" "tables (kmemory t) d = tables (kmemory s) d \<union> set us"
    "\<And>w. mapping (kmemory t) d w = (if vpn w = vpn i then Some (V2P mem OR PTE_FLAGS e OR PTE_P) else mapping (kmemory s) d w)"
    "\<And>x. in_page x mem \<Longrightarrow> kmemory t x = kmemory s (pgtab e + (x - mem))"
    "\<And>x. \<forall>p \<in> insert mem (insert d (tables (kmemory s) d \<union> set us)). \<not> in_page x p \<Longrightarrow> kmemory t x = kmemory s x"
    "t = s\<lparr>kmemory := kmemory t, freelist := freelist t\<rparr>"
    by (rule copy_step [OF wf Cons.prems(2) [unfolded list.size add_0_right add_Suc_right] i e, of "is"]) blast
  have oa: "\<forall>q \<in> owned (kmemory s) d vs. page_aligned q" using owned_aligned [OF wf] by blast
  have keep: "kmemory t x = kmemory s x" if "p \<in> ?P" "in_page x p" for p x
  proof (rule t(8))
    have "\<forall>q \<in> owned (kmemory s) d vs. \<not> in_page x q" using Cons.prems(6) that oa by (intro pages_apart [of p]) auto
    then show "\<forall>q \<in> insert mem (insert d (tables (kmemory s) d \<union> set us)). \<not> in_page x q" by (auto simp: owned_def t(2))
  qed
  have fr: "mapping (kmemory t) pgdir w = mapping (kmemory s) pgdir w" "tables (kmemory t) pgdir = tables (kmemory s) pgdir" for w
  proof -
    have al: "\<forall>p \<in> insert pgdir (tables (kmemory s) pgdir). page_aligned p" using Cons.prems(6) by (simp add: parent_pages_def)
    have eq: "\<forall>p \<in> insert pgdir (tables (kmemory s) pgdir). \<forall>x. in_page x p \<longrightarrow> kmemory t x = kmemory s x"
      using keep unfolding parent_pages_def by blast
    show "mapping (kmemory t) pgdir w = mapping (kmemory s) pgdir w" "tables (kmemory t) pgdir = tables (kmemory s) pgdir"
      using mapping_frame(2,3) [OF al eq] by auto
  qed
  have kend: "kernel_end t = kernel_end s" by (rule mem_only_kend [OF t(9)])
  have sub: "parent_pages (kmemory t) pgdir is \<subseteq> ?P" "owned (kmemory t) d vs1 \<subseteq> owned (kmemory s) d vs"
    using fr t(2,5) by (auto simp: parent_pages_def owned_def)
  have ni: "vpn i \<notin> vpn ` set is" "distinct (map vpn is)" using Cons.prems(4) by simp_all
  have "\<forall>j \<in> set is. page_aligned j \<and> pdx j \<in> K \<and> mapping (kmemory t) d j = None" using Cons.prems(3) ni(1) t(6) by (metis image_eqI list.set_intros(2))
  moreover have "\<forall>j \<in> set is. \<exists>e. mapping (kmemory t) pgdir j = Some e \<and> page_ok (kernel_end t) (pgtab e)" using Cons.prems(5) fr kend by simp
  moreover have "\<forall>p \<in> parent_pages (kmemory t) pgdir is. page_aligned p \<and> p \<notin> owned (kmemory t) d vs1" using Cons.prems(6) sub by blast
  ultimately obtain s' used vs' fs where ih: "copyuvm_loop pgdir d is t = Ok d s'" "vs1 = used @ vs'" "pt_wf s' d vs'"
    "s' = t\<lparr>kmemory := kmemory s', freelist := freelist s'\<rparr>"
    "\<forall>x. (\<forall>p \<in> insert d (tables (kmemory t) d) \<union> set used. \<not> in_page x p) \<longrightarrow> kmemory s' x = kmemory t x"
    "\<forall>w. vpn w \<notin> vpn ` set is \<longrightarrow> mapping (kmemory s') d w = mapping (kmemory t) d w"
    "distinct fs" "set fs \<subseteq> set used" "list_all2 (page_copy (kmemory t) pgdir (kmemory s') d) is fs"
    using Cons.IH [OF t(3,4) _ ni(2)] by blast
  have new: "page_aligned mem" "mem \<notin> insert d (tables (kmemory t) d) \<union> set used" "\<forall>q \<in> insert d (tables (kmemory t) d) \<union> set used. page_aligned q"
    using pt_wfD(5,6) [OF wf] free_apart [OF wf, of mem] owned_aligned [OF t(3)] by (auto simp: t(2,5) ih(2) page_ok_def owned_def)
  have "page_copy (kmemory s) pgdir (kmemory s') d i mem"
    unfolding page_copy_def using e(1) mapping_present [OF e(1)] ih(5,6) ni(1) t(6,7) pages_apart [OF new] by (intro exI [of _ e]) metis
  moreover have "page_copy (kmemory s) pgdir (kmemory s') d j f" if j: "j \<in> set is" and pc: "page_copy (kmemory t) pgdir (kmemory s') d j f" for j f
    using page_copy_old [OF pc fr(1)] keep j by (auto simp: parent_pages_def)
  with ih(9) have "list_all2 (page_copy (kmemory s) pgdir (kmemory s') d) is fs" by (auto elim!: list.rel_mono_strong)
  moreover have "kmemory s' x = kmemory s x" if "\<forall>p \<in> insert d (tables (kmemory s) d) \<union> set (mem # us @ used). \<not> in_page x p" for x
  proof -
    have "kmemory s' x = kmemory t x" using that ih(5) by (auto simp: t(5))
    also have "\<dots> = kmemory s x" by (rule t(8)) (use that in auto)
    finally show ?thesis .
  qed
  moreover have "mapping (kmemory s') d w = mapping (kmemory s) d w" if "vpn w \<notin> vpn ` set (i # is)" for w using that ih(6) t(6) by simp
  moreover have "s' = s\<lparr>kmemory := kmemory s', freelist := freelist s'\<rparr>" by (rule mem_only_trans [OF t(9) ih(4)])
  moreover have "mem \<notin> set fs" "vs = (mem # us @ used) @ vs'" using new(2) ih(2,8) t(2) by auto
  moreover have "set (mem # fs) \<subseteq> set (mem # us @ used)" using ih(8) by auto
  ultimately show ?case unfolding t(1) using ih(1,3,7)
    by (intro exI [of _ s'] exI [of _ "mem # us @ used"] exI [of _ vs'] exI [of _ "mem # fs"]) simp
qed

lemma flags_present: "present e \<Longrightarrow> PTE_FLAGS e OR PTE_P = PTE_FLAGS e"
proof -
  assume "present e"
  then have "odd e" by (auto simp: present_def PTE_P_def and_one_eq even_iff_mod_2_eq_zero)
  then show ?thesis unfolding PTE_FLAGS_def PTE_P_def by (simp add: or_one_eq even_and_iff)
qed

lemma copied_entry:
  assumes "page_aligned f" and "present e"
  shows "pgtab (V2P f OR PTE_FLAGS e OR PTE_P) = f" "PTE_FLAGS (V2P f OR PTE_FLAGS e OR PTE_P) = PTE_FLAGS e"
proof -
  have p: "PTE_FLAGS e AND 0xFFF = PTE_FLAGS e" by (simp add: PTE_FLAGS_def and.assoc)
  show "pgtab (V2P f OR PTE_FLAGS e OR PTE_P) = f" using new_pte(2) [OF V2P_aligned [OF assms(1)] p] by (simp add: pgtab_def)
  show "PTE_FLAGS (V2P f OR PTE_FLAGS e OR PTE_P) = PTE_FLAGS e"
    using new_pte(3) [OF V2P_aligned [OF assms(1)] p] flags_present [OF assms(2)] by simp
qed

lemma pt_wf_move:
  assumes wf: "pt_wf s pgdir vs" and ok: "kmem_ok s' vs'" "set vs' \<inter> insert pgdir (tables (kmemory s) pgdir) = {}"
    and st: "klocks s' = klocks s" "kernel_end s' = kernel_end s"
    and eq: "\<forall>p \<in> insert pgdir (tables (kmemory s) pgdir). \<forall>x. in_page x p \<longrightarrow> kmemory s' x = kmemory s x"
  shows "pt_wf s' pgdir vs'"
proof -
  have "load32 (kmemory s') (slot pgdir i) = load32 (kmemory s) (slot pgdir i)" if "i < 1024" for i
    using slot_frame [OF pt_wfD(3) [OF wf] that] eq by blast
  moreover have "pgdir \<notin> set vs'" "\<And>i. i < 1024 \<Longrightarrow> present (load32 (kmemory s) (slot pgdir i)) \<Longrightarrow> pgtab (load32 (kmemory s) (slot pgdir i)) \<notin> set vs'"
    using ok(2) by (auto simp: tables_def dirs_def)
  ultimately show ?thesis using wf ok(1) st unfolding pt_wf_def by auto
qed

lemma pt_wf_frame:
  assumes wf: "pt_wf s pgdir vs" and ok: "kmem_ok s' vs'" "set vs' \<subseteq> set vs" "klocks s' = klocks s" "kernel_end s' = kernel_end s"
    and eq: "\<forall>p \<in> insert pgdir (tables (kmemory s) pgdir). \<forall>x. in_page x p \<longrightarrow> kmemory s' x = kmemory s x"
  shows "pt_wf s' pgdir vs'"
  by (rule pt_wf_move [OF wf ok(1) _ ok(3,4) eq]) (use free_apart [OF wf] ok(2) in auto)

text \<open>The addresses of the pages of a process of size \<open>sz\<close>.\<close>

lemma user_pages:
  assumes n: "n = (unat sz + 4095) div 4096" and sz: "sz \<le> KERNBASE"
  shows "length (page_addrs 0 sz) = n" "map vpn (page_addrs 0 sz) = [0..<n]" "i \<in> set (page_addrs 0 sz) \<Longrightarrow> page_aligned i \<and> i < KERNBASE"
    "n \<le> 524288"
proof -
  have "unat sz \<le> 2147483648" using sz by (simp add: word_le_nat_alt KERNBASE_def)
  then show nn: "n \<le> 524288" unfolding n by (simp add: div_le_mono [of _ "2147483648 + 4095", simplified])
  have p: "page_addrs 0 sz = map (\<lambda>k. of_nat (k * 4096)) [0..<n]" by (simp add: page_addrs_def n PGSIZE_def)
  show "length (page_addrs 0 sz) = n" by (simp add: p)
  have v: "vpn (of_nat (k * 4096)) = k" "page_aligned (of_nat (k * 4096))" if "k < n" for k
    using that nn vpn_page [of k] unat_of_nat [of "k * 4096", where 'a = 32] by (simp_all add: page_aligned_unat del: of_nat_mult)
  show "map vpn (page_addrs 0 sz) = [0..<n]" unfolding p map_map by (intro map_idI) (simp add: v del: of_nat_mult)
  show "i \<in> set (page_addrs 0 sz) \<Longrightarrow> page_aligned i \<and> i < KERNBASE"
    unfolding vpn_less [OF kmap_consts(5)] kmap_consts(1) p using nn v by (auto simp del: of_nat_mult)
qed

lemma free_frame:
  assumes wf: "pt_wf s pgdir vs" and m: "\<forall>x. (\<forall>v \<in> set vs. \<not> in_page x v) \<longrightarrow> m x = kmemory s x"
  shows "page_aligned p \<Longrightarrow> p \<notin> set vs \<Longrightarrow> in_page x p \<Longrightarrow> m x = kmemory s x"
    "\<forall>p \<in> insert pgdir (tables (kmemory s) pgdir). \<forall>x. in_page x p \<longrightarrow> m x = kmemory s x"
    "mapping m pgdir w = mapping (kmemory s) pgdir w" "tables m pgdir = tables (kmemory s) pgdir"
proof -
  have al: "\<forall>v \<in> set vs. page_aligned v" "\<forall>p \<in> insert pgdir (tables (kmemory s) pgdir). page_aligned p"
    using owned_aligned [OF wf] by (auto simp: owned_def)
  show p: "m x = kmemory s x" if "page_aligned p" "p \<notin> set vs" "in_page x p" for x p using m pages_apart [OF that(1,2) al(1) that(3)] by blast
  show eq: "\<forall>p \<in> insert pgdir (tables (kmemory s) pgdir). \<forall>x. in_page x p \<longrightarrow> m x = kmemory s x"
    using p al(2) free_apart [OF wf] by blast
  show "mapping m pgdir w = mapping (kmemory s) pgdir w" "tables m pgdir = tables (kmemory s) pgdir" using mapping_frame(2,3) [OF al(2) eq] by auto
qed

lemma in_page_mod: "in_page (p + a mod PGSIZE) p"
  by (simp add: in_page_def PGSIZE_def unat_mod)

lemma page_copy_at:
  assumes "page_copy m pgdir m' d i f" and "vpn a = vpn i" and "page_aligned f"
  shows "\<exists>e e'. mapping m pgdir a = Some e \<and> mapping m' d a = Some e' \<and> PTE_FLAGS e' = PTE_FLAGS e \<and> pgtab e' = f \<and>
    m' (f + a mod PGSIZE) = m (pgtab e + a mod PGSIZE)"
proof -
  obtain e where e: "mapping m pgdir i = Some e" "present e" "mapping m' d a = Some (V2P f OR PTE_FLAGS e OR PTE_P)"
    "\<And>x. in_page x f \<Longrightarrow> m' x = m (pgtab e + (x - f))" using assms(1,2) by (auto simp: page_copy_def)
  have "m' (f + a mod PGSIZE) = m (pgtab e + a mod PGSIZE)" using e(4) [OF in_page_mod] by simp
  then show ?thesis using e copied_entry [OF assms(3) e(2)] mapping_vpn [OF assms(2)] by auto
qed

lemma copyuvm_copies:
  assumes wf: "pt_wf s pgdir vs" and n: "n = (unat sz + 4095) div 4096" and sz: "sz \<le> KERNBASE"
    and user: "\<forall>a. vpn a < n \<longrightarrow> (\<exists>e. mapping (kmemory s) pgdir a = Some e \<and> page_ok (kernel_end s) (pgtab e) \<and> pgtab e \<notin> set vs)"
    and kd: "page_aligned kdata" "KERNLINK < kdata" "kdata < P2V PHYSTOP" and enough: "65 + n + (n + 1023) div 1024 \<le> length vs"
  obtains d s' used vs' fs where "copyuvm kdata pgdir sz s = Ok d s'" "vs = used @ vs'" "d \<in> set used" "pt_wf s' d vs'"
    "s' = s\<lparr>kmemory := kmemory s', freelist := freelist s'\<rparr>" "\<forall>x. (\<forall>v \<in> set used. \<not> in_page x v) \<longrightarrow> kmemory s' x = kmemory s x"
    "\<forall>w. n \<le> vpn w \<longrightarrow> mapping (kmemory s') d w = kmapping kdata w" "distinct fs" "set fs \<subseteq> set used"
    "list_all2 (page_copy (kmemory s) pgdir (kmemory s') d) (page_addrs 0 sz) fs"
proof -
  let ?is = "page_addrs 0 sz"
  note up = user_pages [OF n sz]
  define K where "K = kdirs \<union> {0..<(n + 1023) div 1024}"
  have "card K \<le> 64 + (n + 1023) div 1024" using card_Un_le [of kdirs "{0..<(n + 1023) div 1024}"] card_kdirs(2) by (simp add: K_def)
  then have K: "finite K" "kdirs \<subseteq> K" "card K + length ?is < length vs" using enough card_kdirs(1) up(1) by (simp_all add: K_def)
  obtain d us vs1 t where t: "setupkvm kdata s = Ok d t" "vs = d # us @ vs1" "pt_wf t d vs1" "within K (length ?is) (kmemory t) d vs1"
    "tables (kmemory t) d = set us" "\<And>x. \<forall>p \<in> set (d # us). \<not> in_page x p \<Longrightarrow> kmemory t x = kmemory s x"
    "t = s\<lparr>kmemory := kmemory t, freelist := freelist t\<rparr>" "\<And>w. mapping (kmemory t) d w = kmapping kdata w"
    by (rule setupkvm_correct [OF pt_wfD(1,2) [OF wf] kd K]) blast
  have vp: "vpn ` set ?is = {0..<n}" using up(2) by (metis set_map set_upt)
  have fr: "\<forall>x. (\<forall>v \<in> set vs. \<not> in_page x v) \<longrightarrow> kmemory t x = kmemory s x" using t(2,6) by simp
  note ff = free_frame [OF wf fr]
  have us: "\<exists>e. mapping (kmemory t) pgdir i = Some e \<and> page_ok (kernel_end s) (pgtab e) \<and> pgtab e \<notin> set vs" if "i \<in> set ?is" for i
  proof -
    have "vpn i < n" using vp that by (metis atLeastLessThan_iff image_eqI)
    then show ?thesis using user by (simp add: ff(3))
  qed
  have own: "page_aligned i \<and> pdx i \<in> K \<and> mapping (kmemory t) d i = None" if "i \<in> set ?is" for i
  proof -
    have "vpn i < n" using vp that by (metis atLeastLessThan_iff image_eqI)
    then have "vpn i div 1024 < (n + 1023) div 1024" by linarith
    then show ?thesis using up(3) [OF that] by (simp add: K_def pdx_vpn t(8) kmapping_def)
  qed
  have par: "page_aligned p \<and> p \<notin> owned (kmemory t) d vs1" if "p \<in> parent_pages (kmemory t) pgdir ?is" for p
  proof -
    have "owned (kmemory t) d vs1 = set vs" by (auto simp: owned_def t(2,5))
    then show ?thesis using that us free_apart [OF wf] owned_aligned [OF wf]
      by (fastforce simp: parent_pages_def ff(4) owned_def page_ok_def)
  qed
  have ds: "distinct (map vpn ?is)" by (simp add: up(2))
  have us1: "\<exists>e. mapping (kmemory t) pgdir i = Some e \<and> page_ok (kernel_end t) (pgtab e)" if "i \<in> set ?is" for i
    using us [OF that] mem_only_kend [OF t(7)] by auto
  obtain s' used vs' fs where l: "copyuvm_loop pgdir d ?is t = Ok d s'" "vs1 = used @ vs'" "pt_wf s' d vs'"
    "s' = t\<lparr>kmemory := kmemory s', freelist := freelist s'\<rparr>"
    "\<forall>x. (\<forall>p \<in> insert d (tables (kmemory t) d) \<union> set used. \<not> in_page x p) \<longrightarrow> kmemory s' x = kmemory t x"
    "\<forall>w. vpn w \<notin> vpn ` set ?is \<longrightarrow> mapping (kmemory s') d w = mapping (kmemory t) d w"
    "distinct fs" "set fs \<subseteq> set used" "list_all2 (page_copy (kmemory t) pgdir (kmemory s') d) ?is fs"
    using copyuvm_loop_effect [OF t(3,4) ballI [OF own] ds ballI [OF us1] ballI [OF par]] by blast
  have "page_copy (kmemory s) pgdir (kmemory s') d i f" if "i \<in> set ?is" "page_copy (kmemory t) pgdir (kmemory s') d i f" for i f
  proof (rule page_copy_old [OF that(2) ff(3)])
    fix e x assume "mapping (kmemory s) pgdir i = Some e" "in_page x (pgtab e)"
    then show "kmemory t x = kmemory s x" using us [OF that(1)] ff(1) [of "pgtab e"] by (auto simp: ff(3) page_ok_def)
  qed
  with l(9) have "list_all2 (page_copy (kmemory s) pgdir (kmemory s') d) ?is fs" by (auto elim!: list.rel_mono_strong)
  moreover have "kmemory s' x = kmemory s x" if "\<forall>v \<in> set (d # us @ used). \<not> in_page x v" for x
    using that l(5) t(5,6) by auto
  moreover have "d \<noteq> 0" using pt_wfD(5) [OF wf] t(2) page_ok_nonzero by auto
  then have "copyuvm kdata pgdir sz s = Ok d s'" using t(1) l(1) by (simp add: copyuvm_def kdefs)
  moreover have "mapping (kmemory s') d w = kmapping kdata w" if "n \<le> vpn w" for w using l(6) that by (simp add: vp t(8))
  moreover have "s' = s\<lparr>kmemory := kmemory s', freelist := freelist s'\<rparr>" by (rule mem_only_trans [OF t(7) l(4)])
  moreover have "vs = (d # us @ used) @ vs'" "set fs \<subseteq> set (d # us @ used)" using t(2) l(2,8) by auto
  ultimately show thesis using that [of d s' "d # us @ used" vs' fs] l(3,7) by simp
qed

text \<open>
  \<^verbatim>\<open>copyuvm\<close>, the copy of the address space that \<^verbatim>\<open>fork\<close> makes. Take a well-formed page directory whose first \<open>n\<close> pages,
  the \<^verbatim>\<open>sz\<close> bytes of the process rounded up, are mapped, and enough free pages: the 65 of the kernel part, one for each
  page, and the page tables. Then the copy succeeds. The new page directory was a free page, and so were the pages it maps:
  different ones at different addresses, each with the permissions and the bytes of the page of the parent. At all other
  addresses it maps exactly what the kernel needs. Nothing outside the free pages is written, so the parent's memory and
  its mapping stay as they were, and so does the rest of the state; both directories are well formed afterwards.
\<close>

lemma copyuvm_correct:
  assumes wf: "pt_wf s pgdir vs" and n: "n = (unat sz + 4095) div 4096" and sz: "sz \<le> KERNBASE"
    and user: "\<forall>a. vpn a < n \<longrightarrow> (\<exists>e. mapping (kmemory s) pgdir a = Some e \<and> page_ok (kernel_end s) (pgtab e) \<and> pgtab e \<notin> set vs)"
    and kd: "page_aligned kdata" "KERNLINK < kdata" "kdata < P2V PHYSTOP" and enough: "65 + n + (n + 1023) div 1024 \<le> length vs"
  shows "\<exists>d s' vs'. copyuvm kdata pgdir sz s = Ok d s' \<and> d \<in> set vs \<and> pt_wf s' d vs' \<and> pt_wf s' pgdir vs' \<and>
    (\<forall>a. vpn a < n \<longrightarrow> (\<exists>e e'. mapping (kmemory s) pgdir a = Some e \<and> mapping (kmemory s') d a = Some e' \<and> PTE_FLAGS e' = PTE_FLAGS e \<and>
       pgtab e' \<in> set vs \<and> pgtab e' \<notin> set vs' \<and> kmemory s' (pgtab e' + a mod PGSIZE) = kmemory s (pgtab e + a mod PGSIZE))) \<and>
    (\<forall>a b e e'. vpn a < n \<and> vpn b < n \<and> mapping (kmemory s') d a = Some e \<and> mapping (kmemory s') d b = Some e' \<and> pgtab e = pgtab e' \<longrightarrow>
       vpn a = vpn b) \<and>
    (\<forall>a. n \<le> vpn a \<longrightarrow> mapping (kmemory s') d a = kmapping kdata a) \<and>
    (\<forall>x. (\<forall>v \<in> set vs. \<not> in_page x v) \<longrightarrow> kmemory s' x = kmemory s x) \<and>
    (\<forall>a. mapping (kmemory s') pgdir a = mapping (kmemory s) pgdir a) \<and> s' = s\<lparr>kmemory := kmemory s', freelist := freelist s'\<rparr>"
proof -
  obtain d s' used vs' fs where c: "copyuvm kdata pgdir sz s = Ok d s'" "vs = used @ vs'" "d \<in> set used" "pt_wf s' d vs'"
    "s' = s\<lparr>kmemory := kmemory s', freelist := freelist s'\<rparr>" "\<forall>x. (\<forall>v \<in> set used. \<not> in_page x v) \<longrightarrow> kmemory s' x = kmemory s x"
    "\<forall>w. n \<le> vpn w \<longrightarrow> mapping (kmemory s') d w = kmapping kdata w" "distinct fs" "set fs \<subseteq> set used"
    "list_all2 (page_copy (kmemory s) pgdir (kmemory s') d) (page_addrs 0 sz) fs"
    by (rule copyuvm_copies [OF assms]) blast+
  have fr: "\<forall>x. (\<forall>v \<in> set vs. \<not> in_page x v) \<longrightarrow> kmemory s' x = kmemory s x" using c(2,6) by auto
  note ff = free_frame [OF wf fr]
  have len: "length fs = n" using list_all2_lengthD [OF c(10)] user_pages(1) [OF n sz] by simp
  have vf: "page_aligned v" if "v \<in> set fs" for v using that c(2,9) pt_wfD(5) [OF wf] by (auto simp: page_ok_def)
  have at: "\<exists>e e'. mapping (kmemory s) pgdir a = Some e \<and> mapping (kmemory s') d a = Some e' \<and> PTE_FLAGS e' = PTE_FLAGS e \<and> pgtab e' = fs ! vpn a \<and>
      kmemory s' (fs ! vpn a + a mod PGSIZE) = kmemory s (pgtab e + a mod PGSIZE)" if a: "vpn a < n" for a
  proof (rule page_copy_at)
    show "page_copy (kmemory s) pgdir (kmemory s') d (page_addrs 0 sz ! vpn a) (fs ! vpn a)" using c(10) a len by (simp add: list_all2_conv_all_nth)
    show "vpn a = vpn (page_addrs 0 sz ! vpn a)" using user_pages(1,2) [OF n sz] a by (metis add_0 nth_map nth_upt)
  qed (use vf len a in simp)
  have in_vs: "fs ! vpn a \<in> set vs" "fs ! vpn a \<notin> set vs'" if "vpn a < n" for a
  proof -
    have "fs ! vpn a \<in> set used" using that len c(9) nth_mem [of "vpn a" fs] by auto
    then show "fs ! vpn a \<in> set vs" "fs ! vpn a \<notin> set vs'" using pt_wfD(6) [OF wf] by (auto simp: c(2))
  qed
  have "pt_wf s' pgdir vs'" by (rule pt_wf_frame [OF wf pt_wfD(1) [OF c(4)]]) (use c(2) ff(2) mem_only_kend [OF c(5)] mem_only_klocks [OF c(5)] in auto)
  moreover have "vpn a = vpn b" if "vpn a < n" "vpn b < n" "mapping (kmemory s') d a = Some e" "mapping (kmemory s') d b = Some e'" "pgtab e = pgtab e'" for a b e e'
    using that at [OF that(1)] at [OF that(2)] c(8) len by (auto simp: nth_eq_iff_index_eq)
  moreover have "\<exists>e e'. mapping (kmemory s) pgdir a = Some e \<and> mapping (kmemory s') d a = Some e' \<and> PTE_FLAGS e' = PTE_FLAGS e \<and>
      pgtab e' \<in> set vs \<and> pgtab e' \<notin> set vs' \<and> kmemory s' (pgtab e' + a mod PGSIZE) = kmemory s (pgtab e + a mod PGSIZE)" if "vpn a < n" for a
    using at [OF that] in_vs [OF that] by metis
  moreover have "d \<in> set vs" using c(2,3) by simp
  ultimately show ?thesis using c(1,4,5,7) fr ff(3) by (intro exI [of _ d] exI [of _ s'] exI [of _ vs']) blast
qed

end
