(* ===== verification/Freevm.thy ===== *)
theory Freevm
  imports Uvm
begin

text \<open>
  Giving back memory: \<^verbatim>\<open>deallocuvm\<close> and \<^verbatim>\<open>freevm\<close> of \<^verbatim>\<open>kernel/vm.c\<close>. The lemmas show which pages they put on the free
  list, each of them once, and that they write nothing else.
\<close>

section \<open>Address spaces that own their pages\<close>

text \<open>
  The pages mapped below \<^verbatim>\<open>KERNBASE\<close> are pages of the allocator's range, each mapped once, and neither free nor page tables. The
  kernel itself is above \<^verbatim>\<open>KERNBASE\<close>, so that no such page has the physical address 0.
\<close>

definition space_ok :: "'a kmst_scheme \<Rightarrow> uint \<Rightarrow> uint list \<Rightarrow> bool" where
  "space_ok s d vs \<longleftrightarrow> pt_wf s d vs \<and> KERNBASE < kernel_end s \<and>
     (\<forall>a e. a < KERNBASE \<and> mapping (kmemory s) d a = Some e \<longrightarrow> page_ok (kernel_end s) (pgtab e) \<and> pgtab e \<notin> owned (kmemory s) d vs) \<and>
     (\<forall>a b e e'. a < KERNBASE \<and> b < KERNBASE \<and> mapping (kmemory s) d a = Some e \<and> mapping (kmemory s) d b = Some e' \<and> pgtab e = pgtab e' \<longrightarrow>
        vpn a = vpn b)"

text \<open>The pages mapped in a range of page numbers.\<close>

definition frames :: "memory \<Rightarrow> uint \<Rightarrow> nat \<Rightarrow> nat \<Rightarrow> uint set" where
  "frames m d i j = {pgtab e | a e. i \<le> vpn a \<and> vpn a < j \<and> mapping m d a = Some e}"

lemma below_KERNBASE: "a < KERNBASE \<longleftrightarrow> vpn a < 524288"
  using vpn_less [OF kmap_consts(5)] kmap_consts(1) by simp

text \<open>Freeing one page and clearing its entry.\<close>

lemma free_one:
  assumes ok: "space_ok s d vs" and a: "a < KERNBASE" and e: "mapping (kmemory s) d a = Some e"
  obtains pte s' where "walkpgdir d a False s = Ok (Some pte) s" "load32 (kmemory s) pte = e" "PTE_ADDR e \<noteq> 0"
    "thenK (kfree (P2V (PTE_ADDR e))) (wr32 pte 0) s = Ok () s'" "space_ok s' d (pgtab e # vs)"
    "dirs (kmemory s') d = dirs (kmemory s) d" "tables (kmemory s') d = tables (kmemory s) d"
    "\<And>w. mapping (kmemory s') d w = (if vpn w = vpn a then None else mapping (kmemory s) d w)"
    "\<And>x. \<forall>p \<in> insert (pgtab e) (tables (kmemory s) d). \<not> in_page x p \<Longrightarrow> kmemory s' x = kmemory s x"
    "s' = s\<lparr>kmemory := kmemory s', freelist := freelist s'\<rparr>"
proof -
  have wf: "pt_wf s d vs" and pe: "page_ok (kernel_end s) (pgtab e)" "pgtab e \<notin> owned (kmemory s) d vs" "KERNBASE < kernel_end s"
    using ok a e unfolding space_ok_def by blast+
  note d = pt_wfD [OF wf]
  let ?pde = "load32 (kmemory s) (slot d (pdx a))"
  have pr: "present ?pde" "load32 (kmemory s) (slot (pgtab ?pde) (ptx a)) = e" "present e"
    using e by (auto simp: mapping_def Let_def split: if_splits)
  obtain m where m: "kfree (pgtab e) s = Ok () (s\<lparr>kmemory := m, freelist := pgtab e\<rparr>)" "kmem_ok (s\<lparr>kmemory := m, freelist := pgtab e\<rparr>) (pgtab e # vs)"
    "\<And>x. \<not> in_page x (pgtab e) \<Longrightarrow> m x = kmemory s x"
    by (rule kfree_run [OF d(1) pe(1) _ d(2)]) (use pe(2) in \<open>auto simp: owned_def\<close>)
  define t where "t = s\<lparr>kmemory := m, freelist := pgtab e\<rparr>"
  have ap: "page_aligned (pgtab e)" "pgtab e \<notin> insert d (tables (kmemory s) d)" using pe(1,2) by (auto simp: page_ok_def owned_def)
  note al = other_page(1) [OF wf ap m(3)] and eq = other_page(2) [OF wf ap m(3)]
  note mf = mapping_frame [OF al eq]
  have wft: "pt_wf t d (pgtab e # vs)"
    by (rule pt_wf_move [OF wf m(2) [folded t_def]]) (use pe(2) eq free_apart [OF wf] in \<open>auto simp: owned_def t_def\<close>)
  define s' where "s' = t\<lparr>kmemory := store32 (kmemory t) (slot (pgtab ?pde) (ptx a)) 0\<rparr>"
  have ld: "load32 (kmemory t) (slot d (pdx a)) = ?pde" using slot_frame [OF d(3) pdx_ptx_bounds(1)] eq by (simp add: t_def)
  note st = store_pte [OF wft, of a "pgtab ?pde" s' 0, unfolded ld, OF pr(1) refl s'_def, folded vpn_def]
  have tp: "page_aligned (pgtab ?pde)" "pgtab ?pde \<noteq> d" "pgtab ?pde \<in> tables (kmemory s) d"
    using table_page [OF wf, of "pdx a"] pr(1) pdx_ptx_bounds(1) by (auto simp: dirs_def)
  have di: "dirs (kmemory s') d = dirs (kmemory s) d" "tables (kmemory s') d = tables (kmemory s) d"
    using dirs_store(1,2) [OF tp(1) d(3) pdx_ptx_bounds(2) tp(2)] mf(1,2) by (simp_all add: s'_def t_def)
  have mp: "mapping (kmemory s') d w = (if vpn w = vpn a then None else mapping (kmemory s) d w)" for w
    using st(2) [of w] mf(3) [of w] not_present_0 by (simp add: t_def)
  have ow: "owned (kmemory s') d (pgtab e # vs) = insert (pgtab e) (owned (kmemory s) d vs)" by (auto simp: owned_def di)
  have ke: "kernel_end s' = kernel_end s" by (simp add: s'_def t_def)
  have old: "mapping (kmemory s) d b = Some e' \<and> vpn b \<noteq> vpn a" if "mapping (kmemory s') d b = Some e'" for b e'
    using that by (auto simp: mp split: if_splits)
  have so: "space_ok s' d (pgtab e # vs)" unfolding space_ok_def ow ke
  proof (intro conjI allI impI)
    fix b e' assume b: "b < KERNBASE \<and> mapping (kmemory s') d b = Some e'"
    have "pgtab e' \<noteq> pgtab e" "page_ok (kernel_end s) (pgtab e')" "pgtab e' \<notin> owned (kmemory s) d vs"
      using old [of b e'] b ok a e unfolding space_ok_def by blast+
    then show "page_ok (kernel_end s) (pgtab e')" "pgtab e' \<notin> insert (pgtab e) (owned (kmemory s) d vs)" by auto
  next
    fix b c e' e'' assume "b < KERNBASE \<and> c < KERNBASE \<and> mapping (kmemory s') d b = Some e' \<and> mapping (kmemory s') d c = Some e'' \<and> pgtab e' = pgtab e''"
    then show "vpn b = vpn c" using old [of b e'] old [of c e''] ok unfolding space_ok_def by blast
  qed (use st(1) pe(3) in simp_all)
  have "walkpgdir d a False s = Ok (Some (slot (pgtab ?pde) (ptx a))) s"
    using pr(1) by (simp add: walkpgdir_def Let_def PDX_slot PTX_slot rd32_def kdefs present_def pgtab_def)
  moreover have "PTE_ADDR e \<noteq> 0" using pe(1,3) by (auto simp: page_ok_def pgtab_def P2V_def)
  moreover have "thenK (kfree (P2V (PTE_ADDR e))) (wr32 (slot (pgtab ?pde) (ptx a)) 0) s = Ok () s'"
    using m(1) by (simp add: kdefs wr32_def s'_def t_def pgtab_def)
  moreover have "kmemory s' x = kmemory s x" if "\<forall>p \<in> insert (pgtab e) (tables (kmemory s) d). \<not> in_page x p" for x
    using that tp(3) store32_in_page [OF tp(1) pdx_ptx_bounds(2)] m(3) by (simp add: s'_def t_def)
  ultimately show thesis using that [OF _ pr(2) _ _ so di mp] by (simp add: s'_def t_def)
qed

section \<open>The loop of deallocuvm\<close>

text \<open>From \<open>s\<close> to \<open>s'\<close> the pages mapped at the page numbers from \<open>i\<close> to \<open>j\<close> have been freed.\<close>

definition freed :: "'a kmst_scheme \<Rightarrow> uint \<Rightarrow> uint list \<Rightarrow> nat \<Rightarrow> nat \<Rightarrow> 'a kmst_scheme \<Rightarrow> uint list \<Rightarrow> bool" where
  "freed s d vs i j s' vs' \<longleftrightarrow> space_ok s' d vs' \<and> set vs' = set vs \<union> frames (kmemory s) d i j \<and>
     dirs (kmemory s') d = dirs (kmemory s) d \<and> tables (kmemory s') d = tables (kmemory s) d \<and>
     (\<forall>w. mapping (kmemory s') d w = (if i \<le> vpn w \<and> vpn w < j then None else mapping (kmemory s) d w)) \<and>
     (\<forall>x. (\<forall>p \<in> tables (kmemory s) d \<union> frames (kmemory s) d i j. \<not> in_page x p) \<longrightarrow> kmemory s' x = kmemory s x) \<and>
     s' = s\<lparr>kmemory := kmemory s', freelist := freelist s'\<rparr>"

lemma freed_none:
  assumes "space_ok s d vs" and "\<And>w. i \<le> vpn w \<Longrightarrow> vpn w < j \<Longrightarrow> mapping (kmemory s) d w = None"
  shows "freed s d vs i j s vs"
proof -
  have "frames (kmemory s) d i j = {}" using assms(2) by (fastforce simp: frames_def)
  then show ?thesis using assms by (auto simp: freed_def)
qed

lemma freed_skip:
  assumes "freed s d vs k j s' vs'" and "i \<le> k" and "\<And>w. i \<le> vpn w \<Longrightarrow> vpn w < k \<Longrightarrow> mapping (kmemory s) d w = None"
  shows "freed s d vs i j s' vs'"
proof -
  have "mapping (kmemory s) d w = None" if "i \<le> vpn w" "\<not> k \<le> vpn w" for w using that assms(3) by simp
  then have "frames (kmemory s) d i j = frames (kmemory s) d k j"
    "(if i \<le> vpn w \<and> vpn w < j then None else mapping (kmemory s) d w) = (if k \<le> vpn w \<and> vpn w < j then None else mapping (kmemory s) d w)" for w
    using assms(2) unfolding frames_def by (force, auto)
  then show ?thesis using assms(1) by (simp add: freed_def)
qed

lemma freed_one:
  assumes s1: "dirs (kmemory s1) d = dirs (kmemory s) d" "tables (kmemory s1) d = tables (kmemory s) d"
    "\<And>w. mapping (kmemory s1) d w = (if vpn w = i then None else mapping (kmemory s) d w)"
    "\<And>x. \<forall>p \<in> insert (pgtab e) (tables (kmemory s) d). \<not> in_page x p \<Longrightarrow> kmemory s1 x = kmemory s x"
    "s1 = s\<lparr>kmemory := kmemory s1, freelist := freelist s1\<rparr>"
    and e: "mapping (kmemory s) d a = Some e" "vpn a = i" "i < j"
    and f: "freed s1 d (pgtab e # vs) (Suc i) j s' vs'"
  shows "freed s d vs i j s' vs'"
proof -
  have fr: "frames (kmemory s) d i j = insert (pgtab e) (frames (kmemory s1) d (Suc i) j)"
  proof (intro subset_antisym subsetI)
    fix p assume "p \<in> frames (kmemory s) d i j"
    then obtain b f where b: "p = pgtab f" "i \<le> vpn b" "vpn b < j" "mapping (kmemory s) d b = Some f" by (auto simp: frames_def)
    show "p \<in> insert (pgtab e) (frames (kmemory s1) d (Suc i) j)"
    proof (cases "vpn b = i")
      case True
      then show ?thesis using b e mapping_vpn [of b a] by simp
    next
      case False
      then have "Suc i \<le> vpn b" "mapping (kmemory s1) d b = Some f" using b by (simp_all add: s1(3))
      then show ?thesis using b unfolding frames_def by blast
    qed
  next
    fix p assume "p \<in> insert (pgtab e) (frames (kmemory s1) d (Suc i) j)"
    then consider "p = pgtab e" | b f where "p = pgtab f" "Suc i \<le> vpn b" "vpn b < j" "mapping (kmemory s1) d b = Some f" unfolding frames_def by blast
    then show "p \<in> frames (kmemory s) d i j"
    proof cases
      case 1
      then show ?thesis using e unfolding frames_def by blast
    next
      case 2
      then have "i \<le> vpn b" "mapping (kmemory s) d b = Some f" by (simp_all add: s1(3))
      then show ?thesis using 2(1,3) unfolding frames_def by blast
    qed
  qed
  have "kmemory s' x = kmemory s x" if "\<forall>p \<in> tables (kmemory s) d \<union> frames (kmemory s) d i j. \<not> in_page x p" for x
    using f s1(4) [of x] that unfolding freed_def s1(2) fr by simp
  moreover have "s' = s\<lparr>kmemory := kmemory s', freelist := freelist s'\<rparr>" using f mem_only_trans [OF s1(5)] unfolding freed_def by blast
  moreover have "mapping (kmemory s') d w = (if i \<le> vpn w \<and> vpn w < j then None else mapping (kmemory s) d w)" for w
    using f e(3) unfolding freed_def s1(3) by auto
  ultimately show ?thesis using f unfolding freed_def s1(1,2) fr by auto
qed

lemma next_dir:
  assumes "pdx a < 512"
  shows "unat (PGADDR (PDX a + 1) 0 0 - PGSIZE + PGSIZE) = (pdx a + 1) * 4194304"
proof -
  have "PGADDR (PDX a + 1) 0 0 - PGSIZE + PGSIZE = of_nat ((pdx a + 1) * 4194304)"
    by (simp add: PGADDR_def PDX_pdx push_bit_eq_mult algebra_simps)
  then show ?thesis using assms unat_of_nat_small [of "(pdx a + 1) * 4194304"] by (simp del: of_nat_mult)
qed

lemma dealloc_loop_effect:
  assumes "space_ok s d vs" and "page_aligned a" and "oldsz \<le> KERNBASE"
  shows "\<exists>s' vs'. dealloc_loop d a oldsz s = Ok () s' \<and> freed s d vs (vpn a) ((unat oldsz + 4095) div 4096) s' vs'"
  using assms(1,2)
proof (induction "2 ^ 32 - unat a" arbitrary: a s vs rule: less_induct)
  case less
  let ?j = "(unat oldsz + 4095) div 4096"
  have ua: "unat a = 4096 * vpn a" using less.prems(2) by (auto simp: page_aligned_unat vpn_def)
  have oz: "unat oldsz \<le> 2147483648" using assms(3) by (simp add: word_le_nat_alt KERNBASE_def)
  show ?case
  proof (cases "a < oldsz")
    case False
    then have "?j \<le> vpn a" using ua by (simp add: word_less_nat_alt not_less)
    then show ?thesis using False freed_none [OF less.prems(1), of "vpn a" ?j] by (intro exI [of _ s] exI [of _ vs]) (simp add: dealloc_loop.simps [of d a] retK_def)
  next
    case True
    then have lt: "vpn a < ?j" "unat a < 2147483648" using ua oz by (auto simp: word_less_nat_alt)
    then have ak: "a < KERNBASE" "pdx a < 512" by (simp_all add: KERNBASE_def word_less_nat_alt pdx_def)
    have wf: "pt_wf s d vs" using less.prems(1) by (simp add: space_ok_def)
    have up: "unat (a + PGSIZE) = unat a + 4096" using lt(2) by (simp add: unat_add_noovf PGSIZE_def)
    then have nx: "a < a + PGSIZE" "page_aligned (a + PGSIZE)" "vpn (a + PGSIZE) = Suc (vpn a)" "2 ^ 32 - unat (a + PGSIZE) < 2 ^ 32 - unat a"
      using less.prems(2) lt(2) by (simp_all add: word_less_nat_alt page_aligned_unat vpn_def)
    note unf = dealloc_loop.simps [of d a oldsz]
    consider (nodir) "\<not> present (load32 (kmemory s) (slot d (pdx a)))"
      | (nopage) "present (load32 (kmemory s) (slot d (pdx a)))" "mapping (kmemory s) d a = None"
      | (page) e where "mapping (kmemory s) d a = Some e" by (cases "mapping (kmemory s) d a") auto
    then show ?thesis
    proof cases
      case nodir
      let ?a = "PGADDR (PDX a + 1) 0 0 - PGSIZE + PGSIZE"
      have u: "unat ?a = (pdx a + 1) * 4194304" by (rule next_dir [OF ak(2)])
      have "unat a < unat ?a" unfolding u by (simp add: pdx_def)
      then have b: "a < ?a" "page_aligned ?a" "2 ^ 32 - unat ?a < 2 ^ 32 - unat a" "vpn a \<le> vpn ?a"
        using u ak(2) by (simp_all only: word_less_nat_alt page_aligned_unat vpn_def) (auto simp: div_le_mono)
      have run: "dealloc_loop d a oldsz s = dealloc_loop d ?a oldsz s"
        using True nodir b(1) by (simp add: unf kdefs walkpgdir_def Let_def PDX_slot rd32_def present_def)
      obtain s' vs' where "dealloc_loop d ?a oldsz s = Ok () s'" "freed s d vs (vpn ?a) ?j s' vs'" using less.hyps [OF b(3) less.prems(1) b(2)] by blast
      moreover have "mapping (kmemory s) d w = None" if "vpn a \<le> vpn w" "vpn w < vpn ?a" for w
      proof -
        have "vpn ?a = (pdx a + 1) * 1024" by (simp only: vpn_def u)
        then have "pdx w = pdx a" using that by (simp add: pdx_vpn)
        then show ?thesis using nodir by (simp add: mapping_def)
      qed
      ultimately have "freed s d vs (vpn a) ?j s' vs' \<and> dealloc_loop d ?a oldsz s = Ok () s'" using freed_skip [OF _ b(4)] by blast
      then show ?thesis using run by (intro exI [of _ s'] exI [of _ vs']) simp
    next
      case nopage
      have "\<not> present (load32 (kmemory s) (slot (pgtab (load32 (kmemory s) (slot d (pdx a)))) (ptx a)))"
        using nopage by (simp add: mapping_def Let_def split: if_splits)
      then have run: "dealloc_loop d a oldsz s = dealloc_loop d (a + PGSIZE) oldsz s"
        using True nopage(1) nx(1) by (simp add: unf kdefs walkpgdir_def Let_def PDX_slot PTX_slot rd32_def present_def pgtab_def)
      obtain s' vs' where "dealloc_loop d (a + PGSIZE) oldsz s = Ok () s'" "freed s d vs (Suc (vpn a)) ?j s' vs'"
        using less.hyps [OF nx(4) less.prems(1) nx(2)] unfolding nx(3) by blast
      moreover have "mapping (kmemory s) d w = None" if "vpn a \<le> vpn w" "vpn w < Suc (vpn a)" for w
        using that nopage(2) mapping_vpn [of w a] by simp
      ultimately show ?thesis using run freed_skip [of s d vs "Suc (vpn a)" ?j s' vs' "vpn a"] by (intro exI [of _ s'] exI [of _ vs']) simp
    next
      case page
      obtain pte s1 where f: "walkpgdir d a False s = Ok (Some pte) s" "load32 (kmemory s) pte = e" "PTE_ADDR e \<noteq> 0"
        "thenK (kfree (P2V (PTE_ADDR e))) (wr32 pte 0) s = Ok () s1" "space_ok s1 d (pgtab e # vs)"
        "dirs (kmemory s1) d = dirs (kmemory s) d" "tables (kmemory s1) d = tables (kmemory s) d"
        "\<And>w. mapping (kmemory s1) d w = (if vpn w = vpn a then None else mapping (kmemory s) d w)"
        "\<And>x. \<forall>p \<in> insert (pgtab e) (tables (kmemory s) d). \<not> in_page x p \<Longrightarrow> kmemory s1 x = kmemory s x"
        "s1 = s\<lparr>kmemory := kmemory s1, freelist := freelist s1\<rparr>"
        by (rule free_one [OF less.prems(1) ak(1) page]) blast
      have run: "dealloc_loop d a oldsz s = dealloc_loop d (a + PGSIZE) oldsz s1"
        using True f(1-4) nx(1) mapping_present [OF page] by (simp add: unf kdefs rd32_def present_def)
      obtain s' vs' where "dealloc_loop d (a + PGSIZE) oldsz s1 = Ok () s'" "freed s1 d (pgtab e # vs) (Suc (vpn a)) ?j s' vs'"
        using less.hyps [OF nx(4) f(5) nx(2)] unfolding nx(3) by blast
      then show ?thesis using run freed_one [OF f(6-10) page refl lt(1)] by (intro exI [of _ s'] exI [of _ vs']) simp
    qed
  qed
qed

section \<open>Freeing an address space\<close>

text \<open>The loop over the directory entries, after \<open>k\<close> of them.\<close>

definition tables_below :: "memory \<Rightarrow> uint \<Rightarrow> nat \<Rightarrow> uint set" where
  "tables_below m d k = (\<lambda>i. pgtab (load32 m (slot d i))) ` {i \<in> dirs m d. i < k}"

lemma table_inj:
  "pt_wf s d vs \<Longrightarrow> i \<in> dirs (kmemory s) d \<Longrightarrow> j \<in> dirs (kmemory s) d \<Longrightarrow>
   pgtab (load32 (kmemory s) (slot d i)) = pgtab (load32 (kmemory s) (slot d j)) \<Longrightarrow> i = j"
  unfolding pt_wf_def dirs_def by blast

lemma dir_not_table: "pt_wf s d vs \<Longrightarrow> d \<notin> tables (kmemory s) d"
  using table_page(3) [of s d vs] unfolding tables_def by force

lemma all_tables: "tables_below m d 1024 = tables m d"
proof -
  have "{i \<in> dirs m d. i < 1024} = dirs m d" by (auto simp: dirs_def)
  then show ?thesis by (simp only: tables_below_def tables_def)
qed

lemma free_tables:
  assumes wf: "pt_wf s d vs" and k: "k \<le> 1024"
  shows "\<exists>s' vs'. forK [0..<k] (freevm_entry d) s = Ok () s' \<and> kmem_ok s' vs' \<and> set vs' = set vs \<union> tables_below (kmemory s) d k \<and>
    (\<forall>x. (\<forall>p \<in> tables_below (kmemory s) d k. \<not> in_page x p) \<longrightarrow> kmemory s' x = kmemory s x) \<and> s' = s\<lparr>kmemory := kmemory s', freelist := freelist s'\<rparr>"
  using k
proof (induction k)
  case 0
  then show ?case using pt_wfD(1) [OF wf] by (intro exI [of _ s] exI [of _ vs]) (simp add: kdefs tables_below_def)
next
  case (Suc k)
  then obtain t us where t: "forK [0..<k] (freevm_entry d) s = Ok () t" "kmem_ok t us" "set us = set vs \<union> tables_below (kmemory s) d k"
    "\<forall>x. (\<forall>p \<in> tables_below (kmemory s) d k. \<not> in_page x p) \<longrightarrow> kmemory t x = kmemory s x" "t = s\<lparr>kmemory := kmemory t, freelist := freelist t\<rparr>" by auto
  note d = pt_wfD [OF wf]
  let ?e = "load32 (kmemory s) (slot d k)"
  have tb: "tables_below (kmemory s) d k \<subseteq> tables (kmemory s) d" by (auto simp: tables_below_def tables_def)
  have "kmemory t x = kmemory s x" if "in_page x d" for x
    using that t(4) tb owned_aligned [OF wf] pages_apart [of d "tables_below (kmemory s) d k" x] d(3) wf table_page [OF wf]
    by (metis (no_types, lifting) UnI1 imageE insertCI owned_def subsetD tables_def)
  then have ld: "load32 (kmemory t) (slot d k) = ?e" using slot_frame [OF d(3), of k] Suc.prems by simp
  show ?case
  proof (cases "present ?e")
    case False
    then have "tables_below (kmemory s) d (Suc k) = tables_below (kmemory s) d k" by (auto simp: tables_below_def dirs_def less_Suc_eq)
    moreover have "forK [0..<Suc k] (freevm_entry d) s = Ok () t"
      using False t(1) ld by (simp add: forK_append kdefs freevm_entry_def rd32_def slot_def present_def)
    ultimately show ?thesis using t(2-5) by auto
  next
    case True
    have kd: "k \<in> dirs (kmemory s) d" using True Suc.prems by (simp add: dirs_def)
    have tb': "tables_below (kmemory s) d (Suc k) = insert (pgtab ?e) (tables_below (kmemory s) d k)"
      using kd by (auto simp: tables_below_def less_Suc_eq)
    have new: "pgtab ?e \<notin> set us"
      using table_page(4) [OF wf kd] table_inj [OF wf kd] unfolding t(3) tables_below_def by fastforce
    have "page_ok (kernel_end t) (pgtab ?e)" "L_kmem \<notin> set (klocks t)"
      using wf kd mem_only_kend [OF t(5)] mem_only_klocks [OF t(5)] by (auto simp: pt_wf_def dirs_def)
    then obtain m where m: "kfree (pgtab ?e) t = Ok () (t\<lparr>kmemory := m, freelist := pgtab ?e\<rparr>)" "kmem_ok (t\<lparr>kmemory := m, freelist := pgtab ?e\<rparr>) (pgtab ?e # us)"
      "\<And>x. \<not> in_page x (pgtab ?e) \<Longrightarrow> m x = kmemory t x" using kfree_run [OF t(2) _ new] by blast
    let ?s = "t\<lparr>kmemory := m, freelist := pgtab ?e\<rparr>"
    have "forK [0..<Suc k] (freevm_entry d) s = Ok () ?s"
      using True t(1) ld m(1) by (simp add: forK_append kdefs freevm_entry_def rd32_def slot_def present_def pgtab_def)
    moreover have "?s = s\<lparr>kmemory := kmemory ?s, freelist := freelist ?s\<rparr>" by (rule mem_only_trans [OF t(5)]) simp
    moreover have "set (pgtab ?e # us) = set vs \<union> tables_below (kmemory s) d (Suc k)" using t(3) tb' by auto
    moreover have "kmemory ?s x = kmemory s x" if "\<forall>p \<in> tables_below (kmemory s) d (Suc k). \<not> in_page x p" for x
      using that t(4) m(3) tb' by simp
    ultimately show ?thesis using m(2) by blast
  qed
qed

text \<open>
  Freeing an address space makes its pages free: those mapped below \<^verbatim>\<open>KERNBASE\<close>, the page tables and the directory, each once.
  Nothing else is written.
\<close>

lemma freevm_effect:
  assumes ok: "space_ok s d vs"
  shows "\<exists>s' vs'. freevm d s = Ok () s' \<and> kmem_ok s' vs' \<and> set vs' = owned (kmemory s) d vs \<union> frames (kmemory s) d 0 524288 \<and>
    (\<forall>x. (\<forall>p \<in> insert d (tables (kmemory s) d \<union> frames (kmemory s) d 0 524288). \<not> in_page x p) \<longrightarrow> kmemory s' x = kmemory s x) \<and>
    s' = s\<lparr>kmemory := kmemory s', freelist := freelist s'\<rparr>"
proof -
  have wf: "pt_wf s d vs" and d0: "d \<noteq> 0" using ok page_ok_nonzero by (auto simp: space_ok_def pt_wf_def)
  have z: "PGROUNDUP 0 = 0" "vpn 0 = 0" "page_aligned 0" "\<not> KERNBASE \<le> 0" "(unat KERNBASE + 4095) div 4096 = 524288"
    by (simp_all add: PGROUNDUP_def PGSIZE_def vpn_def page_aligned_def KERNBASE_def)
  obtain t us where t: "dealloc_loop d 0 KERNBASE s = Ok () t" "freed s d vs 0 524288 t us"
    using dealloc_loop_effect [OF ok z(3), of KERNBASE] by (auto simp: z)
  have wft: "pt_wf t d us" "set us = set vs \<union> frames (kmemory s) d 0 524288" "tables (kmemory t) d = tables (kmemory s) d"
    "t = s\<lparr>kmemory := kmemory t, freelist := freelist t\<rparr>"
    "\<forall>x. (\<forall>p \<in> tables (kmemory s) d \<union> frames (kmemory s) d 0 524288. \<not> in_page x p) \<longrightarrow> kmemory t x = kmemory s x"
    using t(2) unfolding freed_def space_ok_def by blast+
  have tb: "tables_below (kmemory t) d 1024 = tables (kmemory s) d" unfolding wft(3) [symmetric] by (rule all_tables)
  obtain r ws where r: "forK [0..<1024] (freevm_entry d) t = Ok () r" "kmem_ok r ws" "set ws = set us \<union> tables (kmemory s) d"
    "\<forall>x. (\<forall>p \<in> tables (kmemory s) d. \<not> in_page x p) \<longrightarrow> kmemory r x = kmemory t x" "r = t\<lparr>kmemory := kmemory r, freelist := freelist r\<rparr>"
    using free_tables [OF wft(1), of 1024] unfolding tb by auto
  have st: "page_ok (kernel_end r) d" "L_kmem \<notin> set (klocks r)"
    using wft(1) mem_only_kend [OF r(5)] mem_only_klocks [OF r(5)] by (auto simp: pt_wf_def)
  have new: "d \<notin> set ws" using pt_wfD(4) [OF wft(1)] r(3) dir_not_table [OF wf] by simp
  obtain m where m: "kfree d r = Ok () (r\<lparr>kmemory := m, freelist := d\<rparr>)" "kmem_ok (r\<lparr>kmemory := m, freelist := d\<rparr>) (d # ws)"
    "\<And>x. \<not> in_page x d \<Longrightarrow> m x = kmemory r x" using kfree_run [OF r(2) st(1) new st(2)] by blast
  let ?s = "r\<lparr>kmemory := m, freelist := d\<rparr>"
  have "freevm d s = Ok () ?s" using d0 t(1) r(1) m(1) z by (simp add: freevm_def deallocuvm_def kdefs NPDENTRIES_def)
  moreover have "?s = s\<lparr>kmemory := kmemory ?s, freelist := freelist ?s\<rparr>"
    by (rule mem_only_trans [OF wft(4) mem_only_trans [OF r(5)]]) simp
  moreover have "set (d # ws) = owned (kmemory s) d vs \<union> frames (kmemory s) d 0 524288" using r(3) wft(2) by (auto simp: owned_def)
  moreover have "kmemory ?s x = kmemory s x" if "\<forall>p \<in> insert d (tables (kmemory s) d \<union> frames (kmemory s) d 0 524288). \<not> in_page x p" for x
    using that wft(5) r(4) m(3) by simp
  ultimately show ?thesis using m(2) by blast
qed

section \<open>Running out of memory\<close>

text \<open>
  Mapping pages with any number of free pages. If a page table cannot be allocated, the pages mapped so far stay mapped and
  the pages allocated so far are page tables of the directory.
\<close>

lemma map_any:
  assumes "pt_wf s d vs" and "distinct (map vpn as)" and "\<forall>a \<in> set as. mapping (kmemory s) d a = None"
  shows "\<exists>r s' us vs'. mappages_loop d as pa perm s = Ok r s' \<and> (r = 0 \<or> r = -1) \<and> pt_wf s' d vs' \<and> vs = us @ vs' \<and> pt_step d s us s' \<and>
    (\<forall>w. vpn w \<notin> vpn ` set as \<longrightarrow> mapping (kmemory s') d w = mapping (kmemory s) d w) \<and>
    (\<forall>w. r = 0 \<longrightarrow> mapping (kmemory s') d w = (case new_entry as pa perm w of None \<Rightarrow> mapping (kmemory s) d w | Some e \<Rightarrow> Some e)) \<and>
    (\<forall>a w. as = [a] \<and> r = -1 \<longrightarrow> mapping (kmemory s') d w = mapping (kmemory s) d w)"
  using assms
proof (induction as arbitrary: s vs pa)
  case Nil
  then show ?case by (intro exI [of _ 0] exI [of _ s] exI [of _ "[]"] exI [of _ vs]) (simp add: retK_def pt_step_refl)
next
  case (Cons a as)
  have none: "mapping (kmemory s) d a = None" using Cons.prems(3) by simp
  show ?case
  proof (cases "card ({pdx a} - dirs (kmemory s) d) \<le> length vs")
    case False
    have nd: "pdx a \<notin> dirs (kmemory s) d" and "vs = []" using False by (cases vs; auto simp: insert_Diff_if split: if_splits)+
    then have "kalloc s = Ok 0 s" using kalloc_run(1) [OF pt_wfD(1,2) [OF Cons.prems(1)]] by simp
    moreover have "\<not> present (load32 (kmemory s) (slot d (pdx a)))" using nd pdx_ptx_bounds(1) by (simp add: dirs_def)
    ultimately have "mappages_loop d (a # as) pa perm s = Ok (-1) s" by (simp add: walkpgdir_def Let_def PDX_slot rd32_def kdefs present_def)
    then show ?thesis using Cons.prems(1)
      by (intro exI [of _ "-1"] exI [of _ s] exI [of _ "[]"] exI [of _ vs]) (simp add: pt_step_refl)
  next
    case True
    obtain t us vs1 where t: "mappages_loop d (a # as) pa perm s = mappages_loop d as (pa + PGSIZE) perm t"
      "pt_wf t d vs1" "vs = us @ vs1" "length us = card ({pdx a} - dirs (kmemory s) d)"
      "dirs (kmemory t) d = insert (pdx a) (dirs (kmemory s) d)" "pt_step d s us t"
      "\<And>w. mapping (kmemory t) d w = (if vpn w = vpn a then Some (pa OR perm OR PTE_P) else mapping (kmemory s) d w)"
      by (rule map_one [OF Cons.prems(1) none True, of as pa perm]) blast
    have ds: "distinct (map vpn as)" using Cons.prems(2) by simp
    have "\<forall>b \<in> set as. mapping (kmemory t) d b = None" using Cons.prems(2,3) by (auto simp: t(7) image_iff)
    then obtain r s' us' vs' where ih: "mappages_loop d as (pa + PGSIZE) perm t = Ok r s'" "r = 0 \<or> r = -1" "pt_wf s' d vs'" "vs1 = us' @ vs'"
      "pt_step d t us' s'" "\<forall>w. vpn w \<notin> vpn ` set as \<longrightarrow> mapping (kmemory s') d w = mapping (kmemory t) d w"
      "\<forall>w. r = 0 \<longrightarrow> mapping (kmemory s') d w = (case new_entry as (pa + PGSIZE) perm w of None \<Rightarrow> mapping (kmemory t) d w | Some e \<Rightarrow> Some e)"
      using Cons.IH [OF t(2) ds, of "pa + PGSIZE"] by blast
    have na: "vpn a \<notin> vpn ` set as" using Cons.prems(2) by simp
    have "r = 0" if "as = []" using ih(1) that by (simp add: retK_def)
    moreover have "mapping (kmemory s') d w = (case new_entry (a # as) pa perm w of None \<Rightarrow> mapping (kmemory s) d w | Some e \<Rightarrow> Some e)" if "r = 0" for w
      using ih(7) that t(7) [of w] new_entry_none [of w as] na by (cases "vpn w = vpn a") (auto split: option.splits)
    moreover have "mapping (kmemory s') d w = mapping (kmemory s) d w" if "vpn w \<notin> vpn ` set (a # as)" for w using that ih(6) t(7) by simp
    ultimately show ?thesis using t(1,3) ih(1-4) pt_step_trans [OF t(6) ih(5)]
      by (intro exI [of _ r] exI [of _ s'] exI [of _ "us @ us'"] exI [of _ vs']) auto
  qed
qed

lemma mappages_any:
  assumes wf: "pt_wf s d vs" and le: "vpn va \<le> vpn z" and z: "z = va + len - 1"
    and none: "\<And>w. vpn va \<le> vpn w \<Longrightarrow> vpn w \<le> vpn z \<Longrightarrow> mapping (kmemory s) d w = None"
  obtains r s' us vs' where "mappages d va len pa perm s = Ok r s'" "r = 0 \<or> r = -1" "pt_wf s' d vs'" "vs = us @ vs'" "pt_step d s us s'"
    "\<And>w. \<not> (vpn va \<le> vpn w \<and> vpn w \<le> vpn z) \<Longrightarrow> mapping (kmemory s') d w = mapping (kmemory s) d w"
    "\<And>w. r = 0 \<Longrightarrow> mapping (kmemory s') d w = (if vpn va \<le> vpn w \<and> vpn w \<le> vpn z
       then Some ((pa + of_nat (vpn w - vpn va) * PGSIZE) OR perm OR PTE_P) else mapping (kmemory s) d w)"
    "\<And>w. vpn va = vpn z \<Longrightarrow> r = -1 \<Longrightarrow> mapping (kmemory s') d w = mapping (kmemory s) d w"
proof -
  let ?as = "range_addrs (vpn va) (vpn z)"
  note ra = range_addrs [OF le vpn_bound]
  have n: "\<forall>a \<in> set ?as. mapping (kmemory s) d a = None" using none ra(2) by blast
  have ds: "distinct (map vpn ?as)" using ra(1) by simp
  obtain r s' us vs' where s': "mappages_loop d ?as pa perm s = Ok r s'" "r = 0 \<or> r = -1" "pt_wf s' d vs'" "vs = us @ vs'" "pt_step d s us s'"
    "\<forall>w. vpn w \<notin> vpn ` set ?as \<longrightarrow> mapping (kmemory s') d w = mapping (kmemory s) d w"
    "\<forall>w. r = 0 \<longrightarrow> mapping (kmemory s') d w = (case new_entry ?as pa perm w of None \<Rightarrow> mapping (kmemory s) d w | Some e \<Rightarrow> Some e)"
    "\<forall>a w. ?as = [a] \<and> r = -1 \<longrightarrow> mapping (kmemory s') d w = mapping (kmemory s) d w"
    using map_any [OF wf ds n, of pa perm] by blast
  show thesis
  proof (rule that)
    show "mappages d va len pa perm s = Ok r s'" using s'(1) by (simp add: mappages_range [OF le z])
    show "mapping (kmemory s') d w = mapping (kmemory s) d w" if "\<not> (vpn va \<le> vpn w \<and> vpn w \<le> vpn z)" for w using s'(6) that unfolding ra(2) by blast
    show "mapping (kmemory s') d w = mapping (kmemory s) d w" if "vpn va = vpn z" "r = -1" for w
    proof -
      have "\<exists>a. ?as = [a]" using that(1) by (simp add: range_addrs_def)
      then show ?thesis using s'(8) that(2) by blast
    qed
  qed (use s'(2-5,7) in \<open>simp_all add: ra(3)\<close>)
qed

text \<open>
  What a failed operation on the address space \<open>d\<close> leaves: the directory is gone, and all pages that belonged to it are free
  again. The pages that were free stay free, and memory outside of all these is untouched.
\<close>

definition space_gone :: "'a kmst_scheme \<Rightarrow> uint \<Rightarrow> uint list \<Rightarrow> 'a kmst_scheme \<Rightarrow> bool" where
  "space_gone s d vs s' \<longleftrightarrow> (\<exists>vs'. kmem_ok s' vs' \<and> set vs' = owned (kmemory s) d vs \<union> frames (kmemory s) d 0 524288) \<and>
     (\<forall>x. (\<forall>p \<in> owned (kmemory s) d vs \<union> frames (kmemory s) d 0 524288. \<not> in_page x p) \<longrightarrow> kmemory s' x = kmemory s x) \<and>
     s' = s\<lparr>kmemory := kmemory s', freelist := freelist s'\<rparr>"

lemma freevm_gone: "space_ok s d vs \<Longrightarrow> \<exists>s'. freevm d s = Ok () s' \<and> space_gone s d vs s'"
  using freevm_effect [of s d vs] unfolding space_gone_def owned_def by blast

lemma space_gone_trans:
  assumes "space_gone t d ws s'" and "owned (kmemory t) d ws \<union> frames (kmemory t) d 0 524288 = owned (kmemory s) d vs \<union> frames (kmemory s) d 0 524288"
    and "\<And>x. \<forall>p \<in> owned (kmemory s) d vs \<union> frames (kmemory s) d 0 524288. \<not> in_page x p \<Longrightarrow> kmemory t x = kmemory s x"
    and "t = s\<lparr>kmemory := kmemory t, freelist := freelist t\<rparr>"
  shows "space_gone s d vs s'"
  using assms(1,3) mem_only_trans [OF assms(4)] unfolding space_gone_def assms(2) by auto

text \<open>Steps that keep the mapping below \<^verbatim>\<open>KERNBASE\<close>.\<close>

lemma frames_cong: "\<forall>w. w < KERNBASE \<longrightarrow> mapping m' d w = mapping m d w \<Longrightarrow> frames m' d 0 524288 = frames m d 0 524288"
  unfolding frames_def below_KERNBASE by (intro Collect_cong ex_cong1 conj_cong refl) simp

lemma space_ok_sub:
  assumes "space_ok s d vs" and "pt_wf s' d vs'" and "kernel_end s' = kernel_end s" and "owned (kmemory s') d vs' \<subseteq> owned (kmemory s) d vs"
    and "\<forall>w. w < KERNBASE \<longrightarrow> mapping (kmemory s') d w = mapping (kmemory s) d w"
  shows "space_ok s' d vs'"
proof -
  have old: "mapping (kmemory s) d a = Some e" if "a < KERNBASE" "mapping (kmemory s') d a = Some e" for a e using that assms(5) by simp
  show ?thesis unfolding space_ok_def assms(3)
  proof (intro conjI allI impI)
    fix a e assume "a < KERNBASE \<and> mapping (kmemory s') d a = Some e"
    then have "page_ok (kernel_end s) (pgtab e) \<and> pgtab e \<notin> owned (kmemory s) d vs" using old [of a e] assms(1) unfolding space_ok_def by blast
    then show "page_ok (kernel_end s) (pgtab e)" "pgtab e \<notin> owned (kmemory s') d vs'" using assms(4) by auto
  next
    fix a b e e' assume "a < KERNBASE \<and> b < KERNBASE \<and> mapping (kmemory s') d a = Some e \<and> mapping (kmemory s') d b = Some e' \<and> pgtab e = pgtab e'"
    then show "vpn a = vpn b" using old [of a e] old [of b e'] assms(1) unfolding space_ok_def by blast
  qed (use assms(1,2) in \<open>simp_all add: space_ok_def\<close>)
qed

lemma pt_step_owned: "pt_step d s us s' \<Longrightarrow> owned (kmemory s') d vs' = owned (kmemory s) d (us @ vs')"
  by (auto simp: pt_step_def owned_def)

lemma pt_step_frame: "pt_step d s us s' \<Longrightarrow> \<forall>p \<in> owned (kmemory s) d (us @ vs'). \<not> in_page x p \<Longrightarrow> kmemory s' x = kmemory s x"
  by (auto simp: pt_step_def owned_def)

lemma setupkvm_loop_any:
  assumes "space_ok s d vs" and "kmap_ok UNIV ks" and "\<And>w. kmap_mapping ks w \<noteq> None \<Longrightarrow> mapping (kmemory s) d w = None \<and> \<not> w < KERNBASE"
  shows "\<exists>r s'. setupkvm_loop d ks s = Ok r s' \<and> (r = 0 \<and> space_gone s d vs s' \<or>
    r = d \<and> (\<exists>us vs'. vs = us @ vs' \<and> space_ok s' d vs' \<and> pt_step d s us s' \<and>
      (\<forall>w. mapping (kmemory s') d w = (case kmap_mapping ks w of None \<Rightarrow> mapping (kmemory s) d w | Some e \<Rightarrow> Some e))))"
  using assms
proof (induction ks arbitrary: s vs)
  case Nil
  then show ?case by (intro exI [of _ d] exI [of _ s] conjI disjI2 exI [of _ "[]"] exI [of _ vs]) (simp_all add: retK_def pt_step_refl)
next
  case (Cons k ks)
  obtain virt ps pe perm where k: "k = (virt, ps, pe, perm)" by (cases k)
  define z where "z = virt + (pe - ps) - 1"
  have ok: "vpn virt \<le> vpn z" "kmap_ok UNIV ks" and dis: "\<And>w. vpn virt \<le> vpn w \<Longrightarrow> vpn w \<le> vpn z \<Longrightarrow> kmap_mapping ks w = None"
    using Cons.prems(2) by (simp_all add: k z_def)
  have hi: "mapping (kmemory s) d w = None \<and> \<not> w < KERNBASE" if "vpn virt \<le> vpn w" "vpn w \<le> vpn z" for w
    using that Cons.prems(3) [of w] by (simp add: k z_def)
  have wf: "pt_wf s d vs" using Cons.prems(1) by (simp add: space_ok_def)
  obtain r t us vs1 where t: "mappages d virt (pe - ps) ps perm s = Ok r t" "r = 0 \<or> r = -1" "pt_wf t d vs1" "vs = us @ vs1" "pt_step d s us t"
    "\<And>w. \<not> (vpn virt \<le> vpn w \<and> vpn w \<le> vpn z) \<Longrightarrow> mapping (kmemory t) d w = mapping (kmemory s) d w"
    "\<And>w. r = 0 \<Longrightarrow> mapping (kmemory t) d w = (if vpn virt \<le> vpn w \<and> vpn w \<le> vpn z
       then Some ((ps + of_nat (vpn w - vpn virt) * PGSIZE) OR perm OR PTE_P) else mapping (kmemory s) d w)"
    by (rule mappages_any [OF wf ok(1) z_def, of ps perm]) (use hi in blast)+
  have lo: "\<forall>w. w < KERNBASE \<longrightarrow> mapping (kmemory t) d w = mapping (kmemory s) d w" using hi t(6) by blast
  have mo: "t = s\<lparr>kmemory := kmemory t, freelist := freelist t\<rparr>" using t(5) by (simp add: pt_step_def)
  have ow: "owned (kmemory t) d vs1 = owned (kmemory s) d vs" using pt_step_owned [OF t(5), of vs1] t(4) by simp
  have so: "space_ok t d vs1" by (rule space_ok_sub [OF Cons.prems(1) t(3) mem_only_kend [OF mo] _ lo]) (simp add: ow)
  have gone: "space_gone s d vs s'" if "space_gone t d vs1 s'" for s'
    by (rule space_gone_trans [OF that _ _ mo]) (use pt_step_frame [OF t(5), of vs1] frames_cong [OF lo] ow t(4) in auto)
  show ?case
  proof (cases "r = 0")
    case False
    then obtain s' where "freevm d t = Ok () s'" "space_gone t d vs1 s'" using freevm_gone [OF so] by blast
    moreover have "r < 0" using False t(2) by auto
    ultimately show ?thesis using gone t(1) by (intro exI [of _ 0] exI [of _ s']) (simp add: k kdefs)
  next
    case True
    have run: "setupkvm_loop d (k # ks) s = setupkvm_loop d ks t" using t(1) True by (simp add: k kdefs)
    have "mapping (kmemory t) d w = None \<and> \<not> w < KERNBASE" if "kmap_mapping ks w \<noteq> None" for w
    proof -
      have "\<not> (vpn virt \<le> vpn w \<and> vpn w \<le> vpn z)" using that dis [of w] by auto
      then show ?thesis using that t(6) [of w] Cons.prems(3) [of w] by (simp add: k z_def)
    qed
    from Cons.IH [OF so ok(2) this] obtain r' s' where ih: "setupkvm_loop d ks t = Ok r' s'" "r' = 0 \<and> space_gone t d vs1 s' \<or>
      r' = d \<and> (\<exists>us vs'. vs1 = us @ vs' \<and> space_ok s' d vs' \<and> pt_step d t us s' \<and>
        (\<forall>w. mapping (kmemory s') d w = (case kmap_mapping ks w of None \<Rightarrow> mapping (kmemory t) d w | Some e \<Rightarrow> Some e)))" by blast
    from ih(2) show ?thesis
    proof (elim disjE conjE exE)
      assume "r' = 0" "space_gone t d vs1 s'"
      then show ?thesis using run ih(1) gone by (intro exI [of _ 0] exI [of _ s']) simp
    next
      fix us' vs' assume a: "r' = d" "vs1 = us' @ vs'" "space_ok s' d vs'" "pt_step d t us' s'"
        "\<forall>w. mapping (kmemory s') d w = (case kmap_mapping ks w of None \<Rightarrow> mapping (kmemory t) d w | Some e \<Rightarrow> Some e)"
      have "mapping (kmemory s') d w = (case kmap_mapping (k # ks) w of None \<Rightarrow> mapping (kmemory s) d w | Some e \<Rightarrow> Some e)" for w
        using a(5) t(7) [OF True, of w] dis [of w] by (auto simp: k z_def split: option.splits)
      then show ?thesis using run ih(1) a(1-3) t(4) pt_step_trans [OF t(5) a(4)]
        by (intro exI [of _ d] exI [of _ s'] conjI disjI2 exI [of _ "us @ us'"] exI [of _ vs']) simp_all
    qed
  qed
qed

text \<open>All pages that were free are free again, and only they may have been written.\<close>

definition restored :: "'a kmst_scheme \<Rightarrow> uint list \<Rightarrow> 'a kmst_scheme \<Rightarrow> bool" where
  "restored s vs s' \<longleftrightarrow> (\<exists>vs'. kmem_ok s' vs' \<and> set vs' = set vs) \<and> (\<forall>x. (\<forall>v \<in> set vs. \<not> in_page x v) \<longrightarrow> kmemory s' x = kmemory s x) \<and>
     s' = s\<lparr>kmemory := kmemory s', freelist := freelist s'\<rparr>"

lemma gone_restored:
  assumes "space_gone t d ws s'" and "owned (kmemory t) d ws \<union> frames (kmemory t) d 0 524288 = set vs"
    and "\<And>x. \<forall>v \<in> set vs. \<not> in_page x v \<Longrightarrow> kmemory t x = kmemory s x" and "t = s\<lparr>kmemory := kmemory t, freelist := freelist t\<rparr>"
  shows "restored s vs s'"
  using assms(1,3) mem_only_trans [OF assms(4)] unfolding space_gone_def restored_def assms(2) by auto

lemma setupkvm_any:
  assumes ok: "kmem_ok s vs" and l: "L_kmem \<notin> set (klocks s)" and kd: "page_aligned kdata" "KERNLINK < kdata" "kdata < P2V PHYSTOP"
    and ke: "KERNBASE < kernel_end s"
  shows "\<exists>d s'. setupkvm kdata s = Ok d s' \<and> (d = 0 \<and> restored s vs s' \<or>
    d \<noteq> 0 \<and> (\<exists>us vs'. vs = d # us @ vs' \<and> space_ok s' d vs' \<and> tables (kmemory s') d = set us \<and>
      (\<forall>x. (\<forall>p \<in> set (d # us). \<not> in_page x p) \<longrightarrow> kmemory s' x = kmemory s x) \<and> s' = s\<lparr>kmemory := kmemory s', freelist := freelist s'\<rparr> \<and>
      (\<forall>w. mapping (kmemory s') d w = kmapping kdata w)))"
proof (cases vs)
  case Nil
  then have "setupkvm kdata s = Ok 0 s" using kalloc_run(1) [OF ok l Nil] by (simp add: setupkvm_def kdefs)
  moreover have "restored s vs s" using ok by (auto simp: restored_def)
  ultimately show ?thesis by (intro exI [of _ 0] exI [of _ s]) simp
next
  case (Cons d vs1)
  define t where "t = s\<lparr>freelist := load32 (kmemory s) d, kmemory := memset (kmemory s) d 0 PGSIZE\<rparr>"
  note nd = new_dir [OF ok [unfolded Cons] l t_def]
  have mt: "kmemory t x = kmemory s x" if "\<not> in_page x d" for x using that by (simp add: t_def memset_page)
  have mo: "t = s\<lparr>kmemory := kmemory t, freelist := freelist t\<rparr>" by (simp add: t_def)
  have so: "space_ok t d vs1" using nd(1,4) ke by (simp add: space_ok_def t_def)
  have d0: "d \<noteq> 0" using kpages.pool_pages [OF ok] Cons by auto
  have "\<not> DEVSPACE < P2V PHYSTOP" by (simp add: P2V_def PHYSTOP_def DEVSPACE_def KERNBASE_def)
  then have run: "setupkvm kdata s = setupkvm_loop d (kmap kdata) t"
    using kalloc_run(2) [OF ok l Cons] d0 by (simp add: setupkvm_def kdefs memsetK_def t_def)
  note kk = kmap_kernel [OF kd, of UNIV]
  have "\<not> w < KERNBASE" if "kmap_mapping (kmap kdata) w \<noteq> None" for w using that kk(2) by (auto simp: kmapping_def Let_def)
  then obtain r s' where r: "setupkvm_loop d (kmap kdata) t = Ok r s'" "r = 0 \<and> space_gone t d vs1 s' \<or> r = d \<and> (\<exists>us vs'. vs1 = us @ vs' \<and>
      space_ok s' d vs' \<and> pt_step d t us s' \<and>
      (\<forall>w. mapping (kmemory s') d w = (case kmap_mapping (kmap kdata) w of None \<Rightarrow> mapping (kmemory t) d w | Some e \<Rightarrow> Some e)))"
    using setupkvm_loop_any [OF so kk(1)] nd(4) by blast
  from r(2) show ?thesis
  proof (elim disjE conjE exE)
    assume a: "r = 0" "space_gone t d vs1 s'"
    have "frames (kmemory t) d 0 524288 = {}" using nd(4) by (simp add: frames_def)
    then have "restored s vs s'" using nd(3) mt Cons by (intro gone_restored [OF a(2) _ _ mo]) (auto simp: owned_def)
    then show ?thesis using run r(1) a(1) by (intro exI [of _ 0] exI [of _ s']) simp
  next
    fix us vs' assume a: "r = d" "vs1 = us @ vs'" "space_ok s' d vs'" "pt_step d t us s'"
      "\<forall>w. mapping (kmemory s') d w = (case kmap_mapping (kmap kdata) w of None \<Rightarrow> mapping (kmemory t) d w | Some e \<Rightarrow> Some e)"
    have "kmemory s' x = kmemory s x" if "\<forall>p \<in> set (d # us). \<not> in_page x p" for x using a(4) nd(3) mt that by (simp add: pt_step_def)
    moreover have "s' = s\<lparr>kmemory := kmemory s', freelist := freelist s'\<rparr>" using mem_only_trans [OF mo] a(4) unfolding pt_step_def by blast
    moreover have "mapping (kmemory s') d w = kmapping kdata w" for w using a(5) nd(4) kk(2) by (simp split: option.splits)
    moreover have "tables (kmemory s') d = set us" using a(4) nd(3) by (simp add: pt_step_def)
    ultimately show ?thesis using run r(1) a(1-3) Cons d0
      by (intro exI [of _ d] exI [of _ s'] conjI disjI2 exI [of _ us] exI [of _ vs']) simp_all
  qed
qed

lemma space_ok_add:
  assumes so: "space_ok s d (mem # vs)" and wf: "pt_wf s' d vs'" and ke: "kernel_end s' = kernel_end s"
    and ow: "owned (kmemory s') d vs' \<subseteq> owned (kmemory s) d (mem # vs) - {mem}"
    and mp: "\<And>w. mapping (kmemory s') d w = (if b \<and> vpn w = i then Some e else mapping (kmemory s) d w)" and e: "pgtab e = mem"
  shows "space_ok s' d vs'"
proof -
  have mem: "mem \<in> owned (kmemory s) d (mem # vs)" "page_ok (kernel_end s) mem"
    using pt_wfD(5) [of s d "mem # vs"] so by (auto simp: owned_def space_ok_def)
  have old: "page_ok (kernel_end s) (pgtab f) \<and> pgtab f \<notin> owned (kmemory s) d (mem # vs)" if "a < KERNBASE" "mapping (kmemory s) d a = Some f" for a f
    using so that unfolding space_ok_def by blast
  have new: "b \<and> vpn a = i \<and> pgtab f = mem \<or> mapping (kmemory s) d a = Some f" if "mapping (kmemory s') d a = Some f" for a f
    using that e by (auto simp: mp split: if_splits)
  show ?thesis unfolding space_ok_def ke
  proof (intro conjI allI impI)
    fix a f assume "a < KERNBASE \<and> mapping (kmemory s') d a = Some f"
    then show "page_ok (kernel_end s) (pgtab f)" "pgtab f \<notin> owned (kmemory s') d vs'" using new [of a f] old [of a f] mem ow by auto
  next
    fix a c f g assume "a < KERNBASE \<and> c < KERNBASE \<and> mapping (kmemory s') d a = Some f \<and> mapping (kmemory s') d c = Some g \<and> pgtab f = pgtab g"
    then show "vpn a = vpn c" using new [of a f] new [of c g] old [of a f] old [of c g] mem(1) so unfolding space_ok_def by metis
  qed (use so wf in \<open>simp_all add: space_ok_def\<close>)
qed

text \<open>Mapping a new page \<open>mem\<close> at \<open>a\<close>, with the bytes of \<open>m\<close>: if it fails, \<open>mem\<close> belongs to nobody.\<close>

lemma add_page_any:
  assumes so: "space_ok s d (mem # vs)" and m: "\<forall>x. \<not> in_page x mem \<longrightarrow> m x = kmemory s x"
    and a: "page_aligned a" "mapping (kmemory s) d a = None" and perm: "perm AND 0xFFF = perm"
    and t: "t = s\<lparr>freelist := load32 (kmemory s) mem, kmemory := m\<rparr>"
  obtains r s' us vs' where "mappages d a PGSIZE (V2P mem) perm t = Ok r s'" "r = 0 \<or> r = -1" "vs = us @ vs'" "space_ok s' d vs'"
    "tables (kmemory s') d = tables (kmemory s) d \<union> set us"
    "\<And>w. mapping (kmemory s') d w = (if r = 0 \<and> vpn w = vpn a then Some (V2P mem OR perm OR PTE_P) else mapping (kmemory s) d w)"
    "\<And>x. \<forall>p \<in> insert mem (insert d (tables (kmemory s) d \<union> set us)). \<not> in_page x p \<Longrightarrow> kmemory s' x = kmemory s x"
    "s' = s\<lparr>kmemory := kmemory s', freelist := freelist s'\<rparr>"
proof -
  have wf: "pt_wf s d (mem # vs)" using so by (simp add: space_ok_def)
  note d = pt_wfD [OF wf]
  note al = pt_wf_alloc [OF wf m [rule_format] t] and z = vpn_last [OF a(1)]
  have tm: "kmemory t = m" by (simp add: t)
  have none: "mapping (kmemory t) d w = None" if "vpn a \<le> vpn w" "vpn w \<le> vpn (a + PGSIZE - 1)" for w
    using that z mapping_vpn [of w a m d] al(4) a(2) by (simp add: tm)
  obtain r s' us vs' where s': "mappages d a PGSIZE (V2P mem) perm t = Ok r s'" "r = 0 \<or> r = -1" "pt_wf s' d vs'" "vs = us @ vs'" "pt_step d t us s'"
    "\<And>w. \<not> (vpn a \<le> vpn w \<and> vpn w \<le> vpn (a + PGSIZE - 1)) \<Longrightarrow> mapping (kmemory s') d w = mapping (kmemory t) d w"
    "\<And>w. r = 0 \<Longrightarrow> mapping (kmemory s') d w = (if vpn a \<le> vpn w \<and> vpn w \<le> vpn (a + PGSIZE - 1)
       then Some ((V2P mem + of_nat (vpn w - vpn a) * PGSIZE) OR perm OR PTE_P) else mapping (kmemory t) d w)"
    "\<And>w. vpn a = vpn (a + PGSIZE - 1) \<Longrightarrow> r = -1 \<Longrightarrow> mapping (kmemory s') d w = mapping (kmemory t) d w"
    by (rule mappages_any [OF al(1) _ refl, of a PGSIZE "V2P mem" perm]) (use none z in simp_all)
  have mp: "mapping (kmemory s') d w = (if r = 0 \<and> vpn w = vpn a then Some (V2P mem OR perm OR PTE_P) else mapping (kmemory s) d w)" for w
    using s'(2) s'(7) [of w] s'(8) [of w] al(4) [of w] z by (auto simp: tm)
  have mo: "s' = s\<lparr>kmemory := kmemory s', freelist := freelist s'\<rparr>"
    by (rule mem_only_trans [where t = t and m = "kmemory t" and f = "freelist t"]) (use s'(5) in \<open>simp_all add: pt_step_def t\<close>)
  have tb: "tables (kmemory s') d = tables (kmemory s) d \<union> set us" using s'(5) al(3) by (simp add: pt_step_def tm)
  have "kmemory s' x = kmemory s x" if "\<forall>p \<in> insert mem (insert d (tables (kmemory s) d \<union> set us)). \<not> in_page x p" for x
    using s'(5) al(3) that m unfolding pt_step_def tm by simp
  moreover have "space_ok s' d vs'"
  proof (rule space_ok_add [OF so s'(3) mem_only_kend [OF mo] _ mp])
    show "owned (kmemory s') d vs' \<subseteq> owned (kmemory s) d (mem # vs) - {mem}"
      using free_apart [OF wf, of mem] d(6) s'(4) by (auto simp: owned_def tb)
    show "pgtab (V2P mem OR perm OR PTE_P) = mem" using new_pte(2) [OF V2P_aligned perm] d(5) by (simp add: pgtab_def page_ok_def)
  qed
  ultimately show thesis using that [OF s'(1,2,4) _ tb mp _ mo] by blast
qed

text \<open>Giving back a page and then the address space.\<close>

lemma kfree_freevm:
  assumes so: "space_ok s d vs" and mem: "page_ok (kernel_end s) mem" "mem \<notin> owned (kmemory s) d vs"
    and fr: "mem \<notin> frames (kmemory s) d 0 524288"
  obtains t s' where "kfree mem s = Ok () t" "freevm d t = Ok () s'" "space_gone t d (mem # vs) s'"
    "owned (kmemory t) d (mem # vs) = insert mem (owned (kmemory s) d vs)" "frames (kmemory t) d 0 524288 = frames (kmemory s) d 0 524288"
    "\<And>x. \<not> in_page x mem \<Longrightarrow> kmemory t x = kmemory s x" "t = s\<lparr>kmemory := kmemory t, freelist := freelist t\<rparr>"
proof -
  have wf: "pt_wf s d vs" using so by (simp add: space_ok_def)
  note d = pt_wfD [OF wf]
  have "mem \<notin> set vs" using mem(2) by (simp add: owned_def)
  then obtain m where m: "kfree mem s = Ok () (s\<lparr>kmemory := m, freelist := mem\<rparr>)" "kmem_ok (s\<lparr>kmemory := m, freelist := mem\<rparr>) (mem # vs)"
    "\<And>x. \<not> in_page x mem \<Longrightarrow> m x = kmemory s x" using kfree_run [OF d(1) mem(1) _ d(2)] by blast
  define t where "t = s\<lparr>kmemory := m, freelist := mem\<rparr>"
  have tm: "kmemory t = m" "kernel_end t = kernel_end s" by (simp_all add: t_def)
  have ap: "page_aligned mem" "mem \<notin> insert d (tables (kmemory s) d)" using mem by (auto simp: page_ok_def owned_def)
  note al = other_page(1) [OF wf ap m(3)] and eq = other_page(2) [OF wf ap m(3)]
  note mf = mapping_frame [OF al eq]
  have wft: "pt_wf t d (mem # vs)"
    by (rule pt_wf_move [OF wf m(2) [folded t_def]]) (use ap eq free_apart [OF wf] in \<open>auto simp: t_def\<close>)
  have ow: "owned (kmemory t) d (mem # vs) = insert mem (owned (kmemory s) d vs)" by (auto simp: owned_def tm mf(2))
  have nf: "pgtab e \<noteq> mem" if "a < KERNBASE" "mapping (kmemory s) d a = Some e" for a e
    using fr that unfolding frames_def below_KERNBASE by blast
  have mt: "mapping (kmemory t) d w = mapping (kmemory s) d w" for w unfolding tm(1) by (rule mf(3))
  have "space_ok t d (mem # vs)" unfolding space_ok_def ow tm(2) mt using so wft nf unfolding space_ok_def by blast
  then obtain s' where "freevm d t = Ok () s'" "space_gone t d (mem # vs) s'" using freevm_gone by blast
  moreover have "frames (kmemory t) d 0 524288 = frames (kmemory s) d 0 524288" by (simp add: frames_def tm mf(3))
  ultimately show thesis using that [of t s'] m(1,3) ow by (simp add: t_def)
qed

lemma copy_step_any:
  assumes so: "space_ok s d vs" and i: "page_aligned i" "mapping (kmemory s) d i = None"
    and e: "mapping (kmemory s) pgdir i = Some e" "page_ok (kernel_end s) (pgtab e)"
  shows "(\<exists>s'. copyuvm_loop pgdir d (i # is) s = Ok 0 s' \<and> space_gone s d vs s') \<or>
    (\<exists>mem t us vs'. copyuvm_loop pgdir d (i # is) s = copyuvm_loop pgdir d is t \<and> vs = mem # us @ vs' \<and> space_ok t d vs' \<and>
      tables (kmemory t) d = tables (kmemory s) d \<union> set us \<and>
      (\<forall>w. mapping (kmemory t) d w = (if vpn w = vpn i then Some (V2P mem OR PTE_FLAGS e OR PTE_P) else mapping (kmemory s) d w)) \<and>
      (\<forall>x. (\<forall>p \<in> insert mem (insert d (tables (kmemory s) d \<union> set us)). \<not> in_page x p) \<longrightarrow> kmemory t x = kmemory s x) \<and>
      t = s\<lparr>kmemory := kmemory t, freelist := freelist t\<rparr>)"
proof -
  have wf: "pt_wf s d vs" using so by (simp add: space_ok_def)
  note d = pt_wfD [OF wf]
  obtain p where p: "walkpgdir pgdir i False s = Ok (Some p) s" "load32 (kmemory s) p = e" "present e" using walk_mapped [OF e(1)] by blast
  show ?thesis
  proof (cases vs)
    case Nil
    then obtain s' where "freevm d s = Ok () s'" "space_gone s d vs s'" using freevm_gone [OF so] by blast
    moreover from this have "copyuvm_loop pgdir d (i # is) s = Ok 0 s'" using p kalloc_run(1) [OF d(1,2) Nil] by (simp add: kdefs rd32_def present_def)
    ultimately show ?thesis by blast
  next
    case (Cons mem vs1)
    have mem: "page_ok (kernel_end s) mem" "mem \<noteq> 0" using d(5) Cons page_ok_nonzero by auto
    define m where "m = memmove (kmemory s) mem (pgtab e) PGSIZE"
    define t where "t = s\<lparr>freelist := load32 (kmemory s) mem, kmemory := m\<rparr>"
    have mm: "\<forall>x. \<not> in_page x mem \<longrightarrow> m x = kmemory s x" unfolding m_def by (simp add: memmove_page [OF mem(1) e(2)])
    have fl: "PTE_FLAGS e AND 0xFFF = PTE_FLAGS e" by (simp add: PTE_FLAGS_def and.assoc)
    obtain r s2 us vs2 where s2: "mappages d i PGSIZE (V2P mem) (PTE_FLAGS e) t = Ok r s2" "r = 0 \<or> r = -1" "vs1 = us @ vs2" "space_ok s2 d vs2"
      "tables (kmemory s2) d = tables (kmemory s) d \<union> set us"
      "\<And>w. mapping (kmemory s2) d w = (if r = 0 \<and> vpn w = vpn i then Some (V2P mem OR PTE_FLAGS e OR PTE_P) else mapping (kmemory s) d w)"
      "\<And>x. \<forall>p \<in> insert mem (insert d (tables (kmemory s) d \<union> set us)). \<not> in_page x p \<Longrightarrow> kmemory s2 x = kmemory s x"
      "s2 = s\<lparr>kmemory := kmemory s2, freelist := freelist s2\<rparr>"
      by (rule add_page_any [OF so [unfolded Cons] mm i fl t_def]) blast
    have run: "copyuvm_loop pgdir d (i # is) s = (if r < 0 then thenK (kfree mem) (thenK (freevm d) (retK 0)) s2 else copyuvm_loop pgdir d is s2)"
      using p kalloc_run(2) [OF d(1,2) Cons] mem(2) s2(1) by (simp add: kdefs rd32_def present_def memmoveK_def t_def m_def pgtab_def)
    show ?thesis
    proof (cases "r = 0")
      case True
      then show ?thesis using run s2 Cons by (intro disjI2 exI [of _ mem] exI [of _ s2] exI [of _ us] exI [of _ vs2]) simp
    next
      case False
      then have r: "r = -1" using s2(2) by simp
      then have lo: "\<forall>w. w < KERNBASE \<longrightarrow> mapping (kmemory s2) d w = mapping (kmemory s) d w" using s2(6) by simp
      have ow: "owned (kmemory s) d vs = insert mem (owned (kmemory s2) d vs2)" by (auto simp: owned_def s2(5) Cons s2(3))
      have mm: "mem \<notin> owned (kmemory s2) d vs2" using free_apart [OF wf, of mem] d(6) by (auto simp: owned_def s2(5) Cons s2(3))
      have mf: "mem \<notin> frames (kmemory s2) d 0 524288" unfolding frames_cong [OF lo]
        using so unfolding space_ok_def frames_def ow below_KERNBASE by blast
      have "page_ok (kernel_end s2) mem" using mem(1) mem_only_kend [OF s2(8)] by simp
      then obtain t' s' where f: "kfree mem s2 = Ok () t'" "freevm d t' = Ok () s'" "space_gone t' d (mem # vs2) s'"
        "owned (kmemory t') d (mem # vs2) = insert mem (owned (kmemory s2) d vs2)" "frames (kmemory t') d 0 524288 = frames (kmemory s2) d 0 524288"
        "\<And>x. \<not> in_page x mem \<Longrightarrow> kmemory t' x = kmemory s2 x" "t' = s2\<lparr>kmemory := kmemory t', freelist := freelist t'\<rparr>"
        using kfree_freevm [OF s2(4) _ mm mf] by blast
      have "space_gone s d vs s'"
      proof (rule space_gone_trans [OF f(3) _ _ mem_only_trans [OF s2(8) f(7)]])
        show "owned (kmemory t') d (mem # vs2) \<union> frames (kmemory t') d 0 524288 = owned (kmemory s) d vs \<union> frames (kmemory s) d 0 524288"
          using f(4,5) ow frames_cong [OF lo] by simp
        fix x assume x: "\<forall>p \<in> owned (kmemory s) d vs \<union> frames (kmemory s) d 0 524288. \<not> in_page x p"
        then show "kmemory t' x = kmemory s x" using f(6) [of x] s2(7) [of x] by (simp add: ow) (simp add: owned_def s2(5))
      qed
      moreover have "copyuvm_loop pgdir d (i # is) s = Ok 0 s'" using run r f(1,2) by (simp add: kdefs)
      ultimately show ?thesis by blast
    qed
  qed
qed

lemma frames_add:
  assumes "mapping m d i = None" and "\<forall>w. mapping m' d w = (if vpn w = vpn i then Some e else mapping m d w)" and "vpn i < j"
  shows "frames m' d 0 j = insert (pgtab e) (frames m d 0 j)"
proof (intro subset_antisym subsetI)
  fix p assume "p \<in> frames m' d 0 j"
  then obtain a f where "p = pgtab f" "vpn a < j" "mapping m' d a = Some f" by (auto simp: frames_def)
  then show "p \<in> insert (pgtab e) (frames m d 0 j)" using assms(2) by (cases "vpn a = vpn i") (auto simp: frames_def)
next
  fix p assume "p \<in> insert (pgtab e) (frames m d 0 j)"
  then consider "p = pgtab e" | a f where "p = pgtab f" "vpn a < j" "mapping m d a = Some f" by (auto simp: frames_def)
  then show "p \<in> frames m' d 0 j"
  proof cases
    case 1
    then show ?thesis using assms(2,3) unfolding frames_def by (intro CollectI exI [of _ i] exI [of _ e]) simp
  next
    case 2
    then have "vpn a \<noteq> vpn i" using assms(1) mapping_vpn [of a i] by auto
    then show ?thesis using 2 assms(2) unfolding frames_def by (intro CollectI exI [of _ a] exI [of _ f]) simp
  qed
qed

text \<open>The loop of \<^verbatim>\<open>copyuvm\<close> copies all pages, or gives back the whole address space and returns 0.\<close>

lemma copyuvm_loop_any:
  assumes "space_ok s d vs" and "\<forall>i \<in> set is. page_aligned i \<and> i < KERNBASE \<and> mapping (kmemory s) d i = None" and "distinct (map vpn is)"
    and "\<forall>i \<in> set is. \<exists>e. mapping (kmemory s) pgdir i = Some e \<and> page_ok (kernel_end s) (pgtab e)"
    and "\<forall>p \<in> insert pgdir (tables (kmemory s) pgdir). page_aligned p \<and> p \<notin> owned (kmemory s) d vs"
  shows "\<exists>r s'. copyuvm_loop pgdir d is s = Ok r s' \<and> (r = 0 \<and> space_gone s d vs s' \<or> r = d \<and> s' = s\<lparr>kmemory := kmemory s', freelist := freelist s'\<rparr>)"
  using assms
proof (induction "is" arbitrary: s vs)
  case Nil
  then show ?case by (intro exI [of _ d] exI [of _ s]) (simp add: retK_def)
next
  case (Cons i "is")
  have wf: "pt_wf s d vs" using Cons.prems(1) by (simp add: space_ok_def)
  obtain e where e: "mapping (kmemory s) pgdir i = Some e" "page_ok (kernel_end s) (pgtab e)" using Cons.prems(4) by auto
  have i: "page_aligned i" "i < KERNBASE" "mapping (kmemory s) d i = None" using Cons.prems(2) by auto
  from copy_step_any [OF Cons.prems(1) i(1,3) e, of "is"] show ?case
  proof (elim disjE exE conjE)
    fix s' assume "copyuvm_loop pgdir d (i # is) s = Ok 0 s'" "space_gone s d vs s'"
    then show ?thesis by blast
  next
    fix mem t us vs' assume t: "copyuvm_loop pgdir d (i # is) s = copyuvm_loop pgdir d is t" "vs = mem # us @ vs'" "space_ok t d vs'"
      "tables (kmemory t) d = tables (kmemory s) d \<union> set us"
      "\<forall>w. mapping (kmemory t) d w = (if vpn w = vpn i then Some (V2P mem OR PTE_FLAGS e OR PTE_P) else mapping (kmemory s) d w)"
      "\<forall>x. (\<forall>p \<in> insert mem (insert d (tables (kmemory s) d \<union> set us)). \<not> in_page x p) \<longrightarrow> kmemory t x = kmemory s x"
      "t = s\<lparr>kmemory := kmemory t, freelist := freelist t\<rparr>"
    have oa: "\<forall>q \<in> owned (kmemory s) d vs. page_aligned q" using owned_aligned [OF wf] by blast
    have ow: "owned (kmemory s) d vs = insert mem (owned (kmemory t) d vs')" by (auto simp: owned_def t(2,4))
    have fr: "kmemory t x = kmemory s x" if "\<forall>p \<in> owned (kmemory s) d vs. \<not> in_page x p" for x
      using that t(6) by (auto simp: owned_def t(2))
    have al: "\<forall>p \<in> insert pgdir (tables (kmemory s) pgdir). page_aligned p" using Cons.prems(5) by blast
    have eq: "\<forall>p \<in> insert pgdir (tables (kmemory s) pgdir). \<forall>x. in_page x p \<longrightarrow> kmemory t x = kmemory s x"
      using Cons.prems(5) oa fr pages_apart by meson
    note mf = mapping_frame [OF al eq]
    have ni: "vpn i \<notin> vpn ` set is" "distinct (map vpn is)" using Cons.prems(3) by simp_all
    have "\<forall>j \<in> set is. page_aligned j \<and> j < KERNBASE \<and> mapping (kmemory t) d j = None" using Cons.prems(2) ni(1) t(5) by (metis image_eqI list.set_intros(2))
    moreover have "\<forall>j \<in> set is. \<exists>e. mapping (kmemory t) pgdir j = Some e \<and> page_ok (kernel_end t) (pgtab e)" using Cons.prems(4) mf(3) mem_only_kend [OF t(7)] by simp
    moreover have "\<forall>p \<in> insert pgdir (tables (kmemory t) pgdir). page_aligned p \<and> p \<notin> owned (kmemory t) d vs'" using Cons.prems(5) mf(2) ow by auto
    ultimately obtain r s' where ih: "copyuvm_loop pgdir d is t = Ok r s'"
      "r = 0 \<and> space_gone t d vs' s' \<or> r = d \<and> s' = t\<lparr>kmemory := kmemory s', freelist := freelist s'\<rparr>" using Cons.IH [OF t(3) _ ni(2)] by blast
    have mem: "page_aligned mem" "present e" using oa t(2) mapping_present [OF e(1)] by (auto simp: owned_def)
    have fs: "frames (kmemory t) d 0 524288 = insert mem (frames (kmemory s) d 0 524288)"
      using frames_add [OF i(3), of "kmemory t" "V2P mem OR PTE_FLAGS e OR PTE_P" 524288] t(5) i(2) copied_entry(1) [OF mem] by (simp add: below_KERNBASE)
    have "space_gone s d vs s'" if "space_gone t d vs' s'" by (rule space_gone_trans [OF that _ fr t(7)]) (auto simp: ow fs)
    then show ?thesis using t(1) ih mem_only_trans [OF t(7)] by auto
  qed
qed

lemma copyuvm_any:
  assumes wf: "pt_wf s pgdir vs" and ke: "KERNBASE < kernel_end s" and n: "n = (unat sz + 4095) div 4096" and sz: "sz \<le> KERNBASE"
    and user: "\<forall>a. vpn a < n \<longrightarrow> (\<exists>e. mapping (kmemory s) pgdir a = Some e \<and> page_ok (kernel_end s) (pgtab e))"
    and kd: "page_aligned kdata" "KERNLINK < kdata" "kdata < P2V PHYSTOP"
  shows "\<exists>r s'. copyuvm kdata pgdir sz s = Ok r s' \<and> (r = 0 \<and> restored s vs s' \<or> r \<noteq> 0 \<and> s' = s\<lparr>kmemory := kmemory s', freelist := freelist s'\<rparr>)"
proof -
  let ?is = "page_addrs 0 sz"
  note up = user_pages [OF n sz]
  obtain d t where t: "setupkvm kdata s = Ok d t" "d = 0 \<and> restored s vs t \<or> d \<noteq> 0 \<and> (\<exists>us vs'. vs = d # us @ vs' \<and> space_ok t d vs' \<and>
      tables (kmemory t) d = set us \<and> (\<forall>x. (\<forall>p \<in> set (d # us). \<not> in_page x p) \<longrightarrow> kmemory t x = kmemory s x) \<and>
      t = s\<lparr>kmemory := kmemory t, freelist := freelist t\<rparr> \<and> (\<forall>w. mapping (kmemory t) d w = kmapping kdata w))"
    using setupkvm_any [OF pt_wfD(1,2) [OF wf] kd ke] by blast
  from t(2) show ?thesis
  proof (elim disjE exE conjE)
    assume "d = 0" "restored s vs t"
    then show ?thesis using t(1) by (intro exI [of _ 0] exI [of _ t]) (simp add: copyuvm_def kdefs)
  next
    fix us vs' assume d: "d \<noteq> 0" "vs = d # us @ vs'" "space_ok t d vs'" "tables (kmemory t) d = set us"
      "\<forall>x. (\<forall>p \<in> set (d # us). \<not> in_page x p) \<longrightarrow> kmemory t x = kmemory s x" "t = s\<lparr>kmemory := kmemory t, freelist := freelist t\<rparr>"
      "\<forall>w. mapping (kmemory t) d w = kmapping kdata w"
    have ow: "owned (kmemory t) d vs' = set vs" by (auto simp: owned_def d(2,4))
    have fr: "\<forall>x. (\<forall>v \<in> set vs. \<not> in_page x v) \<longrightarrow> kmemory t x = kmemory s x" using d(2,5) by simp
    note ff = free_frame [OF wf fr]
    have vp: "vpn ` set ?is = {0..<n}" using up(2) by (metis set_map set_upt)
    have "\<forall>i \<in> set ?is. page_aligned i \<and> i < KERNBASE \<and> mapping (kmemory t) d i = None" using up(3) d(7) by (simp add: kmapping_def)
    moreover have "\<forall>i \<in> set ?is. \<exists>e. mapping (kmemory t) pgdir i = Some e \<and> page_ok (kernel_end t) (pgtab e)"
      unfolding ff(3) mem_only_kend [OF d(6)] using user vp by (metis atLeastLessThan_iff image_eqI)
    moreover have "\<forall>p \<in> insert pgdir (tables (kmemory t) pgdir). page_aligned p \<and> p \<notin> owned (kmemory t) d vs'"
      unfolding ff(4) ow using owned_aligned [OF wf] free_apart [OF wf] by (auto simp: owned_def)
    ultimately obtain r s' where r: "copyuvm_loop pgdir d ?is t = Ok r s'"
      "r = 0 \<and> space_gone t d vs' s' \<or> r = d \<and> s' = t\<lparr>kmemory := kmemory s', freelist := freelist s'\<rparr>"
      using copyuvm_loop_any [OF d(3), of ?is pgdir] up(2) by (metis (no_types, lifting) distinct_upt)
    have "frames (kmemory t) d 0 524288 = {}" using d(7) by (auto simp: frames_def kmapping_def below_KERNBASE)
    then have "restored s vs s'" if "space_gone t d vs' s'" by (intro gone_restored [OF that _ _ d(6)]) (use ow fr in auto)
    then show ?thesis using t(1) d(1) r mem_only_trans [OF d(6)] by (intro exI [of _ r] exI [of _ s']) (auto simp: copyuvm_def kdefs)
  qed
qed

end
