(* ===== verification/Fork.thy ===== *)
theory Fork
  imports Proc Freevm
begin

text \<open>
  What \<^verbatim>\<open>fork\<close> of \<^verbatim>\<open>kernel/proc.c\<close> does as a whole, from the effects of its parts: the new entry of the process table
  (\<^verbatim>\<open>Proc\<close>), the copy of the address space (\<^verbatim>\<open>Uvm\<close>), and the open files and the directory that parent and child share.
\<close>

section \<open>Sharing the open files\<close>

definition add_ref :: "filerec list \<Rightarrow> nat option \<Rightarrow> filerec list" where
  "add_ref fs r = (case r of None \<Rightarrow> fs | Some f \<Rightarrow> fs[f := (fs ! f)\<lparr>f_ref := f_ref (fs ! f) + 1\<rparr>])"

definition add_refs :: "filerec list \<Rightarrow> nat option list \<Rightarrow> filerec list" where
  "add_refs fs rs = foldl add_ref fs rs"

lemma add_refs_nth:
  assumes "\<forall>g. Some g \<in> set rs \<longrightarrow> g < length fs"
  shows "length (add_refs fs rs) = length fs"
    "f < length fs \<Longrightarrow> add_refs fs rs ! f = (fs ! f)\<lparr>f_ref := f_ref (fs ! f) + int (count_list rs (Some f))\<rparr>"
  using assms
proof (induction rs rule: rev_induct)
  case (snoc r rs)
  {
    case 1
    then show ?case using snoc by (simp add: add_refs_def add_ref_def split: option.split)
  next
    case 2
    then show ?case using snoc by (auto simp: add_refs_def add_ref_def nth_list_update split: option.split)
  }
qed (simp_all add: add_refs_def)

lemma filedup_run:
  assumes "klocks s = []" and "\<not> f_ref (ftable s ! f) < 1"
  shows "filedup f s = Ok f (s\<lparr>ftable := add_ref (ftable s) (Some f)\<rparr>)"
  using assms klocks_self [of "s\<lparr>ftable := add_ref (ftable s) (Some f)\<rparr>" "[]"]
  by (simp add: filedup_def kdefs acquire_def release_def upd_file_def add_ref_def)

text \<open>The loop over the descriptors, after \<open>m\<close> of them.\<close>

lemma dup_files:
  fixes s :: "'a procst_scheme"
  assumes k: "klocks s = []" and np: "np < length (ptable s)" and m: "m \<le> length os"
    and refs: "\<forall>f. Some f \<in> set os \<longrightarrow> f < length (ftable s) \<and> 1 \<le> f_ref (ftable s ! f)"
    and q: "p_ofile (ptable s ! np) = replicate (length os) None"
  shows "forK [0..<m] (\<lambda>fd. case os ! fd of None \<Rightarrow> retK () | Some f \<Rightarrow>
      bindK (filedup f) (\<lambda>g. upd_proc np (\<lambda>q. q\<lparr>p_ofile := (p_ofile q)[fd := Some g]\<rparr>))) s =
    Ok () (s\<lparr>ftable := add_refs (ftable s) (take m os),
      ptable := (ptable s)[np := (ptable s ! np)\<lparr>p_ofile := take m os @ replicate (length os - m) None\<rparr>]\<rparr>)"
  using m
proof (induction m)
  case 0
  have "(ptable s)[np := (ptable s ! np)\<lparr>p_ofile := replicate (length os) None\<rparr>] = ptable s" using q [symmetric] by simp
  then show ?case by (simp add: kdefs add_refs_def)
next
  case (Suc m)
  let ?F = "\<lambda>m. add_refs (ftable s) (take m os)" and ?Q = "\<lambda>m. (ptable s ! np)\<lparr>p_ofile := take m os @ replicate (length os - m) None\<rparr>"
  have m: "m < length os" using Suc.prems by simp
  have l: "\<forall>g. Some g \<in> set (take m os) \<longrightarrow> g < length (ftable s)" using refs by (meson in_set_takeD)
  have r: "replicate (length os - m) (None :: nat option) = None # replicate (length os - Suc m) None" using m by (simp add: Suc_diff_Suc flip: replicate_Suc)
  have F: "?F (Suc m) = add_ref (?F m) (os ! m)" using m by (simp add: add_refs_def take_Suc_conv_app_nth)
  show ?case
  proof (cases "os ! m")
    case None
    then have "?Q (Suc m) = ?Q m" "?F (Suc m) = ?F m" using m r F by (simp_all add: take_Suc_conv_app_nth add_ref_def)
    then show ?thesis using Suc None by (simp add: forK_append kdefs)
  next
    case (Some f)
    then have f: "f < length (ftable s)" "1 \<le> f_ref (ftable s ! f)" using refs m nth_mem by metis+
    then have ref: "\<not> f_ref (?F m ! f) < 1" using add_refs_nth(2) [OF l f(1)] by simp
    have "?Q (Suc m) = (?Q m)\<lparr>p_ofile := (p_ofile (?Q m))[m := Some f]\<rparr>" using m r Some by (simp add: take_Suc_conv_app_nth list_update_append)
    then show ?thesis using Suc Some np F filedup_run [of "s\<lparr>ftable := ?F m, ptable := (ptable s)[np := ?Q m]\<rparr>" f] k ref
      by (simp add: forK_append kdefs upd_proc_def)
  qed
qed

section \<open>The child\<close>

text \<open>The entry of the child, from that of the parent \<open>i\<close> and the entry that \<^verbatim>\<open>allocproc\<close> made.\<close>

definition child :: "nat \<Rightarrow> proc \<Rightarrow> uint \<Rightarrow> proc \<Rightarrow> proc" where
  "child i p d q = q\<lparr>p_pgdir := d, p_sz := p_sz p, p_parent := Some i, p_tf := (p_tf p)\<lparr>tf_eax := 0\<rparr>, p_ofile := p_ofile p,
     p_cwd := p_cwd p, p_name := safestrcpy (cstr (p_name p)) 16, p_state := RUNNABLE\<rparr>"

lemma fork_run:
  assumes c: "cur s = Some i" "i < length (ptable s)" and p: "p = ptable s ! i" and a: "allocproc tr fr s = Ok (Some np) s1"
    and pi: "ptable s1 = (ptable s)[np := q]" "np \<noteq> i" "np < length (ptable s)"
    and cp: "copyuvm kdata (p_pgdir p) (p_sz p) s1 = Ok d s2" "d \<noteq> 0" and s2: "s2 = s1\<lparr>kmemory := kmemory s2, freelist := freelist s2\<rparr>"
    and k: "klocks s1 = []" and os: "length (p_ofile p) = NOFILE" "p_ofile q = replicate NOFILE None"
    and refs: "\<forall>f. Some f \<in> set (p_ofile p) \<longrightarrow> f < length (ftable s1) \<and> 1 \<le> f_ref (ftable s1 ! f)" and cwd: "p_cwd p = Some w"
  shows "fork kdata tr fr s = Ok (p_pid q) (s2\<lparr>ftable := add_refs (ftable s1) (p_ofile p), ptable := (ptable s)[np := child i p d q],
    icache := (icache s1)[w := (icache s1 ! w)\<lparr>i_ref := i_ref (icache s1 ! w) + 1\<rparr>]\<rparr>)"
proof -
  obtain m f where s2: "s2 = s1\<lparr>kmemory := m, freelist := f\<rparr>" using s2 by blast
  define s3 where "s3 = s2\<lparr>ptable := (ptable s)[np := q\<lparr>p_pgdir := d, p_sz := p_sz p, p_parent := Some i, p_tf := (p_tf p)\<lparr>tf_eax := 0\<rparr>\<rparr>]\<rparr>"
  have "forK [0..<NOFILE] (\<lambda>fd. case p_ofile p ! fd of None \<Rightarrow> retK () | Some f \<Rightarrow>
      bindK (filedup f) (\<lambda>g. upd_proc np (\<lambda>q. q\<lparr>p_ofile := (p_ofile q)[fd := Some g]\<rparr>))) s3 =
    Ok () (s3\<lparr>ftable := add_refs (ftable s1) (p_ofile p), ptable := (ptable s3)[np := (ptable s3 ! np)\<lparr>p_ofile := p_ofile p\<rparr>]\<rparr>)"
    using dup_files [of s3 np NOFILE "p_ofile p"] k pi os refs by (simp add: s3_def s2)
  moreover have "myproc s = Ok i s" using c by (simp add: myproc_def kdefs)
  ultimately show ?thesis using a cp pi cwd k p [symmetric]
    by (simp add: fork_def kdefs upd_proc_def s2 s3_def idup_def acquire_def release_def upd_inode_def child_def klocks_self)
qed

text \<open>The new entry leaves the parent's address space as it is.\<close>

lemma new_proc_space:
  fixes s :: "'a procst_scheme"
  assumes np: "find_index (\<lambda>p. p_state p = UNUSED) (ptable s) = Some np" "nextpid s < 2 ^ 31 - 1" "klocks s = []" and wf: "pt_wf s pgdir (v # vs)"
  obtains m where "allocproc tr fr s = Ok (Some np) (new_proc s np v m)" "pt_wf (new_proc s np v m) pgdir vs" "\<forall>x. \<not> in_page x v \<longrightarrow> m x = kmemory s x"
    "\<forall>x. (\<forall>u \<in> set (v # vs). \<not> in_page x u) \<longrightarrow> m x = kmemory s x"
proof -
  obtain m where m: "allocproc tr fr s = Ok (Some np) (new_proc s np v m)" "kmem_ok (new_proc s np v m) vs" "\<And>x. \<not> in_page x v \<Longrightarrow> m x = kmemory s x"
    using allocproc_run [OF np(1,2) pt_wfD(1) [OF wf] np(3)] by blast
  have fr: "\<forall>x. (\<forall>u \<in> set (v # vs). \<not> in_page x u) \<longrightarrow> m x = kmemory s x" using m(3) by simp
  have "pt_wf (new_proc s np v m) pgdir vs"
    by (rule pt_wf_frame [OF wf m(2)]) (use free_frame(2) [OF wf fr] np(3) in \<open>auto simp: new_proc_def\<close>)
  then show thesis using that m(1,3) fr by blast
qed

lemma new_proc_simps: "kmemory (new_proc s np v m) = m" "klocks (new_proc s np v m) = []" "kernel_end (new_proc s np v m) = kernel_end s"
  "ftable (new_proc s np v m) = ftable s" "icache (new_proc s np v m) = icache s"
  "ptable (new_proc s np v m) = (ptable s)[np := (ptable s ! np)\<lparr>p_state := EMBRYO, p_pid := nextpid s, p_kstack := v, p_context := v + KSTACKSIZE - sizeof_trapframe - 4 - sizeof_context\<rparr>]"
  by (simp_all add: new_proc_def)

text \<open>The address space of the child: the first two steps of \<^verbatim>\<open>fork\<close>.\<close>

lemma fork_space:
  fixes s :: "'a procst_scheme"
  assumes np: "find_index (\<lambda>p. p_state p = UNUSED) (ptable s) = Some np" "nextpid s < 2 ^ 31 - 1" "klocks s = []"
    and wf: "pt_wf s pgdir (v # vs)" and n: "n = (unat sz + 4095) div 4096" "sz \<le> KERNBASE"
    and user: "\<forall>a. vpn a < n \<longrightarrow> (\<exists>e. mapping (kmemory s) pgdir a = Some e \<and> page_ok (kernel_end s) (pgtab e) \<and> pgtab e \<notin> set (v # vs))"
    and kd: "page_aligned kdata" "KERNLINK < kdata" "kdata < P2V PHYSTOP" and enough: "65 + n + (n + 1023) div 1024 \<le> length vs"
  obtains m d s2 where "allocproc tr fr s = Ok (Some np) (new_proc s np v m)" "copyuvm kdata pgdir sz (new_proc s np v m) = Ok d s2" "d \<noteq> 0"
    "s2 = (new_proc s np v m)\<lparr>kmemory := kmemory s2, freelist := freelist s2\<rparr>"
    "\<And>a. vpn a < n \<Longrightarrow> \<exists>e e'. mapping (kmemory s) pgdir a = Some e \<and> mapping (kmemory s2) pgdir a = Some e \<and> mapping (kmemory s2) d a = Some e' \<and>
      page_aligned (pgtab e) \<and> pgtab e \<notin> set vs \<and> page_aligned (pgtab e') \<and> pgtab e' \<in> set vs \<and>
      kmemory s2 (pgtab e + a mod PGSIZE) = kmemory s (pgtab e + a mod PGSIZE) \<and>
      kmemory s2 (pgtab e' + a mod PGSIZE) = kmemory s (pgtab e + a mod PGSIZE)"
proof -
  obtain m where m: "allocproc tr fr s = Ok (Some np) (new_proc s np v m)" "pt_wf (new_proc s np v m) pgdir vs"
    "\<forall>x. (\<forall>u \<in> set (v # vs). \<not> in_page x u) \<longrightarrow> m x = kmemory s x" using new_proc_space [OF np wf] by blast
  define t where "t = new_proc s np v m"
  have t: "kmemory t = m" "kernel_end t = kernel_end s" by (simp_all add: t_def new_proc_simps)
  note ff = free_frame [OF wf m(3)] and wft = m(2) [folded t_def]
  have ut: "\<forall>a. vpn a < n \<longrightarrow> (\<exists>e. mapping (kmemory t) pgdir a = Some e \<and> page_ok (kernel_end t) (pgtab e) \<and> pgtab e \<notin> set vs)"
    using user by (auto simp: t ff(3))
  obtain d s2 vs' where s2: "copyuvm kdata pgdir sz t = Ok d s2" "d \<in> set vs"
    "\<And>a. vpn a < n \<Longrightarrow> \<exists>e e'. mapping (kmemory t) pgdir a = Some e \<and> mapping (kmemory s2) d a = Some e' \<and> PTE_FLAGS e' = PTE_FLAGS e \<and>
       pgtab e' \<in> set vs \<and> pgtab e' \<notin> set vs' \<and> kmemory s2 (pgtab e' + a mod PGSIZE) = kmemory t (pgtab e + a mod PGSIZE)"
    "\<forall>x. (\<forall>v \<in> set vs. \<not> in_page x v) \<longrightarrow> kmemory s2 x = kmemory t x" "s2 = t\<lparr>kmemory := kmemory s2, freelist := freelist s2\<rparr>"
    using copyuvm_correct [OF wft n ut kd enough] by blast
  note f2 = free_frame [OF wft s2(4)]
  have vs: "\<forall>u \<in> set vs. page_aligned u \<and> u \<noteq> 0" using pt_wfD(5) [OF wft] page_ok_nonzero by (auto simp: page_ok_def)
  have "\<exists>e e'. mapping (kmemory s) pgdir a = Some e \<and> mapping (kmemory s2) pgdir a = Some e \<and> mapping (kmemory s2) d a = Some e' \<and>
      page_aligned (pgtab e) \<and> pgtab e \<notin> set vs \<and> page_aligned (pgtab e') \<and> pgtab e' \<in> set vs \<and>
      kmemory s2 (pgtab e + a mod PGSIZE) = kmemory s (pgtab e + a mod PGSIZE) \<and>
      kmemory s2 (pgtab e' + a mod PGSIZE) = kmemory s (pgtab e + a mod PGSIZE)" if a: "vpn a < n" for a
  proof -
    obtain e e' where e: "mapping (kmemory s) pgdir a = Some e" "mapping (kmemory s2) d a = Some e'" "pgtab e' \<in> set vs"
      "kmemory s2 (pgtab e' + a mod PGSIZE) = m (pgtab e + a mod PGSIZE)" using s2(3) [OF a] by (auto simp: t(1) ff(3))
    have pe: "page_aligned (pgtab e)" "pgtab e \<notin> set (v # vs)" using user a e(1) by (auto simp: page_ok_def)
    have "kmemory s2 (pgtab e + a mod PGSIZE) = m (pgtab e + a mod PGSIZE)" using f2(1) [OF pe(1) _ in_page_mod] pe(2) by (simp add: t(1))
    moreover have "m (pgtab e + a mod PGSIZE) = kmemory s (pgtab e + a mod PGSIZE)" by (rule ff(1) [OF pe in_page_mod])
    moreover have "mapping (kmemory s2) pgdir a = Some e" using e(1) f2(3) ff(3) by (simp add: t(1))
    ultimately show ?thesis using e pe vs by auto
  qed
  then show thesis using that [OF m(1) s2(1) [unfolded t_def] _ s2(5) [unfolded t_def]] vs s2(2) by blast
qed

lemma mem_only_nextpid: "s' = s\<lparr>kmemory := m, freelist := f\<rparr> \<Longrightarrow> nextpid s' = nextpid s"
  by simp

text \<open>
  (C4) \<^verbatim>\<open>fork\<close> makes a copy of the running process. Let the process be well formed: its first \<open>n\<close> pages, its size rounded up, are
  mapped, and its open files are referenced; and let there be an unused entry of the process table, without open files as
  \<^verbatim>\<open>exit\<close> leaves it, and enough free pages: one for the kernel stack, 65 for the kernel part of the address space, one for
  each page and the page tables. Then \<^verbatim>\<open>fork\<close> returns the next pid, which no other process has, and exactly that entry of the table has changed: it is a
  runnable child of the process, with the same size, open files, directory and trap frame, except that its \<^verbatim>\<open>fork\<close> returns
  0. The child sees the parent's bytes at every address, in pages of its own: no byte of memory is shared, and the parent's
  memory and mapping are as before. The count of every open file has grown by the number of descriptors for it.
\<close>

theorem fork_correct:
  assumes c: "cur s = Some i" "i < length (ptable s)" "p = ptable s ! i" "p_state p = RUNNING" "klocks s = []"
    and np: "find_index (\<lambda>p. p_state p = UNUSED) (ptable s) = Some np" "p_ofile (ptable s ! np) = replicate NOFILE None" "nextpid s < 2 ^ 31 - 1"
    and pid: "pids_ok (ptable s) (nextpid s)" "0 < nextpid s"
    and wf: "pt_wf s (p_pgdir p) (v # vs)" and n: "n = (unat (p_sz p) + 4095) div 4096" "p_sz p \<le> KERNBASE"
    and user: "\<forall>a. vpn a < n \<longrightarrow> (\<exists>e. mapping (kmemory s) (p_pgdir p) a = Some e \<and> page_ok (kernel_end s) (pgtab e) \<and> pgtab e \<notin> set (v # vs))"
    and kd: "page_aligned kdata" "KERNLINK < kdata" "kdata < P2V PHYSTOP" and enough: "65 + n + (n + 1023) div 1024 \<le> length vs"
    and files: "length (p_ofile p) = NOFILE" "\<forall>f. Some f \<in> set (p_ofile p) \<longrightarrow> f < length (ftable s) \<and> 1 \<le> f_ref (ftable s ! f)" "p_cwd p = Some w"
  shows "\<exists>s' q. fork kdata tr fr s = Ok (nextpid s) s' \<and> ptable s' = (ptable s)[np := q] \<and> klocks s' = [] \<and> pids_ok (ptable s') (nextpid s') \<and>
    p_pid q = nextpid s \<and> p_state q = RUNNABLE \<and> p_parent q = Some i \<and> p_kstack q = v \<and> p_sz q = p_sz p \<and>
    p_tf q = (p_tf p)\<lparr>tf_eax := 0\<rparr> \<and> p_ofile q = p_ofile p \<and> p_cwd q = p_cwd p \<and>
    (\<forall>a. vpn a < n \<longrightarrow> (\<exists>k k'. user_addr (kmemory s) (p_pgdir p) a = Some k \<and> user_addr (kmemory s') (p_pgdir p) a = Some k \<and>
       user_addr (kmemory s') (p_pgdir q) a = Some k' \<and> kmemory s' k = kmemory s k \<and> kmemory s' k' = kmemory s k)) \<and>
    (\<forall>a b. vpn a < n \<and> vpn b < n \<longrightarrow> user_addr (kmemory s') (p_pgdir p) a \<noteq> user_addr (kmemory s') (p_pgdir q) b) \<and>
    (\<forall>f < length (ftable s). ftable s' ! f = (ftable s ! f)\<lparr>f_ref := f_ref (ftable s ! f) + int (count_list (p_ofile p) (Some f))\<rparr>)"
proof -
  have np': "np < length (ptable s)" "np \<noteq> i" using find_index_SomeD [OF np(1)] c(3,4) by auto
  obtain m d s2 where f: "allocproc tr fr s = Ok (Some np) (new_proc s np v m)" "copyuvm kdata (p_pgdir p) (p_sz p) (new_proc s np v m) = Ok d s2" "d \<noteq> 0"
    "s2 = (new_proc s np v m)\<lparr>kmemory := kmemory s2, freelist := freelist s2\<rparr>"
    "\<And>a. vpn a < n \<Longrightarrow> \<exists>e e'. mapping (kmemory s) (p_pgdir p) a = Some e \<and> mapping (kmemory s2) (p_pgdir p) a = Some e \<and> mapping (kmemory s2) d a = Some e' \<and>
      page_aligned (pgtab e) \<and> pgtab e \<notin> set vs \<and> page_aligned (pgtab e') \<and> pgtab e' \<in> set vs \<and>
      kmemory s2 (pgtab e + a mod PGSIZE) = kmemory s (pgtab e + a mod PGSIZE) \<and>
      kmemory s2 (pgtab e' + a mod PGSIZE) = kmemory s (pgtab e + a mod PGSIZE)"
    by (rule fork_space [OF np(1,3) c(5) wf n user kd enough, of tr fr]) blast
  define q where "q = child i p d ((ptable s ! np)\<lparr>p_state := EMBRYO, p_pid := nextpid s, p_kstack := v, p_context := v + KSTACKSIZE - sizeof_trapframe - 4 - sizeof_context\<rparr>)"
  define t where "t = new_proc s np v m"
  have t: "ptable t = (ptable s)[np := (ptable s ! np)\<lparr>p_state := EMBRYO, p_pid := nextpid s, p_kstack := v, p_context := v + KSTACKSIZE - sizeof_trapframe - 4 - sizeof_context\<rparr>]" "klocks t = []" "ftable t = ftable s"
    by (simp_all add: t_def new_proc_def)
  define s' where "s' = s2\<lparr>ftable := add_refs (ftable t) (p_ofile p), ptable := (ptable s)[np := q],
    icache := (icache t)[w := (icache t ! w)\<lparr>i_ref := i_ref (icache t ! w) + 1\<rparr>]\<rparr>"
  have s': "kmemory s' = kmemory s2" "klocks s' = []" "ptable s' = (ptable s)[np := q]" "ftable s' = add_refs (ftable s) (p_ofile p)"
    "nextpid s' = nextpid s + 1"
    using mem_only_klocks [OF f(4) [folded t_def]] mem_only_nextpid [OF f(4)] by (simp_all add: s'_def t new_proc_def)
  have "fork kdata tr fr s = Ok (nextpid s) s'"
    using fork_run [OF c(1-3) f(1) [folded t_def] t(1) np'(2,1) f(2) [folded t_def] f(3) f(4) [folded t_def] t(2) files(1) _ _ files(3)] np(2) files(2) t(3)
    by (simp add: s'_def q_def)
  moreover have q: "p_pid q = nextpid s" "p_state q = RUNNABLE" "p_parent q = Some i" "p_kstack q = v" "p_sz q = p_sz p" "p_pgdir q = d"
    "p_tf q = (p_tf p)\<lparr>tf_eax := 0\<rparr>" "p_ofile q = p_ofile p" "p_cwd q = p_cwd p" by (simp_all add: q_def child_def)
  have "\<exists>k k'. user_addr (kmemory s) (p_pgdir p) a = Some k \<and> user_addr (kmemory s') (p_pgdir p) a = Some k \<and>
      user_addr (kmemory s') (p_pgdir q) a = Some k' \<and> kmemory s' k = kmemory s k \<and> kmemory s' k' = kmemory s k" if "vpn a < n" for a
    using f(5) [OF that] user_addr_Some unfolding s'(1) q(6) by metis
  moreover have "user_addr (kmemory s') (p_pgdir p) a \<noteq> user_addr (kmemory s') (p_pgdir q) b" if "vpn a < n" "vpn b < n" for a b
    using f(5) [OF that(1)] f(5) [OF that(2)] page_disjoint in_page_mod user_addr_Some unfolding s'(1) q(6) by (metis option.inject)
  moreover have "ftable s' ! f = (ftable s ! f)\<lparr>f_ref := f_ref (ftable s ! f) + int (count_list (p_ofile p) (Some f))\<rparr>" if "f < length (ftable s)" for f
    unfolding s'(4) using add_refs_nth(2) [OF _ that] files(2) by blast
  moreover have "pids_ok (ptable s') (nextpid s')" unfolding s'(3,5) by (rule pids_ok_new [OF pid q(1)])
  ultimately show ?thesis using s'(2,3) q by (intro exI [of _ s'] exI [of _ q]) blast
qed

section \<open>Running out of memory\<close>

lemma fork_gives_up:
  assumes c: "cur s = Some i" "i < length (ptable s)" and p: "p = ptable s ! i" and a: "allocproc tr fr s = Ok (Some np) t"
    and pi: "ptable t = (ptable s)[np := q]" "np \<noteq> i" "np < length (ptable s)"
    and cp: "copyuvm kdata (p_pgdir p) (p_sz p) t = Ok 0 s2" and re: "restored t vs s2" and k: "klocks t = []"
    and v: "p_kstack q = v" "page_ok (kernel_end t) v" "v \<notin> set vs"
  shows "\<exists>s'. fork kdata tr fr s = Ok (-1) s' \<and> (\<exists>vs'. kmem_ok s' vs' \<and> set vs' = insert v (set vs)) \<and>
    (\<forall>x. \<not> in_page x v \<longrightarrow> kmemory s' x = kmemory s2 x) \<and> (\<exists>q. ptable s' = (ptable s)[np := q] \<and> p_state q = UNUSED) \<and>
    ftable s' = ftable t \<and> icache s' = icache t \<and> klocks s' = []"
proof -
  obtain m f ws where s2: "s2 = t\<lparr>kmemory := m, freelist := f\<rparr>" "kmem_ok s2 ws" "set ws = set vs" using re unfolding restored_def by blast
  define s3 where "s3 = s2\<lparr>ptable := (ptable s)[np := q\<lparr>p_pgdir := 0\<rparr>]\<rparr>"
  have "kmem_ok s3 ws" "page_ok (kernel_end s3) v" "v \<notin> set ws" "L_kmem \<notin> set (klocks s3)"
    using s2 v k by (simp_all add: s3_def kmem_ok_def)
  then obtain m' where m': "kfree v s3 = Ok () (s3\<lparr>kmemory := m', freelist := v\<rparr>)" "kmem_ok (s3\<lparr>kmemory := m', freelist := v\<rparr>) (v # ws)"
    "\<And>x. \<not> in_page x v \<Longrightarrow> m' x = kmemory s3 x" using kfree_run by blast
  let ?s = "s3\<lparr>kmemory := m', freelist := v, ptable := (ptable s)[np := q\<lparr>p_pgdir := 0, p_kstack := 0, p_state := UNUSED\<rparr>]\<rparr>"
  have "myproc s = Ok i s" using c by (simp add: myproc_def kdefs)
  then have "fork kdata tr fr s = Ok (-1) ?s" using a cp pi p [symmetric] m'(1) v(1) by (simp add: fork_def kdefs upd_proc_def s2(1) s3_def)
  moreover have "kmem_ok ?s (v # ws)" using m'(2) by (simp add: kmem_ok_def)
  ultimately show ?thesis using m'(3) s2(1,3) k by (intro exI [of _ ?s] conjI exI [of _ "v # ws"]) (auto simp: s3_def)
qed

text \<open>
  (C5) \<^verbatim>\<open>fork\<close> leaks no memory when it fails. With an unused entry of the process table and however few free pages, \<^verbatim>\<open>fork\<close>
  returns. It returns the next pid, or -1, and then exactly the pages that were free are free, wherever it stopped: in the
  kernel stack, in the kernel part of the address space, or in a page or page table of the copy. The entry is unused again,
  all other entries, the open files and the inodes are as before, and memory outside the free pages is untouched.
\<close>

theorem fork_fails_cleanly:
  fixes s :: "'a procst_scheme"
  assumes c: "cur s = Some i" "i < length (ptable s)" "p = ptable s ! i" "p_state p = RUNNING" "klocks s = []"
    and np: "find_index (\<lambda>p. p_state p = UNUSED) (ptable s) = Some np" "p_ofile (ptable s ! np) = replicate NOFILE None" "nextpid s < 2 ^ 31 - 1"
    and wf: "pt_wf s (p_pgdir p) vs" and ke: "KERNBASE < kernel_end s" and n: "n = (unat (p_sz p) + 4095) div 4096" "p_sz p \<le> KERNBASE"
    and user: "\<forall>a. vpn a < n \<longrightarrow> (\<exists>e. mapping (kmemory s) (p_pgdir p) a = Some e \<and> page_ok (kernel_end s) (pgtab e))"
    and kd: "page_aligned kdata" "KERNLINK < kdata" "kdata < P2V PHYSTOP"
    and files: "length (p_ofile p) = NOFILE" "\<forall>f. Some f \<in> set (p_ofile p) \<longrightarrow> f < length (ftable s) \<and> 1 \<le> f_ref (ftable s ! f)" "p_cwd p = Some w"
  shows "\<exists>r s'. fork kdata tr fr s = Ok r s' \<and> (r = nextpid s \<or> r = -1 \<and> (\<exists>vs'. kmem_ok s' vs' \<and> set vs' = set vs) \<and>
    (\<forall>x. (\<forall>v \<in> set vs. \<not> in_page x v) \<longrightarrow> kmemory s' x = kmemory s x) \<and> (\<exists>q. ptable s' = (ptable s)[np := q] \<and> p_state q = UNUSED) \<and>
    ftable s' = ftable s \<and> icache s' = icache s \<and> klocks s' = [])"
proof (cases vs)
  case Nil
  have my: "myproc s = Ok i s" using c(1,2) by (simp add: myproc_def kdefs)
  let ?s = "s\<lparr>ptable := (ptable s)[np := (ptable s ! np)\<lparr>p_pid := nextpid s, p_kstack := 0, p_state := UNUSED\<rparr>], nextpid := nextpid s + 1, klocks := []\<rparr>"
  have ok: "kmem_ok s []" using pt_wfD(1) [OF wf] Nil by simp
  then have "fork kdata tr fr s = Ok (-1) ?s" using allocproc_fail [OF np(1,3) ok c(5), of tr fr] my by (simp add: fork_def kdefs)
  moreover have "kmem_ok ?s []" using ok by (simp add: kmem_ok_def)
  ultimately show ?thesis using Nil by (intro exI [of _ "-1"] exI [of _ ?s]) auto
next
  case (Cons v vs1)
  have np': "np < length (ptable s)" "np \<noteq> i" using find_index_SomeD [OF np(1)] c(3,4) by auto
  obtain m where m: "allocproc tr fr s = Ok (Some np) (new_proc s np v m)" "pt_wf (new_proc s np v m) (p_pgdir p) vs1"
    "\<forall>x. \<not> in_page x v \<longrightarrow> m x = kmemory s x" "\<forall>x. (\<forall>u \<in> set vs. \<not> in_page x u) \<longrightarrow> m x = kmemory s x"
    using new_proc_space [OF np(1,3) c(5) wf [unfolded Cons]] Cons by blast
  define t where "t = new_proc s np v m"
  note t = new_proc_simps [of s np v m, folded t_def] and ff = free_frame [OF wf m(4)]
  have ut: "\<forall>a. vpn a < n \<longrightarrow> (\<exists>e. mapping (kmemory t) (p_pgdir p) a = Some e \<and> page_ok (kernel_end t) (pgtab e))"
    using user by (auto simp: t(1,3) ff(3))
  have ket: "KERNBASE < kernel_end t" using ke t(3) by simp
  obtain d s2 where s2: "copyuvm kdata (p_pgdir p) (p_sz p) t = Ok d s2"
    "d = 0 \<and> restored t vs1 s2 \<or> d \<noteq> 0 \<and> s2 = t\<lparr>kmemory := kmemory s2, freelist := freelist s2\<rparr>"
    using copyuvm_any [OF m(2) [folded t_def] ket n ut kd] by blast
  show ?thesis
  proof (cases "d = 0")
    case False
    then have "\<exists>s'. fork kdata tr fr s = Ok (nextpid s) s'"
      using fork_run [OF c(1-3) m(1) [folded t_def] t(6) np'(2,1) s2(1) False _ t(2) files(1) _ _ files(3)] s2(2) np(2) files(2) t(4) by simp
    then show ?thesis by blast
  next
    case True
    have v: "page_ok (kernel_end t) v" "v \<notin> set vs1" "restored t vs1 s2" using pt_wfD(5,6) [OF wf] Cons t(3) s2(2) True by auto
    obtain s' where s': "fork kdata tr fr s = Ok (-1) s'" "\<exists>vs'. kmem_ok s' vs' \<and> set vs' = insert v (set vs1)"
      "\<forall>x. \<not> in_page x v \<longrightarrow> kmemory s' x = kmemory s2 x" "\<exists>q. ptable s' = (ptable s)[np := q] \<and> p_state q = UNUSED"
      "ftable s' = ftable t" "icache s' = icache t" "klocks s' = []"
      using fork_gives_up [OF c(1-3) m(1) [folded t_def] t(6) np'(2,1) s2(1) [unfolded True] v(3) t(2) _ v(1,2)] by auto
    have "kmemory s' x = kmemory s x" if "\<forall>u \<in> set vs. \<not> in_page x u" for x
      using that s'(3) s2(2) True m(4) Cons t(1) by (simp add: restored_def)
    then show ?thesis using s' t(4,5) Cons by (intro exI [of _ "-1"] exI [of _ s']) auto
  qed
qed

section \<open>An example\<close>

text \<open>A free list threaded through given pages.\<close>

fun link_pages :: "memory \<Rightarrow> uint list \<Rightarrow> memory" where
  "link_pages m [] = m"
| "link_pages m (v # vs) = store32 (link_pages m vs) v (case vs of [] \<Rightarrow> 0 | w # _ \<Rightarrow> w)"

lemma link_pages_other: "\<forall>v \<in> set vs. \<not> in_page x v \<Longrightarrow> link_pages m vs x = m x"
  by (induction vs) (simp_all add: store32_other)

lemma link_pages_chain:
  assumes "distinct vs" and "\<forall>v \<in> set vs. page_ok kend v"
  shows "free_chain kend (link_pages m vs) (case vs of [] \<Rightarrow> 0 | w # _ \<Rightarrow> w) vs"
  using assms
proof (induction vs)
  case (Cons v vs)
  let ?n = "case vs of [] \<Rightarrow> 0 | w # _ \<Rightarrow> w"
  have "free_chain kend (store32 (link_pages m vs) v ?n) ?n vs = free_chain kend (link_pages m vs) ?n vs"
  proof (rule free_chain_cong)
    fix x w assume "w \<in> set vs" "in_page x w"
    then have "\<not> in_page x v" using Cons.prems page_disjoint by (auto simp: page_ok_def)
    then show "store32 (link_pages m vs) v ?n x = link_pages m vs x" by (rule store32_other)
  qed
  then show ?case using Cons by simp
qed simp

text \<open>
  A process of one byte, 42, with one open file: its page directory, page table and page are the first three pages of the
  kernel's memory, and the next 70 are free.
\<close>

definition w_pages :: "uint list" where
  "w_pages = map (\<lambda>k. 0x80103000 + of_nat k * 0x1000) [0..<70]"

definition w_mem :: memory where
  "w_mem = ((store32 (store32 (\<lambda>_. 0) 0x80100000 0x101007) 0x80101000 0x102007) (0x80102000 := 42))"

definition w_parent :: proc where
  "w_parent = zero_proc\<lparr>p_pid := 1, p_state := RUNNING, p_pgdir := 0x80100000, p_sz := 1, p_ofile := Some 0 # replicate 15 None, p_cwd := Some 0\<rparr>"

definition w_state :: procst where
  "w_state = (proc_one [w_parent, zero_proc])\<lparr>kmemory := link_pages w_mem w_pages, freelist := 0x80103000,
     ftable := [\<lparr>f_type = FD_INODE, f_ref = 1, f_readable = True, f_writable = True, f_pipe = 0, f_ip = Some 0, f_off = 0\<rparr>]\<rparr>"

lemma w_pages_unat: "k < 70 \<Longrightarrow> unat ((0x80103000 :: uint) + of_nat k * 0x1000) = 0x80103000 + k * 0x1000"
  by (simp add: unat_word_ariths unat_of_nat)

lemma w_pages_ok: "distinct w_pages" "\<forall>v \<in> set w_pages. page_ok 0x80100000 v \<and> 0x80103000 \<le> unat v" "length w_pages = 70"
proof -
  show "distinct w_pages" unfolding w_pages_def distinct_map
    using w_pages_unat by (auto intro!: inj_onI dest!: arg_cong [of _ _ unat])
  show "\<forall>v \<in> set w_pages. page_ok 0x80100000 v \<and> 0x80103000 \<le> unat v"
    using w_pages_unat by (auto simp: w_pages_def page_ok_def page_aligned_unat V2P_def KERNBASE_def PHYSTOP_def word_le_nat_alt word_less_nat_alt unat_sub_if_size word_size)
  show "length w_pages = 70" by (simp add: w_pages_def)
qed

lemma w_pages_Cons:
  obtains vs where "w_pages = 0x80103000 # vs" "length vs = 69"
  by (rule that [of "map (\<lambda>k. 0x80103000 + of_nat k * 0x1000) [1..<70]"], unfold w_pages_def, subst upt_conv_Cons) simp_all

lemma w_low: "unat x < 0x80103000 \<Longrightarrow> kmemory w_state x = w_mem x"
proof -
  assume x: "unat x < 0x80103000"
  have "\<not> in_page x v" if "v \<in> set w_pages" for v
    using that w_pages_ok(2) x in_page_unat [of v x] by (auto simp: page_ok_def)
  then show ?thesis by (simp add: w_state_def link_pages_other)
qed

lemma w_slots:
  assumes "i < 1024"
  shows "load32 (kmemory w_state) (slot 0x80100000 i) = (if i = 0 then 0x101007 else 0)"
    "load32 (kmemory w_state) (slot 0x80101000 i) = (if i = 0 then 0x102007 else 0)"
proof -
  have al: "page_aligned 0x80100000" "page_aligned 0x80101000" "page_aligned 0x80102000" by (simp_all add: page_aligned_def PGSIZE_def)
  have w: "load32 (kmemory w_state) (slot p i) = load32 (store32 (store32 (\<lambda>_. 0) (slot 0x80100000 0) 0x101007) (slot 0x80101000 0) 0x102007) (slot p i)"
    if pa: "page_aligned p" "p < 0x80102000" for p
  proof (rule slot_frame [OF pa(1) assms], intro allI impI)
    fix x assume ip: "in_page x p"
    have x: "unat x = unat p + unat (x - p)" "unat (x - p) < 4096" using in_page_unat [OF pa(1) ip] ip by (simp_all only: in_page_def)
    obtain k where k: "unat p = 4096 * k" using page_unat(1) [OF pa(1)] by (auto elim: dvdE)
    have "unat p < 0x80102000" using pa(2) by (simp add: word_less_nat_alt)
    then have "k < 0x80102" using k by simp
    then have "unat x < 0x80102000" using x k by simp
    then have "x \<noteq> 0x80102000" "unat x < 0x80103000" by auto
    then show "kmemory w_state x = store32 (store32 (\<lambda>_. 0) (slot 0x80100000 0) 0x101007) (slot 0x80101000 0) 0x102007 x"
      by (simp add: w_low w_mem_def slot_def)
  qed
  have z: "load32 (\<lambda>_. 0) a = 0" for a by (simp add: load32_def)
  show "load32 (kmemory w_state) (slot 0x80100000 i) = (if i = 0 then 0x101007 else 0)"
    using w [OF al(1)] slot_store [OF al(2) al(1), of 0 i, OF _ assms] slot_store [OF al(1) al(1), of 0 i, OF _ assms] by (auto simp: z split: if_splits)
  show "load32 (kmemory w_state) (slot 0x80101000 i) = (if i = 0 then 0x102007 else 0)"
    using w [OF al(2)] slot_store [OF al(2) al(2), of 0 i, OF _ assms] slot_store [OF al(1) al(2), of 0 i, OF _ assms] by (auto simp: z split: if_splits)
qed

lemma w_wf: "pt_wf w_state 0x80100000 w_pages" "vpn a < 1 \<Longrightarrow> mapping (kmemory w_state) 0x80100000 a = Some 0x102007"
proof -
  have e: "present 0x101007" "pgtab 0x101007 = 0x80101000" "present 0x102007"
    by (simp_all add: present_def PTE_P_def pgtab_def PTE_ADDR_def P2V_def KERNBASE_def)
  have "kmem_ok w_state w_pages"
  proof -
    have "(case w_pages of [] \<Rightarrow> 0 | w # _ \<Rightarrow> w) = 0x80103000" by (rule w_pages_Cons) (metis list.case(2))
    then show ?thesis using link_pages_chain [OF w_pages_ok(1), of "0x80100000" w_mem] w_pages_ok(1,2) by (simp add: kmem_ok_def w_state_def)
  qed
  moreover have "0x80100000 \<notin> set w_pages" "0x80101000 \<notin> set w_pages" using w_pages_ok(2) by auto
  moreover have "page_ok 0x80100000 0x80100000" "page_ok 0x80100000 0x80101000"
    by (simp_all add: page_ok_def page_aligned_def PGSIZE_def V2P_def KERNBASE_def PHYSTOP_def)
  moreover have "klocks w_state = []" "kernel_end w_state = 0x80100000" by (simp_all add: w_state_def)
  moreover have "pgtab (load32 (kmemory w_state) (slot 0x80100000 i)) = 0x80101000" "i = 0"
    if "i < 1024" "present (load32 (kmemory w_state) (slot 0x80100000 i))" for i
    using that w_slots(1) [OF that(1)] not_present_0 e(2) by (auto split: if_splits)
  ultimately show "pt_wf w_state 0x80100000 w_pages" unfolding pt_wf_def by (intro conjI allI impI) (simp_all, metis)
  assume "vpn a < 1"
  then have "unat a < 4096" by (simp add: vpn_def)
  then have "pdx a = 0" "ptx a = 0" by (simp_all add: pdx_def ptx_def)
  then show "mapping (kmemory w_state) 0x80100000 a = Some 0x102007" using w_slots [of 0] e by (simp add: mapping_def)
qed

theorem fork_correct_witness:
  "\<exists>s' q k. fork 0x80108000 1 2 w_state = Ok 3 s' \<and> ptable s' = [w_parent, q] \<and> p_state q = RUNNABLE \<and> p_ofile q = p_ofile w_parent \<and>
     user_addr (kmemory s') (p_pgdir q) 0 = Some k \<and> kmemory s' k = 42 \<and> f_ref (ftable s' ! 0) = 2"
proof -
  have f: "pgtab 0x102007 = 0x80102000" by (simp add: pgtab_def PTE_ADDR_def P2V_def KERNBASE_def)
  obtain vs where vs: "w_pages = 0x80103000 # vs" "length vs = 69" by (rule w_pages_Cons)
  have st: "cur w_state = Some 0" "ptable w_state = [w_parent, zero_proc]" "klocks w_state = []" "nextpid w_state = 3" "kernel_end w_state = 0x80100000"
    by (simp_all add: w_state_def)
  have p: "p_state w_parent = RUNNING" "p_pgdir w_parent = 0x80100000" "p_sz w_parent = 1" "p_ofile w_parent = Some 0 # replicate 15 None"
    "p_cwd w_parent = Some 0" by (simp_all add: w_parent_def)
  have "page_ok (kernel_end w_state) (pgtab 0x102007)" "pgtab 0x102007 \<notin> set w_pages"
    using w_pages_ok(2) by (auto simp: f st page_ok_def page_aligned_def PGSIZE_def V2P_def KERNBASE_def PHYSTOP_def)
  then have u: "\<forall>a. vpn a < 1 \<longrightarrow> (\<exists>e. mapping (kmemory w_state) (p_pgdir w_parent) a = Some e \<and> page_ok (kernel_end w_state) (pgtab e) \<and> pgtab e \<notin> set (0x80103000 # vs))"
    using w_wf(2) by (simp add: p vs(1))
  have k: "page_aligned 0x80108000" "KERNLINK < 0x80108000" "0x80108000 < P2V PHYSTOP"
    by (simp_all add: page_aligned_def PGSIZE_def KERNLINK_def KERNBASE_def EXTMEM_def P2V_def PHYSTOP_def)
  have fi: "find_index (\<lambda>p. p_state p = UNUSED) (ptable w_state) = Some 1" by (simp add: st p zero_proc_def)
  have fl: "length (p_ofile w_parent) = NOFILE" "\<forall>f. Some f \<in> set (p_ofile w_parent) \<longrightarrow> f < length (ftable w_state) \<and> 1 \<le> f_ref (ftable w_state ! f)"
    "p_ofile (ptable w_state ! 1) = replicate NOFILE None" by (auto simp: p NOFILE_def w_state_def zero_proc_def)
  have n: "1 = (unat (p_sz w_parent) + 4095) div 4096" "p_sz w_parent \<le> KERNBASE" "65 + 1 + (1 + 1023) div 1024 \<le> length vs" "nextpid w_state < 2 ^ 31 - 1"
    by (simp_all add: p vs(2) st KERNBASE_def)
  have c: "0 < length (ptable w_state)" "w_parent = ptable w_state ! 0" by (simp_all add: st)
  have pid: "pids_ok (ptable w_state) (nextpid w_state)" "0 < nextpid w_state"
    by (auto simp: st pids_ok_def live_def w_parent_def zero_proc_def less_Suc_eq)
  obtain s' q where s': "fork 0x80108000 1 2 w_state = Ok (nextpid w_state) s'" "ptable s' = (ptable w_state)[1 := q]" "p_state q = RUNNABLE"
    "p_ofile q = p_ofile w_parent"
    "\<forall>a. vpn a < 1 \<longrightarrow> (\<exists>k k'. user_addr (kmemory w_state) (p_pgdir w_parent) a = Some k \<and> user_addr (kmemory s') (p_pgdir w_parent) a = Some k \<and>
       user_addr (kmemory s') (p_pgdir q) a = Some k' \<and> kmemory s' k = kmemory w_state k \<and> kmemory s' k' = kmemory w_state k)"
    "\<forall>f < length (ftable w_state). ftable s' ! f = (ftable w_state ! f)\<lparr>f_ref := f_ref (ftable w_state ! f) + int (count_list (p_ofile w_parent) (Some f))\<rparr>"
    using fork_correct [OF st(1) c p(1) st(3) fi fl(3) n(4) pid w_wf(1) [folded p(2), unfolded vs(1)] n(1,2) u k n(3) fl(1,2) p(5), of 1 2] by blast
  have "user_addr (kmemory w_state) (p_pgdir w_parent) 0 = Some 0x80102000" "kmemory w_state 0x80102000 = 42"
    using user_addr_Some [OF w_wf(2) [of 0]] by (simp_all add: p f vpn_def w_low w_mem_def)
  moreover have "f_ref (ftable s' ! 0) = 2" using s'(6) [rule_format, of 0] by (simp add: w_state_def p)
  ultimately show ?thesis using s'(1-4) s'(5) [rule_format, of 0] by (auto simp: st vpn_def)
qed

text \<open>The same process without any free page.\<close>

definition w_full :: procst where
  "w_full = w_state\<lparr>kmemory := w_mem, freelist := 0\<rparr>"

lemma w_full_wf: "pt_wf w_full 0x80100000 []" "vpn a < 1 \<Longrightarrow> mapping (kmemory w_full) 0x80100000 a = Some 0x102007"
proof -
  have "present 0x101007" "pgtab 0x101007 = 0x80101000" by (simp_all add: present_def PTE_P_def pgtab_def PTE_ADDR_def P2V_def KERNBASE_def)
  then have tb: "tables (kmemory w_state) 0x80100000 = {0x80101000}"
    using w_slots(1) not_present_0 by (auto simp: tables_def dirs_def intro!: image_eqI [of _ _ 0] split: if_splits)
  have al: "\<forall>p \<in> insert 0x80100000 (tables (kmemory w_state) 0x80100000). page_aligned p" by (simp add: tb page_aligned_def PGSIZE_def)
  have low: "unat x < 0x80103000" if "in_page x 0x80100000 \<or> in_page x 0x80101000" for x
    using that in_page_unat [of "0x80100000" x] in_page_unat [of "0x80101000" x] by (auto simp: page_aligned_def PGSIZE_def in_page_def)
  have eq: "\<forall>p \<in> insert 0x80100000 (tables (kmemory w_state) 0x80100000). \<forall>x. in_page x p \<longrightarrow> kmemory w_full x = kmemory w_state x"
    using low w_low unfolding tb by (simp add: w_full_def)
  have k: "kmem_ok w_full []" by (simp add: kmem_ok_def w_full_def)
  show "pt_wf w_full 0x80100000 []" by (rule pt_wf_move [OF w_wf(1) k _ _ _ eq]) (simp_all add: w_full_def)
  show "vpn a < 1 \<Longrightarrow> mapping (kmemory w_full) 0x80100000 a = Some 0x102007" using mapping_frame(3) [OF al eq] w_wf(2) by simp
qed

theorem fork_fails_cleanly_witness:
  "\<exists>s' q. fork 0x80108000 1 2 w_full = Ok (-1) s' \<and> kmem_ok s' [] \<and> ptable s' = [w_parent, q] \<and> p_state q = UNUSED \<and> kmemory s' = kmemory w_full"
proof -
  have st: "cur w_full = Some 0" "ptable w_full = [w_parent, zero_proc]" "klocks w_full = []" "nextpid w_full = 3" "kernel_end w_full = 0x80100000"
    by (simp_all add: w_full_def w_state_def)
  have p: "p_state w_parent = RUNNING" "p_pgdir w_parent = 0x80100000" "p_sz w_parent = 1" "p_ofile w_parent = Some 0 # replicate 15 None"
    "p_cwd w_parent = Some 0" by (simp_all add: w_parent_def)
  have "page_ok (kernel_end w_full) (pgtab 0x102007)"
    by (simp add: st pgtab_def PTE_ADDR_def P2V_def page_ok_def page_aligned_def PGSIZE_def V2P_def KERNBASE_def PHYSTOP_def)
  then have u: "\<forall>a. vpn a < 1 \<longrightarrow> (\<exists>e. mapping (kmemory w_full) (p_pgdir w_parent) a = Some e \<and> page_ok (kernel_end w_full) (pgtab e))"
    using w_full_wf(2) by (simp add: p)
  have k: "page_aligned 0x80108000" "KERNLINK < 0x80108000" "0x80108000 < P2V PHYSTOP"
    by (simp_all add: page_aligned_def PGSIZE_def KERNLINK_def KERNBASE_def EXTMEM_def P2V_def PHYSTOP_def)
  have fi: "find_index (\<lambda>p. p_state p = UNUSED) (ptable w_full) = Some 1" by (simp add: st p zero_proc_def)
  have fl: "length (p_ofile w_parent) = NOFILE" "\<forall>f. Some f \<in> set (p_ofile w_parent) \<longrightarrow> f < length (ftable w_full) \<and> 1 \<le> f_ref (ftable w_full ! f)"
    "p_ofile (ptable w_full ! 1) = replicate NOFILE None" by (auto simp: p NOFILE_def w_full_def w_state_def zero_proc_def)
  have n: "1 = (unat (p_sz w_parent) + 4095) div 4096" "p_sz w_parent \<le> KERNBASE" "KERNBASE < kernel_end w_full" "nextpid w_full < 2 ^ 31 - 1"
    by (simp_all add: p st KERNBASE_def)
  have c: "0 < length (ptable w_full)" "w_parent = ptable w_full ! 0" by (simp_all add: st)
  have a: "\<exists>t. allocproc 1 2 w_full = Ok None t"
    using allocproc_fail [OF fi n(4) pt_wfD(1) [OF w_full_wf(1)] st(3)] by blast
  obtain r s' where s': "fork 0x80108000 1 2 w_full = Ok r s'" "r = nextpid w_full \<or> r = -1 \<and> (\<exists>vs'. kmem_ok s' vs' \<and> set vs' = set []) \<and>
      (\<forall>x. (\<forall>v \<in> set []. \<not> in_page x v) \<longrightarrow> kmemory s' x = kmemory w_full x) \<and> (\<exists>q. ptable s' = (ptable w_full)[1 := q] \<and> p_state q = UNUSED) \<and>
      ftable s' = ftable w_full \<and> icache s' = icache w_full \<and> klocks s' = []"
    using fork_fails_cleanly [OF st(1) c p(1) st(3) fi fl(3) n(4) w_full_wf(1) [folded p(2)] n(3,1,2) u k fl(1,2) p(5), of 1 2] by blast
  have "r = -1" using s'(1) a st(1,2) by (auto simp: fork_def kdefs myproc_def)
  then show ?thesis using s' st(2,4) by (auto simp: fun_eq_iff)
qed

end
