(* ===== verification/Copyout.thy ===== *)
theory Copyout
  imports Sysarg Freevm
begin

text \<open>
  Memory of a process written by the kernel: \<^verbatim>\<open>copyout\<close> of \<^verbatim>\<open>kernel/vm.c\<close>, with which \<^verbatim>\<open>exec\<close> puts the arguments of a
  program on its stack, writes exactly the bytes of its range as the process sees them, across pages.
\<close>

section \<open>The bytes of a process\<close>

text \<open>The byte at an address of the address space \<open>d\<close>, and whether the process may use it.\<close>

definition ubyte :: "memory \<Rightarrow> uint \<Rightarrow> uint \<Rightarrow> uchar option" where
  "ubyte m d a = map_option m (user_addr m d a)"

definition user_page :: "memory \<Rightarrow> uint \<Rightarrow> uint \<Rightarrow> bool" where
  "user_page m d a \<longleftrightarrow> (\<exists>e. mapping m d a = Some e \<and> e AND PTE_U \<noteq> 0)"

lemma ubyte_Some: "mapping m d a = Some e \<Longrightarrow> ubyte m d a = Some (m (pgtab e + a mod PGSIZE))"
  by (simp add: ubyte_def user_addr_Some)

lemma ubyte_cong:
  assumes "mapping m' d a = mapping m d a" and "\<And>e x. mapping m d a = Some e \<Longrightarrow> in_page x (pgtab e) \<Longrightarrow> m' x = m x"
  shows "ubyte m' d a = ubyte m d a"
proof (cases "mapping m d a")
  case None
  then show ?thesis using assms(1) by (simp add: ubyte_def user_addr_def)
next
  case (Some e)
  then show ?thesis using ubyte_Some [OF Some] ubyte_Some [of m' d a e] assms in_page_mod by simp
qed

text \<open>Writing a page that is mapped at \<open>a\<close> leaves the page tables and all other pages of the process alone.\<close>

lemma write_frame:
  assumes so: "space_ok s d vs" and a: "a < KERNBASE" "mapping (kmemory s) d a = Some e" and mm: "\<forall>x. \<not> in_page x (pgtab e) \<longrightarrow> m x = kmemory s x"
  shows "space_ok (s\<lparr>kmemory := m\<rparr>) d vs" "mapping m d w = mapping (kmemory s) d w" "tables m d = tables (kmemory s) d"
    "w < KERNBASE \<Longrightarrow> vpn w \<noteq> vpn a \<Longrightarrow> ubyte m d w = ubyte (kmemory s) d w"
proof -
  note m = mm [rule_format]
  have wf: "pt_wf s d vs" and pe: "page_ok (kernel_end s) (pgtab e)" "pgtab e \<notin> owned (kmemory s) d vs" using so a unfolding space_ok_def by blast+
  have ap: "page_aligned (pgtab e)" "pgtab e \<notin> insert d (tables (kmemory s) d)" using pe by (auto simp: page_ok_def owned_def)
  note mf = mapping_frame [OF other_page(1) [OF wf ap m] other_page(2) [OF wf ap m]]
  have "kmem_ok (s\<lparr>kmemory := m\<rparr>) vs"
  proof (rule kmem_ok_upd [OF pt_wfD(1) [OF wf]])
    fix x v assume "v \<in> set vs" "in_page x v"
    then have "\<not> in_page x (pgtab e)" using pe ap(1) owned_aligned [OF wf] page_disjoint by (metis UnI2 owned_def)
    then show "m x = kmemory s x" by (rule m)
  qed
  then have "pt_wf (s\<lparr>kmemory := m\<rparr>) d vs"
    by (rule pt_wf_frame [OF wf]) (use other_page(2) [OF wf ap m] in simp_all)
  then show "space_ok (s\<lparr>kmemory := m\<rparr>) d vs" by (rule space_ok_sub [OF so]) (simp_all add: mf owned_def)
  show "mapping m d w = mapping (kmemory s) d w" "tables m d = tables (kmemory s) d" using mf by auto
  show "ubyte m d w = ubyte (kmemory s) d w" if w: "w < KERNBASE" "vpn w \<noteq> vpn a"
  proof (rule ubyte_cong [OF mf(3)])
    fix f x assume f: "mapping (kmemory s) d w = Some f" "in_page x (pgtab f)"
    have "page_aligned (pgtab f)" "pgtab f \<noteq> pgtab e" using so f(1) w a unfolding space_ok_def page_ok_def by blast+
    then show "m x = kmemory s x" using m page_disjoint f(2) ap(1) by blast
  qed
qed

text \<open>The effect of storing bytes inside a page.\<close>

lemma put_in_page:
  assumes "page_aligned p" and "unat k + length bs \<le> 4096"
    and m'_def: "m' = (\<lambda>x. if unat (x - (p + k)) < length bs then bs ! unat (x - (p + k)) else m x)"
  shows "\<not> in_page x p \<Longrightarrow> m' x = m x"
    "j < 4096 \<Longrightarrow> m' (p + of_nat j) = (if unat k \<le> j \<and> j < unat k + length bs then bs ! (j - unat k) else m (p + of_nat j))"
proof -
  show "m' x = m x" if "\<not> in_page x p"
  proof -
    have "\<not> unat (x - (p + k)) < length bs"
    proof
      assume l: "unat (x - (p + k)) < length bs"
      have "unat (k + (x - (p + k))) = unat k + unat (x - (p + k))" by (rule unat_add_noovf) (use l assms(2) in linarith)
      moreover have "k + (x - (p + k)) = x - p" by simp
      ultimately have "unat (x - p) = unat k + unat (x - (p + k))" by (simp only:)
      then show False using l assms(2) that by (simp add: in_page_def)
    qed
    then show ?thesis by (simp add: m'_def)
  qed
  assume j: "j < 4096"
  have uj: "unat (of_nat j :: uint) = j" using j by (intro unat_of_nat_small) simp
  have e: "p + of_nat j - (p + k) = of_nat j - k" by simp
  show "m' (p + of_nat j) = (if unat k \<le> j \<and> j < unat k + length bs then bs ! (j - unat k) else m (p + of_nat j))"
  proof (cases "unat k \<le> j")
    case True
    then have "unat (of_nat j - k) = j - unat k" using uj by (simp add: unat_sub word_le_nat_alt)
    then show ?thesis using True unfolding m'_def e by auto
  next
    case False
    have "unat k \<le> 4096" using assms(2) by simp
    then have "unat (of_nat j - k) = 2 ^ 32 + j - unat k" using False uj unat_sub_if_size [of "of_nat j" k] by (simp add: word_le_nat_alt word_size)
    then show ?thesis using False assms(2) unfolding m'_def e by auto
  qed
qed

section \<open>copyout\<close>

text \<open>One page of \<^verbatim>\<open>copyout\<close>: \<open>bs\<close> goes to the addresses from \<open>va\<close> on, which are in one page.\<close>

lemma vpn_mod: "unat w = 4096 * vpn w + unat (w mod PGSIZE)"
  by (simp add: vpn_def PGSIZE_def unat_mod)

lemma copyout_page:
  assumes so: "space_ok s d vs" and va: "va < KERNBASE" "mapping (kmemory s) d va = Some e" "unat (va mod PGSIZE) + length bs \<le> 4096"
    and s': "put_kbytes (pgtab e + va mod PGSIZE) bs s = Ok () s'"
  shows "space_ok s' d vs" "mapping (kmemory s') d w = mapping (kmemory s) d w" "tables (kmemory s') d = tables (kmemory s) d"
    "w < KERNBASE \<Longrightarrow> ubyte (kmemory s') d w =
       (if unat va \<le> unat w \<and> unat w < unat va + length bs then Some (bs ! (unat w - unat va)) else ubyte (kmemory s) d w)"
    "\<not> in_page x (pgtab e) \<Longrightarrow> kmemory s' x = kmemory s x" "s' = s\<lparr>kmemory := kmemory s'\<rparr>"
proof -
  have al: "page_aligned (pgtab e)" using so va unfolding space_ok_def page_ok_def by blast
  define m where "m = (\<lambda>x. if unat (x - (pgtab e + va mod PGSIZE)) < length bs then bs ! unat (x - (pgtab e + va mod PGSIZE)) else kmemory s x)"
  have e: "s' = s\<lparr>kmemory := m\<rparr>" using s' by (simp add: put_kbytes_def kdefs m_def)
  then have km: "kmemory s' = m" by simp
  note pp = put_in_page [OF al va(3) m_def]
  have mm: "\<forall>x. \<not> in_page x (pgtab e) \<longrightarrow> m x = kmemory s x" using pp(1) by blast
  note wf = write_frame [OF so va(1,2) mm]
  show "space_ok s' d vs" "mapping (kmemory s') d w = mapping (kmemory s) d w" "tables (kmemory s') d = tables (kmemory s) d"
    "\<not> in_page x (pgtab e) \<Longrightarrow> kmemory s' x = kmemory s x" "s' = s\<lparr>kmemory := kmemory s'\<rparr>" using wf pp(1) by (simp_all add: e)
  show "ubyte (kmemory s') d w =
       (if unat va \<le> unat w \<and> unat w < unat va + length bs then Some (bs ! (unat w - unat va)) else ubyte (kmemory s) d w)" if w: "w < KERNBASE"
  proof (cases "vpn w = vpn va")
    case True
    have mw: "mapping (kmemory s) d w = Some e" "mapping m d w = Some e" using va(2) mapping_vpn [OF True] wf(2) by auto
    define j k where jk: "j = unat (w mod PGSIZE)" "k = unat (va mod PGSIZE)"
    have "j < 4096" by (simp add: jk PGSIZE_def unat_mod)
    then have "m (pgtab e + of_nat j) = (if k \<le> j \<and> j < k + length bs then bs ! (j - k) else kmemory s (pgtab e + of_nat j))"
      using pp(2) [of j] by (simp only: jk)
    moreover have w: "of_nat j = w mod PGSIZE" by (simp add: jk)
    ultimately have mj: "m (pgtab e + w mod PGSIZE) = (if k \<le> j \<and> j < k + length bs then bs ! (j - k) else kmemory s (pgtab e + w mod PGSIZE))"
      by (simp only: w)
    have "unat w = 4096 * vpn va + j" "unat va = 4096 * vpn va + k" using vpn_mod [of w] vpn_mod [of va] True by (simp_all only: jk)
    then have u: "unat va \<le> unat w \<longleftrightarrow> k \<le> j" "unat w < unat va + length bs \<longleftrightarrow> j < k + length bs" "unat w - unat va = j - k" by linarith+
    show ?thesis unfolding km ubyte_Some [OF mw(2)] ubyte_Some [OF mw(1)] mj u by simp
  next
    case False
    have "\<not> (unat va \<le> unat w \<and> unat w < unat va + length bs)"
    proof
      assume a: "unat va \<le> unat w \<and> unat w < unat va + length bs"
      then have "vpn va \<le> vpn w" unfolding vpn_def by (intro div_le_mono) (rule conjunct1)
      then have "vpn va + 1 \<le> vpn w" using False by linarith
      then show False using a va(3) vpn_mod [of va] vpn_mod [of w] by linarith
    qed
    then show ?thesis unfolding km wf(4) [OF w False] by (simp only: if_False)
  qed
qed

text \<open>
  \<^verbatim>\<open>copyout\<close> to addresses that the process may use: afterwards the process sees the bytes there, and everything else as
  before.
\<close>

definition copied_out :: "'a kmst_scheme \<Rightarrow> uint \<Rightarrow> uint \<Rightarrow> uchar list \<Rightarrow> uint list \<Rightarrow> 'a kmst_scheme \<Rightarrow> bool" where
  "copied_out s d va bs vs s' \<longleftrightarrow> space_ok s' d vs \<and> (\<forall>w. mapping (kmemory s') d w = mapping (kmemory s) d w) \<and> tables (kmemory s') d = tables (kmemory s) d \<and>
     (\<forall>w. w < KERNBASE \<longrightarrow> ubyte (kmemory s') d w =
       (if unat va \<le> unat w \<and> unat w < unat va + length bs then Some (bs ! (unat w - unat va)) else ubyte (kmemory s) d w)) \<and>
     (\<forall>x. (\<forall>p \<in> frames (kmemory s) d 0 524288. \<not> in_page x p) \<longrightarrow> kmemory s' x = kmemory s x) \<and> s' = s\<lparr>kmemory := kmemory s'\<rparr>"

lemma copied_out_append:
  assumes "copied_out s d va bs vs t" and "copied_out t d vb cs vs s'" and "unat vb = unat va + length bs"
  shows "copied_out s d va (bs @ cs) vs s'"
proof -
  have mp: "\<forall>w. mapping (kmemory t) d w = mapping (kmemory s) d w" using assms(1) by (simp add: copied_out_def)
  then have fr: "frames (kmemory t) d 0 524288 = frames (kmemory s) d 0 524288" by (simp add: frames_def)
  have "ubyte (kmemory s') d w = (if unat va \<le> unat w \<and> unat w < unat va + length (bs @ cs) then Some ((bs @ cs) ! (unat w - unat va)) else ubyte (kmemory s) d w)"
    if "w < KERNBASE" for w
    using assms that unfolding copied_out_def by (auto simp: nth_append)
  moreover have "kmemory s' x = kmemory s x" if "\<forall>p \<in> frames (kmemory s) d 0 524288. \<not> in_page x p" for x
    using assms(1,2) that fr unfolding copied_out_def by simp
  moreover have "s' = s\<lparr>kmemory := kmemory s'\<rparr>"
  proof -
    have "t = s\<lparr>kmemory := kmemory t\<rparr>" "s' = t\<lparr>kmemory := kmemory s'\<rparr>" using assms(1,2) unfolding copied_out_def by blast+
    then show ?thesis by (metis kmst.update_convs(1) kmst.surjective)
  qed
  ultimately show ?thesis using assms(1,2) unfolding copied_out_def by simp
qed

lemma copied_out_Nil: "space_ok s d vs \<Longrightarrow> copied_out s d va [] vs s"
  unfolding copied_out_def by auto

lemma page_start: "va - PGROUNDDOWN va = va mod PGSIZE" "vpn (PGROUNDDOWN va) = vpn va"
proof -
  show "va - PGROUNDDOWN va = va mod PGSIZE" using and_not_4095 [of va] by (simp add: PGROUNDDOWN_def PGSIZE_def)
  show "vpn (PGROUNDDOWN va) = vpn va" using unat_PGROUNDDOWN [of va] by (simp add: vpn_def)
qed

lemma uva2ka_page:
  assumes "mapping (kmemory s) d a = Some e" and "e AND PTE_U \<noteq> 0"
  shows "uva2ka d a s = Ok (pgtab e) s"
proof -
  obtain p where "walkpgdir d a False s = Ok (Some p) s" "load32 (kmemory s) p = e" "present e" using walk_mapped [OF assms(1)] by blast
  then show ?thesis using assms(2) by (simp add: uva2ka_def kdefs rd32_def present_def pgtab_def)
qed

lemma copyout_effect:
  assumes "space_ok s d vs" and "unat va + length bs \<le> 2147483648"
    and "\<forall>w. unat va \<le> unat w \<and> unat w < unat va + length bs \<longrightarrow> user_page (kmemory s) d w"
  shows "\<exists>s'. copyout d va bs s = Ok 0 s' \<and> copied_out s d va bs vs s'"
  using assms
proof (induction "length bs" arbitrary: bs va s rule: less_induct)
  case less
  show ?case
  proof (cases "bs = []")
    case True
    then show ?thesis using copied_out_Nil [OF less.prems(1)] by (simp add: copyout.simps [of d va] retK_def)
  next
    case False
    then have lt: "unat va < 2147483648" "va < KERNBASE" using less.prems(2) by (cases bs; simp add: KERNBASE_def word_less_nat_alt)+
    obtain e where e: "mapping (kmemory s) d va = Some e" "e AND PTE_U \<noteq> 0"
      using less.prems(3) [rule_format, of va] False unfolding user_page_def by (cases bs) auto
    have e0: "mapping (kmemory s) d (PGROUNDDOWN va) = Some e" using mapping_vpn [OF page_start(2)] e(1) by simp
    have ne: "pgtab e \<noteq> 0" using less.prems(1) lt(2) e(1) page_ok_nonzero unfolding space_ok_def by blast
    define k where "k = unat (va mod PGSIZE)"
    have k: "k < 4096" "unat va = 4096 * vpn va + k" using vpn_mod [of va] by (simp_all add: k_def PGSIZE_def unat_mod)
    define n where "n = min (length bs) (4096 - k)"
    have "unat (PGSIZE - va mod PGSIZE) = 4096 - k" using k(1) by (simp add: unat_sub word_le_nat_alt k_def PGSIZE_def unat_mod)
    then have n: "n = min (length bs) (unat (PGSIZE - va mod PGSIZE))" "k + length (take n bs) \<le> 4096" "0 < n" using k(1) False by (auto simp: n_def)
    obtain t where t: "put_kbytes (pgtab e + va mod PGSIZE) (take n bs) s = Ok () t" by (simp add: put_kbytes_def kdefs)
    note pg = copyout_page [OF less.prems(1) lt(2) e(1) n(2) [unfolded k_def] t]
    have "pgtab e \<in> frames (kmemory s) d 0 524288" using e(1) lt(2) unfolding frames_def below_KERNBASE by blast
    then have c: "copied_out s d va (take n bs) vs t" using pg unfolding copied_out_def by blast
    have run: "copyout d va bs s = copyout d (PGROUNDDOWN va + PGSIZE) (drop n bs) t"
      using uva2ka_page [OF e0 e(2)] ne t False by (simp add: copyout.simps [of d va] kdefs Let_def page_start(1) flip: n(1))
    show ?thesis
    proof (cases "n = length bs")
      case True
      then show ?thesis using run c by (intro exI [of _ t]) (simp add: copyout.simps [of d _ "[]"] retK_def)
    next
      case nl: False
      then have nk: "n = 4096 - k" "n < length bs" by (auto simp: n_def)
      have u: "unat (PGROUNDDOWN va + PGSIZE) = unat va + n"
        using unat_PGROUNDDOWN [of va] k less.prems(2) nk by (subst unat_add_noovf) (simp_all add: PGSIZE_def)
      have ld: "length (drop n bs) < length bs" "unat va + n + length (drop n bs) = unat va + length bs" using nk n(3) by simp_all
      have up: "\<forall>w. unat (PGROUNDDOWN va + PGSIZE) \<le> unat w \<and> unat w < unat (PGROUNDDOWN va + PGSIZE) + length (drop n bs) \<longrightarrow> user_page (kmemory t) d w"
        using less.prems(3) unfolding u ld(2) user_page_def pg(2) by (meson le_add1 le_trans)
      have "unat (PGROUNDDOWN va + PGSIZE) + length (drop n bs) \<le> 2147483648" using less.prems(2) unfolding u ld(2) .
      from less.hyps [OF ld(1) pg(1) this up] obtain s'
        where s': "copyout d (PGROUNDDOWN va + PGSIZE) (drop n bs) t = Ok 0 s'" "copied_out t d (PGROUNDDOWN va + PGSIZE) (drop n bs) vs s'" by blast
      have "unat (PGROUNDDOWN va + PGSIZE) = unat va + length (take n bs)" using u nk(2) by simp
      from copied_out_append [OF c s'(2) this] show ?thesis using run s'(1) by simp
    qed
  qed
qed

end
