(* ===== verification/Mkfs.thy ===== *)
theory Mkfs
  imports FileData Cstring
begin

text \<open>
  The program \<^verbatim>\<open>tools/mkfs.c\<close> that builds the initial file system image on the host.

  Its globals are the record \<open>mkst\<close>: the sectors of the image file and its length in sectors, the superblock, and the
  counters \<^verbatim>\<open>freeinode\<close> and \<^verbatim>\<open>freeblock\<close>. The host's part is the
  parameter \<open>fopen\<close>: for each path, whether it can be opened and the buffers that successive calls of
  \<^verbatim>\<open>read\<close> return until one returns nothing. \<^verbatim>\<open>exit(1)\<close> and a failed
  \<^verbatim>\<open>assert\<close> are \<open>Panic\<close>; an access outside the array \<^verbatim>\<open>indirect\<close> is
  \<open>Undef\<close>. The host is little endian with 32-bit \<^verbatim>\<open>int\<close>.

  The lemmas show that the image represents the list of files that the program was given: every inode has the contents
  appended to it, the blocks of the files are distinct and marked in the bitmap, and the kernel, started on that image,
  finds well-formed files with these bytes.
\<close>

section \<open>Constants and state\<close>

definition NINODES :: nat where "NINODES = 200"
definition nbitmap :: nat where "nbitmap = FSSIZE div (BSIZE * 8) + 1"
definition ninodeblocks :: nat where "ninodeblocks = NINODES div IPB + 1"
definition nlog :: nat where "nlog = LOGSIZE"
definition nmeta :: nat where "nmeta = 2 + nlog + ninodeblocks + nbitmap"

lemmas mk_consts = FSSIZE_def NINODES_def nbitmap_def ninodeblocks_def nlog_def nmeta_def LOGSIZE_def MAXOPBLOCKS_def fs_consts

record mkst =
  mimg :: "uint \<Rightarrow> block"
  mlen :: nat
  msb :: superblock
  mfreeinode :: uint
  mfreeblock :: uint

section \<open>Byte order\<close>

definition xshort :: "ushort \<Rightarrow> ushort" where
  "xshort x = get16 (put16 (\<lambda>_. 0) 0 x) 0"

definition xint :: "uint \<Rightarrow> uint" where
  "xint x = get32 (put32 (\<lambda>_. 0) 0 x) 0"

section \<open>Sectors and inodes\<close>

text \<open>\<^verbatim>\<open>sec * BSIZE\<close> is computed in 32 bits, so the sector that \<^verbatim>\<open>lseek\<close>
  reaches is the product divided again.\<close>

definition seek_sect :: "uint \<Rightarrow> uint" where
  "seek_sect sec = (sec * of_nat BSIZE) div of_nat BSIZE"

definition wsect :: "uint \<Rightarrow> block \<Rightarrow> (mkst, unit) kfun" where
  "wsect sec buf = modK (\<lambda>s. s\<lparr>mimg := (mimg s)(seek_sect sec := buf), mlen := max (mlen s) (unat (seek_sect sec) + 1)\<rparr>)"

definition rsect :: "uint \<Rightarrow> (mkst, block) kfun" where
  "rsect sec =
     bindK (getK mlen) (\<lambda>n.
     if unat (seek_sect sec) < n then getK (\<lambda>s. mimg s (seek_sect sec)) else panic ''read'')"

definition winode :: "uint \<Rightarrow> dinode \<Rightarrow> (mkst, unit) kfun" where
  "winode inum ip =
     bindK (getK (IBLOCK inum \<circ> msb)) (\<lambda>bn.
     bindK (rsect bn) (\<lambda>buf.
     wsect bn (put_dinode buf (unat (inum mod of_nat IPB)) ip)))"

definition rinode :: "uint \<Rightarrow> (mkst, dinode) kfun" where
  "rinode inum =
     bindK (getK (IBLOCK inum \<circ> msb)) (\<lambda>bn.
     bindK (rsect bn) (\<lambda>buf.
     retK (get_dinode buf (unat (inum mod of_nat IPB)))))"

definition mk_ialloc :: "ushort \<Rightarrow> (mkst, uint) kfun" where
  "mk_ialloc ty =
     bindK (getK mfreeinode) (\<lambda>inum.
     thenK (modK (\<lambda>s. s\<lparr>mfreeinode := inum + 1\<rparr>)) (
     thenK (winode inum \<lparr>d_type = xshort ty, d_major = 0, d_minor = 0, d_nlink = xshort 1, d_size = xint 0,
              d_addrs = replicate (NDIRECT + 2) 0\<rparr>)
       (retK inum)))"

text \<open>The bitmap of the first \<open>used\<close> blocks.\<close>

definition used_bitmap :: "nat \<Rightarrow> block" where
  "used_bitmap used = foldl mark_used (\<lambda>_. 0) [0..<used]"

definition mk_balloc :: "uint \<Rightarrow> (mkst, unit) kfun" where
  "mk_balloc used =
     (if sint used < int (BSIZE * 8)
      then bindK (getK (sb_bmapstart \<circ> msb)) (\<lambda>bn. wsect bn (used_bitmap (nat (sint used))))
      else panic ''assert'')"

section \<open>Appending to a file\<close>

text \<open>\<^verbatim>\<open>freeblock++\<close>.\<close>

definition next_block :: "(mkst, uint) kfun" where
  "next_block =
     bindK (getK mfreeblock) (\<lambda>b.
     thenK (modK (\<lambda>s. s\<lparr>mfreeblock := b + 1\<rparr>)) (retK b))"

text \<open>The block of the file that holds file block \<open>fbn\<close>, allocated if it is not there yet. The program asserts only
  \<^verbatim>\<open>fbn < MAXFILE\<close>, although \<^verbatim>\<open>indirect\<close> has \<^verbatim>\<open>NINDIRECT\<close>
  elements and it knows no double indirect block.\<close>

definition iappend_addr :: "dinode \<Rightarrow> nat \<Rightarrow> (mkst, dinode) kfun" where
  "iappend_addr din i =
     (if xint (d_addrs din ! i) = 0
      then bindK next_block (\<lambda>b. retK (din\<lparr>d_addrs := (d_addrs din)[i := xint b]\<rparr>))
      else retK din)"

definition iappend_block :: "dinode \<Rightarrow> nat \<Rightarrow> (mkst, dinode \<times> uint) kfun" where
  "iappend_block din fbn =
     (if fbn < NDIRECT then
        bindK (iappend_addr din fbn) (\<lambda>din. retK (din, xint (d_addrs din ! fbn)))
      else
        bindK (iappend_addr din NDIRECT) (\<lambda>din.
        let q = xint (d_addrs din ! NDIRECT) in
        bindK (rsect q) (\<lambda>indirect.
        if NINDIRECT \<le> fbn - NDIRECT then undefK else
        if get32 indirect (4 * (fbn - NDIRECT)) = 0 then
          bindK next_block (\<lambda>b.
          thenK (wsect q (put32 indirect (4 * (fbn - NDIRECT)) (xint b)))
            (retK (din, xint (xint b))))
        else retK (din, xint (get32 indirect (4 * (fbn - NDIRECT)))))))"

function iappend_loop :: "dinode \<Rightarrow> uint \<Rightarrow> uchar list \<Rightarrow> (mkst, dinode \<times> uint) kfun" where
  "iappend_loop din off p =
     (if p = [] then retK (din, off) else
      let fbn = unat off div BSIZE; n1 = min (length p) ((fbn + 1) * BSIZE - unat off) in
      if MAXFILE \<le> fbn then panic ''assert'' else
      bindK (iappend_block din fbn) (\<lambda>(din, x).
      bindK (rsect x) (\<lambda>buf.
      thenK (wsect x (put_bytes buf (unat off - fbn * BSIZE) (take n1 p)))
        (iappend_loop din (off + of_nat n1) (drop n1 p)))))"
  by pat_completeness auto
termination
proof (relation "measure (\<lambda>(din, off, p). length p)", simp)
  fix off :: uint and p :: "uchar list" and fbn n1 :: nat
  assume p: "p \<noteq> []" and d: "fbn = unat off div BSIZE" "n1 = min (length p) ((fbn + 1) * BSIZE - unat off)"
  have "unat off < (unat off div BSIZE + 1) * BSIZE"
    using dividend_less_div_times [of BSIZE "unat off"] by (simp add: BSIZE_def)
  then have "0 < n1" using p d by simp
  then show "((xa, off + of_nat n1, drop n1 p), din, off, p) \<in> measure (\<lambda>(din, off, p). length p)" for xa din
    using p by simp
qed

definition iappend :: "uint \<Rightarrow> uchar list \<Rightarrow> (mkst, unit) kfun" where
  "iappend inum p =
     bindK (rinode inum) (\<lambda>din.
     bindK (iappend_loop din (xint (d_size din)) p) (\<lambda>(din, off).
     winode inum (din\<lparr>d_size := xint off\<rparr>)))"

section \<open>The directories and the main program\<close>

text \<open>The 16 bytes of a directory entry cleared with \<^verbatim>\<open>bzero\<close> and filled in.\<close>

definition mk_dirent :: "uint \<Rightarrow> uchar list \<Rightarrow> uchar list" where
  "mk_dirent inum name = put_dirent \<lparr>de_inum = xshort (ucast inum), de_name = strncpy (cstr name) (int DIRSIZ)\<rparr>"

definition makedir :: "uint \<Rightarrow> string \<Rightarrow> (mkst, uint) kfun" where
  "makedir root name =
     bindK (mk_ialloc T_DIR) (\<lambda>ino.
     thenK (iappend ino (mk_dirent ino (ascii ''.''))) (
     thenK (iappend ino (mk_dirent root (ascii ''..''))) (
     thenK (iappend root (mk_dirent ino (ascii name)))
       (retK ino))))"

definition makedirs :: "(mkst, uint \<times> uint) kfun" where
  "makedirs =
     bindK (mk_ialloc T_DIR) (\<lambda>rootino.
     if rootino \<noteq> ROOTINO then panic ''assert'' else
     thenK (iappend rootino (mk_dirent rootino (ascii ''.''))) (
     thenK (iappend rootino (mk_dirent rootino (ascii ''..''))) (
     bindK (makedir rootino ''dev'') (\<lambda>devino.
     bindK (makedir rootino ''bin'') (\<lambda>binino.
     bindK (makedir rootino ''home'') (\<lambda>homeino.
     retK (binino, homeino)))))))"

definition mk_shortname :: "uchar list \<Rightarrow> uchar list" where
  "mk_shortname arg = (if strncmp (cstr arg) (cstr (ascii ''user/'')) 5 = 0 then drop 5 arg else arg)"

definition mk_target :: "uint \<Rightarrow> uint \<Rightarrow> uchar list \<Rightarrow> uint \<times> uchar list" where
  "mk_target binino homeino shortname =
     (if cstr shortname 0 = of_char CHR ''_'' then (binino, drop 1 shortname) else (homeino, shortname))"

definition mk_add :: "(uchar list \<Rightarrow> uchar list list option) \<Rightarrow> uint \<Rightarrow> uint \<Rightarrow> uchar list \<Rightarrow> (mkst, unit) kfun" where
  "mk_add fopen binino homeino arg =
     (let shortname = mk_shortname arg in
      if of_char CHR ''/'' \<in> set shortname then panic ''assert'' else
      case fopen arg of None \<Rightarrow> panic ''open'' | Some bufs \<Rightarrow>
      let (dirino, shortname) = mk_target binino homeino shortname in
      bindK (mk_ialloc T_FILE) (\<lambda>inum.
      thenK (iappend dirino (mk_dirent inum shortname))
        (forK bufs (iappend inum))))"

definition mk_superblock :: superblock where
  "mk_superblock = \<lparr>sb_size = xint (of_nat FSSIZE), sb_nblocks = xint (of_nat (FSSIZE - nmeta)),
     sb_ninodes = xint (of_nat NINODES), sb_nlog = xint (of_nat nlog), sb_logstart = xint 2,
     sb_inodestart = xint (of_nat (2 + nlog)), sb_bmapstart = xint (of_nat (2 + nlog + ninodeblocks))\<rparr>"

definition put_superblock :: "block \<Rightarrow> superblock \<Rightarrow> block" where
  "put_superblock d sp = puts32 d 0 [sb_size sp, sb_nblocks sp, sb_ninodes sp, sb_nlog sp, sb_logstart sp,
     sb_inodestart sp, sb_bmapstart sp]"

definition mkfs :: "(uchar list \<Rightarrow> uchar list list option) \<Rightarrow> uchar list list \<Rightarrow> (mkst, unit) kfun" where
  "mkfs fopen args =
     thenK (modK (\<lambda>s. s\<lparr>mlen := 0, msb := mk_superblock, mfreeinode := 1, mfreeblock := of_nat nmeta\<rparr>)) (
     thenK (forK [0..<FSSIZE] (\<lambda>i. wsect (of_nat i) (\<lambda>_. 0))) (
     thenK (wsect 1 (put_superblock (\<lambda>_. 0) mk_superblock)) (
     bindK makedirs (\<lambda>(binino, homeino).
     thenK (forK args (mk_add fopen binino homeino)) (
     bindK (getK mfreeblock) mk_balloc)))))"


section \<open>Byte order and sectors\<close>

lemma xint_id [simp]: "xint x = x"
  by (simp add: xint_def)

lemma xshort_id [simp]: "xshort x = x"
  by (simp add: xshort_def)

lemma seek_sect_id:
  assumes "unat sec < 2 ^ 23"
  shows "seek_sect sec = sec"
proof -
  have "unat (seek_sect sec) = unat sec"
    using assms by (simp add: seek_sect_def BSIZE_def unat_div unat_word_ariths)
  then show ?thesis by (rule word_unat_eq_iff [THEN iffD2])
qed

lemma rsect_run: "mlen s = FSSIZE \<Longrightarrow> unat sec < FSSIZE \<Longrightarrow> rsect sec s = Ok (mimg s sec) s"
  by (simp add: rsect_def kdefs seek_sect_id FSSIZE_def)

lemma wsect_run: "mlen s = FSSIZE \<Longrightarrow> unat sec < FSSIZE \<Longrightarrow> wsect sec d s = Ok () (s\<lparr>mimg := (mimg s)(sec := d)\<rparr>)"
  by (simp add: wsect_def kdefs seek_sect_id FSSIZE_def)

section \<open>The blocks of one file\<close>

text \<open>
  The addresses of a file point to distinct blocks between the metadata and the first free block, and every block from
  there on is still zero. There is no double indirect block.
\<close>

definition fresh_from :: "(uint \<Rightarrow> block) \<Rightarrow> nat \<Rightarrow> bool" where
  "fresh_from m f \<longleftrightarrow> (\<forall>b. f \<le> unat b \<longrightarrow> unat b < FSSIZE \<longrightarrow> m b = (\<lambda>_. 0))"

definition mk_tree :: "(uint \<Rightarrow> block) \<Rightarrow> uint list \<Rightarrow> nat \<Rightarrow> bool" where
  "mk_tree m A f \<longleftrightarrow> length A = NDIRECT + 2 \<and> A ! (NDIRECT + 1) = 0 \<and>
     (\<forall>x y. slot_ok x \<longrightarrow> slot_ok y \<longrightarrow> slot_addr m A x = slot_addr m A y \<longrightarrow> slot_addr m A x \<noteq> 0 \<longrightarrow> x = y) \<and>
     (\<forall>x. slot_ok x \<longrightarrow> slot_addr m A x \<noteq> 0 \<longrightarrow> nmeta \<le> unat (slot_addr m A x) \<and> unat (slot_addr m A x) < f)"

definition file_blocks :: "(uint \<Rightarrow> block) \<Rightarrow> uint list \<Rightarrow> uint set" where
  "file_blocks m A = {a. a \<noteq> 0 \<and> (\<exists>x. slot_ok x \<and> slot_addr m A x = a)}"

lemma slot_addr_cong:
  assumes "A ! (NDIRECT + 1) = 0" and "A ! NDIRECT \<noteq> 0 \<longrightarrow> m' (A ! NDIRECT) = m (A ! NDIRECT)"
  shows "slot_addr m' A x = slot_addr m A x"
  using assms by (cases x) (simp_all add: entry_def)

lemma mk_tree_cong:
  assumes "mk_tree m A f" and "A ! NDIRECT \<noteq> 0 \<longrightarrow> m' (A ! NDIRECT) = m (A ! NDIRECT)"
  shows "mk_tree m' A f" and "file_blocks m' A = file_blocks m A" and "slot_addr m' A x = slot_addr m A x"
proof -
  have "slot_addr m' A x = slot_addr m A x" for x
    using assms by (intro slot_addr_cong) (auto simp: mk_tree_def)
  then show "mk_tree m' A f" and "file_blocks m' A = file_blocks m A" and "slot_addr m' A x = slot_addr m A x"
    using assms(1) by (simp_all add: mk_tree_def file_blocks_def)
qed

lemma mk_tree_ind_ne:
  assumes "mk_tree m A f" and "slot_ok x" and "x \<noteq> Ind" and "slot_addr m A x \<noteq> 0"
  shows "slot_addr m A x \<noteq> A ! NDIRECT"
  using assms unfolding mk_tree_def by (metis slot_addr.simps(2) slot_ok.simps(5))

text \<open>Filling one empty slot of the tree with the first free block.\<close>

definition filled :: "(uint \<Rightarrow> block) \<Rightarrow> uint list \<Rightarrow> slot \<Rightarrow> uint \<Rightarrow> (uint \<Rightarrow> block) \<times> uint list" where
  "filled m A x a = (case par x of None \<Rightarrow> (m, A[idx x := a])
     | Some p \<Rightarrow> (m(slot_addr m A p := put32 (m (slot_addr m A p)) (4 * idx x) a), A))"

lemma filled_addr:
  assumes t: "mk_tree m A (unat f)" and fr: "fresh_from m (unat f)" and f: "nmeta \<le> unat f" "unat f < FSSIZE"
    and x: "slot_ok x" "slot_addr m A x = 0" "\<forall>p. par x = Some p \<longrightarrow> p = Ind \<and> A ! NDIRECT \<noteq> 0" "x \<noteq> Dbl" and fl: "filled m A x f = (m', A')"
  shows "slot_ok y \<Longrightarrow> slot_addr m' A' y = (if y = x then f else slot_addr m A y)"
proof -
  assume y: "slot_ok y"
  have A: "length A = NDIRECT + 2" "A ! (NDIRECT + 1) = 0" using t by (auto simp: mk_tree_def)
  have mf: "m f = (\<lambda>_. 0)" and f0: "f \<noteq> 0" using fr f by (auto simp: fresh_from_def nmeta_def)
  show ?thesis
  proof (cases x)
    case (Dir i)
    then show ?thesis using fl x A y by (cases y) (auto simp: filled_def entry_def NDIRECT_def)
  next
    case Ind
    then show ?thesis using fl x A y mf f0 \<open>x \<noteq> Dbl\<close>
      by (cases y) (auto simp: filled_def entry_def NDIRECT_def)
  next
    case (IndE j)
    then show ?thesis using fl x A y by (cases y) (auto simp: filled_def entry_def get32_put32_index)
  qed (use x in auto)
qed


text \<open>
  What allocation does to a file: the empty slots in \<open>S\<close> get blocks from \<open>f\<close> on, no other slot changes, and
  the only block that is written is the indirect block.
\<close>

definition grown :: "(uint \<Rightarrow> block) \<Rightarrow> uint list \<Rightarrow> nat \<Rightarrow> slot set \<Rightarrow> (uint \<Rightarrow> block) \<Rightarrow> uint list \<Rightarrow> nat \<Rightarrow> bool" where
  "grown m A f S m' A' f' \<longleftrightarrow> mk_tree m' A' f' \<and> fresh_from m' f' \<and> f \<le> f' \<and>
     (\<forall>y. slot_ok y \<longrightarrow> (if y \<in> S \<and> slot_addr m A y = 0 then slot_addr m' A' y \<noteq> 0 \<and> f \<le> unat (slot_addr m' A' y)
        else slot_addr m' A' y = slot_addr m A y)) \<and>
     (\<forall>b. m' b = m b \<or> b = A' ! NDIRECT \<and> b \<noteq> 0)"

lemma grown_refl: "mk_tree m A f \<Longrightarrow> fresh_from m f \<Longrightarrow> \<forall>y \<in> S. slot_addr m A y \<noteq> 0 \<Longrightarrow> grown m A f S m A f"
  by (auto simp: grown_def)

lemma grown_trans:
  assumes 1: "grown m A f S m1 A1 f1" and 2: "grown m1 A1 f1 S1 m2 A2 f2"
  shows "grown m A f (S \<union> S1) m2 A2 f2"
proof -
  have "m2 b = m b \<or> b = A2 ! NDIRECT \<and> b \<noteq> 0" for b
  proof (cases "m2 b = m1 b")
    case True
    have "A1 ! NDIRECT \<noteq> 0 \<Longrightarrow> A2 ! NDIRECT = A1 ! NDIRECT"
      using 2 unfolding grown_def by (metis slot_addr.simps(2) slot_ok.simps(5))
    then show ?thesis using 1 True by (auto simp: grown_def)
  next
    case False
    then show ?thesis using 2 by (auto simp: grown_def)
  qed
  moreover have "if y \<in> S \<union> S1 \<and> slot_addr m A y = 0 then slot_addr m2 A2 y \<noteq> 0 \<and> f \<le> unat (slot_addr m2 A2 y)
        else slot_addr m2 A2 y = slot_addr m A y" if "slot_ok y" for y
  proof -
    have a: "if y \<in> S \<and> slot_addr m A y = 0 then slot_addr m1 A1 y \<noteq> 0 \<and> f \<le> unat (slot_addr m1 A1 y)
        else slot_addr m1 A1 y = slot_addr m A y" using 1 that by (simp add: grown_def)
    have b: "if y \<in> S1 \<and> slot_addr m1 A1 y = 0 then slot_addr m2 A2 y \<noteq> 0 \<and> f1 \<le> unat (slot_addr m2 A2 y)
        else slot_addr m2 A2 y = slot_addr m1 A1 y" using 2 that by (simp add: grown_def)
    have "f \<le> f1" using 1 by (simp add: grown_def)
    then show ?thesis using a b by (auto split: if_splits)
  qed
  ultimately show ?thesis using 1 2 by (auto simp: grown_def)
qed

lemma grown_fill:
  assumes t: "mk_tree m A (unat f)" and fr: "fresh_from m (unat f)" and f: "nmeta \<le> unat f" "unat f < FSSIZE"
    and x: "slot_ok x" "slot_addr m A x = 0" "\<forall>p. par x = Some p \<longrightarrow> p = Ind \<and> A ! NDIRECT \<noteq> 0" "x \<noteq> Dbl"
    and fl: "filled m A x f = (m', A')"
  shows "grown m A (unat f) {x} m' A' (unat f + 1)"
proof -
  note ad = filled_addr [OF t fr f x fl]
  have len: "length A' = NDIRECT + 2" using t fl by (auto simp: filled_def mk_tree_def split: option.splits)
  have A12: "A' ! (NDIRECT + 1) = 0" using ad [of Dbl] x(4) t by (auto simp: mk_tree_def split: if_splits)
  have f0: "f \<noteq> 0" using f by (auto simp: nmeta_def)
  have rng: "nmeta \<le> unat (slot_addr m A y) \<and> unat (slot_addr m A y) < unat f" if "slot_ok y" "slot_addr m A y \<noteq> 0" for y
    using t that by (auto simp: mk_tree_def)
  have inj: "y = z" if "slot_ok y" "slot_ok z" "slot_addr m A y = slot_addr m A z" "slot_addr m A y \<noteq> 0" for y z
    using t that unfolding mk_tree_def by metis
  have nf: "slot_addr m A y \<noteq> f" if "slot_ok y" for y using rng [OF that] f0 by auto
  have ch: "m' b = m b \<or> b = A' ! NDIRECT \<and> b \<noteq> 0 \<and> unat b < unat f" for b
    using fl x rng [of Ind] by (auto simp: filled_def split: option.splits)
  have "mk_tree m' A' (unat f + 1)"
    unfolding mk_tree_def
  proof (intro conjI allI impI)
    fix y z assume "slot_ok y" "slot_ok z" "slot_addr m' A' y = slot_addr m' A' z" "slot_addr m' A' y \<noteq> 0"
    then show "y = z" using ad [of y] ad [of z] nf [of y] nf [of z] inj [of y z] by (auto split: if_splits)
  next
    fix y assume y: "slot_ok y" "slot_addr m' A' y \<noteq> 0"
    then show "nmeta \<le> unat (slot_addr m' A' y)" "unat (slot_addr m' A' y) < unat f + 1"
      using ad [of y] rng [of y] f by (auto split: if_splits)
  qed (rule len, rule A12)
  moreover have "m' b = (\<lambda>_. 0)" if "unat f + 1 \<le> unat b" "unat b < FSSIZE" for b
    using fr ch [of b] that by (simp add: fresh_from_def)
  then have "fresh_from m' (unat f + 1)" by (simp add: fresh_from_def)
  ultimately show ?thesis using ad x(2) f0 ch by (auto simp: grown_def)
qed

text \<open>Allocating the block for file block \<open>n\<close>: the slots that are filled, and how many blocks that takes.\<close>

definition slots_for :: "nat \<Rightarrow> slot set" where
  "slots_for n = (if n < NDIRECT then {Dir n} else {Ind, IndE (n - NDIRECT)})"

definition new_blocks :: "(uint \<Rightarrow> block) \<Rightarrow> uint list \<Rightarrow> nat \<Rightarrow> nat" where
  "new_blocks m A n = card {x \<in> slots_for n. slot_addr m A x = 0}"

definition mk_ok :: "mkst \<Rightarrow> bool" where
  "mk_ok s \<longleftrightarrow> mlen s = FSSIZE \<and> nmeta \<le> unat (mfreeblock s)"

lemma unat_suc: "unat (f :: uint) < FSSIZE \<Longrightarrow> unat (f + 1) = unat f + 1"
  by (simp add: unat_word_ariths FSSIZE_def)

lemma iappend_addr_run:
  assumes t: "mk_tree (mimg s) (d_addrs din) (unat (mfreeblock s))" and fr: "fresh_from (mimg s) (unat (mfreeblock s))"
    and k: "mk_ok s" and x: "slot_ok x" "par x = None" "x \<noteq> Dbl" "idx x = i"
    and room: "slot_addr (mimg s) (d_addrs din) x = 0 \<longrightarrow> unat (mfreeblock s) < FSSIZE"
  shows "\<exists>A' f'. iappend_addr din i s = Ok (din\<lparr>d_addrs := A'\<rparr>) (s\<lparr>mfreeblock := f'\<rparr>) \<and>
    grown (mimg s) (d_addrs din) (unat (mfreeblock s)) {x} (mimg s) A' (unat f') \<and>
    unat f' = unat (mfreeblock s) + (if slot_addr (mimg s) (d_addrs din) x = 0 then 1 else 0)"
proof (cases "slot_addr (mimg s) (d_addrs din) x = 0")
  case False
  then have "iappend_addr din i s = Ok (din\<lparr>d_addrs := d_addrs din\<rparr>) (s\<lparr>mfreeblock := mfreeblock s\<rparr>)"
    using slot_addr_root [OF x(2)] x(4) by (simp add: iappend_addr_def kdefs)
  then show ?thesis using False grown_refl [OF t fr, of "{x}"]
    by (intro exI [of _ "d_addrs din"] exI [of _ "mfreeblock s"]) simp
next
  case True
  let ?f = "mfreeblock s"
  have "iappend_addr din i s = Ok (din\<lparr>d_addrs := (d_addrs din)[i := ?f]\<rparr>) (s\<lparr>mfreeblock := ?f + 1\<rparr>)"
    using True slot_addr_root [OF x(2)] x(4) by (simp add: iappend_addr_def next_block_def kdefs)
  moreover have "filled (mimg s) (d_addrs din) x ?f = (mimg s, (d_addrs din)[i := ?f])"
    using x by (simp add: filled_def)
  ultimately show ?thesis using True room k x unat_suc [of ?f] grown_fill [OF t fr, of x]
    by (intro exI [of _ "(d_addrs din)[i := ?f]"] exI [of _ "?f + 1"]) (simp add: mk_ok_def)
qed


lemma grown_addr:
  assumes "grown m A f S m' A' f'" and "slot_ok y"
  shows "slot_addr m' A' y = 0 \<longleftrightarrow> y \<notin> S \<and> slot_addr m A y = 0"
    and "slot_addr m A y \<noteq> 0 \<Longrightarrow> slot_addr m' A' y = slot_addr m A y"
    and "slot_addr m A y = 0 \<Longrightarrow> slot_addr m' A' y \<noteq> 0 \<Longrightarrow> f \<le> unat (slot_addr m' A' y)"
  using assms by (auto simp: grown_def split: if_splits)

lemma grown_data:
  assumes g: "grown m A f S m' A' f'" and y: "slot_ok y" "y \<noteq> Ind" "slot_addr m' A' y \<noteq> 0"
  shows "m' (slot_addr m' A' y) = m (slot_addr m' A' y)"
  using g y mk_tree_ind_ne [of m' A' f' y] by (auto simp: grown_def)

lemma new_blocks_direct: "n < NDIRECT \<Longrightarrow> new_blocks m A n = (if A ! n = 0 then 1 else 0)"
proof -
  assume "n < NDIRECT"
  then have "{x \<in> slots_for n. slot_addr m A x = 0} = (if A ! n = 0 then {Dir n} else {})" by (auto simp: slots_for_def)
  then show ?thesis by (simp add: new_blocks_def)
qed

lemma new_blocks_indirect:
  assumes "\<not> n < NDIRECT"
  shows "new_blocks m A n = (if A ! NDIRECT = 0 then 1 else 0) + (if slot_addr m A (IndE (n - NDIRECT)) = 0 then 1 else 0)"
proof -
  have "{x \<in> slots_for n. slot_addr m A x = 0} =
      (if A ! NDIRECT = 0 then {Ind} else {}) \<union> (if slot_addr m A (IndE (n - NDIRECT)) = 0 then {IndE (n - NDIRECT)} else {})"
    using assms by (auto simp: slots_for_def)
  then show ?thesis by (simp add: new_blocks_def)
qed

definition block_ready :: "dinode \<Rightarrow> nat \<Rightarrow> mkst \<Rightarrow> bool" where
  "block_ready din n s \<longleftrightarrow> (\<exists>m' A' f'.
     iappend_block din n s = Ok (din\<lparr>d_addrs := A'\<rparr>, slot_addr m' A' (data_slot n)) (s\<lparr>mimg := m', mfreeblock := f'\<rparr>) \<and>
     grown (mimg s) (d_addrs din) (unat (mfreeblock s)) (slots_for n) m' A' (unat f') \<and>
     unat f' = unat (mfreeblock s) + new_blocks (mimg s) (d_addrs din) n)"

lemma block_readyI:
  assumes "iappend_block din n s = Ok (din\<lparr>d_addrs := A'\<rparr>, x) (s\<lparr>mimg := m', mfreeblock := f'\<rparr>)"
    and "x = slot_addr m' A' (data_slot n)"
    and "grown (mimg s) (d_addrs din) (unat (mfreeblock s)) (slots_for n) m' A' (unat f')"
    and "unat f' = unat (mfreeblock s) + new_blocks (mimg s) (d_addrs din) n"
  shows "block_ready din n s"
  using assms unfolding block_ready_def by blast

lemma iappend_block_direct:
  assumes t: "mk_tree (mimg s) (d_addrs din) (unat (mfreeblock s))" and fr: "fresh_from (mimg s) (unat (mfreeblock s))"
    and k: "mk_ok s" and n: "n < NDIRECT"
    and room: "unat (mfreeblock s) + new_blocks (mimg s) (d_addrs din) n \<le> FSSIZE"
  shows "block_ready din n s"
proof -
  note nb = new_blocks_direct [OF n, of "mimg s" "d_addrs din"]
  from iappend_addr_run [OF t fr k, of "Dir n" n] n room nb
  obtain A' f' where r: "iappend_addr din n s = Ok (din\<lparr>d_addrs := A'\<rparr>) (s\<lparr>mfreeblock := f'\<rparr>)"
    and g: "grown (mimg s) (d_addrs din) (unat (mfreeblock s)) {Dir n} (mimg s) A' (unat f')"
    and f: "unat f' = unat (mfreeblock s) + (if d_addrs din ! n = 0 then 1 else 0)" by (auto split: if_splits)
  have "iappend_block din n s = Ok (din\<lparr>d_addrs := A'\<rparr>, A' ! n) (s\<lparr>mimg := mimg s, mfreeblock := f'\<rparr>)"
    using n by (simp add: iappend_block_def bindK_run [where m = "iappend_addr din n", OF r] retK_def)
  then show ?thesis by (rule block_readyI) (use g f nb n in \<open>simp_all add: slots_for_def data_slot_def\<close>)
qed

lemma iappend_block_indirect:
  assumes t: "mk_tree (mimg s) (d_addrs din) (unat (mfreeblock s))" and fr: "fresh_from (mimg s) (unat (mfreeblock s))"
    and k: "mk_ok s" and n: "\<not> n < NDIRECT" "n < NDIRECT + NINDIRECT"
    and room: "unat (mfreeblock s) + new_blocks (mimg s) (d_addrs din) n \<le> FSSIZE"
  shows "block_ready din n s"
proof -
  let ?j = "n - NDIRECT" and ?m = "mimg s" and ?A = "d_addrs din"
  have j: "?j < NINDIRECT" and ds: "data_slot n = IndE ?j" using n by (auto simp: data_slot_def)
  note nb = new_blocks_indirect [OF n(1), of ?m ?A]
  have "?A ! NDIRECT = 0 \<longrightarrow> unat (mfreeblock s) < FSSIZE" using room nb by (auto split: if_splits)
  with iappend_addr_run [OF t fr k, of Ind NDIRECT]
  obtain A1 f1 where r: "iappend_addr din NDIRECT s = Ok (din\<lparr>d_addrs := A1\<rparr>) (s\<lparr>mfreeblock := f1\<rparr>)"
    and g: "grown ?m ?A (unat (mfreeblock s)) {Ind} ?m A1 (unat f1)"
    and f: "unat f1 = unat (mfreeblock s) + (if ?A ! NDIRECT = 0 then 1 else 0)" by auto
  let ?q = "A1 ! NDIRECT" and ?s1 = "s\<lparr>mfreeblock := f1\<rparr>"
  have t1: "mk_tree ?m A1 (unat f1)" "fresh_from ?m (unat f1)" using g by (auto simp: grown_def)
  have q: "?q \<noteq> 0" using grown_addr(1) [OF g, of Ind] by simp
  have "unat ?q < unat f1" using t1(1) q unfolding mk_tree_def by (metis slot_addr.simps(2) slot_ok.simps(5))
  then have qf: "unat ?q < FSSIZE" using f room nb by (simp split: if_splits)
  have e: "slot_addr ?m A1 (IndE ?j) = slot_addr ?m ?A (IndE ?j)"
    using grown_addr [OF g, of "IndE ?j"] j by (cases "slot_addr ?m ?A (IndE ?j) = 0") auto
  then have eq: "get32 (?m ?q) (4 * ?j) = slot_addr ?m ?A (IndE ?j)" using q by (simp add: entry_def)
  have run: "iappend_block din n s = (if slot_addr ?m ?A (IndE ?j) = 0 then
          bindK next_block (\<lambda>b. thenK (wsect ?q (put32 (?m ?q) (4 * ?j) b)) (retK (din\<lparr>d_addrs := A1\<rparr>, b)))
        else retK (din\<lparr>d_addrs := A1\<rparr>, slot_addr ?m ?A (IndE ?j))) ?s1"
    using n j k qf eq
    by (simp add: iappend_block_def bindK_run [where m = "iappend_addr din NDIRECT", OF r] Let_def mk_ok_def
        bindK_run [OF rsect_run])
  show ?thesis
  proof (cases "slot_addr ?m ?A (IndE ?j) = 0")
    case True
    let ?m2 = "?m(?q := put32 (?m ?q) (4 * ?j) f1)"
    have f1: "unat f1 < FSSIZE" "nmeta \<le> unat f1" using f room nb True k by (auto simp: mk_ok_def)
    have fl: "filled ?m A1 (IndE ?j) f1 = (?m2, A1)" by (simp add: filled_def)
    have "grown ?m A1 (unat f1) {IndE ?j} ?m2 A1 (unat f1 + 1)"
      by (rule grown_fill [OF t1 f1(2,1) _ _ _ _ fl]) (use j True e q in auto)
    note g2 = grown_trans [OF g this]
    have "iappend_block din n s = Ok (din\<lparr>d_addrs := A1\<rparr>, f1) (s\<lparr>mimg := ?m2, mfreeblock := f1 + 1\<rparr>)"
      using True k qf wsect_run [of "?s1\<lparr>mfreeblock := f1 + 1\<rparr>" ?q]
      by (simp add: run next_block_def thenK_def bindK_def getK_def modK_def retK_def mk_ok_def)
    then show ?thesis
      by (rule block_readyI)
        (use g2 f nb True n f1 q unat_suc [of f1] in \<open>simp_all add: slots_for_def insert_commute ds entry_def\<close>)
  next
    case nz: False
    have "grown ?m A1 (unat f1) {IndE ?j} ?m A1 (unat f1)" using t1 nz e by (intro grown_refl) auto
    note g2 = grown_trans [OF g this]
    have "iappend_block din n s = Ok (din\<lparr>d_addrs := A1\<rparr>, slot_addr ?m A1 (data_slot n)) (s\<lparr>mimg := ?m, mfreeblock := f1\<rparr>)"
      using nz e by (simp add: run retK_def ds)
    then show ?thesis
      by (rule block_readyI) (use g2 f nb nz n in \<open>simp_all add: slots_for_def insert_commute\<close>)
  qed
qed

lemmas iappend_block_run = iappend_block_direct iappend_block_indirect

section \<open>The contents of one file\<close>

text \<open>A file with the bytes \<open>c\<close>: exactly the blocks that \<open>c\<close> needs are there, and they hold \<open>c\<close>.\<close>

definition blocks_of :: "nat \<Rightarrow> nat" where
  "blocks_of n = (n + (BSIZE - 1)) div BSIZE"

definition need :: "nat \<Rightarrow> nat" where
  "need n = blocks_of n + (if NDIRECT < blocks_of n then 1 else 0)"

definition mk_file :: "(uint \<Rightarrow> block) \<Rightarrow> uint list \<Rightarrow> nat \<Rightarrow> uchar list \<Rightarrow> bool" where
  "mk_file m A f c \<longleftrightarrow> mk_tree m A f \<and> length c \<le> (NDIRECT + NINDIRECT) * BSIZE \<and>
     (\<forall>n < NDIRECT + NINDIRECT. slot_addr m A (data_slot n) \<noteq> 0 \<longleftrightarrow> n < blocks_of (length c)) \<and>
     (A ! NDIRECT \<noteq> 0 \<longleftrightarrow> NDIRECT < blocks_of (length c)) \<and>
     (\<forall>p < length c. m (slot_addr m A (data_slot (p div BSIZE))) (p mod BSIZE) = c ! p)"


lemma sector_split: "r < BSIZE \<Longrightarrow> (n * BSIZE + r) div BSIZE = n \<and> (n * BSIZE + r) mod BSIZE = r"
  by (simp add: BSIZE_def)

lemma blocks_of_append:
  assumes "0 < k" and "off mod BSIZE + k \<le> BSIZE"
  shows "blocks_of (off + k) = off div BSIZE + 1"
    and "blocks_of off = (if off mod BSIZE = 0 then off div BSIZE else off div BSIZE + 1)"
proof -
  obtain n r where off: "off = n * BSIZE + r" and r: "r < BSIZE"
    by (metis BSIZE_def div_mult_mod_eq mod_less_divisor zero_less_numeral)
  have nr: "off div BSIZE = n" "off mod BSIZE = r" using sector_split [OF r, of n] by (simp_all add: off)
  have "off + k + (BSIZE - 1) = (n + 1) * BSIZE + (r + k - 1)" using assms(1) by (simp add: off BSIZE_def)
  then show "blocks_of (off + k) = off div BSIZE + 1"
    using assms nr sector_split [of "r + k - 1" "n + 1"] by (simp add: blocks_of_def)
  have "off + (BSIZE - 1) = (if r = 0 then n * BSIZE + (BSIZE - 1) else (n + 1) * BSIZE + (r - 1))" by (simp add: off BSIZE_def)
  then show "blocks_of off = (if off mod BSIZE = 0 then off div BSIZE else off div BSIZE + 1)"
    using r nr sector_split [of "BSIZE - 1" n] sector_split [of "r - 1" "n + 1"] unfolding blocks_of_def
    by (cases "r = 0") (simp_all del: diff_Suc_1 One_nat_def)
qed

lemma need_append:
  assumes fl: "mk_file m A f c" and k: "0 < k" "length c mod BSIZE + k \<le> BSIZE" and n: "length c div BSIZE < NDIRECT + NINDIRECT"
  shows "need (length c) + new_blocks m A (length c div BSIZE) = need (length c + k)"
proof -
  define n where "n = length c div BSIZE"
  note bo = blocks_of_append [OF k, folded n_def]
  have e: "slot_addr m A (data_slot n) = 0 \<longleftrightarrow> \<not> n < blocks_of (length c)"
    using fl n by (auto simp: mk_file_def n_def)
  have i: "A ! NDIRECT = 0 \<longleftrightarrow> \<not> NDIRECT < blocks_of (length c)" using fl by (auto simp: mk_file_def)
  have "need (length c) + new_blocks m A n = need (length c + k)"
  proof (cases "n < NDIRECT")
    case True
    then show ?thesis using e by (simp add: new_blocks_direct need_def bo data_slot_def)
  next
    case False
    then have "data_slot n = IndE (n - NDIRECT)" using n by (simp add: data_slot_def n_def)
    then show ?thesis using e i False by (auto simp: new_blocks_indirect need_def bo)
  qed
  then show ?thesis by (simp add: n_def)
qed

lemma data_slot_small:
  assumes "k < NDIRECT + NINDIRECT"
  shows "slot_ok (data_slot k)" and "data_slot k \<noteq> Ind" and "n < NDIRECT + NINDIRECT \<Longrightarrow> data_slot k \<in> slots_for n \<longleftrightarrow> k = n"
  using assms by (auto simp: data_slot_def slots_for_def)

text \<open>Growing a file by its next block: which blocks it then has, and that the old ones are where they were.\<close>

lemma grown_file:
  assumes fl: "mk_file m A f c" and b: "0 < k" "length c mod BSIZE + k \<le> BSIZE"
    and n: "n = length c div BSIZE" "n < NDIRECT + NINDIRECT" and g: "grown m A f (slots_for n) m1 A1 f1"
  shows "j < NDIRECT + NINDIRECT \<Longrightarrow> slot_addr m1 A1 (data_slot j) = 0 \<longleftrightarrow> \<not> j < n + 1"
    and "A1 ! NDIRECT = 0 \<longleftrightarrow> \<not> NDIRECT < n + 1"
    and "p < length c \<Longrightarrow> m1 (slot_addr m1 A1 (data_slot (p div BSIZE))) (p mod BSIZE) = c ! p"
proof -
  note bo = blocks_of_append [OF b, folded n(1)] and ga = grown_addr [OF g] and sok = data_slot_small
  have old: "slot_addr m A (data_slot k) = 0 \<longleftrightarrow> \<not> k < blocks_of (length c)" if "k < NDIRECT + NINDIRECT" for k
    using fl that by (auto simp: mk_file_def)
  show new: "slot_addr m1 A1 (data_slot j) = 0 \<longleftrightarrow> \<not> j < n + 1" if "j < NDIRECT + NINDIRECT" for j
    using ga(1) [OF sok(1) [OF that]] old [OF that] sok(3) [OF that n(2)] bo(2) by (auto split: if_splits)
  show "A1 ! NDIRECT = 0 \<longleftrightarrow> \<not> NDIRECT < n + 1"
    using ga(1) [of Ind] fl bo by (auto simp: slots_for_def mk_file_def split: if_splits)
  show "m1 (slot_addr m1 A1 (data_slot (p div BSIZE))) (p mod BSIZE) = c ! p" if p: "p < length c"
  proof -
    define k where "k = p div BSIZE"
    have kn: "k \<le> n" and cl: "length c = n * BSIZE + length c mod BSIZE" using p by (simp_all add: k_def n div_le_mono)
    have k: "k < NDIRECT + NINDIRECT" using kn n(2) by simp
    have kb: "k < blocks_of (length c)" using p kn bo(2) cl by (auto simp: k_def less_mult_imp_div_less)
    have "slot_addr m1 A1 (data_slot k) = slot_addr m A (data_slot k)" using ga(2) [OF sok(1) [OF k]] old [OF k] kb by simp
    moreover have "m1 (slot_addr m1 A1 (data_slot k)) = m (slot_addr m1 A1 (data_slot k))"
      using grown_data [OF g sok(1,2) [OF k]] new [OF k] kn by simp
    ultimately show ?thesis using fl p by (simp add: mk_file_def k_def)
  qed
qed

lemma put_bytes_file:
  assumes old: "\<And>p. p < length c \<Longrightarrow> m (addr (p div BSIZE)) (p mod BSIZE) = c ! p"
    and inj: "\<And>k. k < n \<Longrightarrow> addr k \<noteq> addr n" and n: "n = length c div BSIZE"
    and b: "length c mod BSIZE + length b \<le> BSIZE" and p: "p < length c + length b"
  shows "(m(addr n := put_bytes (m (addr n)) (length c mod BSIZE) b)) (addr (p div BSIZE)) (p mod BSIZE) = (c @ b) ! p"
proof (cases "p < length c")
  case True
  let ?k = "p div BSIZE"
  have kn: "?k \<le> n" using True by (simp add: n div_le_mono)
  show ?thesis
  proof (cases "?k = n")
    case k: True
    then have "p mod BSIZE < length c mod BSIZE" using True n by (metis div_mult_mod_eq nat_add_left_cancel_less)
    then show ?thesis using k old [OF True] True by (simp add: put_bytes_def nth_append)
  next
    case False
    then show ?thesis using inj [of ?k] kn old [OF True] True by (simp add: nth_append)
  qed
next
  case False
  let ?r = "length c mod BSIZE + (p - length c)"
  have "p = n * BSIZE + ?r" using False by (simp add: n)
  moreover have "?r < BSIZE" using p False b by simp
  ultimately have e: "p div BSIZE = n" "p mod BSIZE = ?r" using sector_split [of ?r n] by simp_all
  have "p - length c < length b" using p False by simp
  then show ?thesis using False unfolding e by (simp add: put_bytes_def nth_append del: add_diff_assoc)
qed

lemma mk_file_write:
  assumes fl: "mk_file m A f c" and b: "b \<noteq> []" "length c mod BSIZE + length b \<le> BSIZE"
    and n: "n = length c div BSIZE" "n < NDIRECT + NINDIRECT" and g: "grown m A f (slots_for n) m1 A1 f1"
    and x: "x = slot_addr m1 A1 (data_slot n)" and m2: "m2 = m1(x := put_bytes (m1 x) (length c mod BSIZE) b)"
  shows "mk_file m2 A1 f1 (c @ b)" and "fresh_from m2 f1" and "x \<noteq> 0" and "unat x < f1"
proof -
  have b0: "0 < length b" using b by simp
  note bo = blocks_of_append [OF b0 b(2), folded n(1)] and gf = grown_file [OF fl b0 b(2) n g] and sok = data_slot_small
  show x0: "x \<noteq> 0" using gf(1) [OF n(2)] x by simp
  have t1: "mk_tree m1 A1 f1" and f1: "fresh_from m1 f1" using g by (auto simp: grown_def)
  show xf: "unat x < f1" using t1 x0 x sok(1) [OF n(2)] by (auto simp: mk_tree_def)
  have "x \<noteq> A1 ! NDIRECT" using mk_tree_ind_ne [OF t1 sok(1,2) [OF n(2)]] x x0 by simp
  then have t2: "mk_tree m2 A1 f1" and sa: "slot_addr m2 A1 y = slot_addr m1 A1 y" for y
    using mk_tree_cong [OF t1, of m2] by (auto simp: m2)
  show "fresh_from m2 f1" using f1 xf by (simp add: fresh_from_def m2)
  have ne: "slot_addr m1 A1 (data_slot k) \<noteq> slot_addr m1 A1 (data_slot n)" if "k < n" for k
    using t1 sok(1) [of k] sok(1) [OF n(2)] x x0 data_slot_inj [of k n] that n(2) unfolding mk_tree_def
    by (metis less_trans nat_neq_iff)
  have byte: "m2 (slot_addr m1 A1 (data_slot (p div BSIZE))) (p mod BSIZE) = (c @ b) ! p" if "p < length c + length b" for p
    unfolding m2 x by (rule put_bytes_file [OF gf(3) ne n(1) b(2) that])
  have "length c = n * BSIZE + length c mod BSIZE" by (simp add: n)
  then have "length c + length b \<le> (n + 1) * BSIZE" using b(2) by simp
  also have "\<dots> \<le> (NDIRECT + NINDIRECT) * BSIZE" using n(2) by (intro mult_right_mono) simp_all
  finally show "mk_file m2 A1 f1 (c @ b)"
    unfolding mk_file_def sa using t2 gf(1,2) byte bo(1) by simp
qed

section \<open>The append loop\<close>

text \<open>The blocks of the image that appending to a file leaves alone: those in use that are not the file's.\<close>

definition others_kept :: "(uint \<Rightarrow> block) \<Rightarrow> uint list \<Rightarrow> nat \<Rightarrow> (uint \<Rightarrow> block) \<Rightarrow> uint list \<Rightarrow> bool" where
  "others_kept m A f m' A' \<longleftrightarrow>
     (\<forall>b. unat b < f \<longrightarrow> b \<notin> file_blocks m A \<longrightarrow> m' b = m b) \<and>
     (\<forall>b \<in> file_blocks m' A'. b \<in> file_blocks m A \<or> f \<le> unat b)"

lemma others_kept_trans:
  assumes "others_kept m A f m1 A1" and "others_kept m1 A1 f1 m2 A2" and "f \<le> f1"
  shows "others_kept m A f m2 A2"
proof -
  have "m2 b = m b" if "unat b < f" "b \<notin> file_blocks m A" for b
  proof -
    have "b \<notin> file_blocks m1 A1" using that assms(1) by (auto simp: others_kept_def)
    then show ?thesis using that assms unfolding others_kept_def by simp
  qed
  then show ?thesis using assms unfolding others_kept_def by (meson le_trans)
qed

lemma others_kept_refl: "others_kept m A f m A"
  by (simp add: others_kept_def)

lemma others_kept_write:
  assumes g: "grown m A f S m1 A1 f1" and y: "slot_ok y" "y \<noteq> Ind"
    and x: "x = slot_addr m1 A1 y" "x \<noteq> 0"
  shows "others_kept m A f (m1(x := d)) A1"
proof -
  let ?m2 = "m1(x := d)"
  have t1: "mk_tree m1 A1 f1" using g by (simp add: grown_def)
  have "x \<noteq> A1 ! NDIRECT" using mk_tree_ind_ne [OF t1 y] x by simp
  then have fb: "file_blocks ?m2 A1 = file_blocks m1 A1" using mk_tree_cong(2) [OF t1, of ?m2] by simp
  have new: "b \<in> file_blocks m A \<or> f \<le> unat b" if bm: "b \<in> file_blocks m1 A1" for b
  proof -
    obtain z where z: "slot_ok z" "slot_addr m1 A1 z = b" and "b \<noteq> 0" using bm unfolding file_blocks_def by blast
    then show ?thesis using grown_addr(2,3) [OF g z(1)] by (cases "slot_addr m A z = 0") (auto simp: file_blocks_def)
  qed
  have "A1 ! NDIRECT \<noteq> 0 \<Longrightarrow> A1 ! NDIRECT \<in> file_blocks m1 A1"
    unfolding file_blocks_def by (auto intro: exI [of _ Ind])
  moreover have "x \<in> file_blocks m1 A1" using x y by (auto simp: file_blocks_def)
  ultimately have "?m2 b = m b" if "unat b < f" "b \<notin> file_blocks m A" for b
    using that new [of b] g by (auto simp: grown_def)
  then show ?thesis using fb new by (simp add: others_kept_def)
qed


lemma need_mono: "a \<le> b \<Longrightarrow> need a \<le> need b"
proof -
  assume "a \<le> b"
  then have "blocks_of a \<le> blocks_of b" by (simp add: blocks_of_def div_le_mono)
  then show ?thesis by (simp add: need_def)
qed

declare iappend_loop.simps [simp del]

definition appended :: "dinode \<Rightarrow> mkst \<Rightarrow> uchar list \<Rightarrow> uchar list \<Rightarrow> dinode \<Rightarrow> mkst \<Rightarrow> bool" where
  "appended din s c p din' s' \<longleftrightarrow> (let f = unat (mfreeblock s); f' = unat (mfreeblock s') in
     d_type din' = d_type din \<and> d_nlink din' = d_nlink din \<and>
     mlen s' = mlen s \<and> msb s' = msb s \<and> mfreeinode s' = mfreeinode s \<and>
     mk_file (mimg s') (d_addrs din') f' (c @ p) \<and> fresh_from (mimg s') f' \<and> f \<le> f' \<and>
     others_kept (mimg s) (d_addrs din) f (mimg s') (d_addrs din') \<and> f' + need (length c) = f + need (length c + length p))"

lemma appended_refl: "mk_file (mimg s) (d_addrs din) (unat (mfreeblock s)) c \<Longrightarrow> fresh_from (mimg s) (unat (mfreeblock s)) \<Longrightarrow>
    appended din s c [] din s"
  by (simp add: appended_def others_kept_refl)

lemma appended_trans:
  assumes "appended din s c p din1 s1" and "appended din1 s1 (c @ p) q din2 s2"
  shows "appended din s c (p @ q) din2 s2"
proof -
  have "others_kept (mimg s) (d_addrs din) (unat (mfreeblock s)) (mimg s2) (d_addrs din2)"
    by (rule others_kept_trans) (use assms in \<open>auto simp: appended_def Let_def\<close>)
  then show ?thesis using assms unfolding appended_def Let_def by (simp add: add.assoc)
qed

text \<open>One round of the loop.\<close>

lemma iappend_chunk:
  assumes fl: "mk_file (mimg s) (d_addrs din) (unat (mfreeblock s)) c" and fr: "fresh_from (mimg s) (unat (mfreeblock s))"
    and k: "mk_ok s" and b: "b \<noteq> []" "length c mod BSIZE + length b \<le> BSIZE"
    and n: "n = length c div BSIZE" "n < NDIRECT + NINDIRECT"
    and room: "unat (mfreeblock s) + need (length c + length b) \<le> FSSIZE + need (length c)"
  shows "\<exists>din' x s1 s2. iappend_block din n s = Ok (din', x) s1 \<and> rsect x s1 = Ok (mimg s1 x) s1 \<and>
     wsect x (put_bytes (mimg s1 x) (length c mod BSIZE) b) s1 = Ok () s2 \<and> appended din s c b din' s2"
proof -
  have t: "mk_tree (mimg s) (d_addrs din) (unat (mfreeblock s))" using fl by (simp add: mk_file_def)
  have nb: "need (length c) + new_blocks (mimg s) (d_addrs din) n = need (length c + length b)"
    unfolding n(1) by (rule need_append [OF fl]) (use b n in auto)
  have "unat (mfreeblock s) + new_blocks (mimg s) (d_addrs din) n \<le> FSSIZE" using room nb by simp
  then have "block_ready din n s" using iappend_block_run [OF t fr k] n(2) by blast
  then obtain m1 A1 f1 where r: "iappend_block din n s = Ok (din\<lparr>d_addrs := A1\<rparr>, slot_addr m1 A1 (data_slot n)) (s\<lparr>mimg := m1, mfreeblock := f1\<rparr>)"
    and g: "grown (mimg s) (d_addrs din) (unat (mfreeblock s)) (slots_for n) m1 A1 (unat f1)"
    and f1: "unat f1 = unat (mfreeblock s) + new_blocks (mimg s) (d_addrs din) n" by (auto simp: block_ready_def)
  define x m2 where d: "x = slot_addr m1 A1 (data_slot n)" "m2 = m1(x := put_bytes (m1 x) (length c mod BSIZE) b)"
  note w = mk_file_write [OF fl b n g d]
  have xF: "unat x < FSSIZE" using w(4) f1 nb room by simp
  have "others_kept (mimg s) (d_addrs din) (unat (mfreeblock s)) m2 A1"
    unfolding d(2) by (rule others_kept_write [OF g data_slot_small(1,2) [OF n(2)] d(1) w(3)])
  then have ap: "appended din s c b (din\<lparr>d_addrs := A1\<rparr>) (s\<lparr>mimg := m2, mfreeblock := f1\<rparr>)"
    using w f1 nb by (simp add: appended_def)
  have "mlen (s\<lparr>mimg := m1, mfreeblock := f1\<rparr>) = FSSIZE" using k by (simp add: mk_ok_def)
  note rw = rsect_run [OF this xF] wsect_run [OF this xF]
  show ?thesis
    by (rule exI [of _ "din\<lparr>d_addrs := A1\<rparr>"], rule exI [of _ x], rule exI [of _ "s\<lparr>mimg := m1, mfreeblock := f1\<rparr>"],
        rule exI [of _ "s\<lparr>mimg := m2, mfreeblock := f1\<rparr>"]) (use r ap rw in \<open>simp add: d\<close>)
qed

lemma iappend_loop_run:
  assumes "mk_file (mimg s) (d_addrs din) (unat (mfreeblock s)) c" and "fresh_from (mimg s) (unat (mfreeblock s))"
    and "mk_ok s" and "off = of_nat (length c)" and "length c + length p \<le> (NDIRECT + NINDIRECT) * BSIZE"
    and "unat (mfreeblock s) + need (length c + length p) \<le> FSSIZE + need (length c)"
  shows "\<exists>din' s'. iappend_loop din off p s = Ok (din', of_nat (length c + length p)) s' \<and> appended din s c p din' s'"
  using assms
proof (induction "length p" arbitrary: p din off c s rule: less_induct)
  case less
  note fl = less.prems(1) and fr = less.prems(2) and k = less.prems(3) and off = less.prems(4) and len = less.prems(5) and room = less.prems(6)
  show ?case
  proof (cases "p = []")
    case True
    then show ?thesis using appended_refl [OF fl fr] off by (simp add: retK_def iappend_loop.simps)
  next
    case False
    define n n1 where d: "n = length c div BSIZE" "n1 = min (length p) (BSIZE - length c mod BSIZE)"
    have uo: "unat off = length c" using len off by (simp add: fs_consts unat_of_nat_small)
    have "length c < (NDIRECT + NINDIRECT) * BSIZE" using len False by (cases p) auto
    then have n: "n < NDIRECT + NINDIRECT" by (simp add: d less_mult_imp_div_less)
    have "length c mod BSIZE < BSIZE" by (simp add: BSIZE_def)
    then have n1: "0 < n1" "n1 \<le> length p" "length c mod BSIZE + n1 \<le> BSIZE" using False by (auto simp: d)
    have cl: "length c = n * BSIZE + length c mod BSIZE" by (simp add: d)
    have cut: "(n + 1) * BSIZE - unat off = BSIZE - length c mod BSIZE" "unat off - n * BSIZE = length c mod BSIZE"
      using cl unfolding uo distrib_right by linarith+
    let ?b = "take n1 p" and ?q = "drop n1 p"
    have lb: "length ?b = n1" and pb: "?b @ ?q = p" using n1 by simp_all
    have "need (length c + n1) \<le> need (length c + length p)" using n1 by (intro need_mono) simp
    then have room1: "unat (mfreeblock s) + need (length c + length ?b) \<le> FSSIZE + need (length c)" using room lb by simp
    have b: "?b \<noteq> []" "length c mod BSIZE + length ?b \<le> BSIZE" using n1 lb False by auto
    from iappend_chunk [OF fl fr k b d(1) n room1] obtain din1 x s1 s2
      where c: "iappend_block din n s = Ok (din1, x) s1" "rsect x s1 = Ok (mimg s1 x) s1"
        "wsect x (put_bytes (mimg s1 x) (length c mod BSIZE) ?b) s1 = Ok () s2" and ap: "appended din s c ?b din1 s2" by blast
    have step: "iappend_loop din off p s = iappend_loop din1 (off + of_nat n1) ?q s2"
      using False n unfolding iappend_loop.simps [of din off p] Let_def uo d(1) [symmetric] cut [unfolded uo] d(2) [symmetric]
      by (simp add: bindK_def thenK_def c MAXFILE_def)
    have "\<exists>din' s'. iappend_loop din1 (off + of_nat n1) ?q s2 = Ok (din', of_nat (length (c @ ?b) + length ?q)) s' \<and> appended din1 s2 (c @ ?b) ?q din' s'"
      by (rule less.hyps) (use ap n1 k off len room lb in \<open>auto simp: appended_def mk_ok_def Let_def\<close>)
    then show ?thesis using step appended_trans [OF ap, of ?q] pb n1 lb by fastforce
  qed
qed


section \<open>The image represents a list of files\<close>

text \<open>
  The abstract state: the files in the order of their inodes, from inode 1, each with its type and its bytes.
\<close>

type_synonym mkfiles = "(ushort \<times> uchar list) list"

definition image_blocks :: "mkfiles \<Rightarrow> nat" where
  "image_blocks fs = nmeta + (\<Sum>x\<leftarrow>fs. need (length (snd x)))"

definition inode_of :: "mkst \<Rightarrow> nat \<Rightarrow> dinode" where
  "inode_of s i = get_dinode (mimg s (IBLOCK (of_nat (i + 1)) (msb s))) ((i + 1) mod IPB)"

definition image_files :: "mkst \<Rightarrow> mkfiles \<Rightarrow> bool" where
  "image_files s fs \<longleftrightarrow> mlen s = FSSIZE \<and> msb s = mk_superblock \<and> length fs < NINODES \<and>
     mfreeinode s = of_nat (length fs + 1) \<and>
     unat (mfreeblock s) = image_blocks fs \<and>
     fresh_from (mimg s) (unat (mfreeblock s)) \<and> mimg s 1 = put_superblock (\<lambda>_. 0) mk_superblock \<and>
     (\<forall>i < length fs. d_type (inode_of s i) = fst (fs ! i) \<and> d_nlink (inode_of s i) = 1 \<and>
        d_size (inode_of s i) = of_nat (length (snd (fs ! i))) \<and>
        mk_file (mimg s) (d_addrs (inode_of s i)) (unat (mfreeblock s)) (snd (fs ! i))) \<and>
     (\<forall>i < length fs. \<forall>j < length fs. i \<noteq> j \<longrightarrow>
        file_blocks (mimg s) (d_addrs (inode_of s i)) \<inter> file_blocks (mimg s) (d_addrs (inode_of s j)) = {})"

lemma IBLOCK_range:
  assumes "i < NINODES"
  shows "unat (IBLOCK (of_nat i) mk_superblock) = 32 + i div IPB"
    and "unat (IBLOCK (of_nat i) mk_superblock) < nmeta" and "1 < unat (IBLOCK (of_nat i) mk_superblock)"
    and "unat ((of_nat i :: uint) mod of_nat IPB) = i mod IPB"
proof -
  have i: "unat (of_nat i :: uint) = i" using assms by (simp add: NINODES_def unat_of_nat_small)
  have "unat ((of_nat i :: uint) div of_nat IPB) = i div IPB" by (simp add: unat_div i fs_consts)
  moreover have "i div IPB \<le> i" by simp
  ultimately show *: "unat (IBLOCK (of_nat i) mk_superblock) = 32 + i div IPB"
    using assms by (simp add: IBLOCK_def mk_superblock_def mk_consts unat_word_ariths)
  have "i div IPB < 26" using assms by (simp add: mk_consts less_mult_imp_div_less)
  then show "unat (IBLOCK (of_nat i) mk_superblock) < nmeta" and "1 < unat (IBLOCK (of_nat i) mk_superblock)"
    unfolding * by (simp_all add: mk_consts)
  show "unat ((of_nat i :: uint) mod of_nat IPB) = i mod IPB" by (simp add: unat_mod i fs_consts)
qed

lemma IBLOCK_inj:
  assumes "i < NINODES" and "j < NINODES" and "IBLOCK (of_nat i) mk_superblock = IBLOCK (of_nat j) mk_superblock"
    and "i mod IPB = j mod IPB"
  shows "i = j"
  using assms IBLOCK_range(1) [OF assms(1)] IBLOCK_range(1) [OF assms(2)] by (metis add_left_cancel div_mult_mod_eq)

lemma rinode_run:
  assumes "mlen s = FSSIZE" and "msb s = mk_superblock" and "i + 1 < NINODES"
  shows "rinode (of_nat (i + 1)) s = Ok (inode_of s i) s"
proof -
  have "unat (IBLOCK (of_nat (i + 1)) (msb s)) < FSSIZE" using IBLOCK_range(2) [OF assms(3)] assms(2) by (simp add: mk_consts)
  from rsect_run [OF assms(1) this] show ?thesis
    using IBLOCK_range(4) [OF assms(3)] by (simp add: rinode_def bindK_def getK_def retK_def inode_of_def)
qed

lemma winode_run:
  assumes "mlen s = FSSIZE" and "msb s = mk_superblock" and "i + 1 < NINODES" and "length (d_addrs d) = NDIRECT + 2"
  shows "\<exists>m'. winode (of_nat (i + 1)) d s = Ok () (s\<lparr>mimg := m'\<rparr>) \<and> inode_of (s\<lparr>mimg := m'\<rparr>) i = d \<and>
     (\<forall>j. j \<noteq> i \<longrightarrow> j + 1 < NINODES \<longrightarrow> inode_of (s\<lparr>mimg := m'\<rparr>) j = inode_of s j) \<and>
     (\<forall>b. m' b = mimg s b \<or> (1 < unat b \<and> unat b < nmeta))"
proof -
  let ?bn = "IBLOCK (of_nat (i + 1)) mk_superblock"
  let ?m = "(mimg s)(?bn := put_dinode (mimg s ?bn) ((i + 1) mod IPB) d)"
  note ib = IBLOCK_range [OF assms(3)]
  have "unat ?bn < FSSIZE" using ib(2) by (simp add: mk_consts)
  note rw = rsect_run [OF assms(1) this] wsect_run [OF assms(1) this]
  have "winode (of_nat (i + 1)) d s = Ok () (s\<lparr>mimg := ?m\<rparr>)"
    using ib(4) rw assms(2) by (simp add: winode_def bindK_def getK_def)
  moreover have "inode_of (s\<lparr>mimg := ?m\<rparr>) j = inode_of s j" if "j \<noteq> i" "j + 1 < NINODES" for j
  proof (cases "IBLOCK (of_nat (j + 1)) mk_superblock = ?bn")
    case True
    then have "(i + 1) mod IPB \<noteq> (j + 1) mod IPB" using IBLOCK_inj [OF assms(3) that(2)] that(1) by auto
    from get_put_dinode_other [OF assms(4) this] show ?thesis using True assms(2) by (simp add: inode_of_def)
  qed (use assms(2) in \<open>simp add: inode_of_def\<close>)
  moreover have "inode_of (s\<lparr>mimg := ?m\<rparr>) i = d" using assms(2,4) by (simp add: inode_of_def)
  ultimately show ?thesis using ib(2,3) by (intro exI [of _ ?m]) auto
qed


lemma mk_file_slot:
  assumes fl: "mk_file m A f c" and p: "p < length c"
  shows "slot_ok (data_slot (p div BSIZE))" and "slot_addr m A (data_slot (p div BSIZE)) \<noteq> 0"
proof -
  have "length c \<le> (NDIRECT + NINDIRECT) * BSIZE" using fl by (simp add: mk_file_def)
  then have k: "p div BSIZE < NDIRECT + NINDIRECT" using p by (intro less_mult_imp_div_less) simp
  show "slot_ok (data_slot (p div BSIZE))" by (rule data_slot_small(1) [OF k])
  have "(p div BSIZE + 1) * BSIZE \<le> p + BSIZE" using div_times_less_eq_dividend [of p BSIZE] by simp
  also have "\<dots> \<le> length c + (BSIZE - 1)" using p by (simp add: BSIZE_def)
  finally have "p div BSIZE < blocks_of (length c)"
    unfolding blocks_of_def by (metis BSIZE_def Suc_eq_plus1 Suc_le_eq less_eq_div_iff_mult_less_eq zero_less_numeral)
  then show "slot_addr m A (data_slot (p div BSIZE)) \<noteq> 0" using fl k by (simp add: mk_file_def)
qed

lemma mk_file_keep:
  assumes fl: "mk_file m A f c" and keep: "\<forall>b \<in> file_blocks m A. m' b = m b" and f: "f \<le> f'"
  shows "mk_file m' A f' c" and "file_blocks m' A = file_blocks m A"
proof -
  have t: "mk_tree m A f" using fl by (simp add: mk_file_def)
  have "A ! NDIRECT \<noteq> 0 \<Longrightarrow> A ! NDIRECT \<in> file_blocks m A" unfolding file_blocks_def by (auto intro: exI [of _ Ind])
  then have ind: "A ! NDIRECT \<noteq> 0 \<longrightarrow> m' (A ! NDIRECT) = m (A ! NDIRECT)" using keep by blast
  note tc = mk_tree_cong [where m' = m', OF t ind]
  show "file_blocks m' A = file_blocks m A" by (rule tc(2))
  have "m' (slot_addr m A (data_slot (p div BSIZE))) = m (slot_addr m A (data_slot (p div BSIZE)))" if p: "p < length c" for p
    using keep mk_file_slot [OF fl p] by (auto simp: file_blocks_def)
  moreover have "mk_tree m' A f'" using tc(1) f by (fastforce simp: mk_tree_def)
  ultimately show "mk_file m' A f' c" using fl by (simp add: mk_file_def tc(3))
qed

lemma file_blocks_range: "mk_file m A f c \<Longrightarrow> b \<in> file_blocks m A \<Longrightarrow> nmeta \<le> unat b \<and> unat b < f"
  by (auto simp: mk_file_def mk_tree_def file_blocks_def)

lemma image_blocks_update:
  "i < length fs \<Longrightarrow> image_blocks (fs[i := (t, c)]) + need (length (snd (fs ! i))) = image_blocks fs + need (length c)"
proof (induction fs arbitrary: i)
  case (Cons x fs)
  then show ?case by (cases i) (auto simp: image_blocks_def)
qed simp

text \<open>The image after an append: only the file appended to changes.\<close>

lemma image_files_append:
  assumes R: "image_files s fs" and i: "i < length fs" "fs ! i = (t, c)" and ap: "appended (inode_of s i) s c p din1 s1"
    and s2: "s2 = s1\<lparr>mimg := m2\<rparr>" and wi: "inode_of s2 i = din1\<lparr>d_size := of_nat (length c + length p)\<rparr>"
    and wj: "\<And>j. j \<noteq> i \<Longrightarrow> j + 1 < NINODES \<Longrightarrow> inode_of s2 j = inode_of s1 j"
    and wm: "\<And>b. m2 b = mimg s1 b \<or> 1 < unat b \<and> unat b < nmeta"
  shows "image_files s2 (fs[i := (t, c @ p)])"
proof -
  let ?f = "unat (mfreeblock s)" and ?f' = "unat (mfreeblock s1)" and ?A = "\<lambda>j. d_addrs (inode_of s j)" and ?m = "mimg s" and ?m1 = "mimg s1"
  note a = ap [unfolded appended_def Let_def]
  have fl: "mk_file ?m (?A j) ?f (snd (fs ! j))" if "j < length fs" for j using R that by (auto simp: image_files_def)
  have disj: "file_blocks ?m (?A j) \<inter> file_blocks ?m (?A k) = {}" if "j < length fs" "k < length fs" "j \<noteq> k" for j k
    using R that by (auto simp: image_files_def)
  have nf: "nmeta \<le> ?f" using R by (auto simp: image_files_def image_blocks_def)
  have ok: "?m1 b = ?m b" if "unat b < ?f" "b \<notin> file_blocks ?m (?A i)" for b using a that by (auto simp: others_kept_def)
  have meta: "?m1 b = ?m b" if "unat b < nmeta" for b using ok [of b] file_blocks_range [OF fl [OF i(1)], of b] nf that by auto
  have data: "m2 b = ?m1 b" if "nmeta \<le> unat b" for b using wm [of b] that by auto
  have inj: "inode_of s2 j = inode_of s j" if "j < length fs" "j \<noteq> i" for j
  proof -
    have N: "j + 1 < NINODES" using R that(1) by (simp add: image_files_def)
    have "msb s1 = msb s" "msb s = mk_superblock" using a R by (auto simp: image_files_def)
    then have "inode_of s1 j = inode_of s j" using meta [OF IBLOCK_range(2) [OF N]] by (simp add: inode_of_def)
    then show ?thesis using wj [OF that(2) N] by simp
  qed
  have fi: "mk_file m2 (d_addrs din1) ?f' (c @ p)" "file_blocks m2 (d_addrs din1) = file_blocks ?m1 (d_addrs din1)"
  proof -
    have f1: "mk_file ?m1 (d_addrs din1) ?f' (c @ p)" using a by simp
    have "\<forall>b \<in> file_blocks ?m1 (d_addrs din1). m2 b = ?m1 b" using data file_blocks_range [OF f1] by blast
    from mk_file_keep [OF f1 this] show "mk_file m2 (d_addrs din1) ?f' (c @ p)" "file_blocks m2 (d_addrs din1) = file_blocks ?m1 (d_addrs din1)" by auto
  qed
  have fj: "mk_file m2 (?A j) ?f' (snd (fs ! j))" "file_blocks m2 (?A j) = file_blocks ?m (?A j)" if "j < length fs" "j \<noteq> i" for j
  proof -
    have "\<forall>b \<in> file_blocks ?m (?A j). m2 b = ?m b"
      using data ok file_blocks_range [OF fl [OF that(1)]] disj [OF that(1) i(1) that(2)] by (metis disjoint_iff)
    from mk_file_keep [OF fl [OF that(1)] this] a show "mk_file m2 (?A j) ?f' (snd (fs ! j))" "file_blocks m2 (?A j) = file_blocks ?m (?A j)" by auto
  qed
  have dj: "file_blocks m2 (d_addrs din1) \<inter> file_blocks m2 (?A j) = {}" if "j < length fs" "j \<noteq> i" for j
    using fj [OF that] fi(2) a disj [OF i(1) that(1)] that(2) file_blocks_range [OF fl [OF that(1)]]
    by (auto simp: others_kept_def) (metis disjoint_iff leD)
  have "?f' = image_blocks (fs[i := (t, c @ p)])"
    using image_blocks_update [OF i(1), of t "c @ p"] a R i(2) by (simp add: image_files_def)
  moreover have "fresh_from m2 ?f'" using a data nf by (simp add: fresh_from_def)
  moreover have "m2 1 = put_superblock (\<lambda>_. 0) mk_superblock" using wm [of 1] meta [of 1] R by (simp add: image_files_def nmeta_def)
  moreover have "d_type (inode_of s2 j) = fst (fs[i := (t, c @ p)] ! j) \<and> d_nlink (inode_of s2 j) = 1 \<and>
      d_size (inode_of s2 j) = of_nat (length (snd (fs[i := (t, c @ p)] ! j))) \<and>
      mk_file m2 (d_addrs (inode_of s2 j)) ?f' (snd (fs[i := (t, c @ p)] ! j))" if "j < length fs" for j
    using R i a wi fi(1) fj(1) [OF that] inj [OF that] that by (cases "j = i") (simp_all add: image_files_def)
  moreover have "file_blocks m2 (d_addrs (inode_of s2 j)) \<inter> file_blocks m2 (d_addrs (inode_of s2 k)) = {}"
    if "j < length fs" "k < length fs" "j \<noteq> k" for j k
    using that wi dj inj fj(2) disj [OF that] by (cases "j = i"; cases "k = i") (auto simp: Int_commute)
  ultimately show ?thesis using R a by (simp add: image_files_def s2)
qed

lemma iappend_refines:
  assumes R: "image_files s fs" and i: "i < length fs" "fs ! i = (t, c)"
    and len: "length c + length p \<le> (NDIRECT + NINDIRECT) * BSIZE"
    and room: "image_blocks (fs[i := (t, c @ p)]) \<le> FSSIZE"
  shows "\<exists>s'. iappend (of_nat (i + 1)) p s = Ok () s' \<and> image_files s' (fs[i := (t, c @ p)])"
proof -
  let ?f = "unat (mfreeblock s)" and ?A = "\<lambda>j. d_addrs (inode_of s j)" and ?m = "mimg s"
  have N: "i + 1 < NINODES" and s: "mlen s = FSSIZE" "msb s = mk_superblock" using R i by (auto simp: image_files_def)
  have "mk_file ?m (?A i) ?f (snd (fs ! i))" using R i(1) unfolding image_files_def by blast
  then have fi: "mk_file ?m (?A i) ?f c" using i(2) by simp
  have k: "mk_ok s" using R by (auto simp: image_files_def mk_ok_def image_blocks_def)
  have off: "d_size (inode_of s i) = of_nat (length c)" and fr: "fresh_from ?m ?f" using R i by (auto simp: image_files_def)
  have "?f + need (length c + length p) \<le> FSSIZE + need (length c)"
    using room image_blocks_update [OF i(1), of t "c @ p"] R i(2) by (simp add: image_files_def)
  from iappend_loop_run [OF fi fr k off len this] obtain din1 s1
    where l: "iappend_loop (inode_of s i) (d_size (inode_of s i)) p s = Ok (din1, of_nat (length c + length p)) s1"
      and ap: "appended (inode_of s i) s c p din1 s1" by blast
  let ?d = "din1\<lparr>d_size := of_nat (length c + length p)\<rparr>"
  have fr1: "mlen s1 = FSSIZE" "msb s1 = mk_superblock" and "length (d_addrs ?d) = NDIRECT + 2"
    using ap s by (auto simp: appended_def Let_def mk_file_def mk_tree_def)
  from winode_run [OF fr1 N this(3)] obtain m2
    where w: "winode (of_nat (i + 1)) ?d s1 = Ok () (s1\<lparr>mimg := m2\<rparr>)" "inode_of (s1\<lparr>mimg := m2\<rparr>) i = ?d"
      "\<And>j. j \<noteq> i \<Longrightarrow> j + 1 < NINODES \<Longrightarrow> inode_of (s1\<lparr>mimg := m2\<rparr>) j = inode_of s1 j"
      "\<And>b. m2 b = mimg s1 b \<or> 1 < unat b \<and> unat b < nmeta" by blast
  have "iappend (of_nat (i + 1)) p s = Ok () (s1\<lparr>mimg := m2\<rparr>)"
    using rinode_run [OF s N] l w(1) by (simp add: iappend_def bindK_def)
  then show ?thesis using image_files_append [OF R i ap refl w(2-4)] by blast
qed


lemma mk_file_empty: "mk_file m (replicate (NDIRECT + 2) 0) f []" "file_blocks m (replicate (NDIRECT + 2) 0) = {}"
proof -
  have z: "slot_addr m (replicate (NDIRECT + 2) 0) x = 0" if "slot_ok x" for x
    using that by (cases x) (simp_all add: entry_def NDIRECT_def)
  then show "file_blocks m (replicate (NDIRECT + 2) 0) = {}" by (auto simp: file_blocks_def)
  have "blocks_of 0 = 0" by (simp add: blocks_of_def BSIZE_def)
  then show "mk_file m (replicate (NDIRECT + 2) 0) f []"
    using z data_slot_small(1) z [of Ind] z [of Dbl] by (simp add: mk_file_def mk_tree_def)
qed

lemma mk_ialloc_refines:
  assumes R: "image_files s fs" and N: "length fs + 1 < NINODES"
  shows "\<exists>s'. mk_ialloc t s = Ok (of_nat (length fs + 1)) s' \<and> image_files s' (fs @ [(t, [])])"
proof -
  let ?d = "\<lparr>d_type = t, d_major = 0, d_minor = 0, d_nlink = 1, d_size = 0, d_addrs = replicate (NDIRECT + 2) 0\<rparr>"
  let ?n = "length fs" and ?f = "unat (mfreeblock s)" and ?s1 = "s\<lparr>mfreeinode := of_nat (length fs + 1) + 1\<rparr>"
  have s: "mlen ?s1 = FSSIZE" "msb ?s1 = mk_superblock" and nf: "nmeta \<le> ?f" and fi: "mfreeinode s = of_nat (?n + 1)"
    using R by (auto simp: image_files_def image_blocks_def)
  have "length (d_addrs ?d) = NDIRECT + 2" by simp
  from winode_run [OF s N this] obtain m2
    where w: "winode (of_nat (?n + 1)) ?d ?s1 = Ok () (?s1\<lparr>mimg := m2\<rparr>)" "inode_of (?s1\<lparr>mimg := m2\<rparr>) ?n = ?d"
      "\<And>j. j \<noteq> ?n \<Longrightarrow> j + 1 < NINODES \<Longrightarrow> inode_of (?s1\<lparr>mimg := m2\<rparr>) j = inode_of ?s1 j"
      "\<And>b. m2 b = mimg ?s1 b \<or> 1 < unat b \<and> unat b < nmeta" by blast
  let ?s2 = "?s1\<lparr>mimg := m2\<rparr>"
  have run: "mk_ialloc t s = Ok (of_nat (?n + 1)) ?s2"
    using w(1) fi by (simp add: mk_ialloc_def bindK_def thenK_def getK_def modK_def retK_def)
  have data: "m2 b = mimg s b" if "nmeta \<le> unat b" for b using w(4) [of b] that by auto
  have inj: "inode_of ?s2 j = inode_of s j" if "j < ?n" for j using w(3) [of j] N that by (simp add: inode_of_def)
  have fj: "mk_file m2 (d_addrs (inode_of s j)) ?f (snd (fs ! j))"
    "file_blocks m2 (d_addrs (inode_of s j)) = file_blocks (mimg s) (d_addrs (inode_of s j))" if "j < ?n" for j
  proof -
    have fl: "mk_file (mimg s) (d_addrs (inode_of s j)) ?f (snd (fs ! j))" using R that unfolding image_files_def by blast
    have "\<forall>b \<in> file_blocks (mimg s) (d_addrs (inode_of s j)). m2 b = mimg s b" using data file_blocks_range [OF fl] by blast
    from mk_file_keep [OF fl this, of ?f] show "mk_file m2 (d_addrs (inode_of s j)) ?f (snd (fs ! j))"
      "file_blocks m2 (d_addrs (inode_of s j)) = file_blocks (mimg s) (d_addrs (inode_of s j))" by auto
  qed
  have "image_files ?s2 (fs @ [(t, [])])"
    unfolding image_files_def
  proof (intro conjI allI impI)
    show "unat (mfreeblock ?s2) = image_blocks (fs @ [(t, [])])"
      using R by (simp add: image_files_def image_blocks_def need_def blocks_of_def BSIZE_def)
    show "fresh_from (mimg ?s2) (unat (mfreeblock ?s2))" using R data nf by (simp add: image_files_def fresh_from_def)
    show "mimg ?s2 1 = put_superblock (\<lambda>_. 0) mk_superblock" using R w(4) [of 1] by (simp add: image_files_def)
  next
    fix j assume "j < length (fs @ [(t, [])])"
    then consider "j < ?n" | "j = ?n" by fastforce
    then show "d_type (inode_of ?s2 j) = fst ((fs @ [(t, [])]) ! j)" "d_nlink (inode_of ?s2 j) = 1"
      "d_size (inode_of ?s2 j) = of_nat (length (snd ((fs @ [(t, [])]) ! j)))"
      "mk_file (mimg ?s2) (d_addrs (inode_of ?s2 j)) (unat (mfreeblock ?s2)) (snd ((fs @ [(t, [])]) ! j))"
      using R inj [of j] fj(1) [of j] w(2) mk_file_empty(1) by (cases; simp add: image_files_def nth_append)+
  next
    fix j k assume jk: "j < length (fs @ [(t, [])])" "k < length (fs @ [(t, [])])" "j \<noteq> k"
    then consider "j < ?n" "k < ?n" | "j = ?n" "k < ?n" | "j < ?n" "k = ?n" by fastforce
    then show "file_blocks (mimg ?s2) (d_addrs (inode_of ?s2 j)) \<inter> file_blocks (mimg ?s2) (d_addrs (inode_of ?s2 k)) = {}"
      using R inj fj(2) w(2) mk_file_empty(2) [of m2] jk(3) by (cases; simp add: image_files_def)
  qed (use R N s in \<open>simp_all add: image_files_def\<close>)
  with run show ?thesis by blast
qed


section \<open>What the program is meant to build\<close>

definition add_bytes :: "mkfiles \<Rightarrow> nat \<Rightarrow> uchar list \<Rightarrow> mkfiles" where
  "add_bytes fs i p = fs[i := (fst (fs ! i), snd (fs ! i) @ p)]"

text \<open>An empty directory with its two entries, linked in the root directory.\<close>

definition add_dir :: "mkfiles \<Rightarrow> string \<Rightarrow> mkfiles" where
  "add_dir fs name = (let i = length fs; ino = of_nat (i + 1) in
     add_bytes (add_bytes (add_bytes (fs @ [(T_DIR, [])]) i (mk_dirent ino (ascii ''.''))) i (mk_dirent 1 (ascii ''..'')))
       0 (mk_dirent ino (ascii name)))"

definition root_files :: mkfiles where
  "root_files = add_dir (add_dir (add_dir [(T_DIR, mk_dirent 1 (ascii ''.'') @ mk_dirent 1 (ascii ''..''))] ''dev'') ''bin'') ''home''"

text \<open>A file with its bytes, linked in \<^verbatim>\<open>/bin\<close> (inode 3) or \<^verbatim>\<open>/home\<close> (inode 4).\<close>

definition add_file :: "(uchar list \<Rightarrow> uchar list list option) \<Rightarrow> mkfiles \<Rightarrow> uchar list \<Rightarrow> mkfiles" where
  "add_file fopen fs arg = (let (d, name) = mk_target 3 4 (mk_shortname arg) in
     add_bytes (add_bytes (fs @ [(T_FILE, [])]) (unat d - 1) (mk_dirent (of_nat (length fs + 1)) name))
       (length fs) (concat (the (fopen arg))))"

definition mkfs_files :: "(uchar list \<Rightarrow> uchar list list option) \<Rightarrow> uchar list list \<Rightarrow> mkfiles" where
  "mkfs_files fopen args = foldl (add_file fopen) root_files args"

text \<open>The files fit: few enough for the inode blocks, none longer than its direct and indirect blocks, and not too many
  blocks in all.\<close>

definition image_fits :: "mkfiles \<Rightarrow> bool" where
  "image_fits fs \<longleftrightarrow> length fs < NINODES \<and> image_blocks fs \<le> FSSIZE \<and>
     (\<forall>x \<in> set fs. length (snd x) \<le> (NDIRECT + NINDIRECT) * BSIZE)"

lemma length_add_bytes [simp]: "length (add_bytes fs i p) = length fs"
  by (simp add: add_bytes_def)

lemma length_add_dir [simp]: "length (add_dir fs name) = length fs + 1"
  by (simp add: add_dir_def Let_def)

lemma length_add_file [simp]: "length (add_file fopen fs a) = length fs + 1"
  by (simp add: add_file_def split: prod.split)

lemma add_bytes_add: "i < length fs \<Longrightarrow> add_bytes (add_bytes fs i p) i q = add_bytes fs i (p @ q)"
  by (simp add: add_bytes_def)

lemma add_bytes_nil: "add_bytes fs i [] = fs"
  by (simp add: add_bytes_def)

lemma image_fits_add_bytes:
  assumes "image_fits (add_bytes fs i p)" and "i < length fs"
  shows "image_fits fs" and "length (snd (fs ! i)) + length p \<le> (NDIRECT + NINDIRECT) * BSIZE"
proof -
  have b: "image_blocks (add_bytes fs i p) + need (length (snd (fs ! i))) = image_blocks fs + need (length (snd (fs ! i) @ p))"
    unfolding add_bytes_def by (rule image_blocks_update [OF assms(2)])
  have "need (length (snd (fs ! i))) \<le> need (length (snd (fs ! i) @ p))" by (intro need_mono) simp
  then have "image_blocks fs \<le> FSSIZE" using b assms(1) by (simp add: image_fits_def)
  have n: "length (snd (add_bytes fs i p ! j)) \<le> (NDIRECT + NINDIRECT) * BSIZE" if "j < length fs" for j
    using assms(1) that by (simp add: image_fits_def)
  show l: "length (snd (fs ! i)) + length p \<le> (NDIRECT + NINDIRECT) * BSIZE"
    using n [OF assms(2)] assms(2) by (simp add: add_bytes_def)
  have "length (snd (fs ! j)) \<le> (NDIRECT + NINDIRECT) * BSIZE" if "j < length fs" for j
    using n [OF that] l that by (cases "j = i") (auto simp: add_bytes_def)
  then have "\<forall>x \<in> set fs. length (snd x) \<le> (NDIRECT + NINDIRECT) * BSIZE" by (metis in_set_conv_nth)
  then show "image_fits fs" using \<open>image_blocks fs \<le> FSSIZE\<close> assms(1) by (simp add: image_fits_def)
qed

lemma image_fits_snoc: "image_fits (fs @ [(t, [])]) \<Longrightarrow> image_fits fs"
  by (simp add: image_fits_def image_blocks_def)

text \<open>One refinement step: the call returns, and the image represents the new list of files.\<close>

definition builds :: "(mkst, 'a) kfun \<Rightarrow> 'a \<Rightarrow> mkfiles \<Rightarrow> mkfiles \<Rightarrow> bool" where
  "builds f r fs fs' \<longleftrightarrow> (\<forall>s. image_files s fs \<longrightarrow> (\<exists>s'. f s = Ok r s' \<and> image_files s' fs'))"

lemma builds_bind: "builds f r fs fs1 \<Longrightarrow> builds (g r) r' fs1 fs2 \<Longrightarrow> builds (bindK f g) r' fs fs2"
  by (fastforce simp: builds_def bindK_def)

lemma builds_then: "builds f r fs fs1 \<Longrightarrow> builds g r' fs1 fs2 \<Longrightarrow> builds (thenK f g) r' fs fs2"
  unfolding thenK_def by (rule builds_bind)

lemma builds_ret: "builds (retK r) r fs fs"
  by (simp add: builds_def retK_def)

lemma builds_iappend:
  assumes "image_fits (add_bytes fs i p)" and "i < length fs" and "ino = of_nat (i + 1)"
  shows "builds (iappend ino p) () fs (add_bytes fs i p)"
  unfolding builds_def assms(3)
proof (intro allI impI)
  fix s assume R: "image_files s fs"
  show "\<exists>s'. iappend (of_nat (i + 1)) p s = Ok () s' \<and> image_files s' (add_bytes fs i p)"
    unfolding add_bytes_def
    by (rule iappend_refines [OF R assms(2) _ image_fits_add_bytes(2) [OF assms(1,2)]])
      (use assms(1) in \<open>simp_all add: image_fits_def add_bytes_def\<close>)
qed

lemma builds_ialloc: "image_fits (fs @ [(t, [])]) \<Longrightarrow> ino = of_nat (length fs + 1) \<Longrightarrow> builds (mk_ialloc t) ino fs (fs @ [(t, [])])"
  unfolding builds_def using mk_ialloc_refines by (auto simp: image_fits_def)

lemma builds_iappends:
  assumes "image_fits (add_bytes fs i (concat ps))" and "i < length fs" and "ino = of_nat (i + 1)"
  shows "builds (forK ps (iappend ino)) () fs (add_bytes fs i (concat ps))"
  using assms
proof (induction ps arbitrary: fs)
  case Nil
  then show ?case by (simp add: builds_ret add_bytes_nil)
next
  case (Cons p ps)
  have f: "image_fits (add_bytes (add_bytes fs i p) i (concat ps))" using Cons.prems by (simp add: add_bytes_add)
  then have "image_fits (add_bytes fs i p)" by (rule image_fits_add_bytes) (use Cons.prems in simp)
  from builds_then [OF builds_iappend [OF this Cons.prems(2,3)] Cons.IH [OF f _ Cons.prems(3)]] Cons.prems(2)
  show ?case by (simp add: add_bytes_add)
qed


lemma builds_makedir:
  assumes f: "image_fits (add_dir fs name)" and fs: "fs \<noteq> []" and ino: "ino = of_nat (length fs + 1)"
  shows "builds (makedir 1 name) ino fs (add_dir fs name)"
proof -
  let ?f1 = "fs @ [(T_DIR, [])]" and ?i = "length fs"
  let ?f2 = "add_bytes ?f1 ?i (mk_dirent ino (ascii ''.''))"
  let ?f3 = "add_bytes ?f2 ?i (mk_dirent 1 (ascii ''..''))"
  have e: "add_dir fs name = add_bytes ?f3 0 (mk_dirent ino (ascii name))" by (simp add: add_dir_def Let_def ino)
  note k4 = f [unfolded e] and k3 = image_fits_add_bytes(1) [OF f [unfolded e]]
  have k3: "image_fits ?f3" by (rule image_fits_add_bytes(1) [OF k4]) simp
  have k2: "image_fits ?f2" by (rule image_fits_add_bytes(1) [OF k3]) simp
  have k1: "image_fits ?f1" by (rule image_fits_add_bytes(1) [OF k2]) simp
  show ?thesis unfolding e makedir_def
    by (intro builds_bind [OF builds_ialloc [OF k1 ino]] builds_then [OF builds_iappend [OF k2]] builds_then [OF builds_iappend [OF k3]]
        builds_then [OF builds_iappend [OF k4]] builds_ret) (simp_all add: ino)
qed

lemma image_fits_add_dir:
  assumes "image_fits (add_dir fs name)"
  shows "image_fits fs"
proof -
  let ?i = "length fs" and ?ino = "of_nat (length fs + 1) :: uint"
  let ?f2 = "add_bytes (fs @ [(T_DIR, [])]) ?i (mk_dirent ?ino (ascii ''.''))"
  let ?f3 = "add_bytes ?f2 ?i (mk_dirent 1 (ascii ''..''))"
  have "image_fits (add_bytes ?f3 0 (mk_dirent ?ino (ascii name)))" using assms by (simp add: add_dir_def Let_def)
  then have "image_fits ?f3" by (rule image_fits_add_bytes(1)) simp
  then have "image_fits ?f2" by (rule image_fits_add_bytes(1)) simp
  then have "image_fits (fs @ [(T_DIR, [])])" by (rule image_fits_add_bytes(1)) simp
  then show ?thesis by (rule image_fits_snoc)
qed

lemma builds_makedirs:
  assumes f: "image_fits root_files"
  shows "builds makedirs (3, 4) [] root_files"
proof -
  define e1 e2 where e: "e1 = mk_dirent 1 (ascii ''.'')" "e2 = mk_dirent 1 (ascii ''..'')"
  define ra rb rc rd where r: "ra = [(T_DIR, e1)]" "rb = [(T_DIR, e1 @ e2)]" "rc = add_dir rb ''dev''" "rd = add_dir rc ''bin''"
  have rf: "root_files = add_dir rd ''home''" by (simp add: root_files_def r e)
  have a: "add_bytes [(T_DIR, [])] 0 e1 = ra" "add_bytes ra 0 e2 = rb" by (simp_all add: add_bytes_def r)
  have ne: "ra \<noteq> []" "rb \<noteq> []" "rc \<noteq> []" "rd \<noteq> []" "length rb = 1" "length rc = 2" "length rd = 3"
    by (auto simp: r simp flip: length_0_conv)
  have kd: "image_fits rd" using f image_fits_add_dir unfolding rf by blast
  have kc: "image_fits rc" using kd image_fits_add_dir unfolding r(4) by blast
  have kb: "image_fits rb" using kc image_fits_add_dir unfolding r(3) by blast
  have ka: "image_fits ra" by (rule image_fits_add_bytes(1) [of _ 0 e2]) (use kb a ne in auto)
  have k: "image_fits ([] @ [(T_DIR, [])])" using image_fits_add_bytes(1) [of "[(T_DIR, [])]" 0 e1] ka a by simp
  have b: "builds (makedir 1 ''dev'') 2 rb rc" "builds (makedir 1 ''bin'') 3 rc rd" "builds (makedir 1 ''home'') 4 rd root_files"
    using builds_makedir [of rb "''dev''" 2] builds_makedir [of rc "''bin''" 3] builds_makedir [of rd "''home''" 4] kc kd f ne rf
    by (simp_all add: r(3,4))
  have dirs: "builds (bindK (makedir 1 ''dev'') (\<lambda>devino. bindK (makedir 1 ''bin'') (\<lambda>binino.
      bindK (makedir 1 ''home'') (\<lambda>homeino. retK (binino, homeino))))) (3, 4) rb root_files"
    by (rule builds_bind [OF b(1)], rule builds_bind [OF b(2)], rule builds_bind [OF b(3)], rule builds_ret)
  have "builds (iappend 1 e1) () [(T_DIR, [])] ra" "builds (iappend 1 e2) () ra rb"
    using builds_iappend [of "[(T_DIR, [])]" 0 e1 1] builds_iappend [of ra 0 e2 1] ka kb a ne by simp_all
  note root = builds_then [OF this(1) builds_then [OF this(2) dirs]]
  have i: "builds (mk_ialloc T_DIR) 1 [] ([] @ [(T_DIR, [])])" by (rule builds_ialloc [OF k]) simp
  show ?thesis unfolding makedirs_def
    by (rule builds_bind [OF i]) (use root in \<open>simp add: ROOTINO_def e\<close>)
qed

text \<open>The arguments are usable: every name has no slash left and every file can be opened.\<close>

definition args_ok :: "(uchar list \<Rightarrow> uchar list list option) \<Rightarrow> uchar list list \<Rightarrow> bool" where
  "args_ok fopen args \<longleftrightarrow> (\<forall>a \<in> set args. of_char CHR ''/'' \<notin> set (mk_shortname a) \<and> fopen a \<noteq> None)"

lemma mk_target_dir: "mk_target 3 4 nm = (d, name) \<Longrightarrow> d = 3 \<or> d = 4"
  by (auto simp: mk_target_def split: if_splits)

lemma image_fits_add_file:
  assumes f: "image_fits (add_file fopen fs a)" and t: "mk_target 3 4 (mk_shortname a) = (d, name)" and l: "4 \<le> length fs"
  shows "image_fits (add_bytes (fs @ [(T_FILE, [])]) (unat d - 1) (mk_dirent (of_nat (length fs + 1)) name))" and "image_fits (fs @ [(T_FILE, [])])"
    and "image_fits fs"
proof -
  show 1: "image_fits (add_bytes (fs @ [(T_FILE, [])]) (unat d - 1) (mk_dirent (of_nat (length fs + 1)) name))"
    using image_fits_add_bytes(1) [of "add_bytes (fs @ [(T_FILE, [])]) (unat d - 1) (mk_dirent (of_nat (length fs + 1)) name)" "length fs"] f t
    by (simp add: add_file_def)
  show "image_fits (fs @ [(T_FILE, [])])" by (rule image_fits_add_bytes(1) [OF 1]) (use mk_target_dir [OF t] l in auto)
  then show "image_fits fs" by (rule image_fits_snoc)
qed

lemma builds_mk_add:
  assumes ok: "args_ok fopen [a]" and f: "image_fits (add_file fopen fs a)" and l: "4 \<le> length fs"
  shows "builds (mk_add fopen 3 4 a) () fs (add_file fopen fs a)"
proof -
  obtain d name where t: "mk_target 3 4 (mk_shortname a) = (d, name)" by fastforce
  obtain bufs where b: "fopen a = Some bufs" using ok by (auto simp: args_ok_def)
  note ff = image_fits_add_file [OF f t l]
  let ?f1 = "fs @ [(T_FILE, [])]"
  let ?f2 = "add_bytes ?f1 (unat d - 1) (mk_dirent (of_nat (length fs + 1)) name)"
  have e: "add_file fopen fs a = add_bytes ?f2 (length fs) (concat bufs)" by (simp add: add_file_def t b)
  have d: "unat d - 1 < length ?f1" "d = of_nat (unat d - 1 + 1)" using mk_target_dir [OF t] l by auto
  have "builds (bindK (mk_ialloc T_FILE) (\<lambda>inum. thenK (iappend d (mk_dirent inum name)) (forK bufs (iappend inum)))) () fs (add_file fopen fs a)"
    unfolding e
    by (intro builds_bind [OF builds_ialloc [OF ff(2) refl]] builds_then [OF builds_iappend [OF ff(1) d]]
        builds_iappends [OF f [unfolded e]]) simp_all
  then show ?thesis using ok by (simp add: mk_add_def t b args_ok_def)
qed

lemma image_fits_foldl: "image_fits (foldl (add_file fopen) fs args) \<Longrightarrow> 4 \<le> length fs \<Longrightarrow> image_fits fs"
proof (induction args arbitrary: fs)
  case (Cons a args)
  obtain d name where t: "mk_target 3 4 (mk_shortname a) = (d, name)" by fastforce
  show ?case using Cons.IH [of "add_file fopen fs a"] Cons.prems image_fits_add_file(3) [OF _ t] by simp
qed simp

lemma builds_args:
  assumes "args_ok fopen args" and "image_fits (foldl (add_file fopen) fs args)" and "4 \<le> length fs"
  shows "builds (forK args (mk_add fopen 3 4)) () fs (foldl (add_file fopen) fs args)"
  using assms
proof (induction args arbitrary: fs)
  case Nil
  then show ?case by (simp add: builds_ret)
next
  case (Cons a args)
  let ?f1 = "add_file fopen fs a"
  have ok: "args_ok fopen [a]" "args_ok fopen args" using Cons.prems(1) by (auto simp: args_ok_def)
  have f: "image_fits (foldl (add_file fopen) ?f1 args)" and l: "4 \<le> length ?f1" using Cons.prems by simp_all
  show ?case
    using builds_then [OF builds_mk_add [OF ok(1) image_fits_foldl [OF f l] Cons.prems(3)] Cons.IH [OF ok(2) f l]] by simp
qed


section \<open>The whole program\<close>

lemma zero_image:
  assumes "mlen s = 0"
  shows "\<exists>m. forK [0..<FSSIZE] (\<lambda>i. wsect (of_nat i) (\<lambda>_. 0)) s = Ok () (s\<lparr>mimg := m, mlen := FSSIZE\<rparr>) \<and>
    (\<forall>b. unat b < FSSIZE \<longrightarrow> m b = (\<lambda>_. 0))"
proof -
  have "\<exists>s'. forK [0..<FSSIZE] (\<lambda>i. wsect (of_nat i) (\<lambda>_. 0)) s = Ok () s' \<and>
    (\<exists>m. s' = s\<lparr>mimg := m, mlen := FSSIZE\<rparr> \<and> (\<forall>b. unat b < FSSIZE \<longrightarrow> m b = (\<lambda>_. 0)))"
  proof (rule forK_upto)
    show "\<exists>m. s = s\<lparr>mimg := m, mlen := 0\<rparr> \<and> (\<forall>b. unat b < 0 \<longrightarrow> m b = (\<lambda>_. 0))"
      using assms by (intro exI [of _ "mimg s"]) simp
  next
    fix k t assume k: "k < FSSIZE" and "\<exists>m. t = s\<lparr>mimg := m, mlen := k\<rparr> \<and> (\<forall>b. unat b < k \<longrightarrow> m b = (\<lambda>_. 0))"
    then obtain m where t: "t = s\<lparr>mimg := m, mlen := k\<rparr>" and z: "\<And>b. unat b < k \<Longrightarrow> m b = (\<lambda>_. 0)" by blast
    have u: "unat (of_nat k :: uint) = k" using k by (simp add: FSSIZE_def unat_of_nat_small)
    then have "seek_sect (of_nat k) = of_nat k" using k by (intro seek_sect_id) (simp add: FSSIZE_def)
    then have "wsect (of_nat k) (\<lambda>_. 0) t = Ok () (s\<lparr>mimg := m(of_nat k := (\<lambda>_. 0)), mlen := Suc k\<rparr>)"
      using u by (simp add: wsect_def modK_def t)
    moreover have "(m(of_nat k := (\<lambda>_. 0))) b = (\<lambda>_. 0)" if "unat b < Suc k" for b
      using z [of b] that u by (cases "unat b = k") auto
    ultimately show "\<exists>t'. wsect (of_nat k) (\<lambda>_. 0) t = Ok () t' \<and>
        (\<exists>m. t' = s\<lparr>mimg := m, mlen := Suc k\<rparr> \<and> (\<forall>b. unat b < Suc k \<longrightarrow> m b = (\<lambda>_. 0)))" by blast
  qed
  then show ?thesis by blast
qed

lemma bit_used_bitmap: "bit_used (used_bitmap n) b \<longleftrightarrow> b < n"
proof (induction n)
  case 0
  then show ?case by (simp add: used_bitmap_def bit_used_def)
next
  case (Suc n)
  then show ?case by (auto simp: used_bitmap_def bit_used_mark_used)
qed

lemma get_put_superblock: "get_superblock (put_superblock d sp) = sp"
  by (simp add: get_superblock_def put_superblock_def get32_put32_other)

definition final_image :: "mkst \<Rightarrow> mkst \<Rightarrow> bool" where
  "final_image s s' \<longleftrightarrow> s' = s\<lparr>mimg := (mimg s)(58 := used_bitmap (unat (mfreeblock s)))\<rparr>"

lemma mkfs_runs:
  assumes ok: "args_ok fopen args" and f: "image_fits (mkfs_files fopen args)" and used: "image_blocks (mkfs_files fopen args) < BPB"
  shows "\<exists>s' s''. mkfs fopen args s = Ok () s'' \<and> image_files s' (mkfs_files fopen args) \<and> final_image s' s''"
proof -
  define s0 where s0: "s0 = s\<lparr>mlen := 0, msb := mk_superblock, mfreeinode := 1, mfreeblock := of_nat nmeta\<rparr>"
  obtain m where z: "forK [0..<FSSIZE] (\<lambda>i. wsect (of_nat i) (\<lambda>_. 0)) s0 = Ok () (s0\<lparr>mimg := m, mlen := FSSIZE\<rparr>)"
    and m0: "\<And>b. unat b < FSSIZE \<Longrightarrow> m b = (\<lambda>_. 0)" using zero_image [of s0] by (auto simp: s0)
  define s1 where s1: "s1 = s0\<lparr>mimg := m, mlen := FSSIZE\<rparr>"
  define s2 where s2: "s2 = s1\<lparr>mimg := m(1 := put_superblock (\<lambda>_. 0) mk_superblock)\<rparr>"
  have w1: "wsect 1 (put_superblock (\<lambda>_. 0) mk_superblock) s1 = Ok () s2" using wsect_run [of s1 1] by (simp add: FSSIZE_def s1 s2)
  have "unat (of_nat nmeta :: uint) = nmeta" by (simp add: mk_consts)
  then have i0: "image_files s2 []"
    using m0 by (simp add: image_files_def image_blocks_def fresh_from_def mk_consts s0 s1 s2)
  have l4: "4 \<le> length root_files" by (simp add: root_files_def)
  have "image_fits root_files" using f l4 unfolding mkfs_files_def by (rule image_fits_foldl)
  then obtain s3 where d: "makedirs s2 = Ok (3, 4) s3" and i3: "image_files s3 root_files"
    using builds_makedirs i0 unfolding builds_def by blast
  obtain s4 where a: "forK args (mk_add fopen 3 4) s3 = Ok () s4" and i4: "image_files s4 (mkfs_files fopen args)"
    using builds_args [OF ok _ l4] f i3 unfolding builds_def mkfs_files_def by blast
  let ?f = "mfreeblock s4"
  have uf: "unat ?f < BPB" and s4: "mlen s4 = FSSIZE" "msb s4 = mk_superblock" using i4 used by (auto simp: image_files_def)
  have "sint ?f = int (unat ?f)" using uf by (intro sint_small) (simp add: fs_consts)
  moreover have "sb_bmapstart mk_superblock = 58" by (simp add: mk_superblock_def mk_consts)
  moreover have "int (unat ?f) < int (BSIZE * 8)" using uf by (simp only: of_nat_less_iff BPB_def)
  ultimately have b: "mk_balloc ?f s4 = Ok () (s4\<lparr>mimg := (mimg s4)(58 := used_bitmap (unat ?f))\<rparr>)"
    using s4 wsect_run [of s4 58 "used_bitmap (unat ?f)"] by (simp add: mk_balloc_def bindK_def getK_def FSSIZE_def)
  have "mkfs fopen args s = Ok () (s4\<lparr>mimg := (mimg s4)(58 := used_bitmap (unat ?f))\<rparr>)"
    unfolding mkfs_def by (simp add: thenK_def bindK_def modK_def getK_def z [folded s1] w1 d a b flip: s0)
  then show ?thesis using i4 unfolding final_image_def by blast
qed


text \<open>
  The kernel on that image: an inode as it lies on the disk, and the blocks of the other files.
\<close>

definition disk_inode :: "'a fsst_scheme \<Rightarrow> nat \<Rightarrow> dinode" where
  "disk_inode s i = get_dinode (bmem s (1, IBLOCK (of_nat i) (sb s))) (i mod IPB)"

definition other_blocks :: "'a fsst_scheme \<Rightarrow> nat \<Rightarrow> nat \<Rightarrow> uint set" where
  "other_blocks s n i = (\<Union>j \<in> {1..n} - {i}. file_blocks (mem1 s) (d_addrs (disk_inode s j)))"

lemma mkfs_files_length: "length (mkfs_files fopen args) = 4 + length args"
proof -
  have "length (foldl (add_file fopen) fs args) = length fs + length args" for fs by (induction args arbitrary: fs) simp_all
  then show ?thesis by (simp add: mkfs_files_def root_files_def)
qed

lemma add_file_old:
  assumes "4 \<le> j" and "j < length fs"
  shows "add_file fopen fs a ! j = fs ! j"
  using assms by (auto simp: add_file_def add_bytes_def nth_append mk_target_def split: prod.splits if_splits)

lemma add_file_new: "4 \<le> length fs \<Longrightarrow> add_file fopen fs a ! length fs = (T_FILE, concat (the (fopen a)))"
  by (auto simp: add_file_def add_bytes_def nth_append mk_target_def split: prod.splits)

lemma mkfs_files_nth:
  assumes "k < length args"
  shows "mkfs_files fopen args ! (4 + k) = (T_FILE, concat (the (fopen (args ! k))))"
  using assms
proof (induction args rule: rev_induct)
  case (snoc a args)
  have l: "length (mkfs_files fopen args) = 4 + length args" by (rule mkfs_files_length)
  have e: "mkfs_files fopen (args @ [a]) = add_file fopen (mkfs_files fopen args) a" by (simp add: mkfs_files_def)
  show ?case
  proof (cases "k < length args")
    case True
    then show ?thesis using snoc.IH l by (simp add: e add_file_old nth_append)
  next
    case False
    then have "k = length args" using snoc.prems by simp
    then show ?thesis using add_file_new [of "mkfs_files fopen args" fopen a] l by (simp add: e)
  qed
qed simp


definition booted :: "mkst \<Rightarrow> 'a fsst_scheme \<Rightarrow> bool" where
  "booted m s \<longleftrightarrow> (\<forall>b. unat b < FSSIZE \<longrightarrow> bmem s (1, b) = mimg m b) \<and> sb s = get_superblock (bmem s (1, 1))"

lemma BBLOCK_mk:
  assumes "unat b < FSSIZE"
  shows "unat (BBLOCK b mk_superblock) = 58 + unat b div BPB" and "unat (BBLOCK b mk_superblock) < nmeta"
proof -
  have d: "unat b div BPB < 5" using assms by (simp add: mk_consts less_mult_imp_div_less)
  show *: "unat (BBLOCK b mk_superblock) = 58 + unat b div BPB"
    using d by (simp add: BBLOCK_unat mk_superblock_def mk_consts unat_word_ariths unat_of_nat_small)
  show "unat (BBLOCK b mk_superblock) < nmeta" unfolding * using d by (simp add: mk_consts)
qed

lemma booted_facts:
  assumes R: "image_files m fs" and F: "final_image m m'" and B: "booted m' s" and used: "image_blocks fs < BPB"
  shows "sb s = mk_superblock" and "j < length fs \<Longrightarrow> disk_inode s (j + 1) = inode_of m j"
    and "nmeta \<le> unat b \<Longrightarrow> unat b < FSSIZE \<Longrightarrow> bmem s (1, b) = mimg m b"
    and "unat b < BPB \<Longrightarrow> blk_used s b \<longleftrightarrow> unat b < image_blocks fs"
proof -
  have m': "mimg m' = (mimg m)(58 := used_bitmap (image_blocks fs))" using F R by (simp add: final_image_def image_files_def)
  have mem: "bmem s (1, b) = mimg m' b" if "unat b < FSSIZE" for b using B that by (simp add: booted_def)
  show sb: "sb s = mk_superblock"
    using B mem [of 1] R by (simp add: booted_def m' image_files_def get_put_superblock FSSIZE_def)
  show "bmem s (1, b) = mimg m b" if "nmeta \<le> unat b" "unat b < FSSIZE"
    using mem [OF that(2)] that(1) by (auto simp: m' mk_consts)
  show "disk_inode s (j + 1) = inode_of m j" if "j < length fs"
  proof -
    have N: "j + 1 < NINODES" using R that by (simp add: image_files_def)
    let ?b = "IBLOCK (of_nat (j + 1)) mk_superblock"
    have "(j + 1) div IPB < 26" using N by (simp add: mk_consts less_mult_imp_div_less)
    then have "unat ?b < 58" using IBLOCK_range(1) [OF N] by simp
    then have "?b \<noteq> 58" "unat ?b < FSSIZE" by (auto simp: FSSIZE_def)
    then show ?thesis using mem [of ?b] R by (simp add: disk_inode_def sb m' inode_of_def image_files_def)
  qed
  show "blk_used s b \<longleftrightarrow> unat b < image_blocks fs" if "unat b < BPB"
  proof -
    have "unat b < FSSIZE" using that by (simp add: mk_consts)
    from BBLOCK_mk(1) [OF this] that have "unat (BBLOCK b mk_superblock) = unat (58 :: uint)" by simp
    then have "BBLOCK b mk_superblock = 58" by (rule word_unat_eq_iff [THEN iffD2])
    then show ?thesis using mem [of 58] that by (simp add: blk_used_def sb m' bit_used_bitmap FSSIZE_def)
  qed
qed

lemma booted_file:
  assumes R: "image_files m fs" and F: "final_image m m'" and B: "booted m' s" and used: "image_blocks fs < BPB" and j: "j < length fs"
  defines "A \<equiv> d_addrs (disk_inode s (j + 1))"
  shows "mk_file (mem1 s) A (image_blocks fs) (snd (fs ! j))"
    and "file_blocks (mem1 s) A = file_blocks (mimg m) (d_addrs (inode_of m j))"
proof -
  note bf = booted_facts [OF R F B used]
  have A: "A = d_addrs (inode_of m j)" using bf(2) [OF j] by (simp add: A_def)
  have fl: "mk_file (mimg m) A (image_blocks fs) (snd (fs ! j))" using R j unfolding image_files_def A by metis
  have "image_blocks fs < FSSIZE" using used by (simp add: mk_consts)
  then have "\<forall>b \<in> file_blocks (mimg m) A. mem1 s b = mimg m b" using bf(3) file_blocks_range [OF fl] by (meson less_trans)
  from mk_file_keep [OF fl this order_refl] show "mk_file (mem1 s) A (image_blocks fs) (snd (fs ! j))"
    "file_blocks (mem1 s) A = file_blocks (mimg m) (d_addrs (inode_of m j))" by (simp_all add: A)
qed

lemma booted_alloc:
  assumes R: "image_files m fs" and F: "final_image m m'" and B: "booted m' s" and used: "image_blocks fs < BPB"
  shows "bitmap_wf s" and "nmeta \<le> unat a \<Longrightarrow> unat a < image_blocks fs \<Longrightarrow> blk_alloc s a"
proof -
  note bf = booted_facts [OF R F B used]
  have size: "unat (sb_size (sb s)) = FSSIZE" by (simp add: bf(1) mk_superblock_def FSSIZE_def)
  have nm: "nmeta \<le> image_blocks fs" by (simp add: image_blocks_def)
  have bb: "unat (BBLOCK b (sb s)) < nmeta" if "unat b < FSSIZE" for b using BBLOCK_mk(2) [OF that] by (simp add: bf(1))
  have nz: "nmeta < FSSIZE" "nmeta < BPB" "0 < nmeta" by (simp_all add: mk_consts)
  have use: "blk_used s b" if "unat b < nmeta" for b using bf(4) [of b] that nz nm by simp
  show "bitmap_wf s" unfolding bitmap_wf_def bitmap_ok_def size
  proof (intro conjI allI impI)
    fix b :: uint assume "unat b < FSSIZE"
    note bb = bb [OF this]
    show "blk_used s (BBLOCK b (sb s))" by (rule use [OF bb])
    show "unat (BBLOCK b (sb s)) < FSSIZE" using bb nz by simp
  qed (use use [of 0] nz in simp_all)
  show "blk_alloc s a" if "nmeta \<le> unat a" "unat a < image_blocks fs"
  proof -
    have "BBLOCK b (sb s) \<noteq> a" if "unat b < FSSIZE" for b using bb [OF that] \<open>nmeta \<le> unat a\<close> by auto
    then show ?thesis using that bf(4) [of a] used unfolding blk_alloc_def size by (simp add: mk_consts)
  qed
qed

lemma booted_file_wf:
  assumes R: "image_files m fs" and F: "final_image m m'" and B: "booted m' s" and used: "image_blocks fs < BPB" and i: "i < length fs"
  shows "file_wf s (d_addrs (disk_inode s (i + 1))) (other_blocks s (length fs) (i + 1))"
proof -
  let ?A = "\<lambda>j. d_addrs (disk_inode s (j + 1))" and ?m = "mem1 s" and ?f = "image_blocks fs"
  note fl = booted_file [OF R F B used] and al = booted_alloc [OF R F B used]
  have t: "mk_tree ?m (?A i) ?f" using fl(1) [OF i] by (simp add: mk_file_def)
  have ob: "\<exists>j < length fs. j \<noteq> i \<and> b \<in> file_blocks ?m (?A j)" if bo: "b \<in> other_blocks s (length fs) (i + 1)" for b
  proof -
    obtain j where "j \<in> {1..length fs} - {i + 1}" "b \<in> file_blocks ?m (d_addrs (disk_inode s j))" using bo unfolding other_blocks_def by blast
    then show ?thesis by (intro exI [of _ "j - 1"]) auto
  qed
  have disj: "b \<notin> file_blocks ?m (?A j)" if "b \<in> file_blocks ?m (?A i)" "j < length fs" "j \<noteq> i" for b j
  proof -
    have "file_blocks (mimg m) (d_addrs (inode_of m i)) \<inter> file_blocks (mimg m) (d_addrs (inode_of m j)) = {}"
      using R i that(2,3) by (simp add: image_files_def)
    then show ?thesis using fl(2) [OF i] fl(2) [OF that(2)] that(1) by blast
  qed
  have al2: "blk_alloc s b" if "b \<in> file_blocks ?m (?A j)" "j < length fs" for b j
    using al(2) file_blocks_range [OF fl(1) [OF that(2)] that(1)] by simp
  have "blk_alloc s (slot_addr ?m (?A i) x) \<and> slot_addr ?m (?A i) x \<notin> other_blocks s (length fs) (i + 1)"
    if "slot_ok x" "slot_addr ?m (?A i) x \<noteq> 0" for x
  proof -
    have "slot_addr ?m (?A i) x \<in> file_blocks ?m (?A i)" using that unfolding file_blocks_def by blast
    then show ?thesis using al2 [OF _ i] ob disj by blast
  qed
  moreover have "\<forall>b \<in> other_blocks s (length fs) (i + 1). blk_alloc s b" using ob al2 by blast
  ultimately show ?thesis using al(1) t unfolding file_wf_def mk_tree_def by blast
qed

lemma booted_bytes:
  assumes R: "image_files m fs" and F: "final_image m m'" and B: "booted m' s" and used: "image_blocks fs < BPB" and i: "i < length fs"
    and p: "p < length (snd (fs ! i))"
  shows "fbyte s (d_addrs (disk_inode s (i + 1))) p = snd (fs ! i) ! p"
proof -
  note fl = booted_file(1) [OF R F B used i]
  show ?thesis using fl p mk_file_slot(2) [OF fl p] by (simp add: fbyte_def mk_file_def Let_def)
qed

text \<open>
  (C9) Total correctness of \<^verbatim>\<open>mkfs\<close>. If the arguments name files that can be opened, with no slash left in their
  short names, and the files fit (fewer than \<^verbatim>\<open>NINODES\<close> files, each within the direct and indirect blocks, all
  within one bitmap block), then \<^verbatim>\<open>mkfs\<close> returns, whatever state it starts in; inode \<open>5 + k\<close> is the file of
  argument \<open>k\<close>; and in every kernel state that sees the resulting image as its disk each inode has the type, the link count,
  the size and the bytes of its file, and is a well-formed file for the kernel: all its blocks are allocated in the bitmap,
  pairwise distinct and distinct from the blocks of all other files.
\<close>

theorem mkfs_correct:
  fixes s :: mkst
  assumes "args_ok fopen args" and "fs = mkfs_files fopen args" and "image_fits fs" and "image_blocks fs < BPB"
  shows "\<exists>s'. mkfs fopen args s = Ok () s' \<and>
    (\<forall>k < length args. fs ! (4 + k) = (T_FILE, concat (the (fopen (args ! k))))) \<and>
    (\<forall>t :: fsst. booted s' t \<longrightarrow> (\<forall>i < length fs. let d = disk_inode t (i + 1); c = snd (fs ! i) in
       d_type d = fst (fs ! i) \<and> d_nlink d = 1 \<and> unat (d_size d) = length c \<and>
       file_wf t (d_addrs d) (other_blocks t (length fs) (i + 1)) \<and> (\<forall>p < length c. fbyte t (d_addrs d) p = c ! p)))"
proof -
  obtain m s' where r: "mkfs fopen args s = Ok () s'" and R: "image_files m fs" and F: "final_image m s'"
    using mkfs_runs assms by metis
  have "let d = disk_inode t (i + 1); c = snd (fs ! i) in
       d_type d = fst (fs ! i) \<and> d_nlink d = 1 \<and> unat (d_size d) = length c \<and>
       file_wf t (d_addrs d) (other_blocks t (length fs) (i + 1)) \<and> (\<forall>p < length c. fbyte t (d_addrs d) p = c ! p)"
    if B: "booted s' t" and i: "i < length fs" for t :: fsst and i
  proof -
    have "length (snd (fs ! i)) \<le> (NDIRECT + NINDIRECT) * BSIZE" using assms(3) i by (simp add: image_fits_def)
    then have "unat (of_nat (length (snd (fs ! i))) :: uint) = length (snd (fs ! i))" by (simp add: fs_consts unat_of_nat_small)
    then show ?thesis
      using R i booted_facts(2) [OF R F B assms(4) i] booted_file_wf [OF R F B assms(4) i] booted_bytes [OF R F B assms(4) i]
      by (simp add: Let_def image_files_def)
  qed
  then show ?thesis using r mkfs_files_nth assms(2) by blast
qed


definition mk_start :: mkst where
  "mk_start = \<lparr>mimg = (\<lambda>_ _. 0), mlen = 0, msb = mk_superblock, mfreeinode = 1, mfreeblock = 0\<rparr>"

definition mk_argv :: "uchar list list" where
  "mk_argv = [ascii ''README'', ascii ''user/_cat'']"

definition mk_host :: "uchar list \<Rightarrow> uchar list list option" where
  "mk_host path = (if path = ascii ''README'' then Some [ascii ''hello''] else if path = ascii ''user/_cat'' then Some [[1, 2, 3], [4]] else None)"

definition boot_state :: "mkst \<Rightarrow> fsst" where
  "boot_state m = fs_one\<lparr>bmem := (\<lambda>(dev, b). mimg m b), sb := get_superblock (mimg m 1)\<rparr>"

lemma length_mk_dirent: "length (mk_dirent i nm) = 16"
  by (simp add: mk_dirent_def put_dirent_def strncpy_def DIRSIZ_def)

lemma mk_argv_names: "args_ok mk_host mk_argv" "length mk_argv = 2" "concat (the (mk_host (mk_argv ! 1))) = [1, 2, 3, 4]"
  "map (\<lambda>a. (fst (mk_target 3 4 (mk_shortname a)), length (concat (the (mk_host a))))) mk_argv = [(4, 5), (3, 4)]"
  by code_simp+

lemma root_files_sizes: "map (length \<circ> snd) root_files = [80, 32, 32, 32]"
  by (simp add: root_files_def add_dir_def add_bytes_def length_mk_dirent nth_append)

lemma add_file_sizes:
  assumes "4 \<le> length fs"
  shows "map (length \<circ> snd) (add_file fopen fs a) =
    (let n = map (length \<circ> snd) fs; d = unat (fst (mk_target 3 4 (mk_shortname a))) - 1 in n[d := n ! d + 16] @ [length (concat (the (fopen a)))])"
  using assms
  by (auto simp: add_file_def add_bytes_def length_mk_dirent nth_append map_update Let_def mk_target_def list_update_append split: prod.splits)

lemma mk_argv_sizes: "map (length \<circ> snd) (mkfs_files mk_host mk_argv) = [80, 32, 48, 48, 5, 4]"
proof -
  obtain a b where ab: "mk_argv = [a, b]" by (simp add: mk_argv_def)
  have "length root_files = 4" by (simp add: root_files_def)
  then show ?thesis using mk_argv_names(4) unfolding ab
    by (simp add: mkfs_files_def ab add_file_sizes Let_def root_files_sizes)
qed

lemma mk_argv_fits: "image_fits (mkfs_files mk_host mk_argv)" "image_blocks (mkfs_files mk_host mk_argv) < BPB"
proof -
  let ?fs = "mkfs_files mk_host mk_argv"
  have b: "image_blocks ?fs = nmeta + sum_list (map need (map (length \<circ> snd) ?fs))" by (simp add: image_blocks_def comp_def)
  show "image_blocks ?fs < BPB" unfolding b mk_argv_sizes by (simp add: need_def blocks_of_def mk_consts)
  have "\<forall>n \<in> set (map (length \<circ> snd) ?fs). n \<le> (NDIRECT + NINDIRECT) * BSIZE" unfolding mk_argv_sizes by (simp add: fs_consts)
  moreover have "image_blocks ?fs \<le> FSSIZE" unfolding b mk_argv_sizes by (simp add: need_def blocks_of_def mk_consts)
  moreover have "length ?fs < NINODES" by (simp add: mkfs_files_length mk_argv_names(2) NINODES_def)
  ultimately show "image_fits ?fs" by (simp add: image_fits_def)
qed

theorem mkfs_correct_witness:
  "\<exists>s'. mkfs mk_host mk_argv mk_start = Ok () s' \<and>
     (let t = boot_state s'; d = disk_inode t 6 in
      d_type d = T_FILE \<and> unat (d_size d) = 4 \<and> file_wf t (d_addrs d) (other_blocks t 6 6) \<and> fbyte t (d_addrs d) 3 = 4)"
proof -
  define fs where fs: "fs = mkfs_files mk_host mk_argv"
  have l: "length fs = 6" by (simp add: fs mkfs_files_length mk_argv_names(2))
  from mkfs_correct [OF mk_argv_names(1) fs mk_argv_fits [folded fs], of mk_start]
  obtain s' where r: "mkfs mk_host mk_argv mk_start = Ok () s'"
    and n: "\<And>k. k < length mk_argv \<Longrightarrow> fs ! (4 + k) = (T_FILE, concat (the (mk_host (mk_argv ! k))))"
    and k: "\<And>(t :: fsst) i. booted s' t \<Longrightarrow> i < length fs \<Longrightarrow> let d = disk_inode t (i + 1); c = snd (fs ! i) in
       d_type d = fst (fs ! i) \<and> d_nlink d = 1 \<and> unat (d_size d) = length c \<and>
       file_wf t (d_addrs d) (other_blocks t (length fs) (i + 1)) \<and> (\<forall>p < length c. fbyte t (d_addrs d) p = c ! p)" by blast
  have "booted s' (boot_state s')" by (simp add: booted_def boot_state_def)
  from k [OF this, of 5] n [of 1] l show ?thesis using r mk_argv_names(2,3) by (auto simp: Let_def)
qed

end
