(* ===== verification/Umalloc.thy ===== *)
theory Umalloc
  imports Spinlock
begin

text \<open>
  The memory allocator of user programs, \<^verbatim>\<open>user/umalloc.c\<close>. Free blocks form a circular list in the order of their
  addresses, linked through the headers at their starts; the static header \<^verbatim>\<open>base\<close> is its lowest member. The lemmas
  show that \<^verbatim>\<open>free\<close> finds the place of a block in the list and merges it with its neighbours, that \<^verbatim>\<open>malloc\<close>
  always ends, and that blocks in use never overlap each other or the free list.

  The memory is seen as headers: the two fields of the header at an address. A header is 8 bytes long, so a header
  pointer moves by 8 times the units added. The address of \<^verbatim>\<open>base\<close> is a parameter, since the linker chooses it.
\<close>

record heap =
  hptr :: "uint \<Rightarrow> uint"
  hsize :: "uint \<Rightarrow> uint"
  freep :: uint
  brk :: uint

definition set_ptr :: "uint \<Rightarrow> uint \<Rightarrow> heap \<Rightarrow> heap" where
  "set_ptr a v h = h\<lparr>hptr := (hptr h)(a := v)\<rparr>"

definition set_size :: "uint \<Rightarrow> uint \<Rightarrow> heap \<Rightarrow> heap" where
  "set_size a v h = h\<lparr>hsize := (hsize h)(a := v)\<rparr>"

lemmas heap_upd = set_ptr_def set_size_def

section \<open>free\<close>

text \<open>The loop that looks for the place of the block: it runs on until one of the two conditions holds.\<close>

partial_function (option) free_find :: "heap \<Rightarrow> uint \<Rightarrow> uint \<Rightarrow> uint option" where
  "free_find h bp p =
     (if bp > p \<and> bp < hptr h p then Some p
      else if p \<ge> hptr h p \<and> (bp > p \<or> bp < hptr h p) then Some p
      else free_find h bp (hptr h p))"

definition free_upper :: "uint \<Rightarrow> uint \<Rightarrow> heap \<Rightarrow> heap" where
  "free_upper bp p h =
     (if bp + 8 * hsize h bp = hptr h p then
        let h = set_size bp (hsize h bp + hsize h (hptr h p)) h in
        set_ptr bp (hptr h (hptr h p)) h
      else set_ptr bp (hptr h p) h)"

definition free_lower :: "uint \<Rightarrow> uint \<Rightarrow> heap \<Rightarrow> heap" where
  "free_lower bp p h =
     (if p + 8 * hsize h p = bp then
        let h = set_size p (hsize h p + hsize h bp) h in
        set_ptr p (hptr h bp) h
      else set_ptr p bp h)"

definition free :: "uint \<Rightarrow> heap \<Rightarrow> heap option" where
  "free ap h =
     (let bp = ap - 8 in
      case free_find h bp (freep h) of
        None \<Rightarrow> None
      | Some p \<Rightarrow> Some ((free_lower bp p (free_upper bp p h))\<lparr>freep := p\<rparr>))"

section \<open>malloc\<close>

text \<open>
  What the system call \<^verbatim>\<open>sbrk\<close> does with the size of the process: \<^verbatim>\<open>growproc\<close> with \<^verbatim>\<open>allocuvm\<close> and
  \<^verbatim>\<open>deallocuvm\<close>. The parameter \<open>grow\<close> says when there are pages enough to grow from a size to another.
\<close>

definition sbrk :: "(uint \<Rightarrow> uint \<Rightarrow> bool) \<Rightarrow> int \<Rightarrow> heap \<Rightarrow> uint \<times> heap" where
  "sbrk grow n h =
     (let sz = brk h; newsz = sz + word_of_int n;
          r = (if n > 0 then (if newsz \<ge> KERNBASE then 0 else if newsz < sz then sz else if grow sz newsz then newsz else 0)
               else if n < 0 then (if newsz \<ge> sz then sz else newsz)
               else sz) in
      if n \<noteq> 0 \<and> r = 0 then (-1, h) else (sz, h\<lparr>brk := r\<rparr>))"

definition morecore :: "(uint \<Rightarrow> uint \<Rightarrow> bool) \<Rightarrow> uint \<Rightarrow> heap \<Rightarrow> (uint \<times> heap) option" where
  "morecore grow nu h =
     (let nu = if nu < 4096 then 4096 else nu;
          (p, h) = sbrk grow (sint (nu * 8)) h in
      if p = -1 then Some (0, h)
      else map_option (\<lambda>h. (freep h, h)) (free (p + 8) (set_size p nu h)))"

definition malloc_take :: "uint \<Rightarrow> uint \<Rightarrow> uint \<Rightarrow> heap \<Rightarrow> uint \<times> heap" where
  "malloc_take nunits prevp p h =
     (if hsize h p = nunits then (p + 8, (set_ptr prevp (hptr h p) h)\<lparr>freep := prevp\<rparr>)
      else
        let h = set_size p (hsize h p - nunits) h;
            p = p + 8 * hsize h p;
            h = set_size p nunits h in
        (p + 8, h\<lparr>freep := prevp\<rparr>))"

partial_function (option) malloc_loop :: "(uint \<Rightarrow> uint \<Rightarrow> bool) \<Rightarrow> uint \<Rightarrow> uint \<Rightarrow> uint \<Rightarrow> heap \<Rightarrow> (uint \<times> heap) option" where
  "malloc_loop grow nunits prevp p h =
     (if hsize h p \<ge> nunits then Some (malloc_take nunits prevp p h)
      else if p = freep h then
        (case morecore grow nunits h of
           None \<Rightarrow> None
         | Some (q, h') \<Rightarrow>
             if q = 0 then Some (0, h') else malloc_loop grow nunits q (hptr h' q) h')
      else malloc_loop grow nunits p (hptr h p) h)"

definition malloc_units :: "uint \<Rightarrow> uint" where
  "malloc_units nbytes = (nbytes + 8 - 1) div 8 + 1"

definition malloc_start :: "uint \<Rightarrow> heap \<Rightarrow> heap" where
  "malloc_start base h =
     (if freep h = 0 then set_size base 0 ((set_ptr base base h)\<lparr>freep := base\<rparr>) else h)"

definition malloc :: "(uint \<Rightarrow> uint \<Rightarrow> bool) \<Rightarrow> uint \<Rightarrow> uint \<Rightarrow> heap \<Rightarrow> (uint \<times> heap) option" where
  "malloc grow base nbytes h =
     (let nunits = malloc_units nbytes; h = malloc_start base h in
      malloc_loop grow nunits (freep h) (hptr h (freep h)) h)"

section \<open>The free list\<close>

type_synonym mblock = "uint \<times> uint"

definition bend :: "mblock \<Rightarrow> nat" where
  "bend b = unat (fst b) + 8 * unat (snd b)"

definition cells :: "mblock \<Rightarrow> nat set" where
  "cells b = {unat (fst b)..<bend b}"

definition start :: "mblock list \<Rightarrow> uint \<Rightarrow> uint" where
  "start bs e = (case bs of [] \<Rightarrow> e | b # _ \<Rightarrow> fst b)"

fun linked :: "heap \<Rightarrow> mblock list \<Rightarrow> uint \<Rightarrow> bool" where
  "linked h [] e = True"
| "linked h (b # bs) e \<longleftrightarrow> hsize h (fst b) = snd b \<and> hptr h (fst b) = start bs e \<and> linked h bs e"

text \<open>Blocks in the order of their addresses, with a gap between neighbours (adjacent blocks are merged).\<close>

definition spaced :: "mblock list \<Rightarrow> bool" where
  "spaced bs = sorted_wrt (\<lambda>x y. bend x < unat (fst y)) bs"

definition in_heap :: "uint \<Rightarrow> heap \<Rightarrow> mblock \<Rightarrow> bool" where
  "in_heap base h b \<longleftrightarrow> 0 < snd b \<and> unat base + 8 \<le> unat (fst b) \<and> bend b \<le> unat (brk h)"

definition free_list :: "uint \<Rightarrow> heap \<Rightarrow> mblock list \<Rightarrow> bool" where
  "free_list base h bs \<longleftrightarrow>
     linked h ((base, 0) # bs) base \<and> spaced ((base, 0) # bs) \<and> freep h \<in> fst ` set ((base, 0) # bs) \<and>
     (\<forall>b \<in> set bs. in_heap base h b) \<and> brk h < KERNBASE \<and> base \<noteq> 0 \<and> unat base + 8 \<le> unat (brk h)"

lemma start_simps [simp]: "start [] e = e" "start (b # bs) e = fst b"
  by (simp_all add: start_def)

lemma start_append: "start (xs @ ys) e = start xs (start ys e)"
  by (cases xs) simp_all

lemma linked_append: "linked h (xs @ ys) e \<longleftrightarrow> linked h xs (start ys e) \<and> linked h ys e"
  by (induction xs) (auto simp: start_append)

lemma linked_rotate:
  assumes "linked h (xs @ ys) (start (xs @ ys) e)"
  shows "linked h (ys @ xs) (start (ys @ xs) e)"
  using assms by (cases xs; cases ys) (simp_all add: linked_append start_append)

lemma linked_cong:
  assumes "\<And>b. b \<in> set bs \<Longrightarrow> hsize h' (fst b) = hsize h (fst b) \<and> hptr h' (fst b) = hptr h (fst b)"
  shows "linked h' bs e = linked h bs e"
  using assms by (induction bs) auto

lemma linked_mem: "linked h bs e \<Longrightarrow> b \<in> set bs \<Longrightarrow> hsize h (fst b) = snd b"
  by (induction bs) auto

lemma linked_next_mem: "linked h bs e \<Longrightarrow> b \<in> set bs \<Longrightarrow> hptr h (fst b) = e \<or> hptr h (fst b) \<in> fst ` set bs"
proof (induction bs)
  case (Cons c bs)
  then show ?case by (cases bs) auto
qed simp

lemma spaced_append:
  "spaced (xs @ ys) \<longleftrightarrow> spaced xs \<and> spaced ys \<and> (\<forall>x \<in> set xs. \<forall>y \<in> set ys. bend x < unat (fst y))"
  by (simp add: spaced_def sorted_wrt_append)

lemma spaced_simps [simp]:
  "spaced []" "spaced (b # bs) \<longleftrightarrow> (\<forall>y \<in> set bs. bend b < unat (fst y)) \<and> spaced bs"
  by (simp_all add: spaced_def)

lemma bend_ge: "unat (fst b) \<le> bend b"
  by (simp add: bend_def)

lemma spaced_less:
  assumes "spaced (xs @ ys)" and "x \<in> set xs" and "y \<in> set ys"
  shows "fst x < fst y"
  using assms bend_ge [of x] by (force simp: spaced_append word_less_nat_alt)

lemma spaced_distinct: "spaced bs \<Longrightarrow> distinct (map fst bs)"
proof (induction bs)
  case (Cons b bs)
  then have "\<forall>y \<in> set bs. unat (fst b) < unat (fst y)" using bend_ge [of b] by fastforce
  then show ?case using Cons by auto
qed simp

lemma spaced_next:
  assumes "linked h bs e" and "spaced bs" and "b \<in> set bs"
  shows "hptr h (fst b) = e \<or> (hptr h (fst b) \<in> fst ` set bs \<and> fst b < hptr h (fst b))"
  using assms
proof (induction bs)
  case (Cons c bs)
  show ?case
  proof (cases "b = c")
    case True
    then show ?thesis using Cons.prems spaced_less [of "[c]" bs c] by (cases bs) auto
  qed (use Cons in auto)
qed simp

subsection \<open>Finding the place of a block\<close>

definition place :: "heap \<Rightarrow> uint \<Rightarrow> uint \<Rightarrow> bool" where
  "place h bp p \<longleftrightarrow> bp > p \<and> bp < hptr h p \<or> p \<ge> hptr h p \<and> (bp > p \<or> bp < hptr h p)"

lemma free_find_place: "free_find h bp p = (if place h bp p then Some p else free_find h bp (hptr h p))"
  by (subst free_find.simps) (auto simp: place_def)

lemma free_find_walk:
  assumes "linked h zs (fst t)" and "\<forall>z \<in> set zs. \<not> place h bp (fst z)" and "place h bp (fst t)"
  shows "free_find h bp (start zs (fst t)) = Some (fst t)"
  using assms
proof (induction zs)
  case Nil
  then show ?case by (simp add: free_find_place [of h bp "fst t"])
next
  case (Cons z zs)
  then show ?case by (simp add: free_find_place [of h bp "fst z"])
qed

lemma free_find_circle:
  assumes lk: "linked h as (start as e)" and t: "t \<in> set as" "place h bp (fst t)" and p: "p \<in> fst ` set as"
    and others: "\<And>z. z \<in> set as \<Longrightarrow> z \<noteq> t \<Longrightarrow> \<not> place h bp (fst z)"
  shows "free_find h bp p = Some (fst t)"
proof -
  obtain f where f: "f \<in> set as" "p = fst f" using p by auto
  obtain us ws where as: "as = us @ f # ws" using f(1) by (meson split_list)
  let ?rot = "(f # ws) @ us"
  have lr: "linked h ?rot (start ?rot e)" using lk unfolding as by (rule linked_rotate)
  obtain zs vs where r: "?rot = zs @ t # vs" "t \<notin> set zs"
    using t(1) split_list_first [of t ?rot] unfolding as by auto
  have "linked h zs (fst t)" using lr unfolding r(1) by (simp add: linked_append)
  moreover have "set zs \<subseteq> set as" using arg_cong [OF r(1), of set] unfolding as by auto
  then have "\<forall>z \<in> set zs. \<not> place h bp (fst z)" using others r(2) by blast
  moreover have "start zs (fst t) = p" using arg_cong [OF r(1), of "\<lambda>l. start l e"] f(2) by (simp add: start_append)
  ultimately show ?thesis using free_find_walk [of h zs t bp] t(2) by simp
qed

lemma place_unique:
  assumes lk: "linked h (xs @ t # ys) base" and sp: "spaced (xs @ t # ys)" and hd: "start (xs @ t # ys) 0 = base"
    and lo: "\<forall>x \<in> set (xs @ [t]). fst x < bp" and hi: "\<forall>y \<in> set ys. bp < fst y"
  shows "place h bp (fst t)" and "z \<in> set (xs @ t # ys) \<Longrightarrow> z \<noteq> t \<Longrightarrow> \<not> place h bp (fst z)"
proof -
  have base: "base \<le> fst t" "base < bp"
    using hd lo sp spaced_less [of xs "t # ys" "hd xs" t] by (cases xs; auto simp: less_imp_le)+
  have t: "hptr h (fst t) = start ys base" using lk by (simp add: linked_append)
  show "place h bp (fst t)" using lo hi base t by (cases ys) (auto simp: place_def)
  assume z: "z \<in> set (xs @ t # ys)" "z \<noteq> t"
  show "\<not> place h bp (fst z)"
  proof (cases "z \<in> set xs")
    case True
    have "hptr h (fst z) = fst t \<or> (hptr h (fst z) \<in> fst ` set xs \<and> fst z < hptr h (fst z))"
      using spaced_next [of h xs "fst t" z] lk sp True by (simp add: linked_append spaced_append)
    moreover have "fst z < fst t" using sp True spaced_less [of xs "t # ys" z t] by simp
    moreover have "fst z < bp" "fst t < bp" using lo True by auto
    ultimately show ?thesis using lo by (auto simp: place_def)
  next
    case False
    then have zy: "z \<in> set ys" using z by simp
    have "hptr h (fst z) = base \<or> fst z < hptr h (fst z)"
      using spaced_next [of h ys base z] lk sp zy by (auto simp: linked_append spaced_append)
    moreover have "bp < fst z" using hi zy by simp
    ultimately show ?thesis using base by (auto simp: place_def)
  qed
qed

lemma split_at:
  assumes "spaced as" and "bp \<notin> fst ` set as" and "as \<noteq> []" and "fst (hd as) < (bp :: uint)"
  obtains xs t ys where "as = xs @ t # ys" and "\<forall>x \<in> set (xs @ [t]). fst x < bp" and "\<forall>y \<in> set ys. bp < fst y"
proof -
  let ?P = "\<lambda>b. fst b < bp"
  let ?w = "takeWhile ?P as" and ?d = "dropWhile ?P as"
  have ne: "?w \<noteq> []" using assms(3,4) by (cases as) auto
  have lo: "\<forall>x \<in> set ?w. fst x < bp" by (auto dest: set_takeWhileD)
  have hi: "bp < fst y" if y: "y \<in> set ?d" for y
  proof -
    obtain d ds where d: "?d = d # ds" using y by (cases ?d) auto
    have as: "as = (?w @ [d]) @ ds" using d takeWhile_dropWhile_id [of ?P as] by simp
    have "d \<in> set as" by (subst as) simp
    then have "bp < fst d"
      using hd_dropWhile [of ?P as] d assms(2) by (metis antisym_conv3 imageI list.discI list.sel(1))
    moreover have "spaced ((?w @ [d]) @ ds)" using assms(1) as by simp
    then have "y \<in> set ds \<Longrightarrow> fst d < fst y" using spaced_less [of "?w @ [d]" ds d y] by simp
    ultimately show ?thesis using y d by auto
  qed
  have w: "butlast ?w @ [last ?w] = ?w" using ne by simp
  have as: "as = butlast ?w @ last ?w # ?d" using w takeWhile_dropWhile_id [of ?P as] by (metis append.assoc append_Cons append_Nil)
  have lo': "\<forall>x \<in> set (butlast ?w @ [last ?w]). fst x < bp" using lo unfolding w .
  show thesis by (rule that [OF as lo']) (use hi in blast)
qed


subsection \<open>Merging blocks\<close>

definition join :: "mblock \<Rightarrow> mblock list \<Rightarrow> mblock list" where
  "join b ys = (case ys of
     [] \<Rightarrow> [b]
   | y # ys' \<Rightarrow> if bend b = unat (fst y) then (fst b, snd b + snd y) # ys' else b # ys)"

definition cells_of :: "mblock list \<Rightarrow> nat set" where
  "cells_of bs = (\<Union>b \<in> set bs. cells b)"

definition small :: "mblock \<Rightarrow> bool" where
  "small b \<longleftrightarrow> bend b < 0x80000000"

lemma small_bend:
  assumes "small b"
  shows "unat (fst b + 8 * snd b) = bend b"
proof -
  have "unat (8 * snd b) = 8 * unat (snd b)" using assms by (subst unat_mult_lem [THEN iffD1]) (simp_all add: small_def bend_def)
  then show ?thesis using assms by (subst unat_add_noovf) (simp_all add: small_def bend_def)
qed

lemma bend_merge:
  assumes "small b" and "small y" and "bend b = unat (fst y)"
  shows "bend (fst b, snd b + snd y) = bend y"
proof -
  have "unat (snd b + snd y) = unat (snd b) + unat (snd y)"
    using assms(1,2) by (subst unat_add_noovf) (simp_all add: small_def bend_def)
  then show ?thesis using assms(3) by (simp add: bend_def)
qed

lemma cells_merge:
  assumes "small b" and "small y" and "bend b = unat (fst y)"
  shows "cells (fst b, snd b + snd y) = cells b \<union> cells y"
  using bend_merge [OF assms] assms(3) bend_ge [of b] bend_ge [of y] by (auto simp: cells_def)

lemma start_join [simp]: "start (join b ys) e = fst b"
  by (simp add: join_def split: list.split)

lemma join_mem:
  assumes "z \<in> set (join b ys)"
  shows "fst z = fst b \<or> z \<in> set ys"
  using assms by (cases ys) (auto simp: join_def split: if_splits)

lemma cells_of_join:
  assumes "\<forall>x \<in> set (b # ys). small x"
  shows "cells_of (join b ys) = cells b \<union> cells_of ys"
  using assms by (cases ys) (auto simp: join_def cells_of_def cells_merge)

lemma spaced_join:
  assumes sm: "\<forall>x \<in> set (b # ys). small x" and le: "\<forall>y \<in> set ys. bend b \<le> unat (fst y)" and sp: "spaced ys"
  shows "spaced (join b ys)"
proof (cases ys)
  case (Cons y ys')
  have "bend b < unat (fst z)" if "z \<in> set ys'" for z
    using sp le that bend_ge [of y] unfolding Cons by fastforce
  then show ?thesis using assms unfolding Cons by (auto simp: join_def bend_merge)
qed (simp add: join_def)

lemma join_in_heap:
  assumes "in_heap base h b" and "\<forall>y \<in> set ys. in_heap base h y" and "\<forall>x \<in> set (b # ys). small x"
  shows "\<forall>z \<in> set (join b ys). in_heap base h z"
proof (cases ys)
  case (Cons y ys')
  have "in_heap base h (fst b, snd b + snd y)" if "bend b = unat (fst y)"
  proof -
    have m: "bend (fst b, snd b + snd y) = bend y" using assms(3) that unfolding Cons by (simp add: bend_merge)
    then have "0 < snd b + snd y" using assms(1,2) that unfolding Cons by (auto simp: in_heap_def bend_def word_less_nat_alt)
    then show ?thesis using m assms(1,2) unfolding Cons by (simp add: in_heap_def)
  qed
  then show ?thesis using assms unfolding Cons by (simp add: join_def)
qed (use assms in \<open>simp add: join_def\<close>)

lemma join_small:
  assumes "\<forall>x \<in> set (b # ys). small x"
  shows "\<forall>z \<in> set (join b ys). small z"
  using assms bend_merge [of b] by (cases ys) (auto simp: join_def small_def)

text \<open>One step of merging: the block or the block with its neighbour becomes the front of the list.\<close>

lemma linked_free_upper:
  assumes lk: "linked h ys base" and p: "hptr h p = start ys base" and b: "hsize h (fst b) = snd b" "small b" "unat base < bend b"
    and ne: "fst b \<notin> fst ` set ys" and sm: "\<forall>y \<in> set ys. small y"
  shows "linked (free_upper (fst b) p h) (join b ys) base"
proof -
  have eq: "fst b + 8 * hsize h (fst b) = hptr h p \<longleftrightarrow> ys \<noteq> [] \<and> bend b = unat (start ys base)"
    using small_bend [of b] b unfolding p b(1) word_unat_eq_iff by (cases ys) auto
  let ?h = "free_upper (fst b) p h"
  have same: "hsize ?h a = hsize h a \<and> hptr ?h a = hptr h a" if "a \<noteq> fst b" for a
    using that by (simp add: free_upper_def heap_upd Let_def)
  have keep: "linked ?h zs e = linked h zs e" if "set zs \<subseteq> set ys" for zs e
    by (rule linked_cong, rule same) (use ne that in \<open>auto intro: rev_image_eqI\<close>)
  show ?thesis
  proof (cases "ys \<noteq> [] \<and> bend b = unat (start ys base)")
    case True
    then obtain y ys' where ys: "ys = y # ys'" by (cases ys) auto
    have "fst y \<noteq> fst b" using ne ys by auto
    then show ?thesis
      using True lk keep [of ys'] eq p b unfolding ys by (auto simp: join_def free_upper_def heap_upd Let_def)
  next
    case False
    then show ?thesis
      using lk keep [of ys] eq p b by (cases ys) (auto simp: join_def free_upper_def heap_upd Let_def)
  qed
qed

lemma linked_free_lower:
  assumes lk: "linked h zs base" and z: "start zs base = bp" "zs \<noteq> []" and t: "hsize h (fst t) = snd t" "small t"
    and ne: "fst t \<notin> fst ` set zs"
  shows "linked (free_lower bp (fst t) h) (join t zs) base"
proof -
  obtain y ys where zs: "zs = y # ys" "fst y = bp" using z by (cases zs) auto
  have eq: "fst t + 8 * hsize h (fst t) = bp \<longleftrightarrow> bend t = unat (fst y)"
    using small_bend [of t] t zs(2) unfolding t(1) word_unat_eq_iff by auto
  let ?h = "free_lower bp (fst t) h"
  have same: "hsize ?h a = hsize h a \<and> hptr ?h a = hptr h a" if "a \<noteq> fst t" for a
    using that by (simp add: free_lower_def heap_upd Let_def)
  have keep: "linked ?h ws e = linked h ws e" if "set ws \<subseteq> set zs" for ws e
    by (rule linked_cong, rule same) (use ne that in \<open>auto intro: rev_image_eqI\<close>)
  have yt: "fst y \<noteq> fst t" using ne zs by auto
  have l: "hsize h bp = snd y" "hptr h bp = start ys base" "linked h ys base" using lk zs by auto
  show ?thesis
  proof (cases "bend t = unat (fst y)")
    case True
    then show ?thesis using l keep [of ys] eq t zs(2) yt unfolding zs(1)
      by (auto simp: join_def free_lower_def heap_upd Let_def)
  next
    case False
    then show ?thesis using lk keep [of zs] eq t zs(2) yt unfolding zs(1)
      by (auto simp: join_def free_lower_def heap_upd Let_def)
  qed
qed

lemma free_fields:
  assumes "a \<noteq> bp" and "a \<noteq> p"
  shows "hsize (free_lower bp p (free_upper bp p h)) a = hsize h a \<and> hptr (free_lower bp p (free_upper bp p h)) a = hptr h a"
  using assms by (simp add: free_lower_def free_upper_def heap_upd Let_def)

lemma free_upper_other: "a \<noteq> bp \<Longrightarrow> hsize (free_upper bp p h) a = hsize h a \<and> hptr (free_upper bp p h) a = hptr h a"
  by (simp add: free_upper_def heap_upd Let_def)

lemma free_brk: "brk (free_lower bp p (free_upper bp p h)) = brk h"
  by (simp add: free_lower_def free_upper_def heap_upd Let_def)

lemma disjoint_cells:
  assumes "cells x \<inter> cells y = {}" and "0 < snd x" and "0 < snd y"
  shows "bend x \<le> unat (fst y) \<or> bend y \<le> unat (fst x)"
proof (rule ccontr)
  assume c: "\<not> ?thesis"
  have "unat (fst x) < bend x" "unat (fst y) < bend y" using assms(2,3) by (auto simp: bend_def word_less_nat_alt)
  then have "max (unat (fst x)) (unat (fst y)) \<in> cells x \<inter> cells y" using c by (auto simp: cells_def)
  then show False using assms(1) by simp
qed

lemma free_list_small:
  assumes "free_list base h bs" and "x \<in> set ((base, 0) # bs)"
  shows "small x"
proof -
  have "bend x \<le> unat (brk h)" using assms by (auto simp: free_list_def in_heap_def bend_def)
  then show ?thesis using assms(1) by (simp add: free_list_def small_def word_less_nat_alt KERNBASE_def)
qed

lemma in_heap_small: "in_heap base h b \<Longrightarrow> brk h < KERNBASE \<Longrightarrow> small b"
  by (simp add: small_def in_heap_def word_less_nat_alt KERNBASE_def)

text \<open>Where a block that is disjoint from the free list belongs.\<close>

lemma free_split:
  assumes fl: "free_list base h bs" and b: "in_heap base h b" and dis: "cells b \<inter> cells_of bs = {}"
  obtains xs t ys where "(base, 0) # bs = xs @ t # ys" and "\<forall>x \<in> set (xs @ [t]). fst x < fst b"
    and "\<forall>y \<in> set ys. fst b < fst y" and "bend t \<le> unat (fst b)" and "\<forall>y \<in> set ys. bend b \<le> unat (fst y)"
proof -
  let ?as = "(base, 0) # bs"
  have far: "bend x \<le> unat (fst b) \<or> bend b \<le> unat (fst x)" if x: "x \<in> set ?as" for x
  proof (cases "x = (base, 0)")
    case True
    then show ?thesis using b by (simp add: in_heap_def bend_def)
  next
    case False
    then have "x \<in> set bs" using x by simp
    then show ?thesis using fl b dis disjoint_cells [of x b] by (fastforce simp: free_list_def in_heap_def cells_of_def)
  qed
  have pos: "unat (fst b) < bend b" using b by (simp add: in_heap_def bend_def word_less_nat_alt)
  have base: "unat base < unat (fst b)" using b by (simp add: in_heap_def)
  have "fst b \<noteq> fst x" if x: "x \<in> set ?as" for x
  proof (cases "x = (base, 0)")
    case False
    then have "unat (fst x) < bend x" using fl x by (auto simp: free_list_def in_heap_def bend_def word_less_nat_alt)
    then show ?thesis using far [OF x] pos by auto
  qed (use base in auto)
  then have "fst b \<notin> fst ` set ?as" by blast
  moreover have "spaced ?as" using fl by (simp add: free_list_def)
  moreover have "fst (hd ?as) < fst b" using base by (simp add: word_less_nat_alt)
  ultimately obtain xs t ys where s: "?as = xs @ t # ys" "\<forall>x \<in> set (xs @ [t]). fst x < fst b" "\<forall>y \<in> set ys. fst b < fst y"
    using split_at [of ?as "fst b"] by blast
  have "bend t \<le> unat (fst b)" using far [of t] s pos by (auto simp: word_less_nat_alt)
  moreover have "bend b \<le> unat (fst y)" if "y \<in> set ys" for y
  proof -
    have "y \<in> set ?as" using s(1) that by simp
    moreover have "unat (fst b) < unat (fst y)" using s(3) that by (simp add: word_less_nat_alt)
    ultimately show ?thesis using far [of y] bend_ge [of y] by linarith
  qed
  ultimately show thesis using that s by blast
qed

definition inserted :: "mblock list \<Rightarrow> mblock \<Rightarrow> mblock \<Rightarrow> mblock list \<Rightarrow> mblock list" where
  "inserted xs t b ys = xs @ join t (join b ys)"

lemma inserted_linked:
  assumes lk: "linked h (xs @ t # ys) base" and sp: "spaced (xs @ t # ys)" and b: "hsize h (fst b) = snd b" "unat base < bend b"
    and lo: "\<forall>x \<in> set (xs @ [t]). fst x < fst b" and hi: "\<forall>y \<in> set ys. fst b < fst y"
    and sm: "\<forall>x \<in> set (b # xs @ t # ys). small x"
  shows "linked (free_lower (fst b) (fst t) (free_upper (fst b) (fst t) h)) (inserted xs t b ys) base"
proof -
  let ?h1 = "free_upper (fst b) (fst t) h"
  let ?h2 = "free_lower (fst b) (fst t) ?h1"
  have tb: "fst t < fst b" using lo by simp
  have "linked ?h1 (join b ys) base"
    by (rule linked_free_upper) (use lk b hi sm in \<open>auto simp: linked_append\<close>)
  moreover have "hsize ?h1 (fst t) = snd t" using free_upper_other [of "fst t" "fst b"] tb lk by (simp add: linked_append)
  moreover have "fst t \<notin> fst ` set (join b ys)"
    using tb sp spaced_less [of "xs @ [t]" ys t] by (force dest: join_mem)
  ultimately have l2: "linked ?h2 (join t (join b ys)) base"
    by (intro linked_free_lower) (use sm in \<open>auto simp: join_def split: list.splits\<close>)
  have "linked ?h2 xs (fst t) = linked h xs (fst t)"
  proof (rule linked_cong, rule free_fields)
    fix x assume x: "x \<in> set xs"
    show "fst x \<noteq> fst b" using lo x by auto
    show "fst x \<noteq> fst t" using spaced_less [of xs "t # ys" x t] sp x by auto
  qed
  then show ?thesis using l2 lk by (simp add: linked_append inserted_def)
qed

lemma join_ge:
  assumes "z \<in> set (join b ys)" and "\<forall>y \<in> set ys. fst b \<le> fst y"
  shows "unat (fst b) \<le> unat (fst z)"
  using join_mem [OF assms(1)] assms(2) by (auto simp: word_le_nat_alt)

lemma inserted_spaced:
  assumes sp: "spaced (xs @ t # ys)" and hi: "\<forall>y \<in> set ys. fst b < fst y" and tb: "fst t < fst b"
    and le: "bend t \<le> unat (fst b)" "\<forall>y \<in> set ys. bend b \<le> unat (fst y)" and sm: "\<forall>x \<in> set (b # xs @ t # ys). small x"
  shows "spaced (inserted xs t b ys)"
proof -
  have jb: "unat (fst b) \<le> unat (fst z)" if "z \<in> set (join b ys)" for z
    using join_ge [OF that] hi by (simp add: less_imp_le)
  have smj: "\<forall>x \<in> set (t # join b ys). small x" using join_small [of b ys] sm by simp
  have "\<forall>z \<in> set (join b ys). bend t \<le> unat (fst z)" using jb le(1) by fastforce
  moreover have "spaced (join b ys)" using spaced_join [of b ys] sm le(2) sp by (simp add: spaced_append)
  ultimately have "spaced (join t (join b ys))" using spaced_join [of t "join b ys"] smj by blast
  moreover have "bend x < unat (fst z)" if x: "x \<in> set xs" and z: "z \<in> set (join t (join b ys))" for x z
  proof -
    have "\<forall>y \<in> set (join b ys). fst t \<le> fst y" using jb tb by (fastforce simp: word_le_nat_alt word_less_nat_alt)
    then have "unat (fst t) \<le> unat (fst z)" using join_ge [OF z] by simp
    moreover have "bend x < unat (fst t)" using sp x by (simp add: spaced_append)
    ultimately show ?thesis by simp
  qed
  ultimately show ?thesis using sp by (simp add: spaced_append inserted_def)
qed

lemma inserted_cells:
  assumes sm: "\<forall>x \<in> set (b # xs @ t # ys). small x"
  shows "cells_of (inserted xs t b ys) = cells_of (xs @ t # ys) \<union> cells b"
proof -
  have "\<forall>x \<in> set (t # join b ys). small x" using join_small [of b ys] sm by simp
  then show ?thesis using cells_of_join [of t "join b ys"] cells_of_join [of b ys] sm by (auto simp: cells_of_def inserted_def)
qed

lemma inserted_head:
  assumes as: "(base, 0) # bs = xs @ t # ys" and b: "in_heap base h b" and bs: "\<forall>x \<in> set bs. in_heap base h x"
    and sm: "\<forall>x \<in> set (b # xs @ t # ys). small x"
  obtains bs' where "inserted xs t b ys = (base, 0) # bs'" and "\<forall>x \<in> set bs'. in_heap base h x"
proof (cases xs)
  case Nil
  then have t: "t = (base, 0)" "ys = bs" using as by auto
  have "bend t \<noteq> unat (fst b)" using b t by (simp add: in_heap_def bend_def)
  then have "inserted xs t b ys = (base, 0) # join b bs" using Nil t
    by (auto simp: inserted_def join_def split: list.splits)
  then show thesis using that join_in_heap [of base h b bs] b bs sm t by auto
next
  case (Cons x xs')
  then have x: "x = (base, 0)" "bs = xs' @ t # ys" using as by auto
  have smj: "\<forall>x \<in> set (t # join b ys). small x" using join_small [of b ys] sm by simp
  have j: "\<forall>z \<in> set (join b ys). in_heap base h z" by (rule join_in_heap) (use bs x b sm in auto)
  have "\<forall>z \<in> set (join t (join b ys)). in_heap base h z" by (rule join_in_heap [OF _ j smj]) (use bs x in auto)
  then show thesis using that [of "xs' @ join t (join b ys)"] Cons x bs by (auto simp: inserted_def)
qed

lemma free_effect:
  assumes fl: "free_list base h bs" and b: "in_heap base h b" "hsize h (fst b) = snd b" and dis: "cells b \<inter> cells_of bs = {}"
  obtains h' bs' where "free (fst b + 8) h = Some h'" and "free_list base h' bs'" and "cells_of bs' = cells_of bs \<union> cells b"
    and "brk h' = brk h"
    and "\<And>a. a \<noteq> fst b \<Longrightarrow> a \<notin> fst ` set ((base, 0) # bs) \<Longrightarrow> hsize h' a = hsize h a \<and> hptr h' a = hptr h a"
proof -
  obtain xs t ys where as: "(base, 0) # bs = xs @ t # ys" and lo: "\<forall>x \<in> set (xs @ [t]). fst x < fst b"
    and hi: "\<forall>y \<in> set ys. fst b < fst y" and le: "bend t \<le> unat (fst b)" "\<forall>y \<in> set ys. bend b \<le> unat (fst y)"
    using free_split [OF fl b(1) dis] by metis
  have lk: "linked h (xs @ t # ys) base" and sp: "spaced (xs @ t # ys)" and fp: "freep h \<in> fst ` set (xs @ t # ys)"
    using fl unfolding free_list_def as by simp_all
  have st: "start (xs @ t # ys) e = base" for e unfolding as [symmetric] by simp
  have sm: "\<forall>x \<in> set (xs @ t # ys). small x" using free_list_small [OF fl] unfolding as by blast
  have smb: "\<forall>x \<in> set (b # xs @ t # ys). small x" using sm in_heap_small [OF b(1)] fl by (simp add: free_list_def)
  have find: "free_find h (fst b) (freep h) = Some (fst t)"
    by (rule free_find_circle [of h "xs @ t # ys" base])
      (use place_unique [OF lk sp st lo hi] lk fp st in auto)
  let ?h2 = "free_lower (fst b) (fst t) (free_upper (fst b) (fst t) h)"
  let ?h = "?h2\<lparr>freep := fst t\<rparr>"
  let ?as = "inserted xs t b ys"
  have base: "unat base < bend b" using b(1) bend_ge [of b] by (simp add: in_heap_def)
  have "linked ?h ?as base = linked ?h2 ?as base" by (rule linked_cong) simp
  then have l: "linked ?h ?as base" using inserted_linked [OF lk sp b(2) base lo hi smb] by simp
  have s: "spaced ?as" by (rule inserted_spaced [OF sp hi _ le smb]) (use lo in simp)
  obtain bs' where bs': "?as = (base, 0) # bs'" "\<forall>x \<in> set bs'. in_heap base h x"
    using inserted_head [OF as b(1) _ smb] fl unfolding free_list_def by metis
  have "fst t \<in> fst ` set ?as" by (auto simp: inserted_def join_def split: list.splits)
  then have "free_list base ?h bs'"
    using l s fl bs'(2) unfolding bs'(1) by (simp add: free_list_def in_heap_def free_brk)
  moreover have "free (fst b + 8) h = Some ?h" using find by (simp add: free_def Let_def)
  moreover have "cells_of bs' = cells_of bs \<union> cells b"
    using inserted_cells [OF smb] unfolding as [symmetric] bs'(1) by (simp add: cells_of_def cells_def bend_def)
  moreover have "hsize ?h a = hsize h a \<and> hptr ?h a = hptr h a" if "a \<noteq> fst b" "a \<notin> fst ` set ((base, 0) # bs)" for a
    using free_fields [of a "fst b" "fst t" h] that unfolding as by auto
  ultimately show thesis using that [of ?h bs'] by (simp add: free_brk)
qed

section \<open>Allocation\<close>

lemma sint_below_half:
  assumes "unat (x :: uint) < 0x80000000"
  shows "sint x = int (unat x)"
proof -
  have "int (unat x) < 2147483648" using assms by linarith
  then have u: "uint x < 2147483648" by simp
  have "(- (2 ^ 31) :: int) \<le> 0" by simp
  then have "- (2 ^ 31) \<le> uint x" using uint_ge_0 by (rule order_trans)
  then have "signed_take_bit 31 (uint x) = uint x" by (rule signed_take_bit_int_eq_self) (use u in simp)
  then show ?thesis by (simp add: sint_uint)
qed

lemma sbrk_effect:
  assumes "brk h < KERNBASE" and "0 < nu" and "8 * unat nu < 0x80000000"
  shows "sbrk grow (sint (nu * 8)) h = (-1, h) \<or>
    (sbrk grow (sint (nu * 8)) h = (brk h, h\<lparr>brk := brk h + nu * 8\<rparr>) \<and> unat (brk h + nu * 8) = unat (brk h) + 8 * unat nu \<and>
     brk h + nu * 8 < KERNBASE)"
proof -
  have u: "unat (nu * 8) = 8 * unat nu" using assms(3) by (subst unat_mult_lem [THEN iffD1]) simp_all
  have "0 < unat (nu * 8)" using assms(2) u by (simp add: word_less_nat_alt)
  then have n: "0 < sint (nu * 8)" using sint_below_half [of "nu * 8"] u assms(3) by linarith
  have a: "unat (brk h + nu * 8) = unat (brk h) + 8 * unat nu"
    using assms(1,3) u by (subst unat_add_noovf) (simp_all add: word_less_nat_alt KERNBASE_def)
  have w: "word_of_int (sint (nu * 8)) = nu * 8" by simp
  have pos: "0 < unat nu" using assms(2) by (simp add: word_less_nat_alt)
  have "brk h + nu * 8 \<noteq> 0" "\<not> brk h + nu * 8 < brk h" using a pos by (auto simp: word_less_nat_alt word_unat_eq_iff)
  then show ?thesis using a pos n unfolding sbrk_def w Let_def by (auto simp: not_le)
qed

lemma free_list_covers:
  assumes fl: "free_list base h bs" and b: "0 < snd b" "cells b \<subseteq> cells_of bs"
  shows "\<exists>x \<in> set bs. snd b \<le> snd x"
proof -
  have pos: "unat (fst b) < bend b" using b(1) by (simp add: bend_def word_less_nat_alt)
  then obtain x where x: "x \<in> set bs" "unat (fst b) \<in> cells x" using b(2) by (auto simp: cells_def cells_of_def)
  have sp: "spaced bs" using fl by (simp add: free_list_def)
  have "bend b \<le> bend x"
  proof (rule ccontr)
    assume "\<not> ?thesis"
    then have "bend x \<in> cells b" using x(2) by (simp add: cells_def)
    then obtain y where y: "y \<in> set bs" "bend x \<in> cells y" using b(2) by (auto simp: cells_of_def)
    have "x \<noteq> y" using y(2) by (auto simp: cells_def)
    then have "bend x < unat (fst y) \<or> bend y < unat (fst x)"
      using sp x(1) y(1) unfolding spaced_def
      by (metis (no_types, lifting) in_set_conv_nth linorder_neqE_nat sorted_wrt_nth_less)
    then show False using y(2) bend_ge [of x] by (auto simp: cells_def)
  qed
  then have "unat (snd b) \<le> unat (snd x)" using x(2) by (simp add: cells_def bend_def)
  then show ?thesis using x(1) by (auto simp: word_le_nat_alt)
qed

lemma free_list_addrs:
  assumes "free_list base h bs" and "a \<in> fst ` set ((base, 0) # bs)"
  shows "a \<noteq> 0" and "unat a < unat (brk h)"
proof -
  have base: "0 < unat base" "unat base + 8 \<le> unat (brk h)" using assms(1) by (simp_all add: free_list_def unat_gt_0)
  obtain x where x: "x \<in> set ((base, 0) # bs)" "a = fst x" using assms(2) by blast
  then have "x = (base, 0) \<or> in_heap base h x" using assms(1) by (auto simp: free_list_def)
  then show "a \<noteq> 0" "unat a < unat (brk h)" using base x(2) by (auto simp: in_heap_def bend_def word_less_nat_alt)
qed

lemma free_list_brk:
  assumes "free_list base h bs" and "b < KERNBASE" and "brk h \<le> b" and "brk h \<le> a" and "a \<le> b"
  shows "free_list base (set_size a n (h\<lparr>brk := b\<rparr>)) bs"
proof -
  let ?h = "set_size a n (h\<lparr>brk := b\<rparr>)"
  have "linked ?h ((base, 0) # bs) base = linked h ((base, 0) # bs) base"
  proof (rule linked_cong)
    fix x assume "x \<in> set ((base, 0) # bs)"
    then have "unat (fst x) < unat (brk h)" using free_list_addrs(2) [OF assms(1)] by blast
    then show "hsize ?h (fst x) = hsize h (fst x) \<and> hptr ?h (fst x) = hptr h (fst x)"
      using assms(4) by (auto simp: set_size_def word_le_nat_alt)
  qed
  then show ?thesis using assms by (auto simp: free_list_def in_heap_def set_size_def word_le_nat_alt)
qed

text \<open>The system refuses the memory that \<^verbatim>\<open>morecore\<close> asks for.\<close>

definition refused :: "(uint \<Rightarrow> uint \<Rightarrow> bool) \<Rightarrow> uint \<Rightarrow> heap \<Rightarrow> bool" where
  "refused grow nu h \<longleftrightarrow> fst (sbrk grow (sint ((if nu < 4096 then 4096 else nu) * 8)) h) = -1"

lemma refused_cong: "brk h' = brk h \<Longrightarrow> refused grow nu h' = refused grow nu h"
  by (simp add: refused_def sbrk_def Let_def if_distrib [of fst])

lemma morecore_effect:
  assumes fl: "free_list base h bs" and nu: "0 < nu" "8 * unat nu < 0x80000000"
  obtains "morecore grow nu h = Some (0, h)" and "refused grow nu h"
  | h' bs' where "morecore grow nu h = Some (freep h', h')" and "freep h' \<noteq> 0" and "free_list base h' bs'"
      and "\<exists>x \<in> set bs'. nu \<le> snd x" and "brk h \<le> brk h'" and "\<forall>c \<in> cells_of bs'. c \<in> cells_of bs \<or> unat (brk h) \<le> c"
      and "\<And>a. a \<noteq> brk h \<Longrightarrow> a \<notin> fst ` set ((base, 0) # bs) \<Longrightarrow> hsize h' a = hsize h a \<and> hptr h' a = hptr h a"
proof -
  define n where "n = (if nu < 4096 then 4096 else nu)"
  have n: "0 < n" "8 * unat n < 0x80000000" "nu \<le> n" using nu by (auto simp: n_def)
  have kb: "brk h < KERNBASE" using fl by (simp add: free_list_def)
  consider "sbrk grow (sint (n * 8)) h = (-1, h)"
    | "sbrk grow (sint (n * 8)) h = (brk h, h\<lparr>brk := brk h + n * 8\<rparr>)" "unat (brk h + n * 8) = unat (brk h) + 8 * unat n"
      "brk h + n * 8 < KERNBASE"
    using sbrk_effect [OF kb n(1,2), of grow] by blast
  then show thesis
  proof cases
    case 1
    then have "morecore grow nu h = Some (0, h)" "refused grow nu h" by (simp_all add: morecore_def refused_def n_def [symmetric])
    then show thesis by (rule that(1))
  next
    case 2
    let ?h = "set_size (brk h) n (h\<lparr>brk := brk h + n * 8\<rparr>)"
    let ?b = "(brk h, n)"
    have le: "brk h \<le> brk h + n * 8" using 2(2) by (simp add: word_le_nat_alt)
    have fl': "free_list base ?h bs" using free_list_brk [OF fl 2(3) le _ le] by simp
    have b: "in_heap base ?h ?b" using fl 2(2) n(1) by (simp add: in_heap_def free_list_def bend_def set_size_def)
    have dis: "cells ?b \<inter> cells_of bs = {}"
      using fl by (fastforce simp: free_list_def in_heap_def cells_of_def cells_def)
    have sz: "hsize ?h (fst ?b) = snd ?b" by (simp add: set_size_def)
    obtain h' bs' where f: "free (brk h + 8) ?h = Some h'" "free_list base h' bs'" "cells_of bs' = cells_of bs \<union> cells ?b"
        "brk h' = brk ?h"
        "\<And>a. a \<noteq> brk h \<Longrightarrow> a \<notin> fst ` set ((base, 0) # bs) \<Longrightarrow> hsize h' a = hsize ?h a \<and> hptr h' a = hptr ?h a"
      using free_effect [OF fl' b sz dis] unfolding fst_conv by metis
    have "brk h \<noteq> -1" using kb by (auto simp: KERNBASE_def)
    then have m: "morecore grow nu h = Some (freep h', h')"
      using 2(1) f(1) by (simp add: morecore_def n_def [symmetric] Let_def)
    have fp: "freep h' \<noteq> 0" using free_list_addrs(1) [OF f(2), of "freep h'"] f(2) by (simp add: free_list_def)
    obtain x where "x \<in> set bs'" "n \<le> snd x" using free_list_covers [OF f(2), of ?b] f(3) n(1) by auto
    then have x: "\<exists>x \<in> set bs'. nu \<le> snd x" using n(3) by (meson order_trans)
    show thesis
    proof (rule that(2) [OF m fp f(2) x])
      show "brk h \<le> brk h'" using f(4) le by (simp add: set_size_def)
      show "\<forall>c \<in> cells_of bs'. c \<in> cells_of bs \<or> unat (brk h) \<le> c" using f(3) by (auto simp: cells_def)
    next
      fix a assume "a \<noteq> brk h" "a \<notin> fst ` set ((base, 0) # bs)"
      then show "hsize h' a = hsize h a \<and> hptr h' a = hptr h a" using f(5) [of a] by (simp add: set_size_def)
    qed
  qed
qed

lemma malloc_scan:
  assumes "linked h zs e" and "zs \<noteq> []" and "fst (last zs) = freep h" and "distinct (map fst zs)"
    and "hptr h q = start zs e" and "q \<in> Q" and "fst ` set zs \<subseteq> Q"
  shows "(\<exists>prevp \<in> Q. \<exists>z \<in> set zs. hptr h prevp = fst z \<and> nunits \<le> snd z \<and>
            malloc_loop grow nunits q (start zs e) h = Some (malloc_take nunits prevp (fst z) h)) \<or>
         ((\<forall>z \<in> set zs. snd z < nunits) \<and>
            malloc_loop grow nunits q (start zs e) h =
              (case morecore grow nunits h of
                 None \<Rightarrow> None
               | Some (q, h') \<Rightarrow> if q = 0 then Some (0, h') else malloc_loop grow nunits q (hptr h' q) h'))"
  using assms
proof (induction zs arbitrary: q)
  case (Cons z zs)
  have sz: "hsize h (fst z) = snd z" and nx: "hptr h (fst z) = start zs e" using Cons.prems(1) by simp_all
  show ?case
  proof (cases "nunits \<le> snd z")
    case True
    then have "malloc_loop grow nunits q (fst z) h = Some (malloc_take nunits q (fst z) h)"
      by (subst malloc_loop.simps) (simp add: sz)
    then show ?thesis using Cons.prems(5,6) True by auto
  next
    case False
    show ?thesis
    proof (cases "zs = []")
      case True
      then have "fst z = freep h" using Cons.prems(3) by simp
      then show ?thesis using False True sz by (subst (1 2) malloc_loop.simps) simp
    next
      case zs: False
      then have "freep h \<in> fst ` set zs" using Cons.prems(3) last_in_set [OF zs] by (metis image_eqI last_ConsR)
      moreover have "fst z \<notin> fst ` set zs" using Cons.prems(4) by simp
      ultimately have "fst z \<noteq> freep h" by metis
      then have step: "malloc_loop grow nunits q (fst z) h = malloc_loop grow nunits (fst z) (start zs e) h"
        using False sz nx by (subst malloc_loop.simps) simp
      show ?thesis using Cons.IH [of "fst z"] Cons.prems zs nx False step by auto
    qed
  qed
qed simp

text \<open>The scan starts behind \<^verbatim>\<open>freep\<close> and goes once around the list.\<close>

lemma malloc_round:
  assumes fl: "free_list base h bs" and n: "0 < nunits"
  shows "(\<exists>prevp \<in> fst ` set ((base, 0) # bs). \<exists>z \<in> set bs. hptr h prevp = fst z \<and> nunits \<le> snd z \<and>
            malloc_loop grow nunits (freep h) (hptr h (freep h)) h = Some (malloc_take nunits prevp (fst z) h)) \<or>
         ((\<forall>z \<in> set bs. snd z < nunits) \<and>
            malloc_loop grow nunits (freep h) (hptr h (freep h)) h =
              (case morecore grow nunits h of
                 None \<Rightarrow> None
               | Some (q, h') \<Rightarrow> if q = 0 then Some (0, h') else malloc_loop grow nunits q (hptr h' q) h'))"
proof -
  let ?as = "(base, 0) # bs"
  have fp: "freep h \<in> fst ` set ?as" and sp: "spaced ?as" using fl unfolding free_list_def by blast+
  obtain f where f: "f \<in> set ?as" "freep h = fst f" using fp by blast
  obtain us ws where as: "?as = us @ f # ws" using f(1) by (meson split_list)
  let ?zs = "ws @ us @ [f]"
  have lk: "linked h ?as (start ?as base)" using fl by (simp add: free_list_def)
  have "linked h ((us @ [f]) @ ws) (start ((us @ [f]) @ ws) base)" using lk unfolding as by simp
  then have l: "linked h ?zs (start ?zs base)" by (rule linked_rotate)
  have set: "set ?zs = set ?as" unfolding as by auto
  have d: "distinct (map fst ?zs)" using spaced_distinct [OF sp] unfolding as by auto
  have nx: "hptr h (freep h) = start ?zs (start ?zs base)"
    using lk f(2) unfolding as by (cases ws) (auto simp: linked_append start_append)
  have last: "fst (last ?zs) = freep h" using f(2) by simp
  have ne: "?zs \<noteq> []" by simp
  have memb: "z \<in> set bs" if "z \<in> set ?as" "nunits \<le> snd z" for z using that n by (cases "z = (base, 0)") auto
  have sub: "fst ` set ?zs \<subseteq> fst ` set ?as" unfolding set ..
  show ?thesis
    by (rule disjE [OF malloc_scan [OF l ne last d nx fp sub, of nunits grow]]; unfold set nx [symmetric])
      (use memb in blast, use set_subset_Cons [of bs "(base, 0)"] in blast)
qed

lemma spaced_disjoint:
  assumes "spaced (us @ z # vs)"
  shows "cells z \<inter> cells_of (us @ vs) = {}"
proof -
  have "cells z \<inter> cells x = {}" if x: "x \<in> set (us @ vs)" for x
  proof (cases "x \<in> set us")
    case True
    then show ?thesis using assms by (fastforce simp: spaced_append cells_def)
  next
    case False
    then have "bend z < unat (fst x)" using assms x by (simp add: spaced_append)
    then show ?thesis by (auto simp: cells_def)
  qed
  then show ?thesis by (auto simp: cells_of_def)
qed

lemma free_list_split:
  assumes fl: "free_list base h bs" and p: "prevp \<in> fst ` set ((base, 0) # bs)" and z: "z \<in> set bs" "hptr h prevp = fst z"
  obtains xs t ys where "(base, 0) # bs = xs @ t # z # ys" and "fst t = prevp"
proof -
  have lk: "linked h ((base, 0) # bs) base" and sp: "spaced ((base, 0) # bs)" using fl unfolding free_list_def by blast+
  obtain t where t: "t \<in> set ((base, 0) # bs)" "prevp = fst t" using p by blast
  obtain xs ys where as: "(base, 0) # bs = xs @ t # ys" using t(1) by (meson split_list)
  have nx: "start ys base = fst z" using lk z(2) t(2) unfolding as by (simp add: linked_append)
  have d: "distinct (map fst ((base, 0) # bs))" by (rule spaced_distinct [OF sp])
  have "base \<noteq> fst z" using d z(1) by auto
  then obtain y ys' where ys: "ys = y # ys'" using nx by (cases ys) auto
  have "y \<in> set ((base, 0) # bs)" unfolding as ys by simp
  moreover have "z \<in> set ((base, 0) # bs)" using z(1) by simp
  ultimately have "y = z" using nx d ys by (metis eq_key_imp_eq_value prod.collapse start_simps(2))
  then show thesis using that [of xs t ys'] as ys t(2) by simp
qed

lemma block_split:
  assumes sm: "small z" and n: "0 < n" "n < snd z"
  defines "z' \<equiv> (fst z, snd z - n)" and "b \<equiv> (fst z + 8 * (snd z - n), n)"
  shows "bend z' = unat (fst b)" and "bend b = bend z" and "cells z' \<union> cells b = cells z" and "cells z' \<inter> cells b = {}"
    and "unat (fst z) < unat (fst b)" and "unat (fst b) < bend z"
proof -
  have s: "unat (snd z - n) = unat (snd z) - unat n" by (rule unat_sub) (use n(2) in \<open>simp add: less_imp_le\<close>)
  have "small z'" using sm n(2) by (simp add: small_def bend_def z'_def s)
  then show e: "bend z' = unat (fst b)" using small_bend [of z'] by (simp add: z'_def b_def)
  have u: "0 < unat n" "unat n < unat (snd z)" using n by (simp_all add: word_less_nat_alt)
  show f: "bend b = bend z" using e u by (simp add: bend_def b_def z'_def s)
  show "cells z' \<union> cells b = cells z" "cells z' \<inter> cells b = {}"
    using e f bend_ge [of z'] bend_ge [of b] by (auto simp: cells_def z'_def)
  show "unat (fst z) < unat (fst b)" using e u by (simp add: bend_def z'_def s)
  show "unat (fst b) < bend z" using f [symmetric] u by (simp add: bend_def b_def)
qed

lemma free_list_intro:
  assumes fl: "free_list base h bs" and h: "brk h' = brk h" "freep h' = fst t"
    and as: "(base, 0) # bs = xs @ t # zs" and zs: "\<forall>z \<in> set zs'. in_heap base h z" "spaced zs'" "\<forall>x \<in> set (xs @ [t]). \<forall>z \<in> set zs'. bend x < unat (fst z)"
    and lk: "linked h' (xs @ t # zs') base"
  obtains bs' where "free_list base h' bs'" and "(base, 0) # bs' = xs @ t # zs'"
proof -
  have sp: "spaced (xs @ t # zs)" and ih: "\<forall>x \<in> set (tl ((base, 0) # bs)). in_heap base h x" using fl unfolding free_list_def as [symmetric] by simp_all
  obtain bs' where bs': "xs @ t # zs' = (base, 0) # bs'" and "set bs' \<subseteq> set bs \<union> set zs'"
    using as by (cases xs) auto
  moreover have "spaced (xs @ t # zs')" using sp zs by (simp add: spaced_append)
  moreover have "fst t \<in> fst ` set (xs @ t # zs')" by simp
  ultimately have "free_list base h' bs'" using fl h zs(1) lk unfolding bs' by (auto simp: free_list_def in_heap_def)
  then show thesis using that bs' by simp
qed

text \<open>What \<^verbatim>\<open>malloc\<close> gives is taken out of the free list: the block that fits, or the upper part of it.\<close>

definition taken :: "uint \<Rightarrow> heap \<Rightarrow> mblock list \<Rightarrow> uint \<Rightarrow> uint \<times> heap \<Rightarrow> bool" where
  "taken base h bs n rh \<longleftrightarrow> (\<exists>b h' bs'. rh = (fst b + 8, h') \<and> snd b = n \<and> in_heap base h b \<and> hsize h' (fst b) = n \<and>
     free_list base h' bs' \<and> brk h' = brk h \<and> cells b \<subseteq> cells_of bs \<and> cells_of bs' = cells_of bs - cells b \<and>
     (\<forall>a. a \<noteq> fst b \<longrightarrow> a \<notin> fst ` set ((base, 0) # bs) \<longrightarrow> hsize h' a = hsize h a \<and> hptr h' a = hptr h a))"

lemma takenI:
  assumes "rh = (fst b + 8, h')" "snd b = n" "in_heap base h b" "hsize h' (fst b) = n" "free_list base h' bs'" "brk h' = brk h"
    "cells b \<subseteq> cells_of bs" "cells_of bs' = cells_of bs - cells b"
    "\<And>a. a \<noteq> fst b \<Longrightarrow> a \<notin> fst ` set ((base, 0) # bs) \<Longrightarrow> hsize h' a = hsize h a \<and> hptr h' a = hptr h a"
  shows "taken base h bs n rh"
  using assms unfolding taken_def by blast

lemma cells_of_base: "cells_of ((base, 0) # bs) = cells_of bs"
  by (simp add: cells_of_def cells_def bend_def)

lemma cells_of_mid: "cells_of (xs @ t # z # ys) = cells z \<union> cells_of (xs @ t # ys)"
  by (auto simp: cells_of_def)

lemma malloc_take_whole:
  assumes fl: "free_list base h bs" and as: "(base, 0) # bs = xs @ t # z # ys" and z: "z \<in> set bs"
  shows "taken base h bs (snd z) (malloc_take (snd z) (fst t) (fst z) h)"
proof -
  have lk: "linked h (xs @ t # z # ys) base" and sp: "spaced (xs @ t # z # ys)" using fl unfolding free_list_def as by simp_all
  let ?h = "(set_ptr (fst t) (hptr h (fst z)) h)\<lparr>freep := fst t\<rparr>"
  have eq: "malloc_take (snd z) (fst t) (fst z) h = (fst z + 8, ?h)" using lk by (simp add: malloc_take_def linked_append)
  have d: "distinct (map fst (xs @ t # z # ys))" by (rule spaced_distinct [OF sp])
  have keep: "linked ?h ws e = linked h ws e" if "fst t \<notin> fst ` set ws" for ws e
    by (rule linked_cong) (use that in \<open>auto simp: set_ptr_def intro: rev_image_eqI\<close>)
  have "linked ?h (xs @ t # ys) base"
    using lk d keep [of xs] keep [of ys] by (simp add: linked_append set_ptr_def)
  moreover have "\<forall>x \<in> set ys. x \<in> set bs" using as by (cases xs) auto
  ultimately obtain bs' where bs': "free_list base ?h bs'" "(base, 0) # bs' = xs @ t # ys"
    using free_list_intro [of base h bs ?h t xs "z # ys" ys] fl as sp
    by (auto simp: spaced_append set_ptr_def free_list_def)
  have c: "cells z \<inter> cells_of (xs @ t # ys) = {}" using spaced_disjoint [of "xs @ [t]" z ys] sp by simp
  have cb: "cells_of bs = cells z \<union> cells_of (xs @ t # ys)" "cells_of bs' = cells_of (xs @ t # ys)"
    using cells_of_base [of base bs] cells_of_base [of base bs'] unfolding as bs'(2) cells_of_mid by simp_all
  show ?thesis
    by (rule takenI [OF eq _ _ _ bs'(1)])
      (use fl z cb c lk in \<open>auto simp: free_list_def set_ptr_def linked_append as\<close>)
qed

lemma malloc_take_part:
  assumes fl: "free_list base h bs" and as: "(base, 0) # bs = xs @ t # z # ys" and z: "z \<in> set bs" and n: "0 < n" "n < snd z"
  shows "taken base h bs n (malloc_take n (fst t) (fst z) h)"
proof -
  let ?z = "(fst z, snd z - n)"
  let ?b = "(fst z + 8 * (snd z - n), n)"
  have lk: "linked h (xs @ t # z # ys) base" and sp: "spaced (xs @ t # z # ys)" using fl unfolding free_list_def as by simp_all
  have sz: "hsize h (fst z) = snd z" using lk by (simp add: linked_append)
  let ?h = "(set_size (fst ?b) n (set_size (fst z) (snd z - n) h))\<lparr>freep := fst t\<rparr>"
  have eq: "malloc_take n (fst t) (fst z) h = (fst ?b + 8, ?h)"
    using n(2) sz by (auto simp: malloc_take_def set_size_def Let_def)
  have sm: "small z" using free_list_small [OF fl] z by simp
  note bs = block_split [OF sm n]
  have d: "distinct (map fst (xs @ t # z # ys))" by (rule spaced_distinct [OF sp])
  have out: "fst ?b \<noteq> fst x" if x: "x \<in> set (xs @ t # z # ys)" for x
  proof -
    consider "x = z" | "x \<in> set (xs @ [t])" | "x \<in> set ys" using x by auto
    then show ?thesis
    proof cases
      case 2
      then have "bend x < unat (fst z)" using sp by (auto simp: spaced_append)
      then show ?thesis using bs(5) bend_ge [of x] by auto
    next
      case 3
      then have "bend z < unat (fst x)" using sp by (simp add: spaced_append)
      then show ?thesis using bs(6) by auto
    qed (use bs(5) in auto)
  qed
  have keep: "linked ?h ws e = linked h ws e" if "fst z \<notin> fst ` set ws" "set ws \<subseteq> set (xs @ t # z # ys)" for ws e
  proof (rule linked_cong)
    fix x assume x: "x \<in> set ws"
    have "fst x \<noteq> fst z" using that(1) x by (metis image_eqI)
    moreover have "fst ?b \<noteq> fst x" by (rule out) (use that(2) x in blast)
    ultimately show "hsize ?h (fst x) = hsize h (fst x) \<and> hptr ?h (fst x) = hptr h (fst x)" by (auto simp: set_size_def)
  qed
  have "linked ?h (xs @ t # ?z # ys) base"
    using lk d keep [of xs] keep [of ys] out [of z] out [of t] by (auto simp: linked_append set_size_def)
  moreover have ys: "\<forall>x \<in> set ys. x \<in> set bs" using as by (cases xs) auto
  moreover have "in_heap base h ?z" using fl z n bs(1,6) by (auto simp: free_list_def in_heap_def word_less_nat_alt unat_sub_if' intro: less_imp_le)
  moreover have "spaced (?z # ys)" using sp bs(1,6) by (auto simp: spaced_append)
  ultimately obtain bs' where bs': "free_list base ?h bs'" "(base, 0) # bs' = xs @ t # ?z # ys"
    using free_list_intro [of base h bs ?h t xs "z # ys" "?z # ys"] fl as sp
    by (auto simp: spaced_append set_size_def free_list_def)
  have c: "cells z \<inter> cells_of (xs @ t # ys) = {}" using spaced_disjoint [of "xs @ [t]" z ys] sp by simp
  have cb: "cells_of bs = cells z \<union> cells_of (xs @ t # ys)" "cells_of bs' = cells ?z \<union> cells_of (xs @ t # ys)"
    using cells_of_base [of base bs] cells_of_base [of base bs'] unfolding as bs'(2) cells_of_mid by simp_all
  have ih: "in_heap base h ?b" using fl z n bs(2,5) by (fastforce simp: free_list_def in_heap_def)
  show ?thesis
  proof (rule takenI [OF eq _ ih _ bs'(1)])
    show "cells_of bs' = cells_of bs - cells ?b" using cb c bs(3,4) by blast
    show "cells ?b \<subseteq> cells_of bs" using cb bs(3) by blast
  qed (auto simp: set_size_def as)
qed

lemma malloc_take_effect:
  assumes fl: "free_list base h bs" and p: "prevp \<in> fst ` set ((base, 0) # bs)" and z: "z \<in> set bs" "hptr h prevp = fst z"
    and n: "0 < n" "n \<le> snd z"
  shows "taken base h bs n (malloc_take n prevp (fst z) h)"
proof -
  obtain xs t ys where as: "(base, 0) # bs = xs @ t # z # ys" "fst t = prevp" using free_list_split [OF fl p z] .
  show ?thesis
  proof (cases "n = snd z")
    case True
    then show ?thesis using malloc_take_whole [OF fl as(1) z(1)] as(2) by simp
  next
    case False
    then show ?thesis using malloc_take_part [OF fl as(1) z(1) n(1)] n(2) as(2) by simp
  qed
qed

text \<open>The loop of \<^verbatim>\<open>malloc\<close> ends after at most one call of \<^verbatim>\<open>morecore\<close> and two rounds through the list.\<close>

lemma malloc_loop_effect:
  assumes fl: "free_list base h bs" and n: "0 < n" "8 * unat n < 0x80000000"
  obtains "malloc_loop grow n (freep h) (hptr h (freep h)) h = Some (0, h)" and "refused grow n h"
  | rh where "malloc_loop grow n (freep h) (hptr h (freep h)) h = Some rh" and "taken base h bs n rh"
  | rh h1 bs1 where "malloc_loop grow n (freep h) (hptr h (freep h)) h = Some rh" and "taken base h1 bs1 n rh"
      and "free_list base h1 bs1" and "brk h \<le> brk h1" and "\<forall>c \<in> cells_of bs1. c \<in> cells_of bs \<or> unat (brk h) \<le> c"
      and "\<And>a. a \<noteq> brk h \<Longrightarrow> a \<notin> fst ` set ((base, 0) # bs) \<Longrightarrow> hsize h1 a = hsize h a \<and> hptr h1 a = hptr h a"
proof (rule disjE [OF malloc_round [OF fl n(1), of grow]])
  assume "\<exists>prevp \<in> fst ` set ((base, 0) # bs). \<exists>z \<in> set bs. hptr h prevp = fst z \<and> n \<le> snd z \<and>
    malloc_loop grow n (freep h) (hptr h (freep h)) h = Some (malloc_take n prevp (fst z) h)"
  then obtain prevp z where p: "prevp \<in> fst ` set ((base, 0) # bs)" "z \<in> set bs" "hptr h prevp = fst z" "n \<le> snd z"
    "malloc_loop grow n (freep h) (hptr h (freep h)) h = Some (malloc_take n prevp (fst z) h)" by blast
  show thesis by (rule that(2) [OF p(5)]) (rule malloc_take_effect [OF fl p(1,2,3) n(1) p(4)])
next
  assume r: "(\<forall>z \<in> set bs. snd z < n) \<and> malloc_loop grow n (freep h) (hptr h (freep h)) h =
    (case morecore grow n h of None \<Rightarrow> None
     | Some (q, h') \<Rightarrow> if q = 0 then Some (0, h') else malloc_loop grow n q (hptr h' q) h')"
  show thesis
  proof (cases rule: morecore_effect [OF fl n, of grow])
    case 1
    then show thesis using r that(1) by simp
  next
    case m: (2 h1 bs1)
    have again: "malloc_loop grow n (freep h) (hptr h (freep h)) h = malloc_loop grow n (freep h1) (hptr h1 (freep h1)) h1"
      using r m(1,2) by simp
    have "\<not> (\<forall>z \<in> set bs1. snd z < n)" using m(4) by force
    then obtain prevp z where p: "prevp \<in> fst ` set ((base, 0) # bs1)" "z \<in> set bs1" "hptr h1 prevp = fst z" "n \<le> snd z"
      "malloc_loop grow n (freep h1) (hptr h1 (freep h1)) h1 = Some (malloc_take n prevp (fst z) h1)"
      using malloc_round [OF m(3) n(1), of grow] by blast
    have "taken base h1 bs1 n (malloc_take n prevp (fst z) h1)" by (rule malloc_take_effect [OF m(3) p(1,2,3) n(1) p(4)])
    then show thesis using that(3) [OF _ _ m(3,5,6,7)] again p(5) by simp
  qed
qed

section \<open>Blocks in use\<close>

definition disjoint_blocks :: "mblock list \<Rightarrow> bool" where
  "disjoint_blocks bs = sorted_wrt (\<lambda>x y. cells x \<inter> cells y = {}) bs"

text \<open>The heap with the blocks \<open>L\<close> in use. Before the first call of \<^verbatim>\<open>malloc\<close> there is no free list yet.\<close>

definition live_blocks :: "uint \<Rightarrow> heap \<Rightarrow> mblock list \<Rightarrow> mblock list \<Rightarrow> bool" where
  "live_blocks base h bs L \<longleftrightarrow> free_list base h bs \<and> disjoint_blocks L \<and>
     (\<forall>b \<in> set L. in_heap base h b \<and> hsize h (fst b) = snd b \<and> cells b \<inter> cells_of bs = {})"

definition arena :: "uint \<Rightarrow> heap \<Rightarrow> mblock list \<Rightarrow> bool" where
  "arena base h L \<longleftrightarrow> (freep h = 0 \<longrightarrow> L = []) \<and> (\<exists>bs. live_blocks base (malloc_start base h) bs L)"

text \<open>The fields of headers in the blocks in use, or rather the words of the program there, stay as they are.\<close>

definition same_in :: "heap \<Rightarrow> heap \<Rightarrow> mblock list \<Rightarrow> bool" where
  "same_in h h' L \<longleftrightarrow> (\<forall>b \<in> set L. \<forall>a. unat a \<in> cells b \<longrightarrow> hsize h' a = hsize h a \<and> hptr h' a = hptr h a)"

lemma arena_started:
  assumes "live_blocks base h bs L"
  shows "arena base h L"
proof -
  have fl: "free_list base h bs" using assms by (simp add: live_blocks_def)
  then have "freep h \<in> fst ` set ((base, 0) # bs)" unfolding free_list_def by blast
  then have "freep h \<noteq> 0" using free_list_addrs(1) [OF fl] by blast
  then show ?thesis using assms by (auto simp: arena_def malloc_start_def)
qed

lemma live_not_free:
  assumes fl: "free_list base h bs" and b: "in_heap base h b" "cells b \<inter> cells_of bs = {}" and a: "unat a \<in> cells b"
  shows "a \<notin> fst ` set ((base, 0) # bs)" and "a \<noteq> brk h" and "a \<noteq> base"
proof -
  show base: "a \<noteq> base" using a b(1) by (auto simp: in_heap_def cells_def)
  show "a \<noteq> brk h" using a b(1) by (auto simp: in_heap_def cells_def)
  have "a \<noteq> fst x" if "x \<in> set bs" for x
  proof -
    have "unat (fst x) \<in> cells x" using fl that by (auto simp: free_list_def in_heap_def cells_def bend_def word_less_nat_alt)
    then have "unat (fst x) \<in> cells_of bs" using that by (auto simp: cells_of_def)
    then show ?thesis using a b(2) by auto
  qed
  then show "a \<notin> fst ` set ((base, 0) # bs)" using base by auto
qed

lemma same_in_trans: "same_in h h1 L \<Longrightarrow> same_in h1 h2 L \<Longrightarrow> same_in h h2 L"
  by (simp add: same_in_def)

lemma in_heap_start: "in_heap base h b \<Longrightarrow> unat (fst b) \<in> cells b"
  by (simp add: in_heap_def cells_def bend_def word_less_nat_alt)

lemma live_frame:
  assumes lv: "live_blocks base h bs L" and c: "\<forall>b \<in> set L. unat c \<notin> cells b"
    and fr: "\<And>a. a \<noteq> c \<Longrightarrow> a \<notin> fst ` set ((base, 0) # bs) \<Longrightarrow> hsize h' a = hsize h a \<and> hptr h' a = hptr h a"
  shows "same_in h h' L"
  unfolding same_in_def
proof (intro ballI allI impI)
  fix b and a :: uint assume b: "b \<in> set L" and a: "unat a \<in> cells b"
  have "a \<noteq> c" using c b a by auto
  moreover have "a \<notin> fst ` set ((base, 0) # bs)"
    by (rule live_not_free [of base h bs b a]) (use lv b a in \<open>auto simp: live_blocks_def\<close>)
  ultimately show "hsize h' a = hsize h a \<and> hptr h' a = hptr h a" by (rule fr)
qed

lemma taken_live:
  assumes lv: "live_blocks base h bs L" and tk: "taken base h bs n (r, h')" and n: "0 < n"
  shows "same_in h h' L \<and> r \<noteq> 0 \<and> arena base h' ((r - 8, n) # L)"
proof -
  obtain b bs' where b: "r = fst b + 8" "snd b = n" "in_heap base h b" "hsize h' (fst b) = n" "free_list base h' bs'"
      "brk h' = brk h" "cells b \<subseteq> cells_of bs" "cells_of bs' = cells_of bs - cells b"
    and fr: "\<forall>a. a \<noteq> fst b \<longrightarrow> a \<notin> fst ` set ((base, 0) # bs) \<longrightarrow> hsize h' a = hsize h a \<and> hptr h' a = hptr h a"
    using tk by (auto simp: taken_def)
  have fl: "free_list base h bs" and dj: "\<forall>x \<in> set L. in_heap base h x \<and> cells x \<inter> cells_of bs = {}" using lv by (auto simp: live_blocks_def)
  have db: "cells b \<inter> cells x = {}" if "x \<in> set L" for x using b(7) dj that by blast
  have s: "same_in h h' L"
    by (rule live_frame [OF lv, of "fst b"]) (use db in_heap_start [OF b(3)] fr in auto)
  have hs: "hsize h' (fst x) = snd x" if x: "x \<in> set L" for x
    using s lv in_heap_start [of base h x] x by (auto simp: live_blocks_def same_in_def)
  have eb: "(r - 8, n) = b" using b(1,2) by (simp add: prod_eq_iff)
  have "in_heap base h' x = in_heap base h x" for x using b(6) by (simp add: in_heap_def)
  then have "live_blocks base h' bs' ((r - 8, n) # L)"
    using lv b db hs unfolding eb live_blocks_def by (auto simp: disjoint_blocks_def)
  moreover have "r \<noteq> 0"
  proof -
    have "bend b < 0x80000000" using b(3) fl by (simp add: in_heap_def free_list_def word_less_nat_alt KERNBASE_def)
    then have "unat (fst b + 8) = unat (fst b) + 8" using b(2) n by (subst unat_add_noovf) (auto simp: bend_def word_less_nat_alt)
    then show ?thesis using b(1) by auto
  qed
  ultimately show ?thesis using s arena_started by blast
qed

lemma malloc_units_value:
  assumes "unat nbytes \<le> 0x7FFFFFE0"
  shows "unat (malloc_units nbytes) = (unat nbytes + 7) div 8 + 1"
proof -
  have e: "nbytes + 8 - 1 = nbytes + 7" by simp
  have "unat (nbytes + 8 - 1) = unat nbytes + 7" unfolding e using assms by (subst unat_add_noovf) simp_all
  then have "unat ((nbytes + 8 - 1) div 8) = (unat nbytes + 7) div 8" by (simp add: unat_div)
  then show ?thesis unfolding malloc_units_def using assms by (subst unat_add_noovf) simp_all
qed

lemma malloc_start_live:
  assumes "arena base h L"
  shows "same_in h (malloc_start base h) L"
  using assms by (auto simp: arena_def malloc_start_def same_in_def)

lemma malloc_arena:
  assumes ar: "arena base h L" and sz: "unat nbytes \<le> 0x7FFFFFE0"
  shows "\<exists>r h'. malloc grow base nbytes h = Some (r, h') \<and> same_in h h' L \<and>
           (r = 0 \<and> refused grow (malloc_units nbytes) h \<and> arena base h' L \<or> r \<noteq> 0 \<and> (\<exists>n. unat nbytes + 8 \<le> 8 * unat n \<and> arena base h' ((r - 8, n) # L)))"
proof -
  let ?n = "malloc_units nbytes" and ?h = "malloc_start base h"
  obtain bs where lv: "live_blocks base ?h bs L" using ar by (auto simp: arena_def)
  then have fl: "free_list base ?h bs" by (simp add: live_blocks_def)
  have un: "unat ?n = (unat nbytes + 7) div 8 + 1" by (rule malloc_units_value [OF sz])
  have n: "0 < ?n" "8 * unat ?n < 0x80000000" "unat nbytes + 8 \<le> 8 * unat ?n" using un sz by (simp_all add: word_less_nat_alt)
  have s0: "same_in h ?h L" by (rule malloc_start_live [OF ar])
  have m: "malloc grow base nbytes h = malloc_loop grow ?n (freep ?h) (hptr ?h (freep ?h)) ?h" by (simp add: malloc_def Let_def)
  show ?thesis
  proof (cases rule: malloc_loop_effect [OF fl n(1,2), of grow])
    case 1
    have "refused grow ?n h = refused grow ?n ?h" by (rule refused_cong) (simp add: malloc_start_def heap_upd)
    then show ?thesis using 1 m s0 arena_started [OF lv] by auto
  next
    case (2 rh)
    obtain r h' where "rh = (r, h')" by (cases rh)
    then show ?thesis using 2 m taken_live [OF lv _ n(1), of r h'] same_in_trans [OF s0] n(3) by auto
  next
    case (3 rh h1 bs1)
    obtain r h' where rh: "rh = (r, h')" by (cases rh)
    have s1: "same_in ?h h1 L"
      by (rule live_frame [OF lv _ 3(6)]) (use lv in \<open>auto simp: live_blocks_def in_heap_def cells_def\<close>)
    have "live_blocks base h1 bs1 L"
      unfolding live_blocks_def
    proof (intro conjI ballI 3(3))
      fix b assume b: "b \<in> set L"
      have ih: "in_heap base ?h b" and dj: "cells b \<inter> cells_of bs = {}" and hs: "hsize ?h (fst b) = snd b" using lv b by (auto simp: live_blocks_def)
      show "in_heap base h1 b" using ih 3(4) by (simp add: in_heap_def word_le_nat_alt)
      show "hsize h1 (fst b) = snd b" using s1 b hs in_heap_start [OF ih] by (auto simp: same_in_def)
      show "cells b \<inter> cells_of bs1 = {}" using 3(5) dj ih by (force simp: in_heap_def cells_def)
    qed (use lv in \<open>simp add: live_blocks_def\<close>)
    then show ?thesis using 3(1,2) m rh taken_live [of base h1 bs1 L ?n r h'] n same_in_trans [OF s0] same_in_trans [OF s1] by auto
  qed
qed

lemma free_arena:
  assumes ar: "arena base h (us @ b # vs)"
  shows "\<exists>h'. free (fst b + 8) h = Some h' \<and> same_in h h' (us @ vs) \<and> arena base h' (us @ vs)"
proof -
  have fp: "freep h \<noteq> 0" using ar by (auto simp: arena_def)
  then obtain bs where lv: "live_blocks base h bs (us @ b # vs)" using ar by (auto simp: arena_def malloc_start_def)
  then have fl: "free_list base h bs" and b: "in_heap base h b" "hsize h (fst b) = snd b" "cells b \<inter> cells_of bs = {}"
    by (auto simp: live_blocks_def)
  have db: "cells b \<inter> cells x = {}" if "x \<in> set (us @ vs)" for x
    using lv that by (auto simp: live_blocks_def disjoint_blocks_def sorted_wrt_append)
  obtain h' bs' where f: "free (fst b + 8) h = Some h'" "free_list base h' bs'" "cells_of bs' = cells_of bs \<union> cells b" "brk h' = brk h"
    and fr: "\<And>a. a \<noteq> fst b \<Longrightarrow> a \<notin> fst ` set ((base, 0) # bs) \<Longrightarrow> hsize h' a = hsize h a \<and> hptr h' a = hptr h a"
    using free_effect [OF fl b] by blast
  have dl: "disjoint_blocks (us @ vs)" using lv by (auto simp: live_blocks_def disjoint_blocks_def sorted_wrt_append)
  then have lv': "live_blocks base h bs (us @ vs)" using lv by (auto simp: live_blocks_def)
  have s: "same_in h h' (us @ vs)"
    by (rule live_frame [OF lv', of "fst b"]) (use db in_heap_start [OF b(1)] fr in auto)
  have ih: "in_heap base h' x = in_heap base h x" for x using f(4) by (simp add: in_heap_def)
  have "live_blocks base h' bs' (us @ vs)"
    unfolding live_blocks_def
  proof (intro conjI ballI f(2))
    show "disjoint_blocks (us @ vs)" by (rule dl)
    fix x assume x: "x \<in> set (us @ vs)"
    have xl: "in_heap base h x" "hsize h (fst x) = snd x" "cells x \<inter> cells_of bs = {}" using lv x by (auto simp: live_blocks_def)
    show "in_heap base h' x" using xl ih by simp
    show "hsize h' (fst x) = snd x" using s x xl(2) in_heap_start [OF xl(1)] by (auto simp: same_in_def)
    show "cells x \<inter> cells_of bs' = {}" using xl(3) db [OF x] f(3) by blast
  qed
  then show ?thesis using f(1) s arena_started by blast
qed

section \<open>Properties\<close>

lemma arena_new:
  assumes "freep h = 0" and "base \<noteq> 0" and "unat base + 8 \<le> unat (brk h)" and "brk h < KERNBASE"
  shows "arena base h []"
proof -
  have "live_blocks base (malloc_start base h) [] []"
    using assms by (simp add: live_blocks_def free_list_def malloc_start_def heap_upd disjoint_blocks_def)
  then show ?thesis using assms unfolding arena_def by blast
qed

datatype heap_op = Malloc uint | Free nat

text \<open>
  A program with the blocks it has, each with the number of bytes asked for: a call of \<^verbatim>\<open>malloc\<close>, or of \<^verbatim>\<open>free\<close> on one of
  them.
\<close>

fun heap_step :: "(uint \<Rightarrow> uint \<Rightarrow> bool) \<Rightarrow> uint \<Rightarrow> heap_op \<Rightarrow> heap \<times> (mblock \<times> uint) list \<Rightarrow> (heap \<times> (mblock \<times> uint) list) option" where
  "heap_step grow base (Malloc nbytes) (h, L) =
     map_option (\<lambda>(r, h'). (h', if r = 0 then L else ((r - 8, hsize h' (r - 8)), nbytes) # L)) (malloc grow base nbytes h)"
| "heap_step grow base (Free i) (h, L) =
     (if i < length L then map_option (\<lambda>h'. (h', take i L @ drop (Suc i) L)) (free (fst (fst (L ! i)) + 8) h) else Some (h, L))"

fun heap_run :: "(uint \<Rightarrow> uint \<Rightarrow> bool) \<Rightarrow> uint \<Rightarrow> heap_op list \<Rightarrow> heap \<times> (mblock \<times> uint) list \<Rightarrow> (heap \<times> (mblock \<times> uint) list) option" where
  "heap_run grow base [] x = Some x"
| "heap_run grow base (p # ps) x = Option.bind (heap_step grow base p x) (heap_run grow base ps)"

text \<open>The blocks in use have room for the bytes asked for, after the header.\<close>

definition held :: "uint \<Rightarrow> heap \<Rightarrow> (mblock \<times> uint) list \<Rightarrow> bool" where
  "held base h L \<longleftrightarrow> arena base h (map fst L) \<and> (\<forall>(b, n) \<in> set L. unat n + 8 \<le> 8 * unat (snd b))"

lemma arena_member:
  assumes "arena base h L" and "b \<in> set L"
  shows "in_heap base h b" and "hsize h (fst b) = snd b"
proof -
  have "freep h \<noteq> 0" using assms by (auto simp: arena_def)
  then show "in_heap base h b" "hsize h (fst b) = snd b" using assms by (auto simp: arena_def malloc_start_def live_blocks_def)
qed

lemma free_held:
  assumes "held base h L" and "i < length L"
  shows "\<exists>h'. free (fst (fst (L ! i)) + 8) h = Some h' \<and> same_in h h' (map fst (take i L @ drop (Suc i) L)) \<and>
    held base h' (take i L @ drop (Suc i) L)"
proof -
  have "L = take i L @ L ! i # drop (Suc i) L" using assms(2) by (rule id_take_nth_drop)
  then have "map fst L = map fst (take i L) @ fst (L ! i) # map fst (drop (Suc i) L)" by (metis list.simps(9) map_append)
  then have "arena base h (map fst (take i L) @ fst (L ! i) # map fst (drop (Suc i) L))" using assms(1) by (simp add: held_def)
  from free_arena [OF this] show ?thesis using assms(1) in_set_takeD [of _ i L] in_set_dropD [of _ "Suc i" L] by (fastforce simp: held_def)
qed

lemma heap_step_held:
  assumes "held base h L" and "\<forall>n. p = Malloc n \<longrightarrow> unat n \<le> 0x7FFFFFE0"
  shows "\<exists>h' L'. heap_step grow base p (h, L) = Some (h', L') \<and> held base h' L'"
proof (cases p)
  case (Malloc nbytes)
  obtain r h' where m: "malloc grow base nbytes h = Some (r, h')"
    and a: "r = 0 \<and> arena base h' (map fst L) \<or> r \<noteq> 0 \<and> (\<exists>n. unat nbytes + 8 \<le> 8 * unat n \<and> arena base h' ((r - 8, n) # map fst L))"
    using malloc_arena [of base h "map fst L" nbytes grow] assms Malloc by (auto simp: held_def)
  have "arena base h' ((r - 8, n) # map fst L) \<Longrightarrow> n = hsize h' (r - 8)" for n
    using arena_member(2) [of base h' "(r - 8, n) # map fst L" "(r - 8, n)"] by simp
  then show ?thesis using m a assms(1) Malloc by (auto simp: held_def)
next
  case (Free i)
  then show ?thesis using free_held [OF assms(1), of i] assms(1) by (cases "i < length L") auto
qed

lemma heap_run_held:
  assumes "held base h L" and "\<forall>n. Malloc n \<in> set ps \<longrightarrow> unat n \<le> 0x7FFFFFE0"
  shows "\<exists>h' L'. heap_run grow base ps (h, L) = Some (h', L') \<and> held base h' L'"
  using assms
proof (induction ps arbitrary: h L)
  case (Cons p ps)
  then show ?case using heap_step_held [of base h L p grow] by fastforce
qed simp

text \<open>
  (C16) Let a program that has not used the allocator yet make any sequence of calls of \<^verbatim>\<open>malloc\<close> and of \<^verbatim>\<open>free\<close> on its own
  blocks, with no size above \<^verbatim>\<open>0x7FFFFFE0\<close> (the number of bytes is passed to \<^verbatim>\<open>sbrk\<close> as a signed int; what happens beyond is
  shown below). Every call returns. Afterwards the blocks it holds lie in its memory, do not overlap, and each has room for the
  bytes asked for after its header. The next call of \<^verbatim>\<open>malloc\<close> or \<^verbatim>\<open>free\<close> does not change the contents of the blocks in use,
  and \<^verbatim>\<open>malloc\<close> returns the null pointer only if the system refuses to enlarge the memory.
\<close>

theorem malloc_free_safe:
  assumes new: "freep h = 0" "base \<noteq> 0" "unat base + 8 \<le> unat (brk h)" "brk h < KERNBASE"
    and sizes: "\<forall>n. Malloc n \<in> set ps \<longrightarrow> unat n \<le> 0x7FFFFFE0"
  shows "\<exists>h' L'. heap_run grow base ps (h, []) = Some (h', L') \<and> disjoint_blocks (map fst L') \<and>
    (\<forall>b n. (b, n) \<in> set L' \<longrightarrow> in_heap base h' b \<and> unat n + 8 \<le> 8 * unat (snd b)) \<and>
    (\<forall>n. unat n \<le> 0x7FFFFFE0 \<longrightarrow> (\<exists>r h''. malloc grow base n h' = Some (r, h'') \<and> same_in h' h'' (map fst L') \<and>
       (r = 0 \<longrightarrow> refused grow (malloc_units n) h'))) \<and>
    (\<forall>i < length L'. \<exists>h''. free (fst (fst (L' ! i)) + 8) h' = Some h'' \<and> same_in h' h'' (map fst (take i L' @ drop (Suc i) L')))"
proof -
  have "held base h []" using arena_new [OF new] by (simp add: held_def)
  then obtain h' L' where r: "heap_run grow base ps (h, []) = Some (h', L')" "held base h' L'" using heap_run_held [OF _ sizes] by blast
  have ar: "arena base h' (map fst L')" using r(2) by (simp add: held_def)
  have "in_heap base h' b \<and> unat n + 8 \<le> 8 * unat (snd b)" if "(b, n) \<in> set L'" for b n
    using arena_member(1) [OF ar, of b] r(2) that by (force simp: held_def)
  moreover have "disjoint_blocks (map fst L')" using ar by (auto simp: arena_def live_blocks_def)
  moreover have "\<exists>r h''. malloc grow base n h' = Some (r, h'') \<and> same_in h' h'' (map fst L') \<and> (r = 0 \<longrightarrow> refused grow (malloc_units n) h')"
    if "unat n \<le> 0x7FFFFFE0" for n using malloc_arena [OF ar that, of grow] by blast
  ultimately show ?thesis using r(1) free_held [OF r(2)] by blast
qed

definition heap_new :: heap where
  "heap_new = \<lparr>hptr = (\<lambda>_. 0), hsize = (\<lambda>_. 0), freep = 0, brk = 0x5000\<rparr>"

theorem malloc_free_safe_witness:
  "\<exists>h' L'. heap_run (\<lambda>_ _. True) 0x3000 [Malloc 10, Malloc 20, Free 1, Malloc 5] (heap_new, []) = Some (h', L') \<and>
     disjoint_blocks (map fst L') \<and> (\<forall>b n. (b, n) \<in> set L' \<longrightarrow> in_heap 0x3000 h' b \<and> unat n + 8 \<le> 8 * unat (snd b))"
proof -
  have n: "freep heap_new = 0" "(0x3000 :: uint) \<noteq> 0" "unat (0x3000 :: uint) + 8 \<le> unat (brk heap_new)" "brk heap_new < KERNBASE"
    by (simp_all add: heap_new_def KERNBASE_def)
  have s: "\<forall>n. Malloc n \<in> set [Malloc 10, Malloc 20, Free 1, Malloc 5] \<longrightarrow> unat n \<le> 0x7FFFFFE0" by auto
  show ?thesis using malloc_free_safe [OF n s] by blast
qed

text \<open>
  Beyond the bound the claim is false: for \<^verbatim>\<open>0x80000000\<close> bytes the argument of \<^verbatim>\<open>sbrk\<close> is negative, the memory does not grow,
  and \<^verbatim>\<open>malloc\<close> hands out a block of more than 2 gigabytes at the end of the memory.
\<close>

lemma malloc_oversize:
  "\<exists>h'. malloc grow 0x3000 0x80000000 heap_new = Some (0x5008, h') \<and> hsize h' 0x5000 = 0x10000001 \<and> brk h' = 0x5000"
proof -
  define h where "h = malloc_start 0x3000 heap_new"
  have h: "h = \<lparr>hptr = (\<lambda>_. 0)(0x3000 := 0x3000), hsize = (\<lambda>_. 0), freep = 0x3000, brk = 0x5000\<rparr>"
    by (simp add: h_def malloc_start_def heap_new_def heap_upd fun_upd_idem)
  define h1 where "h1 = (free_lower 0x5000 0x3000 (free_upper 0x5000 0x3000 (set_size 0x5000 0x10000001 h)))\<lparr>freep := 0x3000\<rparr>"
  have u: "malloc_units 0x80000000 = 0x10000001" by (simp add: malloc_units_def)
  have "sbrk grow (sint (0x10000001 * 8 :: uint)) h = (0x5000, h)" by (simp add: sbrk_def h Let_def)
  moreover have "free_find (set_size 0x5000 0x10000001 h) 0x5000 0x3000 = Some 0x3000"
    by (subst free_find.simps) (simp add: h heap_upd)
  ultimately have m: "morecore grow 0x10000001 h = Some (0x3000, h1)"
    by (simp add: morecore_def free_def h1_def) (simp add: h heap_upd)
  have h1: "hptr h1 0x3000 = 0x5000" "hsize h1 0x5000 = 0x10000001" "brk h1 = 0x5000" "hptr h1 0x5000 = 0x3000"
    by (simp_all add: h1_def free_lower_def free_upper_def heap_upd h)
  have "malloc_loop grow 0x10000001 0x3000 0x3000 h = malloc_loop grow 0x10000001 0x3000 0x5000 h1"
    by (subst malloc_loop.simps) (simp add: h m [unfolded h] h1(1))
  also have "\<dots> = Some (malloc_take 0x10000001 0x3000 0x5000 h1)" by (subst malloc_loop.simps) (simp add: h1)
  finally show ?thesis using h1 by (simp add: malloc_def u h_def [symmetric] malloc_take_def heap_upd) (simp add: h)
qed

end
