(* ===== verification/Ulib.thy ===== *)
theory Ulib
  imports Cstring Layout
begin

text \<open>
  User programs and the rest of the user library: \<^verbatim>\<open>gets\<close> and \<^verbatim>\<open>stat\<close> of \<^verbatim>\<open>user/ulib.c\<close> and
  \<^verbatim>\<open>user/printf.c\<close>.

  A program runs on a world of a type that is left open and reaches it by the system calls of \<^verbatim>\<open>user/user.h\<close> only:
  the record \<open>calls\<close> has one function for each, which gives the result with the new world. A program returns a value,
  ends by \<^verbatim>\<open>exit\<close>, or does neither (\<open>None\<close>: it runs forever, or what it does is undefined in C). The locale \<open>stream_io\<close>
  holds the laws of reading and writing that the programs which copy, count and search rely on; \<open>uworld\<close> is a world
  with files and an output that keeps them.

  Strings are the bytes before the terminating zero.
\<close>

section \<open>Programs\<close>

datatype ('a, 'w) ures = Ret 'a 'w | Exit 'w

type_synonym ('a, 'w) uprog = "'w \<Rightarrow> ('a, 'w) ures option"

definition retU :: "'a \<Rightarrow> ('a, 'w) uprog" where
  "retU a = (\<lambda>w. Some (Ret a w))"

definition exit_user :: "('a, 'w) uprog" where
  "exit_user = (\<lambda>w. Some (Exit w))"

definition undefU :: "('a, 'w) uprog" where
  "undefU = (\<lambda>w. None)"

definition callU :: "('w \<Rightarrow> 'a \<times> 'w) \<Rightarrow> ('a, 'w) uprog" where
  "callU f = (\<lambda>w. Some (Ret (fst (f w)) (snd (f w))))"

definition bindU :: "('a, 'w) uprog \<Rightarrow> ('a \<Rightarrow> ('b, 'w) uprog) \<Rightarrow> ('b, 'w) uprog" where
  "bindU p f = (\<lambda>w. case p w of None \<Rightarrow> None | Some (Exit w') \<Rightarrow> Some (Exit w') | Some (Ret a w') \<Rightarrow> f a w')"

definition thenU :: "('a, 'w) uprog \<Rightarrow> ('b, 'w) uprog \<Rightarrow> ('b, 'w) uprog" where
  "thenU p q = bindU p (\<lambda>_. q)"

definition whenU :: "bool \<Rightarrow> (unit, 'w) uprog \<Rightarrow> (unit, 'w) uprog" where
  "whenU b p = (if b then p else retU ())"

primrec forU :: "'a list \<Rightarrow> ('a \<Rightarrow> ('b, 'w) uprog) \<Rightarrow> (unit, 'w) uprog" where
  "forU [] f = retU ()"
| "forU (x # xs) f = thenU (f x) (forU xs f)"

lemmas udefs = retU_def exit_user_def undefU_def callU_def bindU_def thenU_def whenU_def

lemma bindU_mono [partial_function_mono]:
  assumes "\<And>w. mono_option (\<lambda>f. p f w)" and "\<And>a w. mono_option (\<lambda>f. q a f w)"
  shows "mono_option (\<lambda>f. bindU (\<lambda>w. p f w) (\<lambda>a w. q a f w) w)"
proof -
  have e: "bindU (\<lambda>w. p f w) (\<lambda>a w. q a f w) w =
    Option.bind (p f w) (\<lambda>r. case r of Exit w' \<Rightarrow> Some (Exit w') | Ret a w' \<Rightarrow> q a f w')" for f
    by (simp add: bindU_def split: option.split ures.split)
  show ?thesis
    unfolding e
  proof (rule bind_mono [OF assms(1)])
    show "mono_option (\<lambda>f. case r of Exit w' \<Rightarrow> Some (Exit w') | Ret a w' \<Rightarrow> q a f w')" for r
      by (cases r) (simp_all add: assms(2) option.const_mono)
  qed
qed

lemma thenU_mono [partial_function_mono]:
  assumes "\<And>w. mono_option (\<lambda>f. p f w)" and "\<And>w. mono_option (\<lambda>f. q f w)"
  shows "mono_option (\<lambda>f. thenU (\<lambda>w. p f w) (\<lambda>w. q f w) w)"
  unfolding thenU_def using assms by (rule bindU_mono)

section \<open>System calls\<close>

record ustat =
  us_type :: ushort
  us_dev :: int
  us_ino :: uint
  us_nlink :: ushort
  us_size :: uint

text \<open>
  \<^verbatim>\<open>read\<close> gives the bytes it stored with its result, \<^verbatim>\<open>fstat\<close> the structure and \<^verbatim>\<open>pipe\<close> the two descriptors.
  \<^verbatim>\<open>exec\<close> returns (\<open>Some\<close>) only when it fails. Of the two processes that return from \<^verbatim>\<open>fork\<close> the model follows one.
\<close>

record 'w calls =
  c_fork :: "'w \<Rightarrow> int \<times> 'w"
  c_wait :: "'w \<Rightarrow> int \<times> 'w"
  c_pipe :: "'w \<Rightarrow> (int \<times> int \<times> int) \<times> 'w"
  c_write :: "int \<Rightarrow> uchar list \<Rightarrow> 'w \<Rightarrow> int \<times> 'w"
  c_read :: "int \<Rightarrow> nat \<Rightarrow> 'w \<Rightarrow> (int \<times> uchar list) \<times> 'w"
  c_close :: "int \<Rightarrow> 'w \<Rightarrow> int \<times> 'w"
  c_kill :: "int \<Rightarrow> 'w \<Rightarrow> int \<times> 'w"
  c_exec :: "uchar list \<Rightarrow> uchar list list \<Rightarrow> 'w \<Rightarrow> int option \<times> 'w"
  c_open :: "uchar list \<Rightarrow> int \<Rightarrow> 'w \<Rightarrow> int \<times> 'w"
  c_mknod :: "uchar list \<Rightarrow> int \<Rightarrow> int \<Rightarrow> 'w \<Rightarrow> int \<times> 'w"
  c_unlink :: "uchar list \<Rightarrow> 'w \<Rightarrow> int \<times> 'w"
  c_fstat :: "int \<Rightarrow> 'w \<Rightarrow> (int \<times> ustat) \<times> 'w"
  c_link :: "uchar list \<Rightarrow> uchar list \<Rightarrow> 'w \<Rightarrow> int \<times> 'w"
  c_mkdir :: "uchar list \<Rightarrow> 'w \<Rightarrow> int \<times> 'w"
  c_chdir :: "uchar list \<Rightarrow> 'w \<Rightarrow> int \<times> 'w"
  c_dup :: "int \<Rightarrow> 'w \<Rightarrow> int \<times> 'w"
  c_getpid :: "'w \<Rightarrow> int \<times> 'w"
  c_sleep :: "int \<Rightarrow> 'w \<Rightarrow> int \<times> 'w"
  c_setecho :: "int \<Rightarrow> 'w \<Rightarrow> int \<times> 'w"
  c_setkey :: "int \<Rightarrow> 'w \<Rightarrow> int \<times> 'w"
  c_decr :: "int \<Rightarrow> 'w \<Rightarrow> int \<times> 'w"
  c_encr :: "int \<Rightarrow> 'w \<Rightarrow> int \<times> 'w"

definition exec_user :: "'w calls \<Rightarrow> uchar list \<Rightarrow> uchar list list \<Rightarrow> (int, 'w) uprog" where
  "exec_user io path argv =
     bindU (callU (c_exec io path argv)) (\<lambda>r. case r of None \<Rightarrow> exit_user | Some n \<Rightarrow> retU n)"

abbreviation str :: "string \<Rightarrow> uchar list" where
  "str \<equiv> ascii"

section \<open>printf\<close>

definition u_digits :: "uchar list" where
  "u_digits = str ''0123456789ABCDEF''"

definition u_putc :: "'w calls \<Rightarrow> int \<Rightarrow> uchar \<Rightarrow> (int, 'w) uprog" where
  "u_putc io fd c = callU (c_write io fd [c])"

text \<open>The buffer that \<^verbatim>\<open>printint\<close> fills, in the order it is printed; 32 digits are more than any number has.\<close>

definition u_printint :: "uint \<Rightarrow> nat \<Rightarrow> bool \<Rightarrow> uchar list" where
  "u_printint xx base sg =
     (let neg = sg \<and> sint xx < 0;
          x = if neg then - xx else xx in
      (if neg then [45] else []) @ rev (map (\<lambda>d. u_digits ! d) (digits_rev 32 base (unat x))))"

datatype varg = VInt uint | VStr "uchar list option"

text \<open>The bytes that \<^verbatim>\<open>vprintf\<close> writes: undefined when an argument is missing or of another type than asked for.\<close>

fun vprintf_text :: "bool \<Rightarrow> uchar list \<Rightarrow> varg list \<Rightarrow> uchar list option" where
  "vprintf_text state [] as = Some []"
| "vprintf_text False (c # fmt) as =
     (if c = 37 then vprintf_text True fmt as else map_option ((#) c) (vprintf_text False fmt as))"
| "vprintf_text True (c # fmt) as =
     (if c = 100 then
        (case as of VInt x # as \<Rightarrow> map_option ((@) (u_printint x 10 True)) (vprintf_text False fmt as) | _ \<Rightarrow> None)
      else if c = 120 \<or> c = 112 then
        (case as of VInt x # as \<Rightarrow> map_option ((@) (u_printint x 16 False)) (vprintf_text False fmt as) | _ \<Rightarrow> None)
      else if c = 115 then
        (case as of VStr x # as \<Rightarrow>
           map_option ((@) (case x of None \<Rightarrow> str ''(null)'' | Some s \<Rightarrow> s)) (vprintf_text False fmt as)
         | _ \<Rightarrow> None)
      else if c = 99 then
        (case as of VInt x # as \<Rightarrow> map_option ((#) (ucast x)) (vprintf_text False fmt as) | _ \<Rightarrow> None)
      else if c = 37 then map_option ((#) c) (vprintf_text False fmt as)
      else map_option (\<lambda>t. 37 # c # t) (vprintf_text False fmt as))"

definition vprintf :: "'w calls \<Rightarrow> int \<Rightarrow> uchar list \<Rightarrow> varg list \<Rightarrow> (unit, 'w) uprog" where
  "vprintf io fd fmt as = (case vprintf_text False fmt as of None \<Rightarrow> undefU | Some t \<Rightarrow> forU t (u_putc io fd))"

definition fprintf :: "'w calls \<Rightarrow> int \<Rightarrow> string \<Rightarrow> varg list \<Rightarrow> (unit, 'w) uprog" where
  "fprintf io fd fmt as = vprintf io fd (str fmt) as"

definition printf :: "'w calls \<Rightarrow> string \<Rightarrow> varg list \<Rightarrow> (unit, 'w) uprog" where
  "printf io fmt as = vprintf io 1 (str fmt) as"

section \<open>gets and stat\<close>

text \<open>The argument counts the bytes that \<^verbatim>\<open>gets\<close> may still store.\<close>

fun gets_loop :: "'w calls \<Rightarrow> nat \<Rightarrow> (uchar list, 'w) uprog" where
  "gets_loop io 0 = retU []"
| "gets_loop io (Suc k) =
     bindU (callU (c_read io 0 1)) (\<lambda>(cc, bs).
     if cc < 1 then retU [] else
     let c = hd bs in
     if c = 10 \<or> c = 13 then retU [c]
     else bindU (gets_loop io k) (\<lambda>cs. retU (c # cs)))"

definition gets :: "'w calls \<Rightarrow> int \<Rightarrow> (uchar list, 'w) uprog" where
  "gets io mx = gets_loop io (nat (mx - 1))"

definition u_stat :: "'w calls \<Rightarrow> uchar list \<Rightarrow> (int \<times> ustat option, 'w) uprog" where
  "u_stat io n =
     bindU (callU (c_open io n 0)) (\<lambda>fd.
     if fd < 0 then retU (-1, None) else
     bindU (callU (c_fstat io fd)) (\<lambda>(r, st).
     bindU (callU (c_close io fd)) (\<lambda>_.
     retU (r, Some st))))"

section \<open>Numbers and text\<close>

lemma forU_callU: "forU xs (\<lambda>x. callU (f x)) w = Some (Ret () (fold (\<lambda>x w. snd (f x w)) xs w))"
  by (induction xs arbitrary: w) (simp_all add: udefs)

lemma digit_10: "d < 10 \<Longrightarrow> u_digits ! d = 48 + of_nat d"
proof -
  assume d: "d < 10"
  have "\<forall>d \<in> set [0..<10]. u_digits ! d = 48 + of_nat d" by (simp add: u_digits_def ascii_def upt_rec nth_Cons')
  then show ?thesis using d by simp
qed

lemma u_printint_digits:
  assumes "0 \<le> sint xx"
  shows "u_printint xx 10 True = map (\<lambda>d. 48 + of_nat d) (rev (digits_rev 32 10 (unat xx)))"
proof -
  have "map (\<lambda>d. u_digits ! d) (digits_rev 32 10 (unat xx)) = map (\<lambda>d. 48 + of_nat d) (digits_rev 32 10 (unat xx))"
    by (rule map_cong) (auto intro!: digit_10 dest: digits_rev_less [rotated])
  then show ?thesis using assms by (simp add: u_printint_def rev_map)
qed

lemma atoi_u_printint:
  assumes "0 \<le> sint xx"
  shows "atoi (cstr (u_printint xx 10 True)) = Some (sint xx)"
proof -
  have "unat xx < 10 ^ Suc 32" using unat_lt_2p32 [of xx] by simp
  then have v: "digits_value 10 (digits_rev 32 10 (unat xx)) = unat xx" by (intro digits_rev_value) simp_all
  have "\<forall>d \<in> set (rev (digits_rev 32 10 (unat xx))). d < 10" using digits_rev_less [of 10] by simp
  then have "atoi_loop (cstr (u_printint xx 10 True)) 0 = Some (of_nat (unat xx))"
    unfolding u_printint_digits [OF assms] by (simp only: atoi_loop_digits fold_digits v)
  then show ?thesis by (simp add: atoi_def)
qed

section \<open>Reading and writing\<close>

text \<open>
  What programs rely on: a descriptor with bytes to come (\<open>pending\<close>) gives some of them, in order and at least one
  unless there is none left; what is written to descriptor 1 is appended to the output.
\<close>

locale stream_io =
  fixes io :: "'w calls" and pending :: "int \<Rightarrow> 'w \<Rightarrow> uchar list option" and outp :: "'w \<Rightarrow> uchar list"
  assumes read_some: "pending fd w = Some xs \<Longrightarrow> 0 < n \<Longrightarrow>
      \<exists>k w'. c_read io fd n w = ((int k, take k xs), w') \<and> k \<le> n \<and> k \<le> length xs \<and> (xs \<noteq> [] \<longrightarrow> 0 < k) \<and>
        pending fd w' = Some (drop k xs) \<and> outp w' = outp w"
    and write_all: "\<exists>w'. c_write io 1 bs w = (int (length bs), w') \<and> outp w' = outp w @ bs \<and> (\<forall>fd. pending fd w' = pending fd w)"
begin

lemma put_text:
  "\<exists>w'. forU t (u_putc io 1) w = Some (Ret () w') \<and> outp w' = outp w @ t \<and> (\<forall>fd. pending fd w' = pending fd w)"
proof (induction t arbitrary: w)
  case (Cons c t)
  obtain w1 where w1: "c_write io 1 [c] w = (int (length [c]), w1)" "outp w1 = outp w @ [c]" "\<forall>fd. pending fd w1 = pending fd w"
    using write_all [of "[c]" w] by blast
  then show ?case using Cons.IH [of w1] by (auto simp: udefs u_putc_def)
qed (simp add: udefs)

lemma printf_text:
  assumes "vprintf_text False (str fmt) as = Some t"
  shows "\<exists>w'. printf io fmt as w = Some (Ret () w') \<and> outp w' = outp w @ t \<and> (\<forall>fd. pending fd w' = pending fd w)"
  using put_text [of t w] assms by (simp add: printf_def vprintf_def)

end

text \<open>A world of files: what is left to read of each descriptor, where reads are cut short, and the output.\<close>

record uworld =
  uw_in :: "int \<Rightarrow> uchar list option"
  uw_cut :: "nat list"
  uw_out :: "uchar list"

definition uw_read :: "int \<Rightarrow> nat \<Rightarrow> uworld \<Rightarrow> (int \<times> uchar list) \<times> uworld" where
  "uw_read fd n w = (case uw_in w fd of
     None \<Rightarrow> ((-1, []), w)
   | Some xs \<Rightarrow>
       let lim = (case uw_cut w of [] \<Rightarrow> n | c # _ \<Rightarrow> max 1 (min n c)); k = min lim (length xs) in
       ((int k, take k xs), w\<lparr>uw_in := (uw_in w)(fd \<mapsto> drop k xs), uw_cut := tl (uw_cut w)\<rparr>))"

definition uw_write :: "int \<Rightarrow> uchar list \<Rightarrow> uworld \<Rightarrow> int \<times> uworld" where
  "uw_write fd bs w = (int (length bs), if fd = 1 then w\<lparr>uw_out := uw_out w @ bs\<rparr> else w)"

definition uw_calls :: "uworld calls" where
  "uw_calls = \<lparr>c_fork = Pair (-1), c_wait = Pair (-1), c_pipe = Pair (-1, 0, 0), c_write = uw_write, c_read = uw_read,
     c_close = (\<lambda>fd w. if uw_in w fd = None then (-1, w) else (0, w\<lparr>uw_in := (uw_in w)(fd := None)\<rparr>)),
     c_kill = (\<lambda>_. Pair (-1)), c_exec = (\<lambda>_ _. Pair (Some (-1))), c_open = (\<lambda>_ _. Pair (-1)), c_mknod = (\<lambda>_ _ _. Pair (-1)),
     c_unlink = (\<lambda>_. Pair (-1)), c_fstat = (\<lambda>_. Pair (-1, \<lparr>us_type = 0, us_dev = 0, us_ino = 0, us_nlink = 0, us_size = 0\<rparr>)),
     c_link = (\<lambda>_ _. Pair (-1)), c_mkdir = (\<lambda>_. Pair (-1)), c_chdir = (\<lambda>_. Pair (-1)), c_dup = (\<lambda>_. Pair (-1)),
     c_getpid = Pair 1, c_sleep = (\<lambda>_. Pair 0), c_setecho = (\<lambda>_. Pair 0), c_setkey = (\<lambda>_. Pair 0), c_decr = (\<lambda>_. Pair (-1)),
     c_encr = (\<lambda>_. Pair (-1))\<rparr>"

interpretation uw: stream_io uw_calls "\<lambda>fd w. uw_in w fd" uw_out
proof
  show "\<exists>k w'. c_read uw_calls fd n w = ((int k, take k xs), w') \<and> k \<le> n \<and> k \<le> length xs \<and> (xs \<noteq> [] \<longrightarrow> 0 < k) \<and>
      uw_in w' fd = Some (drop k xs) \<and> uw_out w' = uw_out w"
    if "uw_in w fd = Some xs" "0 < n" for fd w xs n
    using that by (auto simp: uw_calls_def uw_read_def Let_def split: list.splits)
qed (simp add: uw_calls_def uw_write_def)

text \<open>Reading a number back with atoi gives the number that printf wrote, for every number that is not negative.\<close>
lemma printf_atoi:
  assumes "0 \<le> sint x"
  shows "\<exists>t. vprintf_text False (str ''%d'') [VInt x] = Some t \<and> atoi (cstr t) = Some (sint x)"
  using atoi_u_printint [OF assms] by (simp add: ascii_def)

end
