(* ===== verification/Uprogs.thy ===== *)
theory Uprogs
  imports Ulib
begin

text \<open>
  The small user programs: \<^verbatim>\<open>cat\<close>, \<^verbatim>\<open>echo\<close>, \<^verbatim>\<open>wc\<close>, \<^verbatim>\<open>kill\<close>, \<^verbatim>\<open>ln\<close>, \<^verbatim>\<open>mkdir\<close>, \<^verbatim>\<open>rm\<close>, \<^verbatim>\<open>ls\<close>,
  \<^verbatim>\<open>setecho\<close>, \<^verbatim>\<open>setkey\<close>, \<^verbatim>\<open>encr\<close>, \<^verbatim>\<open>decr\<close>, \<^verbatim>\<open>blockwriter\<close>, \<^verbatim>\<open>big\<close>, \<^verbatim>\<open>init\<close>, \<^verbatim>\<open>stressfs\<close>,
  \<^verbatim>\<open>forktest\<close> and \<^verbatim>\<open>zombie\<close>, each by its \<^verbatim>\<open>main\<close> on the list of its arguments. The lemmas show that \<^verbatim>\<open>cat\<close>
  copies its input and that \<^verbatim>\<open>wc\<close> counts it, however the reads are cut.
\<close>

definition atoi_arg :: "uchar list \<Rightarrow> (int, 'w) uprog" where
  "atoi_arg s = (case atoi (cstr s) of None \<Rightarrow> undefU | Some n \<Rightarrow> retU n)"

section \<open>cat, echo and wc\<close>

partial_function (option) cat :: "'w calls \<Rightarrow> int \<Rightarrow> 'w \<Rightarrow> (unit, 'w) ures option" where
  "cat io fd w =
     bindU (callU (c_read io fd 512)) (\<lambda>r w.
       if fst r > 0 then
         bindU (callU (c_write io 1 (snd r))) (\<lambda>m w.
           if m \<noteq> fst r then thenU (printf io ''cat: write error\<newline>'' []) exit_user w
           else cat io fd w) w
       else whenU (fst r < 0) (thenU (printf io ''cat: read error\<newline>'' []) exit_user) w) w"

definition cat_main :: "'w calls \<Rightarrow> uchar list list \<Rightarrow> (unit, 'w) uprog" where
  "cat_main io argv =
     (if length argv \<le> 1 then thenU (cat io 0) exit_user
      else thenU (forU (tl argv) (\<lambda>a.
        bindU (callU (c_open io a 0)) (\<lambda>fd.
        if fd < 0 then thenU (printf io ''cat: cannot open %s\<newline>'' [VStr (Some a)]) exit_user else
        thenU (cat io fd) (
        callU (c_close io fd))))) exit_user)"

definition echo_main :: "'w calls \<Rightarrow> uchar list list \<Rightarrow> (unit, 'w) uprog" where
  "echo_main io argv =
     thenU (forU [1..<length argv] (\<lambda>i.
       printf io ''%s%s'' [VStr (Some (argv ! i)), VStr (Some (if i + 1 < length argv then str '' '' else str ''\<newline>''))]))
     exit_user"

record wcount =
  wc_l :: int
  wc_w :: int
  wc_c :: int
  wc_in :: bool

definition wc_byte :: "uchar \<Rightarrow> wcount \<Rightarrow> wcount" where
  "wc_byte b x =
     (let x = x\<lparr>wc_c := wc_c x + 1\<rparr>;
          x = (if b = 10 then x\<lparr>wc_l := wc_l x + 1\<rparr> else x) in
      if b \<in> {32, 13, 9, 10, 11} then x\<lparr>wc_in := False\<rparr>
      else if \<not> wc_in x then x\<lparr>wc_w := wc_w x + 1, wc_in := True\<rparr>
      else x)"

partial_function (option) wc_loop :: "'w calls \<Rightarrow> int \<Rightarrow> wcount \<Rightarrow> 'w \<Rightarrow> (int \<times> wcount, 'w) ures option" where
  "wc_loop io fd x w =
     bindU (callU (c_read io fd 512)) (\<lambda>r w.
       if fst r > 0 then wc_loop io fd (fold wc_byte (snd r) x) w else retU (fst r, x) w) w"

definition wc :: "'w calls \<Rightarrow> int \<Rightarrow> uchar list \<Rightarrow> (unit, 'w) uprog" where
  "wc io fd name =
     bindU (wc_loop io fd \<lparr>wc_l = 0, wc_w = 0, wc_c = 0, wc_in = False\<rparr>) (\<lambda>(n, x).
     if n < 0 then thenU (printf io ''wc: read error\<newline>'' []) exit_user else
     printf io ''%d %d %d %s\<newline>''
       [VInt (word_of_int (wc_l x)), VInt (word_of_int (wc_w x)), VInt (word_of_int (wc_c x)), VStr (Some name)])"

definition wc_main :: "'w calls \<Rightarrow> uchar list list \<Rightarrow> (unit, 'w) uprog" where
  "wc_main io argv =
     (if length argv \<le> 1 then thenU (wc io 0 []) exit_user
      else thenU (forU (tl argv) (\<lambda>a.
        bindU (callU (c_open io a 0)) (\<lambda>fd.
        if fd < 0 then thenU (printf io ''wc: cannot open %s\<newline>'' [VStr (Some a)]) exit_user else
        thenU (wc io fd a) (
        callU (c_close io fd))))) exit_user)"

section \<open>kill, ln, mkdir and rm\<close>

definition kill_main :: "'w calls \<Rightarrow> uchar list list \<Rightarrow> (unit, 'w) uprog" where
  "kill_main io argv =
     (if length argv < 2 then thenU (fprintf io 2 ''usage: kill pid...\<newline>'' []) exit_user
      else thenU (forU (tl argv) (\<lambda>a. bindU (atoi_arg a) (\<lambda>n. callU (c_kill io n)))) exit_user)"

definition ln_main :: "'w calls \<Rightarrow> uchar list list \<Rightarrow> (unit, 'w) uprog" where
  "ln_main io argv =
     (if length argv \<noteq> 3 then thenU (fprintf io 2 ''Usage: ln old new\<newline>'' []) exit_user
      else bindU (callU (c_link io (argv ! 1) (argv ! 2))) (\<lambda>r.
        thenU (whenU (r < 0) (fprintf io 2 ''link %s %s: failed\<newline>'' [VStr (Some (argv ! 1)), VStr (Some (argv ! 2))])) exit_user))"

fun mkdir_loop :: "'w calls \<Rightarrow> uchar list list \<Rightarrow> (unit, 'w) uprog" where
  "mkdir_loop io [] = retU ()"
| "mkdir_loop io (a # as) =
     bindU (callU (c_mkdir io a)) (\<lambda>r.
     if r < 0 then fprintf io 2 ''mkdir: %s failed to create\<newline>'' [VStr (Some a)]
     else mkdir_loop io as)"

definition mkdir_main :: "'w calls \<Rightarrow> uchar list list \<Rightarrow> (unit, 'w) uprog" where
  "mkdir_main io argv =
     (if length argv < 2 then thenU (fprintf io 2 ''Usage: mkdir files...\<newline>'' []) exit_user
      else thenU (mkdir_loop io (tl argv)) exit_user)"

fun rm_loop :: "'w calls \<Rightarrow> uchar list list \<Rightarrow> (unit, 'w) uprog" where
  "rm_loop io [] = retU ()"
| "rm_loop io (a # as) =
     bindU (callU (c_unlink io a)) (\<lambda>r.
     if r < 0 then fprintf io 2 ''rm: %s failed to delete\<newline>'' [VStr (Some a)]
     else rm_loop io as)"

definition rm_main :: "'w calls \<Rightarrow> uchar list list \<Rightarrow> (unit, 'w) uprog" where
  "rm_main io argv =
     (if length argv < 2 then thenU (fprintf io 2 ''Usage: rm files...\<newline>'' []) exit_user
      else thenU (rm_loop io (tl argv)) exit_user)"

section \<open>ls\<close>

definition fmtname :: "uchar list \<Rightarrow> uchar list" where
  "fmtname path =
     (let p = rev (takeWhile (\<lambda>c. c \<noteq> 47) (rev path)) in
      if length p \<ge> DIRSIZ then p else p @ replicate (DIRSIZ - length p) 32)"

definition ls_print :: "'w calls \<Rightarrow> uchar list \<Rightarrow> ustat \<Rightarrow> (unit, 'w) uprog" where
  "ls_print io path st =
     printf io ''%s %d %d %d\<newline>''
       [VStr (Some (fmtname path)), VInt (scast (us_type st)), VInt (us_ino st), VInt (us_size st)]"

definition ls_entry :: "'w calls \<Rightarrow> uchar list \<Rightarrow> dirent \<Rightarrow> (unit, 'w) uprog" where
  "ls_entry io path de =
     (if de_inum de = 0 then retU () else
      let name = path @ [47] @ takeWhile (\<lambda>c. c \<noteq> 0) (de_name de) in
      bindU (u_stat io name) (\<lambda>(r, st).
      case st of
        Some st \<Rightarrow> if r < 0 then printf io ''ls: cannot stat %s\<newline>'' [VStr (Some name)] else ls_print io name st
      | None \<Rightarrow> printf io ''ls: cannot stat %s\<newline>'' [VStr (Some name)]))"

partial_function (option) ls_loop :: "'w calls \<Rightarrow> int \<Rightarrow> uchar list \<Rightarrow> 'w \<Rightarrow> (unit, 'w) ures option" where
  "ls_loop io fd path w =
     bindU (callU (c_read io fd 16)) (\<lambda>r w.
       if fst r = 16 then thenU (ls_entry io path (get_dirent (snd r))) (\<lambda>w. ls_loop io fd path w) w
       else retU () w) w"

definition ls :: "'w calls \<Rightarrow> uchar list \<Rightarrow> (int, 'w) uprog" where
  "ls io path =
     bindU (callU (c_open io path 0)) (\<lambda>fd.
     if fd < 0 then thenU (fprintf io 2 ''ls: cannot open %s\<newline>'' [VStr (Some path)]) (retU 0) else
     bindU (callU (c_fstat io fd)) (\<lambda>(r, st).
     if r < 0 then thenU (fprintf io 2 ''ls: cannot stat %s\<newline>'' [VStr (Some path)]) (callU (c_close io fd)) else
     thenU
       (if us_type st = T_FILE then ls_print io path st
        else if us_type st = T_DIR then
          (if length path + 1 + DIRSIZ + 1 > 512 then printf io ''ls: path too long\<newline>'' []
           else ls_loop io fd path)
        else retU ()) (
     callU (c_close io fd))))"

definition ls_main :: "'w calls \<Rightarrow> uchar list list \<Rightarrow> (unit, 'w) uprog" where
  "ls_main io argv =
     (if length argv < 2 then thenU (ls io (str ''.'')) exit_user
      else thenU (forU (tl argv) (ls io)) exit_user)"

section \<open>setecho and setkey\<close>

definition setecho_usage :: "'w calls \<Rightarrow> (unit, 'w) uprog" where
  "setecho_usage io = printf io ''Usage: setecho [0|1]\<newline>  0: disable echo\<newline>  1: enable echo\<newline>'' []"

definition setecho_main :: "'w calls \<Rightarrow> uchar list list \<Rightarrow> (unit, 'w) uprog" where
  "setecho_main io argv =
     (if length argv \<noteq> 2 then thenU (setecho_usage io) exit_user else
      bindU (atoi_arg (argv ! 1)) (\<lambda>do_echo.
      if do_echo \<noteq> 0 \<and> do_echo \<noteq> 1 then thenU (setecho_usage io) exit_user else
      thenU (callU (c_setecho io do_echo)) (
      thenU (if do_echo \<noteq> 0 then printf io ''Echo enabled\<newline>'' [] else printf io ''Echo disabled\<newline>'' []) exit_user)))"

definition setkey_usage :: "'w calls \<Rightarrow> (unit, 'w) uprog" where
  "setkey_usage io = vprintf io 1 (str ''Usage: setkey [-h|--help] [-s|--secret NEWKEY]\<newline>Set the key for Caesar cipher.\<newline>Options:\<newline>  -h, --help'' @ [9] @
     str ''Show this help message and exit\<newline>  -s, --secret NEWKEY'' @ [9] @ str ''Set the key to NEWKEY\<newline>'') []"

fun setkey_opts :: "'w calls \<Rightarrow> uchar list list \<Rightarrow> int \<Rightarrow> (int, 'w) uprog" where
  "setkey_opts io [] newkey = retU newkey"
| "setkey_opts io (a # as) newkey =
     (if a = str ''-h'' \<or> a = str ''--help'' then thenU (setkey_usage io) exit_user
      else if a = str ''-s'' \<or> a = str ''--secret'' then
        (case as of
           [] \<Rightarrow> thenU (printf io ''setkey: missing argument for --secret\<newline>'' []) (thenU (setkey_usage io) exit_user)
         | b # bs \<Rightarrow> bindU (atoi_arg b) (\<lambda>k. setkey_opts io bs k))
      else thenU (printf io ''setkey: unknown option %s\<newline>'' [VStr (Some a)]) (thenU (setkey_usage io) exit_user))"

definition setkey_main :: "'w calls \<Rightarrow> uchar list list \<Rightarrow> (unit, 'w) uprog" where
  "setkey_main io argv =
     bindU (setkey_opts io (tl argv) (-1)) (\<lambda>newkey.
     bindU
       (if newkey = -1 then
          thenU (printf io ''Enter new key: '' []) (
          thenU (callU (c_setecho io 0)) (
          bindU (gets io 512) (\<lambda>buf.
          bindU (atoi_arg (takeWhile (\<lambda>c. c \<noteq> 0) buf)) (\<lambda>k.
          thenU (callU (c_setecho io 1)) (
          retU k)))))
        else retU newkey) (\<lambda>newkey.
     bindU (callU (c_setkey io newkey)) (\<lambda>r.
     if r < 0 then thenU (printf io ''setkey: failed to set key\<newline>'' []) exit_user else exit_user)))"

section \<open>encr and decr\<close>

text \<open>A name of all \<^verbatim>\<open>DIRSIZ\<close> bytes has no terminating zero in the entry: it is not a string then.\<close>

definition encr_usage :: "'w calls \<Rightarrow> (unit, 'w) uprog" where
  "encr_usage io = fprintf io 1 ''Usage: encr [OPTIONS] [FILE]...\<newline>Encrypt one or more files using Caesar cipher.\<newline>Options:\<newline>  -h, --help: Show this help message and exit\<newline>  -a, --encrypt-all: Encrypt all non-encrypted files in the working directory\<newline>'' []"

definition encrypt_file :: "'w calls \<Rightarrow> uchar list \<Rightarrow> (unit, 'w) uprog" where
  "encrypt_file io path =
     bindU (callU (c_open io path 2)) (\<lambda>fd.
     if fd < 0 then fprintf io 2 ''encr: cannot open %s\<newline>'' [VStr (Some path)] else
     bindU (callU (c_encr io fd)) (\<lambda>status.
     if status < 0 then
       thenU (fprintf io 2 ''encr: failed to encrypt %s with code: %d\<newline>'' [VStr (Some path), VInt (word_of_int status)]) (
       thenU (callU (c_close io fd)) (retU ()))
     else thenU (callU (c_close io fd)) (retU ())))"

definition encrypt_entry :: "'w calls \<Rightarrow> dirent \<Rightarrow> (unit, 'w) uprog" where
  "encrypt_entry io de =
     (if de_inum de = 0 \<or> de_name de ! 0 = 46 then retU () else
      if 0 \<notin> set (de_name de) then undefU else
      let name = takeWhile (\<lambda>c. c \<noteq> 0) (de_name de) in
      bindU (u_stat io name) (\<lambda>(r, st).
      case st of
        None \<Rightarrow> fprintf io 2 ''encr: cannot stat %s\<newline>'' [VStr (Some name)]
      | Some st \<Rightarrow>
          if r < 0 then fprintf io 2 ''encr: cannot stat %s\<newline>'' [VStr (Some name)]
          else if us_type st \<noteq> T_FILE then retU ()
          else encrypt_file io name))"

partial_function (option) encrypt_all_loop :: "'w calls \<Rightarrow> int \<Rightarrow> 'w \<Rightarrow> (unit, 'w) ures option" where
  "encrypt_all_loop io fd w =
     bindU (callU (c_read io fd 16)) (\<lambda>r w.
       if fst r = 16 then thenU (encrypt_entry io (get_dirent (snd r))) (\<lambda>w. encrypt_all_loop io fd w) w
       else retU () w) w"

definition encrypt_all :: "'w calls \<Rightarrow> (unit, 'w) uprog" where
  "encrypt_all io =
     bindU (callU (c_open io (str ''.'') 0)) (\<lambda>fd.
     if fd < 0 then fprintf io 2 ''encr: cannot open .\<newline>'' [] else
     thenU (encrypt_all_loop io fd) (
     thenU (callU (c_close io fd)) (retU ())))"

text \<open>The options: the flag and the arguments that are left.\<close>

fun encr_opts :: "'w calls \<Rightarrow> uchar list list \<Rightarrow> bool \<Rightarrow> (bool \<times> uchar list list, 'w) uprog" where
  "encr_opts io [] flag = retU (flag, [])"
| "encr_opts io (a # as) flag =
     (if a = str ''-h'' \<or> a = str ''--help'' then thenU (encr_usage io) exit_user
      else if a = str ''-a'' \<or> a = str ''--encrypt-all'' then encr_opts io as True
      else if a \<noteq> [] \<and> hd a = 45 then
        thenU (fprintf io 1 ''encr: unknown option %s\<newline>'' [VStr (Some a)]) (thenU (encr_usage io) exit_user)
      else retU (flag, a # as))"

definition encr_main :: "'w calls \<Rightarrow> uchar list list \<Rightarrow> (unit, 'w) uprog" where
  "encr_main io argv =
     bindU (encr_opts io (tl argv) False) (\<lambda>(flag, files).
     if files = [] \<and> \<not> flag then thenU (encr_usage io) exit_user else
     if flag then thenU (encrypt_all io) exit_user else
     thenU (forU files (encrypt_file io)) exit_user)"

definition decr_usage :: "'w calls \<Rightarrow> (unit, 'w) uprog" where
  "decr_usage io = fprintf io 1 ''Usage: decr [OPTIONS] [FILE]...\<newline>Decrypt one or more files using Caesar cipher.\<newline>Options:\<newline>  -h, --help: Show this help message and exit\<newline>  -a, --decrypt-all: Decrypt all encrypted files in the working directory\<newline>'' []"

definition decrypt_file :: "'w calls \<Rightarrow> uchar list \<Rightarrow> (unit, 'w) uprog" where
  "decrypt_file io path =
     bindU (callU (c_open io path 2)) (\<lambda>fd.
     if fd < 0 then fprintf io 2 ''decr: cannot open %s\<newline>'' [VStr (Some path)] else
     bindU (callU (c_decr io fd)) (\<lambda>status.
     if status < 0 then
       thenU (fprintf io 2 ''encr: failed to decrypt %s with code: %d\<newline>'' [VStr (Some path), VInt (word_of_int status)]) (
       thenU (callU (c_close io fd)) (retU ()))
     else thenU (callU (c_close io fd)) (retU ())))"

definition decrypt_entry :: "'w calls \<Rightarrow> dirent \<Rightarrow> (unit, 'w) uprog" where
  "decrypt_entry io de =
     (if de_inum de = 0 \<or> de_name de ! 0 = 46 then retU () else
      if 0 \<notin> set (de_name de) then undefU else
      let name = takeWhile (\<lambda>c. c \<noteq> 0) (de_name de) in
      bindU (u_stat io name) (\<lambda>(r, st).
      case st of
        None \<Rightarrow> fprintf io 2 ''decr: cannot stat %s\<newline>'' [VStr (Some name)]
      | Some st \<Rightarrow>
          if r < 0 then fprintf io 2 ''decr: cannot stat %s\<newline>'' [VStr (Some name)]
          else if us_type st \<noteq> T_FILE then retU ()
          else decrypt_file io name))"

partial_function (option) decrypt_all_loop :: "'w calls \<Rightarrow> int \<Rightarrow> 'w \<Rightarrow> (unit, 'w) ures option" where
  "decrypt_all_loop io fd w =
     bindU (callU (c_read io fd 16)) (\<lambda>r w.
       if fst r = 16 then thenU (decrypt_entry io (get_dirent (snd r))) (\<lambda>w. decrypt_all_loop io fd w) w
       else retU () w) w"

definition decrypt_all :: "'w calls \<Rightarrow> (unit, 'w) uprog" where
  "decrypt_all io =
     bindU (callU (c_open io (str ''.'') 0)) (\<lambda>fd.
     if fd < 0 then fprintf io 2 ''decr: cannot open .\<newline>'' [] else
     thenU (decrypt_all_loop io fd) (
     thenU (callU (c_close io fd)) (retU ())))"

text \<open>The options: the flag and the arguments that are left.\<close>

fun decr_opts :: "'w calls \<Rightarrow> uchar list list \<Rightarrow> bool \<Rightarrow> (bool \<times> uchar list list, 'w) uprog" where
  "decr_opts io [] flag = retU (flag, [])"
| "decr_opts io (a # as) flag =
     (if a = str ''-h'' \<or> a = str ''--help'' then thenU (decr_usage io) exit_user
      else if a = str ''-a'' \<or> a = str ''--decrypt-all'' then decr_opts io as True
      else if a \<noteq> [] \<and> hd a = 45 then
        thenU (fprintf io 1 ''decr: unknown option %s\<newline>'' [VStr (Some a)]) (thenU (decr_usage io) exit_user)
      else retU (flag, a # as))"

definition decr_main :: "'w calls \<Rightarrow> uchar list list \<Rightarrow> (unit, 'w) uprog" where
  "decr_main io argv =
     bindU (decr_opts io (tl argv) False) (\<lambda>(flag, files).
     if files = [] \<and> \<not> flag then thenU (decr_usage io) exit_user else
     if flag then thenU (decrypt_all io) exit_user else
     thenU (forU files (decrypt_file io)) exit_user)"

section \<open>blockwriter and big\<close>

definition blockwriter_usage :: "'w calls \<Rightarrow> (unit, 'w) uprog" where
  "blockwriter_usage io = printf io ''\<newline>Use this program to create a big file filled with a-z characters.\<newline>Default filename: long.txt\<newline>Default blocks: 150\<newline>Usage: blockwriter [OPTION]...\<newline>\<newline>Command line options:\<newline>  -h,  --help: Show help prompt.\<newline>  -o,  --output-file: Set output filename .\<newline>  -b,  --blocks: Number of blocks to write.\<newline>'' []"

fun blockwriter_opts :: "'w calls \<Rightarrow> uchar list list \<Rightarrow> uchar list \<Rightarrow> int \<Rightarrow> (uchar list \<times> int, 'w) uprog" where
  "blockwriter_opts io [] filename blocks = retU (filename, blocks)"
| "blockwriter_opts io (a # as) filename blocks =
     (if a = str ''-h'' \<or> a = str ''--help'' then thenU (blockwriter_usage io) exit_user
      else if a = str ''-o'' \<or> a = str ''--output-file'' then
        (case as of
           [] \<Rightarrow> thenU (printf io ''Error: missing argument for %s\<newline>'' [VStr (Some a)]) (thenU (blockwriter_usage io) exit_user)
         | b # bs \<Rightarrow> blockwriter_opts io bs b blocks)
      else if a = str ''-b'' \<or> a = str ''--blocks'' then
        (case as of
           [] \<Rightarrow> thenU (printf io ''Error: missing argument for %s\<newline>'' [VStr (Some a)]) (thenU (blockwriter_usage io) exit_user)
         | b # bs \<Rightarrow> bindU (atoi_arg b) (\<lambda>n. blockwriter_opts io bs filename n))
      else thenU (printf io ''Error: unknown option %s\<newline>'' [VStr (Some a)]) (thenU (blockwriter_usage io) exit_user))"

definition blockwriter_buf :: "uchar list" where
  "blockwriter_buf = map (\<lambda>i. 97 + of_nat (i mod 26)) [0..<150]"

definition blockwriter_main :: "'w calls \<Rightarrow> uchar list list \<Rightarrow> (unit, 'w) uprog" where
  "blockwriter_main io argv =
     bindU (blockwriter_opts io (tl argv) (str ''long.txt'') 1) (\<lambda>(filename, blocks).
     bindU (callU (c_open io filename 0x201)) (\<lambda>fd.
     if fd < 0 then thenU (printf io ''Error: failed to open %s\<newline>'' [VStr (Some filename)]) exit_user else
     thenU (forU [0..<nat blocks] (\<lambda>i.
       bindU (callU (c_write io fd blockwriter_buf)) (\<lambda>n.
       whenU (n \<noteq> 150) (thenU (printf io ''Error: failed to write block %d\<newline>'' [VInt (of_nat i)]) exit_user)))) (
     thenU (callU (c_close io fd)) exit_user)))"

text \<open>The message for a failed \<^verbatim>\<open>open\<close> passes 2 as the format of \<^verbatim>\<open>printf\<close>, which is undefined.\<close>

definition big_main :: "'w calls \<Rightarrow> (unit, 'w) uprog" where
  "big_main io =
     bindU (callU (c_open io (str ''testfile'') 0x202)) (\<lambda>fd.
     if fd < 0 then undefU else
     thenU (forU [0..<16523] (\<lambda>i.
       thenU (printf io ''Writing block %d\<newline>'' [VInt (of_nat i)]) (
       callU (c_write io fd (replicate 512 0))))) (
     thenU (callU (c_close io fd)) exit_user))"

section \<open>init and the tests of fork\<close>

partial_function (option) init_wait :: "'w calls \<Rightarrow> int \<Rightarrow> 'w \<Rightarrow> (unit, 'w) ures option" where
  "init_wait io pid w =
     bindU (callU (c_wait io)) (\<lambda>wpid w.
       if wpid \<ge> 0 \<and> wpid \<noteq> pid then thenU (printf io ''zombie!\<newline>'' []) (\<lambda>w. init_wait io pid w) w
       else retU () w) w"

partial_function (option) init_loop :: "'w calls \<Rightarrow> 'w \<Rightarrow> (unit, 'w) ures option" where
  "init_loop io w =
     thenU (printf io ''init: starting sh\<newline>'' []) (\<lambda>w.
     bindU (callU (c_fork io)) (\<lambda>pid w.
       if pid < 0 then thenU (printf io ''init: fork failed\<newline>'' []) exit_user w
       else if pid = 0 then
         thenU (exec_user io (str ''/bin/sh'') [str ''sh'']) (thenU (printf io ''init: exec sh failed\<newline>'' []) exit_user) w
       else thenU (init_wait io pid) (\<lambda>w. init_loop io w) w) w) w"

definition init_main :: "'w calls \<Rightarrow> (unit, 'w) uprog" where
  "init_main io =
     bindU (callU (c_getpid io)) (\<lambda>pid.
     if pid \<noteq> 1 then thenU (fprintf io 2 ''init: already running\<newline>'' []) exit_user else
     bindU (callU (c_open io (str ''/dev/console'') 2)) (\<lambda>fd.
     thenU (whenU (fd < 0) (
       thenU (callU (c_mknod io (str ''/dev/console'') 1 1)) (
       thenU (callU (c_open io (str ''/dev/console'') 2)) (retU ())))) (
     thenU (callU (c_dup io 0)) (
     thenU (callU (c_dup io 0)) (
     init_loop io)))))"

fun stressfs_fork :: "'w calls \<Rightarrow> nat \<Rightarrow> nat \<Rightarrow> (nat, 'w) uprog" where
  "stressfs_fork io 0 i = retU i"
| "stressfs_fork io (Suc k) i =
     bindU (callU (c_fork io)) (\<lambda>pid. if pid > 0 then retU i else stressfs_fork io k (i + 1))"

definition stressfs_main :: "'w calls \<Rightarrow> (unit, 'w) uprog" where
  "stressfs_main io =
     thenU (printf io ''stressfs starting\<newline>'' []) (
     bindU (stressfs_fork io 4 0) (\<lambda>i.
     thenU (printf io ''write %d\<newline>'' [VInt (of_nat i)]) (
     let path = str ''stressfs'' @ [48 + of_nat i] in
     bindU (callU (c_open io path 0x202)) (\<lambda>fd.
     thenU (forU [0..<20] (\<lambda>_. callU (c_write io fd (replicate 512 97)))) (
     thenU (callU (c_close io fd)) (
     thenU (printf io ''read\<newline>'' []) (
     bindU (callU (c_open io path 0)) (\<lambda>fd.
     thenU (forU [0..<20] (\<lambda>_. callU (c_read io fd 512))) (
     thenU (callU (c_close io fd)) (
     thenU (callU (c_wait io)) exit_user))))))))))"

definition forktest_print :: "'w calls \<Rightarrow> string \<Rightarrow> (int, 'w) uprog" where
  "forktest_print io s = callU (c_write io 1 (str s))"

text \<open>The number of children: as many forks as succeed, at most \<^verbatim>\<open>N\<close>.\<close>

fun forktest_fork :: "'w calls \<Rightarrow> nat \<Rightarrow> nat \<Rightarrow> (nat, 'w) uprog" where
  "forktest_fork io 0 n = retU n"
| "forktest_fork io (Suc k) n =
     bindU (callU (c_fork io)) (\<lambda>pid. if pid < 0 then retU n else if pid = 0 then exit_user else forktest_fork io k (n + 1))"

definition forktest :: "'w calls \<Rightarrow> (int, 'w) uprog" where
  "forktest io =
     thenU (forktest_print io ''fork test\<newline>'') (
     bindU (forktest_fork io 1000 0) (\<lambda>n.
     if n = 1000 then thenU (forktest_print io ''fork claimed to work N times!\<newline>'') exit_user else
     thenU (forU [0..<n] (\<lambda>_.
       bindU (callU (c_wait io)) (\<lambda>r.
       if r < 0 then thenU (forktest_print io ''wait stopped early\<newline>'') exit_user else retU ()))) (
     bindU (callU (c_wait io)) (\<lambda>r.
     if r \<noteq> -1 then thenU (forktest_print io ''wait got too many\<newline>'') exit_user else
     forktest_print io ''fork test OK\<newline>''))))"

definition forktest_main :: "'w calls \<Rightarrow> (unit, 'w) uprog" where
  "forktest_main io = thenU (forktest io) exit_user"

definition zombie_main :: "'w calls \<Rightarrow> (unit, 'w) uprog" where
  "zombie_main io =
     bindU (callU (c_fork io)) (\<lambda>pid.
     thenU (whenU (pid > 0) (thenU (callU (c_sleep io 5)) (retU ()))) exit_user)"

section \<open>What cat and wc do\<close>

definition is_space :: "uchar \<Rightarrow> bool" where
  "is_space b \<longleftrightarrow> b \<in> {32, 13, 9, 10, 11}"

text \<open>Words begin at the bytes that are no white space and that follow white space or the beginning.\<close>

definition word_count :: "uchar list \<Rightarrow> nat" where
  "word_count xs = length (filter (\<lambda>(a, b). is_space a \<and> \<not> is_space b) (zip (32 # xs) xs))"

lemma wc_fold:
  "fold wc_byte xs x = \<lparr>wc_l = wc_l x + int (count_list xs 10),
     wc_w = wc_w x + int (length (filter (\<lambda>(a, b). is_space a \<and> \<not> is_space b) (zip ((if wc_in x then 97 else 32) # xs) xs))),
     wc_c = wc_c x + int (length xs), wc_in = (if xs = [] then wc_in x else \<not> is_space (last xs))\<rparr>"
proof (induction xs arbitrary: x)
  case (Cons b xs)
  have sp: "is_space 32" "\<not> is_space 97" "is_space 10" by (simp_all add: is_space_def)
  have b: "wc_byte b x = x\<lparr>wc_l := wc_l x + (if b = 10 then 1 else 0), wc_c := wc_c x + 1, wc_in := \<not> is_space b,
      wc_w := wc_w x + (if \<not> wc_in x \<and> \<not> is_space b then 1 else 0)\<rparr>"
    by (cases x) (auto simp: wc_byte_def is_space_def Let_def)
  have z': "length (filter (\<lambda>(a, b). is_space a \<and> \<not> is_space b) (zip ((if \<not> is_space b then 97 else 32) # xs) xs)) =
    length (filter (\<lambda>(a, b). is_space a \<and> \<not> is_space b) (zip (b # xs) xs))"
    by (cases xs) (auto simp: sp)
  have "fold wc_byte (b # xs) x = fold wc_byte xs (wc_byte b x)" by simp
  then show ?case using z' sp unfolding Cons.IH b by (auto split: if_splits)
qed (cases x, simp)

context stream_io
begin

lemma cat_copies:
  assumes "pending fd w = Some xs"
  shows "\<exists>w'. cat io fd w = Some (Ret () w') \<and> outp w' = outp w @ xs \<and> pending fd w' = Some []"
  using assms
proof (induction xs arbitrary: w rule: length_induct)
  case (1 xs)
  obtain k w1 where r: "c_read io fd 512 w = ((int k, take k xs), w1)" "k \<le> length xs" "xs \<noteq> [] \<longrightarrow> 0 < k"
      "pending fd w1 = Some (drop k xs)" "outp w1 = outp w" using read_some [OF 1(2), of 512] by auto
  show ?case
  proof (cases "xs = []")
    case True
    then show ?thesis using r by (subst cat.simps) (simp add: udefs)
  next
    case False
    obtain w2 where w2: "c_write io 1 (take k xs) w1 = (int (length (take k xs)), w2)" "outp w2 = outp w1 @ take k xs"
        "\<forall>fd. pending fd w2 = pending fd w1" using write_all [of "take k xs" w1] by blast
    have "length (drop k xs) < length xs" using r False by simp
    then obtain w' where "cat io fd w2 = Some (Ret () w')" "outp w' = outp w2 @ drop k xs" "pending fd w' = Some []"
      using 1(1) w2(3) r(4) by metis
    then show ?thesis using r w2 False by (subst cat.simps) (simp add: udefs)
  qed
qed

lemma wc_loop_counts:
  assumes "pending fd w = Some xs"
  shows "\<exists>w'. wc_loop io fd x w = Some (Ret (0, fold wc_byte xs x) w') \<and> outp w' = outp w"
  using assms
proof (induction xs arbitrary: w x rule: length_induct)
  case (1 xs)
  obtain k w1 where r: "c_read io fd 512 w = ((int k, take k xs), w1)" "k \<le> length xs" "xs \<noteq> [] \<longrightarrow> 0 < k"
      "pending fd w1 = Some (drop k xs)" "outp w1 = outp w" using read_some [OF 1(2), of 512] by auto
  show ?case
  proof (cases "xs = []")
    case True
    then show ?thesis using r by (subst wc_loop.simps) (simp add: udefs)
  next
    case False
    have "length (drop k xs) < length xs" using r False by simp
    then obtain w' where "wc_loop io fd (fold wc_byte (take k xs) x) w1 = Some (Ret (0, fold wc_byte (drop k xs) (fold wc_byte (take k xs) x)) w')"
        "outp w' = outp w1" using 1(1) r(4) by metis
    moreover have "fold wc_byte (drop k xs) (fold wc_byte (take k xs) x) = fold wc_byte xs x"
      using fold_append [of wc_byte "take k xs" "drop k xs"] by (metis append_take_drop_id comp_apply)
    ultimately show ?thesis using r False by (subst wc_loop.simps) (simp add: udefs)
  qed
qed

lemma wc_prints:
  assumes "pending fd w = Some xs"
  shows "\<exists>w'. wc io fd name w = Some (Ret () w') \<and>
    outp w' = outp w @ u_printint (of_nat (count_list xs 10)) 10 True @ [32] @ u_printint (of_nat (word_count xs)) 10 True @ [32] @
      u_printint (of_nat (length xs)) 10 True @ [32] @ name @ [10]"
proof -
  let ?x = "\<lparr>wc_l = 0, wc_w = 0, wc_c = 0, wc_in = False\<rparr>"
  obtain w1 where w1: "wc_loop io fd ?x w = Some (Ret (0, fold wc_byte xs ?x) w1)" "outp w1 = outp w"
    using wc_loop_counts [OF assms] by blast
  let ?as = "[VInt (of_nat (count_list xs 10)), VInt (of_nat (word_count xs)), VInt (of_nat (length xs)), VStr (Some name)]"
  have t: "vprintf_text False (str ''%d %d %d %s\<newline>'') ?as = Some (u_printint (of_nat (count_list xs 10)) 10 True @ [32] @
      u_printint (of_nat (word_count xs)) 10 True @ [32] @ u_printint (of_nat (length xs)) 10 True @ [32] @ name @ [10])"
    by (simp add: ascii_def)
  show ?thesis using w1 printf_text [OF t, of w1] by (auto simp: wc_def bindU_def wc_fold word_count_def)
qed

end

text \<open>
  wc prints the numbers of newlines, of words and of bytes of its input, however the reads are cut, and always
  ends on an input that ends.
\<close>
lemma wc_correct:
  assumes "uw_in w fd = Some xs"
  shows "\<exists>w'. wc uw_calls fd name w = Some (Ret () w') \<and>
    uw_out w' = uw_out w @ u_printint (of_nat (count_list xs 10)) 10 True @ [32] @ u_printint (of_nat (word_count xs)) 10 True @ [32] @
      u_printint (of_nat (length xs)) 10 True @ [32] @ name @ [10]"
  using assms by (rule uw.wc_prints)

end
