(* ===== verification/Grep.thy ===== *)
theory Grep
  imports Ulib
begin

text \<open>
  The search program \<^verbatim>\<open>user/grep.c\<close>: the matcher of regular expressions and the loop that reads lines through a
  buffer of 1024 bytes. The lemmas show that the matcher decides the usual meaning of its expressions, and that the
  matching lines of a file are printed when every line fits into the buffer.
\<close>

section \<open>The matcher\<close>

text \<open>Strings are lists without the terminating zero; the end of the list is where C sees it.\<close>

function matchhere :: "uchar list \<Rightarrow> uchar list \<Rightarrow> bool" and matchstar :: "uchar \<Rightarrow> uchar list \<Rightarrow> uchar list \<Rightarrow> bool" where
  "matchhere re ts =
     (case re of
        [] \<Rightarrow> True
      | c # re1 \<Rightarrow>
          if re1 \<noteq> [] \<and> hd re1 = 42 then matchstar c (tl re1) ts
          else if c = 36 \<and> re1 = [] then ts = []
          else if ts \<noteq> [] \<and> (c = 46 \<or> c = hd ts) then matchhere re1 (tl ts)
          else False)"
| "matchstar c re ts =
     (if matchhere re ts then True
      else if ts \<noteq> [] \<and> (hd ts = c \<or> c = 46) then matchstar c re (tl ts)
      else False)"
  by pat_completeness auto
termination
proof (relation "measures [\<lambda>x. case x of Inl (re, ts) \<Rightarrow> length re | Inr (c, re, ts) \<Rightarrow> length re,
    \<lambda>x. case x of Inl (re, ts) \<Rightarrow> length ts | Inr (c, re, ts) \<Rightarrow> length ts,
    \<lambda>x. case x of Inl _ \<Rightarrow> 0 | Inr _ \<Rightarrow> 1]")
qed auto

declare matchhere.simps [simp del] matchstar.simps [simp del]

fun match_suffix :: "uchar list \<Rightarrow> uchar list \<Rightarrow> bool" where
  "match_suffix re [] = matchhere re []"
| "match_suffix re (c # ts) = (if matchhere re (c # ts) then True else match_suffix re ts)"

definition match :: "uchar list \<Rightarrow> uchar list \<Rightarrow> bool" where
  "match re ts = (if re \<noteq> [] \<and> hd re = 94 then matchhere (tl re) ts else match_suffix re ts)"

section \<open>What expressions mean\<close>

datatype atom = One uchar | Star uchar

text \<open>The atoms of an expression, and whether it ends in \<^verbatim>\<open>$\<close>.\<close>

fun atoms :: "uchar list \<Rightarrow> atom list \<times> bool" where
  "atoms [] = ([], False)"
| "atoms [c] = (if c = 36 then ([], True) else ([One c], False))"
| "atoms (c # d # re) =
     (if d = 42 then (Star c # fst (atoms re), snd (atoms re))
      else (One c # fst (atoms (d # re)), snd (atoms (d # re))))"

definition fits :: "uchar \<Rightarrow> uchar \<Rightarrow> bool" where
  "fits c x \<longleftrightarrow> c = 46 \<or> x = c"

definition single :: "uchar \<Rightarrow> uchar list set \<Rightarrow> uchar list set" where
  "single c L = {x # w | x w. fits c x \<and> w \<in> L}"

definition starred :: "uchar \<Rightarrow> uchar list set \<Rightarrow> uchar list set" where
  "starred c L = {u @ w | u w. (\<forall>x \<in> set u. fits c x) \<and> w \<in> L}"

fun lang :: "atom list \<Rightarrow> uchar list set" where
  "lang [] = {[]}"
| "lang (One c # as) = single c (lang as)"
| "lang (Star c # as) = starred c (lang as)"

text \<open>A string of the language is a prefix, all of the text when it must end there.\<close>

definition prefixed :: "uchar list set \<Rightarrow> bool \<Rightarrow> uchar list \<Rightarrow> bool" where
  "prefixed L e ts \<longleftrightarrow> (\<exists>u v. ts = u @ v \<and> u \<in> L \<and> (e \<longrightarrow> v = []))"

definition means_here :: "uchar list \<Rightarrow> uchar list \<Rightarrow> bool" where
  "means_here re ts = prefixed (lang (fst (atoms re))) (snd (atoms re)) ts"

lemma starred_iff: "u \<in> starred c L \<longleftrightarrow> u \<in> L \<or> (\<exists>x u'. u = x # u' \<and> fits c x \<and> u' \<in> starred c L)"
proof
  assume "u \<in> starred c L"
  then obtain a w where a: "u = a @ w" "\<forall>x \<in> set a. fits c x" "w \<in> L" by (auto simp: starred_def)
  then show "u \<in> L \<or> (\<exists>x u'. u = x # u' \<and> fits c x \<and> u' \<in> starred c L)" by (cases a) (auto simp: starred_def)
next
  assume "u \<in> L \<or> (\<exists>x u'. u = x # u' \<and> fits c x \<and> u' \<in> starred c L)"
  then obtain a w where "u = a @ w" "\<forall>x \<in> set a. fits c x" "w \<in> L"
  proof
    assume "u \<in> L"
    then show thesis using that [of "[]" u] by simp
  next
    assume "\<exists>x u'. u = x # u' \<and> fits c x \<and> u' \<in> starred c L"
    then obtain x a w where "u = (x # a) @ w" "\<forall>y \<in> set (x # a). fits c y" "w \<in> L" by (auto simp: starred_def)
    then show thesis by (rule that)
  qed
  then show "u \<in> starred c L" by (auto simp: starred_def)
qed

lemma prefixed_nil: "prefixed {[]} e ts \<longleftrightarrow> (e \<longrightarrow> ts = [])"
  by (auto simp: prefixed_def)

lemma prefixed_one: "prefixed (single c L) e ts \<longleftrightarrow> ts \<noteq> [] \<and> fits c (hd ts) \<and> prefixed L e (tl ts)"
proof
  assume "prefixed (single c L) e ts"
  then obtain u v where "ts = u @ v" "u \<in> single c L" and e: "e \<longrightarrow> v = []" unfolding prefixed_def by blast
  then obtain x w where "ts = x # w @ v" "fits c x" "w \<in> L" by (auto simp: single_def)
  then show "ts \<noteq> [] \<and> fits c (hd ts) \<and> prefixed L e (tl ts)" using e unfolding prefixed_def by (metis list.sel list.distinct(1))
next
  assume t: "ts \<noteq> [] \<and> fits c (hd ts) \<and> prefixed L e (tl ts)"
  then obtain u v where "tl ts = u @ v" "u \<in> L" "e \<longrightarrow> v = []" by (auto simp: prefixed_def)
  then have "ts = (hd ts # u) @ v" "hd ts # u \<in> single c L" "e \<longrightarrow> v = []" using t by (cases ts; auto simp: single_def)+
  then show "prefixed (single c L) e ts" unfolding prefixed_def by blast
qed

lemma prefixed_star:
  "prefixed (starred c L) e ts \<longleftrightarrow> prefixed L e ts \<or> (ts \<noteq> [] \<and> fits c (hd ts) \<and> prefixed (starred c L) e (tl ts))"
proof -
  have "u \<in> starred c L \<longleftrightarrow> u \<in> L \<or> u \<in> single c (starred c L)" for u
    by (subst starred_iff) (simp add: single_def)
  then have "prefixed (starred c L) e ts \<longleftrightarrow> prefixed L e ts \<or> prefixed (single c (starred c L)) e ts"
    unfolding prefixed_def by blast
  then show ?thesis unfolding prefixed_one .
qed

lemma matchstar_prefixed:
  assumes "\<And>t. matchhere re t = prefixed L e t"
  shows "matchstar c re ts = prefixed (starred c L) e ts"
proof (induction ts)
  case Nil
  then show ?case by (subst matchstar.simps, subst prefixed_star) (simp add: assms)
next
  case (Cons x ts)
  then show ?case by (subst matchstar.simps, subst prefixed_star) (auto simp: assms fits_def)
qed

lemma matchhere_means: "matchhere re ts = means_here re ts"
proof (induction re arbitrary: ts rule: atoms.induct)
  case 1
  then show ?case by (subst matchhere.simps) (simp add: means_here_def prefixed_nil)
next
  case (2 c)
  have nil: "matchhere [] t" for t by (subst matchhere.simps) simp
  show ?case
    by (subst matchhere.simps) (auto simp: means_here_def fits_def nil prefixed_nil prefixed_one)
next
  case (3 c d re)
  show ?case
  proof (cases "d = 42")
    case True
    have "matchhere (c # d # re) ts = matchstar c re ts" using True by (subst matchhere.simps) simp
    also have "\<dots> = prefixed (starred c (lang (fst (atoms re)))) (snd (atoms re)) ts"
      by (rule matchstar_prefixed) (simp add: 3(1) True means_here_def)
    finally show ?thesis using True by (simp add: means_here_def)
  next
    case False
    have "matchhere (c # d # re) ts \<longleftrightarrow> ts \<noteq> [] \<and> fits c (hd ts) \<and> matchhere (d # re) (tl ts)"
      using False by (subst matchhere.simps) (auto simp: fits_def)
    then show ?thesis using False 3(3) [OF False, of "tl ts"] by (simp add: means_here_def prefixed_one)
  qed
qed

lemma match_suffix_means: "match_suffix re ts = (\<exists>p q. ts = p @ q \<and> means_here re q)"
proof (induction ts)
  case (Cons c ts)
  have "(\<exists>p q. c # ts = p @ q \<and> means_here re q) \<longleftrightarrow> means_here re (c # ts) \<or> (\<exists>p q. ts = p @ q \<and> means_here re q)"
    by (metis append_Cons append_Nil append_eq_Cons_conv)
  then show ?case using Cons by (simp add: matchhere_means)
qed (simp add: matchhere_means)

text \<open>A \<^verbatim>\<open>^\<close> at the beginning of the expression ties the match to the beginning of the text.\<close>

definition means :: "uchar list \<Rightarrow> uchar list \<Rightarrow> bool" where
  "means re ts \<longleftrightarrow>
     (\<exists>p q. ts = p @ q \<and> (if take 1 re = [94] then p = [] \<and> means_here (tl re) q else means_here re q))"

lemma match_means_all: "match re ts = means re ts"
proof (cases re)
  case (Cons c re')
  then show ?thesis by (auto simp: match_def means_def matchhere_means match_suffix_means)
qed (auto simp: match_def means_def match_suffix_means)

section \<open>Lines\<close>

text \<open>
  The inner loop on the bytes \<open>p\<close> up to the terminating zero of the buffer: it prints the matching lines and leaves what
  follows the last newline. Like \<^verbatim>\<open>strchr\<close> it does not look past a zero byte.
\<close>

function grep_lines :: "'w calls \<Rightarrow> uchar list \<Rightarrow> uchar list \<Rightarrow> (uchar list, 'w) uprog" where
  "grep_lines io pattern p =
     (if 10 \<in> set (takeWhile (\<lambda>c. c \<noteq> 0) p) then
        let ln = takeWhile (\<lambda>c. c \<noteq> 10) p; rest = drop (length ln + 1) p in
        if match pattern ln then thenU (callU (c_write io 1 (ln @ [10]))) (grep_lines io pattern rest)
        else grep_lines io pattern rest
      else retU p)"
  by pat_completeness auto
termination
proof (relation "measure (\<lambda>(io, pattern, p). length p)")
  have "length (drop (length ln + 1) p) < length p" if "10 \<in> set (takeWhile (\<lambda>c. c \<noteq> 0) p)" for ln and p :: "uchar list"
    using that by (cases p) auto
  then show "10 \<in> set (takeWhile (\<lambda>c. c \<noteq> 0) p) \<Longrightarrow> ln = takeWhile (\<lambda>c. c \<noteq> 10) p \<Longrightarrow> rest = drop (length ln + 1) p \<Longrightarrow>
      match pattern ln \<Longrightarrow> ((io, pattern, rest), io, pattern, p) \<in> measure (\<lambda>(io, pattern, p). length p)"
    and "10 \<in> set (takeWhile (\<lambda>c. c \<noteq> 0) p) \<Longrightarrow> ln = takeWhile (\<lambda>c. c \<noteq> 10) p \<Longrightarrow> rest = drop (length ln + 1) p \<Longrightarrow>
      \<not> match pattern ln \<Longrightarrow> ((io, pattern, rest), io, pattern, p) \<in> measure (\<lambda>(io, pattern, p). length p)"
    for io :: "'a calls" and pattern p ln rest :: "uchar list" by simp_all
qed simp

declare grep_lines.simps [simp del]

text \<open>The argument \<open>rest\<close> is what the buffer holds: \<^verbatim>\<open>m\<close> bytes. When no line ends in the buffer, it is dropped.\<close>

partial_function (option) grep :: "'w calls \<Rightarrow> uchar list \<Rightarrow> int \<Rightarrow> uchar list \<Rightarrow> 'w \<Rightarrow> (unit, 'w) ures option" where
  "grep io pattern fd rest w =
     bindU (callU (c_read io fd (1024 - length rest - 1))) (\<lambda>r w.
       if fst r > 0 then
         bindU (grep_lines io pattern (rest @ snd r)) (\<lambda>p w.
           grep io pattern fd (if length p = length (rest @ snd r) then [] else p) w) w
       else retU () w) w"

definition grep_main :: "'w calls \<Rightarrow> uchar list list \<Rightarrow> (unit, 'w) uprog" where
  "grep_main io argv =
     (if length argv \<le> 1 then thenU (fprintf io 2 ''usage: grep pattern [file ...]\<newline>'' []) exit_user
      else if length argv \<le> 2 then thenU (grep io (argv ! 1) 0 []) exit_user
      else thenU (forU (drop 2 argv) (\<lambda>a.
        bindU (callU (c_open io a 0)) (\<lambda>fd.
        if fd < 0 then thenU (printf io ''grep: cannot open %s\<newline>'' [VStr (Some a)]) exit_user else
        thenU (grep io (argv ! 1) fd []) (
        callU (c_close io fd))))) exit_user)"

text \<open>The lines of a text that end in a newline, and what follows the last of them.\<close>

fun split_lines :: "uchar list \<Rightarrow> uchar list list \<times> uchar list" where
  "split_lines [] = ([], [])"
| "split_lines (c # cs) =
     (let (ls, r) = split_lines cs in
      if c = 10 then ([] # ls, r) else case ls of [] \<Rightarrow> ([], c # r) | l # ls \<Rightarrow> ((c # l) # ls, r))"

lemma split_none: "10 \<notin> set xs \<Longrightarrow> split_lines xs = ([], xs)"
  by (induction xs) auto

lemma split_newline: "10 \<notin> set l \<Longrightarrow> split_lines (l @ 10 # xs) = (l # fst (split_lines xs), snd (split_lines xs))"
  by (induction l) (auto split: prod.split)

lemma split_cases:
  obtains "10 \<notin> set xs" | l ys where "10 \<notin> set l" and "xs = l @ 10 # ys"
proof (cases "10 \<in> set xs")
  case True
  then obtain l ys where "xs = l @ 10 # ys" "10 \<notin> set l" by (meson split_list_first)
  then show thesis using that(2) by blast
qed (rule that(1))

lemma split_lines_append:
  "fst (split_lines (xs @ ys)) = fst (split_lines xs) @ fst (split_lines (snd (split_lines xs) @ ys))"
proof (induction xs rule: length_induct)
  case (1 xs)
  show ?case
  proof (cases xs rule: split_cases)
    case 1
    then show ?thesis by (simp add: split_none)
  next
    case (2 l zs)
    then have "fst (split_lines (zs @ ys)) = fst (split_lines zs) @ fst (split_lines (snd (split_lines zs) @ ys))"
      using "1.IH" by simp
    then show ?thesis using 2(1) unfolding 2(2) by (simp add: split_newline)
  qed
qed

lemma split_rest:
  "10 \<notin> set (snd (split_lines xs)) \<and> set (snd (split_lines xs)) \<subseteq> set xs \<and>
   (if fst (split_lines xs) = [] then snd (split_lines xs) = xs else length (snd (split_lines xs)) < length xs)"
proof (induction xs rule: length_induct)
  case (1 xs)
  show ?case
  proof (cases xs rule: split_cases)
    case 1
    then show ?thesis by (simp add: split_none)
  next
    case (2 l zs)
    have "10 \<notin> set (snd (split_lines zs)) \<and> set (snd (split_lines zs)) \<subseteq> set zs \<and> length (snd (split_lines zs)) \<le> length zs"
      using "1.IH" [rule_format, of zs] unfolding 2(2) by (auto split: if_splits)
    then show ?thesis using 2 by (auto simp: split_newline)
  qed
qed

text \<open>A text whose first bytes have no newline has a long first line or no line at all.\<close>

lemma first_line_long:
  assumes "10 \<notin> set xs" and "\<forall>l \<in> set (fst (split_lines (xs @ ys))). length l < length xs"
  shows "10 \<notin> set ys"
proof (cases ys rule: split_cases)
  case (2 l zs)
  have "split_lines (xs @ ys) = ((xs @ l) # fst (split_lines zs), snd (split_lines zs))"
    using split_newline [of "xs @ l" zs] assms(1) 2 by simp
  then show ?thesis using assms(2) by simp
qed

definition matching :: "uchar list \<Rightarrow> uchar list \<Rightarrow> uchar list" where
  "matching pattern xs = concat (map (\<lambda>l. l @ [10]) (filter (match pattern) (fst (split_lines xs))))"

lemma matching_append: "matching pattern (xs @ ys) = matching pattern xs @ matching pattern (snd (split_lines xs) @ ys)"
  by (simp add: matching_def split_lines_append [of xs ys])

lemma matching_none: "10 \<notin> set xs \<Longrightarrow> matching pattern xs = []"
  by (simp add: matching_def split_none)

text \<open>Reading a file: as many bytes as asked for or are left.\<close>

locale file_io = stream_io +
  fixes plain :: "'a \<Rightarrow> bool"
  assumes read_full: "plain w \<Longrightarrow> pending fd w = Some xs \<Longrightarrow> 0 < n \<Longrightarrow>
      \<exists>w'. c_read io fd n w = ((int (min n (length xs)), take n xs), w') \<and> pending fd w' = Some (drop n xs) \<and> outp w' = outp w \<and> plain w'"
    and write_plain: "plain w \<Longrightarrow> plain (snd (c_write io 1 bs w))"
begin

lemma grep_lines_prints:
  assumes "0 \<notin> set xs" and "plain w"
  shows "\<exists>w'. grep_lines io pattern xs w = Some (Ret (snd (split_lines xs)) w') \<and> outp w' = outp w @ matching pattern xs \<and>
    (\<forall>fd. pending fd w' = pending fd w) \<and> plain w'"
  using assms
proof (induction xs arbitrary: w rule: length_induct)
  case (1 xs)
  have z: "takeWhile (\<lambda>c. c \<noteq> 0) xs = xs" using 1(2) by (auto simp: takeWhile_eq_all_conv)
  show ?case
  proof (cases xs rule: split_cases)
    case 1
    then have "grep_lines io pattern xs = retU xs" by (subst grep_lines.simps) (simp only: z if_False)
    then show ?thesis using 1 "1.prems"(2) by (simp add: retU_def split_none matching_none)
  next
    case (2 l zs)
    have l: "takeWhile (\<lambda>c. c \<noteq> 10) xs = l" "drop (length l + 1) xs = zs" using 2 by (auto simp: takeWhile_tail takeWhile_append2)
    have m: "matching pattern xs = (if match pattern l then l @ [10] else []) @ matching pattern zs"
      using 2 by (simp add: matching_def split_newline)
    have s: "snd (split_lines xs) = snd (split_lines zs)" using 2 by (simp add: split_newline)
    have IH: "\<exists>w'. grep_lines io pattern zs v = Some (Ret (snd (split_lines zs)) w') \<and> outp w' = outp v @ matching pattern zs \<and>
        (\<forall>fd. pending fd w' = pending fd v) \<and> plain w'" if "plain v" for v
      using "1.IH" "1.prems"(1) 2(2) that by simp
    have u: "grep_lines io pattern xs = (if match pattern l then thenU (callU (c_write io 1 (l @ [10]))) (grep_lines io pattern zs)
        else grep_lines io pattern zs)"
      by (subst grep_lines.simps) (use z l 2 in \<open>simp add: Let_def\<close>)
    obtain w1 where w1: "c_write io 1 (l @ [10]) w = (int (length (l @ [10])), w1)" "outp w1 = outp w @ l @ [10]" "\<forall>fd. pending fd w1 = pending fd w"
      using write_all [of "l @ [10]" w] by blast
    have "plain w1" using write_plain [OF "1.prems"(2), of "l @ [10]"] w1(1) by simp
    then show ?thesis using IH [of w1] IH [OF "1.prems"(2)] w1 m s unfolding u by (auto simp: udefs)
  qed
qed

lemma grep_prints:
  assumes "pending fd w = Some ys" and "0 \<notin> set (rest @ ys)" and "10 \<notin> set rest" and "length rest < 1023" and "plain w"
    and "\<forall>l \<in> set (fst (split_lines (rest @ ys))). length l < 1023"
  shows "\<exists>w'. grep io pattern fd rest w = Some (Ret () w') \<and> outp w' = outp w @ matching pattern (rest @ ys)"
  using assms
proof (induction ys arbitrary: w rest rule: length_induct)
  case (1 ys)
  note pre = "1.prems"
  define n where "n = 1023 - length rest"
  have n: "0 < n" "n + length rest = 1023" using pre(4) by (simp_all add: n_def)
  obtain w1 where r: "c_read io fd n w = ((int (min n (length ys)), take n ys), w1)" "pending fd w1 = Some (drop n ys)" "outp w1 = outp w" "plain w1"
    using read_full [OF pre(5,1) n(1)] by blast
  show ?case
  proof (cases "ys = []")
    case True
    then show ?thesis using r pre(3) by (subst grep.simps) (simp add: udefs matching_none n_def [symmetric])
  next
    case False
    define d z where "d = rest @ take n ys" and "z = drop n ys"
    define p where "p = snd (split_lines d)"
    define q where "q = (if length p = length d then [] else p)"
    have all: "rest @ ys = d @ z" by (simp add: d_def z_def)
    then have sub: "set d \<subseteq> set (rest @ ys)" "set z \<subseteq> set (rest @ ys)" by auto
    obtain w2 where g: "grep_lines io pattern d w1 = Some (Ret p w2)" "outp w2 = outp w1 @ matching pattern d"
        "\<forall>fd. pending fd w2 = pending fd w1" "plain w2" using grep_lines_prints [of d w1 pattern] r(4) sub(1) pre(2) unfolding p_def by blast
    have sr: "10 \<notin> set p" "set p \<subseteq> set d" "length p = length d \<Longrightarrow> p = d" "length p \<le> length d"
      using split_rest [of d] by (auto simp: p_def split: if_splits)
    have dl: "length d \<le> 1023" "z \<noteq> [] \<Longrightarrow> length d = 1023" using n(2) by (auto simp: d_def z_def)
    have lines: "\<forall>l \<in> set (fst (split_lines (p @ z))). length l < 1023" using pre(6) unfolding all split_lines_append [of d z] p_def by auto
    have m: "matching pattern (q @ z) = matching pattern (p @ z) \<and> (\<forall>l \<in> set (fst (split_lines (q @ z))). length l < 1023)"
    proof (cases "length p = length d")
      case True
      then have pd: "p = d" "10 \<notin> set d" using sr by auto
      have "10 \<notin> set z"
      proof (cases "z = []")
        case z: False
        show ?thesis by (rule first_line_long [OF pd(2)]) (use lines pd(1) dl(2) [OF z] in simp)
      qed simp
      then show ?thesis using pd True by (simp add: matching_none split_none q_def)
    qed (use lines in \<open>simp add: q_def\<close>)
    have ql: "length q < 1023" "10 \<notin> set q" "set q \<subseteq> set d" using sr dl(1) by (auto simp: q_def)
    have "0 \<notin> set (q @ z)" using pre(2) sub ql(3) by auto
    moreover have "length z < length ys" using False n(1) by (simp add: z_def)
    ultimately obtain w' where "grep io pattern fd q w2 = Some (Ret () w')" "outp w' = outp w2 @ matching pattern (q @ z)"
      using "1.IH" [rule_format, of z w2 q] g(3,4) r(2) ql m unfolding z_def by auto
    moreover have "matching pattern (rest @ ys) = matching pattern d @ matching pattern (p @ z)" unfolding all p_def by (rule matching_append)
    moreover have "0 < min n (length ys)" using False n(1) by simp
    ultimately show ?thesis using r(1,3) g(1,2) m
      by (subst grep.simps) (simp add: udefs n_def [symmetric] d_def [symmetric] q_def [symmetric] del: length_append)
  qed
qed

end

interpretation uwf: file_io uw_calls "\<lambda>fd w. uw_in w fd" uw_out "\<lambda>w. uw_cut w = []"
  by unfold_locales (auto simp: uw_calls_def uw_read_def uw_write_def Let_def min_def)

section \<open>Properties\<close>

text \<open>
  (C24) The matcher of grep decides its regular expressions: it finds a match exactly when some part of the text, at its
  beginning for an expression with a leading caret and at its end for one with a trailing dollar sign, is in the
  language of the expression's atoms.
\<close>
theorem match_correct: "match re ts = means re ts"
  by (rule match_means_all)

text \<open>
  (C25) On a file without zero bytes whose lines are shorter than 1023 bytes grep ends and prints exactly the lines that
  match, in their order, although it reads the file in pieces through its buffer.
\<close>
theorem grep_correct:
  assumes "uw_in w fd = Some xs" and "uw_cut w = []" and "0 \<notin> set xs"
    and "\<forall>l \<in> set (fst (split_lines xs)). length l < 1023"
  shows "\<exists>w'. grep uw_calls pattern fd [] w = Some (Ret () w') \<and>
    uw_out w' = uw_out w @ concat (map (\<lambda>l. l @ [10]) (filter (match pattern) (fst (split_lines xs))))"
  using uwf.grep_prints [of w fd xs "[]" pattern] assms by (simp add: matching_def)

theorem grep_correct_witness:
  "\<exists>w'. grep uw_calls [98, 42, 36] 3 [] \<lparr>uw_in = [3 \<mapsto> [97, 98, 98, 10, 97, 10, 98]], uw_cut = [], uw_out = []\<rparr> = Some (Ret () w') \<and>
    uw_out w' = concat (map (\<lambda>l. l @ [10]) (filter (match [98, 42, 36]) [[97, 98, 98], [97]]))"
  using grep_correct [of "\<lparr>uw_in = [3 \<mapsto> [97, 98, 98, 10, 97, 10, 98]], uw_cut = [], uw_out = []\<rparr>" 3 "[97, 98, 98, 10, 97, 10, 98]" "[98, 42, 36]"]
  by simp

end
