(* ===== verification/Shell.thy ===== *)
theory Shell
  imports Ulib "HOL-Library.Sublist"
begin

text \<open>
  The shell \<^verbatim>\<open>user/sh.c\<close>: its parser, the execution of parsed commands by system calls, and the main loop. The
  lemmas show that the parser ends on every line, and that a command it returns is the one that a grammar gives for the
  tokens of the line, although the parser terminates the words by zeros in the line itself.

  A pointer into the line is the list of the bytes from it to the end of the line, so \<^verbatim>\<open>s == es\<close> is the empty list. The
  functions of the parser that call each other take fuel, \<open>None\<close> when it is used up; \<open>parse_fuel\<close> is enough for every line.
  A call of \<^verbatim>\<open>panic\<close> is the result \<open>Inl\<close> of its message. Commands are built without running out of memory.
\<close>

section \<open>Commands\<close>

text \<open>
  A word is the pair of pointers to its beginning and behind its end; the commands of the program are \<open>word_ptrs cmd\<close>. With
  the strings in the place of the pointers they are \<open>uchar list cmd\<close>.
\<close>

type_synonym word_ptrs = "uchar list \<times> uchar list"

datatype 'w cmd =
  EXEC "'w list"
| REDIR "'w cmd" 'w int int
| PIPE "'w cmd" "'w cmd"
| LIST "'w cmd" "'w cmd"
| BACK "'w cmd"

definition MAXARGS :: nat where "MAXARGS = 10"

section \<open>The parser\<close>

definition is_ws :: "uchar \<Rightarrow> bool" where
  "is_ws c \<longleftrightarrow> c \<in> {32, 9, 13, 10, 11}"

definition is_symbol :: "uchar \<Rightarrow> bool" where
  "is_symbol c \<longleftrightarrow> c \<in> {60, 124, 62, 38, 59, 40, 41}"

definition skip_ws :: "uchar list \<Rightarrow> uchar list" where
  "skip_ws s = dropWhile is_ws s"

text \<open>The token, the pointers to its beginning and its end, and where the next one begins.\<close>

definition gettoken :: "uchar list \<Rightarrow> uchar \<times> word_ptrs \<times> uchar list" where
  "gettoken ps =
     (let s = skip_ws ps in
      case s of
        [] \<Rightarrow> (0, (s, s), s)
      | c # t \<Rightarrow>
          if c \<in> {124, 40, 41, 59, 38, 60} then (c, (s, t), skip_ws t)
          else if c = 62 then
            (if t \<noteq> [] \<and> hd t = 62 then (43, (s, tl t), skip_ws (tl t)) else (c, (s, t), skip_ws t))
          else
            let e = dropWhile (\<lambda>c. \<not> is_ws c \<and> \<not> is_symbol c) s in
            (97, (s, e), skip_ws e))"

definition peek :: "uchar list \<Rightarrow> uchar list \<Rightarrow> bool \<times> uchar list" where
  "peek ps toks = (let s = skip_ws ps in (s \<noteq> [] \<and> hd s \<in> set toks, s))"

definition next_token :: "uchar list \<Rightarrow> uchar list" where
  "next_token s = snd (snd (gettoken s))"

type_synonym 'a parsed = "string + 'a"

definition bindP :: "'a parsed option \<Rightarrow> ('a \<Rightarrow> 'b parsed option) \<Rightarrow> 'b parsed option" where
  "bindP p f = (case p of None \<Rightarrow> None | Some (Inl e) \<Rightarrow> Some (Inl e) | Some (Inr a) \<Rightarrow> f a)"

definition retP :: "'a \<Rightarrow> 'a parsed option" where
  "retP a = Some (Inr a)"

definition panicP :: "string \<Rightarrow> 'a parsed option" where
  "panicP e = Some (Inl e)"

text \<open>Tokens are not empty but at the end, which makes the loops of the parser end.\<close>

lemma skip_ws_length: "length (skip_ws s) \<le> length s"
  by (simp add: skip_ws_def length_dropWhile_le)

lemma gettoken_shorter:
  assumes "skip_ws s \<noteq> []"
  shows "length (snd (snd (gettoken s))) < length s"
proof -
  obtain c t where c: "skip_ws s = c # t" using assms by (cases "skip_ws s") auto
  have t: "length t < length s" using skip_ws_length [of s] c by simp
  have "\<not> is_ws c" using c hd_dropWhile [of is_ws s] by (simp add: skip_ws_def)
  moreover have "length (skip_ws (dropWhile P t)) \<le> length t" for P
    using skip_ws_length [of "dropWhile P t"] length_dropWhile_le [of P t] by linarith
  moreover have "length (skip_ws (tl t)) \<le> length t" using skip_ws_length [of "tl t"] by simp
  ultimately show ?thesis using t skip_ws_length [of t]
    by (auto simp: gettoken_def c is_symbol_def Let_def intro: le_less_trans)
qed

lemma gettoken_end: "fst (gettoken s) = 0 \<Longrightarrow> 0 \<notin> set s \<Longrightarrow> skip_ws s = []"
  by (cases "skip_ws s") (auto simp: gettoken_def Let_def skip_ws_def dest: arg_cong [of _ _ set] set_dropWhileD split: if_splits)

lemma gettoken_word: "fst (gettoken s) = 97 \<Longrightarrow> skip_ws s \<noteq> []"
  by (auto simp: gettoken_def Let_def)

lemma peek_not_end: "fst (peek s toks) \<Longrightarrow> skip_ws s \<noteq> []"
  by (auto simp: peek_def Let_def)

function parseredirs :: "word_ptrs cmd \<Rightarrow> uchar list \<Rightarrow> (word_ptrs cmd \<times> uchar list) parsed option" where
  "parseredirs cmd ps =
     (if fst (peek ps (str ''<>'')) then
        let tok = fst (gettoken ps); s = next_token ps in
        if fst (gettoken s) \<noteq> 97 then panicP ''missing file for redirection''
        else
          let q = fst (snd (gettoken s)) in
          parseredirs (if tok = 60 then REDIR cmd q 0 0 else REDIR cmd q 0x201 1) (next_token s)
      else retP (cmd, snd (peek ps (str ''<>''))))"
  by pat_completeness auto
termination
proof (relation "measure (\<lambda>(cmd, ps). length ps)")
  fix cmd ps tok s q
  assume a: "fst (peek ps (str ''<>''))" "s = next_token ps" "\<not> fst (gettoken s) \<noteq> 97"
  have "length s < length ps" unfolding a(2) next_token_def by (rule gettoken_shorter) (rule peek_not_end [OF a(1)])
  moreover have "length (next_token s) < length s" unfolding next_token_def by (rule gettoken_shorter) (use a(3) gettoken_word in blast)
  ultimately show "((if tok = 60 then REDIR cmd q 0 0 else REDIR cmd q 0x201 1, next_token s), cmd, ps) \<in> measure (\<lambda>(cmd, ps). length ps)"
    by simp
qed simp

declare parseredirs.simps [simp del]

text \<open>
  While its arguments are read, the command of \<^verbatim>\<open>parseexec\<close> is already inside of the redirections put around it: a
  store through the pointer to it changes the innermost command.
\<close>

fun add_arg :: "'w \<Rightarrow> 'w cmd \<Rightarrow> 'w cmd" where
  "add_arg q (EXEC args) = EXEC (args @ [q])"
| "add_arg q (REDIR c f m fd) = REDIR (add_arg q c) f m fd"
| "add_arg q c = c"

function parse_args :: "nat \<Rightarrow> word_ptrs cmd \<Rightarrow> uchar list \<Rightarrow> (word_ptrs cmd \<times> uchar list) parsed option" where
  "parse_args argc ret ps =
     (let s = snd (peek ps (str ''|)&;'')) in
      if fst (peek ps (str ''|)&;'')) then retP (ret, s) else
      let tok = fst (gettoken s); q = fst (snd (gettoken s)) in
      if tok = 0 then retP (ret, next_token s) else
      if tok \<noteq> 97 then panicP ''syntax'' else
      if argc + 1 \<ge> MAXARGS then panicP ''too many args'' else
      bindP (parseredirs (add_arg q ret) (next_token s)) (\<lambda>(ret, s). parse_args (argc + 1) ret s))"
  by pat_completeness auto
termination by (relation "measure (\<lambda>(argc, ret, ps). MAXARGS - argc)") auto

declare parse_args.simps [simp del]

text \<open>The loop of \<^verbatim>\<open>parseline\<close> over ampersands.\<close>

function parse_back :: "word_ptrs cmd \<Rightarrow> uchar list \<Rightarrow> word_ptrs cmd \<times> uchar list" where
  "parse_back cmd ps =
     (if fst (peek ps (str ''&'')) then parse_back (BACK cmd) (next_token (snd (peek ps (str ''&'')))) else (cmd, snd (peek ps (str ''&''))))"
  by pat_completeness auto
termination
proof (relation "measure (\<lambda>(cmd, ps). length ps)")
  fix cmd ps assume a: "fst (peek ps (str ''&''))"
  have "skip_ws (skip_ws ps) = skip_ws ps" by (simp add: skip_ws_def)
  then have "length (next_token (skip_ws ps)) < length (skip_ws ps)"
    unfolding next_token_def using peek_not_end [OF a] by (intro gettoken_shorter) simp
  then show "((BACK cmd, next_token (snd (peek ps (str ''&'')))), cmd, ps) \<in> measure (\<lambda>(cmd, ps). length ps)"
    using skip_ws_length [of ps] by (simp add: peek_def Let_def)
qed simp

declare parse_back.simps [simp del]

fun parseline :: "nat \<Rightarrow> uchar list \<Rightarrow> (word_ptrs cmd \<times> uchar list) parsed option"
  and parsepipe :: "nat \<Rightarrow> uchar list \<Rightarrow> (word_ptrs cmd \<times> uchar list) parsed option"
  and parseexec :: "nat \<Rightarrow> uchar list \<Rightarrow> (word_ptrs cmd \<times> uchar list) parsed option"
  and parseblock :: "nat \<Rightarrow> uchar list \<Rightarrow> (word_ptrs cmd \<times> uchar list) parsed option" where
  "parseline 0 ps = None"
| "parseline (Suc k) ps =
     bindP (parsepipe k ps) (\<lambda>(cmd, s).
     let (cmd, s) = parse_back cmd s; (semi, s) = peek s (str '';'') in
     if semi then
       bindP (parseline k (next_token s)) (\<lambda>(right, s).
       retP (LIST cmd right, s))
     else retP (cmd, s))"
| "parsepipe 0 ps = None"
| "parsepipe (Suc k) ps =
     bindP (parseexec k ps) (\<lambda>(cmd, s).
     let (bar, s) = peek s (str ''|'') in
     if bar then
       bindP (parsepipe k (next_token s)) (\<lambda>(right, s).
       retP (PIPE cmd right, s))
     else retP (cmd, s))"
| "parseexec 0 ps = None"
| "parseexec (Suc k) ps =
     (let (paren, s) = peek ps (str ''('') in
      if paren then parseblock k s else
      bindP (parseredirs (EXEC []) s) (\<lambda>(ret, s).
      parse_args 0 ret s))"
| "parseblock 0 ps = None"
| "parseblock (Suc k) ps =
     (let (paren, s) = peek ps (str ''('') in
      if \<not> paren then panicP ''parseblock'' else
      bindP (parseline k (next_token s)) (\<lambda>(cmd, s).
      let (close, s) = peek s (str '')'') in
      if \<not> close then panicP ''syntax - missing )'' else
      parseredirs cmd (next_token s)))"

text \<open>A line of \<open>n\<close> bytes needs at most four calls inside each other for each byte.\<close>

definition parse_fuel :: "uchar list \<Rightarrow> nat" where
  "parse_fuel s = 4 * length s + 4"

text \<open>The zeros that \<^verbatim>\<open>nulterminate\<close> stores into the line \<open>buf\<close>, at the ends of all words.\<close>

definition nul_at :: "word_ptrs \<Rightarrow> uchar list \<Rightarrow> uchar list" where
  "nul_at q buf = buf[length buf - length (snd q) := 0]"

fun nulterminate :: "word_ptrs cmd \<Rightarrow> uchar list \<Rightarrow> uchar list" where
  "nulterminate (EXEC args) buf = fold nul_at args buf"
| "nulterminate (REDIR c f m fd) buf = nul_at f (nulterminate c buf)"
| "nulterminate (PIPE l r) buf = nulterminate r (nulterminate l buf)"
| "nulterminate (LIST l r) buf = nulterminate r (nulterminate l buf)"
| "nulterminate (BACK c) buf = nulterminate c buf"

datatype parse_error = Leftovers "uchar list" | Syntax string

text \<open>The command with the line that its words point into.\<close>

definition parsecmd :: "uchar list \<Rightarrow> (parse_error + word_ptrs cmd \<times> uchar list) option" where
  "parsecmd s =
     (case parseline (parse_fuel s) s of
        None \<Rightarrow> None
      | Some (Inl e) \<Rightarrow> Some (Inl (Syntax e))
      | Some (Inr (cmd, r)) \<Rightarrow>
          if snd (peek r []) \<noteq> [] then Some (Inl (Leftovers (snd (peek r []))))
          else Some (Inr (cmd, nulterminate cmd s)))"

section \<open>Running commands\<close>

text \<open>The string at the beginning of a word, in the line with the zeros.\<close>

definition string_at :: "uchar list \<Rightarrow> word_ptrs \<Rightarrow> uchar list" where
  "string_at buf q = takeWhile (\<lambda>c. c \<noteq> 0) (drop (length buf - length (fst q)) buf)"

definition sh_panic :: "'w calls \<Rightarrow> string \<Rightarrow> ('a, 'w) uprog" where
  "sh_panic io s = thenU (fprintf io 2 ''%s\<newline>'' [VStr (Some (str s))]) exit_user"

definition fork1 :: "'w calls \<Rightarrow> (int, 'w) uprog" where
  "fork1 io = bindU (callU (c_fork io)) (\<lambda>pid. if pid = -1 then sh_panic io ''fork'' else retU pid)"

fun runcmd :: "'w calls \<Rightarrow> uchar list \<Rightarrow> word_ptrs cmd \<Rightarrow> (unit, 'w) uprog" where
  "runcmd io buf (EXEC args) =
     (if args = [] then exit_user else
      let argv = map (string_at buf) args; binpath = str ''/bin/'' @ take 13 (hd argv) in
      thenU (exec_user io binpath argv) (
      thenU (fprintf io 2 ''exec %s failed\<newline>'' [VStr (Some binpath)]) exit_user))"
| "runcmd io buf (REDIR c q mode fd) =
     thenU (callU (c_close io fd)) (
     bindU (callU (c_open io (string_at buf q) mode)) (\<lambda>r.
     if r < 0 then thenU (fprintf io 2 ''open %s failed\<newline>'' [VStr (Some (string_at buf q))]) exit_user
     else thenU (runcmd io buf c) exit_user))"
| "runcmd io buf (LIST l r) =
     bindU (fork1 io) (\<lambda>pid.
     thenU (whenU (pid = 0) (runcmd io buf l)) (
     thenU (callU (c_wait io)) (
     thenU (runcmd io buf r) exit_user)))"
| "runcmd io buf (PIPE l r) =
     bindU (callU (c_pipe io)) (\<lambda>(n, p0, p1).
     if n < 0 then sh_panic io ''pipe'' else
     bindU (fork1 io) (\<lambda>pid.
     thenU (whenU (pid = 0) (
       thenU (callU (c_close io 1)) (
       thenU (callU (c_dup io p1)) (
       thenU (callU (c_close io p0)) (
       thenU (callU (c_close io p1)) (
       runcmd io buf l)))))) (
     bindU (fork1 io) (\<lambda>pid.
     thenU (whenU (pid = 0) (
       thenU (callU (c_close io 0)) (
       thenU (callU (c_dup io p0)) (
       thenU (callU (c_close io p0)) (
       thenU (callU (c_close io p1)) (
       runcmd io buf r)))))) (
     thenU (callU (c_close io p0)) (
     thenU (callU (c_close io p1)) (
     thenU (callU (c_wait io)) (
     thenU (callU (c_wait io)) exit_user))))))))"
| "runcmd io buf (BACK c) =
     bindU (fork1 io) (\<lambda>pid.
     thenU (whenU (pid = 0) (runcmd io buf c)) exit_user)"

text \<open>The line that was read, \<open>None\<close> at the end of the input.\<close>

definition getcmd :: "'w calls \<Rightarrow> (uchar list option, 'w) uprog" where
  "getcmd io =
     thenU (fprintf io 2 ''$ '' []) (
     bindU (gets io 100) (\<lambda>bs.
     let buf = takeWhile (\<lambda>c. c \<noteq> 0) bs in
     retU (if buf = [] then None else Some buf)))"

definition run_line :: "'w calls \<Rightarrow> uchar list \<Rightarrow> (unit, 'w) uprog" where
  "run_line io buf =
     (case parsecmd buf of
        None \<Rightarrow> undefU
      | Some (Inl (Leftovers s)) \<Rightarrow> thenU (fprintf io 2 ''leftovers: %s\<newline>'' [VStr (Some s)]) (sh_panic io ''syntax'')
      | Some (Inl (Syntax e)) \<Rightarrow> sh_panic io e
      | Some (Inr (cmd, buf)) \<Rightarrow> runcmd io buf cmd)"

partial_function (option) sh_open :: "'w calls \<Rightarrow> 'w \<Rightarrow> (unit, 'w) ures option" where
  "sh_open io w =
     bindU (callU (c_open io (str ''/dev/console'') 2)) (\<lambda>fd w.
       if fd < 0 then retU () w
       else if fd \<ge> 3 then thenU (callU (c_close io fd)) (retU ()) w
       else sh_open io w) w"

definition sh_cd :: "'w calls \<Rightarrow> uchar list \<Rightarrow> (unit, 'w) uprog" where
  "sh_cd io buf =
     (let dir = drop 3 (butlast buf) in
      bindU (callU (c_chdir io dir)) (\<lambda>r.
      whenU (r < 0) (fprintf io 2 ''cannot cd %s\<newline>'' [VStr (Some dir)])))"

definition sh_command :: "'w calls \<Rightarrow> uchar list \<Rightarrow> (unit, 'w) uprog" where
  "sh_command io buf =
     (if take 3 buf = str ''cd '' then sh_cd io buf
      else
        bindU (fork1 io) (\<lambda>pid.
        thenU (whenU (pid = 0) (run_line io buf)) (
        thenU (callU (c_wait io)) (retU ()))))"

partial_function (option) sh_loop :: "'w calls \<Rightarrow> 'w \<Rightarrow> (unit, 'w) ures option" where
  "sh_loop io w =
     bindU (getcmd io) (\<lambda>buf w.
       if buf = None then exit_user w
       else thenU (sh_command io (the buf)) (\<lambda>w. sh_loop io w) w) w"

definition sh_main :: "'w calls \<Rightarrow> (unit, 'w) uprog" where
  "sh_main io = thenU (sh_open io) (sh_loop io)"

section \<open>The parser ends\<close>

lemma bindP_None: "bindP p f = None \<longleftrightarrow> p = None \<or> (\<exists>a. p = Some (Inr a) \<and> f a = None)"
  by (auto simp: bindP_def split: option.splits sum.splits)

lemma bindP_Inr: "bindP p f = Some (Inr b) \<longleftrightarrow> (\<exists>a. p = Some (Inr a) \<and> f a = Some (Inr b))"
  by (auto simp: bindP_def split: option.splits sum.splits)

lemmas parse_simps = bindP_None bindP_Inr retP_def panicP_def

lemma suffix_skip_ws: "suffix (skip_ws s) s"
  by (simp add: skip_ws_def suffix_dropWhile)

lemma skip_skip [simp]: "skip_ws (skip_ws s) = skip_ws s"
  by (simp add: skip_ws_def)

lemma snd_peek [simp]: "snd (peek s toks) = skip_ws s"
  by (simp add: peek_def Let_def)

lemma suffix_next_token: "suffix (next_token s) s"
proof (cases "skip_ws s")
  case Nil
  then show ?thesis by (simp add: next_token_def gettoken_def)
next
  case (Cons c t)
  have s: "suffix t s" using suffix_skip_ws [of s] Cons by (metis suffix_ConsD)
  have "suffix (skip_ws u) s" if "suffix u (c # t)" for u
    using suffix_skip_ws [of u] suffix_skip_ws [of s] that Cons by (metis suffix_order.trans)
  moreover have "suffix t (c # t)" "suffix (tl t) (c # t)" "suffix (dropWhile P (c # t)) (c # t)" for P
    by (simp_all add: suffix_ConsI suffix_tl suffix_dropWhile)
  ultimately have "suffix (skip_ws t) s" "suffix (skip_ws (tl t)) s" "suffix (skip_ws (dropWhile P (c # t))) s" for P by blast+
  then show ?thesis unfolding next_token_def gettoken_def Cons Let_def list.case by (simp split: if_split del: dropWhile.simps)
qed

lemma next_token_shorter: "skip_ws s \<noteq> [] \<Longrightarrow> length (next_token s) < length s"
  unfolding next_token_def by (rule gettoken_shorter)

text \<open>The cases of each function of the parser, for a result and for lack of fuel.\<close>

lemmas parse_eqs = parseline.simps(2) parsepipe.simps(2) parseexec.simps(2) parseblock.simps(2)

lemmas parse_unfold = parse_eqs parse_simps case_prod_unfold Let_def

lemma parseredirs_elim:
  assumes "parseredirs c s = Some (Inr (c', s'))"
  obtains "c' = c" "s' = skip_ws s"
  | q d where "fst (gettoken (next_token s)) = 97" "q = fst (snd (gettoken (next_token s)))" "d = REDIR c q 0 0 \<or> d = REDIR c q 0x201 1"
      "length (next_token (next_token s)) < length s" "parseredirs d (next_token (next_token s)) = Some (Inr (c', s'))"
proof (cases "fst (peek s (str ''<>''))")
  case True
  then have w: "fst (gettoken (next_token s)) = 97" using assms by (subst (asm) parseredirs.simps) (auto simp: Let_def panicP_def split: if_splits)
  have "length (next_token s) < length s" by (rule next_token_shorter [OF peek_not_end [OF True]])
  moreover have "length (next_token (next_token s)) < length (next_token s)" by (rule next_token_shorter [OF gettoken_word [OF w]])
  ultimately have len: "length (next_token (next_token s)) < length s" by simp
  let ?d = "if fst (gettoken s) = 60 then REDIR c (fst (snd (gettoken (next_token s)))) 0 0 else REDIR c (fst (snd (gettoken (next_token s)))) 0x201 1"
  have "parseredirs c s = parseredirs ?d (next_token (next_token s))" by (subst parseredirs.simps) (simp only: Let_def True w if_True if_False not_not simp_thms)
  then show thesis using that(2) [of "fst (snd (gettoken (next_token s)))" ?d, OF w refl _ len] assms by simp
next
  case False
  then show thesis using that(1) assms by (subst (asm) parseredirs.simps) (simp add: retP_def)
qed

lemma parse_args_elim:
  assumes "parse_args n c s = Some (Inr (c', s'))"
  obtains "c' = c" "s' = skip_ws s \<or> s' = next_token (skip_ws s) \<and> fst (gettoken (skip_ws s)) = 0"
  | c1 s1 where "fst (gettoken (skip_ws s)) = 97" "n + 1 < MAXARGS"
      "parseredirs (add_arg (fst (snd (gettoken (skip_ws s)))) c) (next_token (skip_ws s)) = Some (Inr (c1, s1))"
      "parse_args (n + 1) c1 s1 = Some (Inr (c', s'))"
  using assms by (subst (asm) parse_args.simps) (auto simp: Let_def parse_simps split: if_splits)

lemma parseline_elim:
  assumes "parseline (Suc k) s = Some (Inr (c, s'))"
  obtains c1 s1 where "parsepipe k s = Some (Inr (c1, s1))" "c = fst (parse_back c1 s1)" "s' = skip_ws (snd (parse_back c1 s1))"
  | c1 s1 c2 where "parsepipe k s = Some (Inr (c1, s1))" "c = LIST (fst (parse_back c1 s1)) c2"
      "parseline k (next_token (skip_ws (snd (parse_back c1 s1)))) = Some (Inr (c2, s'))"
  using assms by (auto simp: parse_unfold split: if_splits)

lemma parsepipe_elim:
  assumes "parsepipe (Suc k) s = Some (Inr (c, s'))"
  obtains s1 where "parseexec k s = Some (Inr (c, s1))" "s' = skip_ws s1"
  | c1 s1 c2 where "parseexec k s = Some (Inr (c1, s1))" "c = PIPE c1 c2" "parsepipe k (next_token (skip_ws s1)) = Some (Inr (c2, s'))"
  using assms by (auto simp: parse_unfold split: if_splits)

lemma parseexec_elim:
  assumes "parseexec (Suc k) s = Some (Inr (c, s'))"
  obtains "parseblock k (skip_ws s) = Some (Inr (c, s'))"
  | c1 s1 where "parseredirs (EXEC []) (skip_ws s) = Some (Inr (c1, s1))" "parse_args 0 c1 s1 = Some (Inr (c, s'))"
  using assms by (auto simp: parse_unfold split: if_splits)

lemma parseblock_elim:
  assumes "parseblock (Suc k) s = Some (Inr (c, s'))"
  obtains c1 s1 where "parseline k (next_token (skip_ws s)) = Some (Inr (c1, s1))"
    "parseredirs c1 (next_token (skip_ws s1)) = Some (Inr (c, s'))"
  using assms by (auto simp: parse_unfold split: if_splits)

subsection \<open>Words\<close>

definition is_delim :: "uchar \<Rightarrow> bool" where
  "is_delim c \<longleftrightarrow> is_ws c \<or> is_symbol c"

definition word_text :: "word_ptrs \<Rightarrow> uchar list" where
  "word_text q = take (length (fst q) - length (snd q)) (fst q)"

text \<open>A word of the line: bytes that are no delimiters, up to a delimiter or the end of the line.\<close>

definition word_ok :: "uchar list \<Rightarrow> word_ptrs \<Rightarrow> bool" where
  "word_ok line q \<longleftrightarrow> (\<exists>w. suffix (fst q) line \<and> fst q = w @ snd q \<and> w \<noteq> [] \<and> (\<forall>c \<in> set w. \<not> is_delim c) \<and>
     (snd q = [] \<or> is_delim (hd (snd q))))"

fun cmd_ok :: "uchar list \<Rightarrow> word_ptrs cmd \<Rightarrow> bool" where
  "cmd_ok line (EXEC args) \<longleftrightarrow> length args < MAXARGS \<and> (\<forall>q \<in> set args. word_ok line q)"
| "cmd_ok line (REDIR c q m fd) \<longleftrightarrow> cmd_ok line c \<and> word_ok line q \<and> (m = 0 \<and> fd = 0 \<or> m = 0x201 \<and> fd = 1)"
| "cmd_ok line (PIPE l r) \<longleftrightarrow> cmd_ok line l \<and> cmd_ok line r"
| "cmd_ok line (LIST l r) \<longleftrightarrow> cmd_ok line l \<and> cmd_ok line r"
| "cmd_ok line (BACK c) \<longleftrightarrow> cmd_ok line c"

fun argc_of :: "word_ptrs cmd \<Rightarrow> nat" where
  "argc_of (EXEC args) = length args"
| "argc_of (REDIR c q m fd) = argc_of c"
| "argc_of c = 0"

lemma gettoken_word_ok:
  assumes "fst (gettoken s) = 97" and "suffix s line"
  shows "word_ok line (fst (snd (gettoken s)))"
proof -
  obtain c t where c: "skip_ws s = c # t" using gettoken_word [OF assms(1)] by (cases "skip_ws s") auto
  have ws: "\<not> is_ws c" using c hd_dropWhile [of is_ws s] by (simp add: skip_ws_def)
  have sy: "\<not> is_symbol c" using assms(1) ws by (auto simp: gettoken_def c Let_def is_symbol_def split: if_splits)
  let ?P = "\<lambda>c. \<not> is_ws c \<and> \<not> is_symbol c"
  have g: "fst (snd (gettoken s)) = (c # t, dropWhile ?P (c # t))" using sy by (auto simp: gettoken_def c Let_def is_symbol_def)
  have "suffix (c # t) line" using suffix_skip_ws [of s] assms(2) c by (metis suffix_order.trans)
  moreover have "c # t = takeWhile ?P (c # t) @ dropWhile ?P (c # t)" by simp
  moreover have "takeWhile ?P (c # t) \<noteq> []" using ws sy by simp
  moreover have "\<forall>x \<in> set (takeWhile ?P (c # t)). \<not> is_delim x" by (auto simp: is_delim_def dest: set_takeWhileD)
  moreover have "dropWhile ?P (c # t) = [] \<or> is_delim (hd (dropWhile ?P (c # t)))"
    using hd_dropWhile [of ?P "c # t"] unfolding is_delim_def by blast
  ultimately show ?thesis unfolding word_ok_def g fst_conv snd_conv by blast
qed

lemma parseredirs_ok:
  assumes "parseredirs c s = Some (Inr (c', s'))"
  shows "suffix s' s \<and> argc_of c' = argc_of c \<and> (suffix s line \<longrightarrow> cmd_ok line c \<longrightarrow> cmd_ok line c')"
  using assms
proof (induction "length s" arbitrary: c s rule: less_induct)
  case less
  have nn: "suffix (next_token (next_token s)) s" using suffix_next_token suffix_order.trans by blast
  show ?case
  proof (cases rule: parseredirs_elim [OF less.prems])
    case 1
    then show ?thesis using suffix_skip_ws by simp
  next
    case (2 q d)
    note IH = less.hyps [OF 2(4,5)]
    have "cmd_ok line d" if "suffix s line" "cmd_ok line c"
      using 2(1,2,3) that gettoken_word_ok [of "next_token s" line] suffix_next_token [of s] by (auto intro: suffix_order.trans)
    moreover have "argc_of d = argc_of c" using 2(3) by auto
    ultimately show ?thesis using IH nn by (auto intro: suffix_order.trans)
  qed
qed

lemma add_arg_ok:
  assumes "cmd_ok line c" and "word_ok line q" and "argc_of c + 1 < MAXARGS"
  shows "cmd_ok line (add_arg q c)" and "argc_of (add_arg q c) \<le> argc_of c + 1"
  using assms by (induction q c rule: add_arg.induct) auto

lemma parse_args_ok:
  assumes "parse_args n c s = Some (Inr (c', s'))"
  shows "suffix s' s \<and> (suffix s line \<longrightarrow> argc_of c \<le> n \<longrightarrow> cmd_ok line c \<longrightarrow> cmd_ok line c')"
  using assms
proof (induction "MAXARGS - n" arbitrary: n c s rule: less_induct)
  case less
  have ns: "suffix (next_token (skip_ws s)) s" "suffix (skip_ws s) s" using suffix_next_token suffix_skip_ws suffix_order.trans by blast+
  show ?case
  proof (cases rule: parse_args_elim [OF less.prems])
    case 1
    then show ?thesis using ns by auto
  next
    case (2 c1 s1)
    let ?q = "fst (snd (gettoken (skip_ws s)))"
    have IH: "suffix s' s1 \<and> (suffix s1 line \<longrightarrow> argc_of c1 \<le> n + 1 \<longrightarrow> cmd_ok line c1 \<longrightarrow> cmd_ok line c')"
      using less.hyps [OF _ 2(4)] 2(2) by simp
    have r: "suffix s1 (next_token (skip_ws s))" "argc_of c1 = argc_of (add_arg ?q c)"
        "suffix (next_token (skip_ws s)) line \<Longrightarrow> cmd_ok line (add_arg ?q c) \<Longrightarrow> cmd_ok line c1"
      using parseredirs_ok [OF 2(3)] by blast+
    have s1: "suffix s1 s" using r(1) ns(1) by (rule suffix_order.trans)
    have "cmd_ok line c'" if l: "suffix s line" "argc_of c \<le> n" "cmd_ok line c"
    proof -
      have "word_ok line ?q" using gettoken_word_ok [OF 2(1)] ns(2) l(1) suffix_order.trans by blast
      then have a: "cmd_ok line (add_arg ?q c)" "argc_of (add_arg ?q c) \<le> n + 1" using add_arg_ok [of line c ?q] l 2(2) by auto
      then have "cmd_ok line c1" using r(3) ns(1) l(1) suffix_order.trans by blast
      then show ?thesis using IH r(2) a(2) s1 l(1) suffix_order.trans by metis
    qed
    then show ?thesis using IH s1 suffix_order.trans by blast
  qed
qed

lemma parse_back_ok: "suffix (snd (parse_back c s)) s \<and> cmd_ok line (fst (parse_back c s)) = cmd_ok line c"
proof (induction c s rule: parse_back.induct)
  case (1 c s)
  have n: "suffix (next_token (skip_ws s)) s" using suffix_next_token suffix_skip_ws suffix_order.trans by blast
  show ?case
  proof (cases "fst (peek s (str ''&''))")
    case True
    then have "parse_back c s = parse_back (BACK c) (next_token (skip_ws s))" by (subst parse_back.simps) simp
    then show ?thesis using "1.IH" [OF True] n suffix_order.trans by (metis cmd_ok.simps(5) snd_peek)
  next
    case False
    then show ?thesis using suffix_skip_ws by (subst (1 2) parse_back.simps) simp
  qed
qed

lemma parse_ok:
  "suffix s line \<Longrightarrow>
     (parseline k s = Some (Inr (c, s')) \<longrightarrow> suffix s' s \<and> cmd_ok line c) \<and>
     (parsepipe k s = Some (Inr (c, s')) \<longrightarrow> suffix s' s \<and> cmd_ok line c) \<and>
     (parseexec k s = Some (Inr (c, s')) \<longrightarrow> suffix s' s \<and> cmd_ok line c) \<and>
     (parseblock k s = Some (Inr (c, s')) \<longrightarrow> suffix s' s \<and> cmd_ok line c)"
proof (induction k arbitrary: s c s')
  case (Suc k)
  note tr = suffix_order.trans
  have line: "suffix a s \<Longrightarrow> suffix a line" for a using Suc.prems tr by blast
  have nt: "suffix b a \<Longrightarrow> suffix (next_token (skip_ws b)) a" and sk: "suffix b a \<Longrightarrow> suffix (skip_ws b) a" for a b
    using suffix_next_token suffix_skip_ws tr by blast+
  have "suffix s' s \<and> cmd_ok line c" if "parseline (Suc k) s = Some (Inr (c, s'))"
    using that
  proof (cases rule: parseline_elim)
    case (1 c1 s1)
    have "suffix s1 s \<and> cmd_ok line c1" using Suc.IH [OF Suc.prems] 1(1) by blast
    then show ?thesis using parse_back_ok [of c1 s1 line] 1(2,3) sk tr by blast
  next
    case (2 c1 s1 c2)
    let ?b = "snd (parse_back c1 s1)"
    have 3: "suffix s1 s \<and> cmd_ok line c1" using Suc.IH [OF Suc.prems] 2(1) by blast
    then have b: "suffix ?b s" using parse_back_ok [of c1 s1 line] tr by blast
    have "suffix s' (next_token (skip_ws ?b)) \<and> cmd_ok line c2" using Suc.IH [OF line [OF nt [OF b]]] 2(3) by blast
    then show ?thesis using 3 parse_back_ok [of c1 s1 line] nt [OF b] tr 2(2) by auto
  qed
  moreover have "suffix s' s \<and> cmd_ok line c" if "parsepipe (Suc k) s = Some (Inr (c, s'))"
    using that
  proof (cases rule: parsepipe_elim)
    case (1 s1)
    then show ?thesis using Suc.IH [OF Suc.prems] sk by blast
  next
    case (2 c1 s1 c2)
    have 3: "suffix s1 s \<and> cmd_ok line c1" using Suc.IH [OF Suc.prems] 2(1) by blast
    then have "suffix s' (next_token (skip_ws s1)) \<and> cmd_ok line c2" using Suc.IH [OF line [OF nt]] 2(3) by blast
    then show ?thesis using 3 nt [of s1 s] tr 2(2) by (metis cmd_ok.simps(3))
  qed
  moreover have "suffix s' s \<and> cmd_ok line c" if "parseexec (Suc k) s = Some (Inr (c, s'))"
    using that
  proof (cases rule: parseexec_elim)
    case 1
    have "suffix (skip_ws s) s" by (rule suffix_skip_ws)
    then show ?thesis using Suc.IH [OF line] 1 tr by blast
  next
    case (2 c1 s1)
    have e: "cmd_ok line (EXEC [])" by (simp add: MAXARGS_def)
    have r: "suffix s1 (skip_ws s) \<and> argc_of c1 = 0 \<and> cmd_ok line c1"
      using parseredirs_ok [OF 2(1), of line] e line [OF suffix_skip_ws] by simp
    have "suffix s1 s" using r suffix_skip_ws tr by blast
    then show ?thesis using parse_args_ok [OF 2(2), of line] r line tr by (metis le_refl)
  qed
  moreover have "suffix s' s \<and> cmd_ok line c" if "parseblock (Suc k) s = Some (Inr (c, s'))"
    using that
  proof (cases rule: parseblock_elim)
    case (1 c1 s1)
    have n: "suffix (next_token (skip_ws s)) s" by (rule nt) simp
    have 2: "suffix s1 (next_token (skip_ws s)) \<and> cmd_ok line c1" using Suc.IH [OF line [OF n]] 1(1) by blast
    then have m: "suffix (next_token (skip_ws s1)) s" using nt n tr by blast
    then show ?thesis using parseredirs_ok [OF 1(2), of line] 2 line [OF m] tr by blast
  qed
  ultimately show ?case by blast
qed simp

subsection \<open>Enough fuel\<close>

lemma parseredirs_total: "parseredirs c s \<noteq> None"
proof (induction c s rule: parseredirs.induct)
  case (1 c s)
  then show ?case by (subst parseredirs.simps) (auto simp: Let_def retP_def panicP_def)
qed

lemma bindP_total: "p \<noteq> None \<Longrightarrow> (\<And>a. p = Some (Inr a) \<Longrightarrow> f a \<noteq> None) \<Longrightarrow> bindP p f \<noteq> None"
  by (simp add: bindP_None del: not_None_eq)

lemma parse_args_total: "parse_args n c s \<noteq> None"
proof (induction "MAXARGS - n" arbitrary: n c s rule: less_induct)
  case less
  have "bindP (parseredirs c' s') (\<lambda>(ret, s). parse_args (n + 1) ret s) \<noteq> None" if "n + 1 < MAXARGS" for c' s'
    by (rule bindP_total [OF parseredirs_total]) (use less [of "n + 1"] that in \<open>simp add: case_prod_unfold\<close>)
  then show ?case by (subst parse_args.simps) (auto simp: Let_def retP_def panicP_def simp del: not_None_eq)
qed

lemma parse_total:
  "(4 * length s + 4 \<le> k \<longrightarrow> parseline k s \<noteq> None) \<and> (4 * length s + 3 \<le> k \<longrightarrow> parsepipe k s \<noteq> None) \<and>
   (4 * length s + 2 \<le> k \<longrightarrow> parseexec k s \<noteq> None) \<and> (4 * length s + 1 \<le> k \<longrightarrow> parseblock k s \<noteq> None)"
proof (induction k arbitrary: s)
  case (Suc k)
  have tok: "length (next_token (skip_ws a)) < length s" if "suffix a s" "fst (peek a toks)" for a toks
    using next_token_shorter [of "skip_ws a"] peek_not_end [OF that(2)] skip_ws_length [of a] suffix_length_le [OF that(1)] by simp
  have sk: "length (skip_ws s) \<le> length s" by (rule skip_ws_length)
  have "parseline (Suc k) s \<noteq> None" if k: "4 * length s + 4 \<le> Suc k"
  proof
    assume n: "parseline (Suc k) s = None"
    have "parsepipe k s \<noteq> None" using Suc.IH [of s] k by simp
    then obtain c1 s1 where p: "parsepipe k s = Some (Inr (c1, s1))" "fst (peek (snd (parse_back c1 s1)) (str '';''))"
        "parseline k (next_token (skip_ws (snd (parse_back c1 s1)))) = None"
      using n by (auto simp: parse_unfold split: if_splits)
    have "suffix (snd (parse_back c1 s1)) s" using parse_ok [of s s k c1 s1] p(1) parse_back_ok [of c1 s1] suffix_order.trans by blast
    then show False using Suc.IH [of "next_token (skip_ws (snd (parse_back c1 s1)))"] tok [OF _ p(2)] p(3) k by force
  qed
  moreover have "parsepipe (Suc k) s \<noteq> None" if k: "4 * length s + 3 \<le> Suc k"
  proof
    assume n: "parsepipe (Suc k) s = None"
    have "parseexec k s \<noteq> None" using Suc.IH [of s] k by simp
    then obtain c1 s1 where p: "parseexec k s = Some (Inr (c1, s1))" "fst (peek s1 (str ''|''))" "parsepipe k (next_token (skip_ws s1)) = None"
      using n by (auto simp: parse_unfold split: if_splits)
    have "suffix s1 s" using parse_ok [of s s k c1 s1] p(1) by blast
    then show False using Suc.IH [of "next_token (skip_ws s1)"] tok [OF _ p(2)] p(3) k by force
  qed
  moreover have "parseexec (Suc k) s \<noteq> None" if k: "4 * length s + 2 \<le> Suc k"
  proof -
    have "parseblock k (skip_ws s) \<noteq> None" using Suc.IH [of "skip_ws s"] sk k by simp
    moreover have "bindP (parseredirs (EXEC []) (skip_ws s)) (\<lambda>p. parse_args 0 (fst p) (snd p)) \<noteq> None"
      by (rule bindP_total [OF parseredirs_total parse_args_total])
    ultimately show ?thesis by (simp add: parse_eqs Let_def case_prod_unfold del: not_None_eq)
  qed
  moreover have "parseblock (Suc k) s \<noteq> None" if k: "4 * length s + 1 \<le> Suc k"
  proof (cases "fst (peek s (str ''(''))")
    case True
    have "parseline k (next_token (skip_ws s)) \<noteq> None" using Suc.IH [of "next_token (skip_ws s)"] tok [OF _ True] k by simp
    then have "bindP (parseline k (next_token (skip_ws s))) (\<lambda>p. if \<not> fst (peek (snd p) (str '')'')) then panicP ''syntax - missing )''
        else parseredirs (fst p) (next_token (skip_ws (snd p)))) \<noteq> None"
      by (rule bindP_total) (use parseredirs_total in \<open>simp add: panicP_def\<close>)
    then show ?thesis using True by (simp add: parse_eqs Let_def case_prod_unfold del: not_None_eq cong del: if_weak_cong)
  qed (simp add: parse_unfold)
  ultimately show ?case by blast
qed simp

subsection \<open>Strings\<close>

fun cmd_words :: "word_ptrs cmd \<Rightarrow> word_ptrs list" where
  "cmd_words (EXEC args) = args"
| "cmd_words (REDIR c q m fd) = cmd_words c @ [q]"
| "cmd_words (PIPE l r) = cmd_words l @ cmd_words r"
| "cmd_words (LIST l r) = cmd_words l @ cmd_words r"
| "cmd_words (BACK c) = cmd_words c"

lemma nulterminate_fold: "nulterminate c buf = fold nul_at (cmd_words c) buf"
  by (induction c arbitrary: buf) simp_all

lemma cmd_ok_words: "cmd_ok line c \<Longrightarrow> q \<in> set (cmd_words c) \<Longrightarrow> word_ok line q"
  by (induction c) auto

definition word_end :: "uchar list \<Rightarrow> word_ptrs \<Rightarrow> nat" where
  "word_end line q = length line - length (snd q)"

lemma fold_nul_at:
  "length (fold nul_at qs buf) = length buf \<and>
   (\<forall>i < length buf. fold nul_at qs buf ! i = (if i \<in> word_end buf ` set qs then 0 else buf ! i))"
proof (induction qs arbitrary: buf)
  case (Cons q qs)
  have "word_end (nul_at q buf) = word_end buf" by (simp add: fun_eq_iff word_end_def nul_at_def)
  then show ?case using Cons.IH [of "nul_at q buf"] by (auto simp: nul_at_def word_end_def nth_list_update)
qed simp

lemma string_at_word:
  assumes q: "word_ok line q" "q \<in> set qs" and qs: "\<forall>r \<in> set qs. word_ok line r" and z: "0 \<notin> set line"
  shows "string_at (fold nul_at qs line) q = word_text q"
proof -
  obtain w pre where w: "fst q = w @ snd q" "\<forall>c \<in> set w. \<not> is_delim c" and pre: "line = pre @ w @ snd q"
    using q(1) by (auto simp: word_ok_def suffix_def)
  let ?b = "fold nul_at qs line"
  have len: "length ?b = length line" and nth: "i < length line \<Longrightarrow> ?b ! i = (if i \<in> word_end line ` set qs then 0 else line ! i)" for i
    using fold_nul_at [of qs line] by auto
  have delim: "is_delim (line ! word_end line r)" if r: "r \<in> set qs" "word_end line r < length line" for r
  proof -
    have ok: "word_ok line r" using qs r(1) by blast
    then obtain u where u: "line = u @ snd r" by (auto simp: word_ok_def suffix_def)
    then have "snd r \<noteq> []" "line ! word_end line r = hd (snd r)" using r(2) by (auto simp: word_end_def nth_append hd_conv_nth)
    then show ?thesis using ok by (auto simp: word_ok_def)
  qed
  have keep: "?b ! i = line ! i \<and> ?b ! i \<noteq> 0" if i: "length pre \<le> i" "i < length pre + length w" for i
  proof -
    have il: "i < length line" "line ! i \<in> set w" using i by (auto simp: pre nth_append)
    then have "i \<notin> word_end line ` set qs" using delim w(2) by blast
    then show ?thesis using nth [OF il(1)] z il(1) by (metis nth_mem)
  qed
  have d: "drop (length ?b - length (fst q)) ?b = take (length w) (drop (length pre) ?b) @ drop (length pre + length w) ?b"
    using append_take_drop_id [of "length w" "drop (length pre) ?b"] w(1) len pre by (simp add: add.commute)
  have t: "take (length w) (drop (length pre) ?b) = w"
    by (rule nth_equalityI) (use len keep pre in \<open>auto simp: nth_append\<close>)
  have nz: "\<forall>c \<in> set w. c \<noteq> 0" using z pre by auto
  have e: "takeWhile (\<lambda>c. c \<noteq> 0) (drop (length pre + length w) ?b) = []"
  proof (cases "length pre + length w < length line")
    case True
    have "word_end line q = length pre + length w" using pre by (simp add: word_end_def)
    then have "?b ! (length pre + length w) = 0" using nth [OF True] q(2) by (metis image_eqI)
    moreover have "drop (length pre + length w) ?b = ?b ! (length pre + length w) # drop (Suc (length pre + length w)) ?b"
      using True len by (simp add: Cons_nth_drop_Suc)
    ultimately show ?thesis by simp
  qed (use len in simp)
  show ?thesis unfolding string_at_def d t using nz e w(1) by (simp add: word_text_def takeWhile_append2)
qed

section \<open>The grammar of command lines\<close>

text \<open>
  The tokens of a line, without the functions of the parser: symbols, the double symbol that appends, and words, which are the
  longest sequences of other bytes.
\<close>

datatype token = Word "uchar list" | Sym uchar | Append

function tokens :: "uchar list \<Rightarrow> token list" where
  "tokens s =
     (case dropWhile is_ws s of
        [] \<Rightarrow> []
      | c # t \<Rightarrow>
          if c = 62 \<and> t \<noteq> [] \<and> hd t = 62 then Append # tokens (tl t)
          else if is_symbol c then Sym c # tokens t
          else Word (takeWhile (\<lambda>c. \<not> is_delim c) (c # t)) # tokens (dropWhile (\<lambda>c. \<not> is_delim c) t))"
  by pat_completeness auto
termination
proof (relation "measure length")
  fix s c t assume "dropWhile is_ws s = c # (t :: uchar list)"
  then have t: "length t < length s" using length_dropWhile_le [of is_ws s] by simp
  then show "(tl t, s) \<in> measure length" "(t, s) \<in> measure length" by simp_all
  show "(dropWhile (\<lambda>c. \<not> is_delim c) t, s) \<in> measure length" using t length_dropWhile_le [of "\<lambda>c. \<not> is_delim c" t] by simp
qed simp

declare tokens.simps [simp del]

text \<open>Redirections, put around a command in their order.\<close>

inductive redirs :: "token list \<Rightarrow> uchar list cmd \<Rightarrow> uchar list cmd \<Rightarrow> bool" where
  redirs_none: "redirs [] c c"
| redirs_in: "redirs ts (REDIR c w 0 0) c' \<Longrightarrow> redirs (Sym 60 # Word w # ts) c c'"
| redirs_out: "redirs ts (REDIR c w 0x201 1) c' \<Longrightarrow> r = Sym 62 \<or> r = Append \<Longrightarrow> redirs (r # Word w # ts) c c'"

text \<open>The arguments and the redirections of a simple command, which may be mixed.\<close>

inductive simple :: "token list \<Rightarrow> uchar list list \<Rightarrow> token list \<Rightarrow> bool" where
  simple_none: "simple [] [] []"
| simple_arg: "simple ts ws rs \<Longrightarrow> simple (Word w # ts) (w # ws) rs"
| simple_redir: "simple ts ws rs \<Longrightarrow> r \<in> {Sym 60, Sym 62, Append} \<Longrightarrow> simple (r # Word w # ts) ws (r # Word w # rs)"

text \<open>
  A command is simple, or a line in parentheses with redirections; a pipeline is a sequence of commands with bars between them;
  and a line is a pipeline, put into the background once for each ampersand after it, or such a pipeline, a semicolon and a line.
\<close>

inductive command :: "token list \<Rightarrow> uchar list cmd \<Rightarrow> bool"
  and pipeline :: "token list \<Rightarrow> uchar list cmd \<Rightarrow> bool"
  and cmdline :: "token list \<Rightarrow> uchar list cmd \<Rightarrow> bool" where
  cmd_simple: "simple ts ws rs \<Longrightarrow> length ws < MAXARGS \<Longrightarrow> redirs rs (EXEC ws) c \<Longrightarrow> command ts c"
| cmd_block: "cmdline ts c \<Longrightarrow> redirs rs c c' \<Longrightarrow> command (Sym 40 # ts @ Sym 41 # rs) c'"
| pipe_one: "command ts c \<Longrightarrow> pipeline ts c"
| pipe_more: "command ts c \<Longrightarrow> pipeline us d \<Longrightarrow> pipeline (ts @ Sym 124 # us) (PIPE c d)"
| line_one: "pipeline ts c \<Longrightarrow> cmdline (ts @ replicate n (Sym 38)) ((BACK ^^ n) c)"
| line_more: "pipeline ts c \<Longrightarrow> cmdline us d \<Longrightarrow> cmdline (ts @ replicate n (Sym 38) @ Sym 59 # us) (LIST ((BACK ^^ n) c) d)"

lemma redirs_append: "redirs rs c c1 \<Longrightarrow> redirs us c1 c2 \<Longrightarrow> redirs (rs @ us) c c2"
  by (induction rule: redirs.induct) (auto intro: redirs.intros)

lemma redirs_add_arg: "redirs rs c d \<Longrightarrow> redirs rs (add_arg w c) (add_arg w d)"
  by (induction rule: redirs.induct) (auto intro: redirs.intros)

lemma redirs_simple: "redirs rs c d \<Longrightarrow> simple rs [] rs"
  by (induction rule: redirs.induct) (auto intro: simple.intros)

lemma simple_append: "simple ts ws rs \<Longrightarrow> simple us ws' rs' \<Longrightarrow> simple (ts @ us) (ws @ ws') (rs @ rs')"
  by (induction rule: simple.induct) (auto intro: simple.intros)

subsection \<open>The tokens that the parser sees\<close>

lemma tokens_skip [simp]: "tokens (skip_ws s) = tokens s"
  by (subst (1 2) tokens.simps) (simp add: skip_ws_def)

lemma next_token_skip [simp]: "next_token (skip_ws s) = next_token s" "gettoken (skip_ws s) = gettoken s"
  by (simp_all add: next_token_def gettoken_def)

lemma skip_ws_Nil: "skip_ws [] = []"
  by (simp add: skip_ws_def)

lemma tokens_end: "skip_ws s = [] \<Longrightarrow> tokens s = []"
  by (subst tokens.simps) (simp only: skip_ws_def list.case)

lemma tokens_Cons:
  assumes "skip_ws s = c # t"
  shows "tokens s = (if c = 62 \<and> t \<noteq> [] \<and> hd t = 62 then Append # tokens (tl t)
    else if is_symbol c then Sym c # tokens t
    else Word (takeWhile (\<lambda>c. \<not> is_delim c) (c # t)) # tokens (dropWhile (\<lambda>c. \<not> is_delim c) t))"
  by (subst tokens.simps) (simp only: assms [unfolded skip_ws_def] list.case)

lemma gettoken_0: "fst (gettoken s) = 0 \<Longrightarrow> skip_ws s = [] \<and> next_token s = []"
  by (cases "skip_ws s") (auto simp: next_token_def gettoken_def Let_def split: if_splits)

lemma tokens_word:
  assumes "fst (gettoken s) = 97"
  shows "tokens s = Word (word_text (fst (snd (gettoken s)))) # tokens (next_token s)"
proof -
  obtain c t where c: "skip_ws s = c # t" using gettoken_word [OF assms] by (cases "skip_ws s") auto
  have ws: "\<not> is_ws c" using c hd_dropWhile [of is_ws s] by (simp add: skip_ws_def)
  have sy: "\<not> is_symbol c" "c \<noteq> 62" using assms ws by (auto simp: gettoken_def c Let_def is_symbol_def split: if_splits)
  let ?P = "\<lambda>c. \<not> is_delim c"
  have P: "(\<lambda>c. \<not> is_ws c \<and> \<not> is_symbol c) = ?P" by (auto simp: is_delim_def)
  have g: "gettoken s = (97, (c # t, dropWhile ?P (c # t)), skip_ws (dropWhile ?P (c # t)))"
    using sy unfolding gettoken_def c Let_def P by (auto simp: is_symbol_def)
  have d: "?P c" using ws sy by (simp add: is_delim_def)
  have len: "length (takeWhile ?P t) + length (dropWhile ?P t) = length t" by (metis length_append takeWhile_dropWhile_id)
  have "take (Suc (length t) - length (dropWhile ?P t)) (c # t) = c # takeWhile ?P t"
    using len by (simp add: Suc_diff_le takeWhile_eq_take [symmetric]) (metis add_diff_cancel_right' takeWhile_eq_take)
  then have "word_text (c # t, dropWhile ?P (c # t)) = takeWhile ?P (c # t)" using d by (simp add: word_text_def)
  then show ?thesis using sy d by (simp add: tokens_Cons [OF c] g next_token_def)
qed

lemma tokens_symbol:
  assumes "skip_ws s = c # t" and "is_symbol c"
  shows "tokens s = (if fst (gettoken s) = 43 then Append else Sym c) # tokens (next_token s)" "c \<noteq> 62 \<Longrightarrow> fst (gettoken s) = c"
    "c = 62 \<Longrightarrow> fst (gettoken s) = 43 \<or> fst (gettoken s) = 62"
proof -
  have n: "c \<noteq> 43" using assms(2) by (auto simp: is_symbol_def)
  have g: "gettoken s = (if c = 62 \<and> t \<noteq> [] \<and> hd t = 62 then (43, (c # t, tl t), skip_ws (tl t)) else (c, (c # t, t), skip_ws t))"
    using assms by (auto simp: gettoken_def is_symbol_def)
  show "tokens s = (if fst (gettoken s) = 43 then Append else Sym c) # tokens (next_token s)"
    using n assms(2) by (simp add: tokens_Cons [OF assms(1)] g next_token_def)
  show "c \<noteq> 62 \<Longrightarrow> fst (gettoken s) = c" "c = 62 \<Longrightarrow> fst (gettoken s) = 43 \<or> fst (gettoken s) = 62" by (simp_all add: g)
qed

lemma peek_symbol:
  assumes "fst (peek s toks)" and "\<forall>c \<in> set toks. is_symbol c"
  obtains c t where "skip_ws s = c # t" "c \<in> set toks" "is_symbol c"
  using assms by (cases "skip_ws s") (auto simp: peek_def Let_def)

lemma peek_one:
  assumes "fst (peek s [c])" and "is_symbol c" "c \<noteq> 62"
  shows "tokens s = Sym c # tokens (next_token s)"
proof -
  obtain t where "skip_ws s = c # t" using peek_symbol [OF assms(1)] assms(2) by auto
  moreover have "c \<noteq> 43" using assms(2) by (auto simp: is_symbol_def)
  ultimately show ?thesis using tokens_symbol(1,2) [of s c t] assms(2,3) by simp
qed

text \<open>Each function of the parser takes the tokens of what it returns.\<close>

abbreviation texts :: "word_ptrs cmd \<Rightarrow> uchar list cmd" where
  "texts c \<equiv> map_cmd word_text c"

lemma texts_add_arg: "texts (add_arg q c) = add_arg (word_text q) (texts c)"
  by (induction q c rule: add_arg.induct) simp_all

lemma parseredirs_tokens:
  assumes "parseredirs c s = Some (Inr (c', s'))"
  shows "\<exists>us. tokens s = us @ tokens s' \<and> redirs us (texts c) (texts c')"
  using assms
proof (induction c s rule: parseredirs.induct)
  case (1 c s)
  show ?case
  proof (cases "fst (peek s (str ''<>''))")
    case True
    have sy: "\<forall>c \<in> set (str ''<>''). is_symbol c" by (simp add: ascii_def is_symbol_def)
    obtain x t where x: "skip_ws s = x # t" "x \<in> set (str ''<>'')" "is_symbol x" using peek_symbol [OF True sy] .
    have x': "x = 60 \<or> x = 62" using x(2) by (simp add: ascii_def)
    let ?n = "next_token s"
    have w: "fst (gettoken ?n) = 97" using "1.prems" True by (subst (asm) parseredirs.simps) (auto simp: Let_def panicP_def split: if_splits)
    let ?d = "if fst (gettoken s) = 60 then REDIR c (fst (snd (gettoken ?n))) 0 0 else REDIR c (fst (snd (gettoken ?n))) 0x201 1"
    have "parseredirs c s = parseredirs ?d (next_token ?n)" by (subst parseredirs.simps) (simp only: Let_def True w if_True if_False not_not simp_thms)
    then obtain us where us: "tokens (next_token ?n) = us @ tokens s'" "redirs us (texts ?d) (texts c')"
      using "1.IH" [OF True refl refl _ refl] w "1.prems" by auto
    let ?r = "if fst (gettoken s) = 43 then Append else Sym x"
    have "tokens s = ?r # Word (word_text (fst (snd (gettoken ?n)))) # us @ tokens s'"
      using tokens_symbol(1) [OF x(1,3)] tokens_word [OF w] us(1) by simp
    moreover have "redirs (?r # Word (word_text (fst (snd (gettoken ?n)))) # us) (texts c) (texts c')"
      using x' us(2) tokens_symbol(2,3) [OF x(1,3)] by (auto intro: redirs.intros)
    ultimately show ?thesis by (metis append_Cons)
  next
    case False
    then have "c' = c" "s' = skip_ws s" using "1.prems" by (subst (asm) parseredirs.simps, simp add: retP_def)+
    then show ?thesis by (auto intro: redirs.intros)
  qed
qed

lemma parse_args_tokens:
  assumes "parse_args n c s = Some (Inr (c', s'))" and "simple ts ws rs" and "redirs rs (EXEC ws) (texts c)" and "length ws = n" "n < MAXARGS"
  shows "\<exists>us ws' rs'. tokens s = us @ tokens s' \<and> simple (ts @ us) ws' rs' \<and> length ws' < MAXARGS \<and> redirs rs' (EXEC ws') (texts c')"
  using assms
proof (induction "MAXARGS - n" arbitrary: n c s ts ws rs rule: less_induct)
  case less
  show ?case
  proof (cases rule: parse_args_elim [OF less.prems(1)])
    case 1
    have "tokens s = [] @ tokens s'" using 1(2) gettoken_0 [of s] tokens_end [of s] tokens_end [OF skip_ws_Nil] by auto
    moreover have "simple (ts @ []) ws rs" "length ws < MAXARGS" using less.prems by simp_all
    ultimately show ?thesis using less.prems(3) 1(1) by blast
  next
    case (2 c1 s1)
    let ?q = "fst (snd (gettoken s))"
    have w: "tokens s = Word (word_text ?q) # tokens (next_token s)" using tokens_word [of s] 2(1) by simp
    obtain us where us: "tokens (next_token s) = us @ tokens s1" "redirs us (texts (add_arg ?q c)) (texts c1)"
      using parseredirs_tokens [OF 2(3)] by auto
    have s1: "simple ((ts @ [Word (word_text ?q)]) @ us) (ws @ [word_text ?q]) (rs @ us)"
      using simple_append [OF simple_append [OF less.prems(2) simple_arg [OF simple_none]] redirs_simple [OF us(2)]] by simp
    have "redirs rs (EXEC (ws @ [word_text ?q])) (texts (add_arg ?q c))"
      using redirs_add_arg [OF less.prems(3), of "word_text ?q"] by (simp add: texts_add_arg)
    then have "redirs (rs @ us) (EXEC (ws @ [word_text ?q])) (texts c1)" using us(2) by (rule redirs_append)
    from less.hyps [OF _ 2(4) s1 this] obtain us' ws' rs' where
      "tokens s1 = us' @ tokens s'" "simple (((ts @ [Word (word_text ?q)]) @ us) @ us') ws' rs'" "length ws' < MAXARGS" "redirs rs' (EXEC ws') (texts c')"
      using 2(2) less.prems(4) by (auto simp: diff_less_mono2)
    then show ?thesis using w us(1)
      by (intro exI [of _ "Word (word_text ?q) # us @ us'"] exI [of _ ws'] exI [of _ rs']) simp
  qed
qed

lemma parse_back_tokens: "\<exists>n. tokens s = replicate n (Sym 38) @ tokens (snd (parse_back c s)) \<and> texts (fst (parse_back c s)) = (BACK ^^ n) (texts c)"
proof (induction c s rule: parse_back.induct)
  case (1 c s)
  show ?case
  proof (cases "fst (peek s (str ''&''))")
    case True
    then have b: "parse_back c s = parse_back (BACK c) (next_token s)" by (subst parse_back.simps) simp
    have "tokens s = Sym 38 # tokens (next_token s)" using peek_one [of s 38] True by (simp add: ascii_def is_symbol_def)
    moreover obtain n where "tokens (next_token s) = replicate n (Sym 38) @ tokens (snd (parse_back (BACK c) (next_token s)))"
        "texts (fst (parse_back (BACK c) (next_token s))) = (BACK ^^ n) (BACK (texts c))" using "1.IH" [OF True] by auto
    ultimately show ?thesis unfolding b by (intro exI [of _ "Suc n"]) (simp add: funpow_swap1)
  next
    case False
    then show ?thesis by (subst (1 2) parse_back.simps) (auto intro: exI [of _ 0])
  qed
qed

lemma parse_tokens:
  "(parseline k s = Some (Inr (c, s')) \<longrightarrow> (\<exists>us. tokens s = us @ tokens s' \<and> cmdline us (texts c))) \<and>
   (parsepipe k s = Some (Inr (c, s')) \<longrightarrow> (\<exists>us. tokens s = us @ tokens s' \<and> pipeline us (texts c))) \<and>
   (parseexec k s = Some (Inr (c, s')) \<longrightarrow> (\<exists>us. tokens s = us @ tokens s' \<and> command us (texts c))) \<and>
   (parseblock k s = Some (Inr (c, s')) \<longrightarrow> (\<exists>us. tokens s = us @ tokens s' \<and> command us (texts c)))"
proof (induction k arbitrary: s c s')
  case (Suc k)
  have sym: "tokens a = Sym 59 # tokens (next_token a)" if "fst (peek a (str '';''))" for a
    using peek_one [of a 59] that by (simp add: ascii_def is_symbol_def)
  have bar: "tokens a = Sym 124 # tokens (next_token a)" if "fst (peek a (str ''|''))" for a
    using peek_one [of a 124] that by (simp add: ascii_def is_symbol_def)
  have par: "tokens a = Sym 40 # tokens (next_token a)" if "fst (peek a (str ''(''))" for a
    using peek_one [of a 40] that by (simp add: ascii_def is_symbol_def)
  have cls: "tokens a = Sym 41 # tokens (next_token a)" if "fst (peek a (str '')''))" for a
    using peek_one [of a 41] that by (simp add: ascii_def is_symbol_def)
  have "\<exists>us. tokens s = us @ tokens s' \<and> cmdline us (texts c)" if r: "parseline (Suc k) s = Some (Inr (c, s'))"
  proof -
    obtain c1 s1 where p: "parsepipe k s = Some (Inr (c1, s1))" using r by (auto simp: parse_unfold)
    let ?b = "snd (parse_back c1 s1)"
    obtain us n where us: "tokens s = us @ tokens s1" "pipeline us (texts c1)" "tokens s1 = replicate n (Sym 38) @ tokens ?b"
        "texts (fst (parse_back c1 s1)) = (BACK ^^ n) (texts c1)" using Suc.IH p parse_back_tokens [of s1 c1] by blast
    show ?thesis
    proof (cases "fst (peek ?b (str '';''))")
      case True
      then obtain c2 where c2: "c = LIST (fst (parse_back c1 s1)) c2" "parseline k (next_token ?b) = Some (Inr (c2, s'))"
        using r p by (auto simp: parse_unfold)
      obtain vs where "tokens (next_token ?b) = vs @ tokens s'" "cmdline vs (texts c2)" using Suc.IH c2(2) by blast
      then show ?thesis using us c2(1) sym [OF True] line_more [of us "texts c1" vs "texts c2" n] by auto
    next
      case False
      then have "c = fst (parse_back c1 s1)" "s' = skip_ws ?b" using r p by (auto simp: parse_unfold)
      then show ?thesis using us line_one [of us "texts c1" n] by auto
    qed
  qed
  moreover have "\<exists>us. tokens s = us @ tokens s' \<and> pipeline us (texts c)" if r: "parsepipe (Suc k) s = Some (Inr (c, s'))"
  proof -
    obtain c1 s1 where p: "parseexec k s = Some (Inr (c1, s1))" using r by (auto simp: parse_unfold)
    obtain us where us: "tokens s = us @ tokens s1" "command us (texts c1)" using Suc.IH p by blast
    show ?thesis
    proof (cases "fst (peek s1 (str ''|''))")
      case True
      then obtain c2 where c2: "c = PIPE c1 c2" "parsepipe k (next_token s1) = Some (Inr (c2, s'))" using r p by (auto simp: parse_unfold)
      obtain vs where "tokens (next_token s1) = vs @ tokens s'" "pipeline vs (texts c2)" using Suc.IH c2(2) by blast
      then show ?thesis using us c2(1) bar [OF True] pipe_more [of us "texts c1" vs "texts c2"] by auto
    next
      case False
      then have "c = c1" "s' = skip_ws s1" using r p by (auto simp: parse_unfold)
      then show ?thesis using us pipe_one by auto
    qed
  qed
  moreover have "\<exists>us. tokens s = us @ tokens s' \<and> command us (texts c)" if r: "parseexec (Suc k) s = Some (Inr (c, s'))"
    using r
  proof (cases rule: parseexec_elim)
    case 1
    then obtain us where "tokens (skip_ws s) = us @ tokens s'" "command us (texts c)" using Suc.IH by blast
    then show ?thesis by auto
  next
    case (2 c1 s1)
    obtain us where us: "tokens s = us @ tokens s1" "redirs us (EXEC []) (texts c1)" using parseredirs_tokens [OF 2(1)] by auto
    then have "simple us [] us" by (simp add: redirs_simple)
    from parse_args_tokens [OF 2(2) this us(2)] obtain vs ws' rs' where "tokens s1 = vs @ tokens s'" "simple (us @ vs) ws' rs'"
        "length ws' < MAXARGS" "redirs rs' (EXEC ws') (texts c)" by (auto simp: MAXARGS_def)
    then show ?thesis using us(1) cmd_simple [of "us @ vs" ws' rs' "texts c"] by auto
  qed
  moreover have "\<exists>us. tokens s = us @ tokens s' \<and> command us (texts c)" if r: "parseblock (Suc k) s = Some (Inr (c, s'))"
  proof -
    have o: "fst (peek s (str ''(''))" using r by (auto simp: parse_unfold split: if_splits)
    then obtain c1 s1 where p: "parseline k (next_token s) = Some (Inr (c1, s1))" "fst (peek s1 (str '')''))"
        "parseredirs c1 (next_token s1) = Some (Inr (c, s'))" using r by (auto simp: parse_unfold split: if_splits)
    obtain us where "tokens (next_token s) = us @ tokens s1" "cmdline us (texts c1)" using Suc.IH p(1) by blast
    moreover obtain vs where "tokens (next_token s1) = vs @ tokens s'" "redirs vs (texts c1) (texts c)" using parseredirs_tokens [OF p(3)] by blast
    ultimately show ?thesis using par [OF o] cls [OF p(2)] cmd_block [of us "texts c1" vs "texts c"] by auto
  qed
  ultimately show ?case by blast
qed simp

lemma set_cmd_words: "set_cmd c = set (cmd_words c)"
  by (induction c) auto

section \<open>Properties\<close>

text \<open>(C23) The parser of the shell ends on every line, with a command or a syntax error.\<close>
theorem parsecmd_ends: "\<exists>r. parsecmd s = Some r"
proof -
  obtain r where "parseline (parse_fuel s) s = Some r" using parse_total [of s "parse_fuel s"] by (auto simp: parse_fuel_def)
  then show ?thesis by (auto simp: parsecmd_def split: sum.split)
qed

lemma parsecmd_result:
  assumes "parsecmd s = Some (Inr (c, buf))"
  shows "cmd_ok s c \<and> buf = fold nul_at (cmd_words c) s"
proof -
  obtain r where "parseline (parse_fuel s) s = Some (Inr (c, r))" "buf = nulterminate c s"
    using assms by (auto simp: parsecmd_def split: option.splits sum.splits prod.splits if_splits)
  then show ?thesis using parse_ok [of s s "parse_fuel s" c r] by (simp add: nulterminate_fold)
qed

text \<open>
  The commands that the parser returns are well formed: fewer than MAXARGS arguments, so that the terminating null
  pointer fits into argv; file modes and descriptors of redirections that are one of the two that exist; and words that
  are not empty, contain no white space and no symbol, and end at one or at the end of the line.
\<close>
lemma parsecmd_type:
  assumes "parsecmd s = Some (Inr (c, buf))"
  shows "cmd_ok s c"
  using parsecmd_result [OF assms] by simp

lemma parse_example:
  "parsecmd (str ''l a>x'') = Some (Inr (REDIR (EXEC [(str ''l a>x'', str '' a>x''), (str ''a>x'', str ''>x'')]) (str ''x'', []) 0x201 1,
     [108, 0, 97, 0, 120]))"
  by code_simp

text \<open>
  (C22) A command that the parser returns is the one that the grammar gives for the tokens of the line. The strings of the
  command are read the way \<^verbatim>\<open>runcmd\<close> reads them, from the line in which the parser has put zeros behind the words: each word is
  exactly the string of its token, and no zero falls into another word.
\<close>
theorem parsecmd_correct:
  assumes "parsecmd s = Some (Inr (c, buf))" and "0 \<notin> set s"
  shows "cmdline (tokens s) (map_cmd (string_at buf) c)"
proof -
  have ok: "\<forall>q \<in> set (cmd_words c). word_ok s q" and b: "buf = fold nul_at (cmd_words c) s"
    using parsecmd_result [OF assms(1)] cmd_ok_words by blast+
  have m: "map_cmd (string_at buf) c = texts c"
    unfolding b by (rule cmd.map_cong0) (use string_at_word [OF _ _ ok assms(2)] ok in \<open>auto simp: set_cmd_words\<close>)
  obtain r where r: "parseline (parse_fuel s) s = Some (Inr (c, r))" "skip_ws r = []"
    using assms(1) by (auto simp: parsecmd_def split: option.splits sum.splits prod.splits if_splits)
  then obtain us where "tokens s = us @ tokens r" "cmdline us (texts c)" using parse_tokens by blast
  then show ?thesis using tokens_end [OF r(2)] m by simp
qed

theorem parsecmd_correct_witness:
  "cmdline (tokens (str ''l a>x'')) (REDIR (EXEC [str ''l'', str ''a'']) (str ''x'') 0x201 1)"
  using parsecmd_correct [OF parse_example] by (simp add: ascii_def string_at_def)

end
