(* ===== verification/Spec2Isabelle.thy ===== *)
theory Spec2Isabelle
  imports Boot Smp Fork Copyout Mkfs Umalloc Uprogs Grep Shell
begin

text \<open>
  A verification library for the xv6 kernel of this repository, its boot loader, its user programs and the program that
  builds its disk image.

  \<^bold>\<open>How C is modelled.\<close> A kernel function is a function from a state to an outcome (\<^verbatim>\<open>Prelude\<close>): it
  returns a value and the next state (\<open>Ok\<close>), panics with its message, gives up the processor inside \<^verbatim>\<open>sched()\<close>
  (\<open>Switch\<close>), or does what C leaves undefined, such as following a null pointer (\<open>Undef\<close>). Functions are composed by
  \<open>bindK\<close> and \<open>thenK\<close> in the order of the source; a loop over a range is \<open>forK\<close>, other loops are recursive functions.
  Integers keep their width (\<open>uint\<close>, \<open>ushort\<close>, \<open>uchar\<close> are words; an \<^verbatim>\<open>int\<close> is an \<open>int\<close> where
  the code does not rely on its overflow). A pointer to an element of a static array is its index; a pointer into memory
  that the code walks byte by byte is a 32-bit address into a \<open>memory\<close>, a function from addresses to bytes.
  The state of a component is a record that extends the records of the components it calls, so that each operation applies
  unchanged to the states of its callers:
  \<open>kbase\<close> (processes, locks held) \<open>\<subset>\<close> \<open>bufst\<close> (buffers) \<open>\<subset>\<close> \<open>logst\<close> \<open>\<subset>\<close> \<open>fsst\<close> (inodes)
  \<open>\<subset>\<close> \<open>kmst\<close> (memory) \<open>\<subset>\<close> \<open>filest\<close> (open files, pipes) \<open>\<subset>\<close> \<open>sysst\<close> \<open>\<subset>\<close>
  \<open>procst\<close> \<open>\<subset>\<close> \<open>consst\<close> (console) \<open>\<subset>\<close> \<open>devst\<close> (controllers).

  \<^bold>\<open>Locks and processes.\<close>
  \<^item> \<^verbatim>\<open>Spinlock\<close>: \<^verbatim>\<open>kernel/spinlock.c\<close> on several processors, interleaved between any two
    memory accesses to a lock. Mutual exclusion and the nesting of \<^verbatim>\<open>pushcli\<close> are invariants of all reachable states.
  \<^item> \<^verbatim>\<open>Sched\<close>: \<^verbatim>\<open>sleep\<close>, \<^verbatim>\<open>wakeup\<close>, \<^verbatim>\<open>sched\<close>, \<^verbatim>\<open>kill\<close> of
    \<^verbatim>\<open>kernel/proc.c\<close> and \<^verbatim>\<open>kernel/sleeplock.c\<close>. From here on the kernel is seen from one processor; that the
    list of held locks is then a faithful view of the lock protocol is the refinement \<open>spin_refines_klocks\<close>.
  \<^item> \<^verbatim>\<open>Proc\<close>: the rest of \<^verbatim>\<open>kernel/proc.c\<close>. Fresh pids, no lost wakeup between \<^verbatim>\<open>wait\<close> and
    \<^verbatim>\<open>exit\<close>, no starvation by the scheduler. \<^verbatim>\<open>Fork\<close>: \<^verbatim>\<open>fork\<close> copies the process into memory of its own
    (\<open>fork_correct\<close>), or fails and leaks nothing (\<open>fork_fails_cleanly\<close>).

  \<^bold>\<open>The file system.\<close>
  \<^item> \<^verbatim>\<open>Buf\<close> is the contract of the buffer cache and \<^verbatim>\<open>Bio\<close> the cache of \<^verbatim>\<open>kernel/bio.c\<close> over
    \<^verbatim>\<open>kernel/memide.c\<close>, with its doubly linked list, which refines the contract. \<^verbatim>\<open>Ide\<close> is the driver
    \<^verbatim>\<open>kernel/ide.c\<close> for a real drive: every request is served in its turn.
  \<^item> \<^verbatim>\<open>Layout\<close>: the structures of \<^verbatim>\<open>kernel/fs.h\<close> in the bytes of blocks, with the laws of a store.
  \<^item> \<^verbatim>\<open>Log\<close>: \<^verbatim>\<open>kernel/log.c\<close>. A crash after any number of the writes of a commit, followed by recovery,
    leaves all or nothing of a transaction; the end of the last operation makes it durable; the space that \<^verbatim>\<open>begin_op\<close>
    reserves is enough for a log larger than \<^verbatim>\<open>LOGSIZE\<close>, and one block short for the log that mkfs makes.
  \<^item> \<^verbatim>\<open>Balloc\<close>, \<^verbatim>\<open>Inode\<close>, \<^verbatim>\<open>FileData\<close>, \<^verbatim>\<open>ICache\<close>, \<^verbatim>\<open>Dir\<close>:
    \<^verbatim>\<open>kernel/fs.c\<close> from the bitmap to paths. The blocks of a file form a tree of slots (\<open>file_wf\<close>, \<open>fbyte\<close>); a write
    changes exactly its bytes and no other block of the disk, and a read returns them.
  \<^item> \<^verbatim>\<open>Mkfs\<close>: \<^verbatim>\<open>tools/mkfs.c\<close>. On every list of files that fits it returns an image on which the
    kernel's own predicates \<open>file_wf\<close> and \<open>fbyte\<close> find each file.

  \<^bold>\<open>Memory, files and system calls.\<close>
  \<^item> \<^verbatim>\<open>Kalloc\<close>: \<^verbatim>\<open>kernel/kalloc.c\<close>, with the contract \<open>page_pool\<close>. \<^verbatim>\<open>Vm\<close>:
    \<^verbatim>\<open>kernel/vm.c\<close>, page tables as pages of memory; mappings change exactly where asked. \<^verbatim>\<open>Uvm\<close>: what building and
    copying an address space takes and writes, page by page. \<^verbatim>\<open>Freevm\<close>: freeing one gives back exactly its pages, and an
    operation that runs out of memory gives back all it took. \<^verbatim>\<open>Copyout\<close>: writing to a process's memory changes exactly the
    bytes of the range, as the process sees them.
  \<^item> \<^verbatim>\<open>File\<close>: \<^verbatim>\<open>kernel/pipe.c\<close> and \<^verbatim>\<open>kernel/file.c\<close>. The locale \<open>ring\<close> (a buffer
    with free-running counters is a queue) is interpreted for pipes and for the input of the console.
  \<^item> \<^verbatim>\<open>Sysarg\<close> (arguments), \<^verbatim>\<open>Sysfile\<close> (\<^verbatim>\<open>kernel/sysfile.c\<close> with the encryption of this
    kernel and its contract \<open>byte_cipher\<close>), \<^verbatim>\<open>Exec\<close> (\<^verbatim>\<open>kernel/exec.c\<close>), \<^verbatim>\<open>Syscall\<close>
    (\<^verbatim>\<open>kernel/sysproc.c\<close>, the dispatch of \<^verbatim>\<open>kernel/syscall.c\<close>, \<^verbatim>\<open>trap\<close> of
    \<^verbatim>\<open>kernel/trap.c\<close>): what the kernel touches for a process lies in its address space, and a killed process does not
    return to user space, also when it is killed while it has given up the processor or sleeps (\<open>trap_ends\<close>).
  \<^item> \<^verbatim>\<open>Console\<close>: \<^verbatim>\<open>kernel/console.c\<close>, \<^verbatim>\<open>kernel/kbd.c\<close>, \<^verbatim>\<open>kernel/kbd.h\<close>,
    \<^verbatim>\<open>kernel/uart.c\<close>. On all keys the interrupt handler refines a line editor with the table of colors (\<open>console_key\<close>), as
    long as a page is free for the copy of the screen; the cursor stays on the screen.

  \<^bold>\<open>The processor and start-up.\<close>
  \<^item> \<^verbatim>\<open>Machine\<close>: descriptors and gates (\<^verbatim>\<open>kernel/mmu.h\<close>, \<^verbatim>\<open>seginit\<close>, \<^verbatim>\<open>tvinit\<close>),
    \<^verbatim>\<open>kernel/ioapic.c\<close>, \<^verbatim>\<open>kernel/lapic.c\<close>, \<^verbatim>\<open>kernel/picirq.c\<close>, \<^verbatim>\<open>mycpu\<close> and
    \<^verbatim>\<open>uartinit\<close>. \<^verbatim>\<open>Mp\<close>: \<^verbatim>\<open>kernel/mp.c\<close>; its loop does not end on an entry of unknown type.
  \<^item> \<^verbatim>\<open>Asm\<close>: a processor with the instructions that the sources use, and on it \<^verbatim>\<open>kernel/swtch.S\<close>,
    \<^verbatim>\<open>kernel/trapasm.S\<close>, the vectors of \<^verbatim>\<open>tools/vectors.pl\<close> and the stubs of \<^verbatim>\<open>user/usys.S\<close>. Code is a
    map from addresses to instructions, and \<open>placed\<close> says where the assembler has put a program, so the lemmas hold for every
    layout. A context that is switched away from resumes as it was; a trap saves and restores every register.
  \<^item> \<^verbatim>\<open>Boot\<close>: \<^verbatim>\<open>bootloader/bootmain.c\<close>. \<^verbatim>\<open>Start\<close>: \<^verbatim>\<open>bootloader/bootasm.S\<close>,
    \<^verbatim>\<open>tools/sign.pl\<close>, \<^verbatim>\<open>kernel/entry.S\<close> and \<^verbatim>\<open>user/initcode.S\<close>: in which state each of them hands over to
    C. \<^verbatim>\<open>Smp\<close>: \<^verbatim>\<open>startothers\<close> of \<^verbatim>\<open>kernel/main.c\<close> and \<^verbatim>\<open>kernel/entryother.S\<close>, on the processor extended
    with page tables, descriptors and instructions in physical memory: the processor that is started reaches \<^verbatim>\<open>mpenter\<close>
    without a fault. How bytes decode to instructions is a parameter (\<open>decoder\<close>).
  \<^item> This theory joins them with the kernel: a system call from the stub in user space to the handler and back
    (\<open>syscall_end_to_end\<close>), and the first steps of a process on the stack that \<^verbatim>\<open>allocproc\<close> has set up (\<open>new_process_starts\<close>).

  \<^bold>\<open>User space.\<close>
  \<^item> \<^verbatim>\<open>Cstring\<close>: \<^verbatim>\<open>kernel/string.c\<close> and the string routines of \<^verbatim>\<open>user/ulib.c\<close>.
    \<^verbatim>\<open>Umalloc\<close>: \<^verbatim>\<open>user/umalloc.c\<close>; any sequence of \<^verbatim>\<open>malloc\<close> and \<^verbatim>\<open>free\<close>, with
    requests below 2 gigabytes, keeps blocks apart, large enough and with their contents; a larger request makes the argument of
    \<^verbatim>\<open>sbrk\<close> negative (\<open>malloc_oversize\<close>). \<^verbatim>\<open>Ulib\<close>: system calls as a record of functions on an open world, with the laws that programs rely
    on as the locales \<open>stream_io\<close> and \<open>file_io\<close>, and \<^verbatim>\<open>user/printf.c\<close>. \<^verbatim>\<open>Uprogs\<close>,
    \<^verbatim>\<open>Grep\<close>, \<^verbatim>\<open>Shell\<close>: the programs. The matcher of grep is shown equal to the language of its
    expressions; the parser of the shell ends on every line, and each command it returns is derived from the words and symbols of the
    line by the grammar of commands (\<open>cmdline\<close>).

  \<^bold>\<open>Bounds and fuel.\<close> Fuel occurs where the recursion of the source is not structural, and is shown or chosen to be enough:
  \<open>parse_fuel\<close> of the shell grows with the length of the line and is enough for every line (\<open>parsecmd_ends\<close>); the
  handler \<^verbatim>\<open>consoleintr\<close> takes one unit more than there are bytes waiting, each step consumes one
  (\<open>kbdintr_refines_editor\<close>); the digits of a number take 32 steps, since a 32-bit number has at most 32 digits in any base; the
  loop of \<^verbatim>\<open>sys_encr\<close> takes \<open>crypt_fuel\<close>, more turns than the largest file has blocks. Loops that may not end are partial functions whose value \<open>None\<close> is
  not returning (\<^verbatim>\<open>mpinit\<close>, waiting for a device, user programs).

  \<^bold>\<open>Not modelled.\<close>
  \<^item> \<^verbatim>\<open>main\<close>, \<^verbatim>\<open>mpenter\<close> and \<^verbatim>\<open>mpmain\<close> of \<^verbatim>\<open>kernel/main.c\<close>: sequences of calls of functions that are
    modelled one by one, on the states of their components. In the C part of the model a context switch is the outcome \<open>Switch\<close>; what the
    switch does to the processor is in \<^verbatim>\<open>Asm\<close>. The compiled C code is not modelled: where assembly calls C, the lemmas assume
    only the calling convention.
  \<^item> The printing and halting of \<^verbatim>\<open>panic\<close>: nothing returns from it, so a panic is an outcome with its message.
  \<^item> \<^verbatim>\<open>user/usertests.c\<close>: tests of the kernel.
  \<^item> Scripts and build files under \<^verbatim>\<open>tools/\<close>, the \<^verbatim>\<open>Makefile\<close> and \<^verbatim>\<open>kernel.ld\<close>.
  \<^item> Timing: \<^verbatim>\<open>microdelay\<close> and the order of memory accesses of other processors outside of the lock protocol.
\<close>

section \<open>System calls from end to end\<close>

text \<open>
  The compiled \<^verbatim>\<open>trap\<close> has returned in the state \<open>t'\<close> of the processor, after it was entered in \<open>t\<close>, and has done what the model
  says: the frame is that of the running process of the kernel's state \<open>k'\<close>, and it has kept to the calling convention.
\<close>

definition trap_returned :: "x86 \<Rightarrow> x86 \<Rightarrow> 'a consst_scheme \<Rightarrow> bool" where
  "trap_returned t t' k' \<longleftrightarrow> eip t' = tos t \<and> gr t' ESP = gr t ESP + 4 \<and> sr t' CS = sr t CS \<and>
     tf_at (xmem t') (carg 0 t) = p_tf (ptable k' ! the (cur k')) \<and> frame_rest (xmem t') (carg 0 t) = frame_rest (xmem t) (carg 0 t)"

text \<open>
  (C3) A system call from end to end. A program calls the stub of the system call \<open>num\<close>: the kernel's \<^verbatim>\<open>trap\<close> is entered with a
  frame that comes from user space and has the number of the system call, and in which the stack pointer is the caller's, with the
  memory outside of the kernel stack untouched: the arguments are where \<^verbatim>\<open>argint\<close> looks for them. Whenever \<^verbatim>\<open>trap\<close> returns, the handler of \<open>num\<close> has run
  with that frame and returned a value \<open>r\<close>, and the stub returns \<open>r\<close> to its caller with all other registers as they were. (The handler
  of \<^verbatim>\<open>exec\<close> changes the rest of the frame as well.)
\<close>

theorem syscall_end_to_end:
  assumes "sr s CS AND 3 = 3" and "idt s = tvinit vectors" and "placed code (eip s) (stub_code num) b0"
    and "placed code (vectors 64) (vector_code alltraps 64) b" and "placed code alltraps (alltraps_code ltrap) b'"
    and "handler lk (int num) = Some f"
  shows "\<exists>t tf. reaches code s t \<and> eip t = ltrap \<and> carg 0 t = ts_esp0 s - 76 \<and> tf = tf_at (xmem t) (carg 0 t) \<and> from_user tf \<and> tf_trapno tf = T_SYSCALL \<and>
    tf_eax tf = of_nat num \<and> tf_esp tf = gr s ESP \<and>
    (\<forall>x. sep (ts_esp0 s - 84) 84 x 4 \<longrightarrow> load32 (xmem t) x = load32 (xmem s) x) \<and>
    (\<forall>k k' callerpcs cpu cr2. trap lk callerpcs cpu cr2 tf k = Ok () k' \<longrightarrow>
       (\<exists>p r k2. cur k = Some p \<and> f (k\<lparr>ptable := (ptable k)[p := (ptable k ! p)\<lparr>p_tf := tf\<rparr>]\<rparr>) = Ok r k2 \<and>
          (\<forall>t'. p_tf (ptable k2 ! the (cur k2)) = tf \<and> trap_returned t t' k' \<and> load32 (xmem t') (gr s ESP) = tos s \<longrightarrow>
             (\<exists>u. reaches code t' u \<and> eip u = tos s \<and> gr u = (gr s)(EAX := word_of_int r, ESP := gr s ESP + 4) \<and> sr u = sr s))))"
proof -
  obtain t c where t: "reaches code s t" "eip t = ltrap" "carg 0 t = ts_esp0 s - 76" "frame_trapno (xmem t) (ts_esp0 s - 76) = T_SYSCALL"
    "frame_at (xmem t) (ts_esp0 s - 76) = user_context (stub_state num c s)"
    "\<forall>x. sep (ts_esp0 s - 84) 84 x 4 \<longrightarrow> load32 (xmem t) x = load32 (xmem s) x"
    "\<forall>t' r. eip t' = tos t \<and> gr t' ESP = gr t ESP + 4 \<and> sr t' CS = sr t CS \<and> load32 (xmem t') (gr s ESP) = tos s \<and>
       frame_at (xmem t') (ts_esp0 s - 76) = user_context ((stub_state num c s)\<lparr>gr := (gr s)(EAX := r)\<rparr>) \<longrightarrow>
       (\<exists>u. reaches code t' u \<and> eip u = tos s \<and> gr u = (gr s)(EAX := r, ESP := gr s ESP + 4) \<and> sr u = sr s \<and> xmem u = xmem t')"
    using stub_run [OF assms(1-5)] by (elim exE conjE)
  define tf where "tf = tf_at (xmem t) (carg 0 t)"
  have regs: "frame_regs (xmem t) (carg 0 t) = (gr s)(EAX := of_nat num)" "frame_sregs (xmem t) (carg 0 t) = sr s"
    using t(5) by (simp_all add: t(3) frame_at_def user_context_def stub_state_def set_reg_def)
  have "frame_regs (xmem t) (carg 0 t) EAX = of_nat num" "frame_regs (xmem t) (carg 0 t) ESP = gr s ESP" "frame_sregs (xmem t) (carg 0 t) CS AND 3 = 3"
    unfolding regs using assms(1) by simp_all
  then have tf: "tf_trapno tf = T_SYSCALL" "tf_eax tf = of_nat num" "tf_esp tf = gr s ESP" "from_user tf"
    using t(4) by (simp_all add: t(3) tf_def tf_at_def frame_trapno_def frame_regs_def frame_sregs_def from_user_def DPL_USER_def)
  have "0 < num" "num < 26" using assms(6) by (auto simp: handler_def split: if_splits)
  then have h: "handler lk (sint (tf_eax tf)) = Some f" using assms(6) by (simp add: tf(2) signed_of_nat signed_take_bit_int_eq_self)
  have ret: "\<exists>p r k2. cur k = Some p \<and> f (k\<lparr>ptable := (ptable k)[p := (ptable k ! p)\<lparr>p_tf := tf\<rparr>]\<rparr>) = Ok r k2 \<and>
          (\<forall>t'. p_tf (ptable k2 ! the (cur k2)) = tf \<and> trap_returned t t' k' \<and> load32 (xmem t') (gr s ESP) = tos s \<longrightarrow>
             (\<exists>u. reaches code t' u \<and> eip u = tos s \<and> gr u = (gr s)(EAX := word_of_int r, ESP := gr s ESP + 4) \<and> sr u = sr s))"
    if run: "trap lk callerpcs cpu cr2 tf k = Ok () k'" for k k' callerpcs cpu cr2
  proof -
    obtain p r k2 where r: "cur k = Some p" "f (k\<lparr>ptable := (ptable k)[p := (ptable k ! p)\<lparr>p_tf := tf\<rparr>]\<rparr>) = Ok r k2"
      "p_tf (ptable k' ! the (cur k')) = (p_tf (ptable k2 ! the (cur k2)))\<lparr>tf_eax := word_of_int r\<rparr>"
      using trap_syscall_result [OF run tf(1) h] by blast
    have "\<exists>u. reaches code t' u \<and> eip u = tos s \<and> gr u = (gr s)(EAX := word_of_int r, ESP := gr s ESP + 4) \<and> sr u = sr s"
      if "p_tf (ptable k2 ! the (cur k2)) = tf" "trap_returned t t' k'" "load32 (xmem t') (gr s ESP) = tos s" for t'
    proof -
      have "tf_at (xmem t') (carg 0 t) = (tf_at (xmem t) (carg 0 t))\<lparr>tf_eax := word_of_int r\<rparr>" "frame_rest (xmem t') (carg 0 t) = frame_rest (xmem t) (carg 0 t)"
        using that(1,2) r(3) by (simp_all add: trap_returned_def tf_def)
      from frame_at_tf [OF this] have "frame_at (xmem t') (carg 0 t) = user_context ((stub_state num c s)\<lparr>gr := (gr s)(EAX := word_of_int r)\<rparr>)"
        by (simp add: t(3,5) user_context_def stub_state_def set_reg_def)
      then show ?thesis using t(7) [rule_format, of t' "word_of_int r"] that(2,3) by (auto simp: trap_returned_def t(3))
    qed
    then show ?thesis using r(1,2) by blast
  qed
  then show ?thesis using t(1-3,6) tf tf_def by (intro exI [of _ t] exI [of _ tf]) blast
qed

text \<open>The process of the state \<open>cons_one\<close> calls \<^verbatim>\<open>getpid()\<close>.\<close>

definition getpid_code :: code where
  "getpid_code = code_at 0x500 (stub_code 11) ++ code_at 0x1000 (vector_code 0x2000 64) ++ code_at 0x2000 (alltraps_code 0x3000)"

definition getpid_state :: x86 where
  "getpid_state = fault_state\<lparr>eip := 0x500, xmem := store32 (\<lambda>_. 0) 0x3FF0 0x42\<rparr>"

theorem syscall_end_to_end_witness:
  "\<exists>t t' u tf k'. reaches getpid_code getpid_state t \<and> tf = tf_at (xmem t) (carg 0 t) \<and> tf_eax tf = 11 \<and>
     trap \<lparr>l_data = 0, l_trapret = 0, l_forkret = 0\<rparr> (\<lambda>_. []) 0 0 tf cons_one = Ok () k' \<and> trap_returned t t' k' \<and>
     reaches getpid_code t' u \<and> eip u = 0x42 \<and> gr u EAX = word_of_int (p_pid parent_proc)"
proof -
  let ?lk = "\<lparr>l_data = 0, l_trapret = 0, l_forkret = 0\<rparr>"
  have pl: "placed getpid_code (eip getpid_state) (stub_code 11) 0x503" "placed getpid_code 0x1000 (vector_code 0x2000 64) 0x1003"
    "placed getpid_code 0x2000 (alltraps_code 0x3000) 0x2012"
    by (simp_all add: getpid_state_def getpid_code_def code_at_def stub_code_def vector_code_def has_errcode_def alltraps_code_def alltraps_enter_def
      trapret_code_def map_add_def)
  have h: "handler ?lk (int 11) = Some (sys_getpid :: (consst, int) kfun)" by (simp add: handler_def syscalls_def)
  have s: "sr getpid_state CS AND 3 = 3" "idt getpid_state = tvinit (\<lambda>_. 0x1000)" "gr getpid_state ESP = 0x3FF0" "tos getpid_state = 0x42"
    "ts_esp0 getpid_state = 0x8DFFF000"
    by (simp_all add: getpid_state_def fault_state_def tos_def)
  obtain t tf where t: "reaches getpid_code getpid_state t" "eip t = 0x3000" "carg 0 t = 0x8DFFF000 - 76" "tf = tf_at (xmem t) (carg 0 t)" "from_user tf" "tf_trapno tf = T_SYSCALL"
    "tf_eax tf = of_nat 11" "tf_esp tf = 0x3FF0"
    "\<forall>x. sep (0x8DFFF000 - 84) 84 x 4 \<longrightarrow> load32 (xmem t) x = load32 (xmem getpid_state) x"
    "\<forall>k k' callerpcs cpu cr2. trap ?lk callerpcs cpu cr2 tf k = Ok () k' \<longrightarrow>
       (\<exists>p r k2. cur k = Some p \<and> sys_getpid (k\<lparr>ptable := (ptable k)[p := (ptable k ! p)\<lparr>p_tf := tf\<rparr>]\<rparr>) = Ok r (k2 :: consst) \<and>
          (\<forall>t'. p_tf (ptable k2 ! the (cur k2)) = tf \<and> trap_returned t t' k' \<and> load32 (xmem t') 0x3FF0 = 0x42 \<longrightarrow>
             (\<exists>u. reaches getpid_code t' u \<and> eip u = 0x42 \<and> gr u = (gr getpid_state)(EAX := word_of_int r, ESP := 0x3FF0 + 4) \<and> sr u = sr getpid_state)))"
    using syscall_end_to_end [OF s(1,2) pl h] unfolding s(3-5) by (elim exE conjE)
  have a: "carg 0 t = 0x8DFFEFB4" using t(3) by simp
  let ?p = "parent_proc\<lparr>p_tf := tf\<rparr>"
  let ?k = "cons_one\<lparr>ptable := [?p]\<rparr>" and ?k' = "cons_one\<lparr>ptable := [?p\<lparr>p_tf := tf\<lparr>tf_eax := 1\<rparr>\<rparr>]\<rparr>"
  let ?t' = "(drop_top t)\<lparr>eip := tos t, xmem := store32 (xmem t) 0x8DFFEFD0 1\<rparr>"
  have c: "cur cons_one = Some 0" "ptable cons_one = [parent_proc]"
    by (simp_all add: cons_one_def procst.extend_def consst.fields_def proc_one_def sysst.extend_def procst.fields_def sys_one_def filest.extend_def
      sysst.fields_def file_one_def kmst.extend_def filest.fields_def km_boot_def fsst.extend_def kmst.fields_def fs_one_def)
  have run: "trap ?lk (\<lambda>_. []) 0 0 tf cons_one = Ok () ?k'"
    using c t(6,7) by (simp add: trap_def trap_syscall_def exit_if_killed_def my_killed_def kdefs curproc_def myproc_def upd_proc_def syscall_def set_eax_def
      sys_getpid_def handler_def syscalls_def parent_proc_def zero_proc_def Let_def)
  have ret: "trap_returned t ?t' ?k'"
    by (simp add: trap_returned_def drop_top_def c t(4) a tf_at_def frame_rest_def load32_store32_sep sep_def)
  have "load32 (xmem ?t') 0x3FF0 = load32 (xmem t) 0x3FF0" by (simp add: load32_store32_sep sep_def)
  also have "\<dots> = 0x42" using t(9) [rule_format, of "0x3FF0"] s(3,4) by (simp add: sep_def tos_def)
  finally have st: "load32 (xmem ?t') 0x3FF0 = 0x42" .
  have "sys_getpid ?k = Ok (p_pid parent_proc) ?k" using c(1) by (simp add: sys_getpid_def kdefs curproc_def myproc_def)
  then obtain u where "reaches getpid_code ?t' u" "eip u = 0x42" "gr u EAX = word_of_int (p_pid parent_proc)"
    using t(10) [rule_format, OF run] c ret st by auto
  then show ?thesis using t(1,4,7) run ret by (intro exI [of _ t] exI [of _ ?t'] exI [of _ u] exI [of _ tf] exI [of _ ?k']) simp
qed

section \<open>The first steps of a process\<close>

lemma allocproc_inv:
  assumes "allocproc tr fr s = Ok (Some i) s'"
  defines "v \<equiv> p_kstack (ptable s' ! i)"
  shows "kmemory s' = store32 (memset (store32 (kmemory s) (4016 + v) tr) (3996 + v) 0 20) (4012 + v) fr" and "p_context (ptable s' ! i) = 3996 + v"
  using assms(1) unfolding v_def
  by (auto simp: allocproc_def kalloc_def kok wr32_def memsetK_def Let_def KSTACKSIZE_def sizeof_trapframe_def sizeof_context_def
    split: option.splits if_splits dest!: find_index_SomeD)

text \<open>The stack of a new process: a context that starts at \<^verbatim>\<open>forkret\<close>, and above it the return address \<^verbatim>\<open>trapret\<close>.\<close>

lemma allocproc_stack:
  assumes "allocproc tr fr s = Ok (Some i) s'"
  defines "c \<equiv> p_kstack (ptable s' ! i) + 3996"
  shows "context_at (kmemory s') c = \<lparr>cx_edi = 0, cx_esi = 0, cx_ebx = 0, cx_ebp = 0, cx_eip = fr\<rparr>" and "load32 (kmemory s') (c + 20) = tr"
proof -
  let ?m = "store32 (kmemory s) (c + 20) tr"
  have m: "kmemory s' = store32 (memset ?m c 0 20) (c + 16) fr" unfolding allocproc_inv(1) [OF assms(1)] by (simp add: c_def ac_simps)
  have b: "memset ?m c 0 20 (c + of_nat n) = (if n < 20 then 0 else ?m (c + of_nat n))" if "n < 24" for n
    using that by (simp add: memset_fills unat_of_nat_small)
  have "load32 (memset ?m c 0 20) (c + of_nat n) = 0" if "n < 17" for n
    using b [of n] b [of "n + 1"] b [of "n + 2"] b [of "n + 3"] that by (simp add: load32_def ac_simps)
  from this [of 0] this [of 4] this [of 8] this [of 12] sep_off [of 16 0 c] sep_off [of 16 4 c] sep_off [of 16 8 c] sep_off [of 16 12 c]
  have z: "load32 (kmemory s') c = 0" "load32 (kmemory s') (c + 4) = 0" "load32 (kmemory s') (c + 8) = 0" "load32 (kmemory s') (c + 12) = 0"
    by (simp_all add: m load32_store32_sep)
  show "context_at (kmemory s') c = \<lparr>cx_edi = 0, cx_esi = 0, cx_ebx = 0, cx_ebp = 0, cx_eip = fr\<rparr>"
    using z by (simp add: context_at_def) (simp add: m)
  have "load32 (memset ?m c 0 20) (c + 20) = load32 ?m (c + 20)" using b [of 20] b [of 21] b [of 22] b [of 23] by (intro load32_cong) (simp_all add: add.assoc)
  then show "load32 (kmemory s') (c + 20) = tr" using sep_off [of 16 20 c] by (simp add: m load32_store32_sep)
qed

text \<open>
  (C17) The first steps of a process. When the scheduler switches to the context of a process that \<^verbatim>\<open>allocproc\<close> has made, the process starts in
  \<^verbatim>\<open>forkret\<close>, and when this returns, it returns to \<^verbatim>\<open>trapret\<close> with the stack pointer at the trap frame of the process, and the
  process goes on in user space with the registers of that frame, which \<^verbatim>\<open>fork\<close> or \<^verbatim>\<open>userinit\<close> has filled in.
\<close>

theorem new_process_starts:
  assumes "allocproc tr fr k = Ok (Some i) k'" and "v = p_kstack (ptable k' ! i)"
    and "placed code (eip u) swtch_code b" and "swtch_apart u" and "carg 1 u = p_context (ptable k' ! i)"
    and "\<forall>x. unat (x - carg 1 u) < 24 \<longrightarrow> xmem u x = kmemory k' x"
    and "sep (gr u ESP - 16) 16 (carg 1 u) 24" and "sep (carg 0 u) 4 (carg 1 u) 24"
    and "placed code tr trapret_code b'"
  shows "\<exists>w. reaches code u w \<and> eip w = fr \<and> tos w = tr \<and>
    (\<forall>w'. eip w' = tos w \<and> gr w' ESP = gr w ESP + 4 \<and> sr w' CS AND 3 = 0 \<and> frame_sregs (xmem w') (v + KSTACKSIZE - sizeof_trapframe) CS AND 3 = 3 \<longrightarrow>
       (\<exists>z. reaches code w' z \<and> user_context z = frame_at (xmem w') (v + KSTACKSIZE - sizeof_trapframe)))"
proof -
  have c: "carg 1 u = v + 3996" using assms(2,5) allocproc_inv(2) [OF assms(1)] by simp
  have m: "xmem u (v + 3996 + of_nat n) = kmemory k' (v + 3996 + of_nat n)" if "n < 24" for n
    using assms(6) that unfolding c by (simp add: unat_of_nat_small)
  have cx: "context_at (xmem u) (carg 1 u) = \<lparr>cx_edi = 0, cx_esi = 0, cx_ebx = 0, cx_ebp = 0, cx_eip = fr\<rparr>"
    unfolding c using context_at_cong [of "xmem u" "v + 3996" "kmemory k'"] m allocproc_stack(1) [OF assms(1)] assms(2) by simp
  have tr: "load32 (xmem u) (v + 3996 + 20) = tr"
    using m [of 20] m [of 21] m [of 22] m [of 23] allocproc_stack(2) [OF assms(1)] assms(2) by (simp add: load32_def)
  obtain w where w: "reaches code u w" "xmem w = swtch_mem u" "gr w ESP = v + 3996 + 20" "eip w = fr"
    using swtch_run [OF assms(3,4)] cx by (auto simp: c simp del: One_nat_def)
  have "sep (gr u ESP - 16) 16 (v + 3996 + 20) 4" "sep (carg 0 u) 4 (v + 3996 + 20) 4"
    using sep_sub [OF assms(7), of 0 16 20 4] sep_sub [OF assms(8), of 0 4 20 4] by (simp_all add: c del: One_nat_def)
  then have t: "tos w = tr" using tr by (simp add: tos_def w(2,3) swtch_mem_other)
  have "\<exists>z. reaches code w' z \<and> user_context z = frame_at (xmem w') (v + KSTACKSIZE - sizeof_trapframe)"
    if "eip w' = tos w" "gr w' ESP = gr w ESP + 4" "sr w' CS AND 3 = 0" "frame_sregs (xmem w') (v + KSTACKSIZE - sizeof_trapframe) CS AND 3 = 3" for w'
    using trapret_run [of code w' b' "v + KSTACKSIZE - sizeof_trapframe"] that assms(9) t w(3) by (auto simp: KSTACKSIZE_def sizeof_trapframe_def)
  then show ?thesis using w(1,4) t by blast
qed

text \<open>A process whose stack is the page at \<open>0x80100000\<close>; \<^verbatim>\<open>trapret\<close> is at \<open>0x2000\<close>, \<^verbatim>\<open>forkret\<close> at \<open>0x3000\<close>.\<close>

definition spawn_code :: code where
  "spawn_code = code_at 0x100 swtch_code ++ code_at 0x2000 trapret_code"

theorem new_process_starts_witness:
  "\<exists>k' w. allocproc 0x2000 0x3000 (proc_one [parent_proc, child_proc, zero_proc]\<lparr>use_lock := False, freelist := 0x80100000\<rparr>) = Ok (Some 2) k' \<and>
     reaches spawn_code (swtch_call (blank\<lparr>xmem := kmemory k'\<rparr>) 0x4FF0 0x5004 0x80100F9C) w \<and> eip w = 0x3000 \<and> tos w = 0x2000"
proof -
  let ?k = "proc_one [parent_proc, child_proc, zero_proc]\<lparr>use_lock := False, freelist := 0x80100000\<rparr>"
  have f: "find_index (\<lambda>p. p_state p = UNUSED) [parent_proc, child_proc, zero_proc] = Some 2"
    by (simp add: parent_proc_def child_proc_def zero_proc_def numeral_2_eq_2)
  obtain k' where k': "allocproc 0x2000 0x3000 ?k = Ok (Some 2) k'" "0x80100000 = p_kstack (ptable k' ! 2)"
    using f by (simp add: allocproc_def kalloc_def kdefs acquire_def release_def upd_proc_def wr32_def memsetK_def Let_def)
  let ?u = "swtch_call (blank\<lparr>xmem := kmemory k'\<rparr>) 0x4FF0 0x5004 0x80100F9C"
  have pl: "placed spawn_code (eip ?u) swtch_code 0x10D" "placed spawn_code 0x2000 trapret_code 0x2007"
    by (simp_all add: swtch_call_args(5) spawn_code_def code_at_def map_add_def swtch_code_def trapret_code_def)
  have ap: "swtch_apart ?u" "sep (gr ?u ESP - 16) 16 (carg 1 ?u) 24" "sep (carg 0 ?u) 4 (carg 1 ?u) 24"
    unfolding swtch_apart_def swtch_call_args by (simp_all add: sep_def)
  have c: "carg 1 ?u = p_context (ptable k' ! 2)"
    unfolding swtch_call_args using allocproc_inv(2) [OF k'(1)] k'(2) by simp
  have m: "xmem ?u x = kmemory k' x" if "unat (x - carg 1 ?u) < 24" for x
  proof -
    have "12 \<le> unat (x - 0x4FF0)"
    proof (rule ccontr)
      assume "\<not> 12 \<le> unat (x - 0x4FF0)"
      then show False using that unfolding swtch_call_args by (auto simp: unat_sub_if' word_le_nat_alt split: if_splits)
    qed
    then show ?thesis by (simp add: swtch_call_other)
  qed
  from new_process_starts [OF k' pl(1) ap(1) c _ ap(2,3) pl(2)] m k'(1) show ?thesis by blast
qed

end
